(* ===== verification/SociPrelude.thy ===== *)
theory SociPrelude
  imports Main "HOL-Library.Word"
begin

text \<open>
  What every component shares: the exceptions of the program as one datatype, the effect of a
  C++ member function (it reads and writes the state of its objects, it may throw, and a
  rejection loop in it may not end), the judgement \<open>yields\<close> for total correctness of such
  a function, and generic facts on lists.

  An effect keeps the state when it throws, because the objects outlive the exception. The
  outermost option is \<open>None\<close> for a call that does not return.
\<close>

section \<open>Exceptions\<close>

text \<open>\<open>soci::optimization::Status\<close> (include/soci/optimization.hpp).\<close>

datatype opt_status =
    Optimal
  | InvalidArgument
  | NoFeasibleSolution
  | NumericRangeExceeded

datatype exn =
    StdInvalidArgument string
  | StdRuntimeError string
  | StdLogicError string
  | StdLengthError string
  | FilesystemError string
  | SociError string
  | PredicateError string
  | OptimizationError opt_status string

section \<open>Effects\<close>

type_synonym ('s, 'a) eff = "'s \<Rightarrow> ((exn + 'a) \<times> 's) option"

definition ret :: "'a \<Rightarrow> ('s, 'a) eff" where
  "ret a = (\<lambda>s. Some (Inr a, s))"

definition throw :: "exn \<Rightarrow> ('s, 'a) eff" where
  "throw e = (\<lambda>s. Some (Inl e, s))"

definition bnd :: "('s, 'a) eff \<Rightarrow> ('a \<Rightarrow> ('s, 'b) eff) \<Rightarrow> ('s, 'b) eff" where
  "bnd m f = (\<lambda>s. case m s of
     None \<Rightarrow> None
   | Some (Inl e, s') \<Rightarrow> Some (Inl e, s')
   | Some (Inr a, s') \<Rightarrow> f a s')"

definition get_st :: "('s, 's) eff" where
  "get_st = (\<lambda>s. Some (Inr s, s))"

definition upd_st :: "('s \<Rightarrow> 's) \<Rightarrow> ('s, unit) eff" where
  "upd_st g = (\<lambda>s. Some (Inr (), g s))"

definition catch :: "('s, 'a) eff \<Rightarrow> (exn \<Rightarrow> ('s, 'a) eff) \<Rightarrow> ('s, 'a) eff" where
  "catch m h = (\<lambda>s. case m s of
     None \<Rightarrow> None
   | Some (Inl e, s') \<Rightarrow> h e s'
   | Some (Inr a, s') \<Rightarrow> Some (Inr a, s'))"

text \<open>A pure computation that may throw, used inside an effect.\<close>

definition of_sum :: "exn + 'a \<Rightarrow> ('s, 'a) eff" where
  "of_sum r = (\<lambda>s. Some (r, s))"

definition guard :: "bool \<Rightarrow> exn \<Rightarrow> ('s, unit) eff" where
  "guard b e = (if b then ret () else throw e)"

text \<open>
  An effect on one object, run in a state that holds the object as a component: \<open>zoom\<close>
  with the component's selector and update.
\<close>

definition zoom ::
  "('s \<Rightarrow> 'r) \<Rightarrow> (('r \<Rightarrow> 'r) \<Rightarrow> 's \<Rightarrow> 's) \<Rightarrow> ('r, 'a) eff \<Rightarrow> ('s, 'a) eff" where
  "zoom sel upd m = (\<lambda>s. case m (sel s) of
     None \<Rightarrow> None
   | Some (r, g) \<Rightarrow> Some (r, upd (\<lambda>_. g) s))"

text \<open>The loop \<open>do x = m(); while (!P(x));\<close>, which may not end.\<close>

partial_function (option) repeat_until ::
  "('s, 'a) eff \<Rightarrow> ('a \<Rightarrow> bool) \<Rightarrow> ('s, 'a) eff" where
  "repeat_until m P s = (case m s of
     None \<Rightarrow> None
   | Some (r, s') \<Rightarrow> (case r of
       Inl e \<Rightarrow> Some (Inl e, s')
     | Inr a \<Rightarrow> if P a then Some (Inr a, s') else repeat_until m P s'))"

text \<open>The loops over a list: one that collects results, one that carries an accumulator.\<close>

primrec mapM :: "('a \<Rightarrow> ('s, 'b) eff) \<Rightarrow> 'a list \<Rightarrow> ('s, 'b list) eff" where
  "mapM f [] = ret []"
| "mapM f (x # xs) = bnd (f x) (\<lambda>y. bnd (mapM f xs) (\<lambda>ys. ret (y # ys)))"

primrec foldM :: "('a \<Rightarrow> 'b \<Rightarrow> ('s, 'b) eff) \<Rightarrow> 'a list \<Rightarrow> 'b \<Rightarrow> ('s, 'b) eff" where
  "foldM f [] b = ret b"
| "foldM f (x # xs) b = bnd (f x b) (foldM f xs)"

text \<open>The same in the sum type, for loops that have no state.\<close>

definition sbind :: "exn + 'a \<Rightarrow> ('a \<Rightarrow> exn + 'b) \<Rightarrow> exn + 'b" where
  "sbind r f = (case r of Inl e \<Rightarrow> Inl e | Inr a \<Rightarrow> f a)"

lemma sbind_simps [simp]:
  "sbind (Inl e) f = Inl e"
  "sbind (Inr a) f = f a"
  by (simp_all add: sbind_def)

lemma sbind_eq_Inr: "sbind r f = Inr b \<longleftrightarrow> (\<exists>a. r = Inr a \<and> f a = Inr b)"
  by (cases r) (auto simp: sbind_def)

primrec smap :: "('a \<Rightarrow> exn + 'b) \<Rightarrow> 'a list \<Rightarrow> exn + 'b list" where
  "smap f [] = Inr []"
| "smap f (x # xs) = sbind (f x) (\<lambda>y. sbind (smap f xs) (\<lambda>ys. Inr (y # ys)))"

lemma smap_Inr_iff:
  "smap f xs = Inr ys \<longleftrightarrow> list_all2 (\<lambda>x y. f x = Inr y) xs ys"
  by (induction xs arbitrary: ys) (auto simp: sbind_eq_Inr list_all2_Cons1)

section \<open>Equations of the effects\<close>

named_theorems eff_simps "unfolding of the effect combinators"

lemma ret_app [eff_simps]: "ret a s = Some (Inr a, s)"
  by (simp add: ret_def)

lemma throw_app [eff_simps]: "throw e s = Some (Inl e, s)"
  by (simp add: throw_def)

lemma get_st_app [eff_simps]: "get_st s = Some (Inr s, s)"
  by (simp add: get_st_def)

lemma upd_st_app [eff_simps]: "upd_st g s = Some (Inr (), g s)"
  by (simp add: upd_st_def)

lemma of_sum_app [eff_simps]: "of_sum r s = Some (r, s)"
  by (simp add: of_sum_def)

lemma bnd_app [eff_simps]:
  "bnd m f s = (case m s of
     None \<Rightarrow> None
   | Some (r, s') \<Rightarrow> (case r of Inl e \<Rightarrow> Some (Inl e, s') | Inr a \<Rightarrow> f a s'))"
  by (simp add: bnd_def split: option.splits prod.splits sum.splits)

lemma catch_app [eff_simps]:
  "catch m h s = (case m s of
     None \<Rightarrow> None
   | Some (r, s') \<Rightarrow> (case r of Inl e \<Rightarrow> h e s' | Inr a \<Rightarrow> Some (Inr a, s')))"
  by (simp add: catch_def split: option.splits prod.splits sum.splits)

lemma zoom_app [eff_simps]:
  "zoom sel upd m s = (case m (sel s) of
     None \<Rightarrow> None | Some (r, g) \<Rightarrow> Some (r, upd (\<lambda>_. g) s))"
  by (simp add: zoom_def)

lemma bnd_ret [simp]: "bnd (ret a) f = f a"
  by (rule ext) (simp add: eff_simps)

lemma bnd_throw [simp]: "bnd (throw e) f = throw e"
  by (rule ext) (simp add: eff_simps)

lemma bnd_assoc: "bnd (bnd m f) g = bnd m (\<lambda>x. bnd (f x) g)"
  by (rule ext) (simp add: eff_simps split: option.splits prod.splits sum.splits)

lemma guard_simps [simp]:
  "guard True e = ret ()"
  "guard False e = throw e"
  by (simp_all add: guard_def)

section \<open>Total correctness\<close>

text \<open>
  \<open>yields I E m R\<close>: from every state in the invariant \<open>I\<close> the call returns (it does not
  loop), leaves a state in \<open>I\<close>, and either its value satisfies \<open>R\<close> or it throws an
  exception in \<open>E\<close>. With \<open>E = no_exn\<close> the call returns a value.
\<close>

definition yields ::
  "('s \<Rightarrow> bool) \<Rightarrow> (exn \<Rightarrow> bool) \<Rightarrow> ('s, 'a) eff \<Rightarrow> ('a \<Rightarrow> bool) \<Rightarrow> bool" where
  "yields I E m R \<longleftrightarrow> (\<forall>s. I s \<longrightarrow>
     (\<exists>r s'. m s = Some (r, s') \<and> I s' \<and> (case r of Inl e \<Rightarrow> E e | Inr a \<Rightarrow> R a)))"

definition no_exn :: "exn \<Rightarrow> bool" where
  "no_exn e \<longleftrightarrow> False"

named_theorems yields_rules "structural rules of the judgement yields"

lemma yieldsI:
  assumes "\<And>s. I s \<Longrightarrow>
    \<exists>r s'. m s = Some (r, s') \<and> I s' \<and> (case r of Inl e \<Rightarrow> E e | Inr a \<Rightarrow> R a)"
  shows "yields I E m R"
  using assms by (simp add: yields_def)

lemma yieldsI_ok:
  assumes "\<And>s. I s \<Longrightarrow> \<exists>a s'. m s = Some (Inr a, s') \<and> I s' \<and> R a"
  shows "yields I E m R"
proof (rule yieldsI)
  fix s assume "I s"
  then obtain a s' where "m s = Some (Inr a, s')" "I s'" "R a" using assms by blast
  then show "\<exists>r s'. m s = Some (r, s') \<and> I s' \<and> (case r of Inl e \<Rightarrow> E e | Inr a \<Rightarrow> R a)"
    by simp
qed

lemma yieldsD:
  assumes "yields I E m R" and "I s"
  obtains r s' where "m s = Some (r, s')" and "I s'"
    and "case r of Inl e \<Rightarrow> E e | Inr a \<Rightarrow> R a"
  using assms unfolding yields_def by blast

lemma yields_no_exnD:
  assumes "yields I no_exn m R" and "I s"
  obtains a s' where "m s = Some (Inr a, s')" and "I s'" and "R a"
proof -
  from assms obtain r s' where r: "m s = Some (r, s')" "I s'"
    "case r of Inl e \<Rightarrow> no_exn e | Inr a \<Rightarrow> R a" by (rule yieldsD)
  then obtain a where "r = Inr a" "R a" by (cases r) (auto simp: no_exn_def)
  with r that show thesis by blast
qed

lemma yields_ret [yields_rules]: "R a \<Longrightarrow> yields I E (ret a) R"
  by (simp add: yields_def eff_simps)

lemma yields_throw [yields_rules]: "E e \<Longrightarrow> yields I E (throw e) R"
  by (simp add: yields_def eff_simps)

lemma yields_bnd [yields_rules]:
  assumes m: "yields I E m Q" and f: "\<And>a. Q a \<Longrightarrow> yields I E (f a) R"
  shows "yields I E (bnd m f) R"
proof (rule yieldsI)
  fix s assume s: "I s"
  from m s obtain r s' where r: "m s = Some (r, s')" "I s'"
    and q: "case r of Inl e \<Rightarrow> E e | Inr a \<Rightarrow> Q a" by (rule yieldsD)
  show "\<exists>r s'. bnd m f s = Some (r, s') \<and> I s' \<and> (case r of Inl e \<Rightarrow> E e | Inr a \<Rightarrow> R a)"
  proof (cases r)
    case (Inl e)
    with r q show ?thesis by (simp add: eff_simps)
  next
    case (Inr a)
    with q have "Q a" by simp
    then have "yields I E (f a) R" by (rule f)
    with r(2) obtain r' s'' where "f a s' = Some (r', s'')" "I s''"
      "case r' of Inl e \<Rightarrow> E e | Inr a \<Rightarrow> R a" by (blast elim: yieldsD)
    with r(1) Inr show ?thesis by (simp add: eff_simps)
  qed
qed

text \<open>What the invariant implies may be assumed.\<close>

lemma yields_pre:
  assumes "\<And>s. I s \<Longrightarrow> yields I E m R"
  shows "yields I E m R"
  using assms unfolding yields_def by blast

lemma yields_of_sum [yields_rules]: "r = Inr a \<Longrightarrow> R a \<Longrightarrow> yields I E (of_sum r) R"
  by (simp add: yields_def eff_simps)

lemma yields_weaken:
  assumes "yields I E m Q" and "\<And>a. Q a \<Longrightarrow> R a"
  shows "yields I E m R"
proof (rule yieldsI)
  fix s assume "I s"
  with assms(1) obtain r s' where "m s = Some (r, s')" "I s'"
    "case r of Inl e \<Rightarrow> E e | Inr a \<Rightarrow> Q a" by (rule yieldsD)
  then show "\<exists>r s'. m s = Some (r, s') \<and> I s' \<and> (case r of Inl e \<Rightarrow> E e | Inr a \<Rightarrow> R a)"
    using assms(2) by (cases r) auto
qed

lemma yields_weaken_exn:
  assumes "yields I E m R" and "\<And>e. E e \<Longrightarrow> F e"
  shows "yields I F m R"
proof (rule yieldsI)
  fix s assume "I s"
  with assms(1) obtain r s' where "m s = Some (r, s')" "I s'"
    "case r of Inl e \<Rightarrow> E e | Inr a \<Rightarrow> R a" by (rule yieldsD)
  then show "\<exists>r s'. m s = Some (r, s') \<and> I s' \<and> (case r of Inl e \<Rightarrow> F e | Inr a \<Rightarrow> R a)"
    using assms(2) by (cases r) auto
qed

lemma yields_mapM:
  assumes "\<And>x. x \<in> set xs \<Longrightarrow> yields I E (f x) (R x)"
  shows "yields I E (mapM f xs) (list_all2 R xs)"
  using assms
proof (induction xs)
  case Nil
  show ?case by (simp add: yields_ret)
next
  case (Cons x xs)
  have x: "yields I E (f x) (R x)" using Cons.prems by simp
  have xs: "yields I E (mapM f xs) (list_all2 R xs)" using Cons by simp
  show ?case
    unfolding mapM.simps
    by (rule yields_bnd [OF x], rule yields_bnd [OF xs]) (simp add: yields_ret)
qed

lemma yields_mapM_values:
  assumes "list_all2 P xs vs" and "\<And>x v. P x v \<Longrightarrow> yields I E (f x) (Q v)"
  shows "yields I E (mapM f xs) (list_all2 Q vs)"
  using assms(1)
proof (induction xs vs rule: list_all2_induct)
  case Nil
  show ?case by (simp add: yields_ret)
next
  case (Cons x xs v vs)
  show ?case
    unfolding mapM.simps
    by (rule yields_bnd [OF assms(2) [OF Cons(1)]], rule yields_bnd [OF Cons(3)])
       (simp add: yields_ret)
qed

lemma yields_foldM:
  assumes "\<And>x b. x \<in> set xs \<Longrightarrow> J b \<Longrightarrow> yields I E (f x b) J" and "J b"
  shows "yields I E (foldM f xs b) J"
  using assms
proof (induction xs arbitrary: b)
  case Nil
  then show ?case by (simp add: yields_ret)
next
  case (Cons x xs)
  have "yields I E (f x b) J" using Cons.prems by simp
  then show ?case
    unfolding foldM.simps by (rule yields_bnd) (use Cons in simp)
qed

text \<open>With an invariant that counts the rounds.\<close>

lemma yields_foldM_indexed:
  assumes "J 0 b"
    and "\<And>i b. i < length xs \<Longrightarrow> J i b \<Longrightarrow> yields I E (f (xs ! i) b) (J (Suc i))"
  shows "yields I E (foldM f xs b) (J (length xs))"
  using assms
proof (induction xs arbitrary: b J)
  case Nil
  then show ?case by (simp add: yields_ret)
next
  case (Cons x xs)
  have "yields I E (foldM f xs b') (\<lambda>r. J (Suc (length xs)) r)" if "J 1 b'" for b'
    by (rule Cons.IH [of "\<lambda>i. J (Suc i)"]) (use that Cons.prems(2) [of "Suc _"] in auto)
  with Cons.prems(2) [of 0] Cons.prems(1) show ?case by (auto intro: yields_bnd)
qed

lemma yields_zoom:
  assumes m: "yields J E m R"
    and sel: "\<And>s. I s \<Longrightarrow> J (sel s)"
    and upd: "\<And>s g. I s \<Longrightarrow> J g \<Longrightarrow> I (upd (\<lambda>_. g) s)"
  shows "yields I E (zoom sel upd m) R"
proof (rule yieldsI)
  fix s assume s: "I s"
  then have "J (sel s)" by (rule sel)
  with m obtain r g where "m (sel s) = Some (r, g)" "J g"
    "case r of Inl e \<Rightarrow> E e | Inr a \<Rightarrow> R a" by (rule yieldsD)
  with s show "\<exists>r s'. zoom sel upd m s = Some (r, s') \<and> I s' \<and>
      (case r of Inl e \<Rightarrow> E e | Inr a \<Rightarrow> R a)"
    by (simp add: eff_simps upd)
qed

text \<open>
  A loop ends when each failed round lowers a measure; the accepted value satisfies \<open>P\<close>.
\<close>

lemma repeat_until_total:
  assumes step: "\<And>s. J s \<Longrightarrow> \<exists>a s'. m s = Some (Inr a, s') \<and>
      (if P a then Q a s' else J s' \<and> \<mu> s' < (\<mu> s :: nat))"
    and s: "J s"
  shows "\<exists>a s'. repeat_until m P s = Some (Inr a, s') \<and> P a \<and> Q a s'"
  using s
proof (induction "\<mu> s" arbitrary: s rule: less_induct)
  case less
  from step [OF less.prems] obtain a s' where m: "m s = Some (Inr a, s')"
    and c: "if P a then Q a s' else J s' \<and> \<mu> s' < \<mu> s" by blast
  show ?case
  proof (cases "P a")
    case True
    with m c show ?thesis by (simp add: repeat_until.simps [of m P s])
  next
    case False
    with c have "J s'" "\<mu> s' < \<mu> s" by simp_all
    with less.hyps [of s'] have "\<exists>a s''. repeat_until m P s' = Some (Inr a, s'') \<and> P a \<and> Q a s''"
      by blast
    with m False show ?thesis by (simp add: repeat_until.simps [of m P s])
  qed
qed

section \<open>Total correctness from one state\<close>

text \<open>
  \<open>runs E m s Q\<close>: from the state \<open>s\<close> the call returns, with a value and a state in
  \<open>Q\<close> or with an exception in \<open>E\<close>. It is used where the final state depends on the
  initial one.
\<close>

definition runs ::
  "(exn \<Rightarrow> bool) \<Rightarrow> ('s, 'a) eff \<Rightarrow> 's \<Rightarrow> ('a \<Rightarrow> 's \<Rightarrow> bool) \<Rightarrow> bool" where
  "runs E m s Q \<longleftrightarrow> (case m s of
     None \<Rightarrow> False
   | Some (r, s') \<Rightarrow> (case r of Inl e \<Rightarrow> E e | Inr a \<Rightarrow> Q a s'))"

named_theorems runs_rules "structural rules of the judgement runs"

lemma runs_ret [runs_rules]: "Q a s \<Longrightarrow> runs E (ret a) s Q"
  by (simp add: runs_def eff_simps)

lemma runs_throw [runs_rules]: "E e \<Longrightarrow> runs E (throw e) s Q"
  by (simp add: runs_def eff_simps)

lemma runs_bnd [runs_rules]:
  "runs E m s (\<lambda>a s'. runs E (f a) s' Q) \<Longrightarrow> runs E (bnd m f) s Q"
  unfolding runs_def by (auto simp: eff_simps split: option.splits sum.splits)

lemma runs_weaken: "runs E m s Q \<Longrightarrow> (\<And>a s'. Q a s' \<Longrightarrow> R a s') \<Longrightarrow> runs E m s R"
  unfolding runs_def by (auto split: option.splits sum.splits)

lemma runs_weaken_exn: "runs E m s Q \<Longrightarrow> (\<And>e. E e \<Longrightarrow> F e) \<Longrightarrow> runs F m s Q"
  unfolding runs_def by (auto split: option.splits sum.splits)

lemma runs_bndI:
  assumes "runs E m s Q" "\<And>a s'. Q a s' \<Longrightarrow> runs E (f a) s' R"
  shows "runs E (bnd m f) s R"
  by (rule runs_bnd, rule runs_weaken [OF assms(1)]) (rule assms(2))

lemma runs_of_yields: "yields I E m R \<Longrightarrow> I s \<Longrightarrow> runs E m s (\<lambda>a s'. R a \<and> I s')"
  unfolding runs_def yields_def by (fastforce split: option.splits sum.splits)

lemma runs_foldM_indexed:
  assumes "J 0 b s"
    and "\<And>i b s. i < length xs \<Longrightarrow> J i b s \<Longrightarrow> runs E (f (xs ! i) b) s (J (Suc i))"
  shows "runs E (foldM f xs b) s (J (length xs))"
  using assms
proof (induction xs arbitrary: b s J)
  case Nil
  then show ?case by (simp add: runs_ret)
next
  case (Cons x xs)
  have ih: "runs E (foldM f xs b') s' (\<lambda>r t. J (Suc (length xs)) r t)" if "J 1 b' s'" for b' s'
    by (rule Cons.IH [of "\<lambda>i. J (Suc i)"]) (use that Cons.prems(2) [of "Suc _"] in auto)
  have "runs E (f x b) s (J 1)" using Cons.prems(2) [of 0 b s] Cons.prems(1) by simp
  then show ?case unfolding foldM.simps list.size add_Suc_right by (rule runs_bndI) (use ih in simp)
qed

lemma runs_zoom:
  "runs E m (sel s) (\<lambda>a g. Q a (upd (\<lambda>_. g) s)) \<Longrightarrow> runs E (zoom sel upd m) s Q"
  unfolding runs_def by (auto simp: eff_simps split: option.splits sum.splits)

lemma runs_no_exnD:
  assumes "runs no_exn m s Q"
  obtains a s' where "m s = Some (Inr a, s')" and "Q a s'"
proof (cases "m s")
  case (Some p)
  with assms that show ?thesis
    by (cases p; cases "fst p") (auto simp: runs_def no_exn_def)
qed (use assms in \<open>simp add: runs_def\<close>)

section \<open>What a call leaves alone\<close>

text \<open>\<open>keeps f m\<close>: however \<open>m\<close> ends, the part \<open>f\<close> of the state is the same.\<close>

definition keeps :: "('s \<Rightarrow> 'v) \<Rightarrow> ('s, 'a) eff \<Rightarrow> bool" where
  "keeps f m \<longleftrightarrow> (\<forall>s r s'. m s = Some (r, s') \<longrightarrow> f s' = f s)"

named_theorems keeps_rules "structural rules of the judgement keeps"

lemma keepsD: "keeps f m \<Longrightarrow> m s = Some (r, s') \<Longrightarrow> f s' = f s"
  by (simp add: keeps_def)

lemma keeps_basic [keeps_rules]:
  "keeps f (ret a)" "keeps f (throw e)" "keeps f (of_sum r)" "keeps f get_st"
  by (simp_all add: keeps_def eff_simps)

lemma keeps_upd_st [keeps_rules]: "(\<And>s. f (g s) = f s) \<Longrightarrow> keeps f (upd_st g)"
  by (simp add: keeps_def eff_simps)

lemma keeps_bnd [keeps_rules]: "keeps f m \<Longrightarrow> (\<And>a. keeps f (k a)) \<Longrightarrow> keeps f (bnd m k)"
  unfolding keeps_def by (fastforce simp: eff_simps split: option.splits prod.splits sum.splits)

lemma keeps_if [keeps_rules]: "(b \<Longrightarrow> keeps f m) \<Longrightarrow> (\<not> b \<Longrightarrow> keeps f k) \<Longrightarrow> keeps f (if b then m else k)"
  by simp

lemma keeps_let [keeps_rules]: "(\<And>x. keeps f (k x)) \<Longrightarrow> keeps f (let x = v in k x)"
  by simp

lemma keeps_prod [keeps_rules]: "(\<And>x y. keeps f (k x y)) \<Longrightarrow> keeps f (case p of (x, y) \<Rightarrow> k x y)"
  by (cases p) simp

lemma keeps_zoom [keeps_rules]: "(\<And>s g. f (upd (\<lambda>_. g) s) = f s) \<Longrightarrow> keeps f (zoom sel upd m)"
  by (simp add: keeps_def eff_simps split: option.splits prod.splits)

lemma keeps_mapM [keeps_rules]: "(\<And>x. keeps f (k x)) \<Longrightarrow> keeps f (mapM k xs)"
  by (induction xs) (auto intro: keeps_rules)

lemma keeps_foldM [keeps_rules]: "(\<And>x b. keeps f (k x b)) \<Longrightarrow> keeps f (foldM k xs b)"
  by (induction xs arbitrary: b) (auto intro: keeps_rules)

section \<open>Lists\<close>

lemma list_all2_nthD_iff:
  "list_all2 R xs ys \<longleftrightarrow> length xs = length ys \<and> (\<forall>i < length xs. R (xs ! i) (ys ! i))"
  by (rule list_all2_conv_all_nth)

lemma map_nth_upt: "map (\<lambda>k. f (xs ! k)) [0..<length xs] = map f xs"
  by (rule nth_equalityI) simp_all

lemma take_append_exact [simp]: "length xs = n \<Longrightarrow> take n (xs @ ys) = xs"
  by simp

lemma drop_append_exact [simp]: "length xs = n \<Longrightarrow> drop n (xs @ ys) = ys"
  by simp

end
