(* ===== verification/NumberTheory.thy ===== *)
theory NumberTheory
  imports Complex_Main SociPrelude
begin

text \<open>
  Arithmetic on the integers that GMP computes with: modular powers, inverses, the group
  \<open>1 + n Z\<close> modulo \<open>n * n\<close> that the Paillier cryptosystem rests on, and Fermat's
  little theorem, from which a key built from distinct primes is a good key.
\<close>

section \<open>Primes and Fermat's little theorem\<close>

definition prime_int :: "int \<Rightarrow> bool" where
  "prime_int p \<longleftrightarrow> 1 < p \<and> (\<forall>d. 1 < d \<longrightarrow> d < p \<longrightarrow> \<not> d dvd p)"

lemma prime_int_gt_1: "prime_int p \<Longrightarrow> 1 < p"
  by (simp add: prime_int_def)

lemma prime_int_coprime:
  assumes p: "prime_int p" and a: "\<not> p dvd a"
  shows "coprime p a"
proof -
  let ?d = "gcd p a"
  have d: "?d dvd p" "?d dvd a" by auto
  have pos: "0 < p" using p by (simp add: prime_int_def)
  have "0 < ?d" using pos by simp
  moreover have "?d \<le> p" using d(1) pos by (rule zdvd_imp_le)
  moreover have "?d \<noteq> p" using d(2) a by metis
  ultimately have "\<not> 1 < ?d" using p d(1) unfolding prime_int_def by (metis order_le_less)
  with \<open>0 < ?d\<close> have "?d = 1" by linarith
  then show ?thesis by (simp add: coprime_iff_gcd_eq_1)
qed

lemma prime_int_dvd_mult:
  "prime_int p \<Longrightarrow> p dvd a * b \<Longrightarrow> p dvd a \<or> p dvd b"
  using prime_int_coprime coprime_dvd_mult_right_iff by blast

lemma prime_dvd_choose:
  assumes p: "prime_int (int p)" and k: "0 < k" "k < p"
  shows "int p dvd int (p choose k)"
proof -
  have "k * (p choose k) = p * ((p - 1) choose (k - 1))"
    using k by (intro times_binomial_minus1_eq) simp
  then have "int k * int (p choose k) = int p * int ((p - 1) choose (k - 1))"
    by (metis of_nat_mult)
  then have "int p dvd int k * int (p choose k)" by simp
  moreover have "\<not> int p dvd int k"
    using k by (metis nat_dvd_not_less of_nat_dvd_iff)
  ultimately show ?thesis using p prime_int_dvd_mult by blast
qed

lemma freshman:
  assumes p: "prime_int (int p)"
  shows "int p dvd (a + 1) ^ p - (a ^ p + 1)"
proof -
  have "0 < p" using p by (auto simp: prime_int_def)
  let ?t = "\<lambda>k. of_nat (p choose k) * a ^ k * (1::int) ^ (p - k)"
  have "(a + 1) ^ p = (\<Sum>k\<le>p. ?t k)" by (rule binomial_ring)
  also have "{..p} = insert 0 (insert p {0<..<p})" using \<open>0 < p\<close> by auto
  also have "(\<Sum>k\<in>insert 0 (insert p {0<..<p}). ?t k) = ?t 0 + (?t p + (\<Sum>k\<in>{0<..<p}. ?t k))"
    using \<open>0 < p\<close> by simp
  finally have "(a + 1) ^ p - (a ^ p + 1) = (\<Sum>k\<in>{0<..<p}. ?t k)" by simp
  moreover have "int p dvd (\<Sum>k\<in>{0<..<p}. ?t k)"
    by (rule dvd_sum) (auto intro!: dvd_mult2 prime_dvd_choose [OF p])
  ultimately show ?thesis by simp
qed

lemma fermat_nat:
  assumes p: "prime_int (int p)"
  shows "int p dvd int a ^ p - int a"
proof (induction a)
  case 0
  have "0 < p" using p by (auto simp: prime_int_def)
  then show ?case by (simp add: zero_power)
next
  case (Suc a)
  have "int p dvd ((int a + 1) ^ p - (int a ^ p + 1)) + (int a ^ p - int a)"
    using freshman [OF p] Suc by (rule dvd_add)
  then show ?case by (simp add: algebra_simps)
qed

lemma fermat_little:
  assumes p: "prime_int p" and a: "\<not> p dvd a"
  shows "a ^ nat (p - 1) mod p = 1"
proof -
  have gt: "1 < p" using p by (rule prime_int_gt_1)
  define b where "b = a mod p"
  have b: "0 \<le> b" "\<not> p dvd b" using gt a by (auto simp: b_def dvd_mod_iff)
  have "int (nat p) dvd int (nat b) ^ nat p - int (nat b)"
    using gt p by (intro fermat_nat) simp
  then have "p dvd b ^ nat p - b" using gt b by simp
  moreover have "b ^ nat p = b * b ^ nat (p - 1)"
    using gt by (metis Suc_nat_eq_nat_zadd1 add.commute diff_add_cancel int_one_le_iff_zero_less
        less_imp_le linorder_not_le nat_diff_distrib' power_Suc zle_diff1_eq)
  ultimately have "p dvd b * (b ^ nat (p - 1) - 1)" by (simp add: algebra_simps)
  then have "p dvd b ^ nat (p - 1) - 1" using b(2) prime_int_dvd_mult [OF p] by blast
  then have "b ^ nat (p - 1) mod p = 1 mod p" by (simp add: mod_eq_dvd_iff)
  then show ?thesis using gt by (simp add: b_def power_mod)
qed

lemma fermat_multiple:
  assumes p: "prime_int p" and a: "\<not> p dvd a" and l: "p - 1 dvd l" "0 \<le> l"
  shows "a ^ nat l mod p = 1"
proof -
  have gt: "1 < p" using p by (rule prime_int_gt_1)
  from l obtain k where k: "l = (p - 1) * k" by blast
  have "0 \<le> k" using l(2) gt unfolding k by (simp add: zero_le_mult_iff)
  then have "nat l = nat (p - 1) * nat k" using gt k by (simp add: nat_mult_distrib)
  then have "a ^ nat l mod p = (a ^ nat (p - 1) mod p) ^ nat k mod p"
    by (simp add: power_mult power_mod)
  then show ?thesis using fermat_little [OF p a] gt by simp
qed

section \<open>Congruences to a product\<close>

lemma mod_1_iff_dvd: "1 < (m::int) \<Longrightarrow> a mod m = 1 \<longleftrightarrow> m dvd a - 1"
  by (metis mod_eq_dvd_iff mod_pos_pos_trivial zero_le_one)

lemma coprime_product_mod_1:
  fixes p q :: int
  assumes "coprime p q" "1 < p" "1 < q" "a mod p = 1" "a mod q = 1"
  shows "a mod (p * q) = 1"
proof -
  have "p * q dvd a - 1"
    using assms by (intro divides_mult) (simp_all add: mod_1_iff_dvd)
  moreover have "1 < p * q" using assms by (simp add: less_1_mult)
  ultimately show ?thesis by (simp add: mod_1_iff_dvd)
qed

section \<open>Modular powers and inverses\<close>

text \<open>
  \<open>mpz_powm\<close> and \<open>mpz_invert\<close> of GMP: the power reduced to \<open>[0, m)\<close>, and the inverse
  in \<open>[0, m)\<close> when there is one.
\<close>

definition powm :: "int \<Rightarrow> nat \<Rightarrow> int \<Rightarrow> int" where
  "powm b e m = b ^ e mod m"

definition minvert :: "int \<Rightarrow> int \<Rightarrow> int option" where
  "minvert a m =
     (if gcd a m = 1 then Some (fst (bezw (nat (a mod m)) (nat m)) mod m) else None)"

lemma powm_range: "0 < m \<Longrightarrow> 0 \<le> powm b e m \<and> powm b e m < m"
  by (simp add: powm_def)

lemma bezw_int:
  assumes "0 \<le> a" "0 \<le> m"
  shows "fst (bezw (nat a) (nat m)) * a + snd (bezw (nat a) (nat m)) * m = gcd a m"
  using bezw_aux [of "nat a" "nat m"] assms by (simp add: gcd_int_def)

lemma minvert_correct:
  assumes "minvert a m = Some d" "1 < m"
  shows "a * d mod m = 1" and "0 \<le> d" and "d < m"
proof -
  let ?x = "fst (bezw (nat (a mod m)) (nat m))" and ?y = "snd (bezw (nat (a mod m)) (nat m))"
  from assms(1) have g: "gcd a m = 1" and d: "d = ?x mod m"
    by (auto simp: minvert_def split: if_splits)
  have "?x * (a mod m) + ?y * m = gcd (a mod m) m"
    using assms(2) by (intro bezw_int) auto
  also have "\<dots> = 1" using g by (metis gcd_red_int gcd.commute)
  finally have "(a mod m) * ?x = 1 + (- ?y) * m" by (simp add: algebra_simps)
  then have "(a mod m) * ?x mod m = 1 mod m" by (metis mod_mult_self1)
  then show "a * d mod m = 1"
    using assms(2) by (simp add: d mod_mult_right_eq mod_mult_left_eq)
  show "0 \<le> d" "d < m" using assms(2) by (simp_all add: d)
qed

lemma minvert_exists: "coprime a m \<Longrightarrow> \<exists>d. minvert a m = Some d"
  by (simp add: minvert_def coprime_iff_gcd_eq_1)

lemma minvert_None: "minvert a m = None \<longleftrightarrow> \<not> coprime a m"
  by (auto simp: minvert_def coprime_iff_gcd_eq_1)

lemma coprime_of_inverse:
  assumes "a * d mod m = 1" "1 < (m::int)"
  shows "coprime a m"
proof (rule coprimeI)
  fix c assume c: "c dvd a" "c dvd m"
  have "m dvd a * d - 1" using assms by (simp add: mod_1_iff_dvd)
  with c have "c dvd a * d - 1" "c dvd a * d" by (auto intro: dvd_trans)
  then have "c dvd a * d - (a * d - 1)" using dvd_diff by blast
  then show "is_unit c" by simp
qed

lemma inverse_unique:
  fixes m :: int
  assumes "a * d mod m = 1" "a * e mod m = 1" "1 < m"
  shows "d mod m = e mod m"
proof -
  have "d mod m = d * (a * e mod m) mod m" using assms by simp
  also have "\<dots> = (a * d mod m) * e mod m"
    by (metis (no_types, opaque_lifting) mod_mult_left_eq mod_mult_right_eq mult.assoc mult.commute)
  also have "\<dots> = e mod m" using assms by simp
  finally show ?thesis .
qed

section \<open>The group of units \<open>1 + n Z\<close> modulo \<open>n * n\<close>\<close>

lemma one_plus_mult:
  "(1 + a * n) * (1 + b * n) mod (n * n) = (1 + (a + b) * n) mod (n * (n::int))"
proof -
  have "(1 + a * n) * (1 + b * n) = (1 + (a + b) * n) + a * b * (n * n)"
    by (simp add: algebra_simps)
  then show ?thesis by simp
qed

lemma one_plus_power:
  "(1 + a * n) ^ k mod (n * n) = (1 + int k * a * n) mod (n * (n::int))"
proof (induction k)
  case 0
  show ?case by simp
next
  case (Suc k)
  have "(1 + a * n) ^ Suc k mod (n * n) = (1 + a * n) * ((1 + a * n) ^ k mod (n * n)) mod (n * n)"
    by (simp add: mod_mult_right_eq)
  also have "\<dots> = (1 + a * n) * (1 + int k * a * n) mod (n * n)"
    unfolding Suc by (simp add: mod_mult_right_eq)
  also have "\<dots> = (1 + (a + int k * a) * n) mod (n * n)" by (rule one_plus_mult)
  finally show ?case by (simp add: algebra_simps)
qed

lemma one_plus_mod: "0 < n \<Longrightarrow> (1 + a * n) mod (n * n) = (1 + (a mod n) * n) mod (n * (n::int))"
proof -
  have "1 + a * n = (1 + (a mod n) * n) + (a div n) * (n * n)"
    by (metis (no_types, opaque_lifting) add.assoc add.commute distrib_right mult.assoc mod_div_mult_eq)
  then show ?thesis by (metis mod_mult_self1)
qed

lemma one_plus_lt:
  assumes "1 < n" "0 \<le> a" "a < (n::int)"
  shows "(1 + a * n) mod (n * n) = 1 + a * n"
proof -
  have "1 + a * n < n * n"
  proof -
    have "a * n \<le> (n - 1) * n" using assms by (intro mult_right_mono) auto
    also have "\<dots> = n * n - n" by (simp add: algebra_simps)
    finally show ?thesis using assms by linarith
  qed
  then show ?thesis using assms by simp
qed

text \<open>An n-th power of a number that is 1 modulo n is 1 modulo \<open>n * n\<close>.\<close>

lemma nth_power_of_one_mod:
  assumes "1 < (n::int)" "a mod n = 1"
  shows "a ^ nat n mod (n * n) = 1"
proof -
  obtain k where k: "a = 1 + k * n"
  proof
    show "a = 1 + (a div n) * n" using assms(2) by (metis add.commute mod_div_mult_eq)
  qed
  have "a ^ nat n mod (n * n) = (1 + int (nat n) * k * n) mod (n * n)"
    unfolding k by (rule one_plus_power)
  also have "\<dots> = (1 + k * (n * n)) mod (n * n)" using assms by (simp add: algebra_simps)
  also have "\<dots> = 1" using assms by (simp add: less_1_mult)
  finally show ?thesis .
qed

lemma coprime_square: "coprime r (n::int) \<Longrightarrow> coprime r (n * n)"
  by simp

lemma coprime_one_plus: "coprime (1 + m * n) (n::int)"
  by (metis add.commute coprime_mult_self_right_iff coprime_iff_gcd_eq_1 gcd.commute gcd_add_mult gcd_1_int mult.commute)

end
