(* ===== verification/Randomness.thy ===== *)
theory Randomness
  imports NumberTheory
begin

text \<open>
  The random sources of the program: \<open>gmp_randclass\<close> in the OFF backend and the bytes of
  \<open>getrandom\<close> in the threshold client and server. They are not code of the repository, so
  the state holds them as arbitrary sequences of raw integers, one sequence per place in the
  code that draws (which loses nothing: any run reads each draw at one place), and a counter of
  what has been used. The rejection loops over them are modelled as the loops they are.
\<close>

section \<open>The state of the sources\<close>

datatype site =
    SNonce    \<comment> \<open>the nonce of a Paillier encryption\<close>
  | SMask1    \<comment> \<open>\<open>r1\<close> of a multiplication\<close>
  | SMask2    \<comment> \<open>\<open>r2\<close> of a multiplication\<close>
  | SMask3    \<comment> \<open>\<open>r3\<close> of a comparison\<close>
  | SNoise    \<comment> \<open>the noise subtracted from half the modulus in a comparison\<close>
  | SOrient   \<comment> \<open>the orientation bit of a comparison\<close>
  | SOtX0     \<comment> \<open>the two oblivious-transfer nonces and the receiver's key\<close>
  | SOtX1
  | SOtKey
  | SLabel    \<comment> \<open>wire labels\<close>
  | SPrime    \<comment> \<open>the enclave's prime candidates\<close>
  | SShare    \<comment> \<open>the enclave's key share\<close>

record rng =
  src :: "site \<Rightarrow> nat \<Rightarrow> int"
  pos :: "site \<Rightarrow> nat"

definition draw :: "site \<Rightarrow> (int \<Rightarrow> 'a) \<Rightarrow> (rng, 'a) eff" where
  "draw t f = (\<lambda>g. Some (Inr (f (src g t (pos g t))),
     g\<lparr>pos := (pos g)(t := Suc (pos g t))\<rparr>))"

text \<open>\<open>gmp_randclass::get_z_bits\<close> and \<open>get_z_range\<close>.\<close>

definition get_z_bits :: "site \<Rightarrow> nat \<Rightarrow> (rng, int) eff" where
  "get_z_bits t bits = draw t (\<lambda>raw. raw mod 2 ^ bits)"

definition get_z_range :: "site \<Rightarrow> int \<Rightarrow> (rng, int) eff" where
  "get_z_range t limit = draw t (\<lambda>raw. raw mod limit)"

text \<open>\<open>mpz_sizeinbase(x, 2)\<close>: the number of bits of \<open>x\<close>, and 1 for zero.\<close>

fun bit_size_nat :: "nat \<Rightarrow> nat" where
  "bit_size_nat x = (if x = 0 then 0 else Suc (bit_size_nat (x div 2)))"

declare bit_size_nat.simps [simp del]

definition sizeinbase2 :: "int \<Rightarrow> nat" where
  "sizeinbase2 x = (if x = 0 then 1 else bit_size_nat (nat \<bar>x\<bar>))"

text \<open>
  \<open>randomBits\<close> and \<open>randomBelow\<close> of threshold_protocol.cpp. A failing \<open>getrandom\<close>
  is not modelled: the source always delivers.
\<close>

definition randomBits :: "site \<Rightarrow> nat \<Rightarrow> (rng, int) eff" where
  "randomBits t bits = (if bits = 0 then ret 0 else draw t (\<lambda>raw. raw mod 2 ^ bits))"

definition randomBelow :: "site \<Rightarrow> int \<Rightarrow> (rng, int) eff" where
  "randomBelow t limit =
     (if limit \<le> 0 then throw (StdInvalidArgument ''random limit must be positive'')
      else repeat_until (randomBits t (sizeinbase2 (limit - 1))) (\<lambda>v. v < limit))"

section \<open>What a draw delivers\<close>

lemma draw_app:
  "draw t f g = Some (Inr (f (src g t (pos g t))), g\<lparr>pos := (pos g)(t := Suc (pos g t))\<rparr>)"
  by (simp add: draw_def)

text \<open>Draws leave the sources alone, so any property \<open>F\<close> of the sources is an invariant.\<close>

lemma yields_draw:
  assumes "\<And>f i. F f \<Longrightarrow> R (h (f t i))"
  shows "yields (\<lambda>g::rng. F (src g)) E (draw t h) R"
  by (rule yieldsI_ok) (simp add: draw_app assms)

text \<open>
  The rejection loop over one site: it ends when the source delivers an acceptable value
  infinitely often.
\<close>

definition often :: "(int \<Rightarrow> bool) \<Rightarrow> (nat \<Rightarrow> int) \<Rightarrow> bool" where
  "often P f \<longleftrightarrow> (\<forall>i. \<exists>j\<ge>i. P (f j))"

lemma repeat_draw:
  fixes g :: rng
  assumes "j \<ge> pos g t" and "P (h (src g t j))"
  shows "\<exists>a g' k. repeat_until (draw t h) P g = Some (Inr a, g') \<and> P a \<and> src g' = src g \<and>
    pos g t \<le> k \<and> k \<le> j \<and> pos g' t = Suc k \<and> a = h (src g t k)"
proof -
  let ?J = "\<lambda>x::rng. src x = src g \<and> pos g t \<le> pos x t \<and> pos x t \<le> j"
  let ?Q = "\<lambda>a (g'::rng). src g' = src g \<and> (\<exists>k. pos g t \<le> k \<and> k \<le> j \<and> pos g' t = Suc k \<and> a = h (src g t k))"
  have "\<exists>a g'. repeat_until (draw t h) P g = Some (Inr a, g') \<and> P a \<and> ?Q a g'"
  proof (rule repeat_until_total [where J = ?J and \<mu> = "\<lambda>x::rng. Suc j - pos x t"])
    fix x :: rng assume x: "?J x"
    show "\<exists>a x'. draw t h x = Some (Inr a, x') \<and>
        (if P a then ?Q a x' else ?J x' \<and> Suc j - pos x' t < Suc j - pos x t)"
    proof (cases "pos x t = j")
      case True
      with x assms(2) show ?thesis by (auto simp: draw_app)
    next
      case False
      with x have "pos x t < j" by simp
      with x show ?thesis by (auto simp: draw_app)
    qed
  next
    show "?J g" using assms by simp
  qed
  then show ?thesis by blast
qed

lemma yields_repeat_draw:
  assumes "\<And>f. F f \<Longrightarrow> often (\<lambda>raw. P (h raw)) (f t)"
    and "\<And>f i. F f \<Longrightarrow> P (h (f t i)) \<Longrightarrow> R (h (f t i))"
  shows "yields (\<lambda>g::rng. F (src g)) E (repeat_until (draw t h) P) R"
proof (rule yieldsI_ok)
  fix g :: rng assume g: "F (src g)"
  then obtain j where "pos g t \<le> j" "P (h (src g t j))"
    using assms(1) unfolding often_def by blast
  from repeat_draw [of g t j P h, OF this] obtain a g' k where
    "repeat_until (draw t h) P g = Some (Inr a, g')" "P a" "src g' = src g" "a = h (src g t k)"
    by blast
  with g assms(2) show "\<exists>a s'. repeat_until (draw t h) P g = Some (Inr a, s') \<and> F (src s') \<and> R a"
    by auto
qed

text \<open>A rejection loop around a rejection loop is one loop with both tests.\<close>

lemma yields_repeat_repeat_draw:
  assumes acc: "\<And>f. F f \<Longrightarrow> often (\<lambda>raw. P (h raw) \<and> Q (h raw)) (f t)"
    and R: "\<And>f i. F f \<Longrightarrow> P (h (f t i)) \<Longrightarrow> Q (h (f t i)) \<Longrightarrow> R (h (f t i))"
  shows "yields (\<lambda>g::rng. F (src g)) E (repeat_until (repeat_until (draw t h) P) Q) R"
proof (rule yieldsI_ok)
  fix g :: rng assume g: "F (src g)"
  then obtain j where j: "pos g t \<le> j" "P (h (src g t j))" "Q (h (src g t j))"
    using acc unfolding often_def by blast
  let ?J = "\<lambda>x::rng. src x = src g \<and> pos x t \<le> j"
  have "\<exists>a g'. repeat_until (repeat_until (draw t h) P) Q g = Some (Inr a, g') \<and> Q a \<and>
      (P a \<and> src g' = src g \<and> (\<exists>k. a = h (src g t k)))"
  proof (rule repeat_until_total [where J = ?J and \<mu> = "\<lambda>x::rng. Suc j - pos x t"])
    fix x :: rng assume x: "?J x"
    then have "pos x t \<le> j" "P (h (src x t j))" using j by simp_all
    from repeat_draw [of x t j P h, OF this] obtain a x' k where k:
      "repeat_until (draw t h) P x = Some (Inr a, x')" "P a" "src x' = src x"
      "pos x t \<le> k" "k \<le> j" "pos x' t = Suc k" "a = h (src x t k)" by blast
    show "\<exists>a x'. repeat_until (draw t h) P x = Some (Inr a, x') \<and>
        (if Q a then P a \<and> src x' = src g \<and> (\<exists>k. a = h (src g t k))
         else ?J x' \<and> Suc j - pos x' t < Suc j - pos x t)"
    proof (cases "Q a")
      case True
      with k x show ?thesis by auto
    next
      case False
      with k x j have "k < j" by (cases "k = j") auto
      with k x False show ?thesis by auto
    qed
  next
    show "?J g" using j by simp
  qed
  with g R show "\<exists>a s'. repeat_until (repeat_until (draw t h) P) Q g = Some (Inr a, s') \<and>
      F (src s') \<and> R a"
    by (metis (no_types))
qed

section \<open>The number of bits\<close>

lemma bit_size_nat_bounds:
  "x < 2 ^ bit_size_nat x" "x \<noteq> 0 \<Longrightarrow> 2 ^ (bit_size_nat x - 1) \<le> x"
proof (induction x rule: bit_size_nat.induct)
  case (1 x)
  {
    case 1
    show ?case
    proof (cases "x = 0")
      case False
      with "1.IH"(1) have "x div 2 < 2 ^ bit_size_nat (x div 2)" by blast
      then have "x < 2 * 2 ^ bit_size_nat (x div 2)" by linarith
      with False show ?thesis by (simp add: bit_size_nat.simps [of x])
    qed (simp add: bit_size_nat.simps)
  next
    case 2
    show ?case
    proof (cases "x div 2 = 0")
      case True
      with 2 show ?thesis by (simp add: bit_size_nat.simps [of x] bit_size_nat.simps [of 0])
    next
      case False
      with "1.IH"(2) 2 have IH: "2 ^ (bit_size_nat (x div 2) - 1) \<le> x div 2" by blast
      from False have "0 < bit_size_nat (x div 2)" by (simp add: bit_size_nat.simps [of "x div 2"])
      then have "2 ^ bit_size_nat (x div 2) = 2 * (2::nat) ^ (bit_size_nat (x div 2) - 1)"
        by (metis Suc_diff_1 power_Suc)
      with IH have "2 ^ bit_size_nat (x div 2) \<le> 2 * (x div 2)" by linarith
      also have "\<dots> \<le> x" by simp
      finally show ?thesis using 2 by (simp add: bit_size_nat.simps [of x])
    qed
  }
qed

lemma sizeinbase2_pos: "0 < sizeinbase2 x"
  by (simp add: sizeinbase2_def bit_size_nat.simps [of "nat \<bar>x\<bar>"])

lemma sizeinbase2_bound: "\<bar>x\<bar> < 2 ^ sizeinbase2 x"
proof (cases "x = 0")
  case False
  have "int (nat \<bar>x\<bar>) < int (2 ^ bit_size_nat (nat \<bar>x\<bar>))"
    using bit_size_nat_bounds(1) [of "nat \<bar>x\<bar>"] by linarith
  with False show ?thesis by (simp add: sizeinbase2_def)
qed (simp add: sizeinbase2_def)

lemma sizeinbase2_least: "x \<noteq> 0 \<Longrightarrow> 2 ^ (sizeinbase2 x - 1) \<le> \<bar>x\<bar>"
proof -
  assume x: "x \<noteq> 0"
  then have "2 ^ (bit_size_nat (nat \<bar>x\<bar>) - 1) \<le> nat \<bar>x\<bar>"
    by (intro bit_size_nat_bounds(2)) simp
  then have "int (2 ^ (bit_size_nat (nat \<bar>x\<bar>) - 1)) \<le> int (nat \<bar>x\<bar>)" by linarith
  with x show ?thesis by (simp add: sizeinbase2_def)
qed

text \<open>\<open>randomBelow\<close> returns a value below its limit.\<close>

lemma yields_randomBelow:
  assumes "0 < limit"
    and "\<And>f. F f \<Longrightarrow> often (\<lambda>raw. raw mod 2 ^ sizeinbase2 (limit - 1) < limit) (f t)"
  shows "yields (\<lambda>g::rng. F (src g)) E (randomBelow t limit) (\<lambda>v. 0 \<le> v \<and> v < limit)"
proof -
  have eq: "randomBelow t limit =
      repeat_until (draw t (\<lambda>raw. raw mod 2 ^ sizeinbase2 (limit - 1))) (\<lambda>v. v < limit)"
    using assms(1) sizeinbase2_pos [of "limit - 1"]
    by (simp add: randomBelow_def randomBits_def)
  show ?thesis unfolding eq by (rule yields_repeat_draw) (use assms in auto)
qed

end
