(* ===== verification/Paillier.thy ===== *)
theory Paillier
  imports Randomness "HOL-Library.Signed_Division"
begin

text \<open>
  The Paillier cryptosystem of src/crypto.cpp (the OFF backend: \<open>keygen\<close>, \<open>encrypt\<close>,
  \<open>decrypt\<close>), the public operations of the threshold protocol
  (\<open>paillierEncrypt\<close>, \<open>ciphertextPower\<close>, \<open>ThresholdProtocolClient::add\<close>) and the
  split decryption of the enclave. Integers are GMP's unbounded integers; \<open>smod\<close> and
  \<open>sdiv\<close> are the truncating \<open>%\<close> and \<open>/\<close> of \<open>mpz_class\<close>.

  \<open>is_cipher n c m\<close> says that \<open>c\<close> is an encryption of the residue of \<open>m\<close> under the
  public modulus \<open>n\<close>; the lemmas compute it through every public operation, and the two
  decryptions recover it under a good key.
\<close>

section \<open>Keys\<close>

record pub_key =
  pk_n :: int
  pk_nsq :: int

record sec_key =
  sk_lambda :: int
  sk_mu :: int

record key =
  k_pub :: pub_key
  k_sec :: sec_key

definition lcmz :: "int \<Rightarrow> int \<Rightarrow> int" where
  "lcmz a b = lcm a b"

text \<open>
  \<open>keygen\<close>: the size check, then the key of two primes. The primes are drawn by
  \<open>prime\<close> (a loop around \<open>mpz_nextprime\<close>), again until the second differs from the
  first; here they are the sequence \<open>qs\<close> that generator delivers.
\<close>

partial_function (option) first_other :: "int \<Rightarrow> (nat \<Rightarrow> int) \<Rightarrow> nat \<Rightarrow> int option" where
  "first_other p qs i = (if qs i \<noteq> p then Some (qs i) else first_other p qs (Suc i))"

definition keygen_primes :: "int \<Rightarrow> int \<Rightarrow> exn + key" where
  "keygen_primes p q =
     (let n = p * q; nsq = n * n; lam = lcmz (p - 1) (q - 1);
          u = powm (n + 1) (nat lam) nsq; l = (u - 1) sdiv n
      in case minvert l n of
           None \<Rightarrow> Inl (StdRuntimeError ''mu inverse failed'')
         | Some mu \<Rightarrow> Inr \<lparr>k_pub = \<lparr>pk_n = n, pk_nsq = nsq\<rparr>,
                             k_sec = \<lparr>sk_lambda = lam, sk_mu = mu\<rparr>\<rparr>)"

definition keygen :: "nat \<Rightarrow> int \<Rightarrow> (nat \<Rightarrow> int) \<Rightarrow> (exn + key) option" where
  "keygen bits p qs =
     (if bits < 3072 \<or> bits > 8192 \<or> bits mod 2 \<noteq> 0
      then Some (Inl (StdInvalidArgument
        ''128-bit security profile requires an even modulus size in [3072,8192]''))
      else case first_other p qs 0 of
             None \<Rightarrow> None
           | Some q \<Rightarrow> Some (keygen_primes p q))"

section \<open>Encryption and decryption\<close>

definition norm_plain :: "int \<Rightarrow> int \<Rightarrow> int" where
  "norm_plain m0 n = (let m = m0 smod n in if m < 0 then m + n else m)"

definition encrypt :: "pub_key \<Rightarrow> int \<Rightarrow> (rng, int) eff" where
  "encrypt k m0 =
     (let m = norm_plain m0 (pk_n k) in
      bnd (repeat_until (get_z_range SNonce (pk_n k)) (\<lambda>x. \<not> (x = 0 \<or> gcd x (pk_n k) \<noteq> 1)))
        (\<lambda>x. let rn = powm x (nat (pk_n k)) (pk_nsq k)
             in ret ((1 + m * pk_n k) * rn smod pk_nsq k)))"

definition decrypt :: "key \<Rightarrow> int \<Rightarrow> exn + int" where
  "decrypt k c =
     (let n = pk_n (k_pub k); nsq = pk_nsq (k_pub k) in
      if c \<le> 0 \<or> c \<ge> nsq \<or> gcd c nsq \<noteq> 1 then Inl (StdInvalidArgument ''invalid ciphertext'')
      else let u = powm c (nat (sk_lambda (k_sec k))) nsq;
               m = ((u - 1) sdiv n * sk_mu (k_sec k)) smod n
           in Inr (if m \<ge> n sdiv 2 then m - n else m))"

section \<open>Public operations\<close>

text \<open>\<open>ThresholdProtocolClient::add\<close>, and \<open>cadd\<close> of src/c_api.cpp.\<close>

definition cadd :: "int \<Rightarrow> int \<Rightarrow> int \<Rightarrow> int" where
  "cadd a b modulus = a * b smod modulus"

definition cpow :: "int \<Rightarrow> int \<Rightarrow> int \<Rightarrow> int" where
  "cpow c e modulus = powm c (nat e) modulus"

definition cinv :: "int \<Rightarrow> int \<Rightarrow> exn + int" where
  "cinv c modulus = (case minvert c modulus of
     None \<Rightarrow> Inl (StdInvalidArgument ''ciphertext inverse failed'')
   | Some z \<Rightarrow> Inr z)"

text \<open>\<open>ciphertextPower\<close>: a negative exponent is a power of the inverse.\<close>

definition ciphertextPower :: "int \<Rightarrow> int \<Rightarrow> int \<Rightarrow> exn + int" where
  "ciphertextPower c e nsq =
     (if e < 0 then
        (case minvert c nsq of
           None \<Rightarrow> Inl (StdRuntimeError ''ciphertext inverse failed'')
         | Some base \<Rightarrow> Inr (powm base (nat (- e)) nsq))
      else Inr (powm c (nat e) nsq))"

definition paillierEncrypt :: "int \<Rightarrow> int \<Rightarrow> int \<Rightarrow> (rng, int) eff" where
  "paillierEncrypt plaintext modulus modulus_squared =
     bnd (repeat_until (randomBelow SNonce modulus) (\<lambda>x. \<not> (x = 0 \<or> gcd x modulus \<noteq> 1)))
       (\<lambda>nonce. let nonce_n = powm nonce (nat modulus) modulus_squared;
                    message_factor = norm_plain plaintext modulus * modulus + 1
                in ret (message_factor * nonce_n smod modulus_squared))"

text \<open>
  \<open>paillierEncryptBatch\<close>: the workers take the indices in turn; which thread takes one does
  not matter to the output, whose i-th entry encrypts the i-th plaintext.
\<close>

definition paillierEncryptBatch :: "int list \<Rightarrow> int \<Rightarrow> int \<Rightarrow> (rng, int list) eff" where
  "paillierEncryptBatch plaintexts modulus modulus_squared =
     mapM (\<lambda>m. paillierEncrypt m modulus modulus_squared) plaintexts"

section \<open>Good keys\<close>

text \<open>
  What decryption needs of a key, and what \<open>keygen\<close> establishes. It is stated for any
  modulus with these two congruences; \<open>keygen_good\<close> proves it of distinct primes.
\<close>

definition good_modulus :: "int \<Rightarrow> int \<Rightarrow> bool" where
  "good_modulus n lam \<longleftrightarrow> 1 < n \<and> 0 \<le> lam \<and> (\<forall>r. coprime r n \<longrightarrow> r ^ nat lam mod n = 1)"

definition good_key :: "key \<Rightarrow> bool" where
  "good_key k \<longleftrightarrow>
     pk_nsq (k_pub k) = pk_n (k_pub k) * pk_n (k_pub k) \<and>
     good_modulus (pk_n (k_pub k)) (sk_lambda (k_sec k)) \<and>
     sk_lambda (k_sec k) * sk_mu (k_sec k) mod pk_n (k_pub k) = 1 \<and>
     0 \<le> sk_mu (k_sec k)"

definition is_cipher :: "int \<Rightarrow> int \<Rightarrow> int \<Rightarrow> bool" where
  "is_cipher n c m \<longleftrightarrow>
     (\<exists>r. coprime r n \<and> c = (1 + m * n) * r ^ nat n mod (n * n))"

section \<open>Truncating division on non-negative operands\<close>

lemma smod_nonneg [simp]: "0 \<le> a \<Longrightarrow> 0 < b \<Longrightarrow> a smod b = a mod (b::int)"
  by (cases "a = 0") (simp_all add: signed_modulo_int_def)

lemma sdiv_nonneg [simp]: "0 \<le> a \<Longrightarrow> 0 < b \<Longrightarrow> a sdiv b = a div (b::int)"
  by (cases "a = 0") (simp_all add: signed_divide_int_def)

lemma norm_plain_mod: "0 < n \<Longrightarrow> norm_plain m n = m mod n"
proof -
  assume n: "0 < n"
  show ?thesis
  proof (cases "0 \<le> m")
    case True
    with n show ?thesis by (simp add: norm_plain_def not_less Let_def)
  next
    case False
    then have s: "m smod n = - ((- m) mod n)"
      using n by (simp add: signed_modulo_int_def)
    show ?thesis
    proof (cases "m mod n = 0")
      case True
      with s show ?thesis by (simp add: norm_plain_def Let_def zmod_zminus1_eq_if)
    next
      case False
      with s have "m smod n = m mod n - n" by (simp add: zmod_zminus1_eq_if)
      moreover have "m mod n < n" using n by (rule pos_mod_bound)
      ultimately show ?thesis by (simp add: norm_plain_def Let_def)
    qed
  qed
qed

section \<open>The key of two primes\<close>

lemma good_modulus_primes:
  assumes p: "prime_int p" and q: "prime_int q" and pq: "p \<noteq> q"
  shows "good_modulus (p * q) (lcm (p - 1) (q - 1))"
proof -
  have gt: "1 < p" "1 < q" using p q by (simp_all add: prime_int_gt_1)
  have "\<not> p dvd q" using q pq gt unfolding prime_int_def by (metis zdvd_imp_le order_le_less
      less_trans zero_less_one)
  then have cop: "coprime p q" by (rule prime_int_coprime [OF p])
  have "r ^ nat (lcm (p - 1) (q - 1)) mod (p * q) = 1" if r: "coprime r (p * q)" for r
  proof -
    have "coprime r p" "coprime r q" using r by simp_all
    then have "\<not> p dvd r" "\<not> q dvd r"
      using gt coprime_common_divisor [of r p p] coprime_common_divisor [of r q q] by auto
    then have "r ^ nat (lcm (p - 1) (q - 1)) mod p = 1" "r ^ nat (lcm (p - 1) (q - 1)) mod q = 1"
      using p q by (simp_all add: fermat_multiple)
    then show ?thesis using cop gt by (simp add: coprime_product_mod_1)
  qed
  moreover have "1 < p * q" using gt by (simp add: less_1_mult)
  ultimately show ?thesis by (simp add: good_modulus_def)
qed

lemma keygen_primes_good:
  assumes p: "prime_int p" and q: "prime_int q" and pq: "p \<noteq> q"
    and k: "keygen_primes p q = Inr k"
  shows "good_key k \<and> pk_n (k_pub k) = p * q"
proof -
  let ?n = "p * q" and ?l = "lcm (p - 1) (q - 1)"
  let ?u = "powm (?n + 1) (nat ?l) (?n * ?n)"
  have gm: "good_modulus ?n ?l" using p q pq by (rule good_modulus_primes)
  then have n: "1 < ?n" by (simp add: good_modulus_def)
  have "?u = (1 + 1 * ?n) ^ nat ?l mod (?n * ?n)" by (simp add: powm_def add.commute)
  also have "\<dots> = (1 + int (nat ?l) * 1 * ?n) mod (?n * ?n)" by (rule one_plus_power)
  also have "\<dots> = 1 + (?l mod ?n) * ?n"
    using n by (simp add: one_plus_mod [of ?n ?l] one_plus_lt)
  finally have "?u - 1 = (?l mod ?n) * ?n" by simp
  moreover have "0 \<le> ?l mod ?n" "0 < ?n" "?n \<noteq> 0" using n by (auto simp del: mult_eq_0_iff)
  ultimately have u: "(?u - 1) sdiv ?n = ?l mod ?n"
    by (metis nonzero_mult_div_cancel_right sdiv_nonneg mult_nonneg_nonneg less_imp_le)
  obtain mu where mu: "minvert (?l mod ?n) ?n = Some mu"
    and kk: "k = \<lparr>k_pub = \<lparr>pk_n = ?n, pk_nsq = ?n * ?n\<rparr>,
                k_sec = \<lparr>sk_lambda = ?l, sk_mu = mu\<rparr>\<rparr>"
    using k unfolding keygen_primes_def Let_def lcmz_def u by (auto split: option.splits)
  have "(?l mod ?n) * mu mod ?n = 1" "0 \<le> mu" using minvert_correct [OF mu n] by simp_all
  then have "?l * mu mod ?n = 1" by (simp add: mod_mult_left_eq)
  with \<open>0 \<le> mu\<close> gm kk show ?thesis by (simp add: good_key_def)
qed

text \<open>The search for a second prime returns a delivered prime that differs from the first.\<close>

lemma first_other_prime:
  assumes "first_other p qs i = Some q"
  shows "q \<noteq> p \<and> (\<exists>j. q = qs j)"
  by (rule first_other.raw_induct [OF _ assms]) (auto split: if_splits)

section \<open>Ciphertexts under the public operations\<close>

lemma is_cipher_mod:
  assumes "1 < n" "is_cipher n c m" "m mod n = m' mod n"
  shows "is_cipher n c m'"
proof -
  have "(1 + m * n) * x mod (n * n) = (1 + m' * n) * x mod (n * n)" for x
  proof -
    have "(1 + m * n) * x mod (n * n) = ((1 + m * n) mod (n * n)) * x mod (n * n)"
      by (simp add: mod_mult_left_eq)
    also have "(1 + m * n) mod (n * n) = (1 + m' * n) mod (n * n)"
      using assms by (metis one_plus_mod less_trans zero_less_one)
    finally show ?thesis by (simp add: mod_mult_left_eq)
  qed
  with assms(2) show ?thesis by (auto simp: is_cipher_def)
qed

lemma is_cipher_coprime:
  assumes "1 < n" "is_cipher n c m"
  shows "coprime c (n * n)" and "0 < c" and "c < n * n"
proof -
  obtain r where r: "coprime r n" "c = (1 + m * n) * r ^ nat n mod (n * n)"
    using assms(2) by (auto simp: is_cipher_def)
  have "coprime ((1 + m * n) * r ^ nat n) (n * n)"
    using r(1) by (simp add: coprime_one_plus)
  then show cop: "coprime c (n * n)"
    unfolding r(2) using assms(1) by (subst coprime_mod_left_iff) auto
  have nn: "1 < n * n" using assms(1) by (simp add: less_1_mult)
  then have "0 \<le> c" "c < n * n" unfolding r(2) by simp_all
  moreover have "c \<noteq> 0" using cop assms(1) by auto
  ultimately show "0 < c" "c < n * n" by simp_all
qed

lemma is_cipher_mult:
  assumes "1 < n" "is_cipher n a x" "is_cipher n b y"
  shows "is_cipher n (a * b mod (n * n)) (x + y)"
proof -
  obtain r s where r: "coprime r n" "a = (1 + x * n) * r ^ nat n mod (n * n)"
    and s: "coprime s n" "b = (1 + y * n) * s ^ nat n mod (n * n)"
    using assms(2,3) by (auto simp: is_cipher_def)
  have "a * b mod (n * n) = ((1 + x * n) * (1 + y * n)) * (r * s) ^ nat n mod (n * n)"
    by (simp add: r s mod_mult_eq power_mult_distrib ac_simps)
  also have "\<dots> = (1 + (x + y) * n) * (r * s) ^ nat n mod (n * n)"
    by (metis one_plus_mult mod_mult_left_eq)
  finally show ?thesis using r(1) s(1) unfolding is_cipher_def
    by (intro exI [of _ "r * s"]) simp
qed

lemma is_cipher_power:
  assumes n: "1 < n" and c: "is_cipher n c m"
  shows "is_cipher n (powm c e (n * n)) (int e * m)"
proof -
  obtain r where r: "coprime r n" "c = (1 + m * n) * r ^ nat n mod (n * n)"
    using c by (auto simp: is_cipher_def)
  have "powm c e (n * n) = ((1 + m * n) ^ e) * (r ^ e) ^ nat n mod (n * n)"
    by (simp add: r(2) powm_def power_mod power_mult_distrib power_mult [symmetric] mult.commute)
  also have "\<dots> = (1 + (int e * m) * n) * (r ^ e) ^ nat n mod (n * n)"
    by (metis one_plus_power mod_mult_left_eq)
  finally show ?thesis using r(1) unfolding is_cipher_def
    by (intro exI [of _ "r ^ e"]) simp
qed

lemma is_cipher_inverse:
  assumes n: "1 < n" and c: "is_cipher n c m" and d: "minvert c (n * n) = Some d"
  shows "is_cipher n d (- m)"
proof -
  have nn: "1 < n * n" using n by (simp add: less_1_mult)
  obtain r where r: "coprime r n" "c = (1 + m * n) * r ^ nat n mod (n * n)"
    using c by (auto simp: is_cipher_def)
  obtain s where s: "minvert r (n * n) = Some s" using r(1) minvert_exists by fastforce
  then have rs: "r * s mod (n * n) = 1" using minvert_correct nn by blast
  have "r * s mod n = 1"
    using rs n by (metis dvd_triv_left mod_mod_cancel mod_pos_pos_trivial zero_le_one)
  then have "coprime s n" using n by (metis coprime_of_inverse mult.commute)
  let ?e = "(1 + (- m) * n) * s ^ nat n mod (n * n)"
  have "c * ?e mod (n * n) = ((1 + m * n) * (1 + (- m) * n)) * (r * s) ^ nat n mod (n * n)"
    by (simp add: r(2) mod_mult_eq power_mult_distrib ac_simps)
  also have "\<dots> = (1 + (m + - m) * n) * ((r * s) ^ nat n mod (n * n)) mod (n * n)"
    by (metis one_plus_mult mod_mult_left_eq mod_mult_right_eq)
  also have "(r * s) ^ nat n mod (n * n) = 1"
    by (metis rs power_mod power_one mod_pos_pos_trivial nn zero_le_one)
  finally have "c * ?e mod (n * n) = 1" using nn by simp
  moreover have dd: "c * d mod (n * n) = 1" "0 \<le> d" "d < n * n"
    using minvert_correct [OF d nn] by simp_all
  ultimately have "d mod (n * n) = ?e mod (n * n)" using inverse_unique nn by blast
  then have "d = ?e" using dd by simp
  with \<open>coprime s n\<close> show ?thesis by (auto simp: is_cipher_def)
qed

lemma cadd_cipher:
  assumes "1 < n" "is_cipher n a x" "is_cipher n b y"
  shows "is_cipher n (cadd a b (n * n)) (x + y)"
proof -
  have "0 < a" "0 < b" using assms is_cipher_coprime(2) by blast+
  with assms show ?thesis by (simp add: cadd_def is_cipher_mult)
qed

lemma cpow_cipher:
  "1 < n \<Longrightarrow> is_cipher n c m \<Longrightarrow> 0 \<le> e \<Longrightarrow> is_cipher n (cpow c e (n * n)) (e * m)"
  using is_cipher_power [of n c m "nat e"] by (simp add: cpow_def)

lemma cinv_cipher:
  assumes "1 < n" "is_cipher n c m"
  shows "\<exists>d. cinv c (n * n) = Inr d \<and> is_cipher n d (- m)"
proof -
  have "coprime c (n * n)" using assms by (rule is_cipher_coprime(1))
  then obtain d where d: "minvert c (n * n) = Some d" using minvert_exists by blast
  with is_cipher_inverse [OF assms this] show ?thesis by (simp add: cinv_def)
qed

lemma ciphertextPower_cipher:
  assumes n: "1 < n" and c: "is_cipher n c m"
  shows "\<exists>d. ciphertextPower c e (n * n) = Inr d \<and> is_cipher n d (e * m)"
proof (cases "e < 0")
  case True
  have "coprime c (n * n)" using n c by (rule is_cipher_coprime(1))
  then obtain d where d: "minvert c (n * n) = Some d" using minvert_exists by blast
  have "is_cipher n d (- m)" using n c d by (rule is_cipher_inverse)
  from is_cipher_power [OF n this, of "nat (- e)"] True d show ?thesis
    by (simp add: ciphertextPower_def)
next
  case False
  with is_cipher_power [OF n c, of "nat e"] show ?thesis
    by (simp add: ciphertextPower_def)
qed

section \<open>Encryption produces ciphertexts\<close>

definition nonce_ok :: "int \<Rightarrow> int \<Rightarrow> bool" where
  "nonce_ok n x \<longleftrightarrow> \<not> (x = 0 \<or> gcd x n \<noteq> 1)"

lemma cipher_of_nonce:
  assumes n: "1 < n" and x: "nonce_ok n x"
  shows "is_cipher n ((1 + norm_plain m n * n) * powm x (nat n) (n * n) smod (n * n)) m"
proof -
  have nn: "0 < n * n" using n by simp
  have "0 \<le> norm_plain m n" using n by (simp add: norm_plain_mod)
  then have "0 \<le> (1 + norm_plain m n * n) * powm x (nat n) (n * n)"
    using n powm_range [OF nn] by simp
  then have eq: "(1 + norm_plain m n * n) * powm x (nat n) (n * n) smod (n * n) =
      (1 + norm_plain m n * n) * x ^ nat n mod (n * n)"
    using nn by (simp add: powm_def mod_mult_right_eq)
  have "coprime x n" using x by (simp add: nonce_ok_def coprime_iff_gcd_eq_1)
  then have "is_cipher n ((1 + norm_plain m n * n) * x ^ nat n mod (n * n)) (norm_plain m n)"
    by (auto simp: is_cipher_def)
  from is_cipher_mod [OF n this, of m] eq n show ?thesis by (simp add: norm_plain_mod)
qed

text \<open>The sources never run dry of usable nonces.\<close>

definition fair_nonce_off :: "int \<Rightarrow> (site \<Rightarrow> nat \<Rightarrow> int) \<Rightarrow> bool" where
  "fair_nonce_off n f \<longleftrightarrow> often (\<lambda>raw. nonce_ok n (raw mod n)) (f SNonce)"

definition fair_nonce :: "int \<Rightarrow> (site \<Rightarrow> nat \<Rightarrow> int) \<Rightarrow> bool" where
  "fair_nonce n f \<longleftrightarrow>
     often (\<lambda>raw. raw mod 2 ^ sizeinbase2 (n - 1) < n \<and>
                  nonce_ok n (raw mod 2 ^ sizeinbase2 (n - 1))) (f SNonce)"

lemma yields_encrypt:
  assumes n: "1 < pk_n k" and nsq: "pk_nsq k = pk_n k * pk_n k"
    and F: "\<And>f. F f \<Longrightarrow> fair_nonce_off (pk_n k) f"
  shows "yields (\<lambda>g::rng. F (src g)) E (encrypt k m) (\<lambda>c. is_cipher (pk_n k) c m)"
proof -
  have "yields (\<lambda>g::rng. F (src g)) E
      (repeat_until (get_z_range SNonce (pk_n k)) (\<lambda>x. \<not> (x = 0 \<or> gcd x (pk_n k) \<noteq> 1)))
      (nonce_ok (pk_n k))"
    unfolding get_z_range_def
    by (rule yields_repeat_draw) (use F in \<open>auto simp: fair_nonce_off_def nonce_ok_def\<close>)
  then show ?thesis
    unfolding encrypt_def Let_def
    by (rule yields_bnd) (simp add: yields_ret nsq cipher_of_nonce [OF n])
qed

lemma yields_paillierEncrypt:
  assumes n: "1 < n" and F: "\<And>f. F f \<Longrightarrow> fair_nonce n f"
  shows "yields (\<lambda>g::rng. F (src g)) E (paillierEncrypt m n (n * n)) (\<lambda>c. is_cipher n c m)"
proof -
  have eq: "randomBelow SNonce n =
      repeat_until (draw SNonce (\<lambda>raw. raw mod 2 ^ sizeinbase2 (n - 1))) (\<lambda>v. v < n)"
    using n sizeinbase2_pos [of "n - 1"] by (simp add: randomBelow_def randomBits_def)
  have "yields (\<lambda>g::rng. F (src g)) E
      (repeat_until (randomBelow SNonce n) (\<lambda>x. \<not> (x = 0 \<or> gcd x n \<noteq> 1))) (nonce_ok n)"
    unfolding eq
    by (rule yields_repeat_repeat_draw) (use F in \<open>auto simp: fair_nonce_def nonce_ok_def\<close>)
  then show ?thesis
    unfolding paillierEncrypt_def Let_def
  proof (rule yields_bnd)
    fix x assume "nonce_ok n x"
    from cipher_of_nonce [OF n this, of m]
    show "yields (\<lambda>g::rng. F (src g)) E (ret ((norm_plain m n * n + 1) * powm x (nat n) (n * n)
        smod (n * n))) (\<lambda>c. is_cipher n c m)"
      by (simp add: yields_ret add.commute)
  qed
qed

lemma yields_paillierEncryptBatch:
  assumes n: "1 < n" and F: "\<And>f. F f \<Longrightarrow> fair_nonce n f"
  shows "yields (\<lambda>g::rng. F (src g)) E (paillierEncryptBatch ms n (n * n))
    (list_all2 (\<lambda>m c. is_cipher n c m) ms)"
  unfolding paillierEncryptBatch_def
  by (rule yields_mapM) (rule yields_paillierEncrypt [OF n F])

section \<open>Decryption recovers the plaintext\<close>

text \<open>\<open>c\<close> to the power \<open>lambda\<close> is \<open>1 + m lambda n\<close>: the nonce disappears.\<close>

lemma cipher_power_lambda:
  assumes gm: "good_modulus n lam" and c: "is_cipher n c m"
  shows "c ^ nat lam mod (n * n) = 1 + (m * lam mod n) * n"
proof -
  have n: "1 < n" and l: "0 \<le> lam" using gm by (simp_all add: good_modulus_def)
  have nn: "1 < n * n" using n by (simp add: less_1_mult)
  obtain r where r: "coprime r n" "c = (1 + m * n) * r ^ nat n mod (n * n)"
    using c by (auto simp: is_cipher_def)
  have "c ^ nat lam mod (n * n) =
      ((1 + m * n) ^ nat lam mod (n * n)) * ((r ^ nat lam) ^ nat n mod (n * n)) mod (n * n)"
    unfolding r(2)
    by (simp add: power_mod mod_mult_eq power_mult_distrib power_mult [symmetric] mult.commute)
  also have "(r ^ nat lam) ^ nat n mod (n * n) = 1"
    using gm r(1) n by (intro nth_power_of_one_mod) (simp_all add: good_modulus_def)
  also have "(1 + m * n) ^ nat lam mod (n * n) = (1 + (int (nat lam) * m) * n) mod (n * n)"
    by (rule one_plus_power)
  also have "\<dots> = (1 + (m * lam mod n) * n) mod (n * n)"
    using one_plus_mod [of n "lam * m"] n l by (simp add: mult.commute)
  also have "\<dots> = 1 + (m * lam mod n) * n" using n by (simp add: one_plus_lt)
  finally show ?thesis using n by (simp add: one_plus_lt)
qed

text \<open>The last step of both decryptions: divide out \<open>n\<close> and multiply by \<open>mu\<close>.\<close>

lemma lambda_mu_cancel:
  assumes n: "1 < n" and mu: "lam * mu mod n = 1"
  shows "(m * lam mod n) * mu mod n = m mod (n::int)"
proof -
  have "(m * lam mod n) * mu mod n = m * (lam * mu mod n) mod n"
    by (simp add: mod_mult_left_eq mod_mult_right_eq mult.assoc)
  with mu show ?thesis by simp
qed

text \<open>The signed reading of a residue in the OFF backend: from \<open>n / 2\<close> on it is negative.\<close>

definition centred_off :: "int \<Rightarrow> int \<Rightarrow> int" where
  "centred_off n m = (if m mod n \<ge> n div 2 then m mod n - n else m mod n)"

lemma centred_off_small:
  assumes "- (n div 2) \<le> m" "m < n div 2" "0 < n"
  shows "centred_off n m = m"
proof (cases "0 \<le> m")
  case True
  with assms have "m mod n = m" by (intro mod_pos_pos_trivial) auto
  with assms show ?thesis by (simp add: centred_off_def)
next
  case False
  have "m mod n = m + n"
  proof -
    have "m mod n = (m + n) mod n" by simp
    also have "\<dots> = m + n" using assms False by (intro mod_pos_pos_trivial) auto
    finally show ?thesis .
  qed
  with assms show ?thesis by (simp add: centred_off_def)
qed

lemma decrypt_cipher:
  assumes k: "good_key k" and c: "is_cipher (pk_n (k_pub k)) c m"
  shows "decrypt k c = Inr (centred_off (pk_n (k_pub k)) m)"
proof -
  let ?n = "pk_n (k_pub k)" and ?l = "sk_lambda (k_sec k)" and ?mu = "sk_mu (k_sec k)"
  have gm: "good_modulus ?n ?l" and nsq: "pk_nsq (k_pub k) = ?n * ?n"
    and mu: "?l * ?mu mod ?n = 1" "0 \<le> ?mu" using k by (simp_all add: good_key_def)
  then have n: "1 < ?n" by (simp add: good_modulus_def)
  have cop: "coprime c (?n * ?n)" "0 < c" "c < ?n * ?n"
    using is_cipher_coprime [OF n c] by simp_all
  have u: "powm c (nat ?l) (?n * ?n) = 1 + (m * ?l mod ?n) * ?n"
    unfolding powm_def using gm c by (rule cipher_power_lambda)
  have "0 \<le> m * ?l mod ?n" using n by simp
  then have "((1 + (m * ?l mod ?n) * ?n) - 1) sdiv ?n = m * ?l mod ?n" using n by simp
  moreover have "((m * ?l mod ?n) * ?mu) smod ?n = m mod ?n"
    using n mu lambda_mu_cancel [OF n mu(1)] by simp
  moreover have "gcd c (?n * ?n) = 1" using cop(1) by (simp only: coprime_iff_gcd_eq_1)
  ultimately show ?thesis
    using cop n unfolding decrypt_def Let_def nsq u
    by (simp add: centred_off_def)
qed

end
