(* ===== verification/SampleKey.thy ===== *)
theory SampleKey
  imports Paillier
begin

text \<open>
  A concrete key at which the properties of the cryptographic components are instantiated. Its
  modulus has more than 260 bits, enough for the masked comparisons; it is a product of 27
  distinct small primes, so that the kernel can check that it is a good key.
\<close>

definition prime_below_1024 :: "int \<Rightarrow> bool" where
  "prime_below_1024 p \<longleftrightarrow> 1 < p \<and> p < 1024 \<and> list_all (\<lambda>d. \<not> d dvd p \<or> d = p) [2..31]"

primrec key_primes :: "int list \<Rightarrow> int \<Rightarrow> bool" where
  "key_primes [] lam \<longleftrightarrow> True"
| "key_primes (p # ps) lam \<longleftrightarrow>
     prime_below_1024 p \<and> \<not> p dvd prod_list ps \<and> (p - 1) dvd lam \<and> key_primes ps lam"

lemma prime_below_1024:
  assumes "prime_below_1024 p"
  shows "prime_int p"
  unfolding prime_int_def
proof (intro conjI allI impI notI)
  show "1 < p" using assms by (simp add: prime_below_1024_def)
  fix d assume d: "1 < d" "d < p" "d dvd p"
  then obtain e where e: "p = d * e" by blast
  have p: "p < 1024" using assms by (simp only: prime_below_1024_def)
  have "\<forall>x\<in>set [2..31]. \<not> x dvd p \<or> x = p"
    using assms unfolding prime_below_1024_def list_all_iff by (elim conjE)
  then have ndvd: "x = p" if "2 \<le> x" "x \<le> 31" "x dvd p" for x
    using that unfolding set_upto by (metis atLeastAtMost_iff)
  have "0 < d" "0 < d * e" using d by (auto simp: e [symmetric])
  then have "0 < e" by (simp add: zero_less_mult_iff)
  moreover have "e \<noteq> 1" using d e by auto
  ultimately have "1 < e" by linarith
  have "e < p" using d e \<open>1 < e\<close> by simp
  have "d \<le> 31 \<or> e \<le> 31"
  proof (rule ccontr)
    assume "\<not> (d \<le> 31 \<or> e \<le> 31)"
    then have "32 * 32 \<le> d * e" by (intro mult_mono) auto
    with e p show False by simp
  qed
  with ndvd [of d] ndvd [of e] d e \<open>1 < e\<close> \<open>e < p\<close> show False by auto
qed

lemma key_primes_power:
  "key_primes ps lam \<Longrightarrow> 0 \<le> lam \<Longrightarrow> coprime r (prod_list ps) \<Longrightarrow> ps \<noteq> [] \<Longrightarrow>
     1 < prod_list ps \<and> r ^ nat lam mod prod_list ps = 1"
proof (induction ps)
  case (Cons p ps)
  then have p: "prime_int p" "\<not> p dvd prod_list ps" "p - 1 dvd lam"
    using prime_below_1024 by simp_all
  then have gt: "1 < p" by (simp add: prime_int_gt_1)
  have cr: "coprime r p" "coprime r (prod_list ps)" using Cons.prems by simp_all
  then have "\<not> p dvd r" using gt coprime_common_divisor [of r p p] by auto
  then have rp: "r ^ nat lam mod p = 1" using p Cons.prems by (simp add: fermat_multiple)
  show ?case
  proof (cases "ps = []")
    case True
    with rp gt show ?thesis by simp
  next
    case False
    with Cons have "1 < prod_list ps" "r ^ nat lam mod prod_list ps = 1" using cr by simp_all
    moreover have "coprime p (prod_list ps)" using p by (simp add: prime_int_coprime)
    ultimately show ?thesis
      using rp gt coprime_product_mod_1 [of p "prod_list ps"] by (simp add: less_1_mult)
  qed
qed simp

definition sample_n :: int where
  "sample_n = 63745599935332593232563406961379843364188641941229189868284577684830697266504639"

definition sample_key :: key where
  "sample_key = \<lparr>k_pub = \<lparr>pk_n = sample_n, pk_nsq = sample_n * sample_n\<rparr>,
     k_sec = \<lparr>sk_lambda = 371373983063366729594393584761640978055456160,
              sk_mu = 36049111797249085437243045324092551391479790291279919892060547839624396816651660\<rparr>\<rparr>"

abbreviation sample_primes :: "int list" where
  "sample_primes \<equiv> [997, 991, 983, 977, 971, 967, 953, 947, 941, 937, 929, 919, 911, 907, 887, 883,
     881, 877, 863, 859, 857, 853, 839, 829, 827, 823, 821]"

lemma sample_primes_key: "key_primes sample_primes (sk_lambda (k_sec sample_key))"
  by code_simp

lemma sample_prod: "prod_list sample_primes = sample_n"
  by (simp add: sample_n_def)

lemma sample_good: "good_key sample_key"
proof -
  have "good_modulus sample_n (sk_lambda (k_sec sample_key))"
    unfolding good_modulus_def
    using key_primes_power [OF sample_primes_key, unfolded sample_prod]
    by (simp add: sample_key_def) (simp add: sample_n_def)
  then show ?thesis by (simp add: good_key_def sample_key_def) (simp add: sample_n_def)
qed

lemma sample_pk [simp]: "pk_n (k_pub sample_key) = sample_n"
  by (simp add: sample_key_def)

text \<open>Encryptions with nonce 1.\<close>

definition sample_cipher :: "int \<Rightarrow> int" where
  "sample_cipher m = (1 + m * sample_n) mod (sample_n * sample_n)"

lemma sample_cipher: "is_cipher sample_n (sample_cipher m) m"
  unfolding is_cipher_def sample_cipher_def by (intro exI [of _ 1]) simp

text \<open>A source that delivers 3 for the comparison masks and 1 everywhere else.\<close>

definition sample_rng :: rng where
  "sample_rng = \<lparr>src = (\<lambda>t i. if t = SMask3 then 3 else 1), pos = (\<lambda>_. 0)\<rparr>"

end
