(* ===== verification/SociPlus.thy ===== *)
theory SociPlus
  imports SampleKey
begin

text \<open>
  The SOCI-plus operators of the OFF backend (src/c_api.cpp): encrypted comparison
  \<open>soci_plus_less\<close>, multiplication \<open>soci_plus_mul\<close>, sign, absolute value and division.
  One process plays both parties; the second party's step is the decryption of a masked value.
  Each operator is proved to compute its arithmetic function on the plaintexts, from fair random
  sources and for plaintexts small against the modulus.
\<close>

section \<open>The operators\<close>

definition random128 :: "site \<Rightarrow> (rng, int) eff" where
  "random128 t = draw t (\<lambda>raw. let v = raw mod 2 ^ 128 in if v = 0 then 1 else v)"

text \<open>Enc(x < y), from a randomised and randomly oriented difference.\<close>

definition soci_plus_less :: "key \<Rightarrow> int \<Rightarrow> int \<Rightarrow> (rng, int) eff" where
  "soci_plus_less k x y =
     (let pub = k_pub k; n = pk_n pub; nsq = pk_nsq pub in
      bnd (random128 SMask3) (\<lambda>r3.
      bnd (repeat_until (random128 SNoise) (\<lambda>noise. \<not> noise \<ge> r3)) (\<lambda>noise.
      let r4 = n sdiv 2 - noise in
      bnd (get_z_bits SOrient 1) (\<lambda>orient.
      bnd (if orient = 0 then
             (let difference = x * cpow y (n - 1) nsq smod nsq in
              bnd (encrypt pub (r3 + r4)) (\<lambda>e. ret (cpow difference r3 nsq * e smod nsq)))
           else
             bnd (of_sum (cinv x nsq)) (\<lambda>xi.
             let difference = y * xi smod nsq in
             bnd (encrypt pub r4) (\<lambda>e. ret (cpow difference r3 nsq * e smod nsq)))) (\<lambda>d.
      bnd (of_sum (decrypt k d)) (\<lambda>v.
      let visible = (if v < 0 then v + n else v) in
      bnd (encrypt pub (if visible > n sdiv 2 then 0 else 1)) (\<lambda>encrypted_bit.
      if orient = 0 then ret encrypted_bit
      else bnd (encrypt pub 1) (\<lambda>one.
           bnd (of_sum (cinv encrypted_bit nsq)) (\<lambda>bi. ret (one * bi smod nsq))))))))))"

text \<open>Enc(x * y): both operands are masked, opened, multiplied and the masks subtracted.\<close>

definition soci_plus_mul :: "key \<Rightarrow> int \<Rightarrow> int \<Rightarrow> (rng, int) eff" where
  "soci_plus_mul k x y =
     (let pub = k_pub k; n = pk_n pub; nsq = pk_nsq pub in
      bnd (random128 SMask1) (\<lambda>r1.
      bnd (random128 SMask2) (\<lambda>r2.
      bnd (encrypt pub r1) (\<lambda>e1.
      bnd (encrypt pub r2) (\<lambda>e2.
      bnd (of_sum (decrypt k (cadd x e1 nsq))) (\<lambda>masked_x.
      bnd (of_sum (decrypt k (cadd y e2 nsq))) (\<lambda>masked_y.
      bnd (encrypt pub (masked_x * masked_y)) (\<lambda>p0.
      let p1 = cadd p0 (cpow x (n - r2) nsq) nsq;
          p2 = cadd p1 (cpow y (n - r1) nsq) nsq
      in bnd (encrypt pub (- r1 * r2)) (\<lambda>c. ret (cadd p2 c nsq))))))))))"

definition soci_plus_sign :: "key \<Rightarrow> int \<Rightarrow> (rng, int) eff" where
  "soci_plus_sign k x = bnd (encrypt (k_pub k) 0) (soci_plus_less k x)"

definition soci_plus_abs :: "key \<Rightarrow> int \<Rightarrow> (rng, int) eff" where
  "soci_plus_abs k x =
     (let pub = k_pub k; n = pk_n pub; nsq = pk_nsq pub in
      bnd (soci_plus_sign k x) (\<lambda>sg.
      bnd (encrypt pub 1) (\<lambda>one.
      soci_plus_mul k (cadd one (cpow sg (n - 2) nsq) nsq) x)))"

text \<open>The division loop, from the highest quotient bit down; the argument counts the steps left.\<close>

primrec soci_plus_div_loop ::
  "key \<Rightarrow> int \<Rightarrow> int \<Rightarrow> nat \<Rightarrow> int \<Rightarrow> int \<Rightarrow> (rng, int \<times> int) eff" where
  "soci_plus_div_loop k one divisor 0 quo dividend = ret (quo, dividend)"
| "soci_plus_div_loop k one divisor (Suc step) quo dividend =
     (let pub = k_pub k; n = pk_n pub; nsq = pk_nsq pub;
          shifted = cpow divisor (2 ^ step) nsq
      in bnd (soci_plus_less k dividend shifted) (\<lambda>lt.
         let take_c = cadd one (cpow lt (n - 1) nsq) nsq;
             quo' = cadd quo (cpow take_c (2 ^ step) nsq) nsq
         in bnd (soci_plus_mul k take_c shifted) (\<lambda>subtraction.
            soci_plus_div_loop k one divisor step quo'
              (cadd dividend (cpow subtraction (n - 1) nsq) nsq))))"

definition soci_plus_div :: "key \<Rightarrow> int \<Rightarrow> int \<Rightarrow> nat \<Rightarrow> (rng, int \<times> int) eff" where
  "soci_plus_div k dividend divisor bits =
     bnd (encrypt (k_pub k) 0) (\<lambda>quo.
     bnd (encrypt (k_pub k) 1) (\<lambda>one.
     soci_plus_div_loop k one divisor bits quo dividend))"

text \<open>
  The core of \<open>soci_secure_div\<close>: the divisor must be positive, and 21 quotient bits are
  computed.
\<close>

definition secure_div_core :: "key \<Rightarrow> int \<Rightarrow> int \<Rightarrow> (rng, int \<times> int) eff" where
  "secure_div_core k x y =
     bnd (encrypt (k_pub k) 1) (\<lambda>one.
     bnd (soci_plus_less k y one) (\<lambda>below_one.
     bnd (of_sum (decrypt k below_one)) (\<lambda>v.
     if v \<noteq> 0 then throw (StdInvalidArgument ''divisor must be positive'')
     else soci_plus_div k x y 21)))"

section \<open>The invariant of the sources\<close>

definition mask128 :: "int \<Rightarrow> int" where
  "mask128 raw = (let v = raw mod 2 ^ 128 in if v = 0 then 1 else v)"

text \<open>
  Every comparison mask is at least 2, so the noise loop (which needs a value below the mask)
  can end; noise 1 and usable nonces keep coming.
\<close>

definition fair_off :: "key \<Rightarrow> (site \<Rightarrow> nat \<Rightarrow> int) \<Rightarrow> bool" where
  "fair_off k f \<longleftrightarrow> good_key k \<and> fair_nonce_off (pk_n (k_pub k)) f \<and>
     (\<forall>i. 1 < mask128 (f SMask3 i)) \<and> often (\<lambda>raw. mask128 raw = 1) (f SNoise)"

abbreviation off_inv :: "key \<Rightarrow> rng \<Rightarrow> bool" where
  "off_inv k g \<equiv> fair_off k (src g)"

abbreviation off_cipher :: "key \<Rightarrow> int \<Rightarrow> int \<Rightarrow> bool" where
  "off_cipher k c m \<equiv> is_cipher (pk_n (k_pub k)) c m"

lemma good_key_n:
  assumes "good_key k"
  shows "1 < pk_n (k_pub k)" "pk_nsq (k_pub k) = pk_n (k_pub k) * pk_n (k_pub k)"
  using assms by (simp_all add: good_key_def good_modulus_def)

lemma mask128_range: "1 \<le> mask128 raw" "mask128 raw < 2 ^ 128"
proof -
  have "0 \<le> raw mod 2 ^ 128" "raw mod 2 ^ 128 < 2 ^ 128" by simp_all
  then show "1 \<le> mask128 raw" "mask128 raw < 2 ^ 128"
    unfolding mask128_def Let_def by (auto split: if_splits)
qed

lemma yields_off_encrypt:
  "good_key k \<Longrightarrow> yields (off_inv k) E (encrypt (k_pub k) m) (\<lambda>c. off_cipher k c m)"
  by (rule yields_encrypt) (simp_all add: good_key_n fair_off_def)

lemma yields_random128:
  "yields (off_inv k) E (random128 t) (\<lambda>r. 1 \<le> r \<and> r < 2 ^ 128 \<and> (t = SMask3 \<longrightarrow> 1 < r))"
  unfolding random128_def mask128_def [symmetric]
  by (rule yields_draw) (use mask128_range in \<open>auto simp: fair_off_def\<close>)

lemma yields_noise:
  assumes "1 < r3"
  shows "yields (off_inv k) E (repeat_until (random128 SNoise) (\<lambda>noise. \<not> noise \<ge> r3))
    (\<lambda>v. 1 \<le> v \<and> v < r3)"
  unfolding random128_def mask128_def [symmetric]
proof (rule yields_repeat_draw)
  fix f assume "fair_off k f"
  then have "often (\<lambda>raw. mask128 raw = 1) (f SNoise)" by (simp add: fair_off_def)
  with assms show "often (\<lambda>raw. \<not> mask128 raw \<ge> r3) (f SNoise)"
    unfolding often_def by (metis not_le)
qed (use mask128_range in auto)

text \<open>Decryption of a ciphertext, read back into \<open>[0, n)\<close>.\<close>

lemma decrypt_visible:
  assumes "good_key k" "off_cipher k c m"
  obtains v where "decrypt k c = Inr v"
    and "(if v < 0 then v + pk_n (k_pub k) else v) = m mod pk_n (k_pub k)"
    and "v mod pk_n (k_pub k) = m mod pk_n (k_pub k)"
proof
  let ?n = "pk_n (k_pub k)"
  have n: "1 < ?n" using good_key_n assms(1) by blast
  have b: "m mod ?n < ?n" "0 \<le> m mod ?n" using n by simp_all
  show "(if centred_off ?n m < 0 then centred_off ?n m + ?n else centred_off ?n m) = m mod ?n"
    "centred_off ?n m mod ?n = m mod ?n"
    unfolding centred_off_def using b by auto
qed (rule decrypt_cipher [OF assms])

section \<open>Comparison\<close>

text \<open>The plaintext of the randomised difference lies on the side of \<open>n / 2\<close> that the comparison decides.\<close>

lemma masked_compare:
  fixes n :: int
  assumes r: "1 \<le> r3" "r3 < R" "0 \<le> noise" "noise < r3"
    and D: "\<bar>z\<bar> \<le> D" "R * (D + 2) \<le> n div 2" and n: "0 < n"
  shows "(r3 * z + (n div 2 - noise)) mod n > n div 2 \<longleftrightarrow> 0 < z"
    and "(r3 * z + (r3 + (n div 2 - noise))) mod n > n div 2 \<longleftrightarrow> 0 \<le> z"
proof -
  have D0: "0 \<le> D" using D by linarith
  have "\<bar>r3 * z\<bar> \<le> R * D" using r D by (simp add: abs_mult mult_mono)
  then have lo: "- (R * D) \<le> r3 * z" and hi: "r3 * z \<le> R * D" by linarith+
  have "R * (D + 2) = R * D + 2 * R" by (simp add: algebra_simps)
  with D(2) have sz: "R * D + 2 * R \<le> n div 2" by simp
  have half: "n div 2 + n div 2 \<le> n" by simp
  have z1: "0 < z \<Longrightarrow> r3 \<le> r3 * z" using r by simp
  have z2: "\<not> 0 < z \<Longrightarrow> r3 * z \<le> 0" using r by (simp add: mult_nonneg_nonpos)
  have z3: "0 \<le> z \<Longrightarrow> 0 \<le> r3 * z" using r by simp
  have z4: "\<not> 0 \<le> z \<Longrightarrow> r3 * z \<le> - r3"
  proof -
    assume "\<not> 0 \<le> z"
    then have "r3 * z \<le> r3 * (- 1)" using r by (intro mult_left_mono) auto
    then show ?thesis by simp
  qed
  have m1: "(r3 * z + (n div 2 - noise)) mod n = r3 * z + (n div 2 - noise)"
    using lo hi sz half r by (intro mod_pos_pos_trivial) linarith+
  show "(r3 * z + (n div 2 - noise)) mod n > n div 2 \<longleftrightarrow> 0 < z"
    unfolding m1 using z1 z2 r by (cases "0 < z") (use z1 z2 in linarith)+
  have m2: "(r3 * z + (r3 + (n div 2 - noise))) mod n = r3 * z + (r3 + (n div 2 - noise))"
    using lo hi sz half r by (intro mod_pos_pos_trivial) linarith+
  show "(r3 * z + (r3 + (n div 2 - noise))) mod n > n div 2 \<longleftrightarrow> 0 \<le> z"
    unfolding m2 using z3 z4 r by (cases "0 \<le> z") (use z3 z4 in linarith)+
qed

lemma mult_mod_positive_cipher:
  assumes "1 < n" "is_cipher n a x" "is_cipher n b y"
  shows "is_cipher n (a * b smod (n * n)) (x + y)"
  using cadd_cipher [OF assms] by (simp add: cadd_def)

lemma minus_mult_mod: "(n - r) * m mod n = (- r * m) mod (n::int)"
proof -
  have "(n - r) * m = - r * m + m * n" by (simp add: algebra_simps)
  then show ?thesis by (simp only: mod_mult_self1)
qed

lemma cpow_pred_cipher:
  assumes n: "1 < n" and c: "is_cipher n c m"
  shows "is_cipher n (cpow c (n - 1) (n * n)) (- m)"
proof -
  have "is_cipher n (cpow c (n - 1) (n * n)) ((n - 1) * m)"
    using cpow_cipher [OF n c, of "n - 1"] n by simp
  moreover have "(n - 1) * m mod n = (- m) mod n"
    using minus_mult_mod [of n 1 m] by simp
  ultimately show ?thesis using is_cipher_mod n by blast
qed

lemma cpow_mask_cipher:
  assumes n: "1 < n" and c: "is_cipher n c m" and r: "r \<le> n"
  shows "is_cipher n (cpow c (n - r) (n * n)) (- r * m)"
proof -
  have "is_cipher n (cpow c (n - r) (n * n)) ((n - r) * m)"
    using cpow_cipher [OF n c, of "n - r"] r by simp
  moreover have "(n - r) * m mod n = (- r * m) mod n" by (rule minus_mult_mod)
  ultimately show ?thesis using is_cipher_mod n by blast
qed

text \<open>How far apart the operands of a comparison may be.\<close>

definition compare_room :: "int \<Rightarrow> int \<Rightarrow> bool" where
  "compare_room n D \<longleftrightarrow> 2 ^ 128 * (D + 2) \<le> n div 2"

text \<open>The randomised difference, and the bit read from it.\<close>

lemma yields_masked_difference:
  assumes n: "1 < n" and d: "is_cipher n difference z" and r3: "0 \<le> r3"
    and e: "yields I E enc (\<lambda>c. is_cipher n c w)"
  shows "yields I E (bnd enc (\<lambda>e. ret (cpow difference r3 (n * n) * e smod (n * n))))
    (\<lambda>c. is_cipher n c (r3 * z + w))"
  by (rule yields_bnd [OF e], rule yields_ret)
     (rule mult_mod_positive_cipher [OF n cpow_cipher [OF n d r3]])

lemma compare_bit:
  assumes r: "1 \<le> r3" "r3 < 2 ^ 128" "1 \<le> noise" "noise < r3"
    and D: "\<bar>a - b\<bar> \<le> D" "compare_room n D" and n: "1 < n"
    and M: "M = (if orient = 0 then r3 * (a - b) + (r3 + (n div 2 - noise))
                 else r3 * (b - a) + (n div 2 - (noise::int)))"
  shows "M mod n > n div 2 \<longleftrightarrow> (if orient = (0::int) then \<not> a < b else a < b)"
proof -
  have D': "\<bar>b - a\<bar> \<le> D" "2 ^ 128 * (D + 2) \<le> n div 2"
    using D by (simp_all add: compare_room_def)
  have r': "1 \<le> r3" "r3 < 2 ^ 128" "0 \<le> noise" "noise < r3" "0 < n" using r n by simp_all
  show ?thesis
    unfolding M
    using masked_compare(2) [OF r'(1-4) D(1) D'(2) r'(5)] masked_compare(1) [OF r'(1-4) D' r'(5)]
    by (auto simp: not_less)
qed

lemma yields_soci_plus_less:
  assumes k: "good_key k" and x: "off_cipher k x a" and y: "off_cipher k y b"
    and D: "\<bar>a - b\<bar> \<le> D" and room: "compare_room (pk_n (k_pub k)) D"
  shows "yields (off_inv k) E (soci_plus_less k x y)
    (\<lambda>c. off_cipher k c (if a < b then 1 else 0))"
proof -
  let ?n = "pk_n (k_pub k)"
  have n: "1 < ?n" and nsq: "pk_nsq (k_pub k) = ?n * ?n" using k by (simp_all add: good_key_n)
  have sd: "?n sdiv 2 = ?n div 2" using n by simp
  obtain xi where xi: "cinv x (?n * ?n) = Inr xi" "off_cipher k xi (- a)"
    using cinv_cipher [OF n x] by blast
  have d0: "off_cipher k (x * cpow y (?n - 1) (?n * ?n) smod (?n * ?n)) (a - b)"
    using mult_mod_positive_cipher [OF n x cpow_pred_cipher [OF n y]] by simp
  have d1: "off_cipher k (y * xi smod (?n * ?n)) (b - a)"
    using mult_mod_positive_cipher [OF n y xi(2)] by simp
  have enc: "yields (off_inv k) E (encrypt (k_pub k) m) (\<lambda>c. off_cipher k c m)" for m
    using k by (rule yields_off_encrypt)
  show ?thesis
    unfolding soci_plus_less_def Let_def nsq sd
  proof (rule yields_bnd [OF yields_random128], goal_cases)
    case (1 r3)
    then have r3: "1 \<le> r3" "r3 < 2 ^ 128" "1 < r3" by simp_all
    show ?case
    proof (rule yields_bnd [OF yields_noise [OF r3(3)]], goal_cases)
      case (1 noise)
      then have noise: "1 \<le> noise" "noise < r3" by simp_all
      show ?case
      proof (rule yields_bnd [where Q = "\<lambda>_. True"], goal_cases)
        case 1
        show ?case unfolding get_z_bits_def by (rule yields_draw) simp
      next
        case (2 orient)
        let ?M = "if orient = 0 then r3 * (a - b) + (r3 + (?n div 2 - noise))
                  else r3 * (b - a) + (?n div 2 - noise)"
        have bit: "?M mod ?n > ?n div 2 \<longleftrightarrow> (if orient = 0 then \<not> a < b else a < b)"
          by (rule compare_bit [OF r3(1,2) noise D room n refl])
        show ?case
        proof (rule yields_bnd [where Q = "\<lambda>d. off_cipher k d ?M"], goal_cases)
          case 1
          show ?case
            using yields_masked_difference [OF n d0 _ enc] yields_masked_difference [OF n d1 _ enc] r3
            by (auto intro!: yields_bnd [OF yields_of_sum [OF xi(1), where R = "\<lambda>z. z = xi"]])
        next
          case (2 d)
          with k obtain v where v: "decrypt k d = Inr v"
            "(if v < 0 then v + ?n else v) = ?M mod ?n" by (rule decrypt_visible)
          show ?case
          proof (rule yields_bnd [OF yields_of_sum [OF v(1), where R = "\<lambda>z. z = v"]], rule refl, goal_cases)
            case (1 w)
            show ?case
              unfolding 1 v(2) bit
            proof (rule yields_bnd [OF enc], goal_cases)
              case (1 eb)
              show ?case
              proof (cases "orient = 0")
                case True
                with 1 show ?thesis by (simp add: yields_ret split: if_splits)
              next
                case False
                obtain bi where bi: "cinv eb (?n * ?n) = Inr bi"
                  "off_cipher k bi (- (if if orient = 0 then \<not> a < b else a < b then 0 else 1))"
                  using cinv_cipher [OF n 1] by blast
                show ?thesis
                  using False bi(2) mult_mod_positive_cipher [OF n]
                  by (auto intro!: yields_bnd [OF enc] yields_ret
                      yields_bnd [OF yields_of_sum [OF bi(1), where R = "\<lambda>z. z = bi"]] simp: dest: mult_mod_positive_cipher [OF n])
              qed
            qed
          qed
        qed
      qed
    qed
  qed
qed

section \<open>Multiplication\<close>

lemma yields_soci_plus_mul:
  assumes k: "good_key k" and x: "off_cipher k x a" and y: "off_cipher k y b"
    and room: "2 ^ 128 \<le> pk_n (k_pub k)"
  shows "yields (off_inv k) E (soci_plus_mul k x y) (\<lambda>c. off_cipher k c (a * b))"
proof -
  let ?n = "pk_n (k_pub k)"
  have n: "1 < ?n" and nsq: "pk_nsq (k_pub k) = ?n * ?n" using k by (simp_all add: good_key_n)
  have enc: "yields (off_inv k) E (encrypt (k_pub k) m) (\<lambda>c. off_cipher k c m)" for m
    using k by (rule yields_off_encrypt)
  show ?thesis
    unfolding soci_plus_mul_def Let_def nsq
  proof (rule yields_bnd [OF yields_random128], rule yields_bnd [OF yields_random128],
      rule yields_bnd [OF enc], rule yields_bnd [OF enc], goal_cases)
    case (1 r1 r2 e1 e2)
    then have r: "r1 \<le> ?n" "r2 \<le> ?n" using room by simp_all
    obtain v where v: "decrypt k (cadd x e1 (?n * ?n)) = Inr v" "v mod ?n = (a + r1) mod ?n"
      using decrypt_visible [OF k cadd_cipher [OF n x 1(3)]] by blast
    obtain w where w: "decrypt k (cadd y e2 (?n * ?n)) = Inr w" "w mod ?n = (b + r2) mod ?n"
      using decrypt_visible [OF k cadd_cipher [OF n y 1(4)]] by blast
    have vw: "v * w mod ?n = (a + r1) * (b + r2) mod ?n" using v(2) w(2) by (rule mod_mult_cong)
    show ?case
      unfolding v(1) w(1)
    proof (rule yields_bnd [OF yields_of_sum [OF refl, where R = "\<lambda>z. z = v"], OF refl],
        rule yields_bnd [OF yields_of_sum [OF refl, where R = "\<lambda>z. z = w"], OF refl],
        rule yields_bnd [OF enc], rule yields_bnd [OF enc], rule yields_ret, goal_cases)
      case (1 _ _ p0 c)
      then have p0: "off_cipher k p0 ((a + r1) * (b + r2))"
        using is_cipher_mod [OF n] vw by blast
      have "off_cipher k (cadd (cadd (cadd p0 (cpow x (?n - r2) (?n * ?n)) (?n * ?n))
          (cpow y (?n - r1) (?n * ?n)) (?n * ?n)) c (?n * ?n))
          ((a + r1) * (b + r2) + (- r2 * a) + (- r1 * b) + (- r1 * r2))"
        by (intro cadd_cipher [OF n] p0 1(4) cpow_mask_cipher [OF n] x y r)
      then show ?case by (simp add: algebra_simps)
    qed
  qed
qed

section \<open>Sign, absolute value and division\<close>

lemma yields_soci_plus_sign:
  assumes k: "good_key k" and x: "off_cipher k x a"
    and room: "compare_room (pk_n (k_pub k)) \<bar>a\<bar>"
  shows "yields (off_inv k) E (soci_plus_sign k x)
    (\<lambda>c. off_cipher k c (if a < 0 then 1 else 0))"
  unfolding soci_plus_sign_def
  by (rule yields_bnd [OF yields_off_encrypt [OF k]],
      rule yields_soci_plus_less [OF k x _ _ room]) simp_all

lemma compare_room_modulus: "compare_room n D \<Longrightarrow> 0 \<le> D \<Longrightarrow> 2 ^ 128 \<le> n"
proof -
  assume D: "compare_room n D" "0 \<le> D"
  then have "2 ^ 128 * 2 \<le> (2 ^ 128 * (D + 2) :: int)" by (intro mult_left_mono) simp_all
  with D(1) have "2 ^ 128 * 2 \<le> n div 2" unfolding compare_room_def by (rule order_trans [rotated])
  then show ?thesis by simp
qed

lemma yields_soci_plus_abs:
  assumes k: "good_key k" and x: "off_cipher k x a"
    and room: "compare_room (pk_n (k_pub k)) \<bar>a\<bar>"
  shows "yields (off_inv k) E (soci_plus_abs k x) (\<lambda>c. off_cipher k c \<bar>a\<bar>)"
proof -
  let ?n = "pk_n (k_pub k)"
  have n: "1 < ?n" and nsq: "pk_nsq (k_pub k) = ?n * ?n" using k by (simp_all add: good_key_n)
  have big: "2 ^ 128 \<le> ?n" using room by (rule compare_room_modulus) simp
  show ?thesis
    unfolding soci_plus_abs_def Let_def nsq
  proof (rule yields_bnd [OF yields_soci_plus_sign [OF k x room]],
      rule yields_bnd [OF yields_off_encrypt [OF k]], goal_cases)
    case (1 sg one)
    have "off_cipher k (cadd one (cpow sg (?n - 2) (?n * ?n)) (?n * ?n))
        (1 + - 2 * (if a < 0 then 1 else 0))"
      using big by (intro cadd_cipher [OF n] 1 cpow_mask_cipher [OF n]) simp
    from yields_soci_plus_mul [OF k this x big] show ?case
      by (rule yields_weaken) (auto simp: abs_if)
  qed
qed

text \<open>
  One division step keeps \<open>quo * b + rest\<close>, and brings the rest below the next shifted
  divisor.
\<close>

lemma divmod_shift:
  "0 < b \<Longrightarrow> x = y + c * b \<Longrightarrow> x div b = c + y div b \<and> x mod b = y mod (b::int)"
  by simp

lemma yields_soci_plus_div_loop:
  assumes k: "good_key k" and one: "off_cipher k one 1" and dv: "off_cipher k divisor b"
    and b: "0 < b" and room: "compare_room (pk_n (k_pub k)) (2 ^ bits * b)"
  shows "bits' \<le> bits \<Longrightarrow> off_cipher k quo q \<Longrightarrow> off_cipher k dividend a \<Longrightarrow>
    0 \<le> a \<Longrightarrow> a < 2 ^ bits' * b \<Longrightarrow>
    yields (off_inv k) E (soci_plus_div_loop k one divisor bits' quo dividend)
      (\<lambda>(qc, rc). off_cipher k qc (q + a div b) \<and> off_cipher k rc (a mod b))"
proof (induction bits' arbitrary: quo q dividend a)
  case 0
  then show ?case using b by (auto intro!: yields_ret simp: div_pos_pos_trivial mod_pos_pos_trivial)
next
  case (Suc s)
  let ?n = "pk_n (k_pub k)"
  have n: "1 < ?n" and nsq: "pk_nsq (k_pub k) = ?n * ?n" using k by (simp_all add: good_key_n)
  have big: "2 ^ 128 \<le> ?n" using room by (rule compare_room_modulus) (use b in simp)
  let ?sh = "cpow divisor (2 ^ s) (?n * ?n)"
  have sh: "off_cipher k ?sh (2 ^ s * b)" by (rule cpow_cipher [OF n dv]) simp
  have "2 ^ Suc s * b \<le> 2 ^ bits * b"
    using Suc.prems(1) b by (intro mult_right_mono power_increasing) simp_all
  then have "a < 2 ^ bits * b" using Suc.prems(5) by linarith
  moreover have "2 ^ s * b \<le> 2 ^ bits * b"
    using Suc.prems(1) b by (intro mult_right_mono power_increasing) simp_all
  moreover have "0 < 2 ^ s * b" using b by simp
  ultimately have D: "\<bar>a - 2 ^ s * b\<bar> \<le> 2 ^ bits * b" using Suc.prems(4) by linarith
  let ?t = "if a < 2 ^ s * b then 0 else (1::int)"
  show ?case
    unfolding soci_plus_div_loop.simps Let_def nsq
  proof (rule yields_bnd [OF yields_soci_plus_less [OF k Suc.prems(3) sh D room]], goal_cases)
    case (1 lt)
    let ?take = "cadd one (cpow lt (?n - 1) (?n * ?n)) (?n * ?n)"
    have "off_cipher k ?take (1 + - (if a < 2 ^ s * b then 1 else 0))"
      by (intro cadd_cipher [OF n] one cpow_pred_cipher [OF n] 1)
    then have t: "off_cipher k ?take ?t" by (simp split: if_splits)
    have q: "off_cipher k (cadd quo (cpow ?take (2 ^ s) (?n * ?n)) (?n * ?n)) (q + 2 ^ s * ?t)"
      by (intro cadd_cipher [OF n] Suc.prems cpow_cipher [OF n t]) simp
    show ?case
    proof (rule yields_bnd [OF yields_soci_plus_mul [OF k t sh big]], goal_cases)
      case (1 sub)
      have d: "off_cipher k (cadd dividend (cpow sub (?n - 1) (?n * ?n)) (?n * ?n))
          (a + - (?t * (2 ^ s * b)))"
        by (intro cadd_cipher [OF n] Suc.prems cpow_pred_cipher [OF n 1])
      let ?a = "a + - (?t * (2 ^ s * b))"
      have a: "0 \<le> ?a" "?a < 2 ^ s * b" using Suc.prems(4,5) by (auto simp: algebra_simps)
      have e: "a = ?a + (2 ^ s * ?t) * b" by simp
      have f: "q + 2 ^ s * ?t + ?a div b = q + a div b" "?a mod b = a mod b"
        using divmod_shift [OF b e] by linarith+
      from Suc.IH [OF _ q d a] Suc.prems(1) show ?case unfolding f nsq by simp
    qed
  qed
qed

lemma yields_soci_plus_div:
  assumes k: "good_key k" and x: "off_cipher k dividend a" and y: "off_cipher k divisor b"
    and a: "0 \<le> a" "a < 2 ^ bits * b" and b: "0 < b"
    and room: "compare_room (pk_n (k_pub k)) (2 ^ bits * b)"
  shows "yields (off_inv k) E (soci_plus_div k dividend divisor bits)
    (\<lambda>(qc, rc). off_cipher k qc (a div b) \<and> off_cipher k rc (a mod b))"
  unfolding soci_plus_div_def
  by (rule yields_bnd [OF yields_off_encrypt [OF k]], rule yields_bnd [OF yields_off_encrypt [OF k]],
      rule yields_weaken [OF yields_soci_plus_div_loop [OF k _ y b room order_refl _ x a]])
     (auto split: prod.splits)

section \<open>The division entry point\<close>

text \<open>A divisor below one is rejected; otherwise 21 quotient bits are computed.\<close>

lemma yields_secure_div_core:
  assumes k: "good_key k" and x: "off_cipher k x a" and y: "off_cipher k y b"
    and a: "0 \<le> a" "a < 2 ^ 21 * b" and room: "compare_room (pk_n (k_pub k)) (2 ^ 21 * b)"
  shows "yields (off_inv k) E (secure_div_core k x y)
    (\<lambda>(qc, rc). off_cipher k qc (a div b) \<and> off_cipher k rc (a mod b))"
proof -
  have b: "0 < b" using a by (smt (verit) mult_nonneg_nonpos zero_le_power)
  have D: "\<bar>b - 1\<bar> \<le> 2 ^ 21 * b" using b by simp
  show ?thesis
    unfolding secure_div_core_def
  proof (rule yields_bnd [OF yields_off_encrypt [OF k]], goal_cases)
    case (1 one)
    show ?case
    proof (rule yields_bnd [OF yields_soci_plus_less [OF k y 1 D room]], goal_cases)
      case (1 below)
      then have "off_cipher k below 0" using b by simp
      from decrypt_cipher [OF k this] good_key_n(1) [OF k] have d: "decrypt k below = Inr 0"
        by (simp add: centred_off_def)
      show ?case
        unfolding d
        by (rule yields_bnd [OF yields_of_sum [OF refl, where R = "\<lambda>z. z = 0"], OF refl])
           (simp add: yields_soci_plus_div [OF k x y a b room])
    qed
  qed
qed

lemma yields_secure_div_reject:
  assumes k: "good_key k" and y: "off_cipher k y b"
    and b: "b \<le> 0" "compare_room (pk_n (k_pub k)) (1 - b)"
  shows "yields (off_inv k) (\<lambda>e. e = StdInvalidArgument ''divisor must be positive'')
    (secure_div_core k x y) (\<lambda>_. False)"
proof -
  have D: "\<bar>b - 1\<bar> \<le> 1 - b" using b by simp
  show ?thesis
    unfolding secure_div_core_def
  proof (rule yields_bnd [OF yields_off_encrypt [OF k]], goal_cases)
    case (1 one)
    show ?case
    proof (rule yields_bnd [OF yields_soci_plus_less [OF k y 1 D b(2)]], goal_cases)
      case (1 below)
      then have one: "off_cipher k below 1" using b by simp
      let ?v = "centred_off (pk_n (k_pub k)) 1"
      have "?v \<noteq> 0" using good_key_n(1) [OF k] by (simp add: centred_off_def)
      then show ?case
        unfolding decrypt_cipher [OF k one]
        by (intro yields_bnd [OF yields_of_sum [OF refl, where R = "\<lambda>z. z = ?v"]])
           (simp_all add: yields_throw)
    qed
  qed
qed

section \<open>The properties of the OFF backend\<close>

lemma div_le_dividend_int: "0 \<le> a \<Longrightarrow> 0 < b \<Longrightarrow> a div b \<le> (a::int)"
  by (metis div_by_1 zdiv_mono2 zero_less_one int_one_le_iff_zero_less)

text \<open>What a caller reads: a ciphertext of a representable value decrypts to it.\<close>

lemma decrypt_small:
  assumes "good_key k" "off_cipher k c m" "2 * \<bar>m\<bar> + 2 \<le> pk_n (k_pub k)"
  shows "decrypt k c = Inr m"
  using decrypt_cipher [OF assms(1,2)] assms(3) centred_off_small [of "pk_n (k_pub k)" m] by simp

lemma compare_room_small:
  assumes "compare_room n D" "0 \<le> D" "\<bar>m\<bar> \<le> D + 1"
  shows "2 * \<bar>m\<bar> + 2 \<le> n"
proof -
  have "1 * (D + 2) \<le> 2 ^ 128 * (D + 2)" using assms(2) by (intro mult_right_mono) simp_all
  with assms(1) have "D + 2 \<le> n div 2" unfolding compare_room_def by (metis mult_1 order_trans)
  moreover have "2 * (n div 2) \<le> n" by simp
  ultimately show ?thesis using assms(3) by linarith
qed

lemma compare_room_mono: "compare_room n D \<Longrightarrow> D' \<le> D \<Longrightarrow> compare_room n D'"
proof -
  assume D: "compare_room n D" "D' \<le> D"
  then have "2 ^ 128 * (D' + 2) \<le> (2 ^ 128 * (D + 2) :: int)" by (intro mult_left_mono) simp_all
  also have "\<dots> \<le> n div 2" using D(1) by (simp only: compare_room_def)
  finally show ?thesis by (simp only: compare_room_def)
qed

lemma sample_room: "0 \<le> D \<Longrightarrow> D \<le> 2 ^ 128 \<Longrightarrow> compare_room sample_n D"
proof -
  assume "0 \<le> D" "D \<le> 2 ^ 128"
  then have "2 ^ 128 * (D + 2) \<le> 2 ^ 128 * (2 ^ 128 + (2::int))" by (intro mult_left_mono) simp_all
  also have "\<dots> \<le> sample_n div 2" by (simp add: sample_n_def)
  finally show ?thesis by (simp add: compare_room_def)
qed

lemma sample_fair_off: "fair_off sample_key (src sample_rng)"
proof -
  have "1 < sample_n" by (simp add: sample_n_def)
  then show ?thesis
    by (auto simp: fair_off_def sample_good fair_nonce_off_def often_def nonce_ok_def sample_rng_def
        mask128_def)
qed

text \<open>C29: A key built by keygen from two distinct primes decrypts every encryption of a value
  representable under its modulus to that value.\<close>

theorem keygen_encrypt_decrypt:
  assumes "keygen bits p qs = Some (Inr k)" "prime_int p" "\<forall>i. prime_int (qs i)"
    and "fair_nonce_off (pk_n (k_pub k)) (src g)" "2 * \<bar>m\<bar> + 2 \<le> pk_n (k_pub k)"
  shows "\<exists>c g'. encrypt (k_pub k) m g = Some (Inr c, g') \<and> decrypt k c = Inr m"
proof -
  obtain q where q: "first_other p qs 0 = Some q" "keygen_primes p q = Inr k"
    using assms(1) by (auto simp: keygen_def split: if_splits option.splits)
  have "q \<noteq> p \<and> prime_int q" using first_other_prime [OF q(1)] assms(3) by blast
  with keygen_primes_good [OF assms(2) _ _ q(2)] have k: "good_key k" by blast
  have "yields (\<lambda>g::rng. fair_nonce_off (pk_n (k_pub k)) (src g)) no_exn (encrypt (k_pub k) m)
      (\<lambda>c. off_cipher k c m)"
    by (rule yields_encrypt) (simp_all add: good_key_n [OF k])
  then show ?thesis
    using assms(4,5) decrypt_small [OF k] by (metis yields_no_exnD)
qed

lemma sample_keygen: "first_other 5 (\<lambda>_. 7) 0 = Some 7"
  by (simp add: first_other.simps)

theorem keygen_encrypt_decrypt_witness:
  "\<exists>k c g'. keygen 3072 5 (\<lambda>_. 7) = Some (Inr k) \<and>
     encrypt (k_pub k) (- 16) sample_rng = Some (Inr c, g') \<and> decrypt k c = Inr (- 16)"
proof -
  let ?k = "\<lparr>k_pub = \<lparr>pk_n = 35, pk_nsq = 1225\<rparr>, k_sec = \<lparr>sk_lambda = 12, sk_mu = 3\<rparr>\<rparr>"
  have "keygen_primes 5 7 = Inr ?k" by code_simp
  then have k: "keygen 3072 5 (\<lambda>_. 7) = Some (Inr ?k)"
    by (simp add: keygen_def sample_keygen)
  have "prime_int 5" "prime_int 7" by (rule prime_below_1024, code_simp)+
  moreover have "fair_nonce_off 35 (src sample_rng)"
    by (auto simp: fair_nonce_off_def often_def nonce_ok_def sample_rng_def)
  ultimately have "\<exists>c g'. encrypt (k_pub ?k) (- 16) sample_rng = Some (Inr c, g') \<and>
      decrypt ?k c = Inr (- 16)"
    by (intro keygen_encrypt_decrypt [OF k]) simp_all
  with k show ?thesis by blast
qed

text \<open>On encryptions of any a and b the product of the ciphertexts decrypts to the sum and
  a power of one, with an exponent of either sign, to the scalar multiple.\<close>

theorem homomorphic_operations:
  assumes "good_key k" "off_cipher k x a" "off_cipher k y b"
    and "2 * \<bar>a + b\<bar> + 2 \<le> pk_n (k_pub k)" "2 * \<bar>e * a\<bar> + 2 \<le> pk_n (k_pub k)"
  shows "decrypt k (cadd x y (pk_nsq (k_pub k))) = Inr (a + b) \<and>
    (\<exists>z. ciphertextPower x e (pk_nsq (k_pub k)) = Inr z \<and> decrypt k z = Inr (e * a))"
proof
  have n: "1 < pk_n (k_pub k)" and nsq: "pk_nsq (k_pub k) = pk_n (k_pub k) * pk_n (k_pub k)"
    using assms(1) by (simp_all add: good_key_n)
  show "decrypt k (cadd x y (pk_nsq (k_pub k))) = Inr (a + b)"
    unfolding nsq by (rule decrypt_small [OF assms(1) cadd_cipher [OF n assms(2,3)] assms(4)])
  show "\<exists>z. ciphertextPower x e (pk_nsq (k_pub k)) = Inr z \<and> decrypt k z = Inr (e * a)"
    unfolding nsq using ciphertextPower_cipher [OF n assms(2), of e] decrypt_small [OF assms(1) _ assms(5)]
    by blast
qed

theorem homomorphic_operations_witness:
  "decrypt sample_key (cadd (sample_cipher 20) (sample_cipher (- 30)) (pk_nsq (k_pub sample_key))) =
     Inr (20 + - 30) \<and>
   (\<exists>z. ciphertextPower (sample_cipher 20) (- 7) (pk_nsq (k_pub sample_key)) = Inr z \<and>
     decrypt sample_key z = Inr (- 7 * 20))"
  using homomorphic_operations [OF sample_good, of "sample_cipher 20" 20 "sample_cipher (- 30)" "- 30" "- 7"]
    sample_cipher by (simp add: sample_n_def)

text \<open>C27: The secure multiplication of the OFF backend returns and its result decrypts to the
  product of the two plaintexts, for every pair whose product the modulus can represent.\<close>

theorem soci_plus_mul_correct:
  assumes "fair_off k (src g)" "off_cipher k x a" "off_cipher k y b"
    and "2 ^ 128 \<le> pk_n (k_pub k)" "2 * \<bar>a * b\<bar> + 2 \<le> pk_n (k_pub k)"
  shows "\<exists>c g'. soci_plus_mul k x y g = Some (Inr c, g') \<and> decrypt k c = Inr (a * b)"
proof -
  have k: "good_key k" using assms(1) by (simp add: fair_off_def)
  obtain c g' where "soci_plus_mul k x y g = Some (Inr c, g')" "off_cipher k c (a * b)"
    using yields_no_exnD [OF yields_soci_plus_mul [OF k assms(2-4)] assms(1)] by blast
  with decrypt_small [OF k _ assms(5)] show ?thesis by blast
qed

theorem soci_plus_mul_correct_witness:
  "\<exists>c g'. soci_plus_mul sample_key (sample_cipher (- 12)) (sample_cipher 1000) sample_rng =
     Some (Inr c, g') \<and> decrypt sample_key c = Inr (- 12 * 1000)"
  using soci_plus_mul_correct [OF sample_fair_off, of "sample_cipher (- 12)" "- 12" "sample_cipher 1000" 1000]
    sample_cipher by (simp add: sample_n_def)

text \<open>C10: The secure comparison returns an encryption of 1 when the first plaintext is below the
  second and of 0 otherwise, whichever orientation its random bit takes, as long as 128-bit masks
  leave room for the difference.\<close>

theorem soci_plus_less_correct:
  assumes "fair_off k (src g)" "off_cipher k x a" "off_cipher k y b"
    and "compare_room (pk_n (k_pub k)) \<bar>a - b\<bar>"
  shows "\<exists>c g'. soci_plus_less k x y g = Some (Inr c, g') \<and>
    decrypt k c = Inr (if a < b then 1 else 0)"
proof -
  have k: "good_key k" using assms(1) by (simp add: fair_off_def)
  obtain c g' where "soci_plus_less k x y g = Some (Inr c, g')"
      "off_cipher k c (if a < b then 1 else 0)"
    using yields_no_exnD [OF yields_soci_plus_less [OF k assms(2,3) order_refl assms(4)] assms(1)]
    by blast
  with decrypt_small [OF k _ compare_room_small [OF assms(4)]] show ?thesis by fastforce
qed

theorem soci_plus_less_correct_witness:
  "\<exists>c g'. soci_plus_less sample_key (sample_cipher (- 5)) (sample_cipher 4) sample_rng =
     Some (Inr c, g') \<and> decrypt sample_key c = Inr (if - 5 < (4::int) then 1 else 0)"
  using soci_plus_less_correct [OF sample_fair_off, of "sample_cipher (- 5)" "- 5" "sample_cipher 4" 4]
    sample_cipher sample_room [of 9] by simp

text \<open>The encrypted absolute value decrypts to the absolute value.\<close>

theorem soci_plus_abs_correct:
  assumes "fair_off k (src g)" "off_cipher k x a" "compare_room (pk_n (k_pub k)) \<bar>a\<bar>"
  shows "\<exists>c g'. soci_plus_abs k x g = Some (Inr c, g') \<and> decrypt k c = Inr \<bar>a\<bar>"
proof -
  have k: "good_key k" using assms(1) by (simp add: fair_off_def)
  obtain c g' where "soci_plus_abs k x g = Some (Inr c, g')" "off_cipher k c \<bar>a\<bar>"
    using yields_no_exnD [OF yields_soci_plus_abs [OF k assms(2,3)] assms(1)] by blast
  with decrypt_small [OF k _ compare_room_small [OF assms(3)]] show ?thesis by fastforce
qed

theorem soci_plus_abs_correct_witness:
  "\<exists>c g'. soci_plus_abs sample_key (sample_cipher (- 42)) sample_rng = Some (Inr c, g') \<and>
     decrypt sample_key c = Inr \<bar>- 42\<bar>"
  using soci_plus_abs_correct [OF sample_fair_off, of "sample_cipher (- 42)" "- 42"]
    sample_cipher sample_room [of 42] by simp

text \<open>C28: The secure division rejects a divisor below one, and otherwise computes the quotient
  and remainder of a non-negative dividend, provided the quotient has at most 21 bits.\<close>

theorem secure_div_correct:
  assumes "fair_off k (src g)" "off_cipher k x a" "off_cipher k y b"
    and "compare_room (pk_n (k_pub k)) (2 ^ 21 * \<bar>b\<bar> + 1)" "0 \<le> a" "b \<le> 0 \<or> a < 2 ^ 21 * b"
  shows "\<exists>r g'. secure_div_core k x y g = Some (r, g') \<and>
    (if b \<le> 0 then r = Inl (StdInvalidArgument ''divisor must be positive'')
     else \<exists>qc rc. r = Inr (qc, rc) \<and> decrypt k qc = Inr (a div b) \<and> decrypt k rc = Inr (a mod b))"
proof (cases "b \<le> 0")
  case True
  have k: "good_key k" using assms(1) by (simp add: fair_off_def)
  have "compare_room (pk_n (k_pub k)) (1 - b)"
    by (rule compare_room_mono [OF assms(4)]) (use True in simp)
  from yields_secure_div_reject [OF k assms(3) True this, of x] assms(1) True show ?thesis
    by (auto elim!: yieldsD split: sum.splits)
next
  case False
  have k: "good_key k" using assms(1) by (simp add: fair_off_def)
  have room: "compare_room (pk_n (k_pub k)) (2 ^ 21 * b)"
    by (rule compare_room_mono [OF assms(4)]) (use False in simp)
  have ab: "a < 2 ^ 21 * b" using assms(6) False by simp
  obtain qc rc g' where r: "secure_div_core k x y g = Some (Inr (qc, rc), g')"
      "off_cipher k qc (a div b)" "off_cipher k rc (a mod b)"
    using yields_no_exnD [OF yields_secure_div_core [OF k assms(2,3,5) ab room] assms(1)] by blast
  have "0 \<le> a div b" "a div b \<le> a" "0 \<le> a mod b" "a mod b < b"
    using assms(5) False by (simp_all add: pos_imp_zdiv_nonneg_iff div_le_dividend_int)
  moreover have "b \<le> 2 ^ 21 * b" using False by simp
  ultimately have "\<bar>a div b\<bar> \<le> 2 ^ 21 * b + 1" "\<bar>a mod b\<bar> \<le> 2 ^ 21 * b + 1"
    using ab by linarith+
  moreover have "0 \<le> 2 ^ 21 * b" using False by simp
  ultimately have "decrypt k qc = Inr (a div b)" "decrypt k rc = Inr (a mod b)"
    using decrypt_small [OF k r(2) compare_room_small [OF room]]
      decrypt_small [OF k r(3) compare_room_small [OF room]] by blast+
  with r(1) False show ?thesis by simp
qed

theorem secure_div_correct_witness:
  "\<exists>r g'. secure_div_core sample_key (sample_cipher 1000) (sample_cipher 7) sample_rng = Some (r, g') \<and>
    (\<exists>qc rc. r = Inr (qc, rc) \<and> decrypt sample_key qc = Inr (1000 div 7) \<and>
       decrypt sample_key rc = Inr (1000 mod 7))"
  using secure_div_correct [OF sample_fair_off, of "sample_cipher 1000" 1000 "sample_cipher 7" 7]
    sample_cipher sample_room [of "2 ^ 21 * 7 + 1"] by simp

end
