(* ===== verification/CostModel.thy ===== *)
theory CostModel
  imports SociPrelude "HOL-Library.Product_Lexorder" "HOL-Library.List_Lexorder"
begin

text \<open>
  The optimisation problem all solvers of the repository address, as a specification: every
  material (a row) is made by one of three methods, some of which may be missing; an assignment
  is feasible when methods 1 and 2 carry at least the threshold share of the cost and method 3
  carries some; among feasible assignments the cost decides, then the cost of methods 1 and 2
  (at equal cost, the ratio closest to the threshold), then the method numbers lexicographically.

  \<open>assignments\<close> enumerates all choices in lexicographic order, \<open>reference_optimum\<close> is
  exhaustive search, and \<open>optimal\<close> is what it finds. The rest is what a depth-first search
  with pruning needs: sums over a prefix and a suffix, bounds on a suffix, and folding over the
  leaves of a subtree.
\<close>

section \<open>Assignments and their sums\<close>

type_synonym row = "int option list"

definition row_ok :: "row \<Rightarrow> bool" where
  "row_ok r \<longleftrightarrow> length r = 3 \<and> list_ex (\<lambda>c. c \<noteq> None) r \<and> (\<forall>c. Some c \<in> set r \<longrightarrow> 0 \<le> c)"

primrec assignments :: "row list \<Rightarrow> nat list list" where
  "assignments [] = [[]]"
| "assignments (r # rs) =
     concat (map (\<lambda>j. if r ! j = None then [] else map ((#) (Suc j)) (assignments rs)) [0, 1, 2])"

text \<open>A sum over the chosen methods; \<open>w m c\<close> is what method \<open>m\<close> at cost \<open>c\<close> contributes.\<close>

fun sum_by :: "(nat \<Rightarrow> int \<Rightarrow> int) \<Rightarrow> row list \<Rightarrow> nat list \<Rightarrow> int" where
  "sum_by w (r # rs) (m # ms) = w m (the (r ! (m - 1))) + sum_by w rs ms"
| "sum_by w rs ms = 0"

definition w_cost :: "nat \<Rightarrow> int \<Rightarrow> int" where "w_cost m c = c"
definition w_c12 :: "nat \<Rightarrow> int \<Rightarrow> int" where "w_c12 m c = (if m < 3 then c else 0)"
definition w_c3 :: "nat \<Rightarrow> int \<Rightarrow> int" where "w_c3 m c = (if m < 3 then 0 else c)"

text \<open>The linearised ratio constraint \<open>(S - T) c12 - T c3 \<ge> 0\<close>.\<close>

definition w_linear :: "int \<Rightarrow> int \<Rightarrow> nat \<Rightarrow> int \<Rightarrow> int" where
  "w_linear S T m c = (if m < 3 then (S - T) * c else - T * c)"

definition feasible :: "int \<Rightarrow> int \<Rightarrow> row list \<Rightarrow> nat list \<Rightarrow> bool" where
  "feasible S T rows xs \<longleftrightarrow> 0 \<le> sum_by (w_linear S T) rows xs \<and> 0 < sum_by w_c3 rows xs"

type_synonym ckey = "int \<times> int \<times> nat list"

definition ckey :: "row list \<Rightarrow> nat list \<Rightarrow> ckey" where
  "ckey rows xs = (sum_by w_cost rows xs, sum_by w_c12 rows xs, xs)"

definition optimal :: "int \<Rightarrow> int \<Rightarrow> row list \<Rightarrow> nat list \<Rightarrow> bool" where
  "optimal S T rows xs \<longleftrightarrow> xs \<in> set (assignments rows) \<and> feasible S T rows xs \<and>
     (\<forall>ys\<in>set (assignments rows). feasible S T rows ys \<longrightarrow> ckey rows xs \<le> ckey rows ys)"

section \<open>Exhaustive search\<close>

definition keep :: "ckey \<Rightarrow> ckey option \<Rightarrow> ckey option" where
  "keep k b = (case b of None \<Rightarrow> Some k | Some b' \<Rightarrow> if k < b' then Some k else Some b')"

definition reference_optimum :: "int \<Rightarrow> int \<Rightarrow> row list \<Rightarrow> ckey option" where
  "reference_optimum S T rows =
     fold keep (map (ckey rows) (filter (feasible S T rows) (assignments rows))) None"

lemma fold_keep_Some:
  "\<exists>m. fold keep ks (Some b) = Some m \<and> m \<in> insert b (set ks) \<and> (\<forall>k\<in>insert b (set ks). m \<le> k)"
proof (induction ks arbitrary: b)
  case (Cons k ks)
  have s: "keep k (Some b) = Some (min k b)" by (auto simp: keep_def min_def)
  obtain m where m: "fold keep ks (Some (min k b)) = Some m" "m \<in> insert (min k b) (set ks)"
    "\<forall>x\<in>insert (min k b) (set ks). m \<le> x" using Cons by blast
  have le: "m \<le> min k b" using m(3) by blast
  then have "m \<le> k" "m \<le> b" by (meson min.cobounded1 min.cobounded2 order_trans)+
  moreover have "m \<in> insert b (set (k # ks))" using m(2) by (auto simp: min_def split: if_splits)
  ultimately show ?case using m(1,3) by (auto simp: s)
qed simp

lemma fold_keep_None:
  "fold keep ks None = None \<longleftrightarrow> ks = []"
  "fold keep ks None = Some m \<Longrightarrow> m \<in> set ks \<and> (\<forall>k\<in>set ks. m \<le> k)"
proof -
  have c: "fold keep (k # ks') None = fold keep ks' (Some k)" for k ks' by (simp add: keep_def)
  show "fold keep ks None = None \<longleftrightarrow> ks = []"
  proof (cases ks)
    case (Cons k ks')
    obtain m where "fold keep ks' (Some k) = Some m" using fold_keep_Some by blast
    with Cons show ?thesis by (simp only: c) simp
  qed simp
  show "fold keep ks None = Some m \<Longrightarrow> m \<in> set ks \<and> (\<forall>k\<in>set ks. m \<le> k)"
    using fold_keep_Some [of "tl ks" "hd ks"] by (cases ks) (auto simp: keep_def)
qed

lemma reference_optimum_Some:
  assumes "reference_optimum S T rows = Some k"
  shows "\<exists>xs. k = ckey rows xs \<and> optimal S T rows xs"
  using fold_keep_None(2) [OF assms [unfolded reference_optimum_def]]
  by (auto simp: optimal_def)

lemma reference_optimum_None:
  "reference_optimum S T rows = None \<longleftrightarrow> (\<forall>xs\<in>set (assignments rows). \<not> feasible S T rows xs)"
  by (auto simp: reference_optimum_def fold_keep_None(1) filter_empty_conv)

lemma ckey_inj: "ckey rows xs = ckey rows ys \<Longrightarrow> xs = ys"
  by (simp add: ckey_def)

lemma optimal_unique: "optimal S T rows xs \<Longrightarrow> optimal S T rows ys \<Longrightarrow> xs = ys"
  unfolding optimal_def by (metis ckey_inj antisym)

section \<open>Prefixes and suffixes\<close>

lemma assignments_Cons_set:
  "xs \<in> set (assignments (r # rs)) \<longleftrightarrow>
     (\<exists>j ys. j < 3 \<and> r ! j \<noteq> None \<and> ys \<in> set (assignments rs) \<and> xs = Suc j # ys)"
proof -
  have "(\<exists>j. j < 3 \<and> P j) \<longleftrightarrow> P 0 \<or> P 1 \<or> P (2::nat)" for P
    by (metis less_2_cases less_Suc_eq numeral_2_eq_2 numeral_3_eq_3 zero_less_Suc One_nat_def)
  then show ?thesis by (auto simp: image_iff split: if_splits)
qed

lemma assignments_append:
  "p \<in> set (assignments rs) \<Longrightarrow> ys \<in> set (assignments rs') \<Longrightarrow> p @ ys \<in> set (assignments (rs @ rs'))"
  by (induction rs arbitrary: p) (auto simp: assignments_Cons_set simp del: assignments.simps(2))

lemma assignments_snoc:
  assumes "p \<in> set (assignments (take i rows))" "i < length rows" "j < 3" "rows ! i ! j = Some c"
  shows "p @ [Suc j] \<in> set (assignments (take (Suc i) rows))"
proof -
  have "[Suc j] \<in> set (assignments [rows ! i])"
    using assms(3,4) by (auto simp: assignments_Cons_set simp del: assignments.simps(2))
  from assignments_append [OF assms(1) this] assms(2) show ?thesis
    by (simp add: take_Suc_conv_app_nth)
qed

lemma assignments_length: "xs \<in> set (assignments rows) \<Longrightarrow> length xs = length rows"
  by (induction rows arbitrary: xs) (auto simp: assignments_Cons_set simp del: assignments.simps(2))

lemma sum_by_append:
  "length p \<le> length rows \<Longrightarrow>
     sum_by w rows (p @ ys) = sum_by w rows p + sum_by w (drop (length p) rows) ys"
proof (induction p arbitrary: rows)
  case Nil
  show ?case by (cases rows) simp_all
next
  case (Cons m p)
  then show ?case by (cases rows) simp_all
qed

lemma sum_by_snoc:
  assumes "length p < length rows"
  shows "sum_by w rows (p @ [m]) = sum_by w rows p + w m (the (rows ! length p ! (m - 1)))"
proof -
  have "drop (length p) rows = rows ! length p # drop (Suc (length p)) rows"
    using assms by (simp add: Cons_nth_drop_Suc)
  with sum_by_append [of p rows w "[m]"] assms show ?thesis by (cases "drop (Suc (length p)) rows") simp_all
qed

lemma sum_by_weights:
  "(\<And>m c. v m c = a * w m c + b * u m c) \<Longrightarrow>
     sum_by v rows xs = a * sum_by w rows xs + b * sum_by u rows xs"
  by (induction v rows xs rule: sum_by.induct) (simp_all add: algebra_simps)

lemma sum_by_c12_c3: "sum_by w_c12 rows xs + sum_by w_c3 rows xs = sum_by w_cost rows xs"
  using sum_by_weights [of w_cost 1 w_c12 1 w_c3 rows xs] by (simp add: w_cost_def w_c12_def w_c3_def)

lemma sum_by_linear:
  "sum_by (w_linear S T) rows xs = S * sum_by w_c12 rows xs - T * sum_by w_cost rows xs"
  using sum_by_weights [of "w_linear S T" S w_c12 "- T" w_cost rows xs]
  by (simp add: w_cost_def w_c12_def w_linear_def algebra_simps)

text \<open>Bounds on a suffix from a bound on every row.\<close>

lemma sum_by_lower:
  assumes "xs \<in> set (assignments rows)"
    and "\<And>i j c. i < length rows \<Longrightarrow> j < 3 \<Longrightarrow> rows ! i ! j = Some c \<Longrightarrow> b i \<le> w (Suc j) c"
  shows "sum_list (map b [0..<length rows]) \<le> sum_by w rows xs"
  using assms
proof (induction rows arbitrary: xs b)
  case (Cons r rs)
  from Cons.prems(1) obtain j ys where j: "j < 3" "r ! j \<noteq> None" "ys \<in> set (assignments rs)"
    and xs: "xs = Suc j # ys" by (auto simp: assignments_Cons_set simp del: assignments.simps)
  have "b 0 \<le> w (Suc j) (the (r ! j))" using Cons.prems(2) [of 0 j] j by auto
  moreover have "sum_list (map (\<lambda>i. b (Suc i)) [0..<length rs]) \<le> sum_by w rs ys"
    by (rule Cons.IH [OF j(3)]) (use Cons.prems(2) [of "Suc _"] in auto)
  moreover have "map b [0..<length (r # rs)] = b 0 # map (\<lambda>i. b (Suc i)) [0..<length rs]"
    by (simp add: upt_rec [of 0] map_Suc_upt [symmetric] del: upt_Suc)
  ultimately show ?case by (simp add: xs del: upt_Suc)
qed simp

lemma sum_by_upper:
  assumes "xs \<in> set (assignments rows)"
    and "\<And>i j c. i < length rows \<Longrightarrow> j < 3 \<Longrightarrow> rows ! i ! j = Some c \<Longrightarrow> w (Suc j) c \<le> b i"
  shows "sum_by w rows xs \<le> sum_list (map b [0..<length rows])"
proof -
  have "sum_list (map (\<lambda>i. - b i) [0..<length rows]) \<le> sum_by (\<lambda>m c. - w m c) rows xs"
    using assms by (intro sum_by_lower) auto
  moreover have "sum_by (\<lambda>m c. - w m c) rows xs = - sum_by w rows xs"
    using sum_by_weights [of "\<lambda>m c. - w m c" "- 1" w 0 w] by simp
  moreover have "sum_list (map (\<lambda>i. - b i) l) = - sum_list (map b l)" for l
    by (induction l) simp_all
  ultimately show ?thesis by simp
qed

lemma sum_by_nonneg:
  assumes "\<forall>r\<in>set rows. row_ok r" "xs \<in> set (assignments rows)"
    and "\<And>m c. 0 \<le> c \<Longrightarrow> 0 \<le> w m c"
  shows "0 \<le> sum_by w rows xs"
proof -
  have "sum_list (map (\<lambda>_. 0) [0..<length rows]) \<le> sum_by w rows xs"
  proof (rule sum_by_lower [OF assms(2)])
    fix i j c assume i: "i < length rows" "j < (3::nat)" "rows ! i ! j = Some c"
    then have "row_ok (rows ! i)" using assms(1) by simp
    with i have "0 \<le> c" by (metis row_ok_def nth_mem)
    then show "0 \<le> w (Suc j) c" by (rule assms(3))
  qed
  moreover have "sum_list (map (\<lambda>_. 0) l) = (0::int)" for l :: "nat list" by (induction l) simp_all
  ultimately show ?thesis by simp
qed

section \<open>Subtrees of the search\<close>

text \<open>The keys of the feasible assignments below a prefix, in the order of the search.\<close>

definition leaf_keys :: "int \<Rightarrow> int \<Rightarrow> row list \<Rightarrow> nat list \<Rightarrow> ckey list" where
  "leaf_keys S T rows p =
     map (ckey rows) (filter (feasible S T rows) (map ((@) p) (assignments (drop (length p) rows))))"

lemma append_Nil_id: "(@) [] = (\<lambda>x. x)"
  by (rule ext) simp

lemma append_snoc_comp: "(@) p \<circ> (#) x = (@) (p @ [x])"
  by (rule ext) simp

lemma reference_optimum_leaf_keys: "reference_optimum S T rows = fold keep (leaf_keys S T rows []) None"
  by (simp add: reference_optimum_def leaf_keys_def append_Nil_id)

lemma leaf_keys_leaf:
  "length p = length rows \<Longrightarrow>
     leaf_keys S T rows p = (if feasible S T rows p then [ckey rows p] else [])"
  by (simp add: leaf_keys_def)

lemma leaf_keys_step:
  assumes "length p < length rows"
  shows "leaf_keys S T rows p =
    concat (map (\<lambda>j. if rows ! length p ! j = None then [] else leaf_keys S T rows (p @ [Suc j])) [0, 1, 2])"
proof -
  have "drop (length p) rows = rows ! length p # drop (Suc (length p)) rows"
    using assms by (simp add: Cons_nth_drop_Suc)
  then show ?thesis by (simp add: leaf_keys_def append_snoc_comp)
qed

lemma leaf_keys_mem:
  assumes "k \<in> set (leaf_keys S T rows p)"
  obtains ys where "ys \<in> set (assignments (drop (length p) rows))"
    "feasible S T rows (p @ ys)" "k = ckey rows (p @ ys)"
  using assms by (auto simp: leaf_keys_def)

text \<open>Pruning: no leaf is feasible, or none beats the incumbent.\<close>

lemma prune_infeasible:
  assumes "\<And>ys. ys \<in> set (assignments (drop (length p) rows)) \<Longrightarrow> \<not> feasible S T rows (p @ ys)"
  shows "fold keep (leaf_keys S T rows p) b = b"
proof -
  have "leaf_keys S T rows p = []" using assms by (auto simp: leaf_keys_def filter_empty_conv)
  then show ?thesis by simp
qed

lemma prune_worse:
  assumes "\<And>ys. ys \<in> set (assignments (drop (length p) rows)) \<Longrightarrow> feasible S T rows (p @ ys) \<Longrightarrow>
    b \<le> ckey rows (p @ ys)"
  shows "fold keep (leaf_keys S T rows p) (Some b) = Some b"
proof -
  have "\<forall>k\<in>set ks. b \<le> k \<Longrightarrow> fold keep ks (Some b) = Some b" for ks
    by (induction ks) (auto simp: keep_def)
  then show ?thesis using assms by (blast elim: leaf_keys_mem)
qed

section \<open>The enumeration is in lexicographic order\<close>

lemma assignments_sorted: "sorted_wrt (<) (assignments rows)"
proof (induction rows)
  case (Cons r rs)
  have m: "sorted_wrt (<) (map ((#) x) (assignments rs))" for x
    using Cons by (simp add: sorted_wrt_map)
  show ?case
    using m by (auto simp: sorted_wrt_append)
qed simp

end
