(* ===== verification/FixedPoint.thy ===== *)
theory FixedPoint
  imports SociPrelude
begin

text \<open>
  The decimal input format (src/fixed_point.hpp): costs and thresholds are decimal strings with
  at most six fraction digits, read into integers scaled by a million. Characters are bytes in
  the "C" locale; \<open>std::stoll\<close> is modelled on the digit strings it is given, \<open>None\<close> for
  the \<open>std::out_of_range\<close> it throws above the int64 maximum.
\<close>

section \<open>The parser\<close>

definition int64_max :: int where
  "int64_max = 2 ^ 63 - 1"

definition int64_min :: int where
  "int64_min = - (2 ^ 63)"

definition kFixedScale :: int where
  "kFixedScale = 1000000"

definition kFixedSafe :: int where
  "kFixedSafe = int64_max div 16"

text \<open>The aggregate check; its argument is an \<open>__int128\<close>.\<close>

definition validate_aggregate :: "int \<Rightarrow> exn + unit" where
  "validate_aggregate max_total =
     (if max_total < 0 \<or> max_total * kFixedScale > kFixedSafe
      then Inl (OptimizationError NumericRangeExceeded ''aggregate fixed-point range exceeded'')
      else Inr ())"

definition isspace_c :: "char \<Rightarrow> bool" where
  "isspace_c c \<longleftrightarrow> c = CHR '' '' \<or> c = CHR 0x09 \<or> c = CHR 0x0A \<or> c = CHR 0x0B \<or>
     c = CHR 0x0C \<or> c = CHR 0x0D"

definition isdigit_c :: "char \<Rightarrow> bool" where
  "isdigit_c c \<longleftrightarrow> 48 \<le> (of_char c :: int) \<and> (of_char c :: int) \<le> 57"

definition trim_fixed :: "string \<Rightarrow> string" where
  "trim_fixed value = rev (dropWhile isspace_c (rev (dropWhile isspace_c value)))"

definition digits_val :: "string \<Rightarrow> int" where
  "digits_val s = foldl (\<lambda>a c. 10 * a + (of_char c - 48)) 0 s"

definition stoll :: "string \<Rightarrow> int option" where
  "stoll s = (let v = digits_val s in if v > int64_max then None else Some v)"

text \<open>The fraction is cut to six digits when the rest are zeros, and padded to six.\<close>

definition six_digits :: "string \<Rightarrow> exn + string" where
  "six_digits fraction =
     (if length fraction > 6 \<and> (\<exists>c\<in>set (drop 6 fraction). c \<noteq> CHR ''0'')
      then Inl (OptimizationError InvalidArgument ''more than six decimal places'')
      else let f = take 6 fraction in Inr (f @ replicate (6 - length f) (CHR ''0'')))"

definition fixed_value :: "string \<Rightarrow> string \<Rightarrow> bool \<Rightarrow> exn + int" where
  "fixed_value whole fraction threshold =
     (case (stoll whole, stoll fraction) of
        (Some w, Some f) \<Rightarrow>
          (if w > (kFixedSafe - f) div kFixedScale
           then Inl (OptimizationError NumericRangeExceeded ''fixed-point value exceeds safe range'')
           else let result = w * kFixedScale + f in
             if threshold \<and> result \<ge> kFixedScale
             then Inl (OptimizationError InvalidArgument ''ratio_threshold must satisfy 0 <= T < 1'')
             else Inr result)
      | _ \<Rightarrow> Inl (OptimizationError NumericRangeExceeded ''fixed-point value exceeds safe range''))"

definition parse_fixed_point :: "string \<Rightarrow> bool \<Rightarrow> exn + int" where
  "parse_fixed_point input threshold =
     (let s0 = trim_fixed input in
      if s0 = [] \<or> hd s0 = CHR ''-''
      then Inl (OptimizationError InvalidArgument ''negative or empty decimal'')
      else
        let s = (if hd s0 = CHR ''+'' then tl s0 else s0);
            whole0 = takeWhile (\<lambda>c. c \<noteq> CHR ''.'') s;
            fraction = tl (dropWhile (\<lambda>c. c \<noteq> CHR ''.'') s)
        in if CHR ''.'' \<in> set fraction
           then Inl (OptimizationError InvalidArgument ''invalid decimal'')
           else
             let whole = (if whole0 = [] then ''0'' else whole0) in
             if \<not> list_all isdigit_c whole \<or> \<not> list_all isdigit_c fraction
             then Inl (OptimizationError InvalidArgument ''invalid decimal'')
             else sbind (six_digits fraction) (\<lambda>f. fixed_value whole f threshold))"

section \<open>Digit strings\<close>

lemma digits_val_snoc: "digits_val (s @ [c]) = 10 * digits_val s + (of_char c - 48)"
  by (simp add: digits_val_def)

lemma digits_val_range: "list_all isdigit_c s \<Longrightarrow> 0 \<le> digits_val s \<and> digits_val s < 10 ^ length s"
proof (induction s rule: rev_induct)
  case Nil
  show ?case by (simp add: digits_val_def)
next
  case (snoc c s)
  then have s: "0 \<le> digits_val s" "digits_val s < 10 ^ length s" by simp_all
  have c: "48 \<le> (of_char c :: int)" "(of_char c :: int) \<le> 57"
    using snoc.prems by (simp_all add: isdigit_c_def)
  have "digits_val s + 1 \<le> 10 ^ length s" using s by simp
  then have "10 * digits_val s + 10 \<le> 10 ^ Suc (length s)" by simp
  with s c show ?case by (simp add: digits_val_snoc)
qed

lemma digits_val_zeros: "digits_val (s @ replicate k (CHR ''0'')) = digits_val s * 10 ^ k"
proof (induction k)
  case (Suc k)
  have e: "s @ replicate (Suc k) (CHR ''0'') = (s @ replicate k (CHR ''0'')) @ [CHR ''0'']"
    by (simp add: replicate_append_same)
  show ?case unfolding e digits_val_snoc Suc by simp
qed simp

lemma kFixedSafe_value: "kFixedSafe = 576460752303423487"
  by (simp add: kFixedSafe_def int64_max_def)

lemma kFixed_small: "0 < kFixedScale" "kFixedScale < kFixedSafe"
  by (simp_all add: kFixedSafe_value kFixedScale_def)

section \<open>The value of a decimal\<close>

text \<open>
  The specification: a decimal is digits, or digits around one dot; its value in millionths.
\<close>

definition decimal_value :: "string \<Rightarrow> string \<Rightarrow> int" where
  "decimal_value whole fraction =
     digits_val whole * kFixedScale + digits_val (take 6 fraction) * 10 ^ (6 - length fraction)"

definition six_places :: "string \<Rightarrow> bool" where
  "six_places fraction \<longleftrightarrow> (\<forall>c\<in>set (drop 6 fraction). c = CHR ''0'')"

lemma six_digits_Inr:
  assumes "list_all isdigit_c fraction"
  shows "six_digits fraction =
    (if six_places fraction
     then Inr (take 6 fraction @ replicate (6 - length (take 6 fraction)) (CHR ''0''))
     else Inl (OptimizationError InvalidArgument ''more than six decimal places''))"
  by (cases "length fraction > 6") (auto simp: six_digits_def six_places_def)

lemma six_digits_val:
  assumes "list_all isdigit_c fraction" "six_digits fraction = Inr f"
  shows "digits_val f = digits_val (take 6 fraction) * 10 ^ (6 - length fraction)"
    and "0 \<le> digits_val f" and "digits_val f < kFixedScale"
proof -
  have f: "f = take 6 fraction @ replicate (6 - length (take 6 fraction)) (CHR ''0'')"
    using assms six_digits_Inr by (simp split: if_splits)
  have e: "6 - length (take 6 fraction) = 6 - length fraction" by auto
  then show "digits_val f = digits_val (take 6 fraction) * 10 ^ (6 - length fraction)"
    by (simp only: f digits_val_zeros)
  have z: "isdigit_c (CHR ''0'')" by (simp add: isdigit_c_def)
  have "list_all isdigit_c (take 6 fraction)"
    using assms(1) unfolding list_all_iff by (blast dest: in_set_takeD)
  then have "list_all isdigit_c f"
    unfolding f list_all_append by (simp add: list_all_iff z)
  moreover have "length f = 6" unfolding f by simp
  ultimately show "0 \<le> digits_val f" "digits_val f < kFixedScale"
    using digits_val_range [of f] by (simp_all add: kFixedScale_def)
qed

lemma div_less_int_iff:
  assumes k: "0 < (k::int)"
  shows "a div k < w \<longleftrightarrow> a < w * k"
proof
  assume "a div k < w"
  then have "(a div k + 1) * k \<le> w * k" using k by (intro mult_right_mono) simp_all
  then have "a div k * k + k \<le> w * k" by (simp only: distrib_right mult_1)
  moreover have "a div k * k + a mod k = a" by (rule div_mult_mod_eq)
  moreover have "a mod k < k" using k by simp
  ultimately show "a < w * k" by linarith
next
  assume a: "a < w * k"
  have "w * k div k \<le> a div k" if "w * k \<le> a" using that k by (rule zdiv_mono1)
  moreover have "a div k * k \<le> a"
    using k by (metis add_increasing2 div_mult_mod_eq order_refl pos_mod_sign)
  ultimately show "a div k < w"
    using a k by (metis mult_right_mono not_le order.strict_trans1 order_less_imp_le)
qed

lemma fixed_value_eq:
  assumes "0 \<le> digits_val whole" "0 \<le> digits_val f" "digits_val f < kFixedScale"
  shows "fixed_value whole f t =
    (let v = digits_val whole * kFixedScale + digits_val f in
     if v > kFixedSafe
     then Inl (OptimizationError NumericRangeExceeded ''fixed-point value exceeds safe range'')
     else if t \<and> v \<ge> kFixedScale
     then Inl (OptimizationError InvalidArgument ''ratio_threshold must satisfy 0 <= T < 1'')
     else Inr v)"
proof -
  let ?w = "digits_val whole" and ?f = "digits_val f"
  have f: "stoll f = Some ?f"
    using assms(3) by (simp add: stoll_def Let_def kFixedScale_def int64_max_def)
  have gt: "?w > (kFixedSafe - ?f) div kFixedScale \<longleftrightarrow> ?w * kFixedScale + ?f > kFixedSafe"
  proof -
    have "(kFixedSafe - ?f) div kFixedScale < ?w \<longleftrightarrow> kFixedSafe - ?f < ?w * kFixedScale"
      using kFixed_small(1) by (rule div_less_int_iff)
    then show ?thesis by linarith
  qed
  show ?thesis
  proof (cases "?w > int64_max")
    case True
    then have "int64_max * 1 \<le> ?w * kFixedScale"
      using kFixed_small(1) by (intro mult_mono) (simp_all add: int64_max_def)
    then have "?w * kFixedScale + ?f > kFixedSafe"
      using assms(2) by (simp add: kFixedSafe_def int64_max_def)
    with True f show ?thesis by (simp add: fixed_value_def stoll_def Let_def)
  next
    case False
    with f gt show ?thesis by (simp add: fixed_value_def stoll_def Let_def)
  qed
qed

section \<open>What the parser accepts\<close>

lemma dropWhile_spaces: "list_all isspace_c ws \<Longrightarrow> dropWhile isspace_c (ws @ s) = dropWhile isspace_c s"
  by (induction ws) simp_all

lemma trim_core:
  assumes "list_all isspace_c l" "list_all isspace_c r" "s \<noteq> []"
    and "\<not> isspace_c (hd s)" "\<not> isspace_c (last s)"
  shows "trim_fixed (l @ s @ r) = s"
proof -
  have s: "dropWhile isspace_c (s @ r) = s @ r" using assms(3,4) by (cases s) simp_all
  have "dropWhile isspace_c (rev s) = rev s"
    using assms(3,5) by (cases s rule: rev_cases) simp_all
  then show ?thesis
    using assms(1,2) by (simp add: trim_fixed_def dropWhile_spaces s list_all_iff)
qed

lemma digit_facts:
  assumes "isdigit_c c"
  shows "\<not> isspace_c c" "c \<noteq> CHR ''.''" "c \<noteq> CHR ''-''" "c \<noteq> CHR ''+''"
  using assms by (auto simp: isdigit_c_def isspace_c_def)

lemma digits_split:
  assumes w: "list_all isdigit_c whole"
  shows "takeWhile (\<lambda>c. c \<noteq> CHR ''.'') (whole @ CHR ''.'' # rest) = whole"
    and "dropWhile (\<lambda>c. c \<noteq> CHR ''.'') (whole @ CHR ''.'' # rest) = CHR ''.'' # rest"
proof -
  have "\<forall>c\<in>set whole. c \<noteq> CHR ''.''"
    using w unfolding list_all_iff by (blast dest: digit_facts(2))
  then show "takeWhile (\<lambda>c. c \<noteq> CHR ''.'') (whole @ CHR ''.'' # rest) = whole"
    "dropWhile (\<lambda>c. c \<noteq> CHR ''.'') (whole @ CHR ''.'' # rest) = CHR ''.'' # rest"
    by (simp_all add: takeWhile_append2 dropWhile_append2)
qed

text \<open>The outcome of the parser on a trimmed decimal, as a specification.\<close>

definition decimal_outcome :: "string \<Rightarrow> string \<Rightarrow> bool \<Rightarrow> exn + int" where
  "decimal_outcome whole fraction threshold =
     (let v = decimal_value whole fraction in
      if \<not> six_places fraction
      then Inl (OptimizationError InvalidArgument ''more than six decimal places'')
      else if v > kFixedSafe
      then Inl (OptimizationError NumericRangeExceeded ''fixed-point value exceeds safe range'')
      else if threshold \<and> v \<ge> kFixedScale
      then Inl (OptimizationError InvalidArgument ''ratio_threshold must satisfy 0 <= T < 1'')
      else Inr v)"

lemma fixed_value_outcome:
  assumes "list_all isdigit_c whole" "list_all isdigit_c fraction"
  shows "sbind (six_digits fraction) (\<lambda>f. fixed_value whole f t) = decimal_outcome whole fraction t"
proof (cases "six_places fraction")
  case True
  then obtain f where f: "six_digits fraction = Inr f"
    using six_digits_Inr [OF assms(2)] by simp
  note v = six_digits_val [OF assms(2) f]
  have "0 \<le> digits_val whole" using digits_val_range [OF assms(1)] by simp
  from fixed_value_eq [OF this v(2,3), of t] f True show ?thesis
    by (simp add: decimal_outcome_def decimal_value_def v(1) Let_def)
next
  case False
  with six_digits_Inr [OF assms(2)] show ?thesis by (simp add: decimal_outcome_def)
qed

text \<open>
  The texts that are read: white space, an optional plus sign, digits and an optional dot with digits, white
  space. Something must stand between the white space; digits are not asked for.
\<close>

definition decimal_text_of :: "string \<Rightarrow> string \<Rightarrow> string \<Rightarrow> bool" where
  "decimal_text_of input whole fraction \<longleftrightarrow> (\<exists>l sg dot r. input = l @ (sg @ whole @ dot @ fraction) @ r \<and>
     list_all isspace_c l \<and> list_all isspace_c r \<and> (sg = [] \<or> sg = ''+'') \<and>
     list_all isdigit_c whole \<and> list_all isdigit_c fraction \<and>
     (dot = ''.'' \<or> (dot = [] \<and> fraction = [])) \<and> sg @ whole @ dot \<noteq> [])"

text \<open>The parser on a trimmed text without a minus sign, split at the first dot.\<close>

definition parse_core :: "string \<Rightarrow> string \<Rightarrow> bool \<Rightarrow> exn + int" where
  "parse_core whole fraction t =
     (if list_all isdigit_c whole \<and> list_all isdigit_c fraction then decimal_outcome whole fraction t
      else Inl (OptimizationError InvalidArgument ''invalid decimal''))"

lemma digits_nodot: "list_all isdigit_c s \<Longrightarrow> CHR ''.'' \<notin> set s"
  using digit_facts(2) by (auto simp: list_all_iff)

lemma decimal_outcome_zero: "decimal_outcome ''0'' fraction t = decimal_outcome [] fraction t"
  by (simp add: decimal_outcome_def decimal_value_def digits_val_def)

lemma parse_split:
  assumes "trim_fixed input = s0" "s0 \<noteq> []" "hd s0 \<noteq> CHR ''-''" "s = (if hd s0 = CHR ''+'' then tl s0 else s0)"
  shows "parse_fixed_point input t =
    parse_core (takeWhile (\<lambda>c. c \<noteq> CHR ''.'') s) (tl (dropWhile (\<lambda>c. c \<noteq> CHR ''.'') s)) t"
proof -
  let ?w = "takeWhile (\<lambda>c. c \<noteq> CHR ''.'') s" and ?f = "tl (dropWhile (\<lambda>c. c \<noteq> CHR ''.'') s)"
  let ?v = "if ?w = [] then ''0'' else ?w"
  have z: "isdigit_c (CHR ''0'')" by (simp add: isdigit_c_def)
  have d: "list_all isdigit_c ?v = list_all isdigit_c ?w" using z by simp
  have o: "decimal_outcome ?v ?f t = decimal_outcome ?w ?f t" by (simp add: decimal_outcome_zero)
  have p: "parse_fixed_point input t =
     (if CHR ''.'' \<in> set ?f then Inl (OptimizationError InvalidArgument ''invalid decimal'')
      else if \<not> list_all isdigit_c ?v \<or> \<not> list_all isdigit_c ?f then Inl (OptimizationError InvalidArgument ''invalid decimal'')
      else sbind (six_digits ?f) (\<lambda>f. fixed_value ?v f t))"
    using assms(2,3) unfolding parse_fixed_point_def assms(1) Let_def assms(4) [symmetric] by simp
  show ?thesis
  proof (cases "list_all isdigit_c ?w \<and> list_all isdigit_c ?f")
    case True
    then have "CHR ''.'' \<notin> set ?f" "list_all isdigit_c ?v" using digits_nodot d by blast+
    with True fixed_value_outcome [of ?v ?f t] o show ?thesis unfolding p parse_core_def by simp
  next
    case False
    with d show ?thesis unfolding p parse_core_def by auto
  qed
qed

lemma split_text:
  assumes "list_all isdigit_c whole" "dot = ''.'' \<or> (dot = [] \<and> fraction = [])"
  shows "takeWhile (\<lambda>c. c \<noteq> CHR ''.'') (whole @ dot @ fraction) = whole"
    "tl (dropWhile (\<lambda>c. c \<noteq> CHR ''.'') (whole @ dot @ fraction)) = fraction"
proof -
  have n: "\<forall>c\<in>set whole. c \<noteq> CHR ''.''" using digits_nodot [OF assms(1)] by blast
  then have w: "takeWhile (\<lambda>c. c \<noteq> CHR ''.'') whole = whole" "dropWhile (\<lambda>c. c \<noteq> CHR ''.'') whole = []"
    by (simp_all only: takeWhile_eq_all_conv dropWhile_eq_Nil_conv)
  from assms(2) show "takeWhile (\<lambda>c. c \<noteq> CHR ''.'') (whole @ dot @ fraction) = whole"
    by (elim disjE conjE) (simp_all only: append.simps append_Nil2 digits_split [OF assms(1)] w)
  from assms(2) show "tl (dropWhile (\<lambda>c. c \<noteq> CHR ''.'') (whole @ dot @ fraction)) = fraction"
    by (elim disjE conjE) (simp_all only: append.simps append_Nil2 digits_split [OF assms(1)] w list.sel)
qed

lemma parse_decimal_text:
  assumes "decimal_text_of input whole fraction"
  shows "parse_fixed_point input t = decimal_outcome whole fraction t"
proof -
  obtain l sg dot r where input: "input = l @ (sg @ whole @ dot @ fraction) @ r"
    and sp: "list_all isspace_c l" "list_all isspace_c r" and sign: "sg = [] \<or> sg = ''+''"
    and d: "list_all isdigit_c whole" "list_all isdigit_c fraction"
    and dot: "dot = ''.'' \<or> (dot = [] \<and> fraction = [])" and ne: "sg @ whole @ dot \<noteq> []"
    using assms by (auto simp: decimal_text_of_def)
  let ?s = "sg @ whole @ dot @ fraction"
  have char: "\<not> isspace_c c \<and> c \<noteq> CHR ''-''" if "c \<in> set ?s" for c
  proof -
    have "c = CHR ''+'' \<or> c = CHR ''.'' \<or> isdigit_c c" using that sign dot d by (auto simp: list_all_iff)
    then show ?thesis using digit_facts(1,3) by (auto simp: isspace_c_def)
  qed
  have s: "?s \<noteq> []" using ne by auto
  have trim: "trim_fixed input = ?s"
    unfolding input using char [OF hd_in_set [OF s]] char [OF last_in_set [OF s]] s by (intro trim_core sp) (simp_all only: simp_thms)
  have head: "hd ?s \<noteq> CHR ''-''" using char [OF hd_in_set [OF s]] by (rule conjunct2)
  have plus: "hd (whole @ dot @ fraction) \<noteq> CHR ''+'' \<or> whole @ dot @ fraction = []"
  proof (cases whole)
    case Nil
    with dot show ?thesis by auto
  next
    case (Cons c cs)
    with d(1) digit_facts(4) show ?thesis by simp
  qed
  have strip: "whole @ dot @ fraction = (if hd ?s = CHR ''+'' then tl ?s else ?s)"
    using sign s plus by auto
  show ?thesis
    unfolding parse_split [OF trim s head strip] split_text [OF d(1) dot] by (simp add: parse_core_def d)
qed

lemma trim_parts:
  obtains l r where "input = l @ trim_fixed input @ r" "list_all isspace_c l" "list_all isspace_c r"
proof -
  let ?m = "dropWhile isspace_c input"
  have "input = takeWhile isspace_c input @ ?m" by simp
  moreover have "rev ?m = takeWhile isspace_c (rev ?m) @ dropWhile isspace_c (rev ?m)" by simp
  then have "?m = trim_fixed input @ rev (takeWhile isspace_c (rev ?m))"
    unfolding trim_fixed_def by (metis rev_append rev_rev_ident)
  ultimately have "input = takeWhile isspace_c input @ trim_fixed input @ rev (takeWhile isspace_c (rev ?m))"
    by metis
  then show thesis
    by (rule that) (auto simp: list_all_iff dest: set_takeWhileD)
qed

lemma take_1_tl: "ys = take 1 ys @ tl ys"
  by (cases ys) simp_all

lemma parse_other_text:
  assumes "\<nexists>whole fraction. decimal_text_of input whole fraction"
  shows "\<exists>message. parse_fixed_point input t = Inl (OptimizationError InvalidArgument message)"
proof (cases "trim_fixed input = [] \<or> hd (trim_fixed input) = CHR ''-''")
  case True
  then show ?thesis by (simp add: parse_fixed_point_def)
next
  case False
  let ?s0 = "trim_fixed input"
  define sg where "sg = (if hd ?s0 = CHR ''+'' then ''+'' else [])"
  define s where "s = (if hd ?s0 = CHR ''+'' then tl ?s0 else ?s0)"
  let ?w = "takeWhile (\<lambda>c. c \<noteq> CHR ''.'') s" and ?d = "dropWhile (\<lambda>c. c \<noteq> CHR ''.'') s"
  obtain l r where lr: "input = l @ ?s0 @ r" "list_all isspace_c l" "list_all isspace_c r" by (rule trim_parts)
  define dot where "dot = take 1 ?d"
  have d: "?d = dot @ tl ?d" unfolding dot_def by (rule take_1_tl)
  have dot: "dot = ''.'' \<or> (dot = [] \<and> tl ?d = [])"
  proof (cases "?d = []")
    case False
    then have "hd ?d = CHR ''.''" using hd_dropWhile [OF False] by simp
    with False have "dot = ''.''" unfolding dot_def by (cases ?d) simp_all
    then show ?thesis ..
  next
    case True
    then show ?thesis unfolding dot_def by (simp only: take_Nil list.sel simp_thms)
  qed
  have sg: "sg = [] \<or> sg = ''+''" by (simp add: sg_def)
  have "?s0 = sg @ s" using False by (cases ?s0) (auto simp: sg_def s_def)
  moreover have sw: "s = ?w @ dot @ tl ?d" using d by (metis takeWhile_dropWhile_id)
  ultimately have s0: "?s0 = sg @ ?w @ dot @ tl ?d" by simp
  then have "sg @ ?w @ dot \<noteq> []" using False dot by auto
  then have "\<not> (list_all isdigit_c ?w \<and> list_all isdigit_c (tl ?d))"
    using assms lr s0 dot sg unfolding decimal_text_of_def by metis
  moreover have "parse_fixed_point input t = parse_core ?w (tl ?d) t"
    using False by (intro parse_split [OF refl _ _ s_def]) simp_all
  ultimately show ?thesis by (auto simp: parse_core_def)
qed

text \<open>Everything the parser accepts is a decimal with the value of its outcome.\<close>

lemma parse_accepts:
  assumes "parse_fixed_point input t = Inr v"
  obtains whole fraction where "list_all isdigit_c whole" "list_all isdigit_c fraction"
    "decimal_outcome whole fraction t = Inr v"
proof -
  obtain whole fraction where d: "decimal_text_of input whole fraction"
    using parse_other_text [of input t] assms by fastforce
  then have "list_all isdigit_c whole" "list_all isdigit_c fraction" by (auto simp: decimal_text_of_def)
  with that parse_decimal_text [OF d, of t] assms show thesis by simp
qed

lemma decimal_outcome_range:
  assumes "list_all isdigit_c whole" "list_all isdigit_c fraction"
    and "decimal_outcome whole fraction t = Inr v"
  shows "0 \<le> v" "v \<le> kFixedSafe" "t \<Longrightarrow> v < kFixedScale"
proof -
  have "0 \<le> digits_val whole" using digits_val_range [OF assms(1)] by simp
  moreover have "list_all isdigit_c (take 6 fraction)"
    using assms(2) unfolding list_all_iff by (blast dest: in_set_takeD)
  then have "0 \<le> digits_val (take 6 fraction)" using digits_val_range by blast
  ultimately have "0 \<le> decimal_value whole fraction"
    using kFixed_small(1) by (simp add: decimal_value_def)
  with assms(3) show "0 \<le> v" "v \<le> kFixedSafe" "t \<Longrightarrow> v < kFixedScale"
    by (simp_all add: decimal_outcome_def Let_def split: if_splits)
qed

lemma parse_range:
  assumes "parse_fixed_point input t = Inr v"
  shows "0 \<le> v" "v \<le> kFixedSafe" "t \<Longrightarrow> v < kFixedScale"
  using assms decimal_outcome_range by (blast elim: parse_accepts)+

text \<open>C33: What the parser does with every text. A text is a decimal if, between white space, it is an
  optional plus sign followed by digits and an optional dot with digits, and not empty (digits on neither side
  are asked for, so a lone sign or dot is a zero). On a decimal the parser returns the exact value in millionths
  if all digits after the sixth are zeros and the value is in the safe range, and below one for a threshold, and
  otherwise the error of the first of these conditions that fails. Every other text is an invalid argument. A
  value that is returned is in its range.\<close>

theorem parse_fixed_point_exact:
  "(\<forall>whole fraction. decimal_text_of input whole fraction \<longrightarrow>
      parse_fixed_point input t = decimal_outcome whole fraction t) \<and>
   ((\<nexists>whole fraction. decimal_text_of input whole fraction) \<longrightarrow>
      (\<exists>message. parse_fixed_point input t = Inl (OptimizationError InvalidArgument message))) \<and>
   (\<forall>v. parse_fixed_point input t = Inr v \<longrightarrow> 0 \<le> v \<and> v \<le> kFixedSafe \<and> (t \<longrightarrow> v < kFixedScale))"
  using parse_decimal_text parse_other_text parse_range by blast

lemma decimal_text_ofI:
  assumes "input = l @ (sg @ whole @ dot @ fraction) @ r" "list_all isspace_c l" "list_all isspace_c r"
    "sg = [] \<or> sg = ''+''" "list_all isdigit_c whole" "list_all isdigit_c fraction"
    "dot = ''.'' \<or> (dot = [] \<and> fraction = [])" "sg @ whole @ dot \<noteq> []"
  shows "decimal_text_of input whole fraction"
  using assms unfolding decimal_text_of_def by blast

theorem parse_fixed_point_exact_witness:
  "parse_fixed_point '' +12.50 '' False = Inr 12500000 \<and> parse_fixed_point ''7'' False = Inr 7000000 \<and>
   parse_fixed_point ''.5'' True = Inr 500000 \<and> parse_fixed_point ''+'' False = Inr 0 \<and>
   parse_fixed_point ''1.0000001'' True =
     Inl (OptimizationError InvalidArgument ''more than six decimal places'') \<and>
   (\<exists>message. parse_fixed_point ''1e3'' False = Inl (OptimizationError InvalidArgument message))"
proof (intro conjI)
  have simps: "isdigit_c (CHR ''0'')" "isdigit_c (CHR ''1'')" "isdigit_c (CHR ''2'')" "isdigit_c (CHR ''5'')"
    "isdigit_c (CHR ''7'')" "isspace_c (CHR '' '')" by (simp_all add: isdigit_c_def isspace_c_def)
  note parse = parse_fixed_point_exact [THEN conjunct1, rule_format]
  note outcome = decimal_outcome_def decimal_value_def six_places_def digits_val_def kFixedScale_def kFixedSafe_value Let_def
  have "decimal_text_of '' +12.50 '' ''12'' ''50''"
    by (rule decimal_text_ofI [of _ "'' ''" "''+''" _ "''.''" _ "'' ''"]) (simp_all add: simps)
  from parse [OF this] show "parse_fixed_point '' +12.50 '' False = Inr 12500000" by (simp add: outcome)
  have "decimal_text_of ''7'' ''7'' []"
    by (rule decimal_text_ofI [of _ "[]" "[]" _ "[]" _ "[]"]) (simp_all add: simps)
  from parse [OF this] show "parse_fixed_point ''7'' False = Inr 7000000" by (simp add: outcome)
  have "decimal_text_of ''.5'' [] ''5''"
    by (rule decimal_text_ofI [of _ "[]" "[]" _ "''.''" _ "[]"]) (simp_all add: simps)
  from parse [OF this] show "parse_fixed_point ''.5'' True = Inr 500000" by (simp add: outcome)
  have "decimal_text_of ''+'' [] []"
    by (rule decimal_text_ofI [of _ "[]" "''+''" _ "[]" _ "[]"]) (simp_all add: simps)
  from parse [OF this] show "parse_fixed_point ''+'' False = Inr 0" by (simp add: outcome)
  have "decimal_text_of ''1.0000001'' ''1'' ''0000001''"
    by (rule decimal_text_ofI [of _ "[]" "[]" _ "''.''" _ "[]"]) (simp_all add: simps)
  from parse [OF this] show "parse_fixed_point ''1.0000001'' True =
     Inl (OptimizationError InvalidArgument ''more than six decimal places'')" by (simp add: outcome)
  have "\<not> decimal_text_of ''1e3'' whole fraction" for whole fraction
  proof
    assume "decimal_text_of ''1e3'' whole fraction"
    then obtain l sg dot r where i: "''1e3'' = l @ (sg @ whole @ dot @ fraction) @ r"
      and c: "list_all isspace_c l" "list_all isspace_c r" "sg = [] \<or> sg = ''+''" "list_all isdigit_c whole"
        "list_all isdigit_c fraction" "dot = ''.'' \<or> (dot = [] \<and> fraction = [])"
      unfolding decimal_text_of_def by blast
    have "CHR ''e'' \<in> set (l @ (sg @ whole @ dot @ fraction) @ r)" unfolding i [symmetric] by simp
    moreover have "CHR ''e'' \<notin> set sg" "CHR ''e'' \<notin> set dot" using c(3,6) by auto
    moreover have e: "\<not> isspace_c (CHR ''e'')" "\<not> isdigit_c (CHR ''e'')" by (simp_all add: isdigit_c_def isspace_c_def)
    then have "CHR ''e'' \<notin> set l" "CHR ''e'' \<notin> set r" "CHR ''e'' \<notin> set whole" "CHR ''e'' \<notin> set fraction"
      using c(1,2,4,5) unfolding list_all_iff by blast+
    ultimately show False by (simp only: set_append Un_iff simp_thms)
  qed
  then show "\<exists>message. parse_fixed_point ''1e3'' False = Inl (OptimizationError InvalidArgument message)"
    using parse_fixed_point_exact [THEN conjunct2, THEN conjunct1] by blast
qed

lemma replicate_six: "replicate 6 x = [x, x, x, x, x, x]"
  by (simp add: numeral_eq_Suc)

text \<open>The check for an empty decimal does not see an empty number behind a sign or around a
  dot: a lone plus sign and a lone dot are read as zero.\<close>

theorem parse_lone_sign: "parse_fixed_point ''+'' t = Inr 0 \<and> parse_fixed_point ''.'' t = Inr 0"
  by (simp_all add: parse_fixed_point_def trim_fixed_def isspace_c_def isdigit_c_def six_digits_def
      fixed_value_def stoll_def digits_val_def kFixedScale_def kFixedSafe_value int64_max_def
      replicate_six Let_def)

section \<open>Printing\<close>

text \<open>\<open>std::to_string\<close> of an unsigned integer.\<close>

fun to_string :: "nat \<Rightarrow> string" where
  "to_string n = (if n < 10 then [char_of (48 + n)] else to_string (n div 10) @ [char_of (48 + n mod 10)])"

declare to_string.simps [simp del]

lemma digit_char:
  assumes "n < 10"
  shows "isdigit_c (char_of (48 + n))" "(of_char (char_of (48 + n)) :: int) = 48 + int n"
proof -
  have "(of_char (char_of (48 + n)) :: int) = of_nat (of_char (char_of (48 + n)) :: nat)"
    by (simp only: of_nat_of_char)
  also have "\<dots> = of_nat ((48 + n) mod 256)" by (simp only: of_char_of)
  finally have "(of_char (char_of (48 + n)) :: int) = of_nat ((48 + n) mod 256)" .
  then show o: "(of_char (char_of (48 + n)) :: int) = 48 + int n" using assms by simp
  then show "isdigit_c (char_of (48 + n))" using assms by (simp add: isdigit_c_def)
qed

lemma to_string_digits: "list_all isdigit_c (to_string n)"
proof (induction n rule: to_string.induct)
  case (1 n)
  then show ?case
    by (cases "n < 10") (simp_all add: to_string.simps [of n] digit_char(1))
qed

lemma to_string_value: "digits_val (to_string n) = int n"
proof (induction n rule: to_string.induct)
  case (1 n)
  show ?case
  proof (cases "n < 10")
    case True
    then show ?thesis by (simp add: to_string.simps [of n] digits_val_def digit_char(2))
  next
    case False
    moreover have "int n = 10 * int (n div 10) + int (n mod 10)"
      by (metis of_nat_add of_nat_mult of_nat_numeral mult_div_mod_eq)
    ultimately show ?thesis
      using 1 by (simp add: to_string.simps [of n] digits_val_snoc digit_char(2))
  qed
qed

lemma to_string_inj: "to_string m = to_string n \<longleftrightarrow> m = n"
  by (metis to_string_value of_nat_eq_iff)

lemma to_string_nonempty: "to_string n \<noteq> []"
  by (simp add: to_string.simps [of n])

lemma to_string_length: "n < 10 ^ k \<Longrightarrow> 0 < k \<Longrightarrow> length (to_string n) \<le> k"
proof (induction n arbitrary: k rule: to_string.induct)
  case (1 n)
  show ?case
  proof (cases "n < 10")
    case True
    then show ?thesis using 1(3) by (simp add: to_string.simps [of n])
  next
    case False
    obtain k' where k: "k = Suc k'" using 1(3) by (cases k) auto
    have "0 < k'" using 1(2) False k by (cases k') auto
    note k = k this
    have "n div 10 < 10 ^ k'" using 1(2) k by (simp add: less_mult_imp_div_less mult.commute)
    from 1(1) [OF False this k(2)] k(1) False show ?thesis by (simp add: to_string.simps [of n])
  qed
qed

end
