(* ===== verification/ExactSolver.thy ===== *)
theory ExactSolver
  imports CostModel FixedPoint
begin

text \<open>
  The plaintext branch and bound of src/optimization.cpp: \<open>encode\<close> reads the cost matrix,
  \<open>Solver\<close> searches depth first with two suffix bounds, \<open>solve\<close> and
  \<open>optimize_plain\<close> run it. The 64-bit and 128-bit values are integers here;
  CheckedSolver shows that none leaves its width on an encoded model. The division
  of the result into doubles is left out: the record holds the integers that are divided.
\<close>

section \<open>Encoding\<close>

record encoded =
  e_costs :: "row list"
  e_threshold :: int

abbreviation kScale :: int where "kScale \<equiv> kFixedScale"

text \<open>One entry of the matrix, with the row's maximum and the flag \<open>any\<close> so far.\<close>

definition encode_entry ::
  "string option \<Rightarrow> row \<times> int \<times> bool \<Rightarrow> exn + row \<times> int \<times> bool" where
  "encode_entry entry acc = (case acc of (r, row_max, any) \<Rightarrow>
     (case entry of
        None \<Rightarrow> Inr (r @ [None], row_max, any)
      | Some s \<Rightarrow> sbind (parse_fixed_point s False) (\<lambda>v.
          Inr (r @ [Some v], max row_max v, True))))"

primrec sfold :: "('a \<Rightarrow> 'b \<Rightarrow> exn + 'b) \<Rightarrow> 'a list \<Rightarrow> 'b \<Rightarrow> exn + 'b" where
  "sfold f [] b = Inr b"
| "sfold f (x # xs) b = sbind (f x b) (sfold f xs)"

definition encode_row ::
  "string option list \<Rightarrow> row list \<times> int \<Rightarrow> exn + row list \<times> int" where
  "encode_row entries acc = (case acc of (costs, max_total) \<Rightarrow>
     sbind (sfold encode_entry entries ([], 0, False)) (\<lambda>(r, row_max, any).
     if \<not> any
     then Inl (OptimizationError NoFeasibleSolution ''each material needs an available method'')
     else Inr (costs @ [r], max_total + row_max)))"

definition encode :: "string option list list \<Rightarrow> string \<Rightarrow> exn + encoded" where
  "encode matrix threshold =
     (if matrix = []
      then Inl (OptimizationError InvalidArgument ''cost matrix must not be empty'')
      else sbind (parse_fixed_point threshold True) (\<lambda>t.
           sbind (sfold encode_row matrix ([], 0)) (\<lambda>(costs, max_total).
           sbind (validate_aggregate max_total) (\<lambda>_.
           Inr \<lparr>e_costs = costs, e_threshold = t\<rparr>))))"

section \<open>The solver\<close>

record solver =
  model :: encoded
  min_suffix :: "int list"
  ratio_max_suffix :: "int list"

record search =
  current :: "nat list"
  best :: "nat list"
  best_cost :: int
  best_c12 :: int
  best_c3 :: int
  visited_nodes :: nat

text \<open>The constructor's loops: over the methods of a row, and over the rows from the last one.\<close>

definition row_min :: "row \<Rightarrow> int" where
  "row_min r = fold (\<lambda>j mn. case r ! j of None \<Rightarrow> mn | Some c \<Rightarrow> min mn c) [0, 1, 2] int64_max"

definition row_ratio_max :: "int \<Rightarrow> row \<Rightarrow> int" where
  "row_ratio_max t r = fold (\<lambda>j mx. case r ! j of
       None \<Rightarrow> mx
     | Some c \<Rightarrow> max mx (if j < 2 then (kScale - t) * c else - t * c)) [0, 1, 2] int64_min"

primrec suffix_sums :: "(row \<Rightarrow> int) \<Rightarrow> row list \<Rightarrow> int list" where
  "suffix_sums f [] = [0]"
| "suffix_sums f (r # rs) = (let ss = suffix_sums f rs in (hd ss + f r) # ss)"

definition make_solver :: "encoded \<Rightarrow> solver" where
  "make_solver m = \<lparr>model = m, min_suffix = suffix_sums row_min (e_costs m),
     ratio_max_suffix = suffix_sums (row_ratio_max (e_threshold m)) (e_costs m)\<rparr>"

definition initial_search :: "encoded \<Rightarrow> search" where
  "initial_search m = \<lparr>current = replicate (length (e_costs m)) 0, best = [],
     best_cost = int64_max, best_c12 = 0, best_c3 = 0, visited_nodes = 0\<rparr>"

definition better_tie :: "solver \<Rightarrow> search \<Rightarrow> int \<Rightarrow> int \<Rightarrow> bool" where
  "better_tie sv st c12 c3 =
     (let total = c12 + c3; old_total = best_c12 st + best_c3 st;
          gap = c12 * kScale - e_threshold (model sv) * total;
          old_gap = best_c12 st * kScale - e_threshold (model sv) * old_total;
          lhs = gap * old_total; rhs = old_gap * total
      in if lhs \<noteq> rhs then lhs < rhs else current st < best st)"

text \<open>
  \<open>visit\<close>. The C++ test for a leaf is \<open>i == model.costs.size()\<close>; the search only
  reaches \<open>i\<close> up to that size.
\<close>

function visit :: "solver \<Rightarrow> nat \<Rightarrow> int \<Rightarrow> int \<Rightarrow> int \<Rightarrow> int \<Rightarrow> search \<Rightarrow> search" where
  "visit sv i cost c12 c3 linear st0 =
     (let st = st0\<lparr>visited_nodes := visited_nodes st0 + 1\<rparr>; t = e_threshold (model sv) in
      if best_cost st \<noteq> int64_max \<and> cost + min_suffix sv ! i > best_cost st then st
      else if linear + ratio_max_suffix sv ! i < 0 then st
      else if i \<ge> length (e_costs (model sv)) then
        (if linear < 0 \<or> c3 \<le> 0 \<or> c12 + c3 \<le> 0 then st
         else if cost < best_cost st \<or> (cost = best_cost st \<and> better_tie sv st c12 c3)
         then st\<lparr>best_cost := cost, best_c12 := c12, best_c3 := c3, best := current st\<rparr>
         else st)
      else fold (\<lambda>j st. case e_costs (model sv) ! i ! j of
             None \<Rightarrow> st
           | Some c \<Rightarrow>
               let st' = st\<lparr>current := (current st)[i := j + 1]\<rparr> in
               if j < 2 then visit sv (i + 1) (cost + c) (c12 + c) c3 (linear + (kScale - t) * c) st'
               else visit sv (i + 1) (cost + c) c12 (c3 + c) (linear - t * c) st') [0, 1, 2] st)"
  by pat_completeness auto
termination
  by (relation "measure (\<lambda>(sv, i, _). length (e_costs (model sv)) - i)") auto

declare visit.simps [simp del]

record optimization_result =
  r_total_cost :: int
  r_c12 :: int
  r_c3 :: int
  r_solution :: "nat list"

definition solve :: "encoded \<Rightarrow> exn + optimization_result" where
  "solve m =
     (let s = visit (make_solver m) 0 0 0 0 0 (initial_search m) in
      if best s = []
      then Inl (OptimizationError NoFeasibleSolution ''no assignment satisfies the ratio constraint'')
      else Inr \<lparr>r_total_cost = best_cost s, r_c12 = best_c12 s, r_c3 = best_c3 s,
                r_solution = best s\<rparr>)"

definition optimize_plain :: "string option list list \<Rightarrow> string \<Rightarrow> exn + optimization_result" where
  "optimize_plain costs threshold = sbind (encode costs threshold) solve"

section \<open>The suffix bounds\<close>

lemma suffix_sums_nth:
  "i \<le> length rs \<Longrightarrow> suffix_sums f rs ! i = sum_list (map f (drop i rs))"
proof (induction rs arbitrary: i)
  case (Cons r rs)
  have "suffix_sums f rs ! 0 = sum_list (map f rs)" using Cons.IH [of 0] by simp
  moreover have "suffix_sums f rs \<noteq> []" by (cases rs) (simp_all add: Let_def)
  ultimately have "hd (suffix_sums f rs) = sum_list (map f rs)" by (simp add: hd_conv_nth)
  with Cons show ?case by (cases i) (simp_all add: Let_def)
qed simp

lemma less_3: "j < 3 \<longleftrightarrow> j = 0 \<or> j = 1 \<or> j = (2::nat)"
  by auto

lemma row_min_le: "j < 3 \<Longrightarrow> r ! j = Some c \<Longrightarrow> row_min r \<le> c"
  by (auto simp: row_min_def less_3 split: option.splits)

lemma row_ratio_max_ge:
  "j < 3 \<Longrightarrow> r ! j = Some c \<Longrightarrow> w_linear kScale t (Suc j) c \<le> row_ratio_max t r"
  by (auto simp: row_ratio_max_def w_linear_def less_3 le_max_iff_disj split: option.splits)

lemma min_suffix_bound:
  assumes "ys \<in> set (assignments (drop i (e_costs m)))" "i \<le> length (e_costs m)"
  shows "min_suffix (make_solver m) ! i \<le> sum_by w_cost (drop i (e_costs m)) ys"
  using sum_by_lower [OF assms(1), of "\<lambda>k. row_min (drop i (e_costs m) ! k)" w_cost, unfolded map_nth_upt]
    assms(2)
  by (simp add: make_solver_def suffix_sums_nth w_cost_def row_min_le)

lemma ratio_suffix_bound:
  assumes "ys \<in> set (assignments (drop i (e_costs m)))" "i \<le> length (e_costs m)"
  shows "sum_by (w_linear kScale (e_threshold m)) (drop i (e_costs m)) ys
    \<le> ratio_max_suffix (make_solver m) ! i"
  using sum_by_upper [OF assms(1), of "w_linear kScale (e_threshold m)"
      "\<lambda>k. row_ratio_max (e_threshold m) (drop i (e_costs m) ! k)", unfolded map_nth_upt] assms(2)
  by (simp add: make_solver_def suffix_sums_nth row_ratio_max_ge)



section \<open>The search finds the optimum\<close>

definition row_max :: "row \<Rightarrow> int" where
  "row_max r = fold (\<lambda>c mx. case c of None \<Rightarrow> mx | Some v \<Rightarrow> max mx v) r 0"

text \<open>A model whose costs cannot sum to the sentinel; \<open>encode\<close> establishes it.\<close>

definition model_ok :: "encoded \<Rightarrow> bool" where
  "model_ok m \<longleftrightarrow> e_costs m \<noteq> [] \<and> (\<forall>r\<in>set (e_costs m). row_ok r) \<and>
     0 \<le> e_threshold m \<and> e_threshold m < kScale \<and>
     sum_list (map row_max (e_costs m)) * kScale \<le> kFixedSafe"

text \<open>The incumbent of a search state, as a key, and what the state keeps about it.\<close>

definition incumbent :: "search \<Rightarrow> ckey option" where
  "incumbent st = (if best_cost st = int64_max then None
     else Some (best_cost st, best_c12 st, best st))"

definition search_ok :: "encoded \<Rightarrow> search \<Rightarrow> bool" where
  "search_ok m st \<longleftrightarrow>
     (best_cost st = int64_max \<and> best st = []) \<or>
     (best st \<in> set (assignments (e_costs m)) \<and>
      feasible kScale (e_threshold m) (e_costs m) (best st) \<and>
      best_cost st = sum_by w_cost (e_costs m) (best st) \<and>
      best_c12 st = sum_by w_c12 (e_costs m) (best st) \<and>
      best_c3 st = sum_by w_c3 (e_costs m) (best st) \<and> best_cost st < int64_max)"

lemma row_max_ge: "Some c \<in> set r \<Longrightarrow> c \<le> row_max r" and row_max_nonneg: "0 \<le> row_max r"
proof -
  have g: "b \<le> fold (\<lambda>c mx. case c of None \<Rightarrow> mx | Some v \<Rightarrow> max mx v) r b \<and>
      (\<forall>c. Some c \<in> set r \<longrightarrow> c \<le> fold (\<lambda>c mx. case c of None \<Rightarrow> mx | Some v \<Rightarrow> max mx v) r b)" for b
  proof (induction r arbitrary: b)
    case (Cons x r)
    show ?case
    proof (cases x)
      case None
      with Cons [of b] show ?thesis by simp
    next
      case (Some v)
      with Cons [of "max b v"] show ?thesis by auto
    qed
  qed simp
  show "Some c \<in> set r \<Longrightarrow> c \<le> row_max r" "0 \<le> row_max r"
    using g [of 0] by (simp_all add: row_max_def)
qed

lemma assignment_cost_bound:
  assumes "\<forall>r\<in>set rows. row_ok r" "xs \<in> set (assignments rows)"
  shows "sum_by w_cost rows xs \<le> sum_list (map row_max rows)"
proof -
  have "sum_by w_cost rows xs \<le> sum_list (map (\<lambda>k. row_max (rows ! k)) [0..<length rows])"
    using assms
    by (intro sum_by_upper) (auto simp: w_cost_def row_ok_def intro!: row_max_ge, metis nth_mem)
  then show ?thesis by (simp only: map_nth_upt)
qed

lemma model_cost_bound:
  assumes "model_ok m" "xs \<in> set (assignments (e_costs m))"
  shows "sum_by w_cost (e_costs m) xs * kScale \<le> kFixedSafe"
    and "sum_by w_cost (e_costs m) xs < int64_max"
proof -
  have "sum_by w_cost (e_costs m) xs \<le> sum_list (map row_max (e_costs m))"
    using assms assignment_cost_bound by (simp add: model_ok_def)
  moreover have "sum_list (map row_max (e_costs m)) * kScale \<le> kFixedSafe"
    using assms(1) by (simp add: model_ok_def)
  ultimately show b: "sum_by w_cost (e_costs m) xs * kScale \<le> kFixedSafe"
    using kFixed_small(1) mult_right_mono by (meson less_imp_le order_trans)
  then show "sum_by w_cost (e_costs m) xs < int64_max"
    by (simp add: kFixedScale_def kFixedSafe_value int64_max_def)
qed

text \<open>The tie-break compares exact ratios, then the method numbers.\<close>

lemma better_tie_key:
  assumes "c12 + c3 = tot" "best_c12 st + best_c3 st = tot" "0 < tot"
  shows "better_tie sv st c12 c3 \<longleftrightarrow> (c12, current st) < (best_c12 st, best st)"
proof -
  let ?t = "e_threshold (model sv)"
  have "(c12 * kScale - ?t * tot) * tot < (best_c12 st * kScale - ?t * tot) * tot \<longleftrightarrow>
      c12 < best_c12 st"
    using assms(3) kFixed_small(1) by simp
  moreover have "(c12 * kScale - ?t * tot) * tot = (best_c12 st * kScale - ?t * tot) * tot \<longleftrightarrow>
      c12 = best_c12 st"
    using assms(3) kFixed_small(1) by simp
  ultimately show ?thesis
    by (auto simp: better_tie_def Let_def assms(1,2))
qed

lemma leaf_update:
  assumes m: "model_ok m" and st: "search_ok m st" and p: "current st \<in> set (assignments (e_costs m))"
    and c: "cost = sum_by w_cost (e_costs m) (current st)" "c12 = sum_by w_c12 (e_costs m) (current st)"
      "c3 = sum_by w_c3 (e_costs m) (current st)"
    and f: "feasible kScale (e_threshold m) (e_costs m) (current st)" and sv: "model sv = m"
  shows "(cost < best_cost st \<or> (cost = best_cost st \<and> better_tie sv st c12 c3)) \<longleftrightarrow>
    (case incumbent st of None \<Rightarrow> True | Some b \<Rightarrow> ckey (e_costs m) (current st) < b)"
proof (cases "best_cost st = int64_max")
  case True
  have "cost < int64_max" using model_cost_bound(2) [OF m p] c by simp
  with True show ?thesis by (simp add: incumbent_def)
next
  case False
  with st have b: "best_cost st = best_c12 st + best_c3 st" "0 < best_c3 st"
    using sum_by_c12_c3 [of "e_costs m" "best st"] by (auto simp: search_ok_def feasible_def)
  have cc: "c12 + c3 = cost" using c sum_by_c12_c3 by simp
  have "0 \<le> best_c12 st"
    using st False m sum_by_nonneg [of "e_costs m" "best st" w_c12]
    by (auto simp: search_ok_def model_ok_def w_c12_def)
  then have "0 < cost" if "cost = best_cost st" using that b by linarith
  then have tie: "better_tie sv st c12 c3 \<longleftrightarrow> (c12, current st) < (best_c12 st, best st)"
    if "cost = best_cost st"
    using that b(1) by (intro better_tie_key [OF cc]) simp_all
  have "cost < best_cost st \<or> (cost = best_cost st \<and> better_tie sv st c12 c3) \<longleftrightarrow>
      (cost, c12, current st) < (best_cost st, best_c12 st, best st)"
    unfolding less_prod_simp [of "cost"] using tie by auto
  with False show ?thesis by (simp add: incumbent_def ckey_def c)
qed


text \<open>
  What a call of \<open>visit\<close> starts from: the prefix \<open>p\<close> that the first \<open>i\<close> entries of
  \<open>current\<close> hold, its sums as arguments, and an incumbent that is a feasible assignment.
\<close>

definition at_prefix :: "encoded \<Rightarrow> nat \<Rightarrow> nat list \<Rightarrow> search \<Rightarrow> bool" where
  "at_prefix m i p st \<longleftrightarrow> search_ok m st \<and> length (current st) = length (e_costs m) \<and>
     take i (current st) = p"

definition prefix_sums :: "encoded \<Rightarrow> nat \<Rightarrow> nat list \<Rightarrow> int \<Rightarrow> int \<Rightarrow> int \<Rightarrow> int \<Rightarrow> bool" where
  "prefix_sums m i p cost c12 c3 linear \<longleftrightarrow> i \<le> length (e_costs m) \<and>
     p \<in> set (assignments (take i (e_costs m))) \<and>
     cost = sum_by w_cost (e_costs m) p \<and> c12 = sum_by w_c12 (e_costs m) p \<and>
     c3 = sum_by w_c3 (e_costs m) p \<and>
     linear = sum_by (w_linear kScale (e_threshold m)) (e_costs m) p"

lemma prefix_sums_length: "prefix_sums m i p cost c12 c3 linear \<Longrightarrow> length p = i"
  using assignments_length by (fastforce simp: prefix_sums_def)

lemma prefix_sums_step:
  assumes "prefix_sums m i p cost c12 c3 linear" "i < length (e_costs m)" "j < 3"
    and "e_costs m ! i ! j = Some c"
  shows "prefix_sums m (Suc i) (p @ [Suc j]) (cost + c) (if j < 2 then c12 + c else c12)
    (if j < 2 then c3 else c3 + c)
    (if j < 2 then linear + (kScale - e_threshold m) * c else linear - e_threshold m * c)"
proof -
  have l: "length p = i" using assms(1) by (rule prefix_sums_length)
  have "sum_by w (e_costs m) (p @ [Suc j]) = sum_by w (e_costs m) p + w (Suc j) c" for w
    using sum_by_snoc [of p "e_costs m" w "Suc j"] assms(2,4) l by simp
  with assms assignments_snoc [of p i "e_costs m" j c] show ?thesis
    by (simp add: prefix_sums_def w_cost_def w_c12_def w_c3_def w_linear_def)
qed

text \<open>The two pruning tests are sound.\<close>

lemma prune_cost:
  assumes m: "model_ok m" and p: "prefix_sums m i p cost c12 c3 linear" and st: "search_ok m st"
    and b: "best_cost st \<noteq> int64_max" "cost + min_suffix (make_solver m) ! i > best_cost st"
  shows "fold keep (leaf_keys kScale (e_threshold m) (e_costs m) p) (incumbent st) = incumbent st"
proof -
  have i: "length p = i" "i \<le> length (e_costs m)"
    using p prefix_sums_length by (auto simp: prefix_sums_def)
  have "(best_cost st, best_c12 st, best st) \<le> ckey (e_costs m) (p @ ys)"
    if "ys \<in> set (assignments (drop (length p) (e_costs m)))" for ys
    using min_suffix_bound [of ys i m] that i b(2) p sum_by_append [of p "e_costs m" w_cost ys]
    by (auto simp: ckey_def prefix_sums_def)
  then show ?thesis
    using b(1) by (simp add: incumbent_def prune_worse)
qed

lemma prune_ratio:
  assumes p: "prefix_sums m i p cost c12 c3 linear"
    and b: "linear + ratio_max_suffix (make_solver m) ! i < 0"
  shows "fold keep (leaf_keys kScale (e_threshold m) (e_costs m) p) x = x"
proof (rule prune_infeasible)
  have i: "length p = i" "i \<le> length (e_costs m)"
    using p prefix_sums_length by (auto simp: prefix_sums_def)
  fix ys assume "ys \<in> set (assignments (drop (length p) (e_costs m)))"
  then show "\<not> feasible kScale (e_threshold m) (e_costs m) (p @ ys)"
    using ratio_suffix_bound [of ys i m] i b p
      sum_by_append [of p "e_costs m" "w_linear kScale (e_threshold m)" ys]
    by (auto simp: feasible_def prefix_sums_def)
qed

lemma model_make_solver [simp]: "model (make_solver m) = m"
  by (simp add: make_solver_def)

lemma visit_leaf:
  assumes m: "model_ok m" and p: "prefix_sums m i p cost c12 c3 linear" and st: "at_prefix m i p st"
    and i: "i = length (e_costs m)"
  shows "at_prefix m i p
      (if linear < 0 \<or> c3 \<le> 0 \<or> c12 + c3 \<le> 0 then st
       else if cost < best_cost st \<or> (cost = best_cost st \<and> better_tie (make_solver m) st c12 c3)
       then st\<lparr>best_cost := cost, best_c12 := c12, best_c3 := c3, best := current st\<rparr> else st) \<and>
    incumbent (if linear < 0 \<or> c3 \<le> 0 \<or> c12 + c3 \<le> 0 then st
       else if cost < best_cost st \<or> (cost = best_cost st \<and> better_tie (make_solver m) st c12 c3)
       then st\<lparr>best_cost := cost, best_c12 := c12, best_c3 := c3, best := current st\<rparr> else st) =
      fold keep (leaf_keys kScale (e_threshold m) (e_costs m) p) (incumbent st)"
proof -
  have cur: "current st = p" and ok: "search_ok m st" using st i by (auto simp: at_prefix_def)
  have pa: "p \<in> set (assignments (e_costs m))" using p i by (simp add: prefix_sums_def)
  have len: "length p = length (e_costs m)" using p i prefix_sums_length by blast
  have nn: "0 \<le> c12" using p pa m sum_by_nonneg [of "e_costs m" p w_c12]
    by (simp add: prefix_sums_def model_ok_def w_c12_def)
  have c: "cost = sum_by w_cost (e_costs m) (current st)" "c12 = sum_by w_c12 (e_costs m) (current st)"
      "c3 = sum_by w_c3 (e_costs m) (current st)"
      "linear = sum_by (w_linear kScale (e_threshold m)) (e_costs m) (current st)"
    using p cur by (simp_all add: prefix_sums_def)
  have feas: "feasible kScale (e_threshold m) (e_costs m) p \<longleftrightarrow> \<not> (linear < 0 \<or> c3 \<le> 0 \<or> c12 + c3 \<le> 0)"
    using c cur nn by (auto simp: feasible_def)
  have lk: "leaf_keys kScale (e_threshold m) (e_costs m) p =
      (if feasible kScale (e_threshold m) (e_costs m) p then [ckey (e_costs m) p] else [])"
    using len by (rule leaf_keys_leaf)
  show ?thesis
  proof (cases "feasible kScale (e_threshold m) (e_costs m) p")
    case False
    with feas lk st show ?thesis by simp
  next
    case True
    have upd: "cost < best_cost st \<or> (cost = best_cost st \<and> better_tie (make_solver m) st c12 c3) \<longleftrightarrow>
        (case incumbent st of None \<Rightarrow> True | Some b \<Rightarrow> ckey (e_costs m) p < b)"
      using leaf_update [OF m ok _ c(1-3) _ model_make_solver] pa True unfolding cur by blast
    have bound: "cost < int64_max" using model_cost_bound(2) [OF m pa] c cur by simp
    have new: "at_prefix m i p (st\<lparr>best_cost := cost, best_c12 := c12, best_c3 := c3, best := current st\<rparr>)"
      using st pa True c cur bound by (simp add: at_prefix_def search_ok_def)
    have inc: "incumbent (st\<lparr>best_cost := cost, best_c12 := c12, best_c3 := c3, best := current st\<rparr>) =
        Some (ckey (e_costs m) p)"
      using bound c cur by (simp add: incumbent_def ckey_def)
    show ?thesis
      using True feas lk upd new inc st by (auto simp: keep_def split: option.splits)
  qed
qed

text \<open>One method of a row, given that the visits of the children are correct.\<close>

definition visit_method ::
  "solver \<Rightarrow> nat \<Rightarrow> int \<Rightarrow> int \<Rightarrow> int \<Rightarrow> int \<Rightarrow> nat \<Rightarrow> search \<Rightarrow> search" where
  "visit_method sv i cost c12 c3 linear j st = (case e_costs (model sv) ! i ! j of
       None \<Rightarrow> st
     | Some c \<Rightarrow>
         let st' = st\<lparr>current := (current st)[i := j + 1]\<rparr>; t = e_threshold (model sv) in
         if j < 2 then visit sv (i + 1) (cost + c) (c12 + c) c3 (linear + (kScale - t) * c) st'
         else visit sv (i + 1) (cost + c) c12 (c3 + c) (linear - t * c) st')"

lemma visit_unfold:
  "visit sv i cost c12 c3 linear st0 =
     (let st = st0\<lparr>visited_nodes := visited_nodes st0 + 1\<rparr> in
      if best_cost st \<noteq> int64_max \<and> cost + min_suffix sv ! i > best_cost st then st
      else if linear + ratio_max_suffix sv ! i < 0 then st
      else if i \<ge> length (e_costs (model sv)) then
        (if linear < 0 \<or> c3 \<le> 0 \<or> c12 + c3 \<le> 0 then st
         else if cost < best_cost st \<or> (cost = best_cost st \<and> better_tie sv st c12 c3)
         then st\<lparr>best_cost := cost, best_c12 := c12, best_c3 := c3, best := current st\<rparr>
         else st)
      else fold (visit_method sv i cost c12 c3 linear) [0, 1, 2] st)"
  by (subst visit.simps) (simp only: visit_method_def [abs_def] Let_def)

lemma visit_method_correct:
  assumes IH: "\<And>p cost c12 c3 linear st. prefix_sums m (Suc i) p cost c12 c3 linear \<Longrightarrow>
      at_prefix m (Suc i) p st \<Longrightarrow>
      at_prefix m (Suc i) p (visit (make_solver m) (Suc i) cost c12 c3 linear st) \<and>
      incumbent (visit (make_solver m) (Suc i) cost c12 c3 linear st) =
        fold keep (leaf_keys kScale (e_threshold m) (e_costs m) p) (incumbent st)"
    and p: "prefix_sums m i p cost c12 c3 linear" and st: "at_prefix m i p st"
    and i: "i < length (e_costs m)" and j: "j < 3"
  shows "at_prefix m i p (visit_method (make_solver m) i cost c12 c3 linear j st) \<and>
    incumbent (visit_method (make_solver m) i cost c12 c3 linear j st) =
      fold keep (if e_costs m ! i ! j = None then []
        else leaf_keys kScale (e_threshold m) (e_costs m) (p @ [Suc j])) (incumbent st)"
proof (cases "e_costs m ! i ! j")
  case None
  with st show ?thesis by (simp add: visit_method_def)
next
  case (Some c)
  let ?st = "st\<lparr>current := (current st)[i := Suc j]\<rparr>"
  have at: "at_prefix m (Suc i) (p @ [Suc j]) ?st"
    using st i by (auto simp: at_prefix_def search_ok_def take_Suc_conv_app_nth)
  have inc: "incumbent ?st = incumbent st" by (simp add: incumbent_def)
  have down: "at_prefix m i p s" if "at_prefix m (Suc i) (p @ [Suc j]) s" for s
  proof -
    have "length p = i" using p by (rule prefix_sums_length)
    moreover have "take i (take (Suc i) (current s)) = take i (p @ [Suc j])"
      using that by (simp only: at_prefix_def)
    ultimately show ?thesis using that by (simp add: at_prefix_def min_def)
  qed
  have step: "visit_method (make_solver m) i cost c12 c3 linear j st =
      visit (make_solver m) (Suc i) (cost + c) (if j < 2 then c12 + c else c12)
        (if j < 2 then c3 else c3 + c)
        (if j < 2 then linear + (kScale - e_threshold m) * c else linear - e_threshold m * c) ?st"
    by (simp add: visit_method_def Some Let_def)
  show ?thesis
    using IH [OF prefix_sums_step [OF p i j Some] at] down Some by (simp add: step inc)
qed

lemma prune_cases:
  "(A \<Longrightarrow> P s) \<Longrightarrow> (B \<Longrightarrow> P s) \<Longrightarrow> P x \<Longrightarrow> P (if A then s else if B then s else x)"
  by simp

lemma visit_correct:
  assumes m: "model_ok m"
  shows "prefix_sums m i p cost c12 c3 linear \<Longrightarrow> at_prefix m i p st \<Longrightarrow>
    at_prefix m i p (visit (make_solver m) i cost c12 c3 linear st) \<and>
    incumbent (visit (make_solver m) i cost c12 c3 linear st) =
      fold keep (leaf_keys kScale (e_threshold m) (e_costs m) p) (incumbent st)"
proof (induction "length (e_costs m) - i" arbitrary: i p cost c12 c3 linear st)
  case 0
  define s where "s = st\<lparr>visited_nodes := visited_nodes st + 1\<rparr>"
  have i: "i = length (e_costs m)" using 0 by (simp add: prefix_sums_def)
  have st: "at_prefix m i p s" "search_ok m s" and inc: "incumbent s = incumbent st"
    using 0 by (simp_all add: s_def at_prefix_def search_ok_def incumbent_def)
  have v: "visit (make_solver m) i cost c12 c3 linear st =
     (if best_cost s \<noteq> int64_max \<and> cost + min_suffix (make_solver m) ! i > best_cost s then s
      else if linear + ratio_max_suffix (make_solver m) ! i < 0 then s
      else if linear < 0 \<or> c3 \<le> 0 \<or> c12 + c3 \<le> 0 then s
       else if cost < best_cost s \<or> (cost = best_cost s \<and> better_tie (make_solver m) s c12 c3)
       then s\<lparr>best_cost := cost, best_c12 := c12, best_c3 := c3, best := current s\<rparr> else s)"
    unfolding visit.simps [of "make_solver m" i] Let_def s_def [symmetric] by (simp add: i)
  show ?case
    unfolding v inc [symmetric]
    by (rule prune_cases [where P = "\<lambda>x. at_prefix m i p x \<and> incumbent x =
        fold keep (leaf_keys kScale (e_threshold m) (e_costs m) p) (incumbent s)"])
      (use visit_leaf [OF m 0(2) st(1) i] prune_cost [OF m 0(2) st(2)] prune_ratio [OF 0(2)] st(1)
        in \<open>simp_all only: simp_thms\<close>)
next
  case (Suc k)
  define s where "s = st\<lparr>visited_nodes := visited_nodes st + 1\<rparr>"
  have i: "i < length (e_costs m)" using Suc(2) by simp
  have st: "at_prefix m i p s" "search_ok m s" and inc: "incumbent s = incumbent st"
    using Suc.prems by (simp_all add: s_def at_prefix_def search_ok_def incumbent_def)
  have IH: "at_prefix m (Suc i) p (visit (make_solver m) (Suc i) cost c12 c3 linear st) \<and>
      incumbent (visit (make_solver m) (Suc i) cost c12 c3 linear st) =
        fold keep (leaf_keys kScale (e_threshold m) (e_costs m) p) (incumbent st)"
    if "prefix_sums m (Suc i) p cost c12 c3 linear" "at_prefix m (Suc i) p st" for p cost c12 c3 linear st
    by (rule Suc.hyps(1) [OF _ that]) (use Suc.hyps(2) in simp)
  have vm: "at_prefix m i p (visit_method (make_solver m) i cost c12 c3 linear j st') \<and>
      incumbent (visit_method (make_solver m) i cost c12 c3 linear j st') =
        fold keep (if e_costs m ! i ! j = None then []
          else leaf_keys kScale (e_threshold m) (e_costs m) (p @ [Suc j])) (incumbent st')"
    if "at_prefix m i p st'" "j < 3" for j st'
    by (rule visit_method_correct [OF _ Suc.prems(1) that(1) i that(2)]) (rule IH)
  let ?loop = "fold (visit_method (make_solver m) i cost c12 c3 linear) [0, 1, 2] s"
  have len: "length p = i" using Suc.prems(1) by (rule prefix_sums_length)
  have loop: "at_prefix m i p ?loop \<and>
      incumbent ?loop = fold keep (leaf_keys kScale (e_threshold m) (e_costs m) p) (incumbent s)"
    unfolding leaf_keys_step [of p "e_costs m", unfolded len, OF i]
    using vm [OF st(1), of 0] vm [of _ 1] vm [of _ 2] by simp
  have v: "visit (make_solver m) i cost c12 c3 linear st =
     (if best_cost s \<noteq> int64_max \<and> cost + min_suffix (make_solver m) ! i > best_cost s then s
      else if linear + ratio_max_suffix (make_solver m) ! i < 0 then s else ?loop)"
    unfolding visit_unfold [of "make_solver m" i] Let_def s_def [symmetric] using i by simp
  show ?case
    unfolding v inc [symmetric]
    by (rule prune_cases [where P = "\<lambda>x. at_prefix m i p x \<and> incumbent x =
        fold keep (leaf_keys kScale (e_threshold m) (e_costs m) p) (incumbent s)"])
      (use loop prune_cost [OF m Suc.prems(1) st(2)] prune_ratio [OF Suc.prems(1)] st(1)
        in \<open>simp_all only: simp_thms\<close>)
qed

section \<open>Encoded models are in range\<close>

text \<open>What an entry of the matrix becomes.\<close>

definition entry_value :: "string option \<Rightarrow> int option \<Rightarrow> bool" where
  "entry_value e c \<longleftrightarrow> (case e of None \<Rightarrow> c = None
     | Some s \<Rightarrow> \<exists>v. parse_fixed_point s False = Inr v \<and> c = Some v)"

lemma entry_value_simps:
  "entry_value None c \<longleftrightarrow> c = None"
  "entry_value (Some s) c \<longleftrightarrow> (\<exists>v. parse_fixed_point s False = Inr v \<and> c = Some v)"
  by (simp_all add: entry_value_def)

lemma encode_entry_simps:
  "encode_entry None (r, x, a) = Inr (r @ [None], x, a)"
  "encode_entry (Some s) (r, x, a) =
     sbind (parse_fixed_point s False) (\<lambda>v. Inr (r @ [Some v], max x v, True))"
  by (simp_all add: encode_entry_def)

lemma encode_entries:
  assumes "sfold encode_entry es (r0, x0, a0) = Inr (r, x, a)"
  shows "\<exists>cs. r = r0 @ cs \<and> list_all2 entry_value es cs \<and>
    x = fold (\<lambda>c mx. case c of None \<Rightarrow> mx | Some v \<Rightarrow> max mx v) cs x0 \<and>
    (a \<longleftrightarrow> a0 \<or> list_ex (\<lambda>c. c \<noteq> None) cs)"
  using assms
proof (induction es arbitrary: r0 x0 a0)
  case (Cons e es)
  show ?case
  proof (cases e)
    case None
    with Cons.prems have "sfold encode_entry es (r0 @ [None], x0, a0) = Inr (r, x, a)"
      by (simp add: encode_entry_simps)
    from Cons.IH [OF this] obtain cs where "r = (r0 @ [None]) @ cs" "list_all2 entry_value es cs"
      "x = fold (\<lambda>c mx. case c of None \<Rightarrow> mx | Some v \<Rightarrow> max mx v) cs x0"
      "a \<longleftrightarrow> a0 \<or> list_ex (\<lambda>c. c \<noteq> None) cs" by blast
    with None show ?thesis by (intro exI [of _ "None # cs"]) (simp add: entry_value_simps)
  next
    case (Some s)
    with Cons.prems obtain v where v: "parse_fixed_point s False = Inr v"
      "sfold encode_entry es (r0 @ [Some v], max x0 v, True) = Inr (r, x, a)"
      by (auto simp: encode_entry_simps sbind_eq_Inr)
    from Cons.IH [OF v(2)] obtain cs where "r = (r0 @ [Some v]) @ cs" "list_all2 entry_value es cs"
      "x = fold (\<lambda>c mx. case c of None \<Rightarrow> mx | Some v \<Rightarrow> max mx v) cs (max x0 v)"
      "a \<longleftrightarrow> True \<or> list_ex (\<lambda>c. c \<noteq> None) cs" by blast
    with Some v(1) show ?thesis
      by (intro exI [of _ "Some v # cs"]) (simp add: entry_value_simps)
  qed
qed simp

lemma encode_row_ok:
  assumes "encode_row es (costs, tot) = Inr (costs', tot')" "length es = 3"
  shows "\<exists>r. costs' = costs @ [r] \<and> row_ok r \<and> list_all2 entry_value es r \<and> tot' = tot + row_max r"
proof -
  obtain r x a where e: "sfold encode_entry es ([], 0, False) = Inr (r, x, a)" "a"
    "costs' = costs @ [r]" "tot' = tot + x"
  proof (cases "sfold encode_entry es ([], 0, False)")
    case (Inl e)
    with assms(1) show ?thesis by (simp add: encode_row_def)
  next
    case (Inr y)
    obtain r x a where y: "y = (r, x, a)" by (cases y) blast
    have "(if \<not> a then Inl (OptimizationError NoFeasibleSolution ''each material needs an available method'')
        else Inr (costs @ [r], tot + x)) = Inr (costs', tot')"
      using assms(1) by (simp add: encode_row_def Inr y)
    then have "a" "costs' = costs @ [r]" "tot' = tot + x" by (simp_all split: if_splits)
    with Inr y show ?thesis by (intro that) simp_all
  qed
  obtain cs where cs: "r = [] @ cs" "list_all2 entry_value es cs"
      "x = fold (\<lambda>c mx. case c of None \<Rightarrow> mx | Some v \<Rightarrow> max mx v) cs 0"
      "a \<longleftrightarrow> False \<or> list_ex (\<lambda>c. c \<noteq> None) cs"
    using encode_entries [OF e(1)] by blast
  have r: "list_all2 entry_value es r" "x = row_max r" "list_ex (\<lambda>c. c \<noteq> None) r"
  proof -
    have "r = cs" using cs(1) by (simp only: append_Nil)
    then show "list_all2 entry_value es r" "x = row_max r" "list_ex (\<lambda>c. c \<noteq> None) r"
      using cs(2-4) e(2) unfolding row_max_def by blast+
  qed
  have "0 \<le> c" if c: "Some c \<in> set r" for c
  proof -
    obtain i where "i < length r" "r ! i = Some c" using c unfolding in_set_conv_nth by blast
    with list_all2_nthD2 [OF r(1), of i] have v: "entry_value (es ! i) (Some c)" by simp
    show ?thesis
    proof (cases "es ! i")
      case (Some s)
      with v have "parse_fixed_point s False = Inr c" by (simp add: entry_value_simps)
      then show ?thesis by (rule parse_range(1))
    qed (use v in \<open>simp add: entry_value_simps\<close>)
  qed
  moreover have "length r = 3" using list_all2_lengthD [OF r(1)] assms(2) by simp
  ultimately have "row_ok r" using r(3) by (simp add: row_ok_def)
  with r e(3,4) show ?thesis by blast
qed

lemma encode_rows:
  assumes "sfold encode_row matrix (costs0, tot0) = Inr (costs, tot)" "\<forall>es\<in>set matrix. length es = 3"
  shows "\<exists>rs. costs = costs0 @ rs \<and> list_all2 (list_all2 entry_value) matrix rs \<and>
    (\<forall>r\<in>set rs. row_ok r) \<and> tot = tot0 + sum_list (map row_max rs)"
  using assms
proof (induction matrix arbitrary: costs0 tot0)
  case (Cons es matrix)
  then obtain costs1 tot1 where s: "encode_row es (costs0, tot0) = Inr (costs1, tot1)"
    "sfold encode_row matrix (costs1, tot1) = Inr (costs, tot)"
    by (auto simp: sbind_eq_Inr)
  obtain r where r: "costs1 = costs0 @ [r]" "row_ok r" "list_all2 entry_value es r" "tot1 = tot0 + row_max r"
    using encode_row_ok [OF s(1)] Cons.prems by auto
  obtain rs where "costs = costs1 @ rs" "list_all2 (list_all2 entry_value) matrix rs"
    "\<forall>r\<in>set rs. row_ok r" "tot = tot1 + sum_list (map row_max rs)"
    using Cons.IH [OF s(2)] Cons.prems by auto
  with r show ?case by (intro exI [of _ "r # rs"]) simp
qed simp

lemma encode_model_ok:
  assumes "encode matrix threshold = Inr m" "\<forall>es\<in>set matrix. length es = 3"
  shows "model_ok m" "list_all2 (list_all2 entry_value) matrix (e_costs m)"
    "parse_fixed_point threshold True = Inr (e_threshold m)"
proof -
  obtain t costs tot where t: "matrix \<noteq> []" "parse_fixed_point threshold True = Inr t"
    "sfold encode_row matrix ([], 0) = Inr (costs, tot)" "validate_aggregate tot = Inr ()"
    "m = \<lparr>e_costs = costs, e_threshold = t\<rparr>"
    using assms(1) by (auto simp: encode_def sbind_eq_Inr split: if_splits prod.splits)
  from encode_rows [OF t(3) assms(2)] have r: "list_all2 (list_all2 entry_value) matrix costs"
    "\<forall>r\<in>set costs. row_ok r" "tot = sum_list (map row_max costs)" by auto
  show "list_all2 (list_all2 entry_value) matrix (e_costs m)"
    "parse_fixed_point threshold True = Inr (e_threshold m)" using r t by simp_all
  have "costs \<noteq> []" using r(1) t(1) by auto
  with r t parse_range [OF t(2)] show "model_ok m"
    by (simp add: model_ok_def validate_aggregate_def split: if_splits)
qed

section \<open>The result of a solve\<close>

lemma prefix_sums_root: "prefix_sums m 0 [] 0 0 0 0"
proof -
  have "sum_by w rs [] = 0" for w rs by (cases rs) simp_all
  then show ?thesis by (simp add: prefix_sums_def)
qed

lemma at_prefix_root: "at_prefix m 0 [] (initial_search m)"
  by (simp add: at_prefix_def search_ok_def initial_search_def)

lemma solve_search:
  assumes m: "model_ok m"
  defines "s \<equiv> visit (make_solver m) 0 0 0 0 0 (initial_search m)"
  shows "search_ok m s" "incumbent s = reference_optimum kScale (e_threshold m) (e_costs m)"
proof -
  have "incumbent (initial_search m) = None"
    by (simp add: incumbent_def initial_search_def)
  then show "search_ok m s" "incumbent s = reference_optimum kScale (e_threshold m) (e_costs m)"
    using visit_correct [OF m prefix_sums_root at_prefix_root] reference_optimum_leaf_keys
    unfolding s_def at_prefix_def by metis+
qed

lemma solve_result:
  assumes m: "model_ok m"
  shows "case solve m of
      Inr r \<Rightarrow> optimal kScale (e_threshold m) (e_costs m) (r_solution r) \<and>
        r_total_cost r = sum_by w_cost (e_costs m) (r_solution r) \<and>
        r_c12 r = sum_by w_c12 (e_costs m) (r_solution r) \<and>
        r_c3 r = sum_by w_c3 (e_costs m) (r_solution r)
    | Inl e \<Rightarrow> e = OptimizationError NoFeasibleSolution ''no assignment satisfies the ratio constraint'' \<and>
        (\<forall>xs\<in>set (assignments (e_costs m)). \<not> feasible kScale (e_threshold m) (e_costs m) xs)"
proof -
  let ?s = "visit (make_solver m) 0 0 0 0 0 (initial_search m)"
  note s = solve_search [OF m]
  have ne: "xs \<noteq> []" if "xs \<in> set (assignments (e_costs m))" for xs
    using assignments_length [OF that] m by (auto simp: model_ok_def)
  show ?thesis
  proof (cases "best ?s = []")
    case True
    with s(1) ne have "best_cost ?s = int64_max" by (auto simp: search_ok_def)
    then have "reference_optimum kScale (e_threshold m) (e_costs m) = None"
      using s(2) by (simp add: incumbent_def)
    with True show ?thesis
      unfolding reference_optimum_None by (simp add: solve_def Let_def)
  next
    case False
    with s(1) have b: "best_cost ?s \<noteq> int64_max" "best_cost ?s = sum_by w_cost (e_costs m) (best ?s)"
      "best_c12 ?s = sum_by w_c12 (e_costs m) (best ?s)" "best_c3 ?s = sum_by w_c3 (e_costs m) (best ?s)"
      by (auto simp: search_ok_def)
    then have "reference_optimum kScale (e_threshold m) (e_costs m) = Some (ckey (e_costs m) (best ?s))"
      using s(2) by (simp add: incumbent_def ckey_def)
    from reference_optimum_Some [OF this] have "optimal kScale (e_threshold m) (e_costs m) (best ?s)"
      using ckey_inj by auto
    with False b show ?thesis by (simp add: solve_def Let_def)
  qed
qed

text \<open>C5: On a matrix of decimal costs with three entries per material the plaintext solver returns
  the feasible assignment of least cost, ties broken by the cost of methods 1 and 2 and then by the
  method numbers, together with its sums; it reports infeasibility exactly when no assignment of
  available methods is feasible.\<close>

theorem optimize_plain_optimal:
  assumes "encode matrix threshold = Inr m" "\<forall>es\<in>set matrix. length es = 3"
  shows "case optimize_plain matrix threshold of
      Inr r \<Rightarrow> optimal kScale (e_threshold m) (e_costs m) (r_solution r) \<and>
        r_total_cost r = sum_by w_cost (e_costs m) (r_solution r) \<and>
        r_c12 r = sum_by w_c12 (e_costs m) (r_solution r) \<and>
        r_c3 r = sum_by w_c3 (e_costs m) (r_solution r)
    | Inl e \<Rightarrow> e = OptimizationError NoFeasibleSolution ''no assignment satisfies the ratio constraint'' \<and>
        (\<forall>xs\<in>set (assignments (e_costs m)). \<not> feasible kScale (e_threshold m) (e_costs m) xs)"
  using solve_result [OF encode_model_ok(1) [OF assms]] by (simp add: optimize_plain_def assms(1))

definition sample_matrix :: "string option list list" where
  "sample_matrix = [[Some ''1.5'', Some ''2'', None], [Some ''4'', None, Some ''0.5'']]"

definition sample_model :: encoded where
  "sample_model = \<lparr>e_costs = [[Some 1500000, Some 2000000, None], [Some 4000000, None, Some 500000]],
     e_threshold = 600000\<rparr>"

lemma sample_encode: "encode sample_matrix ''0.6'' = Inr sample_model"
  by code_simp

theorem optimize_plain_optimal_witness:
  "case optimize_plain sample_matrix ''0.6'' of
      Inr r \<Rightarrow> optimal kScale (e_threshold sample_model) (e_costs sample_model) (r_solution r) \<and>
        r_total_cost r = sum_by w_cost (e_costs sample_model) (r_solution r) \<and>
        r_c12 r = sum_by w_c12 (e_costs sample_model) (r_solution r) \<and>
        r_c3 r = sum_by w_c3 (e_costs sample_model) (r_solution r)
    | Inl e \<Rightarrow> e = OptimizationError NoFeasibleSolution ''no assignment satisfies the ratio constraint'' \<and>
        (\<forall>xs\<in>set (assignments (e_costs sample_model)).
           \<not> feasible kScale (e_threshold sample_model) (e_costs sample_model) xs)"
  using optimize_plain_optimal [OF sample_encode] by (simp add: sample_matrix_def)

section \<open>Ranges of the search\<close>

lemma sum_list_abs_le:
  "(\<And>x. x \<in> set xs \<Longrightarrow> \<bar>f x\<bar> \<le> g x) \<Longrightarrow> \<bar>sum_list (map f xs)\<bar> \<le> sum_list (map g xs :: int list)"
  by (induction xs) (auto intro: order_trans [OF abs_triangle_ineq] add_mono)

lemma row_entry:
  assumes "row_ok r"
  obtains j c where "j < 3" "r ! j = Some c" "Some c \<in> set r"
  using assms unfolding row_ok_def list_ex_iff in_set_conv_nth by (metis in_set_conv_nth not_None_eq)

lemma row_bounds:
  assumes r: "row_ok r" and t: "0 \<le> t" "t < kScale"
  shows "0 \<le> row_min r" "\<bar>row_min r\<bar> \<le> row_max r"
    "\<bar>row_ratio_max t r\<bar> \<le> row_max r * kScale"
proof -
  have c: "0 \<le> c \<and> c \<le> row_max r" if "j < 3" "r ! j = Some c" for j c
    using r that row_max_ge by (metis nth_mem row_ok_def)
  obtain j c where j: "j < 3" "r ! j = Some c" using r by (rule row_entry)
  show "0 \<le> row_min r"
    using c by (auto simp: row_min_def int64_max_def less_3 split: option.splits)
  moreover have "row_min r \<le> c" using j by (rule row_min_le)
  ultimately show "\<bar>row_min r\<bar> \<le> row_max r" using c [OF j] by simp
  have w: "\<bar>w_linear kScale t (Suc i) d\<bar> \<le> row_max r * kScale" if "i < 3" "r ! i = Some d" for i d
  proof -
    have d: "0 \<le> d" "d \<le> row_max r" using c [OF that] by simp_all
    then have "d * kScale \<le> row_max r * kScale" using t by (intro mult_right_mono) simp_all
    moreover have "(kScale - t) * d \<le> kScale * d" "t * d \<le> kScale * d" "0 \<le> (kScale - t) * d" "0 \<le> t * d"
      using d t by (simp_all add: mult_right_mono)
    ultimately show ?thesis by (simp add: w_linear_def mult.commute)
  qed
  have lo: "w_linear kScale t (Suc j) c \<le> row_ratio_max t r" using j by (rule row_ratio_max_ge)
  have "0 \<le> row_max r * kScale" using row_max_nonneg kFixed_small(1) by simp
  then have "int64_min \<le> row_max r * kScale" by (simp add: int64_min_def)
  then have "row_ratio_max t r \<le> row_max r * kScale"
    using w [of 0] w [of 1] w [of 2]
    by (simp add: row_ratio_max_def w_linear_def abs_le_iff split: option.splits)
  with lo w [OF j] show "\<bar>row_ratio_max t r\<bar> \<le> row_max r * kScale" by linarith
qed

text \<open>Prefix and suffix together stay below the aggregate bound.\<close>

lemma sum_row_max_split:
  assumes "i \<le> length (e_costs m)"
  shows "sum_list (map row_max (take i (e_costs m))) + sum_list (map row_max (drop i (e_costs m))) =
    sum_list (map row_max (e_costs m))"
  by (metis append_take_drop_id map_append sum_list_append)

lemma sum_by_take:
  "length p \<le> i \<Longrightarrow> sum_by w (take i rows) p = sum_by w rows p"
proof (induction p arbitrary: i rows)
  case Nil
  have "sum_by w rs [] = 0" for rs by (cases rs) simp_all
  then show ?case by simp
next
  case (Cons x p)
  then show ?case by (cases i; cases rows) simp_all
qed

lemma suffix_ranges:
  assumes m: "model_ok m" and i: "i \<le> length (e_costs m)"
  defines "B \<equiv> sum_list (map row_max (drop i (e_costs m)))"
  shows "0 \<le> min_suffix (make_solver m) ! i" "min_suffix (make_solver m) ! i \<le> B"
    "\<bar>ratio_max_suffix (make_solver m) ! i\<bar> \<le> B * kScale" "0 \<le> B" "B * kScale \<le> kFixedSafe"
proof -
  have ok: "\<forall>r\<in>set (e_costs m). row_ok r" and t: "0 \<le> e_threshold m" "e_threshold m < kScale"
    and agg: "sum_list (map row_max (e_costs m)) * kScale \<le> kFixedSafe"
    using m by (simp_all add: model_ok_def)
  have okd: "r \<in> set (drop i (e_costs m)) \<Longrightarrow> row_ok r" for r using ok by (meson in_set_dropD)
  show "0 \<le> min_suffix (make_solver m) ! i"
    using row_bounds(1) [OF okd t] i
    by (auto simp: make_solver_def suffix_sums_nth intro!: sum_list_nonneg)
  show "min_suffix (make_solver m) ! i \<le> B"
    using sum_list_abs_le [of "drop i (e_costs m)" row_min row_max] row_bounds(2) [OF okd t] i
    by (simp add: make_solver_def suffix_sums_nth B_def)
  show "\<bar>ratio_max_suffix (make_solver m) ! i\<bar> \<le> B * kScale"
    using sum_list_abs_le [of "drop i (e_costs m)" "row_ratio_max (e_threshold m)" "\<lambda>r. row_max r * kScale"]
      row_bounds(3) [OF okd t] i
    by (simp add: make_solver_def suffix_sums_nth B_def sum_list_mult_const)
  show "0 \<le> B" unfolding B_def using row_max_nonneg by (intro sum_list_nonneg) auto
  have "0 \<le> sum_list (map row_max (take i (e_costs m)))"
    using row_max_nonneg by (intro sum_list_nonneg) auto
  then have "B \<le> sum_list (map row_max (e_costs m))"
    using sum_row_max_split [OF i] by (simp add: B_def)
  then have "B * kScale \<le> sum_list (map row_max (e_costs m)) * kScale"
    by (intro mult_right_mono) (simp_all add: kFixedScale_def)
  with agg show "B * kScale \<le> kFixedSafe" by linarith
qed

text \<open>The sums of a prefix, the suffix bounds behind it and their sums are within the safe range.\<close>

lemma prefix_ranges:
  assumes m: "model_ok m" and p: "prefix_sums m i p cost c12 c3 linear"
  shows "0 \<le> c12" "0 \<le> c3" "c12 + c3 = cost" "cost * kScale \<le> kFixedSafe"
    "\<bar>linear\<bar> \<le> kFixedSafe" "0 \<le> cost + min_suffix (make_solver m) ! i"
    "cost + min_suffix (make_solver m) ! i \<le> kFixedSafe"
    "\<bar>ratio_max_suffix (make_solver m) ! i\<bar> \<le> kFixedSafe"
    "c12 * kScale - e_threshold m * (c12 + c3) = linear"
proof -
  let ?rows = "e_costs m" and ?t = "e_threshold m"
  have i: "i \<le> length ?rows" and pa: "p \<in> set (assignments (take i ?rows))" and len: "length p = i"
    using p prefix_sums_length by (auto simp: prefix_sums_def)
  have t: "0 \<le> ?t" "?t < kScale" and ok: "\<forall>r\<in>set ?rows. row_ok r"
    and agg: "sum_list (map row_max ?rows) * kScale \<le> kFixedSafe"
    using m by (simp_all add: model_ok_def)
  have okt: "\<forall>r\<in>set (take i ?rows). row_ok r" using ok by (meson in_set_takeD)
  have s: "cost = sum_by w_cost (take i ?rows) p" "c12 = sum_by w_c12 (take i ?rows) p"
    "c3 = sum_by w_c3 (take i ?rows) p" "linear = sum_by (w_linear kScale ?t) (take i ?rows) p"
    using p len by (simp_all add: prefix_sums_def sum_by_take)
  have nn: "0 \<le> c12" "0 \<le> c3"
    unfolding s by (rule sum_by_nonneg [OF okt pa], simp add: w_c12_def w_c3_def)+
  have cc: "c12 + c3 = cost" unfolding s by (rule sum_by_c12_c3)
  define A where "A = sum_list (map row_max (take i ?rows))"
  define B where "B = sum_list (map row_max (drop i ?rows))"
  have AB: "(A + B) * kScale \<le> kFixedSafe" using agg sum_row_max_split [OF i] by (simp add: A_def B_def)
  have B0: "0 \<le> B" unfolding B_def using row_max_nonneg by (intro sum_list_nonneg) auto
  have costA: "cost \<le> A" unfolding s A_def using okt pa by (rule assignment_cost_bound)
  note suf = suffix_ranges [OF m i, folded B_def]
  have kS: "1 \<le> kScale" by (simp add: kFixedScale_def)
  have lin: "linear = kScale * c12 - ?t * cost" unfolding s by (rule sum_by_linear)
  have le: "x \<le> y \<Longrightarrow> x * kScale \<le> y * kScale" for x y using kS by (intro mult_right_mono) simp_all
  have "0 \<le> cost" using nn cc by linarith
  then have A0: "0 \<le> A" using costA by linarith
  have "(A + B) * 1 \<le> (A + B) * kScale" using A0 B0 kS by (intro mult_left_mono) simp_all
  then have ABs: "A + B \<le> kFixedSafe" using AB by (metis mult_1_right order_trans)
  have As: "A * kScale \<le> kFixedSafe" and Bs: "B * kScale \<le> kFixedSafe"
    using le [of A "A + B"] le [of B "A + B"] A0 B0 AB by linarith+
  have costS: "cost * kScale \<le> kFixedSafe" using le [OF costA] As by linarith
  have "?t * cost \<le> kScale * cost" using t \<open>0 \<le> cost\<close> by (intro mult_right_mono) simp_all
  moreover have "0 \<le> kScale * c12" "kScale * c12 \<le> cost * kScale" "0 \<le> ?t * cost"
    using nn cc t kS \<open>0 \<le> cost\<close> le [of c12 "cost"] by (simp_all add: mult.commute)
  moreover have "kScale * cost = cost * kScale" by (rule mult.commute)
  ultimately have linS: "\<bar>linear\<bar> \<le> kFixedSafe" unfolding lin using costS by linarith
  have gap: "c12 * kScale - ?t * (c12 + c3) = linear" by (simp add: lin cc mult.commute)
  show "0 \<le> c12" "0 \<le> c3" "c12 + c3 = cost" "cost * kScale \<le> kFixedSafe"
    "\<bar>linear\<bar> \<le> kFixedSafe" "c12 * kScale - e_threshold m * (c12 + c3) = linear"
    by fact+
  show "0 \<le> cost + min_suffix (make_solver m) ! i"
    "cost + min_suffix (make_solver m) ! i \<le> kFixedSafe"
    "\<bar>ratio_max_suffix (make_solver m) ! i\<bar> \<le> kFixedSafe"
    using suf \<open>0 \<le> cost\<close> costA ABs by linarith+
qed

end
