(* ===== verification/CheckedSolver.thy ===== *)
theory CheckedSolver
  imports ExactSolver "HOL-Library.Monad_Syntax"
begin

text \<open>
  The width of the arithmetic of src/optimization.cpp. The functions of the solver are written
  again with every sum, difference and product checked at the width the C++ computes it in: \<open>int64_t\<close>
  through \<open>i64\<close>, \<open>__int128\<close> through \<open>i128\<close>. The value is None where a signed result would not
  fit, which is undefined behaviour in C++. \<open>optimize_plain_no_overflow\<close> shows that the
  checked solver returns, on every matrix with three entries per row, exactly what the solver over
  the integers returns.
\<close>

section \<open>Checked arithmetic\<close>

definition fits :: "nat \<Rightarrow> int \<Rightarrow> int option" where
  "fits w x = (if - (2 ^ (w - 1)) \<le> x \<and> x < 2 ^ (w - 1) then Some x else None)"

abbreviation i64 :: "int \<Rightarrow> int option" where "i64 \<equiv> fits 64"
abbreviation i128 :: "int \<Rightarrow> int option" where "i128 \<equiv> fits 128"

section \<open>The constructor\<close>

text \<open>The contribution of method \<open>j\<close>: \<open>(kScale - threshold) * c\<close> or \<open>-threshold * c\<close>.\<close>

definition checked_contribution :: "int \<Rightarrow> nat \<Rightarrow> int \<Rightarrow> int option" where
  "checked_contribution t j c =
     (if j < 2 then do { d \<leftarrow> i64 (kScale - t); i64 (d * c) }
      else do { d \<leftarrow> i64 (- t); i64 (d * c) })"

definition checked_row_ratio_max :: "int \<Rightarrow> row \<Rightarrow> int option" where
  "checked_row_ratio_max t r = fold (\<lambda>j acc. case r ! j of
       None \<Rightarrow> acc
     | Some c \<Rightarrow> do {
         mx \<leftarrow> acc;
         contribution \<leftarrow> checked_contribution t j c;
         Some (max mx contribution) }) [0, 1, 2] (Some int64_min)"

primrec checked_suffix_sums :: "(row \<Rightarrow> int option) \<Rightarrow> row list \<Rightarrow> int list option" where
  "checked_suffix_sums f [] = Some [0]"
| "checked_suffix_sums f (r # rs) = do {
     ss \<leftarrow> checked_suffix_sums f rs;
     v \<leftarrow> f r;
     s \<leftarrow> i64 (hd ss + v);
     Some (s # ss) }"

definition checked_solver :: "encoded \<Rightarrow> solver option" where
  "checked_solver m = do {
     mins \<leftarrow> checked_suffix_sums (\<lambda>r. Some (row_min r)) (e_costs m);
     ratios \<leftarrow> checked_suffix_sums (checked_row_ratio_max (e_threshold m)) (e_costs m);
     Some \<lparr>model = m, min_suffix = mins, ratio_max_suffix = ratios\<rparr> }"

section \<open>The search\<close>

text \<open>The totals are summed in 64 bits and widened; the products are 128 bits wide.\<close>

definition checked_better_tie :: "solver \<Rightarrow> search \<Rightarrow> int \<Rightarrow> int \<Rightarrow> bool option" where
  "checked_better_tie sv st c12 c3 = do {
     total \<leftarrow> i64 (c12 + c3);
     old_total \<leftarrow> i64 (best_c12 st + best_c3 st);
     scaled \<leftarrow> i128 (c12 * kScale);
     share \<leftarrow> i128 (e_threshold (model sv) * total);
     gap \<leftarrow> i128 (scaled - share);
     old_scaled \<leftarrow> i128 (best_c12 st * kScale);
     old_share \<leftarrow> i128 (e_threshold (model sv) * old_total);
     old_gap \<leftarrow> i128 (old_scaled - old_share);
     lhs \<leftarrow> i128 (gap * old_total);
     rhs \<leftarrow> i128 (old_gap * total);
     Some (if lhs \<noteq> rhs then lhs < rhs else current st < best st) }"

text \<open>The tests of a leaf; \<open>||\<close> and \<open>&&\<close> do not evaluate what they do not need.\<close>

definition checked_leaf :: "solver \<Rightarrow> int \<Rightarrow> int \<Rightarrow> int \<Rightarrow> int \<Rightarrow> search \<Rightarrow> search option" where
  "checked_leaf sv cost c12 c3 linear st = do {
     reject \<leftarrow> (if linear < 0 \<or> c3 \<le> 0 then Some True
       else do { s \<leftarrow> i64 (c12 + c3); Some (s \<le> 0) });
     if reject then Some st
     else do {
       improves \<leftarrow> (if cost < best_cost st then Some True
         else if cost = best_cost st then checked_better_tie sv st c12 c3 else Some False);
       Some (if improves
         then st\<lparr>best_cost := cost, best_c12 := c12, best_c3 := c3, best := current st\<rparr>
         else st) } }"

definition checked_prune :: "solver \<Rightarrow> nat \<Rightarrow> int \<Rightarrow> int \<Rightarrow> search \<Rightarrow> bool option" where
  "checked_prune sv i cost linear st = do {
     over \<leftarrow> (if best_cost st \<noteq> int64_max
       then do { s \<leftarrow> i64 (cost + min_suffix sv ! i); Some (s > best_cost st) } else Some False);
     if over then Some True
     else do { s \<leftarrow> i128 (linear + ratio_max_suffix sv ! i); Some (s < 0) } }"

function checked_visit ::
  "solver \<Rightarrow> nat \<Rightarrow> int \<Rightarrow> int \<Rightarrow> int \<Rightarrow> int \<Rightarrow> search \<Rightarrow> search option" where
  "checked_visit sv i cost c12 c3 linear st0 =
     (let st = st0\<lparr>visited_nodes := visited_nodes st0 + 1\<rparr>; t = e_threshold (model sv) in
      Option.bind (checked_prune sv i cost linear st) (\<lambda>pruned.
      if pruned then Some st
      else if i \<ge> length (e_costs (model sv)) then checked_leaf sv cost c12 c3 linear st
      else fold (\<lambda>j acc. case e_costs (model sv) ! i ! j of
             None \<Rightarrow> acc
           | Some c \<Rightarrow> Option.bind acc (\<lambda>st.
               let st' = st\<lparr>current := (current st)[i := j + 1]\<rparr> in
               Option.bind (i64 (cost + c)) (\<lambda>cost'.
               if j < 2
               then Option.bind (i64 (c12 + c)) (\<lambda>c12'.
                 Option.bind (i64 (kScale - t)) (\<lambda>d. Option.bind (i64 (d * c)) (\<lambda>x.
                 Option.bind (i64 (linear + x)) (\<lambda>linear'.
                 checked_visit sv (i + 1) cost' c12' c3 linear' st'))))
               else Option.bind (i64 (c3 + c)) (\<lambda>c3'.
                 Option.bind (i64 (t * c)) (\<lambda>x. Option.bind (i64 (linear - x)) (\<lambda>linear'.
                 checked_visit sv (i + 1) cost' c12 c3' linear' st'))))))
             [0, 1, 2] (Some st)))"
  by pat_completeness auto
termination
  by (relation "measure (\<lambda>(sv, i, _). length (e_costs (model sv)) - i)") auto

declare checked_visit.simps [simp del]

definition checked_solve :: "encoded \<Rightarrow> (exn + optimization_result) option" where
  "checked_solve m = do {
     sv \<leftarrow> checked_solver m;
     s \<leftarrow> checked_visit sv 0 0 0 0 0 (initial_search m);
     if best s = []
     then Some (Inl (OptimizationError NoFeasibleSolution ''no assignment satisfies the ratio constraint''))
     else do {
       _ \<leftarrow> i64 (best_c12 s + best_c3 s);
       Some (Inr \<lparr>r_total_cost = best_cost s, r_c12 = best_c12 s, r_c3 = best_c3 s,
         r_solution = best s\<rparr>) } }"

definition checked_optimize_plain ::
  "string option list list \<Rightarrow> string \<Rightarrow> (exn + optimization_result) option" where
  "checked_optimize_plain costs threshold =
     (case encode costs threshold of Inl e \<Rightarrow> Some (Inl e) | Inr m \<Rightarrow> checked_solve m)"

section \<open>The values fit\<close>

lemma i64_ok [simp]: "\<bar>x\<bar> \<le> kFixedSafe \<Longrightarrow> i64 x = Some x"
  by (auto simp: fits_def kFixedSafe_value)

lemma i128_ok: "\<bar>x\<bar> \<le> kFixedSafe * kFixedSafe \<Longrightarrow> i128 x = Some x"
  by (auto simp: fits_def kFixedSafe_value)

lemma i128_small [simp]: "\<bar>x\<bar> \<le> kFixedSafe \<Longrightarrow> i128 x = Some x"
  by (auto simp: fits_def kFixedSafe_value)

lemma cost_ranges:
  assumes c: "0 \<le> c" "c * kScale \<le> kFixedSafe" and t: "0 \<le> t" "t < kScale"
  shows "\<bar>c\<bar> \<le> kFixedSafe" "\<bar>c * kScale\<bar> \<le> kFixedSafe" "\<bar>kScale - t\<bar> \<le> kFixedSafe"
    "\<bar>- t\<bar> \<le> kFixedSafe" "\<bar>(kScale - t) * c\<bar> \<le> kFixedSafe" "\<bar>t * c\<bar> \<le> kFixedSafe"
proof -
  have "c * 1 \<le> c * kScale" using c by (intro mult_left_mono) (simp_all add: kFixedScale_def)
  with c show "\<bar>c\<bar> \<le> kFixedSafe" by simp
  show "\<bar>c * kScale\<bar> \<le> kFixedSafe" using c by (simp add: kFixedScale_def)
  show "\<bar>kScale - t\<bar> \<le> kFixedSafe" "\<bar>- t\<bar> \<le> kFixedSafe"
    using t by (simp_all add: kFixedScale_def kFixedSafe_value)
  have "(kScale - t) * c \<le> kScale * c" "t * c \<le> kScale * c" "0 \<le> (kScale - t) * c" "0 \<le> t * c"
    using c t by (simp_all add: mult_right_mono)
  with c show "\<bar>(kScale - t) * c\<bar> \<le> kFixedSafe" "\<bar>t * c\<bar> \<le> kFixedSafe"
    by (simp_all add: mult.commute)
qed

lemma entry_ranges:
  assumes m: "model_ok m" and r: "r \<in> set (e_costs m)" and j: "j < 3" "r ! j = Some c"
  shows "0 \<le> c" "c * kScale \<le> kFixedSafe"
proof -
  have ok: "row_ok r" using m r by (simp add: model_ok_def)
  then have mem: "Some c \<in> set r" using j by (metis nth_mem row_ok_def)
  with ok show "0 \<le> c" by (simp add: row_ok_def)
  have "row_max r \<le> sum_list (map row_max (e_costs m))"
    using r row_max_nonneg by (intro member_le_sum_list) auto
  with row_max_ge [OF mem] have "c * kScale \<le> sum_list (map row_max (e_costs m)) * kScale"
    by (intro mult_right_mono) (simp_all add: kFixedScale_def)
  also have "\<dots> \<le> kFixedSafe" using m by (simp add: model_ok_def)
  finally show "c * kScale \<le> kFixedSafe" .
qed

lemma threshold_ranges: "model_ok m \<Longrightarrow> 0 \<le> e_threshold m" "model_ok m \<Longrightarrow> e_threshold m < kScale"
  by (simp_all add: model_ok_def)

section \<open>The constructor does not overflow\<close>

lemma checked_contribution_ok:
  assumes "0 \<le> c" "c * kScale \<le> kFixedSafe" "0 \<le> t" "t < kScale"
  shows "checked_contribution t j c = Some (if j < 2 then (kScale - t) * c else - t * c)"
  using cost_ranges [OF assms] by (simp add: checked_contribution_def)

lemma checked_row_ratio_max_ok:
  assumes m: "model_ok m" and r: "r \<in> set (e_costs m)"
  shows "checked_row_ratio_max (e_threshold m) r = Some (row_ratio_max (e_threshold m) r)"
proof -
  have c: "checked_contribution (e_threshold m) j c =
      Some (if j < 2 then (kScale - e_threshold m) * c else - e_threshold m * c)"
    if "j < 3" "r ! j = Some c" for j c
    using checked_contribution_ok entry_ranges [OF m r that] threshold_ranges [OF m] by blast
  show ?thesis
    using c [of 0] c [of 1] c [of 2]
    by (simp add: checked_row_ratio_max_def row_ratio_max_def split: option.splits)
qed

lemma checked_suffix_sums_ok:
  assumes "\<And>r. r \<in> set rs \<Longrightarrow> g r = Some (f r)"
    and "\<And>i. i \<le> length rs \<Longrightarrow> \<bar>suffix_sums f rs ! i\<bar> \<le> kFixedSafe"
  shows "checked_suffix_sums g rs = Some (suffix_sums f rs)"
  using assms
proof (induction rs)
  case (Cons r rs)
  have "\<bar>suffix_sums f rs ! i\<bar> \<le> kFixedSafe" if "i \<le> length rs" for i
    using Cons.prems(2) [of "Suc i"] that by (simp add: Let_def)
  moreover have "\<bar>hd (suffix_sums f rs) + f r\<bar> \<le> kFixedSafe"
    using Cons.prems(2) [of 0] by (simp add: Let_def)
  ultimately show ?case using Cons by (simp add: Let_def)
qed simp

lemma checked_solver_ok:
  assumes m: "model_ok m"
  shows "checked_solver m = Some (make_solver m)"
proof -
  have le: "B \<le> kFixedSafe" if "0 \<le> B" "B * kScale \<le> kFixedSafe" for B
    using cost_ranges(1) [OF that threshold_ranges [OF m]] by simp
  have "\<bar>suffix_sums row_min (e_costs m) ! i\<bar> \<le> kFixedSafe"
    "\<bar>suffix_sums (row_ratio_max (e_threshold m)) (e_costs m) ! i\<bar> \<le> kFixedSafe"
    if "i \<le> length (e_costs m)" for i
    using suffix_ranges [OF m that] le unfolding make_solver_def by fastforce+
  then show ?thesis
    using checked_suffix_sums_ok [of "e_costs m" "\<lambda>r. Some (row_min r)" row_min]
      checked_suffix_sums_ok [of "e_costs m" "checked_row_ratio_max (e_threshold m)"
        "row_ratio_max (e_threshold m)"] checked_row_ratio_max_ok [OF m]
    by (simp add: checked_solver_def make_solver_def)
qed

section \<open>The search does not overflow\<close>

text \<open>Sums of a prefix of the model, as the arguments of \<open>visit\<close> and in the incumbent.\<close>

lemma prefix_cost_ranges:
  assumes m: "model_ok m" and p: "prefix_sums m i p cost c12 c3 linear"
  shows "0 \<le> cost" "\<bar>cost\<bar> \<le> kFixedSafe" "\<bar>c12\<bar> \<le> kFixedSafe" "\<bar>c3\<bar> \<le> kFixedSafe"
    "\<bar>c12 * kScale\<bar> \<le> kFixedSafe" "\<bar>e_threshold m * cost\<bar> \<le> kFixedSafe"
proof -
  note r = prefix_ranges [OF m p]
  have c: "0 \<le> cost" "c12 \<le> cost" using r by linarith+
  note k = cost_ranges [OF c(1) r(4) threshold_ranges [OF m]]
  show "0 \<le> cost" "\<bar>cost\<bar> \<le> kFixedSafe" "\<bar>e_threshold m * cost\<bar> \<le> kFixedSafe" by fact+
  show "\<bar>c12\<bar> \<le> kFixedSafe" "\<bar>c3\<bar> \<le> kFixedSafe" using r k(1) by linarith+
  have "c12 * kScale \<le> cost * kScale" using c by (intro mult_right_mono) (simp_all add: kFixedScale_def)
  moreover have "0 \<le> c12 * kScale" using r by (simp add: kFixedScale_def)
  ultimately show "\<bar>c12 * kScale\<bar> \<le> kFixedSafe" using r(4) by linarith
qed

lemma safe_product: "\<bar>x\<bar> \<le> kFixedSafe \<Longrightarrow> \<bar>y\<bar> \<le> kFixedSafe \<Longrightarrow> \<bar>x * y\<bar> \<le> kFixedSafe * kFixedSafe"
  unfolding abs_mult by (intro mult_mono) (simp_all add: kFixedSafe_value)

lemma checked_better_tie_ok:
  assumes m: "model_ok m" and p: "prefix_sums m i p cost c12 c3 linear"
    and q: "prefix_sums m k q (best_cost st) (best_c12 st) (best_c3 st) best_linear"
  shows "checked_better_tie (make_solver m) st c12 c3 = Some (better_tie (make_solver m) st c12 c3)"
proof -
  note r = prefix_ranges(3) [OF m p] prefix_ranges(3) [OF m q]
  note g = prefix_ranges(9) [OF m p, unfolded r] prefix_ranges(9) [OF m q, unfolded r]
  note l = prefix_ranges(5) [OF m p] prefix_ranges(5) [OF m q]
  note c = prefix_cost_ranges(2,5,6) [OF m p] prefix_cost_ranges(2,5,6) [OF m q]
  have "\<bar>linear * best_cost st\<bar> \<le> kFixedSafe * kFixedSafe" "\<bar>best_linear * cost\<bar> \<le> kFixedSafe * kFixedSafe"
    using safe_product l c by blast+
  then show ?thesis
    using l c by (simp add: checked_better_tie_def better_tie_def Let_def r g i128_ok)
qed

lemma search_ok_prefix:
  assumes "search_ok m st" "best_cost st \<noteq> int64_max"
  shows "prefix_sums m (length (e_costs m)) (best st) (best_cost st) (best_c12 st) (best_c3 st)
    (sum_by (w_linear kScale (e_threshold m)) (e_costs m) (best st))"
  using assms by (auto simp: search_ok_def prefix_sums_def)

lemma checked_leaf_ok:
  assumes m: "model_ok m" and p: "prefix_sums m (length (e_costs m)) p cost c12 c3 linear"
    and st: "search_ok m st"
  shows "checked_leaf (make_solver m) cost c12 c3 linear st = Some
    (if linear < 0 \<or> c3 \<le> 0 \<or> c12 + c3 \<le> 0 then st
     else if cost < best_cost st \<or> (cost = best_cost st \<and> better_tie (make_solver m) st c12 c3)
     then st\<lparr>best_cost := cost, best_c12 := c12, best_c3 := c3, best := current st\<rparr> else st)"
proof -
  have sum: "i64 (c12 + c3) = Some (c12 + c3)"
    using prefix_ranges(3) [OF m p] prefix_cost_ranges(2) [OF m p] by simp
  have "cost \<noteq> int64_max"
    using prefix_cost_ranges(2) [OF m p] by (auto simp: kFixedSafe_value int64_max_def)
  then have "cost = best_cost st \<Longrightarrow>
      checked_better_tie (make_solver m) st c12 c3 = Some (better_tie (make_solver m) st c12 c3)"
    using checked_better_tie_ok [OF m p search_ok_prefix [OF st]] by simp
  then show ?thesis by (auto simp: checked_leaf_def sum)
qed

lemma checked_prune_ok:
  assumes m: "model_ok m" and p: "prefix_sums m i p cost c12 c3 linear"
  shows "checked_prune (make_solver m) i cost linear st = Some
    (best_cost st \<noteq> int64_max \<and> cost + min_suffix (make_solver m) ! i > best_cost st \<or>
     linear + ratio_max_suffix (make_solver m) ! i < 0)"
proof -
  note r = prefix_ranges(5-8) [OF m p]
  have "i64 (cost + min_suffix (make_solver m) ! i) = Some (cost + min_suffix (make_solver m) ! i)"
    using r(2,3) by simp
  moreover have "\<bar>linear + ratio_max_suffix (make_solver m) ! i\<bar> \<le> kFixedSafe * kFixedSafe"
    using r(1,4) by (simp add: kFixedSafe_value)
  ultimately show ?thesis by (simp add: checked_prune_def i128_ok)
qed

text \<open>One method of a row.\<close>

definition checked_method ::
  "solver \<Rightarrow> nat \<Rightarrow> int \<Rightarrow> int \<Rightarrow> int \<Rightarrow> int \<Rightarrow> nat \<Rightarrow> search \<Rightarrow> search option" where
  "checked_method sv i cost c12 c3 linear j st = (case e_costs (model sv) ! i ! j of
       None \<Rightarrow> Some st
     | Some c \<Rightarrow>
         let st' = st\<lparr>current := (current st)[i := j + 1]\<rparr>; t = e_threshold (model sv) in
         Option.bind (i64 (cost + c)) (\<lambda>cost'.
         if j < 2
         then Option.bind (i64 (c12 + c)) (\<lambda>c12'.
           Option.bind (i64 (kScale - t)) (\<lambda>d. Option.bind (i64 (d * c)) (\<lambda>x.
           Option.bind (i64 (linear + x)) (\<lambda>linear'.
           checked_visit sv (i + 1) cost' c12' c3 linear' st'))))
         else Option.bind (i64 (c3 + c)) (\<lambda>c3'.
           Option.bind (i64 (t * c)) (\<lambda>x. Option.bind (i64 (linear - x)) (\<lambda>linear'.
           checked_visit sv (i + 1) cost' c12 c3' linear' st')))))"

lemma checked_visit_unfold:
  "checked_visit sv i cost c12 c3 linear st0 =
     (let st = st0\<lparr>visited_nodes := visited_nodes st0 + 1\<rparr> in
      Option.bind (checked_prune sv i cost linear st) (\<lambda>pruned.
      if pruned then Some st
      else if i \<ge> length (e_costs (model sv)) then checked_leaf sv cost c12 c3 linear st
      else fold (\<lambda>j acc. Option.bind acc (checked_method sv i cost c12 c3 linear j)) [0, 1, 2] (Some st)))"
proof -
  have "(case e of None \<Rightarrow> acc | Some c \<Rightarrow> Option.bind acc (g c)) =
      Option.bind acc (\<lambda>st. case e of None \<Rightarrow> Some st | Some c \<Rightarrow> g c st)"
    for e :: "int option" and acc :: "search option" and g
    by (cases e) simp_all
  then show ?thesis
    unfolding checked_method_def [abs_def] Let_def
    by (subst checked_visit.simps) (simp only: Let_def)
qed

text \<open>The sums that a method adds fit, because those of the longer prefix do.\<close>

lemma checked_method_ok:
  assumes m: "model_ok m" and p: "prefix_sums m i p cost c12 c3 linear" and st: "at_prefix m i p st"
    and i: "i < length (e_costs m)" and j: "j < 3"
    and IH: "\<And>p cost c12 c3 linear st. prefix_sums m (Suc i) p cost c12 c3 linear \<Longrightarrow>
      at_prefix m (Suc i) p st \<Longrightarrow>
      checked_visit (make_solver m) (Suc i) cost c12 c3 linear st =
        Some (visit (make_solver m) (Suc i) cost c12 c3 linear st)"
  shows "checked_method (make_solver m) i cost c12 c3 linear j st =
    Some (visit_method (make_solver m) i cost c12 c3 linear j st)"
proof (cases "e_costs m ! i ! j")
  case (Some c)
  let ?t = "e_threshold m"
  note q = prefix_sums_step [OF p i j Some]
  note k = cost_ranges [OF entry_ranges [OF m nth_mem [OF i] j Some] threshold_ranges [OF m]]
  have at: "at_prefix m (Suc i) (p @ [Suc j]) (st\<lparr>current := (current st)[i := Suc j]\<rparr>)"
    using st i by (auto simp: at_prefix_def search_ok_def take_Suc_conv_app_nth)
  note child = IH [OF q at]
  note r = prefix_cost_ranges(2-4) [OF m q] prefix_ranges(5) [OF m q]
  show ?thesis
    using k r child
    by (cases "j < 2") (simp_all add: checked_method_def visit_method_def Some Let_def)
qed (simp add: checked_method_def visit_method_def)

lemma checked_visit_ok:
  assumes m: "model_ok m"
  shows "prefix_sums m i p cost c12 c3 linear \<Longrightarrow> at_prefix m i p st \<Longrightarrow>
    checked_visit (make_solver m) i cost c12 c3 linear st =
      Some (visit (make_solver m) i cost c12 c3 linear st)"
proof (induction "length (e_costs m) - i" arbitrary: i p cost c12 c3 linear st)
  case 0
  have i: "i = length (e_costs m)" using 0 by (simp add: prefix_sums_def)
  have "search_ok m (st\<lparr>visited_nodes := visited_nodes st + 1\<rparr>)"
    using 0(3) by (simp add: at_prefix_def search_ok_def)
  from checked_leaf_ok [OF m 0(2) [unfolded i] this] show ?case
    unfolding checked_visit_unfold visit_unfold Let_def checked_prune_ok [OF m 0(2)]
    by (simp add: i)
next
  case (Suc k)
  let ?s = "st\<lparr>visited_nodes := visited_nodes st + 1\<rparr>"
  let ?vm = "visit_method (make_solver m) i cost c12 c3 linear"
  let ?cm = "checked_method (make_solver m) i cost c12 c3 linear"
  have i: "i < length (e_costs m)" using Suc(2) by simp
  have s: "at_prefix m i p ?s" using Suc.prems(2) by (simp add: at_prefix_def search_ok_def)
  have vm: "at_prefix m i p (?vm j st')" if "at_prefix m i p st'" "j < 3" for j st'
    using visit_method_correct [OF visit_correct [OF m] Suc.prems(1) that(1) i that(2)] by blast
  have cm: "?cm j st' = Some (?vm j st')" if "at_prefix m i p st'" "j < 3" for j st'
    by (rule checked_method_ok [OF m Suc.prems(1) that(1) i that(2)], rule Suc.hyps(1))
      (use Suc.hyps(2) in simp_all)
  have "fold (\<lambda>j acc. Option.bind acc (?cm j)) [0, 1, 2] (Some ?s) = Some (fold ?vm [0, 1, 2] ?s)"
    using cm [OF s, of 0] cm [OF vm [OF s, of 0], of 1] cm [OF vm [OF vm [OF s, of 0], of 1], of 2]
    by simp
  then show ?case
    unfolding checked_visit_unfold visit_unfold Let_def checked_prune_ok [OF m Suc.prems(1)]
    using i by simp
qed

lemma checked_solve_ok:
  assumes m: "model_ok m"
  shows "checked_solve m = Some (solve m)"
proof -
  let ?s = "visit (make_solver m) 0 0 0 0 0 (initial_search m)"
  note v = checked_visit_ok [OF m prefix_sums_root at_prefix_root]
  have "i64 (best_c12 ?s + best_c3 ?s) = Some (best_c12 ?s + best_c3 ?s)" if "best ?s \<noteq> []"
  proof -
    have ok: "search_ok m ?s" by (rule solve_search(1) [OF m])
    moreover have "best_cost ?s \<noteq> int64_max" using ok that by (auto simp: search_ok_def)
    ultimately have q: "prefix_sums m (length (e_costs m)) (best ?s) (best_cost ?s) (best_c12 ?s) (best_c3 ?s)
        (sum_by (w_linear kScale (e_threshold m)) (e_costs m) (best ?s))"
      by (rule search_ok_prefix)
    show ?thesis using prefix_ranges(3) [OF m q] prefix_cost_ranges(2) [OF m q] by simp
  qed
  then show ?thesis
    unfolding checked_solve_def solve_def Let_def checked_solver_ok [OF m] by (simp add: v)
qed

text \<open>C30: On every matrix with three entries per row and every threshold the plaintext solver computes
  within the widths of the C++: with every sum, difference and product of the constructor, the
  search, the tie-break and the result checked at 64 or 128 bits as declared, no check fails and the
  outcome is that of the solver over unbounded integers, refusals by the encoder included.\<close>

theorem optimize_plain_no_overflow:
  assumes "\<forall>es\<in>set matrix. length es = 3"
  shows "checked_optimize_plain matrix threshold = Some (optimize_plain matrix threshold)"
proof (cases "encode matrix threshold")
  case (Inr m)
  then show ?thesis
    using checked_solve_ok [OF encode_model_ok(1) [OF Inr assms]]
    by (simp add: checked_optimize_plain_def optimize_plain_def)
qed (simp add: checked_optimize_plain_def optimize_plain_def)

text \<open>A matrix just below the limit of the aggregate check, with a tie between methods 1 and 2.\<close>

definition large_matrix :: "string option list list" where
  "large_matrix = [[Some ''400000'', Some ''400000'', Some ''399999.999999''],
     [None, Some ''176460.752303'', Some ''1'']]"

lemma large_optimum:
  "optimize_plain large_matrix ''0.99'' = Inr \<lparr>r_total_cost = 400001000000, r_c12 = 400000000000,
     r_c3 = 1000000, r_solution = [1, 3]\<rparr>"
  by code_simp

theorem optimize_plain_no_overflow_witness:
  "checked_optimize_plain large_matrix ''0.99'' = Some (Inr \<lparr>r_total_cost = 400001000000,
     r_c12 = 400000000000, r_c3 = 1000000, r_solution = [1, 3]\<rparr>)"
  using optimize_plain_no_overflow [of large_matrix "''0.99''"]
  by (simp add: large_optimum) (simp add: large_matrix_def)

end
