(* ===== verification/Wire.thy ===== *)
theory Wire
  imports Randomness
begin

text \<open>
  The byte formats: the framed wire protocol of the threshold client and server
  (src/protocol/threshold_wire.cpp) and the ciphertext object format
  (src/ciphertext_codec.hpp, src/serialization.cpp). Fixed-width fields are machine words;
  magnitudes are GMP integers exported as big-endian bytes without leading zeros. The socket is a
  byte stream: each \<open>sendmsg\<close> or \<open>recv\<close> moves some positive number of bytes, given by an
  arbitrary sequence, and zero for a closed connection.
\<close>

type_synonym bytes = "8 word list"

unbundle bit_operations_syntax

section \<open>Fixed-width integers\<close>

definition readU32 :: "bytes \<Rightarrow> 32 word" where
  "readU32 p = (push_bit 24 (ucast (p ! 0))) OR (push_bit 16 (ucast (p ! 1))) OR
     (push_bit 8 (ucast (p ! 2))) OR ucast (p ! 3)"

text \<open>The four bytes that \<open>writeU32\<close> stores.\<close>

definition writeU32 :: "32 word \<Rightarrow> bytes" where
  "writeU32 value = [ucast (drop_bit 24 value), ucast (drop_bit 16 value),
     ucast (drop_bit 8 value), ucast value]"

definition readU64 :: "bytes \<Rightarrow> 64 word" where
  "readU64 p = (push_bit 32 (ucast (readU32 p))) OR ucast (readU32 (drop 4 p))"

definition appendU64 :: "bytes \<Rightarrow> 64 word \<Rightarrow> bytes" where
  "appendU64 output value = output @ writeU32 (ucast (drop_bit 32 value)) @ writeU32 (ucast value)"

section \<open>Magnitudes\<close>

text \<open>\<open>mpz_export\<close> and \<open>mpz_import\<close> with one-byte words, most significant first.\<close>

primrec be_bytes :: "nat \<Rightarrow> nat \<Rightarrow> bytes" where
  "be_bytes 0 x = []"
| "be_bytes (Suc k) x = of_nat (x div 256 ^ k) # be_bytes k x"

definition be_val :: "bytes \<Rightarrow> nat" where
  "be_val bs = foldl (\<lambda>a b. a * 256 + unat b) 0 bs"

text \<open>The byte count that the code computes, and the one that \<open>mpz_export\<close> writes (0 for 0).\<close>

definition mag_size :: "int \<Rightarrow> nat" where
  "mag_size x = (sizeinbase2 x + 7) div 8"

definition export_size :: "int \<Rightarrow> nat" where
  "export_size x = (if x = 0 then 0 else mag_size x)"

definition mag :: "int \<Rightarrow> bytes" where
  "mag x = be_bytes (export_size x) (nat \<bar>x\<bar>)"

section \<open>Integers on the wire\<close>

text \<open>
  \<open>appendInteger\<close>: the buffer is grown by the computed size first, so that 0 is one zero byte.
\<close>

definition appendInteger :: "bytes \<Rightarrow> int \<Rightarrow> exn + bytes" where
  "appendInteger output value =
     (let size = mag_size value in
      if size = 0 \<or> size > 2 ^ 32 - 1 \<or> length output > 2 ^ 64 - 1 - 4 - size
      then Inl (StdRuntimeError ''integer too large'')
      else Inr (output @ writeU32 (of_nat size) @ mag value @ replicate (size - length (mag value)) 0))"

definition takeInteger :: "bytes \<Rightarrow> nat \<Rightarrow> exn + int \<times> nat" where
  "takeInteger input offset =
     (if offset + 4 > length input then Inl (StdRuntimeError ''short integer'')
      else let size = unat (readU32 (drop offset input)); offset = offset + 4 in
        if size = 0 \<or> size > length input - offset then Inl (StdRuntimeError ''bad integer'')
        else Inr (int (be_val (take size (drop offset input))), offset + size))"

section \<open>Ciphertext objects\<close>

definition soci_magic :: bytes where
  "soci_magic = [0x53, 0x4F, 0x43, 0x49]"

definition encodeCanonicalCiphertext :: "8 word \<Rightarrow> int \<Rightarrow> exn + bytes" where
  "encodeCanonicalCiphertext mode value =
     (let size = mag_size value in
      if length (mag value) \<noteq> size then Inl (StdRuntimeError ''ciphertext export failed'')
      else Inr (soci_magic @ [1, 1, mode, 0] @ writeU32 (of_nat size) @ mag value))"

definition decodeCanonicalCiphertext :: "bytes \<Rightarrow> 8 word \<Rightarrow> exn + int" where
  "decodeCanonicalCiphertext data mode =
     (if length data < 12 \<or> take 4 data \<noteq> soci_magic \<or> data ! 4 \<noteq> 1 \<or> data ! 5 \<noteq> 1 \<or>
         data ! 6 \<noteq> mode \<or> data ! 7 \<noteq> 0
      then Inl (StdInvalidArgument ''invalid ciphertext header/type/mode'')
      else let magnitude_size = unat (readU32 (drop 8 data)) in
        if magnitude_size \<noteq> length data - 12 then Inl (StdInvalidArgument ''invalid ciphertext length'')
        else if magnitude_size = 0 \<or> data ! 12 = 0
        then Inl (StdInvalidArgument ''non-canonical ciphertext magnitude'')
        else Inr (int (be_val (drop 12 data))))"

definition kMaxObject :: nat where
  "kMaxObject = 1024 * 1024"

text \<open>Type 1 is a ciphertext; other types (the public key is 2) have no canonicity check.\<close>

definition encode_object :: "8 word \<Rightarrow> 8 word \<Rightarrow> int \<Rightarrow> exn + bytes" where
  "encode_object ty mode z =
     (if ty = 1 then encodeCanonicalCiphertext mode z
      else let m = mag z @ replicate (mag_size z - length (mag z)) 0 in
        Inr (soci_magic @ [1, ty, mode, 0] @ writeU32 (of_nat (length m)) @ m))"

definition decode_object :: "bytes \<Rightarrow> 8 word \<Rightarrow> 8 word \<Rightarrow> exn + int" where
  "decode_object p ty mode =
     (if length p > kMaxObject then Inl (StdInvalidArgument ''object too large'')
      else if ty = 1 then decodeCanonicalCiphertext p mode
      else if length p < 12 \<or> take 4 p \<noteq> soci_magic \<or> p ! 4 \<noteq> 1 \<or> p ! 5 \<noteq> ty \<or> p ! 6 \<noteq> mode
      then Inl (StdInvalidArgument ''invalid object header/type/mode'')
      else if unat (readU32 (drop 8 p)) \<noteq> length p - 12
      then Inl (StdInvalidArgument ''invalid object length'')
      else Inr (int (be_val (drop 12 p))))"

section \<open>Frames\<close>

text \<open>
  \<open>sendFrame\<close>: the vectors still to be sent, and the bytes the socket took so far. The k-th
  \<open>sendmsg\<close> takes \<open>counts k\<close> bytes, but never more than it is offered; 0 stands for a failure.
\<close>

fun advance :: "nat \<Rightarrow> bytes list \<Rightarrow> bytes list" where
  "advance remaining [] = []"
| "advance remaining (v # vs) =
     (if remaining \<ge> length v then advance (remaining - length v) vs else drop remaining v # vs)"

partial_function (option) send_loop ::
  "(nat \<Rightarrow> nat) \<Rightarrow> nat \<Rightarrow> bytes list \<Rightarrow> bytes \<Rightarrow> (exn + bytes) option" where
  "send_loop counts k vs stream =
     (if vs = [] then Some (Inr stream)
      else let sent = min (counts k) (length (concat vs)) in
        if sent = 0 then Some (Inl (StdRuntimeError ''socket closed''))
        else send_loop counts (Suc k) (advance sent vs) (stream @ take sent (concat vs)))"

definition sendFrame :: "(nat \<Rightarrow> nat) \<Rightarrow> bytes \<Rightarrow> bytes \<Rightarrow> (exn + bytes) option" where
  "sendFrame counts payload stream =
     (if length payload > 2 ^ 32 - 1 then Some (Inl (StdRuntimeError ''frame too large''))
      else send_loop counts 0 [writeU32 (of_nat (length payload)), payload] stream)"

text \<open>\<open>transferExact\<close> for reading: it returns the bytes read and the rest of the stream.\<close>

partial_function (option) receive_exact ::
  "(nat \<Rightarrow> nat) \<Rightarrow> nat \<Rightarrow> nat \<Rightarrow> bytes \<Rightarrow> bytes \<Rightarrow> (exn + bytes \<times> nat \<times> bytes) option" where
  "receive_exact counts k left got stream =
     (if left = 0 then Some (Inr (got, k, stream))
      else let count = min (counts k) (min left (length stream)) in
        if count = 0 then Some (Inl (StdRuntimeError ''socket closed''))
        else receive_exact counts (Suc k) (left - count) (got @ take count stream) (drop count stream))"

definition max_frame :: nat where
  "max_frame = 4 * 1024 * 1024"

definition receiveFrame :: "(nat \<Rightarrow> nat) \<Rightarrow> bytes \<Rightarrow> (exn + bytes \<times> bytes) option" where
  "receiveFrame counts stream =
     (case receive_exact counts 0 4 [] stream of
        None \<Rightarrow> None
      | Some (Inl e) \<Rightarrow> Some (Inl e)
      | Some (Inr (header, k, stream')) \<Rightarrow>
          let size = unat (readU32 header) in
          if size > max_frame then Some (Inl (StdRuntimeError ''frame too large''))
          else (case receive_exact counts k size [] stream' of
                  None \<Rightarrow> None
                | Some (Inl e) \<Rightarrow> Some (Inl e)
                | Some (Inr (payload, _, rest)) \<Rightarrow> Some (Inr (payload, rest))))"

text \<open>The reply of a request: a status byte, zero for success, and the payload.\<close>

definition reply_payload :: "bytes \<Rightarrow> exn + bytes" where
  "reply_payload reply =
     (if reply = [] \<or> hd reply \<noteq> 0 then Inl (StdRuntimeError ''CSP request failed'')
      else Inr (tl reply))"

section \<open>Round trips of the fixed-width integers\<close>

lemma length_writeU32 [simp]: "length (writeU32 x) = 4"
  by (simp add: writeU32_def)

lemma readU32_writeU32: "readU32 (writeU32 x @ rest) = x"
proof (rule bit_word_eqI)
  fix n :: nat assume n: "n < LENGTH(32)"
  consider "n < 8" | "8 \<le> n" "n < 16" | "16 \<le> n" "n < 24" | "24 \<le> n" by linarith
  then show "bit (readU32 (writeU32 x @ rest)) n = bit x n"
    unfolding readU32_def writeU32_def using n by cases (auto simp: bit_simps)
qed

lemma readU32_writeU32' [simp]: "readU32 (writeU32 x) = x"
  using readU32_writeU32 [of x "[]"] by simp

lemma readU64_append: "readU64 (drop (length output) (appendU64 output x)) = x"
proof -
  have "readU64 (writeU32 (ucast (drop_bit 32 x)) @ writeU32 (ucast x)) = x"
    unfolding readU64_def readU32_writeU32
    by (simp del: append.simps) (rule bit_word_eqI, auto simp: bit_simps)
  then show ?thesis by (simp add: appendU64_def)
qed

section \<open>Magnitudes as bytes\<close>

lemma length_be_bytes [simp]: "length (be_bytes k x) = k"
  by (induction k) simp_all

lemma be_val_snoc: "be_val (bs @ [b]) = be_val bs * 256 + unat b"
  by (simp add: be_val_def)

lemma be_val_append: "be_val (bs @ cs) = be_val bs * 256 ^ length cs + be_val cs"
proof (induction cs rule: rev_induct)
  case Nil
  show ?case by (simp add: be_val_def)
next
  case (snoc c cs)
  have "be_val (bs @ cs @ [c]) = be_val ((bs @ cs) @ [c])" by simp
  then show ?case using snoc by (simp only: be_val_snoc) (simp add: algebra_simps be_val_snoc)
qed

lemma be_val_Cons: "be_val (b # bs) = unat b * 256 ^ length bs + be_val bs"
  using be_val_append [of "[b]" bs] by (simp add: be_val_def)

lemma be_val_less: "be_val bs < 256 ^ length bs"
proof (induction bs)
  case Nil
  show ?case by (simp add: be_val_def)
next
  case (Cons b bs)
  have "unat b < 2 ^ LENGTH(8)" by (rule unsigned_less)
  then have "unat b + 1 \<le> 256" by simp
  then have "(unat b + 1) * 256 ^ length bs \<le> 256 * 256 ^ length bs" by (rule mult_right_mono) simp
  moreover have "(unat b + 1) * 256 ^ length bs = unat b * 256 ^ length bs + 256 ^ length bs" by simp
  moreover have "256 ^ length (b # bs) = 256 * (256::nat) ^ length bs" by simp
  ultimately show ?case using Cons unfolding be_val_Cons by linarith
qed

lemma be_val_bytes: "x < 256 ^ k \<Longrightarrow> be_val (be_bytes k x) = x"
proof -
  have g: "be_val (be_bytes k x) = x mod 256 ^ k" for x
  proof (induction k)
    case 0
    show ?case by (simp add: be_val_def)
  next
    case (Suc k)
    have "be_val (be_bytes (Suc k) x) = (x div 256 ^ k) mod 256 * 256 ^ k + x mod 256 ^ k"
      by (simp add: be_val_Cons Suc unat_of_nat)
    also have "\<dots> = x mod 256 ^ Suc k"
      using mod_mult2_eq [of x "256 ^ k" 256] by (simp add: mult.commute)
    finally show ?case .
  qed
  assume "x < 256 ^ k"
  then show ?thesis by (simp add: g)
qed

lemma be_bytes_val: "be_bytes (length bs) (be_val bs) = bs"
proof (induction bs)
  case (Cons b bs)
  have lt: "be_val bs < 256 ^ length bs" by (rule be_val_less)
  have tail: "be_bytes k (u * 256 ^ length bs + x) = be_bytes k x" if "k \<le> length bs" for k u x
    using that
  proof (induction k)
    case (Suc k)
    have e: "256 ^ length bs = 256 ^ (length bs - Suc k) * (256 * 256 ^ k :: nat)"
      using Suc.prems by (metis le_add_diff_inverse2 power_Suc power_add)
    have "(u * 256 ^ length bs + x) div 256 ^ k = u * 256 ^ (length bs - Suc k) * 256 + x div 256 ^ k"
      unfolding e by (simp add: mult.assoc [symmetric])
    then have "((u * 256 ^ length bs + x) div 256 ^ k) mod 2 ^ LENGTH(8) = (x div 256 ^ k) mod 2 ^ LENGTH(8)"
      by simp
    then have "(of_nat ((u * 256 ^ length bs + x) div 256 ^ k) :: 8 word) = of_nat (x div 256 ^ k)"
      unfolding word_of_nat_eq_iff take_bit_eq_mod .
    with Suc show ?case by simp
  qed simp
  have "(unat b * 256 ^ length bs + be_val bs) div 256 ^ length bs = unat b" using lt by simp
  then show ?case using Cons tail [of "length bs"] by (simp add: be_val_Cons)
qed simp

lemma sizeinbase2_le_mag: "sizeinbase2 x \<le> 8 * mag_size x"
  unfolding mag_size_def by linarith

lemma mag_size_pos: "0 < mag_size x"
  using sizeinbase2_pos [of x] by (simp add: mag_size_def)

lemma power_256: "(256::nat) ^ k = 2 ^ (8 * k)"
  by (simp add: power_mult)

text \<open>The magnitude fits, and its first byte is not zero.\<close>

lemma mag_fits: "nat \<bar>x\<bar> < 256 ^ export_size x"
proof (cases "x = 0")
  case False
  have "\<bar>x\<bar> < 2 ^ (8 * mag_size x)"
    using sizeinbase2_bound [of x] sizeinbase2_le_mag [of x]
    by (meson order_less_le_trans power_increasing one_le_numeral)
  then have "nat \<bar>x\<bar> < 2 ^ (8 * mag_size x)" by (simp add: nat_less_iff)
  with False show ?thesis by (simp add: export_size_def power_256)
qed (simp add: export_size_def)

lemma mag_least: "x \<noteq> 0 \<Longrightarrow> 256 ^ (export_size x - 1) \<le> nat \<bar>x\<bar>"
proof -
  assume x: "x \<noteq> 0"
  have "8 * (mag_size x - 1) \<le> sizeinbase2 x - 1"
    using sizeinbase2_pos [of x] unfolding mag_size_def by linarith
  then have "2 ^ (8 * (mag_size x - 1)) \<le> (2::int) ^ (sizeinbase2 x - 1)"
    by (intro power_increasing) simp_all
  also have "\<dots> \<le> \<bar>x\<bar>" using x by (rule sizeinbase2_least)
  finally have "2 ^ (8 * (mag_size x - 1)) \<le> nat \<bar>x\<bar>" by (simp add: le_nat_iff)
  with x show ?thesis by (simp add: export_size_def power_256)
qed

lemma be_val_mag: "be_val (mag x) = nat \<bar>x\<bar>"
  unfolding mag_def by (rule be_val_bytes [OF mag_fits])

lemma mag_hd: "x \<noteq> 0 \<Longrightarrow> mag x \<noteq> [] \<and> hd (mag x) \<noteq> 0"
proof -
  assume x: "x \<noteq> 0"
  then obtain k where k: "export_size x = Suc k"
    using mag_size_pos [of x] by (cases "mag_size x") (simp_all add: export_size_def)
  have "256 ^ k \<le> nat \<bar>x\<bar>" "nat \<bar>x\<bar> < 256 * 256 ^ k"
    using mag_least [OF x] mag_fits [of x] k by simp_all
  then have "0 < nat \<bar>x\<bar> div 256 ^ k" "nat \<bar>x\<bar> div 256 ^ k < 256"
    by (simp_all add: div_greater_zero_iff less_mult_imp_div_less)
  then have "(of_nat (nat \<bar>x\<bar> div 256 ^ k) :: 8 word) \<noteq> 0"
    by (simp add: word_of_nat_eq_0_iff) (metis dvd_imp_le not_le)
  then show ?thesis by (simp add: mag_def k)
qed

text \<open>A magnitude is the only byte string without a leading zero of its value.\<close>

lemma mag_unique:
  assumes "bs \<noteq> []" "hd bs \<noteq> 0"
  shows "mag (int (be_val bs)) = bs"
proof -
  let ?x = "int (be_val bs)"
  obtain b cs where b: "bs = b # cs" "b \<noteq> 0" using assms by (cases bs) auto
  have "0 < unat b" using b(2) by (metis gr0I unsigned_0 unsigned_word_eqI unat_eq_zero)
  then have lo: "256 ^ length cs \<le> be_val bs" by (simp add: b be_val_Cons trans_le_add1)
  then have x: "?x \<noteq> 0" by (metis not_le of_nat_0_eq_iff zero_less_numeral zero_less_power)
  have hi: "be_val bs < 256 ^ length bs" by (rule be_val_less)
  have "export_size ?x = length bs"
  proof -
    have "256 ^ (export_size ?x - 1) \<le> be_val bs"
      using mag_least [OF x] by (simp only: abs_of_nat nat_int)
    then have "256 ^ (export_size ?x - 1) < (256::nat) ^ length bs" using hi by (rule le_less_trans)
    then have "export_size ?x - 1 < length bs" by (rule power_less_imp_less_exp [rotated]) simp
    moreover have "be_val bs < 256 ^ export_size ?x"
      using mag_fits [of ?x] by (simp only: abs_of_nat nat_int)
    with lo have "(256::nat) ^ length cs < 256 ^ export_size ?x" by (rule le_less_trans)
    then have "length cs < export_size ?x" by (rule power_less_imp_less_exp [rotated]) simp
    ultimately show ?thesis by (simp add: b)
  qed
  then show ?thesis by (simp add: mag_def be_bytes_val)
qed

lemma export_size_eq: "x \<noteq> 0 \<Longrightarrow> length (mag x) = mag_size x"
  by (simp add: mag_def export_size_def)

section \<open>Round trips of the integers\<close>

lemma unat_of_nat_32: "n < 2 ^ 32 \<Longrightarrow> unat (of_nat n :: 32 word) = n"
  by (simp add: unat_of_nat)

text \<open>A magnitude grown to the computed size, so that 0 is one zero byte.\<close>

lemma padded_mag:
  assumes "0 \<le> v"
  shows "be_val (mag v @ replicate (mag_size v - length (mag v)) 0) = nat v"
proof (cases "v = 0")
  case True
  have "mag_size 0 = 1" by (simp add: mag_size_def sizeinbase2_def)
  with True show ?thesis by (simp add: mag_def export_size_def be_val_def)
next
  case False
  with assms show ?thesis by (simp add: export_size_eq be_val_mag)
qed

lemma takeInteger_append:
  assumes "0 \<le> v" "appendInteger output v = Inr out"
  shows "takeInteger (out @ rest) (length output) = Inr (v, length out)"
proof -
  let ?size = "mag_size v"
  let ?m = "mag v @ replicate (?size - length (mag v)) 0"
  have out: "out = output @ writeU32 (of_nat ?size) @ ?m" and size: "?size \<le> 2 ^ 32 - 1"
    using assms(2) by (auto simp: appendInteger_def Let_def split: if_splits)
  have len: "length ?m = ?size" using mag_size_pos [of v] by (simp add: mag_def export_size_def)
  have val: "be_val ?m = nat v" by (rule padded_mag [OF assms(1)])
  have sz: "unat (of_nat ?size :: 32 word) = ?size" using size by (intro unat_of_nat_32) simp
  have dr: "drop (length output) (out @ rest) = writeU32 (of_nat ?size) @ ?m @ rest"
    by (simp add: out)
  have dr4: "drop (length output + 4) (out @ rest) = ?m @ rest"
    by (simp add: out)
  have "length (out @ rest) = length output + 4 + ?size + length rest"
    using len by (simp add: out)
  then have short: "\<not> length output + 4 > length (out @ rest)"
    "\<not> (?size = 0 \<or> ?size > length (out @ rest) - (length output + 4))"
    using mag_size_pos [of v] by simp_all
  have "take ?size (?m @ rest) = ?m" using len by simp
  moreover have "length out = length output + 4 + ?size" using len by (simp add: out)
  ultimately show ?thesis
    unfolding takeInteger_def Let_def if_not_P [OF short(1)] dr dr4 readU32_writeU32 sz if_not_P [OF short(2)]
    using val assms(1) by simp
qed

section \<open>Ciphertext objects\<close>

lemma encode_canonical_ok:
  assumes "0 < v"
  shows "encodeCanonicalCiphertext mode v =
    Inr (soci_magic @ [1, 1, mode, 0] @ writeU32 (of_nat (mag_size v)) @ mag v)"
  using assms(1) by (simp add: encodeCanonicalCiphertext_def export_size_eq)

lemma mag_size_bound:
  assumes "0 < v" "v < 2 ^ (8 * k)"
  shows "mag_size v \<le> k"
proof -
  have "256 ^ (mag_size v - 1) \<le> nat \<bar>v\<bar>" using mag_least [of v] assms(1) by (simp add: export_size_def)
  also have "nat \<bar>v\<bar> < 256 ^ k" using assms by (simp add: power_256 nat_less_iff)
  finally have "mag_size v - 1 < k" by (rule power_less_imp_less_exp [rotated]) simp
  then show ?thesis by simp
qed

lemma mag_size_mono: "0 \<le> x \<Longrightarrow> x < y \<Longrightarrow> mag_size x \<le> mag_size y"
proof (cases "x = 0")
  case True
  then show ?thesis using mag_size_pos [of y] by (simp add: mag_size_def [of 0] sizeinbase2_def)
next
  case False
  assume "0 \<le> x" "x < y"
  then have "nat y < 256 ^ mag_size y" using mag_fits [of y] by (simp add: export_size_def)
  then have "y < 2 ^ (8 * mag_size y)" using \<open>x < y\<close> \<open>0 \<le> x\<close> by (simp add: power_256 nat_less_iff)
  with False \<open>0 \<le> x\<close> \<open>x < y\<close> show ?thesis by (intro mag_size_bound) simp_all
qed

lemma decode_encode_canonical:
  assumes "0 < v" "mag_size v < 2 ^ 32" "encodeCanonicalCiphertext mode v = Inr bs"
  shows "decodeCanonicalCiphertext bs mode = Inr v"
proof -
  have bs: "bs = soci_magic @ [1, 1, mode, 0] @ writeU32 (of_nat (mag_size v)) @ mag v"
    using assms(1,3) by (simp add: encodeCanonicalCiphertext_def export_size_eq)
  have len: "length (mag v) = mag_size v" using assms(1) by (simp add: export_size_eq)
  have d8: "drop 8 bs = writeU32 (of_nat (mag_size v)) @ mag v" by (simp add: bs soci_magic_def)
  have d12: "drop 12 bs = mag v" by (simp add: bs soci_magic_def)
  have nz: "mag v \<noteq> []" "hd (mag v) \<noteq> 0" using mag_hd [of v] assms(1) by simp_all
  have "bs ! 12 = hd (drop 12 bs)" using nz by (intro hd_drop_conv_nth [symmetric]) (simp add: bs soci_magic_def)
  then have b12: "bs ! 12 \<noteq> 0" using nz d12 by simp
  have "length bs = 12 + mag_size v" using len by (simp add: bs soci_magic_def)
  moreover have "take 4 bs = soci_magic" "bs ! 4 = 1" "bs ! 5 = 1" "bs ! 6 = mode" "bs ! 7 = 0"
    by (simp_all add: bs soci_magic_def)
  moreover have "unat (readU32 (drop 8 bs)) = mag_size v"
    using assms(2) by (simp only: d8 readU32_writeU32 unat_of_nat_32)
  ultimately show ?thesis
    using b12 mag_size_pos [of v] assms(1)
    by (simp add: decodeCanonicalCiphertext_def d12 be_val_mag)
qed

lemma list_eq_nths:
  "length bs = 12 \<Longrightarrow> bs = [bs ! 0, bs ! 1, bs ! 2, bs ! 3, bs ! 4, bs ! 5, bs ! 6, bs ! 7,
     bs ! 8, bs ! 9, bs ! 10, bs ! 11]"
  by (rule nth_equalityI) (auto simp: nth_Cons' less_Suc_eq numeral_eq_Suc)

lemma writeU32_readU32:
  "length p = 4 \<Longrightarrow> writeU32 (readU32 p) = p"
proof -
  assume "length p = 4"
  then obtain a b c d where p: "p = [a, b, c, d]"
    by (auto simp: numeral_eq_Suc length_Suc_conv)
  have "ucast (drop_bit 24 (readU32 p)) = a" "ucast (drop_bit 16 (readU32 p)) = b"
    "ucast (drop_bit 8 (readU32 p)) = c" "ucast (readU32 p) = d"
    unfolding readU32_def p
    by (rule bit_word_eqI, auto simp: bit_simps dest: bit_imp_le_length)+
  then show ?thesis by (simp add: writeU32_def p)
qed

lemma encode_decode_canonical:
  assumes "decodeCanonicalCiphertext bs mode = Inr v"
  shows "0 < v" and "encodeCanonicalCiphertext mode v = Inr bs"
proof -
  have d: "12 \<le> length bs" "take 4 bs = soci_magic" "bs ! 4 = 1" "bs ! 5 = 1" "bs ! 6 = mode" "bs ! 7 = 0"
    "unat (readU32 (drop 8 bs)) = length bs - 12" "length bs - 12 \<noteq> 0" "bs ! 12 \<noteq> 0"
    "v = int (be_val (drop 12 bs))"
    using assms by (auto simp: decodeCanonicalCiphertext_def Let_def not_less split: if_splits)
  have ne: "drop 12 bs \<noteq> []" and hd: "hd (drop 12 bs) \<noteq> 0"
    using d(1,8,9) by (simp_all add: hd_drop_conv_nth)
  have m: "mag v = drop 12 bs" unfolding d(10) using ne hd by (rule mag_unique)
  have "0 \<le> v" by (simp add: d(10))
  moreover have v0: "v \<noteq> 0"
  proof
    assume "v = 0"
    then have "mag v = []" by (simp add: mag_def export_size_def)
    with m ne show False by simp
  qed
  ultimately show "0 < v" by simp
  have len: "length (mag v) = mag_size v" using v0 by (rule export_size_eq)
  have r: "readU32 (take 4 (drop 8 bs)) = readU32 (drop 8 bs)" using d(1) by (simp add: readU32_def)
  have "of_nat (mag_size v) = readU32 (take 4 (drop 8 bs))"
  proof -
    have "mag_size v = unat (readU32 (drop 8 bs))" using d(7) len m by simp
    then show ?thesis unfolding r by simp
  qed
  then have w: "writeU32 (of_nat (mag_size v)) = take 4 (drop 8 bs)"
    using writeU32_readU32 [of "take 4 (drop 8 bs)"] d(1) by simp
  have "take 4 (drop 4 bs) = [bs ! 4, bs ! 5, bs ! 6, bs ! 7]"
    using d(1) by (intro nth_equalityI) (auto simp: nth_Cons' less_Suc_eq numeral_eq_Suc)
  then have t4: "take 4 (drop 4 bs) = [1, 1, mode, 0]" using d(3-6) by simp
  have "bs = take 4 bs @ drop 4 bs" by simp
  also have "drop 4 bs = take 4 (drop 4 bs) @ drop 8 bs"
    using append_take_drop_id [of 4 "drop 4 bs"] by simp
  also have "drop 8 bs = take 4 (drop 8 bs) @ drop 12 bs"
    using append_take_drop_id [of 4 "drop 8 bs"] by simp
  finally have "bs = soci_magic @ [1, 1, mode, 0] @ take 4 (drop 8 bs) @ drop 12 bs"
    unfolding t4 d(2) .
  with len v0 w m show "encodeCanonicalCiphertext mode v = Inr bs"
    by (simp add: encodeCanonicalCiphertext_def)
qed

section \<open>Frames\<close>

lemma concat_advance: "n \<le> length (concat vs) \<Longrightarrow> concat (advance n vs) = drop n (concat vs)"
  by (induction n vs rule: advance.induct) auto

lemma advance_hd: "advance n vs = [] \<or> hd (advance n vs) \<noteq> []"
  by (induction n vs rule: advance.induct) auto

text \<open>Whatever the socket takes at a time, the loop sends everything, in order.\<close>

lemma send_loop_all:
  assumes "\<forall>k. 0 < counts k" "vs = [] \<or> hd vs \<noteq> []"
  shows "send_loop counts k vs stream = Some (Inr (stream @ concat vs))"
  using assms(2)
proof (induction "length (concat vs)" arbitrary: k vs stream rule: less_induct)
  case less
  show ?case
  proof (cases "vs = []")
    case False
    then have ne: "concat vs \<noteq> []" using less.prems by (cases vs) auto
    let ?n = "min (counts k) (length (concat vs))"
    have n: "0 < ?n" "?n \<le> length (concat vs)" using ne assms(1) by simp_all
    have "length (concat (advance ?n vs)) < length (concat vs)"
      unfolding concat_advance [OF n(2)] using n ne by simp
    from less.hyps [OF this advance_hd] show ?thesis
      using False n(1) by (subst send_loop.simps) (simp add: Let_def concat_advance [OF n(2)])
  qed (simp add: send_loop.simps [of counts])
qed

lemma receive_exact_all:
  assumes "\<forall>k. 0 < counts k"
  shows "left \<le> length stream \<Longrightarrow>
    \<exists>k'. receive_exact counts k left got stream = Some (Inr (got @ take left stream, k', drop left stream))"
proof (induction left arbitrary: k got stream rule: less_induct)
  case (less left)
  show ?case
  proof (cases "left = 0")
    case False
    let ?n = "min (counts k) (min left (length stream))"
    have n: "0 < ?n" "?n \<le> left" using False less.prems assms by (simp_all add: min_less_iff_conj)
    have "left - ?n < left" "left - ?n \<le> length (drop ?n stream)" using n less.prems by simp_all
    from less.IH [OF this, of "Suc k" "got @ take ?n stream"] obtain k' where
      "receive_exact counts (Suc k) (left - ?n) (got @ take ?n stream) (drop ?n stream) =
        Some (Inr ((got @ take ?n stream) @ take (left - ?n) (drop ?n stream), k', drop (left - ?n) (drop ?n stream)))"
      by blast
    moreover have "take ?n stream @ take (left - ?n) (drop ?n stream) = take left stream"
      using n(2) by (metis le_add_diff_inverse take_add)
    moreover have "drop (left - ?n) (drop ?n stream) = drop left stream" using n(2) by simp
    ultimately have "receive_exact counts k left got stream = Some (Inr (got @ take left stream, k', drop left stream))"
      using n(1) False by (subst receive_exact.simps) (simp add: Let_def)
    then show ?thesis by blast
  qed (simp add: receive_exact.simps [of counts])
qed

text \<open>C34: A frame sent in pieces of any positive sizes and received in pieces of any positive sizes is
  the same payload, with the rest of the stream untouched; a payload above the receiver's limit of
  4 MiB is refused by the receiver although the sender accepts it.\<close>

theorem frame_roundtrip:
  assumes "\<forall>k. 0 < scounts k" "\<forall>k. 0 < rcounts k" "length payload \<le> 2 ^ 32 - 1"
  shows "\<exists>frame. sendFrame scounts payload stream = Some (Inr (stream @ frame)) \<and>
    receiveFrame rcounts (frame @ rest) =
      (if length payload \<le> max_frame then Some (Inr (payload, rest))
       else Some (Inl (StdRuntimeError ''frame too large'')))"
proof -
  let ?h = "writeU32 (of_nat (length payload))"
  have send: "sendFrame scounts payload stream = Some (Inr (stream @ ?h @ payload))"
    using assms(3) send_loop_all [OF assms(1), of "[?h, payload]"]
    by (simp add: sendFrame_def writeU32_def)
  obtain k where h: "receive_exact rcounts 0 4 [] (?h @ payload @ rest) = Some (Inr (?h, k, payload @ rest))"
    using receive_exact_all [OF assms(2), of 4 "?h @ payload @ rest" 0 "[]"] by auto
  have len: "unat (of_nat (length payload) :: 32 word) = length payload"
    using assms(3) by (intro unat_of_nat_32) simp
  obtain k' where "receive_exact rcounts k (length payload) [] (payload @ rest) = Some (Inr (payload, k', rest))"
    using receive_exact_all [OF assms(2), of "length payload" "payload @ rest" k "[]"] by auto
  with h len have "receiveFrame rcounts ((?h @ payload) @ rest) =
      (if length payload \<le> max_frame then Some (Inr (payload, rest))
       else Some (Inl (StdRuntimeError ''frame too large'')))"
    by (simp add: receiveFrame_def)
  with send show ?thesis by blast
qed

theorem frame_roundtrip_witness:
  "\<exists>frame. sendFrame (\<lambda>_. 1) [7, 0, 255] [] = Some (Inr frame) \<and>
     receiveFrame (\<lambda>_. 2) (frame @ [9]) = Some (Inr ([7, 0, 255], [9]))"
  using frame_roundtrip [of "\<lambda>_. 1" "\<lambda>_. 2" "[7, 0, 255]" "[]" "[9]"] by (simp add: max_frame_def)

text \<open>C35: The ciphertext object format is canonical: every positive integer whose magnitude length
  fits its field decodes back from its encoding, and whatever decodes is the encoding of the decoded
  integer, so no two byte strings decode to the same ciphertext.\<close>

theorem ciphertext_codec_canonical:
  assumes "0 < v" "mag_size v < 2 ^ 32"
  shows "(\<exists>bs. encodeCanonicalCiphertext mode v = Inr bs \<and> decodeCanonicalCiphertext bs mode = Inr v) \<and>
    (\<forall>bs w. decodeCanonicalCiphertext bs mode = Inr w \<longleftrightarrow>
       (encodeCanonicalCiphertext mode w = Inr bs \<and> 0 < w \<and> mag_size w < 2 ^ 32))"
proof -
  have "mag_size w < 2 ^ 32" if "decodeCanonicalCiphertext bs mode = Inr w" for bs w
  proof -
    have w: "0 < w" "encodeCanonicalCiphertext mode w = Inr bs"
      using encode_decode_canonical [OF that] by simp_all
    then have "length bs = 12 + mag_size w"
      by (auto simp: encodeCanonicalCiphertext_def export_size_eq soci_magic_def split: if_splits)
    moreover have "unat (readU32 (drop 8 bs)) = length bs - 12"
      using that by (auto simp: decodeCanonicalCiphertext_def Let_def split: if_splits)
    moreover have "unat (readU32 (drop 8 bs)) < 2 ^ LENGTH(32)" by (rule unsigned_less)
    ultimately show ?thesis by simp
  qed
  with encode_decode_canonical decode_encode_canonical encode_canonical_ok [OF assms(1), of mode]
    decode_encode_canonical [OF assms] show ?thesis by blast
qed

theorem ciphertext_codec_canonical_witness:
  "(\<exists>bs. encodeCanonicalCiphertext 0 258 = Inr bs \<and> decodeCanonicalCiphertext bs 0 = Inr 258) \<and>
    (\<forall>bs w. decodeCanonicalCiphertext bs 0 = Inr w \<longleftrightarrow>
       (encodeCanonicalCiphertext 0 w = Inr bs \<and> 0 < w \<and> mag_size w < 2 ^ 32))"
proof -
  have "mag_size 258 \<le> 2" by (rule mag_size_bound) simp_all
  then show ?thesis by (intro ciphertext_codec_canonical) simp_all
qed

text \<open>An integer appended to a wire buffer is read back at its offset, with the offset moved to its
  end, whatever follows.\<close>

theorem wire_integer_roundtrip:
  assumes "0 \<le> v" "mag_size v < 2 ^ 32" "length output < 2 ^ 63"
  shows "\<exists>out. appendInteger output v = Inr out \<and> takeInteger (out @ rest) (length output) = Inr (v, length out)"
proof -
  have "\<not> (mag_size v = 0 \<or> mag_size v > 2 ^ 32 - 1 \<or> length output > 2 ^ 64 - 1 - 4 - mag_size v)"
    using mag_size_pos [of v] assms(2,3) by simp
  then obtain out where "appendInteger output v = Inr out"
    unfolding appendInteger_def Let_def by simp
  with takeInteger_append [OF assms(1)] show ?thesis by blast
qed

theorem wire_integer_roundtrip_witness:
  "\<exists>out. appendInteger [1, 2] 70000 = Inr out \<and> takeInteger (out @ [5]) (Suc (Suc 0)) = Inr (70000, length out)"
proof -
  have "mag_size 70000 \<le> 3" by (rule mag_size_bound) simp_all
  then have "mag_size 70000 < 2 ^ 32" by simp
  moreover have "length [1, 2 :: 8 word] = 2" by simp
  ultimately show ?thesis using wire_integer_roundtrip [of 70000 "[1, 2]" "[5]"] by simp
qed

end
