(* ===== verification/SecureOps.thy ===== *)
theory SecureOps
  imports SociPrelude
begin

text \<open>
  The interface \<open>soci::secure::SecureOps\<close> (include/soci/secure_ops.hpp) and the operations
  that src/secure_ops.cpp derives from it. The virtual functions are the fields of a record over
  a state \<open>'s\<close>; the locale \<open>secure_ops\<close> states what an implementation promises, and the
  derived operations are proved correct in it once. The OFF backend and the threshold backend
  interpret it.
\<close>

section \<open>The interface\<close>

type_synonym byte = "8 word"

type_synonym cipher = "byte list"

datatype encrypted_bit = EncryptedBit (ciphertext: cipher)

record numeric_domain =
  d_scale :: int
  max_rows :: nat
  max_cost_bits :: nat
  max_total_bits :: nat
  max_linear_bits :: nat
  compare_operand_bits :: nat

datatype predicate_type = PruneNode | AcceptCandidate

record predicate_context =
  session_id :: string
  operation_id :: string
  predicate_type :: predicate_type
  ctx_depth :: nat
  node_id :: string

record prune_inputs =
  linear_upper :: cipher
  cost_lowers :: "cipher list"
  p_has_incumbent :: bool
  p_incumbent_cost :: cipher

record accept_inputs =
  a_linear :: cipher
  a_c3 :: cipher
  a_cost :: cipher
  a_c12 :: cipher
  a_has_incumbent :: bool
  a_incumbent_cost :: cipher
  a_incumbent_c12 :: cipher

text \<open>\<open>FusedPredicateBackend\<close>, which an implementation of \<open>SecureOps\<close> may also be.\<close>

record 's fused_backend =
  predicateFusionEnabled :: bool
  fusedPruneNode :: "predicate_context \<Rightarrow> prune_inputs \<Rightarrow> ('s, bool) eff"
  fusedAcceptCandidate :: "predicate_context \<Rightarrow> accept_inputs \<Rightarrow> ('s, bool) eff"

record 's sops =
  encryptConstant :: "int \<Rightarrow> ('s, cipher) eff"
  s_add :: "cipher \<Rightarrow> cipher \<Rightarrow> ('s, cipher) eff"
  scalarMul :: "cipher \<Rightarrow> int \<Rightarrow> ('s, cipher) eff"
  secureMul :: "cipher \<Rightarrow> cipher \<Rightarrow> ('s, cipher) eff"
  secureMulBatch :: "(cipher \<times> cipher) list \<Rightarrow> ('s, cipher list) eff"
  greaterThan :: "cipher \<Rightarrow> cipher \<Rightarrow> ('s, encrypted_bit) eff"
  greaterThanBatch :: "(cipher \<times> cipher) list \<Rightarrow> ('s, encrypted_bit list) eff"
  s_domain :: numeric_domain
  fused :: "'s fused_backend option"

text \<open>The inherited batch operations.\<close>

definition default_secureMulBatch ::
  "(cipher \<Rightarrow> cipher \<Rightarrow> ('s, cipher) eff) \<Rightarrow> (cipher \<times> cipher) list \<Rightarrow> ('s, cipher list) eff" where
  "default_secureMulBatch mul items = mapM (\<lambda>item. mul (fst item) (snd item)) items"

definition default_greaterThanBatch ::
  "(cipher \<Rightarrow> cipher \<Rightarrow> ('s, encrypted_bit) eff) \<Rightarrow> (cipher \<times> cipher) list \<Rightarrow>
     ('s, encrypted_bit list) eff" where
  "default_greaterThanBatch gt items = mapM (\<lambda>item. gt (fst item) (snd item)) items"

section \<open>The derived operations\<close>

definition s_sub :: "'s sops \<Rightarrow> cipher \<Rightarrow> cipher \<Rightarrow> ('s, cipher) eff" where
  "s_sub ops a b = bnd (scalarMul ops b (- 1)) (\<lambda>nb. s_add ops a nb)"

definition lessThan :: "'s sops \<Rightarrow> cipher \<Rightarrow> cipher \<Rightarrow> ('s, encrypted_bit) eff" where
  "lessThan ops a b = greaterThan ops b a"

definition bitNot :: "'s sops \<Rightarrow> encrypted_bit \<Rightarrow> ('s, encrypted_bit) eff" where
  "bitNot ops eb = bnd (encryptConstant ops 1) (\<lambda>one.
     bnd (s_sub ops one (ciphertext eb)) (\<lambda>c. ret (EncryptedBit c)))"

definition greaterEqual :: "'s sops \<Rightarrow> cipher \<Rightarrow> cipher \<Rightarrow> ('s, encrypted_bit) eff" where
  "greaterEqual ops a b = bnd (lessThan ops a b) (bitNot ops)"

definition lessEqual :: "'s sops \<Rightarrow> cipher \<Rightarrow> cipher \<Rightarrow> ('s, encrypted_bit) eff" where
  "lessEqual ops a b = bnd (greaterThan ops a b) (bitNot ops)"

definition bitAnd :: "'s sops \<Rightarrow> encrypted_bit \<Rightarrow> encrypted_bit \<Rightarrow> ('s, encrypted_bit) eff" where
  "bitAnd ops a b = bnd (secureMul ops (ciphertext a) (ciphertext b)) (\<lambda>c. ret (EncryptedBit c))"

definition bitOr :: "'s sops \<Rightarrow> encrypted_bit \<Rightarrow> encrypted_bit \<Rightarrow> ('s, encrypted_bit) eff" where
  "bitOr ops a b = bnd (secureMul ops (ciphertext a) (ciphertext b)) (\<lambda>product.
     bnd (s_add ops (ciphertext a) (ciphertext b)) (\<lambda>sm.
     bnd (s_sub ops sm product) (\<lambda>c. ret (EncryptedBit c))))"

definition s_equal :: "'s sops \<Rightarrow> cipher \<Rightarrow> cipher \<Rightarrow> ('s, encrypted_bit) eff" where
  "s_equal ops a b = bnd (greaterThan ops a b) (\<lambda>gt. bnd (lessThan ops a b) (\<lambda>lt.
     bnd (bitOr ops gt lt) (bitNot ops)))"

definition bitAndBatch ::
  "'s sops \<Rightarrow> (encrypted_bit \<times> encrypted_bit) list \<Rightarrow> ('s, encrypted_bit list) eff" where
  "bitAndBatch ops items =
     bnd (secureMulBatch ops (map (\<lambda>(a, b). (ciphertext a, ciphertext b)) items)) (\<lambda>products.
     ret (map EncryptedBit products))"

definition bitOrFromProduct ::
  "'s sops \<Rightarrow> encrypted_bit \<Rightarrow> encrypted_bit \<Rightarrow> encrypted_bit \<Rightarrow> ('s, encrypted_bit) eff" where
  "bitOrFromProduct ops a b product =
     bnd (s_add ops (ciphertext a) (ciphertext b)) (\<lambda>sm.
     bnd (s_sub ops sm (ciphertext product)) (\<lambda>c. ret (EncryptedBit c)))"

definition bitOrBatch ::
  "'s sops \<Rightarrow> (encrypted_bit \<times> encrypted_bit) list \<Rightarrow> ('s, encrypted_bit list) eff" where
  "bitOrBatch ops items =
     bnd (secureMulBatch ops (map (\<lambda>(a, b). (ciphertext a, ciphertext b)) items)) (\<lambda>products.
     mapM (\<lambda>((a, b), product).
       bnd (s_add ops (ciphertext a) (ciphertext b)) (\<lambda>sm.
       bnd (s_sub ops sm product) (\<lambda>c. ret (EncryptedBit c)))) (zip items products))"

definition bitOrExclusive :: "'s sops \<Rightarrow> encrypted_bit \<Rightarrow> encrypted_bit \<Rightarrow> ('s, encrypted_bit) eff" where
  "bitOrExclusive ops a b =
     bnd (s_add ops (ciphertext a) (ciphertext b)) (\<lambda>c. ret (EncryptedBit c))"

definition s_select :: "'s sops \<Rightarrow> encrypted_bit \<Rightarrow> cipher \<Rightarrow> cipher \<Rightarrow> ('s, cipher) eff" where
  "s_select ops condition true_value false_value =
     bnd (s_sub ops true_value false_value) (\<lambda>delta.
     bnd (secureMul ops (ciphertext condition) delta) (\<lambda>p. s_add ops false_value p))"

definition s_min :: "'s sops \<Rightarrow> cipher \<Rightarrow> cipher \<Rightarrow> ('s, cipher) eff" where
  "s_min ops a b = bnd (lessThan ops a b) (\<lambda>c. s_select ops c a b)"

definition s_max :: "'s sops \<Rightarrow> cipher \<Rightarrow> cipher \<Rightarrow> ('s, cipher) eff" where
  "s_max ops a b = bnd (greaterThan ops a b) (\<lambda>c. s_select ops c a b)"

section \<open>The contract\<close>

text \<open>
  \<open>enc c x\<close>: the ciphertext \<open>c\<close> encrypts \<open>x\<close>. Operands of a comparison or a
  multiplication must be smaller than \<open>bound\<close>; batches must not be empty and not exceed
  \<open>max_batch\<close>. \<open>E\<close> are the exceptions any operation may throw.
\<close>

abbreviation b2i :: "bool \<Rightarrow> int" where "b2i b \<equiv> (if b then 1 else 0)"

definition enc_bit :: "(cipher \<Rightarrow> int \<Rightarrow> bool) \<Rightarrow> encrypted_bit \<Rightarrow> bool \<Rightarrow> bool" where
  "enc_bit enc b v \<longleftrightarrow> enc (ciphertext b) (b2i v)"

definition operands :: "(cipher \<Rightarrow> int \<Rightarrow> bool) \<Rightarrow> int \<Rightarrow> cipher \<times> cipher \<Rightarrow> int \<times> int \<Rightarrow> bool" where
  "operands enc bound item v \<longleftrightarrow> enc (fst item) (fst v) \<and> enc (snd item) (snd v) \<and>
     \<bar>fst v\<bar> < bound \<and> \<bar>snd v\<bar> < bound"

locale secure_ops =
  fixes ops :: "'s sops" and inv :: "'s \<Rightarrow> bool" and enc :: "cipher \<Rightarrow> int \<Rightarrow> bool"
    and E :: "exn \<Rightarrow> bool" and bound :: int and max_batch :: nat
  assumes enc_nonempty: "enc c x \<Longrightarrow> c \<noteq> []"
    and bound_gt: "2 < bound"
    and batch_size: "5 \<le> max_batch"
    and encryptConstant_law: "yields inv E (encryptConstant ops v) (\<lambda>c. enc c v)"
    and add_law: "enc a x \<Longrightarrow> enc b y \<Longrightarrow> yields inv E (s_add ops a b) (\<lambda>c. enc c (x + y))"
    and scalarMul_law: "enc a x \<Longrightarrow> yields inv E (scalarMul ops a k) (\<lambda>c. enc c (k * x))"
    and secureMul_law: "operands enc bound (a, b) (x, y) \<Longrightarrow>
      yields inv E (secureMul ops a b) (\<lambda>c. enc c (x * y))"
    and greaterThan_law: "operands enc bound (a, b) (x, y) \<Longrightarrow>
      yields inv E (greaterThan ops a b) (\<lambda>c. enc_bit enc c (x > y))"
    and secureMulBatch_law: "items \<noteq> [] \<Longrightarrow> length items \<le> max_batch \<Longrightarrow>
      list_all2 (operands enc bound) items vs \<Longrightarrow>
      yields inv E (secureMulBatch ops items) (\<lambda>cs. list_all2 (\<lambda>v c. enc c (fst v * snd v)) vs cs)"
    and greaterThanBatch_law: "items \<noteq> [] \<Longrightarrow> length items \<le> max_batch \<Longrightarrow>
      list_all2 (operands enc bound) items vs \<Longrightarrow>
      yields inv E (greaterThanBatch ops items)
        (\<lambda>cs. list_all2 (\<lambda>v c. enc_bit enc c (fst v > snd v)) vs cs)"

context secure_ops
begin

lemma sub_ok:
  assumes "enc a x" "enc b y"
  shows "yields inv E (s_sub ops a b) (\<lambda>c. enc c (x - y))"
  unfolding s_sub_def
  by (rule yields_bnd [OF scalarMul_law [OF assms(2)]])
     (use add_law [OF assms(1)] in fastforce)

lemma lessThan_ok:
  "operands enc bound (a, b) (x, y) \<Longrightarrow> yields inv E (lessThan ops a b) (\<lambda>c. enc_bit enc c (x < y))"
  unfolding lessThan_def by (rule greaterThan_law) (simp add: operands_def)

lemma bitNot_ok:
  assumes "enc_bit enc a p"
  shows "yields inv E (bitNot ops a) (\<lambda>c. enc_bit enc c (\<not> p))"
proof -
  have a: "enc (ciphertext a) (b2i p)" using assms by (simp add: enc_bit_def)
  show ?thesis
    unfolding bitNot_def
    by (rule yields_bnd [OF encryptConstant_law], rule yields_bnd [OF sub_ok [OF _ a]], assumption,
        rule yields_ret) (simp add: enc_bit_def split: if_splits)
qed

lemma bit_operands:
  "enc_bit enc a p \<Longrightarrow> enc_bit enc b q \<Longrightarrow>
     operands enc bound (ciphertext a, ciphertext b) (b2i p, b2i q)"
  using bound_gt by (simp add: enc_bit_def operands_def)

lemma bitAnd_ok:
  assumes "enc_bit enc a p" "enc_bit enc b q"
  shows "yields inv E (bitAnd ops a b) (\<lambda>c. enc_bit enc c (p \<and> q))"
  unfolding bitAnd_def
  by (rule yields_bnd [OF secureMul_law [OF bit_operands [OF assms]]], rule yields_ret)
     (simp add: enc_bit_def split: if_splits)

lemma bitOr_ok:
  assumes "enc_bit enc a p" "enc_bit enc b q"
  shows "yields inv E (bitOr ops a b) (\<lambda>c. enc_bit enc c (p \<or> q))"
proof -
  have ab: "enc (ciphertext a) (b2i p)" "enc (ciphertext b) (b2i q)"
    using assms by (simp_all add: enc_bit_def)
  show ?thesis
    unfolding bitOr_def
    by (rule yields_bnd [OF secureMul_law [OF bit_operands [OF assms]]],
        rule yields_bnd [OF add_law [OF ab]], rule yields_bnd [OF sub_ok], assumption, assumption,
        rule yields_ret) (simp add: enc_bit_def split: if_splits)
qed

lemma bitOrFromProduct_ok:
  assumes "enc_bit enc a p" "enc_bit enc b q" "enc_bit enc c (p \<and> q)"
  shows "yields inv E (bitOrFromProduct ops a b c) (\<lambda>c. enc_bit enc c (p \<or> q))"
proof -
  have ab: "enc (ciphertext a) (b2i p)" "enc (ciphertext b) (b2i q)"
    and c: "enc (ciphertext c) (b2i (p \<and> q))"
    using assms by (simp_all add: enc_bit_def)
  show ?thesis
    unfolding bitOrFromProduct_def
    by (rule yields_bnd [OF add_law [OF ab]], rule yields_bnd [OF sub_ok [OF _ c]], assumption,
        rule yields_ret) (simp add: enc_bit_def split: if_splits)
qed

lemma bitOrExclusive_ok:
  assumes "enc_bit enc a p" "enc_bit enc b q" "\<not> (p \<and> q)"
  shows "yields inv E (bitOrExclusive ops a b) (\<lambda>c. enc_bit enc c (p \<or> q))"
proof -
  have ab: "enc (ciphertext a) (b2i p)" "enc (ciphertext b) (b2i q)"
    using assms by (simp_all add: enc_bit_def)
  show ?thesis
    unfolding bitOrExclusive_def
    by (rule yields_bnd [OF add_law [OF ab]], rule yields_ret)
       (use assms(3) in \<open>simp add: enc_bit_def split: if_splits\<close>)
qed

lemma greaterEqual_ok:
  "operands enc bound (a, b) (x, y) \<Longrightarrow> yields inv E (greaterEqual ops a b) (\<lambda>c. enc_bit enc c (x \<ge> y))"
  unfolding greaterEqual_def
  by (rule yields_bnd [OF lessThan_ok], assumption, rule yields_weaken [OF bitNot_ok]) (auto simp: not_less)

lemma lessEqual_ok:
  "operands enc bound (a, b) (x, y) \<Longrightarrow> yields inv E (lessEqual ops a b) (\<lambda>c. enc_bit enc c (x \<le> y))"
  unfolding lessEqual_def
  by (rule yields_bnd [OF greaterThan_law], assumption, rule yields_weaken [OF bitNot_ok])
     (auto simp: not_less)

lemma equal_ok:
  assumes "operands enc bound (a, b) (x, y)"
  shows "yields inv E (s_equal ops a b) (\<lambda>c. enc_bit enc c (x = y))"
  unfolding s_equal_def
  by (rule yields_bnd [OF greaterThan_law [OF assms]], rule yields_bnd [OF lessThan_ok [OF assms]],
      rule yields_bnd [OF bitOr_ok], assumption, assumption, rule yields_weaken [OF bitNot_ok],
      assumption) (erule back_subst [of "enc_bit enc _"], auto)

text \<open>Selection multiplies a bit with the difference of the alternatives.\<close>

lemma select_ok:
  assumes "enc_bit enc c p" "enc a x" "enc b y" "\<bar>x - y\<bar> < bound"
  shows "yields inv E (s_select ops c a b) (\<lambda>d. enc d (if p then x else y))"
proof -
  have "operands enc bound (ciphertext c, d) (b2i p, x - y)" if "enc d (x - y)" for d
    using assms(1,4) that bound_gt by (simp add: enc_bit_def operands_def)
  then show ?thesis
    unfolding s_select_def
    by (intro yields_bnd [OF sub_ok [OF assms(2,3)]] yields_bnd [OF secureMul_law])
       (auto intro: yields_weaken [OF add_law [OF assms(3)]] split: if_splits)
qed

lemma min_ok:
  assumes "operands enc bound (a, b) (x, y)" "\<bar>x - y\<bar> < bound"
  shows "yields inv E (s_min ops a b) (\<lambda>c. enc c (min x y))"
  unfolding s_min_def
  by (rule yields_bnd [OF lessThan_ok [OF assms(1)]], rule yields_weaken [OF select_ok], assumption)
     (use assms in \<open>auto simp: operands_def min_def split: if_splits\<close>)

lemma max_ok:
  assumes "operands enc bound (a, b) (x, y)" "\<bar>x - y\<bar> < bound"
  shows "yields inv E (s_max ops a b) (\<lambda>c. enc c (max x y))"
  unfolding s_max_def
  by (rule yields_bnd [OF greaterThan_law [OF assms(1)]], rule yields_weaken [OF select_ok], assumption)
     (use assms in \<open>auto simp: operands_def max_def split: if_splits\<close>)

text \<open>The batch operations on bits.\<close>

lemma bit_batch_operands:
  "list_all2 (\<lambda>ab pq. enc_bit enc (fst ab) (fst pq) \<and> enc_bit enc (snd ab) (snd pq)) items vs \<Longrightarrow>
     list_all2 (operands enc bound) (map (\<lambda>(a, b). (ciphertext a, ciphertext b)) items)
       (map (\<lambda>(p, q). (b2i p, b2i q)) vs)"
  by (auto simp: list_all2_map1 list_all2_map2 elim!: list_all2_mono intro: bit_operands)

lemma bitAndBatch_ok:
  assumes "items \<noteq> []" "length items \<le> max_batch"
    and "list_all2 (\<lambda>ab pq. enc_bit enc (fst ab) (fst pq) \<and> enc_bit enc (snd ab) (snd pq)) items vs"
  shows "yields inv E (bitAndBatch ops items)
    (\<lambda>cs. list_all2 (\<lambda>v c. enc_bit enc c (fst v \<and> snd v)) vs cs)"
  unfolding bitAndBatch_def
  by (rule yields_bnd [OF secureMulBatch_law [OF _ _ bit_batch_operands [OF assms(3)]]])
     (use assms in \<open>auto intro!: yields_ret simp: list_all2_map1 list_all2_map2 enc_bit_def
        elim!: list_all2_mono split: if_splits\<close>)

lemma bitOrBatch_ok:
  assumes "items \<noteq> []" "length items \<le> max_batch"
    and v: "list_all2 (\<lambda>ab pq. enc_bit enc (fst ab) (fst pq) \<and> enc_bit enc (snd ab) (snd pq)) items vs"
  shows "yields inv E (bitOrBatch ops items)
    (\<lambda>cs. list_all2 (\<lambda>v c. enc_bit enc c (fst v \<or> snd v)) vs cs)"
  unfolding bitOrBatch_def
proof (rule yields_bnd [OF secureMulBatch_law [OF _ _ bit_batch_operands [OF v]]], goal_cases)
  case (3 products)
  have "list_all2 (\<lambda>x v. enc_bit enc (fst (fst x)) (fst v) \<and> enc_bit enc (snd (fst x)) (snd v) \<and>
      enc_bit enc (EncryptedBit (snd x)) (fst v \<and> snd v)) (zip items products) vs"
    using v 3 unfolding list_all2_conv_all_nth
    by (auto simp: enc_bit_def case_prod_beta split: if_splits)
  then show ?case
  proof (rule yields_mapM_values)
    fix x :: "(encrypted_bit \<times> encrypted_bit) \<times> cipher" and v :: "bool \<times> bool"
    assume a: "enc_bit enc (fst (fst x)) (fst v) \<and> enc_bit enc (snd (fst x)) (snd v) \<and>
      enc_bit enc (EncryptedBit (snd x)) (fst v \<and> snd v)"
    show "yields inv E (case x of (x, product) \<Rightarrow> (case x of (a, b) \<Rightarrow> \<lambda>product.
        bnd (s_add ops (ciphertext a) (ciphertext b)) (\<lambda>sm.
        bnd (s_sub ops sm product) (\<lambda>c. ret (EncryptedBit c)))) product)
        (\<lambda>c. enc_bit enc c (fst v \<or> snd v))"
      using bitOrFromProduct_ok [of "fst (fst x)" "fst v" "snd (fst x)" "snd v" "EncryptedBit (snd x)"] a
      by (simp add: case_prod_beta bitOrFromProduct_def)
  qed
qed (use assms in simp_all)

end

end
