(* ===== verification/PredicateEngine.thy ===== *)
theory PredicateEngine
  imports SecureOps FixedPoint
begin

text \<open>
  The predicate engine (src/predicate_engine.cpp): two Boolean questions about encrypted values,
  "can this node be pruned" and "is this candidate accepted", answered by encrypted comparisons
  and gates, of which only the final bit is revealed, once per operation and only after the
  caller's policy has agreed. The state is that of the operations together with the set of
  replay keys already consumed.

  The locale \<open>predicate_env\<close> extends the contract of the operations by that of the resolver,
  the authorizer and the fused backend; in it both predicates are proved to reveal the decision of
  the specification, and a replayed operation is proved to reveal nothing.
\<close>

section \<open>Identifiers and replay keys\<close>

definition isalnum_c :: "char \<Rightarrow> bool" where
  "isalnum_c c \<longleftrightarrow> isdigit_c c \<or> (65 \<le> (of_char c :: int) \<and> (of_char c :: int) \<le> 90) \<or>
     (97 \<le> (of_char c :: int) \<and> (of_char c :: int) \<le> 122)"

definition validIdentifier :: "string \<Rightarrow> bool" where
  "validIdentifier value \<longleftrightarrow> value \<noteq> [] \<and> length value \<le> 128 \<and>
     list_all (\<lambda>c. isalnum_c c \<or> c = CHR ''-'' \<or> c = CHR ''_'' \<or> c = CHR ''.'' \<or> c = CHR '':'') value"

definition appendField :: "string \<Rightarrow> string \<Rightarrow> string" where
  "appendField output value = output @ to_string (length value) @ '':'' @ value @ ''|''"

definition replayKey :: "predicate_context \<Rightarrow> string" where
  "replayKey context = appendField (appendField [] (session_id context)) (operation_id context)"

text \<open>The enumeration has no third value, so the type check of \<open>validate\<close> always passes.\<close>

definition valid_ids :: "predicate_context \<Rightarrow> bool" where
  "valid_ids context \<longleftrightarrow> validIdentifier (session_id context) \<and>
     validIdentifier (operation_id context) \<and> validIdentifier (node_id context)"

definition validate :: "predicate_context \<Rightarrow> exn + unit" where
  "validate context =
     (if \<not> valid_ids context then Inl (PredicateError ''invalid predicate context identifier'')
      else Inr ())"

section \<open>The engine\<close>

text \<open>State of the operations, and \<open>consumed_operations_\<close>.\<close>

type_synonym 's engine_state = "'s \<times> string set"

record 's engine =
  e_ops :: "'s sops"
  authorizer :: "predicate_context \<Rightarrow> ('s, bool) eff"
  resolver :: "predicate_context \<Rightarrow> encrypted_bit \<Rightarrow> ('s, bool) eff"

definition on_ops :: "('s, 'a) eff \<Rightarrow> ('s engine_state, 'a) eff" where
  "on_ops m = zoom fst apfst m"

definition consume :: "string \<Rightarrow> ('s engine_state, bool) eff" where
  "consume key = (\<lambda>(s, used). Some (Inr (key \<notin> used), (s, insert key used)))"

definition authorizeAndConsume ::
  "'s engine \<Rightarrow> predicate_context \<Rightarrow> predicate_type \<Rightarrow> ('s engine_state, unit) eff" where
  "authorizeAndConsume eng context expected_type =
     bnd (of_sum (validate context)) (\<lambda>_.
     if predicate_type context \<noteq> expected_type
     then throw (PredicateError ''predicate context type does not match operation'')
     else bnd (on_ops (authorizer eng context)) (\<lambda>ok.
     if \<not> ok then throw (PredicateError ''predicate evaluation denied'')
     else bnd (consume (replayKey context)) (\<lambda>fresh.
     if \<not> fresh then throw (PredicateError ''predicate operation replayed'') else ret ())))"

definition evaluateFinalBit ::
  "'s engine \<Rightarrow> predicate_context \<Rightarrow> predicate_type \<Rightarrow> encrypted_bit \<Rightarrow> ('s engine_state, bool) eff" where
  "evaluateFinalBit eng context expected_type final_bit =
     bnd (authorizeAndConsume eng context expected_type) (\<lambda>_.
     on_ops (resolver eng context final_bit))"

text \<open>The OR tree of the cost comparisons: pairs of neighbours, an odd last bit carried over.\<close>

fun neighbours :: "'a list \<Rightarrow> ('a \<times> 'a) list" where
  "neighbours (a # b # rest) = (a, b) # neighbours rest"
| "neighbours _ = []"

partial_function (option) or_layers ::
  "'s sops \<Rightarrow> encrypted_bit list \<Rightarrow> ('s, encrypted_bit list) eff" where
  "or_layers ops layer s =
     (if length layer > 1 then
        (case bitOrBatch ops (neighbours layer) s of
           None \<Rightarrow> None
         | Some (r, s') \<Rightarrow> (case r of
             Inl e \<Rightarrow> Some (Inl e, s')
           | Inr next \<Rightarrow> or_layers ops (if odd (length layer) then next @ [last layer] else next) s'))
      else Some (Inr layer, s))"

definition prune_comparisons :: "cipher \<Rightarrow> prune_inputs \<Rightarrow> (cipher \<times> cipher) list" where
  "prune_comparisons zero inputs = (zero, linear_upper inputs) #
     (if p_has_incumbent inputs then map (\<lambda>lower. (lower, p_incumbent_cost inputs)) (cost_lowers inputs)
      else [])"

definition fused_active :: "'s sops \<Rightarrow> bool" where
  "fused_active ops \<longleftrightarrow> (case fused ops of None \<Rightarrow> False | Some fb \<Rightarrow> predicateFusionEnabled fb)"

definition pruneNode ::
  "'s engine \<Rightarrow> predicate_context \<Rightarrow> prune_inputs \<Rightarrow> ('s engine_state, bool) eff" where
  "pruneNode eng context inputs =
     (let ops = e_ops eng in
      if fused_active ops then
        (if p_has_incumbent inputs \<and> (p_incumbent_cost inputs = [] \<or> cost_lowers inputs = [])
         then throw (PredicateError ''missing incumbent cost or cost lower bounds'')
         else bnd (authorizeAndConsume eng context PruneNode) (\<lambda>_.
           on_ops (fusedPruneNode (the (fused ops)) context inputs)))
      else
        bnd (on_ops (encryptConstant ops 0)) (\<lambda>zero.
        if p_has_incumbent inputs \<and> p_incumbent_cost inputs = []
        then throw (PredicateError ''missing incumbent cost'')
        else if p_has_incumbent inputs \<and> cost_lowers inputs = []
        then throw (PredicateError ''missing cost lower bounds'')
        else bnd (on_ops (greaterThanBatch ops (prune_comparisons zero inputs))) (\<lambda>bits.
          if p_has_incumbent inputs then
            bnd (on_ops (or_layers ops (tl bits))) (\<lambda>layer.
            bnd (on_ops (bitOr ops (hd bits) (hd layer))) (\<lambda>final_bit.
            evaluateFinalBit eng context PruneNode final_bit))
          else evaluateFinalBit eng context PruneNode (hd bits))))"

definition accept_comparisons :: "cipher \<Rightarrow> accept_inputs \<Rightarrow> (cipher \<times> cipher) list" where
  "accept_comparisons zero inputs = [(zero, a_linear inputs), (a_c3 inputs, zero)] @
     (if a_has_incumbent inputs then
        [(a_incumbent_cost inputs, a_cost inputs), (a_cost inputs, a_incumbent_cost inputs),
         (a_incumbent_c12 inputs, a_c12 inputs)]
      else [])"

definition acceptCandidate ::
  "'s engine \<Rightarrow> predicate_context \<Rightarrow> accept_inputs \<Rightarrow> ('s engine_state, bool) eff" where
  "acceptCandidate eng context inputs =
     (let ops = e_ops eng in
      if fused_active ops then
        (if a_has_incumbent inputs \<and> (a_incumbent_cost inputs = [] \<or> a_incumbent_c12 inputs = [])
         then throw (PredicateError ''missing incumbent values'')
         else bnd (authorizeAndConsume eng context AcceptCandidate) (\<lambda>_.
           on_ops (fusedAcceptCandidate (the (fused ops)) context inputs)))
      else
        bnd (on_ops (encryptConstant ops 0)) (\<lambda>zero.
        if a_has_incumbent inputs \<and> (a_incumbent_cost inputs = [] \<or> a_incumbent_c12 inputs = [])
        then throw (PredicateError ''missing incumbent values'')
        else bnd (on_ops (greaterThanBatch ops (accept_comparisons zero inputs))) (\<lambda>compared.
          bnd (on_ops (bitNot ops (compared ! 0))) (\<lambda>linear_ge.
          bnd (on_ops (bitAnd ops linear_ge (compared ! 1))) (\<lambda>feasible.
          if \<not> a_has_incumbent inputs then evaluateFinalBit eng context AcceptCandidate feasible
          else
            bnd (on_ops (bitOrExclusive ops (compared ! 2) (compared ! 3))) (\<lambda>cost_neq.
            bnd (on_ops (bitNot ops cost_neq)) (\<lambda>cost_eq.
            bnd (on_ops (bitAnd ops cost_eq (compared ! 4))) (\<lambda>equal_and_c12.
            bnd (on_ops (bitOrExclusive ops (compared ! 2) equal_and_c12)) (\<lambda>better.
            bnd (on_ops (bitAnd ops feasible better)) (\<lambda>final_bit.
            evaluateFinalBit eng context AcceptCandidate final_bit))))))))))"

section \<open>The decisions\<close>

definition prune_decision :: "int \<Rightarrow> int list \<Rightarrow> bool \<Rightarrow> int \<Rightarrow> bool" where
  "prune_decision linear lowers has_incumbent incumbent \<longleftrightarrow>
     linear < 0 \<or> (has_incumbent \<and> list_ex (\<lambda>l. l > incumbent) lowers)"

definition accept_decision :: "int \<Rightarrow> int \<Rightarrow> int \<Rightarrow> int \<Rightarrow> bool \<Rightarrow> int \<Rightarrow> int \<Rightarrow> bool" where
  "accept_decision linear c3 cost c12 has_incumbent inc_cost inc_c12 \<longleftrightarrow>
     0 \<le> linear \<and> 0 < c3 \<and>
     (has_incumbent \<longrightarrow> cost < inc_cost \<or> (cost = inc_cost \<and> c12 < inc_c12))"

section \<open>Replay keys are injective\<close>

text \<open>A field is its length, a colon, the value and a bar: no field is a prefix of another.\<close>

lemma field_split:
  assumes "appendField o1 v1 @ r1 = appendField o2 v2 @ r2" "o1 = o2"
  shows "v1 = v2 \<and> r1 = r2"
proof -
  have e: "to_string (length v1) @ CHR '':'' # (v1 @ ''|'' @ r1) =
      to_string (length v2) @ CHR '':'' # (v2 @ ''|'' @ r2)"
    using assms by (simp add: appendField_def)
  have nc: "takeWhile (\<lambda>c. c \<noteq> CHR '':'') (to_string n @ CHR '':'' # x) = to_string n"
    "dropWhile (\<lambda>c. c \<noteq> CHR '':'') (to_string n @ CHR '':'' # x) = CHR '':'' # x" for n x
  proof -
    have "\<forall>c\<in>set (to_string n). c \<noteq> CHR '':''"
      using to_string_digits [of n] unfolding list_all_iff isdigit_c_def by auto
    then show "takeWhile (\<lambda>c. c \<noteq> CHR '':'') (to_string n @ CHR '':'' # x) = to_string n"
      "dropWhile (\<lambda>c. c \<noteq> CHR '':'') (to_string n @ CHR '':'' # x) = CHR '':'' # x"
      by (simp_all add: takeWhile_append2 dropWhile_append2)
  qed
  have "length v1 = length v2" using arg_cong [OF e, of "takeWhile (\<lambda>c. c \<noteq> CHR '':'')"]
    unfolding nc by (simp add: to_string_inj)
  moreover have "v1 @ ''|'' @ r1 = v2 @ ''|'' @ r2"
    using arg_cong [OF e, of "dropWhile (\<lambda>c. c \<noteq> CHR '':'')"] unfolding nc by simp
  ultimately show ?thesis by simp
qed

lemma replayKey_eq:
  "replayKey a = replayKey b \<longleftrightarrow> session_id a = session_id b \<and> operation_id a = operation_id b"
proof
  have app: "appendField o1 v = o1 @ appendField [] v" for o1 v by (simp add: appendField_def)
  assume e: "replayKey a = replayKey b"
  have "appendField [] (session_id a) @ appendField [] (operation_id a) =
      appendField [] (session_id b) @ appendField [] (operation_id b)"
    using e unfolding replayKey_def
    by (subst (asm) app, subst (asm) (2) app) simp
  from field_split [OF this refl] have s: "session_id a = session_id b"
    and o: "appendField [] (operation_id a) = appendField [] (operation_id b)" by simp_all
  have "appendField [] (operation_id a) @ [] = appendField [] (operation_id b) @ []" using o by simp
  from field_split [OF this refl] s show "session_id a = session_id b \<and> operation_id a = operation_id b"
    by simp
qed (simp add: replayKey_def)

section \<open>The contract of the engine's collaborators\<close>

text \<open>The values behind the inputs of the two predicates.\<close>

definition prune_values ::
  "(cipher \<Rightarrow> int \<Rightarrow> bool) \<Rightarrow> int \<Rightarrow> nat \<Rightarrow> prune_inputs \<Rightarrow> int \<Rightarrow> int list \<Rightarrow> int \<Rightarrow> bool" where
  "prune_values enc bound max_batch inputs linear lowers incumbent \<longleftrightarrow>
     enc (linear_upper inputs) linear \<and> \<bar>linear\<bar> < bound \<and>
     (p_has_incumbent inputs \<longrightarrow>
        enc (p_incumbent_cost inputs) incumbent \<and> \<bar>incumbent\<bar> < bound \<and>
        lowers \<noteq> [] \<and> length lowers < max_batch \<and>
        list_all2 (\<lambda>c l. enc c l \<and> \<bar>l\<bar> < bound) (cost_lowers inputs) lowers)"

definition accept_values ::
  "(cipher \<Rightarrow> int \<Rightarrow> bool) \<Rightarrow> int \<Rightarrow> accept_inputs \<Rightarrow> int \<Rightarrow> int \<Rightarrow> int \<Rightarrow> int \<Rightarrow> int \<Rightarrow> int \<Rightarrow> bool" where
  "accept_values enc bound inputs linear c3 cost c12 inc_cost inc_c12 \<longleftrightarrow>
     enc (a_linear inputs) linear \<and> \<bar>linear\<bar> < bound \<and> enc (a_c3 inputs) c3 \<and> \<bar>c3\<bar> < bound \<and>
     (a_has_incumbent inputs \<longrightarrow>
        enc (a_cost inputs) cost \<and> \<bar>cost\<bar> < bound \<and> enc (a_c12 inputs) c12 \<and> \<bar>c12\<bar> < bound \<and>
        enc (a_incumbent_cost inputs) inc_cost \<and> \<bar>inc_cost\<bar> < bound \<and>
        enc (a_incumbent_c12 inputs) inc_c12 \<and> \<bar>inc_c12\<bar> < bound)"

locale predicate_env =
  fixes ops :: "'s sops" and inv :: "string set \<Rightarrow> 's \<Rightarrow> bool" and enc :: "cipher \<Rightarrow> int \<Rightarrow> bool"
    and E :: "exn \<Rightarrow> bool" and bound :: int and max_batch :: nat
    and auth :: "predicate_context \<Rightarrow> ('s, bool) eff"
    and res :: "predicate_context \<Rightarrow> encrypted_bit \<Rightarrow> ('s, bool) eff"
    and may_deny :: bool and sessions :: "string set"
  assumes env_ops: "secure_ops ops (inv K) enc E bound max_batch"
    and inv_mono: "inv K s \<Longrightarrow> K \<subseteq> K' \<Longrightarrow> inv K' s"
    and authorize_law: "yields (inv K) E (auth ctx) (\<lambda>r. r \<or> may_deny)"
    and reveal_law: "valid_ids ctx \<Longrightarrow> enc_bit enc b p \<Longrightarrow> yields (inv K) E (res ctx b) (\<lambda>r. r = p)"
    and fused_prune_law: "fused ops = Some fb \<Longrightarrow> predicateFusionEnabled fb \<Longrightarrow> valid_ids ctx \<Longrightarrow>
      predicate_type ctx = PruneNode \<Longrightarrow> session_id ctx \<in> sessions \<Longrightarrow>
      prune_values enc bound max_batch inputs linear lowers incumbent \<Longrightarrow>
      inv K s \<Longrightarrow> replayKey ctx \<notin> K \<Longrightarrow>
      runs E (fusedPruneNode fb ctx inputs) s
        (\<lambda>r s'. r = prune_decision linear lowers (p_has_incumbent inputs) incumbent \<and>
           inv (insert (replayKey ctx) K) s')"
    and fused_accept_law: "fused ops = Some fb \<Longrightarrow> predicateFusionEnabled fb \<Longrightarrow> valid_ids ctx \<Longrightarrow>
      predicate_type ctx = AcceptCandidate \<Longrightarrow> session_id ctx \<in> sessions \<Longrightarrow>
      accept_values enc bound inputs' linear c3 cost c12 inc_cost inc_c12 \<Longrightarrow>
      inv K s \<Longrightarrow> replayKey ctx \<notin> K \<Longrightarrow>
      runs E (fusedAcceptCandidate fb ctx inputs') s
        (\<lambda>r s'. r = accept_decision linear c3 cost c12 (a_has_incumbent inputs') inc_cost inc_c12 \<and>
           inv (insert (replayKey ctx) K) s')"

text \<open>The laws of the operations hold whatever keys have been consumed.\<close>

sublocale predicate_env \<subseteq> secure_ops ops "inv K" enc E bound max_batch for K
  by (rule env_ops)

text \<open>The engine of an environment, and what its predicates may throw.\<close>

definition the_engine ::
  "'s sops \<Rightarrow> (predicate_context \<Rightarrow> ('s, bool) eff) \<Rightarrow>
     (predicate_context \<Rightarrow> encrypted_bit \<Rightarrow> ('s, bool) eff) \<Rightarrow> 's engine" where
  "the_engine ops auth res = \<lparr>e_ops = ops, authorizer = auth, resolver = res\<rparr>"

definition denied :: "bool \<Rightarrow> exn \<Rightarrow> bool" where
  "denied may e \<longleftrightarrow> may \<and> e = PredicateError ''predicate evaluation denied''"

definition replayed :: "exn \<Rightarrow> bool" where
  "replayed e \<longleftrightarrow> e = PredicateError ''predicate operation replayed''"

section \<open>Neighbours\<close>

lemma neighbours_length: "length (neighbours xs) = length xs div 2"
  by (induction xs rule: neighbours.induct) simp_all

lemma neighbours_all2:
  "list_all2 P xs ys \<Longrightarrow>
     list_all2 (\<lambda>ab pq. P (fst ab) (fst pq) \<and> P (snd ab) (snd pq)) (neighbours xs) (neighbours ys)"
proof (induction xs arbitrary: ys rule: neighbours.induct)
  case (1 a b rest)
  from 1(2) obtain x y zs where "ys = x # y # zs" "P a x" "P b y" "list_all2 P rest zs"
    by (auto simp: list_all2_Cons1)
  with 1 show ?case by simp
qed (auto simp: list_all2_Cons1)

lemma neighbours_or:
  "(list_ex id (map (\<lambda>(p, q). p \<or> q) (neighbours ps)) \<or> (odd (length ps) \<and> last ps)) \<longleftrightarrow> list_ex id ps"
  by (induction ps rule: neighbours.induct) (auto split: if_splits)

context predicate_env
begin

lemma or_layers_ok:
  assumes "list_all2 (enc_bit enc) layer ps" "layer \<noteq> []" "length layer \<le> 2 * max_batch"
  shows "yields (inv K) E (or_layers ops layer) (\<lambda>l. \<exists>b. l = [b] \<and> enc_bit enc b (list_ex id ps))"
  using assms
proof (induction "length layer" arbitrary: layer ps rule: less_induct)
  case less
  show ?case
  proof (cases "length layer > 1")
    case False
    then obtain b where "layer = [b]" using less.prems(2) by (cases layer) auto
    with less.prems(1) show ?thesis
      by (auto simp: yields_def or_layers.simps list_all2_Cons1)
  next
    case True
    let ?next = "\<lambda>bs. if odd (length layer) then bs @ [last layer] else bs"
    let ?vs = "neighbours ps"
    let ?ps = "map (\<lambda>(p, q). p \<or> q) ?vs @ (if odd (length layer) then [last ps] else [])"
    have lps: "length ps = length layer" using less.prems(1) by (simp add: list_all2_lengthD)
    have ne: "neighbours layer \<noteq> []" using True neighbours_length [of layer] by auto
    have len: "length (neighbours layer) \<le> max_batch"
      using less.prems(3) by (simp add: neighbours_length)
    have ex: "list_ex id ?ps = list_ex id ps"
      using neighbours_or [of ps] lps by auto
    have eq: "or_layers ops layer = bnd (bitOrBatch ops (neighbours layer)) (\<lambda>bs. or_layers ops (?next bs))"
      using True by (intro ext, subst or_layers.simps) (simp add: eff_simps)
    show ?thesis
      unfolding eq
    proof (rule yields_bnd [OF bitOrBatch_ok [OF ne len neighbours_all2 [OF less.prems(1)]]])
      fix bs assume bs: "list_all2 (\<lambda>v c. enc_bit enc c (fst v \<or> snd v)) ?vs bs"
      have last: "enc_bit enc (last layer) (last ps)"
        using less.prems(1,2) by (metis last_conv_nth length_greater_0_conv list_all2_conv_all_nth lps
            diff_less zero_less_one)
      have all: "list_all2 (enc_bit enc) (?next bs) ?ps"
        using bs last by (auto simp: list_all2_conv_all_nth nth_append case_prod_beta)
      have l: "length bs = length layer div 2"
        using bs by (simp add: list_all2_lengthD [symmetric] neighbours_length lps)
      then have "length (?next bs) < length layer" using True by (simp; presburger)
      moreover have "?next bs \<noteq> []" using l True by auto
      ultimately show "yields (inv K) E (or_layers ops (?next bs))
          (\<lambda>l. \<exists>b. l = [b] \<and> enc_bit enc b (list_ex id ps))"
        using less.hyps [OF _ all] less.prems(3) ex by simp
    qed
  qed
qed

lemma runs_on_ops:
  assumes "yields (inv (snd st)) F m R" "inv (snd st) (fst st)" "\<And>e. F e \<Longrightarrow> G e"
  shows "runs G (on_ops m) st (\<lambda>a st'. R a \<and> inv (snd st') (fst st') \<and> snd st' = snd st)"
proof -
  have "runs F m (fst st) (\<lambda>a s'. R a \<and> inv (snd st) s')" using assms(1,2) by (rule runs_of_yields)
  then show ?thesis
    unfolding on_ops_def runs_def
    by (cases st) (auto simp: eff_simps assms(3) split: option.splits sum.splits)
qed

lemma runs_on_ops_fused:
  assumes "runs E m (fst st) (\<lambda>a s'. R a \<and> inv (snd st) s')" "\<And>e. E e \<Longrightarrow> G e"
  shows "runs G (on_ops m) st (\<lambda>a st'. R a \<and> inv (snd st') (fst st') \<and> snd st' = snd st)"
  using assms unfolding on_ops_def runs_def
  by (cases st) (auto simp: eff_simps split: option.splits sum.splits)

text \<open>Authorization consumes the replay key, once.\<close>

lemma authorize_fresh:
  assumes "valid_ids ctx" "predicate_type ctx = ty" "inv (snd st) (fst st)" "replayKey ctx \<notin> snd st"
  shows "runs (\<lambda>e. E e \<or> denied may_deny e) (authorizeAndConsume (the_engine ops auth res) ctx ty) st
    (\<lambda>_ st'. inv (snd st) (fst st') \<and> snd st' = insert (replayKey ctx) (snd st))"
  unfolding authorizeAndConsume_def validate_def
  using assms(1,2)
  by (auto simp: the_engine_def of_sum_def ret_def [symmetric] assms(1)
      intro!: runs_bndI [OF runs_on_ops [OF authorize_law assms(3)]])
     (auto simp: denied_def runs_def eff_simps consume_def assms(4) split: prod.splits)

lemma authorize_replay:
  assumes "inv (snd st) (fst st)" "replayKey ctx \<in> snd st"
  shows "runs (\<lambda>e. \<exists>m. e = PredicateError m \<or> E e) (authorizeAndConsume (the_engine ops auth res) ctx ty)
    st (\<lambda>_ _. False)"
  unfolding authorizeAndConsume_def validate_def
  by (auto simp: the_engine_def of_sum_def ret_def [symmetric]
      intro!: runs_bndI [OF runs_on_ops [OF authorize_law assms(1)]] runs_throw)
     (auto simp: runs_def eff_simps consume_def assms(2) split: prod.splits)

abbreviation "eng \<equiv> the_engine ops auth res"

abbreviation "pexn e \<equiv> E e \<or> denied may_deny e"

lemma engine_fields [simp]: "e_ops eng = ops" "authorizer eng = auth" "resolver eng = res"
  by (simp_all add: the_engine_def)

lemma evaluate_fresh:
  assumes "valid_ids ctx" "predicate_type ctx = ty" "inv (snd st) (fst st)" "replayKey ctx \<notin> snd st" "enc_bit enc b p"
  shows "runs pexn (evaluateFinalBit eng ctx ty b) st
    (\<lambda>r st'. r = p \<and> inv (snd st') (fst st') \<and> snd st' = insert (replayKey ctx) (snd st))"
  unfolding evaluateFinalBit_def
proof (rule runs_bndI [OF authorize_fresh [OF assms(1-4)]], goal_cases)
  case (1 u st')
  then have "inv (snd st') (fst st')" by (auto intro: inv_mono)
  with 1 runs_on_ops [OF reveal_law [OF assms(1,5)], of st' pexn] show ?case by simp
qed

lemma evaluate_replay:
  "inv (snd st) (fst st) \<Longrightarrow> replayKey ctx \<in> snd st \<Longrightarrow>
     runs (\<lambda>e. \<exists>m. e = PredicateError m \<or> E e) (evaluateFinalBit eng ctx ty b) st (\<lambda>_ _. False)"
  unfolding evaluateFinalBit_def by (rule runs_bndI [OF authorize_replay]) simp_all

lemma on_ops_step:
  assumes "yields (inv (snd st)) E m R" "inv (snd st) (fst st)"
    and "\<And>a st'. R a \<Longrightarrow> inv (snd st') (fst st') \<Longrightarrow> snd st' = snd st \<Longrightarrow> runs G (f a) st' Q"
    and "\<And>e. E e \<Longrightarrow> G e"
  shows "runs G (bnd (on_ops m) f) st Q"
  by (rule runs_bndI [OF runs_on_ops [OF assms(1,2)]]) (use assms(3,4) in auto)

lemma prune_operands:
  assumes "prune_values enc bound max_batch inputs linear lowers incumbent" "enc zero 0"
  shows "list_all2 (operands enc bound) (prune_comparisons zero inputs)
      ((0, linear) # (if p_has_incumbent inputs then map (\<lambda>l. (l, incumbent)) lowers else []))"
    and "length (prune_comparisons zero inputs) \<le> max_batch"
  using assms bound_gt batch_size
  by (auto simp: prune_values_def prune_comparisons_def operands_def list_all2_map1 list_all2_map2
      dest: list_all2_lengthD elim!: list_all2_mono)

lemma prune_missing:
  assumes "prune_values enc bound max_batch inputs linear lowers incumbent" "p_has_incumbent inputs"
  shows "p_incumbent_cost inputs \<noteq> []" "cost_lowers inputs \<noteq> []"
  using assms enc_nonempty by (auto simp: prune_values_def)

lemma pruneNode_runs:
  assumes ctx: "valid_ids ctx" "predicate_type ctx = PruneNode" and sess: "session_id ctx \<in> sessions" and fresh: "replayKey ctx \<notin> snd st"
    and st: "inv (snd st) (fst st)"
    and v: "prune_values enc bound max_batch inputs linear lowers incumbent"
  shows "runs pexn (pruneNode eng ctx inputs) st
    (\<lambda>r st'. r = prune_decision linear lowers (p_has_incumbent inputs) incumbent \<and>
       inv (snd st') (fst st') \<and> snd st' = insert (replayKey ctx) (snd st))"
proof (cases "fused_active ops")
  case True
  then obtain fb where fb: "fused ops = Some fb" "predicateFusionEnabled fb"
    by (auto simp: fused_active_def split: option.splits)
  have "runs pexn (bnd (authorizeAndConsume eng ctx PruneNode) (\<lambda>_. on_ops (fusedPruneNode fb ctx inputs)))
      st (\<lambda>r st'. r = prune_decision linear lowers (p_has_incumbent inputs) incumbent \<and>
         inv (snd st') (fst st') \<and> snd st' = insert (replayKey ctx) (snd st))"
  proof (rule runs_bndI [OF authorize_fresh [OF ctx st fresh]], goal_cases)
    case (1 u st')
    then show ?case
      using runs_on_ops_fused [of _ st' _ pexn] fused_prune_law [OF fb ctx sess v _ fresh, of "fst st'"] by simp
  qed
  moreover have "pruneNode eng ctx inputs =
      bnd (authorizeAndConsume eng ctx PruneNode) (\<lambda>_. on_ops (fusedPruneNode fb ctx inputs))"
    using True fb prune_missing [OF v] by (auto simp: pruneNode_def Let_def)
  ultimately show ?thesis by (simp only:)
next
  case False
  have nf: "pruneNode eng ctx inputs = bnd (on_ops (encryptConstant ops 0)) (\<lambda>zero.
      bnd (on_ops (greaterThanBatch ops (prune_comparisons zero inputs))) (\<lambda>bits.
          if p_has_incumbent inputs then
            bnd (on_ops (or_layers ops (tl bits))) (\<lambda>layer.
            bnd (on_ops (bitOr ops (hd bits) (hd layer))) (\<lambda>final_bit.
            evaluateFinalBit eng ctx PruneNode final_bit))
          else evaluateFinalBit eng ctx PruneNode (hd bits)))"
  proof -
    have "\<not> (p_has_incumbent inputs \<and> p_incumbent_cost inputs = [])"
      "\<not> (p_has_incumbent inputs \<and> cost_lowers inputs = [])"
      using prune_missing [OF v] by blast+
    then show ?thesis by (simp only: pruneNode_def Let_def False if_False engine_fields)
  qed
  show ?thesis
    unfolding nf
  proof (rule on_ops_step [OF encryptConstant_law st], goal_cases)
    case (1 zero st1)
    note ops = prune_operands [OF v 1(1)]
    show ?case
    proof (rule on_ops_step [OF greaterThanBatch_law [OF _ ops(2,1)] 1(2)], goal_cases)
      case (2 bits st2)
      show ?case
      proof (cases "p_has_incumbent inputs")
        case no: False
        with 2 have "enc_bit enc (hd bits) (linear < 0)" by (auto simp: list_all2_Cons1)
        from evaluate_fresh [OF ctx, of st2, OF _ _ this] no 2 1 fresh show ?thesis
          by (simp add: prune_decision_def)
      next
        case yes: True
        with 2(1) obtain b0 bs where bits: "bits = b0 # bs" "enc_bit enc b0 (linear < 0)"
          "list_all2 (\<lambda>l c. enc_bit enc c (l > incumbent)) lowers bs"
          by (auto simp: list_all2_Cons1 list_all2_map1)
        then have b: "enc_bit enc (hd bits) (linear < 0)"
          "list_all2 (enc_bit enc) (tl bits) (map (\<lambda>l. l > incumbent) lowers)"
          by (auto simp: list_all2_conv_all_nth)
        have len: "tl bits \<noteq> []" "length (tl bits) \<le> 2 * max_batch"
          using b(2) list_all2_lengthD [OF b(2)] v yes by (auto simp: prune_values_def)
        show ?thesis
          unfolding if_P [OF yes]
        proof (rule on_ops_step [OF or_layers_ok [OF b(2) len] 2(2)], goal_cases)
          case (1 layer st3)
          then obtain lb where lb: "layer = [lb]" "enc_bit enc lb (list_ex id (map (\<lambda>l. l > incumbent) lowers))"
            by blast
          show ?case
            unfolding lb(1) list.sel
          proof (rule on_ops_step [OF bitOr_ok [OF b(1) lb(2)] 1(2)], goal_cases)
            case (1 fb st4)
            from evaluate_fresh [OF ctx, of st4, OF _ _ 1(1)] 1 2 \<open>snd st3 = snd st2\<close>
              \<open>snd st1 = snd st\<close> fresh yes show ?case
              by (simp add: prune_decision_def list_ex_iff)
          qed simp
        qed simp
      qed
    qed (simp_all add: prune_comparisons_def)
  qed simp
qed

lemma accept_operands:
  assumes "accept_values enc bound inputs linear c3 cost c12 inc_cost inc_c12" "enc zero 0"
  shows "list_all2 (operands enc bound) (accept_comparisons zero inputs)
      ([(0, linear), (c3, 0)] @
       (if a_has_incumbent inputs then [(inc_cost, cost), (cost, inc_cost), (inc_c12, c12)] else []))"
    and "length (accept_comparisons zero inputs) \<le> max_batch"
  using assms bound_gt batch_size
  by (auto simp: accept_values_def accept_comparisons_def operands_def)

lemma acceptCandidate_runs:
  assumes ctx: "valid_ids ctx" "predicate_type ctx = AcceptCandidate" and sess: "session_id ctx \<in> sessions"
    and fresh: "replayKey ctx \<notin> snd st" and st: "inv (snd st) (fst st)"
    and v: "accept_values enc bound inputs linear c3 cost c12 inc_cost inc_c12"
  shows "runs pexn (acceptCandidate eng ctx inputs) st
    (\<lambda>r st'. r = accept_decision linear c3 cost c12 (a_has_incumbent inputs) inc_cost inc_c12 \<and>
       inv (snd st') (fst st') \<and> snd st' = insert (replayKey ctx) (snd st))"
proof -
  have ne: "\<not> (a_has_incumbent inputs \<and> (a_incumbent_cost inputs = [] \<or> a_incumbent_c12 inputs = []))"
    using v enc_nonempty by (auto simp: accept_values_def)
  show ?thesis
  proof (cases "fused_active ops")
    case True
    then obtain fb where fb: "fused ops = Some fb" "predicateFusionEnabled fb"
      by (auto simp: fused_active_def split: option.splits)
    have eq: "acceptCandidate eng ctx inputs =
        bnd (authorizeAndConsume eng ctx AcceptCandidate) (\<lambda>_. on_ops (fusedAcceptCandidate fb ctx inputs))"
      using True fb ne by (simp only: acceptCandidate_def Let_def engine_fields if_True if_False option.sel)
    show ?thesis
      unfolding eq
    proof (rule runs_bndI [OF authorize_fresh [OF ctx st fresh]], goal_cases)
      case (1 u st')
      then show ?case
        using runs_on_ops_fused [of _ st' _ pexn] fused_accept_law [OF fb ctx sess v _ fresh, of "fst st'"] by simp
    qed
  next
    case False
    show ?thesis
      unfolding acceptCandidate_def Let_def engine_fields if_not_P [OF False] if_not_P [OF ne]
    proof (rule on_ops_step [OF encryptConstant_law st], goal_cases)
      case (1 zero st1)
      note ops = accept_operands [OF v 1(1)]
      show ?case
      proof (rule on_ops_step [OF greaterThanBatch_law [OF _ ops(2,1)] 1(2)], goal_cases)
        case (2 bits st2)
        then have b0: "enc_bit enc (bits ! 0) (linear < 0)" and b1: "enc_bit enc (bits ! 1) (0 < c3)"
          by (auto simp: list_all2_Cons1)
        show ?case
        proof (rule on_ops_step [OF bitNot_ok [OF b0] 2(2)], goal_cases)
          case (1 ge st3)
          show ?case
          proof (rule on_ops_step [OF bitAnd_ok [OF 1(1) b1] 1(2)], goal_cases)
            case feas: (1 fe st4)
            have used: "snd st4 = snd st"
              using feas(3) 1(3) 2(3) \<open>snd st1 = snd st\<close> by simp
            show ?case
            proof (cases "a_has_incumbent inputs")
              case no: False
              from evaluate_fresh [OF ctx feas(2), OF _ feas(1)] fresh used no show ?thesis
                by (simp add: accept_decision_def not_less)
            next
              case yes: True
              with 2(1) have b: "enc_bit enc (bits ! 2) (cost < inc_cost)"
                "enc_bit enc (bits ! 3) (inc_cost < cost)" "enc_bit enc (bits ! 4) (c12 < inc_c12)"
                by (auto simp: list_all2_Cons1)
              have nn: "\<not> \<not> a_has_incumbent inputs" using yes by simp
              show ?thesis
                unfolding if_not_P [OF nn]
              proof (rule on_ops_step [OF bitOrExclusive_ok [OF b(1,2)] feas(2)], goal_cases)
                case (2 ne st5)
                show ?case
                proof (rule on_ops_step [OF bitNot_ok [OF 2(1)] 2(2)], goal_cases)
                  case (1 eq st6)
                  show ?case
                  proof (rule on_ops_step [OF bitAnd_ok [OF 1(1) b(3)] 1(2)], goal_cases)
                    case (1 ec st7)
                    show ?case
                    proof (rule on_ops_step [OF bitOrExclusive_ok [OF b(1) 1(1)] 1(2)], goal_cases)
                      case (2 better st8)
                      show ?case
                      proof (rule on_ops_step [OF bitAnd_ok [OF feas(1) 2(1)] 2(2)], goal_cases)
                        case (1 final st9)
                        have u9: "snd st9 = snd st"
                          using used 1(3) 2(3) \<open>snd st7 = snd st6\<close> \<open>snd st6 = snd st5\<close> \<open>snd st5 = snd st4\<close>
                          by simp
                        from evaluate_fresh [OF ctx 1(2), OF _ 1(1)] fresh u9 yes show ?case
                          by (simp add: accept_decision_def not_less) (erule runs_weaken, auto)
                      qed simp
                    qed auto
                  qed simp
                qed simp
              qed auto
            qed
          qed simp
        qed simp
      qed (simp_all add: accept_comparisons_def)
    qed simp
  qed
qed

end

section \<open>Every bit is revealed at most once\<close>

text \<open>
  What holds of any backend, authorizer and resolver: a call that returns a bit had a valid context
  of the right type and a fresh replay key, which it consumed; a call that fails consumes at most its
  own key and never releases one.
\<close>

definition used_step :: "predicate_context \<Rightarrow> ('s engine_state, 'a) eff \<Rightarrow> bool" where
  "used_step ctx m \<longleftrightarrow> (\<forall>st r st'. m st = Some (r, st') \<longrightarrow>
     snd st \<subseteq> snd st' \<and> snd st' \<subseteq> insert (replayKey ctx) (snd st) \<and>
     (\<not> isl r \<longrightarrow> valid_ids ctx \<and> replayKey ctx \<notin> snd st \<and> replayKey ctx \<in> snd st'))"

definition used_same :: "('s engine_state, 'a) eff \<Rightarrow> bool" where
  "used_same m \<longleftrightarrow> (\<forall>st r st'. m st = Some (r, st') \<longrightarrow> snd st' = snd st)"

lemma used_same_on_ops: "used_same (on_ops m)"
  by (auto simp: used_same_def on_ops_def eff_simps split: option.splits)

lemma used_step_throw: "used_step ctx (throw e)"
  by (auto simp: used_step_def eff_simps)

lemma used_step_after: "used_same m \<Longrightarrow> (\<And>a. used_step ctx (f a)) \<Longrightarrow> used_step ctx (bnd m f)"
  unfolding used_step_def used_same_def
  by (fastforce simp: eff_simps split: option.splits sum.splits)

lemma used_step_before:
  "used_step ctx m \<Longrightarrow> (\<And>a. used_same (f a)) \<Longrightarrow> used_step ctx (bnd m f)"
  unfolding used_step_def used_same_def
  by (fastforce simp: eff_simps split: option.splits sum.splits)

lemma used_step_authorize: "used_step ctx (authorizeAndConsume eng ctx ty)"
proof -
  have c: "used_step ctx (bnd (consume (replayKey ctx)) (\<lambda>fresh.
      if \<not> fresh then throw (PredicateError ''predicate operation replayed'') else ret ()))"
    if "valid_ids ctx"
    using that by (auto simp: used_step_def consume_def eff_simps split: if_splits)
  show ?thesis
    unfolding authorizeAndConsume_def validate_def
    by (cases "valid_ids ctx")
       (auto simp: of_sum_def ret_def [symmetric] throw_def [symmetric] used_step_throw
         intro!: used_step_after [OF used_same_on_ops] c)
qed

lemma used_step_evaluate: "used_step ctx (evaluateFinalBit eng ctx ty b)"
  unfolding evaluateFinalBit_def by (intro used_step_before used_step_authorize used_same_on_ops)

lemmas used_rules = used_step_throw used_step_evaluate used_step_after [OF used_same_on_ops]
  used_step_before [OF used_step_authorize used_same_on_ops]

lemma used_step_prune: "used_step ctx (pruneNode eng ctx inputs)"
  unfolding pruneNode_def Let_def by (auto intro!: used_rules)

lemma used_step_accept: "used_step ctx (acceptCandidate eng ctx inputs)"
  unfolding acceptCandidate_def Let_def by (auto intro!: used_rules)

text \<open>A run of the engine: a list of calls, each of which may fail without ending the run.\<close>

datatype predicate_call =
  CallPrune (call_context: predicate_context) prune_inputs
| CallAccept (call_context: predicate_context) accept_inputs

fun run_call :: "'s engine \<Rightarrow> predicate_call \<Rightarrow> ('s engine_state, bool) eff" where
  "run_call eng (CallPrune ctx inputs) = pruneNode eng ctx inputs"
| "run_call eng (CallAccept ctx inputs) = acceptCandidate eng ctx inputs"

definition attempt :: "('s, 'a) eff \<Rightarrow> ('s, exn + 'a) eff" where
  "attempt m = catch (bnd m (\<lambda>a. ret (Inr a))) (\<lambda>e. ret (Inl e))"

definition run_calls :: "'s engine \<Rightarrow> predicate_call list \<Rightarrow> ('s engine_state, (exn + bool) list) eff" where
  "run_calls eng = mapM (\<lambda>c. attempt (run_call eng c))"

text \<open>The replay keys of the calls that revealed a bit.\<close>

definition revealed_keys :: "predicate_call list \<Rightarrow> (exn + bool) list \<Rightarrow> string list" where
  "revealed_keys calls outcomes =
     map (\<lambda>(c, r). replayKey (call_context c)) (filter (\<lambda>(c, r). \<not> isl r) (zip calls outcomes))"

lemma attempt_app:
  "attempt m s = (case m s of None \<Rightarrow> None | Some (r, s') \<Rightarrow> Some (Inr r, s'))"
  by (simp add: attempt_def eff_simps split: option.splits sum.splits)

lemma used_step_call: "used_step (call_context c) (run_call eng c)"
  by (cases c) (simp_all add: used_step_prune used_step_accept)

lemma run_calls_keys:
  assumes "run_calls eng calls st = Some (Inr rs, st')"
  shows "length rs = length calls \<and> distinct (revealed_keys calls rs) \<and>
    set (revealed_keys calls rs) \<inter> snd st = {} \<and>
    snd st \<union> set (revealed_keys calls rs) \<subseteq> snd st'"
  using assms
proof (induction calls arbitrary: st rs)
  case Nil
  then show ?case by (auto simp: run_calls_def revealed_keys_def eff_simps)
next
  case (Cons c calls)
  then obtain r st1 rest where c: "run_call eng c st = Some (r, st1)"
    and rest: "run_calls eng calls st1 = Some (Inr rest, st')" and rs: "rs = r # rest"
    by (auto simp: run_calls_def eff_simps attempt_app split: option.splits sum.splits)
  have ih: "length rest = length calls" "distinct (revealed_keys calls rest)"
    "set (revealed_keys calls rest) \<inter> snd st1 = {}"
    "snd st1 \<union> set (revealed_keys calls rest) \<subseteq> snd st'"
    using Cons.IH [OF rest] by blast+
  have s: "snd st \<subseteq> snd st1" "\<not> isl r \<longrightarrow> replayKey (call_context c) \<notin> snd st \<and> replayKey (call_context c) \<in> snd st1"
    using used_step_call [of c eng] c unfolding used_step_def by blast+
  have k: "revealed_keys (c # calls) rs =
      (if isl r then [] else [replayKey (call_context c)]) @ revealed_keys calls rest"
    by (simp add: revealed_keys_def rs)
  show ?case unfolding k using ih s rs by auto
qed

lemma revealed_keys_split:
  "revealed_keys calls rs =
     revealed_keys (take m calls) (take m rs) @ revealed_keys (drop m calls) (drop m rs)"
  unfolding revealed_keys_def take_zip [symmetric] drop_zip [symmetric] map_append [symmetric]
    filter_append [symmetric] append_take_drop_id ..

text \<open>C20: Whatever backend, policy and resolver are plugged in, over any run of prune and accept calls
  no two calls with the same session and operation identifiers reveal a bit, and none does whose key
  had been consumed before the run.\<close>

theorem predicate_reveals_once:
  assumes "run_calls eng calls st = Some (Inr rs, st')"
    and "i < length calls" "\<not> isl (rs ! i)"
  shows "replayKey (call_context (calls ! i)) \<notin> snd st \<and>
    (\<forall>j < length calls. j \<noteq> i \<longrightarrow> \<not> isl (rs ! j) \<longrightarrow>
       (session_id (call_context (calls ! j)), operation_id (call_context (calls ! j))) \<noteq>
       (session_id (call_context (calls ! i)), operation_id (call_context (calls ! i))))"
proof -
  note k = run_calls_keys [OF assms(1)]
  let ?ks = "revealed_keys calls rs"
  have at: "revealed_keys (drop m calls) (drop m rs) =
      replayKey (call_context (calls ! m)) # revealed_keys (drop (Suc m) calls) (drop (Suc m) rs)"
    if "m < length calls" "\<not> isl (rs ! m)" for m
    using that k by (simp add: revealed_keys_def Cons_nth_drop_Suc [symmetric])
  have mem: "replayKey (call_context (calls ! m)) \<in> set ?ks" if "m < length calls" "\<not> isl (rs ! m)" for m
    using revealed_keys_split [of calls rs m] at [OF that] by simp
  have less: "replayKey (call_context (calls ! a)) \<noteq> replayKey (call_context (calls ! b))"
    if "a < b" "b < length calls" "\<not> isl (rs ! a)" "\<not> isl (rs ! b)" for a b
  proof -
    have "drop (b - Suc a) (drop (Suc a) xs) = drop b xs" for xs :: "'x list" using that(1) by simp
    then have "replayKey (call_context (calls ! b)) \<in> set (revealed_keys (drop (Suc a) calls) (drop (Suc a) rs))"
      using revealed_keys_split [of "drop (Suc a) calls" "drop (Suc a) rs" "b - Suc a"] at [OF that(2,4)]
        that(1) by simp
    moreover have "distinct (revealed_keys (drop a calls) (drop a rs))"
      using k revealed_keys_split [of calls rs a] by simp
    ultimately show ?thesis using at [of a] that by auto
  qed
  have ne: "replayKey (call_context (calls ! j)) \<noteq> replayKey (call_context (calls ! i))"
    if "j < length calls" "j \<noteq> i" "\<not> isl (rs ! j)" for j
    using less [of i j] less [of j i] that assms(2,3) by (metis linorder_neqE_nat)
  show ?thesis
    using mem [OF assms(2,3)] k ne by (auto simp: replayKey_eq)
qed

definition sample_engine :: "unit engine" where
  "sample_engine = the_engine
     \<lparr>encryptConstant = (\<lambda>v. ret [0]), s_add = (\<lambda>a b. ret a), scalarMul = (\<lambda>a s. ret a),
      secureMul = (\<lambda>a b. ret a), secureMulBatch = (\<lambda>l. ret (map fst l)),
      greaterThan = (\<lambda>a b. ret (EncryptedBit a)), greaterThanBatch = (\<lambda>l. ret (map (\<lambda>p. EncryptedBit (fst p)) l)),
      s_domain = \<lparr>d_scale = 1, max_rows = 1, max_cost_bits = 1, max_total_bits = 1, max_linear_bits = 1,
        compare_operand_bits = 1\<rparr>, fused = None\<rparr>
     (\<lambda>ctx. ret True) (\<lambda>ctx b. ret True)"

definition sample_call :: "string \<Rightarrow> predicate_call" where
  "sample_call operation = CallPrune \<lparr>session_id = ''s'', operation_id = operation, predicate_type = PruneNode,
     ctx_depth = 0, node_id = ''n''\<rparr>
     \<lparr>linear_upper = [0], cost_lowers = [], p_has_incumbent = False, p_incumbent_cost = []\<rparr>"

text \<open>A run of three calls: the second repeats the first one and is refused, the third is another operation.\<close>

abbreviation sample_calls :: "predicate_call list" where
  "sample_calls \<equiv> [sample_call ''o'', sample_call ''o'', sample_call ''p'']"

lemma sample_run:
  "run_calls sample_engine sample_calls ((), {}) =
     Some (Inr [Inr True, Inl (PredicateError ''predicate operation replayed''), Inr True],
       ((), {replayKey (call_context (sample_call ''p'')), replayKey (call_context (sample_call ''o''))}))"
  by (simp add: run_calls_def attempt_def sample_call_def sample_engine_def the_engine_def pruneNode_def
      fused_active_def on_ops_def eff_simps evaluateFinalBit_def authorizeAndConsume_def validate_def
      valid_ids_def validIdentifier_def isalnum_c_def isdigit_c_def consume_def prune_comparisons_def replayKey_eq)

theorem predicate_reveals_once_witness:
  "\<exists>rs st'. run_calls sample_engine sample_calls ((), {}) = Some (Inr rs, st') \<and>
     \<not> isl (rs ! 0) \<and> isl (rs ! 1) \<and> \<not> isl (rs ! 2) \<and>
     replayKey (call_context (sample_calls ! 0)) \<notin> {} \<and>
     (session_id (call_context (sample_calls ! 2)), operation_id (call_context (sample_calls ! 2))) \<noteq>
     (session_id (call_context (sample_calls ! 0)), operation_id (call_context (sample_calls ! 0)))"
proof -
  let ?rs = "[Inr True, Inl (PredicateError ''predicate operation replayed''), Inr True] :: (exn + bool) list"
  have at: "0 < length sample_calls" "\<not> isl (?rs ! 0)" "2 < length sample_calls" "\<not> isl (?rs ! 2)" "isl (?rs ! 1)" by simp_all
  have once: "replayKey (call_context (sample_calls ! 0)) \<notin> {}"
    "(session_id (call_context (sample_calls ! 2)), operation_id (call_context (sample_calls ! 2))) \<noteq>
     (session_id (call_context (sample_calls ! 0)), operation_id (call_context (sample_calls ! 0)))"
    using predicate_reveals_once [OF sample_run at(1,2)] at(3,4) by auto
  with sample_run at(2,4,5) show ?thesis by blast
qed

end
