(* ===== verification/OffRuntime.thy ===== *)
theory OffRuntime
  imports SociPlus Wire PredicateEngine
begin

text \<open>
  The OFF backend behind the interface: the C API on ciphertext objects (src/c_api.cpp), the
  \<open>Runtime\<close> wrapper with its buffer protocol (include/soci/soci.hpp), \<open>RuntimeSecureOps\<close>
  (src/secure_ops.cpp) and the resolver and policy of the demo bridge. Plaintexts cross the C API as
  decimal strings that are printed on one side and parsed on the other; here they are the integers.

  The backend is shown to satisfy the contracts \<open>secure_ops\<close> and \<open>predicate_env\<close>.
\<close>

section \<open>The C API\<close>

definition ct :: "8 word \<Rightarrow> cipher \<Rightarrow> (rng, int) eff" where
  "ct mode p = of_sum (decode_object p 1 mode)"

definition encct :: "8 word \<Rightarrow> int \<Rightarrow> (rng, cipher) eff" where
  "encct mode z = of_sum (encode_object 1 mode z)"

definition soci_encrypt :: "key \<Rightarrow> 8 word \<Rightarrow> int \<Rightarrow> (rng, cipher) eff" where
  "soci_encrypt k mode m = bnd (encrypt (k_pub k) m) (encct mode)"

definition soci_decrypt :: "key \<Rightarrow> 8 word \<Rightarrow> cipher \<Rightarrow> (rng, int) eff" where
  "soci_decrypt k mode p = bnd (ct mode p) (\<lambda>c. of_sum (decrypt k c))"

definition soci_add :: "key \<Rightarrow> 8 word \<Rightarrow> cipher \<Rightarrow> cipher \<Rightarrow> (rng, cipher) eff" where
  "soci_add k mode a b = bnd (ct mode a) (\<lambda>x. bnd (ct mode b) (\<lambda>y.
     encct mode (x * y smod pk_nsq (k_pub k))))"

definition soci_scalar_mul :: "key \<Rightarrow> 8 word \<Rightarrow> cipher \<Rightarrow> int \<Rightarrow> (rng, cipher) eff" where
  "soci_scalar_mul k mode a x = bnd (ct mode a) (\<lambda>c.
     let nsq = pk_nsq (k_pub k) in
     if x < 0 then
       (case minvert c nsq of
          None \<Rightarrow> throw (StdInvalidArgument ''ciphertext inverse failed'')
        | Some d \<Rightarrow> encct mode (powm d (nat (- x)) nsq))
     else encct mode (powm c (nat x) nsq))"

definition soci_secure_mul :: "key \<Rightarrow> 8 word \<Rightarrow> cipher \<Rightarrow> cipher \<Rightarrow> (rng, cipher) eff" where
  "soci_secure_mul k mode a b = bnd (ct mode a) (\<lambda>x. bnd (ct mode b) (\<lambda>y.
     bnd (soci_plus_mul k x y) (encct mode)))"

definition soci_secure_compare :: "key \<Rightarrow> 8 word \<Rightarrow> cipher \<Rightarrow> cipher \<Rightarrow> (rng, cipher) eff" where
  "soci_secure_compare k mode a b = bnd (ct mode a) (\<lambda>av. bnd (ct mode b) (\<lambda>bv.
     bnd (soci_plus_less k bv av) (encct mode)))"

section \<open>The wrapper\<close>

text \<open>A failing call is an \<open>Error\<close> with the message the runtime recorded.\<close>

fun exn_what :: "exn \<Rightarrow> string" where
  "exn_what (StdInvalidArgument m) = m"
| "exn_what (StdRuntimeError m) = m"
| "exn_what (StdLogicError m) = m"
| "exn_what (StdLengthError m) = m"
| "exn_what (FilesystemError m) = m"
| "exn_what (SociError m) = m"
| "exn_what (PredicateError m) = m"
| "exn_what (OptimizationError _ m) = m"

definition rt_check :: "('s, 'a) eff \<Rightarrow> ('s, 'a) eff" where
  "rt_check m = catch m (\<lambda>e. throw (SociError (exn_what e)))"

text \<open>
  \<open>bytes\<close>: a first call asks for the size, then up to three calls deliver into a buffer of the
  last size reported. Every call computes the output anew.
\<close>

primrec bytes_attempts :: "('s, cipher) eff \<Rightarrow> nat \<Rightarrow> nat \<Rightarrow> ('s, cipher) eff" where
  "bytes_attempts f 0 n = throw (SociError ''output size changed repeatedly'')"
| "bytes_attempts f (Suc i) n =
     bnd (rt_check f) (\<lambda>v. if n < length v then bytes_attempts f i (length v) else ret v)"

definition runtime_bytes :: "('s, cipher) eff \<Rightarrow> ('s, cipher) eff" where
  "runtime_bytes f = bnd (rt_check f) (\<lambda>v. bytes_attempts f 3 (length v))"

text \<open>\<open>decrypt\<close> asks for the size of the text first, too.\<close>

definition runtime_decrypt :: "key \<Rightarrow> 8 word \<Rightarrow> cipher \<Rightarrow> (rng, int) eff" where
  "runtime_decrypt k mode c = bnd (rt_check (soci_decrypt k mode c)) (\<lambda>_. rt_check (soci_decrypt k mode c))"

section \<open>The backend\<close>

definition runtime_ops :: "key \<Rightarrow> 8 word \<Rightarrow> numeric_domain \<Rightarrow> rng sops" where
  "runtime_ops k mode nd =
     \<lparr>encryptConstant = (\<lambda>v. runtime_bytes (soci_encrypt k mode v)),
      s_add = (\<lambda>a b. runtime_bytes (soci_add k mode a b)),
      scalarMul = (\<lambda>a s. runtime_bytes (soci_scalar_mul k mode a s)),
      secureMul = (\<lambda>a b. runtime_bytes (soci_secure_mul k mode a b)),
      secureMulBatch = default_secureMulBatch (\<lambda>a b. runtime_bytes (soci_secure_mul k mode a b)),
      greaterThan = (\<lambda>a b. bnd (runtime_bytes (soci_secure_compare k mode a b)) (\<lambda>c. ret (EncryptedBit c))),
      greaterThanBatch = default_greaterThanBatch
        (\<lambda>a b. bnd (runtime_bytes (soci_secure_compare k mode a b)) (\<lambda>c. ret (EncryptedBit c))),
      s_domain = nd, fused = None\<rparr>"

text \<open>\<open>OffResolver\<close> and \<open>DemoAuthorizer\<close> of the demo bridge.\<close>

definition off_resolver :: "key \<Rightarrow> 8 word \<Rightarrow> predicate_context \<Rightarrow> encrypted_bit \<Rightarrow> (rng, bool) eff" where
  "off_resolver k mode context eb = bnd (runtime_decrypt k mode (ciphertext eb)) (\<lambda>v.
     if v \<noteq> 0 \<and> v \<noteq> 1 then throw (StdRuntimeError ''predicate did not resolve to a bit'')
     else ret (v = 1))"

definition demo_allowed :: "predicate_context \<Rightarrow> bool" where
  "demo_allowed context \<longleftrightarrow> take 5 (session_id context) = ''demo-'' \<and> take 5 (node_id context) = ''node-''"

definition demo_authorizer :: "predicate_context \<Rightarrow> (rng, bool) eff" where
  "demo_authorizer context = ret (demo_allowed context)"

section \<open>The contract\<close>

definition off_enc :: "key \<Rightarrow> 8 word \<Rightarrow> cipher \<Rightarrow> int \<Rightarrow> bool" where
  "off_enc k mode c x \<longleftrightarrow> (\<exists>z. decode_object c 1 mode = Inr z \<and> off_cipher k z x)"

text \<open>Fair sources, room for 128-bit operands, and objects below the size limit.\<close>

definition off_ready :: "key \<Rightarrow> rng \<Rightarrow> bool" where
  "off_ready k g \<longleftrightarrow> fair_off k (src g) \<and> compare_room (pk_n (k_pub k)) (2 ^ 128) \<and>
     mag_size (pk_nsq (k_pub k)) \<le> 1000000"

definition size_changed :: "exn \<Rightarrow> bool" where
  "size_changed e \<longleftrightarrow> e = SociError ''output size changed repeatedly''"

abbreviation off_bound :: int where "off_bound \<equiv> 2 ^ 127"

lemma yields_rt_check: "yields I no_exn m R \<Longrightarrow> yields I E (rt_check m) R"
  by (rule yieldsI_ok) (auto simp: rt_check_def eff_simps elim!: yields_no_exnD)

lemma yields_runtime_bytes:
  assumes "yields I no_exn f R"
  shows "yields I size_changed (runtime_bytes f) R"
proof -
  have a: "yields I size_changed (bytes_attempts f i n) R" for i n
  proof (induction i arbitrary: n)
    case 0
    show ?case by (simp add: yields_throw size_changed_def)
  next
    case (Suc i)
    show ?case
      unfolding bytes_attempts.simps
      by (rule yields_bnd [OF yields_rt_check [OF assms]]) (simp add: Suc yields_ret)
  qed
  show ?thesis
    unfolding runtime_bytes_def by (rule yields_bnd [OF yields_rt_check [OF assms]]) (rule a)
qed

text \<open>Two calls of the C API deliver the same plaintext.\<close>

lemma yields_runtime_decrypt:
  assumes "yields I no_exn (soci_decrypt k mode c) R"
  shows "yields I E (runtime_decrypt k mode c) R"
  unfolding runtime_decrypt_def
  by (rule yields_bnd [OF yields_rt_check [OF assms]]) (rule yields_rt_check [OF assms])

section \<open>The objects\<close>

text \<open>A ciphertext of a ready key survives the round trip through its object.\<close>

lemma off_object:
  assumes k: "good_key k" and z: "off_cipher k z x" and m: "mag_size (pk_nsq (k_pub k)) \<le> 1000000"
  shows "\<exists>p. encode_object 1 mode z = Inr p \<and> decode_object p 1 mode = Inr z"
proof -
  have n: "1 < pk_n (k_pub k)" and nsq: "pk_nsq (k_pub k) = pk_n (k_pub k) * pk_n (k_pub k)"
    using good_key_n [OF k] by simp_all
  have z0: "0 < z" and "z < pk_nsq (k_pub k)" using is_cipher_coprime [OF n z] nsq by simp_all
  then have mz: "mag_size z \<le> 1000000" using mag_size_mono [of z "pk_nsq (k_pub k)"] m by simp
  let ?p = "soci_magic @ [1, 1, mode, 0] @ writeU32 (of_nat (mag_size z)) @ mag z"
  have e: "encodeCanonicalCiphertext mode z = Inr ?p" by (rule encode_canonical_ok [OF z0])
  have "length ?p = 12 + mag_size z" using z0 by (simp add: soci_magic_def export_size_eq)
  moreover have "decodeCanonicalCiphertext ?p mode = Inr z"
    using decode_encode_canonical [OF z0 _ e] mz by simp
  ultimately show ?thesis using e mz by (simp add: encode_object_def decode_object_def kMaxObject_def)
qed

lemma yields_encct:
  assumes "off_ready k g" "off_cipher k z x"
  shows "yields I E (encct mode z) (\<lambda>c. off_enc k mode c x)"
proof -
  have "good_key k" using assms(1) by (simp add: off_ready_def fair_off_def)
  from off_object [OF this assms(2)] assms obtain p
    where "encode_object 1 mode z = Inr p" "decode_object p 1 mode = Inr z"
    by (auto simp: off_ready_def)
  with assms(2) show ?thesis
    unfolding encct_def by (intro yields_of_sum) (auto simp: off_enc_def)
qed

lemma yields_ct:
  "off_enc k mode c x \<Longrightarrow> yields I E (ct mode c) (\<lambda>z. off_cipher k z x)"
  unfolding ct_def off_enc_def by (auto intro: yields_of_sum)

section \<open>The operations of the backend\<close>

text \<open>A call under the wrapper, whose invariant carries the facts about the key.\<close>

lemma yields_off:
  assumes "\<And>g. off_ready k g \<Longrightarrow> yields (off_inv k) no_exn f R"
  shows "yields (off_ready k) no_exn f R"
proof (rule yieldsI_ok)
  fix g assume g: "off_ready k g"
  then have "off_inv k g" by (simp add: off_ready_def)
  with assms [OF g] obtain a g' where "f g = Some (Inr a, g')" "off_inv k g'" "R a"
    by (rule yields_no_exnD)
  with g show "\<exists>a g'. f g = Some (Inr a, g') \<and> off_ready k g' \<and> R a" by (auto simp: off_ready_def)
qed

lemma off_encrypt_law:
  "yields (off_ready k) size_changed (runtime_bytes (soci_encrypt k mode m)) (\<lambda>c. off_enc k mode c m)"
proof (rule yields_runtime_bytes, rule yields_off)
  fix g assume g: "off_ready k g"
  then have k: "good_key k" by (simp add: off_ready_def fair_off_def)
  show "yields (off_inv k) no_exn (soci_encrypt k mode m) (\<lambda>c. off_enc k mode c m)"
    unfolding soci_encrypt_def
    by (rule yields_bnd [OF yields_off_encrypt [OF k]]) (rule yields_encct [OF g])
qed

text \<open>An operation on decoded ciphertexts.\<close>

lemma off_unary:
  assumes "off_enc k mode a x"
    and "\<And>g u. off_ready k g \<Longrightarrow> good_key k \<Longrightarrow> off_cipher k u x \<Longrightarrow> yields (off_inv k) no_exn (f u) R"
  shows "yields (off_ready k) size_changed (runtime_bytes (bnd (ct mode a) f)) R"
proof (rule yields_runtime_bytes, rule yields_off)
  fix g assume g: "off_ready k g"
  then have "good_key k" by (simp add: off_ready_def fair_off_def)
  then show "yields (off_inv k) no_exn (bnd (ct mode a) f) R"
    by (intro yields_bnd [OF yields_ct [OF assms(1)]] assms(2) [OF g])
qed

lemma off_binary:
  assumes "off_enc k mode a x" "off_enc k mode b y"
    and "\<And>g u v. off_ready k g \<Longrightarrow> good_key k \<Longrightarrow> off_cipher k u x \<Longrightarrow> off_cipher k v y \<Longrightarrow>
      yields (off_inv k) no_exn (f u v) R"
  shows "yields (off_ready k) size_changed
    (runtime_bytes (bnd (ct mode a) (\<lambda>u. bnd (ct mode b) (f u)))) R"
  by (rule off_unary [OF assms(1)]) (rule yields_bnd [OF yields_ct [OF assms(2)]], rule assms(3))

lemma off_add_law:
  assumes "off_enc k mode a x" "off_enc k mode b y"
  shows "yields (off_ready k) size_changed (runtime_bytes (soci_add k mode a b)) (\<lambda>c. off_enc k mode c (x + y))"
  unfolding soci_add_def
proof (rule off_binary [OF assms])
  fix g u v assume a: "off_ready k g" "good_key k" "off_cipher k u x" "off_cipher k v y"
  have "off_cipher k (u * v smod pk_nsq (k_pub k)) (x + y)"
    using mult_mod_positive_cipher [OF good_key_n(1) [OF a(2)] a(3,4)] good_key_n(2) [OF a(2)] by simp
  with a(1) show "yields (off_inv k) no_exn (encct mode (u * v smod pk_nsq (k_pub k)))
      (\<lambda>c. off_enc k mode c (x + y))" by (rule yields_encct)
qed

lemma off_scalar_mul_law:
  assumes "off_enc k mode a x"
  shows "yields (off_ready k) size_changed (runtime_bytes (soci_scalar_mul k mode a e))
    (\<lambda>c. off_enc k mode c (e * x))"
  unfolding soci_scalar_mul_def Let_def
proof (rule off_unary [OF assms])
  fix g u assume a: "off_ready k g" "good_key k" "off_cipher k u x"
  obtain d where d: "ciphertextPower u e (pk_nsq (k_pub k)) = Inr d" "off_cipher k d (e * x)"
    using ciphertextPower_cipher [OF good_key_n(1) [OF a(2)] a(3), of e] good_key_n(2) [OF a(2)] by auto
  have "(if e < 0
          then case minvert u (pk_nsq (k_pub k)) of
                 None \<Rightarrow> throw (StdInvalidArgument ''ciphertext inverse failed'')
               | Some d \<Rightarrow> encct mode (powm d (nat (- e)) (pk_nsq (k_pub k)))
          else encct mode (powm u (nat e) (pk_nsq (k_pub k)))) = encct mode d"
    using d(1) by (auto simp: ciphertextPower_def split: if_splits option.splits)
  with yields_encct [OF a(1) d(2)]
  show "yields (off_inv k) no_exn (if e < 0
          then case minvert u (pk_nsq (k_pub k)) of
                 None \<Rightarrow> throw (StdInvalidArgument ''ciphertext inverse failed'')
               | Some d \<Rightarrow> encct mode (powm d (nat (- e)) (pk_nsq (k_pub k)))
          else encct mode (powm u (nat e) (pk_nsq (k_pub k)))) (\<lambda>c. off_enc k mode c (e * x))"
    by simp
qed

lemma off_mul_law:
  assumes "off_enc k mode a x" "off_enc k mode b y"
  shows "yields (off_ready k) size_changed (runtime_bytes (soci_secure_mul k mode a b))
    (\<lambda>c. off_enc k mode c (x * y))"
  unfolding soci_secure_mul_def
proof (rule off_binary [OF assms])
  fix g u v assume a: "off_ready k g" "good_key k" "off_cipher k u x" "off_cipher k v y"
  have "2 ^ 128 \<le> pk_n (k_pub k)"
    using a(1) by (intro compare_room_modulus [of _ "2 ^ 128"]) (simp_all add: off_ready_def)
  from yields_soci_plus_mul [OF a(2,3,4) this]
  show "yields (off_inv k) no_exn (bnd (soci_plus_mul k u v) (encct mode)) (\<lambda>c. off_enc k mode c (x * y))"
    by (rule yields_bnd) (rule yields_encct [OF a(1)])
qed

lemma off_compare_law:
  assumes "off_enc k mode a x" "off_enc k mode b y" "\<bar>x\<bar> < off_bound" "\<bar>y\<bar> < off_bound"
  shows "yields (off_ready k) size_changed (runtime_bytes (soci_secure_compare k mode a b))
    (\<lambda>c. off_enc k mode c (if x > y then 1 else 0))"
  unfolding soci_secure_compare_def
proof (rule off_binary [OF assms(1,2)])
  fix g u v assume a: "off_ready k g" "good_key k" "off_cipher k u x" "off_cipher k v y"
  have "\<bar>y - x\<bar> \<le> 2 ^ 128" using assms(3,4) by simp
  moreover have "compare_room (pk_n (k_pub k)) (2 ^ 128)" using a(1) by (simp add: off_ready_def)
  ultimately show "yields (off_inv k) no_exn (bnd (soci_plus_less k v u) (encct mode))
      (\<lambda>c. off_enc k mode c (if x > y then 1 else 0))"
    by (intro yields_bnd [OF yields_soci_plus_less [OF a(2,4,3)]] yields_encct [OF a(1)])
qed

section \<open>The contracts hold\<close>

lemma off_enc_nonempty: "off_enc k mode c x \<Longrightarrow> c \<noteq> []"
  by (auto simp: off_enc_def decode_object_def decodeCanonicalCiphertext_def)

lemma off_operands:
  "operands (off_enc k mode) off_bound (a, b) (x, y) \<Longrightarrow>
     off_enc k mode a x \<and> off_enc k mode b y \<and> \<bar>x\<bar> < off_bound \<and> \<bar>y\<bar> < off_bound"
  by (simp add: operands_def)

lemma off_gt_law:
  assumes "operands (off_enc k mode) off_bound (a, b) (x, y)"
  shows "yields (off_ready k) size_changed
    (bnd (runtime_bytes (soci_secure_compare k mode a b)) (\<lambda>c. ret (EncryptedBit c)))
    (\<lambda>c. enc_bit (off_enc k mode) c (x > y))"
  using off_operands [OF assms]
  by (auto intro!: yields_bnd [OF off_compare_law] yields_ret simp: enc_bit_def)

lemma off_secure_ops:
  "secure_ops (runtime_ops k mode nd) (off_ready k) (off_enc k mode) size_changed off_bound 32"
proof
  fix c x show "off_enc k mode c x \<Longrightarrow> c \<noteq> []" by (rule off_enc_nonempty)
next
  fix items vs
  assume v: "list_all2 (operands (off_enc k mode) off_bound) items vs"
  show "yields (off_ready k) size_changed (secureMulBatch (runtime_ops k mode nd) items)
      (\<lambda>cs. list_all2 (\<lambda>v c. off_enc k mode c (fst v * snd v)) vs cs)"
    using yields_mapM_values [OF v, of "off_ready k" size_changed
        "\<lambda>item. runtime_bytes (soci_secure_mul k mode (fst item) (snd item))"
        "\<lambda>v c. off_enc k mode c (fst v * snd v)"]
    by (auto simp: runtime_ops_def default_secureMulBatch_def operands_def intro!: off_mul_law)
  have "yields (off_ready k) size_changed
      (mapM (\<lambda>item. bnd (runtime_bytes (soci_secure_compare k mode (fst item) (snd item)))
         (\<lambda>c. ret (EncryptedBit c))) items)
      (list_all2 (\<lambda>v c. enc_bit (off_enc k mode) c (snd v < fst v)) vs)"
  proof (rule yields_mapM_values [OF v])
    fix x v assume o: "operands (off_enc k mode) off_bound x v"
    show "yields (off_ready k) size_changed
        (bnd (runtime_bytes (soci_secure_compare k mode (fst x) (snd x))) (\<lambda>c. ret (EncryptedBit c)))
        (\<lambda>c. enc_bit (off_enc k mode) c (snd v < fst v))"
      by (rule off_gt_law) (simp only: prod.collapse o)
  qed
  then show "yields (off_ready k) size_changed (greaterThanBatch (runtime_ops k mode nd) items)
      (\<lambda>cs. list_all2 (\<lambda>v c. enc_bit (off_enc k mode) c (snd v < fst v)) vs cs)"
    by (simp add: runtime_ops_def default_greaterThanBatch_def)
qed (auto simp: runtime_ops_def off_encrypt_law off_add_law off_scalar_mul_law
    dest!: off_operands intro!: off_mul_law off_gt_law simp: operands_def)

interpretation off: secure_ops "runtime_ops k mode nd" "off_ready k" "off_enc k mode" size_changed
  off_bound 32 for k mode nd
  by (rule off_secure_ops)

lemma off_reveal_law:
  assumes "enc_bit (off_enc k mode) b p"
  shows "yields (off_ready k) no_exn (runtime_decrypt k mode (ciphertext b)) (\<lambda>v. v = b2i p)"
proof (rule yields_runtime_decrypt, rule yields_off)
  fix g assume g: "off_ready k g"
  then have k: "good_key k" and "compare_room (pk_n (k_pub k)) (2 ^ 128)"
    by (simp_all add: off_ready_def fair_off_def)
  then have n: "2 * \<bar>b2i p\<bar> + 2 \<le> pk_n (k_pub k)" by (intro compare_room_small) auto
  have "off_enc k mode (ciphertext b) (b2i p)" using assms by (simp add: enc_bit_def)
  then show "yields (off_inv k) no_exn (soci_decrypt k mode (ciphertext b)) (\<lambda>v. v = b2i p)"
    unfolding soci_decrypt_def
    by (intro yields_bnd [OF yields_ct]) (auto intro: yields_of_sum decrypt_small [OF k _ n])
qed

interpretation off_env: predicate_env "runtime_ops k mode nd" "\<lambda>_. off_ready k" "off_enc k mode" size_changed
  off_bound 32 demo_authorizer "off_resolver k mode" True UNIV for k mode nd
proof
  fix ctx show "yields (off_ready k) size_changed (demo_authorizer ctx) (\<lambda>r. r \<or> True)"
    by (simp add: demo_authorizer_def yields_ret)
next
  fix ctx b p assume "enc_bit (off_enc k mode) b p"
  then have "yields (off_ready k) size_changed (runtime_decrypt k mode (ciphertext b)) (\<lambda>v. v = b2i p)"
    by (intro yields_weaken_exn [OF off_reveal_law]) (simp_all add: no_exn_def)
  then show "yields (off_ready k) size_changed (off_resolver k mode ctx b) (\<lambda>r. r = p)"
    unfolding off_resolver_def by (rule yields_bnd) (auto intro: yields_ret split: if_splits)
qed (simp_all add: runtime_ops_def)

text \<open>The environment whose policy gives one answer; it denies only if that is no.\<close>

interpretation off_call: predicate_env "runtime_ops k mode nd" "\<lambda>_. off_ready k" "off_enc k mode" size_changed
  off_bound 32 "\<lambda>_. ret allowed" "off_resolver k mode" "\<not> allowed" UNIV for k mode nd allowed
proof
  fix ctx show "yields (off_ready k) size_changed (ret allowed) (\<lambda>r. r \<or> \<not> allowed)"
    by (simp add: yields_ret)
qed (simp_all add: off_env.reveal_law runtime_ops_def)

section \<open>The predicates over the OFF backend\<close>

definition off_engine :: "key \<Rightarrow> 8 word \<Rightarrow> numeric_domain \<Rightarrow> rng engine" where
  "off_engine k mode nd = the_engine (runtime_ops k mode nd) demo_authorizer (off_resolver k mode)"

text \<open>What a predicate call over this backend may throw instead of answering.\<close>

definition off_refused :: "exn \<Rightarrow> bool" where
  "off_refused e \<longleftrightarrow> e = SociError ''output size changed repeatedly'' \<or>
     e = PredicateError ''predicate evaluation denied''"

lemma off_refused_eq: "(\<lambda>e. size_changed e \<or> denied True e) = off_refused"
  by (auto simp: size_changed_def denied_def off_refused_def)

text \<open>A single predicate asks the policy about its own context only.\<close>

lemma engine_auth_cong:
  assumes "auth ctx = auth' ctx"
  shows "pruneNode (the_engine ops auth res) ctx inputs = pruneNode (the_engine ops auth' res) ctx inputs"
    "acceptCandidate (the_engine ops auth res) ctx inputs' = acceptCandidate (the_engine ops auth' res) ctx inputs'"
proof -
  have e: "e_ops (the_engine ops x res) = ops" "resolver (the_engine ops x res) = res" "authorizer (the_engine ops x res) = x" for x
    by (simp_all add: the_engine_def)
  have a: "authorizeAndConsume (the_engine ops auth res) ctx ty = authorizeAndConsume (the_engine ops auth' res) ctx ty" for ty
    unfolding authorizeAndConsume_def e assms ..
  have b: "evaluateFinalBit (the_engine ops auth res) ctx ty = evaluateFinalBit (the_engine ops auth' res) ctx ty" for ty
    unfolding evaluateFinalBit_def e a ..
  show "pruneNode (the_engine ops auth res) ctx inputs = pruneNode (the_engine ops auth' res) ctx inputs"
    "acceptCandidate (the_engine ops auth res) ctx inputs' = acceptCandidate (the_engine ops auth' res) ctx inputs'"
    unfolding pruneNode_def acceptCandidate_def fused_active_def e a b by (rule refl)+
qed

definition off_refusal :: "predicate_context \<Rightarrow> exn \<Rightarrow> bool" where
  "off_refusal ctx e \<longleftrightarrow> e = SociError ''output size changed repeatedly'' \<or>
     (e = PredicateError ''predicate evaluation denied'' \<and> \<not> demo_allowed ctx)"

lemma off_refusal_eq: "(\<lambda>e. size_changed e \<or> denied (\<not> demo_allowed ctx) e) = off_refusal ctx"
  by (auto simp: size_changed_def denied_def off_refusal_def)

lemma off_engine_call:
  "pruneNode (off_engine k mode nd) ctx inputs =
     pruneNode (the_engine (runtime_ops k mode nd) (\<lambda>_. ret (demo_allowed ctx)) (off_resolver k mode)) ctx inputs"
  "acceptCandidate (off_engine k mode nd) ctx inputs' =
     acceptCandidate (the_engine (runtime_ops k mode nd) (\<lambda>_. ret (demo_allowed ctx)) (off_resolver k mode)) ctx inputs'"
  unfolding off_engine_def by (rule engine_auth_cong, simp add: demo_authorizer_def)+

lemma runs_cases:
  "runs E m s Q \<longleftrightarrow> (\<exists>r s'. m s = Some (r, s') \<and> (case r of Inl e \<Rightarrow> E e | Inr a \<Rightarrow> Q a s'))"
  by (auto simp: runs_def split: option.splits)

text \<open>C12: Over the OFF backend, \<open>pruneNode\<close> on encryptions of values below 2^127 ends and reveals
  exactly the branch-and-bound pruning decision: the optimistic linear slack is negative, or one of at
  most 31 cost lower bounds exceeds the incumbent. It answers unless an output grew three times in a
  row, or the policy of the demo, which looks at the prefixes of the session and node names, does not
  allow the call.\<close>

theorem prune_node_decision:
  assumes "off_ready k g" "valid_ids ctx" "predicate_type ctx = PruneNode" "replayKey ctx \<notin> used"
    and "prune_values (off_enc k mode) off_bound 32 inputs slack lowers incumbent"
  shows "\<exists>r g' used'. pruneNode (off_engine k mode nd) ctx inputs (g, used) = Some (r, (g', used')) \<and>
    (case r of Inl e \<Rightarrow> off_refusal ctx e
     | Inr b \<Rightarrow> b = (slack < 0 \<or> (p_has_incumbent inputs \<and> (\<exists>l \<in> set lowers. incumbent < l))) \<and>
         used' = insert (replayKey ctx) used)"
proof -
  have "runs (off_refusal ctx) (pruneNode (off_engine k mode nd) ctx inputs) (g, used)
    (\<lambda>r st'. r = prune_decision slack lowers (p_has_incumbent inputs) incumbent \<and>
       off_ready k (fst st') \<and> snd st' = insert (replayKey ctx) used)"
    using off_call.pruneNode_runs [OF assms(2,3) UNIV_I _ _ assms(5), of "(g, used)" "demo_allowed ctx" nd] assms(1,4)
    unfolding off_engine_call off_refusal_eq fst_conv snd_conv by blast
  then show ?thesis
    unfolding runs_cases by (fastforce simp: prune_decision_def list_ex_iff split: sum.splits)
qed

text \<open>C19: Over the OFF backend, \<open>acceptCandidate\<close> reveals exactly whether a complete candidate is
  feasible (no negative linear slack, at least one type-3 gain) and, when there is an incumbent,
  better: cheaper, or equally expensive with a smaller tie breaker.\<close>

theorem accept_candidate_decision:
  assumes "off_ready k g" "valid_ids ctx" "predicate_type ctx = AcceptCandidate" "replayKey ctx \<notin> used"
    and "accept_values (off_enc k mode) off_bound inputs slack c3 cost c12 inc_cost inc_c12"
  shows "\<exists>r g' used'. acceptCandidate (off_engine k mode nd) ctx inputs (g, used) = Some (r, (g', used')) \<and>
    (case r of Inl e \<Rightarrow> off_refusal ctx e
     | Inr b \<Rightarrow> b = (0 \<le> slack \<and> 0 < c3 \<and>
          (\<not> a_has_incumbent inputs \<or> cost < inc_cost \<or> (cost = inc_cost \<and> c12 < inc_c12))) \<and>
         used' = insert (replayKey ctx) used)"
proof -
  have "runs (off_refusal ctx) (acceptCandidate (off_engine k mode nd) ctx inputs) (g, used)
    (\<lambda>r st'. r = accept_decision slack c3 cost c12 (a_has_incumbent inputs) inc_cost inc_c12 \<and>
       off_ready k (fst st') \<and> snd st' = insert (replayKey ctx) used)"
    using off_call.acceptCandidate_runs [OF assms(2,3) UNIV_I _ _ assms(5), of "(g, used)" "demo_allowed ctx" nd] assms(1,4)
    unfolding off_engine_call off_refusal_eq fst_conv snd_conv by blast
  then show ?thesis
    unfolding runs_cases by (fastforce simp: accept_decision_def split: sum.splits)
qed

text \<open>A ready key, and the object of a ciphertext under it.\<close>

definition sample_object :: "int \<Rightarrow> cipher" where
  "sample_object m = projr (encode_object 1 0 (sample_cipher m))"

lemma sample_nsq: "mag_size (pk_nsq (k_pub sample_key)) \<le> 1000000"
proof -
  have "mag_size (sample_n * sample_n) \<le> 1000"
    by (rule mag_size_bound) (simp_all add: sample_n_def)
  then show ?thesis by (simp add: sample_key_def)
qed

lemma sample_ready: "off_ready sample_key sample_rng"
  unfolding off_ready_def using sample_fair_off sample_room [of "2 ^ 128"] sample_nsq by simp

lemma sample_object: "off_enc sample_key 0 (sample_object m) m"
proof -
  have c: "off_cipher sample_key (sample_cipher m) m" using sample_cipher [of m] by simp
  from off_object [OF sample_good c sample_nsq, of 0] c show ?thesis
    by (auto simp: off_enc_def sample_object_def)
qed

definition sample_domain :: numeric_domain where
  "sample_domain = \<lparr>d_scale = 1000000, max_rows = 4, max_cost_bits = 16, max_total_bits = 18,
     max_linear_bits = 40, compare_operand_bits = 40\<rparr>"

definition sample_prune :: prune_inputs where
  "sample_prune = \<lparr>linear_upper = sample_object 3, cost_lowers = [sample_object 5, sample_object 9],
     p_has_incumbent = True, p_incumbent_cost = sample_object 8\<rparr>"

definition sample_accept :: accept_inputs where
  "sample_accept = \<lparr>a_linear = sample_object 0, a_c3 = sample_object 2, a_cost = sample_object 7,
     a_c12 = sample_object 4, a_has_incumbent = True, a_incumbent_cost = sample_object 7,
     a_incumbent_c12 = sample_object 4\<rparr>"

definition sample_context :: "predicate_type \<Rightarrow> predicate_context" where
  "sample_context ty = \<lparr>session_id = ''demo-1'', operation_id = ''op-1'', predicate_type = ty,
     ctx_depth = 0, node_id = ''node-0''\<rparr>"

lemma sample_context: "valid_ids (sample_context ty)" "predicate_type (sample_context ty) = ty"
  by (simp_all add: sample_context_def valid_ids_def validIdentifier_def isalnum_c_def isdigit_c_def)

lemma sample_allowed: "demo_allowed (sample_context ty) = True"
  by (simp add: demo_allowed_def sample_context_def)

theorem prune_node_decision_witness:
  "\<exists>r g' used'. pruneNode (off_engine sample_key 0 sample_domain) (sample_context PruneNode) sample_prune
      (sample_rng, {}) = Some (r, (g', used')) \<and>
    (case r of Inl e \<Rightarrow> e = SociError ''output size changed repeatedly''
     | Inr b \<Rightarrow> b = ((3::int) < 0 \<or> (True \<and> (\<exists>l \<in> set [5, 9]. (8::int) < l))) \<and>
         used' = insert (replayKey (sample_context PruneNode)) {})"
proof -
  have "prune_values (off_enc sample_key 0) off_bound 32 sample_prune 3 [5, 9] 8"
    by (simp add: prune_values_def sample_prune_def sample_object)
  from prune_node_decision [OF sample_ready sample_context, of "{}", OF _ this, of sample_domain] sample_allowed
  have "\<exists>r g' used'. pruneNode (off_engine sample_key 0 sample_domain) (sample_context PruneNode) sample_prune
      (sample_rng, {}) = Some (r, (g', used')) \<and>
    (case r of Inl e \<Rightarrow> e = SociError ''output size changed repeatedly''
     | Inr b \<Rightarrow> b = ((3::int) < 0 \<or> (p_has_incumbent sample_prune \<and> (\<exists>l \<in> set [5, 9]. (8::int) < l))) \<and>
         used' = insert (replayKey (sample_context PruneNode)) {})" by (simp only: off_refusal_def simp_thms empty_iff)
  moreover have "p_has_incumbent sample_prune = True" by (simp add: sample_prune_def)
  ultimately show ?thesis by (simp only:)
qed

theorem accept_candidate_decision_witness:
  "\<exists>r g' used'. acceptCandidate (off_engine sample_key 0 sample_domain) (sample_context AcceptCandidate) sample_accept
      (sample_rng, {}) = Some (r, (g', used')) \<and>
    (case r of Inl e \<Rightarrow> e = SociError ''output size changed repeatedly''
     | Inr b \<Rightarrow> b = ((0::int) \<le> 0 \<and> (0::int) < 2 \<and> (\<not> True \<or> (7::int) < 7 \<or> ((7::int) = 7 \<and> (4::int) < 4))) \<and>
         used' = insert (replayKey (sample_context AcceptCandidate)) {})"
proof -
  have "accept_values (off_enc sample_key 0) off_bound sample_accept 0 2 7 4 7 4"
    by (simp add: accept_values_def sample_accept_def sample_object)
  from accept_candidate_decision [OF sample_ready sample_context, of "{}", OF _ this, of sample_domain] sample_allowed
  have "\<exists>r g' used'. acceptCandidate (off_engine sample_key 0 sample_domain) (sample_context AcceptCandidate) sample_accept
      (sample_rng, {}) = Some (r, (g', used')) \<and>
    (case r of Inl e \<Rightarrow> e = SociError ''output size changed repeatedly''
     | Inr b \<Rightarrow> b = ((0::int) \<le> 0 \<and> (0::int) < 2 \<and> (\<not> a_has_incumbent sample_accept \<or> (7::int) < 7 \<or>
           ((7::int) = 7 \<and> (4::int) < 4))) \<and>
         used' = insert (replayKey (sample_context AcceptCandidate)) {})" by (simp only: off_refusal_def simp_thms empty_iff)
  moreover have "a_has_incumbent sample_accept = True" by (simp add: sample_accept_def)
  ultimately show ?thesis by (simp only:)
qed

end
