(* ===== verification/LagrangianGrid.thy ===== *)
theory LagrangianGrid
  imports SecureOps "HOL-Library.Signed_Division"
begin

text \<open>
  The multiplier grid of the Lagrangian cost bound (src/lagrangian_relaxation.cpp). The code
  computes in \<open>__int128\<close>; the quantities are at most 2^126 (\<open>coefficient_bound_range\<close>),
  so they are unbounded integers here. A \<open>std::set\<close> is a sorted list without duplicates.

  Proved: the binary search returns the largest supported multiplier (\<open>maximum_mu_correct\<close>), a
  supported multiplier keeps every score in the range of the secure operations
  (\<open>score_range\<close>), and a grid that is built is valid (\<open>lagrangian_grid_valid\<close>).
\<close>

section \<open>Bit widths\<close>

definition kMaxLagrangianGridSize :: nat where "kMaxLagrangianGridSize = 16"

definition kSecureOperandBits :: nat where "kSecureOperandBits = 127"

abbreviation i64_max :: int where "i64_max \<equiv> 2 ^ 63 - 1"

record lagrangian_config =
  denominator :: int
  requested_size :: nat
  span_factor :: int

record lagrangian_grid =
  g_q :: int
  g_denominator :: int
  g_mu :: "int list"

record lagrangian_bounds =
  score_bits :: nat
  score_delta_bits :: nat
  bound_bits :: nat
  maximum_supported_mu :: int

definition lg_invalid :: "string \<Rightarrow> exn + 'a" where
  "lg_invalid message = Inl (OptimizationError InvalidArgument message)"

definition lg_range :: "string \<Rightarrow> exn + 'a" where
  "lg_range message = Inl (OptimizationError NumericRangeExceeded message)"

text \<open>The loop of \<open>ceilLog2\<close>; the argument counts the doublings left before 127 bits.\<close>

primrec ceil_log2_loop :: "int \<Rightarrow> nat \<Rightarrow> nat \<Rightarrow> int \<Rightarrow> exn + nat" where
  "ceil_log2_loop v 0 bits pw =
     (if pw < v then lg_range ''Lagrangian bit calculation overflowed'' else Inr bits)"
| "ceil_log2_loop v (Suc k) bits pw =
     (if pw < v then ceil_log2_loop v k (bits + 1) (pw * 2) else Inr bits)"

definition ceilLog2_wide :: "int \<Rightarrow> exn + nat" where
  "ceilLog2_wide v =
     (if v \<le> 0 then lg_range ''non-positive Lagrangian magnitude bound''
      else ceil_log2_loop v 127 0 1)"

definition checkedBitSum_lg :: "nat \<Rightarrow> nat \<Rightarrow> exn + nat" where
  "checkedBitSum_lg a b =
     (if a > 2 ^ 32 - 1 - b then lg_range ''Lagrangian bit calculation overflowed'' else Inr (a + b))"

definition coefficientBound :: "int \<Rightarrow> int \<Rightarrow> int \<Rightarrow> int \<Rightarrow> int" where
  "coefficientBound q mu alpha threshold = max \<bar>q - mu * alpha\<bar> (q + mu * threshold)"

text \<open>\<open>Bits\<close>: score, delta and bound.\<close>

definition requiredBits :: "numeric_domain \<Rightarrow> int \<Rightarrow> int \<Rightarrow> int \<Rightarrow> exn + nat \<times> nat \<times> nat" where
  "requiredBits d threshold q maximum_mu =
     sbind (ceilLog2_wide (coefficientBound q maximum_mu (d_scale d - threshold) threshold)) (\<lambda>lg.
     sbind (checkedBitSum_lg (max_cost_bits d) lg) (\<lambda>score.
     sbind (checkedBitSum_lg score 1) (\<lambda>delta.
     sbind (ceilLog2_wide (int (max_rows d))) (\<lambda>lr.
     sbind (checkedBitSum_lg score lr) (\<lambda>bnd_bits.
     Inr (score, delta, bnd_bits))))))"

definition supported :: "numeric_domain \<Rightarrow> int \<Rightarrow> int \<Rightarrow> int \<Rightarrow> exn + bool" where
  "supported d threshold q mu =
     sbind (requiredBits d threshold q mu) (\<lambda>(score, delta, bnd_bits).
     Inr (delta \<le> kSecureOperandBits \<and> bnd_bits \<le> compare_operand_bits d \<and>
          compare_operand_bits d \<le> kSecureOperandBits))"

section \<open>The largest supported multiplier\<close>

text \<open>The binary search.\<close>

function mu_search :: "numeric_domain \<Rightarrow> int \<Rightarrow> int \<Rightarrow> int \<Rightarrow> int \<Rightarrow> exn + int" where
  "mu_search d threshold q low high =
     (if low < high then
        (let midpoint = low + (high - low + 1) div 2 in
         case supported d threshold q midpoint of
           Inl e \<Rightarrow> Inl e
         | Inr ok \<Rightarrow> if ok then mu_search d threshold q midpoint high
                    else mu_search d threshold q low (midpoint - 1))
      else Inr low)"
  by pat_completeness auto
termination
  by (relation "measure (\<lambda>(d, threshold, q, low, high). nat (high - low))") auto

declare mu_search.simps [simp del]

definition maximumMu :: "numeric_domain \<Rightarrow> int \<Rightarrow> int \<Rightarrow> exn + int" where
  "maximumMu d threshold q =
     sbind (supported d threshold q 0) (\<lambda>ok.
     if \<not> ok then lg_range ''Lagrangian Q exceeds NumericDomain'' else mu_search d threshold q 0 i64_max)"

definition roundedRatio :: "int \<Rightarrow> int \<Rightarrow> int \<Rightarrow> exn + int" where
  "roundedRatio a b den =
     (if den \<le> 0 then lg_invalid ''invalid Lagrangian grid ratio''
      else let rounded = (a * b + den sdiv 2) sdiv den in
        Inr (if rounded > i64_max then i64_max else rounded))"

section \<open>Checking and building a grid\<close>

definition deriveLagrangianNumericBounds ::
  "numeric_domain \<Rightarrow> int \<Rightarrow> lagrangian_grid \<Rightarrow> exn + lagrangian_bounds" where
  "deriveLagrangianNumericBounds d threshold grid =
     (if d_scale d \<le> 0 \<or> max_rows d = 0 \<or> max_cost_bits d = 0 \<or> compare_operand_bits d = 0
      then lg_invalid ''incomplete NumericDomain for Lagrangian relaxation''
      else if threshold < 0 \<or> threshold \<ge> d_scale d
      then lg_invalid ''threshold_scaled must satisfy 0 <= threshold_scaled < scale''
      else if g_q grid \<le> 0 \<or> g_denominator grid \<le> 0 \<or> g_mu grid = []
      then lg_invalid ''invalid Lagrangian grid''
      else if d_scale d * g_denominator grid \<noteq> g_q grid
      then lg_invalid ''Lagrangian Q must equal SCALE * denominator''
      else if \<not> sorted (g_mu grid) \<or> hd (g_mu grid) \<noteq> 0
      then lg_invalid ''Lagrangian mu grid must be sorted and contain zero''
      else if \<not> distinct_adj (g_mu grid)
      then lg_invalid ''Lagrangian mu grid must not contain duplicates''
      else if last (g_mu grid) < 0 then lg_invalid ''Lagrangian mu must be non-negative''
      else if compare_operand_bits d > kSecureOperandBits
      then lg_range ''compare_operand_bits exceeds secure protocol range''
      else sbind (maximumMu d threshold (g_q grid)) (\<lambda>maximum.
        if last (g_mu grid) > maximum then lg_range ''Lagrangian mu exceeds NumericDomain''
        else sbind (requiredBits d threshold (g_q grid) (last (g_mu grid))) (\<lambda>(score, delta, bnd_bits).
          Inr \<lparr>score_bits = score, score_delta_bits = delta, bound_bits = bnd_bits,
               maximum_supported_mu = maximum\<rparr>)))"

definition set_insert :: "int \<Rightarrow> int list \<Rightarrow> int list" where
  "set_insert x xs = (if x \<in> set xs then xs else insort x xs)"

definition addAnchor :: "nat \<Rightarrow> int \<Rightarrow> int \<Rightarrow> int list \<Rightarrow> int list" where
  "addAnchor requested upper anchor values =
     (if length values < requested \<and> anchor > 0 \<and> anchor \<le> upper then set_insert anchor values
      else values)"

definition add_intervals :: "nat \<Rightarrow> int \<Rightarrow> int list \<Rightarrow> int list" where
  "add_intervals requested upper values =
     (if requested > 1 \<and> upper > 0 then
        let intervals = int requested - 1 in
        fold (\<lambda>i. set_insert ((upper * int i + intervals div 2) div intervals)) [1..<requested] values
      else values)"

text \<open>Which value the shrinking loop erases: the last one, or the last that is no anchor.\<close>

definition erase_candidate :: "int \<Rightarrow> int \<Rightarrow> int list \<Rightarrow> int option" where
  "erase_candidate alpha_anchor threshold_anchor values =
     (if last values = alpha_anchor \<or> last values = threshold_anchor
      then find (\<lambda>v. v \<noteq> 0 \<and> v \<noteq> alpha_anchor \<and> v \<noteq> threshold_anchor) (rev (butlast values))
      else Some (last values))"

lemma find_mem: "find P xs = Some x \<Longrightarrow> x \<in> set xs \<and> P x"
  by (induction xs) (auto split: if_splits)

lemma erase_candidate_mem: "values \<noteq> [] \<Longrightarrow> erase_candidate a t values = Some v \<Longrightarrow> v \<in> set values"
  unfolding erase_candidate_def by (auto split: if_splits dest!: find_mem in_set_butlastD)

function shrink_grid :: "nat \<Rightarrow> int \<Rightarrow> int \<Rightarrow> int list \<Rightarrow> int list" where
  "shrink_grid requested a t values =
     (if length values > requested then
        (case erase_candidate a t values of
           None \<Rightarrow> values
         | Some v \<Rightarrow> shrink_grid requested a t (remove1 v values))
      else values)"
  by pat_completeness auto
termination
proof (relation "measure (\<lambda>(requested, a, t, values). length values)", simp, goal_cases)
  case (1 requested a t vs v)
  then have "v \<in> set vs" by (intro erase_candidate_mem) auto
  then show ?case using length_pos_if_in_set [of v vs] by (simp add: length_remove1)
qed

declare shrink_grid.simps [simp del]

text \<open>The candidate multipliers between 0 and \<open>upper\<close>.\<close>

definition grid_values :: "nat \<Rightarrow> int \<Rightarrow> int \<Rightarrow> int \<Rightarrow> int list" where
  "grid_values requested upper alpha_anchor threshold_anchor =
     shrink_grid requested alpha_anchor threshold_anchor
       (add_intervals requested upper
         (addAnchor requested upper threshold_anchor (addAnchor requested upper alpha_anchor [0])))"

definition buildLagrangianGrid ::
  "numeric_domain \<Rightarrow> int \<Rightarrow> lagrangian_config \<Rightarrow> exn + lagrangian_grid" where
  "buildLagrangianGrid d threshold config =
     (if d_scale d \<le> 0 \<or> denominator config \<le> 0 \<or> requested_size config = 0 \<or>
         requested_size config > kMaxLagrangianGridSize \<or> span_factor config \<le> 0
      then lg_invalid ''invalid Lagrangian grid configuration''
      else if threshold < 0 \<or> threshold \<ge> d_scale d
      then lg_invalid ''threshold_scaled must satisfy 0 <= threshold_scaled < scale''
      else if d_scale d * denominator config > i64_max
      then lg_range ''Lagrangian Q exceeds int64 ScalarMul range''
      else
        let q = d_scale d * denominator config;
            grid = \<lparr>g_q = q, g_denominator = denominator config, g_mu = [0]\<rparr> in
        if threshold = 0 \<or> requested_size config = 1
        then sbind (deriveLagrangianNumericBounds d threshold grid) (\<lambda>_. Inr grid)
        else
          sbind (maximumMu d threshold q) (\<lambda>limit.
          sbind (roundedRatio (denominator config) (d_scale d) (d_scale d - threshold)) (\<lambda>alpha_anchor.
          sbind (roundedRatio (denominator config) (d_scale d) threshold) (\<lambda>threshold_anchor.
          let desired = min (span_factor config * max alpha_anchor threshold_anchor) i64_max;
              upper = min limit desired;
              grid = grid\<lparr>g_mu := grid_values (requested_size config) upper alpha_anchor threshold_anchor\<rparr> in
          sbind (deriveLagrangianNumericBounds d threshold grid) (\<lambda>_. Inr grid)))))"

section \<open>The bit widths are exact\<close>

lemma ceil_log2_loop_Inr:
  "ceil_log2_loop v k bits (2 ^ bits) = Inr b \<Longrightarrow> v \<le> 2 ^ b \<and> bits \<le> b \<and> (b = bits \<or> 2 ^ (b - 1) < v)"
proof (induction k arbitrary: bits)
  case 0
  then show ?case by (auto simp: lg_range_def split: if_splits)
next
  case (Suc k)
  show ?case
  proof (cases "2 ^ bits < v")
    case True
    then have "ceil_log2_loop v k (Suc bits) (2 ^ Suc bits) = Inr b" using Suc.prems by (simp add: mult.commute)
    from Suc.IH [OF this] True show ?thesis by (cases "b = Suc bits") auto
  qed (use Suc.prems in auto)
qed

lemma ceil_log2_loop_total:
  "v \<le> 2 ^ (bits + k) \<Longrightarrow> \<exists>b. ceil_log2_loop v k bits (2 ^ bits) = Inr b"
proof (induction k arbitrary: bits)
  case (Suc k)
  have "\<exists>b. ceil_log2_loop v k (Suc bits) (2 ^ Suc bits) = Inr b" using Suc by (intro Suc.IH) simp
  then show ?case by (simp add: mult.commute)
qed simp

lemma ceilLog2_wide_Inr:
  assumes "ceilLog2_wide v = Inr b"
  shows "0 < v" "v \<le> 2 ^ b" "b = 0 \<or> 2 ^ (b - 1) < v"
  using assms ceil_log2_loop_Inr [of v 127 0 b]
  by (auto simp: ceilLog2_wide_def lg_range_def split: if_splits)

lemma ceilLog2_wide_mono:
  assumes "ceilLog2_wide v = Inr a" "ceilLog2_wide w = Inr b" "v \<le> w"
  shows "a \<le> b"
proof (cases "a = 0")
  case False
  then have "(2::int) ^ (a - 1) < 2 ^ b"
    using ceilLog2_wide_Inr(3) [OF assms(1)] ceilLog2_wide_Inr(2) [OF assms(2)] assms(3) by linarith
  then have "a - 1 < b" by (rule power_less_imp_less_exp [rotated]) simp
  then show ?thesis by simp
qed simp

lemma ceilLog2_wide_total:
  assumes "0 < v" "v \<le> 2 ^ 126"
  shows "\<exists>b \<le> 126. ceilLog2_wide v = Inr b"
proof -
  have "v \<le> 2 ^ (0 + 127)" using assms(2) by simp
  from ceil_log2_loop_total [OF this] obtain b where b: "ceilLog2_wide v = Inr b"
    using assms(1) by (auto simp: ceilLog2_wide_def)
  have "b \<le> 126"
  proof (rule ccontr)
    assume "\<not> b \<le> 126"
    then have "(2::int) ^ 126 \<le> 2 ^ (b - 1)" by (intro power_increasing) simp_all
    moreover have "2 ^ (b - 1) < v" using ceilLog2_wide_Inr(3) [OF b] \<open>\<not> b \<le> 126\<close> by simp
    ultimately show False using assms(2) by linarith
  qed
  with b show ?thesis by blast
qed

text \<open>The inputs \<open>int64\<close> of a valid grid, and the range of the coefficient.\<close>

definition lg_args :: "numeric_domain \<Rightarrow> int \<Rightarrow> int \<Rightarrow> bool" where
  "lg_args d threshold q \<longleftrightarrow> 0 \<le> threshold \<and> threshold < d_scale d \<and> d_scale d \<le> i64_max \<and> 0 < q \<and> q \<le> i64_max"

lemma coefficient_bound_range:
  assumes "lg_args d threshold q" "0 \<le> mu" "mu \<le> i64_max"
  shows "0 < coefficientBound q mu (d_scale d - threshold) threshold"
    and "coefficientBound q mu (d_scale d - threshold) threshold \<le> 2 ^ 126"
proof -
  have a: "0 \<le> threshold" "threshold < d_scale d" "d_scale d \<le> i64_max" "0 < q" "q \<le> i64_max"
    using assms(1) by (simp_all add: lg_args_def)
  have m: "0 \<le> mu * threshold" "0 \<le> mu * (d_scale d - threshold)"
    using assms(2) a(1,2) by simp_all
  have "mu * threshold \<le> i64_max * (i64_max - 1)"
    using assms(2,3) a(1-3) by (intro mult_mono) linarith+
  moreover have "mu * (d_scale d - threshold) \<le> i64_max * i64_max"
    using assms(2,3) a(1-3) by (intro mult_mono) linarith+
  ultimately have u: "mu * threshold + i64_max \<le> 2 ^ 126" "mu * (d_scale d - threshold) \<le> 2 ^ 126"
    by simp_all
  show "0 < coefficientBound q mu (d_scale d - threshold) threshold"
    unfolding coefficientBound_def using m(1) a(4) by linarith
  show "coefficientBound q mu (d_scale d - threshold) threshold \<le> 2 ^ 126"
    unfolding coefficientBound_def using m u a(4,5) by simp
qed

lemma coefficient_bound_mono:
  assumes "0 < q" "0 \<le> threshold" "threshold < S" "0 \<le> mu" "mu \<le> mu'"
  shows "coefficientBound q mu (S - threshold) threshold \<le> coefficientBound q mu' (S - threshold) threshold"
proof -
  have "mu * threshold \<le> mu' * threshold" "mu * (S - threshold) \<le> mu' * (S - threshold)"
    "0 \<le> mu * threshold" "0 \<le> mu * (S - threshold)"
    using assms by (auto intro!: mult_right_mono)
  then show ?thesis unfolding coefficientBound_def using assms(1) by linarith
qed

lemma supported_eq:
  assumes lg: "ceilLog2_wide (coefficientBound q mu (d_scale d - threshold) threshold) = Inr lg" "lg \<le> 126"
    and lr: "ceilLog2_wide (int (max_rows d)) = Inr lr" and r: "max_cost_bits d \<le> 126" "lr \<le> 127"
  shows "supported d threshold q mu = Inr (max_cost_bits d + lg + 1 \<le> 127 \<and>
    max_cost_bits d + lg + lr \<le> compare_operand_bits d \<and> compare_operand_bits d \<le> 127)"
proof -
  have c: "checkedBitSum_lg a b = Inr (a + b)" if "a \<le> 1000" "b \<le> 1000" for a b
  proof -
    have "a \<le> 2 ^ 32 - 1 - b" using that by (simp add: le_diff_conv2)
    then show ?thesis by (simp only: checkedBitSum_lg_def not_less [symmetric] if_False)
  qed
  have "checkedBitSum_lg (max_cost_bits d) lg = Inr (max_cost_bits d + lg)"
    "checkedBitSum_lg (max_cost_bits d + lg) 1 = Inr (max_cost_bits d + lg + 1)"
    "checkedBitSum_lg (max_cost_bits d + lg) lr = Inr (max_cost_bits d + lg + lr)"
    using lg(2) r by - (rule c; linarith)+
  then show ?thesis
    unfolding supported_def requiredBits_def by (simp add: lg(1) lr kSecureOperandBits_def)
qed

text \<open>What a supported multiplier gives.\<close>

lemma supported_True:
  assumes "supported d threshold q mu = Inr True"
  obtains lg lr where "ceilLog2_wide (coefficientBound q mu (d_scale d - threshold) threshold) = Inr lg"
    and "ceilLog2_wide (int (max_rows d)) = Inr lr"
    and "max_cost_bits d + lg + 1 \<le> 127" "max_cost_bits d + lg + lr \<le> 127"
  using assms that
  by (auto simp: supported_def requiredBits_def checkedBitSum_lg_def sbind_eq_Inr kSecureOperandBits_def
      lg_range_def split: if_splits)

text \<open>Once the multiplier 0 is supported, no later check throws, and support only decreases.\<close>

lemma supported_decides:
  assumes "lg_args d threshold q" "supported d threshold q 0 = Inr True" "0 \<le> mu" "mu \<le> i64_max"
  shows "supported d threshold q mu = Inr True \<or> supported d threshold q mu = Inr False"
    and "mu' \<le> mu \<Longrightarrow> 0 \<le> mu' \<Longrightarrow> supported d threshold q mu = Inr True \<Longrightarrow>
      supported d threshold q mu' = Inr True"
proof -
  obtain lr where lr: "ceilLog2_wide (int (max_rows d)) = Inr lr" "lr \<le> 127" and c: "max_cost_bits d \<le> 126"
    using supported_True [OF assms(2)] by (metis add_leD2 add_leE le_add1 add_le_imp_le_right
        nat_1_add_1 numeral_One one_add_one semiring_norm(3) add.commute eval_nat_numeral(3) Suc_eq_plus1 Suc_le_mono)
  have t: "\<exists>b \<le> 126. ceilLog2_wide (coefficientBound q m (d_scale d - threshold) threshold) = Inr b"
    if "0 \<le> m" "m \<le> i64_max" for m
    using coefficient_bound_range [OF assms(1) that] by (rule ceilLog2_wide_total)
  obtain b where b: "b \<le> 126" "ceilLog2_wide (coefficientBound q mu (d_scale d - threshold) threshold) = Inr b"
    using t assms(3,4) by blast
  note s = supported_eq [OF b(2,1) lr(1) c lr(2)]
  then show "supported d threshold q mu = Inr True \<or> supported d threshold q mu = Inr False" by auto
  assume m: "mu' \<le> mu" "0 \<le> mu'" "supported d threshold q mu = Inr True"
  obtain b' where b': "b' \<le> 126" "ceilLog2_wide (coefficientBound q mu' (d_scale d - threshold) threshold) = Inr b'"
    using t [of mu'] m(1,2) assms(4) by auto
  have "b' \<le> b"
    using assms(1) m(1,2) by (intro ceilLog2_wide_mono [OF b'(2) b(2)] coefficient_bound_mono)
      (simp_all add: lg_args_def)
  with m(3) s supported_eq [OF b'(2,1) lr(1) c lr(2)] show "supported d threshold q mu' = Inr True" by auto
qed

lemma mu_search_correct:
  assumes "lg_args d threshold q" "supported d threshold q 0 = Inr True"
    and "0 \<le> low" "low \<le> high" "high \<le> i64_max" "supported d threshold q low = Inr True"
  shows "\<exists>m. mu_search d threshold q low high = Inr m \<and> low \<le> m \<and> m \<le> high \<and>
    supported d threshold q m = Inr True \<and>
    (\<forall>mu. m < mu \<longrightarrow> mu \<le> high \<longrightarrow> supported d threshold q mu = Inr False)"
  using assms
proof (induction d threshold q low high rule: mu_search.induct)
  case (1 d threshold q low high)
  show ?case
  proof (cases "low < high")
    case False
    with 1 show ?thesis by (auto simp: mu_search.simps)
  next
    case True
    define mid where "mid = low + (high - low + 1) div 2"
    have mid: "low < mid" "mid \<le> high" using True by (simp_all add: mid_def)
    have s: "mu_search d threshold q low high = (case supported d threshold q mid of
        Inl e \<Rightarrow> Inl e
      | Inr ok \<Rightarrow> if ok then mu_search d threshold q mid high else mu_search d threshold q low (mid - 1))"
      using True by (subst mu_search.simps) (simp only: mid_def Let_def if_True)
    have "0 \<le> mid" "mid \<le> i64_max" using mid 1(5,7) by linarith+
    with supported_decides(1) [OF 1(3,4)] consider
      "supported d threshold q mid = Inr True" | "supported d threshold q mid = Inr False" by blast
    then show ?thesis
    proof cases
      case a: 1
      from 1(1) [OF True mid_def a TrueI 1(3,4) _ mid(2) 1(7) a] \<open>0 \<le> mid\<close> obtain m
        where m: "mu_search d threshold q mid high = Inr m" "mid \<le> m" "m \<le> high"
          "supported d threshold q m = Inr True"
          "\<forall>mu. m < mu \<longrightarrow> mu \<le> high \<longrightarrow> supported d threshold q mu = Inr False" by blast
      moreover have "mu_search d threshold q low high = Inr m" using s a m(1) by simp
      moreover have "low \<le> m" using mid(1) m(2) by simp
      ultimately show ?thesis by blast
    next
      case b: 2
      have f: "supported d threshold q mu = Inr False" if "mid \<le> mu" "mu \<le> high" for mu
      proof (rule ccontr)
        assume "supported d threshold q mu \<noteq> Inr False"
        moreover have "0 \<le> mu" "mu \<le> i64_max" using that \<open>0 \<le> mid\<close> 1(7) by linarith+
        ultimately have "supported d threshold q mu = Inr True" using supported_decides(1) [OF 1(3,4)] by blast
        then have "supported d threshold q mid = Inr True"
          by (rule supported_decides(2) [OF 1(3,4) \<open>0 \<le> mu\<close> \<open>mu \<le> i64_max\<close> that(1) \<open>0 \<le> mid\<close>])
        with b show False by simp
      qed
      have h: "low \<le> mid - 1" "mid - 1 \<le> i64_max" using mid 1(7) by linarith+
      have nb: "\<not> False" by simp
      from 1(2) [OF True mid_def b nb 1(3,4,5) h 1(8)] obtain m
        where m: "mu_search d threshold q low (mid - 1) = Inr m" "low \<le> m" "m \<le> mid - 1"
          "supported d threshold q m = Inr True"
          "\<forall>mu. m < mu \<longrightarrow> mu \<le> mid - 1 \<longrightarrow> supported d threshold q mu = Inr False" by blast
      moreover have "mu_search d threshold q low high = Inr m" using s b m(1) by simp
      moreover have "m \<le> high" using mid(2) m(3) by simp
      moreover have "\<forall>mu. m < mu \<longrightarrow> mu \<le> high \<longrightarrow> supported d threshold q mu = Inr False"
        using m(5) f by (metis zle_diff1_eq not_less)
      ultimately show ?thesis by blast
    qed
  qed
qed

lemma maximum_mu_aux:
  assumes "lg_args d threshold q" "maximumMu d threshold q = Inr m"
  shows "0 \<le> m \<and> m \<le> i64_max \<and> supported d threshold q m = Inr True \<and>
    (\<forall>mu. m < mu \<and> mu \<le> i64_max \<longrightarrow> supported d threshold q mu = Inr False)"
proof -
  have s: "supported d threshold q 0 = Inr True" and m: "mu_search d threshold q 0 i64_max = Inr m"
    using assms(2) by (auto simp: maximumMu_def sbind_eq_Inr lg_range_def split: if_splits)
  from mu_search_correct [OF assms(1) s _ _ _ s, of i64_max] m show ?thesis by auto
qed

text \<open>C31: The binary search of \<open>maximumMu\<close> returns the largest multiplier the numeric domain
  supports, over the whole \<open>int64\<close> range.\<close>

theorem maximum_mu_correct:
  assumes "lg_args d threshold q" "maximumMu d threshold q = Inr m"
  shows "0 \<le> m \<and> m \<le> i64_max \<and> supported d threshold q m = Inr True \<and>
    (\<forall>mu. m < mu \<and> mu \<le> i64_max \<longrightarrow> supported d threshold q mu = Inr False)"
  using assms by (rule maximum_mu_aux)

section \<open>The scores of a supported multiplier\<close>

lemma score_range:
  assumes "lg_args d threshold q" "supported d threshold q mu = Inr True" "0 \<le> mu"
  obtains G where "0 < G" "G * 2 ^ max_cost_bits d \<le> 2 ^ 126"
    "int (max_rows d) * (G * 2 ^ max_cost_bits d) \<le> 2 ^ 127"
    "\<And>c r. 0 \<le> c \<Longrightarrow> r = (d_scale d - threshold) * c \<or> r = - threshold * c \<Longrightarrow> \<bar>q * c - mu * r\<bar> \<le> G * c"
proof -
  let ?G = "coefficientBound q mu (d_scale d - threshold) threshold"
  obtain lg lr where lg: "ceilLog2_wide ?G = Inr lg" and lr: "ceilLog2_wide (int (max_rows d)) = Inr lr"
    and b: "max_cost_bits d + lg + 1 \<le> 127" "max_cost_bits d + lg + lr \<le> 127"
    using supported_True [OF assms(2)] by blast
  note G = ceilLog2_wide_Inr(1,2) [OF lg] and R = ceilLog2_wide_Inr(1,2) [OF lr]
  have g: "?G * 2 ^ max_cost_bits d \<le> 2 ^ (max_cost_bits d + lg)"
    using G(2) by (simp add: power_add mult.commute)
  also have "\<dots> \<le> 2 ^ 126" using b(1) by (intro power_increasing) simp_all
  finally have g1: "?G * 2 ^ max_cost_bits d \<le> 2 ^ 126" .
  have "int (max_rows d) * (?G * 2 ^ max_cost_bits d) \<le> 2 ^ lr * 2 ^ (max_cost_bits d + lg)"
    using R g G(1) by (intro mult_mono) simp_all
  also have "\<dots> = 2 ^ (max_cost_bits d + lg + lr)" by (simp add: power_add)
  also have "\<dots> \<le> 2 ^ 127" using b(2) by (intro power_increasing) simp_all
  finally have g2: "int (max_rows d) * (?G * 2 ^ max_cost_bits d) \<le> 2 ^ 127" .
  have t: "0 \<le> threshold" "0 < q" using assms(1) by (simp_all add: lg_args_def)
  have "\<bar>q * c - mu * r\<bar> \<le> ?G * c"
    if c: "0 \<le> c" and r: "r = (d_scale d - threshold) * c \<or> r = - threshold * c" for c r
    using r
  proof
    assume r: "r = (d_scale d - threshold) * c"
    have "q * c - mu * r = (q - mu * (d_scale d - threshold)) * c" unfolding r by (simp add: algebra_simps)
    moreover have "\<bar>q - mu * (d_scale d - threshold)\<bar> \<le> ?G" by (simp add: coefficientBound_def)
    ultimately show ?thesis using c by (simp add: abs_mult mult_right_mono)
  next
    assume r: "r = - threshold * c"
    have "q * c - mu * r = (q + mu * threshold) * c" unfolding r by (simp add: algebra_simps)
    moreover have "\<bar>q + mu * threshold\<bar> \<le> ?G" using t assms(3) by (simp add: coefficientBound_def)
    ultimately show ?thesis using c by (simp add: abs_mult mult_right_mono)
  qed
  with that [OF G(1) g1 g2] show thesis by blast
qed

section \<open>The grid is valid\<close>

lemma derive_valid:
  assumes "deriveLagrangianNumericBounds d threshold g = Inr b" "g_q g \<le> i64_max"
  shows "lg_args d threshold (g_q g) \<and> g_mu g \<noteq> [] \<and> sorted (g_mu g) \<and> hd (g_mu g) = 0 \<and>
    (\<forall>mu\<in>set (g_mu g). 0 \<le> mu \<and> mu \<le> i64_max \<and> supported d threshold (g_q g) mu = Inr True) \<and>
    g_q g = d_scale d * g_denominator g"
proof -
  let ?q = "g_q g"
  obtain m where c: "0 < d_scale d" "0 \<le> threshold" "threshold < d_scale d" "0 < ?q" "0 < g_denominator g"
      "d_scale d * g_denominator g = ?q" "g_mu g \<noteq> []" "sorted (g_mu g)" "hd (g_mu g) = 0"
    and m: "maximumMu d threshold ?q = Inr m" "last (g_mu g) \<le> m"
    using assms(1)
    by (auto simp: deriveLagrangianNumericBounds_def lg_invalid_def lg_range_def sbind_eq_Inr not_le not_less
        split: if_splits)
  have "d_scale d * 1 \<le> d_scale d * g_denominator g" using c(1,5) by (intro mult_left_mono) simp_all
  then have a: "lg_args d threshold ?q" using c assms(2) by (simp add: lg_args_def)
  have mx: "m \<le> i64_max" "supported d threshold ?q m = Inr True" "0 \<le> m"
    using maximum_mu_aux [OF a m(1)] by blast+
  have s0: "supported d threshold ?q 0 = Inr True"
    using m(1) by (auto simp: maximumMu_def sbind_eq_Inr lg_range_def split: if_splits)
  have "0 \<le> mu \<and> mu \<le> m" if "mu \<in> set (g_mu g)" for mu
  proof -
    have "hd (g_mu g) \<le> mu" using that c(7,8) by (cases "g_mu g") auto
    moreover have "mu \<le> last (g_mu g)"
      using that c(7,8) by (metis append_butlast_last_id in_set_butlastD sorted_append set_append Un_iff
          list.set_intros(1) set_ConsD empty_iff list.set(1) order_refl)
    ultimately show ?thesis using c(9) m(2) by simp
  qed
  then have "\<forall>mu\<in>set (g_mu g). 0 \<le> mu \<and> mu \<le> i64_max \<and> supported d threshold ?q mu = Inr True"
    using mx(1) supported_decides(2) [OF a s0 mx(3,1) _ _ mx(2)] by (meson order_trans)
  with a c(6-9) show ?thesis by simp
qed

lemma set_insert_distinct: "distinct xs \<Longrightarrow> distinct (set_insert x xs)"
  by (simp add: set_insert_def distinct_insort)

lemma intervals_distinct: "distinct xs \<Longrightarrow> distinct (fold (\<lambda>i. set_insert (f i)) is xs)"
  by (induction "is" arbitrary: xs) (simp_all add: set_insert_distinct)

text \<open>The shrinking loop stops at the requested size, or when only zero and the anchors are left.\<close>

lemma shrink_grid_length:
  "distinct vs \<Longrightarrow> 0 < requested \<Longrightarrow>
     length (shrink_grid requested a t vs) \<le> max 3 requested"
proof (induction requested a t vs rule: shrink_grid.induct)
  case (1 requested a t vs)
  show ?case
  proof (cases "length vs > requested")
    case False
    then show ?thesis by (simp add: shrink_grid.simps)
  next
    case True
    show ?thesis
    proof (cases "erase_candidate a t vs")
      case None
      then have l: "last vs = a \<or> last vs = t"
        and f: "find (\<lambda>v. v \<noteq> 0 \<and> v \<noteq> a \<and> v \<noteq> t) (rev (butlast vs)) = None"
        by (auto simp: erase_candidate_def split: if_splits)
      have "set (butlast vs) \<subseteq> {0, a, t}" using f by (auto simp: find_None_iff)
      moreover have "set vs = insert (last vs) (set (butlast vs))"
        using True by (metis append_butlast_last_id list.size(3) not_less_zero set_append
            Un_insert_right list.simps(15) sup_bot.right_neutral list.set(1))
      ultimately have "set vs \<subseteq> {0, a, t}" using l by auto
      then have "card (set vs) \<le> card {0, a, t}" by (intro card_mono) simp_all
      also have "\<dots> \<le> 3" by (simp add: card_insert_if)
      finally have "length vs \<le> 3" using 1(2) by (simp add: distinct_card)
      then show ?thesis using True None by (subst shrink_grid.simps) simp
    next
      case (Some v)
      have "length (shrink_grid requested a t (remove1 v vs)) \<le> max 3 requested"
        using 1(1) [OF True Some] 1(2,3) by (simp add: distinct_remove1)
      then show ?thesis using True Some by (subst shrink_grid.simps) simp
    qed
  qed
qed

lemma grid_values_length: "0 < requested \<Longrightarrow> length (grid_values requested upper a t) \<le> max 3 requested"
  unfolding grid_values_def addAnchor_def add_intervals_def Let_def
  by (rule shrink_grid_length) (simp_all add: set_insert_distinct intervals_distinct)

lemma build_cases:
  assumes "buildLagrangianGrid d threshold config = Inr g"
  obtains b where "deriveLagrangianNumericBounds d threshold g = Inr b"
    and "g_q g = d_scale d * denominator config" "g_q g \<le> i64_max"
    and "length (g_mu g) \<le> max 3 (requested_size config)"
proof -
  have c: "0 < requested_size config" "d_scale d * denominator config \<le> i64_max"
    using assms by (auto simp: buildLagrangianGrid_def lg_invalid_def lg_range_def split: if_splits)
  have "\<exists>b. deriveLagrangianNumericBounds d threshold g = Inr b \<and> g_q g = d_scale d * denominator config \<and>
      (g_mu g = [0] \<or> (\<exists>u a t. g_mu g = grid_values (requested_size config) u a t))"
    using assms unfolding buildLagrangianGrid_def Let_def lg_invalid_def lg_range_def
    by (auto simp: sbind_eq_Inr split: if_splits) blast
  then show thesis using that c grid_values_length [OF c(1)] by fastforce
qed

text \<open>C32: Every grid that \<open>buildLagrangianGrid\<close> returns has the quotient \<open>SCALE * denominator\<close>, starts
  at 0, is strictly increasing, holds only multipliers whose scores stay in the range of the secure
  operations, and has at most the requested number of points, or three if fewer were requested.\<close>

theorem lagrangian_grid_valid:
  assumes "buildLagrangianGrid d threshold config = Inr g"
  shows "g_q g = d_scale d * denominator config \<and> g_mu g \<noteq> [] \<and> hd (g_mu g) = 0 \<and>
    sorted (g_mu g) \<and> distinct_adj (g_mu g) \<and> length (g_mu g) \<le> max 3 (requested_size config) \<and>
    (\<forall>mu\<in>set (g_mu g). 0 \<le> mu \<and> supported d threshold (g_q g) mu = Inr True)"
proof -
  obtain b where b: "deriveLagrangianNumericBounds d threshold g = Inr b"
    and q: "g_q g = d_scale d * denominator config" "g_q g \<le> i64_max"
    and l: "length (g_mu g) \<le> max 3 (requested_size config)"
    using assms by (rule build_cases)
  have "distinct_adj (g_mu g)"
    using b by (auto simp: deriveLagrangianNumericBounds_def lg_invalid_def lg_range_def split: if_splits)
  with derive_valid [OF b q(2)] q(1) l show ?thesis by blast
qed

text \<open>The domain of the demonstration; a small one, in which two anchors exceed the request.\<close>

definition demo_domain :: numeric_domain where
  "demo_domain = \<lparr>d_scale = 1000000, max_rows = 512, max_cost_bits = 36, max_total_bits = 48,
     max_linear_bits = 66, compare_operand_bits = 66\<rparr>"

lemma maximum_mu_at_least:
  assumes "lg_args d threshold q" "supported d threshold q 0 = Inr True"
    and "supported d threshold q mu = Inr True" "mu \<le> i64_max"
  shows "\<exists>m. maximumMu d threshold q = Inr m \<and> mu \<le> m"
proof -
  obtain m where m: "mu_search d threshold q 0 i64_max = Inr m"
    "\<forall>mu. m < mu \<longrightarrow> mu \<le> i64_max \<longrightarrow> supported d threshold q mu = Inr False"
    using mu_search_correct [OF assms(1,2) _ _ _ assms(2), of i64_max] by auto
  then have "mu \<le> m" using assms(3,4) by (metis Inr_inject not_less)
  with m(1) assms(2) show ?thesis by (simp add: maximumMu_def)
qed

lemma derive_total:
  assumes "lg_args d threshold (g_q g)" "max_rows d \<noteq> 0" "max_cost_bits d \<noteq> 0" "compare_operand_bits d \<noteq> 0"
    and "0 < g_denominator g" "d_scale d * g_denominator g = g_q g" "g_mu g \<noteq> []" "sorted (g_mu g)"
    and "hd (g_mu g) = 0" "distinct_adj (g_mu g)" "0 \<le> last (g_mu g)" "last (g_mu g) \<le> i64_max"
    and "supported d threshold (g_q g) 0 = Inr True" "supported d threshold (g_q g) (last (g_mu g)) = Inr True"
  shows "\<exists>b. deriveLagrangianNumericBounds d threshold g = Inr b"
proof -
  obtain m where m: "maximumMu d threshold (g_q g) = Inr m" "last (g_mu g) \<le> m"
    using maximum_mu_at_least [OF assms(1,13,14,12)] by blast
  obtain x where x: "requiredBits d threshold (g_q g) (last (g_mu g)) = Inr x"
    "compare_operand_bits d \<le> kSecureOperandBits"
    using assms(14) by (auto simp: supported_def sbind_eq_Inr)
  have c: "\<not> (d_scale d \<le> 0 \<or> max_rows d = 0 \<or> max_cost_bits d = 0 \<or> compare_operand_bits d = 0)"
    "\<not> (threshold < 0 \<or> threshold \<ge> d_scale d)"
    "\<not> (g_q g \<le> 0 \<or> g_denominator g \<le> 0 \<or> g_mu g = [])"
    "\<not> d_scale d * g_denominator g \<noteq> g_q g" "\<not> (\<not> sorted (g_mu g) \<or> hd (g_mu g) \<noteq> 0)"
    "\<not> \<not> distinct_adj (g_mu g)" "\<not> last (g_mu g) < 0" "\<not> compare_operand_bits d > kSecureOperandBits"
    using assms x(2) by (auto simp: lg_args_def)
  show ?thesis
    unfolding deriveLagrangianNumericBounds_def if_not_P [OF c(1)] if_not_P [OF c(2)] if_not_P [OF c(3)]
      if_not_P [OF c(4)] if_not_P [OF c(5)] if_not_P [OF c(6)] if_not_P [OF c(7)] if_not_P [OF c(8)] m(1)
    using m(2) x(1) by (cases x) simp
qed

lemma ceilLog2_wide_eq:
  assumes "0 < v" "v \<le> 2 ^ b" "b = 0 \<or> 2 ^ (b - 1) < v" "b \<le> 126"
  shows "ceilLog2_wide v = Inr b"
proof -
  have "v \<le> 2 ^ 126" using assms(2,4) by (meson order_trans power_increasing one_le_numeral)
  then obtain c where c: "ceilLog2_wide v = Inr c" using ceilLog2_wide_total assms(1) by blast
  have le: "x \<le> y" if "x = 0 \<or> (2::int) ^ (x - 1) < v" "v \<le> 2 ^ y" for x y
  proof (cases "x = 0")
    case False
    then have "(2::int) ^ (x - 1) < 2 ^ y" using that by linarith
    then have "x - 1 < y" by (rule power_less_imp_less_exp [rotated]) simp
    then show ?thesis by simp
  qed simp
  have "b = c" using le [OF assms(3) ceilLog2_wide_Inr(2) [OF c]] le [OF ceilLog2_wide_Inr(3) [OF c] assms(2)]
    by (rule antisym)
  with c show ?thesis by simp
qed

lemma demo_supported:
  "lg_args demo_domain 250000 1000000"
  "supported demo_domain 250000 1000000 0 = Inr True" "supported demo_domain 250000 1000000 4 = Inr True"
  "supported demo_domain 250000 1000000 5 = Inr False"
proof -
  have l: "ceilLog2_wide 1000000 = Inr 20" "ceilLog2_wide 2000000 = Inr 21"
    "ceilLog2_wide 2750000 = Inr 22" "ceilLog2_wide 512 = Inr 9"
    by (rule ceilLog2_wide_eq; simp)+
  show "lg_args demo_domain 250000 1000000" by (simp add: lg_args_def demo_domain_def)
  show "supported demo_domain 250000 1000000 0 = Inr True"
    using supported_eq [of 1000000 0 demo_domain 250000 20 9] l
    by (simp add: demo_domain_def coefficientBound_def)
  show "supported demo_domain 250000 1000000 4 = Inr True"
    using supported_eq [of 1000000 4 demo_domain 250000 21 9] l
    by (simp add: demo_domain_def coefficientBound_def)
  show "supported demo_domain 250000 1000000 5 = Inr False"
    using supported_eq [of 1000000 5 demo_domain 250000 22 9] l
    by (simp add: demo_domain_def coefficientBound_def)
qed

lemma demo_maximum: "maximumMu demo_domain 250000 1000000 = Inr 4"
proof -
  obtain m where m: "maximumMu demo_domain 250000 1000000 = Inr m" "4 \<le> m"
    using maximum_mu_at_least [OF demo_supported(1,2,3)] by auto
  have "m < 5"
    using maximum_mu_aux [OF demo_supported(1) m(1)] supported_decides(2) [OF demo_supported(1,2), of m 5]
      demo_supported(4) by (metis Inr_inject not_less zero_le_numeral)
  with m show ?thesis by simp
qed

theorem maximum_mu_correct_witness:
  "supported demo_domain 250000 1000000 4 = Inr True \<and> supported demo_domain 250000 1000000 5 = Inr False"
  using maximum_mu_correct [OF demo_supported(1) demo_maximum] by simp

lemma demo_values: "grid_values 5 4 1 4 = [0, 1, 2, 3, 4]"
  by code_simp

lemma demo_grid:
  "buildLagrangianGrid demo_domain 250000 \<lparr>denominator = 1, requested_size = 5, span_factor = 2\<rparr> =
     Inr \<lparr>g_q = 1000000, g_denominator = 1, g_mu = [0, 1, 2, 3, 4]\<rparr>"
proof -
  let ?g = "\<lparr>g_q = 1000000, g_denominator = 1, g_mu = [0, 1, 2, 3, 4]\<rparr>"
  have "\<exists>b. deriveLagrangianNumericBounds demo_domain 250000 ?g = Inr b"
    by (rule derive_total) (use demo_supported in \<open>simp_all add: demo_domain_def\<close>)
  then show ?thesis
    by (auto simp: buildLagrangianGrid_def Let_def demo_domain_def [THEN arg_cong [of _ _ d_scale], simplified]
        kMaxLagrangianGridSize_def demo_maximum roundedRatio_def demo_values)
qed

theorem lagrangian_grid_valid_witness:
  "case buildLagrangianGrid demo_domain 250000 \<lparr>denominator = 1, requested_size = 5, span_factor = 2\<rparr> of
     Inl e \<Rightarrow> False
   | Inr g \<Rightarrow> g_q g = 1000000 \<and> g_mu g = [0, 1, 2, 3, 4] \<and> sorted (g_mu g) \<and> distinct_adj (g_mu g) \<and>
       (\<forall>mu\<in>set (g_mu g). 0 \<le> mu \<and> supported demo_domain 250000 (g_q g) mu = Inr True)"
  using lagrangian_grid_valid [OF demo_grid] by (simp add: demo_grid)

text \<open>A request for two points can be answered by three: the second anchor arrives as the last
  interval point, and the shrinking loop erases no anchor.\<close>

theorem grid_exceeds_request: "length (grid_values 2 5 1 5) = 3"
  by code_simp

end
