(* ===== verification/EncryptedBB.thy ===== *)
theory EncryptedBB
  imports PredicateEngine LagrangianGrid CostModel
begin

text \<open>
  Branch and bound over encrypted costs (src/encrypted_branch_bound.cpp): the request's checks, the
  encrypted preprocessing (linear contributions, row minima and maxima or Lagrangian scores, suffix
  sums), and the depth-first search that asks the predicate engine at every node. The local
  variables of \<open>solve\<close> that the recursive lambda updates are the record \<open>bb_state\<close>; time
  stamps are left out.

  The second half says which numbers the ciphertexts of the preprocessing stand for: extrema of a row,
  bounds on a suffix, Lagrangian scores. The search itself is treated in EncryptedSearch.
\<close>

section \<open>Requests and results\<close>

datatype cost_bound = CurrentSuffix | Lagrangian

record bb_config =
  c_cost_bound :: cost_bound
  c_grid :: lagrangian_config

record bb_request =
  q_costs :: "cipher option list list"
  q_threshold :: int
  q_session :: string

record cprefix =
  px_total :: cipher
  px_c12 :: cipher
  px_c3 :: cipher
  px_linear :: cipher

record bb_stats =
  s_visited_nodes :: nat
  s_pruned_nodes :: nat
  s_candidate_count :: nat
  s_prune_predicates :: nat
  s_accept_predicates :: nat
  s_multi_bound_prune_nodes :: nat
  s_objective_bound_comparisons :: nat

record bb_result =
  b_feasible :: bool
  b_solution :: "nat list"
  b_values :: cprefix
  b_stats :: bb_stats

record bb_state =
  x_incumbent :: cprefix
  x_scaled_incumbent :: cipher
  x_has_incumbent :: bool
  x_current :: "nat list"
  x_solution :: "nat list"
  x_node_sequence :: nat
  x_prune_sequence :: nat
  x_accept_sequence :: nat
  x_stats :: bb_stats

text \<open>The counters are \<open>uint64_t\<close>.\<close>

definition inc64 :: "nat \<Rightarrow> nat" where
  "inc64 k = (k + 1) mod 2 ^ 64"

definition bb_invalid :: "string \<Rightarrow> exn + 'a" where
  "bb_invalid message = Inl (OptimizationError InvalidArgument message)"

text \<open>The checks before the first secure operation; the result is the grid in Lagrangian mode.\<close>

definition bb_check_row :: "cipher option list \<Rightarrow> exn + unit" where
  "bb_check_row methods =
     (if list_ex (\<lambda>c. c = Some []) methods then bb_invalid ''available ciphertext is empty''
      else if list_all (\<lambda>c. c = None) methods then bb_invalid ''every row must have an available method''
      else Inr ())"

definition bb_check :: "numeric_domain \<Rightarrow> bb_config \<Rightarrow> bb_request \<Rightarrow> exn + lagrangian_grid option" where
  "bb_check d config request =
     (if q_costs request = [] then bb_invalid ''encrypted costs must not be empty''
      else if d_scale d \<le> 0 \<or> max_rows d = 0
      then bb_invalid ''SecureOps has an incomplete numeric domain''
      else if length (q_costs request) > max_rows d
      then bb_invalid ''encrypted cost row count exceeds NumericDomain.max_rows''
      else if q_threshold request < 0 \<or> q_threshold request \<ge> d_scale d
      then bb_invalid ''threshold_scaled must satisfy 0 <= threshold_scaled < scale''
      else if \<not> validIdentifier (q_session request) then bb_invalid ''invalid session_id''
      else sbind (smap bb_check_row (q_costs request)) (\<lambda>_.
        case c_cost_bound config of
          CurrentSuffix \<Rightarrow> Inr None
        | Lagrangian \<Rightarrow> sbind (buildLagrangianGrid d (q_threshold request) (c_grid config)) (\<lambda>g. Inr (Some g))))"

section \<open>Preprocessing\<close>

record row_prep =
  rp_linear :: "cipher option list"
  rp_scores :: "cipher list list"
  rp_min :: "cipher option"
  rp_max :: "cipher option"

text \<open>\<open>best = best ? op(*best, c) : c\<close>\<close>

definition running ::
  "(cipher \<Rightarrow> cipher \<Rightarrow> ('s, cipher) eff) \<Rightarrow> cipher option \<Rightarrow> cipher \<Rightarrow> ('s, cipher option) eff" where
  "running op current c = (case current of
     None \<Rightarrow> ret (Some c)
   | Some b \<Rightarrow> bnd (op b c) (\<lambda>d. ret (Some d)))"

definition bb_score :: "'s sops \<Rightarrow> cipher \<Rightarrow> cipher \<Rightarrow> int \<Rightarrow> ('s, cipher) eff" where
  "bb_score ops scaled_cost contribution mu =
     (if mu = 0 then ret scaled_cost
      else bnd (scalarMul ops contribution mu) (\<lambda>x. s_sub ops scaled_cost x))"

definition prep_method ::
  "'s sops \<Rightarrow> lagrangian_grid option \<Rightarrow> int \<Rightarrow> int \<Rightarrow> cipher option list \<Rightarrow> nat \<Rightarrow> row_prep \<Rightarrow>
     ('s, row_prep) eff" where
  "prep_method ops grid positive negative methods m acc =
     (case methods ! m of
        None \<Rightarrow> ret acc
      | Some cost \<Rightarrow>
          bnd (scalarMul ops cost (if m < 2 then positive else negative)) (\<lambda>contribution.
          bnd (running (s_max ops) (rp_max acc) contribution) (\<lambda>maximum.
          let acc = acc\<lparr>rp_linear := (rp_linear acc)[m := Some contribution], rp_max := maximum\<rparr> in
          case grid of
            None \<Rightarrow> bnd (running (s_min ops) (rp_min acc) cost) (\<lambda>minimum. ret (acc\<lparr>rp_min := minimum\<rparr>))
          | Some g \<Rightarrow>
              bnd (scalarMul ops cost (g_q g)) (\<lambda>scaled_cost.
              bnd (mapM (bb_score ops scaled_cost contribution) (g_mu g)) (\<lambda>scores.
              ret (acc\<lparr>rp_scores := (rp_scores acc)[m := scores]\<rparr>))))))"

text \<open>The row's minimum of the \<open>k\<close>-th score.\<close>

definition lag_lower ::
  "'s sops \<Rightarrow> cipher option list \<Rightarrow> cipher list list \<Rightarrow> nat \<Rightarrow> ('s, cipher) eff" where
  "lag_lower ops methods scores k =
     bnd (foldM (\<lambda>m lower. if methods ! m = None then ret lower
                            else running (s_min ops) lower (scores ! m ! k)) [0, 1, 2] None)
       (\<lambda>lower. ret (the lower))"

definition prep_row ::
  "'s sops \<Rightarrow> lagrangian_grid option \<Rightarrow> int \<Rightarrow> int \<Rightarrow> cipher option list \<Rightarrow>
     ('s, row_prep \<times> cipher list) eff" where
  "prep_row ops grid positive negative methods =
     bnd (foldM (prep_method ops grid positive negative methods) [0, 1, 2]
       \<lparr>rp_linear = [None, None, None], rp_scores = [[], [], []], rp_min = None, rp_max = None\<rparr>) (\<lambda>acc.
     case grid of
       None \<Rightarrow> ret (acc, [])
     | Some g \<Rightarrow> bnd (mapM (lag_lower ops methods (rp_scores acc)) [0..<length (g_mu g)]) (\<lambda>lowers.
         ret (acc, lowers)))"

text \<open>Suffix sums, from the last row to the first.\<close>

primrec suffix_adds :: "('a \<Rightarrow> 'a \<Rightarrow> ('s, 'a) eff) \<Rightarrow> 'a \<Rightarrow> 'a list \<Rightarrow> ('s, 'a list) eff" where
  "suffix_adds addf z [] = ret [z]"
| "suffix_adds addf z (r # rs) =
     bnd (suffix_adds addf z rs) (\<lambda>l. bnd (addf r (hd l)) (\<lambda>x. ret (x # l)))"

definition add_all :: "'s sops \<Rightarrow> cipher list \<Rightarrow> cipher list \<Rightarrow> ('s, cipher list) eff" where
  "add_all ops xs ys = mapM (\<lambda>(a, b). s_add ops a b) (zip xs ys)"

record bb_env =
  n_costs :: "cipher option list list"
  n_session :: string
  n_grid :: "lagrangian_grid option"
  n_zero :: cipher
  n_linear :: "cipher option list list"
  n_scores :: "cipher list list list"
  n_min_cost_suffix :: "cipher list"
  n_lagrangian_suffix :: "cipher list list"
  n_max_linear_suffix :: "cipher list"

definition bb_prepare ::
  "'s sops \<Rightarrow> lagrangian_grid option \<Rightarrow> bb_request \<Rightarrow> ('s, bb_env) eff" where
  "bb_prepare ops grid request =
     (let positive = d_scale (s_domain ops) - q_threshold request;
          negative = - q_threshold request in
      bnd (encryptConstant ops 0) (\<lambda>zero.
      bnd (mapM (prep_row ops grid positive negative) (q_costs request)) (\<lambda>rows.
      bnd (case grid of
             Some g \<Rightarrow> bnd (suffix_adds (add_all ops) (replicate (length (g_mu g)) zero) (map snd rows))
               (\<lambda>l. ret ([], l))
           | None \<Rightarrow> bnd (suffix_adds (s_add ops) zero (map (the \<circ> rp_min \<circ> fst) rows))
               (\<lambda>l. ret (l, []))) (\<lambda>(mins, lags).
      bnd (suffix_adds (s_add ops) zero (map (the \<circ> rp_max \<circ> fst) rows)) (\<lambda>maxs.
      ret \<lparr>n_costs = q_costs request, n_session = q_session request, n_grid = grid, n_zero = zero,
           n_linear = map (rp_linear \<circ> fst) rows, n_scores = map (rp_scores \<circ> fst) rows,
           n_min_cost_suffix = mins, n_lagrangian_suffix = lags, n_max_linear_suffix = maxs\<rparr>)))))"

section \<open>The search\<close>

definition bb_context :: "bb_env \<Rightarrow> predicate_type \<Rightarrow> nat \<Rightarrow> nat \<Rightarrow> string \<Rightarrow> predicate_context" where
  "bb_context env ty depth node operation =
     \<lparr>session_id = n_session env, operation_id = operation, predicate_type = ty,
      ctx_depth = depth mod 2 ^ 32, node_id = ''node-'' @ to_string node\<rparr>"

definition bb_enter :: "bb_state \<Rightarrow> bb_state" where
  "bb_enter x = x\<lparr>x_node_sequence := inc64 (x_node_sequence x),
     x_stats := (x_stats x)\<lparr>s_visited_nodes := inc64 (s_visited_nodes (x_stats x))\<rparr>\<rparr>"

definition bb_leaf ::
  "'s engine \<Rightarrow> bb_env \<Rightarrow> cprefix \<Rightarrow> bb_state \<Rightarrow> ('s engine_state, bb_state) eff" where
  "bb_leaf eng env prefix x =
     (let x = x\<lparr>x_accept_sequence := inc64 (x_accept_sequence x),
            x_stats := (x_stats x)\<lparr>s_candidate_count := inc64 (s_candidate_count (x_stats x)),
              s_accept_predicates := inc64 (s_accept_predicates (x_stats x))\<rparr>\<rparr> in
      bnd (acceptCandidate eng
        (bb_context env AcceptCandidate (length (n_costs env)) (x_node_sequence x)
           (''accept-'' @ to_string (x_accept_sequence x)))
        \<lparr>a_linear = px_linear prefix, a_c3 = px_c3 prefix, a_cost = px_total prefix, a_c12 = px_c12 prefix,
         a_has_incumbent = x_has_incumbent x, a_incumbent_cost = px_total (x_incumbent x),
         a_incumbent_c12 = px_c12 (x_incumbent x)\<rparr>) (\<lambda>accept.
      if accept then
        bnd (case n_grid env of
               Some g \<Rightarrow> on_ops (scalarMul (e_ops eng) (px_total prefix) (g_q g))
             | None \<Rightarrow> ret (x_scaled_incumbent x)) (\<lambda>scaled.
        ret (x\<lparr>x_has_incumbent := True, x_incumbent := prefix, x_scaled_incumbent := scaled,
               x_solution := x_current x\<rparr>))
      else ret x))"

text \<open>The bounds and the incumbent that a node's pruning question compares.\<close>

definition bb_bounds ::
  "'s engine \<Rightarrow> bb_env \<Rightarrow> nat \<Rightarrow> cprefix \<Rightarrow> cipher list \<Rightarrow> bb_state \<Rightarrow>
     ('s engine_state, cipher list \<times> cipher) eff" where
  "bb_bounds eng env depth prefix lag_prefix x =
     (if \<not> x_has_incumbent x then ret ([], [])
      else case n_grid env of
        Some g \<Rightarrow> bnd (on_ops (add_all (e_ops eng) lag_prefix (n_lagrangian_suffix env ! depth))) (\<lambda>lowers.
          ret (lowers, x_scaled_incumbent x))
      | None \<Rightarrow> bnd (on_ops (s_add (e_ops eng) (px_total prefix) (n_min_cost_suffix env ! depth))) (\<lambda>lower.
          ret ([lower], px_total (x_incumbent x))))"

definition bb_count_prune :: "bb_env \<Rightarrow> bb_state \<Rightarrow> bb_state" where
  "bb_count_prune env x =
     x\<lparr>x_prune_sequence := inc64 (x_prune_sequence x),
       x_stats := (case (n_grid env, x_has_incumbent x) of
          (Some g, True) \<Rightarrow> (x_stats x)
            \<lparr>s_multi_bound_prune_nodes := inc64 (s_multi_bound_prune_nodes (x_stats x)),
             s_objective_bound_comparisons :=
               (s_objective_bound_comparisons (x_stats x) + length (g_mu g)) mod 2 ^ 64,
             s_prune_predicates := inc64 (s_prune_predicates (x_stats x))\<rparr>
        | _ \<Rightarrow> (x_stats x)\<lparr>s_prune_predicates := inc64 (s_prune_predicates (x_stats x))\<rparr>)\<rparr>"

definition bb_child ::
  "'s sops \<Rightarrow> bb_env \<Rightarrow> nat \<Rightarrow> cprefix \<Rightarrow> cipher list \<Rightarrow> nat \<Rightarrow> cipher \<Rightarrow> ('s, cprefix \<times> cipher list) eff" where
  "bb_child ops env depth prefix lag_prefix m cost =
     bnd (s_add ops (px_total prefix) cost) (\<lambda>total.
     bnd (if m < 2 then bnd (s_add ops (px_c12 prefix) cost) (\<lambda>c. ret (c, px_c3 prefix))
          else bnd (s_add ops (px_c3 prefix) cost) (\<lambda>c. ret (px_c12 prefix, c))) (\<lambda>(c12, c3).
     bnd (s_add ops (px_linear prefix) (the (n_linear env ! depth ! m))) (\<lambda>linr.
     bnd (if n_grid env = None then ret [] else add_all ops lag_prefix (n_scores env ! depth ! m)) (\<lambda>lag.
     ret (\<lparr>px_total = total, px_c12 = c12, px_c3 = c3, px_linear = linr\<rparr>, lag)))))"

text \<open>\<open>dfs\<close>; the number counts the rows below the node.\<close>

primrec bb_dfs ::
  "'s engine \<Rightarrow> bb_env \<Rightarrow> nat \<Rightarrow> cprefix \<Rightarrow> cipher list \<Rightarrow> bb_state \<Rightarrow> ('s engine_state, bb_state) eff" where
  "bb_dfs eng env 0 prefix lag_prefix x = bb_leaf eng env prefix (bb_enter x)"
| "bb_dfs eng env (Suc k) prefix lag_prefix x =
     (let x = bb_enter x; depth = length (n_costs env) - Suc k in
      bnd (on_ops (s_add (e_ops eng) (px_linear prefix) (n_max_linear_suffix env ! depth))) (\<lambda>linear_upper.
      bnd (bb_bounds eng env depth prefix lag_prefix x) (\<lambda>(cost_lowers, prune_incumbent).
      let x = bb_count_prune env x in
      bnd (pruneNode eng
        (bb_context env PruneNode depth (x_node_sequence x) (''prune-'' @ to_string (x_prune_sequence x)))
        \<lparr>linear_upper = linear_upper, cost_lowers = cost_lowers, p_has_incumbent = x_has_incumbent x,
         p_incumbent_cost = prune_incumbent\<rparr>) (\<lambda>prune.
      if prune then
        ret (x\<lparr>x_stats := (x_stats x)\<lparr>s_pruned_nodes := inc64 (s_pruned_nodes (x_stats x))\<rparr>\<rparr>)
      else
        foldM (\<lambda>m x. case n_costs env ! depth ! m of
            None \<Rightarrow> ret x
          | Some cost \<Rightarrow>
              bnd (on_ops (bb_child (e_ops eng) env depth prefix lag_prefix m cost)) (\<lambda>(child, child_lag).
              bb_dfs eng env k child child_lag (x\<lparr>x_current := (x_current x)[depth := m + 1]\<rparr>)))
          [0, 1, 2] x))))"

definition empty_prefix :: cprefix where
  "empty_prefix = \<lparr>px_total = [], px_c12 = [], px_c3 = [], px_linear = []\<rparr>"

definition bb_initial :: "nat \<Rightarrow> bb_state" where
  "bb_initial n = \<lparr>x_incumbent = empty_prefix, x_scaled_incumbent = [], x_has_incumbent = False,
     x_current = replicate n 0, x_solution = [], x_node_sequence = 0, x_prune_sequence = 0,
     x_accept_sequence = 0,
     x_stats = \<lparr>s_visited_nodes = 0, s_pruned_nodes = 0, s_candidate_count = 0, s_prune_predicates = 0,
       s_accept_predicates = 0, s_multi_bound_prune_nodes = 0, s_objective_bound_comparisons = 0\<rparr>\<rparr>"

definition bb_solve ::
  "'s engine \<Rightarrow> bb_config \<Rightarrow> bb_request \<Rightarrow> ('s engine_state, bb_result) eff" where
  "bb_solve eng config request =
     bnd (of_sum (bb_check (s_domain (e_ops eng)) config request)) (\<lambda>grid.
     bnd (on_ops (bb_prepare (e_ops eng) grid request)) (\<lambda>env.
     let n = length (q_costs request); zero = n_zero env in
     bnd (bb_dfs eng env n \<lparr>px_total = zero, px_c12 = zero, px_c3 = zero, px_linear = zero\<rparr>
       (case grid of None \<Rightarrow> [] | Some g \<Rightarrow> replicate (length (g_mu g)) zero) (bb_initial n)) (\<lambda>x.
     ret (if x_has_incumbent x
       then \<lparr>b_feasible = True, b_solution = x_solution x, b_values = x_incumbent x, b_stats = x_stats x\<rparr>
       else \<lparr>b_feasible = False, b_solution = [], b_values = empty_prefix, b_stats = x_stats x\<rparr>))))"

text \<open>\<open>ConfidentialOptimizer::optimize\<close>: a fresh engine for every solve.\<close>

definition confidential_optimize ::
  "'s engine \<Rightarrow> bb_config \<Rightarrow> bb_request \<Rightarrow> ('s, bb_result) eff" where
  "confidential_optimize eng config request = (\<lambda>s.
     case bb_solve eng config request (s, {}) of None \<Rightarrow> None | Some (r, st) \<Rightarrow> Some (r, fst st))"

section \<open>Values behind the ciphertexts\<close>

text \<open>The score of a method under a multiplier.\<close>

definition w_score :: "int \<Rightarrow> int \<Rightarrow> int \<Rightarrow> int \<Rightarrow> nat \<Rightarrow> int \<Rightarrow> int" where
  "w_score q mu S T m c = q * c - mu * w_linear S T m c"

lemma sum_by_score:
  "sum_by (w_score q mu S T) rows xs = q * sum_by w_cost rows xs - mu * sum_by (w_linear S T) rows xs"
  using sum_by_weights [of "w_score q mu S T" q w_cost "- mu" "w_linear S T" rows xs]
  by (simp add: w_score_def w_cost_def)

text \<open>The extremum of a weight over the first \<open>m\<close> methods of a row, as the code accumulates it.\<close>

primrec ext_upto :: "(int \<Rightarrow> int \<Rightarrow> int) \<Rightarrow> (nat \<Rightarrow> int \<Rightarrow> int) \<Rightarrow> row \<Rightarrow> nat \<Rightarrow> int option" where
  "ext_upto f w r 0 = None"
| "ext_upto f w r (Suc m) = (case r ! m of
     None \<Rightarrow> ext_upto f w r m
   | Some c \<Rightarrow> Some (case ext_upto f w r m of None \<Rightarrow> w (Suc m) c | Some y \<Rightarrow> f y (w (Suc m) c)))"

definition contrib_le :: "(nat \<Rightarrow> int \<Rightarrow> int) \<Rightarrow> row \<Rightarrow> int \<Rightarrow> bool" where
  "contrib_le w r W \<longleftrightarrow> (\<forall>j<3. \<forall>c. r ! j = Some c \<longrightarrow> \<bar>w (Suc j) c\<bar> \<le> W)"

lemma ext_upto_None: "ext_upto f w r m = None \<longleftrightarrow> (\<forall>j<m. r ! j = None)"
  by (induction m) (auto simp: less_Suc_eq split: option.splits)

lemma ext_upto_bound:
  assumes f: "\<And>a b. R a (f a b)" "\<And>a b. R b (f a b)"
    and t: "\<And>a b c. R a b \<Longrightarrow> R b c \<Longrightarrow> R a c" "\<And>a. R a a"
  shows "ext_upto f w r m = Some y \<Longrightarrow> j < m \<Longrightarrow> r ! j = Some c \<Longrightarrow> R (w (Suc j) c) y"
proof (induction m arbitrary: y)
  case (Suc m)
  show ?case
  proof (cases "j = m")
    case True
    with Suc.prems f(2) t(2) show ?thesis by (auto split: option.splits)
  next
    case False
    then have j: "j < m" using Suc.prems(2) by simp
    then obtain z where z: "ext_upto f w r m = Some z" using Suc.prems(3) ext_upto_None [of f w r m] by fastforce
    have "R z y" using Suc.prems(1) z f(1) t(2) by (auto split: option.splits)
    with Suc.IH [OF z j Suc.prems(3)] show ?thesis by (rule t(1))
  qed
qed simp

lemma ext_upto_max: "ext_upto max w r m = Some y \<Longrightarrow> j < m \<Longrightarrow> r ! j = Some c \<Longrightarrow> w (Suc j) c \<le> y"
  by (rule ext_upto_bound [where R = "(\<le>)"]) auto

lemma ext_upto_min: "ext_upto min w r m = Some y \<Longrightarrow> j < m \<Longrightarrow> r ! j = Some c \<Longrightarrow> y \<le> w (Suc j) c"
  by (rule ext_upto_bound [where R = "\<lambda>a b. b \<le> a"]) auto

lemma ext_upto_abs:
  assumes "contrib_le w r W" "f = max \<or> f = min"
  shows "m \<le> 3 \<Longrightarrow> ext_upto f w r m = Some y \<Longrightarrow> \<bar>y\<bar> \<le> W"
proof (induction m arbitrary: y)
  case (Suc m)
  have c: "\<bar>w (Suc m) c\<bar> \<le> W" if "r ! m = Some c" for c
    using assms(1) that Suc.prems(1) by (simp add: contrib_le_def)
  have ih: "\<bar>y\<bar> \<le> W" if "ext_upto f w r m = Some y" for y using Suc.IH [OF _ that] Suc.prems(1) by simp
  have "\<bar>f a b\<bar> \<le> W" if "\<bar>a\<bar> \<le> W" "\<bar>b\<bar> \<le> W" for a b
    using assms(2) that by (auto simp: max_def min_def)
  then show ?case using Suc.prems(2) c ih by (auto split: option.splits)
qed simp

abbreviation row_ext :: "(int \<Rightarrow> int \<Rightarrow> int) \<Rightarrow> (nat \<Rightarrow> int \<Rightarrow> int) \<Rightarrow> row \<Rightarrow> int" where
  "row_ext f w r \<equiv> the (ext_upto f w r 3)"

lemma row_ext_Some: "row_ok r \<Longrightarrow> ext_upto f w r 3 = Some (row_ext f w r)"
proof -
  assume "row_ok r"
  then have "length r = 3" "\<exists>c\<in>set r. c \<noteq> None" by (auto simp: row_ok_def list_ex_iff)
  then have "\<not> (\<forall>j<3. r ! j = None)" by (metis in_set_conv_nth)
  then have "ext_upto f w r 3 \<noteq> None" by (simp add: ext_upto_None)
  then show ?thesis by (metis option.collapse)
qed

lemma rel_row_ext: "rel_option enc b (ext_upto f w r 3) \<Longrightarrow> row_ok r \<Longrightarrow> enc (the b) (row_ext f w r)"
  by (metis option.rel_sel option.distinct(1) row_ext_Some)

text \<open>Sums of row extrema bound what a suffix can contribute.\<close>

definition row_bound :: "(int \<Rightarrow> int \<Rightarrow> int) \<Rightarrow> (nat \<Rightarrow> int \<Rightarrow> int) \<Rightarrow> row list \<Rightarrow> int" where
  "row_bound f w rows = sum_list (map (row_ext f w) rows)"

lemma row_bound_min:
  assumes "\<forall>r\<in>set rows. row_ok r" "xs \<in> set (assignments rows)"
  shows "row_bound min w rows \<le> sum_by w rows xs"
proof -
  have "sum_list (map (\<lambda>i. row_ext min w (rows ! i)) [0..<length rows]) \<le> sum_by w rows xs"
    using assms by (intro sum_by_lower ext_upto_min [OF row_ext_Some]) auto
  then show ?thesis by (simp only: map_nth_upt [of "row_ext min w" rows] row_bound_def)
qed

lemma row_bound_max:
  assumes "\<forall>r\<in>set rows. row_ok r" "xs \<in> set (assignments rows)"
  shows "sum_by w rows xs \<le> row_bound max w rows"
proof -
  have "sum_by w rows xs \<le> sum_list (map (\<lambda>i. row_ext max w (rows ! i)) [0..<length rows])"
    using assms by (intro sum_by_upper ext_upto_max [OF row_ext_Some]) auto
  then show ?thesis by (simp only: map_nth_upt [of "row_ext max w" rows] row_bound_def)
qed

lemma row_bound_abs:
  assumes "\<forall>r\<in>set rows. row_ok r \<and> contrib_le w r W" "f = max \<or> f = min"
  shows "\<bar>row_bound f w rows\<bar> \<le> int (length rows) * W"
  using assms(1)
proof (induction rows)
  case (Cons r rs)
  have "\<bar>row_ext f w r\<bar> \<le> W"
    using Cons.prems ext_upto_abs [OF _ assms(2), of w r W 3] row_ext_Some [of r f w] by auto
  moreover have "\<bar>row_bound f w rs\<bar> \<le> int (length rs) * W" using Cons by simp
  ultimately show ?case by (simp add: row_bound_def algebra_simps)
qed (simp add: row_bound_def)

lemma sum_by_abs:
  assumes "\<forall>r\<in>set rows. contrib_le w r W"
  shows "xs \<in> set (assignments (take (length xs) rows)) \<Longrightarrow> length xs \<le> length rows \<Longrightarrow>
    \<bar>sum_by w rows xs\<bar> \<le> int (length xs) * W"
  using assms
proof (induction rows arbitrary: xs)
  case (Cons r rs)
  show ?case
  proof (cases xs)
    case (Cons m ms)
    then obtain j where j: "m = Suc j" "j < 3" "r ! j \<noteq> None" "ms \<in> set (assignments (take (length ms) rs))"
      using Cons.prems(1) by (auto simp: assignments_Cons_set simp del: assignments.simps)
    have "\<bar>w m (the (r ! j))\<bar> \<le> W" using Cons.prems(3) j by (auto simp: contrib_le_def)
    moreover have "\<bar>sum_by w rs ms\<bar> \<le> int (length ms) * W"
      using Cons.prems j(4) \<open>xs = m # ms\<close> by (intro Cons.IH) auto
    ultimately show ?thesis using \<open>xs = m # ms\<close> j(1) by (simp add: algebra_simps)
  qed simp
qed simp

text \<open>A node's value and bound together stay within the bound of all rows.\<close>

lemma node_bound_abs:
  assumes ok: "\<forall>r\<in>set rows. row_ok r \<and> contrib_le w r W" and f: "f = max \<or> f = min"
    and p: "p \<in> set (assignments (take (length p) rows))" "length p \<le> length rows"
  shows "\<bar>sum_by w rows p + row_bound f w (drop (length p) rows)\<bar> \<le> int (length rows) * W"
proof -
  have "\<bar>row_bound f w (drop (length p) rows)\<bar> \<le> int (length rows - length p) * W"
    using row_bound_abs [of "drop (length p) rows" w W f] ok f by (auto dest: in_set_dropD)
  moreover have "\<bar>sum_by w rows p\<bar> \<le> int (length p) * W" using ok p by (intro sum_by_abs) auto
  ultimately have "\<bar>sum_by w rows p + row_bound f w (drop (length p) rows)\<bar> \<le>
      (int (length rows - length p) + int (length p)) * W" by (simp add: algebra_simps)
  then show ?thesis using p(2) by simp
qed

text \<open>The bounds of a node are sound.\<close>

lemma node_upper:
  assumes "\<forall>r\<in>set rows. row_ok r" "ys \<in> set (assignments (drop (length p) rows))" "length p \<le> length rows"
  shows "sum_by w rows (p @ ys) \<le> sum_by w rows p + row_bound max w (drop (length p) rows)"
  using row_bound_max [OF _ assms(2), of w] assms(1,3) sum_by_append [of p rows w ys]
  by (auto dest: in_set_dropD)

lemma node_lower:
  assumes "\<forall>r\<in>set rows. row_ok r" "ys \<in> set (assignments (drop (length p) rows))" "length p \<le> length rows"
  shows "sum_by w rows p + row_bound min w (drop (length p) rows) \<le> sum_by w rows (p @ ys)"
  using row_bound_min [OF _ assms(2), of w] assms(1,3) sum_by_append [of p rows w ys]
  by (auto dest: in_set_dropD)

text \<open>The Lagrangian bound: for a feasible completion, the scaled cost is at least the score.\<close>

lemma lagrangian_lower:
  assumes "\<forall>r\<in>set rows. row_ok r" "ys \<in> set (assignments (drop (length p) rows))" "length p \<le> length rows"
    and "feasible S T rows (p @ ys)" "0 \<le> mu"
  shows "sum_by (w_score q mu S T) rows p + row_bound min (w_score q mu S T) (drop (length p) rows) \<le>
    q * sum_by w_cost rows (p @ ys)"
proof -
  have "0 \<le> mu * sum_by (w_linear S T) rows (p @ ys)" using assms(4,5) by (simp add: feasible_def)
  then have "sum_by (w_score q mu S T) rows (p @ ys) \<le> q * sum_by w_cost rows (p @ ys)"
    by (simp add: sum_by_score)
  with node_lower [OF assms(1-3), of "w_score q mu S T"] show ?thesis by linarith
qed

section \<open>The preprocessing\<close>

text \<open>What ranges the weights need: twice a row's, and all rows' contributions, are operands.\<close>

definition in_range :: "row list \<Rightarrow> int \<Rightarrow> (nat \<Rightarrow> int \<Rightarrow> int) \<Rightarrow> bool" where
  "in_range rows bound w \<longleftrightarrow>
     (\<exists>W. (\<forall>r\<in>set rows. contrib_le w r W) \<and> 2 * W < bound \<and> int (length rows) * W < bound)"

definition enc_row :: "(cipher \<Rightarrow> int \<Rightarrow> bool) \<Rightarrow> cipher option list \<Rightarrow> row \<Rightarrow> bool" where
  "enc_row enc methods r \<longleftrightarrow> list_all2 (rel_option enc) methods r"

definition grid_ok :: "int \<Rightarrow> int \<Rightarrow> row list \<Rightarrow> int \<Rightarrow> lagrangian_grid option \<Rightarrow> bool" where
  "grid_ok S T rows bound grid \<longleftrightarrow> (\<forall>g. grid = Some g \<longrightarrow>
     (\<forall>mu\<in>set (g_mu g). 0 \<le> mu \<and> in_range rows bound (w_score (g_q g) mu S T)) \<and>
     in_range rows bound (\<lambda>m c. g_q g * c))"

text \<open>After \<open>m\<close> methods of a row.\<close>

definition prep_ok ::
  "(cipher \<Rightarrow> int \<Rightarrow> bool) \<Rightarrow> int \<Rightarrow> int \<Rightarrow> lagrangian_grid option \<Rightarrow> row \<Rightarrow> nat \<Rightarrow> row_prep \<Rightarrow> bool" where
  "prep_ok enc S T grid r m acc \<longleftrightarrow>
     rel_option enc (rp_max acc) (ext_upto max (w_linear S T) r m) \<and>
     length (rp_linear acc) = 3 \<and> length (rp_scores acc) = 3 \<and>
     (\<forall>j<m. \<forall>c. r ! j = Some c \<longrightarrow> enc (the (rp_linear acc ! j)) (w_linear S T (Suc j) c)) \<and>
     (grid = None \<longrightarrow> rel_option enc (rp_min acc) (ext_upto min w_cost r m)) \<and>
     (\<forall>g. grid = Some g \<longrightarrow> (\<forall>j<m. \<forall>c. r ! j = Some c \<longrightarrow>
        list_all2 (\<lambda>mu l. enc l (w_score (g_q g) mu S T (Suc j) c)) (g_mu g) (rp_scores acc ! j)))"

text \<open>What the preprocessing delivers.\<close>

definition env_ok ::
  "(cipher \<Rightarrow> int \<Rightarrow> bool) \<Rightarrow> int \<Rightarrow> int \<Rightarrow> lagrangian_grid option \<Rightarrow> row list \<Rightarrow> bb_env \<Rightarrow> bool" where
  "env_ok enc S T grid rows env \<longleftrightarrow> n_grid env = grid \<and> enc (n_zero env) 0 \<and>
     list_all2 (enc_row enc) (n_costs env) rows \<and>
     (\<forall>i<length rows. \<forall>j<3. \<forall>c. rows ! i ! j = Some c \<longrightarrow>
        enc (the (n_linear env ! i ! j)) (w_linear S T (Suc j) c)) \<and>
     (\<forall>d\<le>length rows. enc (n_max_linear_suffix env ! d) (row_bound max (w_linear S T) (drop d rows))) \<and>
     (grid = None \<longrightarrow> (\<forall>d\<le>length rows. enc (n_min_cost_suffix env ! d) (row_bound min w_cost (drop d rows)))) \<and>
     (\<forall>g. grid = Some g \<longrightarrow>
        (\<forall>i<length rows. \<forall>j<3. \<forall>c. rows ! i ! j = Some c \<longrightarrow>
           list_all2 (\<lambda>mu l. enc l (w_score (g_q g) mu S T (Suc j) c)) (g_mu g) (n_scores env ! i ! j)) \<and>
        (\<forall>d\<le>length rows. list_all2 (\<lambda>mu l. enc l (row_bound min (w_score (g_q g) mu S T) (drop d rows)))
           (g_mu g) (n_lagrangian_suffix env ! d)))"

lemma in_range_row:
  assumes "in_range rows bound w" "r \<in> set rows"
  obtains W where "contrib_le w r W" "2 * W < bound"
  using assms by (auto simp: in_range_def)

lemma contrib_pos: "contrib_le w r W \<Longrightarrow> j < 3 \<Longrightarrow> r ! j = Some c \<Longrightarrow> 0 \<le> W"
  unfolding contrib_le_def by fastforce

lemma enc_row_nth:
  assumes "enc_row enc methods r" "row_ok r" "j < 3"
  shows "methods ! j = None \<longleftrightarrow> r ! j = None"
    and "methods ! j = Some cost \<Longrightarrow> \<exists>c. r ! j = Some c \<and> enc cost c \<and> 0 \<le> c"
proof -
  have l: "length r = 3" using assms(2) by (simp add: row_ok_def)
  then have "rel_option enc (methods ! j) (r ! j)"
    using assms(1,3) by (auto simp: enc_row_def list_all2_conv_all_nth)
  then show "methods ! j = None \<longleftrightarrow> r ! j = None"
    and "methods ! j = Some cost \<Longrightarrow> \<exists>c. r ! j = Some c \<and> enc cost c \<and> 0 \<le> c"
    using assms(2,3) l by (auto simp: option_rel_Some1 option_rel_Some2 row_ok_def dest: nth_mem split: option.splits)
      (metis nth_mem)+
qed

lemma suffix_adds_ok:
  assumes z: "R z (V [])"
    and plus: "\<And>a r b rs. P a r \<Longrightarrow> R b (V rs) \<Longrightarrow> yields I E (addf a b) (\<lambda>c. R c (V (r # rs)))"
    and l: "list_all2 P as rs"
  shows "yields I E (suffix_adds addf z as)
    (\<lambda>l. length l = Suc (length rs) \<and> (\<forall>d\<le>length rs. R (l ! d) (V (drop d rs))))"
  using l
proof (induction as rs rule: list_all2_induct)
  case Nil
  show ?case using z by (simp add: yields_ret)
next
  case (Cons a as r rs)
  show ?case
    unfolding suffix_adds.simps
  proof (rule yields_bnd [OF Cons(3)])
    fix l assume l: "length l = Suc (length rs) \<and> (\<forall>d\<le>length rs. R (l ! d) (V (drop d rs)))"
    then have "R (hd l) (V rs)" by (metis Zero_not_Suc drop0 hd_conv_nth le0 list.size(3))
    from plus [OF Cons(1) this] show "yields I E (bnd (addf a (hd l)) (\<lambda>x. ret (x # l)))
        (\<lambda>l. length l = Suc (length (r # rs)) \<and> (\<forall>d\<le>length (r # rs). R (l ! d) (V (drop d (r # rs)))))"
    proof (rule yields_bnd)
      fix x assume x: "R x (V (r # rs))"
      have "R ((x # l) ! d) (V (drop d (r # rs)))" if "d \<le> length (r # rs)" for d
        using x l that by (cases d) simp_all
      then show "yields I E (ret (x # l))
          (\<lambda>l. length l = Suc (length (r # rs)) \<and> (\<forall>d\<le>length (r # rs). R (l ! d) (V (drop d (r # rs)))))"
        using l by (simp add: yields_ret)
    qed
  qed
qed

context secure_ops
begin

lemma running_max_ok:
  assumes "rel_option enc cur (ext_upto max w r m)" "enc c (w (Suc m) v)" "r ! m = Some v"
    and "contrib_le w r W" "2 * W < bound" "m < 3"
  shows "yields inv E (running (s_max ops) cur c) (\<lambda>d. rel_option enc d (ext_upto max w r (Suc m)))"
proof (cases "ext_upto max w r m")
  case None
  then show ?thesis using assms(1-3) by (simp add: running_def yields_ret)
next
  case (Some y)
  then obtain b where b: "cur = Some b" "enc b y" using assms(1) by (auto simp: option_rel_Some2)
  have "\<bar>y\<bar> \<le> W" using ext_upto_abs [OF assms(4), of max m] Some assms(6) by simp
  moreover have "\<bar>w (Suc m) v\<bar> \<le> W" using assms(3,4,6) by (simp add: contrib_le_def)
  ultimately have "operands enc bound (b, c) (y, w (Suc m) v)" "\<bar>y - w (Suc m) v\<bar> < bound"
    using assms(2,5) b(2) by (auto simp: operands_def)
  from max_ok [OF this] show ?thesis
    by (auto simp: running_def b(1) assms(3) Some intro!: yields_bnd yields_ret)
qed

lemma running_min_ok:
  assumes "rel_option enc cur (ext_upto min w r m)" "enc c (w (Suc m) v)" "r ! m = Some v"
    and "contrib_le w r W" "2 * W < bound" "m < 3"
  shows "yields inv E (running (s_min ops) cur c) (\<lambda>d. rel_option enc d (ext_upto min w r (Suc m)))"
proof (cases "ext_upto min w r m")
  case None
  then show ?thesis using assms(1-3) by (simp add: running_def yields_ret)
next
  case (Some y)
  then obtain b where b: "cur = Some b" "enc b y" using assms(1) by (auto simp: option_rel_Some2)
  have "\<bar>y\<bar> \<le> W" using ext_upto_abs [OF assms(4), of min m] Some assms(6) by simp
  moreover have "\<bar>w (Suc m) v\<bar> \<le> W" using assms(3,4,6) by (simp add: contrib_le_def)
  ultimately have "operands enc bound (b, c) (y, w (Suc m) v)" "\<bar>y - w (Suc m) v\<bar> < bound"
    using assms(2,5) b(2) by (auto simp: operands_def)
  from min_ok [OF this] show ?thesis
    by (auto simp: running_def b(1) assms(3) Some intro!: yields_bnd yields_ret)
qed

lemma bb_score_ok:
  assumes "enc scaled (q * c)" "enc contribution (w_linear S T m c)"
  shows "yields inv E (bb_score ops scaled contribution mu) (\<lambda>l. enc l (w_score q mu S T m c))"
proof (cases "mu = 0")
  case True
  then show ?thesis using assms(1) by (simp add: bb_score_def w_score_def yields_ret)
next
  case False
  then show ?thesis
    unfolding bb_score_def if_not_P [OF False] w_score_def
    by (intro yields_bnd [OF scalarMul_law [OF assms(2)]] sub_ok [OF assms(1)])
qed

lemma prep_method_ok:
  assumes m: "m < 3" and row: "enc_row enc methods r" "row_ok r"
    and acc: "prep_ok enc S T grid r m acc"
    and lin: "contrib_le (w_linear S T) r W" "2 * W < bound"
    and cost: "contrib_le w_cost r W'" "2 * W' < bound"
  shows "yields inv E (prep_method ops grid (S - T) (- T) methods m acc) (prep_ok enc S T grid r (Suc m))"
proof (cases "methods ! m")
  case None
  then have "r ! m = None" using enc_row_nth(1) [OF row m] by simp
  then have "prep_ok enc S T grid r (Suc m) acc"
    using acc by (auto simp: prep_ok_def less_Suc_eq)
  then show ?thesis using None by (simp add: prep_method_def yields_ret)
next
  case (Some cost)
  then obtain c where c: "r ! m = Some c" "enc cost c" using enc_row_nth(2) [OF row m] by blast
  have factor: "(if m < 2 then S - T else - T) * c = w_linear S T (Suc m) c" by (simp add: w_linear_def)
  have a: "rel_option enc (rp_max acc) (ext_upto max (w_linear S T) r m)"
    and len: "length (rp_linear acc) = 3" "length (rp_scores acc) = 3"
    using acc by (simp_all add: prep_ok_def)
  show ?thesis
    unfolding prep_method_def Some option.case
  proof (rule yields_bnd [OF scalarMul_law [OF c(2)]])
    fix contribution assume "enc contribution ((if m < 2 then S - T else - T) * c)"
    then have co: "enc contribution (w_linear S T (Suc m) c)" by (simp only: factor)
    show "yields inv E (bnd (running (s_max ops) (rp_max acc) contribution) (\<lambda>maximum.
          let acc = acc\<lparr>rp_linear := (rp_linear acc)[m := Some contribution], rp_max := maximum\<rparr> in
          case grid of
            None \<Rightarrow> bnd (running (s_min ops) (rp_min acc) cost) (\<lambda>minimum. ret (acc\<lparr>rp_min := minimum\<rparr>))
          | Some g \<Rightarrow>
              bnd (scalarMul ops cost (g_q g)) (\<lambda>scaled_cost.
              bnd (mapM (bb_score ops scaled_cost contribution) (g_mu g)) (\<lambda>scores.
              ret (acc\<lparr>rp_scores := (rp_scores acc)[m := scores]\<rparr>))))) (prep_ok enc S T grid r (Suc m))"
    proof (rule yields_bnd [OF running_max_ok [OF a co c(1) lin m]])
      fix mx assume mx: "rel_option enc mx (ext_upto max (w_linear S T) r (Suc m))"
      let ?acc = "acc\<lparr>rp_linear := (rp_linear acc)[m := Some contribution], rp_max := mx\<rparr>"
      show "yields inv E (let acc = ?acc in
          case grid of
            None \<Rightarrow> bnd (running (s_min ops) (rp_min acc) cost) (\<lambda>minimum. ret (acc\<lparr>rp_min := minimum\<rparr>))
          | Some g \<Rightarrow>
              bnd (scalarMul ops cost (g_q g)) (\<lambda>scaled_cost.
              bnd (mapM (bb_score ops scaled_cost contribution) (g_mu g)) (\<lambda>scores.
              ret (acc\<lparr>rp_scores := (rp_scores acc)[m := scores]\<rparr>)))) (prep_ok enc S T grid r (Suc m))"
      proof (cases grid)
        case None
        then have mn: "rel_option enc (rp_min acc) (ext_upto min w_cost r m)"
          using acc by (simp add: prep_ok_def)
        have "enc cost (w_cost (Suc m) c)" using c(2) by (simp add: w_cost_def)
        from running_min_ok [OF mn this c(1) assms(7,8) m] show ?thesis
          using None acc mx co c(1) len m
          by (auto intro!: yields_bnd yields_ret simp: prep_ok_def less_Suc_eq nth_list_update Let_def
              simp del: ext_upto.simps)
      next
        case (Some g)
        have "yields inv E (mapM (bb_score ops scaled contribution) (g_mu g))
            (list_all2 (\<lambda>mu l. enc l (w_score (g_q g) mu S T (Suc m) c)) (g_mu g))"
          if "enc scaled (g_q g * c)" for scaled
          by (rule yields_mapM) (rule bb_score_ok [OF that co])
        then show ?thesis
          using Some acc mx co c(1) len m
          by (auto intro!: yields_bnd [OF scalarMul_law [OF c(2)]] yields_bnd yields_ret
              simp: prep_ok_def less_Suc_eq nth_list_update Let_def simp del: ext_upto.simps)
      qed
    qed
  qed
qed

lemma lag_lower_ok:
  assumes row: "enc_row enc methods r" "row_ok r"
    and scores: "\<And>j c. j < 3 \<Longrightarrow> r ! j = Some c \<Longrightarrow> enc (scores ! j ! k) (w (Suc j) c)"
    and W: "contrib_le w r W" "2 * W < bound"
  shows "yields inv E (lag_lower ops methods scores k) (\<lambda>l. enc l (row_ext min w r))"
  unfolding lag_lower_def
proof (rule yields_bnd)
  let ?f = "\<lambda>m lower. if methods ! m = None then ret lower else running (s_min ops) lower (scores ! m ! k)"
  have "yields inv E (foldM ?f [0, 1, 2] None)
      (\<lambda>l. rel_option enc l (ext_upto min w r (length [0, 1, 2::nat])))"
  proof (rule yields_foldM_indexed [where J = "\<lambda>m l. rel_option enc l (ext_upto min w r m)"])
    fix i lower assume i: "i < length [0, 1, 2::nat]" and l: "rel_option enc lower (ext_upto min w r i)"
    then have m: "[0, 1, 2] ! i = i" "i < 3" by (auto simp: less_Suc_eq)
    show "yields inv E (?f ([0, 1, 2] ! i) lower) (\<lambda>l. rel_option enc l (ext_upto min w r (Suc i)))"
    proof (cases "methods ! i")
      case None
      then have "r ! i = None" using enc_row_nth(1) [OF row m(2)] by simp
      then show ?thesis using l None m(1) by (simp add: yields_ret)
    next
      case (Some cost)
      then obtain c where "r ! i = Some c" using enc_row_nth(2) [OF row m(2)] by blast
      then show ?thesis
        using running_min_ok [OF l scores [OF m(2)] _ W m(2)] Some m(1) by simp
    qed
  qed simp
  then show "yields inv E (foldM ?f [0, 1, 2] None) (\<lambda>l. rel_option enc l (ext_upto min w r 3))"
    by (simp add: numeral_3_eq_3)
next
  fix l assume "rel_option enc l (ext_upto min w r 3)"
  then have "enc (the l) (row_ext min w r)" using row(2) by (rule rel_row_ext)
  then show "yields inv E (ret (the l)) (\<lambda>l. enc l (row_ext min w r))" by (rule yields_ret)
qed

lemma prep_row_ok:
  assumes row: "enc_row enc methods r" "row_ok r" and r: "r \<in> set rows"
    and range: "in_range rows bound (w_linear S T)" "in_range rows bound w_cost" "grid_ok S T rows bound grid"
  shows "yields inv E (prep_row ops grid (S - T) (- T) methods) (\<lambda>(acc, lowers).
    prep_ok enc S T grid r 3 acc \<and> (\<forall>g. grid = Some g \<longrightarrow>
      list_all2 (\<lambda>mu l. enc l (row_ext min (w_score (g_q g) mu S T) r)) (g_mu g) lowers))"
proof -
  obtain W W' where W: "contrib_le (w_linear S T) r W" "2 * W < bound" "contrib_le w_cost r W'" "2 * W' < bound"
    using range(1,2) r by (meson in_range_row)
  let ?start = "\<lparr>rp_linear = [None, None, None], rp_scores = [[], [], []], rp_min = None, rp_max = None\<rparr>"
  have "yields inv E (foldM (prep_method ops grid (S - T) (- T) methods) [0, 1, 2] ?start)
      (prep_ok enc S T grid r (length [0, 1, 2::nat]))"
  proof (rule yields_foldM_indexed)
    show "prep_ok enc S T grid r 0 ?start" by (simp add: prep_ok_def)
    fix i acc assume i: "i < length [0, 1, 2::nat]" and a: "prep_ok enc S T grid r i acc"
    then have "[0, 1, 2] ! i = i" "i < 3" by (auto simp: less_Suc_eq)
    with prep_method_ok [OF _ row a W]
    show "yields inv E (prep_method ops grid (S - T) (- T) methods ([0, 1, 2] ! i) acc)
        (prep_ok enc S T grid r (Suc i))" by simp
  qed
  then have f: "yields inv E (foldM (prep_method ops grid (S - T) (- T) methods) [0, 1, 2] ?start)
      (prep_ok enc S T grid r 3)" by (simp add: numeral_3_eq_3)
  show ?thesis
    unfolding prep_row_def
  proof (rule yields_bnd [OF f])
    fix acc assume a: "prep_ok enc S T grid r 3 acc"
    show "yields inv E (case grid of
        None \<Rightarrow> ret (acc, [])
      | Some g \<Rightarrow> bnd (mapM (lag_lower ops methods (rp_scores acc)) [0..<length (g_mu g)]) (\<lambda>lowers.
          ret (acc, lowers))) (\<lambda>(acc, lowers).
      prep_ok enc S T grid r 3 acc \<and> (\<forall>g. grid = Some g \<longrightarrow>
        list_all2 (\<lambda>mu l. enc l (row_ext min (w_score (g_q g) mu S T) r)) (g_mu g) lowers))"
    proof (cases grid)
      case None
      then show ?thesis using a by (simp add: yields_ret)
    next
      case (Some g)
      have "yields inv E (lag_lower ops methods (rp_scores acc) k)
          (\<lambda>l. enc l (row_ext min (w_score (g_q g) (g_mu g ! k) S T) r))" if k: "k < length (g_mu g)" for k
      proof -
        have "in_range rows bound (w_score (g_q g) (g_mu g ! k) S T)"
          using range(3) Some k by (simp add: grid_ok_def)
        then obtain V where V: "contrib_le (w_score (g_q g) (g_mu g ! k) S T) r V" "2 * V < bound"
          using r by (rule in_range_row)
        show ?thesis
        proof (rule lag_lower_ok [OF row _ V])
          fix j c assume "j < (3::nat)" "r ! j = Some c"
          then show "enc (rp_scores acc ! j ! k) (w_score (g_q g) (g_mu g ! k) S T (Suc j) c)"
            using a Some k by (auto simp: prep_ok_def list_all2_conv_all_nth)
        qed
      qed
      then have "yields inv E (mapM (lag_lower ops methods (rp_scores acc)) [0..<length (g_mu g)])
          (list_all2 (\<lambda>k l. enc l (row_ext min (w_score (g_q g) (g_mu g ! k) S T) r)) [0..<length (g_mu g)])"
        by (intro yields_mapM) simp
      then show ?thesis
        using a Some by (auto intro!: yields_bnd yields_ret simp: list_all2_conv_all_nth)
    qed
  qed
qed

lemma add_all_ok:
  assumes "list_all2 (\<lambda>mu a. enc a (f mu)) mus xs" "list_all2 (\<lambda>mu b. enc b (h mu)) mus ys"
  shows "yields inv E (add_all ops xs ys) (list_all2 (\<lambda>mu c. enc c (f mu + h mu)) mus)"
proof -
  have "list_all2 (\<lambda>xy mu. enc (fst xy) (f mu) \<and> enc (snd xy) (h mu)) (zip xs ys) mus"
    using assms by (auto simp: list_all2_conv_all_nth)
  then show ?thesis
    unfolding add_all_def by (rule yields_mapM_values) (auto intro: add_law)
qed

lemma bb_prepare_ok:
  assumes costs: "list_all2 (enc_row enc) (q_costs request) rows" and ok: "\<forall>r\<in>set rows. row_ok r"
    and S: "S = d_scale (s_domain ops)" and T: "T = q_threshold request"
    and range: "in_range rows bound (w_linear S T)" "in_range rows bound w_cost" "grid_ok S T rows bound grid"
  shows "yields inv E (bb_prepare ops grid request) (\<lambda>env. env_ok enc S T grid rows env \<and>
    n_session env = q_session request)"
proof -
  define prepped where "prepped x r \<longleftrightarrow> prep_ok enc S T grid r 3 (fst x) \<and> row_ok r \<and> (\<forall>g. grid = Some g \<longrightarrow>
      list_all2 (\<lambda>mu l. enc l (row_ext min (w_score (g_q g) mu S T) r)) (g_mu g) (snd x))" for x r
  have rows: "list_all2 (\<lambda>methods r. enc_row enc methods r \<and> r \<in> set rows) (q_costs request) rows"
    using costs by (auto simp: list_all2_conv_all_nth)
  have prep: "yields inv E (mapM (prep_row ops grid (S - T) (- T)) (q_costs request))
      (list_all2 (\<lambda>r x. prepped x r) rows)"
    by (rule yields_mapM_values [OF rows], rule yields_weaken [OF prep_row_ok [OF _ _ _ range]])
       (use ok in \<open>auto simp: prepped_def\<close>)
  show ?thesis
    unfolding bb_prepare_def Let_def S [symmetric] T [symmetric]
  proof (rule yields_bnd [OF encryptConstant_law], rule yields_bnd [OF prep])
    fix zero xs assume zero: "enc zero 0" and "list_all2 (\<lambda>r x. prepped x r) rows xs"
    then have xs: "list_all2 prepped xs rows" by (simp add: list_all2_conv_all_nth)
    have mx: "list_all2 (\<lambda>c r. enc c (row_ext max (w_linear S T) r)) (map (the \<circ> rp_max \<circ> fst) xs) rows"
      using xs unfolding list_all2_map1
    proof (rule list_all2_mono)
      fix x r assume "prepped x r"
      then show "enc ((the \<circ> rp_max \<circ> fst) x) (row_ext max (w_linear S T) r)"
        by (simp add: prepped_def prep_ok_def rel_row_ext)
    qed
    have maxs: "yields inv E (suffix_adds (s_add ops) zero (map (the \<circ> rp_max \<circ> fst) xs))
        (\<lambda>l. length l = Suc (length rows) \<and>
          (\<forall>d\<le>length rows. enc (l ! d) (row_bound max (w_linear S T) (drop d rows))))"
      by (rule suffix_adds_ok [OF _ _ mx, where R = enc])
         (use zero in \<open>auto simp: row_bound_def intro: add_law\<close>)
    let ?lags = "\<lambda>g l. \<forall>d\<le>length rows.
      list_all2 (\<lambda>mu c. enc c (row_bound min (w_score (g_q g) mu S T) (drop d rows))) (g_mu g) (l ! d)"
    let ?mins = "\<lambda>l. \<forall>d\<le>length rows. enc (l ! d) (row_bound min w_cost (drop d rows))"
    have bounds: "yields inv E (case grid of
             Some g \<Rightarrow> bnd (suffix_adds (add_all ops) (replicate (length (g_mu g)) zero) (map snd xs))
               (\<lambda>l. ret ([], l))
           | None \<Rightarrow> bnd (suffix_adds (s_add ops) zero (map (the \<circ> rp_min \<circ> fst) xs))
               (\<lambda>l. ret (l, []))) (\<lambda>(mins, lags). (grid = None \<longrightarrow> ?mins mins) \<and> (\<forall>g. grid = Some g \<longrightarrow> ?lags g lags))"
    proof (cases grid)
      case None
      have mn: "list_all2 (\<lambda>c r. enc c (row_ext min w_cost r)) (map (the \<circ> rp_min \<circ> fst) xs) rows"
        using xs unfolding list_all2_map1
      proof (rule list_all2_mono)
        fix x r assume "prepped x r"
        then show "enc ((the \<circ> rp_min \<circ> fst) x) (row_ext min w_cost r)"
          using None by (simp add: prepped_def prep_ok_def rel_row_ext)
      qed
      have "yields inv E (suffix_adds (s_add ops) zero (map (the \<circ> rp_min \<circ> fst) xs))
          (\<lambda>l. length l = Suc (length rows) \<and> ?mins l)"
        by (rule suffix_adds_ok [OF _ _ mn, where R = enc])
           (use zero in \<open>auto simp: row_bound_def intro: add_law\<close>)
      then show ?thesis using None by (auto intro!: yields_bnd yields_ret)
    next
      case (Some g)
      have lg: "list_all2 (\<lambda>l r. list_all2 (\<lambda>mu c. enc c (row_ext min (w_score (g_q g) mu S T) r)) (g_mu g) l)
          (map snd xs) rows"
        using xs Some unfolding list_all2_map1 by (auto simp: prepped_def elim!: list_all2_mono)
      have "yields inv E (suffix_adds (add_all ops) (replicate (length (g_mu g)) zero) (map snd xs))
          (\<lambda>l. length l = Suc (length rows) \<and> ?lags g l)"
      proof (rule suffix_adds_ok [OF _ _ lg, where
            R = "\<lambda>l V. list_all2 (\<lambda>mu c. enc c (V mu)) (g_mu g) l" and
            V = "\<lambda>rs mu. row_bound min (w_score (g_q g) mu S T) rs"])
        show "list_all2 (\<lambda>mu c. enc c (row_bound min (w_score (g_q g) mu S T) [])) (g_mu g)
            (replicate (length (g_mu g)) zero)"
          using zero by (simp add: row_bound_def list_all2_conv_all_nth)
      next
        fix a r b rs
        assume "list_all2 (\<lambda>mu c. enc c (row_ext min (w_score (g_q g) mu S T) r)) (g_mu g) a"
          and "list_all2 (\<lambda>mu c. enc c (row_bound min (w_score (g_q g) mu S T) rs)) (g_mu g) b"
        from add_all_ok [OF this]
        show "yields inv E (add_all ops a b)
            (\<lambda>c. list_all2 (\<lambda>mu c. enc c (row_bound min (w_score (g_q g) mu S T) (r # rs))) (g_mu g) c)"
          by (simp add: row_bound_def)
      qed
      then show ?thesis using Some by (auto intro!: yields_bnd yields_ret)
    qed
    let ?env = "\<lambda>mins lags maxs. \<lparr>n_costs = q_costs request, n_session = q_session request, n_grid = grid,
           n_zero = zero, n_linear = map (rp_linear \<circ> fst) xs, n_scores = map (rp_scores \<circ> fst) xs,
           n_min_cost_suffix = mins, n_lagrangian_suffix = lags, n_max_linear_suffix = maxs\<rparr>"
    have env: "env_ok enc S T grid rows (?env mins lags maxs)"
      if "grid = None \<longrightarrow> ?mins mins" "\<forall>g. grid = Some g \<longrightarrow> ?lags g lags"
        "\<forall>d\<le>length rows. enc (maxs ! d) (row_bound max (w_linear S T) (drop d rows))" for mins lags maxs
    proof -
      have l: "length xs = length rows" and p: "\<And>i. i < length rows \<Longrightarrow> prepped (xs ! i) (rows ! i)"
        using xs by (auto simp: list_all2_conv_all_nth)
      show ?thesis
        using that costs zero l p by (auto simp: env_ok_def prepped_def prep_ok_def)
    qed
    show "yields inv E (bnd (case grid of
             Some g \<Rightarrow> bnd (suffix_adds (add_all ops) (replicate (length (g_mu g)) zero) (map snd xs))
               (\<lambda>l. ret ([], l))
           | None \<Rightarrow> bnd (suffix_adds (s_add ops) zero (map (the \<circ> rp_min \<circ> fst) xs))
               (\<lambda>l. ret (l, []))) (\<lambda>(mins, lags).
        bnd (suffix_adds (s_add ops) zero (map (the \<circ> rp_max \<circ> fst) xs)) (\<lambda>maxs.
        ret (?env mins lags maxs))))
        (\<lambda>env. env_ok enc S T grid rows env \<and> n_session env = q_session request)"
    proof (rule yields_bnd [OF bounds])
      fix ml assume ml: "case ml of (mins, lags) \<Rightarrow>
        (grid = None \<longrightarrow> ?mins mins) \<and> (\<forall>g. grid = Some g \<longrightarrow> ?lags g lags)"
      obtain mins lags where m: "ml = (mins, lags)" by (cases ml)
      show "yields inv E (case ml of (mins, lags) \<Rightarrow>
          bnd (suffix_adds (s_add ops) zero (map (the \<circ> rp_max \<circ> fst) xs)) (\<lambda>maxs. ret (?env mins lags maxs)))
          (\<lambda>env. env_ok enc S T grid rows env \<and> n_session env = q_session request)"
        unfolding m prod.case
        by (rule yields_bnd [OF maxs], rule yields_ret) (use ml m env in auto)
    qed
  qed
qed

end

end
