(* ===== verification/EncryptedSearch.thy ===== *)
theory EncryptedSearch
  imports EncryptedBB OffRuntime
begin

text \<open>
  The encrypted branch and bound is exact. In the environment of the predicate engine the search ends
  with an encryption of the optimum of the cost model, for both kinds of cost bound
  (\<open>bb_solve_runs\<close>): the incumbent after a subtree is the best of the incumbent before it and of the
  subtree's feasible leaves, whatever was pruned, and no operation id is used twice. The properties
  are the instances for the OFF backend.
\<close>

section \<open>The invariant of the search\<close>

definition enc_prefix ::
  "(cipher \<Rightarrow> int \<Rightarrow> bool) \<Rightarrow> int \<Rightarrow> int \<Rightarrow> row list \<Rightarrow> cprefix \<Rightarrow> nat list \<Rightarrow> bool" where
  "enc_prefix enc S T rows px p \<longleftrightarrow> enc (px_total px) (sum_by w_cost rows p) \<and>
     enc (px_c12 px) (sum_by w_c12 rows p) \<and> enc (px_c3 px) (sum_by w_c3 rows p) \<and>
     enc (px_linear px) (sum_by (w_linear S T) rows p)"

definition enc_scores ::
  "(cipher \<Rightarrow> int \<Rightarrow> bool) \<Rightarrow> int \<Rightarrow> int \<Rightarrow> lagrangian_grid option \<Rightarrow> row list \<Rightarrow> cipher list \<Rightarrow> nat list \<Rightarrow> bool" where
  "enc_scores enc S T grid rows lag p \<longleftrightarrow> (\<forall>g. grid = Some g \<longrightarrow>
     list_all2 (\<lambda>mu l. enc l (sum_by (w_score (g_q g) mu S T) rows p)) (g_mu g) lag)"

text \<open>The incumbent: the best leaf so far, encrypted.\<close>

definition bb_rel ::
  "(cipher \<Rightarrow> int \<Rightarrow> bool) \<Rightarrow> int \<Rightarrow> int \<Rightarrow> lagrangian_grid option \<Rightarrow> row list \<Rightarrow> ckey option \<Rightarrow> bb_state \<Rightarrow> bool" where
  "bb_rel enc S T grid rows b x \<longleftrightarrow> (case b of
     None \<Rightarrow> \<not> x_has_incumbent x
   | Some k \<Rightarrow> x_has_incumbent x \<and>
       (\<exists>xs. k = ckey rows xs \<and> x_solution x = xs \<and> xs \<in> set (assignments rows) \<and>
          feasible S T rows xs \<and> enc_prefix enc S T rows (x_incumbent x) xs \<and>
          (\<forall>g. grid = Some g \<longrightarrow> enc (x_scaled_incumbent x) (g_q g * sum_by w_cost rows xs))))"

text \<open>Everything still to be visited below \<open>p\<close> comes after the incumbent.\<close>

definition later :: "row list \<Rightarrow> ckey option \<Rightarrow> nat list \<Rightarrow> bool" where
  "later rows b p \<longleftrightarrow> (\<forall>k. b = Some k \<longrightarrow>
     (\<forall>ys\<in>set (assignments (drop (length p) rows)). snd (snd k) < p @ ys))"

definition bb_key :: "bb_env \<Rightarrow> string \<Rightarrow> string" where
  "bb_key env operation = appendField (appendField [] (n_session env)) operation"

definition keys_free :: "bb_env \<Rightarrow> bb_state \<Rightarrow> string set \<Rightarrow> bool" where
  "keys_free env x used \<longleftrightarrow>
     (\<forall>i > x_prune_sequence x. bb_key env (''prune-'' @ to_string i) \<notin> used) \<and>
     (\<forall>i > x_accept_sequence x. bb_key env (''accept-'' @ to_string i) \<notin> used)"

text \<open>The number of nodes of a subtree bounds how far the counters move.\<close>

primrec tree_nodes :: "nat \<Rightarrow> nat" where
  "tree_nodes 0 = 1"
| "tree_nodes (Suc k) = 1 + 3 * tree_nodes k"

definition seq_room :: "nat \<Rightarrow> bb_state \<Rightarrow> bool" where
  "seq_room k x \<longleftrightarrow> x_node_sequence x + k < 2 ^ 64 \<and> x_prune_sequence x + k < 2 ^ 64 \<and>
     x_accept_sequence x + k < 2 ^ 64"

definition seq_moved :: "nat \<Rightarrow> bb_state \<Rightarrow> bb_state \<Rightarrow> bool" where
  "seq_moved k x y \<longleftrightarrow> x_node_sequence y \<le> x_node_sequence x + k \<and>
     x_prune_sequence y \<le> x_prune_sequence x + k \<and> x_accept_sequence y \<le> x_accept_sequence x + k"

definition bb_ready ::
  "(cipher \<Rightarrow> int \<Rightarrow> bool) \<Rightarrow> int \<Rightarrow> nat \<Rightarrow> int \<Rightarrow> int \<Rightarrow> lagrangian_grid option \<Rightarrow> row list \<Rightarrow> bb_env \<Rightarrow> bool" where
  "bb_ready enc bound max_batch S T grid rows env \<longleftrightarrow> env_ok enc S T grid rows env \<and>
     (\<forall>r\<in>set rows. row_ok r) \<and> in_range rows bound (w_linear S T) \<and> in_range rows bound w_cost \<and>
     grid_ok S T rows bound grid \<and> validIdentifier (n_session env) \<and>
     (\<forall>g. grid = Some g \<longrightarrow> g_mu g \<noteq> [] \<and> length (g_mu g) < max_batch \<and> 0 < g_q g)"

lemma inc64_small: "k + 1 < 2 ^ 64 \<Longrightarrow> inc64 k = k + 1"
  unfolding inc64_def by (rule mod_less)

lemma bb_context_key: "replayKey (bb_context env ty depth nd operation) = bb_key env operation"
  by (simp add: replayKey_def bb_context_def bb_key_def)

lemma bb_key_inj: "bb_key env a = bb_key env b \<longleftrightarrow> a = b"
  using replayKey_eq [of "bb_context env PruneNode 0 0 a" "bb_context env PruneNode 0 0 b"]
  unfolding bb_context_key by (simp add: bb_context_def)

lemma alnum_digits: "list_all isdigit_c s \<Longrightarrow> list_all (\<lambda>c. isalnum_c c \<or> c = CHR ''-'' \<or> c = CHR ''_'' \<or> c = CHR ''.'' \<or> c = CHR '':'') s"
  by (induction s) (auto simp: isalnum_c_def)

lemma numbered_identifier:
  assumes "validIdentifier pre" "length pre \<le> 100" "i < 2 ^ 64"
  shows "validIdentifier (pre @ to_string i)"
proof -
  have "(2::nat) ^ 64 \<le> 10 ^ 20" by simp
  then have "length (to_string i) \<le> 20" using assms(3) by (intro to_string_length) linarith+
  with assms(1,2) alnum_digits [OF to_string_digits] show ?thesis by (simp add: validIdentifier_def)
qed

lemma operation_prefixes: "validIdentifier ''prune-''" "validIdentifier ''accept-''" "validIdentifier ''node-''"
  by (simp_all add: validIdentifier_def isalnum_c_def isdigit_c_def)

lemma bb_context_valid:
  assumes "validIdentifier (n_session env)" "pre = ''prune-'' \<or> pre = ''accept-''" "i < 2 ^ 64" "nd < 2 ^ 64"
  shows "valid_ids (bb_context env ty depth nd (pre @ to_string i))"
  using assms(1,2) numbered_identifier [OF operation_prefixes(1) _ assms(3)]
    numbered_identifier [OF operation_prefixes(2) _ assms(3)]
    numbered_identifier [OF operation_prefixes(3) _ assms(4)]
  by (auto simp: valid_ids_def bb_context_def)

lemma keys_free_prune:
  assumes "keys_free env x used" "x_prune_sequence y = x_prune_sequence x + 1"
    and "x_accept_sequence y = x_accept_sequence x"
  shows "bb_key env (''prune-'' @ to_string (x_prune_sequence y)) \<notin> used"
    and "keys_free env y (insert (bb_key env (''prune-'' @ to_string (x_prune_sequence y))) used)"
  using assms by (auto simp: keys_free_def bb_key_inj to_string_inj)

lemma keys_free_accept:
  assumes "keys_free env x used" "x_accept_sequence y = x_accept_sequence x + 1"
    and "x_prune_sequence y = x_prune_sequence x"
  shows "bb_key env (''accept-'' @ to_string (x_accept_sequence y)) \<notin> used"
    and "keys_free env y (insert (bb_key env (''accept-'' @ to_string (x_accept_sequence y))) used)"
  using assms by (auto simp: keys_free_def bb_key_inj to_string_inj)

lemma contrib_le_part:
  assumes "contrib_le w r W" "\<And>m c. v m c = w m c \<or> v m c = 0"
  shows "contrib_le v r W"
  unfolding contrib_le_def
proof (intro allI impI)
  fix j c assume j: "j < 3" "r ! j = Some c"
  then have "\<bar>w (Suc j) c\<bar> \<le> W" using assms(1) by (simp add: contrib_le_def)
  then show "\<bar>v (Suc j) c\<bar> \<le> W" using assms(2) [of "Suc j" c] by auto
qed

lemma in_range_part:
  assumes "in_range rows bound w" "\<And>m c. v m c = w m c \<or> v m c = 0"
  shows "in_range rows bound v"
proof -
  have "contrib_le v r W" if "contrib_le w r W" for r W by (rule contrib_le_part [OF that]) (rule assms(2))
  with assms(1) show ?thesis unfolding in_range_def by blast
qed

lemma in_range_parts: "in_range rows bound w_cost \<Longrightarrow> in_range rows bound w_c12 \<and> in_range rows bound w_c3"
  by (auto intro!: in_range_part [where w = w_cost and v = w_c12] in_range_part [where w = w_cost and v = w_c3]
      simp: w_cost_def w_c12_def w_c3_def)

lemma prefix_range:
  assumes "in_range rows bound w" "p \<in> set (assignments (take (length p) rows))" "length p \<le> length rows" "0 < bound"
  shows "\<bar>sum_by w rows p\<bar> < bound"
proof -
  obtain W where W: "\<forall>r\<in>set rows. contrib_le w r W" "int (length rows) * W < bound"
    using assms(1) by (auto simp: in_range_def)
  have s: "\<bar>sum_by w rows p\<bar> \<le> int (length p) * W" using W(1) assms(2,3) by (rule sum_by_abs)
  show ?thesis
  proof (cases "0 \<le> W")
    case True
    then have "int (length p) * W \<le> int (length rows) * W" using assms(3) by (intro mult_right_mono) simp_all
    with s W(2) show ?thesis by linarith
  next
    case False
    then have "int (length p) * W \<le> 0" by (simp add: mult_nonneg_nonpos)
    with s assms(4) show ?thesis by linarith
  qed
qed

lemma node_range:
  assumes "in_range rows bound w" "\<forall>r\<in>set rows. row_ok r" "f = max \<or> f = min"
    and "p \<in> set (assignments (take (length p) rows))" "length p \<le> length rows"
  shows "\<bar>sum_by w rows p + row_bound f w (drop (length p) rows)\<bar> < bound"
proof -
  obtain W where W: "\<forall>r\<in>set rows. contrib_le w r W" "int (length rows) * W < bound"
    using assms(1) by (auto simp: in_range_def)
  with node_bound_abs [of rows w W f p] assms(2-5) show ?thesis by fastforce
qed

lemma fold_keep_mem: "fold keep ks b = Some k \<Longrightarrow> k \<in> set ks \<or> b = Some k"
  by (induction ks arbitrary: b) (auto simp: keep_def split: option.splits if_splits)

context predicate_env
begin

lemma bb_leaf_runs:
  assumes ready: "bb_ready enc bound max_batch S T grid rows env" and sess: "n_session env \<in> sessions"
    and p: "p \<in> set (assignments rows)" and px: "enc_prefix enc S T rows px p" and cur: "x_current x = p"
    and rel: "bb_rel enc S T grid rows b x" and lt: "later rows b p"
    and sq: "x_accept_sequence x + 1 < 2 ^ 64" "x_node_sequence x < 2 ^ 64"
    and keys: "keys_free env x (snd st)" and st: "inv (snd st) (fst st)"
  shows "runs pexn (bb_leaf eng env px x) st (\<lambda>y st'. inv (snd st') (fst st') \<and>
    bb_rel enc S T grid rows (if feasible S T rows p then keep (ckey rows p) b else b) y \<and>
    x_node_sequence y = x_node_sequence x \<and> x_prune_sequence y = x_prune_sequence x \<and>
    x_accept_sequence y = x_accept_sequence x + 1 \<and> x_current y = p \<and> keys_free env y (snd st'))"
proof -
  let ?y = "x\<lparr>x_accept_sequence := inc64 (x_accept_sequence x),
            x_stats := (x_stats x)\<lparr>s_candidate_count := inc64 (s_candidate_count (x_stats x)),
              s_accept_predicates := inc64 (s_accept_predicates (x_stats x))\<rparr>\<rparr>"
  let ?ctx = "bb_context env AcceptCandidate (length (n_costs env)) (x_node_sequence ?y)
           (''accept-'' @ to_string (x_accept_sequence ?y))"
  let ?in = "\<lparr>a_linear = px_linear px, a_c3 = px_c3 px, a_cost = px_total px, a_c12 = px_c12 px,
         a_has_incumbent = x_has_incumbent ?y, a_incumbent_cost = px_total (x_incumbent ?y),
         a_incumbent_c12 = px_c12 (x_incumbent ?y)\<rparr>"
  let ?s = "\<lambda>w xs. sum_by w rows xs" and ?i = "x_solution x"
  have env: "n_grid env = grid" "validIdentifier (n_session env)"
    and ok: "\<forall>r\<in>set rows. row_ok r"
    and range: "in_range rows bound (w_linear S T)" "in_range rows bound w_cost" "grid_ok S T rows bound grid"
    using ready by (simp_all add: bb_ready_def env_ok_def)
  have acc: "x_accept_sequence ?y = x_accept_sequence x + 1" using inc64_small [OF sq(1)] by simp
  have ctx: "valid_ids ?ctx"
    by (rule bb_context_valid [OF env(2)]) (use sq acc in simp_all)
  have fresh: "replayKey ?ctx \<notin> snd st" and kf: "keys_free env ?y (insert (replayKey ?ctx) (snd st))"
    unfolding bb_context_key using keys_free_accept [OF keys acc] by simp_all
  have b0: "0 < bound" using bound_gt by simp
  have full: "\<bar>?s w xs\<bar> < bound" if "in_range rows bound w" "xs \<in> set (assignments rows)" for w xs
    using prefix_range [OF that(1) _ _ b0, of xs] that(2) assignments_length [OF that(2)] by simp
  note parts = in_range_parts [OF range(2)]
  have inc: "?i \<in> set (assignments rows)" "enc_prefix enc S T rows (x_incumbent x) ?i"
    "b = Some (ckey rows ?i)" if "x_has_incumbent x"
    using rel that by (auto simp: bb_rel_def split: option.splits)
  have v: "accept_values enc bound ?in (?s (w_linear S T) p) (?s w_c3 p) (?s w_cost p) (?s w_c12 p)
      (?s w_cost ?i) (?s w_c12 ?i)"
    using px inc full [OF range(1) p] full [OF range(2) p] full [OF conjunct1 [OF parts] p]
      full [OF conjunct2 [OF parts] p] full [OF range(2), of ?i] full [OF conjunct1 [OF parts], of ?i]
    by (auto simp: accept_values_def enc_prefix_def)
  have dec: "accept_decision (?s (w_linear S T) p) (?s w_c3 p) (?s w_cost p) (?s w_c12 p) (x_has_incumbent x)
      (?s w_cost ?i) (?s w_c12 ?i) \<longleftrightarrow> feasible S T rows p \<and> (b = None \<or> keep (ckey rows p) b = Some (ckey rows p))"
  proof (cases "x_has_incumbent x")
    case False
    then have "b = None" using rel by (auto simp: bb_rel_def split: option.splits)
    then show ?thesis using False by (simp add: accept_decision_def feasible_def)
  next
    case True
    have "?i < p" using lt inc(3) [OF True] p by (auto simp: later_def ckey_def assignments_length dest: assignments_length)
    then have "ckey rows p < ckey rows ?i \<longleftrightarrow> ?s w_cost p < ?s w_cost ?i \<or> ?s w_cost p = ?s w_cost ?i \<and> ?s w_c12 p < ?s w_c12 ?i"
      and "ckey rows ?i \<noteq> ckey rows p"
      by (auto simp: ckey_def less_prod_def)
    then show ?thesis using True inc(3) [OF True] by (auto simp: accept_decision_def feasible_def keep_def)
  qed
  have leaf: "bb_leaf eng env px x = bnd (acceptCandidate eng ?ctx ?in) (\<lambda>accept.
      if accept then
        bnd (case n_grid env of
               Some g \<Rightarrow> on_ops (scalarMul (e_ops eng) (px_total px) (g_q g))
             | None \<Rightarrow> ret (x_scaled_incumbent ?y)) (\<lambda>scaled.
        ret (?y\<lparr>x_has_incumbent := True, x_incumbent := px, x_scaled_incumbent := scaled,
               x_solution := x_current ?y\<rparr>))
      else ret ?y)"
    by (simp only: bb_leaf_def Let_def)
  have relb: "bb_rel enc S T grid rows b ?y" using rel by (simp add: bb_rel_def split: option.splits)
  show ?thesis
    unfolding leaf
  proof (rule runs_bndI [OF acceptCandidate_runs [OF ctx _ _ fresh st v]])
    show "predicate_type ?ctx = AcceptCandidate" by (simp add: bb_context_def)
    show "session_id ?ctx \<in> sessions" using sess by (simp add: bb_context_def)
    fix r st1 assume "r = accept_decision (?s (w_linear S T) p) (?s w_c3 p) (?s w_cost p) (?s w_c12 p)
          (a_has_incumbent ?in) (?s w_cost ?i) (?s w_c12 ?i) \<and>
        inv (snd st1) (fst st1) \<and> snd st1 = insert (replayKey ?ctx) (snd st)"
    then have r: "r \<longleftrightarrow> feasible S T rows p \<and> (b = None \<or> keep (ckey rows p) b = Some (ckey rows p))"
      and st1: "inv (snd st1) (fst st1)" "snd st1 = insert (replayKey ?ctx) (snd st)" using dec by auto
    show "runs pexn (if r then
        bnd (case n_grid env of
               Some g \<Rightarrow> on_ops (scalarMul (e_ops eng) (px_total px) (g_q g))
             | None \<Rightarrow> ret (x_scaled_incumbent ?y)) (\<lambda>scaled.
        ret (?y\<lparr>x_has_incumbent := True, x_incumbent := px, x_scaled_incumbent := scaled,
               x_solution := x_current ?y\<rparr>))
      else ret ?y) st1 (\<lambda>y st'. inv (snd st') (fst st') \<and>
        bb_rel enc S T grid rows (if feasible S T rows p then keep (ckey rows p) b else b) y \<and>
        x_node_sequence y = x_node_sequence x \<and> x_prune_sequence y = x_prune_sequence x \<and>
        x_accept_sequence y = x_accept_sequence x + 1 \<and> x_current y = p \<and> keys_free env y (snd st'))"
    proof (cases r)
      case False
      then have "(if feasible S T rows p then keep (ckey rows p) b else b) = b"
        using r by (auto simp: keep_def split: option.splits if_splits)
      then show ?thesis using False st1 relb acc cur kf by (auto intro!: runs_ret)
    next
      case True
      have new: "(if feasible S T rows p then keep (ckey rows p) b else b) = Some (ckey rows p)"
        using True r by (auto simp: keep_def)
      have scaled: "runs pexn (case n_grid env of
               Some g \<Rightarrow> on_ops (scalarMul (e_ops eng) (px_total px) (g_q g))
             | None \<Rightarrow> ret (x_scaled_incumbent ?y)) st1
          (\<lambda>c st2. inv (snd st2) (fst st2) \<and> snd st2 = snd st1 \<and> (\<forall>g. grid = Some g \<longrightarrow> enc c (g_q g * ?s w_cost p)))"
      proof (cases grid)
        case None
        then show ?thesis using env st1 by (simp add: runs_ret)
      next
        case (Some g)
        have "enc (px_total px) (?s w_cost p)" using px by (simp add: enc_prefix_def)
        from runs_on_ops [OF scalarMul_law [OF this] st1(1), of pexn "g_q g"] Some env(1) show ?thesis
          by (auto elim!: runs_weaken)
      qed
      show ?thesis
        unfolding if_P [OF True] new
        by (rule runs_bndI [OF scaled], rule runs_ret)
           (use p px cur acc kf st1 True r in \<open>auto simp: bb_rel_def keys_free_def\<close>)
    qed
  qed
qed

lemma bb_bounds_runs:
  assumes ready: "bb_ready enc bound max_batch S T grid rows env"
    and p: "p \<in> set (assignments (take (length p) rows))" "length p \<le> length rows"
    and px: "enc_prefix enc S T rows px p" and lag: "enc_scores enc S T grid rows lag p"
    and rel: "bb_rel enc S T grid rows b x" and st: "inv (snd st) (fst st)"
  shows "runs pexn (bb_bounds eng env (length p) px lag x) st (\<lambda>(lowers, pi) st'.
    inv (snd st') (fst st') \<and> snd st' = snd st \<and> (x_has_incumbent x \<longrightarrow> (\<exists>vs iv.
      enc pi iv \<and> \<bar>iv\<bar> < bound \<and> vs \<noteq> [] \<and> length vs < max_batch \<and>
      list_all2 (\<lambda>c l. enc c l \<and> \<bar>l\<bar> < bound) lowers vs \<and>
      (\<forall>v\<in>set vs. iv < v \<longrightarrow> (\<forall>ys\<in>set (assignments (drop (length p) rows)). feasible S T rows (p @ ys) \<longrightarrow>
         sum_by w_cost rows (x_solution x) < sum_by w_cost rows (p @ ys))))))"
proof (cases "x_has_incumbent x")
  case False
  then show ?thesis using st by (simp add: bb_bounds_def runs_ret)
next
  case True
  let ?d = "length p" and ?i = "x_solution x"
  have env: "n_grid env = grid"
    and ok: "\<forall>r\<in>set rows. row_ok r"
    and range: "in_range rows bound w_cost" "grid_ok S T rows bound grid"
    using ready by (simp_all add: bb_ready_def env_ok_def)
  have inc: "?i \<in> set (assignments rows)" "enc_prefix enc S T rows (x_incumbent x) ?i"
    "\<forall>g. grid = Some g \<longrightarrow> enc (x_scaled_incumbent x) (g_q g * sum_by w_cost rows ?i)"
    using rel True by (auto simp: bb_rel_def split: option.splits)
  have b0: "0 < bound" using bound_gt by simp
  have full: "\<bar>sum_by w rows ?i\<bar> < bound" if "in_range rows bound w" for w
    using prefix_range [OF that _ _ b0, of ?i] inc(1) assignments_length [OF inc(1)] by simp
  have nn: "\<not> \<not> x_has_incumbent x" using True by simp
  show ?thesis
  proof (cases grid)
    case None
    let ?v = "sum_by w_cost rows p + row_bound min w_cost (drop ?d rows)"
    have e: "enc (px_total px) (sum_by w_cost rows p)"
      "enc (n_min_cost_suffix env ! ?d) (row_bound min w_cost (drop ?d rows))"
      "enc (px_total (x_incumbent x)) (sum_by w_cost rows ?i)"
      using px inc(2) ready None p(2) by (simp_all add: enc_prefix_def bb_ready_def env_ok_def)
    have v: "\<bar>?v\<bar> < bound" by (rule node_range [OF range(1) ok _ p]) simp
    show ?thesis
      unfolding bb_bounds_def if_not_P [OF nn] env None option.case engine_fields
    proof (rule on_ops_step [OF add_law [OF e(1,2)] st], goal_cases)
      case (1 lower st')
      have "\<forall>v\<in>set [?v]. sum_by w_cost rows ?i < v \<longrightarrow> (\<forall>ys\<in>set (assignments (drop ?d rows)).
          feasible S T rows (p @ ys) \<longrightarrow> sum_by w_cost rows ?i < sum_by w_cost rows (p @ ys))"
        using node_lower [OF ok _ p(2), of _ w_cost] by fastforce
      with 1 e(3) full [OF range(1)] v batch_size show ?case
        by (intro runs_ret) (auto intro!: exI [of _ "[?v]"] exI [of _ "sum_by w_cost rows ?i"])
    qed simp
  next
    case (Some g)
    let ?w = "\<lambda>mu. w_score (g_q g) mu S T"
    let ?v = "\<lambda>mu. sum_by (?w mu) rows p + row_bound min (?w mu) (drop ?d rows)"
    let ?iv = "g_q g * sum_by w_cost rows ?i"
    have g: "g_mu g \<noteq> []" "length (g_mu g) < max_batch" "0 < g_q g"
      "\<And>mu. mu \<in> set (g_mu g) \<Longrightarrow> 0 \<le> mu \<and> in_range rows bound (?w mu)"
      "in_range rows bound (\<lambda>m c. g_q g * c)"
      using ready Some range(2) by (auto simp: bb_ready_def grid_ok_def)
    have e: "list_all2 (\<lambda>mu l. enc l (sum_by (?w mu) rows p)) (g_mu g) lag"
      "list_all2 (\<lambda>mu l. enc l (row_bound min (?w mu) (drop ?d rows))) (g_mu g) (n_lagrangian_suffix env ! ?d)"
      using lag ready Some p(2) by (simp_all add: enc_scores_def bb_ready_def env_ok_def)
    have v: "\<bar>?v mu\<bar> < bound" if "mu \<in> set (g_mu g)" for mu
      using g(4) [OF that] by (intro node_range [OF _ ok _ p]) simp_all
    have "sum_by (\<lambda>m c. g_q g * c) rows ?i = ?iv"
      using sum_by_weights [of "\<lambda>m c. g_q g * c" "g_q g" w_cost 0 w_cost rows ?i] by (simp add: w_cost_def)
    then have iv: "\<bar>?iv\<bar> < bound" using full [OF g(5)] by simp
    have sound: "sum_by w_cost rows ?i < sum_by w_cost rows (p @ ys)"
      if "mu \<in> set (g_mu g)" "?iv < ?v mu" "ys \<in> set (assignments (drop ?d rows))" "feasible S T rows (p @ ys)" for mu ys
    proof -
      have "?v mu \<le> g_q g * sum_by w_cost rows (p @ ys)"
        using g(4) [OF that(1)] by (intro lagrangian_lower [OF ok that(3) p(2) that(4)]) simp
      with that(2) have "g_q g * sum_by w_cost rows ?i < g_q g * sum_by w_cost rows (p @ ys)" by linarith
      then show ?thesis using g(3) by simp
    qed
    show ?thesis
      unfolding bb_bounds_def if_not_P [OF nn] env Some option.case engine_fields
    proof (rule on_ops_step [OF add_all_ok [OF e] st], goal_cases)
      case (1 lowers st')
      have "list_all2 (\<lambda>c l. enc c l \<and> \<bar>l\<bar> < bound) lowers (map ?v (g_mu g))"
        using 1(1) v by (auto simp: list_all2_conv_all_nth)
      with 1(2,3) inc(3) Some iv g(1,2) sound show ?case
        by (intro runs_ret) (auto intro!: exI [of _ "map ?v (g_mu g)"] exI [of _ ?iv])
    qed simp
  qed
qed

lemma bb_child_ok:
  assumes ready: "bb_ready enc bound max_batch S T grid rows env"
    and d: "length p < length rows" and m: "m < 3" and c: "rows ! length p ! m = Some c" "enc cost c"
    and px: "enc_prefix enc S T rows px p" and lag: "enc_scores enc S T grid rows lag p"
  shows "yields (inv K) E (bb_child ops env (length p) px lag m cost) (\<lambda>(child, clag).
    enc_prefix enc S T rows child (p @ [Suc m]) \<and> enc_scores enc S T grid rows clag (p @ [Suc m]))"
proof -
  have s: "sum_by w rows (p @ [Suc m]) = sum_by w rows p + w (Suc m) c" for w
    using sum_by_snoc [OF d, of w "Suc m"] c(1) by simp
  have env: "n_grid env = grid" "enc (the (n_linear env ! length p ! m)) (w_linear S T (Suc m) c)"
    "\<And>g. grid = Some g \<Longrightarrow>
       list_all2 (\<lambda>mu l. enc l (w_score (g_q g) mu S T (Suc m) c)) (g_mu g) (n_scores env ! length p ! m)"
    using ready d m c(1) by (simp_all add: bb_ready_def env_ok_def)
  have e: "enc (px_total px) (sum_by w_cost rows p)" "enc (px_c12 px) (sum_by w_c12 rows p)"
    "enc (px_c3 px) (sum_by w_c3 rows p)" "enc (px_linear px) (sum_by (w_linear S T) rows p)"
    using px by (simp_all add: enc_prefix_def)
  have parts: "yields (inv K) E (if m < 2 then bnd (s_add ops (px_c12 px) cost) (\<lambda>c. ret (c, px_c3 px))
          else bnd (s_add ops (px_c3 px) cost) (\<lambda>c. ret (px_c12 px, c)))
      (\<lambda>(c12, c3). enc c12 (sum_by w_c12 rows (p @ [Suc m])) \<and> enc c3 (sum_by w_c3 rows (p @ [Suc m])))"
    using e(2,3) m
    by (auto simp: s w_c12_def w_c3_def intro!: yields_bnd [OF add_law [OF e(2) c(2)]]
        yields_bnd [OF add_law [OF e(3) c(2)]] yields_ret)
  have scores: "yields (inv K) E (if grid = None then ret [] else add_all ops lag (n_scores env ! length p ! m))
      (\<lambda>l. enc_scores enc S T grid rows l (p @ [Suc m]))"
  proof (cases grid)
    case (Some g)
    from add_all_ok [OF lag [unfolded enc_scores_def, rule_format, OF Some] env(3) [OF Some]]
    show ?thesis using Some by (auto simp: enc_scores_def s elim!: yields_weaken)
  qed (simp add: yields_ret enc_scores_def)
  show ?thesis
    unfolding bb_child_def env(1)
  proof (rule yields_bnd [OF add_law [OF e(1) c(2)]], rule yields_bnd [OF parts])
    fix total cs assume t: "enc total (sum_by w_cost rows p + c)"
      and cs: "case cs of (c12, c3) \<Rightarrow> enc c12 (sum_by w_c12 rows (p @ [Suc m])) \<and>
        enc c3 (sum_by w_c3 rows (p @ [Suc m]))"
    obtain c12 c3 where c123: "cs = (c12, c3)" by (cases cs)
    show "yields (inv K) E (case cs of (c12, c3) \<Rightarrow>
        bnd (s_add ops (px_linear px) (the (n_linear env ! length p ! m))) (\<lambda>linr.
        bnd (if grid = None then ret [] else add_all ops lag (n_scores env ! length p ! m)) (\<lambda>lag.
        ret (\<lparr>px_total = total, px_c12 = c12, px_c3 = c3, px_linear = linr\<rparr>, lag))))
        (\<lambda>(child, clag). enc_prefix enc S T rows child (p @ [Suc m]) \<and> enc_scores enc S T grid rows clag (p @ [Suc m]))"
      unfolding c123 prod.case
      by (rule yields_bnd [OF add_law [OF e(4) env(2)]], rule yields_bnd [OF scores], rule yields_ret)
         (use t cs c123 s in \<open>auto simp: enc_prefix_def w_cost_def\<close>)
  qed
qed

text \<open>A subtree that the predicate prunes changes nothing.\<close>

lemma pruned_subtree:
  assumes "bb_ready enc bound max_batch S T grid rows env" "length p \<le> length rows"
    and rel: "bb_rel enc S T grid rows b x"
    and d: "sum_by (w_linear S T) rows p + row_bound max (w_linear S T) (drop (length p) rows) < 0 \<or>
      (x_has_incumbent x \<and> (\<forall>ys\<in>set (assignments (drop (length p) rows)). feasible S T rows (p @ ys) \<longrightarrow>
         sum_by w_cost rows (x_solution x) < sum_by w_cost rows (p @ ys)))"
  shows "fold keep (leaf_keys S T rows p) b = b"
  using d
proof
  have ok: "\<forall>r\<in>set rows. row_ok r" using assms(1) by (simp add: bb_ready_def)
  assume neg: "sum_by (w_linear S T) rows p + row_bound max (w_linear S T) (drop (length p) rows) < 0"
  show ?thesis
  proof (rule prune_infeasible)
    fix ys assume "ys \<in> set (assignments (drop (length p) rows))"
    from node_upper [OF ok this assms(2), of "w_linear S T"] neg show "\<not> feasible S T rows (p @ ys)"
      by (simp add: feasible_def)
  qed
next
  assume inc: "x_has_incumbent x \<and> (\<forall>ys\<in>set (assignments (drop (length p) rows)). feasible S T rows (p @ ys) \<longrightarrow>
         sum_by w_cost rows (x_solution x) < sum_by w_cost rows (p @ ys))"
  then have b: "b = Some (ckey rows (x_solution x))" using rel by (auto simp: bb_rel_def split: option.splits)
  show ?thesis
    unfolding b
  proof (rule prune_worse)
    fix ys assume "ys \<in> set (assignments (drop (length p) rows))" "feasible S T rows (p @ ys)"
    then have "sum_by w_cost rows (x_solution x) < sum_by w_cost rows (p @ ys)" using inc by blast
    then show "ckey rows (x_solution x) \<le> ckey rows (p @ ys)" by (simp add: ckey_def less_eq_prod_def)
  qed
qed

end


section \<open>The search is exact\<close>

lemma append_less: "(p @ a < p @ b) = (a < (b :: nat list))"
  by (induction p) simp_all

text \<open>The incumbent after the first \<open>i\<close> children.\<close>

definition after_children :: "int \<Rightarrow> int \<Rightarrow> row list \<Rightarrow> nat list \<Rightarrow> ckey option \<Rightarrow> nat \<Rightarrow> ckey option" where
  "after_children S T rows p b i = fold keep (concat (map (\<lambda>j.
     if rows ! length p ! j = None then [] else leaf_keys S T rows (p @ [Suc j])) [0..<i])) b"

lemma after_children_simps:
  "after_children S T rows p b 0 = b"
  "after_children S T rows p b (Suc i) =
     (if rows ! length p ! i = None then after_children S T rows p b i
      else fold keep (leaf_keys S T rows (p @ [Suc i])) (after_children S T rows p b i))"
  by (simp_all add: after_children_def)

lemma after_children_all:
  "length p < length rows \<Longrightarrow> after_children S T rows p b 3 = fold keep (leaf_keys S T rows p) b"
proof -
  assume "length p < length rows"
  moreover have "[0..<3] = [0, 1, 2::nat]" by (simp add: upt_rec)
  ultimately show ?thesis unfolding after_children_def by (simp only: leaf_keys_step)
qed

lemma later_child:
  assumes "later rows b p" "length p < length rows" "i \<le> j" "j < 3" "rows ! length p ! j \<noteq> None"
  shows "later rows (after_children S T rows p b i) (p @ [Suc j])"
  unfolding later_def
proof (intro allI impI ballI)
  fix k ys assume k: "after_children S T rows p b i = Some k"
    and ys: "ys \<in> set (assignments (drop (length (p @ [Suc j])) rows))"
  have "drop (length p) rows = rows ! length p # drop (Suc (length p)) rows"
    using assms(2) by (simp add: Cons_nth_drop_Suc)
  then have ext: "Suc j # ys \<in> set (assignments (drop (length p) rows))"
    using ys assms(4,5) by (auto simp: assignments_Cons_set simp del: assignments.simps)
  from fold_keep_mem [OF k [unfolded after_children_def]]
  show "snd (snd k) < (p @ [Suc j]) @ ys"
  proof
    assume "b = Some k"
    with assms(1) ext show ?thesis by (simp add: later_def)
  next
    assume "k \<in> set (concat (map (\<lambda>j. if rows ! length p ! j = None then [] else leaf_keys S T rows (p @ [Suc j])) [0..<i]))"
    then obtain j' where "j' < i" "k \<in> set (leaf_keys S T rows (p @ [Suc j']))"
      by (auto split: if_splits)
    then show ?thesis using assms(3) by (auto elim!: leaf_keys_mem simp: ckey_def append_less)
  qed
qed

context predicate_env
begin

lemma bb_rel_cong:
  "x_has_incumbent y = x_has_incumbent x \<Longrightarrow> x_solution y = x_solution x \<Longrightarrow> x_incumbent y = x_incumbent x \<Longrightarrow>
     x_scaled_incumbent y = x_scaled_incumbent x \<Longrightarrow>
     bb_rel enc S T grid rows b y = bb_rel enc S T grid rows b x"
  by (cases b) (simp_all add: bb_rel_def)

lemma bb_enter_fields [simp]:
  "x_has_incumbent (bb_enter x) = x_has_incumbent x" "x_solution (bb_enter x) = x_solution x"
  "x_incumbent (bb_enter x) = x_incumbent x" "x_scaled_incumbent (bb_enter x) = x_scaled_incumbent x"
  "x_current (bb_enter x) = x_current x" "x_prune_sequence (bb_enter x) = x_prune_sequence x"
  "x_accept_sequence (bb_enter x) = x_accept_sequence x" "x_node_sequence (bb_enter x) = inc64 (x_node_sequence x)"
  by (simp_all add: bb_enter_def)

lemma bb_count_prune_fields [simp]:
  "x_has_incumbent (bb_count_prune env x) = x_has_incumbent x" "x_solution (bb_count_prune env x) = x_solution x"
  "x_incumbent (bb_count_prune env x) = x_incumbent x"
  "x_scaled_incumbent (bb_count_prune env x) = x_scaled_incumbent x"
  "x_current (bb_count_prune env x) = x_current x" "x_node_sequence (bb_count_prune env x) = x_node_sequence x"
  "x_accept_sequence (bb_count_prune env x) = x_accept_sequence x"
  "x_prune_sequence (bb_count_prune env x) = inc64 (x_prune_sequence x)"
  by (simp_all add: bb_count_prune_def)

text \<open>What a visit of the subtree below \<open>p\<close> leaves behind.\<close>

definition bb_post ::
  "int \<Rightarrow> int \<Rightarrow> lagrangian_grid option \<Rightarrow> row list \<Rightarrow> bb_env \<Rightarrow> nat list \<Rightarrow> ckey option \<Rightarrow> nat \<Rightarrow> bb_state \<Rightarrow>
     bb_state \<Rightarrow> 's engine_state \<Rightarrow> bool" where
  "bb_post S T grid rows env p b k x y st' \<longleftrightarrow> inv (snd st') (fst st') \<and> bb_rel enc S T grid rows b y \<and> seq_moved k x y \<and>
     keys_free env y (snd st') \<and> take (length p) (x_current y) = p \<and> length (x_current y) = length rows"

lemma bb_dfs_runs:
  assumes ready: "bb_ready enc bound max_batch S T grid rows env" and sess: "n_session env \<in> sessions"
  shows "p \<in> set (assignments (take (length p) rows)) \<Longrightarrow> length p + k = length rows \<Longrightarrow>
    enc_prefix enc S T rows px p \<Longrightarrow> enc_scores enc S T grid rows lag p \<Longrightarrow> later rows b p \<Longrightarrow>
    bb_post S T grid rows env p b 0 x x st \<Longrightarrow> seq_room (tree_nodes k) x \<Longrightarrow>
    runs pexn (bb_dfs eng env k px lag x) st
      (bb_post S T grid rows env p (fold keep (leaf_keys S T rows p) b) (tree_nodes k) x)"
proof (induction k arbitrary: p px lag b x st)
  case 0
  have p: "p \<in> set (assignments rows)" "length p = length rows" using 0(1,2) by simp_all
  have "x_current x = p" using 0(6) p(2) unfolding bb_post_def by (metis take_all order_refl)
  moreover have "later rows b p" by (rule 0(5))
  moreover have nd: "x_node_sequence (bb_enter x) = x_node_sequence x + 1"
    using 0(7) inc64_small [of "x_node_sequence x"] by (simp add: seq_room_def)
  moreover have "bb_rel enc S T grid rows b (bb_enter x)" "keys_free env (bb_enter x) (snd st)" "inv (snd st) (fst st)"
    using 0(6) by (simp_all add: bb_post_def keys_free_def bb_rel_cong [of "bb_enter x" x])
  ultimately have "runs pexn (bb_leaf eng env px (bb_enter x)) st (\<lambda>y st'. inv (snd st') (fst st') \<and>
      bb_rel enc S T grid rows (if feasible S T rows p then keep (ckey rows p) b else b) y \<and>
      x_node_sequence y = x_node_sequence (bb_enter x) \<and> x_prune_sequence y = x_prune_sequence (bb_enter x) \<and>
      x_accept_sequence y = x_accept_sequence (bb_enter x) + 1 \<and> x_current y = p \<and> keys_free env y (snd st'))"
    using 0(7) by (intro bb_leaf_runs [OF ready sess p(1) 0(3)]) (simp_all add: seq_room_def)
  then show ?case
    unfolding bb_dfs.simps
    by (rule runs_weaken) (use p(2) nd in \<open>auto simp: bb_post_def seq_moved_def leaf_keys_leaf\<close>)
next
  case (Suc k)
  let ?d = "length p" and ?e = "bb_enter x" and ?y = "bb_count_prune env (bb_enter x)"
  let ?w = "w_linear S T"
  have d: "?d < length rows" "?d \<le> length rows" using Suc.prems(2) by simp_all
  have ok: "\<forall>r\<in>set rows. row_ok r" and range: "in_range rows bound ?w" and grid: "n_grid env = grid"
    and costs: "list_all2 (enc_row enc) (n_costs env) rows" and ident: "validIdentifier (n_session env)"
    and suf: "enc (n_max_linear_suffix env ! ?d) (row_bound max ?w (drop ?d rows))"
    using ready d by (simp_all add: bb_ready_def env_ok_def)
  have depth: "length (n_costs env) - Suc k = ?d" using Suc.prems(2) list_all2_lengthD [OF costs] by simp
  have room: "x_node_sequence x + 1 < 2 ^ 64" "x_prune_sequence x + 1 < 2 ^ 64"
    using Suc.prems(7) by (simp_all add: seq_room_def)
  have seqs: "x_node_sequence ?y = x_node_sequence x + 1" "x_prune_sequence ?y = x_prune_sequence x + 1"
    "x_accept_sequence ?y = x_accept_sequence x"
    using inc64_small [OF room(1)] inc64_small [OF room(2)] by simp_all
  have st: "inv (snd st) (fst st)" and rel: "bb_rel enc S T grid rows b x" and keys: "keys_free env x (snd st)"
    and cur: "take ?d (x_current x) = p" "length (x_current x) = length rows"
    using Suc.prems(6) by (simp_all add: bb_post_def)
  have rele: "bb_rel enc S T grid rows b ?e" and rely: "bb_rel enc S T grid rows b ?y"
    using rel by (simp_all add: bb_rel_cong [of ?e x] bb_rel_cong [of ?y x])
  let ?ctx = "bb_context env PruneNode ?d (x_node_sequence ?y) (''prune-'' @ to_string (x_prune_sequence ?y))"
  have ctx: "valid_ids ?ctx" "predicate_type ?ctx = PruneNode"
    using bb_context_valid [OF ident, of "''prune-''"] room seqs by (simp_all add: bb_context_def)
  have ctx_sess: "session_id ?ctx \<in> sessions" using sess by (simp add: bb_context_def)
  have fresh: "replayKey ?ctx \<notin> snd st"
    and kf: "keys_free env ?y (insert (replayKey ?ctx) (snd st))"
    unfolding bb_context_key using keys_free_prune [OF keys seqs(2,3)] by simp_all
  have linp: "enc (px_linear px) (sum_by ?w rows p)" using Suc.prems(3) by (simp add: enc_prefix_def)
  let ?up = "sum_by ?w rows p + row_bound max ?w (drop ?d rows)"
  have up: "\<bar>?up\<bar> < bound" by (rule node_range [OF range ok _ Suc.prems(1) d(2)]) simp
  let ?children = "foldM (\<lambda>m x. case n_costs env ! ?d ! m of
            None \<Rightarrow> ret x
          | Some cost \<Rightarrow>
              bnd (on_ops (bb_child (e_ops eng) env ?d px lag m cost)) (\<lambda>(child, child_lag).
              bb_dfs eng env k child child_lag (x\<lparr>x_current := (x_current x)[?d := m + 1]\<rparr>))) [0, 1, 2] ?y"
  have children: "runs pexn ?children st2
      (bb_post S T grid rows env p (fold keep (leaf_keys S T rows p) b) (tree_nodes (Suc k)) x)"
    if st2: "inv (snd st2) (fst st2)" "snd st2 = insert (replayKey ?ctx) (snd st)" for st2
  proof -
    let ?B = "after_children S T rows p b"
    let ?J = "\<lambda>i. bb_post S T grid rows env p (?B i) (1 + i * tree_nodes k) x"
    have "runs pexn ?children st2 (?J (length [0, 1, 2::nat]))"
    proof (rule runs_foldM_indexed)
      show "?J 0 ?y st2"
        using st2 rely kf cur seqs by (simp add: bb_post_def after_children_simps(1) seq_moved_def)
    next
      fix i y s assume i: "i < length [0, 1, 2::nat]" and J: "?J i y s"
      then have m: "[0, 1, 2] ! i = i" "i < 3" by (auto simp: less_Suc_eq)
      have row: "enc_row enc (n_costs env ! ?d) (rows ! ?d)" "row_ok (rows ! ?d)"
        using costs ok d by (auto simp: list_all2_conv_all_nth)
      show "runs pexn (case n_costs env ! ?d ! ([0, 1, 2] ! i) of
            None \<Rightarrow> ret y
          | Some cost \<Rightarrow>
              bnd (on_ops (bb_child (e_ops eng) env ?d px lag ([0, 1, 2] ! i) cost)) (\<lambda>(child, child_lag).
              bb_dfs eng env k child child_lag (y\<lparr>x_current := (x_current y)[?d := [0, 1, 2] ! i + 1]\<rparr>)))
          s (?J (Suc i))"
      proof (cases "n_costs env ! ?d ! i")
        case None
        then have "rows ! ?d ! i = None" using enc_row_nth(1) [OF row m(2)] by simp
        then have "?J (Suc i) y s" using J by (auto simp: bb_post_def after_children_simps(2) seq_moved_def)
        then show ?thesis unfolding m(1) None option.case by (rule runs_ret)
      next
        case (Some cost)
        then obtain c where c: "rows ! ?d ! i = Some c" "enc cost c" using enc_row_nth(2) [OF row m(2)] by blast
        have s: "inv (snd s) (fst s)" using J by (simp add: bb_post_def)
        show ?thesis
          unfolding m(1) Some option.case engine_fields
        proof (rule on_ops_step [OF bb_child_ok [OF ready d(1) m(2) c Suc.prems(3,4)] s])
          fix cc s' assume cc: "case cc of (child, clag) \<Rightarrow>
              enc_prefix enc S T rows child (p @ [Suc i]) \<and> enc_scores enc S T grid rows clag (p @ [Suc i])"
            and s': "inv (snd s') (fst s')" "snd s' = snd s"
          obtain child clag where ccl: "cc = (child, clag)" by (cases cc)
          let ?z = "y\<lparr>x_current := (x_current y)[?d := i + 1]\<rparr>" and ?p = "p @ [Suc i]"
          have "?p \<in> set (assignments (take (Suc ?d) rows))"
            by (rule assignments_snoc [OF Suc.prems(1) d(1) m(2) c(1)])
          then have p': "?p \<in> set (assignments (take (length ?p) rows))" by simp
          have pk: "length ?p + k = length rows" using Suc.prems(2) by simp
          have lt: "later rows (?B i) ?p"
            by (rule later_child [OF Suc.prems(5) d(1) order_refl m(2)]) (simp add: c(1))
          have cur': "take (length ?p) (x_current ?z) = ?p" "length (x_current ?z) = length rows"
            using J d(1) by (auto simp: bb_post_def take_Suc_conv_app_nth)
          have post: "bb_post S T grid rows env ?p (?B i) 0 ?z ?z s'"
          proof -
            have "bb_rel enc S T grid rows (?B i) ?z"
              by (rule iffD2 [OF bb_rel_cong [of ?z y]]) (use J in \<open>simp_all add: bb_post_def\<close>)
            then show ?thesis using J s' cur' by (simp add: bb_post_def seq_moved_def keys_free_def)
          qed
          have "i * tree_nodes k \<le> 2 * tree_nodes k" using m(2) by (intro mult_le_mono1) simp
          moreover have "seq_room (1 + 3 * tree_nodes k) x" using Suc.prems(7) by simp
          moreover have "seq_moved (1 + i * tree_nodes k) x y" using J by (simp add: bb_post_def)
          ultimately have "seq_room (tree_nodes k) y" unfolding seq_room_def seq_moved_def by linarith
          then have zroom: "seq_room (tree_nodes k) ?z" by (simp add: seq_room_def)
          have "runs pexn (bb_dfs eng env k child clag ?z) s'
              (bb_post S T grid rows env ?p (fold keep (leaf_keys S T rows ?p) (?B i)) (tree_nodes k) ?z)"
            using cc ccl by (intro Suc.IH [OF p' pk _ _ lt post zroom]) simp_all
          then show "runs pexn (case cc of (child, child_lag) \<Rightarrow> bb_dfs eng env k child child_lag ?z) s' (?J (Suc i))"
            unfolding ccl prod.case
          proof (rule runs_weaken)
            fix z t assume z: "bb_post S T grid rows env ?p (fold keep (leaf_keys S T rows ?p) (?B i)) (tree_nodes k) ?z z t"
            have "take ?d (x_current z) = p" using z by (auto simp: bb_post_def dest: arg_cong [of _ _ "take ?d"])
            then show "?J (Suc i) z t"
              using z J c(1) by (auto simp: bb_post_def after_children_simps(2) seq_moved_def)
          qed
        qed simp
      qed
    qed
    then show ?thesis
      using after_children_all [OF d(1), of S T b] by (simp add: numeral_3_eq_3)
  qed
  have unfold: "bb_dfs eng env (Suc k) px lag x =
      bnd (on_ops (s_add ops (px_linear px) (n_max_linear_suffix env ! ?d))) (\<lambda>lu.
      bnd (bb_bounds eng env ?d px lag ?e) (\<lambda>(lw, pinc).
      bnd (pruneNode eng ?ctx
        \<lparr>linear_upper = lu, cost_lowers = lw, p_has_incumbent = x_has_incumbent ?y,
         p_incumbent_cost = pinc\<rparr>) (\<lambda>prune.
      if prune then
        ret (?y\<lparr>x_stats := (x_stats ?y)\<lparr>s_pruned_nodes := inc64 (s_pruned_nodes (x_stats ?y))\<rparr>\<rparr>)
      else ?children)))"
    by (simp only: bb_dfs.simps Let_def depth engine_fields)
  show ?case
    unfolding unfold
  proof (rule on_ops_step [OF add_law [OF linp suf] st])
    fix lu s1 assume lu: "enc lu ?up" and s1: "inv (snd s1) (fst s1)" "snd s1 = snd st"
    show "runs pexn (bnd (bb_bounds eng env ?d px lag ?e) (\<lambda>(lw, pinc).
      bnd (pruneNode eng ?ctx
        \<lparr>linear_upper = lu, cost_lowers = lw, p_has_incumbent = x_has_incumbent ?y,
         p_incumbent_cost = pinc\<rparr>) (\<lambda>prune.
      if prune then
        ret (?y\<lparr>x_stats := (x_stats ?y)\<lparr>s_pruned_nodes := inc64 (s_pruned_nodes (x_stats ?y))\<rparr>\<rparr>)
      else ?children))) s1
      (bb_post S T grid rows env p (fold keep (leaf_keys S T rows p) b) (tree_nodes (Suc k)) x)"
    proof (rule runs_bndI [OF bb_bounds_runs [OF ready Suc.prems(1) d(2) Suc.prems(3,4) rele s1(1)]])
      fix lp s2 assume a: "(\<lambda>(lowers, pi) st'.
        inv (snd st') (fst st') \<and> snd st' = snd s1 \<and> (x_has_incumbent ?e \<longrightarrow> (\<exists>vs iv.
          enc pi iv \<and> \<bar>iv\<bar> < bound \<and> vs \<noteq> [] \<and> length vs < max_batch \<and>
          list_all2 (\<lambda>c l. enc c l \<and> \<bar>l\<bar> < bound) lowers vs \<and>
          (\<forall>v\<in>set vs. iv < v \<longrightarrow> (\<forall>ys\<in>set (assignments (drop ?d rows)). feasible S T rows (p @ ys) \<longrightarrow>
             sum_by w_cost rows (x_solution ?e) < sum_by w_cost rows (p @ ys)))))) lp s2"
      obtain lowers pi where lpi: "lp = (lowers, pi)" by (cases lp)
      let ?in = "\<lparr>linear_upper = lu, cost_lowers = lowers, p_has_incumbent = x_has_incumbent ?y,
         p_incumbent_cost = pi\<rparr>"
      obtain vs iv where v: "prune_values enc bound max_batch ?in ?up vs iv"
        and sound: "x_has_incumbent x \<Longrightarrow> \<forall>v\<in>set vs. iv < v \<longrightarrow> (\<forall>ys\<in>set (assignments (drop ?d rows)).
          feasible S T rows (p @ ys) \<longrightarrow> sum_by w_cost rows (x_solution x) < sum_by w_cost rows (p @ ys))"
      proof (cases "x_has_incumbent x")
        case False
        then show thesis using that [of "[]" 0] lu up by (simp add: prune_values_def)
      next
        case True
        with a lpi lu up that show thesis by (auto simp: prune_values_def)
      qed
      have s2: "inv (snd s2) (fst s2)" "snd s2 = snd st" using a lpi s1 by auto
      have "replayKey ?ctx \<notin> snd s2" using fresh s2 by simp
      note prune = pruneNode_runs [OF ctx ctx_sess this s2(1) v]
      show "runs pexn (case lp of (lw, pinc) \<Rightarrow>
        bnd (pruneNode eng ?ctx
          \<lparr>linear_upper = lu, cost_lowers = lw, p_has_incumbent = x_has_incumbent ?y,
           p_incumbent_cost = pinc\<rparr>) (\<lambda>prune.
        if prune then
          ret (?y\<lparr>x_stats := (x_stats ?y)\<lparr>s_pruned_nodes := inc64 (s_pruned_nodes (x_stats ?y))\<rparr>\<rparr>)
        else ?children)) s2
        (bb_post S T grid rows env p (fold keep (leaf_keys S T rows p) b) (tree_nodes (Suc k)) x)"
        unfolding lpi prod.case
      proof (rule runs_bndI [OF prune])
        fix r s3 assume r: "r = prune_decision ?up vs (p_has_incumbent ?in) iv \<and> inv (snd s3) (fst s3) \<and>
          snd s3 = insert (replayKey ?ctx) (snd s2)"
        show "runs pexn (if r then
            ret (?y\<lparr>x_stats := (x_stats ?y)\<lparr>s_pruned_nodes := inc64 (s_pruned_nodes (x_stats ?y))\<rparr>\<rparr>)
          else ?children) s3
          (bb_post S T grid rows env p (fold keep (leaf_keys S T rows p) b) (tree_nodes (Suc k)) x)"
        proof (cases r)
          case False
          have "inv (snd s3) (fst s3)" "snd s3 = insert (replayKey ?ctx) (snd st)" using r s2(2) by auto
          from children [OF this] show ?thesis unfolding if_not_P [OF False] .
        next
          case True
          let ?z = "?y\<lparr>x_stats := (x_stats ?y)\<lparr>s_pruned_nodes := inc64 (s_pruned_nodes (x_stats ?y))\<rparr>\<rparr>"
          have "?up < 0 \<or> (x_has_incumbent x \<and> (\<exists>v\<in>set vs. iv < v))"
            using True r by (auto simp: prune_decision_def list_ex_iff)
          then have same: "fold keep (leaf_keys S T rows p) b = b"
            using sound by (intro pruned_subtree [OF ready d(2) rel]) blast
          have s3: "inv (snd s3) (fst s3)" "snd s3 = insert (replayKey ?ctx) (snd st)" using r s2(2) by auto
          then have "inv (insert (replayKey ?ctx) (snd st)) (fst s3)" by (simp only:)
          with s3(2) have "bb_post S T grid rows env p b (tree_nodes (Suc k)) x ?z s3"
            using rely kf cur seqs
            by (simp add: bb_post_def seq_moved_def keys_free_def bb_rel_cong [of ?z ?y])
          then show ?thesis unfolding if_P [OF True] same by (rule runs_ret)
        qed
      qed
    qed
  qed simp
qed

end

section \<open>The whole solve\<close>

definition costs_below :: "int \<Rightarrow> row list \<Rightarrow> bool" where
  "costs_below B rows \<longleftrightarrow> (\<forall>r\<in>set rows. \<forall>c. Some c \<in> set r \<longrightarrow> c < B)"

lemma in_rangeI:
  assumes ok: "\<forall>r\<in>set rows. row_ok r" and below: "costs_below B rows" and G: "0 < G"
    and b: "2 * (G * B) \<le> bound" "int m * (G * B) \<le> bound" "length rows \<le> m" "0 < m" "0 < B"
    and w: "\<And>j c. 0 \<le> c \<Longrightarrow> \<bar>w (Suc j) c\<bar> \<le> G * c"
  shows "in_range rows bound w"
proof -
  have "contrib_le w r (G * (B - 1))" if r: "r \<in> set rows" for r
    unfolding contrib_le_def
  proof (intro allI impI)
    fix j c assume j: "j < 3" "r ! j = Some c"
    then have "Some c \<in> set r" using ok r by (metis row_ok_def nth_mem)
    then have "0 \<le> c" "c \<le> B - 1" using ok below r by (auto simp: row_ok_def costs_below_def)
    then have "\<bar>w (Suc j) c\<bar> \<le> G * c" "G * c \<le> G * (B - 1)" using w G by simp_all
    then show "\<bar>w (Suc j) c\<bar> \<le> G * (B - 1)" by linarith
  qed
  moreover have "2 * (G * (B - 1)) < bound" using b(1) G by (simp add: algebra_simps)
  moreover have "int (length rows) * (G * (B - 1)) < bound"
  proof -
    have "int (length rows) * (G * (B - 1)) \<le> int m * (G * (B - 1))"
      using b(3,5) G by (intro mult_right_mono) simp_all
    also have "\<dots> < int m * (G * B)" using b(4) G by simp
    also have "\<dots> \<le> bound" by (rule b(2))
    finally show ?thesis .
  qed
  ultimately show ?thesis unfolding in_range_def by blast
qed

lemma linear_abs:
  assumes "0 \<le> T" "T < S" "0 \<le> (c::int)"
  shows "\<bar>w_linear S T m c\<bar> \<le> S * c"
proof -
  have "(S - T) * c \<le> S * c" "T * c \<le> S * c" "0 \<le> (S - T) * c" "0 \<le> T * c"
    using assms by (simp_all add: mult_right_mono)
  then show ?thesis by (cases "m < 3") (simp_all add: w_linear_def)
qed

text \<open>What the domain must promise: all values the search compares are operands.\<close>

definition bb_fits :: "numeric_domain \<Rightarrow> bb_config \<Rightarrow> int \<Rightarrow> nat \<Rightarrow> bool" where
  "bb_fits d config bound max_batch \<longleftrightarrow> (case c_cost_bound config of
     CurrentSuffix \<Rightarrow> 2 * (d_scale d * 2 ^ max_cost_bits d) \<le> bound \<and>
       int (max_rows d) * (d_scale d * 2 ^ max_cost_bits d) \<le> bound
   | Lagrangian \<Rightarrow> 2 ^ 127 \<le> bound \<and> max 3 (requested_size (c_grid config)) < max_batch)"

lemma bb_check_Inr:
  assumes "bb_check d config request = Inr grid"
  shows "q_costs request \<noteq> []" "0 < d_scale d" "0 < max_rows d" "length (q_costs request) \<le> max_rows d"
    "0 \<le> q_threshold request" "q_threshold request < d_scale d" "validIdentifier (q_session request)"
    "c_cost_bound config = CurrentSuffix \<and> grid = None \<or> c_cost_bound config = Lagrangian \<and>
       (\<exists>g. grid = Some g \<and> buildLagrangianGrid d (q_threshold request) (c_grid config) = Inr g)"
  using assms
  by (auto simp: bb_check_def bb_invalid_def sbind_eq_Inr split: if_splits cost_bound.splits)

lemma bb_ranges:
  assumes check: "bb_check d config request = Inr grid" and rows: "length rows = length (q_costs request)"
    and ok: "\<forall>r\<in>set rows. row_ok r" and below: "costs_below (2 ^ max_cost_bits d) rows"
    and fits: "bb_fits d config bound max_batch"
    and S: "S = d_scale d" and T: "T = q_threshold request"
  shows "in_range rows bound (w_linear S T)" "in_range rows bound w_cost" "grid_ok S T rows bound grid"
    "\<forall>g. grid = Some g \<longrightarrow> g_mu g \<noteq> [] \<and> length (g_mu g) < max_batch \<and> 0 < g_q g"
proof -
  note c = bb_check_Inr [OF check, folded S T]
  have m: "length rows \<le> max_rows d" using c(4) rows by simp
  have cost: "\<bar>w_cost (Suc j) c\<bar> \<le> S * c" if "0 \<le> c" for j c
    using that c(2) mult_right_mono [of 1 S c] by (simp add: w_cost_def)
  have "in_range rows bound (w_linear S T) \<and> in_range rows bound w_cost \<and> grid_ok S T rows bound grid \<and>
    (\<forall>g. grid = Some g \<longrightarrow> g_mu g \<noteq> [] \<and> length (g_mu g) < max_batch \<and> 0 < g_q g)"
    using c(8)
  proof
    assume a: "c_cost_bound config = CurrentSuffix \<and> grid = None"
    then have b: "2 * (S * 2 ^ max_cost_bits d) \<le> bound" "int (max_rows d) * (S * 2 ^ max_cost_bits d) \<le> bound"
      using fits by (simp_all add: bb_fits_def S)
    have range: "in_range rows bound w" if "\<And>j c. 0 \<le> c \<Longrightarrow> \<bar>w (Suc j) c\<bar> \<le> S * c" for w
      by (rule in_rangeI [OF ok below c(2) b m c(3)]) (use that in simp_all)
    have "in_range rows bound (w_linear S T)" by (rule range) (rule linear_abs [OF c(5,6)])
    moreover have "in_range rows bound w_cost" by (rule range) (rule cost)
    ultimately show ?thesis using a by (simp add: grid_ok_def)
  next
    assume a: "c_cost_bound config = Lagrangian \<and>
       (\<exists>g. grid = Some g \<and> buildLagrangianGrid d T (c_grid config) = Inr g)"
    then obtain g where g: "grid = Some g" "buildLagrangianGrid d T (c_grid config) = Inr g" by blast
    have f: "2 ^ 127 \<le> bound" "max 3 (requested_size (c_grid config)) < max_batch"
      using fits a by (simp_all add: bb_fits_def)
    obtain b where b: "deriveLagrangianNumericBounds d T g = Inr b" "g_q g \<le> i64_max"
      and len: "length (g_mu g) \<le> max 3 (requested_size (c_grid config))"
      using build_cases [OF g(2)] by metis
    note v = derive_valid [OF b]
    have q: "S \<le> g_q g"
    proof -
      have "0 < g_denominator g" "g_q g = S * g_denominator g"
        using v c(2) by (auto simp: lg_args_def S zero_less_mult_iff)
      then show ?thesis using c(2) mult_left_mono [of 1 "g_denominator g" S] by simp
    qed
    have score: "\<exists>G>0. 2 * (G * 2 ^ max_cost_bits d) \<le> bound \<and> int (max_rows d) * (G * 2 ^ max_cost_bits d) \<le> bound \<and>
        (\<forall>m c. 0 \<le> c \<longrightarrow> \<bar>w_score (g_q g) mu S T m c\<bar> \<le> G * c)" if mu: "mu \<in> set (g_mu g)" for mu
    proof -
      have arg: "lg_args d T (g_q g)" "supported d T (g_q g) mu = Inr True" "0 \<le> mu" using v mu by blast+
      obtain G where G: "0 < G" "G * 2 ^ max_cost_bits d \<le> 2 ^ 126"
        "int (max_rows d) * (G * 2 ^ max_cost_bits d) \<le> 2 ^ 127"
        "\<And>c r. 0 \<le> c \<Longrightarrow> r = (d_scale d - T) * c \<or> r = - T * c \<Longrightarrow> \<bar>g_q g * c - mu * r\<bar> \<le> G * c"
        by (rule score_range [OF arg]) blast
      moreover have "2 * (G * 2 ^ max_cost_bits d) \<le> 2 ^ 127" using G(2) by simp
      moreover have "\<bar>w_score (g_q g) mu S T m c\<bar> \<le> G * c" if "0 \<le> c" for m c
        using G(4) [OF that, of "w_linear S T m c"] by (simp add: w_score_def w_linear_def S)
      ultimately show ?thesis using f(1) by (meson order_trans)
    qed
    have range: "in_range rows bound w"
      if w: "\<And>j c. 0 \<le> c \<Longrightarrow> \<bar>w (Suc j) c\<bar> \<le> \<bar>w_score (g_q g) mu S T (Suc j) c\<bar>" and mu: "mu \<in> set (g_mu g)" for w mu
    proof -
      obtain G where G: "0 < G" "2 * (G * 2 ^ max_cost_bits d) \<le> bound"
        "int (max_rows d) * (G * 2 ^ max_cost_bits d) \<le> bound"
        "\<And>m c. 0 \<le> c \<Longrightarrow> \<bar>w_score (g_q g) mu S T m c\<bar> \<le> G * c" using score [OF mu] by blast
      show ?thesis
        by (rule in_rangeI [OF ok below G(1-3) m c(3)]) (simp, use w G(4) order_trans in blast)
    qed
    have z: "0 \<in> set (g_mu g)" using v by (metis list.set_sel(1))
    have qc: "\<bar>w_score (g_q g) 0 S T m c\<bar> = g_q g * c" if "0 \<le> c" for m c
      using that q c(2) by (simp add: w_score_def)
    have le: "S * c \<le> g_q g * c" if "0 \<le> c" for c using q that by (rule mult_right_mono)
    have "in_range rows bound (w_linear S T)"
      by (rule range [OF _ z]) (use linear_abs [OF c(5,6)] qc le in \<open>fastforce intro: order_trans\<close>)
    moreover have "in_range rows bound w_cost"
      by (rule range [OF _ z]) (use cost qc le in \<open>fastforce intro: order_trans\<close>)
    moreover have "in_range rows bound (\<lambda>m c. g_q g * c)"
      by (rule range [OF _ z]) (use q c(2) in \<open>simp add: w_score_def\<close>)
    moreover have "in_range rows bound (w_score (g_q g) mu S T)" if "mu \<in> set (g_mu g)" for mu
      by (rule range [OF _ that]) simp
    ultimately show ?thesis using g(1) v len f(2) by (auto simp: grid_ok_def lg_args_def)
  qed
  then show "in_range rows bound (w_linear S T)" "in_range rows bound w_cost" "grid_ok S T rows bound grid"
    "\<forall>g. grid = Some g \<longrightarrow> g_mu g \<noteq> [] \<and> length (g_mu g) < max_batch \<and> 0 < g_q g" by blast+
qed

text \<open>What the solver answers: it finds a solution exactly when one is feasible, the solution is the
  optimum, and the values are encryptions of its cost, its two parts and its slack.\<close>

definition bb_answer ::
  "(cipher \<Rightarrow> int \<Rightarrow> bool) \<Rightarrow> int \<Rightarrow> int \<Rightarrow> row list \<Rightarrow> bb_result \<Rightarrow> bool" where
  "bb_answer enc S T rows r \<longleftrightarrow>
     (if b_feasible r then optimal S T rows (b_solution r) \<and> enc_prefix enc S T rows (b_values r) (b_solution r)
      else (\<forall>xs\<in>set (assignments rows). \<not> feasible S T rows xs))"

lemma bnd_of_sum_Inr: "bnd (of_sum (Inr a)) f = f a"
  by (rule ext) (simp add: bnd_def of_sum_def)

context predicate_env
begin

lemma bb_solve_runs:
  assumes check: "bb_check (s_domain ops) config request = Inr grid"
    and costs: "list_all2 (enc_row enc) (q_costs request) rows" and ok: "\<forall>r\<in>set rows. row_ok r"
    and below: "costs_below (2 ^ max_cost_bits (s_domain ops)) rows"
    and fits: "bb_fits (s_domain ops) config bound max_batch"
    and sess: "q_session request \<in> sessions"
    and nodes: "tree_nodes (length rows) < 2 ^ 64" and st: "inv (snd st) (fst st)" "snd st = {}"
    and S: "S = d_scale (s_domain ops)" and T: "T = q_threshold request"
  shows "runs pexn (bb_solve eng config request) st (\<lambda>r st'. inv (snd st') (fst st') \<and> bb_answer enc S T rows r)"
proof -
  have n: "length (q_costs request) = length rows" by (rule list_all2_lengthD [OF costs])
  note ranges = bb_ranges [OF check n [symmetric] ok below fits S T]
  have ident: "validIdentifier (q_session request)" by (rule bb_check_Inr(7) [OF check])
  let ?x = "bb_initial (length rows)"
  show ?thesis
    unfolding bb_solve_def engine_fields check bnd_of_sum_Inr
  proof (rule on_ops_step [OF bb_prepare_ok [OF costs ok S T ranges(1-3)] st(1)])
    fix env s1 assume env: "env_ok enc S T grid rows env \<and> n_session env = q_session request"
      and s1: "inv (snd s1) (fst s1)" "snd s1 = snd st"
    let ?px = "\<lparr>px_total = n_zero env, px_c12 = n_zero env, px_c3 = n_zero env, px_linear = n_zero env\<rparr>"
    let ?lag = "case grid of None \<Rightarrow> [] | Some g \<Rightarrow> replicate (length (g_mu g)) (n_zero env)"
    have ready: "bb_ready enc bound max_batch S T grid rows env"
      using env ok ranges ident by (simp add: bb_ready_def)
    have z: "enc (n_zero env) 0" using env by (simp add: env_ok_def)
    have p: "enc_prefix enc S T rows ?px []" using z by (simp add: enc_prefix_def)
    have l: "enc_scores enc S T grid rows ?lag []"
      using z by (auto simp: enc_scores_def list_all2_conv_all_nth)
    have post: "bb_post S T grid rows env [] None 0 ?x ?x s1"
      using s1 st(2) by (simp add: bb_post_def bb_rel_def bb_initial_def seq_moved_def keys_free_def)
    have room: "seq_room (tree_nodes (length rows)) ?x" using nodes by (simp add: seq_room_def bb_initial_def)
    have "runs pexn (bb_dfs eng env (length rows) ?px ?lag ?x) s1
      (bb_post S T grid rows env [] (reference_optimum S T rows) (tree_nodes (length rows)) ?x)"
      unfolding reference_optimum_leaf_keys
      by (rule bb_dfs_runs [OF ready _ _ _ p l _ post room]) (simp_all add: later_def env sess)
    then show "runs pexn (let n = length (q_costs request); zero = n_zero env in
     bnd (bb_dfs eng env n \<lparr>px_total = zero, px_c12 = zero, px_c3 = zero, px_linear = zero\<rparr>
       (case grid of None \<Rightarrow> [] | Some g \<Rightarrow> replicate (length (g_mu g)) zero) (bb_initial n)) (\<lambda>x.
     ret (if x_has_incumbent x
       then \<lparr>b_feasible = True, b_solution = x_solution x, b_values = x_incumbent x, b_stats = x_stats x\<rparr>
       else \<lparr>b_feasible = False, b_solution = [], b_values = empty_prefix, b_stats = x_stats x\<rparr>))) s1
     (\<lambda>r st'. inv (snd st') (fst st') \<and> bb_answer enc S T rows r)"
      unfolding Let_def n
    proof (rule runs_bndI)
      fix x s2 assume "bb_post S T grid rows env [] (reference_optimum S T rows) (tree_nodes (length rows)) ?x x s2"
      then have s2: "inv (snd s2) (fst s2)" and rel: "bb_rel enc S T grid rows (reference_optimum S T rows) x"
        by (simp_all add: bb_post_def)
      have "bb_answer enc S T rows (if x_has_incumbent x
       then \<lparr>b_feasible = True, b_solution = x_solution x, b_values = x_incumbent x, b_stats = x_stats x\<rparr>
       else \<lparr>b_feasible = False, b_solution = [], b_values = empty_prefix, b_stats = x_stats x\<rparr>)"
      proof (cases "reference_optimum S T rows")
        case None
        then have "\<not> x_has_incumbent x" using rel by (simp add: bb_rel_def)
        with None show ?thesis by (simp add: bb_answer_def reference_optimum_None)
      next
        case (Some k)
        obtain xs where xs: "k = ckey rows xs" "optimal S T rows xs" using reference_optimum_Some [OF Some] by blast
        have "x_has_incumbent x" "k = ckey rows (x_solution x)"
          "enc_prefix enc S T rows (x_incumbent x) (x_solution x)"
          using rel Some by (auto simp: bb_rel_def)
        moreover from this have "xs = x_solution x" using xs(1) ckey_inj by blast
        ultimately show ?thesis using xs(2) by (simp add: bb_answer_def)
      qed
      with s2 show "runs pexn (ret (if x_has_incumbent x
       then \<lparr>b_feasible = True, b_solution = x_solution x, b_values = x_incumbent x, b_stats = x_stats x\<rparr>
       else \<lparr>b_feasible = False, b_solution = [], b_values = empty_prefix, b_stats = x_stats x\<rparr>)) s2
       (\<lambda>r st'. inv (snd st') (fst st') \<and> bb_answer enc S T rows r)"
        by (intro runs_ret) simp
    qed
  qed simp
qed

end

section \<open>The solver over the OFF backend\<close>

lemma tree_nodes_closed: "2 * tree_nodes n + 1 = 3 ^ Suc n"
  by (induction n) simp_all

lemma tree_nodes_40: "n \<le> 40 \<Longrightarrow> tree_nodes n < 2 ^ 64"
proof -
  assume "n \<le> 40"
  then have "(3::nat) ^ Suc n \<le> 3 ^ 41" by (intro power_increasing) simp_all
  then have "2 * tree_nodes n + 1 \<le> 3 ^ 41" by (simp only: tree_nodes_closed)
  then show ?thesis by simp
qed

text \<open>C1: The confidential optimizer is exact. For encrypted non-negative costs of at most 40 rows within the
  numeric domain, in both cost-bound modes, the search over the OFF backend ends; when it answers, it
  reports a solution exactly if some assignment is feasible, the solution is the optimum of the
  plaintext problem (cheapest, then smallest type 1 and 2 cost, then lexicographically first), and
  the returned ciphertexts encrypt its total, its two parts and its linear slack.\<close>

theorem confidential_optimize_exact:
  assumes "off_ready k g" "bb_check nd config request = Inr grid"
    and "list_all2 (enc_row (off_enc k mode)) (q_costs request) rows" "\<forall>r\<in>set rows. row_ok r"
    and "costs_below (2 ^ max_cost_bits nd) rows" "bb_fits nd config off_bound 32" "length rows \<le> 40"
  shows "\<exists>r g'. confidential_optimize (off_engine k mode nd) config request g = Some (r, g') \<and>
    (case r of Inl e \<Rightarrow> off_refused e
     | Inr b \<Rightarrow> off_ready k g' \<and> bb_answer (off_enc k mode) (d_scale nd) (q_threshold request) rows b)"
proof -
  have d: "s_domain (runtime_ops k mode nd) = nd" by (simp add: runtime_ops_def)
  have "runs off_refused (bb_solve (off_engine k mode nd) config request) (g, {})
    (\<lambda>r st'. off_ready k (fst st') \<and>
       bb_answer (off_enc k mode) (d_scale nd) (q_threshold request) rows r)"
    using off_env.bb_solve_runs [of k mode nd config request grid rows "(g, {})", OF _ assms(3,4)] assms
      tree_nodes_40 [OF assms(7)]
    unfolding off_engine_def off_refused_eq d fst_conv snd_conv by blast
  then show ?thesis
    unfolding runs_cases confidential_optimize_def by (fastforce split: sum.splits)
qed

text \<open>C26: A request that is out of order is refused with \<open>invalid_argument\<close> before any secure operation: no
  rows, too many rows, a row without a method, an empty ciphertext, a threshold outside [0, SCALE), an
  incomplete domain or a bad session identifier. Nothing is encrypted and no randomness is consumed,
  whatever the backend. For a row without a method the requirement document asks for
  \<open>NO_FEASIBLE_SOLUTION\<close>, which is what the plaintext encoder reports; this optimizer reports
  \<open>invalid_argument\<close>.\<close>

theorem confidential_optimize_rejects:
  assumes "q_costs request = [] \<or> d_scale (s_domain (e_ops eng)) \<le> 0 \<or> max_rows (s_domain (e_ops eng)) = 0 \<or>
    length (q_costs request) > max_rows (s_domain (e_ops eng)) \<or>
    q_threshold request < 0 \<or> q_threshold request \<ge> d_scale (s_domain (e_ops eng)) \<or>
    \<not> validIdentifier (q_session request) \<or>
    (\<exists>methods \<in> set (q_costs request). Some [] \<in> set methods \<or> set methods \<subseteq> {None})"
  shows "\<exists>message. confidential_optimize eng config request s =
    Some (Inl (OptimizationError InvalidArgument message), s)"
proof -
  have row: "\<exists>message. smap bb_check_row rows = Inl (OptimizationError InvalidArgument message)"
    if "\<exists>methods \<in> set rows. Some [] \<in> set methods \<or> set methods \<subseteq> {None}" for rows
    using that
  proof (induction rows)
    case (Cons r rows)
    show ?case
    proof (cases "Some [] \<in> set r \<or> set r \<subseteq> {None}")
      case True
      then have "\<exists>message. bb_check_row r = Inl (OptimizationError InvalidArgument message)"
        by (auto simp: bb_check_row_def bb_invalid_def list_ex_iff list_all_iff)
      then show ?thesis by auto
    next
      case False
      with Cons show ?thesis by (auto simp: bb_check_row_def bb_invalid_def list_ex_iff list_all_iff)
    qed
  qed simp
  have "\<exists>message. bb_check (s_domain (e_ops eng)) config request =
      Inl (OptimizationError InvalidArgument message)"
    using assms row [of "q_costs request"] by (fastforce simp: bb_check_def bb_invalid_def)
  then show ?thesis
    by (auto simp: confidential_optimize_def bb_solve_def bnd_def of_sum_def)
qed

text \<open>Two materials: the second cannot be made by method 1. The threshold share is one half.\<close>

definition sample_rows :: "row list" where
  "sample_rows = [[Some 3, Some 5, Some 2], [None, Some 4, Some 1]]"

definition sample_request :: bb_request where
  "sample_request = \<lparr>q_costs = map (map (map_option sample_object)) sample_rows, q_threshold = 500000,
     q_session = ''demo-1''\<rparr>"

definition sample_config :: bb_config where
  "sample_config = \<lparr>c_cost_bound = CurrentSuffix, c_grid = \<lparr>denominator = 4, requested_size = 8, span_factor = 2\<rparr>\<rparr>"

lemma sample_object_nonempty: "sample_object m \<noteq> []"
  by (rule off_enc_nonempty [OF sample_object])

lemma sample_check: "bb_check sample_domain sample_config sample_request = Inr None"
  by (simp add: bb_check_def bb_check_row_def sample_domain_def sample_config_def sample_request_def
      sample_rows_def sample_object_nonempty validIdentifier_def isalnum_c_def isdigit_c_def)

theorem confidential_optimize_exact_witness:
  "\<exists>r g'. confidential_optimize (off_engine sample_key 0 sample_domain) sample_config sample_request sample_rng =
      Some (r, g') \<and>
    (case r of Inl e \<Rightarrow> off_refused e
     | Inr b \<Rightarrow> off_ready sample_key g' \<and>
         bb_answer (off_enc sample_key 0) (d_scale sample_domain) (q_threshold sample_request) sample_rows b)"
proof (rule confidential_optimize_exact [OF sample_ready sample_check])
  show "list_all2 (enc_row (off_enc sample_key 0)) (q_costs sample_request) sample_rows"
    by (simp add: sample_request_def sample_rows_def enc_row_def sample_object)
  show "\<forall>r\<in>set sample_rows. row_ok r" "costs_below (2 ^ max_cost_bits sample_domain) sample_rows"
    "bb_fits sample_domain sample_config off_bound 32" "length sample_rows \<le> 40"
    by (auto simp: sample_rows_def row_ok_def costs_below_def sample_domain_def bb_fits_def sample_config_def)
qed

theorem confidential_optimize_rejects_witness:
  "\<exists>message. confidential_optimize (off_engine sample_key 0 sample_domain) sample_config
      (sample_request\<lparr>q_threshold := 1000000\<rparr>) sample_rng =
    Some (Inl (OptimizationError InvalidArgument message), sample_rng)"
  by (rule confidential_optimize_rejects) (simp add: off_engine_def the_engine_def runtime_ops_def sample_domain_def)

end
