(* ===== verification/Garbled.thy ===== *)
theory Garbled
  imports Wire PredicateEngine
begin

text \<open>
  The garbled circuit that fuses the comparisons of a predicate into one revealed bit
  (src/protocol/threshold_protocol.cpp): the Boolean circuit of each predicate, its garbling with
  free XOR and point-and-permute by the client, and its evaluation by the server. SHA-256 is code of
  OpenSSL, so it is a parameter \<open>sha\<close>; all that is used of it is the length of its output.

  Evaluating a garbled predicate on the labels of any inputs gives the output label of the
  predicate's decision on them.
\<close>

section \<open>Circuits\<close>

record boolean_gate =
  g_left :: nat
  g_right :: nat
  g_output :: nat

record linear_wire =
  lw_terms :: "nat list"
  lw_constant :: bool

record boolean_circuit =
  bc_inputs :: nat
  bc_gates :: "boolean_gate list"
  bc_wires :: "linear_wire list"
  bc_output :: nat

text \<open>The lambdas \<open>linear\<close> and \<open>land\<close>.\<close>

definition bc_linear :: "nat list \<Rightarrow> bool \<Rightarrow> boolean_circuit \<Rightarrow> boolean_circuit \<times> nat" where
  "bc_linear terms cst c =
     (c\<lparr>bc_wires := bc_wires c @ [\<lparr>lw_terms = terms, lw_constant = cst\<rparr>]\<rparr>, length (bc_wires c))"

definition bc_and :: "nat \<Rightarrow> nat \<Rightarrow> boolean_circuit \<Rightarrow> boolean_circuit \<times> nat" where
  "bc_and a b c = (let (c, out) = bc_linear [] False c in
     (c\<lparr>bc_gates := bc_gates c @ [\<lparr>g_left = a, g_right = b, g_output = out\<rparr>]\<rparr>, out))"

definition bc_inputs_only :: "nat \<Rightarrow> boolean_circuit" where
  "bc_inputs_only comparisons = \<lparr>bc_inputs = comparisons, bc_gates = [],
     bc_wires = map (\<lambda>i. \<lparr>lw_terms = [i], lw_constant = False\<rparr>) [0..<comparisons], bc_output = 0\<rparr>"

text \<open>One step of the disjunction over the objective comparisons.\<close>

definition bc_fold :: "nat \<Rightarrow> boolean_circuit \<times> nat \<Rightarrow> boolean_circuit \<times> nat" where
  "bc_fold i x = (let (c, folded) = x; (c, p) = bc_and folded i c in bc_linear [folded, i, p] False c)"

definition predicateCircuit :: "predicate_type \<Rightarrow> nat \<Rightarrow> bool \<Rightarrow> exn + boolean_circuit" where
  "predicateCircuit ty comparisons incumbent =
     (let c = bc_inputs_only comparisons in
      case ty of
        PruneNode \<Rightarrow>
          if \<not> incumbent then Inr (c\<lparr>bc_output := 0\<rparr>)
          else if comparisons < 2 then Inl (StdInvalidArgument ''bad fused PRUNE comparison count'')
          else
            let (c, folded) = fold bc_fold [2..<comparisons] (c, 1);
                (c, p) = bc_and 0 folded c;
                (c, out) = bc_linear [0, folded, p] False c
            in Inr (c\<lparr>bc_output := out\<rparr>)
      | AcceptCandidate \<Rightarrow>
          if comparisons \<noteq> (if incumbent then 5 else 2)
          then Inl (StdInvalidArgument ''bad fused ACCEPT comparison count'')
          else
            let (c, linear_ge) = bc_linear [0] True c;
                (c, feasible) = bc_and linear_ge 1 c
            in if \<not> incumbent then Inr (c\<lparr>bc_output := feasible\<rparr>)
               else
                 let (c, cost_eq) = bc_linear [2, 3] True c;
                     (c, equal_c12) = bc_and cost_eq 4 c;
                     (c, better) = bc_linear [2, equal_c12] False c;
                     (c, out) = bc_and feasible better c
                 in Inr (c\<lparr>bc_output := out\<rparr>))"

section \<open>Labels\<close>

text \<open>A label is an array of 32 bytes.\<close>

type_synonym label = bytes

definition zero_label :: label where
  "zero_label = replicate 32 0"

definition randomLabel :: "(rng, label) eff" where
  "randomLabel = draw SLabel (\<lambda>raw. be_bytes 32 (nat (raw mod 256 ^ 32)))"

definition labelXor :: "label \<Rightarrow> label \<Rightarrow> label" where
  "labelXor a b = map2 (XOR) a b"

definition gatePad :: "(bytes \<Rightarrow> bytes) \<Rightarrow> label \<Rightarrow> label \<Rightarrow> nat \<Rightarrow> label" where
  "gatePad sha a b gate = sha (a @ b @ writeU32 (of_nat gate))"

definition appendLabel :: "bytes \<Rightarrow> label \<Rightarrow> bytes" where
  "appendLabel output x = output @ x"

definition takeLabel :: "bytes \<Rightarrow> nat \<Rightarrow> exn + label \<times> nat" where
  "takeLabel input off =
     (if length input - off < 32 then Inl (StdRuntimeError ''short predicate label'')
      else Inr (take 32 (drop off input), off + 32))"

text \<open>The row of a table that two labels select by their last bits.\<close>

definition table_row :: "label \<Rightarrow> label \<Rightarrow> nat" where
  "table_row la lb = unat (push_bit 1 (last la AND 1) OR (last lb AND 1))"

text \<open>\<open>std::vector::at\<close>\<close>

definition vec_at :: "'a list \<Rightarrow> nat \<Rightarrow> exn + 'a" where
  "vec_at xs i = (if i < length xs then Inr (xs ! i) else Inl (StdLogicError ''vector::_M_range_check''))"

section \<open>Garbling\<close>

record garbled_predicate =
  gp_circuit :: boolean_circuit
  gp_delta :: label
  gp_zero :: "label list"
  gp_tables :: "label list list"

definition garble_table ::
  "(bytes \<Rightarrow> bytes) \<Rightarrow> label \<Rightarrow> label \<Rightarrow> label \<Rightarrow> label \<Rightarrow> nat \<Rightarrow> label list" where
  "garble_table sha delta zl zr zw gi =
     fold (\<lambda>(a, b) table.
         let la = if a then labelXor zl delta else zl;
             lb = if b then labelXor zr delta else zr;
             pad = gatePad sha la lb gi;
             target = if a \<and> b then labelXor zw delta else zw
         in table[table_row la lb := labelXor pad target])
       [(False, False), (False, True), (True, False), (True, True)] (replicate 4 [])"

definition garble_wire ::
  "(bytes \<Rightarrow> bytes) \<Rightarrow> boolean_circuit \<Rightarrow> label \<Rightarrow> nat \<Rightarrow> label list \<times> label list list \<Rightarrow>
     (rng, label list \<times> label list list) eff" where
  "garble_wire sha c delta w x =
     (let (zero, tables) = x; lin = bc_wires c ! w in
      if lw_terms lin \<noteq> [] then
        let z = fold (\<lambda>t z. labelXor z (zero ! t)) (lw_terms lin) zero_label;
            z = if lw_constant lin then labelXor z delta else z
        in ret (zero[w := z], tables)
      else
        bnd (of_sum (vec_at (bc_gates c) (length tables))) (\<lambda>gate.
        bnd randomLabel (\<lambda>zw.
        ret (zero[w := zw],
             tables @ [garble_table sha delta (zero ! g_left gate) (zero ! g_right gate) zw (length tables)]))))"

definition garblePredicate ::
  "(bytes \<Rightarrow> bytes) \<Rightarrow> predicate_type \<Rightarrow> nat \<Rightarrow> bool \<Rightarrow> (rng, garbled_predicate) eff" where
  "garblePredicate sha ty count incumbent =
     bnd (of_sum (predicateCircuit ty count incumbent)) (\<lambda>c.
     bnd randomLabel (\<lambda>raw.
     let delta = raw[31 := last raw OR 1]; n = length (bc_wires c) in
     bnd (foldM (\<lambda>i zero. bnd randomLabel (\<lambda>l. ret (zero[i := l]))) [0..<count] (replicate n zero_label)) (\<lambda>zero.
     bnd (foldM (garble_wire sha c delta) [count..<n] (zero, [])) (\<lambda>(zero, tables).
     ret \<lparr>gp_circuit = c, gp_delta = delta, gp_zero = zero, gp_tables = tables\<rparr>))))"

section \<open>Evaluation\<close>

text \<open>The server's loop over the wires after the inputs; \<open>gi\<close> counts the gates.\<close>

primrec evaluate_wires ::
  "(bytes \<Rightarrow> bytes) \<Rightarrow> boolean_circuit \<Rightarrow> label list list \<Rightarrow> nat list \<Rightarrow> nat \<Rightarrow> label list \<Rightarrow> exn + label list" where
  "evaluate_wires sha c tables [] gi labels = Inr labels"
| "evaluate_wires sha c tables (w # ws) gi labels =
     (let lin = bc_wires c ! w in
      if lw_terms lin \<noteq> [] then
        sbind (smap (vec_at labels) (lw_terms lin)) (\<lambda>ls.
        evaluate_wires sha c tables ws gi (labels[w := fold (\<lambda>l z. labelXor z l) ls zero_label]))
      else
        sbind (vec_at (bc_gates c) gi) (\<lambda>gate.
        sbind (vec_at labels (g_left gate)) (\<lambda>la.
        sbind (vec_at labels (g_right gate)) (\<lambda>lb.
        evaluate_wires sha c tables ws (Suc gi)
          (labels[w := labelXor (gatePad sha la lb gi) (tables ! gi ! table_row la lb)])))))"

section \<open>Labels and their truth values\<close>

lemma labelXor_comm: "labelXor a b = labelXor b a"
  unfolding labelXor_def by (induction a b rule: list_induct2') (simp_all add: xor.commute)

lemma labelXor_assoc: "labelXor (labelXor a b) c = labelXor a (labelXor b c)"
  unfolding labelXor_def
proof (induction a arbitrary: b c)
  case (Cons x a)
  show ?case by (cases b; cases c) (simp_all add: Cons xor.assoc)
qed simp

lemma labelXor_left_comm: "labelXor a (labelXor b c) = labelXor b (labelXor a c)"
  by (metis labelXor_assoc labelXor_comm)

lemmas labelXor_ac = labelXor_assoc labelXor_comm labelXor_left_comm

lemma length_labelXor [simp]: "length (labelXor a b) = min (length a) (length b)"
  by (simp add: labelXor_def)

lemma labelXor_cancel: "length a = length b \<Longrightarrow> labelXor a (labelXor a b) = b"
  unfolding labelXor_def by (induction a b rule: list_induct2) (simp_all flip: xor.assoc)

lemma last_labelXor: "length a = length b \<Longrightarrow> b \<noteq> [] \<Longrightarrow> last (labelXor a b) = last a XOR last b"
  unfolding labelXor_def
proof (induction a b rule: list_induct2)
  case (Cons x xs y ys)
  then show ?case by (cases ys) auto
qed simp

lemma length_randomLabel: "yields (\<lambda>g::rng. F (src g)) E randomLabel (\<lambda>l. length l = 32)"
  unfolding randomLabel_def by (rule yields_draw) simp

text \<open>The label that stands for \<open>v\<close> on a wire with zero label \<open>z\<close>.\<close>

definition wl :: "label \<Rightarrow> label \<Rightarrow> bool \<Rightarrow> label" where
  "wl delta z v = (if v then labelXor z delta else z)"

definition odd_label :: "label \<Rightarrow> bool" where
  "odd_label delta \<longleftrightarrow> length delta = 32 \<and> odd (last delta)"

lemma length_wl [simp]: "odd_label delta \<Longrightarrow> length z = 32 \<Longrightarrow> length (wl delta z v) = 32"
  by (simp add: wl_def odd_label_def)

lemma wl_xor:
  assumes "odd_label delta" "length z = 32" "length y = 32"
  shows "labelXor (wl delta z a) (wl delta y b) = wl delta (labelXor z y) (a \<noteq> b)"
proof -
  have "labelXor (labelXor z delta) (labelXor y delta) = labelXor (labelXor delta (labelXor delta z)) y"
    by (simp add: labelXor_ac)
  also have "\<dots> = labelXor z y" using assms by (simp add: labelXor_cancel odd_label_def)
  finally show ?thesis by (cases a; cases b) (simp_all add: wl_def labelXor_ac)
qed

lemma wl_not: "odd_label delta \<Longrightarrow> length z = 32 \<Longrightarrow> wl delta (labelXor z delta) v = wl delta z (\<not> v)"
  using labelXor_cancel [of delta z] by (simp add: wl_def odd_label_def labelXor_ac)

lemma odd_last_wl: "odd_label delta \<Longrightarrow> length z = 32 \<Longrightarrow> odd (last (wl delta z v)) = (odd (last z) \<noteq> v)"
  using last_labelXor [of z delta] even_xor_iff [of "last z" "last delta"]
  by (cases "delta = []") (auto simp: wl_def odd_label_def)

lemma table_row_odd: "table_row la lb = (if odd (last la) then 2 else 0) + (if odd (last lb) then 1 else 0)"
proof -
  have "x AND 1 = (if odd x then 1 else 0)" for x :: "8 word" by (simp add: and_one_eq odd_iff_mod_2_eq_one)
  then show ?thesis by (simp add: table_row_def)
qed

text \<open>Point and permute: the labels of the inputs open the row of the output's label.\<close>

lemma table_entry:
  assumes d: "odd_label delta" and z: "length zl = 32" "length zr = 32" "length zw = 32"
    and sha: "\<And>x. length (sha x) = 32"
  shows "labelXor (gatePad sha (wl delta zl a) (wl delta zr b) gi)
      (garble_table sha delta zl zr zw gi ! table_row (wl delta zl a) (wl delta zr b)) = wl delta zw (a \<and> b)"
proof -
  have pad: "labelXor (gatePad sha x y gi) (labelXor (gatePad sha x y gi) l) = l" if "length l = 32" for x y l
    using that sha by (simp add: labelXor_cancel gatePad_def)
  have rows: "replicate 4 [] = [[], [], [], [] :: label]" by (simp add: numeral_eq_Suc)
  have row: "garble_table sha delta zl zr zw gi ! table_row (wl delta zl a) (wl delta zr b) =
      labelXor (gatePad sha (wl delta zl a) (wl delta zr b) gi) (wl delta zw (a \<and> b))"
    unfolding garble_table_def Let_def rows
    by (cases "odd (last zl)"; cases "odd (last zr)"; cases a; cases b)
       (simp_all add: numeral_2_eq_2 numeral_3_eq_3 table_row_odd odd_last_wl [OF d z(1), unfolded wl_def]
          odd_last_wl [OF d z(2), unfolded wl_def] wl_def odd_last_wl [OF d z(1), of True, unfolded wl_def if_True]
          odd_last_wl [OF d z(2), of True, unfolded wl_def if_True])
  show ?thesis unfolding row by (rule pad) (use d z in simp)
qed

definition table_shape :: "label list \<Rightarrow> bool" where
  "table_shape t \<longleftrightarrow> length t = 4 \<and> (\<forall>r\<in>set t. length r = 32)"

lemma garble_table_shape:
  assumes d: "odd_label delta" and z: "length zl = 32" "length zr = 32" "length zw = 32"
    and sha: "\<And>x. length (sha x) = 32"
  shows "table_shape (garble_table sha delta zl zr zw gi)"
proof -
  have rows: "replicate 4 [] = [[], [], [], [] :: label]" by (simp add: numeral_eq_Suc)
  have d32: "length delta = 32" using d by (simp add: odd_label_def)
  show ?thesis
    unfolding garble_table_def Let_def rows table_shape_def
    by (cases "odd (last zl)"; cases "odd (last zr)")
       (simp_all add: numeral_2_eq_2 numeral_3_eq_3 table_row_odd odd_last_wl [OF d z(1), of True, unfolded wl_def if_True]
          odd_last_wl [OF d z(2), of True, unfolded wl_def if_True] gatePad_def sha z d32)
qed

section \<open>Well-formed circuits and their values\<close>

text \<open>The number of the gate whose output is wire \<open>w\<close>, and the truth value of a linear wire.\<close>

definition gate_no :: "boolean_circuit \<Rightarrow> nat \<Rightarrow> nat" where
  "gate_no c w = length (filter (\<lambda>u. lw_terms (bc_wires c ! u) = []) [bc_inputs c..<w])"

definition gate_of :: "boolean_circuit \<Rightarrow> nat \<Rightarrow> boolean_gate" where
  "gate_of c w = bc_gates c ! gate_no c w"

definition parity :: "bool list \<Rightarrow> nat list \<Rightarrow> bool \<Rightarrow> bool" where
  "parity vs ts b = fold (\<lambda>t b. b \<noteq> vs ! t) ts b"

definition wire_ok :: "boolean_circuit \<Rightarrow> bool list \<Rightarrow> nat \<Rightarrow> bool" where
  "wire_ok c vs w \<longleftrightarrow>
     (if lw_terms (bc_wires c ! w) \<noteq> []
      then (\<forall>t\<in>set (lw_terms (bc_wires c ! w)). t < w) \<and>
           vs ! w = parity vs (lw_terms (bc_wires c ! w)) (lw_constant (bc_wires c ! w))
      else gate_no c w < length (bc_gates c) \<and> g_left (gate_of c w) < w \<and> g_right (gate_of c w) < w \<and>
           vs ! w = (vs ! g_left (gate_of c w) \<and> vs ! g_right (gate_of c w)))"

definition circuit_vals :: "boolean_circuit \<Rightarrow> bool list \<Rightarrow> bool list \<Rightarrow> bool" where
  "circuit_vals c bs vs \<longleftrightarrow> length (bc_wires c) = length vs \<and> bc_inputs c = length bs \<and>
     length bs \<le> length vs \<and> take (length bs) vs = bs \<and> gate_no c (length vs) = length (bc_gates c) \<and>
     (\<forall>w. length bs \<le> w \<longrightarrow> w < length vs \<longrightarrow> wire_ok c vs w)"

lemma gate_no_simps [simp]:
  "gate_no c (bc_inputs c) = 0"
  "bc_inputs c \<le> w \<Longrightarrow> gate_no c (Suc w) = gate_no c w + (if lw_terms (bc_wires c ! w) = [] then 1 else 0)"
  by (simp_all add: gate_no_def)

lemma gate_no_mono: "v \<le> w \<Longrightarrow> gate_no c v \<le> gate_no c w"
proof (induction w)
  case (Suc w)
  then show ?case by (cases "v = Suc w"; cases "bc_inputs c \<le> w") (auto simp: gate_no_def)
qed simp

text \<open>Appending wires and gates keeps what was there.\<close>

lemma gate_no_append:
  assumes "bc_inputs c' = bc_inputs c" "bc_wires c' = bc_wires c @ ws" "w \<le> length (bc_wires c)"
  shows "gate_no c' w = gate_no c w"
  unfolding gate_no_def assms(1)
  by (rule arg_cong [of _ _ length], rule filter_cong) (use assms in \<open>auto simp: nth_append\<close>)

lemma parity_append: "\<forall>t\<in>set ts. t < length vs \<Longrightarrow> parity (vs @ us) ts b = parity vs ts b"
  unfolding parity_def by (induction ts arbitrary: b) (auto simp: nth_append)

lemma wire_ok_append:
  assumes "bc_inputs c' = bc_inputs c" "bc_wires c' = bc_wires c @ ws" "bc_gates c' = bc_gates c @ gs"
    and "length vs = length (bc_wires c)" "w < length vs" "wire_ok c vs w"
  shows "wire_ok c' (vs @ us) w"
proof -
  have g: "gate_no c' w = gate_no c w" using assms(4,5) by (intro gate_no_append [OF assms(1,2)]) simp
  have w: "bc_wires c' ! w = bc_wires c ! w" using assms(2,4,5) by (simp add: nth_append)
  show ?thesis
  proof (cases "lw_terms (bc_wires c ! w) = []")
    case True
    then have "gate_no c w < length (bc_gates c)" using assms(6) by (simp add: wire_ok_def)
    then have "gate_of c' w = gate_of c w" using assms(3) by (simp add: gate_of_def g nth_append)
    with True assms(3,5,6) show ?thesis by (simp add: wire_ok_def w g nth_append)
  next
    case False
    then have "\<forall>t\<in>set (lw_terms (bc_wires c ! w)). t < length vs" using assms(5,6) by (auto simp: wire_ok_def)
    with False assms(5,6) show ?thesis by (simp add: wire_ok_def w nth_append parity_append)
  qed
qed

lemma circuit_vals_inputs: "circuit_vals (bc_inputs_only (length bs)) bs bs"
  by (simp add: circuit_vals_def bc_inputs_only_def gate_no_def)

lemma circuit_vals_output: "circuit_vals (c\<lparr>bc_output := out\<rparr>) bs vs = circuit_vals c bs vs"
  by (simp add: circuit_vals_def wire_ok_def gate_of_def gate_no_def)

lemma circuit_vals_linear:
  assumes c: "circuit_vals c bs vs" and ts: "ts \<noteq> []" "\<forall>t\<in>set ts. t < length vs"
  shows "circuit_vals (fst (bc_linear ts cst c)) bs (vs @ [parity vs ts cst])"
    and "snd (bc_linear ts cst c) = length vs"
proof -
  let ?c = "c\<lparr>bc_wires := bc_wires c @ [\<lparr>lw_terms = ts, lw_constant = cst\<rparr>]\<rparr>"
  have n: "length (bc_wires c) = length vs" "bc_inputs c = length bs" "length bs \<le> length vs"
    "gate_no c (length vs) = length (bc_gates c)" "take (length bs) vs = bs"
    and old: "\<And>w. length bs \<le> w \<Longrightarrow> w < length vs \<Longrightarrow> wire_ok c vs w"
    using c by (simp_all add: circuit_vals_def)
  have g: "gate_no ?c (length vs) = gate_no c (length vs)" by (rule gate_no_append) (simp_all add: n)
  have last: "bc_wires ?c ! length vs = \<lparr>lw_terms = ts, lw_constant = cst\<rparr>" using n(1) by (simp add: nth_append)
  have "wire_ok ?c (vs @ [parity vs ts cst]) w" if "length bs \<le> w" "w < Suc (length vs)" for w
  proof (cases "w = length vs")
    case True
    with ts show ?thesis by (simp add: wire_ok_def n(1) nth_append parity_append)
  next
    case False
    with that show ?thesis
      by (intro wire_ok_append [OF _ _ _ _ _ old]) (simp_all add: n)
  qed
  moreover have "gate_no ?c (Suc (length vs)) = length (bc_gates c)"
    using gate_no_simps(2) [of ?c "length vs"] n g ts(1) by (simp add: nth_append)
  ultimately show "circuit_vals (fst (bc_linear ts cst c)) bs (vs @ [parity vs ts cst])"
    unfolding circuit_vals_def bc_linear_def using n by simp
  show "snd (bc_linear ts cst c) = length vs" using n by (simp add: bc_linear_def)
qed

lemma circuit_vals_and:
  assumes c: "circuit_vals c bs vs" and ab: "a < length vs" "b < length vs"
  shows "circuit_vals (fst (bc_and a b c)) bs (vs @ [vs ! a \<and> vs ! b])"
    and "snd (bc_and a b c) = length vs"
proof -
  let ?c = "c\<lparr>bc_wires := bc_wires c @ [\<lparr>lw_terms = [], lw_constant = False\<rparr>],
     bc_gates := bc_gates c @ [\<lparr>g_left = a, g_right = b, g_output = length vs\<rparr>]\<rparr>"
  have n: "length (bc_wires c) = length vs" "bc_inputs c = length bs" "length bs \<le> length vs"
    "gate_no c (length vs) = length (bc_gates c)" "take (length bs) vs = bs"
    and old: "\<And>w. length bs \<le> w \<Longrightarrow> w < length vs \<Longrightarrow> wire_ok c vs w"
    using c by (simp_all add: circuit_vals_def)
  have g: "gate_no ?c (length vs) = gate_no c (length vs)" by (rule gate_no_append) (simp_all add: n)
  have last: "bc_wires ?c ! length vs = \<lparr>lw_terms = [], lw_constant = False\<rparr>" using n(1) by (simp add: nth_append)
  have "wire_ok ?c (vs @ [vs ! a \<and> vs ! b]) w" if "length bs \<le> w" "w < Suc (length vs)" for w
  proof (cases "w = length vs")
    case True
    with ab n(4) show ?thesis by (simp add: wire_ok_def n(1) g gate_of_def nth_append)
  next
    case False
    with that show ?thesis
      by (intro wire_ok_append [OF _ _ _ _ _ old]) (simp_all add: n)
  qed
  moreover have "gate_no ?c (Suc (length vs)) = Suc (length (bc_gates c))"
    using gate_no_simps(2) [of ?c "length vs"] n g by (simp add: nth_append)
  ultimately show "circuit_vals (fst (bc_and a b c)) bs (vs @ [vs ! a \<and> vs ! b])"
    unfolding circuit_vals_def bc_and_def bc_linear_def using n by simp
  show "snd (bc_and a b c) = length vs" using n by (simp add: bc_linear_def bc_and_def)
qed

section \<open>The circuits decide the predicates\<close>

text \<open>The decision on the bits of the comparisons, and how many there are.\<close>

definition circuit_decision :: "predicate_type \<Rightarrow> bool list \<Rightarrow> bool \<Rightarrow> bool" where
  "circuit_decision ty bs incumbent = (case ty of
     PruneNode \<Rightarrow> bs ! 0 \<or> (incumbent \<and> (\<exists>i\<in>{1..<length bs}. bs ! i))
   | AcceptCandidate \<Rightarrow> \<not> bs ! 0 \<and> bs ! 1 \<and> (\<not> incumbent \<or> bs ! 2 \<noteq> (bs ! 2 = bs ! 3 \<and> bs ! 4)))"

definition comparison_count :: "predicate_type \<Rightarrow> bool \<Rightarrow> nat \<Rightarrow> bool" where
  "comparison_count ty incumbent n \<longleftrightarrow> (case ty of
     PruneNode \<Rightarrow> (if incumbent then 2 \<le> n else 1 \<le> n)
   | AcceptCandidate \<Rightarrow> n = (if incumbent then 5 else 2))"

lemma circuit_vals_nth: "circuit_vals c bs vs \<Longrightarrow> i < length bs \<Longrightarrow> i < length vs \<and> vs ! i = bs ! i"
  unfolding circuit_vals_def by (metis nth_take order_less_le_trans)

text \<open>One built wire: what it computes, and that nothing before it changes.\<close>

lemma built_linear:
  assumes "circuit_vals c bs vs" "ts \<noteq> []" "\<forall>t\<in>set ts. t < length vs" "bc_linear ts cst c = (c', w)"
  obtains vs' where "circuit_vals c' bs vs'" "w < length vs'" "vs' ! w = parity vs ts cst"
    "\<And>i. i < length vs \<Longrightarrow> i < length vs' \<and> vs' ! i = vs ! i"
  using circuit_vals_linear [OF assms(1-3), of cst] assms(4) that [of "vs @ [parity vs ts cst]"]
  by (simp add: nth_append)

lemma built_and:
  assumes "circuit_vals c bs vs" "a < length vs" "b < length vs" "bc_and a b c = (c', w)"
  obtains vs' where "circuit_vals c' bs vs'" "w < length vs'" "vs' ! w = (vs ! a \<and> vs ! b)"
    "\<And>i. i < length vs \<Longrightarrow> i < length vs' \<and> vs' ! i = vs ! i"
  using circuit_vals_and [OF assms(1-3)] assms(4) that [of "vs @ [vs ! a \<and> vs ! b]"]
  by (simp add: nth_append)

lemma parity_simps [simp]: "parity vs [] b = b" "parity vs (t # ts) b = parity vs ts (b \<noteq> vs ! t)"
  by (simp_all add: parity_def)

lemma or_wire:
  assumes c: "circuit_vals c bs vs" and ab: "a < length vs" "b < length vs"
    and eq: "bc_and a b c = (c1, p)" "bc_linear [a, b, p] False c1 = (c2, out)"
  obtains vs' where "circuit_vals c2 bs vs'" "out < length vs'" "vs' ! out = (vs ! a \<or> vs ! b)"
proof -
  obtain vs1 where 1: "circuit_vals c1 bs vs1" "p < length vs1" "vs1 ! p = (vs ! a \<and> vs ! b)"
    "\<And>i. i < length vs \<Longrightarrow> i < length vs1 \<and> vs1 ! i = vs ! i"
    using built_and [OF c ab eq(1)] by blast
  have "\<forall>t\<in>set [a, b, p]. t < length vs1" using 1 ab by simp
  then obtain vs2 where "circuit_vals c2 bs vs2" "out < length vs2" "vs2 ! out = parity vs1 [a, b, p] False"
    using built_linear [OF 1(1) _ _ eq(2)] by blast
  with 1 ab show thesis by (intro that) auto
qed

lemma bc_fold_vals:
  assumes "2 \<le> m" "m \<le> length bs"
  shows "\<exists>vs. circuit_vals (fst (fold bc_fold [2..<m] (bc_inputs_only (length bs), 1))) bs vs \<and>
    snd (fold bc_fold [2..<m] (bc_inputs_only (length bs), 1)) < length vs \<and>
    vs ! snd (fold bc_fold [2..<m] (bc_inputs_only (length bs), 1)) = (\<exists>i\<in>{1..<m}. bs ! i)"
  using assms
proof (induction m rule: dec_induct)
  case base
  have "{1..<2::nat} = {1}" by auto
  then show ?case using circuit_vals_inputs [of bs] base by (intro exI [of _ bs]) simp
next
  case (step m)
  let ?x = "fold bc_fold [2..<m] (bc_inputs_only (length bs), 1)"
  obtain c f where x: "?x = (c, f)" by fastforce
  obtain vs where vs: "circuit_vals c bs vs" "f < length vs" "vs ! f = (\<exists>i\<in>{1..<m}. bs ! i)"
    using step x by auto
  have m: "m < length vs" "vs ! m = bs ! m" using circuit_vals_nth [OF vs(1), of m] step.prems by simp_all
  obtain c1 p where and_eq: "bc_and f m c = (c1, p)" by fastforce
  obtain c2 out where lin_eq: "bc_linear [f, m, p] False c1 = (c2, out)" by fastforce
  obtain vs' where "circuit_vals c2 bs vs'" "out < length vs'" "vs' ! out = (vs ! f \<or> vs ! m)"
    by (rule or_wire [OF vs(1,2) m(1) and_eq lin_eq])
  moreover have "{1..<Suc m} = insert m {1..<m}" using step by auto
  moreover have "fold bc_fold [2..<Suc m] (bc_inputs_only (length bs), 1) = (c2, out)"
    using step x by (simp add: bc_fold_def and_eq lin_eq)
  ultimately show ?case using vs(3) m by (intro exI [of _ vs']) auto
qed

lemma prune_circuit:
  assumes "comparison_count PruneNode incumbent (length bs)"
  shows "\<exists>c vs. predicateCircuit PruneNode (length bs) incumbent = Inr c \<and> circuit_vals c bs vs \<and>
    bc_output c < length vs \<and> vs ! bc_output c = circuit_decision PruneNode bs incumbent"
proof (cases incumbent)
  case False
  then have "bs \<noteq> []" using assms by (auto simp: comparison_count_def)
  with False show ?thesis using circuit_vals_inputs [of bs]
    by (intro exI [of _ "bc_inputs_only (length bs)\<lparr>bc_output := 0\<rparr>"] exI [of _ bs])
       (simp add: predicateCircuit_def circuit_vals_output circuit_decision_def bc_inputs_only_def)
next
  case True
  then have n: "2 \<le> length bs" using assms by (simp add: comparison_count_def)
  obtain c f where x: "fold bc_fold [2..<length bs] (bc_inputs_only (length bs), 1) = (c, f)" by fastforce
  obtain vs where vs: "circuit_vals c bs vs" "f < length vs" "vs ! f = (\<exists>i\<in>{1..<length bs}. bs ! i)"
    using bc_fold_vals [OF n order_refl] x by auto
  have z: "0 < length vs" "vs ! 0 = bs ! 0" using circuit_vals_nth [OF vs(1), of 0] n by fastforce+
  obtain c1 p where and_eq: "bc_and 0 f c = (c1, p)" by fastforce
  obtain c2 out where lin_eq: "bc_linear [0, f, p] False c1 = (c2, out)" by fastforce
  obtain vs' where vs': "circuit_vals c2 bs vs'" "out < length vs'" "vs' ! out = (vs ! 0 \<or> vs ! f)"
    by (rule or_wire [OF vs(1) z(1) vs(2) and_eq lin_eq])
  have "predicateCircuit PruneNode (length bs) incumbent = Inr (c2\<lparr>bc_output := out\<rparr>)"
    using n True x by (simp add: predicateCircuit_def and_eq lin_eq)
  with vs' vs(3) z(2) True show ?thesis
    by (intro exI [of _ "c2\<lparr>bc_output := out\<rparr>"] exI [of _ vs'])
       (auto simp: circuit_vals_output circuit_decision_def)
qed

lemma accept_circuit:
  assumes "comparison_count AcceptCandidate incumbent (length bs)"
  shows "\<exists>c vs. predicateCircuit AcceptCandidate (length bs) incumbent = Inr c \<and> circuit_vals c bs vs \<and>
    bc_output c < length vs \<and> vs ! bc_output c = circuit_decision AcceptCandidate bs incumbent"
proof -
  let ?n = "length bs"
  have n: "?n = (if incumbent then 5 else 2)" using assms by (simp add: comparison_count_def)
  obtain c1 ge where e1: "bc_linear [0] True (bc_inputs_only ?n) = (c1, ge)" by fastforce
  obtain c2 feas where e2: "bc_and ge 1 c1 = (c2, feas)" by fastforce
  have s: "\<forall>t\<in>set [0]. t < length bs" using n by simp
  obtain v1 where v1: "circuit_vals c1 bs v1" "ge < length v1" "v1 ! ge = parity bs [0] True"
      "\<And>i. i < length bs \<Longrightarrow> i < length v1 \<and> v1 ! i = bs ! i"
    using built_linear [OF circuit_vals_inputs _ s e1] by blast
  obtain v2 where v2: "circuit_vals c2 bs v2" "feas < length v2" "v2 ! feas = (v1 ! ge \<and> v1 ! 1)"
      "\<And>i. i < length v1 \<Longrightarrow> i < length v2 \<and> v2 ! i = v1 ! i"
    using built_and [OF v1(1,2) _ e2] v1(4) [of 1] n by (auto split: if_splits)
  have f: "v2 ! feas = (\<not> bs ! 0 \<and> bs ! 1)" using v1(3,4) v2(3) n by simp
  show ?thesis
  proof (cases incumbent)
    case False
    then have "predicateCircuit AcceptCandidate ?n incumbent = Inr (c2\<lparr>bc_output := feas\<rparr>)"
      using n e1 e2 by (simp add: predicateCircuit_def)
    with False v2(1,2) f show ?thesis
      by (intro exI [of _ "c2\<lparr>bc_output := feas\<rparr>"] exI [of _ v2])
         (simp add: circuit_vals_output circuit_decision_def)
  next
    case True
    then have n5: "?n = 5" using n by simp
    have low: "i < length v2 \<and> v2 ! i = bs ! i" if "i < 5" for i
      using v1(4) [of i] v2(4) [of i] that n5 by simp
    obtain c3 eq where e3: "bc_linear [2, 3] True c2 = (c3, eq)" by fastforce
    obtain c4 ec where e4: "bc_and eq 4 c3 = (c4, ec)" by fastforce
    obtain c5 bt where e5: "bc_linear [2, ec] False c4 = (c5, bt)" by fastforce
    obtain c6 out where e6: "bc_and feas bt c5 = (c6, out)" by fastforce
    have "\<forall>t\<in>set [2, 3]. t < length v2" using low by simp
    then obtain v3 where v3: "circuit_vals c3 bs v3" "eq < length v3" "v3 ! eq = parity v2 [2, 3] True"
        "\<And>i. i < length v2 \<Longrightarrow> i < length v3 \<and> v3 ! i = v2 ! i"
      using built_linear [OF v2(1) _ _ e3] by blast
    have i4: "4 < length v3" "v3 ! 4 = bs ! 4" using low [of 4] v3(4) by simp_all
    obtain v4 where v4: "circuit_vals c4 bs v4" "ec < length v4" "v4 ! ec = (v3 ! eq \<and> v3 ! 4)"
        "\<And>i. i < length v3 \<Longrightarrow> i < length v4 \<and> v4 ! i = v3 ! i"
      using built_and [OF v3(1,2) i4(1) e4] by blast
    have i2: "2 < length v4" "v4 ! 2 = bs ! 2" using low [of 2] v3(4) v4(4) by simp_all
    then have "\<forall>t\<in>set [2, ec]. t < length v4" using v4(2) by simp
    then obtain v5 where v5: "circuit_vals c5 bs v5" "bt < length v5" "v5 ! bt = parity v4 [2, ec] False"
        "\<And>i. i < length v4 \<Longrightarrow> i < length v5 \<and> v5 ! i = v4 ! i"
      using built_linear [OF v4(1) _ _ e5] by blast
    have fv: "feas < length v5" "v5 ! feas = v2 ! feas" using v2(2) v3(4) v4(4) v5(4) by simp_all
    obtain v6 where v6: "circuit_vals c6 bs v6" "out < length v6" "v6 ! out = (v5 ! feas \<and> v5 ! bt)"
      using built_and [OF v5(1) fv(1) v5(2) e6] by blast
    have "predicateCircuit AcceptCandidate ?n incumbent = Inr (c6\<lparr>bc_output := out\<rparr>)"
      using n True e1 e2 e3 e4 e5 e6 by (simp add: predicateCircuit_def)
    moreover have "v6 ! out = circuit_decision AcceptCandidate bs incumbent"
      using True f fv i2 i4 low [of 2] low [of 3] v3(3) v4(3) v5(3) v6(3)
      by (auto simp: circuit_decision_def)
    ultimately show ?thesis using v6(1,2)
      by (intro exI [of _ "c6\<lparr>bc_output := out\<rparr>"] exI [of _ v6]) (simp add: circuit_vals_output)
  qed
qed

lemma predicate_circuit:
  assumes "comparison_count ty incumbent (length bs)"
  shows "\<exists>c vs. predicateCircuit ty (length bs) incumbent = Inr c \<and> circuit_vals c bs vs \<and>
    bc_output c < length vs \<and> vs ! bc_output c = circuit_decision ty bs incumbent"
  using assms prune_circuit accept_circuit by (cases ty) simp_all

section \<open>Evaluation follows the truth values\<close>

definition linear_label :: "label \<Rightarrow> label list \<Rightarrow> linear_wire \<Rightarrow> label" where
  "linear_label delta zero lin =
     (let z = fold (\<lambda>t z. labelXor z (zero ! t)) (lw_terms lin) zero_label
      in if lw_constant lin then labelXor z delta else z)"

text \<open>The first \<open>m\<close> wires are garbled.\<close>

definition garbled_upto ::
  "(bytes \<Rightarrow> bytes) \<Rightarrow> boolean_circuit \<Rightarrow> label \<Rightarrow> label list \<Rightarrow> label list list \<Rightarrow> nat \<Rightarrow> bool" where
  "garbled_upto sha c delta zero tables m \<longleftrightarrow> odd_label delta \<and> length zero = length (bc_wires c) \<and>
     (\<forall>z\<in>set zero. length z = 32) \<and> length tables = gate_no c m \<and> (\<forall>t\<in>set tables. table_shape t) \<and>
     (\<forall>w. bc_inputs c \<le> w \<longrightarrow> w < m \<longrightarrow>
        (if lw_terms (bc_wires c ! w) \<noteq> [] then zero ! w = linear_label delta zero (bc_wires c ! w)
         else tables ! gate_no c w = garble_table sha delta (zero ! g_left (gate_of c w))
                (zero ! g_right (gate_of c w)) (zero ! w) (gate_no c w)))"

lemma fold_wl:
  assumes "odd_label delta" "\<forall>t\<in>set ts. length (zero ! t) = 32" "length z = 32"
  shows "fold (\<lambda>l z. labelXor z l) (map (\<lambda>t. wl delta (zero ! t) (vs ! t)) ts) (wl delta z b) =
    wl delta (fold (\<lambda>t z. labelXor z (zero ! t)) ts z) (parity vs ts b)"
  using assms(2,3)
proof (induction ts arbitrary: z b)
  case (Cons t ts)
  have "labelXor (wl delta z b) (wl delta (zero ! t) (vs ! t)) = wl delta (labelXor z (zero ! t)) (b \<noteq> vs ! t)"
    using Cons.prems by (intro wl_xor [OF assms(1)]) simp_all
  with Cons.IH [of "labelXor z (zero ! t)" "b \<noteq> vs ! t"] Cons.prems show ?case by simp
qed simp

lemma length_fold_labelXor:
  "length z = 32 \<Longrightarrow> \<forall>t\<in>set ts. length (zero ! t) = 32 \<Longrightarrow> length (fold (\<lambda>t z. labelXor z (zero ! t)) ts z) = 32"
  by (induction ts arbitrary: z) simp_all

lemma parity_constant: "parity vs ts b = (parity vs ts False \<noteq> b)"
proof (induction ts arbitrary: b)
  case (Cons t ts)
  from Cons.IH [of "b \<noteq> vs ! t"] Cons.IH [of "False \<noteq> vs ! t"] show ?case
    unfolding parity_simps by blast
qed simp

lemma linear_wl:
  assumes d: "odd_label delta" and z: "\<forall>t\<in>set (lw_terms lin). length (zero ! t) = 32"
  shows "fold (\<lambda>l z. labelXor z l) (map (\<lambda>t. wl delta (zero ! t) (vs ! t)) (lw_terms lin)) zero_label =
    wl delta (linear_label delta zero lin) (parity vs (lw_terms lin) (lw_constant lin))"
proof -
  have "fold (\<lambda>l z. labelXor z l) (map (\<lambda>t. wl delta (zero ! t) (vs ! t)) (lw_terms lin)) zero_label =
      wl delta (fold (\<lambda>t z. labelXor z (zero ! t)) (lw_terms lin) zero_label) (parity vs (lw_terms lin) False)"
    using fold_wl [OF d z, of zero_label vs False] by (simp add: wl_def zero_label_def)
  moreover have "length (fold (\<lambda>t z. labelXor z (zero ! t)) (lw_terms lin) zero_label) = 32"
    by (rule length_fold_labelXor) (use z in \<open>simp_all add: zero_label_def\<close>)
  ultimately show ?thesis
    using wl_not [OF d] parity_constant [of vs "lw_terms lin" True]
    by (cases "lw_constant lin") (simp_all add: linear_label_def Let_def)
qed

lemma smap_vec_at: "\<forall>t\<in>set ts. t < length xs \<Longrightarrow> smap (vec_at xs) ts = Inr (map ((!) xs) ts)"
  by (induction ts) (simp_all add: vec_at_def)

lemma evaluate_ok:
  assumes g: "garbled_upto sha c delta zero tables (length (bc_wires c))" and c: "circuit_vals c bs vs"
    and sha: "\<And>x. length (sha x) = 32"
  shows "length bs \<le> w \<Longrightarrow> w \<le> length vs \<Longrightarrow> length labels = length vs \<Longrightarrow>
    \<forall>u<w. labels ! u = wl delta (zero ! u) (vs ! u) \<Longrightarrow>
    \<exists>labels'. evaluate_wires sha c tables [w..<length vs] (gate_no c w) labels = Inr labels' \<and>
      length labels' = length vs \<and> (\<forall>u<length vs. labels' ! u = wl delta (zero ! u) (vs ! u))"
proof (induction "length vs - w" arbitrary: w labels)
  case 0
  then show ?case by simp
next
  case (Suc k)
  let ?lin = "bc_wires c ! w"
  have w: "w < length vs" using Suc.hyps(2) by simp
  have n: "length (bc_wires c) = length vs" "bc_inputs c = length bs"
    and ok: "wire_ok c vs w" using c w Suc.prems(1) by (simp_all add: circuit_vals_def)
  have d: "odd_label delta" and z: "\<And>u. u < length vs \<Longrightarrow> length (zero ! u) = 32"
    and rel: "if lw_terms ?lin \<noteq> [] then zero ! w = linear_label delta zero ?lin
         else tables ! gate_no c w = garble_table sha delta (zero ! g_left (gate_of c w))
                (zero ! g_right (gate_of c w)) (zero ! w) (gate_no c w)"
    using g n w Suc.prems(1) by (auto simp: garbled_upto_def)
  have next_w: "\<exists>labels'. evaluate_wires sha c tables [Suc w..<length vs] (gate_no c (Suc w)) (labels[w := l]) = Inr labels' \<and>
      length labels' = length vs \<and> (\<forall>u<length vs. labels' ! u = wl delta (zero ! u) (vs ! u))"
    if "l = wl delta (zero ! w) (vs ! w)" for l
    by (rule Suc.hyps(1)) (use Suc.hyps(2) Suc.prems w that in \<open>auto simp: less_Suc_eq\<close>)
  have up: "[w..<length vs] = w # [Suc w..<length vs]" using w by (rule upt_conv_Cons)
  show ?case
  proof (cases "lw_terms ?lin = []")
    case False
    have t: "\<forall>t\<in>set (lw_terms ?lin). t < w" and v: "vs ! w = parity vs (lw_terms ?lin) (lw_constant ?lin)"
      using ok False by (simp_all add: wire_ok_def)
    have eq: "map ((!) labels) (lw_terms ?lin) = map (\<lambda>t. wl delta (zero ! t) (vs ! t)) (lw_terms ?lin)"
      using t Suc.prems(4) by simp
    have "\<forall>t\<in>set (lw_terms ?lin). length (zero ! t) = 32" using t z w by force
    then have "fold (\<lambda>l z. labelXor z l) (map ((!) labels) (lw_terms ?lin)) zero_label =
        wl delta (zero ! w) (vs ! w)"
      unfolding eq v using linear_wl [OF d, of ?lin zero vs] rel False by simp
    moreover have "gate_no c (Suc w) = gate_no c w" using False Suc.prems(1) n(2) by simp
    moreover have "smap (vec_at labels) (lw_terms ?lin) = Inr (map ((!) labels) (lw_terms ?lin))"
      using t w Suc.prems(3) by (intro smap_vec_at) auto
    ultimately show ?thesis using next_w False by (simp add: up del: map_eq_conv)
  next
    case True
    let ?g = "gate_of c w"
    have gate: "gate_no c w < length (bc_gates c)" "g_left ?g < w" "g_right ?g < w"
      and v: "vs ! w = (vs ! g_left ?g \<and> vs ! g_right ?g)" using ok True by (simp_all add: wire_ok_def)
    have l: "labels ! g_left ?g = wl delta (zero ! g_left ?g) (vs ! g_left ?g)"
      "labels ! g_right ?g = wl delta (zero ! g_right ?g) (vs ! g_right ?g)"
      using gate(2,3) Suc.prems(4) by simp_all
    have "labelXor (gatePad sha (labels ! g_left ?g) (labels ! g_right ?g) (gate_no c w))
        (tables ! gate_no c w ! table_row (labels ! g_left ?g) (labels ! g_right ?g)) = wl delta (zero ! w) (vs ! w)"
      using table_entry [OF d z z z sha, of "g_left ?g" "g_right ?g" w] rel True v gate w unfolding l by simp
    moreover have "vec_at (bc_gates c) (gate_no c w) = Inr ?g" using gate(1) by (simp add: vec_at_def gate_of_def)
    moreover have "vec_at labels (g_left ?g) = Inr (labels ! g_left ?g)"
      "vec_at labels (g_right ?g) = Inr (labels ! g_right ?g)"
      using gate w Suc.prems(3) by (simp_all add: vec_at_def)
    moreover have "gate_no c (Suc w) = Suc (gate_no c w)" using True Suc.prems(1) n(2) by simp
    ultimately show ?thesis using next_w True by (simp add: up)
  qed
qed

section \<open>Garbling establishes the relation\<close>

lemma linear_label_update: "\<forall>t\<in>set (lw_terms lin). t \<noteq> w \<Longrightarrow> linear_label delta (zero[w := l]) lin = linear_label delta zero lin"
proof -
  assume t: "\<forall>t\<in>set (lw_terms lin). t \<noteq> w"
  have "fold (\<lambda>t z. labelXor z (zero[w := l] ! t)) (lw_terms lin) zero_label =
      fold (\<lambda>t z. labelXor z (zero ! t)) (lw_terms lin) zero_label"
    by (rule fold_cong) (use t in auto)
  then show ?thesis by (simp add: linear_label_def)
qed

lemma garbled_upto_Suc:
  assumes g: "garbled_upto sha c delta zero tables w" and c: "circuit_vals c bs vs"
    and w: "length bs \<le> w" "w < length vs" and l: "length l = 32"
    and new: "if lw_terms (bc_wires c ! w) \<noteq> [] then l = linear_label delta zero (bc_wires c ! w) \<and> ts = []
       else ts = [garble_table sha delta (zero ! g_left (gate_of c w)) (zero ! g_right (gate_of c w)) l (gate_no c w)]"
    and sha: "\<And>x. length (sha x) = 32"
  shows "garbled_upto sha c delta (zero[w := l]) (tables @ ts) (Suc w)"
proof -
  have n: "length (bc_wires c) = length vs" "bc_inputs c = length bs"
    and ok: "\<And>u. length bs \<le> u \<Longrightarrow> u < length vs \<Longrightarrow> wire_ok c vs u" using c by (simp_all add: circuit_vals_def)
  have old: "odd_label delta" "length zero = length vs" "\<forall>z\<in>set zero. length z = 32" "length tables = gate_no c w"
    "\<forall>t\<in>set tables. table_shape t"
    and rel: "\<And>u. length bs \<le> u \<Longrightarrow> u < w \<Longrightarrow>
        (if lw_terms (bc_wires c ! u) \<noteq> [] then zero ! u = linear_label delta zero (bc_wires c ! u)
         else tables ! gate_no c u = garble_table sha delta (zero ! g_left (gate_of c u))
                (zero ! g_right (gate_of c u)) (zero ! u) (gate_no c u))"
    using g n by (simp_all add: garbled_upto_def)
  have "if lw_terms (bc_wires c ! u) \<noteq> [] then zero[w := l] ! u = linear_label delta (zero[w := l]) (bc_wires c ! u)
         else (tables @ ts) ! gate_no c u = garble_table sha delta (zero[w := l] ! g_left (gate_of c u))
                (zero[w := l] ! g_right (gate_of c u)) (zero[w := l] ! u) (gate_no c u)"
    if u: "length bs \<le> u" "u < Suc w" for u
  proof (cases "u = w")
    case True
    have "\<forall>t\<in>set (lw_terms (bc_wires c ! w)). t \<noteq> w" if "lw_terms (bc_wires c ! w) \<noteq> []"
      using ok [OF w] that by (auto simp: wire_ok_def)
    then show ?thesis using new w ok [OF w] old
      by (auto simp: True linear_label_update wire_ok_def nth_append)
  next
    case False
    then have uw: "u < w" using u by simp
    have o: "wire_ok c vs u" using ok u uw w by simp
    have "\<forall>t\<in>set (lw_terms (bc_wires c ! u)). t \<noteq> w" if "lw_terms (bc_wires c ! u) \<noteq> []"
      using o that uw by (auto simp: wire_ok_def)
    moreover have "gate_no c u < length tables" if "lw_terms (bc_wires c ! u) = []"
      using that gate_no_mono [of "Suc u" w c] uw u old n by simp
    ultimately show ?thesis using rel [OF u(1) uw] o uw
      by (auto simp: linear_label_update wire_ok_def nth_append)
  qed
  moreover have "length (tables @ ts) = gate_no c (Suc w)"
    using new old(4) w n by (auto split: if_splits)
  moreover have "\<forall>t\<in>set (tables @ ts). table_shape t"
    using new ok [OF w] w old(2,3,5) garble_table_shape [OF old(1) _ _ l sha]
    by (auto simp: wire_ok_def split: if_splits)
  moreover have "\<forall>z\<in>set (zero[w := l]). length z = 32"
    using old(3) l set_update_subset_insert [of zero w l] by auto
  ultimately show ?thesis using old n by (simp add: garbled_upto_def)
qed

lemma garble_wire_ok:
  assumes g: "garbled_upto sha c delta zero tables w" and c: "circuit_vals c bs vs"
    and w: "length bs \<le> w" "w < length vs" and sha: "\<And>x. length (sha x) = 32"
  shows "yields (\<lambda>g::rng. F (src g)) E (garble_wire sha c delta w (zero, tables))
    (\<lambda>(zero', tables'). garbled_upto sha c delta zero' tables' (Suc w))"
proof (cases "lw_terms (bc_wires c ! w) = []")
  case True
  have ok: "wire_ok c vs w" and n: "length tables = gate_no c w"
    using c g w by (simp_all add: circuit_vals_def garbled_upto_def)
  then have at: "vec_at (bc_gates c) (length tables) = Inr (gate_of c w)"
    using True by (simp add: wire_ok_def vec_at_def gate_of_def)
  have "yields (\<lambda>g::rng. F (src g)) E (bnd randomLabel (\<lambda>zw. ret (zero[w := zw],
         tables @ [garble_table sha delta (zero ! g_left (gate_of c w)) (zero ! g_right (gate_of c w)) zw (length tables)])))
      (\<lambda>(zero', tables'). garbled_upto sha c delta zero' tables' (Suc w))"
  proof (rule yields_bnd [OF length_randomLabel])
    fix l :: label assume "length l = 32"
    then have "garbled_upto sha c delta (zero[w := l])
       (tables @ [garble_table sha delta (zero ! g_left (gate_of c w)) (zero ! g_right (gate_of c w)) l (length tables)]) (Suc w)"
      using True n sha by (intro garbled_upto_Suc [OF g c w]) simp_all
    then show "yields (\<lambda>g::rng. F (src g)) E (ret (zero[w := l],
         tables @ [garble_table sha delta (zero ! g_left (gate_of c w)) (zero ! g_right (gate_of c w)) l (length tables)]))
      (\<lambda>(zero', tables'). garbled_upto sha c delta zero' tables' (Suc w))" by (simp add: yields_ret)
  qed
  then show ?thesis
    using True by (simp add: garble_wire_def at yields_bnd [OF yields_of_sum [OF refl, of "\<lambda>g. g = gate_of c w"]])
next
  case False
  have d: "odd_label delta" and z: "\<And>u. u < length vs \<Longrightarrow> length (zero ! u) = 32"
    using g c by (auto simp: garbled_upto_def circuit_vals_def)
  have "\<forall>t\<in>set (lw_terms (bc_wires c ! w)). t < w"
    using c w False by (simp add: circuit_vals_def wire_ok_def)
  then have "\<forall>t\<in>set (lw_terms (bc_wires c ! w)). length (zero ! t) = 32" using z w by force
  then have "length (fold (\<lambda>t z. labelXor z (zero ! t)) (lw_terms (bc_wires c ! w)) zero_label) = 32"
    by (intro length_fold_labelXor) (simp_all add: zero_label_def)
  then have l: "length (linear_label delta zero (bc_wires c ! w)) = 32"
    using d by (simp add: linear_label_def Let_def odd_label_def)
  have "garbled_upto sha c delta (zero[w := linear_label delta zero (bc_wires c ! w)]) (tables @ []) (Suc w)"
    using False sha by (intro garbled_upto_Suc [OF g c w l]) simp_all
  then show ?thesis using False by (simp add: garble_wire_def linear_label_def yields_ret Let_def)
qed

lemma garble_ok:
  assumes pc: "predicateCircuit ty (length bs) incumbent = Inr c" and c: "circuit_vals c bs vs"
    and sha: "\<And>x. length (sha x) = 32"
  shows "yields (\<lambda>g::rng. F (src g)) E (garblePredicate sha ty (length bs) incumbent)
    (\<lambda>g. gp_circuit g = c \<and> garbled_upto sha c (gp_delta g) (gp_zero g) (gp_tables g) (length (bc_wires c)))"
  unfolding garblePredicate_def pc
proof (rule yields_bnd [OF yields_of_sum [OF refl, of "\<lambda>x. x = c"]], simp, rule yields_bnd [OF length_randomLabel])
  fix c' and raw :: label assume "c' = c" and raw: "length raw = 32"
  let ?n = "length (bc_wires c)" and ?d = "raw[31 := last raw OR 1]"
  have n: "?n = length vs" "bc_inputs c = length bs" "length bs \<le> length vs" using c by (simp_all add: circuit_vals_def)
  have "raw \<noteq> []" using raw by auto
  then have "last ?d = last raw OR 1" using raw by (simp add: last_conv_nth)
  then have d: "odd_label ?d" using raw by (simp add: odd_label_def even_or_iff)
  have inputs: "yields (\<lambda>g::rng. F (src g)) E
      (foldM (\<lambda>i zero. bnd randomLabel (\<lambda>l. ret (zero[i := l]))) [0..<length bs] (replicate ?n zero_label))
      (\<lambda>zero. length zero = ?n \<and> (\<forall>z\<in>set zero. length z = 32))"
  proof (rule yields_foldM)
    fix i :: nat and zero :: "label list" assume "length zero = ?n \<and> (\<forall>z\<in>set zero. length z = 32)"
    then show "yields (\<lambda>g::rng. F (src g)) E (bnd randomLabel (\<lambda>l. ret (zero[i := l])))
        (\<lambda>zero. length zero = ?n \<and> (\<forall>z\<in>set zero. length z = 32))"
      by (intro yields_bnd [OF length_randomLabel] yields_ret)
         (use set_update_subset_insert [of zero i] in auto)
  qed (simp add: zero_label_def)
  show "yields (\<lambda>g::rng. F (src g)) E
      (let delta = raw[31 := last raw OR 1]; n = length (bc_wires c') in
       bnd (foldM (\<lambda>i zero. bnd randomLabel (\<lambda>l. ret (zero[i := l]))) [0..<length bs] (replicate n zero_label)) (\<lambda>zero.
       bnd (foldM (garble_wire sha c' delta) [length bs..<n] (zero, [])) (\<lambda>(zero, tables).
       ret \<lparr>gp_circuit = c', gp_delta = delta, gp_zero = zero, gp_tables = tables\<rparr>)))
      (\<lambda>g. gp_circuit g = c \<and> garbled_upto sha c (gp_delta g) (gp_zero g) (gp_tables g) ?n)"
    unfolding Let_def \<open>c' = c\<close>
  proof (rule yields_bnd [OF inputs])
    fix zero :: "label list" assume z: "length zero = ?n \<and> (\<forall>z\<in>set zero. length z = 32)"
    have "yields (\<lambda>g::rng. F (src g)) E (foldM (garble_wire sha c ?d) [length bs..<?n] (zero, []))
        ((\<lambda>i (zero, tables). garbled_upto sha c ?d zero tables (length bs + i)) (length [length bs..<?n]))"
    proof (rule yields_foldM_indexed)
      have "gate_no c (length bs) = 0" using gate_no_simps(1) [of c] n(2) by simp
      then show "case (zero, []) of (zero, tables) \<Rightarrow> garbled_upto sha c ?d zero tables (length bs + 0)"
        using z d n by (simp add: garbled_upto_def)
    next
      fix i and x :: "label list \<times> label list list" assume i: "i < length [length bs..<?n]"
        and x: "case x of (zero, tables) \<Rightarrow> garbled_upto sha c ?d zero tables (length bs + i)"
      obtain zero' tables' where xx: "x = (zero', tables')" by (cases x)
      show "yields (\<lambda>g::rng. F (src g)) E (garble_wire sha c ?d ([length bs..<?n] ! i) x)
          (\<lambda>(zero, tables). garbled_upto sha c ?d zero tables (length bs + Suc i))"
        using garble_wire_ok [OF _ c, of sha ?d zero' tables' "length bs + i" F E] sha x xx i n by simp
    qed
    then show "yields (\<lambda>g::rng. F (src g)) E (bnd (foldM (garble_wire sha c ?d) [length bs..<?n] (zero, []))
        (\<lambda>(zero, tables). ret \<lparr>gp_circuit = c, gp_delta = ?d, gp_zero = zero, gp_tables = tables\<rparr>))
      (\<lambda>g. gp_circuit g = c \<and> garbled_upto sha c (gp_delta g) (gp_zero g) (gp_tables g) ?n)"
      by (rule yields_bnd) (use n in \<open>auto intro: yields_ret\<close>)
  qed
qed

section \<open>Garbled predicates\<close>

lemma wl_inject: "odd_label delta \<Longrightarrow> length z = 32 \<Longrightarrow> wl delta z a = wl delta z b \<longleftrightarrow> a = b"
  using odd_last_wl [of delta z a] odd_last_wl [of delta z b] by auto

text \<open>What the client's garbled predicate is for the server, for every outcome of the comparisons.\<close>

definition garbled_for :: "(bytes \<Rightarrow> bytes) \<Rightarrow> predicate_type \<Rightarrow> nat \<Rightarrow> bool \<Rightarrow> garbled_predicate \<Rightarrow> bool" where
  "garbled_for sha ty n incumbent g \<longleftrightarrow> predicateCircuit ty n incumbent = Inr (gp_circuit g) \<and>
     odd_label (gp_delta g) \<and> length (gp_zero g) = length (bc_wires (gp_circuit g)) \<and>
     (\<forall>z\<in>set (gp_zero g). length z = 32) \<and> n \<le> length (gp_zero g) \<and>
     bc_output (gp_circuit g) < length (gp_zero g) \<and>
     length (gp_tables g) = length (bc_gates (gp_circuit g)) \<and> (\<forall>t\<in>set (gp_tables g). table_shape t) \<and>
     (\<forall>bs labels. length bs = n \<longrightarrow> length labels = length (gp_zero g) \<longrightarrow>
        (\<forall>i<n. labels ! i = wl (gp_delta g) (gp_zero g ! i) (bs ! i)) \<longrightarrow>
        (\<exists>out. evaluate_wires sha (gp_circuit g) (gp_tables g) [n..<length (gp_zero g)] 0 labels = Inr out \<and>
           length out = length (gp_zero g) \<and>
           out ! bc_output (gp_circuit g) = wl (gp_delta g) (gp_zero g ! bc_output (gp_circuit g))
             (circuit_decision ty bs incumbent)))"

lemma yields_garblePredicate:
  assumes n: "comparison_count ty incumbent n" and sha: "\<And>x. length (sha x) = 32"
  shows "yields (\<lambda>g::rng. F (src g)) E (garblePredicate sha ty n incumbent) (garbled_for sha ty n incumbent)"
proof -
  have circ: "\<exists>c vs. predicateCircuit ty n incumbent = Inr c \<and> circuit_vals c bs vs \<and>
      bc_output c < length vs \<and> vs ! bc_output c = circuit_decision ty bs incumbent" if "length bs = n" for bs
    using predicate_circuit [of ty incumbent bs] n that by simp
  obtain bs0 :: "bool list" where bs0: "length bs0 = n" using Ex_list_of_length by blast
  then obtain c vs0 where pc: "predicateCircuit ty n incumbent = Inr c" and c0: "circuit_vals c bs0 vs0"
    and out0: "bc_output c < length vs0" using circ by blast
  have pc0: "predicateCircuit ty (length bs0) incumbent = Inr c" using pc bs0 by simp
  have "yields (\<lambda>g::rng. F (src g)) E (garblePredicate sha ty (length bs0) incumbent)
      (garbled_for sha ty n incumbent)"
  proof (rule yields_weaken [OF garble_ok [OF pc0 c0 sha, of F E]])
    fix g :: garbled_predicate
    assume g: "gp_circuit g = c \<and>
      garbled_upto sha c (gp_delta g) (gp_zero g) (gp_tables g) (length (bc_wires c))"
    have wires: "length (bc_wires c) = length vs0" "bc_inputs c = n" "n \<le> length vs0"
      "gate_no c (length vs0) = length (bc_gates c)" using c0 bs0 by (simp_all add: circuit_vals_def)
    have "\<exists>out. evaluate_wires sha c (gp_tables g) [n..<length (gp_zero g)] 0 labels = Inr out \<and>
           length out = length (gp_zero g) \<and> out ! bc_output c = wl (gp_delta g) (gp_zero g ! bc_output c)
             (circuit_decision ty bs incumbent)"
      if bs: "length bs = n" and lb: "length labels = length (gp_zero g)"
        "\<forall>i<n. labels ! i = wl (gp_delta g) (gp_zero g ! i) (bs ! i)" for bs labels
    proof -
      obtain c' vs where "predicateCircuit ty n incumbent = Inr c'" "circuit_vals c' bs vs"
        "bc_output c' < length vs" and dec: "vs ! bc_output c' = circuit_decision ty bs incumbent"
        using circ [OF bs] by blast
      then have c: "circuit_vals c bs vs" and cc: "c' = c" using pc by auto
      have nv: "length vs = length vs0" "length (gp_zero g) = length vs" "gate_no c (length bs) = 0"
        using c g wires bs gate_no_simps(1) [of c] by (simp_all add: circuit_vals_def garbled_upto_def)
      have "\<forall>u<length bs. labels ! u = wl (gp_delta g) (gp_zero g ! u) (vs ! u)"
        using lb(2) bs circuit_vals_nth [OF c] by simp
      then obtain labels' where "evaluate_wires sha c (gp_tables g) [length bs..<length vs] (gate_no c (length bs)) labels = Inr labels'"
        "length labels' = length vs" "\<forall>u<length vs. labels' ! u = wl (gp_delta g) (gp_zero g ! u) (vs ! u)"
        using evaluate_ok [OF conjunct2 [OF g] c sha, of "length bs" labels] lb(1) nv bs wires(3) by auto
      then show ?thesis using bs nv dec cc out0 by (intro exI [of _ labels']) simp
    qed
    then show "garbled_for sha ty n incumbent g"
      using g wires pc out0 by (simp add: garbled_for_def garbled_upto_def)
  qed
  then show ?thesis using bs0 by simp
qed

text \<open>The decisions of the engine are those of the circuit, on the bits of the comparisons.\<close>

lemma some_later_bit: "(\<exists>i\<in>{1..<length (b # bs)}. (b # bs) ! i) \<longleftrightarrow> True \<in> set bs"
proof
  assume "True \<in> set bs"
  then obtain i where "i < length bs" "bs ! i" by (auto simp: in_set_conv_nth)
  then show "\<exists>i\<in>{1..<length (b # bs)}. (b # bs) ! i" by (intro bexI [of _ "Suc i"]) simp_all
next
  assume "\<exists>i\<in>{1..<length (b # bs)}. (b # bs) ! i"
  then obtain i where "1 \<le> i" "i < Suc (length bs)" "(b # bs) ! i" by auto
  then have "i - 1 < length bs" "bs ! (i - 1)" by auto
  then show "True \<in> set bs" by (metis nth_mem)
qed

lemma circuit_decision_prune:
  "circuit_decision PruneNode ((0 > slack) # (if incumbent then map (\<lambda>l. l > inc) lowers else [])) incumbent =
     prune_decision slack lowers incumbent inc"
  unfolding circuit_decision_def predicate_type.case some_later_bit
  by (auto simp: prune_decision_def list_ex_iff)

lemma circuit_decision_accept:
  "circuit_decision AcceptCandidate ([0 > slack, c3 > 0] @
      (if incumbent then [inc_cost > cost, cost > inc_cost, inc_c12 > c12] else [])) incumbent =
     accept_decision slack c3 cost c12 incumbent inc_cost inc_c12"
  by (auto simp: circuit_decision_def accept_decision_def)

text \<open>C9: For either predicate and any number of comparisons it can have, garbling ends, and evaluating the
  garbled circuit on the labels of any comparison bits gives the output label of the predicate's
  decision on these bits, and not the other output label.\<close>

theorem garbled_predicate_correct:
  assumes "comparison_count ty incumbent n" "\<And>x. length (sha x) = 32"
  shows "\<exists>g r'. garblePredicate sha ty n incumbent r = Some (Inr g, r') \<and>
    (\<forall>bs labels. length bs = n \<longrightarrow> length labels = length (gp_zero g) \<longrightarrow>
       (\<forall>i<n. labels ! i = (if bs ! i then labelXor (gp_zero g ! i) (gp_delta g) else gp_zero g ! i)) \<longrightarrow>
       (\<exists>out. evaluate_wires sha (gp_circuit g) (gp_tables g) [n..<length (gp_zero g)] 0 labels = Inr out \<and>
          (out ! bc_output (gp_circuit g) = labelXor (gp_zero g ! bc_output (gp_circuit g)) (gp_delta g) \<longleftrightarrow>
             circuit_decision ty bs incumbent) \<and>
          (out ! bc_output (gp_circuit g) = gp_zero g ! bc_output (gp_circuit g) \<longleftrightarrow>
             \<not> circuit_decision ty bs incumbent)))"
proof -
  have y: "yields (\<lambda>g::rng. True) no_exn (garblePredicate sha ty n incumbent) (garbled_for sha ty n incumbent)"
    by (rule yields_garblePredicate [OF assms, of "\<lambda>_. True"])
  obtain g r' where run: "garblePredicate sha ty n incumbent r = Some (Inr g, r')"
    and g: "garbled_for sha ty n incumbent g"
    by (rule yields_no_exnD [OF y TrueI])
  let ?z = "gp_zero g ! bc_output (gp_circuit g)" and ?d = "gp_delta g"
  have d: "odd_label ?d" and z: "length ?z = 32" using g by (auto simp: garbled_for_def)
  have label: "(wl ?d ?z v = labelXor ?z ?d) = v" "(wl ?d ?z v = ?z) = (\<not> v)" for v
    using wl_inject [OF d z, of v True] wl_inject [OF d z, of v False] by (simp_all add: wl_def)
  show ?thesis
  proof (intro exI [of _ g] exI [of _ r'] conjI run allI impI)
    fix bs and labels :: "label list" assume "length bs = n" "length labels = length (gp_zero g)"
      "\<forall>i<n. labels ! i = (if bs ! i then labelXor (gp_zero g ! i) ?d else gp_zero g ! i)"
    then obtain out where out: "evaluate_wires sha (gp_circuit g) (gp_tables g) [n..<length (gp_zero g)] 0 labels = Inr out"
      "out ! bc_output (gp_circuit g) = wl ?d ?z (circuit_decision ty bs incumbent)"
      using g unfolding garbled_for_def wl_def by blast
    show "\<exists>out. evaluate_wires sha (gp_circuit g) (gp_tables g) [n..<length (gp_zero g)] 0 labels = Inr out \<and>
          (out ! bc_output (gp_circuit g) = labelXor ?z ?d \<longleftrightarrow> circuit_decision ty bs incumbent) \<and>
          (out ! bc_output (gp_circuit g) = ?z \<longleftrightarrow> \<not> circuit_decision ty bs incumbent)"
      using out label by auto
  qed
qed

text \<open>A candidate against an incumbent, with the first 32 bytes in place of the hash.\<close>

definition sample_hash :: "bytes \<Rightarrow> bytes" where
  "sample_hash x = take 32 (x @ zero_label)"

lemma length_sample_hash: "length (sample_hash x) = 32"
  by (simp add: sample_hash_def zero_label_def)

theorem garbled_predicate_correct_witness:
  "\<exists>g r'. garblePredicate sample_hash AcceptCandidate 5 True \<lparr>src = (\<lambda>t i. 1), pos = (\<lambda>_. 0)\<rparr> = Some (Inr g, r') \<and>
    (\<forall>bs labels. length bs = 5 \<longrightarrow> length labels = length (gp_zero g) \<longrightarrow>
       (\<forall>i<5. labels ! i = (if bs ! i then labelXor (gp_zero g ! i) (gp_delta g) else gp_zero g ! i)) \<longrightarrow>
       (\<exists>out. evaluate_wires sample_hash (gp_circuit g) (gp_tables g) [5..<length (gp_zero g)] 0 labels = Inr out \<and>
          (out ! bc_output (gp_circuit g) = labelXor (gp_zero g ! bc_output (gp_circuit g)) (gp_delta g) \<longleftrightarrow>
             circuit_decision AcceptCandidate bs True) \<and>
          (out ! bc_output (gp_circuit g) = gp_zero g ! bc_output (gp_circuit g) \<longleftrightarrow>
             \<not> circuit_decision AcceptCandidate bs True)))"
  by (rule garbled_predicate_correct) (simp_all add: comparison_count_def length_sample_hash)

end
