(* ===== verification/Messages.thy ===== *)
theory Messages
  imports Wire PredicateEngine
begin

text \<open>
  The fields of the threshold protocol's messages (src/protocol/threshold_protocol.cpp): sequences of
  length-prefixed integers, context strings, and the ciphertext objects at the interface. What is
  appended field by field is read back field by field; the client, the server and the enclaves use
  these lemmas for every request and reply.
\<close>

section \<open>Character data\<close>

definition ascii :: "string \<Rightarrow> bytes" where
  "ascii s = map (\<lambda>c. of_nat (of_char c)) s"

lemma length_ascii [simp]: "length (ascii s) = length s"
  by (simp add: ascii_def)

lemma ascii_back: "map (\<lambda>b. char_of (unat b)) (ascii s) = s"
proof -
  have "char_of (unat (of_nat (of_char c) :: 8 word)) = c" for c
  proof -
    have "(of_char c :: nat) < 256" by (rule nat_of_char_less_256)
    then show ?thesis by (simp add: unat_of_nat)
  qed
  then show ?thesis by (simp add: ascii_def comp_def)
qed

section \<open>Sequences of integers\<close>

primrec append_ints :: "bytes \<Rightarrow> int list \<Rightarrow> exn + bytes" where
  "append_ints output [] = Inr output"
| "append_ints output (v # vs) = sbind (appendInteger output v) (\<lambda>out. append_ints out vs)"

primrec take_ints :: "nat \<Rightarrow> bytes \<Rightarrow> nat \<Rightarrow> exn + int list \<times> nat" where
  "take_ints 0 input offset = Inr ([], offset)"
| "take_ints (Suc k) input offset =
     sbind (takeInteger input offset) (\<lambda>(v, offset).
     sbind (take_ints k input offset) (\<lambda>(vs, offset). Inr (v # vs, offset)))"

text \<open>The bytes of one integer.\<close>

definition int_bytes :: "int \<Rightarrow> bytes" where
  "int_bytes v = writeU32 (of_nat (mag_size v)) @ mag v @ replicate (mag_size v - length (mag v)) 0"

definition ints_bytes :: "int list \<Rightarrow> bytes" where
  "ints_bytes vs = concat (map int_bytes vs)"

lemma ints_bytes_simps [simp]: "ints_bytes [] = []" "ints_bytes (v # vs) = int_bytes v @ ints_bytes vs"
  "ints_bytes (vs @ us) = ints_bytes vs @ ints_bytes us"
  by (simp_all add: ints_bytes_def)

lemma length_mag_le: "length (mag v) \<le> mag_size v"
  using mag_size_pos [of v] by (simp add: mag_def export_size_def)

lemma length_int_bytes: "length (int_bytes v) = 4 + mag_size v"
  using length_mag_le [of v] by (simp add: int_bytes_def)

text \<open>Integers that the messages hold: at most the size of a ciphertext under an 8192-bit modulus.\<close>

definition wire_int :: "int \<Rightarrow> bool" where
  "wire_int v \<longleftrightarrow> 0 \<le> v \<and> mag_size v \<le> 2048"

lemma appendInteger_ok:
  "wire_int v \<Longrightarrow> length output < 2 ^ 63 \<Longrightarrow> appendInteger output v = Inr (output @ int_bytes v)"
  using mag_size_pos [of v] by (simp add: appendInteger_def int_bytes_def wire_int_def Let_def) linarith

lemma takeInteger_ok:
  assumes "wire_int v"
  shows "takeInteger (pre @ int_bytes v @ rest) (length pre) = Inr (v, length pre + length (int_bytes v))"
proof -
  have size: "mag_size v \<le> 2 ^ 32 - 1" "0 \<le> v" using assms by (simp_all add: wire_int_def)
  have "appendInteger [] v = Inr (int_bytes v)" using assms appendInteger_ok [of v "[]"] by simp
  from takeInteger_append [OF size(2) this, of rest]
  have z: "takeInteger (int_bytes v @ rest) 0 = Inr (v, length (int_bytes v))" by simp
  have s: "size < unat (readU32 (drop (length pre) (pre @ int_bytes v @ rest))) \<longleftrightarrow>
      size < unat (readU32 (drop 0 (int_bytes v @ rest)))" for size by simp
  show ?thesis
    using z unfolding takeInteger_def by (auto simp: Let_def split: if_splits)
qed

lemma append_ints_ok:
  "\<forall>v\<in>set vs. wire_int v \<Longrightarrow> length out + 2052 * length vs < 2 ^ 63 \<Longrightarrow>
     append_ints out vs = Inr (out @ ints_bytes vs)"
proof (induction vs arbitrary: out)
  case (Cons v vs)
  have "appendInteger out v = Inr (out @ int_bytes v)"
    using Cons.prems by (intro appendInteger_ok) auto
  moreover have "append_ints (out @ int_bytes v) vs = Inr ((out @ int_bytes v) @ ints_bytes vs)"
    using Cons.prems by (intro Cons.IH) (auto simp: length_int_bytes wire_int_def)
  ultimately show ?case by simp
qed simp

lemma take_ints_ok:
  "\<forall>v\<in>set vs. wire_int v \<Longrightarrow>
     take_ints (length vs) (pre @ ints_bytes vs @ rest) (length pre) = Inr (vs, length pre + length (ints_bytes vs))"
proof (induction vs arbitrary: pre)
  case (Cons v vs)
  have "take_ints (length vs) ((pre @ int_bytes v) @ ints_bytes vs @ rest) (length (pre @ int_bytes v)) =
      Inr (vs, length (pre @ int_bytes v) + length (ints_bytes vs))"
    using Cons.prems by (intro Cons.IH) simp
  moreover have "takeInteger (pre @ int_bytes v @ ints_bytes vs @ rest) (length pre) =
      Inr (v, length pre + length (int_bytes v))"
    using Cons.prems by (intro takeInteger_ok) simp
  ultimately show ?case by simp
qed simp

lemma length_ints_bytes: "\<forall>v\<in>set vs. wire_int v \<Longrightarrow> length (ints_bytes vs) \<le> 2052 * length vs"
  by (induction vs) (auto simp: length_int_bytes wire_int_def)

section \<open>Context strings\<close>

definition appendContextString :: "bytes \<Rightarrow> string \<Rightarrow> exn + bytes" where
  "appendContextString output value =
     (if value = [] \<or> length value > 128 then Inl (PredicateError ''invalid predicate context field'')
      else Inr (output @ writeU32 (of_nat (length value)) @ ascii value))"

definition takeContextString :: "bytes \<Rightarrow> nat \<Rightarrow> exn + string \<times> nat" where
  "takeContextString input offset =
     (if offset + 4 > length input then Inl (StdRuntimeError ''short predicate context'')
      else let size = unat (readU32 (drop offset input)); offset = offset + 4 in
        if size = 0 \<or> size > 128 \<or> offset + size > length input
        then Inl (StdRuntimeError ''invalid predicate context field'')
        else Inr (map (\<lambda>b. char_of (unat b)) (take size (drop offset input)), offset + size))"

definition context_bytes :: "string \<Rightarrow> bytes" where
  "context_bytes value = writeU32 (of_nat (length value)) @ ascii value"

lemma appendContextString_ok:
  "validIdentifier value \<Longrightarrow> appendContextString output value = Inr (output @ context_bytes value)"
  by (auto simp: appendContextString_def context_bytes_def validIdentifier_def)

lemma takeContextString_ok:
  assumes "validIdentifier value"
  shows "takeContextString (pre @ context_bytes value @ rest) (length pre) =
    Inr (value, length pre + length (context_bytes value))"
proof -
  have v: "value \<noteq> []" "length value \<le> 128" using assms by (simp_all add: validIdentifier_def)
  then have "unat (of_nat (length value) :: 32 word) = length value" by (intro unat_of_nat_32) simp
  with v show ?thesis
    by (simp add: takeContextString_def context_bytes_def readU32_writeU32 ascii_back)
qed

section \<open>Ciphertexts at the interface\<close>

definition encodeCiphertext :: "cipher \<Rightarrow> 8 word \<Rightarrow> exn + int" where
  "encodeCiphertext c mode =
     (if c = [] then Inl (StdInvalidArgument ''empty ciphertext'') else decodeCanonicalCiphertext c mode)"

definition decodeCiphertext :: "int \<Rightarrow> 8 word \<Rightarrow> exn + cipher" where
  "decodeCiphertext v mode = encodeCanonicalCiphertext mode v"

end
