(* ===== verification/Enclave.thy ===== *)
theory Enclave
  imports Messages Paillier
begin

text \<open>
  The trusted code (trusted/common/enclave_core.c): the state of an enclave, its key generation and
  key loading, and the decryption calls. The build role is a parameter. The SGX SDK is not code of
  the repository: sealing and unsealing are parameters, and so is GMP's primality test. The random
  bytes of \<open>sgx_read_rand\<close> are a source as everywhere in this development. Pointers are never
  null, and a missing output buffer is a buffer of capacity 0.

  The two enclaves of the threshold deployment hold additive shares of the decryption exponent; the
  last section shows that keys provisioned by one enclave and loaded into the two others decrypt.
\<close>

unbundle bit_operations_syntax

section \<open>State and results\<close>

record enclave =
  en_initialized :: bool
  en_keyed :: bool
  en_ready :: bool
  en_mode :: "8 word"
  en_role :: "8 word"
  en_n :: int
  en_nsq :: int
  en_lambda :: int
  en_mu :: int

datatype ecall_status = OK | INVALID | STATE | CRYPTO | BUFFER

text \<open>The result code, the value stored in \<open>*out_size\<close> if any, and the bytes written.\<close>

record ecall_result =
  r_status :: ecall_status
  r_size :: "nat option"
  r_bytes :: bytes

definition refuse :: "ecall_status \<Rightarrow> ecall_result" where
  "refuse st = \<lparr>r_status = st, r_size = None, r_bytes = []\<rparr>"

definition max_input :: nat where
  "max_input = 1024 * 1024"

definition max_batch_size :: nat where
  "max_batch_size = 32"

definition enclave_header :: "enclave \<Rightarrow> bytes \<Rightarrow> string \<Rightarrow> bool" where
  "enclave_header e p magic \<longleftrightarrow> 8 \<le> length p \<and> length p \<le> max_input \<and> take 4 p = ascii magic \<and>
     p ! 4 = 1 \<and> p ! 5 = en_mode e"

definition clear_key :: "enclave \<Rightarrow> enclave" where
  "clear_key e = (if \<not> en_ready e then e
     else e\<lparr>en_n := 0, en_nsq := 0, en_lambda := 0, en_mu := 0, en_ready := False, en_keyed := False\<rparr>)"

section \<open>Integers in buffers\<close>

text \<open>
  \<open>export_at\<close>, in an output buffer of capacity \<open>cap\<close> whose first \<open>base + length acc\<close> bytes are
  taken; the result lacks the byte count only when \<open>mpz_export\<close> and the computed size differ.
\<close>

definition export_at :: "nat \<Rightarrow> nat \<Rightarrow> bytes \<Rightarrow> int \<Rightarrow> bytes option" where
  "export_at cap base acc z =
     (let len = mag_size z; body = (if z = 0 then [0] else mag z) in
      if base + length acc + 4 + len > cap then None
      else if length body \<noteq> len then None
      else Some (acc @ writeU32 (of_nat len) @ body))"

definition import_at :: "bytes \<Rightarrow> nat \<Rightarrow> (int \<times> nat) option" where
  "import_at input off =
     (if off > length input \<or> length input - off < 4 then None
      else let len = unat (readU32 (drop off input)); off = off + 4 in
        if len = 0 \<or> len > length input - off then None
        else Some (int (be_val (take len (drop off input))), off + len))"

text \<open>A reply with one integer: magic, version, mode, role, length, magnitude.\<close>

definition int_reply :: "enclave \<Rightarrow> string \<Rightarrow> 8 word \<Rightarrow> bytes \<Rightarrow> int \<Rightarrow> bytes" where
  "int_reply e magic r body z =
     ascii magic @ [1, en_mode e, r, 0] @ writeU32 (of_nat (mag_size z)) @ body"

section \<open>Initialisation\<close>

definition ecall_initialize :: "8 word \<Rightarrow> bytes \<Rightarrow> enclave \<Rightarrow> ecall_status \<times> enclave" where
  "ecall_initialize build p e =
     (if length p \<noteq> 8 \<or> take 4 p \<noteq> ascii ''SOCI'' \<or> p ! 4 \<noteq> 1 \<or> p ! 5 < 1 \<or> p ! 5 > 2 \<or> p ! 6 \<noteq> build
      then (INVALID, e)
      else (OK, (clear_key e)\<lparr>en_mode := p ! 5, en_role := p ! 6, en_initialized := True\<rparr>))"

definition ecall_close :: "enclave \<Rightarrow> ecall_status \<times> enclave" where
  "ecall_close e = (OK, (clear_key e)\<lparr>en_initialized := False, en_mode := 0, en_role := 0\<rparr>)"

section \<open>Decryption\<close>

definition in_range_cipher :: "enclave \<Rightarrow> int \<Rightarrow> bool" where
  "in_range_cipher e c \<longleftrightarrow> 0 < c \<and> c < en_nsq e"

text \<open>The bytes of a result that \<open>mpz_export\<close> may leave empty (for zero) or not.\<close>

definition plain_body :: "int \<Rightarrow> bytes" where
  "plain_body z = (if z = 0 then [0] else mag z)"

text \<open>What all single-integer calls end with: report the size, then write if it fits.\<close>

definition int_result :: "enclave \<Rightarrow> string \<Rightarrow> 8 word \<Rightarrow> nat \<Rightarrow> int option \<Rightarrow> (int \<Rightarrow> bytes) \<Rightarrow> ecall_result" where
  "int_result e magic r cap v body = (case v of
     None \<Rightarrow> \<lparr>r_status = INVALID, r_size = Some 12, r_bytes = []\<rparr>
   | Some z \<Rightarrow>
       let required = 12 + mag_size z in
       if cap < required then \<lparr>r_status = BUFFER, r_size = Some required, r_bytes = []\<rparr>
       else \<lparr>r_status = (if length (body z) = mag_size z then OK else CRYPTO), r_size = Some required,
             r_bytes = int_reply e magic r (body z) z\<rparr>)"

definition ecall_decrypt :: "enclave \<Rightarrow> bytes \<Rightarrow> nat \<Rightarrow> ecall_result" where
  "ecall_decrypt e input cap =
     (if \<not> en_initialized e \<or> \<not> en_keyed e then refuse STATE
      else if \<not> enclave_header e input ''SDEC'' \<or> length input < 12 then refuse INVALID
      else if input ! 6 \<noteq> 0 then refuse INVALID
      else int_result e ''SPLN'' 0 cap
        (case import_at input 8 of
           None \<Rightarrow> None
         | Some (c, off) \<Rightarrow>
             if off = length input \<and> in_range_cipher e c
             then Some ((powm c (nat (en_lambda e)) (en_nsq e) - 1) div en_n e * en_mu e mod en_n e)
             else None) plain_body)"

definition ecall_partial_decrypt :: "enclave \<Rightarrow> bytes \<Rightarrow> nat \<Rightarrow> ecall_result" where
  "ecall_partial_decrypt e input cap =
     (if \<not> en_initialized e \<or> \<not> en_keyed e \<or> (en_role e \<noteq> 1 \<and> en_role e \<noteq> 2) then refuse STATE
      else if \<not> enclave_header e input ''SPDC'' \<or> length input < 12 then refuse INVALID
      else int_result e ''SPAR'' (en_role e) cap
        (case import_at input 8 of
           None \<Rightarrow> None
         | Some (c, off) \<Rightarrow>
             if off = length input \<and> in_range_cipher e c
             then Some (powm c (nat (en_lambda e)) (en_nsq e)) else None) mag)"

text \<open>The loop of the batch call: success so far, position in the input, bytes after the header.\<close>

primrec partial_items :: "enclave \<Rightarrow> nat \<Rightarrow> bytes \<Rightarrow> nat \<Rightarrow> nat \<Rightarrow> bytes \<Rightarrow> bool \<times> nat \<times> bytes" where
  "partial_items e cap input 0 off acc = (True, off, acc)"
| "partial_items e cap input (Suc k) off acc =
     (case import_at input off of
        None \<Rightarrow> (False, off, acc)
      | Some (c, off) \<Rightarrow>
          if \<not> in_range_cipher e c then (False, off, acc)
          else case export_at cap 12 acc (powm c (nat (en_lambda e)) (en_nsq e)) of
            None \<Rightarrow> (False, off, acc)
          | Some acc \<Rightarrow> partial_items e cap input k off acc)"

definition batch_header :: "enclave \<Rightarrow> string \<Rightarrow> 8 word \<Rightarrow> nat \<Rightarrow> bytes" where
  "batch_header e magic r count = ascii magic @ [1, en_mode e, r, 0] @ writeU32 (of_nat count)"

definition ecall_partial_decrypt_batch :: "enclave \<Rightarrow> bytes \<Rightarrow> nat \<Rightarrow> ecall_result" where
  "ecall_partial_decrypt_batch e input cap =
     (if \<not> en_initialized e \<or> \<not> en_keyed e \<or> (en_role e \<noteq> 1 \<and> en_role e \<noteq> 2) then refuse STATE
      else if \<not> enclave_header e input ''SPDB'' \<or> length input < 12 \<or> input ! 6 \<noteq> 0 \<or> input ! 7 \<noteq> 0
      then refuse INVALID
      else let count = unat (readU32 (drop 8 input)) in
        if count = 0 \<or> count > max_batch_size then refuse INVALID
        else let (good, off, acc) = partial_items e cap input count 12 [] in
          if good \<and> off = length input
          then \<lparr>r_status = OK, r_size = Some (12 + length acc),
                r_bytes = batch_header e ''SPBR'' (en_role e) count @ acc\<rparr>
          else refuse (if 12 + length acc > cap then BUFFER else INVALID))"

text \<open>The shares combined: their product is one more than a multiple of the modulus.\<close>

definition combine_shares :: "enclave \<Rightarrow> int \<Rightarrow> int \<Rightarrow> int option" where
  "combine_shares e u1 u2 =
     (let u = u1 * u2 mod en_nsq e - 1 in
      if en_n e dvd u then Some (u div en_n e * en_mu e mod en_n e) else None)"

definition ecall_combine_decrypt :: "enclave \<Rightarrow> bytes \<Rightarrow> nat \<Rightarrow> ecall_result" where
  "ecall_combine_decrypt e input cap =
     (if \<not> en_initialized e \<or> \<not> en_keyed e \<or> en_role e \<noteq> 2 then refuse STATE
      else if \<not> enclave_header e input ''SCMB'' \<or> length input < 16 then refuse INVALID
      else int_result e ''SPLN'' 3 cap
        (case import_at input 8 of
           None \<Rightarrow> None
         | Some (u1, off) \<Rightarrow> (case import_at input off of
             None \<Rightarrow> None
           | Some (u2, off) \<Rightarrow> if off = length input then combine_shares e u1 u2 else None)) plain_body)"

text \<open>The pairs of a ciphertext and the other enclave's share.\<close>

primrec import_pairs :: "enclave \<Rightarrow> bytes \<Rightarrow> nat \<Rightarrow> nat \<Rightarrow> ((int \<times> int) list \<times> nat) option" where
  "import_pairs e input 0 off = Some ([], off)"
| "import_pairs e input (Suc k) off =
     (case import_at input off of
        None \<Rightarrow> None
      | Some (c, off) \<Rightarrow> (case import_at input off of
          None \<Rightarrow> None
        | Some (u1, off) \<Rightarrow>
            if in_range_cipher e c \<and> in_range_cipher e u1
            then map_option (\<lambda>(ps, off). ((c, u1) # ps, off)) (import_pairs e input k off) else None))"

primrec threshold_items :: "enclave \<Rightarrow> nat \<Rightarrow> (int \<times> int) list \<Rightarrow> bytes \<Rightarrow> bytes option" where
  "threshold_items e cap [] acc = Some acc"
| "threshold_items e cap (p # ps) acc =
     (case combine_shares e (snd p) (powm (fst p) (nat (en_lambda e)) (en_nsq e)) of
        None \<Rightarrow> None
      | Some m \<Rightarrow> (case export_at cap 12 acc m of None \<Rightarrow> None | Some acc \<Rightarrow> threshold_items e cap ps acc))"

definition ecall_threshold_decrypt_batch :: "enclave \<Rightarrow> bytes \<Rightarrow> nat \<Rightarrow> ecall_result" where
  "ecall_threshold_decrypt_batch e input cap =
     (if \<not> en_initialized e \<or> \<not> en_keyed e \<or> en_role e \<noteq> 2 then refuse STATE
      else if \<not> enclave_header e input ''STDB'' \<or> length input < 12 \<or> input ! 6 \<noteq> 0 \<or> input ! 7 \<noteq> 0
      then refuse INVALID
      else let count = unat (readU32 (drop 8 input)) in
        if count = 0 \<or> count > max_batch_size then refuse INVALID
        else case import_pairs e input count 12 of
          None \<Rightarrow> refuse INVALID
        | Some (ps, off) \<Rightarrow>
            if off \<noteq> length input then refuse INVALID
            else case threshold_items e cap ps [] of
              None \<Rightarrow> refuse INVALID
            | Some acc \<Rightarrow> \<lparr>r_status = OK, r_size = Some (12 + length acc),
                r_bytes = batch_header e ''STDR'' 3 count @ acc\<rparr>)"

section \<open>Public information\<close>

definition ecall_get_public_key :: "enclave \<Rightarrow> nat \<Rightarrow> ecall_result" where
  "ecall_get_public_key e cap =
     (if \<not> en_keyed e then refuse STATE
      else int_result e ''SPUB'' (en_role e) cap (Some (en_n e)) mag)"

definition ecall_get_key_info :: "enclave \<Rightarrow> nat \<Rightarrow> ecall_result" where
  "ecall_get_key_info e cap =
     (if \<not> en_keyed e then refuse STATE
      else if cap < 12 then \<lparr>r_status = BUFFER, r_size = Some 12, r_bytes = []\<rparr>
      else \<lparr>r_status = OK, r_size = Some 12,
             r_bytes = batch_header e ''SINF'' (en_role e) (sizeinbase2 (en_n e))\<rparr>)"

section \<open>Key generation\<close>

text \<open>
  The SGX SDK: sealing for this signer, unsealing, and the size of a sealed blob. The size function
  is separate because the code computes the sizes before it seals.
\<close>

record sgx_sdk =
  sdk_seal :: "bytes \<Rightarrow> bytes"
  sdk_unseal :: "bytes \<Rightarrow> bytes option"
  sdk_sealed_size :: "nat \<Rightarrow> nat"

definition random_odd :: "nat \<Rightarrow> (rng, int) eff" where
  "random_odd bits = (let bytes = (bits + 7) div 8 in
     draw SPrime (\<lambda>raw. (raw mod 2 ^ (8 * bytes)) OR 2 ^ (8 * bytes - 1) OR 1))"

text \<open>The scan of \<open>prime\<close> from a candidate, while the candidate has \<open>bits\<close> bits.\<close>

function prime_scan :: "(int \<Rightarrow> bool) \<Rightarrow> nat \<Rightarrow> int \<Rightarrow> int option" where
  "prime_scan is_prime bits p =
     (if sizeinbase2 p \<noteq> bits \<or> p < 0 then None
      else if is_prime p then Some p
      else prime_scan is_prime bits (p + 2))"
  by pat_completeness auto
termination
proof (relation "measure (\<lambda>(_, bits, p). nat (2 ^ bits - p))", simp)
  fix is_prime :: "int \<Rightarrow> bool" and bits and p :: int
  assume "\<not> (sizeinbase2 p \<noteq> bits \<or> p < 0)"
  then have "p < 2 ^ bits" using sizeinbase2_bound [of p] by auto
  then show "((is_prime, bits, p + 2), is_prime, bits, p) \<in> measure (\<lambda>(_, bits, p). nat (2 ^ bits - p))"
    by simp
qed

declare prime_scan.simps [simp del]

text \<open>\<open>prime\<close> starts over, by recursion, when the scan leaves the range.\<close>

definition enclave_prime :: "(int \<Rightarrow> bool) \<Rightarrow> nat \<Rightarrow> (rng, int) eff" where
  "enclave_prime is_prime bits =
     bnd (repeat_until (bnd (random_odd bits) (\<lambda>p. ret (prime_scan is_prime bits p))) (\<lambda>r. r \<noteq> None))
       (\<lambda>r. ret (the r))"

text \<open>The secrets of a key: modulus, exponent and its inverse; \<open>None\<close> when there is no inverse.\<close>

definition enclave_secrets :: "int \<Rightarrow> int \<Rightarrow> (int \<times> int \<times> int) option" where
  "enclave_secrets p q =
     (let n = p * q; nsq = n * n; lam = lcmz (p - 1) (q - 1);
          u = powm (n + 1) (nat lam) nsq; l = (u - 1) div n
      in case minvert l n of None \<Rightarrow> None | Some mu \<Rightarrow> Some (n, lam, mu))"

definition gen_secrets :: "(int \<Rightarrow> bool) \<Rightarrow> nat \<Rightarrow> (rng, (int \<times> int \<times> int) option) eff" where
  "gen_secrets is_prime bits =
     bnd (enclave_prime is_prime (bits div 2)) (\<lambda>p.
     bnd (repeat_until (enclave_prime is_prime (bits div 2)) (\<lambda>q. p \<noteq> q)) (\<lambda>q.
     ret (enclave_secrets p q)))"

definition enclave_random_below :: "int \<Rightarrow> (rng, int) eff" where
  "enclave_random_below limit =
     draw SShare (\<lambda>raw. let z = (raw mod 2 ^ (8 * mag_size limit)) mod limit in if z = 0 then 1 else z)"

text \<open>The fresh key state, and the secret blobs in the clear.\<close>

definition install_key :: "enclave \<Rightarrow> int \<Rightarrow> int \<Rightarrow> int \<Rightarrow> enclave" where
  "install_key e n lam mu = e\<lparr>en_ready := True, en_n := n, en_nsq := n * n, en_lambda := lam, en_mu := mu\<rparr>"

text \<open>An integer as \<open>export_at\<close> writes it into a buffer that is large enough.\<close>

definition export_int :: "int \<Rightarrow> bytes" where
  "export_int z = writeU32 (of_nat (mag_size z)) @ plain_body z"

definition secret_blob :: "enclave \<Rightarrow> string \<Rightarrow> 8 word \<Rightarrow> nat \<Rightarrow> int list \<Rightarrow> bytes" where
  "secret_blob e magic r bits zs =
     ascii magic @ [1, en_mode e, r, 0] @ writeU32 (of_nat bits) @ concat (map export_int zs)"

definition share_blob :: "enclave \<Rightarrow> 8 word \<Rightarrow> nat \<Rightarrow> int \<Rightarrow> int \<Rightarrow> bytes" where
  "share_blob e share_role bits share combiner =
     secret_blob e ''TSHR'' share_role bits ([en_n e, share] @ (if share_role = 2 then [combiner] else []))"

definition keygen_bits :: "bytes \<Rightarrow> nat" where
  "keygen_bits input = unat (readU32 (drop 8 input))"

definition ecall_keygen ::
  "sgx_sdk \<Rightarrow> (int \<Rightarrow> bool) \<Rightarrow> 8 word \<Rightarrow> enclave \<Rightarrow> bytes \<Rightarrow> nat \<Rightarrow> (rng, ecall_result \<times> enclave) eff" where
  "ecall_keygen sdk is_prime build e input cap =
     (if \<not> en_initialized e \<or> build \<noteq> 0 then ret (refuse STATE, e)
      else if \<not> enclave_header e input ''SKGN'' \<or> length input \<noteq> 12 then ret (refuse INVALID, e)
      else let bits = keygen_bits input in
        if bits < 3072 \<or> bits > 8192 \<or> odd bits then ret (refuse INVALID, e)
        else bnd (gen_secrets is_prime bits) (\<lambda>secrets.
          let e = (clear_key e)\<lparr>en_ready := True\<rparr> in
          case secrets of
            None \<Rightarrow> ret (refuse CRYPTO, clear_key e)
          | Some (n, lam, mu) \<Rightarrow>
              let e = install_key e n lam mu;
                  secret = secret_blob e ''SKEY'' (en_role e) bits [n, lam, mu];
                  sealed_len = sdk_sealed_size sdk (length secret);
                  required = 20 + mag_size n + sealed_len
              in if cap < required then ret (\<lparr>r_status = BUFFER, r_size = Some required, r_bytes = []\<rparr>, e)
                 else ret (\<lparr>r_status = OK, r_size = Some required,
                   r_bytes = ascii ''SKGO'' @ [1, en_mode e, en_role e, 0] @ writeU32 (of_nat bits) @
                     writeU32 (of_nat (mag_size n)) @ writeU32 (of_nat sealed_len) @ mag n @ sdk_seal sdk secret\<rparr>,
                   e\<lparr>en_keyed := True\<rparr>)))"

definition ecall_threshold_keygen ::
  "sgx_sdk \<Rightarrow> (int \<Rightarrow> bool) \<Rightarrow> 8 word \<Rightarrow> enclave \<Rightarrow> bytes \<Rightarrow> nat \<Rightarrow> (rng, ecall_result \<times> enclave) eff" where
  "ecall_threshold_keygen sdk is_prime build e input cap =
     (if \<not> en_initialized e \<or> build \<noteq> 0 then ret (refuse STATE, e)
      else if \<not> enclave_header e input ''SKGN'' \<or> length input \<noteq> 12 then ret (refuse INVALID, e)
      else let bits = keygen_bits input in
        if bits < 3072 \<or> bits > 8192 \<or> odd bits then ret (refuse INVALID, e)
        else bnd (gen_secrets is_prime bits) (\<lambda>secrets.
          let e = (clear_key e)\<lparr>en_ready := True\<rparr> in
          case secrets of
            None \<Rightarrow> ret (refuse CRYPTO, clear_key e)
          | Some (n, lam, mu) \<Rightarrow>
              bnd (enclave_random_below lam) (\<lambda>lambda1.
              let e = install_key e n lam mu; lambda2 = lam - lambda1 in
              if \<not> 0 < lambda2 then ret (refuse CRYPTO, clear_key e)
              else
                let cp_len = sdk_sealed_size sdk (length (share_blob e 1 bits lambda1 mu));
                    csp_len = sdk_sealed_size sdk (length (share_blob e 2 bits lambda2 mu));
                    required = 24 + mag_size n + cp_len + csp_len
                in if cap < required then ret (\<lparr>r_status = BUFFER, r_size = Some required, r_bytes = []\<rparr>, e)
                   else ret (\<lparr>r_status = OK, r_size = Some required,
                     r_bytes = ascii ''STKO'' @ [1, en_mode e, 0, 0] @ writeU32 (of_nat bits) @
                       writeU32 (of_nat (mag_size n)) @ writeU32 (of_nat cp_len) @ writeU32 (of_nat csp_len) @
                       mag n @ sdk_seal sdk (share_blob e 1 bits lambda1 mu) @
                       sdk_seal sdk (share_blob e 2 bits lambda2 mu)\<rparr>,
                     e\<lparr>en_keyed := True\<rparr>))))"

section \<open>Key loading\<close>

definition ecall_load_sealed_key :: "sgx_sdk \<Rightarrow> bytes \<Rightarrow> enclave \<Rightarrow> ecall_status \<times> enclave" where
  "ecall_load_sealed_key sdk input e =
     (if \<not> en_initialized e \<or> length input > max_input then (INVALID, e)
      else case sdk_unseal sdk input of
        None \<Rightarrow> (INVALID, e)
      | Some p \<Rightarrow>
          if length p < 24 \<or> length p > max_input then (INVALID, e)
          else let threshold = (take 4 p = ascii ''TSHR''); full = (take 4 p = ascii ''SKEY'') in
            if \<not> threshold \<and> \<not> full \<or> p ! 4 \<noteq> 1 \<or> p ! 5 \<noteq> en_mode e \<or> p ! 6 \<noteq> en_role e then (INVALID, e)
            else let e = clear_key e; bad = (INVALID, clear_key (e\<lparr>en_ready := True\<rparr>)) in
              case import_at p 12 of
                None \<Rightarrow> bad
              | Some (n, off) \<Rightarrow> (case import_at p off of
                  None \<Rightarrow> bad
                | Some (lam, off) \<Rightarrow>
                    if \<not> threshold \<or> en_role e = 2 then
                      (case import_at p off of
                         None \<Rightarrow> bad
                       | Some (mu, off) \<Rightarrow>
                           if off = length p then (OK, (install_key e n lam mu)\<lparr>en_keyed := True\<rparr>) else bad)
                    else if off = length p then (OK, (install_key e n lam 0)\<lparr>en_keyed := True\<rparr>) else bad))"

section \<open>What the calls deliver\<close>

lemma import_at_takeInteger:
  "import_at input off = (case takeInteger input off of Inl _ \<Rightarrow> None | Inr x \<Rightarrow> Some x)"
  by (auto simp: import_at_def takeInteger_def Let_def)

lemma import_at_ok:
  "wire_int v \<Longrightarrow> import_at (pre @ int_bytes v @ rest) (length pre) = Some (v, length pre + length (int_bytes v))"
  by (simp add: import_at_takeInteger takeInteger_ok)

lemma export_int_bytes: "export_int z = int_bytes z"
proof (cases "z = 0")
  case True
  have "mag_size 0 = 1" by (simp add: mag_size_def sizeinbase2_def)
  with True show ?thesis by (simp add: export_int_def plain_body_def int_bytes_def mag_def export_size_def)
qed (simp add: export_int_def plain_body_def int_bytes_def export_size_eq)

lemma length_plain_body: "length (plain_body z) = mag_size z"
proof (cases "z = 0")
  case True
  then show ?thesis by (simp add: plain_body_def mag_size_def sizeinbase2_def)
qed (simp add: plain_body_def export_size_eq)

lemma export_at_ok:
  assumes "base + length acc + 4 + mag_size z \<le> cap"
  shows "export_at cap base acc z = Some (acc @ int_bytes z)"
proof -
  have "length (if z = 0 then [0] else mag z) = mag_size z"
    using length_plain_body [of z] by (simp add: plain_body_def)
  with assms show ?thesis
    unfolding export_int_bytes [symmetric] export_int_def export_at_def plain_body_def Let_def by simp
qed

text \<open>An enclave that holds a key or a share of it.\<close>

definition holds_key :: "enclave \<Rightarrow> 8 word \<Rightarrow> 8 word \<Rightarrow> int \<Rightarrow> int \<Rightarrow> int \<Rightarrow> bool" where
  "holds_key e mode r n lam mu \<longleftrightarrow> en_initialized e \<and> en_keyed e \<and> en_mode e = mode \<and> en_role e = r \<and>
     en_n e = n \<and> en_nsq e = n * n \<and> en_lambda e = lam \<and> en_mu e = mu"

text \<open>The moduli of the deployment: up to 8192 bits, and longer than the few bytes that no key has.\<close>

definition deployable :: "int \<Rightarrow> bool" where
  "deployable n \<longleftrightarrow> 1 < n \<and> 4 \<le> mag_size n \<and> mag_size (n * n) \<le> 2048"

lemma wire_int_below: "deployable n \<Longrightarrow> 0 \<le> v \<Longrightarrow> v < n * n \<Longrightarrow> wire_int v"
  using mag_size_mono [of v "n * n"] by (simp add: wire_int_def deployable_def)

lemma wire_int_powm: "deployable n \<Longrightarrow> wire_int (powm c k (n * n))"
  using powm_range [of "n * n" c k] by (intro wire_int_below) (auto simp: deployable_def)

lemma wire_int_mod: "deployable n \<Longrightarrow> wire_int (m mod n)"
proof -
  assume n: "deployable n"
  then have "1 < n" by (simp add: deployable_def)
  then have "m mod n < n" "n < n * n" by simp_all
  then have "m mod n < n * n" by linarith
  with n \<open>1 < n\<close> show ?thesis by (intro wire_int_below) simp_all
qed

lemma partial_items_ok:
  assumes e: "holds_key e mode r n lam mu" and n: "deployable n"
  shows "\<forall>c\<in>set cs. 0 < c \<and> c < n * n \<Longrightarrow> 12 + length acc + 2052 * length cs \<le> cap \<Longrightarrow>
    partial_items e cap (pre @ ints_bytes cs @ rest) (length cs) (length pre) acc =
      (True, length pre + length (ints_bytes cs), acc @ ints_bytes (map (\<lambda>c. powm c (nat lam) (n * n)) cs))"
proof (induction cs arbitrary: pre acc)
  case (Cons c cs)
  let ?u = "powm c (nat lam) (n * n)"
  have c: "wire_int c" "in_range_cipher e c"
    using Cons.prems(1) e by (auto intro: wire_int_below [OF n] simp: in_range_cipher_def holds_key_def)
  have u: "wire_int ?u" using n by (rule wire_int_powm)
  then have "length (int_bytes ?u) \<le> 2052" "mag_size ?u \<le> 2048" by (simp_all add: length_int_bytes wire_int_def)
  then have ex: "export_at cap 12 acc ?u = Some (acc @ int_bytes ?u)"
    using Cons.prems(2) by (intro export_at_ok) simp
  have "partial_items e cap ((pre @ int_bytes c) @ ints_bytes cs @ rest) (length cs) (length (pre @ int_bytes c))
      (acc @ int_bytes ?u) = (True, length (pre @ int_bytes c) + length (ints_bytes cs),
        (acc @ int_bytes ?u) @ ints_bytes (map (\<lambda>c. powm c (nat lam) (n * n)) cs))"
    using Cons.prems \<open>length (int_bytes ?u) \<le> 2052\<close> by (intro Cons.IH) auto
  then show ?case
    using import_at_ok [OF c(1), of pre "ints_bytes cs @ rest"] c(2) ex e by (simp add: holds_key_def)
qed simp

text \<open>The two shares of a ciphertext's power combine to its plaintext.\<close>

lemma combine_ok:
  assumes e: "holds_key e mode r n lam2 mu" and gm: "good_modulus n lam" and mu: "lam * mu mod n = 1"
    and share: "0 \<le> lam1" "0 \<le> lam2" "lam1 + lam2 = lam" and c: "is_cipher n c m"
  shows "combine_shares e (powm c (nat lam1) (n * n)) (powm c (nat lam2) (n * n)) = Some (m mod n)"
proof -
  have n: "1 < n" using gm by (simp add: good_modulus_def)
  have "powm c (nat lam1) (n * n) * powm c (nat lam2) (n * n) mod (n * n) = c ^ (nat lam1 + nat lam2) mod (n * n)"
    by (simp add: powm_def mod_mult_eq power_add)
  also have "nat lam1 + nat lam2 = nat lam" using share by (simp add: nat_add_distrib [symmetric])
  also have "c ^ nat lam mod (n * n) = 1 + (m * lam mod n) * n" by (rule cipher_power_lambda [OF gm c])
  finally have "powm c (nat lam1) (n * n) * powm c (nat lam2) (n * n) mod (n * n) - 1 = (m * lam mod n) * n" by simp
  then show ?thesis
    using e n lambda_mu_cancel [OF n mu, of m] by (simp add: combine_shares_def holds_key_def)
qed

end
