(* ===== verification/HostCalls.thy ===== *)
theory HostCalls
  imports Enclave FixedPoint SampleKey
begin

text \<open>
  The host's calls into the enclaves (src/protocol/threshold_protocol.cpp): the requests are built and
  the responses parsed byte by byte, around the enclave calls of the trusted code. The SGX runtime
  itself delivers every call. Decryption does not change an enclave, so the calls are functions of
  it.

  The property is that the two key shares decrypt: what the provisioning enclave seals, loaded into
  the two other enclaves, gives every plaintext back through the client's and the server's batch
  calls, although neither enclave holds the key.
\<close>

section \<open>Starting an enclave\<close>

definition fresh_enclave :: enclave where
  "fresh_enclave = \<lparr>en_initialized = False, en_keyed = False, en_ready = False, en_mode = 0, en_role = 0,
     en_n = 0, en_nsq = 0, en_lambda = 0, en_mu = 0\<rparr>"

definition initializeEnclave :: "8 word \<Rightarrow> 8 word \<Rightarrow> 8 word \<Rightarrow> enclave \<Rightarrow> exn + enclave" where
  "initializeEnclave build r mode e =
     (case ecall_initialize build (ascii ''SOCI'' @ [1, mode, r, 0]) e of
        (OK, e) \<Rightarrow> Inr e
      | (_, e) \<Rightarrow> Inl (StdRuntimeError ''initialize failed''))"

definition loadModulus :: "bytes \<Rightarrow> int" where
  "loadModulus file = int (be_val file)"

definition loadShare :: "sgx_sdk \<Rightarrow> bytes \<Rightarrow> enclave \<Rightarrow> exn + enclave" where
  "loadShare sdk file e = (case ecall_load_sealed_key sdk file e of
     (OK, e) \<Rightarrow> Inr e
   | (_, e) \<Rightarrow> Inl (StdRuntimeError ''sealed share rejected''))"

section \<open>Decryption calls\<close>

definition call_header :: "string \<Rightarrow> 8 word \<Rightarrow> bytes" where
  "call_header magic mode = ascii magic @ [1, mode, 0, 0]"

definition parseEnclaveResponse :: "bytes \<Rightarrow> string \<Rightarrow> exn + int" where
  "parseEnclaveResponse response magic =
     (if length response < 12 \<or> take 4 response \<noteq> ascii magic \<or>
         unat (12 + readU32 (drop 8 response)) \<noteq> length response
      then Inl (StdRuntimeError ''bad enclave response'')
      else sbind (takeInteger response 8) (\<lambda>(v, off). Inr v))"

definition partialDecrypt :: "enclave \<Rightarrow> int \<Rightarrow> 8 word \<Rightarrow> exn + int" where
  "partialDecrypt e c mode =
     sbind (appendInteger (call_header ''SPDC'' mode) c) (\<lambda>request.
     let result = ecall_partial_decrypt e request 16384 in
     if r_status result \<noteq> OK then Inl (StdRuntimeError ''partial decrypt failed'')
     else parseEnclaveResponse (r_bytes result) ''SPAR'')"

definition partialDecryptBatch :: "enclave \<Rightarrow> int list \<Rightarrow> 8 word \<Rightarrow> exn + int list" where
  "partialDecryptBatch e cs mode =
     (if cs = [] \<or> length cs > max_batch_size then Inl (StdInvalidArgument ''invalid partial decrypt batch size'')
      else sbind (append_ints (call_header ''SPDB'' mode @ writeU32 (of_nat (length cs))) cs) (\<lambda>request.
      let result = ecall_partial_decrypt_batch e request (256 * 1024); response = r_bytes result in
      if r_status result \<noteq> OK then Inl (StdRuntimeError ''partial decrypt batch failed'')
      else if length response < 12 \<or> take 4 response \<noteq> ascii ''SPBR'' \<or> response ! 4 \<noteq> 1 \<or>
        response ! 5 \<noteq> mode \<or> response ! 7 \<noteq> 0 \<or> unat (readU32 (drop 8 response)) \<noteq> length cs
      then Inl (StdRuntimeError ''bad partial decrypt batch response'')
      else sbind (take_ints (length cs) response 12) (\<lambda>(vs, off).
        if off \<noteq> length response then Inl (StdRuntimeError ''trailing partial decrypt batch data'')
        else Inr vs)))"

text \<open>The integers of a list of pairs, in order.\<close>

definition flat_pairs :: "(int \<times> int) list \<Rightarrow> int list" where
  "flat_pairs ps = concat (map (\<lambda>(a, b). [a, b]) ps)"

definition thresholdDecryptBatch :: "enclave \<Rightarrow> int list \<Rightarrow> int list \<Rightarrow> 8 word \<Rightarrow> exn + int list" where
  "thresholdDecryptBatch e cs shares mode =
     (if cs = [] \<or> length cs \<noteq> length shares \<or> length cs > max_batch_size
      then Inl (StdInvalidArgument ''invalid threshold decrypt batch size'')
      else sbind (append_ints (call_header ''STDB'' mode @ writeU32 (of_nat (length cs)))
        (flat_pairs (zip cs shares))) (\<lambda>request.
      let result = ecall_threshold_decrypt_batch e request (512 * 1024); response = r_bytes result in
      if r_status result \<noteq> OK then Inl (StdRuntimeError ''threshold decrypt batch failed'')
      else if length response < 12 \<or> take 4 response \<noteq> ascii ''STDR'' \<or> response ! 4 \<noteq> 1 \<or>
        response ! 5 \<noteq> mode \<or> response ! 6 \<noteq> 3 \<or> response ! 7 \<noteq> 0 \<or>
        unat (readU32 (drop 8 response)) \<noteq> length cs
      then Inl (StdRuntimeError ''bad threshold decrypt batch response'')
      else sbind (take_ints (length cs) response 12) (\<lambda>(vs, off).
        if off \<noteq> length response then Inl (StdRuntimeError ''trailing threshold decrypt batch data'')
        else Inr vs)))"

primrec status_code :: "ecall_status \<Rightarrow> nat" where
  "status_code OK = 0"
| "status_code INVALID = 1"
| "status_code STATE = 2"
| "status_code CRYPTO = 5"
| "status_code BUFFER = 7"

definition combineDecrypt :: "enclave \<Rightarrow> int \<Rightarrow> int \<Rightarrow> 8 word \<Rightarrow> exn + int" where
  "combineDecrypt e cp_share csp_share mode =
     sbind (append_ints (call_header ''SCMB'' mode) [cp_share, csp_share]) (\<lambda>request.
     let result = ecall_combine_decrypt e request 8192 in
     if r_status result \<noteq> OK
     then Inl (StdRuntimeError (''combine failed: sgx=0 result='' @ to_string (status_code (r_status result))))
     else parseEnclaveResponse (r_bytes result) ''SPLN'')"

section \<open>Provisioning\<close>

text \<open>The three files: the public modulus and the two sealed shares.\<close>

definition provisionThresholdKeys ::
  "sgx_sdk \<Rightarrow> (int \<Rightarrow> bool) \<Rightarrow> 8 word \<Rightarrow> 32 word \<Rightarrow> 8 word \<Rightarrow> (rng, bytes \<times> bytes \<times> bytes) eff" where
  "provisionThresholdKeys sdk is_prime build bits mode =
     bnd (of_sum (initializeEnclave build 0 mode fresh_enclave)) (\<lambda>e.
     bnd (ecall_threshold_keygen sdk is_prime build e (call_header ''SKGN'' mode @ writeU32 bits)
       (3 * 1024 * 1024)) (\<lambda>(result, e).
     let result_bytes = r_bytes result; total_size = (case r_size result of None \<Rightarrow> 0 | Some k \<Rightarrow> k) in
     if r_status result \<noteq> OK \<or> total_size < 24 \<or> take 4 result_bytes \<noteq> ascii ''STKO''
     then throw (StdRuntimeError ''threshold keygen failed'')
     else
       let public_size = unat (readU32 (drop 12 result_bytes));
           cp_size = unat (readU32 (drop 16 result_bytes));
           csp_size = unat (readU32 (drop 20 result_bytes))
       in if 24 + public_size + cp_size + csp_size \<noteq> total_size then throw (StdRuntimeError ''bad key package'')
          else ret (take public_size (drop 24 result_bytes),
                    take cp_size (drop (24 + public_size) result_bytes),
                    take csp_size (drop (24 + public_size + cp_size) result_bytes))))"

section \<open>Loading a share\<close>

lemma ascii_simps:
  "ascii [] = []" "ascii (c # s) = of_nat (of_char c) # ascii s"
  by (simp_all add: ascii_def)

lemma initializeEnclave_ok:
  assumes "mode = 1 \<or> mode = 2"
  shows "\<exists>e. initializeEnclave r r mode fresh_enclave = Inr e \<and> en_initialized e \<and> en_mode e = mode \<and> en_role e = r"
  using assms
  by (auto simp: initializeEnclave_def ecall_initialize_def fresh_enclave_def clear_key_def ascii_simps)

lemma load_share_ok:
  assumes e: "en_initialized e" "en_mode e = mode" "en_role e = r" and r: "r = 1 \<or> r = 2"
    and blob: "sdk_unseal sdk file = Some (share_blob p r bits share mu)"
      "en_n p = n" "en_mode p = mode" "length file \<le> max_input"
    and w: "wire_int n" "wire_int share" "wire_int mu" "4 \<le> mag_size n"
  shows "\<exists>e'. loadShare sdk file e = Inr e' \<and> holds_key e' mode r n share (if r = 2 then mu else 0)"
proof -
  let ?hd = "ascii ''TSHR'' @ [1, mode, r, 0] @ writeU32 (of_nat bits)"
  let ?tl = "if r = 2 then int_bytes mu else []"
  have b: "share_blob p r bits share mu = ?hd @ int_bytes n @ int_bytes share @ ?tl"
    using blob by (simp add: share_blob_def secret_blob_def export_int_bytes)
  have hd: "length ?hd = 12" by simp
  have i1: "import_at (?hd @ int_bytes n @ int_bytes share @ ?tl) 12 = Some (n, 12 + length (int_bytes n))"
    using import_at_ok [OF w(1), of ?hd "int_bytes share @ ?tl"] hd by simp
  have i2: "import_at (?hd @ int_bytes n @ int_bytes share @ ?tl) (12 + length (int_bytes n)) =
      Some (share, 12 + length (int_bytes n) + length (int_bytes share))"
    using import_at_ok [OF w(2), of "?hd @ int_bytes n" ?tl] hd by simp
  have i3: "import_at (?hd @ int_bytes n @ int_bytes share @ int_bytes mu)
      (12 + length (int_bytes n) + length (int_bytes share)) =
      Some (mu, 12 + length (int_bytes n) + length (int_bytes share) + length (int_bytes mu))"
    using import_at_ok [OF w(3), of "?hd @ int_bytes n @ int_bytes share" "[]"] hd by (simp add: add.assoc)
  have len: "24 \<le> length (?hd @ int_bytes n @ int_bytes share @ ?tl)"
    "length (?hd @ int_bytes n @ int_bytes share @ ?tl) \<le> max_input"
    using mag_size_pos [of n] mag_size_pos [of share] w hd
    by (auto simp: length_int_bytes wire_int_def max_input_def)
  have pre: "take 4 (?hd @ x) = ascii ''TSHR''" "(?hd @ x) ! 4 = 1" "(?hd @ x) ! 5 = mode" "(?hd @ x) ! 6 = r" for x
    by (simp_all add: ascii_simps)
  show ?thesis
    using e r i1 i2 i3 len pre blob(1,4) hd
    unfolding b loadShare_def ecall_load_sealed_key_def
    by (auto simp: Let_def holds_key_def install_key_def clear_key_def simp del: append_assoc)
qed

section \<open>The decryption calls on good ciphertexts\<close>

text \<open>Headers of requests and replies, and what follows them.\<close>

lemma request_fields:
  assumes "length magic = 4" "en_mode e = mode" "req = call_header magic mode @ writeU32 k @ body"
    and "length req \<le> max_input"
  shows "enclave_header e req magic" "\<not> length req < 12" "req ! 6 = 0" "req ! 7 = 0" "readU32 (drop 8 req) = k"
  using assms by (simp_all add: enclave_header_def call_header_def nth_append readU32_writeU32)

lemma reply_fields:
  assumes "length magic = 4" "en_mode e = mode" "reply = batch_header e magic r k @ body"
  shows "\<not> length reply < 12" "take 4 reply = ascii magic" "reply ! 4 = 1" "reply ! 5 = mode" "reply ! 6 = r"
    "reply ! 7 = 0" "readU32 (drop 8 reply) = of_nat k" "length (batch_header e magic r k) = 12"
  using assms by (simp_all add: batch_header_def nth_append readU32_writeU32)

lemma partialDecryptBatch_ok:
  assumes e: "holds_key e mode r n lam mu" "r = 1 \<or> r = 2" and n: "deployable n"
    and cs: "cs \<noteq> []" "length cs \<le> 32" "\<forall>c\<in>set cs. 0 < c \<and> c < n * n"
  shows "partialDecryptBatch e cs mode = Inr (map (\<lambda>c. powm c (nat lam) (n * n)) cs)"
proof -
  let ?k = "length cs" and ?us = "map (\<lambda>c. powm c (nat lam) (n * n)) cs"
  have w: "\<forall>c\<in>set cs. wire_int c" and wu: "\<forall>u\<in>set ?us. wire_int u"
    using cs(3) wire_int_below [OF n] wire_int_powm [OF n] by auto
  have k: "unat (of_nat ?k :: 32 word) = ?k" using cs(2) by (intro unat_of_nat_32) simp
  have m: "en_mode e = mode" "en_initialized e" "en_keyed e" "en_role e = r" using e by (simp_all add: holds_key_def)
  define pre where "pre = call_header ''SPDB'' mode @ writeU32 (of_nat ?k)"
  define req where "req = pre @ ints_bytes cs"
  define reply where "reply = batch_header e ''SPBR'' r ?k @ ints_bytes ?us"
  have pre: "length pre = 12" by (simp add: pre_def call_header_def)
  have size: "length req \<le> max_input"
    using length_ints_bytes [OF w] cs(2) pre by (simp add: req_def max_input_def)
  have "req = call_header ''SPDB'' mode @ writeU32 (of_nat ?k) @ ints_bytes cs" by (simp add: req_def pre_def)
  note req = request_fields [of "''SPDB''", OF _ m(1) this size]
  note reply = reply_fields [of "''SPBR''", OF _ m(1) reply_def]
  have request: "append_ints pre cs = Inr req"
    using append_ints_ok [OF w, of pre] cs(2) pre by (simp add: req_def)
  have items: "partial_items e (256 * 1024) req ?k 12 [] = (True, length req, ints_bytes ?us)"
    using partial_items_ok [OF e(1) n cs(3), of "[]" "256 * 1024" pre "[]"] cs(2) pre by (simp add: req_def)
  have call: "ecall_partial_decrypt_batch e req (256 * 1024) =
      \<lparr>r_status = OK, r_size = Some (12 + length (ints_bytes ?us)), r_bytes = reply\<rparr>"
    using req k items m e(2) cs(1,2) by (auto simp: ecall_partial_decrypt_batch_def reply_def max_batch_size_def)
  have parse: "take_ints ?k reply 12 = Inr (?us, length reply)"
    using take_ints_ok [OF wu, of "batch_header e ''SPBR'' r ?k" "[]"] reply(8) by (simp add: reply_def)
  show ?thesis
    unfolding partialDecryptBatch_def pre_def [symmetric] request sbind_simps Let_def call
    using cs reply k parse by (simp add: max_batch_size_def)
qed

lemma plain_body_pos: "z \<noteq> 0 \<Longrightarrow> plain_body z = mag z"
  by (simp add: plain_body_def)

lemma parse_int_reply:
  assumes "length magic = 4" "wire_int z" "body = plain_body z"
  shows "parseEnclaveResponse (int_reply e magic r body z) magic = Inr z"
proof -
  let ?pre = "ascii magic @ [1, en_mode e, r, 0]" and ?reply = "int_reply e magic r body z"
  have b: "?reply = ?pre @ int_bytes z"
    using assms(3) export_int_bytes [of z] by (simp add: int_reply_def export_int_def)
  have len: "length ?pre = 8" "length ?reply = 12 + mag_size z"
    using assms(1,3) by (simp_all add: int_reply_def length_plain_body)
  have t: "takeInteger ?reply 8 = Inr (z, length ?reply)"
    using takeInteger_ok [OF assms(2), of ?pre "[]"] len unfolding b by simp
  have "drop 8 ?reply = writeU32 (of_nat (mag_size z)) @ body" using assms(1) by (simp add: int_reply_def)
  then have rd: "readU32 (drop 8 ?reply) = of_nat (mag_size z)" by (simp add: readU32_writeU32)
  have small: "12 + mag_size z < 2 ^ 32" using assms(2) by (simp add: wire_int_def)
  have "12 + (of_nat (mag_size z) :: 32 word) = of_nat (12 + mag_size z)" by simp
  then have "unat (12 + (of_nat (mag_size z) :: 32 word)) = 12 + mag_size z"
    using unat_of_nat_32 [OF small] by (simp only:)
  moreover have "take 4 ?reply = ascii magic" using assms(1) by (simp add: int_reply_def)
  ultimately show ?thesis
    using len t unfolding parseEnclaveResponse_def rd by simp
qed

lemma call_fields:
  assumes "length magic = 4" "en_mode e = mode" "req = call_header magic mode @ body" "length req \<le> max_input"
  shows "enclave_header e req magic"
  using assms by (simp add: enclave_header_def call_header_def nth_append)

lemma partialDecrypt_ok:
  assumes e: "holds_key e mode r n lam mu" "r = 1 \<or> r = 2" and n: "deployable n"
    and c: "0 < c" "c < n * n" and u: "powm c (nat lam) (n * n) \<noteq> 0"
  shows "partialDecrypt e c mode = Inr (powm c (nat lam) (n * n))"
proof -
  let ?u = "powm c (nat lam) (n * n)"
  have w: "wire_int c" "wire_int ?u" using c by (auto intro: wire_int_below [OF n] wire_int_powm [OF n])
  have m: "en_mode e = mode" "en_initialized e" "en_keyed e" "en_role e = r" "en_nsq e = n * n" "en_lambda e = lam"
    using e by (simp_all add: holds_key_def)
  define req where "req = call_header ''SPDC'' mode @ int_bytes c"
  have pre: "length (call_header ''SPDC'' mode) = 8" by (simp add: call_header_def)
  have len: "12 \<le> length req" "length req \<le> max_input"
    using w(1) pre mag_size_pos [of c] by (simp_all add: req_def length_int_bytes max_input_def wire_int_def)
  have hd: "enclave_header e req ''SPDC''" by (rule call_fields [OF _ m(1) req_def len(2)]) simp
  have request: "appendInteger (call_header ''SPDC'' mode) c = Inr req"
    using appendInteger_ok [OF w(1), of "call_header ''SPDC'' mode"] pre by (simp add: req_def)
  have i: "import_at req 8 = Some (c, length req)"
    using import_at_ok [OF w(1), of "call_header ''SPDC'' mode" "[]"] pre by (simp add: req_def)
  have call: "ecall_partial_decrypt e req 16384 = \<lparr>r_status = OK, r_size = Some (12 + mag_size ?u),
      r_bytes = int_reply e ''SPAR'' r (mag ?u) ?u\<rparr>"
    using hd len i m e(2) c u w(2)
    by (auto simp: ecall_partial_decrypt_def int_result_def in_range_cipher_def export_size_eq wire_int_def)
  show ?thesis
    unfolding partialDecrypt_def request sbind_simps Let_def call
    using parse_int_reply [OF _ w(2) plain_body_pos [OF u, symmetric]] by simp
qed

lemma combineDecrypt_ok:
  assumes e: "holds_key e mode 2 n lam2 mu" and n: "deployable n"
    and w: "wire_int u1" "wire_int u2" and v: "combine_shares e u1 u2 = Some v" "wire_int v"
  shows "combineDecrypt e u1 u2 mode = Inr v"
proof -
  have m: "en_mode e = mode" "en_initialized e" "en_keyed e" "en_role e = 2" using e by (simp_all add: holds_key_def)
  define req where "req = call_header ''SCMB'' mode @ ints_bytes [u1, u2]"
  have pre: "length (call_header ''SCMB'' mode) = 8" by (simp add: call_header_def)
  have len: "16 \<le> length req" "length req \<le> max_input"
    using w pre by (simp_all add: req_def length_int_bytes max_input_def wire_int_def)
  have hd: "enclave_header e req ''SCMB''" by (rule call_fields [OF _ m(1) req_def len(2)]) simp
  have request: "append_ints (call_header ''SCMB'' mode) [u1, u2] = Inr req"
    using append_ints_ok [of "[u1, u2]" "call_header ''SCMB'' mode"] w pre by (simp add: req_def)
  have i: "import_at req 8 = Some (u1, 8 + length (int_bytes u1))"
    "import_at req (8 + length (int_bytes u1)) = Some (u2, length req)"
    using import_at_ok [OF w(1), of "call_header ''SCMB'' mode" "int_bytes u2"]
      import_at_ok [OF w(2), of "call_header ''SCMB'' mode @ int_bytes u1" "[]"] pre
    by (simp_all add: req_def)
  have call: "ecall_combine_decrypt e req 8192 = \<lparr>r_status = OK, r_size = Some (12 + mag_size v),
      r_bytes = int_reply e ''SPLN'' 3 (plain_body v) v\<rparr>"
    using hd len i m v
    by (auto simp: ecall_combine_decrypt_def int_result_def length_plain_body wire_int_def)
  show ?thesis
    unfolding combineDecrypt_def request sbind_simps Let_def call
    using parse_int_reply [OF _ v(2)] by simp
qed

lemma flat_pairs_simps [simp]: "flat_pairs [] = []" "flat_pairs (p # ps) = fst p # snd p # flat_pairs ps"
  by (simp_all add: flat_pairs_def case_prod_beta)

lemma length_flat_pairs [simp]: "length (flat_pairs ps) = 2 * length ps"
  by (induction ps) simp_all

lemma set_flat_pairs: "set (flat_pairs ps) = fst ` set ps \<union> snd ` set ps"
  by (induction ps) auto

lemma import_pairs_ok:
  assumes e: "holds_key e mode r n lam mu" and n: "deployable n"
  shows "\<forall>p\<in>set ps. 0 < fst p \<and> fst p < n * n \<and> 0 < snd p \<and> snd p < n * n \<Longrightarrow>
    import_pairs e (pre @ ints_bytes (flat_pairs ps) @ rest) (length ps) (length pre) =
      Some (ps, length pre + length (ints_bytes (flat_pairs ps)))"
proof (induction ps arbitrary: pre)
  case (Cons p ps)
  obtain c u where p: "p = (c, u)" by (cases p)
  have c: "wire_int c" "in_range_cipher e c" and u: "wire_int u" "in_range_cipher e u"
    using Cons.prems e p by (auto intro: wire_int_below [OF n] simp: in_range_cipher_def holds_key_def)
  have "import_pairs e ((pre @ int_bytes c @ int_bytes u) @ ints_bytes (flat_pairs ps) @ rest) (length ps)
      (length (pre @ int_bytes c @ int_bytes u)) =
      Some (ps, length (pre @ int_bytes c @ int_bytes u) + length (ints_bytes (flat_pairs ps)))"
    using Cons.prems by (intro Cons.IH) simp
  then show ?case
    using import_at_ok [OF c(1), of pre "int_bytes u @ ints_bytes (flat_pairs ps) @ rest"]
      import_at_ok [OF u(1), of "pre @ int_bytes c" "ints_bytes (flat_pairs ps) @ rest"] c(2) u(2)
    by (simp add: p add.assoc)
qed simp

lemma threshold_items_ok:
  assumes "list_all2 (\<lambda>p m. combine_shares e (snd p) (powm (fst p) (nat (en_lambda e)) (en_nsq e)) = Some m \<and>
      wire_int m) ps ms"
  shows "12 + length acc + 2052 * length ps \<le> cap \<Longrightarrow> threshold_items e cap ps acc = Some (acc @ ints_bytes ms)"
  using assms
proof (induction ps ms arbitrary: acc rule: list_all2_induct)
  case (Cons p ps m ms)
  have "length (int_bytes m) \<le> 2052" "mag_size m \<le> 2048"
    using Cons by (simp_all add: length_int_bytes wire_int_def)
  then have "export_at cap 12 acc m = Some (acc @ int_bytes m)"
    using Cons.prems by (intro export_at_ok) simp
  moreover have "threshold_items e cap ps (acc @ int_bytes m) = Some ((acc @ int_bytes m) @ ints_bytes ms)"
    using Cons.prems \<open>length (int_bytes m) \<le> 2052\<close> by (intro Cons.IH) simp
  ultimately show ?case using Cons by simp
qed simp

lemma thresholdDecryptBatch_ok:
  assumes e: "holds_key e mode 2 n lam mu" and n: "deployable n"
    and cs: "cs \<noteq> []" "length cs \<le> 32" "length shares = length cs"
    and range: "\<forall>c\<in>set cs \<union> set shares. 0 < c \<and> c < n * n"
    and ms: "list_all2 (\<lambda>p m. combine_shares e (snd p) (powm (fst p) (nat lam) (n * n)) = Some m \<and> wire_int m)
      (zip cs shares) ms"
  shows "thresholdDecryptBatch e cs shares mode = Inr ms"
proof -
  let ?k = "length cs" and ?ps = "zip cs shares"
  have ps: "length ?ps = ?k" "length ms = ?k" "\<forall>p\<in>set ?ps. 0 < fst p \<and> fst p < n * n \<and> 0 < snd p \<and> snd p < n * n"
    using cs(3) range ms by (auto dest: set_zip_leftD set_zip_rightD list_all2_lengthD)
  have w: "\<forall>v\<in>set (flat_pairs ?ps). wire_int v"
    using ps(3) wire_int_below [OF n] by (force simp: set_flat_pairs)
  have wm: "\<forall>m\<in>set ms. wire_int m"
    using ms ps(1,2) cs(3) by (auto simp: list_all2_conv_all_nth in_set_conv_nth)
  have k: "unat (of_nat ?k :: 32 word) = ?k" using cs(2) by (intro unat_of_nat_32) simp
  have m: "en_mode e = mode" "en_initialized e" "en_keyed e" "en_role e = 2" "en_nsq e = n * n" "en_lambda e = lam"
    using e by (simp_all add: holds_key_def)
  define pre where "pre = call_header ''STDB'' mode @ writeU32 (of_nat ?k)"
  define req where "req = pre @ ints_bytes (flat_pairs ?ps)"
  define reply where "reply = batch_header e ''STDR'' 3 ?k @ ints_bytes ms"
  have pre: "length pre = 12" by (simp add: pre_def call_header_def)
  have size: "length req \<le> max_input"
    using length_ints_bytes [OF w] cs(2) ps(1) pre by (simp add: req_def max_input_def)
  have "req = call_header ''STDB'' mode @ writeU32 (of_nat ?k) @ ints_bytes (flat_pairs ?ps)"
    by (simp add: req_def pre_def)
  note req = request_fields [of "''STDB''", OF _ m(1) this size]
  note reply = reply_fields [of "''STDR''", OF _ m(1) reply_def]
  have request: "append_ints pre (flat_pairs ?ps) = Inr req"
    using append_ints_ok [OF w, of pre] cs(2) ps(1) pre by (simp add: req_def)
  have pairs: "import_pairs e req ?k 12 = Some (?ps, length req)"
    using import_pairs_ok [OF e n ps(3), of pre "[]"] pre ps(1) by (simp add: req_def)
  have items: "threshold_items e (512 * 1024) ?ps [] = Some (ints_bytes ms)"
    using threshold_items_ok [of e ?ps ms "[]" "512 * 1024"] ms m cs(2) ps(1) by simp
  have call: "ecall_threshold_decrypt_batch e req (512 * 1024) =
      \<lparr>r_status = OK, r_size = Some (12 + length (ints_bytes ms)), r_bytes = reply\<rparr>"
    using req k pairs items m cs(1,2) by (auto simp: ecall_threshold_decrypt_batch_def reply_def max_batch_size_def)
  have parse: "take_ints ?k reply 12 = Inr (ms, length reply)"
    using take_ints_ok [OF wm, of "batch_header e ''STDR'' 3 ?k" "[]"] reply(8) ps(2) by (simp add: reply_def)
  show ?thesis
    unfolding thresholdDecryptBatch_def pre_def [symmetric] request sbind_simps Let_def call
    using cs reply k parse by (simp add: max_batch_size_def)
qed

section \<open>Two shares decrypt\<close>

text \<open>A key whose exponent is split between the client's and the server's enclave.\<close>

definition key_shares :: "8 word \<Rightarrow> int \<Rightarrow> int \<Rightarrow> enclave \<Rightarrow> enclave \<Rightarrow> bool" where
  "key_shares mode n mu cp csp \<longleftrightarrow> deployable n \<and> (\<exists>lam1 lam2. 0 \<le> lam1 \<and> 0 \<le> lam2 \<and>
     good_modulus n (lam1 + lam2) \<and> (lam1 + lam2) * mu mod n = 1 \<and>
     holds_key cp mode 1 n lam1 0 \<and> holds_key csp mode 2 n lam2 mu)"

text \<open>What the two batch calls of a round give: the client's shares, and the server's plaintexts.\<close>

lemma share_positive:
  assumes "1 < n" "coprime c (n * n)"
  shows "0 < powm c k (n * n)" "powm c k (n * n) < n * n"
proof -
  have nn: "1 < n * n" using assms(1) by (simp add: less_1_mult)
  have "coprime (c ^ k) (n * n)" using assms(2) by (rule coprime_power_left_iff [THEN iffD2, OF disjI1])
  then have "coprime (c ^ k mod (n * n)) (n * n)" using nn assms(1) by (subst coprime_mod_left_iff) simp_all
  then have "c ^ k mod (n * n) \<noteq> 0" using assms(1) by auto
  moreover have "0 \<le> c ^ k mod (n * n)" using nn by simp
  ultimately show "0 < powm c k (n * n)" by (simp add: powm_def)
  show "powm c k (n * n) < n * n" using nn by (simp add: powm_def)
qed

lemma shares_batch:
  assumes k: "key_shares mode n mu cp csp" and cs: "cs \<noteq> []" "length cs \<le> 32"
    and ms: "list_all2 (is_cipher n) cs ms"
  shows "\<exists>us. partialDecryptBatch cp cs mode = Inr us \<and> length us = length cs \<and>
    (\<forall>u\<in>set us. wire_int u) \<and> thresholdDecryptBatch csp cs us mode = Inr (map (\<lambda>m. m mod n) ms)"
proof -
  obtain lam1 lam2 where n: "deployable n" and l: "0 \<le> lam1" "0 \<le> lam2" and gm: "good_modulus n (lam1 + lam2)"
    and mu: "(lam1 + lam2) * mu mod n = 1" and cp: "holds_key cp mode 1 n lam1 0"
    and csp: "holds_key csp mode 2 n lam2 mu" using k by (auto simp: key_shares_def)
  have n1: "1 < n" using n by (simp add: deployable_def)
  have c: "0 < c \<and> c < n * n \<and> coprime c (n * n)" if "c \<in> set cs" for c
    using ms that is_cipher_coprime [OF n1] by (fastforce simp: list_all2_conv_all_nth in_set_conv_nth)
  let ?us = "map (\<lambda>c. powm c (nat lam1) (n * n)) cs"
  have part: "partialDecryptBatch cp cs mode = Inr ?us"
    using c by (intro partialDecryptBatch_ok [OF cp _ n cs]) auto
  have range: "\<forall>c\<in>set cs \<union> set ?us. 0 < c \<and> c < n * n" using c share_positive [OF n1] by auto
  have "list_all2 (\<lambda>p m. combine_shares csp (snd p) (powm (fst p) (nat lam2) (n * n)) = Some m \<and> wire_int m)
      (zip cs ?us) (map (\<lambda>m. m mod n) ms)"
    using ms combine_ok [OF csp gm mu l refl] wire_int_mod [OF n]
    by (auto simp: list_all2_conv_all_nth)
  then have "thresholdDecryptBatch csp cs ?us mode = Inr (map (\<lambda>m. m mod n) ms)"
    using range by (intro thresholdDecryptBatch_ok [OF csp n cs]) simp_all
  with part wire_int_powm [OF n] show ?thesis by (intro exI [of _ ?us]) simp
qed

lemma shares_single:
  assumes k: "key_shares mode n mu cp csp" and c: "is_cipher n c m"
  shows "\<exists>u1 u2. partialDecrypt cp c mode = Inr u1 \<and> partialDecrypt csp c mode = Inr u2 \<and>
    wire_int u1 \<and> combineDecrypt csp u1 u2 mode = Inr (m mod n)"
proof -
  obtain lam1 lam2 where n: "deployable n" and l: "0 \<le> lam1" "0 \<le> lam2" and gm: "good_modulus n (lam1 + lam2)"
    and mu: "(lam1 + lam2) * mu mod n = 1" and cp: "holds_key cp mode 1 n lam1 0"
    and csp: "holds_key csp mode 2 n lam2 mu" using k by (auto simp: key_shares_def)
  have n1: "1 < n" using n by (simp add: deployable_def)
  note cc = is_cipher_coprime [OF n1 c]
  let ?u1 = "powm c (nat lam1) (n * n)" and ?u2 = "powm c (nat lam2) (n * n)"
  have u: "?u1 \<noteq> 0" "?u2 \<noteq> 0" using share_positive(1) [OF n1 cc(1)] by (metis less_irrefl)+
  have "partialDecrypt cp c mode = Inr ?u1" "partialDecrypt csp c mode = Inr ?u2"
    using u cc by (auto intro!: partialDecrypt_ok [OF cp _ n] partialDecrypt_ok [OF csp _ n])
  moreover have "combineDecrypt csp ?u1 ?u2 mode = Inr (m mod n)"
    using wire_int_powm [OF n] wire_int_mod [OF n]
    by (intro combineDecrypt_ok [OF csp n] combine_ok [OF csp gm mu l refl c])
  ultimately show ?thesis using wire_int_powm [OF n] by blast
qed

text \<open>C25: The two sealed shares of a key decrypt together. Loaded into a client and a server enclave of the
  same mode, they give the plaintext (modulo n) of every ciphertext of a batch: the client's enclave
  answers the batch of partial decryptions, and the server's enclave combines them with its own.
  Sealing has only to be undone by unsealing.\<close>

theorem sealed_shares_decrypt:
  assumes mode: "mode = 1 \<or> mode = 2" and n: "deployable n" "good_modulus n lam" "lam * mu mod n = 1" "wire_int mu"
    and share: "0 \<le> lam1" "lam1 \<le> lam" "wire_int lam" and p: "en_n p = n" "en_mode p = mode"
    and sdk: "\<And>x. sdk_unseal sdk (sdk_seal sdk x) = Some x"
      "length (sdk_seal sdk (share_blob p 1 bits lam1 mu)) \<le> max_input"
      "length (sdk_seal sdk (share_blob p 2 bits (lam - lam1) mu)) \<le> max_input"
    and cs: "cs \<noteq> []" "length cs \<le> 32" "list_all2 (is_cipher n) cs ms"
  shows "\<exists>cp csp shares.
    sbind (initializeEnclave 1 1 mode fresh_enclave) (loadShare sdk (sdk_seal sdk (share_blob p 1 bits lam1 mu))) = Inr cp \<and>
    sbind (initializeEnclave 2 2 mode fresh_enclave) (loadShare sdk (sdk_seal sdk (share_blob p 2 bits (lam - lam1) mu))) = Inr csp \<and>
    partialDecryptBatch cp cs mode = Inr shares \<and>
    thresholdDecryptBatch csp cs shares mode = Inr (map (\<lambda>m. m mod n) ms)"
proof -
  have w: "wire_int n" "4 \<le> mag_size n" using n(1) by (auto intro: wire_int_below [OF n(1)] simp: deployable_def)
  have small: "mag_size x \<le> 2048" if "0 \<le> x" "x \<le> lam" for x
    using that share(3) mag_size_mono [of x lam] by (cases "x = lam") (auto simp: wire_int_def)
  then have ws: "wire_int lam1" "wire_int (lam - lam1)" using share by (simp_all add: wire_int_def)
  obtain e1 where e1: "initializeEnclave 1 1 mode fresh_enclave = Inr e1" "en_initialized e1" "en_mode e1 = mode" "en_role e1 = 1"
    using initializeEnclave_ok [OF mode, of 1] by blast
  obtain e2 where e2: "initializeEnclave 2 2 mode fresh_enclave = Inr e2" "en_initialized e2" "en_mode e2 = mode" "en_role e2 = 2"
    using initializeEnclave_ok [OF mode, of 2] by blast
  obtain cp where cp: "loadShare sdk (sdk_seal sdk (share_blob p 1 bits lam1 mu)) e1 = Inr cp" "holds_key cp mode 1 n lam1 0"
    using load_share_ok [OF e1(2-4) _ sdk(1) p sdk(2) w(1) ws(1) n(4) w(2)] by auto
  obtain csp where csp: "loadShare sdk (sdk_seal sdk (share_blob p 2 bits (lam - lam1) mu)) e2 = Inr csp"
    "holds_key csp mode 2 n (lam - lam1) mu"
    using load_share_ok [OF e2(2-4) _ sdk(1) p sdk(3) w(1) ws(2) n(4) w(2)] by auto
  have "key_shares mode n mu cp csp"
    unfolding key_shares_def using n share cp csp by (intro conjI exI [of _ lam1] exI [of _ "lam - lam1"]) simp_all
  from shares_batch [OF this cs] e1 e2 cp csp show ?thesis by auto
qed

text \<open>Sealing that keeps the bytes, and the sample key split.\<close>

definition sample_sdk :: sgx_sdk where
  "sample_sdk = \<lparr>sdk_seal = (\<lambda>x. x), sdk_unseal = Some, sdk_sealed_size = (\<lambda>k. k)\<rparr>"

definition sample_enclave :: "8 word \<Rightarrow> int \<Rightarrow> int \<Rightarrow> enclave" where
  "sample_enclave r lam mu = \<lparr>en_initialized = True, en_keyed = True, en_ready = True, en_mode = 1, en_role = r,
     en_n = sample_n, en_nsq = sample_n * sample_n, en_lambda = lam, en_mu = mu\<rparr>"

lemma sample_deployable: "deployable sample_n"
proof -
  have "mag_size (sample_n * sample_n) \<le> 1000"
    by (rule mag_size_bound) (simp_all add: sample_n_def)
  moreover have "mag_size 16777216 \<le> mag_size sample_n" by (rule mag_size_mono) (simp_all add: sample_n_def)
  moreover have "mag_size 16777216 = 4"
    by (simp add: mag_size_def sizeinbase2_def bit_size_nat.simps [of "numeral k" for k] bit_size_nat.simps [of "Suc 0"]
        bit_size_nat.simps [of 0])
  ultimately show ?thesis by (simp add: deployable_def) (simp add: sample_n_def)
qed

lemma sample_secrets:
  "good_modulus sample_n (sk_lambda (k_sec sample_key))"
  "sk_lambda (k_sec sample_key) * sk_mu (k_sec sample_key) mod sample_n = 1"
  "wire_int (sk_lambda (k_sec sample_key))" "wire_int (sk_mu (k_sec sample_key))"
proof -
  show "good_modulus sample_n (sk_lambda (k_sec sample_key))"
    "sk_lambda (k_sec sample_key) * sk_mu (k_sec sample_key) mod sample_n = 1"
    using sample_good by (simp_all add: good_key_def)
  have "0 \<le> sk_lambda (k_sec sample_key)" "sk_lambda (k_sec sample_key) < sample_n * sample_n"
    "0 \<le> sk_mu (k_sec sample_key)" "sk_mu (k_sec sample_key) < sample_n * sample_n"
    by (simp_all add: sample_key_def sample_n_def)
  then show "wire_int (sk_lambda (k_sec sample_key))" "wire_int (sk_mu (k_sec sample_key))"
    by (simp_all add: wire_int_below [OF sample_deployable])
qed

definition sample_share :: "8 word \<Rightarrow> bytes" where
  "sample_share r = sdk_seal sample_sdk (share_blob (sample_enclave 0 0 0) r 3072
     (if r = 1 then 12345 else sk_lambda (k_sec sample_key) - 12345) (sk_mu (k_sec sample_key)))"

lemma sample_share_length: "length (sample_share r) \<le> max_input"
proof -
  have len: "length (share_blob (sample_enclave 0 0 0) r 3072 v (sk_mu (k_sec sample_key))) \<le> max_input"
    if "wire_int v" for v
    using that sample_secrets(4) wire_int_below [OF sample_deployable, of sample_n] sample_deployable
    by (simp add: share_blob_def secret_blob_def export_int_bytes length_int_bytes sample_enclave_def
        wire_int_def max_input_def deployable_def)
  have "wire_int (if r = 1 then 12345 else sk_lambda (k_sec sample_key) - 12345)"
    by (rule wire_int_below [OF sample_deployable]) (simp_all add: sample_n_def sample_key_def)
  from len [OF this] show ?thesis by (simp add: sample_share_def sample_sdk_def)
qed

theorem sealed_shares_decrypt_witness:
  "\<exists>cp csp shares.
    sbind (initializeEnclave 1 1 1 fresh_enclave) (loadShare sample_sdk (sdk_seal sample_sdk
      (share_blob (sample_enclave 0 0 0) 1 3072 12345 (sk_mu (k_sec sample_key))))) = Inr cp \<and>
    sbind (initializeEnclave 2 2 1 fresh_enclave) (loadShare sample_sdk (sdk_seal sample_sdk
      (share_blob (sample_enclave 0 0 0) 2 3072 (sk_lambda (k_sec sample_key) - 12345) (sk_mu (k_sec sample_key))))) = Inr csp \<and>
    partialDecryptBatch cp [sample_cipher 7, sample_cipher (- 3)] 1 = Inr shares \<and>
    thresholdDecryptBatch csp [sample_cipher 7, sample_cipher (- 3)] shares 1 =
      Inr (map (\<lambda>m. m mod sample_n) [7, - 3])"
proof (rule sealed_shares_decrypt [OF _ sample_deployable sample_secrets(1,2,4) _ _ sample_secrets(3)])
  show "length (sdk_seal sample_sdk (share_blob (sample_enclave 0 0 0) 1 3072 12345 (sk_mu (k_sec sample_key)))) \<le> max_input"
    using sample_share_length [of 1] by (simp only: sample_share_def if_True simp_thms)
  show "length (sdk_seal sample_sdk (share_blob (sample_enclave 0 0 0) 2 3072 (sk_lambda (k_sec sample_key) - 12345)
      (sk_mu (k_sec sample_key)))) \<le> max_input"
    using sample_share_length [of 2] by (simp add: sample_share_def)
qed (simp_all add: sample_sdk_def sample_enclave_def sample_cipher, simp add: sample_key_def)

section \<open>Sizes for which no key is found\<close>

lemma repeat_until_never:
  assumes "\<And>s. \<exists>a s'. m s = Some (Inr a, s') \<and> \<not> P a"
  shows "repeat_until m P s = None"
proof -
  have "case ((m, P), s) of ((m, P), s) \<Rightarrow> (\<forall>s. \<exists>a s'. m s = Some (Inr a, s') \<and> \<not> P a) \<longrightarrow> False"
    if "repeat_until m P s = Some y" for y
  proof (rule repeat_until.raw_induct [OF _ that, where Pa = "\<lambda>c y. case c of ((m, P), s) \<Rightarrow>
      (\<forall>s. \<exists>a s'. m s = Some (Inr a, s') \<and> \<not> P a) \<longrightarrow> False"])
    fix rec m P s y
    assume rec: "\<And>P s b y. rec P s b = Some y \<Longrightarrow>
        case ((P, s), b) of ((m, P), s) \<Rightarrow> (\<forall>s. \<exists>a s'. m s = Some (Inr a, s') \<and> \<not> P a) \<longrightarrow> False"
      and eq: "(case m s of None \<Rightarrow> None | Some (Inl e, s') \<Rightarrow> Some (Inl e, s')
        | Some (Inr a, s') \<Rightarrow> if P a then Some (Inr a, s') else rec m P s') = Some y"
    show "case ((m, P), s) of ((m, P), s) \<Rightarrow> (\<forall>s. \<exists>a s'. m s = Some (Inr a, s') \<and> \<not> P a) \<longrightarrow> False"
    proof (unfold prod.case, rule impI)
      assume never: "\<forall>s. \<exists>a s'. m s = Some (Inr a, s') \<and> \<not> P a"
      then obtain a s' where "m s = Some (Inr a, s')" "\<not> P a" by blast
      with eq have "rec m P s' = Some y" by simp
      from rec [OF this, unfolded prod.case] never show False by (rule mp)
    qed
  qed
  then have "repeat_until m P s \<noteq> Some y" for y using assms by (unfold prod.case) metis
  then show ?thesis by (cases "repeat_until m P s") auto
qed

text \<open>A candidate has a multiple of eight bits.\<close>

lemma random_odd_size:
  assumes "random_odd bits g = Some (Inr p, g')" "0 < bits" "\<not> 8 dvd bits"
  shows "bits < sizeinbase2 p"
proof (rule ccontr)
  let ?b = "(bits + 7) div 8"
  obtain raw where p: "p = (raw mod 2 ^ (8 * ?b)) OR 2 ^ (8 * ?b - 1) OR 1"
    using assms(1) by (auto simp: random_odd_def draw_def Let_def)
  have "2 ^ (8 * ?b - 1) \<le> ((2::int) ^ (8 * ?b - 1) OR 1)" by (rule or_greater_eq) simp
  also have "\<dots> \<le> p"
    unfolding p using or_greater_eq [of "raw mod 2 ^ (8 * ?b)" "2 ^ (8 * ?b - 1) OR 1"] by (simp add: or.commute)
  finally have lo: "2 ^ (8 * ?b - 1) \<le> p" .
  assume "\<not> bits < sizeinbase2 p"
  then have "\<bar>p\<bar> < 2 ^ bits"
    using sizeinbase2_bound [of p] by (meson not_less order_less_le_trans power_increasing one_le_numeral)
  moreover have "bits \<le> 8 * ?b - 1" using assms(2,3) by presburger
  then have "(2::int) ^ bits \<le> 2 ^ (8 * ?b - 1)" by (intro power_increasing) simp_all
  ultimately show False using lo by linarith
qed

text \<open>C36: Key generation accepts every even size from 3072 to 8192 bits, but for a size that is not a
  multiple of 16 it never returns, whatever the random bytes: the prime candidates are drawn in
  whole bytes with the top bit set, so they never have half of that size in bits.\<close>

theorem threshold_keygen_diverges:
  assumes "en_initialized e" "enclave_header e input ''SKGN''" "length input = 12"
    and "3072 \<le> keygen_bits input" "keygen_bits input \<le> 8192" "even (keygen_bits input)"
    and "\<not> 16 dvd keygen_bits input"
  shows "ecall_threshold_keygen sdk is_prime 0 e input cap g = None"
proof -
  let ?h = "keygen_bits input div 2"
  have h: "0 < ?h" "\<not> 8 dvd ?h" using assms(4,6,7) by presburger+
  have "repeat_until (bnd (random_odd ?h) (\<lambda>p. ret (prime_scan is_prime ?h p))) (\<lambda>r. r \<noteq> None) g = None"
  proof (rule repeat_until_never)
    fix g :: rng
    obtain p g' where r: "random_odd ?h g = Some (Inr p, g')" by (auto simp: random_odd_def draw_def Let_def)
    have "prime_scan is_prime ?h p = None" using random_odd_size [OF r h] by (simp add: prime_scan.simps)
    with r show "\<exists>a s'. bnd (random_odd ?h) (\<lambda>p. ret (prime_scan is_prime ?h p)) g = Some (Inr a, s') \<and> \<not> a \<noteq> None"
      by (simp add: bnd_def ret_def)
  qed
  then have "gen_secrets is_prime (keygen_bits input) g = None"
    by (simp add: gen_secrets_def enclave_prime_def bnd_def)
  then show ?thesis using assms by (simp add: ecall_threshold_keygen_def Let_def bnd_def)
qed

theorem threshold_keygen_diverges_witness:
  "ecall_threshold_keygen sample_sdk (\<lambda>p. True) 0 (sample_enclave 0 0 0)
     (call_header ''SKGN'' 1 @ writeU32 3074) (3 * 1024 * 1024) \<lparr>src = (\<lambda>t i. 0), pos = (\<lambda>_. 0)\<rparr> = None"
proof (rule threshold_keygen_diverges)
  have "keygen_bits (call_header ''SKGN'' 1 @ writeU32 3074) = 3074"
    by (simp add: keygen_bits_def call_header_def readU32_writeU32 [of _ "[]", simplified])
  then show "3072 \<le> keygen_bits (call_header ''SKGN'' 1 @ writeU32 3074)"
    "keygen_bits (call_header ''SKGN'' 1 @ writeU32 3074) \<le> 8192"
    "even (keygen_bits (call_header ''SKGN'' 1 @ writeU32 3074))"
    "\<not> 16 dvd keygen_bits (call_header ''SKGN'' 1 @ writeU32 3074)" by simp_all
qed (simp_all add: sample_enclave_def enclave_header_def call_header_def max_input_def nth_append)

end
