(* ===== verification/CspService.thy ===== *)
theory CspService
  imports Garbled HostCalls OffRuntime
begin

text \<open>
  The server of the threshold protocol (src/protocol/threshold_protocol.cpp, \<open>runThresholdCsp\<close>).
  One definition per request of its loop, on the bytes of the frame, and the loop over connections
  as a step relation: an exception in a handler drops the pending predicate and the connection, and
  the set of used replay keys outlives it. The handlers run on the server's state; the enclave, the
  modulus, the mode and the hash are those the server was started with. The clock is a parameter of
  the state: \<open>elapsedNs\<close> returns its next reading.

  The properties are about what a hostile or broken client can get out of the loop: a session and
  operation is answered at most once by the fused predicate.
\<close>

text \<open>The byte of an operation.\<close>

abbreviation op :: "char \<Rightarrow> 8 word" where
  "op c \<equiv> of_char c"

section \<open>Oblivious transfer\<close>

definition otPad :: "(bytes \<Rightarrow> bytes) \<Rightarrow> int \<Rightarrow> nat \<Rightarrow> label" where
  "otPad sha key index =
     sha (mag key @ replicate (mag_size key - length (mag key)) 0 @ writeU32 (of_nat index))"

definition randomBelowNonzero :: "site \<Rightarrow> int \<Rightarrow> (rng, int) eff" where
  "randomBelowNonzero t limit = repeat_until (randomBelow t limit) (\<lambda>x. x \<noteq> 0)"

definition rsa_f4 :: int where
  "rsa_f4 = 65537"

section \<open>The state of the server\<close>

record csp_timings =
  request_ns :: "64 word"
  threshold_decrypt_ns :: "64 word"
  encrypt_ns :: "64 word"
  parse_serialize_ns :: "64 word"
  socket_send_ns :: "64 word"
  fused_rsa_public_powm_ns :: "64 word"
  fused_circuit_evaluate_ns :: "64 word"

record pending_fused =
  pf_session :: string
  pf_operation :: string
  pf_node :: string
  pf_type :: predicate_type
  pf_incumbent :: bool
  pf_depth :: "32 word"
  pf_choices :: "bool list"
  pf_keys :: "int list"
  pf_circuit :: boolean_circuit

record csp =
  csp_rng :: rng
  csp_times :: csp_timings
  csp_pending :: "pending_fused option"
  csp_replays :: "string set"
  csp_clock :: "nat \<Rightarrow> 64 word"
  csp_reads :: nat

record csp_service =
  sv_enclave :: enclave
  sv_modulus :: int
  sv_mode :: "8 word"
  sv_sha :: "bytes \<Rightarrow> bytes"

definition elapsedNs :: "(csp, 64 word) eff" where
  "elapsedNs = (\<lambda>s. Some (Inr (csp_clock s (csp_reads s)), s\<lparr>csp_reads := Suc (csp_reads s)\<rparr>))"

definition add_time :: "((64 word \<Rightarrow> 64 word) \<Rightarrow> csp_timings \<Rightarrow> csp_timings) \<Rightarrow> (csp, unit) eff" where
  "add_time field = bnd elapsedNs (\<lambda>t. upd_st (\<lambda>s. s\<lparr>csp_times := field (\<lambda>x. x + t) (csp_times s)\<rparr>))"

definition on_csp_rng :: "(rng, 'a) eff \<Rightarrow> (csp, 'a) eff" where
  "on_csp_rng m = zoom csp_rng csp_rng_update m"

text \<open>What a handler sends, and whether it ends the server.\<close>

datatype csp_reply = Reply bytes | Stop bytes

section \<open>Fused predicate, first round\<close>

primrec predicate_code :: "predicate_type \<Rightarrow> 8 word" where
  "predicate_code PruneNode = 1"
| "predicate_code AcceptCandidate = 2"

definition decode_predicate :: "8 word \<Rightarrow> predicate_type" where
  "decode_predicate b = (if b = 1 then PruneNode else AcceptCandidate)"

definition bad_predicate_code :: "8 word \<Rightarrow> bool" where
  "bad_predicate_code b \<longleftrightarrow> b < 1 \<or> b > 2"

text \<open>The ciphertext, the share and the two nonces of each comparison.\<close>

primrec take_ot_items :: "nat \<Rightarrow> int \<Rightarrow> bytes \<Rightarrow> nat \<Rightarrow> exn + (int \<times> int \<times> int \<times> int) list \<times> nat" where
  "take_ot_items 0 rsa_n request off = Inr ([], off)"
| "take_ot_items (Suc k) rsa_n request off =
     sbind (takeInteger request off) (\<lambda>(c, off).
     sbind (takeInteger request off) (\<lambda>(u, off).
     sbind (takeInteger request off) (\<lambda>(x0, off).
     sbind (takeInteger request off) (\<lambda>(x1, off).
     if x0 \<le> 0 \<or> x0 \<ge> rsa_n \<or> x1 \<le> 0 \<or> x1 \<ge> rsa_n then Inl (StdRuntimeError ''bad fused OT nonce'')
     else sbind (take_ot_items k rsa_n request off) (\<lambda>(items, off). Inr ((c, u, x0, x1) # items, off))))))"

definition fused_replay_key :: "string \<Rightarrow> string \<Rightarrow> string" where
  "fused_replay_key session operation = session @ char_of (0::nat) # operation"

text \<open>One round of the loop that answers the transfers.\<close>

definition ot_answer ::
  "csp_service \<Rightarrow> int \<Rightarrow> int \<Rightarrow> (int \<times> int \<times> int \<times> int) \<times> int \<Rightarrow> bool list \<times> int list \<times> bytes \<Rightarrow>
     (csp, bool list \<times> int list \<times> bytes) eff" where
  "ot_answer sv rsa_n rsa_e item acc =
     (let ((c, u, x0, x1), plain) = item; (choices, keys, response) = acc;
          choice = plain \<le> sv_modulus sv div 2
      in bnd (on_csp_rng (randomBelowNonzero SOtKey rsa_n)) (\<lambda>k.
         let v = ((if choice then x1 else x0) + powm k (nat rsa_e) rsa_n) mod rsa_n in
         bnd (of_sum (appendInteger response v)) (\<lambda>response.
         ret (choices @ [choice], keys @ [k], response))))"

text \<open>The three identifiers after the header.\<close>

definition take_context :: "bytes \<Rightarrow> exn + string \<times> string \<times> string \<times> nat" where
  "take_context request =
     sbind (takeContextString request 8) (\<lambda>(session, off).
     sbind (takeContextString request off) (\<lambda>(operation, off).
     sbind (takeContextString request off) (\<lambda>(node, off). Inr (session, operation, node, off))))"

record fused_start =
  fs_session :: string
  fs_operation :: string
  fs_node :: string
  fs_rsa_n :: int
  fs_rsa_e :: int
  fs_items :: "(int \<times> int \<times> int \<times> int) list"

definition parse_fused_start :: "bytes \<Rightarrow> exn + fused_start" where
  "parse_fused_start request =
     sbind (take_context request) (\<lambda>(session, operation, node, off).
     if length request - off < 4 then Inl (StdRuntimeError ''short fused predicate start'')
     else
     let count = unat (readU32 (drop off request)); off = off + 4 in
     if count = 0 \<or> count > max_batch_size then Inl (StdRuntimeError ''bad fused comparison count'')
     else
     sbind (takeInteger request off) (\<lambda>(rsa_n, off).
     sbind (takeInteger request off) (\<lambda>(rsa_e, off).
     if sizeinbase2 rsa_n \<noteq> 3072 \<or> rsa_e \<noteq> rsa_f4 then Inl (StdRuntimeError ''bad fused OT key'')
     else
     sbind (take_ot_items count rsa_n request off) (\<lambda>(items, off).
     if off \<noteq> length request then Inl (StdRuntimeError ''trailing fused start'')
     else Inr \<lparr>fs_session = session, fs_operation = operation, fs_node = node, fs_rsa_n = rsa_n,
       fs_rsa_e = rsa_e, fs_items = items\<rparr>))))"

definition csp_fused_start :: "csp_service \<Rightarrow> bytes \<Rightarrow> (csp, csp_reply) eff" where
  "csp_fused_start sv request =
     bnd get_st (\<lambda>s.
     if csp_pending s \<noteq> None \<or> length request < 8 \<or> bad_predicate_code (request ! 1) \<or> request ! 2 > 1 \<or> request ! 3 \<noteq> 0
     then throw (StdRuntimeError ''invalid fused predicate start'')
     else
     bnd (of_sum (parse_fused_start request)) (\<lambda>fs.
     let ty = decode_predicate (request ! 1); incumbent = (request ! 2 \<noteq> 0); items = fs_items fs;
         count = length items; replay = fused_replay_key (fs_session fs) (fs_operation fs)
     in
     if replay \<in> csp_replays s then throw (StdRuntimeError ''fused predicate replay'')
     else
     bnd (upd_st (csp_replays_update (insert replay))) (\<lambda>_.
     bnd (of_sum (predicateCircuit ty count incumbent)) (\<lambda>circuit.
     bnd (of_sum (thresholdDecryptBatch (sv_enclave sv) (map fst items) (map (fst \<circ> snd) items) (sv_mode sv))) (\<lambda>plain.
     bnd (add_time threshold_decrypt_ns_update) (\<lambda>_.
     bnd (foldM (ot_answer sv (fs_rsa_n fs) (fs_rsa_e fs)) (zip items plain) ([], [], 0 # writeU32 (of_nat count))) (\<lambda>(choices, keys, response).
     bnd (add_time fused_rsa_public_powm_ns_update) (\<lambda>_.
     bnd (upd_st (csp_pending_update (\<lambda>_. Some \<lparr>pf_session = fs_session fs, pf_operation = fs_operation fs,
       pf_node = fs_node fs, pf_type = ty, pf_incumbent = incumbent, pf_depth = readU32 (drop 4 request),
       pf_choices = choices, pf_keys = keys, pf_circuit = circuit\<rparr>))) (\<lambda>_.
     ret (Reply response))))))))))"

section \<open>Fused predicate, second round\<close>

text \<open>The chosen input labels, and the rows of the garbled tables.\<close>

primrec take_input_labels ::
  "(bytes \<Rightarrow> bytes) \<Rightarrow> pending_fused \<Rightarrow> bytes \<Rightarrow> nat list \<Rightarrow> nat \<times> label list \<Rightarrow> exn + nat \<times> label list" where
  "take_input_labels sha p request [] x = Inr x"
| "take_input_labels sha p request (i # is) x =
     (let (off, labels) = x in
      sbind (takeLabel request off) (\<lambda>(m0, off).
      sbind (takeLabel request off) (\<lambda>(m1, off).
      take_input_labels sha p request is
        (off, labels[i := labelXor (if pf_choices p ! i then m1 else m0) (otPad sha (pf_keys p ! i) i)]))))"

primrec take_labels :: "nat \<Rightarrow> bytes \<Rightarrow> nat \<Rightarrow> exn + label list \<times> nat" where
  "take_labels 0 request off = Inr ([], off)"
| "take_labels (Suc k) request off =
     sbind (takeLabel request off) (\<lambda>(l, off).
     sbind (take_labels k request off) (\<lambda>(ls, off). Inr (l # ls, off)))"

primrec take_tables :: "nat \<Rightarrow> bytes \<Rightarrow> nat \<Rightarrow> exn + label list list \<times> nat" where
  "take_tables 0 request off = Inr ([], off)"
| "take_tables (Suc k) request off =
     sbind (take_labels 4 request off) (\<lambda>(t, off).
     sbind (take_tables k request off) (\<lambda>(ts, off). Inr (t # ts, off)))"

text \<open>Everything after the check of the context: it reads no state.\<close>

definition fused_decision :: "csp_service \<Rightarrow> pending_fused \<Rightarrow> bytes \<Rightarrow> nat \<Rightarrow> exn + bytes" where
  "fused_decision sv p request off =
     (let count = unat (readU32 (drop off request)); gates = unat (readU32 (drop (off + 4) request)); off = off + 8;
          c = pf_circuit p; n = length (bc_wires c)
      in
      if count \<noteq> length (pf_choices p) \<or> gates \<noteq> length (bc_gates c)
      then Inl (StdRuntimeError ''fused circuit shape mismatch'')
      else
      sbind (take_input_labels (sv_sha sv) p request [0..<count] (off, replicate n zero_label)) (\<lambda>(off, labels).
      sbind (take_tables gates request off) (\<lambda>(tables, off).
      sbind (takeLabel request off) (\<lambda>(out0, off).
      sbind (takeLabel request off) (\<lambda>(out1, off).
      if off \<noteq> length request then Inl (StdRuntimeError ''trailing fused finish'')
      else
      sbind (evaluate_wires (sv_sha sv) c tables [count..<n] 0 labels) (\<lambda>labels.
      if labels ! bc_output c = out0 then Inr [0, 0]
      else if labels ! bc_output c = out1 then Inr [0, 1]
      else Inl (StdRuntimeError ''invalid fused output label'')))))))"

definition csp_fused_finish :: "csp_service \<Rightarrow> bytes \<Rightarrow> (csp, csp_reply) eff" where
  "csp_fused_finish sv request =
     bnd get_st (\<lambda>s.
     case csp_pending s of
       None \<Rightarrow> throw (StdRuntimeError ''invalid fused predicate finish'')
     | Some p \<Rightarrow>
       if length request < 8 \<or> bad_predicate_code (request ! 1) \<or> request ! 2 \<noteq> 0 \<or> request ! 3 \<noteq> 0
       then throw (StdRuntimeError ''invalid fused predicate finish'')
       else
       bnd (upd_st (csp_pending_update (\<lambda>_. None))) (\<lambda>_.
       let ty = decode_predicate (request ! 1); dep = readU32 (drop 4 request) in
       bnd (of_sum (take_context request)) (\<lambda>(session, operation, node, off).
       if session \<noteq> pf_session p \<or> operation \<noteq> pf_operation p \<or> ty \<noteq> pf_type p \<or> dep \<noteq> pf_depth p \<or>
          node \<noteq> pf_node p \<or> length request - off < 8
       then throw (StdRuntimeError ''fused context mismatch'')
       else
       bnd (of_sum (fused_decision sv p request off)) (\<lambda>response.
       bnd (add_time fused_circuit_evaluate_ns_update) (\<lambda>_. ret (Reply response))))))"

section \<open>The batches of multiplications and comparisons\<close>

definition csp_timing_reply :: "bytes \<Rightarrow> (csp, csp_reply) eff" where
  "csp_timing_reply request =
     (if length request \<noteq> 1 then throw (StdRuntimeError ''invalid timing request'')
      else bnd get_st (\<lambda>s. let t = csp_times s in
        ret (Reply (fold (\<lambda>x reply. appendU64 reply x)
          [request_ns t, threshold_decrypt_ns t, encrypt_ns t, parse_serialize_ns t, socket_send_ns t,
           fused_rsa_public_powm_ns t, fused_circuit_evaluate_ns t]
          ([0] @ ascii ''CSTM'' @ [1, 0, 0, 0])))))"

primrec take_batch_items :: "nat \<Rightarrow> bool \<Rightarrow> bytes \<Rightarrow> nat \<Rightarrow> exn + (int \<times> int \<times> int) list \<times> nat" where
  "take_batch_items 0 mul request off = Inr ([], off)"
| "take_batch_items (Suc k) mul request off =
     sbind (takeInteger request off) (\<lambda>(c, off).
     sbind (takeInteger request off) (\<lambda>(u, off).
     sbind (if mul then takeInteger request off else Inr (0, off)) (\<lambda>(base, off).
     sbind (take_batch_items k mul request off) (\<lambda>(items, off). Inr ((c, u, base) # items, off)))))"

definition batch_result :: "csp_service \<Rightarrow> bool \<Rightarrow> int \<Rightarrow> int \<Rightarrow> int" where
  "batch_result sv mul base plaintext =
     (if mul then (plaintext div base) * (plaintext mod base)
      else if plaintext > sv_modulus sv div 2 then 0 else 1)"

definition csp_encrypt_batch :: "csp_service \<Rightarrow> int list \<Rightarrow> (csp, int list) eff" where
  "csp_encrypt_batch sv ms =
     on_csp_rng (paillierEncryptBatch ms (sv_modulus sv) (sv_modulus sv * sv_modulus sv))"

definition csp_batch :: "csp_service \<Rightarrow> bytes \<Rightarrow> (csp, csp_reply) eff" where
  "csp_batch sv request =
     (if length request < 8 \<or> request ! 1 \<notin> {op CHR ''C'', op CHR ''M''} \<or> request ! 2 \<noteq> 1 \<or> request ! 3 \<noteq> 0
      then throw (StdRuntimeError ''invalid batch header'')
      else
      let mul = (request ! 1 = op CHR ''M''); count = unat (readU32 (drop 4 request)) in
      if count = 0 \<or> count > max_batch_size then throw (StdRuntimeError ''invalid batch count'')
      else
      bnd (of_sum (take_batch_items count mul request 8)) (\<lambda>(items, off).
      if off \<noteq> length request then throw (StdRuntimeError ''trailing batch request data'')
      else if \<not> list_all (\<lambda>(c, u, base). 0 < c \<and> c < sv_modulus sv * sv_modulus sv \<and> (mul \<longrightarrow> 1 < base)) items
      then throw (StdRuntimeError ''invalid batch item'')
      else
      bnd (add_time parse_serialize_ns_update) (\<lambda>_.
      bnd (of_sum (thresholdDecryptBatch (sv_enclave sv) (map fst items) (map (fst \<circ> snd) items) (sv_mode sv))) (\<lambda>plaintexts.
      bnd elapsedNs (\<lambda>csp_ecall_ns.
      bnd (upd_st (csp_times_update (threshold_decrypt_ns_update (\<lambda>x. x + csp_ecall_ns)))) (\<lambda>_.
      bnd (csp_encrypt_batch sv (map2 (\<lambda>(c, u, base) plaintext. batch_result sv mul base plaintext) items plaintexts)) (\<lambda>results.
      bnd (add_time encrypt_ns_update) (\<lambda>_.
      bnd (of_sum (append_ints ([0, 1, 0, 0, 0] @ writeU32 (of_nat count)) results)) (\<lambda>reply.
      bnd (add_time parse_serialize_ns_update) (\<lambda>_.
      bnd (add_time socket_send_ns_update) (\<lambda>_.
      bnd (add_time request_ns_update) (\<lambda>_.
      ret (Reply (appendU64 reply csp_ecall_ns))))))))))))))"

section \<open>The single requests\<close>

text \<open>The server's half of a decryption: its own share, combined with the client's.\<close>

definition csp_decrypt :: "csp_service \<Rightarrow> int \<Rightarrow> int \<Rightarrow> exn + int" where
  "csp_decrypt sv c cp_share =
     sbind (partialDecrypt (sv_enclave sv) c (sv_mode sv)) (\<lambda>own.
     combineDecrypt (sv_enclave sv) cp_share own (sv_mode sv))"

definition parse_predicate :: "bytes \<Rightarrow> exn + int \<times> int" where
  "parse_predicate request =
     sbind (take_context request) (\<lambda>(session, operation, node, off).
     sbind (takeInteger request off) (\<lambda>(c, off).
     sbind (takeInteger request off) (\<lambda>(cp_share, off).
     if off \<noteq> length request then Inl (StdRuntimeError ''trailing predicate request data'')
     else Inr (c, cp_share))))"

definition csp_predicate :: "csp_service \<Rightarrow> bytes \<Rightarrow> (csp, csp_reply) eff" where
  "csp_predicate sv request =
     (if length request < 8 \<or> bad_predicate_code (request ! 1) \<or> request ! 2 \<noteq> 0 \<or> request ! 3 \<noteq> 0
      then throw (StdRuntimeError ''invalid predicate request header'')
      else
      bnd (of_sum (parse_predicate request)) (\<lambda>(c, cp_share).
      bnd (add_time parse_serialize_ns_update) (\<lambda>_.
      bnd (of_sum (csp_decrypt sv c cp_share)) (\<lambda>predicate.
      bnd (add_time threshold_decrypt_ns_update) (\<lambda>_.
      bnd (add_time parse_serialize_ns_update) (\<lambda>_.
      bnd (add_time socket_send_ns_update) (\<lambda>_.
      bnd (add_time request_ns_update) (\<lambda>_.
      ret (Reply (if predicate \<noteq> 0 \<and> predicate \<noteq> 1 then [1]
                  else [0, if predicate = 1 then 1 else 0]))))))))))"

lemma takeInteger_forward: "takeInteger input off = Inr (v, off') \<Longrightarrow> off < off' \<and> off < length input"
  by (auto simp: takeInteger_def Let_def split: if_splits)

text \<open>The integers up to the end of the request.\<close>

function take_values :: "bytes \<Rightarrow> nat \<Rightarrow> exn + int list" where
  "take_values request off =
     (if off < length request then
        (case takeInteger request off of
           Inl e \<Rightarrow> Inl e
         | Inr (v, off') \<Rightarrow> sbind (take_values request off') (\<lambda>vs. Inr (v # vs)))
      else Inr [])"
  by pat_completeness auto

termination
  by (relation "measure (\<lambda>(request, off). length request - off)") (auto dest: takeInteger_forward)

declare take_values.simps [simp del]

definition csp_encrypt :: "csp_service \<Rightarrow> int \<Rightarrow> (csp, int) eff" where
  "csp_encrypt sv m = on_csp_rng (paillierEncrypt m (sv_modulus sv) (sv_modulus sv * sv_modulus sv))"

definition csp_single :: "csp_service \<Rightarrow> 8 word \<Rightarrow> bytes \<Rightarrow> (csp, csp_reply) eff" where
  "csp_single sv operation request =
     bnd (of_sum (take_values request 1)) (\<lambda>values.
     if operation = op CHR ''Q'' then ret (Stop [0])
     else if operation = op CHR ''D'' \<and> length values = 2 then
       bnd (of_sum (csp_decrypt sv (values ! 0) (values ! 1))) (\<lambda>m.
       bnd (of_sum (appendInteger [0] m)) (\<lambda>reply. ret (Reply reply)))
     else if operation = op CHR ''M'' \<and> length values = 3 then
       (if values ! 2 \<le> 1 then throw (StdRuntimeError ''invalid SMUL packing base'')
        else
        bnd (of_sum (csp_decrypt sv (values ! 0) (values ! 1))) (\<lambda>plaintext.
        bnd (csp_encrypt sv ((plaintext div values ! 2) * (plaintext mod values ! 2))) (\<lambda>c.
        bnd (of_sum (appendInteger [0] c)) (\<lambda>reply. ret (Reply reply)))))
     else if operation = op CHR ''C'' \<and> length values = 2 then
       bnd (of_sum (csp_decrypt sv (values ! 0) (values ! 1))) (\<lambda>difference.
       bnd (csp_encrypt sv (if difference > sv_modulus sv div 2 then 0 else 1)) (\<lambda>c.
       bnd (of_sum (appendInteger [0] c)) (\<lambda>reply. ret (Reply reply))))
     else ret (Reply [1]))"

section \<open>The loop\<close>

definition csp_handle :: "csp_service \<Rightarrow> bytes \<Rightarrow> (csp, csp_reply) eff" where
  "csp_handle sv request =
     (if request = [] then throw (StdRuntimeError ''empty request'')
      else let operation = hd request in
      if operation = op CHR ''F'' then csp_fused_start sv request
      else if operation = op CHR ''G'' then csp_fused_finish sv request
      else if operation = op CHR ''T'' then csp_timing_reply request
      else if operation = op CHR ''B'' then csp_batch sv request
      else if operation = op CHR ''P'' then csp_predicate sv request
      else csp_single sv operation request)"

text \<open>What the client's end of the connection sees: a reply, or that the connection is closed.\<close>

definition csp_serve :: "csp_service \<Rightarrow> bytes \<Rightarrow> (csp, csp_reply option) eff" where
  "csp_serve sv request = (\<lambda>s. case csp_handle sv request s of
     None \<Rightarrow> None
   | Some (Inr reply, s') \<Rightarrow> Some (Inr (Some reply), s')
   | Some (Inl e, s') \<Rightarrow> Some (Inr None, s'\<lparr>csp_pending := None\<rparr>))"

section \<open>Connections\<close>

text \<open>
  The server listens, serves one connection, or has stopped. A frame that cannot be received (the
  peer has closed, or announces more than 4 MiB) ends the connection like any other exception.
\<close>

datatype phase = Listening | Serving | Stopped

datatype csp_event = Accept | Answered bytes bytes | Rejected bytes | HangUp | Stopping bytes

inductive csp_step :: "csp_service \<Rightarrow> csp \<times> phase \<Rightarrow> csp_event \<Rightarrow> csp \<times> phase \<Rightarrow> bool"
  for sv :: csp_service where
  accept: "csp_step sv (s, Listening) Accept (s, Serving)"
| answer: "length request \<le> max_frame \<Longrightarrow> csp_handle sv request s = Some (Inr (Reply reply), s') \<Longrightarrow>
    csp_step sv (s, Serving) (Answered request reply) (s', Serving)"
| stop: "length request \<le> max_frame \<Longrightarrow> csp_handle sv request s = Some (Inr (Stop reply), s') \<Longrightarrow>
    csp_step sv (s, Serving) (Stopping request) (s', Stopped)"
| reject: "length request \<le> max_frame \<Longrightarrow> csp_handle sv request s = Some (Inl e, s') \<Longrightarrow>
    csp_step sv (s, Serving) (Rejected request) (s'\<lparr>csp_pending := None\<rparr>, Listening)"
| hang_up: "csp_step sv (s, Serving) HangUp (s\<lparr>csp_pending := None\<rparr>, Listening)"

definition csp_initial :: "rng \<Rightarrow> (nat \<Rightarrow> 64 word) \<Rightarrow> csp \<times> phase" where
  "csp_initial r clock = (\<lparr>csp_rng = r,
     csp_times = \<lparr>request_ns = 0, threshold_decrypt_ns = 0, encrypt_ns = 0, parse_serialize_ns = 0,
       socket_send_ns = 0, fused_rsa_public_powm_ns = 0, fused_circuit_evaluate_ns = 0\<rparr>,
     csp_pending = None, csp_replays = {}, csp_clock = clock, csp_reads = 0\<rparr>, Listening)"

inductive csp_run :: "csp_service \<Rightarrow> csp \<times> phase \<Rightarrow> csp_event list \<Rightarrow> csp \<times> phase \<Rightarrow> bool"
  for sv :: csp_service where
  start: "csp_run sv (csp_initial r clock) [] (csp_initial r clock)"
| step: "csp_run sv x0 tr x \<Longrightarrow> csp_step sv x ev y \<Longrightarrow> csp_run sv x0 (tr @ [ev]) y"

inductive_cases csp_stepE: "csp_step sv x ev y"

section \<open>What the handlers do to the pending predicate and the used keys\<close>

abbreviation book :: "csp \<Rightarrow> pending_fused option \<times> string set" where
  "book s \<equiv> (csp_pending s, csp_replays s)"

lemma keeps_elapsedNs [keeps_rules]: "keeps book elapsedNs"
  by (simp add: elapsedNs_def keeps_def)

lemma keeps_add_time [keeps_rules]: "keeps book (add_time field)"
  unfolding add_time_def by (intro keeps_rules) simp

lemma keeps_on_csp_rng [keeps_rules]: "keeps book (on_csp_rng m)"
  unfolding on_csp_rng_def by (rule keeps_zoom) simp

lemma keeps_handlers:
  "keeps book (csp_timing_reply request)" "keeps book (csp_batch sv request)"
  "keeps book (csp_predicate sv request)" "keeps book (csp_single sv operation request)"
  unfolding csp_timing_reply_def csp_batch_def csp_predicate_def csp_single_def csp_encrypt_batch_def
    csp_encrypt_def
  by (intro keeps_rules; simp)+

lemma keeps_ot_answer: "keeps book (ot_answer sv rsa_n rsa_e item acc)"
proof -
  obtain c u x0 x1 plain where "item = ((c, u, x0, x1), plain)" by (metis surj_pair)
  then show ?thesis unfolding ot_answer_def by (simp add: Let_def split: prod.splits) (intro keeps_rules allI impI conjI)
qed

text \<open>What is known of a predicate between its two rounds.\<close>

definition pending_key :: "pending_fused \<Rightarrow> string" where
  "pending_key p = fused_replay_key (pf_session p) (pf_operation p)"

definition pending_ok :: "pending_fused \<Rightarrow> bool" where
  "pending_ok p \<longleftrightarrow> length (pf_keys p) = length (pf_choices p) \<and> 0 < length (pf_choices p) \<and>
     length (pf_choices p) \<le> max_batch_size \<and>
     predicateCircuit (pf_type p) (length (pf_choices p)) (pf_incumbent p) = Inr (pf_circuit p)"

definition request_key :: "bytes \<Rightarrow> string option" where
  "request_key request = (case take_context request of
     Inl e \<Rightarrow> None
   | Inr (session, operation, node, off) \<Rightarrow> Some (fused_replay_key session operation))"

lemma length_take_ot_items: "take_ot_items k rsa_n request off = Inr (items, off') \<Longrightarrow> length items = k"
  by (induction k arbitrary: off items) (auto simp: sbind_eq_Inr split: if_splits)

lemma length_take_ints: "take_ints k input off = Inr (vs, off') \<Longrightarrow> length vs = k"
  by (induction k arbitrary: off vs) (auto simp: sbind_eq_Inr)

lemma length_thresholdDecryptBatch: "thresholdDecryptBatch e cs us mode = Inr ms \<Longrightarrow> length ms = length cs"
  by (auto simp: thresholdDecryptBatch_def sbind_eq_Inr Let_def length_take_ints split: if_splits)

lemma parse_fused_start_ok:
  assumes "parse_fused_start request = Inr fs"
  shows "request_key request = Some (fused_replay_key (fs_session fs) (fs_operation fs))"
    "0 < length (fs_items fs)" "length (fs_items fs) \<le> max_batch_size"
  using assms
  by (auto simp: parse_fused_start_def request_key_def sbind_eq_Inr Let_def split: if_splits dest!: length_take_ot_items)

lemma ot_answers_length:
  assumes "foldM (ot_answer sv rsa_n rsa_e) items acc s = Some (Inr (choices, keys, response), s')"
    and "length (fst acc) = length (fst (snd acc))"
  shows "length keys = length choices \<and> length choices = length (fst acc) + length items"
  using assms
proof (induction items arbitrary: acc s)
  case Nil
  then show ?case by (auto simp: eff_simps)
next
  case (Cons x items)
  obtain acc' t where step: "ot_answer sv rsa_n rsa_e x acc s = Some (Inr acc', t)"
    and rest: "foldM (ot_answer sv rsa_n rsa_e) items acc' t = Some (Inr (choices, keys, response), s')"
    using Cons.prems(1) by (auto simp: eff_simps split: option.splits sum.splits)
  have "length (fst acc') = Suc (length (fst acc)) \<and> length (fst (snd acc')) = Suc (length (fst (snd acc)))"
    using step by (auto simp: ot_answer_def Let_def eff_simps split: prod.splits option.splits sum.splits)
  with Cons.IH [OF rest] Cons.prems(2) show ?case by simp
qed

lemma bnd_Inr: "bnd m k s = Some (Inr b, s') \<longleftrightarrow> (\<exists>a t. m s = Some (Inr a, t) \<and> k a t = Some (Inr b, s'))"
  by (auto simp: bnd_app split: option.splits sum.splits)

lemma bnd_Inl:
  "bnd m k s = Some (Inl e, s') \<longleftrightarrow>
     m s = Some (Inl e, s') \<or> (\<exists>a t. m s = Some (Inr a, t) \<and> k a t = Some (Inl e, s'))"
  by (auto simp: bnd_app split: option.splits sum.splits)

lemmas start_steps = of_sum_app get_st_app upd_st_app throw_app ret_app

lemma keeps_answers [keeps_rules]: "keeps book (foldM (ot_answer sv rsa_n rsa_e) items acc)"
  by (intro keeps_rules keeps_ot_answer)

lemma book_after_time: "add_time field s = Some (r, t) \<Longrightarrow> csp_pending t = csp_pending s \<and> csp_replays t = csp_replays s"
  using keepsD [OF keeps_add_time] by simp

lemma book_after_answers:
  "foldM (ot_answer sv rsa_n rsa_e) items acc s = Some (r, t) \<Longrightarrow>
     csp_pending t = csp_pending s \<and> csp_replays t = csp_replays s"
  using keepsD [OF keeps_answers] by simp

text \<open>The set of used keys only grows.\<close>

definition grows :: "(csp, 'a) eff \<Rightarrow> bool" where
  "grows m \<longleftrightarrow> (\<forall>s r s'. m s = Some (r, s') \<longrightarrow> csp_replays s \<subseteq> csp_replays s')"

lemma grows_keeps: "keeps book m \<Longrightarrow> grows m"
  by (auto simp: grows_def dest: keepsD)

lemma grows_bnd: "grows m \<Longrightarrow> (\<And>a. grows (k a)) \<Longrightarrow> grows (bnd m k)"
  unfolding grows_def by (fastforce simp: eff_simps split: option.splits prod.splits sum.splits)

lemma grows_insert: "grows (upd_st (csp_replays_update (insert key)))"
  by (auto simp: grows_def eff_simps)

lemma grows_prod: "(\<And>x y. grows (k x y)) \<Longrightarrow> grows (case p of (x, y) \<Rightarrow> k x y)"
  by (cases p) simp

lemma grows_if: "grows x \<Longrightarrow> grows y \<Longrightarrow> grows (if b then x else y)"
  by simp

lemma grows_pending: "grows (upd_st (csp_pending_update (\<lambda>_. p)))"
  by (auto simp: grows_def eff_simps)

lemma grows_basic: "grows (ret a)" "grows (throw e)" "grows (of_sum r)" "grows get_st" "grows (add_time field)"
  "grows (foldM (ot_answer sv rsa_n rsa_e) items acc)"
  by (rule grows_keeps, rule keeps_rules)+

lemma fused_start_grows: "grows (csp_fused_start sv request)"
  unfolding csp_fused_start_def Let_def
  by (intro grows_bnd grows_prod grows_if grows_insert grows_pending grows_basic)

lemma fused_start_answers:
  assumes "csp_fused_start sv request s = Some (Inr reply, s')"
  obtains b p where "reply = Reply b" "csp_pending s = None" "csp_pending s' = Some p" "pending_ok p"
    "request_key request = Some (pending_key p)" "pending_key p \<notin> csp_replays s"
    "csp_replays s' = insert (pending_key p) (csp_replays s)"
proof -
  obtain fs where fs: "parse_fused_start request = Inr fs" and none: "csp_pending s = None"
    and fresh: "fused_replay_key (fs_session fs) (fs_operation fs) \<notin> csp_replays s"
    using assms by (auto simp: csp_fused_start_def Let_def bnd_Inr start_steps split: if_splits)
  let ?items = "fs_items fs" and ?ty = "decode_predicate (request ! 1)" and ?inc = "request ! 2 \<noteq> 0"
  note parsed = parse_fused_start_ok [OF fs]
  let ?key = "fused_replay_key (fs_session fs) (fs_operation fs)"
  let ?s0 = "csp_replays_update (insert ?key) s"
  obtain c plain s1 choices keys response s2 s3 where
    c: "predicateCircuit ?ty (length ?items) ?inc = Inr c"
    and plain: "thresholdDecryptBatch (sv_enclave sv) (map fst ?items) (map (fst \<circ> snd) ?items) (sv_mode sv) = Inr plain"
    and s1: "add_time threshold_decrypt_ns_update ?s0 = Some (Inr (), s1)"
    and ans: "foldM (ot_answer sv (fs_rsa_n fs) (fs_rsa_e fs)) (zip ?items plain)
        ([], [], 0 # writeU32 (of_nat (length ?items))) s1 = Some (Inr (choices, keys, response), s2)"
    and s3: "add_time fused_rsa_public_powm_ns_update s2 = Some (Inr (), s3)"
    and last: "reply = Reply response" "s' = s3\<lparr>csp_pending := Some \<lparr>pf_session = fs_session fs, pf_operation = fs_operation fs,
       pf_node = fs_node fs, pf_type = ?ty, pf_incumbent = ?inc, pf_depth = readU32 (drop 4 request),
       pf_choices = choices, pf_keys = keys, pf_circuit = c\<rparr>\<rparr>"
    using assms fs none fresh
    by (auto simp: csp_fused_start_def Let_def bnd_Inr start_steps split: if_splits)
  have "length plain = length ?items" using length_thresholdDecryptBatch [OF plain] by simp
  then have len: "length keys = length choices" "length choices = length ?items"
    using ot_answers_length [OF ans] by simp_all
  have "csp_replays s3 = insert ?key (csp_replays s)"
    using book_after_time [OF s1] book_after_answers [OF ans] book_after_time [OF s3] by simp
  then show thesis
    using last none fresh parsed len c
    by (intro that [OF last(1) none, of "the (csp_pending s')"]) (simp_all add: pending_key_def pending_ok_def)
qed

lemma keeps_replays: "keeps book m \<Longrightarrow> keeps csp_replays m"
  by (simp add: keeps_def)

lemma keeps_pending_case:
  "keeps f a \<Longrightarrow> (\<And>x. keeps f (b x)) \<Longrightarrow> keeps f (case p of None \<Rightarrow> a | Some x \<Rightarrow> b x)"
  by (cases p) simp_all

lemma fused_finish_keeps: "keeps csp_replays (csp_fused_finish sv request)"
  unfolding csp_fused_finish_def Let_def
  by (intro keeps_rules keeps_pending_case keeps_replays [OF keeps_add_time]) simp

lemma fused_finish_answers:
  assumes "csp_fused_finish sv request s = Some (Inr reply, s')"
  obtains b p where "reply = Reply b" "csp_pending s = Some p" "csp_pending s' = None"
    "request_key request = Some (pending_key p)"
  using assms
  by (auto simp: csp_fused_finish_def bnd_Inr start_steps Let_def request_key_def pending_key_def
      split: option.splits if_splits dest!: book_after_time)

section \<open>The loop answers a fused predicate once\<close>

text \<open>The keys of the requests of one kind that were answered, in order.\<close>

definition answered_key :: "8 word \<Rightarrow> csp_event \<Rightarrow> string option" where
  "answered_key operation ev = (case ev of
     Answered request reply \<Rightarrow>
       if request \<noteq> [] \<and> hd request = operation then request_key request else None
   | _ \<Rightarrow> None)"

definition answered_keys :: "8 word \<Rightarrow> csp_event list \<Rightarrow> string list" where
  "answered_keys operation tr = map the (filter (\<lambda>k. k \<noteq> None) (map (answered_key operation) tr))"

lemma answered_keys_simps [simp]:
  "answered_keys operation [] = []"
  "answered_keys operation (tr @ [ev]) = answered_keys operation tr @ (case answered_key operation ev of None \<Rightarrow> [] | Some k \<Rightarrow> [k])"
  by (simp_all add: answered_keys_def split: option.splits)

lemma handle_other:
  assumes "csp_handle sv request s = Some (r, s')" "request = [] \<or> hd request \<notin> {op CHR ''F'', op CHR ''G''}"
  shows "book s' = book s"
proof (cases "request = []")
  case True
  with assms show ?thesis by (simp add: csp_handle_def eff_simps)
next
  case False
  with assms have "\<exists>m. keeps book m \<and> m s = Some (r, s')"
    by (auto simp: csp_handle_def Let_def intro: keeps_handlers split: if_splits)
  then show ?thesis by (auto dest: keepsD)
qed

lemma handle_grows:
  assumes "csp_handle sv request s = Some (r, s')"
  shows "csp_replays s \<subseteq> csp_replays s'"
proof (cases "request = [] \<or> hd request \<notin> {op CHR ''F'', op CHR ''G''}")
  case True
  from handle_other [OF assms this] show ?thesis by simp
next
  case False
  with assms have "csp_fused_start sv request s = Some (r, s') \<or> csp_fused_finish sv request s = Some (r, s')"
    by (auto simp: csp_handle_def Let_def split: if_splits)
  then show ?thesis using fused_start_grows [of sv request] fused_finish_keeps [of sv request]
    unfolding grows_def keeps_def by blast
qed

lemma handle_stop:
  assumes "csp_handle sv request s = Some (Inr (Stop reply), s')"
  shows "book s' = book s"
proof (rule handle_other [OF assms], rule ccontr)
  assume "\<not> (request = [] \<or> hd request \<notin> {op CHR ''F'', op CHR ''G''})"
  with assms have "csp_fused_start sv request s = Some (Inr (Stop reply), s') \<or>
      csp_fused_finish sv request s = Some (Inr (Stop reply), s')"
    by (auto simp: csp_handle_def Let_def split: if_splits)
  then show False by (auto elim: fused_start_answers fused_finish_answers)
qed

text \<open>The invariant of the loop.\<close>

definition csp_inv :: "csp_event list \<Rightarrow> csp \<times> phase \<Rightarrow> bool" where
  "csp_inv tr x \<longleftrightarrow> (case x of (s, ph) \<Rightarrow>
     (ph = Listening \<longrightarrow> csp_pending s = None) \<and>
     (\<forall>p. csp_pending s = Some p \<longrightarrow> pending_ok p \<and> pending_key p \<in> set (answered_keys (op CHR ''F'') tr) \<and>
        pending_key p \<notin> set (answered_keys (op CHR ''G'') tr)) \<and>
     set (answered_keys (op CHR ''G'') tr) \<subseteq> set (answered_keys (op CHR ''F'') tr) \<and>
     set (answered_keys (op CHR ''F'') tr) \<subseteq> csp_replays s \<and>
     distinct (answered_keys (op CHR ''F'') tr) \<and> distinct (answered_keys (op CHR ''G'') tr))"

lemma csp_inv_answer:
  assumes inv: "csp_inv tr (s, Serving)" and run: "csp_handle sv request s = Some (Inr (Reply b), s')"
  shows "csp_inv (tr @ [Answered request b]) (s', Serving)"
proof -
  let ?op = "hd request"
  have ne: "request \<noteq> []" using run by (auto simp: csp_handle_def eff_simps)
  consider (F) "?op = op CHR ''F''" | (G) "?op = op CHR ''G''" | (other) "?op \<notin> {op CHR ''F'', op CHR ''G''}" by blast
  then show ?thesis
  proof cases
    case F
    then have "csp_fused_start sv request s = Some (Inr (Reply b), s')" using run ne by (simp add: csp_handle_def)
    then show ?thesis
      by (rule fused_start_answers) (use inv F ne in \<open>auto simp: csp_inv_def answered_key_def\<close>)
  next
    case G
    then have "csp_fused_finish sv request s = Some (Inr (Reply b), s')" using run ne by (simp add: csp_handle_def)
    moreover from this have "csp_replays s' = csp_replays s" using fused_finish_keeps by (auto simp: keeps_def)
    ultimately show ?thesis
      by (elim fused_finish_answers) (use inv G ne in \<open>auto simp: csp_inv_def answered_key_def\<close>)
  next
    case other
    with handle_other [OF run] inv show ?thesis by (auto simp: csp_inv_def answered_key_def)
  qed
qed

lemma csp_run_inv: "csp_run sv x0 tr x \<Longrightarrow> csp_inv tr x"
proof (induction rule: csp_run.induct)
  case (start r clock)
  show ?case by (simp add: csp_inv_def csp_initial_def)
next
  case (step x0 tr x ev y)
  from step.hyps(2) step.IH show ?case
  proof cases
    case (answer request s reply s')
    then show ?thesis using csp_inv_answer step.IH by simp
  next
    case (reject request s e s')
    have "csp_replays s \<subseteq> csp_replays s'" by (rule handle_grows) fact
    then show ?thesis using step.IH reject by (auto simp: csp_inv_def answered_key_def)
  next
    case (stop request s reply s')
    have "book s' = book s" by (rule handle_stop) fact
    then show ?thesis using step.IH stop by (auto simp: csp_inv_def answered_key_def)
  qed (auto simp: csp_inv_def answered_key_def)
qed

text \<open>C11: In every run of the server, whatever frames its peers send over whatever connections, no session
  and operation gets a second answer from either round of the fused predicate, and the second round
  answers only what the first has.\<close>

theorem fused_answers_once:
  assumes "csp_run sv x0 tr x"
  shows "distinct (answered_keys (op CHR ''F'') tr) \<and> distinct (answered_keys (op CHR ''G'') tr) \<and>
    set (answered_keys (op CHR ''G'') tr) \<subseteq> set (answered_keys (op CHR ''F'') tr)"
  using csp_run_inv [OF assms] by (cases x) (simp add: csp_inv_def)

text \<open>C17: A server that waits for a connection holds no transcript: an interrupted, malformed or replayed one
  is dropped with its connection. One that is held has as many transfer keys as choices, at most a
  batch, the circuit of its predicate, and a key that is already used.\<close>

theorem pending_invariant:
  assumes "csp_run sv x0 tr (s, ph)"
  shows "(ph = Listening \<longrightarrow> csp_pending s = None) \<and>
    (case csp_pending s of None \<Rightarrow> True | Some p \<Rightarrow>
       length (pf_keys p) = length (pf_choices p) \<and> length (pf_choices p) \<in> {1..32} \<and>
       predicateCircuit (pf_type p) (length (pf_choices p)) (pf_incumbent p) = Inr (pf_circuit p) \<and>
       fused_replay_key (pf_session p) (pf_operation p) \<in> csp_replays s)"
  using csp_run_inv [OF assms]
  by (auto simp: csp_inv_def pending_ok_def pending_key_def max_batch_size_def Suc_le_eq split: option.splits)

section \<open>Well-formed requests\<close>

text \<open>The context of a predicate, after an eight-byte header.\<close>

definition ids_bytes :: "predicate_context \<Rightarrow> bytes" where
  "ids_bytes ctx = context_bytes (session_id ctx) @ context_bytes (operation_id ctx) @ context_bytes (node_id ctx)"

lemma take_context_ok:
  assumes "length pre = 8" "valid_ids ctx"
  shows "take_context (pre @ ids_bytes ctx @ rest) =
    Inr (session_id ctx, operation_id ctx, node_id ctx, 8 + length (ids_bytes ctx))"
proof -
  let ?s = "context_bytes (session_id ctx)" and ?o = "context_bytes (operation_id ctx)" and ?n = "context_bytes (node_id ctx)"
  have v: "validIdentifier (session_id ctx)" "validIdentifier (operation_id ctx)" "validIdentifier (node_id ctx)"
    using assms(2) by (simp_all add: valid_ids_def)
  show ?thesis
    using takeContextString_ok [OF v(1), of pre "?o @ ?n @ rest"] takeContextString_ok [OF v(2), of "pre @ ?s" "?n @ rest"]
      takeContextString_ok [OF v(3), of "pre @ ?s @ ?o" rest] assms(1)
    by (simp add: take_context_def ids_bytes_def add.assoc)
qed

lemma parse_predicate_ok:
  assumes "length pre = 8" "valid_ids ctx" "wire_int c" "wire_int u"
  shows "parse_predicate (pre @ ids_bytes ctx @ ints_bytes [c, u]) = Inr (c, u)"
  using assms(1) take_context_ok [OF assms(1,2), of "ints_bytes [c, u]"]
    takeInteger_ok [OF assms(3), of "pre @ ids_bytes ctx" "int_bytes u"]
    takeInteger_ok [OF assms(4), of "pre @ ids_bytes ctx @ int_bytes c" "[]"]
  by (simp add: parse_predicate_def add.assoc)

text \<open>The reveal of one bit, as the client sends it, and the server's answer.\<close>

definition predicate_frame :: "predicate_context \<Rightarrow> int \<Rightarrow> int \<Rightarrow> bytes" where
  "predicate_frame ctx c u =
     [op CHR ''P'', predicate_code (predicate_type ctx), 0, 0] @ writeU32 (of_nat (ctx_depth ctx)) @ ids_bytes ctx @
     ints_bytes [c, u]"

lemma predicate_code_ok: "\<not> bad_predicate_code (predicate_code ty)" "decode_predicate (predicate_code ty) = ty"
  by (cases ty; simp add: bad_predicate_code_def decode_predicate_def)+

lemma predicate_frame_header:
  "8 \<le> length (predicate_frame ctx c u)" "predicate_frame ctx c u ! 1 = predicate_code (predicate_type ctx)"
  "predicate_frame ctx c u ! 2 = 0" "predicate_frame ctx c u ! 3 = 0" "hd (predicate_frame ctx c u) = op CHR ''P''"
  "predicate_frame ctx c u \<noteq> []"
  by (simp_all add: predicate_frame_def)

lemma parse_predicate_frame:
  assumes "valid_ids ctx" "wire_int c" "wire_int u"
  shows "parse_predicate (predicate_frame ctx c u) = Inr (c, u)"
  using parse_predicate_ok [OF _ assms, of "[op CHR ''P'', predicate_code (predicate_type ctx), 0, 0] @ writeU32 (of_nat (ctx_depth ctx))"]
  by (simp add: predicate_frame_def)

lemma handle_predicate_frame: "csp_handle sv (predicate_frame ctx c u) = csp_predicate sv (predicate_frame ctx c u)"
  by (rule ext) (simp add: csp_handle_def predicate_frame_header)

lemma csp_predicate_answer:
  assumes "valid_ids ctx" "wire_int c" "wire_int u"
  shows "\<exists>s'. csp_predicate sv (predicate_frame ctx c u) s = Some
    (case csp_decrypt sv c u of Inl e \<Rightarrow> Inl e
     | Inr b \<Rightarrow> Inr (Reply (if b \<noteq> 0 \<and> b \<noteq> 1 then [1] else [0, if b = 1 then 1 else 0])), s')"
  using parse_predicate_frame [OF assms] predicate_frame_header [of ctx c u] predicate_code_ok
  by (cases "csp_decrypt sv c u") (simp_all add: csp_predicate_def eff_simps add_time_def elapsedNs_def)

text \<open>C37: The reveal of a single predicate bit is not bound to its context: whatever the server does
  with the \<open>P\<close> frame of one context, in any state, it does with the frame that carries the same
  ciphertext and share under any other purpose, depth, session, operation and node, in any other state.
  In particular a peer is answered the same bit again when it repeats a frame.\<close>

theorem predicate_ignores_context:
  assumes "valid_ids ctx" "valid_ids ctx'" "wire_int c" "wire_int u"
    and "csp_handle sv (predicate_frame ctx c u) s = Some (outcome, s')"
  shows "\<exists>t'. csp_handle sv (predicate_frame ctx' c u) t = Some (outcome, t')"
  using csp_predicate_answer [OF assms(1,3,4), of sv s] csp_predicate_answer [OF assms(2-4), of sv t] assms(5)
  by (auto simp: handle_predicate_frame)

lemma csp_predicate_ok:
  assumes k: "key_shares (sv_mode sv) n mu cp (sv_enclave sv)" and c: "is_cipher n c (b2i b)" and v: "valid_ids ctx"
    and u: "partialDecrypt cp c (sv_mode sv) = Inr u"
  shows "\<exists>s'. csp_predicate sv (predicate_frame ctx c u) s = Some (Inr (Reply [0, if b then 1 else 0]), s') \<and>
    csp_rng s' = csp_rng s \<and> book s' = book s"
proof -
  have n: "deployable n" using k by (simp add: key_shares_def)
  then have n1: "1 < n" by (simp add: deployable_def)
  obtain u2 where u2: "partialDecrypt (sv_enclave sv) c (sv_mode sv) = Inr u2" "wire_int u"
    "combineDecrypt (sv_enclave sv) u u2 (sv_mode sv) = Inr (b2i b mod n)"
    using shares_single [OF k c] u by auto
  have "wire_int c" using is_cipher_coprime [OF n1 c] by (intro wire_int_below [OF n]) auto
  then have p: "parse_predicate (predicate_frame ctx c u) = Inr (c, u)" using u2(2) by (intro parse_predicate_frame [OF v])
  have "b2i b mod n = b2i b" using n1 by simp
  then have d: "csp_decrypt sv c u = Inr (b2i b)" using u2 by (simp add: csp_decrypt_def)
  show ?thesis
    using p d predicate_frame_header [of ctx c u] predicate_code_ok
    by (simp add: csp_predicate_def eff_simps add_time_def elapsedNs_def)
qed

section \<open>Instances\<close>

definition sample_cp :: enclave where
  "sample_cp = sample_enclave 1 12345 0"

definition sample_service :: csp_service where
  "sample_service = \<lparr>sv_enclave = sample_enclave 2 (sk_lambda (k_sec sample_key) - 12345) (sk_mu (k_sec sample_key)),
     sv_modulus = sample_n, sv_mode = 1, sv_sha = sample_hash\<rparr>"

lemma sample_shares: "key_shares 1 sample_n (sk_mu (k_sec sample_key)) sample_cp (sv_enclave sample_service)"
  unfolding key_shares_def
  using sample_secrets(1,2) sample_deployable
  by (intro conjI exI [of _ 12345] exI [of _ "sk_lambda (k_sec sample_key) - 12345"])
     (simp_all add: sample_cp_def sample_service_def sample_enclave_def holds_key_def, simp add: sample_key_def)

definition sample_csp :: csp where
  "sample_csp = fst (csp_initial sample_rng (\<lambda>i. of_nat i))"

lemma sample_timing_answer:
  "\<exists>b s. csp_handle sample_service [op CHR ''T''] sample_csp = Some (Inr (Reply b), s)"
  by (simp add: csp_handle_def csp_timing_reply_def eff_simps Let_def)

lemma sample_csp_run:
  "\<exists>b s. csp_run sample_service (sample_csp, Listening) [Accept, Answered [op CHR ''T''] b, Rejected []]
    (s\<lparr>csp_pending := None\<rparr>, Listening)"
proof -
  obtain b s where a: "csp_handle sample_service [op CHR ''T''] sample_csp = Some (Inr (Reply b), s)"
    using sample_timing_answer by blast
  have "csp_run sample_service (sample_csp, Listening) [] (sample_csp, Listening)"
    using csp_run.start [of sample_service sample_rng "\<lambda>i. of_nat i"] by (simp add: sample_csp_def csp_initial_def)
  from csp_run.step [OF csp_run.step [OF csp_run.step [OF this accept] answer [OF _ a]] reject [of "[]"]]
  show ?thesis by (auto simp: max_frame_def csp_handle_def eff_simps)
qed

theorem fused_answers_once_witness:
  "\<exists>b s. csp_run sample_service (sample_csp, Listening) [Accept, Answered [op CHR ''T''] b, Rejected []] s \<and>
    distinct (answered_keys (op CHR ''F'') [Accept, Answered [op CHR ''T''] b, Rejected []]) \<and>
    distinct (answered_keys (op CHR ''G'') [Accept, Answered [op CHR ''T''] b, Rejected []]) \<and>
    set (answered_keys (op CHR ''G'') [Accept, Answered [op CHR ''T''] b, Rejected []]) \<subseteq>
      set (answered_keys (op CHR ''F'') [Accept, Answered [op CHR ''T''] b, Rejected []])"
  using sample_csp_run fused_answers_once by metis

theorem pending_invariant_witness:
  "\<exists>tr s. csp_run sample_service (sample_csp, Listening) tr (s, Listening) \<and>
    ((Listening = Listening \<longrightarrow> csp_pending s = None) \<and>
    (case csp_pending s of None \<Rightarrow> True | Some p \<Rightarrow>
       length (pf_keys p) = length (pf_choices p) \<and> length (pf_choices p) \<in> {1..32} \<and>
       predicateCircuit (pf_type p) (length (pf_choices p)) (pf_incumbent p) = Inr (pf_circuit p) \<and>
       fused_replay_key (pf_session p) (pf_operation p) \<in> csp_replays s))"
  using sample_csp_run pending_invariant by blast

theorem predicate_ignores_context_witness:
  "\<exists>u s' t'. partialDecrypt sample_cp (sample_cipher 1) 1 = Inr u \<and>
    csp_handle sample_service (predicate_frame (sample_context PruneNode) (sample_cipher 1) u) sample_csp =
      Some (Inr (Reply [0, 1]), s') \<and>
    csp_handle sample_service
      (predicate_frame ((sample_context AcceptCandidate)\<lparr>session_id := ''other''\<rparr>) (sample_cipher 1) u) s' =
      Some (Inr (Reply [0, 1]), t')"
proof -
  let ?f = "\<lambda>ctx u. predicate_frame ctx (sample_cipher 1) u"
  obtain u where u: "partialDecrypt sample_cp (sample_cipher 1) 1 = Inr u" "wire_int u"
    using shares_single [OF sample_shares sample_cipher [of 1]] by auto
  have v: "valid_ids (sample_context ty)" "valid_ids ((sample_context ty)\<lparr>session_id := ''other''\<rparr>)" for ty
    using sample_context(1) [of ty]
    by (simp_all add: valid_ids_def sample_context_def validIdentifier_def isalnum_c_def isdigit_c_def)
  have m: "sv_mode sample_service = 1" by (simp add: sample_service_def)
  have one: "is_cipher sample_n (sample_cipher 1) (b2i True)" using sample_cipher [of 1] by simp
  obtain s' where s': "csp_handle sample_service (?f (sample_context PruneNode) u) sample_csp = Some (Inr (Reply [0, 1]), s')"
    using csp_predicate_ok [of sample_service, unfolded m, OF sample_shares one v(1) u(1)]
    unfolding handle_predicate_frame by fastforce
  have w: "wire_int (sample_cipher 1)"
    using is_cipher_coprime [OF _ sample_cipher [of 1]] sample_deployable
    by (intro wire_int_below [OF sample_deployable]) (auto simp: deployable_def)
  from predicate_ignores_context [OF v w u(2) s', of AcceptCandidate s'] show ?thesis
    using u(1) s' by blast
qed

end
