(* ===== verification/ThresholdClient.thy ===== *)
theory ThresholdClient
  imports CspService
begin

text \<open>
  The client of the threshold protocol (src/protocol/threshold_protocol.cpp,
  \<open>ThresholdProtocolClient\<close>), talking to the server of theory CspService: a request is a call of
  the server's handler on the bytes of the frame, in a state that holds both sides. Encryption,
  masked multiplication and masked comparison are proved to give ciphertexts of the product and of
  the comparison bit, for batches and for single requests.

  The counters of \<open>ProtocolMetrics\<close> are kept, the times are not; the record stands for whichever one
  the caller passes.
\<close>

section \<open>The state of both sides\<close>

record protocol_metrics =
  host_encrypt_calls :: "64 word"
  host_scalar_powm_calls :: "64 word"
  logical_items :: "64 word"
  cp_ecalls :: "64 word"
  csp_requests :: "64 word"
  csp_ecalls :: "64 word"
  scmp_logical_items :: "64 word"
  scmp_dispatches :: "64 word"
  smul_logical_items :: "64 word"
  smul_dispatches :: "64 word"
  predicate_reveals :: "64 word"
  secure_bit_and_items :: "64 word"
  m_csp_times :: csp_timings

text \<open>The client's random source and counters, the server, and whether the connection is up.\<close>

record world =
  w_rng :: rng
  w_metrics :: protocol_metrics
  w_csp :: csp
  w_open :: bool

text \<open>What the client was constructed with, and the server it is connected to.\<close>

record client =
  cl_enclave :: enclave
  cl_modulus :: int
  cl_mode :: "8 word"
  cl_ot_modulus :: int
  cl_ot_public :: int
  cl_ot_private :: int
  cl_sha :: "bytes \<Rightarrow> bytes"
  cl_peer :: csp_service

abbreviation cl_nsq :: "client \<Rightarrow> int" where
  "cl_nsq cl \<equiv> cl_modulus cl * cl_modulus cl"

definition on_rng :: "(rng, 'a) eff \<Rightarrow> (world, 'a) eff" where
  "on_rng m = zoom w_rng w_rng_update m"

definition count_up :: "(protocol_metrics \<Rightarrow> protocol_metrics) \<Rightarrow> (world, unit) eff" where
  "count_up f = upd_st (w_metrics_update f)"

text \<open>
  \<open>wire::requestPayload\<close>: the frame reaches the server unless the connection is down; a frame that
  the server does not accept, or rejects, closes it.
\<close>

definition closed :: exn where
  "closed = StdRuntimeError ''socket closed''"

definition requestPayload :: "client \<Rightarrow> bytes \<Rightarrow> (world, bytes) eff" where
  "requestPayload cl payload =
     bnd get_st (\<lambda>w.
     if \<not> w_open w then throw closed
     else if length payload > max_frame then
       bnd (upd_st (\<lambda>w. w\<lparr>w_open := False, w_csp := (w_csp w)\<lparr>csp_pending := None\<rparr>\<rparr>)) (\<lambda>_. throw closed)
     else
       bnd (zoom w_csp w_csp_update (csp_serve (cl_peer cl) payload)) (\<lambda>answer.
       case answer of
         None \<Rightarrow> bnd (upd_st (w_open_update (\<lambda>_. False))) (\<lambda>_. throw closed)
       | Some reply \<Rightarrow> (case reply of
           Reply b \<Rightarrow>
             if length b > max_frame then throw (StdRuntimeError ''frame too large'') else of_sum (reply_payload b)
         | Stop b \<Rightarrow> bnd (upd_st (w_open_update (\<lambda>_. False))) (\<lambda>_. of_sum (reply_payload b)))))"

definition wire_request :: "client \<Rightarrow> char \<Rightarrow> int list \<Rightarrow> (world, bytes) eff" where
  "wire_request cl operation values =
     bnd (of_sum (append_ints [op operation] values)) (requestPayload cl)"

section \<open>Local operations\<close>

definition randomMask :: "site \<Rightarrow> (rng, int) eff" where
  "randomMask t = bnd (randomBits t 127) (\<lambda>b. ret (2 ^ 127 + b))"

definition tp_encrypt :: "client \<Rightarrow> int \<Rightarrow> (world, int) eff" where
  "tp_encrypt cl plaintext =
     bnd (on_rng (paillierEncrypt plaintext (cl_modulus cl) (cl_nsq cl))) (\<lambda>c.
     bnd (count_up (host_encrypt_calls_update (\<lambda>x. x + 1))) (\<lambda>_. ret c))"

definition tp_encryptBatch :: "client \<Rightarrow> int list \<Rightarrow> (world, int list) eff" where
  "tp_encryptBatch cl plaintexts =
     bnd (on_rng (paillierEncryptBatch plaintexts (cl_modulus cl) (cl_nsq cl))) (\<lambda>cs.
     bnd (count_up (host_encrypt_calls_update (\<lambda>x. x + of_nat (length plaintexts)))) (\<lambda>_. ret cs))"

definition tp_add :: "client \<Rightarrow> int \<Rightarrow> int \<Rightarrow> int" where
  "tp_add cl a b = cadd a b (cl_nsq cl)"

definition tp_scalarMultiply :: "client \<Rightarrow> int \<Rightarrow> int \<Rightarrow> (world, int) eff" where
  "tp_scalarMultiply cl v scalar =
     bnd (of_sum (ciphertextPower v scalar (cl_nsq cl))) (\<lambda>c.
     bnd (count_up (host_scalar_powm_calls_update (\<lambda>x. x + 1))) (\<lambda>_. ret c))"

definition packing_base :: int where
  "packing_base = 2 ^ 130"

section \<open>Multiplication\<close>

definition count_smul :: "nat \<Rightarrow> nat \<Rightarrow> (world, unit) eff" where
  "count_smul items ecalls = count_up (\<lambda>m. m\<lparr>logical_items := logical_items m + of_nat items,
     smul_logical_items := smul_logical_items m + of_nat items, smul_dispatches := smul_dispatches m + 1,
     cp_ecalls := cp_ecalls m + 1, csp_ecalls := csp_ecalls m + of_nat ecalls,
     csp_requests := csp_requests m + 1\<rparr>)"

definition tp_secureMultiply :: "client \<Rightarrow> int \<Rightarrow> int \<Rightarrow> (world, int) eff" where
  "tp_secureMultiply cl a b =
     bnd (on_rng (randomMask SMask1)) (\<lambda>r1.
     bnd (on_rng (randomMask SMask2)) (\<lambda>r2.
     bnd (tp_encrypt cl r1) (\<lambda>e1.
     bnd (tp_encrypt cl r2) (\<lambda>e2.
     bnd (tp_scalarMultiply cl (tp_add cl a e1) packing_base) (\<lambda>shifted.
     let packed = tp_add cl shifted (tp_add cl b e2) in
     bnd (of_sum (partialDecrypt (cl_enclave cl) packed (cl_mode cl))) (\<lambda>share.
     bnd (wire_request cl CHR ''M'' [packed, share, packing_base]) (\<lambda>reply.
     bnd (count_smul 1 2) (\<lambda>_.
     bnd (of_sum (takeInteger reply 0)) (\<lambda>(product, off).
     bnd (tp_scalarMultiply cl a (- r2)) (\<lambda>c1.
     bnd (tp_scalarMultiply cl b (- r1)) (\<lambda>c2.
     bnd (tp_encrypt cl (- r1 * r2)) (\<lambda>e.
     ret (tp_add cl (tp_add cl (tp_add cl product c1) c2) e)))))))))))))"

definition batch_request_header :: "char \<Rightarrow> nat \<Rightarrow> bytes" where
  "batch_request_header kind items = [op CHR ''B'', op kind, 1, 0] @ writeU32 (of_nat items)"

definition bad_batch_reply :: "bytes \<Rightarrow> nat \<Rightarrow> bool" where
  "bad_batch_reply reply items \<longleftrightarrow> length reply < 8 \<or> reply ! 0 \<noteq> 1 \<or> reply ! 1 \<noteq> 0 \<or> reply ! 2 \<noteq> 0 \<or>
     reply ! 3 \<noteq> 0 \<or> unat (readU32 (drop 4 reply)) \<noteq> items"

definition tp_secureMultiplyBatch :: "client \<Rightarrow> (int \<times> int) list \<Rightarrow> (world, int list) eff" where
  "tp_secureMultiplyBatch cl items =
     (let k = length items in
      if items = [] \<or> k > max_batch_size then throw (StdInvalidArgument ''invalid SMUL batch size'')
      else
      bnd (mapM (\<lambda>item. bnd (on_rng (randomMask SMask1)) (\<lambda>r1. bnd (on_rng (randomMask SMask2)) (\<lambda>r2.
         ret (r1, r2)))) items) (\<lambda>masks.
      bnd (tp_encryptBatch cl (flat_pairs masks)) (\<lambda>encrypted_masks.
      bnd (mapM (\<lambda>i. let ma = tp_add cl (fst (items ! i)) (encrypted_masks ! (2 * i));
                         mb = tp_add cl (snd (items ! i)) (encrypted_masks ! (2 * i + 1))
                     in bnd (tp_scalarMultiply cl ma packing_base) (\<lambda>shifted. ret (tp_add cl shifted mb)))
             [0..<k]) (\<lambda>packed.
      bnd (of_sum (partialDecryptBatch (cl_enclave cl) packed (cl_mode cl))) (\<lambda>shares.
      bnd (of_sum (append_ints (batch_request_header CHR ''M'' k)
             (concat (map (\<lambda>(c, u). [c, u, packing_base]) (zip packed shares))))) (\<lambda>request.
      bnd (requestPayload cl request) (\<lambda>reply.
      if bad_batch_reply reply k then throw (StdRuntimeError ''bad SMUL batch response'')
      else
      bnd (of_sum (take_ints k reply 8)) (\<lambda>(products, off).
      if length reply - off \<noteq> 8 then throw (StdRuntimeError ''bad SMUL batch timing data'')
      else
      bnd (tp_encryptBatch cl (map (\<lambda>(r1, r2). - r1 * r2) masks)) (\<lambda>corrections.
      bnd (mapM (\<lambda>i. bnd (tp_scalarMultiply cl (fst (items ! i)) (- snd (masks ! i))) (\<lambda>c1.
                     bnd (tp_scalarMultiply cl (snd (items ! i)) (- fst (masks ! i))) (\<lambda>c2.
                     ret (tp_add cl (tp_add cl (tp_add cl (products ! i) c1) c2) (corrections ! i)))))
             [0..<k]) (\<lambda>out.
      bnd (count_smul k 1) (\<lambda>_. ret out)))))))))))"

section \<open>Comparison\<close>

definition count_scmp :: "nat \<Rightarrow> nat \<Rightarrow> (world, unit) eff" where
  "count_scmp items ecalls = count_up (\<lambda>m. m\<lparr>logical_items := logical_items m + of_nat items,
     scmp_logical_items := scmp_logical_items m + of_nat items, scmp_dispatches := scmp_dispatches m + 1,
     cp_ecalls := cp_ecalls m + 1, csp_ecalls := csp_ecalls m + of_nat ecalls,
     csp_requests := csp_requests m + 1\<rparr>)"

text \<open>The masks of one comparison: \<open>r3\<close>, the smaller \<open>r\<close> and the orientation.\<close>

definition compare_masks :: "(world, int \<times> int \<times> bool) eff" where
  "compare_masks =
     bnd (on_rng (randomMask SMask3)) (\<lambda>r3.
     bnd (on_rng (repeat_until (randomMask SNoise) (\<lambda>r. \<not> r \<ge> r3))) (\<lambda>r.
     bnd (on_rng (randomBits SOrient 1)) (\<lambda>o1.
     ret (r3, r, o1 \<noteq> 0))))"

text \<open>The plaintext of the mask, and the masked difference of \<open>a > b\<close>.\<close>

definition compare_mask_value :: "client \<Rightarrow> int \<times> int \<times> bool \<Rightarrow> int" where
  "compare_mask_value cl m =
     (let (r3, r, orientation) = m; r4 = cl_modulus cl div 2 - r in if orientation then r4 else r3 + r4)"

definition masked_difference ::
  "client \<Rightarrow> string \<Rightarrow> int \<Rightarrow> int \<Rightarrow> int \<times> int \<times> bool \<Rightarrow> int \<Rightarrow> (world, int) eff" where
  "masked_difference cl message a b m encrypted_mask =
     (let (r3, r, orientation) = m; left = b; right = a in
      bnd (if \<not> orientation
           then bnd (tp_scalarMultiply cl right (cl_modulus cl - 1)) (\<lambda>c. ret (tp_add cl left c))
           else bnd (tp_scalarMultiply cl left (- 1)) (\<lambda>c. ret (tp_add cl right c))) (\<lambda>difference.
      bnd (tp_scalarMultiply cl difference r3) (\<lambda>scaled.
      let difference = tp_add cl scaled encrypted_mask in
      if difference \<le> 0 \<or> difference \<ge> cl_nsq cl \<or> gcd difference (cl_modulus cl) \<noteq> 1
      then throw (StdRuntimeError message)
      else ret difference)))"

text \<open>The bit of the server, turned round when the operands were.\<close>

definition orient_bit :: "client \<Rightarrow> bool \<Rightarrow> int \<Rightarrow> (world, int) eff" where
  "orient_bit cl orientation b =
     (if orientation then
        bnd (tp_encrypt cl 1) (\<lambda>one. bnd (tp_scalarMultiply cl b (- 1)) (\<lambda>c. ret (tp_add cl one c)))
      else ret b)"

definition tp_greaterThan :: "client \<Rightarrow> int \<Rightarrow> int \<Rightarrow> (world, int) eff" where
  "tp_greaterThan cl a b =
     bnd compare_masks (\<lambda>m.
     bnd (tp_encrypt cl (compare_mask_value cl m)) (\<lambda>e.
     bnd (masked_difference cl ''SCMP produced invalid ciphertext'' a b m e) (\<lambda>difference.
     bnd (of_sum (partialDecrypt (cl_enclave cl) difference (cl_mode cl))) (\<lambda>share.
     bnd (wire_request cl CHR ''C'' [difference, share]) (\<lambda>reply.
     bnd (count_scmp 1 2) (\<lambda>_.
     bnd (of_sum (takeInteger reply 0)) (\<lambda>(b, off).
     orient_bit cl (snd (snd m)) b)))))))"

definition tp_greaterThanBatch :: "client \<Rightarrow> (int \<times> int) list \<Rightarrow> (world, int list) eff" where
  "tp_greaterThanBatch cl items =
     (let k = length items in
      if items = [] \<or> k > max_batch_size then throw (StdInvalidArgument ''invalid SCMP batch size'')
      else
      bnd (mapM (\<lambda>item. compare_masks) items) (\<lambda>masks.
      bnd (tp_encryptBatch cl (map (compare_mask_value cl) masks)) (\<lambda>encrypted_masks.
      bnd (mapM (\<lambda>i. masked_difference cl ''SCMP produced invalid ciphertext'' (fst (items ! i)) (snd (items ! i))
             (masks ! i) (encrypted_masks ! i)) [0..<k]) (\<lambda>differences.
      bnd (of_sum (partialDecryptBatch (cl_enclave cl) differences (cl_mode cl))) (\<lambda>shares.
      bnd (of_sum (append_ints (batch_request_header CHR ''C'' k) (flat_pairs (zip differences shares)))) (\<lambda>request.
      bnd (requestPayload cl request) (\<lambda>reply.
      if bad_batch_reply reply k then throw (StdRuntimeError ''bad SCMP batch response'')
      else
      bnd (foldM (\<lambda>i (off, out).
             bnd (of_sum (takeInteger reply off)) (\<lambda>(b, off).
             bnd (orient_bit cl (snd (snd (masks ! i))) b) (\<lambda>c. ret (off, out @ [c])))) [0..<k] (8, [])) (\<lambda>(off, out).
      if length reply - off \<noteq> 8 then throw (StdRuntimeError ''bad SCMP batch timing data'')
      else bnd (count_scmp k 1) (\<lambda>_. ret out)))))))))"

section \<open>Decryption and the other requests\<close>

definition tp_decryptForTesting :: "client \<Rightarrow> int \<Rightarrow> (world, int) eff" where
  "tp_decryptForTesting cl c =
     bnd (of_sum (partialDecrypt (cl_enclave cl) c (cl_mode cl))) (\<lambda>share.
     bnd (wire_request cl CHR ''D'' [c, share]) (\<lambda>reply.
     bnd (of_sum (takeInteger reply 0)) (\<lambda>(plaintext, off).
     ret (if plaintext > cl_modulus cl div 2 then plaintext - cl_modulus cl else plaintext))))"

definition as_predicate_error :: "string \<Rightarrow> exn \<Rightarrow> exn" where
  "as_predicate_error message e = (case e of PredicateError m \<Rightarrow> PredicateError m | _ \<Rightarrow> PredicateError message)"

definition append_context :: "bytes \<Rightarrow> predicate_context \<Rightarrow> exn + bytes" where
  "append_context out ctx =
     sbind (appendContextString out (session_id ctx)) (\<lambda>out.
     sbind (appendContextString out (operation_id ctx)) (\<lambda>out.
     appendContextString out (node_id ctx)))"

definition predicate_header :: "char \<Rightarrow> predicate_context \<Rightarrow> 8 word \<Rightarrow> bytes" where
  "predicate_header operation ctx flag =
     [op operation, predicate_code (predicate_type ctx), flag, 0] @ writeU32 (of_nat (ctx_depth ctx))"

definition tp_revealFinalPredicate :: "client \<Rightarrow> predicate_context \<Rightarrow> int \<Rightarrow> (world, bool) eff" where
  "tp_revealFinalPredicate cl ctx encrypted_bit =
     catch
       (bnd (of_sum (append_context (predicate_header CHR ''P'' ctx 0) ctx)) (\<lambda>request.
        bnd (of_sum (appendInteger request encrypted_bit)) (\<lambda>request.
        bnd (of_sum (partialDecrypt (cl_enclave cl) encrypted_bit (cl_mode cl))) (\<lambda>share.
        bnd (of_sum (appendInteger request share)) (\<lambda>request.
        bnd (requestPayload cl request) (\<lambda>reply.
        if length reply \<noteq> 1 \<or> hd reply > 1 then throw (PredicateError ''invalid threshold predicate response'')
        else
        bnd (count_up (\<lambda>m. m\<lparr>predicate_reveals := predicate_reveals m + 1, cp_ecalls := cp_ecalls m + 1,
          csp_ecalls := csp_ecalls m + 2, csp_requests := csp_requests m + 1\<rparr>)) (\<lambda>_.
        ret (hd reply = 1))))))))
       (\<lambda>e. throw (as_predicate_error ''threshold predicate reveal failed'' e))"

definition tp_requestServerShutdown :: "client \<Rightarrow> (world, unit) eff" where
  "tp_requestServerShutdown cl = bnd (wire_request cl CHR ''Q'' []) (\<lambda>_. ret ())"

definition tp_refreshCspMetrics :: "client \<Rightarrow> (world, unit) eff" where
  "tp_refreshCspMetrics cl =
     bnd (requestPayload cl [op CHR ''T'']) (\<lambda>reply.
     if length reply \<noteq> 64 \<or> take 4 reply \<noteq> ascii ''CSTM'' \<or> reply ! 4 \<noteq> 1 \<or> reply ! 5 \<noteq> 0 \<or> reply ! 6 \<noteq> 0 \<or>
        reply ! 7 \<noteq> 0
     then throw (StdRuntimeError ''bad CSP timing response'')
     else count_up (m_csp_times_update (\<lambda>t. t\<lparr>request_ns := readU64 (drop 8 reply),
       threshold_decrypt_ns := readU64 (drop 16 reply), encrypt_ns := readU64 (drop 24 reply),
       parse_serialize_ns := readU64 (drop 32 reply), socket_send_ns := readU64 (drop 40 reply),
       fused_rsa_public_powm_ns := readU64 (drop 48 reply),
       fused_circuit_evaluate_ns := readU64 (drop 56 reply)\<rparr>)))"

section \<open>The two sides fit\<close>

text \<open>
  The client and its server hold the shares of one key and the same modulus, which leaves room for
  two packed masked operands. The random sources never run dry of usable nonces and masks.
\<close>

definition linked :: "client \<Rightarrow> int \<Rightarrow> bool" where
  "linked cl mu \<longleftrightarrow> key_shares (cl_mode cl) (cl_modulus cl) mu (cl_enclave cl) (sv_enclave (cl_peer cl)) \<and>
     sv_modulus (cl_peer cl) = cl_modulus cl \<and> sv_mode (cl_peer cl) = cl_mode cl \<and> 2 ^ 262 < cl_modulus cl"

definition fair_masks :: "(site \<Rightarrow> nat \<Rightarrow> int) \<Rightarrow> bool" where
  "fair_masks f \<longleftrightarrow> (\<forall>i. f SMask3 i mod 2 ^ 127 \<noteq> 0) \<and> often (\<lambda>raw. raw mod 2 ^ 127 = 0) (f SNoise)"

definition fair_ot :: "int \<Rightarrow> site \<Rightarrow> (site \<Rightarrow> nat \<Rightarrow> int) \<Rightarrow> bool" where
  "fair_ot n t f \<longleftrightarrow> often (\<lambda>raw. raw mod 2 ^ sizeinbase2 (n - 1) < n \<and> raw mod 2 ^ sizeinbase2 (n - 1) \<noteq> 0) (f t)"

definition fair_client :: "client \<Rightarrow> (site \<Rightarrow> nat \<Rightarrow> int) \<Rightarrow> bool" where
  "fair_client cl f \<longleftrightarrow> fair_nonce (cl_modulus cl) f \<and> fair_masks f \<and> fair_ot (cl_ot_modulus cl) SOtX0 f \<and>
     fair_ot (cl_ot_modulus cl) SOtX1 f"

definition csp_ready :: "client \<Rightarrow> csp \<Rightarrow> bool" where
  "csp_ready cl c \<longleftrightarrow> fair_nonce (cl_modulus cl) (src (csp_rng c)) \<and>
     fair_ot (cl_ot_modulus cl) SOtKey (src (csp_rng c)) \<and> csp_pending c = None"

text \<open>The client's side is ready and connected, the server is in \<open>C\<close>.\<close>

definition world_inv :: "client \<Rightarrow> (csp \<Rightarrow> bool) \<Rightarrow> world \<Rightarrow> bool" where
  "world_inv cl C w \<longleftrightarrow> fair_client cl (src (w_rng w)) \<and> C (w_csp w) \<and> w_open w"

abbreviation world_ready :: "client \<Rightarrow> world \<Rightarrow> bool" where
  "world_ready cl \<equiv> world_inv cl (csp_ready cl)"

lemma linked_simps:
  assumes "linked cl mu"
  shows "1 < cl_modulus cl" "deployable (cl_modulus cl)" "sv_modulus (cl_peer cl) = cl_modulus cl"
    "sv_mode (cl_peer cl) = cl_mode cl" "2 ^ 262 < cl_modulus cl"
  using assms by (auto simp: linked_def key_shares_def deployable_def)

lemma of_sum_Inr [simp]: "of_sum (Inr a) = ret a" "of_sum (Inl e) = throw e"
  by (simp_all add: of_sum_def ret_def throw_def)

lemma yields_catch: "yields I no_exn m R \<Longrightarrow> yields I E (catch m h) R"
  unfolding yields_def no_exn_def by (fastforce simp: catch_app split: option.splits sum.splits)

text \<open>Calls on one side.\<close>

lemma yields_on_rng:
  assumes "yields (\<lambda>g::rng. fair_client cl (src g)) E m R"
  shows "yields (world_inv cl C) E (on_rng m) R"
  unfolding on_rng_def by (rule yields_zoom [OF assms]) (auto simp: world_inv_def)

lemma yields_count_up [yields_rules]: "R () \<Longrightarrow> yields (world_inv cl C) E (count_up f) R"
  by (simp add: yields_def count_up_def eff_simps world_inv_def)

lemma yields_on_csp_rng:
  assumes "yields (\<lambda>g::rng. fair_nonce (cl_modulus cl) (src g) \<and> fair_ot (cl_ot_modulus cl) SOtKey (src g)) E m R"
  shows "yields (csp_ready cl) E (on_csp_rng m) R"
  unfolding on_csp_rng_def by (rule yields_zoom [OF assms]) (auto simp: csp_ready_def)

lemma yields_elapsedNs [yields_rules]: "(\<And>t. R t) \<Longrightarrow> yields (csp_ready cl) E elapsedNs R"
  by (simp add: yields_def elapsedNs_def csp_ready_def)

lemma yields_add_time [yields_rules]: "R () \<Longrightarrow> yields (csp_ready cl) E (add_time field) R"
  by (simp add: yields_def add_time_def elapsedNs_def eff_simps csp_ready_def)

lemma yields_csp_times [yields_rules]: "R () \<Longrightarrow> yields (csp_ready cl) E (upd_st (csp_times_update f)) R"
  by (simp add: yields_def eff_simps csp_ready_def)

text \<open>A request that the server answers.\<close>

lemma yields_requestPayload:
  assumes "yields (csp_ready cl) no_exn (csp_handle (cl_peer cl) payload)
      (\<lambda>reply. \<exists>b. reply = Reply (0 # b) \<and> length b < max_frame \<and> R b)"
    and "length payload \<le> max_frame"
  shows "yields (world_ready cl) no_exn (requestPayload cl payload) R"
proof (rule yieldsI_ok)
  fix w assume w: "world_ready cl w"
  then have "csp_ready cl (w_csp w)" "w_open w" by (simp_all add: world_inv_def)
  from yields_no_exnD [OF assms(1) this(1)] obtain b c where
    "csp_handle (cl_peer cl) payload (w_csp w) = Some (Inr (Reply (0 # b)), c)" "csp_ready cl c"
    "length b < max_frame" "R b" by blast
  with w \<open>w_open w\<close> assms(2) show "\<exists>a s'. requestPayload cl payload w = Some (Inr a, s') \<and> world_ready cl s' \<and> R a"
    by (simp add: requestPayload_def eff_simps csp_serve_def reply_payload_def world_inv_def Suc_le_eq)
qed

section \<open>Local operations give ciphertexts\<close>

lemma yields_randomMask:
  "yields (world_inv cl C) E (on_rng (randomMask t)) (\<lambda>r. 2 ^ 127 \<le> r \<and> r < 2 ^ 128)"
proof (rule yields_on_rng)
  have "yields (\<lambda>g::rng. fair_client cl (src g)) E (randomBits t 127)
      (\<lambda>b. 0 \<le> b \<and> b < 2 ^ 127)"
    unfolding randomBits_def by (simp, rule yields_draw) simp
  then show "yields (\<lambda>g::rng. fair_client cl (src g)) E (randomMask t)
      (\<lambda>r. 2 ^ 127 \<le> r \<and> r < 2 ^ 128)"
    unfolding randomMask_def by (rule yields_bnd) (simp add: yields_ret)
qed

lemma yields_tp_encrypt:
  assumes "linked cl mu"
  shows "yields (world_inv cl C) E (tp_encrypt cl m) (\<lambda>c. is_cipher (cl_modulus cl) c m)"
  unfolding tp_encrypt_def
  by (rule yields_bnd [OF yields_on_rng [OF yields_paillierEncrypt [OF linked_simps(1) [OF assms],
        where F = "fair_client cl"]]])
     (auto intro: yields_bnd yields_rules simp: fair_client_def)

lemma yields_tp_encryptBatch:
  assumes "linked cl mu"
  shows "yields (world_inv cl C) E (tp_encryptBatch cl ms) (list_all2 (\<lambda>m c. is_cipher (cl_modulus cl) c m) ms)"
  unfolding tp_encryptBatch_def
  by (rule yields_bnd [OF yields_on_rng [OF yields_paillierEncryptBatch [OF linked_simps(1) [OF assms],
        where F = "fair_client cl"]]])
     (auto intro: yields_bnd yields_rules simp: fair_client_def)

lemma tp_add_cipher:
  "linked cl mu \<Longrightarrow> is_cipher (cl_modulus cl) a x \<Longrightarrow> is_cipher (cl_modulus cl) b y \<Longrightarrow>
     is_cipher (cl_modulus cl) (tp_add cl a b) (x + y)"
  unfolding tp_add_def by (intro cadd_cipher linked_simps)

lemma yields_tp_scalarMultiply:
  assumes "linked cl mu" "is_cipher (cl_modulus cl) v x"
  shows "yields (world_inv cl C) E (tp_scalarMultiply cl v k) (\<lambda>c. is_cipher (cl_modulus cl) c (k * x))"
proof -
  obtain d where "ciphertextPower v k (cl_nsq cl) = Inr d" "is_cipher (cl_modulus cl) d (k * x)"
    using ciphertextPower_cipher [OF linked_simps(1) [OF assms(1)] assms(2)] by blast
  then show ?thesis
    unfolding tp_scalarMultiply_def by (auto intro!: yields_bnd [OF yields_of_sum] yields_bnd yields_rules)
qed

section \<open>The server's batches\<close>

definition batch_ints :: "bool \<Rightarrow> (int \<times> int \<times> int) list \<Rightarrow> int list" where
  "batch_ints mul items = concat (map (\<lambda>(c, u, base). if mul then [c, u, base] else [c, u]) items)"

lemma batch_ints_simps [simp]:
  "batch_ints mul [] = []"
  "batch_ints mul ((c, u, base) # items) = (if mul then [c, u, base] else [c, u]) @ batch_ints mul items"
  by (simp_all add: batch_ints_def)

lemma take_batch_items_ok:
  "\<forall>(c, u, base)\<in>set items. wire_int c \<and> wire_int u \<and> wire_int base \<and> (\<not> mul \<longrightarrow> base = 0) \<Longrightarrow>
     take_batch_items (length items) mul (pre @ ints_bytes (batch_ints mul items)) (length pre) =
       Inr (items, length pre + length (ints_bytes (batch_ints mul items)))"
proof (induction items arbitrary: pre)
  case (Cons x items)
  obtain c u base where x: "x = (c, u, base)" by (cases x)
  have w: "wire_int c" "wire_int u" "wire_int base" "\<not> mul \<Longrightarrow> base = 0" using Cons.prems by (auto simp: x)
  let ?rest = "ints_bytes (batch_ints mul items)" and ?b = "if mul then int_bytes base else []"
  have IH: "take_batch_items (length items) mul ((pre @ int_bytes c @ int_bytes u @ ?b) @ ?rest)
      (length (pre @ int_bytes c @ int_bytes u @ ?b)) =
      Inr (items, length (pre @ int_bytes c @ int_bytes u @ ?b) + length ?rest)"
    using Cons.prems by (intro Cons.IH) simp
  show ?case
    using IH w takeInteger_ok [OF w(1), of pre "int_bytes u @ ?b @ ?rest"]
      takeInteger_ok [OF w(2), of "pre @ int_bytes c" "?b @ ?rest"]
      takeInteger_ok [OF w(3), of "pre @ int_bytes c @ int_bytes u" ?rest]
    by (cases mul) (simp_all add: x add.assoc)
qed simp

lemma wire_int_cipher: "linked cl mu \<Longrightarrow> is_cipher (cl_modulus cl) c m \<Longrightarrow> wire_int c \<and> 0 < c \<and> c < cl_nsq cl"
  using is_cipher_coprime [OF linked_simps(1), of cl mu c m] by (auto intro: wire_int_below [OF linked_simps(2)])

lemma wire_int_packing: "wire_int packing_base" "wire_int 0"
  using mag_size_bound [of packing_base 17]
  by (simp_all add: wire_int_def packing_base_def mag_size_def [of 0] sizeinbase2_def)

lemma yields_csp_encrypt_batch:
  assumes "linked cl mu"
  shows "yields (csp_ready cl) E (csp_encrypt_batch (cl_peer cl) ms)
    (list_all2 (\<lambda>m c. is_cipher (cl_modulus cl) c m) ms)"
  unfolding csp_encrypt_batch_def linked_simps(3) [OF assms]
  by (rule yields_on_csp_rng [OF yields_paillierEncryptBatch [OF linked_simps(1) [OF assms],
        where F = "\<lambda>f. fair_nonce (cl_modulus cl) f \<and> fair_ot (cl_ot_modulus cl) SOtKey f"]]) simp

text \<open>The bytes after the status of the reply to a batch.\<close>

definition batch_reply :: "int list \<Rightarrow> 64 word \<Rightarrow> bytes" where
  "batch_reply rs ns = [1, 0, 0, 0] @ writeU32 (of_nat (length rs)) @ ints_bytes rs @ appendU64 [] ns"

lemma batch_served:
  assumes l: "linked cl mu" and cs: "cs \<noteq> []" "length cs \<le> 32" "list_all2 (is_cipher (cl_modulus cl)) cs ms"
    and us: "partialDecryptBatch (cl_enclave cl) cs (cl_mode cl) = Inr us"
    and base: "wire_int base" "if mul then kind = CHR ''M'' \<and> 1 < base else kind = CHR ''C'' \<and> base = 0"
    and request: "request = batch_request_header kind (length cs) @ ints_bytes (batch_ints mul (map2 (\<lambda>c u. (c, u, base)) cs us))"
  shows "yields (world_ready cl) no_exn (requestPayload cl request) (\<lambda>reply. \<exists>rs ns. reply = batch_reply rs ns \<and>
    list_all2 (\<lambda>m r. is_cipher (cl_modulus cl) r (batch_result (cl_peer cl) mul base (m mod cl_modulus cl))) ms rs)"
proof -
  let ?n = "cl_modulus cl" and ?sv = "cl_peer cl" and ?k = "length cs"
  let ?items = "map2 (\<lambda>c u. (c, u, base)) cs us"
  have k: "key_shares (cl_mode cl) ?n mu (cl_enclave cl) (sv_enclave ?sv)" using l by (simp add: linked_def)
  obtain us': "length us = ?k" "\<forall>u\<in>set us. wire_int u"
    and dec: "thresholdDecryptBatch (sv_enclave ?sv) cs us (cl_mode cl) = Inr (map (\<lambda>m. m mod ?n) ms)"
    using shares_batch [OF k cs] us by auto
  have lm: "length ms = ?k" using cs(3) by (simp add: list_all2_lengthD)
  have items: "length ?items = ?k" "map fst ?items = cs" "map (fst \<circ> snd) ?items = us"
    using us' by (simp_all add: comp_def case_prod_beta)
  have range: "0 < c \<and> c < ?n * ?n \<and> wire_int c" if "c \<in> set cs" for c
    using cs(3) that wire_int_cipher [OF l] by (fastforce simp: list_all2_conv_all_nth in_set_conv_nth)
  have w: "\<forall>(c, u, b)\<in>set ?items. wire_int c \<and> wire_int u \<and> wire_int b \<and> (\<not> mul \<longrightarrow> b = 0)"
    using range us' base by (auto dest: set_zip_leftD set_zip_rightD split: if_splits)
  have good: "list_all (\<lambda>(c, u, b). 0 < c \<and> c < ?n * ?n \<and> (mul \<longrightarrow> 1 < b)) ?items"
    using range base by (auto simp: list_all_iff dest: set_zip_leftD split: if_splits)
  have hd: "length (batch_request_header kind ?k) = 8" "readU32 (drop 4 request) = of_nat ?k" "length request \<ge> 8"
      "hd request = op CHR ''B''" "request ! 1 = op kind" "request ! 2 = 1" "request ! 3 = 0" "request \<noteq> []"
    by (simp_all add: batch_request_header_def request readU32_writeU32)
  have kk: "unat (of_nat ?k :: 32 word) = ?k" using cs(2) by (intro unat_of_nat_32) simp
  have take: "take_batch_items ?k mul request 8 = Inr (?items, length request)"
    using take_batch_items_ok [OF w, of "batch_request_header kind ?k"] items(1) hd(1) by (simp add: request)
  have kind: "request ! 1 \<in> {op CHR ''C'', op CHR ''M''}" "request ! 1 = op CHR ''M'' \<longleftrightarrow> mul"
    using base(2) unfolding hd(5) by (cases mul; simp)+
  let ?vals = "map2 (\<lambda>(c, u, b) p. batch_result ?sv mul b p) ?items (map (\<lambda>m. m mod ?n) ms)"
  have vals: "?vals = map (\<lambda>m. batch_result ?sv mul base (m mod ?n)) ms"
    using us' lm by (intro nth_equalityI) simp_all
  have served: "yields (csp_ready cl) no_exn (csp_batch ?sv request) (\<lambda>reply. \<exists>rs ns. reply = Reply (0 # batch_reply rs ns) \<and>
      list_all2 (\<lambda>m r. is_cipher ?n r (batch_result ?sv mul base (m mod ?n))) ms rs)"
  proof -
    let ?post = "\<lambda>reply. \<exists>rs ns. reply = Reply (0 # batch_reply rs ns) \<and>
      list_all2 (\<lambda>m r. is_cipher ?n r (batch_result ?sv mul base (m mod ?n))) ms rs"
    have final: "yields (csp_ready cl) no_exn
        (bnd (of_sum (append_ints ([0, 1, 0, 0, 0] @ writeU32 (of_nat ?k)) rs)) (\<lambda>reply.
         bnd (add_time parse_serialize_ns_update) (\<lambda>_.
         bnd (add_time socket_send_ns_update) (\<lambda>_.
         bnd (add_time request_ns_update) (\<lambda>_. ret (Reply (appendU64 reply ns))))))) ?post"
      if rs: "list_all2 (\<lambda>m r. is_cipher ?n r m) (map (\<lambda>m. batch_result ?sv mul base (m mod ?n)) ms) rs" for rs ns
    proof -
      have len: "length rs = ?k" using rs lm by (auto dest: list_all2_lengthD)
      have "\<forall>r\<in>set rs. wire_int r"
        using rs wire_int_cipher [OF l] by (fastforce simp: list_all2_conv_all_nth in_set_conv_nth)
      then have a: "append_ints ([0, 1, 0, 0, 0] @ writeU32 (of_nat ?k)) rs = Inr (([0, 1, 0, 0, 0] @ writeU32 (of_nat ?k)) @ ints_bytes rs)"
        using len cs(2) by (intro append_ints_ok) simp_all
      have "appendU64 (([0, 1, 0, 0, 0] @ writeU32 (of_nat ?k)) @ ints_bytes rs) ns = 0 # batch_reply rs ns"
        by (simp add: batch_reply_def appendU64_def len)
      then show ?thesis
        using rs unfolding a of_sum_Inr bnd_ret
        by (intro yields_bnd [OF yields_add_time [OF TrueI]] yields_ret exI [of _ rs] exI [of _ ns] conjI)
          (simp_all add: list_all2_map1)
    qed
    have "csp_batch ?sv request =
        bnd (add_time parse_serialize_ns_update) (\<lambda>_.
        bnd elapsedNs (\<lambda>csp_ecall_ns.
        bnd (upd_st (csp_times_update (threshold_decrypt_ns_update (\<lambda>x. x + csp_ecall_ns)))) (\<lambda>_.
        bnd (csp_encrypt_batch ?sv (map2 (\<lambda>(c, u, b) p. batch_result ?sv mul b p) ?items (map (\<lambda>m. m mod ?n) ms))) (\<lambda>results.
        bnd (add_time encrypt_ns_update) (\<lambda>_.
        bnd (of_sum (append_ints ([0, 1, 0, 0, 0] @ writeU32 (of_nat ?k)) results)) (\<lambda>reply.
        bnd (add_time parse_serialize_ns_update) (\<lambda>_.
        bnd (add_time socket_send_ns_update) (\<lambda>_.
        bnd (add_time request_ns_update) (\<lambda>_.
        ret (Reply (appendU64 reply csp_ecall_ns)))))))))))"
    proof -
      define its where "its = ?items"
      have "take_batch_items ?k mul request 8 = Inr (its, length request)"
        "list_all (\<lambda>(c, u, b). 0 < c \<and> c < ?n * ?n \<and> (mul \<longrightarrow> 1 < b)) its"
        "map fst its = cs" "map (fst \<circ> snd) its = us"
        using take good items by (simp_all only: its_def)
      note facts = this hd(2-7) kk kind dec linked_simps(3,4) [OF l]
      have "\<not> ?k > max_batch_size" "?k \<noteq> 0" using cs by (simp_all add: max_batch_size_def)
      then show ?thesis
        unfolding csp_batch_def Let_def its_def [symmetric] using facts(3-) facts(1,2)
        by (simp only: if_False if_True kind(2) of_sum_Inr bnd_ret prod.case simp_thms not_less [symmetric]) 
    qed
    then show ?thesis
      unfolding vals
      by (simp only:)
         (intro yields_bnd [OF yields_add_time [OF TrueI]] yields_bnd [OF yields_elapsedNs [OF TrueI]]
           yields_bnd [OF yields_csp_times [OF TrueI]] yields_bnd [OF yields_csp_encrypt_batch [OF l]] final)
  qed
  have handle: "csp_handle ?sv request = csp_batch ?sv request"
    using hd(4,8) by (simp add: csp_handle_def)
  have "\<forall>v\<in>set (batch_ints mul ?items). wire_int v"
    using w by (fastforce simp: batch_ints_def split: if_splits)
  then have "length (ints_bytes (batch_ints mul ?items)) \<le> 2052 * length (batch_ints mul ?items)"
    by (rule length_ints_bytes)
  moreover have "length (batch_ints mul xs) \<le> 3 * length xs" for xs by (induction xs) auto
  from this [of ?items] have "length (batch_ints mul ?items) \<le> 3 * ?k" by (simp only: items(1))
  ultimately have len: "length (ints_bytes (batch_ints mul ?items)) \<le> 2052 * (3 * ?k)" by linarith
  show ?thesis
  proof (rule yields_requestPayload)
    show "length request \<le> max_frame" using len hd(1) cs(2) by (simp add: request max_frame_def)
    have small: "length (batch_reply rs ns) < max_frame"
      if "list_all2 (\<lambda>m r. is_cipher ?n r (batch_result ?sv mul base (m mod ?n))) ms rs" for rs ns
    proof -
      have "\<forall>r\<in>set rs. wire_int r"
        using that wire_int_cipher [OF l] by (fastforce simp: list_all2_conv_all_nth in_set_conv_nth)
      from length_ints_bytes [OF this] show ?thesis
        using that lm cs(2) by (auto simp: batch_reply_def max_frame_def appendU64_def dest!: list_all2_lengthD)
    qed
    show "yields (csp_ready cl) no_exn (csp_handle ?sv request)
      (\<lambda>reply. \<exists>b. reply = Reply (0 # b) \<and> length b < max_frame \<and> (\<exists>rs ns. b = batch_reply rs ns \<and>
        list_all2 (\<lambda>m r. is_cipher ?n r (batch_result ?sv mul base (m mod ?n))) ms rs))"
      unfolding handle by (rule yields_weaken [OF served]) (use small in blast)
  qed
qed

text \<open>What the client reads of such a reply.\<close>

lemma batch_reply_header:
  assumes "length rs = k" "k \<le> 32"
  shows "\<not> bad_batch_reply (batch_reply rs ns) k"
  using assms unat_of_nat_32 [of k]
  by (simp add: bad_batch_reply_def batch_reply_def readU32_writeU32)

lemma batch_reply_ints:
  assumes "\<forall>r\<in>set rs. wire_int r"
  shows "take_ints (length rs) (batch_reply rs ns) 8 = Inr (rs, 8 + length (ints_bytes rs))"
    "length (batch_reply rs ns) = 8 + length (ints_bytes rs) + 8"
  using take_ints_ok [OF assms, of "[1, 0, 0, 0] @ writeU32 (of_nat (length rs))" "appendU64 [] ns"]
  by (simp_all add: batch_reply_def appendU64_def)

section \<open>Masked multiplication\<close>

definition small :: "int \<Rightarrow> bool" where
  "small x \<longleftrightarrow> \<bar>x\<bar> < 2 ^ 127"

definition is_mask :: "int \<Rightarrow> bool" where
  "is_mask r \<longleftrightarrow> 2 ^ 127 \<le> r \<and> r < 2 ^ 128"

text \<open>Encryptions of small operands.\<close>

definition pair_cipher :: "int \<Rightarrow> int \<times> int \<Rightarrow> int \<times> int \<Rightarrow> bool" where
  "pair_cipher n item v \<longleftrightarrow> is_cipher n (fst item) (fst v) \<and> is_cipher n (snd item) (snd v) \<and>
     small (fst v) \<and> small (snd v)"

lemma masked_range: "small x \<Longrightarrow> is_mask r \<Longrightarrow> 0 < x + r \<and> x + r < 2 ^ 129"
  by (auto simp: small_def is_mask_def abs_less_iff)

text \<open>The packed operands come apart again, because both are positive and below the packing base.\<close>

lemma packed_product:
  assumes "small x" "small y" "is_mask r1" "is_mask r2" "2 ^ 262 < n"
  shows "batch_result sv True packing_base ((packing_base * (x + r1) + (y + r2)) mod n) = (x + r1) * (y + r2)"
proof -
  let ?a = "x + r1" and ?b = "y + r2"
  have a: "0 < ?a" "?a < 2 ^ 129" and b: "0 < ?b" "?b < 2 ^ 129"
    using masked_range assms(1-4) by blast+
  have "packing_base * ?a + ?b < 2 ^ 130 * 2 ^ 129 + 2 ^ 129" using a b by (simp add: packing_base_def)
  also have "\<dots> \<le> 2 ^ 262" by simp
  also have "\<dots> < n" by fact
  finally have P: "(packing_base * ?a + ?b) mod n = packing_base * ?a + ?b"
    using a b by (intro mod_pos_pos_trivial) (simp_all add: packing_base_def)
  have bb: "0 \<le> ?b" "?b < packing_base" using b by (simp_all add: packing_base_def)
  have "(p * c + d) div p = c \<and> (p * c + d) mod p = d" if "0 \<le> d" "d < p" for p c d :: int
    using that by (simp add: div_mult_self4 mod_mult_self4)
  from this [OF bb, of ?a] have "(packing_base * ?a + ?b) div packing_base = ?a" "(packing_base * ?a + ?b) mod packing_base = ?b"
    by blast+
  then show ?thesis unfolding P batch_result_def by (simp only: if_True)
qed

lemma flat_pairs_nth:
  "i < length ps \<Longrightarrow> flat_pairs ps ! (2 * i) = fst (ps ! i) \<and> flat_pairs ps ! (2 * i + 1) = snd (ps ! i)"
proof (induction ps arbitrary: i)
  case (Cons p ps)
  then show ?case by (cases i) auto
qed simp

lemma list_all2_upt: "list_all2 R [0..<k] ys \<longleftrightarrow> length ys = k \<and> (\<forall>i<k. R i (ys ! i))"
  by (auto simp: list_all2_conv_all_nth)

lemma yields_mapM_upt:
  assumes "\<And>i. i < k \<Longrightarrow> yields I E (f i) (R i)"
  shows "yields I E (mapM f [0..<k]) (\<lambda>ys. length ys = k \<and> (\<forall>i<k. R i (ys ! i)))"
  by (rule yields_weaken [OF yields_mapM [where R = R]]) (use assms in \<open>auto simp: list_all2_upt\<close>)

lemma is_cipher_cong: "is_cipher n c x \<Longrightarrow> x = y \<Longrightarrow> is_cipher n c y"
  by simp

lemma tp_secureMultiplyBatch_ok:
  assumes l: "linked cl mu" and items: "items \<noteq> []" "length items \<le> 32"
    and v: "list_all2 (pair_cipher (cl_modulus cl)) items vs"
  shows "yields (world_ready cl) no_exn (tp_secureMultiplyBatch cl items)
    (list_all2 (\<lambda>v c. is_cipher (cl_modulus cl) c (fst v * snd v)) vs)"
proof -
  let ?n = "cl_modulus cl" and ?k = "length items" and ?sv = "cl_peer cl"
  have vi: "is_cipher ?n (fst (items ! i)) (fst (vs ! i))" "is_cipher ?n (snd (items ! i)) (snd (vs ! i))"
    "small (fst (vs ! i))" "small (snd (vs ! i))" if "i < ?k" for i
    using v that by (auto simp: list_all2_conv_all_nth pair_cipher_def)
  have lv: "length vs = ?k" using v by (simp add: list_all2_lengthD)
  have key: "key_shares (cl_mode cl) ?n mu (cl_enclave cl) (sv_enclave ?sv)" using l by (simp add: linked_def)
  have guard: "\<not> (items = [] \<or> ?k > max_batch_size)" using items by (simp add: max_batch_size_def)
  have masks: "yields (world_ready cl) no_exn
      (mapM (\<lambda>item. bnd (on_rng (randomMask SMask1)) (\<lambda>r1. bnd (on_rng (randomMask SMask2)) (\<lambda>r2. ret (r1, r2)))) items)
      (\<lambda>ms. length ms = ?k \<and> (\<forall>i<?k. is_mask (fst (ms ! i)) \<and> is_mask (snd (ms ! i))))"
    by (rule yields_weaken [OF yields_mapM [where R = "\<lambda>_ m. is_mask (fst m) \<and> is_mask (snd m)"]])
       (auto intro!: yields_bnd [OF yields_randomMask] yields_ret simp: is_mask_def list_all2_conv_all_nth)
  show ?thesis
    unfolding tp_secureMultiplyBatch_def Let_def if_not_P [OF guard]
    apply (rule yields_bnd [OF masks], rule yields_bnd [OF yields_tp_encryptBatch [OF l]])
    subgoal premises p1 for masks ems
    proof -
      have m: "length masks = ?k" "\<And>i. i < ?k \<Longrightarrow> is_mask (fst (masks ! i)) \<and> is_mask (snd (masks ! i))"
        using p1(1) by simp_all
      have ems: "is_cipher ?n (ems ! (2 * i)) (fst (masks ! i))" "is_cipher ?n (ems ! (2 * i + 1)) (snd (masks ! i))"
        if "i < ?k" for i
      proof -
        have "2 * i < length (flat_pairs masks)" "2 * i + 1 < length (flat_pairs masks)" using that m(1) by simp_all
        with p1(2) flat_pairs_nth [of i masks] that m(1)
        show "is_cipher ?n (ems ! (2 * i)) (fst (masks ! i))" "is_cipher ?n (ems ! (2 * i + 1)) (snd (masks ! i))"
          unfolding list_all2_conv_all_nth by metis+
      qed
      let ?P = "\<lambda>i. packing_base * (fst (vs ! i) + fst (masks ! i)) + (snd (vs ! i) + snd (masks ! i))"
      have packed: "yields (world_ready cl) no_exn
         (mapM (\<lambda>i. bnd (tp_scalarMultiply cl (tp_add cl (fst (items ! i)) (ems ! (2 * i))) packing_base)
             (\<lambda>shifted. ret (tp_add cl shifted (tp_add cl (snd (items ! i)) (ems ! (2 * i + 1)))))) [0..<?k])
         (\<lambda>ps. length ps = ?k \<and> (\<forall>i<?k. is_cipher ?n (ps ! i) (?P i)))"
      proof (rule yields_mapM_upt)
        fix i assume i: "i < ?k"
        show "yields (world_ready cl) no_exn (bnd (tp_scalarMultiply cl (tp_add cl (fst (items ! i)) (ems ! (2 * i))) packing_base)
             (\<lambda>shifted. ret (tp_add cl shifted (tp_add cl (snd (items ! i)) (ems ! (2 * i + 1))))))
           (\<lambda>p. is_cipher ?n p (?P i))"
          by (rule yields_bnd [OF yields_tp_scalarMultiply [OF l tp_add_cipher [OF l vi(1) ems(1)]]], (rule i)+,
              rule yields_ret, rule tp_add_cipher [OF l _ tp_add_cipher [OF l vi(2) ems(2)]], assumption, (rule i)+)
      qed
      show ?thesis
        apply (rule yields_bnd [OF packed])
        subgoal premises p2 for packed
        proof -
          have pk: "packed \<noteq> []" "length packed \<le> 32" "length packed = ?k" "list_all2 (is_cipher ?n) packed (map ?P [0..<?k])"
            using p2 items by (auto simp: list_all2_conv_all_nth)
          obtain us where us: "partialDecryptBatch (cl_enclave cl) packed (cl_mode cl) = Inr us" "length us = length packed"
            "\<forall>u\<in>set us. wire_int u" using shares_batch [OF key pk(1,2,4)] by blast
          let ?ints = "batch_ints True (map2 (\<lambda>c u. (c, u, packing_base)) packed us)"
          have ints: "concat (map (\<lambda>(c, u). [c, u, packing_base]) (zip packed us)) = ?ints"
            by (simp add: batch_ints_def comp_def case_prod_beta')
          have "\<forall>v\<in>set ?ints. wire_int v"
            using pk(4) us(3) wire_int_cipher [OF l] wire_int_packing(1)
            by (auto simp: batch_ints_def list_all2_conv_all_nth set_zip)
          then have req: "append_ints (batch_request_header CHR ''M'' ?k) ?ints =
              Inr (batch_request_header CHR ''M'' ?k @ ints_bytes ?ints)"
            using pk us by (intro append_ints_ok) (auto simp: batch_request_header_def batch_ints_def length_concat comp_def case_prod_beta sum_list_triv)
          have served: "yields (world_ready cl) no_exn (requestPayload cl (batch_request_header CHR ''M'' ?k @ ints_bytes ?ints))
              (\<lambda>reply. \<exists>rs ns. reply = batch_reply rs ns \<and> list_all2 (\<lambda>m r. is_cipher ?n r
                 (batch_result ?sv True packing_base (m mod ?n))) (map ?P [0..<?k]) rs)"
            by (rule batch_served [OF l pk(1,2,4) us(1) wire_int_packing(1), of True "CHR ''M''"]) (simp_all add: packing_base_def pk(3))
          show ?thesis
            unfolding us(1) of_sum_Inr bnd_ret ints req
            apply (rule yields_bnd [OF served])
            subgoal premises p3 for reply
            proof -
              obtain rs ns where r: "reply = batch_reply rs ns" "length rs = ?k"
                  "\<And>i. i < ?k \<Longrightarrow> is_cipher ?n (rs ! i) (batch_result ?sv True packing_base (?P i mod ?n))"
                using p3 by (auto simp: list_all2_conv_all_nth)
              have prod: "is_cipher ?n (rs ! i) ((fst (vs ! i) + fst (masks ! i)) * (snd (vs ! i) + snd (masks ! i)))"
                if "i < ?k" for i
                using r(3) [OF that] packed_product [OF vi(3,4) [OF that], of "fst (masks ! i)" "snd (masks ! i)" ?n ?sv]
                  m(2) [OF that] linked_simps(5) [OF l] by simp
              have wr: "\<forall>r\<in>set rs. wire_int r"
                using r(2) prod wire_int_cipher [OF l] by (fastforce simp: in_set_conv_nth)
              have hd: "\<not> bad_batch_reply reply ?k" using batch_reply_header [OF r(2)] items(2) r(1) by simp
              have take: "take_ints ?k reply 8 = Inr (rs, 8 + length (ints_bytes rs))" "length reply - (8 + length (ints_bytes rs)) = 8"
                using batch_reply_ints [OF wr, of ns] r(1,2) by simp_all
              have good: "\<not> length reply - (8 + length (ints_bytes rs)) \<noteq> 8" using take(2) by simp
              have fin: "is_cipher ?n (tp_add cl (tp_add cl (tp_add cl (rs ! i) c1) c2) (es ! i)) (fst (vs ! i) * snd (vs ! i))"
                if i: "i < ?k" and c: "is_cipher ?n c1 (- snd (masks ! i) * fst (vs ! i))"
                  "is_cipher ?n c2 (- fst (masks ! i) * snd (vs ! i))"
                  and es: "list_all2 (\<lambda>m c. is_cipher ?n c m) (map (\<lambda>(r1, r2). - r1 * r2) masks) es" for i c1 c2 es
              proof -
                have "is_cipher ?n (es ! i) (- fst (masks ! i) * snd (masks ! i))"
                  using es i m(1) by (auto simp: list_all2_conv_all_nth case_prod_beta)
                from tp_add_cipher [OF l tp_add_cipher [OF l tp_add_cipher [OF l prod [OF i] c(1)] c(2)] this]
                show ?thesis by (rule is_cipher_cong) (simp add: algebra_simps)
              qed
              show ?thesis
                unfolding if_not_P [OF hd] take(1) of_sum_Inr bnd_ret prod.case if_not_P [OF good]
                apply (rule yields_bnd [OF yields_tp_encryptBatch [OF l]])
                apply (rule yields_bnd [OF yields_mapM_upt [where R = "\<lambda>i c. is_cipher ?n c (fst (vs ! i) * snd (vs ! i))"]])
                 apply (rule yields_bnd [OF yields_tp_scalarMultiply [OF l vi(1)]], assumption)
                 apply (rule yields_bnd [OF yields_tp_scalarMultiply [OF l vi(2)]], assumption)
                 apply (rule yields_ret, rule fin, assumption+)
                apply (unfold count_smul_def)
                apply (rule yields_bnd [OF yields_count_up [OF TrueI]], rule yields_ret)
                by (simp add: list_all2_conv_all_nth lv)
            qed
            done
        qed
        done
    qed
    done
qed

section \<open>Masked comparison\<close>

definition masks_ok :: "int \<times> int \<times> bool \<Rightarrow> bool" where
  "masks_ok m \<longleftrightarrow> (case m of (r3, r, orientation) \<Rightarrow> 2 ^ 127 \<le> r \<and> r < r3 \<and> r3 < 2 ^ 128)"

lemma randomMask_draw: "randomMask t = draw t (\<lambda>raw. 2 ^ 127 + raw mod 2 ^ 127)"
  by (rule ext) (simp add: randomMask_def randomBits_def draw_def bnd_app ret_def)

lemma yields_compare_masks: "yields (world_inv cl C) no_exn compare_masks masks_ok"
proof -
  let ?F = "fair_client cl"
  have r3: "yields (\<lambda>g::rng. ?F (src g)) no_exn (randomMask SMask3) (\<lambda>r3. 2 ^ 127 < r3 \<and> r3 < 2 ^ 128)"
    unfolding randomMask_draw
  proof (rule yields_draw)
    fix f i assume "?F f"
    then have "f SMask3 i mod 2 ^ 127 \<noteq> 0" by (simp add: fair_client_def fair_masks_def)
    moreover have "0 \<le> f SMask3 i mod 2 ^ 127" "f SMask3 i mod 2 ^ 127 < 2 ^ 127" by simp_all
    ultimately show "2 ^ 127 < 2 ^ 127 + f SMask3 i mod 2 ^ 127 \<and> 2 ^ 127 + f SMask3 i mod 2 ^ 127 < (2::int) ^ 128"
      by simp
  qed
  have r: "yields (\<lambda>g::rng. ?F (src g)) no_exn (repeat_until (randomMask SNoise) (\<lambda>r. \<not> r \<ge> r3))
      (\<lambda>r. 2 ^ 127 \<le> r \<and> r < r3)" if "2 ^ 127 < r3" for r3
    unfolding randomMask_draw
  proof (rule yields_repeat_draw)
    fix f assume "?F f"
    then have "often (\<lambda>raw. raw mod 2 ^ 127 = 0) (f SNoise)" by (simp add: fair_client_def fair_masks_def)
    then show "often (\<lambda>raw. \<not> r3 \<le> 2 ^ 127 + raw mod 2 ^ 127) (f SNoise)"
      using that by (fastforce simp: often_def)
  qed simp
  have o1: "yields (\<lambda>g::rng. ?F (src g)) no_exn (randomBits SOrient 1) (\<lambda>_. True)"
    unfolding randomBits_def by (simp, rule yields_draw) simp
  show ?thesis
    unfolding compare_masks_def
    by (rule yields_bnd [OF yields_on_rng [OF r3]], rule yields_bnd [OF yields_on_rng [OF r]], blast,
        rule yields_bnd [OF yields_on_rng [OF o1]], rule yields_ret) (auto simp: masks_ok_def)
qed

text \<open>The plaintext of the masked difference, and its place relative to half the modulus.\<close>

definition masked_value :: "int \<Rightarrow> int \<times> int \<times> bool \<Rightarrow> int \<Rightarrow> int \<Rightarrow> int" where
  "masked_value n m x y = (case m of (r3, r, orientation) \<Rightarrow>
     (if orientation then r3 * (x - y) else r3 * (y - x + 1)) + (n div 2 - r))"

lemma mask_product:
  assumes "masks_ok (r3, r, ori)" "\<bar>d\<bar> \<le> 2 ^ 128"
  shows "\<bar>r3 * d\<bar> \<le> 2 ^ 256" "r < r3 * d \<longleftrightarrow> 0 < d"
proof -
  have r3: "0 < r3" "r3 \<le> 2 ^ 128" "r < r3" "0 \<le> r" using assms(1) by (auto simp: masks_ok_def)
  have "\<bar>r3 * d\<bar> = r3 * \<bar>d\<bar>" using r3(1) by (simp add: abs_mult)
  also have "\<dots> \<le> 2 ^ 128 * 2 ^ 128" using r3 assms(2) by (intro mult_mono) simp_all
  finally show "\<bar>r3 * d\<bar> \<le> 2 ^ 256" by simp
  show "r < r3 * d \<longleftrightarrow> 0 < d"
  proof
    assume "0 < d"
    then have "r3 * 1 \<le> r3 * d" using r3(1) by (intro mult_left_mono) simp_all
    with r3(3) show "r < r3 * d" by simp
  next
    assume "r < r3 * d"
    show "0 < d"
    proof (rule ccontr)
      assume "\<not> 0 < d"
      then have "r3 * d \<le> 0" using r3(1) by (simp add: mult_nonneg_nonpos)
      with \<open>r < r3 * d\<close> r3(4) show False by simp
    qed
  qed
qed

lemma masked_value_decides:
  assumes m: "masks_ok m" and xy: "small x" "small y" and n: "2 ^ 262 < n"
  shows "masked_value n m x y mod n > n div 2 \<longleftrightarrow> (if snd (snd m) then x > y else \<not> x > y)"
proof -
  obtain r3 r ori where mm: "m = (r3, r, ori)" by (cases m)
  let ?d = "if ori then x - y else y - x + 1"
  have d: "\<bar>?d\<bar> \<le> 2 ^ 128" using xy by (auto simp: small_def abs_le_iff abs_less_iff)
  note p = mask_product [OF m [unfolded mm] d]
  have r: "0 \<le> r" "r < 2 ^ 128" using m by (auto simp: mm masks_ok_def)
  have h: "2 ^ 261 \<le> n div 2" "n div 2 + 2 ^ 257 < n" using n by simp_all
  have v: "masked_value n m x y = r3 * ?d + (n div 2 - r)" by (simp add: masked_value_def mm)
  have "0 \<le> masked_value n m x y" "masked_value n m x y < n"
    unfolding v using p(1) r h by (simp_all add: abs_le_iff)
  then have "masked_value n m x y mod n = masked_value n m x y" by simp
  then show ?thesis using p(2) unfolding v by (auto simp: mm)
qed

lemma masked_difference_ok:
  assumes l: "linked cl mu" and ab: "is_cipher (cl_modulus cl) a x" "is_cipher (cl_modulus cl) b y"
    and e: "is_cipher (cl_modulus cl) e (compare_mask_value cl m)"
  shows "yields (world_inv cl C) no_exn (masked_difference cl msg a b m e)
    (\<lambda>d. is_cipher (cl_modulus cl) d (masked_value (cl_modulus cl) m x y))"
proof -
  let ?n = "cl_modulus cl"
  obtain r3 r ori where mm: "m = (r3, r, ori)" by (cases m)
  let ?v = "r3 * (if ori then x - y else y + (?n - 1) * x) + compare_mask_value cl m"
  have diff: "yields (world_inv cl C) no_exn
      (if \<not> ori then bnd (tp_scalarMultiply cl a (?n - 1)) (\<lambda>c. ret (tp_add cl b c))
       else bnd (tp_scalarMultiply cl b (- 1)) (\<lambda>c. ret (tp_add cl a c)))
      (\<lambda>d. is_cipher ?n d (if ori then x - y else y + (?n - 1) * x))"
    using tp_add_cipher [OF l ab(2)] tp_add_cipher [OF l ab(1)]
    by (auto intro!: yields_bnd [OF yields_tp_scalarMultiply [OF l ab(1)]] yields_bnd [OF yields_tp_scalarMultiply [OF l ab(2)]]
        yields_ret elim!: is_cipher_cong [rotated]) fastforce+
  have "?v = masked_value ?n m x y + (if ori then 0 else r3 * x) * ?n"
    by (simp add: mm masked_value_def compare_mask_value_def algebra_simps)
  then have eq: "?v mod ?n = masked_value ?n m x y mod ?n" by (simp only: mod_mult_self1)
  have fin: "yields (world_inv cl C) no_exn
      (let difference = tp_add cl scaled e in
       if difference \<le> 0 \<or> difference \<ge> cl_nsq cl \<or> gcd difference ?n \<noteq> 1 then throw (StdRuntimeError msg)
       else ret difference) (\<lambda>d. is_cipher ?n d (masked_value ?n m x y))"
    if "is_cipher ?n scaled (r3 * (if ori then x - y else y + (?n - 1) * x))" for scaled
  proof -
    have c: "is_cipher ?n (tp_add cl scaled e) (masked_value ?n m x y)"
      using is_cipher_mod [OF linked_simps(1) [OF l] tp_add_cipher [OF l that e]] eq by blast
    note cc = is_cipher_coprime [OF linked_simps(1) [OF l] c]
    have "coprime (tp_add cl scaled e) ?n" using cc(1) by simp
    then have "gcd (tp_add cl scaled e) ?n = 1" by (simp only: coprime_iff_gcd_eq_1)
    with cc(2,3) c show ?thesis by (simp add: Let_def yields_ret)
  qed
  show ?thesis
    unfolding masked_difference_def mm Let_def prod.case
    by (rule yields_bnd [OF diff], rule yields_bnd [OF yields_tp_scalarMultiply [OF l]], assumption)
       (rule fin [unfolded Let_def mm])
qed

text \<open>The server's bit, oriented by the client.\<close>

lemma orient_bit_ok:
  assumes l: "linked cl mu" and m: "masks_ok m" and xy: "small x" "small y"
    and b: "is_cipher (cl_modulus cl) b
      (batch_result (cl_peer cl) False base (masked_value (cl_modulus cl) m x y mod cl_modulus cl))"
  shows "yields (world_inv cl C) no_exn (orient_bit cl (snd (snd m)) b) (\<lambda>c. is_cipher (cl_modulus cl) c (b2i (x > y)))"
proof -
  let ?n = "cl_modulus cl" and ?o = "snd (snd m)"
  have b: "is_cipher ?n b (b2i ((x > y) \<noteq> ?o))"
    using b masked_value_decides [OF m xy linked_simps(5) [OF l]] linked_simps(3) [OF l]
    by (simp add: batch_result_def split: if_splits)
  show ?thesis
  proof (cases ?o)
    case False
    then show ?thesis using b by (simp add: orient_bit_def yields_ret)
  next
    case True
    have "yields (world_inv cl C) no_exn
        (bnd (tp_encrypt cl 1) (\<lambda>one. bnd (tp_scalarMultiply cl b (- 1)) (\<lambda>c. ret (tp_add cl one c))))
        (\<lambda>c. is_cipher ?n c (b2i (x > y)))"
      apply (rule yields_bnd [OF yields_tp_encrypt [OF l]], rule yields_bnd [OF yields_tp_scalarMultiply [OF l b]], rule yields_ret)
      apply (drule tp_add_cipher [OF l], assumption, erule is_cipher_cong)
      using True by simp
    with True show ?thesis by (simp add: orient_bit_def)
  qed
qed

lemma take_nth_int:
  assumes "\<forall>r\<in>set rs. wire_int r" "i < length rs"
  shows "takeInteger (pre @ ints_bytes rs @ rest) (length pre + length (ints_bytes (take i rs))) =
    Inr (rs ! i, length pre + length (ints_bytes (take (Suc i) rs)))"
proof -
  have "rs = take i rs @ rs ! i # drop (Suc i) rs" using assms(2) by (rule id_take_nth_drop)
  then have "ints_bytes rs = ints_bytes (take i rs) @ int_bytes (rs ! i) @ ints_bytes (drop (Suc i) rs)"
    by (metis ints_bytes_simps(2,3))
  moreover have "wire_int (rs ! i)" using assms by simp
  ultimately show ?thesis
    using takeInteger_ok [of "rs ! i" "pre @ ints_bytes (take i rs)" "ints_bytes (drop (Suc i) rs) @ rest"] assms(2)
    by (simp add: take_Suc_conv_app_nth add.assoc)
qed

lemma tp_greaterThanBatch_ok:
  assumes l: "linked cl mu" and items: "items \<noteq> []" "length items \<le> 32"
    and v: "list_all2 (pair_cipher (cl_modulus cl)) items vs"
  shows "yields (world_ready cl) no_exn (tp_greaterThanBatch cl items)
    (list_all2 (\<lambda>v c. is_cipher (cl_modulus cl) c (b2i (fst v > snd v))) vs)"
proof -
  let ?n = "cl_modulus cl" and ?k = "length items" and ?sv = "cl_peer cl"
  have vi: "is_cipher ?n (fst (items ! i)) (fst (vs ! i))" "is_cipher ?n (snd (items ! i)) (snd (vs ! i))"
    "small (fst (vs ! i))" "small (snd (vs ! i))" if "i < ?k" for i
    using v that by (auto simp: list_all2_conv_all_nth pair_cipher_def)
  have lv: "length vs = ?k" using v by (simp add: list_all2_lengthD)
  have key: "key_shares (cl_mode cl) ?n mu (cl_enclave cl) (sv_enclave ?sv)" using l by (simp add: linked_def)
  have guard: "\<not> (items = [] \<or> ?k > max_batch_size)" using items by (simp add: max_batch_size_def)
  have masks: "yields (world_ready cl) no_exn (mapM (\<lambda>item. compare_masks) items)
      (\<lambda>ms. length ms = ?k \<and> (\<forall>i<?k. masks_ok (ms ! i)))"
    by (rule yields_weaken [OF yields_mapM [where R = "\<lambda>_. masks_ok"]])
       (auto intro!: yields_compare_masks simp: list_all2_conv_all_nth)
  let ?D = "\<lambda>masks i. masked_value ?n (masks ! i) (fst (vs ! i)) (snd (vs ! i))"
  show ?thesis
    unfolding tp_greaterThanBatch_def Let_def if_not_P [OF guard]
    apply (rule yields_bnd [OF masks], rule yields_bnd [OF yields_tp_encryptBatch [OF l]])
    apply (rule yields_bnd [OF yields_mapM_upt [where R = "\<lambda>i d. is_cipher ?n d (?D a i)" for a]])
     apply (rule masked_difference_ok [OF l vi(1,2)], assumption+, simp add: list_all2_conv_all_nth)
    subgoal premises p for masks ems differences
    proof -
      have pk: "differences \<noteq> []" "length differences \<le> 32" "length differences = ?k"
        "list_all2 (is_cipher ?n) differences (map (?D masks) [0..<?k])"
        using p(3) items by (auto simp: list_all2_conv_all_nth)
      obtain us where us: "partialDecryptBatch (cl_enclave cl) differences (cl_mode cl) = Inr us"
        "length us = length differences" "\<forall>u\<in>set us. wire_int u" using shares_batch [OF key pk(1,2,4)] by blast
      let ?ints = "batch_ints False (map2 (\<lambda>c u. (c, u, 0)) differences us)"
      have ints: "flat_pairs (zip differences us) = ?ints"
        by (simp add: batch_ints_def comp_def case_prod_beta' flat_pairs_def)
      have "\<forall>v\<in>set ?ints. wire_int v"
        using pk(4) us(3) wire_int_cipher [OF l] by (auto simp: batch_ints_def list_all2_conv_all_nth set_zip)
      then have req: "append_ints (batch_request_header CHR ''C'' ?k) ?ints =
          Inr (batch_request_header CHR ''C'' ?k @ ints_bytes ?ints)"
        using pk us by (intro append_ints_ok) (auto simp: batch_request_header_def ints [symmetric])
      have served: "yields (world_ready cl) no_exn (requestPayload cl (batch_request_header CHR ''C'' ?k @ ints_bytes ?ints))
          (\<lambda>reply. \<exists>rs ns. reply = batch_reply rs ns \<and> list_all2 (\<lambda>m r. is_cipher ?n r
             (batch_result ?sv False 0 (m mod ?n))) (map (?D masks) [0..<?k]) rs)"
        by (rule batch_served [OF l pk(1,2,4) us(1) wire_int_packing(2), of False "CHR ''C''"]) (simp_all add: pk(3))
      show ?thesis
        unfolding us(1) of_sum_Inr bnd_ret ints req
        apply (rule yields_bnd [OF served])
        subgoal premises p3 for reply
        proof -
          obtain rs ns where r: "reply = batch_reply rs ns" "length rs = ?k"
              "\<And>i. i < ?k \<Longrightarrow> is_cipher ?n (rs ! i) (batch_result ?sv False 0 (?D masks i mod ?n))"
            using p3 by (auto simp: list_all2_conv_all_nth)
          have wr: "\<forall>r\<in>set rs. wire_int r"
            using r(2,3) wire_int_cipher [OF l] by (fastforce simp: in_set_conv_nth)
          have hd: "\<not> bad_batch_reply reply ?k" using batch_reply_header [OF r(2)] items(2) r(1) by simp
          let ?pre = "[1, 0, 0, 0] @ writeU32 (of_nat (length rs)) :: bytes"
          have take: "takeInteger reply (8 + length (ints_bytes (take i rs))) =
              Inr (rs ! i, 8 + length (ints_bytes (take (Suc i) rs)))" if "i < ?k" for i
            using take_nth_int [OF wr, of i ?pre "appendU64 [] ns"] that r(1,2) by (simp add: batch_reply_def)
          let ?J = "\<lambda>i x. fst x = 8 + length (ints_bytes (take i rs)) \<and> length (snd x) = i \<and>
              (\<forall>j<i. is_cipher ?n (snd x ! j) (b2i (fst (vs ! j) > snd (vs ! j))))"
          have step: "yields (world_ready cl) no_exn
              ((\<lambda>i (off, out). bnd (of_sum (takeInteger reply off)) (\<lambda>(b, off).
                 bnd (orient_bit cl (snd (snd (masks ! i))) b) (\<lambda>c. ret (off, out @ [c])))) ([0..<?k] ! i) x) (?J (Suc i))"
            if i: "i < length [0..<?k]" and J: "?J i x" for i x
          proof -
            obtain off out where x: "x = (off, out)" by (cases x)
            have i': "i < ?k" "[0..<?k] ! i = i" using i by simp_all
            have off: "off = 8 + length (ints_bytes (take i rs))" using J by (simp add: x)
            show ?thesis
              unfolding x prod.case i'(2) off take [OF i'(1)] of_sum_Inr bnd_ret
              by (rule yields_bnd [OF orient_bit_ok [OF l _ _ _ r(3) [OF i'(1)]]])
                 (use p(1) vi(3,4) [OF i'(1)] i'(1) J in \<open>auto intro!: yields_ret simp: x nth_append less_Suc_eq\<close>)
          qed
          have fin: "length reply - (8 + length (ints_bytes (take ?k rs))) = 8"
            using batch_reply_ints(2) [OF wr, of ns] r(1,2) by simp
          show ?thesis
            unfolding if_not_P [OF hd]
            apply (rule yields_bnd [OF yields_foldM_indexed [where J = ?J, OF _ step]], simp, assumption+)
            subgoal for x
              using fin by (cases x) (auto simp: count_scmp_def lv list_all2_conv_all_nth
                intro!: yields_bnd [OF yields_count_up [OF TrueI]] yields_ret)
            done
        qed
        done
    qed
    done
qed

section \<open>Contexts\<close>

lemma append_context_ok:
  assumes "valid_ids ctx"
  shows "append_context out ctx = Inr (out @ ids_bytes ctx)"
  using assms by (simp add: append_context_def valid_ids_def appendContextString_ok ids_bytes_def)

lemma length_ids_bytes: "valid_ids ctx \<Longrightarrow> length (ids_bytes ctx) \<le> 396"
  by (auto simp: ids_bytes_def context_bytes_def valid_ids_def validIdentifier_def)

end
