(* ===== verification/ThresholdSingle.thy ===== *)
theory ThresholdSingle
  imports ThresholdClient
begin

text \<open>
  The requests of the threshold protocol that carry one item: a multiplication, a comparison, a
  decryption and the reveal of a predicate bit, with both sides' code, and what they return. The
  last section is the benchmark of services/threshold_runtime.cpp, whose absolute value and
  division are composed of them.
\<close>

section \<open>The server's answers\<close>

lemma take_values_ok:
  "\<forall>v\<in>set vs. wire_int v \<Longrightarrow> take_values (pre @ ints_bytes vs) (length pre) = Inr vs"
proof (induction vs arbitrary: pre)
  case Nil
  show ?case by (simp add: take_values.simps)
next
  case (Cons v vs)
  have "take_values ((pre @ int_bytes v) @ ints_bytes vs) (length (pre @ int_bytes v)) = Inr vs"
    using Cons.prems by (intro Cons.IH) simp
  moreover have "0 < length (int_bytes v)" by (simp add: length_int_bytes)
  ultimately show ?case
    using Cons.prems takeInteger_ok [of v pre "ints_bytes vs"]
    by (simp add: take_values.simps [of "pre @ int_bytes v @ ints_bytes vs" "length pre"])
qed

text \<open>Where a request's answer is one integer.\<close>

lemma single_served:
  assumes h: "yields (csp_ready cl) no_exn (csp_single (cl_peer cl) (op operation) (op operation # ints_bytes vs))
      (\<lambda>reply. \<exists>r. reply = Reply (0 # int_bytes r) \<and> wire_int r \<and> R r)"
    and operation: "operation \<in> {CHR ''M'', CHR ''C'', CHR ''D''}"
    and vs: "\<forall>v\<in>set vs. wire_int v" "length vs \<le> 3"
  shows "yields (world_ready cl) no_exn (wire_request cl operation vs) (\<lambda>reply. \<exists>r. takeInteger reply 0 = Inr (r, length reply) \<and> R r)"
proof -
  have req: "append_ints [op operation] vs = Inr (op operation # ints_bytes vs)"
    using append_ints_ok [OF vs(1), of "[op operation]"] vs(2) by simp
  have "csp_handle (cl_peer cl) (op operation # ints_bytes vs) =
      csp_single (cl_peer cl) (op operation) (op operation # ints_bytes vs)"
    using operation by (auto simp: csp_handle_def)
  moreover have "length (int_bytes r) < max_frame" if "wire_int r" for r
    using that by (simp add: length_int_bytes wire_int_def max_frame_def)
  ultimately have "yields (world_ready cl) no_exn (requestPayload cl (op operation # ints_bytes vs))
      (\<lambda>reply. \<exists>r. reply = int_bytes r \<and> wire_int r \<and> R r)"
    using h length_ints_bytes [OF vs(1)] vs(2)
    by (intro yields_requestPayload) (auto elim!: yields_weaken simp: max_frame_def)
  then show ?thesis
    unfolding wire_request_def req of_sum_Inr bnd_ret
    by (rule yields_weaken) (use takeInteger_ok [of _ "[]" "[]"] in fastforce)
qed

lemma wire_int_result: "linked cl mu \<Longrightarrow> is_cipher (cl_modulus cl) c m \<Longrightarrow> wire_int c"
  using wire_int_cipher by blast

lemma appendInteger_reply: "wire_int r \<Longrightarrow> appendInteger [0] r = Inr (0 # int_bytes r)"
  using appendInteger_ok [of r "[0]"] by simp

text \<open>What the server decrypts, given the client's share.\<close>

lemma csp_decrypt_ok:
  assumes l: "linked cl mu" and c: "is_cipher (cl_modulus cl) c m"
  obtains u where "partialDecrypt (cl_enclave cl) c (cl_mode cl) = Inr u" "wire_int u"
    "csp_decrypt (cl_peer cl) c u = Inr (m mod cl_modulus cl)"
  using shares_single [of "cl_mode cl" "cl_modulus cl" mu "cl_enclave cl" "sv_enclave (cl_peer cl)" c m] l c that
  by (auto simp: linked_def csp_decrypt_def)

lemma yields_csp_encrypt:
  assumes "linked cl mu"
  shows "yields (csp_ready cl) E (csp_encrypt (cl_peer cl) m) (\<lambda>c. is_cipher (cl_modulus cl) c m)"
  unfolding csp_encrypt_def linked_simps(3) [OF assms]
  by (rule yields_on_csp_rng [OF yields_paillierEncrypt [OF linked_simps(1) [OF assms],
        where F = "\<lambda>f. fair_nonce (cl_modulus cl) f \<and> fair_ot (cl_ot_modulus cl) SOtKey f"]]) simp

lemma encrypted_reply:
  assumes "linked cl mu"
  shows "yields (csp_ready cl) no_exn (bnd (csp_encrypt (cl_peer cl) m) (\<lambda>c. bnd (of_sum (appendInteger [0] c)) (\<lambda>reply. ret (Reply reply))))
    (\<lambda>reply. \<exists>r. reply = Reply (0 # int_bytes r) \<and> wire_int r \<and> is_cipher (cl_modulus cl) r m)"
proof (rule yields_bnd [OF yields_csp_encrypt [OF assms]])
  fix c assume c: "is_cipher (cl_modulus cl) c m"
  then have "wire_int c" by (rule wire_int_result [OF assms])
  with c show "yields (csp_ready cl) no_exn (bnd (of_sum (appendInteger [0] c)) (\<lambda>reply. ret (Reply reply)))
    (\<lambda>reply. \<exists>r. reply = Reply (0 # int_bytes r) \<and> wire_int r \<and> is_cipher (cl_modulus cl) r m)"
    by (auto simp: appendInteger_reply intro: yields_ret)
qed

lemma single_mul_served:
  assumes l: "linked cl mu" and d: "csp_decrypt (cl_peer cl) c u = Inr p" and w: "wire_int c" "wire_int u"
  shows "yields (world_ready cl) no_exn (wire_request cl CHR ''M'' [c, u, packing_base])
    (\<lambda>reply. \<exists>r. takeInteger reply 0 = Inr (r, length reply) \<and>
       is_cipher (cl_modulus cl) r (batch_result (cl_peer cl) True packing_base p))"
proof (rule single_served)
  let ?vs = "[c, u, packing_base]"
  have v: "take_values (op CHR ''M'' # ints_bytes ?vs) 1 = Inr ?vs"
    using take_values_ok [of ?vs "[op CHR ''M'']"] w wire_int_packing(1) by simp
  have "\<not> packing_base \<le> 1" by (simp add: packing_base_def)
  then show "yields (csp_ready cl) no_exn (csp_single (cl_peer cl) (op CHR ''M'') (op CHR ''M'' # ints_bytes ?vs))
      (\<lambda>reply. \<exists>r. reply = Reply (0 # int_bytes r) \<and> wire_int r \<and>
         is_cipher (cl_modulus cl) r (batch_result (cl_peer cl) True packing_base p))"
    unfolding csp_single_def v of_sum_Inr bnd_ret
    using encrypted_reply [OF l] d by (simp add: batch_result_def)
qed (use w wire_int_packing(1) in simp_all)

lemma single_compare_served:
  assumes l: "linked cl mu" and d: "csp_decrypt (cl_peer cl) c u = Inr p" and w: "wire_int c" "wire_int u"
  shows "yields (world_ready cl) no_exn (wire_request cl CHR ''C'' [c, u])
    (\<lambda>reply. \<exists>r. takeInteger reply 0 = Inr (r, length reply) \<and>
       is_cipher (cl_modulus cl) r (batch_result (cl_peer cl) False 0 p))"
proof (rule single_served)
  let ?vs = "[c, u]"
  have v: "take_values (op CHR ''C'' # ints_bytes ?vs) 1 = Inr ?vs"
    using take_values_ok [of ?vs "[op CHR ''C'']"] w by simp
  show "yields (csp_ready cl) no_exn (csp_single (cl_peer cl) (op CHR ''C'') (op CHR ''C'' # ints_bytes ?vs))
      (\<lambda>reply. \<exists>r. reply = Reply (0 # int_bytes r) \<and> wire_int r \<and>
         is_cipher (cl_modulus cl) r (batch_result (cl_peer cl) False 0 p))"
    unfolding csp_single_def v of_sum_Inr bnd_ret
    using encrypted_reply [OF l] d by (simp add: batch_result_def)
qed (use w in simp_all)

lemma single_decrypt_served:
  assumes d: "csp_decrypt (cl_peer cl) c u = Inr p" and w: "wire_int c" "wire_int u" "wire_int p"
  shows "yields (world_ready cl) no_exn (wire_request cl CHR ''D'' [c, u])
    (\<lambda>reply. \<exists>r. takeInteger reply 0 = Inr (r, length reply) \<and> r = p)"
proof (rule single_served)
  let ?vs = "[c, u]"
  have v: "take_values (op CHR ''D'' # ints_bytes ?vs) 1 = Inr ?vs"
    using take_values_ok [of ?vs "[op CHR ''D'']"] w by simp
  show "yields (csp_ready cl) no_exn (csp_single (cl_peer cl) (op CHR ''D'') (op CHR ''D'' # ints_bytes ?vs))
      (\<lambda>reply. \<exists>r. reply = Reply (0 # int_bytes r) \<and> wire_int r \<and> r = p)"
    unfolding csp_single_def v of_sum_Inr bnd_ret
    using d w by (auto intro!: yields_ret simp: appendInteger_reply)
qed (use w in simp_all)

section \<open>The client's operations\<close>

lemma tp_secureMultiply_ok:
  assumes l: "linked cl mu" and ab: "is_cipher (cl_modulus cl) a x" "is_cipher (cl_modulus cl) b y" "small x" "small y"
  shows "yields (world_ready cl) no_exn (tp_secureMultiply cl a b) (\<lambda>c. is_cipher (cl_modulus cl) c (x * y))"
proof -
  let ?n = "cl_modulus cl"
  show ?thesis
    unfolding tp_secureMultiply_def Let_def
    apply (rule yields_bnd [OF yields_randomMask], rule yields_bnd [OF yields_randomMask])
    apply (rule yields_bnd [OF yields_tp_encrypt [OF l]], rule yields_bnd [OF yields_tp_encrypt [OF l]])
    apply (rule yields_bnd [OF yields_tp_scalarMultiply [OF l tp_add_cipher [OF l ab(1)]]], assumption)
    subgoal premises p for r1 r2 e1 e2 shifted
    proof -
      have r: "is_mask r1" "is_mask r2" using p(1,2) by (simp_all add: is_mask_def)
      let ?packed = "tp_add cl shifted (tp_add cl b e2)"
      have c: "is_cipher ?n ?packed (packing_base * (x + r1) + (y + r2))"
        by (rule tp_add_cipher [OF l p(5) tp_add_cipher [OF l ab(2) p(4)]])
      obtain u where u: "partialDecrypt (cl_enclave cl) ?packed (cl_mode cl) = Inr u" "wire_int u"
        "csp_decrypt (cl_peer cl) ?packed u = Inr ((packing_base * (x + r1) + (y + r2)) mod ?n)"
        by (rule csp_decrypt_ok [OF l c])
      show ?thesis
        unfolding u(1) of_sum_Inr bnd_ret count_smul_def
        apply (rule yields_bnd [OF single_mul_served [OF l u(3) wire_int_result [OF l c] u(2)]])
        apply (rule yields_bnd [OF yields_count_up [OF TrueI]])
        subgoal premises q for reply
        proof -
          obtain z where z: "takeInteger reply 0 = Inr (z, length reply)" "is_cipher ?n z ((x + r1) * (y + r2))"
            using q packed_product [OF ab(3,4) r linked_simps(5) [OF l]] by auto
          show ?thesis
            unfolding z(1) of_sum_Inr bnd_ret prod.case
            apply (rule yields_bnd [OF yields_tp_scalarMultiply [OF l ab(1)]])
            apply (rule yields_bnd [OF yields_tp_scalarMultiply [OF l ab(2)]])
            apply (rule yields_bnd [OF yields_tp_encrypt [OF l]], rule yields_ret)
            apply (rule is_cipher_cong [OF tp_add_cipher [OF l tp_add_cipher [OF l tp_add_cipher [OF l z(2)]]]], assumption+)
            by (simp add: algebra_simps)
        qed
        done
    qed
    done
qed

lemma tp_greaterThan_ok:
  assumes l: "linked cl mu" and ab: "is_cipher (cl_modulus cl) a x" "is_cipher (cl_modulus cl) b y" "small x" "small y"
  shows "yields (world_ready cl) no_exn (tp_greaterThan cl a b) (\<lambda>c. is_cipher (cl_modulus cl) c (b2i (x > y)))"
  unfolding tp_greaterThan_def
  apply (rule yields_bnd [OF yields_compare_masks], rule yields_bnd [OF yields_tp_encrypt [OF l]])
  apply (rule yields_bnd [OF masked_difference_ok [OF l ab(1,2)]], assumption)
  subgoal premises p for m e d
  proof -
    obtain u where u: "partialDecrypt (cl_enclave cl) d (cl_mode cl) = Inr u" "wire_int u"
      "csp_decrypt (cl_peer cl) d u = Inr (masked_value (cl_modulus cl) m x y mod cl_modulus cl)"
      by (rule csp_decrypt_ok [OF l p(3)])
    show ?thesis
      unfolding u(1) of_sum_Inr bnd_ret count_scmp_def
      by (rule yields_bnd [OF single_compare_served [OF l u(3) wire_int_result [OF l p(3)] u(2)]],
          rule yields_bnd [OF yields_count_up [OF TrueI]])
         (elim exE conjE, simp only: of_sum_Inr bnd_ret prod.case, rule orient_bit_ok [OF l p(1) ab(3,4)])
  qed
  done

lemma centred_threshold:
  assumes "2 * \<bar>m\<bar> < (n::int)"
  shows "(if m mod n > n div 2 then m mod n - n else m mod n) = m"
proof (cases "0 \<le> m")
  case True
  with assms show ?thesis by simp
next
  case False
  then have "m mod n = m + n" using assms by (subst mod_add_self2 [symmetric], intro mod_pos_pos_trivial) simp_all
  with False assms show ?thesis by simp
qed

lemma tp_decryptForTesting_ok:
  assumes l: "linked cl mu" and c: "is_cipher (cl_modulus cl) c m" and m: "2 * \<bar>m\<bar> < cl_modulus cl"
  shows "yields (world_ready cl) no_exn (tp_decryptForTesting cl c) (\<lambda>v. v = m)"
proof -
  obtain u where u: "partialDecrypt (cl_enclave cl) c (cl_mode cl) = Inr u" "wire_int u"
    "csp_decrypt (cl_peer cl) c u = Inr (m mod cl_modulus cl)" by (rule csp_decrypt_ok [OF l c])
  have "wire_int (m mod cl_modulus cl)" by (rule wire_int_mod [OF linked_simps(2) [OF l]])
  from single_decrypt_served [OF u(3) wire_int_result [OF l c] u(2) this]
  show ?thesis
    unfolding tp_decryptForTesting_def u(1) of_sum_Inr bnd_ret
    by (rule yields_bnd) (use centred_threshold [OF m] in \<open>auto intro!: yields_ret\<close>)
qed

text \<open>The reveal of an encrypted bit.\<close>

lemma tp_revealFinalPredicate_ok:
  assumes l: "linked cl mu" and c: "is_cipher (cl_modulus cl) c (b2i b)" and v: "valid_ids ctx"
  shows "yields (world_ready cl) no_exn (tp_revealFinalPredicate cl ctx c) (\<lambda>r. r = b)"
proof -
  have key: "key_shares (sv_mode (cl_peer cl)) (cl_modulus cl) mu (cl_enclave cl) (sv_enclave (cl_peer cl))"
    using l by (simp add: linked_def)
  obtain u where u: "partialDecrypt (cl_enclave cl) c (cl_mode cl) = Inr u" "wire_int u" by (rule csp_decrypt_ok [OF l c])
  have w: "wire_int c" by (rule wire_int_result [OF l c])
  let ?hd = "predicate_header CHR ''P'' ctx 0 @ ids_bytes ctx"
  have small: "length ?hd \<le> 404" using length_ids_bytes [OF v] by (simp add: predicate_header_def)
  have bytes: "appendInteger ?hd c = Inr (?hd @ int_bytes c)"
    "appendInteger (?hd @ int_bytes c) u = Inr (?hd @ int_bytes c @ int_bytes u)"
    using appendInteger_ok [OF w, of ?hd] appendInteger_ok [OF u(2), of "?hd @ int_bytes c"] small w
    by (simp_all add: length_int_bytes wire_int_def)
  have frame: "?hd @ int_bytes c @ int_bytes u = predicate_frame ctx c u"
    by (simp add: predicate_header_def predicate_frame_def)
  have "yields (world_ready cl) no_exn (requestPayload cl (predicate_frame ctx c u)) (\<lambda>reply. reply = [if b then 1 else 0])"
  proof (rule yields_requestPayload)
    show "length (predicate_frame ctx c u) \<le> max_frame"
      unfolding frame [symmetric] using small w u(2) by (simp add: length_int_bytes wire_int_def max_frame_def)
    have m: "sv_mode (cl_peer cl) = cl_mode cl" by (rule linked_simps(4) [OF l])
    have "csp_handle (cl_peer cl) (predicate_frame ctx c u) = csp_predicate (cl_peer cl) (predicate_frame ctx c u)"
      using predicate_frame_header(5,6) [of ctx c u] by (simp add: csp_handle_def)
    then show "yields (csp_ready cl) no_exn (csp_handle (cl_peer cl) (predicate_frame ctx c u))
        (\<lambda>reply. \<exists>ba. reply = Reply (0 # ba) \<and> length ba < max_frame \<and> ba = [if b then 1 else 0])"
      using csp_predicate_ok [OF key c v u(1) [folded m]]
      by (intro yieldsI_ok) (fastforce simp: csp_ready_def max_frame_def)
  qed
  then have "yields (world_ready cl) no_exn
      (bnd (requestPayload cl (predicate_frame ctx c u)) (\<lambda>reply.
        if length reply \<noteq> 1 \<or> hd reply > 1 then throw (PredicateError ''invalid threshold predicate response'')
        else
        bnd (count_up (\<lambda>m. m\<lparr>predicate_reveals := predicate_reveals m + 1, cp_ecalls := cp_ecalls m + 1,
          csp_ecalls := csp_ecalls m + 2, csp_requests := csp_requests m + 1\<rparr>)) (\<lambda>_.
        ret (hd reply = 1)))) (\<lambda>r. r = b)"
    by (rule yields_bnd) (auto intro!: yields_bnd [OF yields_count_up [OF TrueI]] yields_ret)
  then have "yields (world_ready cl) no_exn (catch
      (bnd (requestPayload cl (predicate_frame ctx c u)) (\<lambda>reply.
        if length reply \<noteq> 1 \<or> hd reply > 1 then throw (PredicateError ''invalid threshold predicate response'')
        else
        bnd (count_up (\<lambda>m. m\<lparr>predicate_reveals := predicate_reveals m + 1, cp_ecalls := cp_ecalls m + 1,
          csp_ecalls := csp_ecalls m + 2, csp_requests := csp_requests m + 1\<rparr>)) (\<lambda>_.
        ret (hd reply = 1)))) h) (\<lambda>r. r = b)" for h
    by (rule yields_catch)
  then show ?thesis
    unfolding tp_revealFinalPredicate_def append_context_ok [OF v] bytes u(1) of_sum_Inr bnd_ret frame .
qed

section \<open>The composed benchmarks\<close>

text \<open>The absolute value of a negated input (SABS).\<close>

definition bench_sabs :: "client \<Rightarrow> int \<Rightarrow> (world, bool) eff" where
  "bench_sabs cl x =
     bnd (tp_encrypt cl (- x)) (\<lambda>negative.
     bnd (tp_encrypt cl 0) (\<lambda>zero.
     bnd (tp_greaterThan cl zero negative) (\<lambda>sign.
     bnd (tp_encrypt cl 1) (\<lambda>one.
     bnd (tp_scalarMultiply cl sign (- 2)) (\<lambda>s2.
     bnd (tp_secureMultiply cl (tp_add cl one s2) negative) (\<lambda>product.
     bnd (tp_decryptForTesting cl product) (\<lambda>r. ret (r = x))))))))"

text \<open>Restoring division, one bit of the quotient a step (SDIV).\<close>

definition sdiv_step :: "client \<Rightarrow> int \<Rightarrow> int \<Rightarrow> nat \<Rightarrow> int \<times> int \<Rightarrow> (world, int \<times> int) eff" where
  "sdiv_step cl encrypted_y one step acc =
     (let (q, dividend) = acc in
      bnd (tp_scalarMultiply cl encrypted_y (2 ^ step)) (\<lambda>shifted.
      bnd (tp_greaterThan cl shifted dividend) (\<lambda>less.
      bnd (tp_scalarMultiply cl less (- 1)) (\<lambda>nless.
      let take_bit = tp_add cl one nless in
      bnd (tp_scalarMultiply cl take_bit (2 ^ step)) (\<lambda>t.
      bnd (tp_secureMultiply cl take_bit shifted) (\<lambda>product.
      bnd (tp_scalarMultiply cl product (- 1)) (\<lambda>np.
      ret (tp_add cl q t, tp_add cl dividend np))))))))"

definition bench_sdiv :: "client \<Rightarrow> int \<Rightarrow> int \<Rightarrow> int \<Rightarrow> int \<Rightarrow> (world, bool) eff" where
  "bench_sdiv cl x y encrypted_x encrypted_y =
     bnd (tp_encrypt cl 0) (\<lambda>zero.
     bnd (tp_encrypt cl 1) (\<lambda>one.
     bnd (foldM (sdiv_step cl encrypted_y one) (rev [0..<16]) (zero, encrypted_x)) (\<lambda>(q, dividend).
     bnd (tp_decryptForTesting cl q) (\<lambda>rq.
     if rq \<noteq> x div y then ret False
     else bnd (tp_decryptForTesting cl dividend) (\<lambda>rd. ret (rd = x mod y))))))"

lemma small_simps: "small 0" "small 1" "small (b2i p)" "small (1 - b2i p)" "small (- x) = small x"
  by (simp_all add: small_def)

lemma bench_sabs_ok:
  assumes l: "linked cl mu" and x: "0 \<le> x" "x < 2 ^ 127"
  shows "yields (world_ready cl) no_exn (bench_sabs cl x) (\<lambda>r. r)"
proof -
  have s: "small (- x)" using x by (simp add: small_def)
  have f: "1 + - 2 * b2i (0 > - x) = (if x = 0 then 1 else - 1)" using x by auto
  have sf: "small (1 + - 2 * b2i (0 > - x))" unfolding f by (simp add: small_def)
  have p: "(1 + - 2 * b2i (0 > - x)) * - x = x" unfolding f by simp
  have room: "2 * \<bar>x\<bar> < cl_modulus cl" using x linked_simps(5) [OF l] by simp
  show ?thesis
    unfolding bench_sabs_def
    apply (rule yields_bnd [OF yields_tp_encrypt [OF l]], rule yields_bnd [OF yields_tp_encrypt [OF l]])
    apply (rule yields_bnd [OF tp_greaterThan_ok [OF l _ _ small_simps(1) s]], assumption+)
    apply (rule yields_bnd [OF yields_tp_encrypt [OF l]], rule yields_bnd [OF yields_tp_scalarMultiply [OF l]], assumption)
    apply (rule yields_bnd [OF tp_secureMultiply_ok [OF l tp_add_cipher [OF l] _ sf s]], assumption+)
    apply (rule yields_bnd [OF tp_decryptForTesting_ok [OF l _ room]], erule is_cipher_cong, rule p)
    by (rule yields_ret)
qed

lemma sdiv_step_ok:
  assumes l: "linked cl mu" and c: "is_cipher (cl_modulus cl) ey y" "is_cipher (cl_modulus cl) one 1"
    "is_cipher (cl_modulus cl) (fst acc) q" "is_cipher (cl_modulus cl) (snd acc) d"
    and s: "small (y * 2 ^ step)" "small d"
  shows "yields (world_ready cl) no_exn (sdiv_step cl ey one step acc)
    (\<lambda>r. is_cipher (cl_modulus cl) (fst r) (if y * 2 ^ step > d then q else q + 2 ^ step) \<and>
       is_cipher (cl_modulus cl) (snd r) (if y * 2 ^ step > d then d else d - y * 2 ^ step))"
proof -
  let ?lt = "2 ^ step * y > d"
  have s': "small (2 ^ step * y)" using s(1) by (simp add: mult.commute)
  have t: "small (1 + - 1 * b2i ?lt)" by (simp add: small_def)
  obtain eq ed where acc: "acc = (eq, ed)" by (cases acc)
  show ?thesis
    unfolding sdiv_step_def acc Let_def prod.case
    apply (rule yields_bnd [OF yields_tp_scalarMultiply [OF l c(1)]])
    apply (rule yields_bnd [OF tp_greaterThan_ok [OF l _ c(4) s' s(2), unfolded acc snd_conv]], assumption)
    apply (rule yields_bnd [OF yields_tp_scalarMultiply [OF l]], assumption)
    apply (rule yields_bnd [OF yields_tp_scalarMultiply [OF l tp_add_cipher [OF l c(2)]]], assumption)
    apply (rule yields_bnd [OF tp_secureMultiply_ok [OF l tp_add_cipher [OF l c(2)] _ t s']], assumption+)
    apply (rule yields_bnd [OF yields_tp_scalarMultiply [OF l]], assumption)
    apply (rule yields_ret)
    subgoal premises p
      using tp_add_cipher [OF l c(3) p(4)] tp_add_cipher [OF l c(4) p(6)]
      by (auto simp: acc mult.commute elim!: is_cipher_cong)
    done
qed

lemma bench_sdiv_ok:
  assumes l: "linked cl mu" and c: "is_cipher (cl_modulus cl) ex x" "is_cipher (cl_modulus cl) ey y"
    and xy: "0 \<le> x" "0 < y" "x < y * 2 ^ 16" "y < 2 ^ 110"
  shows "yields (world_ready cl) no_exn (bench_sdiv cl x y ex ey) (\<lambda>r. r)"
proof -
  let ?n = "cl_modulus cl"
  let ?J = "\<lambda>i r. \<exists>q d. is_cipher ?n (fst r) q \<and> is_cipher ?n (snd r) d \<and> x = q * y + d \<and> 0 \<le> d \<and> d < y * 2 ^ (16 - i)"
  have steps: "yields (world_ready cl) no_exn (foldM (sdiv_step cl ey one) (rev [0..<16]) (zero, ex)) (?J (length (rev [0..<16])))"
    if z: "is_cipher ?n zero 0" and o1: "is_cipher ?n one 1" for zero one
  proof (rule yields_foldM_indexed [where J = ?J])
    show "?J 0 (zero, ex)" using z c(1) xy by (intro exI [of _ 0] exI [of _ x]) simp
  next
    fix i acc assume i: "i < length (rev [0..<16])" and "?J i acc"
    then obtain q d where J: "is_cipher ?n (fst acc) q" "is_cipher ?n (snd acc) d" "x = q * y + d" "0 \<le> d" "d < y * 2 ^ (16 - i)"
      by blast
    have idx: "rev [0..<16] ! i = 15 - i" using i by (simp add: rev_nth)
    have pw: "(2::int) ^ (16 - i) = 2 * 2 ^ (15 - i)" using i by (simp add: Suc_diff_le flip: power_Suc)
    have le: "(2::int) ^ (15 - i) \<le> 2 ^ 15" by (intro power_increasing) simp_all
    then have "y * 2 ^ (15 - i) \<le> 2 ^ 110 * 2 ^ 15" using xy by (intro mult_mono) simp_all
    then have s: "small (y * 2 ^ (15 - i))" "small d"
      using xy(2) J(4,5) unfolding pw by (simp_all add: small_def abs_mult)
    show "yields (world_ready cl) no_exn (sdiv_step cl ey one (rev [0..<16] ! i) acc) (?J (Suc i))"
      unfolding idx
    proof (rule yields_weaken [OF sdiv_step_ok [OF l c(2) o1 J(1,2) s]], elim conjE)
      fix r
      let ?lt = "y * 2 ^ (15 - i) > d"
      assume "is_cipher ?n (fst r) (if ?lt then q else q + 2 ^ (15 - i))"
        "is_cipher ?n (snd r) (if ?lt then d else d - y * 2 ^ (15 - i))"
      then show "?J (Suc i) r"
        using J pw by (intro exI [of _ "if ?lt then q else q + 2 ^ (15 - i)"]
            exI [of _ "if ?lt then d else d - y * 2 ^ (15 - i)"]) (auto simp: algebra_simps)
    qed
  qed
  have fin: "q = x div y \<and> d = x mod y" if "x = q * y + d" "0 \<le> d" "d < y" for q d
    using that xy by (simp add: div_pos_pos_trivial)
  have big: "2 * \<bar>x div y\<bar> < ?n" "2 * \<bar>x mod y\<bar> < ?n"
  proof -
    have "x div y < 2 ^ 16"
    proof (rule ccontr)
      assume "\<not> x div y < 2 ^ 16"
      then have "2 ^ 16 * y \<le> x div y * y" using xy(2) by (intro mult_right_mono) simp_all
      also have "\<dots> \<le> x" using xy by (simp add: div_mult_mod_eq [symmetric] minus_mod_eq_div_mult [symmetric])
      finally show False using xy(3) by simp
    qed
    moreover have "0 \<le> x div y" using xy by (simp add: pos_imp_zdiv_nonneg_iff)
    moreover have "0 \<le> x mod y" "x mod y < y" using xy by simp_all
    ultimately show "2 * \<bar>x div y\<bar> < ?n" "2 * \<bar>x mod y\<bar> < ?n" using xy(4) linked_simps(5) [OF l] by simp_all
  qed
  show ?thesis
    unfolding bench_sdiv_def
    apply (rule yields_bnd [OF yields_tp_encrypt [OF l]], rule yields_bnd [OF yields_tp_encrypt [OF l]])
    apply (rule yields_bnd [OF steps], assumption+)
    subgoal premises p for zero one r
    proof -
      obtain eq ed where r: "r = (eq, ed)" by (cases r)
      have c: "is_cipher ?n eq (x div y)" "is_cipher ?n ed (x mod y)" using p(3) fin by (auto simp: r)
      show ?thesis
        unfolding r prod.case
        by (rule yields_bnd [OF tp_decryptForTesting_ok [OF l c(1) big(1)]], simp,
            rule yields_bnd [OF tp_decryptForTesting_ok [OF l c(2) big(2)]], rule yields_ret) simp
    qed
    done
qed

end
