(* ===== verification/ThresholdFused.thy ===== *)
theory ThresholdFused
  imports ThresholdClient
begin

text \<open>
  The fused predicate of the threshold protocol (\<open>ThresholdProtocolClient::fusedPredicate\<close>). The
  client sends the masked comparisons and the nonces of an oblivious transfer; the server decrypts
  the comparisons, which gives it one share of each bit, and asks for the input labels these shares
  select; the client garbles the predicate's circuit and sends the labels, blinded by the transfer;
  the server evaluates the circuit and answers the decision. It is proved that the decision is the
  predicate's, from the masks up to the bytes, for the server of theory CspService.
\<close>

section \<open>The client's side\<close>

text \<open>One comparison's part of the first request.\<close>

definition fused_item ::
  "client \<Rightarrow> int list \<Rightarrow> int list \<Rightarrow> nat \<Rightarrow> int list \<times> int list \<times> bytes \<Rightarrow> (world, int list \<times> int list \<times> bytes) eff" where
  "fused_item cl differences shares i acc =
     (let (x0s, x1s, request) = acc in
      bnd (on_rng (randomBelowNonzero SOtX0 (cl_ot_modulus cl))) (\<lambda>x0.
      bnd (on_rng (randomBelowNonzero SOtX1 (cl_ot_modulus cl))) (\<lambda>x1.
      bnd (of_sum (append_ints request [differences ! i, shares ! i, x0, x1])) (\<lambda>request.
      ret (x0s @ [x0], x1s @ [x1], request)))))"

text \<open>The two blinded labels of one input, in the order of the server's choices.\<close>

definition ot_transfer ::
  "client \<Rightarrow> garbled_predicate \<Rightarrow> bool \<Rightarrow> nat \<Rightarrow> int \<Rightarrow> int \<Rightarrow> int \<Rightarrow> label \<times> label" where
  "ot_transfer cl g orientation i x0 x1 v =
     (let n = cl_ot_modulus cl; d = nat (cl_ot_private cl); zero = gp_zero g ! i; one = labelXor zero (gp_delta g);
          k0 = powm ((v - x0) mod n) d n; k1 = powm ((v - x1) mod n) d n;
          l0 = if orientation then one else zero; l1 = if orientation then zero else one
      in (labelXor l0 (otPad (cl_sha cl) k0 i), labelXor l1 (otPad (cl_sha cl) k1 i)))"

text \<open>What the second request holds after its context.\<close>

definition fused_finish_body ::
  "client \<Rightarrow> garbled_predicate \<Rightarrow> (int \<times> int \<times> bool) list \<Rightarrow> int list \<Rightarrow> int list \<Rightarrow> int list \<Rightarrow> bytes \<Rightarrow> bytes" where
  "fused_finish_body cl g masks x0s x1s v out =
     (let k = length masks; zero = gp_zero g ! bc_output (gp_circuit g);
          out = out @ writeU32 (of_nat k) @ writeU32 (of_nat (length (gp_tables g)));
          out = fold (\<lambda>i out. let (m0, m1) = ot_transfer cl g (snd (snd (masks ! i))) i (x0s ! i) (x1s ! i) (v ! i)
                              in appendLabel (appendLabel out m0) m1) [0..<k] out;
          out = fold (\<lambda>row out. appendLabel out row) (concat (gp_tables g)) out
      in appendLabel (appendLabel out zero) (labelXor zero (gp_delta g)))"

text \<open>The second message carries the garbled circuit and the blinded labels, its answer is the decision.\<close>

definition fused_finish ::
  "client \<Rightarrow> predicate_context \<Rightarrow> bool \<Rightarrow> (int \<times> int \<times> bool) list \<Rightarrow> int list \<Rightarrow> int list \<Rightarrow> int list \<Rightarrow> (world, bool) eff" where
  "fused_finish cl ctx incumbent masks x0s x1s v =
     (let k = length masks in
      bnd (on_rng (garblePredicate (cl_sha cl) (predicate_type ctx) k incumbent)) (\<lambda>g.
      bnd (of_sum (append_context (predicate_header CHR ''G'' ctx 0) ctx)) (\<lambda>finish.
      bnd (requestPayload cl (fused_finish_body cl g masks x0s x1s v finish)) (\<lambda>decision.
      if length decision \<noteq> 1 \<or> hd decision > 1 then throw (StdRuntimeError ''bad fused predicate decision'')
      else
      bnd (count_up (\<lambda>m. m\<lparr>logical_items := logical_items m + of_nat k,
        scmp_logical_items := scmp_logical_items m + of_nat k, scmp_dispatches := scmp_dispatches m + 1,
        cp_ecalls := cp_ecalls m + 1, csp_ecalls := csp_ecalls m + 1, csp_requests := csp_requests m + 2,
        predicate_reveals := predicate_reveals m + 1,
        secure_bit_and_items := secure_bit_and_items m + of_nat (length (gp_tables g))\<rparr>)) (\<lambda>_.
      ret (hd decision \<noteq> 0))))))"

text \<open>The first message carries the masked differences and their shares, its answer the transfers of one
  share of each bit.\<close>

definition fused_rounds :: "client \<Rightarrow> predicate_context \<Rightarrow> bool \<Rightarrow> (int \<times> int \<times> bool) list \<Rightarrow> int list \<Rightarrow> int list \<Rightarrow> (world, bool) eff" where
  "fused_rounds cl ctx incumbent masks differences shares =
     (let k = length masks in
      bnd (of_sum (append_context (predicate_header CHR ''F'' ctx (if incumbent then 1 else 0)) ctx)) (\<lambda>request.
      bnd (of_sum (append_ints (request @ writeU32 (of_nat k)) [cl_ot_modulus cl, cl_ot_public cl])) (\<lambda>request.
      bnd (foldM (fused_item cl differences shares) [0..<k] ([], [], request)) (\<lambda>(x0s, x1s, request).
      bnd (requestPayload cl request) (\<lambda>reply.
      if length reply < 4 \<or> unat (readU32 reply) \<noteq> k then throw (StdRuntimeError ''bad fused predicate OT response'')
      else
      bnd (of_sum (take_ints k reply 4)) (\<lambda>(v, off).
      if off \<noteq> length reply then throw (StdRuntimeError ''trailing fused OT response'')
      else fused_finish cl ctx incumbent masks x0s x1s v))))))"

definition tp_fusedPredicate :: "client \<Rightarrow> predicate_context \<Rightarrow> (int \<times> int) list \<Rightarrow> bool \<Rightarrow> (world, bool) eff" where
  "tp_fusedPredicate cl ctx items incumbent =
     (let k = length items in
      if items = [] \<or> k > max_batch_size then throw (PredicateError ''invalid fused predicate batch size'')
      else catch
       (bnd (mapM (\<lambda>item. compare_masks) items) (\<lambda>masks.
        bnd (tp_encryptBatch cl (map (compare_mask_value cl) masks)) (\<lambda>encrypted_masks.
        bnd (mapM (\<lambda>i. masked_difference cl ''invalid fused SCMP ciphertext'' (fst (items ! i)) (snd (items ! i))
               (masks ! i) (encrypted_masks ! i)) [0..<k]) (\<lambda>differences.
        bnd (of_sum (partialDecryptBatch (cl_enclave cl) differences (cl_mode cl))) (\<lambda>shares.
        fused_rounds cl ctx incumbent masks differences shares)))))
       (\<lambda>e. throw (PredicateError ''fused predicate protocol failed'')))"

section \<open>Oblivious transfer\<close>

text \<open>
  What the client's transfer key has to be: 3072 bits, with the usual public exponent and a private
  one that inverts it. Both sides use the same hash, with 32-byte values.
\<close>

definition transfer_ready :: "client \<Rightarrow> bool" where
  "transfer_ready cl \<longleftrightarrow> 1 < cl_ot_modulus cl \<and> sizeinbase2 (cl_ot_modulus cl) = 3072 \<and> cl_ot_public cl = rsa_f4 \<and>
     (\<forall>k. 0 < k \<longrightarrow> k < cl_ot_modulus cl \<longrightarrow>
        powm (powm k (nat rsa_f4) (cl_ot_modulus cl)) (nat (cl_ot_private cl)) (cl_ot_modulus cl) = k) \<and>
     cl_sha cl = sv_sha (cl_peer cl) \<and> (\<forall>x. length (sv_sha (cl_peer cl) x) = 32)"

text \<open>The value that answers a transfer.\<close>

definition ot_value :: "int \<Rightarrow> bool \<Rightarrow> int \<Rightarrow> int \<Rightarrow> int \<Rightarrow> int" where
  "ot_value n choice x0 x1 k = ((if choice then x1 else x0) + powm k (nat rsa_f4) n) mod n"

lemma ot_select:
  assumes t: "transfer_ready cl" and k: "0 < k" "k < cl_ot_modulus cl"
    and z: "length (gp_zero g ! i) = 32" "length (gp_delta g) = 32"
    and m: "ot_transfer cl g ori i x0 x1 (ot_value (cl_ot_modulus cl) choice x0 x1 k) = (m0, m1)"
  shows "labelXor (if choice then m1 else m0) (otPad (cl_sha cl) k i) = wl (gp_delta g) (gp_zero g ! i) (choice \<noteq> ori)"
    "length m0 = 32" "length m1 = 32"
proof -
  let ?n = "cl_ot_modulus cl" and ?v = "ot_value (cl_ot_modulus cl) choice x0 x1 k"
  have n: "1 < ?n" using t by (simp add: transfer_ready_def)
  have pad: "length (otPad (cl_sha cl) x i) = 32" for x using t by (simp add: transfer_ready_def otPad_def)
  have "(?v - (if choice then x1 else x0)) mod ?n = powm k (nat rsa_f4) ?n mod ?n"
    by (simp add: ot_value_def mod_simps)
  also have "\<dots> = powm k (nat rsa_f4) ?n" using n by (simp add: powm_def)
  finally have "powm ((?v - (if choice then x1 else x0)) mod ?n) (nat (cl_ot_private cl)) ?n = k"
    using t k by (simp add: transfer_ready_def)
  then have key: "(if choice then powm ((?v - x1) mod ?n) (nat (cl_ot_private cl)) ?n
      else powm ((?v - x0) mod ?n) (nat (cl_ot_private cl)) ?n) = k" by (simp split: if_splits)
  have unblind: "labelXor (labelXor l p) p = l" if "length l = 32" "length p = 32" for l p
    using labelXor_cancel [of p l] that by (simp add: labelXor_comm)
  show "labelXor (if choice then m1 else m0) (otPad (cl_sha cl) k i) = wl (gp_delta g) (gp_zero g ! i) (choice \<noteq> ori)"
    using m key z pad unfolding ot_transfer_def Let_def
    by (cases choice; cases ori) (auto simp: unblind wl_def)
  show "length m0 = 32" "length m1 = 32"
    using m z pad unfolding ot_transfer_def Let_def by (cases ori; auto)+
qed

lemma yields_randomBelowNonzero:
  assumes n: "1 < n" and F: "\<And>f. F f \<Longrightarrow> fair_ot n t f"
  shows "yields (\<lambda>g::rng. F (src g)) E (randomBelowNonzero t n) (\<lambda>v. 0 < v \<and> v < n)"
proof -
  have eq: "randomBelow t n = repeat_until (draw t (\<lambda>raw. raw mod 2 ^ sizeinbase2 (n - 1))) (\<lambda>v. v < n)"
    using n sizeinbase2_pos [of "n - 1"] by (simp add: randomBelow_def randomBits_def)
  show ?thesis
    unfolding randomBelowNonzero_def eq
  proof (rule yields_repeat_repeat_draw)
    fix f assume "F f"
    then show "often (\<lambda>raw. raw mod 2 ^ sizeinbase2 (n - 1) < n \<and> raw mod 2 ^ sizeinbase2 (n - 1) \<noteq> 0) (f t)"
      using F by (simp add: fair_ot_def)
  next
    fix f i assume "f t i mod 2 ^ sizeinbase2 (n - 1) < n" "f t i mod 2 ^ sizeinbase2 (n - 1) \<noteq> 0"
    moreover have "0 \<le> f t i mod 2 ^ sizeinbase2 (n - 1)" by simp
    ultimately show "0 < f t i mod 2 ^ sizeinbase2 (n - 1) \<and> f t i mod 2 ^ sizeinbase2 (n - 1) < n" by linarith
  qed
qed

section \<open>The server's first round\<close>

lemma take_ot_items_ok:
  "\<forall>(c, u, x0, x1)\<in>set items. wire_int c \<and> wire_int u \<and> 0 < x0 \<and> x0 < n \<and> 0 < x1 \<and> x1 < n \<and> wire_int x0 \<and> wire_int x1 \<Longrightarrow>
     take_ot_items (length items) n (pre @ ints_bytes (concat (map (\<lambda>(c, u, x0, x1). [c, u, x0, x1]) items))) (length pre) =
       Inr (items, length pre + length (ints_bytes (concat (map (\<lambda>(c, u, x0, x1). [c, u, x0, x1]) items))))"
proof (induction items arbitrary: pre)
  case (Cons x items)
  obtain c u x0 x1 where x: "x = (c, u, x0, x1)" by (cases x)
  have w: "wire_int c" "wire_int u" "wire_int x0" "wire_int x1" "0 < x0" "x0 < n" "0 < x1" "x1 < n"
    using Cons.prems by (auto simp: x)
  let ?rest = "ints_bytes (concat (map (\<lambda>(c, u, x0, x1). [c, u, x0, x1]) items))"
  have IH: "take_ot_items (length items) n ((pre @ int_bytes c @ int_bytes u @ int_bytes x0 @ int_bytes x1) @ ?rest)
      (length (pre @ int_bytes c @ int_bytes u @ int_bytes x0 @ int_bytes x1)) =
      Inr (items, length (pre @ int_bytes c @ int_bytes u @ int_bytes x0 @ int_bytes x1) + length ?rest)"
    using Cons.prems by (intro Cons.IH) simp
  show ?case
    using IH w takeInteger_ok [OF w(1), of pre "int_bytes u @ int_bytes x0 @ int_bytes x1 @ ?rest"]
      takeInteger_ok [OF w(2), of "pre @ int_bytes c" "int_bytes x0 @ int_bytes x1 @ ?rest"]
      takeInteger_ok [OF w(3), of "pre @ int_bytes c @ int_bytes u" "int_bytes x1 @ ?rest"]
      takeInteger_ok [OF w(4), of "pre @ int_bytes c @ int_bytes u @ int_bytes x0" ?rest]
    by (simp add: x add.assoc)
qed simp

text \<open>The first request, as the client builds it.\<close>

definition fused_frame :: "client \<Rightarrow> predicate_context \<Rightarrow> bool \<Rightarrow> (int \<times> int \<times> int \<times> int) list \<Rightarrow> bytes" where
  "fused_frame cl ctx incumbent items =
     predicate_header CHR ''F'' ctx (if incumbent then 1 else 0) @ ids_bytes ctx @ writeU32 (of_nat (length items)) @
     ints_bytes [cl_ot_modulus cl, cl_ot_public cl] @
     ints_bytes (concat (map (\<lambda>(c, u, x0, x1). [c, u, x0, x1]) items))"

definition ot_items_ok :: "int \<Rightarrow> (int \<times> int \<times> int \<times> int) list \<Rightarrow> bool" where
  "ot_items_ok n items \<longleftrightarrow> items \<noteq> [] \<and> length items \<le> 32 \<and>
     (\<forall>(c, u, x0, x1)\<in>set items. wire_int c \<and> wire_int u \<and> 0 < x0 \<and> x0 < n \<and> 0 < x1 \<and> x1 < n \<and> wire_int x0 \<and> wire_int x1)"

lemma wire_int_transfer:
  assumes "transfer_ready cl" "0 \<le> x" "x \<le> cl_ot_modulus cl"
  shows "wire_int x"
proof -
  have "mag_size (cl_ot_modulus cl) = 384" using assms(1) by (simp add: transfer_ready_def mag_size_def)
  moreover have "mag_size x \<le> mag_size (cl_ot_modulus cl)"
    using assms mag_size_mono [of x "cl_ot_modulus cl"] by (cases "x = cl_ot_modulus cl") simp_all
  ultimately show ?thesis using assms(2) by (simp add: wire_int_def)
qed

lemma parse_fused_frame:
  assumes t: "transfer_ready cl" and v: "valid_ids ctx" and items: "ot_items_ok (cl_ot_modulus cl) items"
  shows "parse_fused_start (fused_frame cl ctx incumbent items) =
    Inr \<lparr>fs_session = session_id ctx, fs_operation = operation_id ctx, fs_node = node_id ctx,
      fs_rsa_n = cl_ot_modulus cl, fs_rsa_e = rsa_f4, fs_items = items\<rparr>"
proof -
  let ?n = "cl_ot_modulus cl" and ?k = "length items"
  have ik: "?k \<noteq> 0" "?k \<le> 32" using items by (simp_all add: ot_items_ok_def)
  have k: "unat (of_nat ?k :: 32 word) = ?k" using ik by (intro unat_of_nat_32) simp
  have w: "wire_int ?n" "wire_int rsa_f4"
    using t wire_int_transfer [OF t, of ?n] mag_size_bound [of rsa_f4 3]
    by (simp_all add: transfer_ready_def wire_int_def rsa_f4_def)
  let ?hd = "predicate_header CHR ''F'' ctx (if incumbent then 1 else 0)"
  let ?tl = "ints_bytes (concat (map (\<lambda>(c, u, x0, x1). [c, u, x0, x1]) items))"
  have hd: "length ?hd = 8" by (simp add: predicate_header_def)
  have e: "cl_ot_public cl = rsa_f4" "sizeinbase2 ?n = 3072" using t by (simp_all add: transfer_ready_def)
  have frame: "fused_frame cl ctx incumbent items = ?hd @ ids_bytes ctx @ writeU32 (of_nat ?k) @ int_bytes ?n @ int_bytes rsa_f4 @ ?tl"
    by (simp add: fused_frame_def e)
  have tk: "take_ot_items ?k ?n ((?hd @ ids_bytes ctx @ writeU32 (of_nat ?k) @ int_bytes ?n @ int_bytes rsa_f4) @ ?tl)
      (length (?hd @ ids_bytes ctx @ writeU32 (of_nat ?k) @ int_bytes ?n @ int_bytes rsa_f4)) =
      Inr (items, length (?hd @ ids_bytes ctx @ writeU32 (of_nat ?k) @ int_bytes ?n @ int_bytes rsa_f4) + length ?tl)"
    using items by (intro take_ot_items_ok) (simp add: ot_items_ok_def)
  have rd: "drop (8 + length (ids_bytes ctx)) (fused_frame cl ctx incumbent items) = writeU32 (of_nat ?k) @ int_bytes ?n @ int_bytes rsa_f4 @ ?tl"
    unfolding frame using hd by simp
  show ?thesis
    unfolding parse_fused_start_def
    using take_context_ok [OF hd v, of "writeU32 (of_nat ?k) @ int_bytes ?n @ int_bytes rsa_f4 @ ?tl", folded frame]
      takeInteger_ok [OF w(1), of "?hd @ ids_bytes ctx @ writeU32 (of_nat ?k)" "int_bytes rsa_f4 @ ?tl"]
      takeInteger_ok [OF w(2), of "?hd @ ids_bytes ctx @ writeU32 (of_nat ?k) @ int_bytes ?n" "?tl"] tk hd k e ik
    by (simp add: rd readU32_writeU32 max_batch_size_def Let_def) (simp add: frame add.assoc)
qed


text \<open>The server's state, with its bookkeeping.\<close>

definition csp_at :: "client \<Rightarrow> pending_fused option \<times> string set \<Rightarrow> csp \<Rightarrow> bool" where
  "csp_at cl b c \<longleftrightarrow> fair_nonce (cl_modulus cl) (src (csp_rng c)) \<and>
     fair_ot (cl_ot_modulus cl) SOtKey (src (csp_rng c)) \<and> book c = b"

lemma yields_at_time [yields_rules]: "R () \<Longrightarrow> yields (csp_at cl b) E (add_time field) R"
  by (simp add: yields_def add_time_def elapsedNs_def eff_simps csp_at_def)

lemma yields_at_key:
  assumes "1 < cl_ot_modulus cl"
  shows "yields (csp_at cl b) E (on_csp_rng (randomBelowNonzero SOtKey (cl_ot_modulus cl))) (\<lambda>k. 0 < k \<and> k < cl_ot_modulus cl)"
  unfolding on_csp_rng_def
  by (rule yields_zoom [OF yields_randomBelowNonzero [OF assms,
        where F = "\<lambda>f. fair_nonce (cl_modulus cl) f \<and> fair_ot (cl_ot_modulus cl) SOtKey f"]])
     (auto simp: csp_at_def)

text \<open>The answers to the transfers.\<close>

definition ot_values :: "int \<Rightarrow> (int \<times> int \<times> int \<times> int) list \<Rightarrow> bool list \<Rightarrow> int list \<Rightarrow> int list" where
  "ot_values n items choices keys = map (\<lambda>i. case items ! i of (c, u, x0, x1) \<Rightarrow> ot_value n (choices ! i) x0 x1 (keys ! i)) [0..<length keys]"

lemma ot_values_snoc:
  "length choices = length keys \<Longrightarrow> items ! length keys = (c, u, x0, x1) \<Longrightarrow>
     ot_values n items (choices @ [b]) (keys @ [k]) = ot_values n items choices keys @ [ot_value n b x0 x1 k]"
  by (simp add: ot_values_def nth_append)

lemma wire_int_ot_value:
  assumes "transfer_ready cl"
  shows "wire_int (ot_value (cl_ot_modulus cl) b x0 x1 k)"
proof -
  have "0 < cl_ot_modulus cl" using assms by (simp add: transfer_ready_def)
  then have "0 \<le> ot_value (cl_ot_modulus cl) b x0 x1 k \<and> ot_value (cl_ot_modulus cl) b x0 x1 k \<le> cl_ot_modulus cl"
    by (simp add: ot_value_def less_imp_le)
  then show ?thesis by (intro wire_int_transfer [OF assms]) simp_all
qed

lemma length_ot_values [simp]: "length (ot_values n items choices keys) = length keys"
  by (simp add: ot_values_def)

lemma wire_int_ot_values: "transfer_ready cl \<Longrightarrow> \<forall>v\<in>set (ot_values (cl_ot_modulus cl) items choices keys). wire_int v"
  by (auto simp: ot_values_def wire_int_ot_value split: prod.splits)

text \<open>What the first round leaves: the choices, and usable keys.\<close>

definition ot_answered :: "client \<Rightarrow> int list \<Rightarrow> bool list \<Rightarrow> int list \<Rightarrow> bool" where
  "ot_answered cl plain choices keys \<longleftrightarrow> choices = map (\<lambda>m. m \<le> cl_modulus cl div 2) plain \<and>
     length keys = length plain \<and> (\<forall>k\<in>set keys. 0 < k \<and> k < cl_ot_modulus cl)"

lemma ot_answers_ok:
  assumes l: "linked cl mu" and t: "transfer_ready cl" and len: "length plain = length items" "length items \<le> 32" "length pre \<le> 1000"
  shows "yields (csp_at cl b) no_exn (foldM (ot_answer (cl_peer cl) (cl_ot_modulus cl) rsa_f4) (zip items plain) ([], [], pre))
    (\<lambda>(choices, keys, response). ot_answered cl plain choices keys \<and>
       response = pre @ ints_bytes (ot_values (cl_ot_modulus cl) items choices keys))"
proof -
  let ?n = "cl_ot_modulus cl"
  let ?J = "\<lambda>i (choices, keys, response). ot_answered cl (take i plain) choices keys \<and>
       response = pre @ ints_bytes (ot_values ?n items choices keys)"
  have n: "1 < ?n" using t by (simp add: transfer_ready_def)
  have "yields (csp_at cl b) no_exn (foldM (ot_answer (cl_peer cl) ?n rsa_f4) (zip items plain) ([], [], pre)) (?J (length (zip items plain)))"
  proof (rule yields_foldM_indexed)
    show "?J 0 ([], [], pre)" by (simp add: ot_answered_def ot_values_def)
  next
    fix i acc assume i: "i < length (zip items plain)" and J: "?J i acc"
    obtain choices keys response where acc: "acc = (choices, keys, response)" by (cases acc)
    obtain c u x0 x1 where it: "items ! i = (c, u, x0, x1)" by (cases "items ! i")
    have il: "i < length plain" "i < length items" using i by simp_all
    have a: "ot_answered cl (take i plain) choices keys" "response = pre @ ints_bytes (ot_values ?n items choices keys)"
      using J by (simp_all add: acc)
    have lens: "length choices = i" "length keys = i" using a(1) il by (simp_all add: ot_answered_def)
    let ?ch = "plain ! i \<le> cl_modulus cl div 2"
    have zi: "zip items plain ! i = ((c, u, x0, x1), plain ! i)" using il it by simp
    have len: "length response < 2 ^ 63"
      using length_ints_bytes [OF wire_int_ot_values [OF t, of items choices keys]] lens il len by (simp add: a(2))
    have snoc: "ot_values ?n items (choices @ [?ch]) (keys @ [k]) = ot_values ?n items choices keys @ [ot_value ?n ?ch x0 x1 k]" for k
      by (rule ot_values_snoc) (use lens it in simp_all)
    have app: "appendInteger response (((if ?ch then x1 else x0) + powm k (nat rsa_f4) ?n) mod ?n) =
        Inr (pre @ ints_bytes (ot_values ?n items (choices @ [?ch]) (keys @ [k])))" for k
      using appendInteger_ok [OF wire_int_ot_value [OF t, of ?ch x0 x1 k] len] unfolding snoc
      by (simp add: ot_value_def a(2))
    have keep: "ot_answered cl (take (Suc i) plain) (choices @ [?ch]) (keys @ [k])" if "0 < k \<and> k < ?n" for k
      using a(1) il that by (simp add: ot_answered_def take_Suc_conv_app_nth)
    show "yields (csp_at cl b) no_exn (ot_answer (cl_peer cl) ?n rsa_f4 (zip items plain ! i) acc) (?J (Suc i))"
      unfolding ot_answer_def zi acc prod.case Let_def linked_simps(3) [OF l] app of_sum_Inr bnd_ret
      by (rule yields_bnd [OF yields_at_key [OF n]], rule yields_ret) (simp add: keep)
  qed
  then show ?thesis using len by simp
qed


text \<open>The first round, from a server that holds no transcript and has not seen the key.\<close>

definition fused_pending :: "client \<Rightarrow> predicate_context \<Rightarrow> bool \<Rightarrow> boolean_circuit \<Rightarrow> bool list \<Rightarrow> int list \<Rightarrow> pending_fused" where
  "fused_pending cl ctx incumbent circuit choices keys = \<lparr>pf_session = session_id ctx, pf_operation = operation_id ctx,
     pf_node = node_id ctx, pf_type = predicate_type ctx, pf_incumbent = incumbent, pf_depth = of_nat (ctx_depth ctx),
     pf_choices = choices, pf_keys = keys, pf_circuit = circuit\<rparr>"

definition context_key :: "predicate_context \<Rightarrow> string" where
  "context_key ctx = fused_replay_key (session_id ctx) (operation_id ctx)"

lemma runs_at: "yields (csp_at cl b) no_exn m Q \<Longrightarrow> csp_at cl b c \<Longrightarrow> runs no_exn m c (\<lambda>a c'. Q a \<and> csp_at cl b c')"
  by (rule runs_of_yields)

lemma runs_upd: "Q () (f s) \<Longrightarrow> runs E (upd_st f) s Q"
  by (simp add: runs_def eff_simps)

lemma fused_start_served:
  assumes l: "linked cl mu" and t: "transfer_ready cl" and v: "valid_ids ctx" and items: "ot_items_ok (cl_ot_modulus cl) items"
    and dec: "thresholdDecryptBatch (sv_enclave (cl_peer cl)) (map fst items) (map (fst \<circ> snd) items) (cl_mode cl) = Inr plain"
    and len: "length plain = length items"
    and circuit: "predicateCircuit (predicate_type ctx) (length items) incumbent = Inr circuit"
    and c: "csp_at cl (None, R) c" "context_key ctx \<notin> R"
  shows "runs no_exn (csp_handle (cl_peer cl) (fused_frame cl ctx incumbent items)) c (\<lambda>reply c'. \<exists>choices keys.
    reply = Reply (0 # writeU32 (of_nat (length items)) @ ints_bytes (ot_values (cl_ot_modulus cl) items choices keys)) \<and>
    ot_answered cl plain choices keys \<and>
    csp_at cl (Some (fused_pending cl ctx incumbent circuit choices keys), insert (context_key ctx) R) c')"
proof -
  let ?n = "cl_ot_modulus cl" and ?k = "length items" and ?sv = "cl_peer cl" and ?R = "insert (context_key ctx) R"
  let ?fr = "fused_frame cl ctx incumbent items"
  have ik: "?k \<le> 32" using items by (simp add: ot_items_ok_def)
  have fr: "8 \<le> length ?fr" "?fr ! 1 = predicate_code (predicate_type ctx)" "?fr ! 2 = (if incumbent then 1 else 0)"
    "?fr ! 3 = 0" "readU32 (drop 4 ?fr) = of_nat (ctx_depth ctx)" "hd ?fr = op CHR ''F''" "?fr \<noteq> []"
    by (simp_all add: fused_frame_def predicate_header_def readU32_writeU32)
  have handle: "csp_handle ?sv ?fr = csp_fused_start ?sv ?fr" using fr(6,7) by (simp add: csp_handle_def)
  have book: "csp_pending c = None" "csp_replays c = R" using c(1) by (simp_all add: csp_at_def)
  have guard: "\<not> (csp_pending c \<noteq> None \<or> length ?fr < 8 \<or> bad_predicate_code (?fr ! 1) \<or> ?fr ! 2 > 1 \<or> ?fr ! 3 \<noteq> 0)"
    using fr book predicate_code_ok(1) by simp
  have fresh: "\<not> fused_replay_key (session_id ctx) (operation_id ctx) \<in> csp_replays c"
    using c(2) book by (simp add: context_key_def)
  have dcode: "decode_predicate (?fr ! 1) = predicate_type ctx" "(?fr ! 2 \<noteq> 0) = incumbent"
    using predicate_code_ok(2) fr by simp_all
  have c1: "csp_at cl (None, ?R) (csp_replays_update (insert (context_key ctx)) c)" using c(1) by (simp add: csp_at_def)
  have answers: "yields (csp_at cl (None, ?R)) no_exn
      (bnd (add_time threshold_decrypt_ns_update) (\<lambda>_.
       bnd (foldM (ot_answer ?sv ?n rsa_f4) (zip items plain) ([], [], 0 # writeU32 (of_nat ?k))) (\<lambda>x.
       bnd (add_time fused_rsa_public_powm_ns_update) (\<lambda>_. ret x))))
      (\<lambda>(choices, keys, response). ot_answered cl plain choices keys \<and>
         response = 0 # writeU32 (of_nat ?k) @ ints_bytes (ot_values ?n items choices keys))"
    by (rule yields_bnd [OF yields_at_time [OF TrueI]], rule yields_bnd [OF ot_answers_ok [OF l t len ik]], simp,
        rule yields_bnd [OF yields_at_time [OF TrueI]], rule yields_ret) auto
  have tail: "runs no_exn
      (bnd (add_time threshold_decrypt_ns_update) (\<lambda>_.
       bnd (foldM (ot_answer ?sv ?n rsa_f4) (zip items plain) ([], [], 0 # writeU32 (of_nat ?k))) (\<lambda>(choices, keys, response).
       bnd (add_time fused_rsa_public_powm_ns_update) (\<lambda>_.
       bnd (upd_st (csp_pending_update (\<lambda>_. Some (fused_pending cl ctx incumbent circuit choices keys)))) (\<lambda>_.
       ret (Reply response))))))
      (csp_replays_update (insert (context_key ctx)) c) (\<lambda>reply c'. \<exists>choices keys.
        reply = Reply (0 # writeU32 (of_nat ?k) @ ints_bytes (ot_values ?n items choices keys)) \<and>
        ot_answered cl plain choices keys \<and> csp_at cl (Some (fused_pending cl ctx incumbent circuit choices keys), ?R) c')"
    apply (rule runs_bndI [OF runs_at [OF yields_at_time [OF TrueI] c1]])
    apply (erule conjE, rule runs_bndI [OF runs_at [OF ot_answers_ok [OF l t len ik]]], simp, assumption)
    subgoal for u s1 x s2
      apply (cases x, simp only: prod.case, elim conjE)
      apply (rule runs_bndI [OF runs_at [OF yields_at_time [OF TrueI]]], assumption)
      apply (elim conjE, rule runs_bnd, rule runs_upd, rule runs_ret)
      apply (rule exI, rule exI, intro conjI, simp, assumption)
      by (simp add: csp_at_def)
    done
  have eq: "csp_fused_start ?sv ?fr c = (bnd (add_time threshold_decrypt_ns_update) (\<lambda>_.
       bnd (foldM (ot_answer ?sv ?n rsa_f4) (zip items plain) ([], [], 0 # writeU32 (of_nat ?k))) (\<lambda>(choices, keys, response).
       bnd (add_time fused_rsa_public_powm_ns_update) (\<lambda>_.
       bnd (upd_st (csp_pending_update (\<lambda>_. Some (fused_pending cl ctx incumbent circuit choices keys)))) (\<lambda>_.
       ret (Reply response)))))) (csp_replays_update (insert (context_key ctx)) c)"
    unfolding csp_fused_start_def
    using guard fresh dec circuit
    by (simp add: bnd_app get_st_app upd_st_app parse_fused_frame [OF t v items] Let_def dcode fr(5) linked_simps(4) [OF l]
        fused_pending_def context_key_def del: One_nat_def)
  show ?thesis using tail unfolding runs_def handle eq .
qed


section \<open>The server's second round\<close>

lemma takeLabel_ok: "length x = 32 \<Longrightarrow> takeLabel (pre @ x @ rest) (length pre) = Inr (x, length pre + 32)"
  by (simp add: takeLabel_def)

lemma take_labels_ok:
  "\<forall>x\<in>set ls. length x = 32 \<Longrightarrow>
     take_labels (length ls) (pre @ concat ls @ rest) (length pre) = Inr (ls, length pre + 32 * length ls)"
proof (induction ls arbitrary: pre)
  case (Cons x ls)
  then show ?case
    using takeLabel_ok [of x pre "concat ls @ rest"] Cons.IH [of "pre @ x"] by (simp add: add.assoc)
qed simp

lemma length_concat_labels: "\<forall>x\<in>set t. length x = 32 \<Longrightarrow> length (concat t) = 32 * length t"
  by (induction t) simp_all

lemma take_tables_ok:
  "\<forall>t\<in>set ts. table_shape t \<Longrightarrow>
     take_tables (length ts) (pre @ concat (concat ts) @ rest) (length pre) = Inr (ts, length pre + 128 * length ts)"
proof (induction ts arbitrary: pre)
  case (Cons t ts)
  have t: "length t = 4" "\<forall>x\<in>set t. length x = 32" using Cons.prems by (simp_all add: table_shape_def)
  have "length (concat t) = 128"
    using length_concat_labels [OF t(2)] t(1) by simp
  then show ?case
    using take_labels_ok [OF t(2), of pre "concat (concat ts) @ rest"] Cons.IH [of "pre @ concat t"] Cons.prems t(1)
    by (simp add: add.assoc)
qed simp

lemma take_input_labels_ok:
  "\<forall>i\<in>set is. length (fst (f i)) = 32 \<and> length (snd (f i)) = 32 \<Longrightarrow>
     take_input_labels sha p (pre @ concat (map (\<lambda>i. fst (f i) @ snd (f i)) is) @ rest) is (length pre, labels) =
       Inr (length pre + 64 * length is,
         fold (\<lambda>i ls. ls[i := labelXor (if pf_choices p ! i then snd (f i) else fst (f i)) (otPad sha (pf_keys p ! i) i)]) is labels)"
proof (induction "is" arbitrary: pre labels)
  case (Cons i js)
  let ?rest = "concat (map (\<lambda>i. fst (f i) @ snd (f i)) js) @ rest"
  have f: "length (fst (f i)) = 32" "length (snd (f i)) = 32" using Cons.prems by simp_all
  show ?case
    using takeLabel_ok [OF f(1), of pre "snd (f i) @ ?rest"] takeLabel_ok [OF f(2), of "pre @ fst (f i)" ?rest]
      Cons.IH [of "pre @ fst (f i) @ snd (f i)"] Cons.prems f
    by (simp add: add.assoc)
qed simp

lemma fold_update_upt:
  "k \<le> length labels \<Longrightarrow> length (fold (\<lambda>i ls. ls[i := g i]) [0..<k] labels) = length labels \<and>
     (\<forall>i<k. fold (\<lambda>i ls. ls[i := g i]) [0..<k] labels ! i = g i)"
  by (induction k) (auto simp: less_Suc_eq)

lemma fold_appendLabel: "fold (\<lambda>row out. appendLabel out row) rows out = out @ concat rows"
  by (induction rows arbitrary: out) (simp_all add: appendLabel_def)

lemma fold_append_pairs:
  "fold (\<lambda>i out. let (m0, m1) = f i in appendLabel (appendLabel out m0) m1) is out = out @ concat (map (\<lambda>i. fst (f i) @ snd (f i)) is)"
  by (induction "is" arbitrary: out) (simp_all add: appendLabel_def split: prod.splits)

text \<open>The transfers of a reply, and the request they are sent in.\<close>

definition transfers ::
  "client \<Rightarrow> garbled_predicate \<Rightarrow> (int \<times> int \<times> bool) list \<Rightarrow> int list \<Rightarrow> int list \<Rightarrow> int list \<Rightarrow> nat \<Rightarrow> label \<times> label" where
  "transfers cl g masks x0s x1s v i = ot_transfer cl g (snd (snd (masks ! i))) i (x0s ! i) (x1s ! i) (v ! i)"

lemma fused_finish_body_eq:
  "fused_finish_body cl g masks x0s x1s v out = out @ writeU32 (of_nat (length masks)) @ writeU32 (of_nat (length (gp_tables g))) @
     concat (map (\<lambda>i. fst (transfers cl g masks x0s x1s v i) @ snd (transfers cl g masks x0s x1s v i)) [0..<length masks]) @
     concat (concat (gp_tables g)) @ gp_zero g ! bc_output (gp_circuit g) @
     labelXor (gp_zero g ! bc_output (gp_circuit g)) (gp_delta g)"
  unfolding fused_finish_body_def Let_def fold_appendLabel
    fold_append_pairs [of "\<lambda>i. ot_transfer cl g (snd (snd (masks ! i))) i (x0s ! i) (x1s ! i) (v ! i)", unfolded Let_def]
  by (simp add: appendLabel_def transfers_def)


lemma gates_fold: "length (bc_gates (fst (fold bc_fold is x))) = length (bc_gates (fst x)) + length is"
  by (induction "is" arbitrary: x) (simp_all add: bc_fold_def bc_and_def bc_linear_def split: prod.splits)

lemma few_gates:
  assumes "predicateCircuit ty n incumbent = Inr c"
  shows "length (bc_gates c) \<le> n + 4"
proof (cases ty)
  case PruneNode
  obtain c1 folded where f: "fold bc_fold [2..<n] (bc_inputs_only n, 1) = (c1, folded)" by fastforce
  have "length (bc_gates c1) \<le> n" using gates_fold [of "[2..<n]" "(bc_inputs_only n, 1)"] f by (simp add: bc_inputs_only_def)
  then show ?thesis using assms f PruneNode
    by (auto simp: predicateCircuit_def Let_def bc_and_def bc_linear_def bc_inputs_only_def split: if_splits)
next
  case AcceptCandidate
  with assms show ?thesis
    by (auto simp: predicateCircuit_def Let_def bc_and_def bc_linear_def bc_inputs_only_def split: if_splits)
qed

lemma length_messages:
  "\<forall>i\<in>set is. length (fst (f i)) = 32 \<and> length (snd (f i)) = 32 \<Longrightarrow>
     length (concat (map (\<lambda>i. fst (f i) @ snd (f i)) is)) = 64 * length is"
  by (induction "is") simp_all

lemma length_tables: "\<forall>t\<in>set ts. table_shape t \<Longrightarrow> length (concat (concat ts)) = 128 * length ts"
  by (induction ts) (simp_all add: table_shape_def length_concat_labels)

lemma transfers_ok:
  assumes t: "transfer_ready cl" and g: "garbled_for (sv_sha (cl_peer cl)) ty k incumbent g"
    and k: "k \<le> 32" "length masks = k" "length choices = k" "length keys = k"
    and keys: "\<forall>i<k. 0 < keys ! i \<and> keys ! i < cl_ot_modulus cl"
    and v: "\<forall>i<k. v ! i = ot_value (cl_ot_modulus cl) (choices ! i) (x0s ! i) (x1s ! i) (keys ! i)"
    and i: "i < k"
  shows "labelXor (if choices ! i then snd (transfers cl g masks x0s x1s v i) else fst (transfers cl g masks x0s x1s v i))
      (otPad (sv_sha (cl_peer cl)) (keys ! i) i) =
      wl (gp_delta g) (gp_zero g ! i) (map (\<lambda>i. choices ! i \<noteq> snd (snd (masks ! i))) [0..<k] ! i)"
    "length (fst (transfers cl g masks x0s x1s v i)) = 32" "length (snd (transfers cl g masks x0s x1s v i)) = 32"
proof -
  have e: "ot_transfer cl g (snd (snd (masks ! i))) i (x0s ! i) (x1s ! i)
      (ot_value (cl_ot_modulus cl) (choices ! i) (x0s ! i) (x1s ! i) (keys ! i)) =
      (fst (transfers cl g masks x0s x1s v i), snd (transfers cl g masks x0s x1s v i))"
    using v i by (simp add: transfers_def)
  have z: "length (gp_zero g ! i) = 32" "length (gp_delta g) = 32" using g i by (simp_all add: garbled_for_def odd_label_def)
  have kk: "0 < keys ! i" "keys ! i < cl_ot_modulus cl" using keys i by simp_all
  note s = ot_select [OF t kk z e]
  show "labelXor (if choices ! i then snd (transfers cl g masks x0s x1s v i) else fst (transfers cl g masks x0s x1s v i))
      (otPad (sv_sha (cl_peer cl)) (keys ! i) i) =
      wl (gp_delta g) (gp_zero g ! i) (map (\<lambda>i. choices ! i \<noteq> snd (snd (masks ! i))) [0..<k] ! i)"
    using s(1) t i by (simp add: transfer_ready_def)
  show "length (fst (transfers cl g masks x0s x1s v i)) = 32" "length (snd (transfers cl g masks x0s x1s v i)) = 32"
    using s(2,3) by simp_all
qed

text \<open>The server decides what the circuit computes on the shared bits.\<close>

lemma fused_decision_ok:
  assumes t: "transfer_ready cl" and g: "garbled_for (sv_sha (cl_peer cl)) (predicate_type ctx) k incumbent g"
    and k: "k \<le> 32" "length masks = k" "length choices = k" "length keys = k"
    and keys: "\<forall>i<k. 0 < keys ! i \<and> keys ! i < cl_ot_modulus cl"
    and v: "\<forall>i<k. v ! i = ot_value (cl_ot_modulus cl) (choices ! i) (x0s ! i) (x1s ! i) (keys ! i)"
  shows "fused_decision (cl_peer cl) (fused_pending cl ctx incumbent (gp_circuit g) choices keys)
      (fused_finish_body cl g masks x0s x1s v pre) (length pre) =
    Inr [0, if circuit_decision (predicate_type ctx) (map (\<lambda>i. choices ! i \<noteq> snd (snd (masks ! i))) [0..<k]) incumbent then 1 else 0]"
proof -
  let ?sha = "sv_sha (cl_peer cl)" and ?c = "gp_circuit g" and ?n = "length (bc_wires (gp_circuit g))"
  let ?p = "fused_pending cl ctx incumbent ?c choices keys" and ?d = "gp_delta g"
  let ?tr = "transfers cl g masks x0s x1s v" and ?gates = "length (gp_tables g)"
  let ?zero = "gp_zero g ! bc_output ?c"
  let ?bs = "map (\<lambda>i. choices ! i \<noteq> snd (snd (masks ! i))) [0..<k]"
  have gf: "predicateCircuit (predicate_type ctx) k incumbent = Inr ?c" "odd_label ?d" "length (gp_zero g) = ?n"
    "\<And>i. i < ?n \<Longrightarrow> length (gp_zero g ! i) = 32" "k \<le> ?n" "bc_output ?c < ?n" "?gates = length (bc_gates ?c)"
    "\<forall>t\<in>set (gp_tables g). table_shape t"
    using g by (simp_all add: garbled_for_def)
  have d: "length ?d = 32" using gf(2) by (simp add: odd_label_def)
  note tr = transfers_ok [OF t g k keys v]
  let ?msgs = "concat (map (\<lambda>i. fst (?tr i) @ snd (?tr i)) [0..<k])"
  let ?req = "fused_finish_body cl g masks x0s x1s v pre"
  let ?pre = "pre @ writeU32 (of_nat k) @ writeU32 (of_nat ?gates)"
  have req: "?req = ?pre @ ?msgs @ concat (concat (gp_tables g)) @ ?zero @ labelXor ?zero ?d"
    unfolding fused_finish_body_eq using k(2) by simp
  have small: "?gates < 2 ^ 32" using few_gates [OF gf(1)] gf(7) k(1) by simp
  have counts: "unat (readU32 (drop (length pre) ?req)) = k" "unat (readU32 (drop (length pre + 4) ?req)) = ?gates"
    unfolding req using k(1) small by (simp_all add: readU32_writeU32 unat_of_nat_32)
  have lm: "length ?msgs = 64 * k" using tr(2,3) by (subst length_messages) simp_all
  define labels where "labels = fold (\<lambda>i ls. ls[i := labelXor (if pf_choices ?p ! i then snd (?tr i) else fst (?tr i))
      (otPad ?sha (pf_keys ?p ! i) i)]) [0..<k] (replicate ?n zero_label)"
  have labels: "length labels = ?n" "\<forall>i<k. labels ! i = wl ?d (gp_zero g ! i) (?bs ! i)"
    using fold_update_upt [of k "replicate ?n zero_label" "\<lambda>i. labelXor (if pf_choices ?p ! i then snd (?tr i) else fst (?tr i))
      (otPad ?sha (pf_keys ?p ! i) i)"] gf(5) tr(1) unfolding labels_def [symmetric]
    by (simp_all add: fused_pending_def)
  have inputs: "take_input_labels ?sha ?p ?req [0..<k] (length ?pre, replicate ?n zero_label) = Inr (length ?pre + 64 * k, labels)"
    unfolding req labels_def using tr(2,3)
    by (subst take_input_labels_ok) simp_all
  have "?req = (?pre @ ?msgs) @ concat (concat (gp_tables g)) @ ?zero @ labelXor ?zero ?d" using req by simp
  then have tables: "take_tables ?gates ?req (length ?pre + 64 * k) = Inr (gp_tables g, length ?pre + 64 * k + 128 * ?gates)"
    using take_tables_ok [OF gf(8), of "?pre @ ?msgs" "?zero @ labelXor ?zero ?d"] lm by (simp add: add.assoc)
  have lt: "length (concat (concat (gp_tables g))) = 128 * ?gates" using gf(8) by (rule length_tables)
  have z: "length ?zero = 32" using gf(4,6) by simp
  have out0: "takeLabel ?req (length ?pre + 64 * k + 128 * ?gates) = Inr (?zero, length ?pre + 64 * k + 128 * ?gates + 32)"
    using takeLabel_ok [OF z, of "?pre @ ?msgs @ concat (concat (gp_tables g))" "labelXor ?zero ?d"] lm lt
    unfolding req by (simp add: add.assoc)
  have out1: "takeLabel ?req (length ?pre + 64 * k + 128 * ?gates + 32) = Inr (labelXor ?zero ?d, length ?req)"
    using takeLabel_ok [of "labelXor ?zero ?d" "?pre @ ?msgs @ concat (concat (gp_tables g)) @ ?zero" "[]"] lm lt z d
    unfolding req by (simp add: add.assoc)
  have ev: "\<exists>out. evaluate_wires ?sha ?c (gp_tables g) [k..<length (gp_zero g)] 0 ls = Inr out \<and> length out = length (gp_zero g) \<and>
      out ! bc_output ?c = wl ?d ?zero (circuit_decision (predicate_type ctx) bs incumbent)"
    if "length bs = k" "length ls = length (gp_zero g)" "\<forall>i<k. ls ! i = wl ?d (gp_zero g ! i) (bs ! i)" for bs ls
    using g that unfolding garbled_for_def by blast
  obtain out where out: "evaluate_wires ?sha ?c (gp_tables g) [k..<?n] 0 labels = Inr out"
    "out ! bc_output ?c = wl ?d ?zero (circuit_decision (predicate_type ctx) ?bs incumbent)"
    using ev [of ?bs labels] labels unfolding gf(3) by auto
  have decide: "wl ?d ?zero b = ?zero \<longleftrightarrow> \<not> b" "wl ?d ?zero b = labelXor ?zero ?d \<longleftrightarrow> b" for b
    using wl_inject [OF gf(2) z, of b False] wl_inject [OF gf(2) z, of b True] by (simp_all add: wl_def)
  have shape: "\<not> (k \<noteq> length (pf_choices ?p) \<or> ?gates \<noteq> length (bc_gates ?c))" "pf_circuit ?p = ?c"
    using k gf(7) by (simp_all add: fused_pending_def)
  have lp: "length pre + 8 = length ?pre" by simp
  show ?thesis
    unfolding fused_decision_def Let_def counts shape(2) if_not_P [OF shape(1)] lp inputs sbind_simps prod.case tables
      out0 out1 out(1)
    by (simp add: out(2) decide)
qed


text \<open>The second request, and the second round.\<close>

definition finish_frame ::
  "client \<Rightarrow> predicate_context \<Rightarrow> garbled_predicate \<Rightarrow> (int \<times> int \<times> bool) list \<Rightarrow> int list \<Rightarrow> int list \<Rightarrow> int list \<Rightarrow> bytes" where
  "finish_frame cl ctx g masks x0s x1s v = fused_finish_body cl g masks x0s x1s v (predicate_header CHR ''G'' ctx 0 @ ids_bytes ctx)"

lemma finish_frame_eq: "\<exists>rest. finish_frame cl ctx g masks x0s x1s v = predicate_header CHR ''G'' ctx 0 @ ids_bytes ctx @ rest \<and> 8 \<le> length rest"
  unfolding finish_frame_def fused_finish_body_eq append.assoc by (intro exI conjI, rule refl) simp

lemma fused_finish_served:
  assumes t: "transfer_ready cl" and v: "valid_ids ctx"
    and dec: "fused_decision (cl_peer cl) (fused_pending cl ctx incumbent circuit choices keys) (finish_frame cl ctx g masks x0s x1s vals)
      (8 + length (ids_bytes ctx)) = Inr reply"
    and c: "csp_at cl (Some (fused_pending cl ctx incumbent circuit choices keys), R) c"
  shows "runs no_exn (csp_handle (cl_peer cl) (finish_frame cl ctx g masks x0s x1s vals)) c
    (\<lambda>r c'. r = Reply reply \<and> csp_at cl (None, R) c')"
proof -
  let ?fr = "finish_frame cl ctx g masks x0s x1s vals" and ?p = "fused_pending cl ctx incumbent circuit choices keys"
  let ?hd = "predicate_header CHR ''G'' ctx 0"
  obtain rest where rest: "?fr = ?hd @ ids_bytes ctx @ rest" "8 \<le> length rest" using finish_frame_eq by blast
  have fr: "8 \<le> length ?fr" "?fr ! 1 = predicate_code (predicate_type ctx)" "?fr ! 2 = 0" "?fr ! 3 = 0"
    "readU32 (drop 4 ?fr) = of_nat (ctx_depth ctx)" "hd ?fr = op CHR ''G''" "?fr \<noteq> []"
    "\<not> length ?fr - (8 + length (ids_bytes ctx)) < 8"
    using rest by (simp_all add: predicate_header_def readU32_writeU32)
  have ctx: "take_context ?fr = Inr (session_id ctx, operation_id ctx, node_id ctx, 8 + length (ids_bytes ctx))"
    unfolding rest(1) by (rule take_context_ok [OF _ v]) (simp add: predicate_header_def)
  have handle: "csp_handle (cl_peer cl) ?fr = csp_fused_finish (cl_peer cl) ?fr" using fr(6,7) by (simp add: csp_handle_def)
  have p: "csp_pending c = Some ?p" using c by (simp add: csp_at_def)
  have c1: "csp_at cl (None, R) (c\<lparr>csp_pending := None\<rparr>)" using c by (simp add: csp_at_def)
  have guard: "\<not> (length ?fr < 8 \<or> bad_predicate_code (?fr ! 1) \<or> ?fr ! 2 \<noteq> 0 \<or> ?fr ! 3 \<noteq> 0)"
    using fr predicate_code_ok(1) by simp
  have eq: "csp_fused_finish (cl_peer cl) ?fr c =
      bnd (add_time fused_circuit_evaluate_ns_update) (\<lambda>_. ret (Reply reply)) (c\<lparr>csp_pending := None\<rparr>)"
    unfolding csp_fused_finish_def
    using guard dec fr(8)
    by (simp add: bnd_app get_st_app upd_st_app p ctx Let_def fr(2,5) predicate_code_ok(2) del: One_nat_def)
       (simp add: fused_pending_def)
  have "yields (csp_at cl (None, R)) no_exn (bnd (add_time fused_circuit_evaluate_ns_update) (\<lambda>_. ret (Reply reply))) (\<lambda>r. r = Reply reply)"
    by (rule yields_bnd [OF yields_at_time [OF TrueI]], rule yields_ret) simp
  from runs_at [OF this c1] show ?thesis unfolding runs_def handle eq .
qed

section \<open>The client's rounds\<close>

lemma runs_requestPayload:
  assumes w: "world_inv cl C w" and len: "length payload \<le> max_frame"
    and h: "\<And>c. C c \<Longrightarrow> runs no_exn (csp_handle (cl_peer cl) payload) c
      (\<lambda>reply c'. \<exists>b. reply = Reply (0 # b) \<and> length b < max_frame \<and> Q b c')"
  shows "runs no_exn (requestPayload cl payload) w (\<lambda>b w'. world_inv cl (Q b) w')"
proof -
  have "C (w_csp w)" "w_open w" using w by (simp_all add: world_inv_def)
  from runs_no_exnD [OF h [OF this(1)]] obtain b c where
    "csp_handle (cl_peer cl) payload (w_csp w) = Some (Inr (Reply (0 # b)), c)" "length b < max_frame" "Q b c" by blast
  with w \<open>w_open w\<close> len show ?thesis
    by (simp add: runs_def requestPayload_def eff_simps csp_serve_def reply_payload_def world_inv_def Suc_le_eq)
qed

lemma runs_catch: "runs no_exn m s Q \<Longrightarrow> runs E (catch m h) s Q"
  unfolding runs_def no_exn_def by (auto simp: catch_app split: option.splits sum.splits)

definition ot_list :: "nat \<Rightarrow> int list \<Rightarrow> int list \<Rightarrow> int list \<Rightarrow> int list \<Rightarrow> (int \<times> int \<times> int \<times> int) list" where
  "ot_list k ds us x0s x1s = map (\<lambda>i. (ds ! i, us ! i, x0s ! i, x1s ! i)) [0..<k]"

definition nonces_ok :: "int \<Rightarrow> nat \<Rightarrow> int list \<Rightarrow> bool" where
  "nonces_ok n k xs \<longleftrightarrow> length xs = k \<and> (\<forall>x\<in>set xs. 0 < x \<and> x < n)"

abbreviation ot_ints :: "(int \<times> int \<times> int \<times> int) list \<Rightarrow> int list" where
  "ot_ints items \<equiv> concat (map (\<lambda>(c, u, x0, x1). [c, u, x0, x1]) items)"

lemma ot_list_Suc:
  "length x0s = k \<Longrightarrow> length x1s = k \<Longrightarrow>
     ot_list (Suc k) ds us (x0s @ [x0]) (x1s @ [x1]) = ot_list k ds us x0s x1s @ [(ds ! k, us ! k, x0, x1)]"
  by (simp add: ot_list_def nth_append)

lemma length_ot_ints: "length (ot_ints items) = 4 * length items"
  by (induction items) auto

lemma fused_items_ok:
  assumes t: "transfer_ready cl" and k: "k \<le> 32" "length req \<le> 10000"
    and w: "\<forall>i<k. wire_int (ds ! i) \<and> wire_int (us ! i)"
  shows "yields (world_inv cl C) no_exn (foldM (fused_item cl ds us) [0..<k] ([], [], req))
    (\<lambda>(x0s, x1s, request). nonces_ok (cl_ot_modulus cl) k x0s \<and> nonces_ok (cl_ot_modulus cl) k x1s \<and>
       request = req @ ints_bytes (ot_ints (ot_list k ds us x0s x1s)))"
proof -
  let ?n = "cl_ot_modulus cl"
  let ?J = "\<lambda>i (x0s, x1s, request). nonces_ok ?n i x0s \<and> nonces_ok ?n i x1s \<and>
       request = req @ ints_bytes (ot_ints (ot_list i ds us x0s x1s))"
  have n: "1 < ?n" using t by (simp add: transfer_ready_def)
  have draw: "yields (world_inv cl C) no_exn (on_rng (randomBelowNonzero s ?n)) (\<lambda>x. 0 < x \<and> x < ?n)" if "s \<in> {SOtX0, SOtX1}" for s
    by (rule yields_on_rng [OF yields_randomBelowNonzero [OF n, where F = "fair_client cl"]]) (use that in \<open>auto simp: fair_client_def\<close>)
  have "yields (world_inv cl C) no_exn (foldM (fused_item cl ds us) [0..<k] ([], [], req)) (?J (length [0..<k]))"
  proof (rule yields_foldM_indexed)
    show "?J 0 ([], [], req)" by (simp add: nonces_ok_def ot_list_def)
  next
    fix i acc assume i: "i < length [0..<k]" and J: "?J i acc"
    obtain x0s x1s request where acc: "acc = (x0s, x1s, request)" by (cases acc)
    have a: "nonces_ok ?n i x0s" "nonces_ok ?n i x1s" "request = req @ ints_bytes (ot_ints (ot_list i ds us x0s x1s))"
      using J by (simp_all add: acc)
    have ik: "i < k" "[0..<k] ! i = i" using i by simp_all
    have wi: "wire_int (ds ! j)" "wire_int (us ! j)" if "j \<le> i" for j using w ik that by simp_all
    have wx: "wire_int x" if "0 < x \<and> x < ?n" for x using that by (intro wire_int_transfer [OF t]) simp_all
    have "\<forall>v\<in>set (ot_ints (ot_list i ds us x0s x1s)). wire_int v"
      using wi wx a(1,2) by (auto simp: ot_list_def nonces_ok_def all_set_conv_all_nth)
    from length_ints_bytes [OF this] have len: "length request \<le> 10000 + 2052 * 4 * i"
      using k(2) by (simp add: a(3) length_ot_ints) (simp add: ot_list_def)
    have step: "yields (world_inv cl C) no_exn
        (bnd (of_sum (append_ints request [ds ! i, us ! i, x0, x1])) (\<lambda>request. ret (x0s @ [x0], x1s @ [x1], request))) (?J (Suc i))"
      if x: "0 < x0 \<and> x0 < ?n" "0 < x1 \<and> x1 < ?n" for x0 x1
    proof -
      have "append_ints request [ds ! i, us ! i, x0, x1] = Inr (request @ ints_bytes [ds ! i, us ! i, x0, x1])"
        using wi wx x len ik k by (intro append_ints_ok) simp_all
      moreover have "?J (Suc i) (x0s @ [x0], x1s @ [x1], request @ ints_bytes [ds ! i, us ! i, x0, x1])"
        using a x ot_list_Suc [of x0s i x1s] by (auto simp: nonces_ok_def)
      ultimately show ?thesis by (simp add: yields_ret)
    qed
    show "yields (world_inv cl C) no_exn (fused_item cl ds us ([0..<k] ! i) acc) (?J (Suc i))"
      unfolding fused_item_def acc prod.case Let_def ik(2)
      by (rule yields_bnd [OF draw], simp, rule yields_bnd [OF draw], simp, rule step)
  qed
  then show ?thesis by simp
qed


section \<open>The decision\<close>

abbreviation world_at :: "client \<Rightarrow> pending_fused option \<times> string set \<Rightarrow> world \<Rightarrow> bool" where
  "world_at cl b \<equiv> world_inv cl (csp_at cl b)"

lemma masked_differences_ok:
  assumes l: "linked cl mu" and v: "list_all2 (pair_cipher (cl_modulus cl)) items vs"
  shows "yields (world_inv cl C) no_exn
    (bnd (mapM (\<lambda>item. compare_masks) items) (\<lambda>masks.
     bnd (tp_encryptBatch cl (map (compare_mask_value cl) masks)) (\<lambda>ems.
     bnd (mapM (\<lambda>i. masked_difference cl msg (fst (items ! i)) (snd (items ! i)) (masks ! i) (ems ! i)) [0..<length items])
       (\<lambda>ds. ret (masks, ds)))))
    (\<lambda>(masks, ds). length masks = length items \<and> length ds = length items \<and> (\<forall>i<length items. masks_ok (masks ! i) \<and>
       is_cipher (cl_modulus cl) (ds ! i) (masked_value (cl_modulus cl) (masks ! i) (fst (vs ! i)) (snd (vs ! i)))))"
proof -
  let ?n = "cl_modulus cl" and ?k = "length items"
  have vi: "is_cipher ?n (fst (items ! i)) (fst (vs ! i))" "is_cipher ?n (snd (items ! i)) (snd (vs ! i))"
    if "i < ?k" for i
    using v that by (auto simp: list_all2_conv_all_nth pair_cipher_def)
  have masks: "yields (world_inv cl C) no_exn (mapM (\<lambda>item. compare_masks) items)
      (\<lambda>ms. length ms = ?k \<and> (\<forall>i<?k. masks_ok (ms ! i)))"
    by (rule yields_weaken [OF yields_mapM [where R = "\<lambda>_. masks_ok"]])
       (auto intro: yields_compare_masks simp: list_all2_conv_all_nth)
  show ?thesis
    apply (rule yields_bnd [OF masks], rule yields_bnd [OF yields_tp_encryptBatch [OF l]])
    subgoal premises p for masks ems
    proof -
      have e: "is_cipher ?n (ems ! i) (compare_mask_value cl (masks ! i))" if "i < ?k" for i
        using p that by (simp add: list_all2_conv_all_nth)
      have ds: "yields (world_inv cl C) no_exn
         (mapM (\<lambda>i. masked_difference cl msg (fst (items ! i)) (snd (items ! i)) (masks ! i) (ems ! i)) [0..<?k])
         (\<lambda>ds. length ds = ?k \<and> (\<forall>i<?k. is_cipher ?n (ds ! i) (masked_value ?n (masks ! i) (fst (vs ! i)) (snd (vs ! i)))))"
        by (rule yields_mapM_upt, rule masked_difference_ok [OF l vi e])
      show ?thesis by (rule yields_bnd [OF ds], rule yields_ret) (use p(1) in simp)
    qed
    done
qed

lemma length_finish_frame:
  assumes t: "transfer_ready cl" and v: "valid_ids ctx" and g: "garbled_for sha ty k incumbent g" and k: "k \<le> 32" "length masks = k"
    and tr: "\<forall>i<k. length (fst (transfers cl g masks x0s x1s vals i)) = 32 \<and> length (snd (transfers cl g masks x0s x1s vals i)) = 32"
  shows "length (finish_frame cl ctx g masks x0s x1s vals) \<le> max_frame"
proof -
  have gf: "predicateCircuit ty k incumbent = Inr (gp_circuit g)" "odd_label (gp_delta g)"
    "length (gp_zero g ! bc_output (gp_circuit g)) = 32" "length (gp_tables g) = length (bc_gates (gp_circuit g))"
    "\<forall>t\<in>set (gp_tables g). table_shape t"
    using g by (simp_all add: garbled_for_def)
  have "length (gp_tables g) \<le> 36" using few_gates [OF gf(1)] gf(4) k(1) by simp
  moreover have "length (concat (map (\<lambda>i. fst (transfers cl g masks x0s x1s vals i) @ snd (transfers cl g masks x0s x1s vals i)) [0..<length masks])) = 64 * k"
    using length_messages [of "[0..<length masks]" "transfers cl g masks x0s x1s vals"] tr k(2) by simp
  ultimately show ?thesis
    using length_ids_bytes [OF v] length_tables [OF gf(5)] gf(2,3) k
    by (simp add: finish_frame_def fused_finish_body_eq predicate_header_def max_frame_def odd_label_def)
qed


text \<open>The second round, after the server has answered the transfers.\<close>

lemma fused_finish_ok:
  assumes t: "transfer_ready cl" and v: "valid_ids ctx"
    and k: "k \<le> 32" "length masks = k" "length choices = k" "length keys = k"
    and keys: "\<forall>i<k. 0 < keys ! i \<and> keys ! i < cl_ot_modulus cl"
    and vals: "\<forall>i<k. vals ! i = ot_value (cl_ot_modulus cl) (choices ! i) (x0s ! i) (x1s ! i) (keys ! i)"
    and cc: "comparison_count (predicate_type ctx) incumbent k"
    and circuit: "predicateCircuit (predicate_type ctx) k incumbent = Inr circuit"
    and w: "world_at cl (Some (fused_pending cl ctx incumbent circuit choices keys), R) w"
  shows "runs no_exn (fused_finish cl ctx incumbent masks x0s x1s vals) w (\<lambda>b w'.
    b = circuit_decision (predicate_type ctx) (map (\<lambda>i. choices ! i \<noteq> snd (snd (masks ! i))) [0..<k]) incumbent \<and>
    world_at cl (None, R) w')"
proof -
  let ?sv = "cl_peer cl" and ?b = "(Some (fused_pending cl ctx incumbent circuit choices keys), R)"
  let ?bs = "map (\<lambda>i. choices ! i \<noteq> snd (snd (masks ! i))) [0..<k]"
  let ?dec = "circuit_decision (predicate_type ctx) ?bs incumbent"
  have sha: "cl_sha cl = sv_sha ?sv" "\<And>x. length (sv_sha ?sv x) = 32" using t by (simp_all add: transfer_ready_def)
  have garble: "yields (world_at cl ?b) no_exn (on_rng (garblePredicate (cl_sha cl) (predicate_type ctx) k incumbent))
      (garbled_for (sv_sha ?sv) (predicate_type ctx) k incumbent)"
    unfolding sha(1) by (rule yields_on_rng [OF yields_garblePredicate [OF cc sha(2), of "fair_client cl"]])
  show ?thesis
    unfolding fused_finish_def Let_def append_context_ok [OF v] of_sum_Inr bnd_ret k(2)
    apply (rule runs_bndI [OF runs_of_yields [OF garble w]])
    subgoal premises p for g w1
    proof -
      have g: "garbled_for (sv_sha ?sv) (predicate_type ctx) k incumbent g" and w1: "world_at cl ?b w1" using p by simp_all
      have c: "gp_circuit g = circuit" using g circuit by (simp add: garbled_for_def)
      let ?frame = "finish_frame cl ctx g masks x0s x1s vals"
      have "fused_decision ?sv (fused_pending cl ctx incumbent circuit choices keys) ?frame (8 + length (ids_bytes ctx)) =
          Inr [0, if ?dec then 1 else 0]"
        using fused_decision_ok [OF t g k keys vals, of "predicate_header CHR ''G'' ctx 0 @ ids_bytes ctx"]
        by (simp add: c finish_frame_def predicate_header_def)
      note served = fused_finish_served [OF t v this]
      have len: "length ?frame \<le> max_frame"
        by (rule length_finish_frame [OF t v g k(1,2)]) (use transfers_ok(2,3) [OF t g k keys vals] in blast)
      have round: "runs no_exn (requestPayload cl ?frame) w1 (\<lambda>b. world_inv cl (\<lambda>c'. b = [if ?dec then 1 else 0] \<and> csp_at cl (None, R) c'))"
        by (rule runs_requestPayload [OF w1 len], rule runs_weaken [OF served], assumption) (auto simp: max_frame_def)
      show ?thesis
        apply (rule runs_bndI [OF round [unfolded finish_frame_def]])
        subgoal premises q for b w2
        proof -
          have b: "b = [if ?dec then 1 else 0]" and w2: "world_at cl (None, R) w2" using q by (simp_all add: world_inv_def)
          have ok: "\<not> (length b \<noteq> 1 \<or> hd b > 1)" by (simp add: b)
          show ?thesis
            unfolding if_not_P [OF ok]
            by (rule runs_bndI [OF runs_of_yields [OF yields_count_up [OF TrueI] w2]], rule runs_ret) (simp add: b)
        qed
        done
    qed
    done
qed

lemma fused_rounds_ok:
  assumes l: "linked cl mu" and t: "transfer_ready cl" and v: "valid_ids ctx"
    and k: "length masks = k" "length ds = k" "length vs = k" "k \<noteq> 0" "k \<le> 32"
    and cc: "comparison_count (predicate_type ctx) incumbent k"
    and masks: "\<forall>i<k. masks_ok (masks ! i) \<and> small (fst (vs ! i)) \<and> small (snd (vs ! i)) \<and>
       is_cipher (cl_modulus cl) (ds ! i) (masked_value (cl_modulus cl) (masks ! i) (fst (vs ! i)) (snd (vs ! i)))"
    and us: "partialDecryptBatch (cl_enclave cl) ds (cl_mode cl) = Inr us"
    and w: "world_at cl (None, R) w" "context_key ctx \<notin> R"
  shows "runs no_exn (fused_rounds cl ctx incumbent masks ds us) w (\<lambda>b w'.
    b = circuit_decision (predicate_type ctx) (map (\<lambda>(x, y). x > y) vs) incumbent \<and>
    world_at cl (None, insert (context_key ctx) R) w')"
proof -
  let ?n = "cl_modulus cl" and ?N = "cl_ot_modulus cl" and ?sv = "cl_peer cl" and ?R = "insert (context_key ctx) R"
  let ?ms = "map (\<lambda>i. masked_value ?n (masks ! i) (fst (vs ! i)) (snd (vs ! i))) [0..<k]"
  let ?plain = "map (\<lambda>m. m mod ?n) ?ms"
  have key: "key_shares (cl_mode cl) ?n mu (cl_enclave cl) (sv_enclave ?sv)" using l by (simp add: linked_def)
  have ds: "ds \<noteq> []" "length ds \<le> 32" "list_all2 (is_cipher ?n) ds ?ms"
    using k masks by (auto simp: list_all2_conv_all_nth)
  obtain us': "length us = k" "\<forall>u\<in>set us. wire_int u"
    and dec: "thresholdDecryptBatch (sv_enclave ?sv) ds us (cl_mode cl) = Inr ?plain"
    using shares_batch [OF key ds] us k by auto
  have wi: "\<forall>i<k. wire_int (ds ! i) \<and> wire_int (us ! i)" using masks us' wire_int_cipher [OF l] by auto
  obtain bs0 :: "bool list" where bs0: "length bs0 = k" using Ex_list_of_length by blast
  obtain circuit where circuit: "predicateCircuit (predicate_type ctx) k incumbent = Inr circuit"
    using predicate_circuit [of "predicate_type ctx" incumbent bs0] cc bs0 by auto
  have sha: "cl_sha cl = sv_sha ?sv" "\<And>x. length (sv_sha ?sv x) = 32" using t by (simp_all add: transfer_ready_def)
  let ?hd = "predicate_header CHR ''F'' ctx (if incumbent then 1 else 0)"
  let ?req = "?hd @ ids_bytes ctx @ writeU32 (of_nat k) @ ints_bytes [?N, cl_ot_public cl]"
  have wN: "wire_int ?N" "wire_int (cl_ot_public cl)"
    using t wire_int_transfer [OF t, of ?N] mag_size_bound [of rsa_f4 3]
    by (simp_all add: transfer_ready_def wire_int_def rsa_f4_def)
  have lr: "length ?req \<le> 10000"
    using length_ids_bytes [OF v] length_ints_bytes [of "[?N, cl_ot_public cl]"] wN by (simp add: predicate_header_def)
  have req: "append_context ?hd ctx = Inr (?hd @ ids_bytes ctx)"
    "append_ints ((?hd @ ids_bytes ctx) @ writeU32 (of_nat k)) [?N, cl_ot_public cl] = Inr ?req"
    using append_context_ok [OF v] append_ints_ok [of "[?N, cl_ot_public cl]" "?hd @ ids_bytes ctx @ writeU32 (of_nat k)"]
      wN length_ids_bytes [OF v] by (simp_all add: predicate_header_def)
  have uk: "unat (of_nat k :: 32 word) = k" using k(5) by (intro unat_of_nat_32) simp
  show ?thesis
    unfolding fused_rounds_def Let_def req of_sum_Inr bnd_ret k(1)
    apply (rule runs_bndI [OF runs_of_yields [OF fused_items_ok [OF t k(5) lr wi] w(1)]])
    subgoal for x w1
    proof -
      assume x: "(case x of (x0s, x1s, request) \<Rightarrow> nonces_ok ?N k x0s \<and> nonces_ok ?N k x1s \<and>
          request = ?req @ ints_bytes (ot_ints (ot_list k ds us x0s x1s))) \<and> world_at cl (None, R) w1"
      obtain x0s x1s request where xx: "x = (x0s, x1s, request)" by (cases x)
      let ?items = "ot_list k ds us x0s x1s"
      have a: "nonces_ok ?N k x0s" "nonces_ok ?N k x1s" "request = fused_frame cl ctx incumbent ?items" "world_at cl (None, R) w1"
        using x by (simp_all add: xx fused_frame_def ot_list_def)
      have wx: "wire_int x" if "0 < x \<and> x < ?N" for x using that by (intro wire_int_transfer [OF t]) simp_all
      have oi: "ot_items_ok ?N ?items"
        using a(1,2) wi k wx by (auto simp: ot_items_ok_def ot_list_def nonces_ok_def)
      have fst_items: "map fst ?items = ds" "map (fst \<circ> snd) ?items = us" "length ?items = k"
        using k us' by (auto simp: ot_list_def intro: nth_equalityI)
      have lf: "length request \<le> max_frame"
      proof -
        have "\<forall>i\<in>set (ot_ints ?items). wire_int i" using oi by (auto simp: ot_items_ok_def)
        from length_ints_bytes [OF this] lr k(5) show ?thesis
          using x by (simp add: xx length_ot_ints fst_items max_frame_def)
      qed
      have first: "runs no_exn (requestPayload cl request) w1 (\<lambda>b. world_inv cl (\<lambda>c'. \<exists>choices keys.
          b = writeU32 (of_nat k) @ ints_bytes (ot_values ?N ?items choices keys) \<and> ot_answered cl ?plain choices keys \<and>
          csp_at cl (Some (fused_pending cl ctx incumbent circuit choices keys), ?R) c'))"
      proof (rule runs_requestPayload [OF a(4) lf])
        fix c assume c: "csp_at cl (None, R) c"
        have "runs no_exn (csp_handle ?sv request) c (\<lambda>reply c'. \<exists>choices keys.
            reply = Reply (0 # writeU32 (of_nat k) @ ints_bytes (ot_values ?N ?items choices keys)) \<and>
            ot_answered cl ?plain choices keys \<and>
            csp_at cl (Some (fused_pending cl ctx incumbent circuit choices keys), ?R) c')"
          using fused_start_served [OF l t v oi _ _ _ c w(2), of ?plain incumbent circuit] dec circuit
          by (simp add: fst_items a(3))
        then show "runs no_exn (csp_handle ?sv request) c (\<lambda>reply c'. \<exists>b. reply = Reply (0 # b) \<and> length b < max_frame \<and>
            (\<exists>choices keys. b = writeU32 (of_nat k) @ ints_bytes (ot_values ?N ?items choices keys) \<and>
               ot_answered cl ?plain choices keys \<and>
               csp_at cl (Some (fused_pending cl ctx incumbent circuit choices keys), ?R) c'))"
        proof (rule runs_weaken, elim exE conjE)
          fix reply c' choices keys
          assume r: "reply = Reply (0 # writeU32 (of_nat k) @ ints_bytes (ot_values ?N ?items choices keys))"
            "ot_answered cl ?plain choices keys" "csp_at cl (Some (fused_pending cl ctx incumbent circuit choices keys), ?R) c'"
          have "length (ints_bytes (ot_values ?N ?items choices keys)) \<le> 2052 * k"
            using length_ints_bytes [OF wire_int_ot_values [OF t, of ?items choices keys]] r(2) by (simp add: ot_answered_def)
          with r k(5) show "\<exists>b. reply = Reply (0 # b) \<and> length b < max_frame \<and>
            (\<exists>choices keys. b = writeU32 (of_nat k) @ ints_bytes (ot_values ?N ?items choices keys) \<and>
               ot_answered cl ?plain choices keys \<and>
               csp_at cl (Some (fused_pending cl ctx incumbent circuit choices keys), ?R) c')"
            by (intro exI [of _ "writeU32 (of_nat k) @ ints_bytes (ot_values ?N ?items choices keys)"]) (auto simp: max_frame_def)
        qed
      qed
      show ?thesis
        unfolding xx prod.case
        apply (rule runs_bndI [OF first])
        subgoal premises p for reply w2
        proof -
          obtain choices keys where reply: "reply = writeU32 (of_nat k) @ ints_bytes (ot_values ?N ?items choices keys)"
            and ans: "ot_answered cl ?plain choices keys"
            and w2: "world_at cl (Some (fused_pending cl ctx incumbent circuit choices keys), ?R) w2"
            using p by (auto simp: world_inv_def)
          have len: "length choices = k" "length keys = k" using ans by (simp_all add: ot_answered_def)
          let ?vals = "ot_values ?N ?items choices keys"
          have ok: "\<not> (length reply < 4 \<or> unat (readU32 reply) \<noteq> k)" by (simp add: reply readU32_writeU32 uk)
          have take: "take_ints k reply 4 = Inr (?vals, length reply)"
            using take_ints_ok [OF wire_int_ot_values [OF t, of ?items choices keys], of "writeU32 (of_nat k)" "[]"] len
            by (simp add: reply)
          have bits: "map (\<lambda>i. choices ! i \<noteq> snd (snd (masks ! i))) [0..<k] = map (\<lambda>(x, y). x > y) vs"
          proof (rule nth_equalityI)
            fix i assume "i < length (map (\<lambda>i. choices ! i \<noteq> snd (snd (masks ! i))) [0..<k])"
            then have i: "i < k" by simp
            have m: "masks_ok (masks ! i)" "small (fst (vs ! i))" "small (snd (vs ! i))" using masks i by simp_all
            have "choices ! i \<longleftrightarrow> \<not> masked_value ?n (masks ! i) (fst (vs ! i)) (snd (vs ! i)) mod ?n > ?n div 2"
              using ans i by (auto simp: ot_answered_def)
            then show "map (\<lambda>i. choices ! i \<noteq> snd (snd (masks ! i))) [0..<k] ! i = map (\<lambda>(x, y). x > y) vs ! i"
              using masked_value_decides [OF m linked_simps(5) [OF l]] i k by (simp add: case_prod_beta)
          qed (simp add: k)
          have vals: "\<forall>i<k. ?vals ! i = ot_value ?N (choices ! i) (x0s ! i) (x1s ! i) (keys ! i)"
            using len by (simp add: ot_values_def ot_list_def)
          have keys: "\<forall>i<k. 0 < keys ! i \<and> keys ! i < ?N" using ans len by (simp add: ot_answered_def)
          show ?thesis
            unfolding if_not_P [OF ok] take of_sum_Inr bnd_ret prod.case
            using fused_finish_ok [OF t v k(5,1) len keys vals cc circuit w2] unfolding bits by simp
        qed
        done
    qed
    done
qed


lemma tp_fusedPredicate_ok:
  assumes l: "linked cl mu" and t: "transfer_ready cl" and v: "valid_ids ctx"
    and items: "items \<noteq> []" "length items \<le> 32" "list_all2 (pair_cipher (cl_modulus cl)) items vs"
    and cc: "comparison_count (predicate_type ctx) incumbent (length items)"
    and w: "world_at cl (None, R) w" "context_key ctx \<notin> R"
  shows "runs no_exn (tp_fusedPredicate cl ctx items incumbent) w (\<lambda>b w'.
    b = circuit_decision (predicate_type ctx) (map (\<lambda>(x, y). x > y) vs) incumbent \<and>
    world_at cl (None, insert (context_key ctx) R) w')"
proof -
  let ?n = "cl_modulus cl" and ?k = "length items"
  have lv: "length vs = ?k" and small: "\<forall>i<?k. small (fst (vs ! i)) \<and> small (snd (vs ! i))"
    using items(3) by (auto simp: list_all2_conv_all_nth pair_cipher_def)
  have guard: "\<not> (items = [] \<or> ?k > max_batch_size)" using items by (simp add: max_batch_size_def)
  have key: "key_shares (cl_mode cl) ?n mu (cl_enclave cl) (sv_enclave (cl_peer cl))" using l by (simp add: linked_def)
  note prepared = runs_of_yields [OF masked_differences_ok [OF l items(3), where msg = "''invalid fused SCMP ciphertext''"] w(1)]
  have split: "bnd (mapM (\<lambda>item. compare_masks) items) (\<lambda>masks.
        bnd (tp_encryptBatch cl (map (compare_mask_value cl) masks)) (\<lambda>ems.
        bnd (mapM (\<lambda>i. masked_difference cl ''invalid fused SCMP ciphertext'' (fst (items ! i)) (snd (items ! i))
               (masks ! i) (ems ! i)) [0..<?k]) (K masks))) =
      bnd (bnd (mapM (\<lambda>item. compare_masks) items) (\<lambda>masks.
        bnd (tp_encryptBatch cl (map (compare_mask_value cl) masks)) (\<lambda>ems.
        bnd (mapM (\<lambda>i. masked_difference cl ''invalid fused SCMP ciphertext'' (fst (items ! i)) (snd (items ! i))
               (masks ! i) (ems ! i)) [0..<?k]) (\<lambda>ds. ret (masks, ds))))) (\<lambda>(masks, ds). K masks ds)" for K :: "_ \<Rightarrow> _ \<Rightarrow> (world, bool) eff"
    by (rule ext) (simp add: bnd_app ret_app split: option.splits sum.splits)
  show ?thesis
    unfolding tp_fusedPredicate_def Let_def if_not_P [OF guard] split
    apply (rule runs_catch, rule runs_bndI [OF prepared])
    subgoal premises p for x w1
    proof -
      obtain masks ds where x: "x = (masks, ds)" by (cases x)
      have m: "length masks = ?k" "length ds = ?k" "world_at cl (None, R) w1"
        "\<forall>i<?k. masks_ok (masks ! i) \<and> is_cipher ?n (ds ! i) (masked_value ?n (masks ! i) (fst (vs ! i)) (snd (vs ! i)))"
        using p by (simp_all add: x)
      have "ds \<noteq> []" "length ds \<le> 32"
        "list_all2 (is_cipher ?n) ds (map (\<lambda>i. masked_value ?n (masks ! i) (fst (vs ! i)) (snd (vs ! i))) [0..<?k])"
        using m items by (auto simp: list_all2_conv_all_nth)
      from shares_batch [OF key this] obtain us where us: "partialDecryptBatch (cl_enclave cl) ds (cl_mode cl) = Inr us" by blast
      have "?k \<noteq> 0" "\<forall>i<?k. masks_ok (masks ! i) \<and> small (fst (vs ! i)) \<and> small (snd (vs ! i)) \<and>
         is_cipher ?n (ds ! i) (masked_value ?n (masks ! i) (fst (vs ! i)) (snd (vs ! i)))"
        using items m small by simp_all
      from fused_rounds_ok [OF l t v m(1,2) lv this(1) items(2) cc this(2) us m(3) w(2)]
      show ?thesis unfolding x prod.case us of_sum_Inr bnd_ret .
    qed
    done
qed

end
