(* ===== verification/TransferKey.thy ===== *)
theory TransferKey
  imports NumberTheory Randomness
begin

text \<open>
  A key for the oblivious transfer, at which the fused predicate is instantiated: a modulus of 3072
  bits with the public exponent 65537 and a private exponent that inverts it. The modulus is a product
  of 300 distinct small primes, so that the kernel can check that the exponents are inverse; its size
  follows from the leading bits of the partial products.
\<close>

section \<open>Primes\<close>

definition small_primes :: "int list" where
  "small_primes = [2, 3, 5, 7, 11, 13, 17, 19, 23, 29, 31, 37, 41, 43, 47, 53, 59, 61]"

definition prime_below_4096 :: "int \<Rightarrow> bool" where
  "prime_below_4096 p \<longleftrightarrow> 63 < p \<and> p < 4096 \<and> list_all (\<lambda>d. p mod d \<noteq> 0) small_primes"

lemma small_factor: "list_all (\<lambda>x. list_ex (\<lambda>d. x mod d = 0) small_primes) [2..63]"
  by code_simp

lemma prime_below_4096:
  assumes "prime_below_4096 p"
  shows "prime_int p"
  unfolding prime_int_def
proof (intro conjI allI impI notI)
  have p: "63 < p" "p < 4096" "\<forall>d\<in>set small_primes. p mod d \<noteq> 0"
    using assms by (simp_all add: prime_below_4096_def list_all_iff)
  show "1 < p" using p by simp
  fix d assume d: "1 < d" "d < p" "d dvd p"
  then obtain e where e: "p = d * e" by blast
  have no: "\<not> x dvd p" if "2 \<le> x" "x \<le> 63" for x
  proof
    assume x: "x dvd p"
    have "x \<in> set [2..63]" using that by (simp only: set_upto atLeastAtMost_iff)
    from bspec [OF small_factor [unfolded list_all_iff] this]
    obtain q where q: "q \<in> set small_primes" "x mod q = 0" unfolding list_ex_iff by (elim bexE)
    then have "q dvd p" using x by (meson dvd_trans mod_0_imp_dvd)
    with p(3) q(1) show False by (simp add: mod_eq_0_iff_dvd)
  qed
  have "0 < d * e" using p by (simp add: e)
  then have "0 < e" using d by (simp add: zero_less_mult_iff)
  moreover have "e \<noteq> 1" using d e by auto
  ultimately have "2 \<le> e" by linarith
  moreover have "e dvd p" by (simp add: e)
  ultimately have "64 \<le> e" "64 \<le> d" using no [of e] no [of d] d by linarith+
  then have "64 * 64 \<le> d * e" by (intro mult_mono) simp_all
  with e p show False by simp
qed

section \<open>A transfer key\<close>

primrec transfer_primes :: "int \<Rightarrow> int \<Rightarrow> int list \<Rightarrow> bool" where
  "transfer_primes x b [] \<longleftrightarrow> True"
| "transfer_primes x b (p # ps) \<longleftrightarrow> p < b \<and> prime_below_4096 p \<and> x mod (p - 1) = 1 \<and> transfer_primes x p ps"

lemma transfer_primes_prime: "transfer_primes x b ps \<Longrightarrow> q \<in> set ps \<Longrightarrow> prime_int q \<and> q < b"
  by (induction ps arbitrary: b) (auto simp: prime_below_4096 dest: order.strict_trans)

lemma prime_not_dvd_prod:
  "prime_int p \<Longrightarrow> \<forall>q\<in>set ps. prime_int q \<and> q < p \<Longrightarrow> \<not> p dvd prod_list ps"
proof (induction ps)
  case Nil
  then show ?case using prime_int_gt_1 [of p] by auto
next
  case (Cons q ps)
  have q: "prime_int q" "q < p" using Cons.prems by simp_all
  then have "0 < q" using prime_int_gt_1 [of q] by simp
  then have "\<not> p dvd q" using q by (auto dest: zdvd_imp_le)
  then show ?case using Cons prime_int_dvd_mult [of p q "prod_list ps"] by auto
qed

text \<open>Raising to a power that is 1 modulo \<open>p - 1\<close> changes nothing modulo \<open>p\<close>, hence modulo the product.\<close>

lemma power_same_mod_prime:
  assumes p: "prime_int p" and x: "x mod (p - 1) = 1" "0 < x" "2 < p"
  shows "p dvd k ^ nat x - k"
proof (cases "p dvd k")
  case True
  moreover have "k dvd k ^ nat x" using x(2) by (simp add: dvd_power)
  ultimately show ?thesis using dvd_trans [of p k "k ^ nat x"] by simp
next
  case False
  let ?l = "x - 1"
  have l: "p - 1 dvd ?l" "0 \<le> ?l" using x mod_1_iff_dvd [of "p - 1" x] by simp_all
  have "k ^ nat ?l mod p = 1" by (rule fermat_multiple [OF p False l])
  then have "p dvd k ^ nat ?l - 1" using mod_1_iff_dvd [of p] x(3) by simp
  then have "p dvd k * (k ^ nat ?l - 1)" by simp
  moreover have "nat x = Suc (nat ?l)" using x(2) by simp
  ultimately show ?thesis by (simp add: algebra_simps)
qed

lemma power_same_mod_prod:
  "transfer_primes x b ps \<Longrightarrow> 0 < x \<Longrightarrow> prod_list ps dvd k ^ nat x - k"
proof (induction ps arbitrary: b)
  case (Cons p ps)
  have p: "prime_int p" "x mod (p - 1) = 1" "2 < p" "transfer_primes x p ps"
    using Cons.prems prime_below_4096 [of p] by (auto simp: prime_below_4096_def)
  have "\<not> p dvd prod_list ps" using transfer_primes_prime [OF p(4)] by (intro prime_not_dvd_prod [OF p(1)]) blast
  then have "coprime p (prod_list ps)" by (rule prime_int_coprime [OF p(1)])
  then show ?case using power_same_mod_prime [OF p(1,2) Cons.prems(2) p(3), of k] Cons.IH [OF p(4) Cons.prems(2)]
    by (simp add: divides_mult)
qed simp

definition transfer_d :: int where
  "transfer_d = 70365849606254955096989185676169473"

abbreviation transfer_chunks :: "int list list" where
  "transfer_chunks \<equiv>
     [[4093, 4057, 4051, 4049, 4027, 4019, 4013, 4003, 4001, 3923],
      [3911, 3907, 3889, 3877, 3851, 3823, 3761, 3727, 3719, 3701],
      [3697, 3691, 3673, 3659, 3631, 3613, 3571, 3541, 3539, 3529],
      [3527, 3511, 3499, 3469, 3457, 3433, 3389, 3361, 3331, 3329],
      [3313, 3307, 3301, 3257, 3251, 3221, 3191, 3187, 3181, 3169],
      [3163, 3137, 3121, 3109, 3079, 3061, 3041, 3037, 3011, 3001],
      [2971, 2969, 2953, 2927, 2917, 2887, 2861, 2857, 2851, 2843],
      [2833, 2801, 2791, 2789, 2753, 2731, 2729, 2707, 2689, 2663],
      [2647, 2633, 2593, 2591, 2551, 2549, 2543, 2539, 2531, 2521],
      [2441, 2437, 2393, 2381, 2377, 2357, 2351, 2347, 2341, 2333],
      [2311, 2297, 2281, 2269, 2251, 2243, 2237, 2221, 2179, 2161],
      [2143, 2129, 2113, 2089, 2081, 2069, 2053, 2029, 2017, 2003],
      [1999, 1979, 1973, 1951, 1933, 1901, 1889, 1873, 1871, 1861],
      [1831, 1801, 1787, 1783, 1777, 1741, 1723, 1721, 1709, 1697],
      [1693, 1667, 1657, 1621, 1613, 1601, 1597, 1567, 1559, 1549],
      [1531, 1489, 1483, 1481, 1471, 1459, 1453, 1451, 1429, 1427],
      [1409, 1381, 1373, 1361, 1327, 1321, 1303, 1301, 1297, 1291],
      [1289, 1277, 1259, 1249, 1231, 1223, 1217, 1201, 1181, 1171],
      [1153, 1151, 1129, 1123, 1117, 1103, 1093, 1063, 1061, 1051],
      [1033, 1021, 1013, 1009, 991, 977, 967, 953, 947, 941],
      [937, 929, 919, 911, 883, 881, 859, 829, 827, 821],
      [811, 769, 761, 757, 751, 743, 739, 733, 727, 709],
      [701, 691, 683, 677, 673, 661, 659, 647, 641, 631],
      [617, 613, 601, 599, 593, 577, 571, 547, 541, 523],
      [521, 491, 487, 463, 461, 457, 449, 443, 433, 431],
      [421, 419, 409, 401, 397, 379, 373, 367, 353, 349],
      [337, 331, 313, 311, 307, 283, 281, 277, 271, 257],
      [251, 241, 239, 233, 229, 223, 211, 199, 197, 193],
      [191, 181, 173, 163, 157, 151, 149, 139, 137, 131],
      [127, 113, 109, 107, 103, 101, 97, 89, 83, 79]]"

definition transfer_n :: int where
  "transfer_n = prod_list (concat transfer_chunks)"

lemma transfer_primes: "transfer_primes (65537 * transfer_d) 4096 (concat transfer_chunks)"
  by code_simp

text \<open>The leading bits of the partial products give the size of the product.\<close>

fun chunk_bounds :: "int list list \<Rightarrow> (int \<times> nat) list \<Rightarrow> bool" where
  "chunk_bounds [] [] \<longleftrightarrow> True"
| "chunk_bounds (c # cs) ((a, e) # bs) \<longleftrightarrow>
     0 < a \<and> a * 2 ^ e \<le> prod_list c \<and> prod_list c < (a + 1) * 2 ^ e \<and> chunk_bounds cs bs"
| "chunk_bounds _ _ \<longleftrightarrow> False"

lemma chunk_bounds:
  "chunk_bounds cs bs \<Longrightarrow> 0 < prod_list (map fst bs) \<and>
     prod_list (map fst bs) * 2 ^ sum_list (map snd bs) \<le> prod_list (concat cs) \<and>
     prod_list (concat cs) \<le> prod_list (map (\<lambda>b. fst b + 1) bs) * 2 ^ sum_list (map snd bs)"
proof (induction cs bs rule: chunk_bounds.induct)
  case (2 c cs a e bs)
  let ?A = "prod_list (map fst bs)" and ?B = "prod_list (map (\<lambda>b. fst b + 1) bs)" and ?E = "sum_list (map snd bs)"
  have h: "0 < a" "a * 2 ^ e \<le> prod_list c" "prod_list c < (a + 1) * 2 ^ e" and
    IH: "0 < ?A" "?A * 2 ^ ?E \<le> prod_list (concat cs)" "prod_list (concat cs) \<le> ?B * 2 ^ ?E"
    using 2 by simp_all
  have "0 < ?A * 2 ^ ?E" "0 < a * (2::int) ^ e" using IH(1) h(1) by simp_all
  then have p: "0 < prod_list (concat cs)" "0 < prod_list c" using IH(2) h(2) by linarith+
  have "(a * 2 ^ e) * (?A * 2 ^ ?E) \<le> prod_list c * prod_list (concat cs)"
    using h IH p by (intro mult_mono) simp_all
  moreover have "prod_list c * prod_list (concat cs) \<le> ((a + 1) * 2 ^ e) * (?B * 2 ^ ?E)"
    using h IH p by (intro mult_mono) simp_all
  ultimately show ?case using h(1) IH(1) by (simp add: power_add ac_simps)
qed simp_all

abbreviation transfer_bounds :: "(int \<times> nat) list" where
  "transfer_bounds \<equiv> [(6849, 107), (8066, 106), (4683, 106), (5554, 105), (6234, 104), (7467, 103), (4194, 103), (4844, 102), (4947, 101), (4514, 100), (5120, 99), (4604, 98), (4350, 97), (7056, 95), (5972, 94), (4664, 93), (7307, 91), (6362, 90), (4339, 89), (5539, 87), (7085, 85), (5787, 83), (7106, 81), (6811, 79), (5970, 76), (7772, 73), (4331, 70), (7443, 65), (7451, 60), (5471, 54)]"

lemma transfer_bounds: "chunk_bounds transfer_chunks transfer_bounds"
  by code_simp

lemma transfer_size: "2 ^ 3071 \<le> transfer_n" "transfer_n < 2 ^ 3072"
proof -
  let ?E = "2696"
  have E: "sum_list (map snd transfer_bounds) = ?E" by simp
  have b: "prod_list (map fst transfer_bounds) * 2 ^ ?E \<le> transfer_n"
    "transfer_n \<le> prod_list (map (\<lambda>b. fst b + 1) transfer_bounds) * 2 ^ ?E"
    using chunk_bounds [OF transfer_bounds] unfolding E transfer_n_def by blast+
  have "(2::int) ^ 3071 = 2 ^ (3071 - ?E) * 2 ^ ?E" unfolding power_add [symmetric] by (rule arg_cong [of _ _ "power 2"]) simp
  also have "\<dots> \<le> prod_list (map fst transfer_bounds) * 2 ^ ?E" by (rule mult_right_mono) simp_all
  finally show "2 ^ 3071 \<le> transfer_n" using b(1) by (rule order_trans)
  have "prod_list (map (\<lambda>b. fst b + 1) transfer_bounds) * 2 ^ ?E < (2::int) ^ (3072 - ?E) * 2 ^ ?E"
    by (rule mult_strict_right_mono) simp_all
  also have "\<dots> = (2::int) ^ 3072" unfolding power_add [symmetric] by (rule arg_cong [of _ _ "power 2"]) simp
  finally show "transfer_n < 2 ^ 3072" by (rule order_le_less_trans [OF b(2)])
qed

lemma transfer_n_gt_1: "1 < transfer_n"
proof -
  have "(1::int) < 2 ^ 3071" by (rule one_less_power) simp_all
  then show ?thesis using transfer_size(1) by (rule order_less_le_trans)
qed

lemma transfer_bits: "sizeinbase2 transfer_n = 3072"
proof -
  let ?s = "sizeinbase2 transfer_n"
  have "transfer_n \<noteq> 0" "0 \<le> transfer_n" using transfer_n_gt_1 by linarith+
  then have s: "transfer_n < 2 ^ ?s" "2 ^ (?s - 1) \<le> transfer_n"
    using sizeinbase2_bound [of transfer_n] sizeinbase2_least [of transfer_n] by simp_all
  have "(2::int) ^ 3071 < 2 ^ ?s" by (rule order_le_less_trans [OF transfer_size(1) s(1)])
  then have "3071 < ?s" by (rule power_less_imp_less_exp [rotated]) simp
  moreover have "(2::int) ^ (?s - 1) < 2 ^ 3072" by (rule order_le_less_trans [OF s(2) transfer_size(2)])
  then have "?s - 1 < 3072" by (rule power_less_imp_less_exp [rotated]) simp
  ultimately show ?thesis by linarith
qed

lemma transfer_inverse:
  assumes "0 < k" "k < transfer_n"
  shows "powm (powm k (nat 65537) transfer_n) (nat transfer_d) transfer_n = k"
proof -
  have d: "nat 65537 * nat transfer_d = nat (65537 * transfer_d)" by (simp add: transfer_d_def)
  have "0 < 65537 * transfer_d" by (simp add: transfer_d_def)
  then have "transfer_n dvd k ^ nat (65537 * transfer_d) - k"
    unfolding transfer_n_def by (rule power_same_mod_prod [OF transfer_primes])
  then have "k ^ nat (65537 * transfer_d) mod transfer_n = k mod transfer_n" by (simp only: mod_eq_dvd_iff)
  then have "k ^ (nat 65537 * nat transfer_d) mod transfer_n = k mod transfer_n" unfolding d .
  then show ?thesis using assms by (simp add: powm_def power_mod power_mult)
qed

end
