(* ===== verification/SampleWorld.thy ===== *)
theory SampleWorld
  imports ThresholdSingle ThresholdFused TransferKey
begin

text \<open>
  A client and a server of the threshold protocol at which its properties are instantiated: the two
  shares of the sample key, and the transfer key of theory TransferKey.
\<close>

section \<open>A client and its server\<close>

definition sample_client :: client where
  "sample_client = \<lparr>cl_enclave = sample_cp, cl_modulus = sample_n, cl_mode = 1, cl_ot_modulus = transfer_n,
     cl_ot_public = rsa_f4, cl_ot_private = transfer_d, cl_sha = sample_hash, cl_peer = sample_service\<rparr>"

definition threshold_rng :: rng where
  "threshold_rng = \<lparr>src = (\<lambda>t i. if t = SMask3 then 3 else if t = SNoise then 0 else 1), pos = (\<lambda>_. 0)\<rparr>"

definition sample_world :: world where
  "sample_world = \<lparr>w_rng = threshold_rng,
     w_metrics = \<lparr>host_encrypt_calls = 0, host_scalar_powm_calls = 0, logical_items = 0, cp_ecalls = 0,
       csp_requests = 0, csp_ecalls = 0, scmp_logical_items = 0, scmp_dispatches = 0, smul_logical_items = 0,
       smul_dispatches = 0, predicate_reveals = 0, secure_bit_and_items = 0, m_csp_times = csp_times sample_csp\<rparr>,
     w_csp = sample_csp, w_open = True\<rparr>"

lemma sample_linked: "linked sample_client (sk_mu (k_sec sample_key))"
  unfolding linked_def using sample_shares by (simp add: sample_client_def) (simp add: sample_service_def sample_n_def)

lemma sample_transfer: "transfer_ready sample_client"
  unfolding transfer_ready_def
  using transfer_bits transfer_inverse [folded rsa_f4_def] length_sample_hash
    transfer_n_gt_1
  by (simp add: sample_client_def sample_service_def)

lemma sample_fair_nonce:
  assumes "\<And>i. f SNonce i = 1"
  shows "fair_nonce sample_n f"
proof -
  have "0 < sizeinbase2 (sample_n - 1)" by (rule sizeinbase2_pos)
  then have "(1::int) mod 2 ^ sizeinbase2 (sample_n - 1) = 1" by simp
  moreover have "1 < sample_n" by (simp add: sample_n_def)
  ultimately show ?thesis using assms by (auto simp: fair_nonce_def often_def nonce_ok_def)
qed

lemma sample_fair_ot:
  assumes "\<And>i. f t i = 1"
  shows "fair_ot transfer_n t f"
proof -
  have "0 < sizeinbase2 (transfer_n - 1)" by (rule sizeinbase2_pos)
  then have "(1::int) mod 2 ^ sizeinbase2 (transfer_n - 1) = 1" by simp
  moreover note transfer_n_gt_1
  ultimately show ?thesis using assms by (auto simp: fair_ot_def often_def)
qed

lemma sample_csp_at: "csp_at sample_client (None, {}) sample_csp"
  unfolding csp_at_def
  using sample_fair_nonce [of "src sample_rng"] sample_fair_ot [of "src sample_rng" SOtKey]
  by (simp add: sample_client_def sample_csp_def csp_initial_def sample_rng_def)

lemma sample_fair_client: "fair_client sample_client (src threshold_rng)"
  unfolding fair_client_def fair_masks_def
  using sample_fair_nonce [of "src threshold_rng"] sample_fair_ot [of "src threshold_rng"]
  by (auto simp: sample_client_def threshold_rng_def often_def)

lemma sample_world: "world_at sample_client (None, {}) sample_world" "world_ready sample_client sample_world"
  using sample_csp_at sample_fair_client
  by (simp_all add: world_inv_def sample_world_def csp_at_def csp_ready_def)

lemma sample_pairs:
  "list_all2 (pair_cipher (cl_modulus sample_client)) [(sample_cipher 7, sample_cipher (- 3)), (sample_cipher 2, sample_cipher 5)]
     [(7, - 3), (2, 5)]"
  using sample_cipher by (simp add: pair_cipher_def small_def sample_client_def)

end
