(* ===== verification/ThresholdBackend.thy ===== *)
theory ThresholdBackend
  imports SampleWorld EncryptedSearch
begin

text \<open>
  The threshold protocol as a backend of the secure operations (\<open>ThresholdSecureOps\<close> and
  \<open>ThresholdPredicateBitResolver\<close> in src/protocol/threshold_protocol.cpp). It is shown to satisfy the
  contracts \<open>secure_ops\<close> and \<open>predicate_env\<close>, with the predicates evaluated gate by gate as well as
  fused into one garbled circuit, so every lemma on the predicate engine and on the encrypted search
  holds of it. The constructor's check of the numeric domain is shown to bound every value the search
  compares.
\<close>

section \<open>The operations\<close>

definition ts_result :: "client \<Rightarrow> int \<Rightarrow> (world, cipher) eff" where
  "ts_result cl v = of_sum (decodeCiphertext v (cl_mode cl))"

definition ts_pair :: "client \<Rightarrow> cipher \<times> cipher \<Rightarrow> exn + int \<times> int" where
  "ts_pair cl item =
     sbind (encodeCiphertext (fst item) (cl_mode cl)) (\<lambda>a.
     sbind (encodeCiphertext (snd item) (cl_mode cl)) (\<lambda>b. Inr (a, b)))"

definition ts_encryptConstant :: "client \<Rightarrow> int \<Rightarrow> (world, cipher) eff" where
  "ts_encryptConstant cl v = bnd (tp_encrypt cl v) (ts_result cl)"

definition ts_add :: "client \<Rightarrow> cipher \<Rightarrow> cipher \<Rightarrow> (world, cipher) eff" where
  "ts_add cl a b = bnd (of_sum (ts_pair cl (a, b))) (\<lambda>(x, y). ts_result cl (tp_add cl x y))"

definition ts_scalarMul :: "client \<Rightarrow> cipher \<Rightarrow> int \<Rightarrow> (world, cipher) eff" where
  "ts_scalarMul cl a scalar =
     bnd (of_sum (encodeCiphertext a (cl_mode cl))) (\<lambda>x. bnd (tp_scalarMultiply cl x scalar) (ts_result cl))"

definition ts_secureMul :: "client \<Rightarrow> cipher \<Rightarrow> cipher \<Rightarrow> (world, cipher) eff" where
  "ts_secureMul cl a b =
     bnd (of_sum (ts_pair cl (a, b))) (\<lambda>item.
     bnd (tp_secureMultiplyBatch cl [item]) (\<lambda>vs. ts_result cl (hd vs)))"

definition ts_secureMulBatch :: "client \<Rightarrow> (cipher \<times> cipher) list \<Rightarrow> (world, cipher list) eff" where
  "ts_secureMulBatch cl items =
     bnd (of_sum (smap (ts_pair cl) items)) (\<lambda>native.
     bnd (tp_secureMultiplyBatch cl native) (mapM (ts_result cl)))"

definition ts_greaterThan :: "client \<Rightarrow> cipher \<Rightarrow> cipher \<Rightarrow> (world, encrypted_bit) eff" where
  "ts_greaterThan cl a b =
     bnd (of_sum (ts_pair cl (a, b))) (\<lambda>item.
     bnd (tp_greaterThanBatch cl [item]) (\<lambda>vs.
     bnd (ts_result cl (hd vs)) (\<lambda>c. ret (EncryptedBit c))))"

definition ts_greaterThanBatch :: "client \<Rightarrow> (cipher \<times> cipher) list \<Rightarrow> (world, encrypted_bit list) eff" where
  "ts_greaterThanBatch cl items =
     bnd (of_sum (smap (ts_pair cl) items)) (\<lambda>native.
     bnd (tp_greaterThanBatch cl native) (mapM (\<lambda>v. bnd (ts_result cl v) (\<lambda>c. ret (EncryptedBit c)))))"

text \<open>The fused predicates: an encryption of zero, then the comparisons of the predicate.\<close>

definition ts_fusedPruneNode :: "client \<Rightarrow> predicate_context \<Rightarrow> prune_inputs \<Rightarrow> (world, bool) eff" where
  "ts_fusedPruneNode cl ctx inputs =
     bnd (tp_encrypt cl 0) (\<lambda>zero.
     bnd (of_sum (encodeCiphertext (linear_upper inputs) (cl_mode cl))) (\<lambda>linr.
     bnd (of_sum (if p_has_incumbent inputs
            then smap (\<lambda>lower. ts_pair cl (lower, p_incumbent_cost inputs)) (cost_lowers inputs)
            else Inr [])) (\<lambda>bounds.
     tp_fusedPredicate cl ctx ((zero, linr) # bounds) (p_has_incumbent inputs))))"

definition ts_fusedAcceptCandidate :: "client \<Rightarrow> predicate_context \<Rightarrow> accept_inputs \<Rightarrow> (world, bool) eff" where
  "ts_fusedAcceptCandidate cl ctx inputs =
     bnd (tp_encrypt cl 0) (\<lambda>zero.
     bnd (of_sum (encodeCiphertext (a_linear inputs) (cl_mode cl))) (\<lambda>linr.
     bnd (of_sum (encodeCiphertext (a_c3 inputs) (cl_mode cl))) (\<lambda>c3.
     bnd (of_sum (if a_has_incumbent inputs
            then smap (ts_pair cl) [(a_incumbent_cost inputs, a_cost inputs), (a_cost inputs, a_incumbent_cost inputs),
              (a_incumbent_c12 inputs, a_c12 inputs)]
            else Inr [])) (\<lambda>bounds.
     tp_fusedPredicate cl ctx ((zero, linr) # (c3, zero) # bounds) (a_has_incumbent inputs)))))"

text \<open>Fusion is on unless the environment variable \<open>SOCI_PREDICATE_FUSION\<close> is set to 0.\<close>

definition ts_predicateFusionEnabled :: "string option \<Rightarrow> bool" where
  "ts_predicateFusionEnabled setting = (case setting of None \<Rightarrow> True | Some v \<Rightarrow> v \<noteq> ''0'')"

definition ts_revealFinalBit :: "client \<Rightarrow> predicate_context \<Rightarrow> encrypted_bit \<Rightarrow> (world, bool) eff" where
  "ts_revealFinalBit cl ctx b =
     bnd (of_sum (encodeCiphertext (ciphertext b) (cl_mode cl))) (\<lambda>c. tp_revealFinalPredicate cl ctx c)"

definition threshold_ops :: "client \<Rightarrow> string option \<Rightarrow> numeric_domain \<Rightarrow> world sops" where
  "threshold_ops cl setting nd = \<lparr>encryptConstant = ts_encryptConstant cl, s_add = ts_add cl,
     scalarMul = ts_scalarMul cl, secureMul = ts_secureMul cl, secureMulBatch = ts_secureMulBatch cl,
     greaterThan = ts_greaterThan cl, greaterThanBatch = ts_greaterThanBatch cl, s_domain = nd,
     fused = Some \<lparr>predicateFusionEnabled = ts_predicateFusionEnabled setting,
       fusedPruneNode = ts_fusedPruneNode cl, fusedAcceptCandidate = ts_fusedAcceptCandidate cl\<rparr>\<rparr>"

section \<open>What the operations leave alone\<close>

text \<open>Only the fused predicates touch the server's replay keys.\<close>

abbreviation replays :: "world \<Rightarrow> string set" where
  "replays w \<equiv> csp_replays (w_csp w)"

lemma keeps_catch [keeps_rules]: "keeps f m \<Longrightarrow> (\<And>e. keeps f (h e)) \<Longrightarrow> keeps f (catch m h)"
  unfolding keeps_def by (fastforce simp: catch_app split: option.splits sum.splits)

lemma keeps_of_sum_bnd: "(\<And>a. r = Inr a \<Longrightarrow> keeps f (k a)) \<Longrightarrow> keeps f (bnd (of_sum r) k)"
  by (cases r) (simp_all add: keeps_def eff_simps of_sum_def)

lemma keeps_on_rng [keeps_rules]: "keeps replays (on_rng m)"
  unfolding on_rng_def by (rule keeps_zoom) simp

lemma keeps_count_up [keeps_rules]: "keeps replays (count_up f)"
  unfolding count_up_def by (rule keeps_upd_st) simp

lemma serve_other:
  assumes "csp_serve sv request s = Some (r, s')" "request \<noteq> []" "hd request \<notin> {op CHR ''F'', op CHR ''G''}"
  shows "csp_replays s' = csp_replays s"
proof -
  obtain a t where a: "csp_handle sv request s = Some (a, t)" "csp_replays s' = csp_replays t"
    using assms(1) by (auto simp: csp_serve_def split: option.splits sum.splits)
  from handle_other [OF a(1)] assms(3) a(2) show ?thesis by simp
qed

lemma keeps_requestPayload:
  assumes "payload \<noteq> []" "hd payload \<notin> {op CHR ''F'', op CHR ''G''}"
  shows "keeps replays (requestPayload cl payload)"
  unfolding keeps_def
proof (intro allI impI)
  fix w r w'
  assume a: "requestPayload cl payload w = Some (r, w')"
  show "replays w' = replays w"
  proof (cases "w_open w \<and> length payload \<le> max_frame")
    case False
    then show ?thesis using a
      by (auto simp: requestPayload_def eff_simps split: if_splits)
  next
    case True
    then obtain x c where x: "csp_serve (cl_peer cl) payload (w_csp w) = Some (x, c)"
      and c: "w_csp w' = c"
      using a by (auto simp: requestPayload_def eff_simps of_sum_def
          split: option.splits sum.splits csp_reply.splits if_splits)
    from serve_other [OF x assms] c show ?thesis by simp
  qed
qed

text \<open>Requests are built by appending to a header, whose first byte they keep.\<close>

definition not_fused :: "bytes \<Rightarrow> bool" where
  "not_fused payload \<longleftrightarrow> payload \<noteq> [] \<and> hd payload \<notin> {op CHR ''F'', op CHR ''G''}"

lemma not_fused_append: "not_fused out \<Longrightarrow> not_fused (out @ b)"
  by (simp add: not_fused_def)

lemma appendInteger_not_fused: "appendInteger out v = Inr r \<Longrightarrow> not_fused out \<Longrightarrow> not_fused r"
  by (auto simp: appendInteger_def Let_def split: if_splits intro: not_fused_append)

lemma append_ints_not_fused: "append_ints out vs = Inr r \<Longrightarrow> not_fused out \<Longrightarrow> not_fused r"
  by (induction vs arbitrary: out) (auto simp: sbind_eq_Inr intro: appendInteger_not_fused)

lemma append_context_not_fused: "append_context out ctx = Inr r \<Longrightarrow> not_fused out \<Longrightarrow> not_fused r"
  by (auto simp: append_context_def appendContextString_def sbind_eq_Inr not_fused_def split: if_splits)

lemma not_fused_headers:
  "not_fused (batch_request_header kind k)" "not_fused (predicate_header CHR ''P'' ctx flag)"
  by (simp_all add: not_fused_def batch_request_header_def predicate_header_def)

lemma keeps_request: "not_fused payload \<Longrightarrow> keeps replays (requestPayload cl payload)"
  by (rule keeps_requestPayload) (simp_all add: not_fused_def)

lemma keeps_tp_local [keeps_rules]:
  "keeps replays (tp_encrypt cl v)" "keeps replays (tp_encryptBatch cl vs)" "keeps replays (tp_scalarMultiply cl c k)"
  unfolding tp_encrypt_def tp_encryptBatch_def tp_scalarMultiply_def by (intro keeps_rules)+

lemma keeps_orient_bit [keeps_rules]: "keeps replays (orient_bit cl q b)"
  unfolding orient_bit_def by (intro keeps_rules)

lemma keeps_masked_difference [keeps_rules]: "keeps replays (masked_difference cl msg a b m e)"
  unfolding masked_difference_def Let_def by (intro keeps_rules)

lemma keeps_compare_masks [keeps_rules]: "keeps replays compare_masks"
  unfolding compare_masks_def by (intro keeps_rules)

lemma keeps_tp_secureMultiplyBatch [keeps_rules]: "keeps replays (tp_secureMultiplyBatch cl items)"
  unfolding tp_secureMultiplyBatch_def Let_def count_smul_def
  by (rule keeps_of_sum_bnd keeps_request keeps_rules append_ints_not_fused not_fused_headers | assumption)+

lemma keeps_tp_greaterThanBatch [keeps_rules]: "keeps replays (tp_greaterThanBatch cl items)"
  unfolding tp_greaterThanBatch_def Let_def count_scmp_def
  by (rule keeps_of_sum_bnd keeps_request keeps_rules append_ints_not_fused not_fused_headers | assumption)+

lemma keeps_tp_revealFinalPredicate [keeps_rules]: "keeps replays (tp_revealFinalPredicate cl ctx c)"
  unfolding tp_revealFinalPredicate_def Let_def
  by (rule keeps_of_sum_bnd keeps_request keeps_rules appendInteger_not_fused append_context_not_fused
        not_fused_headers | assumption)+

section \<open>Values behind the ciphertexts\<close>

text \<open>A ciphertext object of the mode that holds an encryption under the client's modulus.\<close>

definition ts_enc :: "client \<Rightarrow> cipher \<Rightarrow> int \<Rightarrow> bool" where
  "ts_enc cl c x \<longleftrightarrow> (\<exists>z. encodeCiphertext c (cl_mode cl) = Inr z \<and> is_cipher (cl_modulus cl) z x)"

text \<open>
  Both sides are ready; the server has answered, apart from the keys in \<open>R0\<close>, only operations of the
  sessions in \<open>S\<close>, and of these only operations that the engine has consumed.
\<close>

definition session_keys :: "string set \<Rightarrow> string set" where
  "session_keys S = {context_key ctx | ctx. valid_ids ctx \<and> session_id ctx \<in> S}"

definition ts_inv :: "client \<Rightarrow> string set \<Rightarrow> string set \<Rightarrow> string set \<Rightarrow> world \<Rightarrow> bool" where
  "ts_inv cl S R0 K w \<longleftrightarrow> world_ready cl w \<and> replays w \<subseteq> R0 \<union> session_keys S \<and>
     (\<forall>ctx. valid_ids ctx \<longrightarrow> session_id ctx \<in> S \<longrightarrow> context_key ctx \<in> replays w \<longrightarrow> replayKey ctx \<in> K)"

lemma ts_inv_mono: "ts_inv cl S R0 K w \<Longrightarrow> K \<subseteq> K' \<Longrightarrow> ts_inv cl S R0 K' w"
  by (auto simp: ts_inv_def)

lemma yields_ts_inv:
  assumes "yields (world_ready cl) E m R" "keeps replays m"
  shows "yields (ts_inv cl S R0 K) E m R"
  unfolding yields_def
proof (intro allI impI)
  fix w assume w: "ts_inv cl S R0 K w"
  then obtain r w' where r: "m w = Some (r, w')" "world_ready cl w'" "case r of Inl e \<Rightarrow> E e | Inr a \<Rightarrow> R a"
    using assms(1) unfolding yields_def ts_inv_def by blast
  have "replays w' = replays w" by (rule keepsD [OF assms(2) r(1)])
  with r w show "\<exists>r w'. m w = Some (r, w') \<and> ts_inv cl S R0 K w' \<and> (case r of Inl e \<Rightarrow> E e | Inr a \<Rightarrow> R a)"
    unfolding ts_inv_def by blast
qed

lemma ts_enc_result:
  assumes "linked cl mu" "is_cipher (cl_modulus cl) z x"
  shows "yields I E (ts_result cl z) (\<lambda>c. ts_enc cl c x)"
proof -
  have z: "wire_int z" "0 < z" using wire_int_cipher [OF assms] by simp_all
  then have s: "mag_size z < 2 ^ 32" by (simp add: wire_int_def)
  obtain c where c: "encodeCanonicalCiphertext (cl_mode cl) z = Inr c"
    using encode_canonical_ok [OF z(2)] s by auto
  have d: "decodeCanonicalCiphertext c (cl_mode cl) = Inr z"
    using decode_encode_canonical [OF z(2) s] c by auto
  moreover have "\<exists>e. decodeCanonicalCiphertext [] (cl_mode cl) = Inl e" by (simp add: decodeCanonicalCiphertext_def)
  ultimately have "c \<noteq> []" by auto
  with d assms(2) have "ts_enc cl c x" by (simp add: ts_enc_def encodeCiphertext_def)
  then show ?thesis by (simp add: ts_result_def decodeCiphertext_def c yields_ret)
qed

lemma ts_pair_ok:
  assumes "operands (ts_enc cl) (2 ^ 127) item v"
  shows "\<exists>p. ts_pair cl item = Inr p \<and> pair_cipher (cl_modulus cl) p v"
  using assms by (auto simp: operands_def ts_enc_def ts_pair_def pair_cipher_def small_def)

lemma ts_pairs_ok:
  assumes "list_all2 (operands (ts_enc cl) (2 ^ 127)) items vs"
  shows "\<exists>ps. smap (ts_pair cl) items = Inr ps \<and> list_all2 (pair_cipher (cl_modulus cl)) ps vs"
  using assms
proof (induction rule: list_all2_induct)
  case (Cons x xs y ys)
  with ts_pair_ok [OF Cons(1)] show ?case by auto
qed simp

section \<open>The laws\<close>

lemma ts_encryptConstant_law:
  "linked cl mu \<Longrightarrow> yields (ts_inv cl S R0 K) no_exn (ts_encryptConstant cl v) (\<lambda>c. ts_enc cl c v)"
  unfolding ts_encryptConstant_def
  by (rule yields_bnd [OF yields_ts_inv [OF yields_tp_encrypt keeps_tp_local(1)]], assumption, rule ts_enc_result)

lemma ts_add_law:
  assumes "linked cl mu" "ts_enc cl a x" "ts_enc cl b y"
  shows "yields I no_exn (ts_add cl a b) (\<lambda>c. ts_enc cl c (x + y))"
proof -
  obtain u v where "ts_pair cl (a, b) = Inr (u, v)" "is_cipher (cl_modulus cl) u x" "is_cipher (cl_modulus cl) v y"
    using assms(2,3) by (auto simp: ts_enc_def ts_pair_def)
  then show ?thesis
    unfolding ts_add_def using ts_enc_result [OF assms(1) tp_add_cipher [OF assms(1)]] by simp
qed

lemma ts_scalarMul_law:
  assumes "linked cl mu" "ts_enc cl a x"
  shows "yields (ts_inv cl S R0 K) no_exn (ts_scalarMul cl a k) (\<lambda>c. ts_enc cl c (k * x))"
proof -
  obtain u where u: "encodeCiphertext a (cl_mode cl) = Inr u" "is_cipher (cl_modulus cl) u x"
    using assms(2) by (auto simp: ts_enc_def)
  show ?thesis
    unfolding ts_scalarMul_def u(1) of_sum_Inr bnd_ret
    by (rule yields_bnd [OF yields_ts_inv [OF yields_tp_scalarMultiply [OF assms(1) u(2)] keeps_tp_local(3)]])
       (rule ts_enc_result [OF assms(1)])
qed

lemma ts_results:
  assumes "linked cl mu" "list_all2 (\<lambda>v z. is_cipher (cl_modulus cl) z (f v)) vs zs"
  shows "yields I E (mapM (ts_result cl) zs) (list_all2 (\<lambda>v c. ts_enc cl c (f v)) vs)"
proof -
  have "list_all2 (\<lambda>z v. is_cipher (cl_modulus cl) z (f v)) zs vs"
    using assms(2) by (simp add: list_all2_conv_all_nth)
  then show ?thesis by (rule yields_mapM_values) (rule ts_enc_result [OF assms(1)])
qed

lemma ts_secureMulBatch_law:
  assumes "linked cl mu" "items \<noteq> []" "length items \<le> 32" "list_all2 (operands (ts_enc cl) (2 ^ 127)) items vs"
  shows "yields (ts_inv cl S R0 K) no_exn (ts_secureMulBatch cl items) (list_all2 (\<lambda>v c. ts_enc cl c (fst v * snd v)) vs)"
proof -
  obtain ps where ps: "smap (ts_pair cl) items = Inr ps" "list_all2 (pair_cipher (cl_modulus cl)) ps vs"
    using ts_pairs_ok [OF assms(4)] by blast
  have l: "ps \<noteq> []" "length ps \<le> 32"
    using assms(2-4) ps(2) by (auto dest!: list_all2_lengthD)
  show ?thesis
    unfolding ts_secureMulBatch_def ps(1) of_sum_Inr bnd_ret
    by (rule yields_bnd [OF yields_ts_inv [OF tp_secureMultiplyBatch_ok [OF assms(1) l ps(2)] keeps_tp_secureMultiplyBatch]])
       (rule ts_results [OF assms(1)])
qed

lemma ts_greaterThanBatch_law:
  assumes "linked cl mu" "items \<noteq> []" "length items \<le> 32" "list_all2 (operands (ts_enc cl) (2 ^ 127)) items vs"
  shows "yields (ts_inv cl S R0 K) no_exn (ts_greaterThanBatch cl items)
    (list_all2 (\<lambda>v c. enc_bit (ts_enc cl) c (fst v > snd v)) vs)"
proof -
  obtain ps where ps: "smap (ts_pair cl) items = Inr ps" "list_all2 (pair_cipher (cl_modulus cl)) ps vs"
    using ts_pairs_ok [OF assms(4)] by blast
  have l: "ps \<noteq> []" "length ps \<le> 32"
    using assms(2-4) ps(2) by (auto dest!: list_all2_lengthD)
  show ?thesis
    unfolding ts_greaterThanBatch_def ps(1) of_sum_Inr bnd_ret
  proof (rule yields_bnd [OF yields_ts_inv [OF tp_greaterThanBatch_ok [OF assms(1) l ps(2)] keeps_tp_greaterThanBatch]])
    fix zs assume "list_all2 (\<lambda>v z. is_cipher (cl_modulus cl) z (b2i (fst v > snd v))) vs zs"
    then have "list_all2 (\<lambda>z v. is_cipher (cl_modulus cl) z (b2i (fst v > snd v))) zs vs"
      by (simp add: list_all2_conv_all_nth)
    then show "yields (ts_inv cl S R0 K) no_exn (mapM (\<lambda>v. bnd (ts_result cl v) (\<lambda>c. ret (EncryptedBit c))) zs)
        (list_all2 (\<lambda>v c. enc_bit (ts_enc cl) c (fst v > snd v)) vs)"
      by (rule yields_mapM_values)
         (rule yields_bnd [OF ts_enc_result [OF assms(1)]], assumption, rule yields_ret, simp add: enc_bit_def)
  qed
qed

lemma ts_secureMul_law:
  assumes "linked cl mu" "operands (ts_enc cl) (2 ^ 127) (a, b) (x, y)"
  shows "yields (ts_inv cl S R0 K) no_exn (ts_secureMul cl a b) (\<lambda>c. ts_enc cl c (x * y))"
proof -
  obtain p where p: "ts_pair cl (a, b) = Inr p" "list_all2 (pair_cipher (cl_modulus cl)) [p] [(x, y)]"
    using ts_pair_ok [OF assms(2)] by auto
  show ?thesis
    unfolding ts_secureMul_def p(1) of_sum_Inr bnd_ret
    by (rule yields_bnd [OF yields_ts_inv [OF tp_secureMultiplyBatch_ok [OF assms(1) _ _ p(2)] keeps_tp_secureMultiplyBatch]])
       (auto simp: list_all2_Cons1 intro: ts_enc_result [OF assms(1)])
qed

lemma ts_greaterThan_law:
  assumes "linked cl mu" "operands (ts_enc cl) (2 ^ 127) (a, b) (x, y)"
  shows "yields (ts_inv cl S R0 K) no_exn (ts_greaterThan cl a b) (\<lambda>c. enc_bit (ts_enc cl) c (x > y))"
proof -
  obtain p where p: "ts_pair cl (a, b) = Inr p" "list_all2 (pair_cipher (cl_modulus cl)) [p] [(x, y)]"
    using ts_pair_ok [OF assms(2)] by auto
  show ?thesis
    unfolding ts_greaterThan_def p(1) of_sum_Inr bnd_ret
  proof (rule yields_bnd [OF yields_ts_inv [OF tp_greaterThanBatch_ok [OF assms(1) _ _ p(2)] keeps_tp_greaterThanBatch]])
    fix zs assume "list_all2 (\<lambda>v z. is_cipher (cl_modulus cl) z (b2i (fst v > snd v))) [(x, y)] zs"
    then have "is_cipher (cl_modulus cl) (hd zs) (b2i (x > y))" by (auto simp: list_all2_Cons1)
    then show "yields (ts_inv cl S R0 K) no_exn (bnd (ts_result cl (hd zs)) (\<lambda>c. ret (EncryptedBit c)))
        (\<lambda>c. enc_bit (ts_enc cl) c (x > y))"
      by (intro yields_bnd [OF ts_enc_result [OF assms(1)]] yields_ret) (simp_all add: enc_bit_def)
  qed simp_all
qed

lemma ts_secure_ops:
  assumes "linked cl mu"
  shows "secure_ops (threshold_ops cl setting nd) (ts_inv cl S R0 K) (ts_enc cl) no_exn (2 ^ 127) 32"
proof
  fix c x assume "ts_enc cl c x"
  then show "c \<noteq> []" by (auto simp: ts_enc_def encodeCiphertext_def)
qed (simp_all add: threshold_ops_def ts_encryptConstant_law [OF assms] ts_add_law [OF assms]
    ts_scalarMul_law [OF assms] ts_secureMul_law [OF assms] ts_greaterThan_law [OF assms]
    ts_secureMulBatch_law [OF assms] ts_greaterThanBatch_law [OF assms])

lemma ts_reveal_law:
  assumes "linked cl mu" "valid_ids ctx" "enc_bit (ts_enc cl) b p"
  shows "yields (ts_inv cl S R0 K) no_exn (ts_revealFinalBit cl ctx b) (\<lambda>r. r = p)"
proof -
  obtain z where z: "encodeCiphertext (ciphertext b) (cl_mode cl) = Inr z" "is_cipher (cl_modulus cl) z (b2i p)"
    using assms(3) by (auto simp: enc_bit_def ts_enc_def)
  show ?thesis
    unfolding ts_revealFinalBit_def z(1) of_sum_Inr bnd_ret
    by (rule yields_ts_inv [OF tp_revealFinalPredicate_ok [OF assms(1) z(2) assms(2)] keeps_tp_revealFinalPredicate])
qed

section \<open>The fused predicates\<close>

lemma world_at_iff: "world_at cl (None, R) w \<longleftrightarrow> world_ready cl w \<and> replays w = R"
  by (auto simp: world_inv_def csp_at_def csp_ready_def)

text \<open>The server keys a session and operation differently from the engine, but as injectively.\<close>

lemma valid_identifier_no_zero: "validIdentifier v \<Longrightarrow> char_of (0::nat) \<notin> set v"
proof
  assume v: "validIdentifier v" and z: "char_of (0::nat) \<in> set v"
  have "isalnum_c c \<or> c = CHR ''-'' \<or> c = CHR ''_'' \<or> c = CHR ''.'' \<or> c = CHR '':''" if "c \<in> set v" for c
    using v that by (simp add: validIdentifier_def list_all_iff)
  from this [OF z] have "(of_char (char_of (0::nat)) :: int) \<noteq> 0"
    by (auto simp: isalnum_c_def isdigit_c_def)
  moreover have "(of_char (char_of (0::nat)) :: int) = 0" by (simp add: of_char_def char_of_def)
  ultimately show False by simp
qed

lemma up_to: "z \<notin> set s \<Longrightarrow> takeWhile (\<lambda>c. c \<noteq> z) (s @ z # r) = s"
  by (induction s) auto

lemma context_key_eq:
  assumes "valid_ids a" "valid_ids b" "context_key a = context_key b"
  shows "replayKey a = replayKey b"
proof -
  let ?z = "char_of (0::nat)"
  have n: "?z \<notin> set (session_id a)" "?z \<notin> set (session_id b)"
    using assms(1,2) by (auto simp: valid_ids_def dest!: valid_identifier_no_zero)
  have e: "session_id a @ ?z # operation_id a = session_id b @ ?z # operation_id b"
    using assms(3) by (simp add: context_key_def fused_replay_key_def)
  have "session_id a = session_id b"
    using arg_cong [OF e, of "takeWhile (\<lambda>c. c \<noteq> ?z)"] unfolding up_to [OF n(1)] up_to [OF n(2)] .
  moreover from this have "operation_id a = operation_id b" using e by (simp only: same_append_eq list.inject)
  ultimately show ?thesis unfolding replayKey_eq ..
qed

lemma ts_inv_insert:
  assumes "ts_inv cl S R0 K w" "world_at cl (None, insert (context_key ctx) (replays w)) w'" "valid_ids ctx"
    and "session_id ctx \<in> S"
  shows "ts_inv cl S R0 (insert (replayKey ctx) K) w'"
  unfolding ts_inv_def
proof (intro conjI allI impI)
  have R: "replays w' = insert (context_key ctx) (replays w)" using assms(2) by (simp only: world_at_iff)
  show "world_ready cl w'" using assms(2) by (simp only: world_at_iff)
  have "context_key ctx \<in> session_keys S" using assms(3,4) unfolding session_keys_def by blast
  then show "replays w' \<subseteq> R0 \<union> session_keys S" using assms(1) unfolding R ts_inv_def by blast
  fix c assume c: "valid_ids c" "session_id c \<in> S" "context_key c \<in> replays w'"
  then consider "context_key c = context_key ctx" | "context_key c \<in> replays w" unfolding R by blast
  then show "replayKey c \<in> insert (replayKey ctx) K"
  proof cases
    case 1
    then show ?thesis using context_key_eq [OF c(1) assms(3)] by simp
  next
    case 2
    then show ?thesis using assms(1) c(1,2) by (simp only: ts_inv_def) blast
  qed
qed

lemma ts_fused_runs:
  assumes l: "linked cl mu" and t: "transfer_ready cl" and v: "valid_ids ctx" and sess: "session_id ctx \<in> S" and w: "ts_inv cl S R0 K w" "replayKey ctx \<notin> K"
    and build: "\<And>zero. is_cipher (cl_modulus cl) zero 0 \<Longrightarrow> \<exists>items. build zero = Inr items \<and> items \<noteq> [] \<and>
      length items \<le> 32 \<and> list_all2 (pair_cipher (cl_modulus cl)) items vs \<and>
      comparison_count (predicate_type ctx) incumbent (length items)"
  shows "runs no_exn (bnd (tp_encrypt cl 0) (\<lambda>zero. bnd (of_sum (build zero)) (\<lambda>items. tp_fusedPredicate cl ctx items incumbent))) w
    (\<lambda>r w'. r = circuit_decision (predicate_type ctx) (map (\<lambda>(x, y). x > y) vs) incumbent \<and>
       ts_inv cl S R0 (insert (replayKey ctx) K) w')"
proof -
  have at: "world_at cl (None, replays w) w" using w(1) by (simp add: ts_inv_def world_at_iff)
  have fresh: "context_key ctx \<notin> replays w" using w v sess unfolding ts_inv_def by blast
  show ?thesis
  proof (rule runs_bndI [OF runs_of_yields [OF yields_tp_encrypt [OF l] at]])
    fix zero w1 assume z: "is_cipher (cl_modulus cl) zero 0 \<and> world_at cl (None, replays w) w1"
    then obtain items where i: "build zero = Inr items" "items \<noteq> []" "length items \<le> 32"
      "list_all2 (pair_cipher (cl_modulus cl)) items vs" "comparison_count (predicate_type ctx) incumbent (length items)"
      using build by blast
    from tp_fusedPredicate_ok [OF l t v i(2-5) conjunct2 [OF z] fresh]
    show "runs no_exn (bnd (of_sum (build zero)) (\<lambda>items. tp_fusedPredicate cl ctx items incumbent)) w1
      (\<lambda>r w'. r = circuit_decision (predicate_type ctx) (map (\<lambda>(x, y). x > y) vs) incumbent \<and>
         ts_inv cl S R0 (insert (replayKey ctx) K) w')"
      unfolding i(1) of_sum_Inr bnd_ret
      by (rule runs_weaken) (use ts_inv_insert [OF w(1) _ v sess] in blast)
  qed
qed

lemma smap_operands:
  assumes "list_all2 (\<lambda>c l. ts_enc cl c l \<and> \<bar>l\<bar> < 2 ^ 127) lowers ls" "ts_enc cl c inc" "\<bar>inc\<bar> < 2 ^ 127"
  shows "\<exists>ps. smap (\<lambda>lower. ts_pair cl (lower, c)) lowers = Inr ps \<and>
    list_all2 (pair_cipher (cl_modulus cl)) ps (map (\<lambda>l. (l, inc)) ls)"
  using assms(1)
proof (induction rule: list_all2_induct)
  case (Cons x xs y ys)
  have "operands (ts_enc cl) (2 ^ 127) (x, c) (y, inc)" using Cons(1) assms(2,3) by (simp add: operands_def)
  from ts_pair_ok [OF this] Cons(3) show ?case by auto
qed simp

lemma ts_fused_prune_law:
  assumes l: "linked cl mu" and t: "transfer_ready cl" and v: "valid_ids ctx" and ty: "predicate_type ctx = PruneNode"
    and i: "prune_values (ts_enc cl) (2 ^ 127) 32 inputs slack lowers incumbent"
    and sess: "session_id ctx \<in> S" and w: "ts_inv cl S R0 K w" "replayKey ctx \<notin> K"
  shows "runs no_exn (ts_fusedPruneNode cl ctx inputs) w
    (\<lambda>r w'. r = prune_decision slack lowers (p_has_incumbent inputs) incumbent \<and> ts_inv cl S R0 (insert (replayKey ctx) K) w')"
proof -
  let ?n = "cl_modulus cl" and ?inc = "p_has_incumbent inputs"
  obtain linr where linr: "encodeCiphertext (linear_upper inputs) (cl_mode cl) = Inr linr" "is_cipher ?n linr slack"
    using i by (auto simp: prune_values_def ts_enc_def)
  have "\<exists>bounds. (if ?inc then smap (\<lambda>lower. ts_pair cl (lower, p_incumbent_cost inputs)) (cost_lowers inputs)
      else Inr []) = Inr bounds \<and> list_all2 (pair_cipher ?n) bounds (if ?inc then map (\<lambda>l. (l, incumbent)) lowers else [])"
  proof (cases ?inc)
    case True
    with i have "list_all2 (\<lambda>c l. ts_enc cl c l \<and> \<bar>l\<bar> < 2 ^ 127) (cost_lowers inputs) lowers"
      "ts_enc cl (p_incumbent_cost inputs) incumbent" "\<bar>incumbent\<bar> < 2 ^ 127" by (simp_all add: prune_values_def)
    from smap_operands [OF this] True show ?thesis by simp
  qed simp
  then obtain bounds where b: "(if ?inc then smap (\<lambda>lower. ts_pair cl (lower, p_incumbent_cost inputs)) (cost_lowers inputs)
      else Inr []) = Inr bounds" "list_all2 (pair_cipher ?n) bounds (if ?inc then map (\<lambda>l. (l, incumbent)) lowers else [])"
    by blast
  have lb: "length bounds = (if ?inc then length lowers else 0)" using list_all2_lengthD [OF b(2)] by auto
  let ?vs = "(0, slack) # (if ?inc then map (\<lambda>l. (l, incumbent)) lowers else [])"
  have "runs no_exn (bnd (tp_encrypt cl 0) (\<lambda>zero. bnd (of_sum (Inr ((zero, linr) # bounds))) (\<lambda>items.
      tp_fusedPredicate cl ctx items ?inc))) w
    (\<lambda>r w'. r = circuit_decision (predicate_type ctx) (map (\<lambda>(x, y). x > y) ?vs) ?inc \<and>
       ts_inv cl S R0 (insert (replayKey ctx) K) w')"
  proof (rule ts_fused_runs [OF l t v sess w])
    fix zero assume "is_cipher ?n zero 0"
    with linr(2) b(2) i have "list_all2 (pair_cipher ?n) ((zero, linr) # bounds) ?vs"
      by (simp add: pair_cipher_def small_def prune_values_def)
    moreover have "Suc (length bounds) \<le> 32" "comparison_count (predicate_type ctx) ?inc (Suc (length bounds))"
      using i lb by (auto simp: prune_values_def comparison_count_def ty Suc_le_eq)
    ultimately show "\<exists>items. Inr ((zero, linr) # bounds) = Inr items \<and> items \<noteq> [] \<and> length items \<le> 32 \<and>
        list_all2 (pair_cipher ?n) items ?vs \<and> comparison_count (predicate_type ctx) ?inc (length items)" by simp
  qed
  moreover have "map (\<lambda>(x, y). x > y) ?vs = (0 > slack) # (if ?inc then map (\<lambda>l. l > incumbent) lowers else [])"
    by (simp add: comp_def)
  ultimately show ?thesis
    unfolding ts_fusedPruneNode_def linr(1) b(1) of_sum_Inr bnd_ret ty by (simp only: circuit_decision_prune)
qed

lemma ts_fused_accept_law:
  assumes l: "linked cl mu" and t: "transfer_ready cl" and v: "valid_ids ctx" and ty: "predicate_type ctx = AcceptCandidate"
    and i: "accept_values (ts_enc cl) (2 ^ 127) inputs slack c3 cost c12 inc_cost inc_c12"
    and sess: "session_id ctx \<in> S" and w: "ts_inv cl S R0 K w" "replayKey ctx \<notin> K"
  shows "runs no_exn (ts_fusedAcceptCandidate cl ctx inputs) w
    (\<lambda>r w'. r = accept_decision slack c3 cost c12 (a_has_incumbent inputs) inc_cost inc_c12 \<and>
       ts_inv cl S R0 (insert (replayKey ctx) K) w')"
proof -
  let ?n = "cl_modulus cl" and ?inc = "a_has_incumbent inputs"
  obtain linr e3 where linr: "encodeCiphertext (a_linear inputs) (cl_mode cl) = Inr linr" "is_cipher ?n linr slack"
    and e3: "encodeCiphertext (a_c3 inputs) (cl_mode cl) = Inr e3" "is_cipher ?n e3 c3"
    using i by (auto simp: accept_values_def ts_enc_def)
  let ?bs = "if ?inc then [(inc_cost, cost), (cost, inc_cost), (inc_c12, c12)] else []"
  let ?pairs = "[(a_incumbent_cost inputs, a_cost inputs), (a_cost inputs, a_incumbent_cost inputs),
      (a_incumbent_c12 inputs, a_c12 inputs)]"
  have "\<exists>bounds. (if ?inc then smap (ts_pair cl) ?pairs else Inr []) = Inr bounds \<and> list_all2 (pair_cipher ?n) bounds ?bs"
  proof (cases ?inc)
    case True
    with i have "list_all2 (operands (ts_enc cl) (2 ^ 127)) ?pairs ?bs"
      by (simp add: accept_values_def operands_def)
    from ts_pairs_ok [OF this] True show ?thesis by (simp only: if_True)
  qed simp
  then obtain bounds where b: "(if ?inc then smap (ts_pair cl) ?pairs else Inr []) = Inr bounds"
      "list_all2 (pair_cipher ?n) bounds ?bs" by blast
  have lb: "length bounds = (if ?inc then 3 else 0)" using list_all2_lengthD [OF b(2)] by auto
  let ?vs = "(0, slack) # (c3, 0) # ?bs"
  have "runs no_exn (bnd (tp_encrypt cl 0) (\<lambda>zero. bnd (of_sum (Inr ((zero, linr) # (e3, zero) # bounds))) (\<lambda>items.
      tp_fusedPredicate cl ctx items ?inc))) w
    (\<lambda>r w'. r = circuit_decision (predicate_type ctx) (map (\<lambda>(x, y). x > y) ?vs) ?inc \<and>
       ts_inv cl S R0 (insert (replayKey ctx) K) w')"
  proof (rule ts_fused_runs [OF l t v sess w])
    fix zero assume "is_cipher ?n zero 0"
    with linr(2) e3(2) b(2) i have "list_all2 (pair_cipher ?n) ((zero, linr) # (e3, zero) # bounds) ?vs"
      by (simp add: pair_cipher_def small_def accept_values_def)
    moreover have "length ((zero, linr) # (e3, zero) # bounds) = (if ?inc then 5 else 2)" using lb by simp
    ultimately show "\<exists>items. Inr ((zero, linr) # (e3, zero) # bounds) = Inr items \<and> items \<noteq> [] \<and> length items \<le> 32 \<and>
        list_all2 (pair_cipher ?n) items ?vs \<and> comparison_count (predicate_type ctx) ?inc (length items)"
      by (simp only: comparison_count_def ty) auto
  qed
  moreover have "map (\<lambda>(x, y). x > y) ?vs = [0 > slack, c3 > 0] @ (if ?inc then [inc_cost > cost, cost > inc_cost, inc_c12 > c12] else [])"
    by simp
  ultimately show ?thesis
    unfolding ts_fusedAcceptCandidate_def linr(1) e3(1) b(1) of_sum_Inr bnd_ret ty by (simp only: circuit_decision_accept)
qed

section \<open>The contract of the engine\<close>

text \<open>The invariant together with what does not change: a client and a server that fit.\<close>

definition ts_ready :: "client \<Rightarrow> string set \<Rightarrow> string set \<Rightarrow> string set \<Rightarrow> world \<Rightarrow> bool" where
  "ts_ready cl S R0 K w \<longleftrightarrow> (\<exists>mu. linked cl mu) \<and> transfer_ready cl \<and> ts_inv cl S R0 K w"

lemma ts_ready_ops:
  "secure_ops (threshold_ops cl setting nd) (ts_ready cl S R0 K) (ts_enc cl) no_exn (2 ^ 127) 32"
proof (cases "(\<exists>mu. linked cl mu) \<and> transfer_ready cl")
  case True
  then have "ts_ready cl S R0 K = ts_inv cl S R0 K" by (intro ext) (simp add: ts_ready_def)
  with True ts_secure_ops show ?thesis by auto
next
  case False
  then have "ts_ready cl S R0 K = (\<lambda>_. False)" by (intro ext) (auto simp: ts_ready_def)
  moreover have "secure_ops (threshold_ops cl setting nd) (\<lambda>_. False) (ts_enc cl) no_exn (2 ^ 127) 32"
  proof
    fix c x assume "ts_enc cl c x"
    then show "c \<noteq> []" by (auto simp: ts_enc_def encodeCiphertext_def)
  qed (simp_all add: yields_def)
  ultimately show ?thesis by simp
qed

text \<open>Whatever policy authorizes the operations; only a policy that denies some can make a call fail.\<close>

interpretation ts_env: predicate_env "threshold_ops cl setting nd" "ts_ready cl S R0" "ts_enc cl" no_exn
  "2 ^ 127" 32 "\<lambda>ctx. ret (policy ctx)" "ts_revealFinalBit cl" "\<exists>ctx. \<not> policy ctx" S
  for cl setting nd S R0 policy
proof (rule predicate_env.intro)
  show "secure_ops (threshold_ops cl setting nd) (ts_ready cl S R0 K) (ts_enc cl) no_exn (2 ^ 127) 32" for K
    by (rule ts_ready_ops)
  show "ts_ready cl S R0 K' w" if "ts_ready cl S R0 K w" "K \<subseteq> K'" for K K' w
    using that ts_inv_mono by (auto simp: ts_ready_def)
  show "yields (ts_ready cl S R0 K) no_exn (ret (policy ctx)) (\<lambda>r. r \<or> (\<exists>ctx. \<not> policy ctx))" for K ctx
    by (rule yields_ret) blast
  show "yields (ts_ready cl S R0 K) no_exn (ts_revealFinalBit cl ctx b) (\<lambda>r. r = p)"
    if "valid_ids ctx" "enc_bit (ts_enc cl) b p" for K ctx b p
    unfolding yields_def
  proof (intro allI impI)
    fix w assume w: "ts_ready cl S R0 K w"
    then obtain mu where "linked cl mu" by (auto simp: ts_ready_def)
    from ts_reveal_law [OF this that] w show "\<exists>r w'. ts_revealFinalBit cl ctx b w = Some (r, w') \<and> ts_ready cl S R0 K w' \<and>
        (case r of Inl e \<Rightarrow> no_exn e | Inr a \<Rightarrow> a = p)"
      unfolding yields_def ts_ready_def by blast
  qed
next
  fix fb ctx inputs slack lowers incumbent K w
  assume a: "fused (threshold_ops cl setting nd) = Some fb" "valid_ids ctx" "predicate_type ctx = PruneNode"
    "session_id ctx \<in> S" "prune_values (ts_enc cl) (2 ^ 127) 32 inputs slack lowers incumbent"
    "ts_ready cl S R0 K w" "replayKey ctx \<notin> K"
  then obtain mu where r: "linked cl mu" "transfer_ready cl" "ts_inv cl S R0 K w" by (auto simp: ts_ready_def)
  from ts_fused_prune_law [OF r(1,2) a(2,3,5,4) r(3) a(7)] a(1) r(1,2)
  show "runs no_exn (fusedPruneNode fb ctx inputs) w
    (\<lambda>r w'. r = prune_decision slack lowers (p_has_incumbent inputs) incumbent \<and>
       ts_ready cl S R0 (insert (replayKey ctx) K) w')"
    by (auto simp: threshold_ops_def ts_ready_def elim!: runs_weaken)
next
  fix fb ctx inputs slack c3 cost c12 inc_cost inc_c12 K w
  assume a: "fused (threshold_ops cl setting nd) = Some fb" "valid_ids ctx" "predicate_type ctx = AcceptCandidate"
    "session_id ctx \<in> S" "accept_values (ts_enc cl) (2 ^ 127) inputs slack c3 cost c12 inc_cost inc_c12"
    "ts_ready cl S R0 K w" "replayKey ctx \<notin> K"
  then obtain mu where r: "linked cl mu" "transfer_ready cl" "ts_inv cl S R0 K w" by (auto simp: ts_ready_def)
  from ts_fused_accept_law [OF r(1,2) a(2,3,5,4) r(3) a(7)] a(1) r(1,2)
  show "runs no_exn (fusedAcceptCandidate fb ctx inputs) w
    (\<lambda>r w'. r = accept_decision slack c3 cost c12 (a_has_incumbent inputs) inc_cost inc_c12 \<and>
       ts_ready cl S R0 (insert (replayKey ctx) K) w')"
    by (auto simp: threshold_ops_def ts_ready_def elim!: runs_weaken)
qed

section \<open>The numeric domain\<close>

text \<open>The constructor accepts a domain whose declared bounds cover the derived ones and stay below
  \<open>2 ^ 127\<close>. Bit sums are computed on 32 bits, with the overflow checked.\<close>

fun bit_count :: "nat \<Rightarrow> nat" where
  "bit_count v = (if v = 0 then 0 else Suc (bit_count (v div 2)))"

declare bit_count.simps [simp del]

definition ceilLog2 :: "nat \<Rightarrow> nat" where
  "ceilLog2 v = (if v \<le> 1 then 0 else bit_count (v - 1))"

definition checkedBitSum :: "nat \<Rightarrow> nat \<Rightarrow> string \<Rightarrow> exn + nat" where
  "checkedBitSum left right message =
     (if right > 2 ^ 32 - 1 - left then Inl (StdInvalidArgument message) else Inr (left + right))"

definition threshold_domain :: "numeric_domain \<Rightarrow> exn + unit" where
  "threshold_domain d =
     (if d_scale d \<le> 0 \<or> max_rows d = 0 \<or> max_cost_bits d = 0 \<or> max_total_bits d = 0 \<or>
         max_linear_bits d = 0 \<or> compare_operand_bits d = 0
      then Inl (StdInvalidArgument ''ThresholdSecureOps requires a complete NumericDomain'')
      else
      sbind (checkedBitSum (max_cost_bits d) (ceilLog2 (max_rows d))
        ''NumericDomain total bit calculation overflowed'') (\<lambda>required_total.
      sbind (checkedBitSum required_total (ceilLog2 (nat (d_scale d)))
        ''NumericDomain linear bit calculation overflowed'') (\<lambda>linr.
      sbind (checkedBitSum linr 1 ''NumericDomain linear bit calculation overflowed'') (\<lambda>required_linear.
      if max_total_bits d < required_total \<or> max_linear_bits d < required_linear \<or>
         compare_operand_bits d < max required_total required_linear
      then Inl (StdInvalidArgument ''NumericDomain declared bounds are smaller than derived bounds'')
      else if max_cost_bits d > 127 \<or> max_total_bits d > 127 \<or> max_linear_bits d > 127 \<or> compare_operand_bits d > 127
      then Inl (StdInvalidArgument ''NumericDomain violates the SMUL invariant |x| < 2^127'')
      else Inr ()))))"

lemma bit_count_bound: "v < 2 ^ bit_count v"
  by (induction v rule: bit_count.induct) (subst bit_count.simps, auto)

lemma ceilLog2_bound: "v \<le> 2 ^ ceilLog2 v"
  using bit_count_bound [of "v - 1"] by (auto simp: ceilLog2_def)

lemma checkedBitSum_Inr: "checkedBitSum l r m = Inr s \<Longrightarrow> s = l + r"
  by (simp add: checkedBitSum_def split: if_splits)

text \<open>An accepted domain covers the sums of the rows with the margin that the search needs.\<close>

lemma threshold_domain_covers:
  assumes "threshold_domain d = Inr ()"
  shows "0 < d_scale d" "0 < max_rows d" "int (max_rows d) * 2 ^ max_cost_bits d \<le> 2 ^ max_total_bits d"
    "2 * (int (max_rows d) * (d_scale d * 2 ^ max_cost_bits d)) \<le> 2 ^ max_linear_bits d"
    "max_total_bits d \<le> 127" "max_linear_bits d \<le> 127"
proof -
  let ?r = "ceilLog2 (max_rows d)" and ?s = "ceilLog2 (nat (d_scale d))"
  have g: "0 < d_scale d" "0 < max_rows d" "max_cost_bits d + ?r \<le> max_total_bits d"
    "max_cost_bits d + ?r + ?s + 1 \<le> max_linear_bits d" "max_total_bits d \<le> 127" "max_linear_bits d \<le> 127"
    using assms by (auto simp: threshold_domain_def sbind_eq_Inr split: if_splits dest!: checkedBitSum_Inr)
  then show "0 < d_scale d" "0 < max_rows d" "max_total_bits d \<le> 127" "max_linear_bits d \<le> 127" by blast+
  have r: "int (max_rows d) \<le> 2 ^ ?r" using ceilLog2_bound [of "max_rows d"] by (metis of_nat_le_iff of_nat_numeral of_nat_power)
  have s: "d_scale d \<le> 2 ^ ?s"
    using ceilLog2_bound [of "nat (d_scale d)"] g(1) by (simp add: nat_le_iff)
  have "int (max_rows d) * 2 ^ max_cost_bits d \<le> 2 ^ ?r * 2 ^ max_cost_bits d" using r by (intro mult_right_mono) simp_all
  also have "\<dots> \<le> 2 ^ max_total_bits d" using g(3) by (simp add: power_add [symmetric] add.commute)
  finally show "int (max_rows d) * 2 ^ max_cost_bits d \<le> 2 ^ max_total_bits d" .
  have "int (max_rows d) * d_scale d \<le> 2 ^ ?r * 2 ^ ?s" using r s g(1) by (intro mult_mono) simp_all
  then have "2 * (int (max_rows d) * d_scale d) * 2 ^ max_cost_bits d \<le> 2 * (2 ^ ?r * 2 ^ ?s) * 2 ^ max_cost_bits d"
    by (intro mult_right_mono) simp_all
  also have "\<dots> = 2 ^ (max_cost_bits d + ?r + ?s + 1)" by (simp add: power_add)
  also have "\<dots> \<le> 2 ^ max_linear_bits d" using g(4) by (intro power_increasing) simp_all
  finally show "2 * (int (max_rows d) * (d_scale d * 2 ^ max_cost_bits d)) \<le> 2 ^ max_linear_bits d"
    by (simp add: mult.assoc)
qed

lemma threshold_domain_fits:
  assumes "threshold_domain d = Inr ()" "c_cost_bound config = Lagrangian \<Longrightarrow> requested_size (c_grid config) < 32"
  shows "bb_fits d config (2 ^ 127) 32"
proof -
  note c = threshold_domain_covers [OF assms(1)]
  let ?x = "d_scale d * 2 ^ max_cost_bits d"
  have "(2::int) ^ max_linear_bits d \<le> 2 ^ 127" using c(6) by (intro power_increasing) simp_all
  then have rx: "2 * (int (max_rows d) * ?x) \<le> 2 ^ 127" using c(4) by linarith
  have x: "0 \<le> ?x" "1 * ?x \<le> int (max_rows d) * ?x" using c(1,2) by (auto intro: mult_right_mono)
  then have "2 * ?x \<le> 2 ^ 127" "int (max_rows d) * ?x \<le> 2 ^ 127" using rx by linarith+
  with assms(2) show ?thesis by (cases "c_cost_bound config") (simp_all add: bb_fits_def)
qed

end
