(* ===== verification/ThresholdService.thy ===== *)
theory ThresholdService
  imports SampleWorld
begin

text \<open>
  The properties of the threshold protocol, stated of the client's calls and of the state of both
  sides: what a call answers, that it ends, and that the next call can be made. Each is instantiated
  at the client and the server of theory SampleWorld.
\<close>

lemma runs_no_exn: "runs no_exn m s Q \<Longrightarrow> \<exists>a s'. m s = Some (Inr a, s') \<and> Q a s'"
  by (elim runs_no_exnD) blast

lemma yields_result: "yields I no_exn m R \<Longrightarrow> I s \<Longrightarrow> \<exists>a s'. m s = Some (Inr a, s') \<and> I s' \<and> R a"
  by (elim yields_no_exnD) blast+

text \<open>C16: A batch of masked multiplications ends and answers, in order, encryptions of the products, for
  operands below \<open>2 ^ 127\<close> in absolute value; both sides are ready again.\<close>

theorem threshold_multiplication:
  assumes "linked cl mu" "items \<noteq> []" "length items \<le> 32" "list_all2 (pair_cipher (cl_modulus cl)) items vs"
    and "world_ready cl w"
  shows "\<exists>cs w'. tp_secureMultiplyBatch cl items w = Some (Inr cs, w') \<and> world_ready cl w' \<and>
    list_all2 (\<lambda>v c. is_cipher (cl_modulus cl) c (fst v * snd v)) vs cs"
  using yields_result [OF tp_secureMultiplyBatch_ok [OF assms(1-4)] assms(5)] .

theorem threshold_multiplication_witness:
  "\<exists>cs w'. tp_secureMultiplyBatch sample_client
      [(sample_cipher 7, sample_cipher (- 3)), (sample_cipher 2, sample_cipher 5)] sample_world = Some (Inr cs, w') \<and>
    world_ready sample_client w' \<and>
    list_all2 (\<lambda>v c. is_cipher (cl_modulus sample_client) c (fst v * snd v)) [(7::int, - 3), (2, 5)] cs"
  by (rule threshold_multiplication [OF sample_linked _ _ sample_pairs sample_world(2)]) simp_all

text \<open>C8: A batch of masked comparisons ends and answers, in order, encryptions of 1 where the first operand is
  greater and of 0 elsewhere; the server learns a sign that the client's orientation bit hides.\<close>

theorem threshold_comparison:
  assumes "linked cl mu" "items \<noteq> []" "length items \<le> 32" "list_all2 (pair_cipher (cl_modulus cl)) items vs"
    and "world_ready cl w"
  shows "\<exists>cs w'. tp_greaterThanBatch cl items w = Some (Inr cs, w') \<and> world_ready cl w' \<and>
    list_all2 (\<lambda>v c. is_cipher (cl_modulus cl) c (b2i (fst v > snd v))) vs cs"
  using yields_result [OF tp_greaterThanBatch_ok [OF assms(1-4)] assms(5)] .

theorem threshold_comparison_witness:
  "\<exists>cs w'. tp_greaterThanBatch sample_client
      [(sample_cipher 7, sample_cipher (- 3)), (sample_cipher 2, sample_cipher 5)] sample_world = Some (Inr cs, w') \<and>
    world_ready sample_client w' \<and>
    list_all2 (\<lambda>v c. is_cipher (cl_modulus sample_client) c (b2i (fst v > snd v))) [(7::int, - 3), (2, 5)] cs"
  by (rule threshold_comparison [OF sample_linked _ _ sample_pairs sample_world(2)]) simp_all

text \<open>C4: The fused predicate under a session and operation that the server has not seen ends and answers the
  predicate's decision on the comparisons of the plaintexts; afterwards the server holds no transcript
  and has used up exactly that session and operation.\<close>

theorem fused_predicate_decides:
  assumes "linked cl mu" "transfer_ready cl" "valid_ids ctx" "items \<noteq> []" "length items \<le> 32"
    and "list_all2 (pair_cipher (cl_modulus cl)) items vs"
    and "comparison_count (predicate_type ctx) incumbent (length items)"
    and "world_at cl (None, R) w" "fused_replay_key (session_id ctx) (operation_id ctx) \<notin> R"
  shows "\<exists>w'. tp_fusedPredicate cl ctx items incumbent w =
      Some (Inr (circuit_decision (predicate_type ctx) (map (\<lambda>(x, y). x > y) vs) incumbent), w') \<and>
    world_at cl (None, insert (fused_replay_key (session_id ctx) (operation_id ctx)) R) w'"
  using runs_no_exn [OF tp_fusedPredicate_ok [OF assms(1-8)]] assms(9) by (auto simp: context_key_def)

theorem fused_predicate_decides_witness:
  "\<exists>w'. tp_fusedPredicate sample_client (sample_context PruneNode)
      [(sample_cipher 7, sample_cipher (- 3)), (sample_cipher 2, sample_cipher 5)] True sample_world =
      Some (Inr (circuit_decision (predicate_type (sample_context PruneNode)) (map (\<lambda>(x, y). x > y) [(7::int, - 3), (2, 5)]) True), w') \<and>
    world_at sample_client (None, insert (fused_replay_key (session_id (sample_context PruneNode))
      (operation_id (sample_context PruneNode))) {}) w'"
  by (rule fused_predicate_decides [OF sample_linked sample_transfer sample_context(1) _ _ sample_pairs _ sample_world(1)])
     (simp_all add: comparison_count_def sample_context(2))

text \<open>C18: Restoring division over the threshold operations: for a dividend below \<open>2 ^ 16\<close> times the divisor the
  16 steps end with encryptions of the quotient and of the remainder, so the benchmark reports success.\<close>

theorem threshold_division:
  assumes "linked cl mu" "is_cipher (cl_modulus cl) ex x" "is_cipher (cl_modulus cl) ey y"
    and "0 \<le> x" "0 < y" "x < y * 2 ^ 16" "y < 2 ^ 110" and "world_ready cl w"
  shows "\<exists>w'. bench_sdiv cl x y ex ey w = Some (Inr True, w') \<and> world_ready cl w'"
  using yields_result [OF bench_sdiv_ok [OF assms(1-7)] assms(8)] by auto

theorem threshold_division_witness:
  "\<exists>w'. bench_sdiv sample_client 100 7 (sample_cipher 100) (sample_cipher 7) sample_world = Some (Inr True, w') \<and>
    world_ready sample_client w'"
proof -
  have c: "is_cipher (cl_modulus sample_client) (sample_cipher m) m" for m
    using sample_cipher [of m] by (simp add: sample_client_def)
  show ?thesis by (rule threshold_division [OF sample_linked c c _ _ _ _ sample_world(2)]) simp_all
qed

end
