(* ===== verification/ThresholdOptimizer.thy ===== *)
theory ThresholdOptimizer
  imports ThresholdBackend ThresholdService
begin

text \<open>
  The confidential optimizer over the threshold protocol (src/protocol/threshold_optimizer.cpp): the
  encrypted branch and bound on the operations of theory ThresholdBackend, with the counters of the
  protocol that one solve moved. The properties say that evaluating a predicate gate by gate and as
  one garbled circuit decides alike, and that the optimizer is exact.
\<close>

section \<open>The runtime\<close>

datatype threshold_mode = Sim | Hw

fun protocolMode :: "threshold_mode \<Rightarrow> 8 word" where
  "protocolMode Sim = 1"
| "protocolMode Hw = 2"

record threshold_config =
  cp_enclave_path :: string
  key_directory :: string
  csp_host :: string
  csp_port :: int
  execution_mode :: threshold_mode
  t_domain :: numeric_domain
  t_solver :: bb_config

definition checkedPath :: "string \<Rightarrow> string \<Rightarrow> exn + string" where
  "checkedPath value name = (if value = [] then Inl (StdInvalidArgument (name @ '' is empty'')) else Inr value)"

definition checkedPort :: "int \<Rightarrow> exn + int" where
  "checkedPort value =
     (if value \<le> 0 \<or> value > 65535 then Inl (StdInvalidArgument ''csp_port is outside 1..65535'') else Inr value)"

text \<open>
  What the client and the server are started on: the enclave images of the SGX SDK (an error code, or
  the role the image is built for), its sealing, the files, the server that answers at an address,
  OpenSSL's key generation and hash, and the value of \<open>SOCI_THRESHOLD_ENCRYPT_THREADS\<close> in the
  environment of both processes.
\<close>

record platform =
  pl_create :: "string \<Rightarrow> nat + 8 word"
  pl_sdk :: sgx_sdk
  pl_files :: "string \<Rightarrow> bytes option"
  pl_connect :: "string \<Rightarrow> int \<Rightarrow> csp_service option"
  pl_rsa :: "(int \<times> int \<times> int) option"
  pl_sha :: "bytes \<Rightarrow> bytes"
  pl_threads :: "string option"

definition createEnclave :: "platform \<Rightarrow> string \<Rightarrow> exn + 8 word" where
  "createEnclave pl path = (case pl_create pl path of
     Inl status \<Rightarrow> Inl (StdRuntimeError (''sgx_create_enclave failed: '' @ to_string status))
   | Inr build \<Rightarrow> Inr build)"

definition readFile :: "platform \<Rightarrow> string \<Rightarrow> exn + bytes" where
  "readFile pl path = (case pl_files pl path of
     None \<Rightarrow> Inl (StdRuntimeError (''cannot read '' @ path))
   | Some content \<Rightarrow> Inr content)"

definition connectTcp :: "platform \<Rightarrow> string \<Rightarrow> int \<Rightarrow> exn + csp_service" where
  "connectTcp pl host port = (case pl_connect pl host port of
     None \<Rightarrow> Inl (StdRuntimeError (''connect CSP failed: '' @ host @ '':'' @ to_string (nat port)))
   | Some peer \<Rightarrow> Inr peer)"

text \<open>
  The C library's \<open>strtoul\<close> in base 10 with a 64-bit result: the value, whether \<open>errno\<close> is set,
  and the text from \<open>*end\<close> on. A minus sign negates the value modulo 2^64.
\<close>

definition strtoul :: "string \<Rightarrow> 64 word \<times> bool \<times> string" where
  "strtoul s =
     (let t = dropWhile isspace_c s;
          u = (if t \<noteq> [] \<and> (hd t = CHR ''-'' \<or> hd t = CHR ''+'') then tl t else t);
          v = digits_val (takeWhile isdigit_c u); rest = dropWhile isdigit_c u
      in if takeWhile isdigit_c u = [] then (0, False, s)
         else if v \<ge> 2 ^ 64 then (- 1, True, rest)
         else (if hd t = CHR ''-'' then - word_of_int v else word_of_int v, False, rest))"

definition encryptionThreadCount :: "string option \<Rightarrow> exn + nat" where
  "encryptionThreadCount setting = (case setting of
     None \<Rightarrow> Inr 4
   | Some configured \<Rightarrow>
       if configured = [] then Inr 4
       else case strtoul configured of (value, errno, end) \<Rightarrow>
         if errno \<or> end \<noteq> [] \<or> value = 0 \<or> value > 16
         then Inl (StdRuntimeError ''SOCI_THRESHOLD_ENCRYPT_THREADS must be 1..16'')
         else Inr (unat value))"

text \<open>The initializer of the client's member \<open>encryption_threads\<close>.\<close>

definition encryption_threads :: "platform \<Rightarrow> exn + nat" where
  "encryption_threads pl = encryptionThreadCount (pl_threads pl)"

text \<open>
  The constructor of the client; the number of threads is read in the member initializer, after the
  modulus. It only spreads the encryptions of a batch over threads, so it is checked and not kept.
\<close>

definition make_client :: "platform \<Rightarrow> string \<Rightarrow> string \<Rightarrow> string \<Rightarrow> int \<Rightarrow> 8 word \<Rightarrow> exn + client" where
  "make_client pl path dir host port mode =
     sbind (createEnclave pl path) (\<lambda>build.
     sbind (readFile pl (dir @ ''/public.bin'')) (\<lambda>file.
     sbind (encryption_threads pl) (\<lambda>_.
     sbind (initializeEnclave build 1 mode fresh_enclave) (\<lambda>e.
     sbind (readFile pl (dir @ ''/cp.sealed'')) (\<lambda>share.
     sbind (loadShare (pl_sdk pl) share e) (\<lambda>e.
     sbind (connectTcp pl host port) (\<lambda>peer.
     case pl_rsa pl of
       None \<Rightarrow> Inl (StdRuntimeError ''predicate OT keygen failed'')
     | Some (n, f, d) \<Rightarrow> Inr \<lparr>cl_enclave = e, cl_modulus = loadModulus file, cl_mode = mode, cl_ot_modulus = n,
         cl_ot_public = f, cl_ot_private = d, cl_sha = pl_sha pl, cl_peer = peer\<rparr>)))))))"

text \<open>The start of the server.\<close>

definition make_service :: "platform \<Rightarrow> string \<Rightarrow> string \<Rightarrow> 8 word \<Rightarrow> exn + csp_service" where
  "make_service pl path dir mode =
     sbind (createEnclave pl path) (\<lambda>build.
     sbind (initializeEnclave build 2 mode fresh_enclave) (\<lambda>e.
     sbind (readFile pl (dir @ ''/csp.sealed'')) (\<lambda>share.
     sbind (loadShare (pl_sdk pl) share e) (\<lambda>e.
     sbind (readFile pl (dir @ ''/public.bin'')) (\<lambda>file.
     sbind (encryptionThreadCount (pl_threads pl)) (\<lambda>_.
     Inr \<lparr>sv_enclave = e, sv_modulus = loadModulus file, sv_mode = mode, sv_sha = pl_sha pl\<rparr>))))))"

text \<open>The constructor of the runtime.\<close>

definition make_runtime :: "platform \<Rightarrow> threshold_config \<Rightarrow> exn + client" where
  "make_runtime pl config =
     sbind (checkedPath (cp_enclave_path config) ''cp_enclave_path'') (\<lambda>path.
     sbind (checkedPath (key_directory config) ''key_directory'') (\<lambda>dir.
     sbind (checkedPath (csp_host config) ''csp_host'') (\<lambda>host.
     sbind (checkedPort (csp_port config)) (\<lambda>port.
     sbind (make_client pl path dir host port (protocolMode (execution_mode config))) (\<lambda>cl.
     sbind (threshold_domain (t_domain config)) (\<lambda>_. Inr cl))))))"

definition threshold_engine ::
  "(predicate_context \<Rightarrow> bool) \<Rightarrow> string option \<Rightarrow> client \<Rightarrow> numeric_domain \<Rightarrow> world engine" where
  "threshold_engine policy setting cl nd =
     the_engine (threshold_ops cl setting nd) (\<lambda>ctx. ret (policy ctx)) (ts_revealFinalBit cl)"

text \<open>The counters of one solve. The last two are declared, and nothing in the protocol counts them.\<close>

record protocol_stats =
  st_scmp_logical_items :: "64 word"
  st_scmp_dispatches :: "64 word"
  st_smul_logical_items :: "64 word"
  st_smul_dispatches :: "64 word"
  st_cp_ecalls :: "64 word"
  st_csp_ecalls :: "64 word"
  st_csp_requests :: "64 word"
  st_predicate_reveals :: "64 word"
  st_secure_bit_and_items :: "64 word"
  st_host_encrypt_calls :: "64 word"
  st_host_scalar_powm_calls :: "64 word"
  st_predicate_csp_encryptions :: "64 word"
  st_predicate_final_threshold_decrypts :: "64 word"

definition metrics_moved :: "protocol_metrics \<Rightarrow> protocol_metrics \<Rightarrow> protocol_stats" where
  "metrics_moved before after = \<lparr>
     st_scmp_logical_items = scmp_logical_items after - scmp_logical_items before,
     st_scmp_dispatches = scmp_dispatches after - scmp_dispatches before,
     st_smul_logical_items = smul_logical_items after - smul_logical_items before,
     st_smul_dispatches = smul_dispatches after - smul_dispatches before,
     st_cp_ecalls = cp_ecalls after - cp_ecalls before,
     st_csp_ecalls = csp_ecalls after - csp_ecalls before,
     st_csp_requests = csp_requests after - csp_requests before,
     st_predicate_reveals = predicate_reveals after - predicate_reveals before,
     st_secure_bit_and_items = secure_bit_and_items after - secure_bit_and_items before,
     st_host_encrypt_calls = host_encrypt_calls after - host_encrypt_calls before,
     st_host_scalar_powm_calls = host_scalar_powm_calls after - host_scalar_powm_calls before,
     st_predicate_csp_encryptions = 0, st_predicate_final_threshold_decrypts = 0\<rparr>"

definition threshold_optimize ::
  "(predicate_context \<Rightarrow> bool) \<Rightarrow> string option \<Rightarrow> client \<Rightarrow> threshold_config \<Rightarrow> bb_request \<Rightarrow>
     (world, bb_result \<times> protocol_stats) eff" where
  "threshold_optimize policy setting cl config request =
     bnd (tp_refreshCspMetrics cl) (\<lambda>_.
     bnd get_st (\<lambda>before.
     bnd (confidential_optimize (threshold_engine policy setting cl (t_domain config)) (t_solver config) request) (\<lambda>result.
     bnd (tp_refreshCspMetrics cl) (\<lambda>_.
     bnd get_st (\<lambda>after.
     ret (result, metrics_moved (w_metrics before) (w_metrics after)))))))"

section \<open>Metrics\<close>

lemma length_appendU64: "length (appendU64 out x) = length out + 8"
  by (simp add: appendU64_def)

lemma appendU64_prefix: "\<exists>b. length b = 8 \<and> appendU64 out x = out @ b"
  by (simp add: appendU64_def)

lemma fold_appendU64: "\<exists>b. length b = 8 * length xs \<and> fold (\<lambda>x reply. appendU64 reply x) xs out = out @ b"
proof (induction xs arbitrary: out)
  case (Cons x xs)
  obtain b where b: "length b = 8" "appendU64 out x = out @ b" using appendU64_prefix by blast
  obtain c where "length c = 8 * length xs" "fold (\<lambda>x reply. appendU64 reply x) xs (out @ b) = (out @ b) @ c"
    using Cons.IH by blast
  with b show ?case by (intro exI [of _ "b @ c"]) simp
qed simp

lemma tp_refreshCspMetrics_ok: "yields (world_ready cl) no_exn (tp_refreshCspMetrics cl) (\<lambda>_. True)"
proof -
  have "yields (world_ready cl) no_exn (requestPayload cl [op CHR ''T'']) (\<lambda>b. \<exists>c. length c = 56 \<and> b = ascii ''CSTM'' @ [1, 0, 0, 0] @ c)"
  proof (rule yields_requestPayload)
    show "yields (csp_ready cl) no_exn (csp_handle (cl_peer cl) [op CHR ''T''])
      (\<lambda>reply. \<exists>b. reply = Reply (0 # b) \<and> length b < max_frame \<and> (\<exists>c. length c = 56 \<and> b = ascii ''CSTM'' @ [1, 0, 0, 0] @ c))"
      unfolding yields_def
    proof (intro allI impI)
      fix s assume s: "csp_ready cl s"
      let ?l = "let t = csp_times s in [request_ns t, threshold_decrypt_ns t, encrypt_ns t, parse_serialize_ns t,
          socket_send_ns t, fused_rsa_public_powm_ns t, fused_circuit_evaluate_ns t]"
      obtain c where c: "length c = 8 * length ?l"
        "fold (\<lambda>x reply. appendU64 reply x) ?l ([0] @ ascii ''CSTM'' @ [1, 0, 0, 0]) = ([0] @ ascii ''CSTM'' @ [1, 0, 0, 0]) @ c"
        using fold_appendU64 by blast
      have "csp_handle (cl_peer cl) [op CHR ''T''] s = Some (Inr (Reply (([0] @ ascii ''CSTM'' @ [1, 0, 0, 0]) @ c)), s)"
        unfolding c(2) [symmetric] by (simp add: csp_handle_def csp_timing_reply_def eff_simps Let_def)
      with s c(1) show "\<exists>r s'. csp_handle (cl_peer cl) [op CHR ''T''] s = Some (r, s') \<and> csp_ready cl s' \<and>
          (case r of Inl e \<Rightarrow> no_exn e | Inr reply \<Rightarrow> \<exists>b. reply = Reply (0 # b) \<and> length b < max_frame \<and>
             (\<exists>c. length c = 56 \<and> b = ascii ''CSTM'' @ [1, 0, 0, 0] @ c))"
        by (simp add: Let_def max_frame_def)
    qed
  qed (simp add: max_frame_def)
  then show ?thesis
    unfolding tp_refreshCspMetrics_def
    by (rule yields_bnd) (auto simp: nth_append numeral_eq_Suc ascii_def intro!: yields_count_up)
qed

lemma keeps_refresh: "keeps replays (tp_refreshCspMetrics cl)"
  unfolding tp_refreshCspMetrics_def
  by (rule keeps_request keeps_rules | simp add: not_fused_def)+

section \<open>The solve\<close>

lemma runs_confidential_optimize:
  assumes "runs E (bb_solve eng config request) (s, {}) (\<lambda>r st. Q r (snd st) (fst st))"
  shows "runs E (confidential_optimize eng config request) s (\<lambda>r s'. \<exists>K. Q r K s')"
  using assms unfolding runs_def confidential_optimize_def
  by (auto split: option.splits sum.splits)

lemma runs_ts_ready:
  assumes "yields (world_ready cl) no_exn m R" "keeps replays m" "ts_ready cl S R0 K w" "\<And>e. \<not> no_exn e \<or> E e"
  shows "runs E m w (\<lambda>a w'. R a \<and> ts_ready cl S R0 K w')"
proof -
  have "runs no_exn m w (\<lambda>a w'. R a \<and> ts_inv cl S R0 K w')"
    by (rule runs_of_yields [OF yields_ts_inv [OF assms(1,2)]]) (use assms(3) in \<open>simp add: ts_ready_def\<close>)
  then have "runs E m w (\<lambda>a w'. R a \<and> ts_inv cl S R0 K w')" by (rule runs_weaken_exn) (simp add: no_exn_def)
  then show ?thesis by (rule runs_weaken) (use assms(3) in \<open>simp add: ts_ready_def\<close>)
qed

lemma runs_get_st: "runs E get_st s (\<lambda>a s'. a = s \<and> s' = s)"
  by (simp add: runs_def eff_simps)

lemma threshold_optimize_runs:
  assumes ready: "ts_ready cl {q_session request} R0 {} w"
    and domain: "threshold_domain (t_domain config) = Inr ()"
    and check: "bb_check (t_domain config) (t_solver config) request = Inr grid"
    and grid: "c_cost_bound (t_solver config) = Lagrangian \<Longrightarrow> requested_size (c_grid (t_solver config)) < 32"
    and costs: "list_all2 (enc_row (ts_enc cl)) (q_costs request) rows" and ok: "\<forall>r\<in>set rows. row_ok r"
    and below: "costs_below (2 ^ max_cost_bits (t_domain config)) rows" and rows: "length rows \<le> 40"
  shows "runs (\<lambda>e. no_exn e \<or> denied (\<exists>ctx. \<not> policy ctx) e) (threshold_optimize policy setting cl config request) w
    (\<lambda>r w'. \<exists>K. ts_ready cl {q_session request} R0 K w' \<and>
       bb_answer (ts_enc cl) (d_scale (t_domain config)) (q_threshold request) rows (fst r))"
  unfolding threshold_optimize_def
proof (rule runs_bndI [OF runs_ts_ready [OF tp_refreshCspMetrics_ok keeps_refresh ready]])
  fix u w1 assume "True \<and> ts_ready cl {q_session request} R0 {} w1"
  then have w1: "ts_ready cl {q_session request} R0 {} w1" by blast
  let ?nd = "t_domain config" and ?E = "\<lambda>e. no_exn e \<or> denied (\<exists>ctx. \<not> policy ctx) e"
  let ?eng = "threshold_engine policy setting cl ?nd"
  have nd: "s_domain (threshold_ops cl setting ?nd) = ?nd" by (simp add: threshold_ops_def)
  have "runs ?E (bb_solve ?eng (t_solver config) request) (w1, {})
      (\<lambda>r st'. ts_ready cl {q_session request} R0 (snd st') (fst st') \<and>
         bb_answer (ts_enc cl) (d_scale ?nd) (q_threshold request) rows r)"
    unfolding threshold_engine_def
  proof (rule ts_env.bb_solve_runs, unfold nd)
    show "bb_fits ?nd (t_solver config) (2 ^ 127) 32" by (rule threshold_domain_fits [OF domain]) (rule grid)
  qed (use w1 check costs ok below tree_nodes_40 [OF rows] in simp_all)
  from runs_confidential_optimize [OF this]
  have solve: "runs ?E (confidential_optimize ?eng (t_solver config) request) w1
      (\<lambda>r w2. \<exists>K. ts_ready cl {q_session request} R0 K w2 \<and>
         bb_answer (ts_enc cl) (d_scale ?nd) (q_threshold request) rows r)" .
  show "runs ?E (bnd get_st (\<lambda>before. bnd (confidential_optimize ?eng (t_solver config) request) (\<lambda>result.
      bnd (tp_refreshCspMetrics cl) (\<lambda>_. bnd get_st (\<lambda>after.
      ret (result, metrics_moved (w_metrics before) (w_metrics after))))))) w1
    (\<lambda>r w'. \<exists>K. ts_ready cl {q_session request} R0 K w' \<and>
       bb_answer (ts_enc cl) (d_scale ?nd) (q_threshold request) rows (fst r))"
  proof (rule runs_bndI [OF runs_get_st], elim conjE, hypsubst, rule runs_bndI [OF solve], elim exE conjE)
    fix before result w2 K
    assume w2: "ts_ready cl {q_session request} R0 K w2"
      and b: "bb_answer (ts_enc cl) (d_scale ?nd) (q_threshold request) rows result"
    show "runs ?E (bnd (tp_refreshCspMetrics cl) (\<lambda>_. bnd get_st (\<lambda>after.
        ret (result, metrics_moved (w_metrics w1) (w_metrics after))))) w2
      (\<lambda>r w'. \<exists>K. ts_ready cl {q_session request} R0 K w' \<and>
         bb_answer (ts_enc cl) (d_scale ?nd) (q_threshold request) rows (fst r))"
      by (rule runs_bndI [OF runs_ts_ready [OF tp_refreshCspMetrics_ok keeps_refresh w2]], simp add: no_exn_def,
          rule runs_bndI [OF runs_get_st], rule runs_ret) (use b in auto)
  qed
qed (simp add: no_exn_def)


section \<open>Deployment\<close>

lemma make_client_linked:
  assumes mode: "mode = 1 \<or> mode = 2" and n: "deployable n" "good_modulus n lam" "lam * mu mod n = 1" "wire_int mu" "2 ^ 262 < n"
    and share: "0 \<le> lam1" "lam1 \<le> lam" "wire_int lam" and p: "en_n p = n" "en_mode p = mode"
    and sdk: "\<And>x. sdk_unseal (pl_sdk pl) (sdk_seal (pl_sdk pl) x) = Some x"
      "length (sdk_seal (pl_sdk pl) (share_blob p 1 bits lam1 mu)) \<le> max_input"
      "length (sdk_seal (pl_sdk pl) (share_blob p 2 bits (lam - lam1) mu)) \<le> max_input"
    and images: "pl_create pl path = Inr 1" "pl_create pl csp_path = Inr 2"
    and files: "pl_files pl (dir @ ''/public.bin'') = Some (mag n)"
      "pl_files pl (dir @ ''/cp.sealed'') = Some (sdk_seal (pl_sdk pl) (share_blob p 1 bits lam1 mu))"
      "pl_files pl (dir @ ''/csp.sealed'') = Some (sdk_seal (pl_sdk pl) (share_blob p 2 bits (lam - lam1) mu))"
    and peer: "\<And>sv. make_service pl csp_path dir mode = Inr sv \<Longrightarrow> pl_connect pl host port = Some sv"
    and key: "pl_rsa pl = Some rsa"
  shows "case encryptionThreadCount (pl_threads pl) of
      Inl e \<Rightarrow> make_client pl path dir host port mode = Inl e \<and> make_service pl csp_path dir mode = Inl e
    | Inr _ \<Rightarrow> \<exists>cl. make_client pl path dir host port mode = Inr cl \<and> linked cl mu"
proof -
  have w: "wire_int n" "4 \<le> mag_size n" using n(1) by (auto intro: wire_int_below [OF n(1)] simp: deployable_def)
  have small: "mag_size x \<le> 2048" if "0 \<le> x" "x \<le> lam" for x
    using that share(3) mag_size_mono [of x lam] by (cases "x = lam") (auto simp: wire_int_def)
  then have ws: "wire_int lam1" "wire_int (lam - lam1)" using share by (simp_all add: wire_int_def)
  have modulus: "loadModulus (mag n) = n" using n(1) be_val_mag [of n] by (simp add: loadModulus_def deployable_def)
  obtain e1 where e1: "initializeEnclave 1 1 mode fresh_enclave = Inr e1" "en_initialized e1" "en_mode e1 = mode" "en_role e1 = 1"
    using initializeEnclave_ok [OF mode, of 1] by blast
  obtain e2 where e2: "initializeEnclave 2 2 mode fresh_enclave = Inr e2" "en_initialized e2" "en_mode e2 = mode" "en_role e2 = 2"
    using initializeEnclave_ok [OF mode, of 2] by blast
  obtain cp where cp: "loadShare (pl_sdk pl) (sdk_seal (pl_sdk pl) (share_blob p 1 bits lam1 mu)) e1 = Inr cp" "holds_key cp mode 1 n lam1 0"
    using load_share_ok [OF e1(2-4) _ sdk(1) p sdk(2) w(1) ws(1) n(4) w(2)] by auto
  obtain csp where csp: "loadShare (pl_sdk pl) (sdk_seal (pl_sdk pl) (share_blob p 2 bits (lam - lam1) mu)) e2 = Inr csp"
    "holds_key csp mode 2 n (lam - lam1) mu"
    using load_share_ok [OF e2(2-4) _ sdk(1) p sdk(3) w(1) ws(2) n(4) w(2)] by auto
  show ?thesis
  proof (cases "encryptionThreadCount (pl_threads pl)")
    case (Inl e)
    then show ?thesis
      by (simp add: make_client_def make_service_def encryption_threads_def createEnclave_def readFile_def images files e2(1) csp(1))
  next
    case threads: (Inr k)
    let ?sv = "\<lparr>sv_enclave = csp, sv_modulus = n, sv_mode = mode, sv_sha = pl_sha pl\<rparr>"
    have sv: "make_service pl csp_path dir mode = Inr ?sv"
      by (simp add: make_service_def createEnclave_def readFile_def images files e2(1) csp(1) modulus threads)
    obtain rn rf rd where rsa: "rsa = (rn, rf, rd)" by (cases rsa)
    let ?cl = "\<lparr>cl_enclave = cp, cl_modulus = n, cl_mode = mode, cl_ot_modulus = rn, cl_ot_public = rf, cl_ot_private = rd,
        cl_sha = pl_sha pl, cl_peer = ?sv\<rparr>"
    have "make_client pl path dir host port mode = Inr ?cl"
      by (simp add: make_client_def encryption_threads_def createEnclave_def readFile_def connectTcp_def images files e1(1) cp(1) modulus threads
          peer [OF sv] key rsa)
    moreover have "key_shares mode n mu cp csp"
      unfolding key_shares_def
      using n(1-3) cp(2) csp(2) share(1,2) by (intro conjI exI [of _ lam1] exI [of _ "lam - lam1"]) simp_all
    ultimately show ?thesis using n(5) threads by (auto simp: linked_def)
  qed
qed

section \<open>Properties\<close>

text \<open>The worlds a solve can start in.\<close>

definition unseen_session :: "string \<Rightarrow> world \<Rightarrow> bool" where
  "unseen_session s w \<longleftrightarrow> (\<forall>ctx. valid_ids ctx \<longrightarrow> session_id ctx = s \<longrightarrow> context_key ctx \<notin> replays w)"

lemma ts_ready_start:
  assumes "linked cl mu" "transfer_ready cl" "world_ready cl w" "unseen_session s w"
  shows "ts_ready cl {s} (replays w) {} w"
  using assms by (auto simp: ts_ready_def ts_inv_def unseen_session_def)

text \<open>C2: The threshold optimizer is exact. On a linked client and server that has answered nothing of the
  session, with an accepted domain, for encrypted non-negative costs of at most 40 rows within the domain,
  with or without fused predicates and in both cost-bound modes, a solve ends; it fails only if the
  policy denies a predicate; otherwise it reports a solution exactly if some assignment is feasible, the
  solution is the plaintext optimum and the returned ciphertexts encrypt its values. The server is ready
  for the next session, and has consumed operations of this session only.\<close>

theorem threshold_optimize_exact:
  assumes "linked cl mu" "transfer_ready cl" "world_ready cl w" "unseen_session (q_session request) w"
    and "threshold_domain (t_domain config) = Inr ()"
    and "bb_check (t_domain config) (t_solver config) request = Inr grid"
    and "c_cost_bound (t_solver config) = Lagrangian \<longrightarrow> requested_size (c_grid (t_solver config)) < 32"
    and "list_all2 (enc_row (ts_enc cl)) (q_costs request) rows" "\<forall>r\<in>set rows. row_ok r"
    and "costs_below (2 ^ max_cost_bits (t_domain config)) rows" "length rows \<le> 40"
  shows "\<exists>r w'. threshold_optimize policy setting cl config request w = Some (r, w') \<and>
    (case r of Inl e \<Rightarrow> e = PredicateError ''predicate evaluation denied'' \<and> (\<exists>ctx. \<not> policy ctx)
     | Inr (b, stats) \<Rightarrow> world_ready cl w' \<and> replays w' \<subseteq> replays w \<union> session_keys {q_session request} \<and>
         bb_answer (ts_enc cl) (d_scale (t_domain config)) (q_threshold request) rows b)"
proof -
  have "runs (\<lambda>e. no_exn e \<or> denied (\<exists>ctx. \<not> policy ctx) e) (threshold_optimize policy setting cl config request) w
    (\<lambda>r w'. \<exists>K. ts_ready cl {q_session request} (replays w) K w' \<and>
       bb_answer (ts_enc cl) (d_scale (t_domain config)) (q_threshold request) rows (fst r))"
    using assms(7) by (intro threshold_optimize_runs [OF ts_ready_start [OF assms(1-4)] assms(5,6) _ assms(8-11)]) simp
  then obtain r w' where r: "threshold_optimize policy setting cl config request w = Some (r, w')"
    "case r of Inl e \<Rightarrow> no_exn e \<or> denied (\<exists>ctx. \<not> policy ctx) e
     | Inr a \<Rightarrow> \<exists>K. ts_ready cl {q_session request} (replays w) K w' \<and>
         bb_answer (ts_enc cl) (d_scale (t_domain config)) (q_threshold request) rows (fst a)"
    unfolding runs_cases by blast
  show ?thesis
    by (rule exI [of _ r], rule exI [of _ w'], use r in
        \<open>auto simp: no_exn_def denied_def ts_ready_def ts_inv_def split: sum.splits\<close>)
qed

text \<open>The rows of theory EncryptedSearch as ciphertext objects of the sample client.\<close>

definition sample_ts_object :: "int \<Rightarrow> cipher" where
  "sample_ts_object m = projr (encodeCanonicalCiphertext 1 (sample_cipher m))"

lemma sample_ts_object: "ts_enc sample_client (sample_ts_object m) m"
proof -
  have c: "is_cipher (cl_modulus sample_client) (sample_cipher m) m"
    using sample_cipher [of m] by (simp add: sample_client_def)
  have "yields (\<lambda>_. True) no_exn (ts_result sample_client (sample_cipher m)) (\<lambda>c. ts_enc sample_client c m)"
    by (rule ts_enc_result [OF sample_linked c])
  from yields_result [OF this TrueI, of sample_world] show ?thesis
    by (cases "encodeCanonicalCiphertext 1 (sample_cipher m)")
       (auto simp: sample_ts_object_def ts_result_def decodeCiphertext_def sample_client_def ret_def throw_def)
qed

definition sample_ts_request :: bb_request where
  "sample_ts_request = \<lparr>q_costs = map (map (map_option sample_ts_object)) sample_rows, q_threshold = 500000,
     q_session = ''demo-1''\<rparr>"

definition sample_threshold_config :: threshold_config where
  "sample_threshold_config = \<lparr>cp_enclave_path = ''cp.so'', key_directory = ''keys'', csp_host = ''localhost'', csp_port = 9000,
     execution_mode = Sim, t_domain = sample_domain, t_solver = sample_config\<rparr>"

lemma sample_ts_nonempty: "sample_ts_object m \<noteq> []"
  using sample_ts_object [of m] by (auto simp: ts_enc_def encodeCiphertext_def)

lemma sample_ts_check: "bb_check sample_domain sample_config sample_ts_request = Inr None"
  by (simp add: bb_check_def bb_check_row_def sample_domain_def sample_config_def sample_ts_request_def
      sample_rows_def sample_ts_nonempty validIdentifier_def isalnum_c_def isdigit_c_def)

lemma sample_threshold_domain: "threshold_domain sample_domain = Inr ()"
  by (simp add: threshold_domain_def sample_domain_def checkedBitSum_def ceilLog2_def bit_count.simps)

lemma sample_unseen: "unseen_session s sample_world"
  using sample_world(1) by (simp add: unseen_session_def world_at_iff)

theorem threshold_optimize_exact_witness:
  "\<exists>r w'. threshold_optimize (\<lambda>_. True) None sample_client sample_threshold_config sample_ts_request sample_world = Some (r, w') \<and>
    (case r of Inl e \<Rightarrow> e = PredicateError ''predicate evaluation denied'' \<and> (\<exists>ctx::predicate_context. \<not> True)
     | Inr (b, stats) \<Rightarrow> world_ready sample_client w' \<and> replays w' \<subseteq> replays sample_world \<union> session_keys {q_session sample_ts_request} \<and>
         bb_answer (ts_enc sample_client) (d_scale (t_domain sample_threshold_config)) (q_threshold sample_ts_request) sample_rows b)"
proof (rule threshold_optimize_exact [OF sample_linked sample_transfer sample_world(2) sample_unseen])
  show "bb_check (t_domain sample_threshold_config) (t_solver sample_threshold_config) sample_ts_request = Inr None"
    using sample_ts_check by (simp add: sample_threshold_config_def)
  show "threshold_domain (t_domain sample_threshold_config) = Inr ()"
    using sample_threshold_domain by (simp add: sample_threshold_config_def)
  show "list_all2 (enc_row (ts_enc sample_client)) (q_costs sample_ts_request) sample_rows"
    by (simp add: sample_ts_request_def sample_rows_def enc_row_def sample_ts_object)
qed (auto simp: sample_threshold_config_def sample_rows_def row_ok_def costs_below_def sample_domain_def sample_config_def)

text \<open>C6: Evaluating a pruning predicate gate by gate and as one garbled circuit give the same answer: for
  every setting of the fusion switch the call ends, reveals the pruning decision of the plaintexts and
  leaves both sides ready.\<close>

theorem fusion_agrees:
  assumes "linked cl mu" "transfer_ready cl" "world_ready cl w" "unseen_session (session_id ctx) w"
    and "valid_ids ctx" "predicate_type ctx = PruneNode" "\<forall>ctx. policy ctx" "replayKey ctx \<notin> used"
    and "prune_values (ts_enc cl) (2 ^ 127) 32 inputs slack lowers incumbent"
  shows "\<exists>w'. pruneNode (threshold_engine policy setting cl nd) ctx inputs (w, used) =
      Some (Inr (slack < 0 \<or> (p_has_incumbent inputs \<and> (\<exists>l\<in>set lowers. incumbent < l))), (w', insert (replayKey ctx) used)) \<and>
    world_ready cl w'"
proof -
  have "ts_ready cl {session_id ctx} (replays w) used w"
    using ts_env.inv_mono [OF ts_ready_start [OF assms(1-4)]] by simp
  then have "runs (ts_env.pexn policy) (pruneNode (threshold_engine policy setting cl nd) ctx inputs) (w, used)
    (\<lambda>r st'. r = prune_decision slack lowers (p_has_incumbent inputs) incumbent \<and>
       ts_ready cl {session_id ctx} (replays w) (snd st') (fst st') \<and> snd st' = insert (replayKey ctx) used)"
    unfolding threshold_engine_def
    using ts_env.pruneNode_runs [OF assms(5,6) _ _ _ assms(9), where st = "(w, used)"] assms(8) by force
  then obtain r st where st: "pruneNode (threshold_engine policy setting cl nd) ctx inputs (w, used) = Some (r, st)"
    "case r of Inl e \<Rightarrow> ts_env.pexn policy e
     | Inr b \<Rightarrow> b = prune_decision slack lowers (p_has_incumbent inputs) incumbent \<and>
         ts_ready cl {session_id ctx} (replays w) (snd st) (fst st) \<and> snd st = insert (replayKey ctx) used"
    unfolding runs_cases by blast
  obtain w' u where "st = (w', u)" by (cases st)
  note r = st [unfolded this fst_conv snd_conv]
  from r assms(7) show ?thesis
    by (auto simp: no_exn_def denied_def prune_decision_def list_ex_iff ts_ready_def ts_inv_def split: sum.splits)
qed

definition sample_ts_prune :: prune_inputs where
  "sample_ts_prune = \<lparr>linear_upper = sample_ts_object 3, cost_lowers = [sample_ts_object 5, sample_ts_object 9],
     p_has_incumbent = True, p_incumbent_cost = sample_ts_object 8\<rparr>"

theorem fusion_agrees_witness:
  "\<exists>w'. pruneNode (threshold_engine (\<lambda>_. True) (Some ''0'') sample_client sample_domain) (sample_context PruneNode)
      sample_ts_prune (sample_world, {}) =
      Some (Inr ((3::int) < 0 \<or> (p_has_incumbent sample_ts_prune \<and> (\<exists>l\<in>set [5, 9]. (8::int) < l))),
        (w', insert (replayKey (sample_context PruneNode)) {})) \<and> world_ready sample_client w'"
proof (rule fusion_agrees [OF sample_linked sample_transfer sample_world(2) sample_unseen sample_context])
  show "prune_values (ts_enc sample_client) (2 ^ 127) 32 sample_ts_prune 3 [5, 9] 8"
    by (simp add: prune_values_def sample_ts_prune_def sample_ts_object)
qed simp_all

text \<open>A domain that the constructor accepts bounds every value that the search sends to the protocol: for
  at most the declared number of rows with costs below the declared bound, the cost and the linear slack
  of every assignment are below \<open>2 ^ 127\<close>, the operand range of the masked operations.\<close>

theorem accepted_domain_bounds:
  assumes "threshold_domain d = Inr ()" "length rows \<le> max_rows d" "\<forall>r\<in>set rows. row_ok r"
    and "costs_below (2 ^ max_cost_bits d) rows" "0 \<le> T" "T < d_scale d" "xs \<in> set (assignments rows)"
  shows "\<bar>sum_by w_cost rows xs\<bar> < 2 ^ 127 \<and> \<bar>sum_by (w_linear (d_scale d) T) rows xs\<bar> < 2 ^ 127"
proof -
  let ?S = "d_scale d"
  note c = threshold_domain_covers [OF assms(1)]
  have f: "2 * (?S * 2 ^ max_cost_bits d) \<le> 2 ^ 127" "int (max_rows d) * (?S * 2 ^ max_cost_bits d) \<le> 2 ^ 127"
    using threshold_domain_fits [OF assms(1), of "\<lparr>c_cost_bound = CurrentSuffix, c_grid = undefined\<rparr>"]
    by (simp_all add: bb_fits_def)
  have range: "\<bar>sum_by w rows xs\<bar> < 2 ^ 127" if "\<And>j x. 0 \<le> x \<Longrightarrow> \<bar>w (Suc j) x\<bar> \<le> ?S * x" for w
  proof -
    have "in_range rows (2 ^ 127) w"
      by (rule in_rangeI [OF assms(3,4) c(1) f assms(2) c(2)]) (use that in simp_all)
    from prefix_range [OF this, of xs] assms(7) assignments_length [OF assms(7)] show ?thesis by simp
  qed
  have "\<bar>w_cost (Suc j) x\<bar> \<le> ?S * x" if "0 \<le> x" for j x
    using that c(1) mult_right_mono [of 1 ?S x] by (simp add: w_cost_def)
  with range [of w_cost] range [of "w_linear ?S T"] linear_abs [OF assms(5,6)] show ?thesis by blast
qed

theorem accepted_domain_bounds_witness:
  "\<bar>sum_by w_cost sample_rows [1, 3]\<bar> < 2 ^ 127 \<and> \<bar>sum_by (w_linear (d_scale sample_domain) 500000) sample_rows [1, 3]\<bar> < 2 ^ 127"
  by (rule accepted_domain_bounds [OF sample_threshold_domain])
     (auto simp: sample_rows_def row_ok_def costs_below_def sample_domain_def)

text \<open>C38: A deployment connects. On enclaves of the two roles, the sealed shares and the public modulus of one
  key, with a server started from the same files, the constructor of the client succeeds and gives a
  client linked to the server, as the other properties of the protocol require, whenever
  \<open>SOCI_THRESHOLD_ENCRYPT_THREADS\<close> is unset, empty or read as 1 to 16; with any other setting
  neither the client nor the server starts, and both report it.\<close>

theorem deployed_client_linked:
  assumes "mode = 1 \<or> mode = 2" "deployable n" "good_modulus n lam" "lam * mu mod n = 1" "wire_int mu" "2 ^ 262 < n"
    and "0 \<le> lam1" "lam1 \<le> lam" "wire_int lam" "en_n p = n" "en_mode p = mode"
    and "\<And>x. sdk_unseal (pl_sdk pl) (sdk_seal (pl_sdk pl) x) = Some x"
    and "length (sdk_seal (pl_sdk pl) (share_blob p 1 bits lam1 mu)) \<le> max_input"
    and "length (sdk_seal (pl_sdk pl) (share_blob p 2 bits (lam - lam1) mu)) \<le> max_input"
    and "pl_create pl path = Inr 1" "pl_create pl csp_path = Inr 2"
    and "pl_files pl (dir @ ''/public.bin'') = Some (mag n)"
    and "pl_files pl (dir @ ''/cp.sealed'') = Some (sdk_seal (pl_sdk pl) (share_blob p 1 bits lam1 mu))"
    and "pl_files pl (dir @ ''/csp.sealed'') = Some (sdk_seal (pl_sdk pl) (share_blob p 2 bits (lam - lam1) mu))"
    and "\<And>sv. make_service pl csp_path dir mode = Inr sv \<Longrightarrow> pl_connect pl host port = Some sv"
    and "pl_rsa pl = Some rsa"
  shows "case encryptionThreadCount (pl_threads pl) of
      Inl e \<Rightarrow> make_client pl path dir host port mode = Inl e \<and> make_service pl csp_path dir mode = Inl e
    | Inr _ \<Rightarrow> \<exists>cl. make_client pl path dir host port mode = Inr cl \<and> linked cl mu"
  using assms by (rule make_client_linked)

definition sample_platform :: "string option \<Rightarrow> platform" where
  "sample_platform threads = \<lparr>pl_create = (\<lambda>path. Inr (if path = ''csp.so'' then 2 else 1)), pl_sdk = sample_sdk,
     pl_files = (\<lambda>path. if path = ''keys/public.bin'' then Some (mag sample_n)
       else if path = ''keys/cp.sealed'' then Some (sample_share 1)
       else if path = ''keys/csp.sealed'' then Some (sample_share 2) else None),
     pl_connect = (\<lambda>host port. None), pl_rsa = Some (transfer_n, rsa_f4, transfer_d), pl_sha = sample_hash,
     pl_threads = threads\<rparr>"

definition sample_network :: "string option \<Rightarrow> platform" where
  "sample_network threads = (sample_platform threads)\<lparr>pl_connect := (\<lambda>host port.
     case make_service (sample_platform threads) ''csp.so'' ''keys'' 1 of Inl e \<Rightarrow> None | Inr sv \<Rightarrow> Some sv)\<rparr>"

lemma make_service_network: "make_service (pl\<lparr>pl_connect := f\<rparr>) path dir mode = make_service pl path dir mode"
  by (simp add: make_service_def createEnclave_def readFile_def)

lemma sample_network_threads: "pl_threads (sample_network threads) = threads"
  by (simp add: sample_network_def sample_platform_def)

lemma sample_threads:
  "encryptionThreadCount None = Inr 4" "encryptionThreadCount (Some '' +8'') = Inr 8"
  "encryptionThreadCount (Some ''-18446744073709551615'') = Inr 1"
  "encryptionThreadCount (Some ''17'') = Inl (StdRuntimeError ''SOCI_THRESHOLD_ENCRYPT_THREADS must be 1..16'')"
  by (simp_all add: encryptionThreadCount_def strtoul_def isspace_c_def isdigit_c_def digits_val_def)

theorem deployed_client_linked_witness:
  "(\<exists>cl. make_client (sample_network (Some '' +8'')) ''cp.so'' ''keys'' ''localhost'' 9000 1 = Inr cl \<and>
     linked cl (sk_mu (k_sec sample_key))) \<and>
   make_client (sample_network (Some ''17'')) ''cp.so'' ''keys'' ''localhost'' 9000 1 =
     Inl (StdRuntimeError ''SOCI_THRESHOLD_ENCRYPT_THREADS must be 1..16'')"
proof -
  have "case encryptionThreadCount (pl_threads (sample_network threads)) of
      Inl e \<Rightarrow> make_client (sample_network threads) ''cp.so'' ''keys'' ''localhost'' 9000 1 = Inl e \<and>
        make_service (sample_network threads) ''csp.so'' ''keys'' 1 = Inl e
    | Inr _ \<Rightarrow> \<exists>cl. make_client (sample_network threads) ''cp.so'' ''keys'' ''localhost'' 9000 1 = Inr cl \<and>
        linked cl (sk_mu (k_sec sample_key))" for threads
  proof (rule deployed_client_linked [OF _ sample_deployable sample_secrets(1,2,4) _ _ _ sample_secrets(3)])
    show "(1::8 word) = 1 \<or> (1::8 word) = 2" by simp
    show "2 ^ 262 < sample_n" "(0::int) \<le> 12345" "12345 \<le> sk_lambda (k_sec sample_key)"
      by (simp_all add: sample_n_def sample_key_def)
    show "en_n (sample_enclave 0 0 0) = sample_n" "en_mode (sample_enclave 0 0 0) = 1" by (simp_all add: sample_enclave_def)
    show "sdk_unseal (pl_sdk (sample_network threads)) (sdk_seal (pl_sdk (sample_network threads)) x) = Some x" for x
      by (simp add: sample_network_def sample_platform_def sample_sdk_def)
    show "length (sdk_seal (pl_sdk (sample_network threads)) (share_blob (sample_enclave 0 0 0) 1 3072 12345 (sk_mu (k_sec sample_key)))) \<le> max_input"
      using sample_share_length [of 1] by (simp add: sample_share_def sample_network_def sample_platform_def)
    show "length (sdk_seal (pl_sdk (sample_network threads)) (share_blob (sample_enclave 0 0 0) 2 3072 (sk_lambda (k_sec sample_key) - 12345) (sk_mu (k_sec sample_key)))) \<le> max_input"
      using sample_share_length [of 2] by (simp add: sample_share_def sample_network_def sample_platform_def)
    show "pl_create (sample_network threads) ''cp.so'' = Inr 1" "pl_create (sample_network threads) ''csp.so'' = Inr 2"
      "pl_files (sample_network threads) (''keys'' @ ''/public.bin'') = Some (mag sample_n)"
      "pl_files (sample_network threads) (''keys'' @ ''/cp.sealed'') =
        Some (sdk_seal (pl_sdk (sample_network threads)) (share_blob (sample_enclave 0 0 0) 1 3072 12345 (sk_mu (k_sec sample_key))))"
      "pl_files (sample_network threads) (''keys'' @ ''/csp.sealed'') =
        Some (sdk_seal (pl_sdk (sample_network threads)) (share_blob (sample_enclave 0 0 0) 2 3072 (sk_lambda (k_sec sample_key) - 12345) (sk_mu (k_sec sample_key))))"
      "pl_rsa (sample_network threads) = Some (transfer_n, rsa_f4, transfer_d)"
      by (simp_all add: sample_network_def sample_platform_def sample_share_def)
    fix sv assume "make_service (sample_network threads) ''csp.so'' ''keys'' 1 = Inr sv"
    then show "pl_connect (sample_network threads) ''localhost'' 9000 = Some sv"
      by (simp add: sample_network_def make_service_network)
  qed
  from this [of "Some '' +8''"] this [of "Some ''17''"] show ?thesis
    by (simp add: sample_network_threads sample_threads)
qed

end
