(* ===== verification/CountedOps.thy ===== *)
theory CountedOps
  imports SecureOps
begin

text \<open>
  The counted facade of the secure operations that the confidential genetic optimizer uses
  (\<open>CountedOps\<close> in src/confidential_scalable_optimizer.cpp): every operation adds its public cost to a
  record of counters and calls the backend; long batches are split into chunks of 32. The state is
  that of the backend with the counters. In the locale \<open>batched_ops\<close>, the contract of a backend whose
  batches may hold 32 items, the counted operations are proved to compute what they are named after.
\<close>

section \<open>Counters\<close>

record op_counts =
  oc_encrypt_constant :: "64 word"
  oc_add :: "64 word"
  oc_scalar_mul :: "64 word"
  oc_secure_mul :: "64 word"
  oc_secure_compare :: "64 word"
  oc_secure_select :: "64 word"
  oc_secure_mul_dispatches :: "64 word"
  oc_secure_compare_dispatches :: "64 word"

definition no_counts :: op_counts where
  "no_counts = \<lparr>oc_encrypt_constant = 0, oc_add = 0, oc_scalar_mul = 0, oc_secure_mul = 0, oc_secure_compare = 0,
     oc_secure_select = 0, oc_secure_mul_dispatches = 0, oc_secure_compare_dispatches = 0\<rparr>"

definition tally :: "(op_counts \<Rightarrow> op_counts) \<Rightarrow> ('s \<times> op_counts, unit) eff" where
  "tally f = upd_st (apsnd f)"

definition via :: "('s, 'a) eff \<Rightarrow> ('s \<times> op_counts, 'a) eff" where
  "via m = zoom fst apfst m"

abbreviation one_more :: "64 word \<Rightarrow> 64 word" where
  "one_more x \<equiv> x + 1"

section \<open>The operations\<close>

definition c_constant :: "'s sops \<Rightarrow> int \<Rightarrow> ('s \<times> op_counts, cipher) eff" where
  "c_constant ops v = bnd (tally (oc_encrypt_constant_update one_more)) (\<lambda>_. via (encryptConstant ops v))"

definition c_add :: "'s sops \<Rightarrow> cipher \<Rightarrow> cipher \<Rightarrow> ('s \<times> op_counts, cipher) eff" where
  "c_add ops a b = bnd (tally (oc_add_update one_more)) (\<lambda>_. via (s_add ops a b))"

definition c_scalar :: "'s sops \<Rightarrow> cipher \<Rightarrow> int \<Rightarrow> ('s \<times> op_counts, cipher) eff" where
  "c_scalar ops a v = bnd (tally (oc_scalar_mul_update one_more)) (\<lambda>_. via (scalarMul ops a v))"

definition c_sub :: "'s sops \<Rightarrow> cipher \<Rightarrow> cipher \<Rightarrow> ('s \<times> op_counts, cipher) eff" where
  "c_sub ops a b = bnd (c_scalar ops b (- 1)) (\<lambda>nb. c_add ops a nb)"

definition count_mul :: "op_counts \<Rightarrow> op_counts" where
  "count_mul c = c\<lparr>oc_secure_mul := oc_secure_mul c + 1, oc_secure_mul_dispatches := oc_secure_mul_dispatches c + 1\<rparr>"

definition c_mul :: "'s sops \<Rightarrow> cipher \<Rightarrow> cipher \<Rightarrow> ('s \<times> op_counts, cipher) eff" where
  "c_mul ops a b = bnd (tally count_mul) (\<lambda>_. via (secureMul ops a b))"

function chunks32 :: "'a list \<Rightarrow> 'a list list" where
  "chunks32 items = (if items = [] then [] else take 32 items # chunks32 (drop 32 items))"
  by pat_completeness auto
termination by (relation "measure length") auto

declare chunks32.simps [simp del]

definition c_mulBatch :: "'s sops \<Rightarrow> (cipher \<times> cipher) list \<Rightarrow> ('s \<times> op_counts, cipher list) eff" where
  "c_mulBatch ops items =
     bnd (tally (oc_secure_mul_update (\<lambda>x. x + of_nat (length items)))) (\<lambda>_.
     bnd (mapM (\<lambda>chunk. bnd (tally (oc_secure_mul_dispatches_update one_more)) (\<lambda>_. via (secureMulBatch ops chunk)))
       (chunks32 items)) (\<lambda>outs. ret (concat outs)))"

definition c_greater :: "'s sops \<Rightarrow> cipher \<Rightarrow> cipher \<Rightarrow> ('s \<times> op_counts, encrypted_bit) eff" where
  "c_greater ops a b =
     bnd (tally (\<lambda>c. c\<lparr>oc_secure_compare := oc_secure_compare c + 1,
       oc_secure_compare_dispatches := oc_secure_compare_dispatches c + 1\<rparr>)) (\<lambda>_. via (greaterThan ops a b))"

definition c_greaterBatch :: "'s sops \<Rightarrow> (cipher \<times> cipher) list \<Rightarrow> ('s \<times> op_counts, encrypted_bit list) eff" where
  "c_greaterBatch ops items =
     bnd (tally (oc_secure_compare_update (\<lambda>x. x + of_nat (length items)))) (\<lambda>_.
     bnd (mapM (\<lambda>chunk. bnd (tally (oc_secure_compare_dispatches_update one_more)) (\<lambda>_. via (greaterThanBatch ops chunk)))
       (chunks32 items)) (\<lambda>outs. ret (concat outs)))"

definition c_less :: "'s sops \<Rightarrow> cipher \<Rightarrow> cipher \<Rightarrow> ('s \<times> op_counts, encrypted_bit) eff" where
  "c_less ops a b = c_greater ops b a"

definition c_notBit :: "'s sops \<Rightarrow> encrypted_bit \<Rightarrow> ('s \<times> op_counts, encrypted_bit) eff" where
  "c_notBit ops b =
     bnd (tally (\<lambda>c. c\<lparr>oc_encrypt_constant := oc_encrypt_constant c + 1, oc_scalar_mul := oc_scalar_mul c + 1,
       oc_add := oc_add c + 1\<rparr>)) (\<lambda>_. via (bitNot ops b))"

definition c_andBit :: "'s sops \<Rightarrow> encrypted_bit \<Rightarrow> encrypted_bit \<Rightarrow> ('s \<times> op_counts, encrypted_bit) eff" where
  "c_andBit ops a b = bnd (tally count_mul) (\<lambda>_. via (bitAnd ops a b))"

definition c_orBit :: "'s sops \<Rightarrow> encrypted_bit \<Rightarrow> encrypted_bit \<Rightarrow> ('s \<times> op_counts, encrypted_bit) eff" where
  "c_orBit ops a b =
     bnd (tally (\<lambda>c. (count_mul c)\<lparr>oc_scalar_mul := oc_scalar_mul c + 1, oc_add := oc_add c + 2\<rparr>)) (\<lambda>_.
     via (bitOr ops a b))"

definition c_orBitExclusive :: "'s sops \<Rightarrow> encrypted_bit \<Rightarrow> encrypted_bit \<Rightarrow> ('s \<times> op_counts, encrypted_bit) eff" where
  "c_orBitExclusive ops a b = bnd (tally (oc_add_update one_more)) (\<lambda>_. via (bitOrExclusive ops a b))"

definition c_select :: "'s sops \<Rightarrow> encrypted_bit \<Rightarrow> cipher \<Rightarrow> cipher \<Rightarrow> ('s \<times> op_counts, cipher) eff" where
  "c_select ops condition yes no =
     bnd (tally (\<lambda>c. (count_mul c)\<lparr>oc_secure_select := oc_secure_select c + 1, oc_scalar_mul := oc_scalar_mul c + 1,
       oc_add := oc_add c + 2\<rparr>)) (\<lambda>_. via (s_select ops condition yes no))"

definition c_selectBatch ::
  "'s sops \<Rightarrow> encrypted_bit \<Rightarrow> (cipher \<times> cipher) list \<Rightarrow> ('s \<times> op_counts, cipher list) eff" where
  "c_selectBatch ops condition values =
     bnd (tally (oc_secure_select_update (\<lambda>x. x + of_nat (length values)))) (\<lambda>_.
     bnd (mapM (\<lambda>v. bnd (c_sub ops (fst v) (snd v)) (\<lambda>d. ret (ciphertext condition, d))) values) (\<lambda>products.
     bnd (c_mulBatch ops products) (\<lambda>products_out.
     mapM (\<lambda>(v, p). c_add ops (snd v) p) (zip values products_out))))"

section \<open>Chunks\<close>

lemma chunks32_concat: "concat (chunks32 xs) = xs"
  by (induction xs rule: chunks32.induct) (subst chunks32.simps, simp)

lemma chunks32_sizes: "c \<in> set (chunks32 xs) \<Longrightarrow> c \<noteq> [] \<and> length c \<le> 32"
  by (induction xs rule: chunks32.induct) (subst (asm) (2) chunks32.simps, auto split: if_splits)

lemma chunks32_all2: "list_all2 R xs ys \<Longrightarrow> list_all2 (list_all2 R) (chunks32 xs) (chunks32 ys)"
proof (induction xs arbitrary: ys rule: chunks32.induct)
  case (1 xs)
  show ?case
  proof (cases "xs = []")
    case True
    with 1(2) show ?thesis by (simp add: chunks32.simps)
  next
    case False
    with 1(2) have "ys \<noteq> []" by auto
    with False 1 show ?thesis
      by (subst chunks32.simps, subst (2) chunks32.simps) (simp add: list_all2_takeI list_all2_dropI)
  qed
qed

lemma list_all2_concat: "list_all2 (list_all2 R) xss yss \<Longrightarrow> list_all2 R (concat xss) (concat yss)"
  by (induction rule: list_all2_induct) (simp_all add: list_all2_appendI)

section \<open>The counted operations are the operations\<close>

locale batched_ops = secure_ops +
  assumes batch32: "32 \<le> max_batch"

text \<open>Counting does not touch the backend.\<close>

lemma yields_tally: "yields (\<lambda>st. I (fst st)) E (tally f) (\<lambda>_. True)"
  by (simp add: yields_def tally_def eff_simps)

lemma yields_via: "yields I E m R \<Longrightarrow> yields (\<lambda>st. I (fst st)) E (via m) R"
  unfolding via_def by (rule yields_zoom) auto

lemma yields_counted: "yields I E m R \<Longrightarrow> yields (\<lambda>st. I (fst st)) E (bnd (tally f) (\<lambda>_. via m)) R"
  by (rule yields_bnd [OF yields_tally]) (rule yields_via)

context batched_ops
begin

abbreviation "cinv st \<equiv> inv (fst st)"

lemma c_constant_ok: "yields cinv E (c_constant ops v) (\<lambda>c. enc c v)"
  unfolding c_constant_def by (rule yields_counted [OF encryptConstant_law])

lemma c_add_ok: "enc a x \<Longrightarrow> enc b y \<Longrightarrow> yields cinv E (c_add ops a b) (\<lambda>c. enc c (x + y))"
  unfolding c_add_def by (rule yields_counted [OF add_law])

lemma c_scalar_ok: "enc a x \<Longrightarrow> yields cinv E (c_scalar ops a k) (\<lambda>c. enc c (k * x))"
  unfolding c_scalar_def by (rule yields_counted [OF scalarMul_law])

lemma c_sub_ok: "enc a x \<Longrightarrow> enc b y \<Longrightarrow> yields cinv E (c_sub ops a b) (\<lambda>c. enc c (x - y))"
  unfolding c_sub_def
  by (rule yields_bnd [OF c_scalar_ok], assumption) (use c_add_ok in fastforce)

lemma c_mul_ok: "operands enc bound (a, b) (x, y) \<Longrightarrow> yields cinv E (c_mul ops a b) (\<lambda>c. enc c (x * y))"
  unfolding c_mul_def by (rule yields_counted [OF secureMul_law])

lemma c_greater_ok:
  "operands enc bound (a, b) (x, y) \<Longrightarrow> yields cinv E (c_greater ops a b) (\<lambda>c. enc_bit enc c (x > y))"
  unfolding c_greater_def by (rule yields_counted [OF greaterThan_law])

lemma c_less_ok: "operands enc bound (a, b) (x, y) \<Longrightarrow> yields cinv E (c_less ops a b) (\<lambda>c. enc_bit enc c (x < y))"
  unfolding c_less_def by (rule c_greater_ok) (simp add: operands_def)

lemma c_notBit_ok: "enc_bit enc a p \<Longrightarrow> yields cinv E (c_notBit ops a) (\<lambda>c. enc_bit enc c (\<not> p))"
  unfolding c_notBit_def by (rule yields_counted [OF bitNot_ok])

lemma c_andBit_ok:
  "enc_bit enc a p \<Longrightarrow> enc_bit enc b q \<Longrightarrow> yields cinv E (c_andBit ops a b) (\<lambda>c. enc_bit enc c (p \<and> q))"
  unfolding c_andBit_def by (rule yields_counted [OF bitAnd_ok])

lemma c_orBit_ok:
  "enc_bit enc a p \<Longrightarrow> enc_bit enc b q \<Longrightarrow> yields cinv E (c_orBit ops a b) (\<lambda>c. enc_bit enc c (p \<or> q))"
  unfolding c_orBit_def by (rule yields_counted [OF bitOr_ok])

lemma c_orBitExclusive_ok:
  "enc_bit enc a p \<Longrightarrow> enc_bit enc b q \<Longrightarrow> \<not> (p \<and> q) \<Longrightarrow>
     yields cinv E (c_orBitExclusive ops a b) (\<lambda>c. enc_bit enc c (p \<or> q))"
  unfolding c_orBitExclusive_def by (rule yields_counted [OF bitOrExclusive_ok])

lemma c_select_ok:
  "enc_bit enc c p \<Longrightarrow> enc a x \<Longrightarrow> enc b y \<Longrightarrow> \<bar>x - y\<bar> < bound \<Longrightarrow>
     yields cinv E (c_select ops c a b) (\<lambda>d. enc d (if p then x else y))"
  unfolding c_select_def by (rule yields_counted [OF select_ok])

text \<open>Batches of any length.\<close>

lemma chunked_ok:
  assumes "list_all2 (operands enc bound) items vs"
    and f: "\<And>chunk us. chunk \<noteq> [] \<Longrightarrow> length chunk \<le> max_batch \<Longrightarrow> list_all2 (operands enc bound) chunk us \<Longrightarrow>
      yields inv E (f chunk) (list_all2 R us)"
  shows "yields cinv E (bnd (tally g) (\<lambda>_. bnd (mapM (\<lambda>chunk. bnd (tally h) (\<lambda>_. via (f chunk))) (chunks32 items))
    (\<lambda>outs. ret (concat outs)))) (list_all2 R vs)"
proof (rule yields_bnd [OF yields_tally])
  have "list_all2 (\<lambda>chunk us. chunk \<noteq> [] \<and> length chunk \<le> max_batch \<and> list_all2 (operands enc bound) chunk us)
      (chunks32 items) (chunks32 vs)"
    unfolding list_all2_conv_all_nth [of _ "chunks32 items"]
  proof (intro conjI allI impI)
    note all = chunks32_all2 [OF assms(1)]
    show "length (chunks32 items) = length (chunks32 vs)" by (rule list_all2_lengthD [OF all])
    fix i assume i: "i < length (chunks32 items)"
    show "list_all2 (operands enc bound) (chunks32 items ! i) (chunks32 vs ! i)" by (rule list_all2_nthD [OF all i])
    show "chunks32 items ! i \<noteq> []" "length (chunks32 items ! i) \<le> max_batch"
      using chunks32_sizes [OF nth_mem [OF i]] batch32 by linarith+
  qed
  then have "yields cinv E (mapM (\<lambda>chunk. bnd (tally h) (\<lambda>_. via (f chunk))) (chunks32 items))
      (list_all2 (\<lambda>us out. list_all2 R us out) (chunks32 vs))"
    by (rule yields_mapM_values) (use yields_counted [OF f] in blast)
  then show "yields cinv E (bnd (mapM (\<lambda>chunk. bnd (tally h) (\<lambda>_. via (f chunk))) (chunks32 items))
      (\<lambda>outs. ret (concat outs))) (list_all2 R vs)"
    by (rule yields_bnd) (rule yields_ret, use list_all2_concat [where R = R] in \<open>metis chunks32_concat\<close>)
qed

lemma c_mulBatch_ok:
  "list_all2 (operands enc bound) items vs \<Longrightarrow>
     yields cinv E (c_mulBatch ops items) (list_all2 (\<lambda>v c. enc c (fst v * snd v)) vs)"
  unfolding c_mulBatch_def by (rule chunked_ok, assumption, rule secureMulBatch_law)

lemma c_greaterBatch_ok:
  "list_all2 (operands enc bound) items vs \<Longrightarrow>
     yields cinv E (c_greaterBatch ops items) (list_all2 (\<lambda>v c. enc_bit enc c (fst v > snd v)) vs)"
  unfolding c_greaterBatch_def by (rule chunked_ok, assumption, rule greaterThanBatch_law)

lemma c_selectBatch_ok:
  assumes c: "enc_bit enc c p"
    and v: "list_all2 (\<lambda>i v. enc (fst i) (fst v) \<and> enc (snd i) (snd v) \<and> \<bar>fst v - snd v\<bar> < bound) values vs"
  shows "yields cinv E (c_selectBatch ops c values) (list_all2 (\<lambda>v d. enc d (if p then fst v else snd v)) vs)"
  unfolding c_selectBatch_def
proof (rule yields_bnd [OF yields_tally])
  have "yields cinv E (mapM (\<lambda>v. bnd (c_sub ops (fst v) (snd v)) (\<lambda>d. ret (ciphertext c, d))) values)
      (list_all2 (\<lambda>v it. operands enc bound it (b2i p, fst v - snd v)) vs)"
    using v
  proof (rule yields_mapM_values)
    fix i :: "cipher \<times> cipher" and v :: "int \<times> int"
    assume a: "enc (fst i) (fst v) \<and> enc (snd i) (snd v) \<and> \<bar>fst v - snd v\<bar> < bound"
    show "yields cinv E (bnd (c_sub ops (fst i) (snd i)) (\<lambda>d. ret (ciphertext c, d)))
        (\<lambda>it. operands enc bound it (b2i p, fst v - snd v))"
      by (rule yields_bnd [OF c_sub_ok], (use a in blast)+, rule yields_ret)
         (use a c bound_gt in \<open>auto simp: operands_def enc_bit_def\<close>)
  qed
  then show "yields cinv E (bnd (mapM (\<lambda>v. bnd (c_sub ops (fst v) (snd v)) (\<lambda>d. ret (ciphertext c, d))) values) (\<lambda>products.
      bnd (c_mulBatch ops products) (\<lambda>products_out. mapM (\<lambda>(v, p). c_add ops (snd v) p) (zip values products_out))))
      (list_all2 (\<lambda>v d. enc d (if p then fst v else snd v)) vs)"
  proof (rule yields_bnd)
    fix products assume "list_all2 (\<lambda>v it. operands enc bound it (b2i p, fst v - snd v)) vs products"
    then have o: "list_all2 (operands enc bound) products (map (\<lambda>v. (b2i p, fst v - snd v)) vs)"
      by (simp add: list_all2_conv_all_nth)
    show "yields cinv E (bnd (c_mulBatch ops products) (\<lambda>products_out. mapM (\<lambda>(v, p). c_add ops (snd v) p) (zip values products_out)))
        (list_all2 (\<lambda>v d. enc d (if p then fst v else snd v)) vs)"
    proof (rule yields_bnd [OF c_mulBatch_ok [OF o]])
      fix out assume "list_all2 (\<lambda>v c. enc c (fst v * snd v)) (map (\<lambda>v. (b2i p, fst v - snd v)) vs) out"
      then have "list_all2 (\<lambda>x v. enc (snd (fst x)) (snd v) \<and> enc (snd x) (b2i p * (fst v - snd v))) (zip values out) vs"
        using v by (auto simp: list_all2_conv_all_nth)
      then show "yields cinv E (mapM (\<lambda>(v, p). c_add ops (snd v) p) (zip values out))
          (list_all2 (\<lambda>v d. enc d (if p then fst v else snd v)) vs)"
      proof (rule yields_mapM_values)
        fix x :: "(cipher \<times> cipher) \<times> cipher" and v :: "int \<times> int"
        assume a: "enc (snd (fst x)) (snd v) \<and> enc (snd x) (b2i p * (fst v - snd v))"
        have "snd v + b2i p * (fst v - snd v) = (if p then fst v else snd v)" by simp
        with c_add_ok [OF conjunct1 [OF a] conjunct2 [OF a]]
        show "yields cinv E (case x of (v, p) \<Rightarrow> c_add ops (snd v) p) (\<lambda>d. enc d (if p then fst v else snd v))"
          by (simp only: case_prod_beta)
      qed
    qed
  qed
qed

end

end
