(* ===== verification/RandomEngine.thy ===== *)
theory RandomEngine
  imports Randomness Complex_Main
begin

text \<open>
  What the genetic optimizers use of the header <random> and of the floating-point types. The engine
  \<open>std::mt19937_64\<close> is the generator that the C++ standard fixes (its 10000th value for the default
  seed 5489 is 9981545532273789042); a draw is an index into its sequence. \<open>std::generate_canonical\<close>
  with 53 bits, and \<open>std::uniform_real_distribution\<close> on [0, 1), are those of libstdc++: one draw,
  rounded to a double and scaled. A \<open>double\<close> in [0, 1] and a \<open>long double\<close> are rational numbers; the
  x87 \<open>long double\<close> has 64 significant bits, and its range is never left.
\<close>

section \<open>The engine\<close>

definition mt_next_seed :: "nat \<Rightarrow> 64 word \<Rightarrow> 64 word" where
  "mt_next_seed i x = 6364136223846793005 * xor x (drop_bit 62 x) + of_nat i"

primrec mt_seeded :: "nat \<Rightarrow> nat \<Rightarrow> 64 word \<Rightarrow> 64 word list" where
  "mt_seeded 0 i x = []"
| "mt_seeded (Suc n) i x = x # mt_seeded n (Suc i) (mt_next_seed i x)"

definition mt_state :: "64 word \<Rightarrow> 64 word list" where
  "mt_state seed = mt_seeded 312 1 seed"

text \<open>The state is the window of the last 312 values; a step appends the next one.\<close>

definition mt_twist :: "64 word \<Rightarrow> 64 word \<Rightarrow> 64 word" where
  "mt_twist x y = (let z = or (and x 0xFFFFFFFF80000000) (and y 0x7FFFFFFF) in
     xor (drop_bit 1 z) (if bit z 0 then 0xB5026F5AA96619E9 else 0))"

definition mt_step :: "64 word list \<Rightarrow> 64 word list" where
  "mt_step xs = tl xs @ [xor (xs ! 156) (mt_twist (xs ! 0) (xs ! 1))]"

definition mt_temper :: "64 word \<Rightarrow> 64 word" where
  "mt_temper x0 =
     (let x1 = xor x0 (and (drop_bit 29 x0) 0x5555555555555555);
          x2 = xor x1 (and (push_bit 17 x1) 0x71D67FFFEDA60000);
          x3 = xor x2 (and (push_bit 37 x2) 0xFFF7EEE000000000)
      in xor x3 (drop_bit 43 x3))"

definition mt19937_64 :: "64 word \<Rightarrow> nat \<Rightarrow> 64 word" where
  "mt19937_64 seed k = mt_temper (last ((mt_step ^^ Suc k) (mt_state seed)))"

section \<open>Rounding\<close>

text \<open>Rounding to \<open>p\<close> significant bits, to nearest and ties to even.\<close>

definition round_bits :: "nat \<Rightarrow> nat \<Rightarrow> nat" where
  "round_bits p x =
     (let e = bit_size_nat x - p; q = x div 2 ^ e; r = x mod 2 ^ e in
      if e = 0 then x
      else (if 2 * r > 2 ^ e \<or> (2 * r = 2 ^ e \<and> odd q) then q + 1 else q) * 2 ^ e)"

definition generate_canonical :: "64 word \<Rightarrow> rat" where
  "generate_canonical x =
     (let v = round_bits 53 (unat x) in
      if v \<ge> 2 ^ 64 then 1 - 1 / 2 ^ 53 else of_nat v / 2 ^ 64)"

text \<open>The nearest \<open>long double\<close>.\<close>

definition round_div :: "nat \<Rightarrow> nat \<Rightarrow> nat" where
  "round_div n d = (let q = n div d; r = n mod d in
     if 2 * r > d \<or> (2 * r = d \<and> odd q) then q + 1 else q)"

definition scaled_div :: "nat \<Rightarrow> nat \<Rightarrow> int \<Rightarrow> nat" where
  "scaled_div n d e = (if e \<ge> 0 then round_div n (d * 2 ^ nat e) else round_div (n * 2 ^ nat (- e)) d)"

definition power2 :: "int \<Rightarrow> rat" where
  "power2 e = (if e \<ge> 0 then 2 ^ nat e else 1 / 2 ^ nat (- e))"

definition long_double :: "rat \<Rightarrow> rat" where
  "long_double x =
     (let (n, d) = quotient_of \<bar>x\<bar>; n' = nat n; d' = nat d;
          e = int (bit_size_nat n') - int (bit_size_nat d') - 64;
          e' = (if n' * 2 ^ nat (- e) div (d' * 2 ^ nat e) \<ge> 2 ^ 64 then e + 1 else e)
      in (if x < 0 then - 1 else 1) * (of_nat (scaled_div n' d' e') * power2 e'))"

section \<open>Facts\<close>

lemma generate_canonical_range: "0 \<le> generate_canonical x \<and> generate_canonical x < 1"
  by (simp add: generate_canonical_def Let_def not_le)

end
