(* ===== verification/Pega.thy ===== *)
theory Pega
  imports CountedOps EncryptedBB RandomEngine
begin

text \<open>
  The confidential genetic optimizer (src/confidential_scalable_optimizer.cpp): individuals are
  encrypted chromosomes with their encrypted sums; ranking, selection of elites and winners, and
  repair are computed on ciphertexts, and no bit is ever revealed. The operations are the counted ones of theory
  CountedOps. \<open>Pega\<close>'s members are the record \<open>pega\<close>; the engine is the sequence of its
  draws \<open>mt\<close> with the index of the next one, which every function that draws returns. The caches of
  an individual, which the code mutates through constant references, are returned with it. Where C++ leaves
  the order of two calls in one expression open, the left one is made first. The rates are the rational values of the
  doubles. \<open>modelEstimate\<close> extrapolates the counters and times of a run to larger ones.
\<close>

section \<open>Configuration, individuals and the optimizer's constants\<close>

record pega_config =
  p_population :: nat
  p_generations :: nat
  p_elitism :: nat
  p_tournament_size :: nat
  p_repair_rounds :: nat
  p_crossover_rate :: rat
  p_mutation_rate :: rat
  p_infeasible_penalty :: int
  p_seed :: "64 word"

record individual =
  i_genes :: "cipher list list"
  i_row_cost :: "cipher list"
  i_row_linear :: "cipher list"
  i_row_c12 :: "cipher list"
  i_row_c3 :: "cipher list"
  i_total :: cipher
  i_c12 :: cipher
  i_c3 :: cipher
  i_linear :: cipher
  i_feasible :: "encrypted_bit option"
  i_fitness :: "cipher option"

definition new_individual :: "cipher list list \<Rightarrow> individual" where
  "new_individual genes = \<lparr>i_genes = genes, i_row_cost = [], i_row_linear = [], i_row_c12 = [], i_row_c3 = [],
     i_total = [], i_c12 = [], i_c3 = [], i_linear = [], i_feasible = None, i_fitness = None\<rparr>"

record pega =
  g_config :: pega_config
  g_request :: bb_request
  g_zero :: cipher
  g_one :: cipher
  g_positive :: cipher
  g_negative :: cipher
  g_scale :: int
  g_maximum_total :: cipher
  g_penalty :: cipher
  g_penalty_scaled :: cipher
  g_missing_extent_scaled :: cipher
  g_missing_penalty :: cipher

type_synonym ('s, 'a) ceff = "('s \<times> op_counts, 'a) eff"

definition available :: "'a option list \<Rightarrow> nat list" where
  "available methods = filter (\<lambda>m. methods ! m \<noteq> None) [0, 1, 2]"

abbreviation g_costs :: "pega \<Rightarrow> cipher option list list" where
  "g_costs pg \<equiv> q_costs (g_request pg)"

text \<open>What a unit of a method's cost adds to the linearised ratio.\<close>

definition g_weight :: "pega \<Rightarrow> nat \<Rightarrow> int" where
  "g_weight pg m = (if m < 2 then g_scale pg - q_threshold (g_request pg) else - q_threshold (g_request pg))"

definition oneHot :: "'s sops \<Rightarrow> nat \<Rightarrow> ('s, cipher list) ceff" where
  "oneHot ops m = mapM (\<lambda>j. if m = j then c_constant ops 1 else c_constant ops 0) [0, 1, 2]"

definition max_of_row :: "'s sops \<Rightarrow> cipher option list \<Rightarrow> ('s, cipher) ceff" where
  "max_of_row ops methods = (let choices = available methods in
     foldM (\<lambda>m maximum. bnd (c_greater ops (the (methods ! m)) maximum) (\<lambda>larger.
         c_select ops larger (the (methods ! m)) maximum))
       (tl choices) (the (methods ! hd choices)))"

definition maximumTotal :: "'s sops \<Rightarrow> cipher \<Rightarrow> cipher option list list \<Rightarrow> ('s, cipher) ceff" where
  "maximumTotal ops zero costs =
     foldM (\<lambda>methods total. bnd (max_of_row ops methods) (\<lambda>maximum. c_add ops total maximum)) costs zero"

text \<open>The constructor.\<close>

definition pega_make :: "'s sops \<Rightarrow> pega_config \<Rightarrow> bb_request \<Rightarrow> ('s, pega) ceff" where
  "pega_make ops config request =
     (let scale = d_scale (s_domain ops); threshold = q_threshold request in
     bnd (c_constant ops 0) (\<lambda>zero.
     bnd (c_constant ops 1) (\<lambda>one.
     bnd (c_constant ops (scale - threshold)) (\<lambda>positive.
     bnd (c_constant ops (- threshold)) (\<lambda>negative.
     bnd (maximumTotal ops zero (q_costs request)) (\<lambda>maximum_total.
     bnd (c_add ops maximum_total one) (\<lambda>above.
     bnd (c_scalar ops above (p_infeasible_penalty config)) (\<lambda>penalty.
     bnd (c_scalar ops penalty scale) (\<lambda>penalty_scaled.
     bnd (c_add ops maximum_total one) (\<lambda>extent.
     bnd (c_scalar ops extent scale) (\<lambda>missing_extent_scaled.
     bnd (c_mul ops penalty missing_extent_scaled) (\<lambda>missing_penalty.
     ret \<lparr>g_config = config, g_request = request, g_zero = zero, g_one = one, g_positive = positive,
       g_negative = negative, g_scale = scale, g_maximum_total = maximum_total, g_penalty = penalty,
       g_penalty_scaled = penalty_scaled, g_missing_extent_scaled = missing_extent_scaled,
       g_missing_penalty = missing_penalty\<rparr>))))))))))))"

section \<open>Evaluation\<close>

text \<open>\<open>values[i] = ops.add(values[i], x)\<close>\<close>

definition add_at :: "'s sops \<Rightarrow> nat \<Rightarrow> cipher \<Rightarrow> cipher list \<Rightarrow> ('s, cipher list) ceff" where
  "add_at ops i x values = bnd (c_add ops (values ! i) x) (\<lambda>y. ret (values[i := y]))"

definition evaluate_method ::
  "'s sops \<Rightarrow> pega \<Rightarrow> nat \<Rightarrow> nat \<times> cipher \<Rightarrow> individual \<Rightarrow> ('s, individual) ceff" where
  "evaluate_method ops pg row item v = (let m = fst item; chosen = snd item in
     bnd (c_add ops (i_total v) chosen) (\<lambda>total.
     bnd (add_at ops row chosen (i_row_cost v)) (\<lambda>row_cost.
     let v = v\<lparr>i_total := total, i_row_cost := row_cost\<rparr> in
     bnd (if m < 2
       then bnd (c_add ops (i_c12 v) chosen) (\<lambda>c12. bnd (add_at ops row chosen (i_row_c12 v)) (\<lambda>row_c12.
         ret (v\<lparr>i_c12 := c12, i_row_c12 := row_c12\<rparr>)))
       else bnd (c_add ops (i_c3 v) chosen) (\<lambda>c3. bnd (add_at ops row chosen (i_row_c3 v)) (\<lambda>row_c3.
         ret (v\<lparr>i_c3 := c3, i_row_c3 := row_c3\<rparr>)))) (\<lambda>v.
     bnd (c_scalar ops chosen (g_weight pg m)) (\<lambda>contribution.
     bnd (c_add ops (i_linear v) contribution) (\<lambda>slack.
     bnd (add_at ops row contribution (i_row_linear v)) (\<lambda>row_linear.
     ret (v\<lparr>i_linear := slack, i_row_linear := row_linear\<rparr>))))))))"

definition evaluate_row :: "'s sops \<Rightarrow> pega \<Rightarrow> nat \<Rightarrow> individual \<Rightarrow> ('s, individual) ceff" where
  "evaluate_row ops pg row v = (let methods = available (g_costs pg ! row) in
     bnd (c_mulBatch ops (map (\<lambda>m. (i_genes v ! row ! m, the (g_costs pg ! row ! m))) methods)) (\<lambda>chosen.
     foldM (evaluate_method ops pg row) (zip methods chosen) v))"

definition evaluate :: "'s sops \<Rightarrow> pega \<Rightarrow> individual \<Rightarrow> ('s, individual) ceff" where
  "evaluate ops pg v = (let n = length (g_costs pg); zeros = replicate n (g_zero pg) in
     foldM (evaluate_row ops pg) [0..<n]
       (v\<lparr>i_feasible := None, i_fitness := None, i_total := g_zero pg, i_c12 := g_zero pg, i_c3 := g_zero pg,
          i_linear := g_zero pg, i_row_cost := zeros, i_row_linear := zeros, i_row_c12 := zeros, i_row_c3 := zeros\<rparr>))"

text \<open>The genes of \<open>randomIndividual\<close>, with the index of the next draw.\<close>

definition random_genes ::
  "'s sops \<Rightarrow> pega \<Rightarrow> (nat \<Rightarrow> 64 word) \<Rightarrow> nat \<Rightarrow> ('s, cipher list list) ceff" where
  "random_genes ops pg mt k =
     mapM (\<lambda>row. let choices = available (g_costs pg ! row) in
       oneHot ops (choices ! (unat (mt (k + row)) mod length choices))) [0..<length (g_costs pg)]"

definition randomIndividual ::
  "'s sops \<Rightarrow> pega \<Rightarrow> (nat \<Rightarrow> 64 word) \<Rightarrow> nat \<Rightarrow> ('s, individual \<times> nat) ceff" where
  "randomIndividual ops pg mt k =
     bnd (random_genes ops pg mt k) (\<lambda>genes.
     bnd (evaluate ops pg (new_individual genes)) (\<lambda>v. ret (v, k + length (g_costs pg))))"

text \<open>Elementwise selection of one gene.\<close>

definition select_gene ::
  "'s sops \<Rightarrow> encrypted_bit \<Rightarrow> cipher list \<Rightarrow> cipher list \<Rightarrow> ('s, cipher list) ceff" where
  "select_gene ops condition yes no = mapM (\<lambda>j. c_select ops condition (yes ! j) (no ! j)) [0, 1, 2]"

definition cheaper_method ::
  "'s sops \<Rightarrow> cipher option list \<Rightarrow> nat \<Rightarrow> cipher list \<times> cipher \<Rightarrow> ('s, cipher list \<times> cipher) ceff" where
  "cheaper_method ops methods m acc =
     bnd (c_less ops (the (methods ! m)) (snd acc)) (\<lambda>is_cheaper.
     bnd (c_select ops is_cheaper (the (methods ! m)) (snd acc)) (\<lambda>chosen.
     bnd (oneHot ops m) (\<lambda>replacement.
     bnd (select_gene ops is_cheaper replacement (fst acc)) (\<lambda>genes. ret (genes, chosen)))))"

definition cheapest_gene :: "'s sops \<Rightarrow> cipher option list \<Rightarrow> ('s, cipher list) ceff" where
  "cheapest_gene ops methods = (let choices = available methods in
     bnd (oneHot ops (hd choices)) (\<lambda>genes.
     bnd (foldM (cheaper_method ops methods) (tl choices) (genes, the (methods ! hd choices))) (\<lambda>acc. ret (fst acc))))"

definition cheapest :: "'s sops \<Rightarrow> pega \<Rightarrow> ('s, individual) ceff" where
  "cheapest ops pg =
     bnd (mapM (cheapest_gene ops) (g_costs pg)) (\<lambda>genes. evaluate ops pg (new_individual genes))"

section \<open>Ranking\<close>

text \<open>\<open>feasible\<close> and \<open>fitness\<close> of the code, with the individual whose cache they fill.\<close>

definition e_feasible :: "'s sops \<Rightarrow> pega \<Rightarrow> individual \<Rightarrow> ('s, encrypted_bit \<times> individual) ceff" where
  "e_feasible ops pg v = (case i_feasible v of
     Some b \<Rightarrow> ret (b, v)
   | None \<Rightarrow>
       bnd (c_less ops (i_linear v) (g_zero pg)) (\<lambda>below.
       bnd (c_notBit ops below) (\<lambda>linear_nonnegative.
       bnd (c_greater ops (i_c3 v) (g_zero pg)) (\<lambda>has_method3.
       bnd (c_greater ops (i_total v) (g_zero pg)) (\<lambda>nonzero_total.
       bnd (c_andBit ops linear_nonnegative has_method3) (\<lambda>both.
       bnd (c_andBit ops both nonzero_total) (\<lambda>b.
       ret (b, v\<lparr>i_feasible := Some b\<rparr>))))))))"

definition e_fitness :: "'s sops \<Rightarrow> pega \<Rightarrow> individual \<Rightarrow> ('s, cipher \<times> individual) ceff" where
  "e_fitness ops pg v = (case i_fitness v of
     Some f \<Rightarrow> ret (f, v)
   | None \<Rightarrow>
       bnd (c_scalar ops (i_linear v) (- 1)) (\<lambda>negative_linear.
       bnd (c_greater ops negative_linear (g_zero pg)) (\<lambda>violated.
       bnd (c_select ops violated negative_linear (g_zero pg)) (\<lambda>violation.
       bnd (c_greater ops (i_c3 v) (g_zero pg)) (\<lambda>has_method3.
       bnd (c_notBit ops has_method3) (\<lambda>missing.
       bnd (c_scalar ops (i_total v) (g_scale pg)) (\<lambda>base.
       bnd (c_mul ops (g_penalty pg) violation) (\<lambda>weighted_violation.
       bnd (c_mul ops (g_missing_penalty pg) (ciphertext missing)) (\<lambda>missing_cost.
       bnd (c_add ops base (g_penalty_scaled pg)) (\<lambda>left.
       bnd (c_add ops weighted_violation missing_cost) (\<lambda>right.
       bnd (c_add ops left right) (\<lambda>f.
       ret (f, v\<lparr>i_fitness := Some f\<rparr>)))))))))))))"

definition gene_index :: "'s sops \<Rightarrow> cipher list \<Rightarrow> ('s, cipher) ceff" where
  "gene_index ops gene = bnd (c_scalar ops (gene ! 2) 2) (\<lambda>twice. c_add ops (gene ! 1) twice)"

text \<open>The bits of one row: is the index of the first smaller, is it greater.\<close>

definition lex_row ::
  "'s sops \<Rightarrow> encrypted_bit \<times> encrypted_bit \<Rightarrow> encrypted_bit \<times> encrypted_bit \<Rightarrow>
     ('s, encrypted_bit \<times> encrypted_bit) ceff" where
  "lex_row ops compared acc = (let prefix_equal = fst acc; lex_less = snd acc in
     bnd (c_orBitExclusive ops (snd compared) (fst compared)) (\<lambda>differ.
     bnd (c_notBit ops differ) (\<lambda>equal.
     bnd (c_andBit ops prefix_equal (fst compared)) (\<lambda>first.
     bnd (c_orBit ops lex_less first) (\<lambda>lex_less.
     bnd (c_andBit ops prefix_equal equal) (\<lambda>prefix_equal.
     ret (prefix_equal, lex_less)))))))"

definition lexLess :: "'s sops \<Rightarrow> pega \<Rightarrow> individual \<Rightarrow> individual \<Rightarrow> ('s, encrypted_bit) ceff" where
  "lexLess ops pg a b = (let n = length (i_genes a) in
     bnd (c_greater ops (g_zero pg) (g_zero pg)) (\<lambda>never.
     bnd (c_notBit ops never) (\<lambda>prefix_equal.
     bnd (c_greater ops (g_zero pg) (g_zero pg)) (\<lambda>lex_less.
     bnd (mapM (\<lambda>row. bnd (gene_index ops (i_genes a ! row)) (\<lambda>a_index.
       bnd (gene_index ops (i_genes b ! row)) (\<lambda>b_index.
       ret [(b_index, a_index), (a_index, b_index)]))) [0..<n]) (\<lambda>relations.
     bnd (c_greaterBatch ops (concat relations)) (\<lambda>compared.
     bnd (foldM (\<lambda>row. lex_row ops (compared ! (row * 2), compared ! (row * 2 + 1))) [0..<n] (prefix_equal, lex_less))
       (\<lambda>acc. ret (snd acc))))))))"

text \<open>Are two values equal, from the two comparisons.\<close>

definition c_equal :: "'s sops \<Rightarrow> cipher \<Rightarrow> cipher \<Rightarrow> ('s, encrypted_bit) ceff" where
  "c_equal ops a b =
     bnd (c_greater ops a b) (\<lambda>above. bnd (c_greater ops b a) (\<lambda>below.
     bnd (c_orBitExclusive ops above below) (\<lambda>differ. c_notBit ops differ)))"

definition better ::
  "'s sops \<Rightarrow> pega \<Rightarrow> individual \<Rightarrow> individual \<Rightarrow> ('s, encrypted_bit \<times> individual \<times> individual) ceff" where
  "better ops pg a b =
     bnd (e_feasible ops pg a) (\<lambda>(feasible_a, a).
     bnd (e_feasible ops pg b) (\<lambda>(feasible_b, b).
     bnd (c_notBit ops feasible_b) (\<lambda>not_b.
     bnd (c_andBit ops feasible_a not_b) (\<lambda>a_only_feasible.
     bnd (c_greater ops (i_total a) (i_total b)) (\<lambda>total_above.
     bnd (c_greater ops (i_total b) (i_total a)) (\<lambda>total_below.
     bnd (c_orBitExclusive ops total_above total_below) (\<lambda>total_differ.
     bnd (c_notBit ops total_differ) (\<lambda>total_equal.
     bnd (c_less ops (i_linear a) (i_linear b)) (\<lambda>ratio_less.
     bnd (c_equal ops (i_linear a) (i_linear b)) (\<lambda>ratio_equal.
     bnd (lexLess ops pg a b) (\<lambda>lex.
     bnd (c_andBit ops ratio_equal lex) (\<lambda>tie_lex.
     bnd (c_orBit ops ratio_less tie_lex) (\<lambda>by_ratio.
     bnd (c_andBit ops total_equal by_ratio) (\<lambda>equal_better.
     bnd (c_orBit ops total_below equal_better) (\<lambda>feasible_better.
     bnd (e_fitness ops pg a) (\<lambda>(fitness_a, a).
     bnd (e_fitness ops pg b) (\<lambda>(fitness_b, b).
     bnd (c_less ops fitness_a fitness_b) (\<lambda>infeasible_less.
     bnd (c_equal ops fitness_a fitness_b) (\<lambda>infeasible_equal.
     bnd (lexLess ops pg a b) (\<lambda>lex'.
     bnd (c_andBit ops infeasible_equal lex') (\<lambda>tie_lex'.
     bnd (c_orBit ops infeasible_less tie_lex') (\<lambda>infeasible_better.
     bnd (c_andBit ops feasible_a feasible_b) (\<lambda>same_class.
     bnd (c_notBit ops feasible_a) (\<lambda>not_a.
     bnd (c_notBit ops feasible_b) (\<lambda>not_b'.
     bnd (c_andBit ops not_a not_b') (\<lambda>both_infeasible.
     bnd (c_andBit ops same_class feasible_better) (\<lambda>wins_feasible.
     bnd (c_andBit ops both_infeasible infeasible_better) (\<lambda>wins_infeasible.
     bnd (c_orBit ops wins_feasible wins_infeasible) (\<lambda>wins_class.
     bnd (c_orBit ops a_only_feasible wins_class) (\<lambda>wins.
     ret (wins, a, b)))))))))))))))))))))))))))))))"

section \<open>Selection\<close>

text \<open>Three by three.\<close>

fun groups3 :: "'a list \<Rightarrow> 'a list list" where
  "groups3 (a # b # c # xs) = [a, b, c] # groups3 xs"
| "groups3 xs = []"

text \<open>The selected individual has neither row vectors nor caches.\<close>

definition chosen_of ::
  "'s sops \<Rightarrow> encrypted_bit \<Rightarrow> individual \<Rightarrow> individual \<Rightarrow> ('s, individual) ceff" where
  "chosen_of ops condition yes no =
     bnd (c_selectBatch ops condition
       (concat (map (\<lambda>row. map (\<lambda>j. (i_genes yes ! row ! j, i_genes no ! row ! j)) [0, 1, 2]) [0..<length (i_genes yes)])))
       (\<lambda>genes.
     bnd (c_selectBatch ops condition [(i_total yes, i_total no), (i_c12 yes, i_c12 no), (i_c3 yes, i_c3 no),
       (i_linear yes, i_linear no)]) (\<lambda>summary.
     ret ((new_individual (groups3 genes))\<lparr>i_total := summary ! 0, i_c12 := summary ! 1, i_c3 := summary ! 2,
       i_linear := summary ! 3\<rparr>)))"

text \<open>One rank of the insertion network, and the insertion of one individual.\<close>

definition elite_rank ::
  "'s sops \<Rightarrow> pega \<Rightarrow> individual \<Rightarrow> individual list \<times> individual \<Rightarrow> ('s, individual list \<times> individual) ceff" where
  "elite_rank ops pg at_rank acc =
     bnd (better ops pg (snd acc) at_rank) (\<lambda>(wins, carry, old).
     bnd (chosen_of ops wins carry old) (\<lambda>kept.
     bnd (chosen_of ops wins old carry) (\<lambda>carry.
     ret (fst acc @ [kept], carry))))"

definition elite_insert ::
  "'s sops \<Rightarrow> pega \<Rightarrow> individual \<Rightarrow> individual list \<Rightarrow> ('s, individual list) ceff" where
  "elite_insert ops pg carry elite =
     bnd (foldM (elite_rank ops pg) elite ([], carry)) (\<lambda>(elite, carry).
     ret (if length elite < p_elitism (g_config pg) then elite @ [carry] else elite))"

definition eliteSet :: "'s sops \<Rightarrow> pega \<Rightarrow> individual list \<Rightarrow> ('s, individual list) ceff" where
  "eliteSet ops pg population = foldM (elite_insert ops pg) (tl population) [hd population]"

primrec tournament_turns ::
  "'s sops \<Rightarrow> pega \<Rightarrow> (nat \<Rightarrow> 64 word) \<Rightarrow> nat \<Rightarrow> individual \<Rightarrow> individual list \<Rightarrow> nat \<Rightarrow>
     ('s, individual \<times> individual list \<times> nat) ceff" where
  "tournament_turns ops pg mt 0 winner population k = ret (winner, population, k)"
| "tournament_turns ops pg mt (Suc turns) winner population k =
     (let i = unat (mt k) mod length population in
     bnd (better ops pg (population ! i) winner) (\<lambda>(wins, challenger, winner).
     bnd (chosen_of ops wins challenger winner) (\<lambda>winner.
     tournament_turns ops pg mt turns winner (population[i := challenger]) (Suc k))))"

definition tournament ::
  "'s sops \<Rightarrow> pega \<Rightarrow> (nat \<Rightarrow> 64 word) \<Rightarrow> individual list \<Rightarrow> nat \<Rightarrow> ('s, individual \<times> individual list \<times> nat) ceff" where
  "tournament ops pg mt population k =
     tournament_turns ops pg mt (p_tournament_size (g_config pg) - 1)
       (population ! (unat (mt k) mod length population)) population (Suc k)"

section \<open>Repair\<close>

text \<open>The best method 3 move and the best move so far: cost and slack it adds, its number, whether there is one.\<close>

record repair_scan =
  r_cost :: cipher
  r_linear :: cipher
  r_id :: cipher
  r_have :: encrypted_bit
  r3_cost :: cipher
  r3_linear :: cipher
  r3_id :: cipher
  r3_have :: encrypted_bit

definition move_id :: "nat \<Rightarrow> nat \<Rightarrow> int" where
  "move_id row m = int (row * 3 + m)"

text \<open>A method 3 target; the result is the bit \<open>valid\<close> and the scan.\<close>

definition repair_best3 ::
  "'s sops \<Rightarrow> encrypted_bit \<Rightarrow> int \<Rightarrow> cipher \<Rightarrow> cipher \<Rightarrow> encrypted_bit \<Rightarrow> repair_scan \<Rightarrow>
     ('s, encrypted_bit \<times> repair_scan) ceff" where
  "repair_best3 ops need_method3 move delta_cost delta_linear valid sc =
     bnd (c_less ops delta_cost (r3_cost sc)) (\<lambda>better3.
     bnd (c_notBit ops (r3_have sc)) (\<lambda>none3.
     bnd (c_orBit ops none3 better3) (\<lambda>replace3.
     bnd (c_select ops replace3 delta_cost (r3_cost sc)) (\<lambda>best3_cost.
     bnd (c_select ops replace3 delta_linear (r3_linear sc)) (\<lambda>best3_linear.
     bnd (c_constant ops move) (\<lambda>this.
     bnd (c_select ops replace3 this (r3_id sc)) (\<lambda>best3_id.
     bnd (c_orBit ops (r3_have sc) replace3) (\<lambda>have3.
     bnd (c_notBit ops need_method3) (\<lambda>not_needed.
     bnd (c_andBit ops valid not_needed) (\<lambda>valid.
     ret (valid, sc\<lparr>r3_cost := best3_cost, r3_linear := best3_linear, r3_id := best3_id, r3_have := have3\<rparr>)))))))))))"

definition repair_consider ::
  "'s sops \<Rightarrow> pega \<Rightarrow> individual \<Rightarrow> cipher \<Rightarrow> encrypted_bit \<Rightarrow> nat \<Rightarrow> nat \<Rightarrow> repair_scan \<Rightarrow> ('s, repair_scan) ceff" where
  "repair_consider ops pg v method3_count need_method3 row m sc =
     (case g_costs pg ! row ! m of None \<Rightarrow> ret sc
      | Some cost \<Rightarrow>
     bnd (c_sub ops cost (i_row_cost v ! row)) (\<lambda>delta_cost.
     bnd (c_scalar ops cost (g_weight pg m)) (\<lambda>target_linear.
     bnd (c_sub ops target_linear (i_row_linear v ! row)) (\<lambda>delta_linear.
     bnd (c_greater ops delta_linear (g_zero pg)) (\<lambda>positive_delta.
     bnd (if m \<noteq> 2 then
         bnd (c_sub ops method3_count (i_genes v ! row ! 2)) (\<lambda>remaining.
         bnd (c_greater ops remaining (g_zero pg)) (\<lambda>others.
         bnd (c_andBit ops positive_delta others) (\<lambda>valid. ret (valid, sc))))
       else repair_best3 ops need_method3 (move_id row m) delta_cost delta_linear positive_delta sc) (\<lambda>(valid, sc).
     bnd (c_mul ops delta_cost (r_linear sc)) (\<lambda>lhs.
     bnd (c_mul ops (r_cost sc) delta_linear) (\<lambda>rhs.
     bnd (c_less ops lhs rhs) (\<lambda>smaller.
     bnd (c_notBit ops (r_have sc)) (\<lambda>first.
     bnd (c_orBit ops first smaller) (\<lambda>improves.
     bnd (c_andBit ops valid improves) (\<lambda>replace.
     bnd (c_select ops replace delta_cost (r_cost sc)) (\<lambda>selected_cost.
     bnd (c_select ops replace delta_linear (r_linear sc)) (\<lambda>selected_linear.
     bnd (c_constant ops (move_id row m)) (\<lambda>this.
     bnd (c_select ops replace this (r_id sc)) (\<lambda>selected_id.
     bnd (c_orBit ops (r_have sc) valid) (\<lambda>have_selected.
     ret (sc\<lparr>r_cost := selected_cost, r_linear := selected_linear, r_id := selected_id,
       r_have := have_selected\<rparr>))))))))))))))))))"

text \<open>The moves, row by row.\<close>

definition moves :: "nat \<Rightarrow> (nat \<times> nat) list" where
  "moves n = concat (map (\<lambda>row. map (Pair row) [0, 1, 2]) [0..<n])"

text \<open>\<open>values[row] = ops.add(values[row], ops.mul(gate, delta))\<close>, and the same for a sum.\<close>

definition masked_add :: "'s sops \<Rightarrow> cipher \<Rightarrow> cipher \<Rightarrow> cipher \<Rightarrow> ('s, cipher) ceff" where
  "masked_add ops gate x delta = bnd (c_mul ops gate delta) (\<lambda>p. c_add ops x p)"

definition masked_gene :: "'s sops \<Rightarrow> cipher \<Rightarrow> nat \<Rightarrow> cipher list \<Rightarrow> ('s, cipher list) ceff" where
  "masked_gene ops gate m gene =
     mapM (\<lambda>j. bnd (c_constant ops (if j = m then 1 else 0)) (\<lambda>target.
       bnd (c_sub ops target (gene ! j)) (\<lambda>delta. masked_add ops gate (gene ! j) delta))) [0, 1, 2]"

definition repair_apply ::
  "'s sops \<Rightarrow> pega \<Rightarrow> encrypted_bit \<Rightarrow> cipher \<Rightarrow> nat \<Rightarrow> nat \<Rightarrow> individual \<Rightarrow> ('s, individual) ceff" where
  "repair_apply ops pg apply_move selected_id row m v =
     (case g_costs pg ! row ! m of None \<Rightarrow> ret v
      | Some cost \<Rightarrow>
     bnd (c_constant ops (move_id row m)) (\<lambda>this.
     bnd (c_equal ops selected_id this) (\<lambda>eq.
     bnd (c_mul ops (ciphertext apply_move) (ciphertext eq)) (\<lambda>gate.
     bnd (c_scalar ops cost (g_weight pg m)) (\<lambda>target_linear.
     bnd (c_sub ops target_linear (i_row_linear v ! row)) (\<lambda>delta_linear.
     bnd (c_sub ops cost (i_row_cost v ! row)) (\<lambda>delta_cost.
     bnd (c_sub ops (if m < 2 then cost else g_zero pg) (i_row_c12 v ! row)) (\<lambda>delta_c12.
     bnd (c_sub ops (if m = 2 then cost else g_zero pg) (i_row_c3 v ! row)) (\<lambda>delta_c3.
     bnd (masked_add ops gate (i_total v) delta_cost) (\<lambda>total.
     bnd (masked_add ops gate (i_linear v) delta_linear) (\<lambda>slack.
     bnd (masked_add ops gate (i_row_cost v ! row) delta_cost) (\<lambda>row_cost.
     bnd (masked_add ops gate (i_row_linear v ! row) delta_linear) (\<lambda>row_linear.
     bnd (masked_add ops gate (i_row_c12 v ! row) delta_c12) (\<lambda>row_c12.
     bnd (masked_add ops gate (i_row_c3 v ! row) delta_c3) (\<lambda>row_c3.
     bnd (masked_add ops gate (i_c12 v) delta_c12) (\<lambda>c12.
     bnd (masked_add ops gate (i_c3 v) delta_c3) (\<lambda>c3.
     bnd (masked_gene ops gate m (i_genes v ! row)) (\<lambda>gene.
     ret (v\<lparr>i_total := total, i_linear := slack, i_c12 := c12, i_c3 := c3,
       i_row_cost := (i_row_cost v)[row := row_cost], i_row_linear := (i_row_linear v)[row := row_linear],
       i_row_c12 := (i_row_c12 v)[row := row_c12], i_row_c3 := (i_row_c3 v)[row := row_c3],
       i_genes := (i_genes v)[row := gene]\<rparr>)))))))))))))))))))"

definition repair_round :: "'s sops \<Rightarrow> pega \<Rightarrow> individual \<Rightarrow> ('s, individual) ceff" where
  "repair_round ops pg v = (let n = length (g_costs pg); zero = g_zero pg in
     bnd (e_feasible ops pg v) (\<lambda>(was_feasible, v).
     bnd (c_greater ops zero zero) (\<lambda>have_selected.
     bnd (c_greater ops (i_c3 v) zero) (\<lambda>has_method3.
     bnd (c_notBit ops has_method3) (\<lambda>need_method3.
     bnd (c_greater ops zero zero) (\<lambda>have3.
     bnd (foldM (\<lambda>gene count. c_add ops count (gene ! 2)) (i_genes v) zero) (\<lambda>method3_count.
     bnd (foldM (\<lambda>move. repair_consider ops pg v method3_count need_method3 (fst move) (snd move)) (moves n)
       \<lparr>r_cost = zero, r_linear = zero, r_id = zero, r_have = have_selected,
        r3_cost = zero, r3_linear = zero, r3_id = zero, r3_have = have3\<rparr>) (\<lambda>sc.
     bnd (c_select ops need_method3 (r3_id sc) (r_id sc)) (\<lambda>selected_id.
     bnd (c_select ops need_method3 (r3_cost sc) (r_cost sc)) (\<lambda>selected_cost.
     bnd (c_select ops need_method3 (r3_linear sc) (r_linear sc)) (\<lambda>selected_linear.
     bnd (c_andBit ops need_method3 (r3_have sc)) (\<lambda>use3.
     bnd (c_orBit ops (r_have sc) use3) (\<lambda>have_selected.
     bnd (c_notBit ops was_feasible) (\<lambda>infeasible.
     bnd (c_andBit ops infeasible have_selected) (\<lambda>apply_move.
     bnd (foldM (\<lambda>move. repair_apply ops pg apply_move selected_id (fst move) (snd move)) (moves n) v) (\<lambda>v.
     ret (v\<lparr>i_feasible := None, i_fitness := None\<rparr>)))))))))))))))))"

definition repair_rounds :: "pega \<Rightarrow> nat" where
  "repair_rounds pg = (if p_repair_rounds (g_config pg) = 0 then length (g_costs pg) * 3
     else p_repair_rounds (g_config pg))"

definition repair :: "'s sops \<Rightarrow> pega \<Rightarrow> individual \<Rightarrow> ('s, individual) ceff" where
  "repair ops pg v = foldM (\<lambda>_. repair_round ops pg) [0..<repair_rounds pg] v"

section \<open>Offspring\<close>

text \<open>Uniform crossover: one draw for every row. The genes may be of any type.\<close>

definition crossover :: "(nat \<Rightarrow> 64 word) \<Rightarrow> nat \<Rightarrow> 'a list \<Rightarrow> 'a list \<Rightarrow> 'a list" where
  "crossover mt k genes other =
     map (\<lambda>row. if bit (mt (k + row)) 0 then other ! row else genes ! row) [0..<length genes]"

definition mutate_row ::
  "'s sops \<Rightarrow> pega \<Rightarrow> (nat \<Rightarrow> 64 word) \<Rightarrow> nat \<Rightarrow> cipher list list \<times> nat \<Rightarrow> ('s, cipher list list \<times> nat) ceff" where
  "mutate_row ops pg mt row acc = (let genes = fst acc; k = snd acc; choices = available (g_costs pg ! row) in
     if generate_canonical (mt k) < p_mutation_rate (g_config pg) \<and> length choices > 1 then
       let selected = unat (mt (Suc k)) mod length choices;
           fallback = choices ! ((selected + 1) mod length choices) in
       bnd (oneHot ops (choices ! selected)) (\<lambda>target.
       bnd (oneHot ops fallback) (\<lambda>replacement.
       bnd (c_greater ops (genes ! row ! (choices ! selected)) (g_one pg)) (\<lambda>above.
       bnd (c_greater ops (g_one pg) (genes ! row ! (choices ! selected))) (\<lambda>below.
       bnd (c_orBit ops above below) (\<lambda>differ.
       bnd (c_notBit ops differ) (\<lambda>same.
       bnd (select_gene ops same replacement target) (\<lambda>gene.
       ret (genes[row := gene], k + 2))))))))
     else ret (genes, Suc k))"

definition make_child ::
  "'s sops \<Rightarrow> pega \<Rightarrow> (nat \<Rightarrow> 64 word) \<Rightarrow> individual list \<Rightarrow> nat \<Rightarrow> ('s, individual \<times> individual list \<times> nat) ceff" where
  "make_child ops pg mt population k =
     bnd (tournament ops pg mt population k) (\<lambda>(child, population, k).
     bnd (tournament ops pg mt population k) (\<lambda>(other, population, k).
     let crossed = generate_canonical (mt k) < p_crossover_rate (g_config pg);
         n = length (i_genes child);
         genes = (if crossed then crossover mt (Suc k) (i_genes child) (i_genes other) else i_genes child);
         k = (if crossed then Suc k + n else Suc k) in
     bnd (foldM (mutate_row ops pg mt) [0..<n] (genes, k)) (\<lambda>(genes, k).
     bnd (evaluate ops pg (child\<lparr>i_genes := genes\<rparr>)) (\<lambda>child.
     bnd (repair ops pg child) (\<lambda>child. ret (child, population, k))))))"

section \<open>The run\<close>

primrec random_population ::
  "'s sops \<Rightarrow> pega \<Rightarrow> (nat \<Rightarrow> 64 word) \<Rightarrow> nat \<Rightarrow> nat \<Rightarrow> ('s, individual list \<times> nat) ceff" where
  "random_population ops pg mt 0 k = ret ([], k)"
| "random_population ops pg mt (Suc n) k =
     bnd (randomIndividual ops pg mt k) (\<lambda>(v, k).
     bnd (repair ops pg v) (\<lambda>v.
     bnd (random_population ops pg mt n k) (\<lambda>(vs, k). ret (v # vs, k))))"

text \<open>\<open>best = choose(better(value, best), value, best)\<close> over a population.\<close>

definition retain_best ::
  "'s sops \<Rightarrow> pega \<Rightarrow> individual \<Rightarrow> individual list \<times> individual \<Rightarrow> ('s, individual list \<times> individual) ceff" where
  "retain_best ops pg v acc =
     bnd (better ops pg v (snd acc)) (\<lambda>(wins, v, best).
     bnd (chosen_of ops wins v best) (\<lambda>best. ret (fst acc @ [v], best)))"

primrec children ::
  "'s sops \<Rightarrow> pega \<Rightarrow> (nat \<Rightarrow> 64 word) \<Rightarrow> nat \<Rightarrow> individual list \<Rightarrow> nat \<Rightarrow> ('s, individual list \<times> nat) ceff" where
  "children ops pg mt 0 population k = ret ([], k)"
| "children ops pg mt (Suc n) population k =
     bnd (make_child ops pg mt population k) (\<lambda>(v, population, k).
     bnd (children ops pg mt n population k) (\<lambda>(vs, k). ret (v # vs, k)))"

definition generation ::
  "'s sops \<Rightarrow> pega \<Rightarrow> (nat \<Rightarrow> 64 word) \<Rightarrow> individual list \<times> individual \<times> nat \<Rightarrow>
     ('s, individual list \<times> individual \<times> nat) ceff" where
  "generation ops pg mt acc = (case acc of (population, best, k) \<Rightarrow>
     bnd (eliteSet ops pg population) (\<lambda>elite.
     bnd (children ops pg mt (p_population (g_config pg) - length elite) population k) (\<lambda>(vs, k).
     bnd (foldM (retain_best ops pg) (elite @ vs) ([], best)) (\<lambda>(population, best).
     ret (population, best, k)))))"

record pega_stats =
  z_per_candidate :: op_counts
  z_per_generation :: op_counts
  z_run :: op_counts
  z_extrapolated_256x1000 :: op_counts
  z_extrapolated_410x1000 :: op_counts
  z_rows :: nat
  z_available_methods :: nat
  z_population :: nat
  z_generations :: nat
  z_elitism :: nat
  z_tournament_size :: nat
  z_repair_rounds :: nat

record pega_result =
  z_chromosome :: "cipher list list"
  z_total_cost :: cipher
  z_c12 :: cipher
  z_c3 :: cipher
  z_linear :: cipher
  z_stats :: pega_stats

definition ceilDivide :: "64 word \<Rightarrow> 64 word \<Rightarrow> 64 word" where
  "ceilDivide value divisor = value div divisor + (if value mod divisor \<noteq> 0 then 1 else 0)"

definition divideCounts :: "op_counts \<Rightarrow> 64 word \<Rightarrow> op_counts" where
  "divideCounts c d = \<lparr>oc_encrypt_constant = ceilDivide (oc_encrypt_constant c) d, oc_add = ceilDivide (oc_add c) d,
     oc_scalar_mul = ceilDivide (oc_scalar_mul c) d, oc_secure_mul = ceilDivide (oc_secure_mul c) d,
     oc_secure_compare = ceilDivide (oc_secure_compare c) d, oc_secure_select = ceilDivide (oc_secure_select c) d,
     oc_secure_mul_dispatches = ceilDivide (oc_secure_mul_dispatches c) d,
     oc_secure_compare_dispatches = ceilDivide (oc_secure_compare_dispatches c) d\<rparr>"

definition subtractCounts :: "op_counts \<Rightarrow> op_counts \<Rightarrow> op_counts" where
  "subtractCounts a b = \<lparr>oc_encrypt_constant = oc_encrypt_constant a - oc_encrypt_constant b, oc_add = oc_add a - oc_add b,
     oc_scalar_mul = oc_scalar_mul a - oc_scalar_mul b, oc_secure_mul = oc_secure_mul a - oc_secure_mul b,
     oc_secure_compare = oc_secure_compare a - oc_secure_compare b,
     oc_secure_select = oc_secure_select a - oc_secure_select b,
     oc_secure_mul_dispatches = oc_secure_mul_dispatches a - oc_secure_mul_dispatches b,
     oc_secure_compare_dispatches = oc_secure_compare_dispatches a - oc_secure_compare_dispatches b\<rparr>"

text \<open>The extrapolation: factors of public dimensions in \<open>long double\<close> arithmetic, counters saturating.\<close>

definition saturatedMultiply :: "64 word \<Rightarrow> 64 word \<Rightarrow> 64 word" where
  "saturatedMultiply value factor = (if factor \<noteq> 0 \<and> value > - 1 div factor then - 1 else value * factor)"

definition multiplyCounts :: "op_counts \<Rightarrow> 64 word \<Rightarrow> op_counts" where
  "multiplyCounts c f = \<lparr>oc_encrypt_constant = saturatedMultiply (oc_encrypt_constant c) f, oc_add = saturatedMultiply (oc_add c) f,
     oc_scalar_mul = saturatedMultiply (oc_scalar_mul c) f, oc_secure_mul = saturatedMultiply (oc_secure_mul c) f,
     oc_secure_compare = saturatedMultiply (oc_secure_compare c) f, oc_secure_select = saturatedMultiply (oc_secure_select c) f,
     oc_secure_mul_dispatches = saturatedMultiply (oc_secure_mul_dispatches c) f,
     oc_secure_compare_dispatches = saturatedMultiply (oc_secure_compare_dispatches c) f\<rparr>"

definition saturatedAdd :: "64 word \<Rightarrow> 64 word \<Rightarrow> 64 word" where
  "saturatedAdd a b = (if a > - 1 - b then - 1 else a + b)"

definition addCounts :: "op_counts \<Rightarrow> op_counts \<Rightarrow> op_counts" where
  "addCounts a b = \<lparr>oc_encrypt_constant = saturatedAdd (oc_encrypt_constant a) (oc_encrypt_constant b),
     oc_add = saturatedAdd (oc_add a) (oc_add b), oc_scalar_mul = saturatedAdd (oc_scalar_mul a) (oc_scalar_mul b),
     oc_secure_mul = saturatedAdd (oc_secure_mul a) (oc_secure_mul b),
     oc_secure_compare = saturatedAdd (oc_secure_compare a) (oc_secure_compare b),
     oc_secure_select = saturatedAdd (oc_secure_select a) (oc_secure_select b),
     oc_secure_mul_dispatches = saturatedAdd (oc_secure_mul_dispatches a) (oc_secure_mul_dispatches b),
     oc_secure_compare_dispatches = saturatedAdd (oc_secure_compare_dispatches a) (oc_secure_compare_dispatches b)\<rparr>"

definition estimate_ratio :: "nat \<Rightarrow> nat \<Rightarrow> rat" where
  "estimate_ratio n d =
     max 1 (long_double (long_double (of_nat n) / long_double (of_nat (max 1 d))))"

definition modelEstimate :: "pega_stats \<Rightarrow> nat \<Rightarrow> nat \<Rightarrow> nat \<Rightarrow> nat \<Rightarrow> nat \<Rightarrow> nat \<Rightarrow> nat \<Rightarrow> op_counts" where
  "modelEstimate z target_rows target_availability target_population target_generations target_elitism
       target_tournament target_repair_rounds =
     (let row_factor = estimate_ratio target_rows (z_rows z);
          availability_factor = estimate_ratio target_availability (z_available_methods z);
          population_factor = estimate_ratio target_population (z_population z);
          candidate_factor = long_double (long_double (row_factor * availability_factor) * population_factor);
          generation_factor = long_double
            (long_double (estimate_ratio target_generations (z_generations z) * population_factor) *
             Max {row_factor, availability_factor, estimate_ratio target_elitism (z_elitism z),
               estimate_ratio target_tournament (z_tournament_size z),
               estimate_ratio target_repair_rounds (z_repair_rounds z)});
          candidate = multiplyCounts (z_per_candidate z) (of_int \<lceil>candidate_factor\<rceil>);
          generation = multiplyCounts (z_per_generation z) (of_int \<lceil>generation_factor\<rceil>)
      in addCounts (multiplyCounts candidate (of_nat target_population)) (multiplyCounts generation (of_nat target_generations)))"

definition with_estimates :: "pega_stats \<Rightarrow> pega_stats" where
  "with_estimates z =
     z\<lparr>z_extrapolated_256x1000 := modelEstimate z 256 (256 * 3) 256 1000 8 4 (max 1 (z_rows z * 3)),
       z_extrapolated_410x1000 := modelEstimate z 410 (410 * 3) 256 1000 8 4 (max 1 (410 * 3))\<rparr>"

definition pega_run :: "'s sops \<Rightarrow> pega \<Rightarrow> (nat \<Rightarrow> 64 word) \<Rightarrow> ('s, pega_result) ceff" where
  "pega_run ops pg mt = (let config = g_config pg; costs = g_costs pg in
     bnd (cheapest ops pg) (\<lambda>first.
     bnd (repair ops pg first) (\<lambda>first.
     bnd (random_population ops pg mt (p_population config - 1) 0) (\<lambda>(others, k).
     bnd (foldM (retain_best ops pg) others ([first], first)) (\<lambda>(population, best).
     bnd get_st (\<lambda>initialization.
     bnd (foldM (\<lambda>_. generation ops pg mt) [0..<p_generations config] (population, best, k)) (\<lambda>(population, best, k).
     bnd get_st (\<lambda>final.
     ret \<lparr>z_chromosome = i_genes best, z_total_cost = i_total best, z_c12 = i_c12 best, z_c3 = i_c3 best,
       z_linear = i_linear best,
       z_stats = with_estimates \<lparr>z_per_candidate = divideCounts (snd initialization) (of_nat (p_population config)),
         z_per_generation = divideCounts (subtractCounts (snd final) (snd initialization)) (of_nat (p_generations config)),
         z_run = snd final, z_extrapolated_256x1000 = no_counts, z_extrapolated_410x1000 = no_counts,
         z_rows = length costs, z_available_methods = sum_list (map (length \<circ> available) costs),
         z_population = p_population config, z_generations = p_generations config, z_elitism = p_elitism config,
         z_tournament_size = p_tournament_size config, z_repair_rounds = repair_rounds pg\<rparr>\<rparr>))))))))"

section \<open>Validation and the entry point\<close>

definition addBits :: "nat \<Rightarrow> nat \<Rightarrow> nat option" where
  "addBits a b = (if a > 127 \<or> b > 127 \<or> a + b > 127 then None else Some (a + b))"

text \<open>The first test on the numeric domain, with the number of bits of the scale, and the second.\<close>

definition pega_intermediates :: "numeric_domain \<Rightarrow> nat \<Rightarrow> bool" where
  "pega_intermediates d scale_bits =
     (case (addBits (max_linear_bits d) (max_total_bits d), addBits (max_cost_bits d) (max_linear_bits d),
        addBits (max_total_bits d) scale_bits) of
        (Some cross, Some repair_product, Some scaled_total) \<Rightarrow>
          \<not> (cross > compare_operand_bits d \<or> repair_product > compare_operand_bits d \<or>
             scaled_total > compare_operand_bits d \<or> max_cost_bits d \<ge> 127 \<or> max_total_bits d \<ge> 127 \<or>
             max_linear_bits d \<ge> 127 \<or> compare_operand_bits d \<ge> 127)
      | _ \<Rightarrow> False)"

definition pega_fitness_bits :: "numeric_domain \<Rightarrow> nat \<Rightarrow> nat \<Rightarrow> bool" where
  "pega_fitness_bits d scale_bits multiplier_bits =
     (case addBits (max_total_bits d) 1 of None \<Rightarrow> False
      | Some above_bits \<Rightarrow>
     (case (addBits above_bits multiplier_bits, addBits above_bits scale_bits) of
        (Some penalty, Some extent) \<Rightarrow>
          (case (addBits penalty (max_linear_bits d), addBits penalty extent) of
             (Some violation, Some missing) \<Rightarrow> \<not> (violation > compare_operand_bits d \<or> missing > compare_operand_bits d)
           | _ \<Rightarrow> False)
      | _ \<Rightarrow> False))"

definition pega_validate :: "numeric_domain \<Rightarrow> pega_config \<Rightarrow> bb_request \<Rightarrow> exn + unit" where
  "pega_validate d config request =
     (if q_costs request = [] then bb_invalid ''encrypted costs must not be empty''
      else if d_scale d \<le> 0 \<or> max_rows d = 0 \<or> max_cost_bits d = 0 \<or> max_total_bits d = 0 \<or>
        max_linear_bits d = 0 \<or> compare_operand_bits d = 0
      then bb_invalid ''SecureOps has an incomplete numeric domain''
      else if length (q_costs request) > max_rows d
      then bb_invalid ''encrypted cost row count exceeds NumericDomain.max_rows''
      else if q_threshold request < 0 \<or> q_threshold request \<ge> d_scale d
      then bb_invalid ''threshold_scaled must satisfy 0 <= threshold_scaled < scale''
      else if \<not> validIdentifier (q_session request) then bb_invalid ''invalid session_id''
      else if p_population config < 2 \<or> p_generations config = 0 \<or> p_elitism config = 0 \<or>
        p_elitism config \<ge> p_population config \<or> p_tournament_size config = 0 \<or>
        p_crossover_rate config < 0 \<or> p_crossover_rate config > 1 \<or>
        p_mutation_rate config < 0 \<or> p_mutation_rate config > 1 \<or> p_infeasible_penalty config \<le> 0
      then bb_invalid ''invalid confidential scalable optimizer configuration''
      else if p_repair_rounds config = 0 \<and> length (q_costs request) > (2 ^ 64 - 1) div 3
      then bb_invalid ''repair round count overflow''
      else sbind (smap bb_check_row (q_costs request)) (\<lambda>_.
        let scale_bits = bit_size_nat (nat (d_scale d));
            multiplier_bits = bit_size_nat (nat (p_infeasible_penalty config)) in
        if \<not> pega_intermediates d scale_bits
        then bb_invalid ''NumericDomain cannot bound PEGA intermediates below 2^127''
        else if \<not> pega_fitness_bits d scale_bits multiplier_bits
        then bb_invalid ''NumericDomain cannot bound PEGA fitness below 2^127''
        else Inr ()))"

text \<open>\<open>ConfidentialScalableOptimizer::optimize\<close>: the counters of a call start at zero.\<close>

definition confidential_scalable_optimize ::
  "'s sops \<Rightarrow> pega_config \<Rightarrow> bb_request \<Rightarrow> ('s, pega_result) eff" where
  "confidential_scalable_optimize ops config request =
     bnd (of_sum (pega_validate (s_domain ops) config request)) (\<lambda>_ s.
       map_option (apsnd fst)
         (bnd (pega_make ops config request) (\<lambda>pg. pega_run ops pg (mt19937_64 (p_seed config))) (s, no_counts)))"

end
