(* ===== verification/GeneticPlan.thy ===== *)
theory GeneticPlan
  imports Pega "HOL-Library.Multiset"
begin

text \<open>
  The genetic search on plain costs that the confidential optimizer carries out on ciphertexts, as its
  specification: individuals are assignments (lists of method numbers), ranked by one key; the elite of
  a population are the first of its members in the order of the keys; a tournament and the running best take
  minima. It draws the same random numbers at the same places: no draw depends on an encrypted value.
\<close>

section \<open>The problem and the ranking\<close>

record ga_problem =
  ga_rows :: "row list"
  ga_scale :: int
  ga_threshold :: int
  ga_penalty :: int

definition ga_cost :: "ga_problem \<Rightarrow> nat list \<Rightarrow> int" where
  "ga_cost pb p = sum_by w_cost (ga_rows pb) p"

definition ga_slack :: "ga_problem \<Rightarrow> nat list \<Rightarrow> int" where
  "ga_slack pb p = sum_by (w_linear (ga_scale pb) (ga_threshold pb)) (ga_rows pb) p"

definition ga_c12 :: "ga_problem \<Rightarrow> nat list \<Rightarrow> int" where
  "ga_c12 pb p = sum_by w_c12 (ga_rows pb) p"

definition ga_c3 :: "ga_problem \<Rightarrow> nat list \<Rightarrow> int" where
  "ga_c3 pb p = sum_by w_c3 (ga_rows pb) p"

definition ga_feasible :: "ga_problem \<Rightarrow> nat list \<Rightarrow> bool" where
  "ga_feasible pb p = feasible (ga_scale pb) (ga_threshold pb) (ga_rows pb) p"

definition row_maximum :: "row \<Rightarrow> int" where
  "row_maximum r = fold (\<lambda>m x. max (the (r ! m)) x) (tl (available r)) (the (r ! hd (available r)))"

definition ga_maximum :: "ga_problem \<Rightarrow> int" where
  "ga_maximum pb = sum_list (map row_maximum (ga_rows pb))"

definition ga_weight :: "ga_problem \<Rightarrow> int" where
  "ga_weight pb = ga_penalty pb * (ga_maximum pb + 1)"

definition ga_fitness :: "ga_problem \<Rightarrow> nat list \<Rightarrow> int" where
  "ga_fitness pb p = ga_scale pb * ga_cost pb p + ga_scale pb * ga_weight pb +
     (ga_weight pb * max 0 (- ga_slack pb p) +
      (if ga_c3 pb p > 0 then 0 else ga_weight pb * (ga_scale pb * (ga_maximum pb + 1))))"

text \<open>Feasible individuals first, by cost and slack; the others by fitness; ties lexicographically.\<close>

type_synonym ga_key = "nat \<times> int \<times> int \<times> nat list"

definition ga_key :: "ga_problem \<Rightarrow> nat list \<Rightarrow> ga_key" where
  "ga_key pb p = (if ga_feasible pb p then (0, ga_cost pb p, ga_slack pb p, p) else (1, ga_fitness pb p, 0, p))"

definition ga_choose :: "ga_problem \<Rightarrow> nat list \<Rightarrow> nat list \<Rightarrow> nat list" where
  "ga_choose pb a b = (if ga_key pb a < ga_key pb b then a else b)"

definition ga_elite :: "ga_problem \<Rightarrow> nat \<Rightarrow> nat list list \<Rightarrow> nat list list" where
  "ga_elite pb slots population = take slots (sort_key (ga_key pb) population)"

section \<open>Repair\<close>

record ga_scan =
  gs_cost :: int
  gs_slack :: int
  gs_id :: int
  gs_have :: bool
  g3_cost :: int
  g3_slack :: int
  g3_id :: int
  g3_have :: bool

abbreviation row_cost :: "row list \<Rightarrow> nat list \<Rightarrow> nat \<Rightarrow> int" where
  "row_cost rows p row \<equiv> the (rows ! row ! (p ! row - 1))"

definition ga_delta_cost :: "ga_problem \<Rightarrow> nat list \<Rightarrow> nat \<Rightarrow> int \<Rightarrow> int" where
  "ga_delta_cost pb p row cost = cost - row_cost (ga_rows pb) p row"

definition ga_delta_slack :: "ga_problem \<Rightarrow> nat list \<Rightarrow> nat \<Rightarrow> nat \<Rightarrow> int \<Rightarrow> int" where
  "ga_delta_slack pb p row m cost =
     w_linear (ga_scale pb) (ga_threshold pb) (Suc m) cost -
     w_linear (ga_scale pb) (ga_threshold pb) (p ! row) (row_cost (ga_rows pb) p row)"

definition count3 :: "nat list \<Rightarrow> int" where
  "count3 p = int (length (filter (\<lambda>q. q = 3) p))"

definition ga_best3 :: "int \<Rightarrow> int \<Rightarrow> int \<Rightarrow> ga_scan \<Rightarrow> ga_scan" where
  "ga_best3 move delta_cost delta_slack sc = (let replace = (\<not> g3_have sc \<or> delta_cost < g3_cost sc) in
     sc\<lparr>g3_cost := (if replace then delta_cost else g3_cost sc),
        g3_slack := (if replace then delta_slack else g3_slack sc),
        g3_id := (if replace then move else g3_id sc), g3_have := g3_have sc \<or> replace\<rparr>)"

definition ga_consider :: "ga_problem \<Rightarrow> nat list \<Rightarrow> bool \<Rightarrow> nat \<Rightarrow> nat \<Rightarrow> ga_scan \<Rightarrow> ga_scan" where
  "ga_consider pb p need3 row m sc = (case ga_rows pb ! row ! m of None \<Rightarrow> sc
   | Some cost \<Rightarrow>
      (let dc = ga_delta_cost pb p row cost; ds = ga_delta_slack pb p row m cost;
           valid = (0 < ds \<and> (if m \<noteq> 2 then count3 p - (if p ! row = 3 then 1 else 0) > 0 else \<not> need3));
           sc = (if m \<noteq> 2 then sc else ga_best3 (move_id row m) dc ds sc);
           replace = (valid \<and> (\<not> gs_have sc \<or> dc * gs_slack sc < gs_cost sc * ds))
       in sc\<lparr>gs_cost := (if replace then dc else gs_cost sc), gs_slack := (if replace then ds else gs_slack sc),
             gs_id := (if replace then move_id row m else gs_id sc), gs_have := gs_have sc \<or> valid\<rparr>))"

definition empty_scan :: ga_scan where
  "empty_scan = \<lparr>gs_cost = 0, gs_slack = 0, gs_id = 0, gs_have = False, g3_cost = 0, g3_slack = 0, g3_id = 0,
     g3_have = False\<rparr>"

definition ga_scan_moves :: "ga_problem \<Rightarrow> nat list \<Rightarrow> ga_scan" where
  "ga_scan_moves pb p = fold (\<lambda>move. ga_consider pb p (\<not> 0 < ga_c3 pb p) (fst move) (snd move))
     (moves (length (ga_rows pb))) empty_scan"

text \<open>The move with the number \<open>selected\<close>, made at its place in the scan, if it is one of the available ones.\<close>

definition ga_apply :: "ga_problem \<Rightarrow> bool \<Rightarrow> int \<Rightarrow> nat \<times> nat \<Rightarrow> nat list \<Rightarrow> nat list" where
  "ga_apply pb apply_move selected move p =
     (if ga_rows pb ! fst move ! snd move \<noteq> None \<and> apply_move \<and> selected = move_id (fst move) (snd move)
      then p[fst move := Suc (snd move)] else p)"

definition ga_repair_round :: "ga_problem \<Rightarrow> nat list \<Rightarrow> nat list" where
  "ga_repair_round pb p =
     (let sc = ga_scan_moves pb p; need3 = (\<not> 0 < ga_c3 pb p);
          selected = (if need3 then g3_id sc else gs_id sc);
          apply_move = (\<not> ga_feasible pb p \<and> (gs_have sc \<or> (need3 \<and> g3_have sc)))
      in fold (ga_apply pb apply_move selected) (moves (length (ga_rows pb))) p)"

definition ga_repair :: "ga_problem \<Rightarrow> nat \<Rightarrow> nat list \<Rightarrow> nat list" where
  "ga_repair pb rounds p = (ga_repair_round pb ^^ rounds) p"

section \<open>Individuals and offspring\<close>

definition ga_random :: "ga_problem \<Rightarrow> (nat \<Rightarrow> 64 word) \<Rightarrow> nat \<Rightarrow> nat list" where
  "ga_random pb mt k = map (\<lambda>row. let choices = available (ga_rows pb ! row) in
     Suc (choices ! (unat (mt (k + row)) mod length choices))) [0..<length (ga_rows pb)]"

definition cheapest_method :: "row \<Rightarrow> nat" where
  "cheapest_method r = fst (fold (\<lambda>m acc. if the (r ! m) < snd acc then (m, the (r ! m)) else acc)
     (tl (available r)) (hd (available r), the (r ! hd (available r))))"

definition ga_cheapest :: "ga_problem \<Rightarrow> nat list" where
  "ga_cheapest pb = map (\<lambda>r. Suc (cheapest_method r)) (ga_rows pb)"

primrec ga_turns :: "ga_problem \<Rightarrow> (nat \<Rightarrow> 64 word) \<Rightarrow> nat \<Rightarrow> nat list \<Rightarrow> nat list list \<Rightarrow> nat \<Rightarrow> nat list \<times> nat" where
  "ga_turns pb mt 0 winner population k = (winner, k)"
| "ga_turns pb mt (Suc turns) winner population k =
     ga_turns pb mt turns (ga_choose pb (population ! (unat (mt k) mod length population)) winner) population (Suc k)"

definition ga_tournament ::
  "ga_problem \<Rightarrow> pega_config \<Rightarrow> (nat \<Rightarrow> 64 word) \<Rightarrow> nat list list \<Rightarrow> nat \<Rightarrow> nat list \<times> nat" where
  "ga_tournament pb config mt population k =
     ga_turns pb mt (p_tournament_size config - 1) (population ! (unat (mt k) mod length population)) population (Suc k)"

definition ga_mutate ::
  "ga_problem \<Rightarrow> pega_config \<Rightarrow> (nat \<Rightarrow> 64 word) \<Rightarrow> nat \<Rightarrow> nat list \<times> nat \<Rightarrow> nat list \<times> nat" where
  "ga_mutate pb config mt row acc = (let p = fst acc; k = snd acc; choices = available (ga_rows pb ! row) in
     if generate_canonical (mt k) < p_mutation_rate config \<and> length choices > 1 then
       let selected = unat (mt (Suc k)) mod length choices in
       (p[row := Suc (if p ! row = Suc (choices ! selected) then choices ! ((selected + 1) mod length choices)
          else choices ! selected)], k + 2)
     else (p, Suc k))"

definition ga_child ::
  "ga_problem \<Rightarrow> pega_config \<Rightarrow> nat \<Rightarrow> (nat \<Rightarrow> 64 word) \<Rightarrow> nat list list \<Rightarrow> nat \<Rightarrow> nat list \<times> nat" where
  "ga_child pb config rounds mt population k =
     (let (child, k) = ga_tournament pb config mt population k;
          (other, k) = ga_tournament pb config mt population k;
          crossed = generate_canonical (mt k) < p_crossover_rate config;
          p = (if crossed then crossover mt (Suc k) child other else child);
          k = (if crossed then Suc k + length child else Suc k);
          (p, k) = fold (ga_mutate pb config mt) [0..<length child] (p, k)
      in (ga_repair pb rounds p, k))"

section \<open>The run\<close>

primrec ga_population ::
  "ga_problem \<Rightarrow> nat \<Rightarrow> (nat \<Rightarrow> 64 word) \<Rightarrow> nat \<Rightarrow> nat \<Rightarrow> nat list list \<times> nat" where
  "ga_population pb rounds mt 0 k = ([], k)"
| "ga_population pb rounds mt (Suc n) k =
     (let (ps, k') = ga_population pb rounds mt n (k + length (ga_rows pb))
      in (ga_repair pb rounds (ga_random pb mt k) # ps, k'))"

primrec ga_children ::
  "ga_problem \<Rightarrow> pega_config \<Rightarrow> nat \<Rightarrow> (nat \<Rightarrow> 64 word) \<Rightarrow> nat \<Rightarrow> nat list list \<Rightarrow> nat \<Rightarrow> nat list list \<times> nat" where
  "ga_children pb config rounds mt 0 population k = ([], k)"
| "ga_children pb config rounds mt (Suc n) population k =
     (let (p, k) = ga_child pb config rounds mt population k;
          (ps, k) = ga_children pb config rounds mt n population k in (p # ps, k))"

definition ga_generation ::
  "ga_problem \<Rightarrow> pega_config \<Rightarrow> nat \<Rightarrow> (nat \<Rightarrow> 64 word) \<Rightarrow> nat list list \<times> nat list \<times> nat \<Rightarrow>
     nat list list \<times> nat list \<times> nat" where
  "ga_generation pb config rounds mt acc = (case acc of (population, best, k) \<Rightarrow>
     let elite = ga_elite pb (p_elitism config) population;
         (ps, k) = ga_children pb config rounds mt (p_population config - length elite) population k
     in (elite @ ps, fold (ga_choose pb) (elite @ ps) best, k))"

definition ga_start ::
  "ga_problem \<Rightarrow> pega_config \<Rightarrow> nat \<Rightarrow> (nat \<Rightarrow> 64 word) \<Rightarrow> nat list list \<times> nat list \<times> nat" where
  "ga_start pb config rounds mt =
     (let first = ga_repair pb rounds (ga_cheapest pb);
          (others, k) = ga_population pb rounds mt (p_population config - 1) 0
      in (first # others, fold (ga_choose pb) others first, k))"

definition ga_run ::
  "ga_problem \<Rightarrow> pega_config \<Rightarrow> nat \<Rightarrow> (nat \<Rightarrow> 64 word) \<Rightarrow> nat list list \<times> nat list \<times> nat" where
  "ga_run pb config rounds mt = (ga_generation pb config rounds mt ^^ p_generations config) (ga_start pb config rounds mt)"

section \<open>Assignments\<close>

lemma available_set: "m \<in> set (available r) \<longleftrightarrow> m < 3 \<and> r ! m \<noteq> None"
proof -
  have "set [0, 1, 2] = {m :: nat. m < 3}" by auto
  then show ?thesis unfolding available_def set_filter by auto
qed

lemma available_distinct: "distinct (available r)"
  by (simp add: available_def)

lemma available_ne: "row_ok r \<Longrightarrow> available r \<noteq> []"
proof -
  assume r: "row_ok r"
  then obtain i where "i < 3" "r ! i \<noteq> None" by (auto simp: row_ok_def list_ex_iff in_set_conv_nth)
  then have "i \<in> set (available r)" by (simp add: available_set)
  then show ?thesis by (cases "available r") simp_all
qed

lemma available_pick: "row_ok r \<Longrightarrow> available r ! (k mod length (available r)) \<in> set (available r)"
  by (rule nth_mem) (simp add: available_ne)

lemma assignments_iff:
  "p \<in> set (assignments rows) \<longleftrightarrow> length p = length rows \<and>
     (\<forall>i<length rows. \<exists>m\<in>set (available (rows ! i)). p ! i = Suc m)"
proof (induction rows arbitrary: p)
  case (Cons r rs)
  note IH = Cons.IH
  show ?case
  proof (cases p)
    case (Cons q qs)
    have "p \<in> set (assignments (r # rs)) \<longleftrightarrow> (\<exists>m\<in>set (available r). q = Suc m) \<and> qs \<in> set (assignments rs)"
      unfolding assignments_Cons_set Cons by (auto simp: available_set)
    also have "\<dots> \<longleftrightarrow> length p = length (r # rs) \<and>
        (\<forall>i<length (r # rs). \<exists>m\<in>set (available ((r # rs) ! i)). p ! i = Suc m)"
      unfolding IH Cons by (simp add: All_less_Suc2 conj_ac)
    finally show ?thesis .
  qed (simp add: assignments_Cons_set del: assignments.simps)
qed simp

lemma assignments_nth:
  assumes "p \<in> set (assignments rows)" "i < length rows"
  obtains m c where "m < 3" "p ! i = Suc m" "rows ! i ! m = Some c" "m \<in> set (available (rows ! i))"
proof -
  from assms obtain m where "m \<in> set (available (rows ! i))" "p ! i = Suc m" unfolding assignments_iff by blast
  with that show thesis by (auto simp: available_set)
qed

lemma assignments_update:
  "p \<in> set (assignments rows) \<Longrightarrow> m \<in> set (available (rows ! i)) \<Longrightarrow> p[i := Suc m] \<in> set (assignments rows)"
  unfolding assignments_iff by (metis length_list_update nth_list_update_eq nth_list_update_neq)

lemma sum_by_update:
  "i < length rows \<Longrightarrow> length p = length rows \<Longrightarrow>
     sum_by w rows (p[i := q]) = sum_by w rows p - w (p ! i) (row_cost rows p i) + w q (the (rows ! i ! (q - 1)))"
proof (induction rows arbitrary: p i)
  case (Cons r rs)
  then obtain x xs where "p = x # xs" by (cases p) auto
  with Cons show ?case by (cases i) auto
qed simp

lemma available_cost:
  assumes "row_ok r" "m \<in> set (available r)"
  obtains c where "r ! m = Some c" "0 \<le> c"
proof -
  from assms(2) obtain c where c: "m < 3" "r ! m = Some c" by (auto simp: available_set)
  with assms(1) have "Some c \<in> set r" by (metis row_ok_def nth_mem)
  with assms(1) c that show thesis by (auto simp: row_ok_def)
qed

section \<open>Every individual is an assignment\<close>

definition ga_rows_ok :: "ga_problem \<Rightarrow> bool" where
  "ga_rows_ok pb \<longleftrightarrow> (\<forall>r\<in>set (ga_rows pb). row_ok r)"

abbreviation ga_valid :: "ga_problem \<Rightarrow> nat list \<Rightarrow> bool" where
  "ga_valid pb p \<equiv> p \<in> set (assignments (ga_rows pb))"

lemma ga_rows_ok_nth: "ga_rows_ok pb \<Longrightarrow> i < length (ga_rows pb) \<Longrightarrow> row_ok (ga_rows pb ! i)"
  by (simp add: ga_rows_ok_def)

lemma ga_random_valid: "ga_rows_ok pb \<Longrightarrow> ga_valid pb (ga_random pb mt k)"
  unfolding assignments_iff ga_random_def by (auto simp: Let_def available_pick ga_rows_ok_nth)

lemma fold_pair_mem:
  "fst acc \<in> A \<Longrightarrow> set ms \<subseteq> A \<Longrightarrow> fst (fold (\<lambda>m acc. if P m acc then (m, h m) else acc) ms acc) \<in> A"
  by (induction ms arbitrary: acc) auto

lemma cheapest_method_available: "row_ok r \<Longrightarrow> cheapest_method r \<in> set (available r)"
  unfolding cheapest_method_def
  by (rule fold_pair_mem) (use available_ne [of r] in \<open>auto dest: list.set_sel(2)\<close>)

lemma ga_cheapest_valid: "ga_rows_ok pb \<Longrightarrow> ga_valid pb (ga_cheapest pb)"
  unfolding assignments_iff ga_cheapest_def by (auto simp: cheapest_method_available ga_rows_ok_nth)

lemma moves_set: "(i, m) \<in> set (moves n) \<longleftrightarrow> i < n \<and> m < 3"
  by (auto simp: moves_def)

lemma ga_apply_valid:
  "ga_valid pb p \<Longrightarrow> snd move < 3 \<Longrightarrow> ga_valid pb (ga_apply pb b selected move p)"
  by (simp add: ga_apply_def assignments_update available_set)

lemma fold_invariant_on: "J b \<Longrightarrow> (\<And>x b. x \<in> set xs \<Longrightarrow> J b \<Longrightarrow> J (f x b)) \<Longrightarrow> J (fold f xs b)"
  by (induction xs arbitrary: b) auto

lemma ga_repair_round_valid: "ga_valid pb p \<Longrightarrow> ga_valid pb (ga_repair_round pb p)"
  unfolding ga_repair_round_def Let_def
  by (rule fold_invariant_on) (auto intro: ga_apply_valid simp: moves_set)

lemma ga_repair_valid: "ga_valid pb p \<Longrightarrow> ga_valid pb (ga_repair pb rounds p)"
  unfolding ga_repair_def by (induction rounds) (simp_all add: ga_repair_round_valid)

lemma crossover_valid:
  "ga_valid pb a \<Longrightarrow> ga_valid pb b \<Longrightarrow> ga_valid pb (crossover mt k a b)"
  unfolding assignments_iff by (auto simp: crossover_def)

lemma ga_mutate_valid:
  assumes "ga_rows_ok pb" "row < length (ga_rows pb)" "ga_valid pb (fst acc)"
  shows "ga_valid pb (fst (ga_mutate pb config mt row acc))"
  using assms(3) available_pick [OF ga_rows_ok_nth [OF assms(1,2)]]
  by (auto simp: ga_mutate_def Let_def intro!: assignments_update)

lemma ga_choose_cases: "ga_choose pb a b = a \<or> ga_choose pb a b = b"
  by (simp add: ga_choose_def)

lemma ga_turns_mem:
  "population \<noteq> [] \<Longrightarrow> winner \<in> set population \<Longrightarrow> fst (ga_turns pb mt turns winner population k) \<in> set population"
proof (induction turns arbitrary: winner k)
  case (Suc turns)
  have "population ! (unat (mt k) mod length population) \<in> set population" using Suc.prems(1) by simp
  then have "ga_choose pb (population ! (unat (mt k) mod length population)) winner \<in> set population"
    using Suc.prems(2) ga_choose_cases by metis
  with Suc show ?case by simp
qed simp

lemma ga_tournament_mem: "population \<noteq> [] \<Longrightarrow> fst (ga_tournament pb config mt population k) \<in> set population"
  unfolding ga_tournament_def by (rule ga_turns_mem) simp_all

definition ga_valid_all :: "ga_problem \<Rightarrow> nat list list \<Rightarrow> bool" where
  "ga_valid_all pb ps \<longleftrightarrow> ps \<noteq> [] \<and> (\<forall>p\<in>set ps. ga_valid pb p)"

lemma ga_child_valid:
  assumes "ga_rows_ok pb" "ga_valid_all pb population"
  shows "ga_valid pb (fst (ga_child pb config rounds mt population k))"
proof -
  obtain a k1 where a: "ga_tournament pb config mt population k = (a, k1)" by fastforce
  obtain b k2 where b: "ga_tournament pb config mt population k1 = (b, k2)" by fastforce
  have v: "ga_valid pb a" "ga_valid pb b"
    using ga_tournament_mem [of population pb config mt] assms(2) a b by (metis fst_conv ga_valid_all_def)+
  let ?c = "generate_canonical (mt k2) < p_crossover_rate config"
  let ?p = "if ?c then crossover mt (Suc k2) a b else a" and ?k = "if ?c then Suc k2 + length a else Suc k2"
  have p: "ga_valid pb ?p" using v crossover_valid by simp
  have "ga_valid pb (fst (fold (ga_mutate pb config mt) [0..<length a] (?p, ?k)))"
    by (rule fold_invariant_on [where J = "\<lambda>acc. ga_valid pb (fst acc)"])
       (use p ga_mutate_valid [OF assms(1)] assignments_length [OF v(1)] in auto)
  then show ?thesis
    by (auto simp: ga_child_def a b Let_def split: prod.splits intro!: ga_repair_valid)
qed

lemma ga_population_valid:
  "ga_rows_ok pb \<Longrightarrow> \<forall>p\<in>set (fst (ga_population pb rounds mt n k)). ga_valid pb p"
proof (induction n arbitrary: k)
  case (Suc n)
  from Suc.IH [OF Suc.prems, of "k + length (ga_rows pb)"] Suc.prems show ?case
    by (auto simp: ga_repair_valid ga_random_valid split: prod.splits)
qed simp

lemma ga_children_valid:
  "ga_rows_ok pb \<Longrightarrow> ga_valid_all pb population \<Longrightarrow>
     \<forall>p\<in>set (fst (ga_children pb config rounds mt n population k)). ga_valid pb p"
proof (induction n arbitrary: k)
  case (Suc n)
  obtain p k1 where c: "ga_child pb config rounds mt population k = (p, k1)" by fastforce
  have "ga_valid pb p" using ga_child_valid [OF Suc.prems, of config rounds mt k] c by simp
  with Suc.IH [OF Suc.prems, of k1] show ?case by (auto simp: c split: prod.splits)
qed simp

section \<open>The ranking\<close>

lemma ga_key_inj: "ga_key pb a = ga_key pb b \<Longrightarrow> a = b"
  by (auto simp: ga_key_def split: if_splits)

lemma ga_choose_le: "ga_key pb (ga_choose pb a b) \<le> ga_key pb a \<and> ga_key pb (ga_choose pb a b) \<le> ga_key pb b"
  by (auto simp: ga_choose_def)

lemma ga_best_le:
  "ga_key pb (fold (ga_choose pb) ps b) \<le> ga_key pb b \<and>
   (\<forall>p\<in>set ps. ga_key pb (fold (ga_choose pb) ps b) \<le> ga_key pb p)"
proof (induction ps arbitrary: b)
  case (Cons p ps)
  from Cons [of "ga_choose pb p b"] ga_choose_le [of pb p b] show ?case by (auto intro: order_trans)
qed simp

lemma ga_best_mem: "fold (ga_choose pb) ps b \<in> insert b (set ps)"
proof (induction ps arbitrary: b)
  case (Cons p ps)
  from Cons [of "ga_choose pb p b"] ga_choose_cases [of pb p b] show ?case by auto
qed simp

text \<open>
  The insertion network: what is carried through the ranks. It keeps the first ranks of the sorted
  list, and ends with the last.
\<close>

definition net_step :: "ga_problem \<Rightarrow> nat list \<Rightarrow> nat list list \<times> nat list \<Rightarrow> nat list list \<times> nat list" where
  "net_step pb x acc = (fst acc @ [ga_choose pb (snd acc) x], if ga_key pb (snd acc) < ga_key pb x then x else snd acc)"

lemma insort_key_first: "\<forall>x\<in>set xs. f c \<le> f x \<Longrightarrow> insort_key f c xs = c # xs"
  by (cases xs) simp_all

lemma net_insert:
  "sorted (map (ga_key pb) xs) \<Longrightarrow>
     fold (net_step pb) xs (ys, c) = (ys @ take (length xs) (insort_key (ga_key pb) c xs), last (insort_key (ga_key pb) c xs))"
proof (induction xs arbitrary: ys c)
  case (Cons x xs)
  then have le: "\<forall>y\<in>set xs. ga_key pb x \<le> ga_key pb y" and s: "sorted (map (ga_key pb) xs)" by auto
  have x: "insort_key (ga_key pb) x xs = x # xs" by (rule insort_key_first [OF le])
  have ne: "insort_key (ga_key pb) c xs \<noteq> []" for c by (metis insort_not_Nil)
  show ?case
  proof (cases "ga_key pb c < ga_key pb x")
    case True
    with Cons.IH [OF s, of "ys @ [c]" x] x less_imp_le [OF True] show ?thesis
      by (simp add: net_step_def ga_choose_def)
  next
    case False
    then have "insort_key (ga_key pb) c (x # xs) = x # insort_key (ga_key pb) c xs"
    proof (cases "ga_key pb c = ga_key pb x")
      case True
      then have "c = x" by (rule ga_key_inj)
      with x show ?thesis by simp
    qed (use False in simp)
    then show ?thesis using Cons.IH [OF s, of "ys @ [x]" c] False ne by (simp add: net_step_def ga_choose_def)
  qed
qed simp

lemma take_insort: "take n (insort_key f c (take n xs)) = take n (insort_key f c xs)"
proof (induction xs arbitrary: n)
  case (Cons x xs)
  show ?case by (cases n) (use Cons in \<open>auto simp: take_Cons'\<close>)
qed simp

lemma sort_key_snoc: "sort_key (ga_key pb) (xs @ [x]) = insort_key (ga_key pb) x (sort_key (ga_key pb) xs)"
proof (rule sort_key_inj_key_eq)
  show "inj_on (ga_key pb) (set (xs @ [x]))" by (rule inj_onI) (erule ga_key_inj)
  show "sorted (map (ga_key pb) (insort_key (ga_key pb) x (sort_key (ga_key pb) xs)))"
    by (simp only: sorted_insort_key sorted_sort_key)
qed simp

lemma ga_elite_snoc:
  assumes "length elite \<le> slots" "elite = ga_elite pb slots ps"
  shows "ga_elite pb slots (ps @ [p]) =
    (let (kept, carry) = fold (net_step pb) elite ([], p) in if length kept < slots then kept @ [carry] else kept)"
proof -
  let ?s = "sort_key (ga_key pb) ps" and ?i = "insort_key (ga_key pb) p elite"
  have e: "elite = take slots ?s" using assms(2) by (simp add: ga_elite_def)
  have "sorted (map (ga_key pb) elite)" unfolding e by (metis sorted_sort_key sorted_wrt_take take_map)
  then have n: "fold (net_step pb) elite ([], p) = (take (length elite) ?i, last ?i)" by (simp add: net_insert)
  have len: "length ?i = Suc (length elite)" by (rule length_insort)
  then have ne: "?i \<noteq> []" by auto
  have "ga_elite pb slots (ps @ [p]) = take slots ?i"
    unfolding ga_elite_def sort_key_snoc e take_insort ..
  also have "\<dots> = (if length elite < slots then take (length elite) ?i @ [last ?i] else take (length elite) ?i)"
  proof (cases "length elite < slots")
    case True
    then have "take slots ?i = ?i" using len by simp
    also have "\<dots> = butlast ?i @ [last ?i]" using ne by simp
    also have "butlast ?i = take (length elite) ?i" by (simp add: butlast_conv_take len)
    finally show ?thesis using True by simp
  qed (use assms(1) in simp)
  finally show ?thesis by (simp add: n len)
qed

lemma ga_elite_length: "length (ga_elite pb slots ps) = min slots (length ps)"
  by (simp add: ga_elite_def min.commute)

lemma ga_elite_subset: "set (ga_elite pb slots ps) \<subseteq> set ps"
  unfolding ga_elite_def by (metis set_sort set_take_subset)

section \<open>Ranges\<close>

text \<open>
  What keeps every intermediate value an operand: the costs, the products of repair, and the largest
  fitness.
\<close>

definition ga_fits :: "ga_problem \<Rightarrow> int \<Rightarrow> bool" where
  "ga_fits pb bound \<longleftrightarrow> ga_rows pb \<noteq> [] \<and> ga_rows_ok pb \<and> 0 \<le> ga_threshold pb \<and> ga_threshold pb < ga_scale pb \<and>
     0 < ga_penalty pb \<and> 3 * int (length (ga_rows pb)) < bound \<and>
     ga_scale pb * ga_maximum pb + ga_scale pb * ga_weight pb + (ga_weight pb * (ga_scale pb * ga_maximum pb) +
       ga_weight pb * (ga_scale pb * (ga_maximum pb + 1))) < bound \<and>
     (\<exists>C>0. (\<forall>r\<in>set (ga_rows pb). \<forall>c. Some c \<in> set r \<longrightarrow> c \<le> C) \<and> ga_scale pb * C * C < bound \<and> 2 * (ga_scale pb * C) < bound)"

lemma fold_max_ge:
  fixes x :: int
  shows "x \<le> fold (\<lambda>m x. max (h m) x) ms x" "m \<in> set ms \<Longrightarrow> h m \<le> fold (\<lambda>m x. max (h m) x) ms x"
proof -
  have a: "x \<le> fold (\<lambda>m x. max (h m) x) ms x" for x :: int and ms
  proof (induction ms arbitrary: x)
    case (Cons m ms)
    from Cons [of "max (h m) x"] show ?case by simp
  qed simp
  show "x \<le> fold (\<lambda>m x. max (h m) x) ms x" by (rule a)
  show "m \<in> set ms \<Longrightarrow> h m \<le> fold (\<lambda>m x. max (h m) x) ms x"
  proof (induction ms arbitrary: x)
    case (Cons k ms)
    then show ?case using a [of "max (h k) x"] by auto
  qed simp
qed

lemma row_maximum_ge: "m \<in> set (available r) \<Longrightarrow> the (r ! m) \<le> row_maximum r"
  unfolding row_maximum_def
  using fold_max_ge(1) [of "the (r ! hd (available r))" "\<lambda>m. the (r ! m)" "tl (available r)"]
    fold_max_ge(2) [of m "tl (available r)" "\<lambda>m. the (r ! m)" "the (r ! hd (available r))"]
  by (cases "available r") auto

lemma sum_by_le_maximum:
  "p \<in> set (assignments rows) \<Longrightarrow> sum_by w_cost rows p \<le> sum_list (map row_maximum rows)"
proof (induction rows arbitrary: p)
  case (Cons r rs)
  from Cons.prems obtain j ys where j: "j < 3" "r ! j \<noteq> None" "ys \<in> set (assignments rs)" "p = Suc j # ys"
    unfolding assignments_Cons_set by blast
  then have "the (r ! j) \<le> row_maximum r" by (intro row_maximum_ge) (simp add: available_set)
  with Cons.IH [OF j(3)] j(4) show ?case by (simp add: w_cost_def)
qed simp

lemma ga_ranges:
  assumes ok: "ga_rows_ok pb" and p: "ga_valid pb p"
  shows "0 \<le> ga_c12 pb p" "0 \<le> ga_c3 pb p" "ga_c12 pb p + ga_c3 pb p = ga_cost pb p"
    "ga_cost pb p \<le> ga_maximum pb" "0 \<le> ga_maximum pb"
    "ga_slack pb p = ga_scale pb * ga_c12 pb p - ga_threshold pb * ga_cost pb p"
proof -
  have r: "\<forall>r\<in>set (ga_rows pb). row_ok r" using ok by (simp add: ga_rows_ok_def)
  show a: "0 \<le> ga_c12 pb p" "0 \<le> ga_c3 pb p"
    unfolding ga_c12_def ga_c3_def by (rule sum_by_nonneg [OF r p], simp add: w_c12_def w_c3_def)+
  show b: "ga_c12 pb p + ga_c3 pb p = ga_cost pb p" by (simp add: ga_c12_def ga_c3_def ga_cost_def sum_by_c12_c3)
  show c: "ga_cost pb p \<le> ga_maximum pb" unfolding ga_cost_def ga_maximum_def by (rule sum_by_le_maximum [OF p])
  show "0 \<le> ga_maximum pb" using a b c by linarith
  show "ga_slack pb p = ga_scale pb * ga_c12 pb p - ga_threshold pb * ga_cost pb p"
    by (simp add: ga_slack_def ga_c12_def ga_cost_def sum_by_linear)
qed

lemma ga_slack_range:
  assumes "ga_rows_ok pb" "0 \<le> ga_threshold pb" "ga_threshold pb < ga_scale pb" "ga_valid pb p"
  shows "- (ga_threshold pb * ga_maximum pb) \<le> ga_slack pb p" "ga_slack pb p \<le> (ga_scale pb - ga_threshold pb) * ga_maximum pb"
proof -
  note r = ga_ranges [OF assms(1,4)]
  have "ga_threshold pb * ga_cost pb p \<le> ga_threshold pb * ga_maximum pb" using r(4) assms(2) by (rule mult_left_mono)
  moreover have "0 \<le> ga_scale pb * ga_c12 pb p" using r(1) assms by simp
  ultimately show "- (ga_threshold pb * ga_maximum pb) \<le> ga_slack pb p" unfolding r(6) by linarith
  have "ga_scale pb * ga_c12 pb p \<le> ga_scale pb * ga_cost pb p" using r(1-3) assms by (intro mult_left_mono) linarith+
  then have "ga_slack pb p \<le> (ga_scale pb - ga_threshold pb) * ga_cost pb p" unfolding r(6) by (simp add: algebra_simps)
  also have "\<dots> \<le> (ga_scale pb - ga_threshold pb) * ga_maximum pb" using r(4) assms by (intro mult_left_mono) linarith+
  finally show "ga_slack pb p \<le> (ga_scale pb - ga_threshold pb) * ga_maximum pb" .
qed

lemma ga_fits_weights:
  assumes "ga_fits pb bound" "ga_valid pb q"
  shows "1 \<le> ga_weight pb" "0 \<le> ga_maximum pb" "ga_maximum pb \<le> ga_scale pb * ga_maximum pb"
    "ga_scale pb * ga_maximum pb < bound" "ga_weight pb < bound" "ga_weight pb * (ga_scale pb * (ga_maximum pb + 1)) < bound"
    "ga_scale pb * (ga_maximum pb + 1) < bound" "0 < ga_scale pb"
    "0 \<le> ga_scale pb * ga_weight pb" "0 \<le> ga_scale pb * (ga_maximum pb + 1)"
    "0 \<le> ga_weight pb * (ga_scale pb * ga_maximum pb)" "0 \<le> ga_weight pb * (ga_scale pb * (ga_maximum pb + 1))"
proof -
  let ?M = "ga_maximum pb" and ?S = "ga_scale pb" and ?P = "ga_weight pb"
  have f: "ga_rows_ok pb" "0 < ga_penalty pb" "0 < ?S"
    "?S * ?M + ?S * ?P + (?P * (?S * ?M) + ?P * (?S * (?M + 1))) < bound"
    using assms(1) by (simp_all add: ga_fits_def)
  show M: "0 \<le> ?M" by (rule ga_ranges(5) [OF f(1) assms(2)])
  have "1 * 1 \<le> ga_penalty pb * (?M + 1)" using M f(2) by (intro mult_mono) simp_all
  then show P: "1 \<le> ?P" by (simp add: ga_weight_def)
  show S: "0 < ?S" by (rule f(3))
  show SM: "?M \<le> ?S * ?M" using mult_right_mono [of 1 ?S ?M] M S by simp
  have SP: "?P \<le> ?S * ?P" using mult_right_mono [of 1 ?S ?P] P S by simp
  show a: "0 \<le> ?S * ?P" "0 \<le> ?S * (?M + 1)" using P S M by simp_all
  show b: "0 \<le> ?P * (?S * ?M)" "0 \<le> ?P * (?S * (?M + 1))" using P S M by simp_all
  have c: "?S * (?M + 1) \<le> ?P * (?S * (?M + 1))" using mult_right_mono [OF P a(2)] by simp
  show "?S * ?M < bound" "?P < bound" "?P * (?S * (?M + 1)) < bound" "?S * (?M + 1) < bound"
    using f(4) a b c SP SM M by linarith+
qed

lemma ga_fits_values:
  assumes "ga_fits pb bound" "ga_valid pb p"
  shows "\<bar>ga_cost pb p\<bar> < bound" "\<bar>ga_c12 pb p\<bar> < bound" "\<bar>ga_c3 pb p\<bar> < bound" "\<bar>ga_slack pb p\<bar> < bound"
    "\<bar>max 0 (- ga_slack pb p)\<bar> < bound" "\<bar>ga_fitness pb p\<bar> < bound"
proof -
  let ?M = "ga_maximum pb" and ?S = "ga_scale pb" and ?P = "ga_weight pb" and ?T = "ga_threshold pb"
  have f: "ga_rows_ok pb" "0 \<le> ?T" "?T < ?S"
    "?S * ?M + ?S * ?P + (?P * (?S * ?M) + ?P * (?S * (?M + 1))) < bound"
    using assms(1) by (simp_all add: ga_fits_def)
  note r = ga_ranges [OF f(1) assms(2)] and s = ga_slack_range [OF f(1-3) assms(2)]
    and w = ga_fits_weights [OF assms]
  show "\<bar>ga_cost pb p\<bar> < bound" "\<bar>ga_c12 pb p\<bar> < bound" "\<bar>ga_c3 pb p\<bar> < bound" using r w(3,4) by linarith+
  have "?T * ?M \<le> ?S * ?M" "(?S - ?T) * ?M \<le> ?S * ?M" using f(2,3) w(2) by (intro mult_right_mono; linarith)+
  then have sl: "- (?S * ?M) \<le> ga_slack pb p" "ga_slack pb p \<le> ?S * ?M" using s by linarith+
  then show "\<bar>ga_slack pb p\<bar> < bound" "\<bar>max 0 (- ga_slack pb p)\<bar> < bound" using w(4) by linarith+
  have "max 0 (- ga_slack pb p) \<le> ?S * ?M" using sl w(2,3) by linarith
  then have "?P * max 0 (- ga_slack pb p) \<le> ?P * (?S * ?M)" using w(1) by (intro mult_left_mono) simp_all
  moreover have "0 \<le> ?P * max 0 (- ga_slack pb p)" using w(1) by simp
  moreover have "?S * ga_cost pb p \<le> ?S * ?M" using r(4) w(8) by simp
  moreover have "0 \<le> ?S * ga_cost pb p" using r w(8) by simp
  moreover have "(if ga_c3 pb p > 0 then 0 else ?P * (?S * (?M + 1))) \<le> ?P * (?S * (?M + 1))"
    "0 \<le> (if ga_c3 pb p > 0 then 0 else ?P * (?S * (?M + 1)))" using w(12) by simp_all
  ultimately show "\<bar>ga_fitness pb p\<bar> < bound" using f(4) w(9) unfolding ga_fitness_def by linarith
qed

lemma ga_fits_differences:
  assumes "ga_fits pb bound" "ga_valid pb p" "ga_valid pb q"
  shows "\<bar>ga_cost pb p - ga_cost pb q\<bar> < bound" "\<bar>ga_c12 pb p - ga_c12 pb q\<bar> < bound"
    "\<bar>ga_c3 pb p - ga_c3 pb q\<bar> < bound" "\<bar>ga_slack pb p - ga_slack pb q\<bar> < bound"
proof -
  have f: "ga_rows_ok pb" "0 \<le> ga_threshold pb" "ga_threshold pb < ga_scale pb" using assms(1) by (simp_all add: ga_fits_def)
  note r = ga_ranges [OF f(1) assms(2)] ga_ranges [OF f(1) assms(3)]
    and s = ga_slack_range [OF f assms(2)] ga_slack_range [OF f assms(3)]
    and w = ga_fits_weights [OF assms(1,2)]
  show "\<bar>ga_cost pb p - ga_cost pb q\<bar> < bound" "\<bar>ga_c12 pb p - ga_c12 pb q\<bar> < bound"
    "\<bar>ga_c3 pb p - ga_c3 pb q\<bar> < bound" using r w(3,4) by linarith+
  have "(ga_scale pb - ga_threshold pb) * ga_maximum pb + ga_threshold pb * ga_maximum pb = ga_scale pb * ga_maximum pb"
    by (simp add: algebra_simps)
  then show "\<bar>ga_slack pb p - ga_slack pb q\<bar> < bound" using s w(4) by linarith
qed

lemma ga_fits_row:
  assumes "ga_fits pb bound"
  obtains C where "0 < C" "\<And>row m c. row < length (ga_rows pb) \<Longrightarrow> m < 3 \<Longrightarrow> ga_rows pb ! row ! m = Some c \<Longrightarrow> 0 \<le> c \<and> c \<le> C"
    "ga_scale pb * C * C < bound" "2 * (ga_scale pb * C) < bound" "2 * C < bound"
proof -
  obtain C where C: "0 < C" "\<forall>r\<in>set (ga_rows pb). \<forall>c. Some c \<in> set r \<longrightarrow> c \<le> C" "ga_scale pb * C * C < bound"
    "2 * (ga_scale pb * C) < bound" using assms by (auto simp: ga_fits_def)
  have f: "ga_rows_ok pb" "0 < ga_scale pb" using assms by (simp_all add: ga_fits_def)
  have "1 * C \<le> ga_scale pb * C" using C(1) f(2) by (intro mult_right_mono) simp_all
  then have "2 * C < bound" using C(4) by linarith
  moreover have "0 \<le> c \<and> c \<le> C" if "row < length (ga_rows pb)" "m < 3" "ga_rows pb ! row ! m = Some c" for row m c
  proof -
    have ok: "row_ok (ga_rows pb ! row)" by (rule ga_rows_ok_nth [OF f(1) that(1)])
    then have "Some c \<in> set (ga_rows pb ! row)" using that by (metis row_ok_def nth_mem)
    with ok C(2) that(1) show ?thesis by (auto simp: row_ok_def)
  qed
  ultimately show thesis using C that by blast
qed

end
