(* ===== verification/PegaRefine.thy ===== *)
theory PegaRefine
  imports GeneticPlan
begin

text \<open>
  The confidential optimizer carries out the genetic search of theory GeneticPlan: under the contract of
  the secure operations, every function of theory Pega yields encryptions of what its plain counterpart
  computes. \<open>ind_ok\<close> relates an encrypted individual to an assignment, \<open>vectors_ok\<close> the
  row vectors that evaluation fills and repair updates.
\<close>

section \<open>What the ciphertexts stand for\<close>

definition gene_ok :: "(cipher \<Rightarrow> int \<Rightarrow> bool) \<Rightarrow> cipher list \<Rightarrow> nat \<Rightarrow> bool" where
  "gene_ok enc g q \<longleftrightarrow> length g = 3 \<and> (\<forall>j<3. enc (g ! j) (b2i (q = Suc j)))"

definition sums_ok :: "(cipher \<Rightarrow> int \<Rightarrow> bool) \<Rightarrow> ga_problem \<Rightarrow> nat list \<Rightarrow> individual \<Rightarrow> bool" where
  "sums_ok enc pb p v \<longleftrightarrow> enc (i_total v) (ga_cost pb p) \<and> enc (i_c12 v) (ga_c12 pb p) \<and>
     enc (i_c3 v) (ga_c3 pb p) \<and> enc (i_linear v) (ga_slack pb p)"

definition caches_ok :: "(cipher \<Rightarrow> int \<Rightarrow> bool) \<Rightarrow> ga_problem \<Rightarrow> nat list \<Rightarrow> individual \<Rightarrow> bool" where
  "caches_ok enc pb p v \<longleftrightarrow> (\<forall>b. i_feasible v = Some b \<longrightarrow> enc_bit enc b (ga_feasible pb p)) \<and>
     (\<forall>f. i_fitness v = Some f \<longrightarrow> enc f (ga_fitness pb p))"

definition ind_ok :: "(cipher \<Rightarrow> int \<Rightarrow> bool) \<Rightarrow> ga_problem \<Rightarrow> nat list \<Rightarrow> individual \<Rightarrow> bool" where
  "ind_ok enc pb p v \<longleftrightarrow> ga_valid pb p \<and> list_all2 (gene_ok enc) (i_genes v) p \<and> sums_ok enc pb p v \<and> caches_ok enc pb p v"

definition vector_ok ::
  "(cipher \<Rightarrow> int \<Rightarrow> bool) \<Rightarrow> ga_problem \<Rightarrow> nat list \<Rightarrow> (nat \<Rightarrow> int \<Rightarrow> int) \<Rightarrow> cipher list \<Rightarrow> bool" where
  "vector_ok enc pb p w cs \<longleftrightarrow> length cs = length (ga_rows pb) \<and>
     (\<forall>i<length (ga_rows pb). enc (cs ! i) (w (p ! i) (row_cost (ga_rows pb) p i)))"

definition vectors_ok :: "(cipher \<Rightarrow> int \<Rightarrow> bool) \<Rightarrow> ga_problem \<Rightarrow> nat list \<Rightarrow> individual \<Rightarrow> bool" where
  "vectors_ok enc pb p v \<longleftrightarrow> vector_ok enc pb p w_cost (i_row_cost v) \<and>
     vector_ok enc pb p (w_linear (ga_scale pb) (ga_threshold pb)) (i_row_linear v) \<and>
     vector_ok enc pb p w_c12 (i_row_c12 v) \<and> vector_ok enc pb p w_c3 (i_row_c3 v)"

definition pega_ok :: "(cipher \<Rightarrow> int \<Rightarrow> bool) \<Rightarrow> int \<Rightarrow> ga_problem \<Rightarrow> pega \<Rightarrow> bool" where
  "pega_ok enc bound pb pg \<longleftrightarrow> ga_fits pb bound \<and> list_all2 (enc_row enc) (g_costs pg) (ga_rows pb) \<and>
     enc (g_zero pg) 0 \<and> enc (g_one pg) 1 \<and> g_scale pg = ga_scale pb \<and> q_threshold (g_request pg) = ga_threshold pb \<and>
     enc (g_penalty pg) (ga_weight pb) \<and> enc (g_penalty_scaled pg) (ga_scale pb * ga_weight pb) \<and>
     enc (g_missing_penalty pg) (ga_weight pb * (ga_scale pb * (ga_maximum pb + 1)))"

lemma pega_okD:
  assumes "pega_ok enc bound pb pg"
  shows "ga_fits pb bound" "ga_rows_ok pb" "length (g_costs pg) = length (ga_rows pb)" "enc (g_zero pg) 0" "enc (g_one pg) 1"
    "g_scale pg = ga_scale pb" "q_threshold (g_request pg) = ga_threshold pb" "enc (g_penalty pg) (ga_weight pb)"
    "enc (g_penalty_scaled pg) (ga_scale pb * ga_weight pb)"
    "enc (g_missing_penalty pg) (ga_weight pb * (ga_scale pb * (ga_maximum pb + 1)))"
  using assms by (auto simp: pega_ok_def ga_fits_def dest: list_all2_lengthD)

lemma pega_cost:
  assumes "pega_ok enc bound pb pg" "row < length (ga_rows pb)"
  shows "length (g_costs pg ! row) = 3" "m < 3 \<Longrightarrow> rel_option enc (g_costs pg ! row ! m) (ga_rows pb ! row ! m)"
proof -
  have e: "enc_row enc (g_costs pg ! row) (ga_rows pb ! row)"
    using assms by (auto simp: pega_ok_def list_all2_conv_all_nth)
  have "row_ok (ga_rows pb ! row)" using ga_rows_ok_nth [OF pega_okD(2) [OF assms(1)] assms(2)] .
  with e show "length (g_costs pg ! row) = 3" "m < 3 \<Longrightarrow> rel_option enc (g_costs pg ! row ! m) (ga_rows pb ! row ! m)"
    by (auto simp: enc_row_def row_ok_def list_all2_conv_all_nth)
qed

lemma pega_available:
  assumes "pega_ok enc bound pb pg" "row < length (ga_rows pb)"
  shows "available (g_costs pg ! row) = available (ga_rows pb ! row)"
proof -
  have "(g_costs pg ! row ! m \<noteq> None) = (ga_rows pb ! row ! m \<noteq> None)" if "m \<in> set [0, 1, 2]" for m
    using pega_cost(2) [OF assms, of m] that by (auto simp: rel_option_iff split: option.splits)
  then show ?thesis unfolding available_def by (intro filter_cong) auto
qed

lemma pega_weight:
  "pega_ok enc bound pb pg \<Longrightarrow> g_weight pg m * c = w_linear (ga_scale pb) (ga_threshold pb) (Suc m) c"
  by (simp add: g_weight_def w_linear_def pega_okD)

lemma gene_okI: "list_all2 (\<lambda>j c. enc c (b2i (q = Suc j))) [0, 1, 2] g \<Longrightarrow> gene_ok enc g q"
  by (auto simp: gene_ok_def list_all2_Cons1 less_Suc_eq numeral_3_eq_3)

lemma gene_okD: "gene_ok enc g q \<Longrightarrow> j < 3 \<Longrightarrow> enc (g ! j) (b2i (q = Suc j))"
  by (simp add: gene_ok_def)

lemma gene_bits:
  assumes "gene_ok enc g q"
  shows "enc (g ! 0) (b2i (q = 1))" "enc (g ! 1) (b2i (q = 2))" "enc (g ! 2) (b2i (q = 3))"
  using gene_okD [OF assms, of 0] gene_okD [OF assms, of 1] gene_okD [OF assms, of 2]
  by (simp_all add: eval_nat_numeral)

lemma ind_okD:
  assumes "ind_ok enc pb p v"
  shows "ga_valid pb p" "length (i_genes v) = length p" "length p = length (ga_rows pb)"
    "\<And>i. i < length p \<Longrightarrow> gene_ok enc (i_genes v ! i) (p ! i)" "enc (i_total v) (ga_cost pb p)"
    "enc (i_c12 v) (ga_c12 pb p)" "enc (i_c3 v) (ga_c3 pb p)" "enc (i_linear v) (ga_slack pb p)"
    "\<And>b. i_feasible v = Some b \<Longrightarrow> enc_bit enc b (ga_feasible pb p)"
    "\<And>f. i_fitness v = Some f \<Longrightarrow> enc f (ga_fitness pb p)"
  using assms by (auto simp: ind_ok_def sums_ok_def caches_ok_def list_all2_conv_all_nth dest: assignments_length)

lemma ind_ok_fields [simp]:
  "i_genes (v\<lparr>i_feasible := c\<rparr>) = i_genes v" "i_genes (v\<lparr>i_fitness := f\<rparr>) = i_genes v"
  "vectors_ok enc pb p (v\<lparr>i_feasible := c\<rparr>) = vectors_ok enc pb p v"
  "vectors_ok enc pb p (v\<lparr>i_fitness := f\<rparr>) = vectors_ok enc pb p v"
  by (simp_all add: vectors_ok_def)

lemma ind_ok_feasible: "ind_ok enc pb p v \<Longrightarrow> enc_bit enc b (ga_feasible pb p) \<Longrightarrow> ind_ok enc pb p (v\<lparr>i_feasible := Some b\<rparr>)"
  by (simp add: ind_ok_def sums_ok_def caches_ok_def)

lemma ind_ok_fitness: "ind_ok enc pb p v \<Longrightarrow> enc f (ga_fitness pb p) \<Longrightarrow> ind_ok enc pb p (v\<lparr>i_fitness := Some f\<rparr>)"
  by (simp add: ind_ok_def sums_ok_def caches_ok_def)

lemma feasible_bits:
  assumes "ga_rows_ok pb" "ga_valid pb p"
  shows "ga_feasible pb p = ((\<not> ga_slack pb p < 0 \<and> 0 < ga_c3 pb p) \<and> 0 < ga_cost pb p)"
  using ga_ranges(1-3) [OF assms]
  by (auto simp: ga_feasible_def feasible_def ga_slack_def ga_c3_def)

section \<open>Single steps\<close>

context batched_ops
begin

lemma c_mulI: "enc a x \<Longrightarrow> enc b y \<Longrightarrow> \<bar>x\<bar> < bound \<Longrightarrow> \<bar>y\<bar> < bound \<Longrightarrow> yields cinv E (c_mul ops a b) (\<lambda>c. enc c (x * y))"
  by (rule c_mul_ok) (simp add: operands_def)

lemma c_greaterI:
  "enc a x \<Longrightarrow> enc b y \<Longrightarrow> \<bar>x\<bar> < bound \<Longrightarrow> \<bar>y\<bar> < bound \<Longrightarrow> yields cinv E (c_greater ops a b) (\<lambda>c. enc_bit enc c (y < x))"
  by (rule c_greater_ok) (simp add: operands_def)

lemma c_lessI:
  "enc a x \<Longrightarrow> enc b y \<Longrightarrow> \<bar>x\<bar> < bound \<Longrightarrow> \<bar>y\<bar> < bound \<Longrightarrow> yields cinv E (c_less ops a b) (\<lambda>c. enc_bit enc c (x < y))"
  by (rule c_less_ok) (simp add: operands_def)

lemma c_equal_ok:
  assumes "enc a x" "enc b y" "\<bar>x\<bar> < bound" "\<bar>y\<bar> < bound"
  shows "yields cinv E (c_equal ops a b) (\<lambda>c. enc_bit enc c (x = y))"
  unfolding c_equal_def
  by (rule yields_bnd [OF c_greaterI [OF assms]], rule yields_bnd [OF c_greaterI [OF assms(2,1,4,3)]],
      rule yields_bnd [OF c_orBitExclusive_ok], assumption, assumption, simp,
      rule yields_weaken [OF c_notBit_ok], assumption) (erule back_subst [of "enc_bit enc _"], auto)

lemma small_abs [simp]: "\<bar>0 :: int\<bar> < bound" "\<bar>1 :: int\<bar> < bound" "\<bar>b2i q\<bar> < bound"
  using bound_gt by simp_all

lemmas c_steps = yields_bnd [OF c_constant_ok] yields_bnd [OF c_add_ok] yields_bnd [OF c_scalar_ok] yields_bnd [OF c_sub_ok]
  yields_bnd [OF c_mulI] yields_bnd [OF c_greaterI] yields_bnd [OF c_lessI] yields_bnd [OF c_equal_ok]
  yields_bnd [OF c_notBit_ok] yields_bnd [OF c_andBit_ok] yields_bnd [OF c_orBit_ok] yields_bnd [OF c_select_ok]

lemma oneHot_ok: "yields cinv E (oneHot ops m) (\<lambda>g. gene_ok enc g (Suc m))"
  unfolding oneHot_def
proof (rule yields_weaken)
  show "yields cinv E (mapM (\<lambda>j. if m = j then c_constant ops 1 else c_constant ops 0) [0, 1, 2])
      (list_all2 (\<lambda>j c. enc c (b2i (Suc m = Suc j))) [0, 1, 2])"
    by (rule yields_mapM) (auto intro: c_constant_ok)
qed (rule gene_okI)

lemma select_gene_ok:
  assumes c: "enc_bit enc c w" and g: "gene_ok enc yes q" "gene_ok enc no q'"
  shows "yields cinv E (select_gene ops c yes no) (\<lambda>g. gene_ok enc g (if w then q else q'))"
  unfolding select_gene_def
proof (rule yields_weaken)
  show "yields cinv E (mapM (\<lambda>j. c_select ops c (yes ! j) (no ! j)) [0, 1, 2])
      (list_all2 (\<lambda>j c. enc c (b2i ((if w then q else q') = Suc j))) [0, 1, 2])"
  proof (rule yields_mapM)
    fix j :: nat assume "j \<in> set [0, 1, 2]"
    then have j: "j < 3" by auto
    have "\<bar>b2i (q = Suc j) - b2i (q' = Suc j)\<bar> < bound" using bound_gt by simp
    from c_select_ok [OF c gene_okD [OF g(1) j] gene_okD [OF g(2) j] this]
    show "yields cinv E (c_select ops c (yes ! j) (no ! j)) (\<lambda>c. enc c (b2i ((if w then q else q') = Suc j)))"
      by (cases w) simp_all
  qed
qed (rule gene_okI)

section \<open>Feasibility, fitness and the lexicographic order\<close>

lemma e_feasible_ok:
  assumes pg: "pega_ok enc bound pb pg" and v: "ind_ok enc pb p v"
  shows "yields cinv E (e_feasible ops pg v)
    (\<lambda>r. enc_bit enc (fst r) (ga_feasible pb p) \<and> ind_ok enc pb p (snd r) \<and> (\<exists>c. snd r = v\<lparr>i_feasible := c\<rparr>))"
proof (cases "i_feasible v")
  case None
  note p = ind_okD(1) [OF v]
  note facts = pega_okD(4) [OF pg] ind_okD(5-8) [OF v] ga_fits_values(1-4) [OF pega_okD(1) [OF pg] p] small_abs(1)
  show ?thesis
    unfolding e_feasible_def None option.case
    apply (rule c_steps facts | assumption)+
    apply (rule yields_ret)
    using v by (auto simp: feasible_bits [OF pega_okD(2) [OF pg] p] intro: ind_ok_feasible)
next
  case (Some b)
  with v show ?thesis by (auto simp: e_feasible_def ind_okD intro!: yields_ret exI [of _ "Some b"])
qed

end

context batched_ops
begin

lemma e_fitness_ok:
  assumes pg: "pega_ok enc bound pb pg" and v: "ind_ok enc pb p v"
  shows "yields cinv E (e_fitness ops pg v)
    (\<lambda>r. enc (fst r) (ga_fitness pb p) \<and> ind_ok enc pb p (snd r) \<and> (\<exists>f. snd r = v\<lparr>i_fitness := f\<rparr>))"
proof (cases "i_fitness v")
  case None
  note p = ind_okD(1) [OF v]
  note fits = pega_okD(1) [OF pg]
  note vals = ga_fits_values [OF fits p]
  have neg: "\<bar>- 1 * ga_slack pb p\<bar> < bound" "\<bar>- 1 * ga_slack pb p - 0\<bar> < bound" using vals(4) by simp_all
  have viol: "\<bar>if 0 < - 1 * ga_slack pb p then - 1 * ga_slack pb p else 0\<bar> < bound"
    using vals(4) small_abs(1) by auto
  have W: "\<bar>ga_weight pb\<bar> < bound" "\<bar>ga_weight pb * (ga_scale pb * (ga_maximum pb + 1))\<bar> < bound"
    using ga_fits_weights [OF fits p] by linarith+
  have bit: "enc (ciphertext b) (b2i q) \<and> \<bar>b2i q\<bar> < bound" if "enc_bit enc b q" for b q
    using that small_abs by (simp add: enc_bit_def)
  have mul_bit: "yields cinv E (c_mul ops a (ciphertext b)) (\<lambda>c. enc c (x * b2i q))"
    if "enc a x" "enc_bit enc b q" "\<bar>x\<bar> < bound" for a x b q
    using bit [OF that(2)] by (intro c_mulI that) simp_all
  note facts = pega_okD(4,8-10) [OF pg] ind_okD(5-8) [OF v] vals small_abs(1) neg viol W
  have eq: "g_scale pg * ga_cost pb p + ga_scale pb * ga_weight pb +
      (ga_weight pb * (if 0 < - 1 * ga_slack pb p then - 1 * ga_slack pb p else 0) +
       ga_weight pb * (ga_scale pb * (ga_maximum pb + 1)) * b2i (\<not> 0 < ga_c3 pb p)) = ga_fitness pb p"
    by (simp add: ga_fitness_def pega_okD(6) [OF pg] max_def)
  show ?thesis
    unfolding e_fitness_def None option.case
    apply (rule yields_bnd [OF mul_bit] c_steps facts | assumption)+
    apply (rule yields_ret)
    apply (simp only: eq fst_conv snd_conv)
    using v by (auto intro: ind_ok_fitness)
next
  case (Some b)
  with v show ?thesis by (auto simp: e_fitness_def ind_okD intro!: yields_ret exI [of _ "Some b"])
qed

lemma gene_index_ok:
  assumes "gene_ok enc g q" "q \<in> {1, 2, 3}"
  shows "yields cinv E (gene_index ops g) (\<lambda>c. enc c (int q - 1))"
proof -
  note facts = gene_bits [OF assms(1)]
  have eq: "b2i (q = 2) + 2 * b2i (q = 3) = int q - 1" using assms(2) by auto
  show ?thesis
    unfolding gene_index_def eq [symmetric]
    by (rule yields_bnd [OF c_scalar_ok [OF facts(3)]]) (rule c_add_ok [OF facts(2)])
qed

lemma valid_method: "ga_valid pb p \<Longrightarrow> i < length p \<Longrightarrow> p ! i \<in> {1, 2, 3}"
proof -
  assume p: "ga_valid pb p" "i < length p"
  then have "i < length (ga_rows pb)" by (simp add: assignments_length)
  with p(1) obtain m where "m < 3" "p ! i = Suc m" by (rule assignments_nth)
  then show ?thesis by auto
qed

lemma snoc_less: "length xs = length ys \<Longrightarrow> (xs @ [a] < ys @ [b :: nat]) = (xs < ys \<or> (xs = ys \<and> a < b))"
  by (induction xs ys rule: list_induct2) auto

lemma lex_row_ok:
  assumes c: "enc_bit enc (fst compared) (a < b)" "enc_bit enc (snd compared) (b < a)"
    and acc: "enc_bit enc (fst acc) (xs = ys)" "enc_bit enc (snd acc) (xs < ys)" and len: "length xs = length ys"
  shows "yields cinv E (lex_row ops compared acc)
    (\<lambda>r. enc_bit enc (fst r) (xs @ [a] = ys @ [b :: nat]) \<and> enc_bit enc (snd r) (xs @ [a] < ys @ [b]))"
proof -
  have eq: "(\<not> b < a \<and> \<not> a < b) = (a = b)"
    "(xs < ys \<or> (xs = ys \<and> a < b)) = (xs @ [a] < ys @ [b])" using snoc_less [OF len] by auto
  show ?thesis
    unfolding lex_row_def Let_def
    by (rule yields_bnd [OF c_orBitExclusive_ok [OF c(2,1)]], simp)
       ((rule c_steps c acc | assumption)+, rule yields_ret, simp add: eq)
qed

lemma pairs_nth: "i < n \<Longrightarrow> concat (map (\<lambda>r. [f r, g r]) [0..<n]) ! (i * 2) = f i \<and>
    concat (map (\<lambda>r. [f r, g r]) [0..<n]) ! (i * 2 + 1) = g i"
proof -
  have "length (concat (map (\<lambda>r. [f r, g r]) [0..<n])) = n * 2" for n by (induction n) simp_all
  then show "i < n \<Longrightarrow> ?thesis" by (induction n) (auto simp: nth_append less_Suc_eq)
qed

lemma lexLess_ok:
  assumes pg: "pega_ok enc bound pb pg" and a: "ind_ok enc pb p a" and b: "ind_ok enc pb q b"
  shows "yields cinv E (lexLess ops pg a b) (\<lambda>c. enc_bit enc c (p < q))"
proof -
  let ?n = "length p"
  have n: "length (i_genes a) = ?n" "length q = ?n" using ind_okD(2,3) [OF a] ind_okD(3) [OF b] by simp_all
  let ?pair = "\<lambda>r. [(int (q ! r) - 1, int (p ! r) - 1), (int (p ! r) - 1, int (q ! r) - 1)]"
  have range: "\<bar>int (p ! r) - 1\<bar> < bound \<and> \<bar>int (q ! r) - 1\<bar> < bound" if "r < ?n" for r
    using valid_method [OF ind_okD(1) [OF a] that] valid_method [OF ind_okD(1) [OF b], of r] that n bound_gt by auto
  have rel: "yields cinv E (mapM (\<lambda>row. bnd (gene_index ops (i_genes a ! row)) (\<lambda>a_index.
       bnd (gene_index ops (i_genes b ! row)) (\<lambda>b_index. ret [(b_index, a_index), (a_index, b_index)]))) [0..<?n])
    (list_all2 (\<lambda>r. list_all2 (\<lambda>v it. operands enc bound it v) (?pair r)) [0..<?n])"
  proof (rule yields_mapM)
    fix r assume "r \<in> set [0..<?n]"
    then have r: "r < ?n" by simp
    have g: "gene_ok enc (i_genes a ! r) (p ! r)" "gene_ok enc (i_genes b ! r) (q ! r)"
      "p ! r \<in> {1, 2, 3}" "q ! r \<in> {1, 2, 3}"
      using ind_okD(4) [OF a r] ind_okD(4) [OF b, of r] valid_method [OF ind_okD(1) [OF a] r]
        valid_method [OF ind_okD(1) [OF b], of r] r n by simp_all
    show "yields cinv E (bnd (gene_index ops (i_genes a ! r)) (\<lambda>a_index.
       bnd (gene_index ops (i_genes b ! r)) (\<lambda>b_index. ret [(b_index, a_index), (a_index, b_index)])))
       (list_all2 (\<lambda>v it. operands enc bound it v) (?pair r))"
      by (rule yields_bnd [OF gene_index_ok [OF g(1,3)]], rule yields_bnd [OF gene_index_ok [OF g(2,4)]], rule yields_ret)
         (use range [OF r] in \<open>simp add: operands_def\<close>)
  qed
  show ?thesis
    unfolding lexLess_def Let_def n
  proof (rule yields_bnd [OF c_greaterI [OF pega_okD(4) [OF pg] pega_okD(4) [OF pg] small_abs(1) small_abs(1)]], rule yields_bnd [OF c_notBit_ok], assumption,
      rule yields_bnd [OF c_greaterI [OF pega_okD(4) [OF pg] pega_okD(4) [OF pg] small_abs(1) small_abs(1)]], rule yields_bnd [OF rel])
    fix never equal less relations
    assume e: "enc_bit enc equal (\<not> (0::int) < 0)" "enc_bit enc less ((0::int) < 0)"
      and r: "list_all2 (\<lambda>r. list_all2 (\<lambda>v it. operands enc bound it v) (?pair r)) [0..<?n] relations"
    have "list_all2 (list_all2 (\<lambda>it v. operands enc bound it v)) relations (map ?pair [0..<?n])"
      using r by (simp add: list_all2_conv_all_nth)
    then have "list_all2 (operands enc bound) (concat relations) (concat (map ?pair [0..<?n]))"
      by (rule list_all2_concat)
    note batch = c_greaterBatch_ok [OF this]
    show "yields cinv E (bnd (c_greaterBatch ops (concat relations)) (\<lambda>compared.
        bnd (foldM (\<lambda>row. lex_row ops (compared ! (row * 2), compared ! (row * 2 + 1))) [0..<?n] (equal, less))
          (\<lambda>acc. ret (snd acc)))) (\<lambda>c. enc_bit enc c (p < q))"
    proof (rule yields_bnd [OF batch])
      fix compared
      assume c: "list_all2 (\<lambda>v c. enc_bit enc c (snd v < fst v)) (concat (map ?pair [0..<?n])) compared"
      have bits: "enc_bit enc (compared ! (i * 2)) (p ! i < q ! i)" "enc_bit enc (compared ! (i * 2 + 1)) (q ! i < p ! i)"
        if i: "i < ?n" for i
      proof -
        have len: "length (concat (map ?pair [0..<k])) = k * 2" for k by (induction k) simp_all
        have less: "(int x - 1 < int y - 1) = (x < y)" for x y by simp
        have "i * 2 < ?n * 2" "i * 2 + 1 < ?n * 2" using i by simp_all
        with c len show "enc_bit enc (compared ! (i * 2)) (p ! i < q ! i)" "enc_bit enc (compared ! (i * 2 + 1)) (q ! i < p ! i)"
          using list_all2_nthD [OF c, of "i * 2"] list_all2_nthD [OF c, of "i * 2 + 1"]
            pairs_nth [OF i, of "\<lambda>r. (int (q ! r) - 1, int (p ! r) - 1)" "\<lambda>r. (int (p ! r) - 1, int (q ! r) - 1)"]
          by (simp_all only: fst_conv snd_conv less True_implies_equals)
      qed
      let ?J = "\<lambda>i acc. enc_bit enc (fst acc) (take i p = take i q) \<and> enc_bit enc (snd acc) (take i p < take i q)"
      have "yields cinv E (foldM (\<lambda>row. lex_row ops (compared ! (row * 2), compared ! (row * 2 + 1))) [0..<?n] (equal, less))
          (?J (length [0..<?n]))"
      proof (rule yields_foldM_indexed)
        show "?J 0 (equal, less)" using e by simp
        fix i acc assume i: "i < length [0..<?n]" and acc: "?J i acc"
        then have i': "i < ?n" by simp
        have t: "take (Suc i) p = take i p @ [p ! i]" "take (Suc i) q = take i q @ [q ! i]"
          using i' n by (simp_all add: take_Suc_conv_app_nth)
        show "yields cinv E (lex_row ops (compared ! ([0..<?n] ! i * 2), compared ! ([0..<?n] ! i * 2 + 1)) acc) (?J (Suc i))"
          unfolding t by (rule lex_row_ok) (use bits [OF i'] acc i' n in simp_all)
      qed
      then show "yields cinv E (bnd (foldM (\<lambda>row. lex_row ops (compared ! (row * 2), compared ! (row * 2 + 1))) [0..<?n]
          (equal, less)) (\<lambda>acc. ret (snd acc))) (\<lambda>c. enc_bit enc c (p < q))"
        by (rule yields_bnd) (rule yields_ret, use n in simp)
    qed
  qed
qed

end

section \<open>Comparison and selection of individuals\<close>

lemma key_bits:
  fixes fa fb :: bool and ca cb sa sb ia ib :: int and p q :: "nat list"
  shows "((if fa then (0 :: nat, ca, sa, p) else (1, ia, 0, p)) < (if fb then (0, cb, sb, q) else (1, ib, 0, q))) =
    (fa \<and> \<not> fb \<or> ((fa \<and> fb) \<and> (ca < cb \<or> (ca = cb \<and> (sa < sb \<or> (sa = sb \<and> p < q)))) \<or>
      (\<not> fa \<and> \<not> fb) \<and> (ia < ib \<or> (ia = ib \<and> p < q))))"
  by (cases fa; cases fb) auto

context batched_ops
begin

lemma better_ok:
  assumes pg: "pega_ok enc bound pb pg" and a: "ind_ok enc pb p a" and b: "ind_ok enc pb q b"
  shows "yields cinv E (better ops pg a b)
    (\<lambda>r. enc_bit enc (fst r) (ga_key pb p < ga_key pb q) \<and> ind_ok enc pb p (fst (snd r)) \<and> ind_ok enc pb q (snd (snd r)))"
  unfolding better_def case_prod_beta
  apply (rule yields_bnd [OF e_feasible_ok [OF pg a]])
  apply (rule yields_bnd [OF e_feasible_ok [OF pg b]])
  subgoal premises h for ra rb
  proof -
    note fa = conjunct1 [OF h(1)] and fb = conjunct1 [OF h(2)]
      and oa = conjunct1 [OF conjunct2 [OF h(1)]] and ob = conjunct1 [OF conjunct2 [OF h(2)]]
    note fits = pega_okD(1) [OF pg]
    note va = ga_fits_values [OF fits ind_okD(1) [OF a]] and vb = ga_fits_values [OF fits ind_okD(1) [OF b]]
    note fitness = yields_bnd [OF e_fitness_ok [OF pg oa]] yields_bnd [OF e_fitness_ok [OF pg ob]]
    note facts = fa fb ind_okD(5,8) [OF oa] ind_okD(5,8) [OF ob] va vb
    have xor: "yields cinv E (bnd (c_orBitExclusive ops x y) f) R"
      if "enc_bit enc x (u < v)" "enc_bit enc y (v < u)" "\<And>d. enc_bit enc d (u < v \<or> v < u) \<Longrightarrow> yields cinv E (f d) R"
      for x y f R and u v :: int
      by (rule yields_bnd [OF c_orBitExclusive_ok [OF that(1,2)]]) (use that(3) in auto)
    have eq: "(\<not> (y < x \<or> x < y)) = (x = y)" for x y :: int by auto
    show ?thesis
      apply (rule xor c_steps facts yields_bnd [OF lexLess_ok [OF pg oa ob]] | assumption)+
      apply (rule fitness)+
      subgoal premises prems for x1 x2 x3 x4 x5 x6 x7 x8 x9 x10 x11 x12 x13 r r'
      proof -
        note p1 = conjunct1 [OF prems(14)] conjunct1 [OF prems(15)]
        note o1 = conjunct1 [OF conjunct2 [OF prems(14)]] conjunct1 [OF conjunct2 [OF prems(15)]]
        show ?thesis
          apply (rule c_steps facts p1 prems yields_bnd [OF lexLess_ok [OF pg o1]] | assumption)+
          apply (rule yields_ret)
          apply (simp only: fst_conv snd_conv ga_key_def key_bits eq)
          using o1 by simp
      qed
      done
  qed
  done

lemma groups3_ok:
  "list_all2 (\<lambda>v d. enc d v) (concat (map (\<lambda>q. map (\<lambda>j. b2i (q = Suc j)) [0, 1, 2]) p)) cs \<Longrightarrow>
     list_all2 (gene_ok enc) (groups3 cs) p"
proof (induction p arbitrary: cs)
  case (Cons q p)
  from Cons.prems obtain a b c ds where cs: "cs = a # b # c # ds" "enc a (b2i (q = Suc 0))" "enc b (b2i (q = Suc 1))"
    "enc c (b2i (q = Suc 2))" "list_all2 (\<lambda>v d. enc d v) (concat (map (\<lambda>q. map (\<lambda>j. b2i (q = Suc j)) [0, 1, 2]) p)) ds"
    by (auto simp: list_all2_Cons1)
  then have "gene_ok enc [a, b, c] q" by (intro gene_okI) simp
  with cs(1) Cons.IH [OF cs(5)] show ?case by simp
qed simp

lemma chosen_of_ok:
  assumes pg: "pega_ok enc bound pb pg" and c: "enc_bit enc c w" and a: "ind_ok enc pb p yes" and b: "ind_ok enc pb q no"
  shows "yields cinv E (chosen_of ops c yes no) (ind_ok enc pb (if w then p else q))"
proof -
  let ?n = "length p"
  have n: "length (i_genes yes) = ?n" "length q = ?n" using ind_okD(2,3) [OF a] ind_okD(3) [OF b] by simp_all
  let ?items = "concat (map (\<lambda>row. map (\<lambda>j. (i_genes yes ! row ! j, i_genes no ! row ! j)) [0, 1, 2]) [0..<?n])"
  let ?vs = "concat (map (\<lambda>row. map (\<lambda>j. (b2i (p ! row = Suc j), b2i (q ! row = Suc j))) [0, 1, 2]) [0..<?n])"
  let ?R = "\<lambda>i v. enc (fst i) (fst v) \<and> enc (snd i) (snd v) \<and> \<bar>fst v - snd v\<bar> < bound"
  have genes: "list_all2 ?R ?items ?vs"
  proof (rule list_all2_concat, unfold list_all2_map1 list_all2_map2 list_all2_same, intro ballI)
    fix row j :: nat assume "row \<in> set [0..<?n]" "j \<in> set [0, 1, 2]"
    then have r: "row < ?n" "j < 3" by auto
    have g: "gene_ok enc (i_genes yes ! row) (p ! row)" "gene_ok enc (i_genes no ! row) (q ! row)"
      using ind_okD(4) [OF a r(1)] ind_okD(4) [OF b, of row] r n by simp_all
    have "\<bar>b2i x - b2i y\<bar> < bound" for x y using bound_gt by simp
    then show "?R (i_genes yes ! row ! j, i_genes no ! row ! j) (b2i (p ! row = Suc j), b2i (q ! row = Suc j))"
      using gene_okD [OF g(1) r(2)] gene_okD [OF g(2) r(2)] by simp
  qed
  have sums: "list_all2 ?R [(i_total yes, i_total no), (i_c12 yes, i_c12 no), (i_c3 yes, i_c3 no), (i_linear yes, i_linear no)]
      [(ga_cost pb p, ga_cost pb q), (ga_c12 pb p, ga_c12 pb q), (ga_c3 pb p, ga_c3 pb q), (ga_slack pb p, ga_slack pb q)]"
    using ind_okD(5-8) [OF a] ind_okD(5-8) [OF b] ga_fits_differences [OF pega_okD(1) [OF pg] ind_okD(1) [OF a] ind_okD(1) [OF b]]
    by simp
  show ?thesis
    unfolding chosen_of_def n
  proof (rule yields_bnd [OF c_selectBatch_ok [OF c genes]], rule yields_bnd [OF c_selectBatch_ok [OF c sums]], rule yields_ret)
    fix ds es
    assume ds: "list_all2 (\<lambda>v d. enc d (if w then fst v else snd v)) ?vs ds"
      and es: "list_all2 (\<lambda>v d. enc d (if w then fst v else snd v))
        [(ga_cost pb p, ga_cost pb q), (ga_c12 pb p, ga_c12 pb q), (ga_c3 pb p, ga_c3 pb q), (ga_slack pb p, ga_slack pb q)] es"
    have eq: "map (\<lambda>v. if w then fst v else snd v) ?vs = concat (map (\<lambda>x. map (\<lambda>j. b2i (x = Suc j)) [0, 1, 2]) (if w then p else q))"
      using map_nth_upt [of "\<lambda>x. map (\<lambda>j. b2i (x = Suc j)) [0, 1, 2]" p]
        map_nth_upt [of "\<lambda>x. map (\<lambda>j. b2i (x = Suc j)) [0, 1, 2]" q] n
      by (cases w) (simp_all add: map_concat comp_def)
    have "list_all2 (\<lambda>v d. enc d v) (concat (map (\<lambda>x. map (\<lambda>j. b2i (x = Suc j)) [0, 1, 2]) (if w then p else q))) ds"
      unfolding eq [symmetric] list_all2_map1 by (rule ds)
    then have "list_all2 (gene_ok enc) (groups3 ds) (if w then p else q)" by (rule groups3_ok)
    moreover have "enc (es ! 0) (ga_cost pb (if w then p else q))" "enc (es ! 1) (ga_c12 pb (if w then p else q))"
      "enc (es ! 2) (ga_c3 pb (if w then p else q))" "enc (es ! 3) (ga_slack pb (if w then p else q))"
      using es by (auto simp: list_all2_Cons1 numeral_3_eq_3)
    ultimately show "ind_ok enc pb (if w then p else q) ((new_individual (groups3 ds))
        \<lparr>i_total := es ! 0, i_c12 := es ! 1, i_c3 := es ! 2, i_linear := es ! 3\<rparr>)"
      using ind_okD(1) [OF a] ind_okD(1) [OF b] by (auto simp: ind_ok_def sums_ok_def caches_ok_def new_individual_def)
  qed
qed

end

section \<open>Elites, winners and the best\<close>

abbreviation inds_ok :: "(cipher \<Rightarrow> int \<Rightarrow> bool) \<Rightarrow> ga_problem \<Rightarrow> nat list list \<Rightarrow> individual list \<Rightarrow> bool" where
  "inds_ok enc pb \<equiv> list_all2 (ind_ok enc pb)"

text \<open>A loop over two related lists that carries related values.\<close>

lemma yields_foldM_related:
  assumes "list_all2 P xs vs" "J b c"
    and "\<And>x v b c. P x v \<Longrightarrow> J b c \<Longrightarrow> yields I E (f v c) (J (g x b))"
  shows "yields I E (foldM f vs c) (J (fold g xs b))"
  using assms(1,2)
proof (induction xs vs arbitrary: b c rule: list_all2_induct)
  case Nil
  then show ?case by (simp add: yields_ret)
next
  case (Cons x xs v vs)
  show ?case
    unfolding foldM.simps fold_Cons comp_def by (rule yields_bnd [OF assms(3) [OF Cons(1,4)]]) (rule Cons(3))
qed

context batched_ops
begin

lemma elite_rank_ok:
  assumes pg: "pega_ok enc bound pb pg" and v: "ind_ok enc pb x v"
    and acc: "inds_ok enc pb (fst b) (fst c) \<and> ind_ok enc pb (snd b) (snd c)"
  shows "yields cinv E (elite_rank ops pg v c)
    (\<lambda>r. inds_ok enc pb (fst (net_step pb x b)) (fst r) \<and> ind_ok enc pb (snd (net_step pb x b)) (snd r))"
  unfolding elite_rank_def case_prod_beta
  apply (rule yields_bnd [OF better_ok [OF pg conjunct2 [OF acc] v]])
  subgoal premises h for r
    apply (rule yields_bnd [OF chosen_of_ok [OF pg conjunct1 [OF h] conjunct1 [OF conjunct2 [OF h]] conjunct2 [OF conjunct2 [OF h]]]])
    apply (rule yields_bnd [OF chosen_of_ok [OF pg conjunct1 [OF h] conjunct2 [OF conjunct2 [OF h]] conjunct1 [OF conjunct2 [OF h]]]])
    apply (rule yields_ret)
    using acc by (auto simp: net_step_def ga_choose_def list_all2_appendI split: if_splits)
  done

lemma elite_insert_ok:
  assumes pg: "pega_ok enc bound pb pg" and v: "ind_ok enc pb p v"
    and elite: "inds_ok enc pb (ga_elite pb (p_elitism (g_config pg)) ps) es"
  shows "yields cinv E (elite_insert ops pg v es) (inds_ok enc pb (ga_elite pb (p_elitism (g_config pg)) (ps @ [p])))"
proof -
  let ?e = "ga_elite pb (p_elitism (g_config pg)) ps"
  let ?J = "\<lambda>b c. inds_ok enc pb (fst b) (fst c) \<and> ind_ok enc pb (snd b) (snd c)"
  have "yields cinv E (foldM (elite_rank ops pg) es ([], v)) (?J (fold (net_step pb) ?e ([], p)))"
    by (rule yields_foldM_related [where J = ?J, OF elite]) (use v in simp, rule elite_rank_ok [OF pg])
  then show ?thesis
    unfolding elite_insert_def
  proof (rule yields_bnd)
    fix r assume r: "?J (fold (net_step pb) ?e ([], p)) r"
    obtain kept carry where k: "fold (net_step pb) ?e ([], p) = (kept, carry)" by fastforce
    then have "length kept = length (fst r)" using r by (auto dest: list_all2_lengthD)
    with r k show "yields cinv E (case r of (elite, carry) \<Rightarrow>
        ret (if length elite < p_elitism (g_config pg) then elite @ [carry] else elite))
        (inds_ok enc pb (ga_elite pb (p_elitism (g_config pg)) (ps @ [p])))"
      by (subst ga_elite_snoc [OF _ refl]) (auto simp: case_prod_beta ga_elite_length list_all2_appendI intro!: yields_ret)
  qed
qed

lemma eliteSet_ok:
  assumes pg: "pega_ok enc bound pb pg" and pop: "inds_ok enc pb ps vs" "vs \<noteq> []" and el: "0 < p_elitism (g_config pg)"
  shows "yields cinv E (eliteSet ops pg vs) (inds_ok enc pb (ga_elite pb (p_elitism (g_config pg)) ps))"
proof -
  obtain v vs' where vs: "vs = v # vs'" using pop(2) by (cases vs) auto
  then obtain p ps' where ps: "ps = p # ps'" "ind_ok enc pb p v" "inds_ok enc pb ps' vs'"
    using pop(1) by (auto simp: list_all2_Cons2)
  let ?J = "\<lambda>i es. inds_ok enc pb (ga_elite pb (p_elitism (g_config pg)) (take (Suc i) ps)) es"
  have "yields cinv E (foldM (elite_insert ops pg) vs' [v]) (?J (length vs'))"
  proof (rule yields_foldM_indexed)
    show "?J 0 [v]" using ps el by (simp add: ga_elite_def take_Cons')
    fix i es assume i: "i < length vs'" and e: "?J i es"
    then have "i < length ps'" using list_all2_lengthD [OF ps(3)] by simp
    then have "take (Suc (Suc i)) ps = take (Suc i) ps @ [ps' ! i]" "ind_ok enc pb (ps' ! i) (vs' ! i)"
      using ps list_all2_nthD [OF ps(3)] by (simp_all add: take_Suc_conv_app_nth)
    with elite_insert_ok [OF pg _ e] show "yields cinv E (elite_insert ops pg (vs' ! i) es) (?J (Suc i))" by simp
  qed
  moreover have "take (Suc (length vs')) ps = ps" using ps list_all2_lengthD [OF ps(3)] by simp
  ultimately show ?thesis by (simp add: eliteSet_def vs)
qed

lemma tournament_turns_ok:
  assumes pg: "pega_ok enc bound pb pg" and pop: "inds_ok enc pb ps vs" "vs \<noteq> []" and w: "ind_ok enc pb p v"
  shows "yields cinv E (tournament_turns ops pg mt turns v vs k)
    (\<lambda>r. ind_ok enc pb (fst (ga_turns pb mt turns p ps k)) (fst r) \<and> inds_ok enc pb ps (fst (snd r)) \<and>
       snd (snd r) = snd (ga_turns pb mt turns p ps k))"
  using pop w
proof (induction turns arbitrary: p v vs k)
  case 0
  then show ?case by (simp add: yields_ret)
next
  case (Suc turns)
  let ?i = "unat (mt k) mod length vs"
  have i: "?i < length vs" "length ps = length vs" using Suc.prems(1,2) by (auto dest: list_all2_lengthD)
  have c: "ind_ok enc pb (ps ! ?i) (vs ! ?i)" using list_all2_nthD2 [OF Suc.prems(1) i(1)] .
  show ?case
    unfolding tournament_turns.simps Let_def case_prod_beta ga_turns.simps i(2)
    apply (rule yields_bnd [OF better_ok [OF pg c Suc.prems(3)]])
    subgoal premises h for r
      apply (rule yields_bnd [OF chosen_of_ok [OF pg conjunct1 [OF h] conjunct1 [OF conjunct2 [OF h]] conjunct2 [OF conjunct2 [OF h]]]])
      apply (rule Suc.IH)
      subgoal using list_all2_update_cong [OF Suc.prems(1) conjunct1 [OF conjunct2 [OF h]], of ?i] by simp
      using Suc.prems(2) by (simp_all add: ga_choose_def)
    done
qed

lemma tournament_ok:
  assumes pg: "pega_ok enc bound pb pg" and pop: "inds_ok enc pb ps vs" "vs \<noteq> []"
  shows "yields cinv E (tournament ops pg mt vs k)
    (\<lambda>r. ind_ok enc pb (fst (ga_tournament pb (g_config pg) mt ps k)) (fst r) \<and> inds_ok enc pb ps (fst (snd r)) \<and>
       snd (snd r) = snd (ga_tournament pb (g_config pg) mt ps k))"
proof -
  have l: "length ps = length vs" using pop(1) by (rule list_all2_lengthD)
  have "unat (mt k) mod length vs < length vs" using pop(2) by simp
  then have "ind_ok enc pb (ps ! (unat (mt k) mod length vs)) (vs ! (unat (mt k) mod length vs))"
    by (rule list_all2_nthD2 [OF pop(1)])
  then show ?thesis unfolding tournament_def ga_tournament_def l by (rule tournament_turns_ok [OF pg pop])
qed

lemma retain_best_ok:
  assumes pg: "pega_ok enc bound pb pg" and v: "ind_ok enc pb p v"
    and acc: "inds_ok enc pb (fst b) (fst c) \<and> ind_ok enc pb (snd b) (snd c)"
  shows "yields cinv E (retain_best ops pg v c)
    (\<lambda>r. inds_ok enc pb (fst b @ [p]) (fst r) \<and> ind_ok enc pb (ga_choose pb p (snd b)) (snd r))"
  unfolding retain_best_def case_prod_beta
  apply (rule yields_bnd [OF better_ok [OF pg v conjunct2 [OF acc]]])
  subgoal premises h for r
    apply (rule yields_bnd [OF chosen_of_ok [OF pg conjunct1 [OF h] conjunct1 [OF conjunct2 [OF h]] conjunct2 [OF conjunct2 [OF h]]]])
    apply (rule yields_ret)
    using acc h by (simp add: ga_choose_def list_all2_appendI)
  done

lemma retain_all_ok:
  assumes pg: "pega_ok enc bound pb pg" and vs: "inds_ok enc pb ps vs"
    and acc: "inds_ok enc pb qs us" "ind_ok enc pb b c"
  shows "yields cinv E (foldM (retain_best ops pg) vs (us, c))
    (\<lambda>r. inds_ok enc pb (qs @ ps) (fst r) \<and> ind_ok enc pb (fold (ga_choose pb) ps b) (snd r))"
proof -
  let ?J = "\<lambda>b c. inds_ok enc pb (fst b) (fst c) \<and> ind_ok enc pb (snd b) (snd c)"
  have "yields cinv E (foldM (retain_best ops pg) vs (us, c)) (?J (fold (\<lambda>p b. (fst b @ [p], ga_choose pb p (snd b))) ps (qs, b)))"
    by (rule yields_foldM_related [where J = ?J, OF vs]) (use acc retain_best_ok [OF pg] in auto)
  moreover have "fold (\<lambda>p b. (fst b @ [p], ga_choose pb p (snd b))) ps (qs, b) = (qs @ ps, fold (ga_choose pb) ps b)"
    by (induction ps arbitrary: qs b) simp_all
  ultimately show ?thesis by simp
qed

end

section \<open>Evaluation\<close>

text \<open>
  A sum and its row vector while they are built: \<open>x\<close> is the sum so far, \<open>f\<close> the entries. The four
  pairs differ only in the weight.
\<close>

definition part_ok :: "(cipher \<Rightarrow> int \<Rightarrow> bool) \<Rightarrow> nat \<Rightarrow> int \<Rightarrow> (nat \<Rightarrow> int) \<Rightarrow> cipher \<Rightarrow> cipher list \<Rightarrow> bool" where
  "part_ok enc n x f c cs \<longleftrightarrow> enc c x \<and> length cs = n \<and> (\<forall>j<n. enc (cs ! j) (f j))"

type_synonym parts = "((nat \<Rightarrow> int \<Rightarrow> int) \<Rightarrow> int) \<times> ((nat \<Rightarrow> int \<Rightarrow> int) \<Rightarrow> nat \<Rightarrow> int)"

definition eval_ok :: "(cipher \<Rightarrow> int \<Rightarrow> bool) \<Rightarrow> ga_problem \<Rightarrow> parts \<Rightarrow> individual \<Rightarrow> bool" where
  "eval_ok enc pb b v \<longleftrightarrow> (let n = length (ga_rows pb); l = w_linear (ga_scale pb) (ga_threshold pb) in
     part_ok enc n (fst b w_cost) (snd b w_cost) (i_total v) (i_row_cost v) \<and>
     part_ok enc n (fst b l) (snd b l) (i_linear v) (i_row_linear v) \<and>
     part_ok enc n (fst b w_c12) (snd b w_c12) (i_c12 v) (i_row_c12 v) \<and>
     part_ok enc n (fst b w_c3) (snd b w_c3) (i_c3 v) (i_row_c3 v))"

definition plain_weight :: "ga_problem \<Rightarrow> (nat \<Rightarrow> int \<Rightarrow> int) \<Rightarrow> bool" where
  "plain_weight pb w \<longleftrightarrow> w = w_cost \<or> w = w_linear (ga_scale pb) (ga_threshold pb) \<or> w = w_c12 \<or> w = w_c3"

lemma plain_weight_zero: "plain_weight pb w \<Longrightarrow> w m 0 = 0"
  by (auto simp: plain_weight_def w_cost_def w_linear_def w_c12_def w_c3_def)

lemma eval_ok_cong:
  "eval_ok enc pb b v \<Longrightarrow>
     (\<And>w. plain_weight pb w \<Longrightarrow> fst b w = fst b' w \<and> (\<forall>j<length (ga_rows pb). snd b w j = snd b' w j)) \<Longrightarrow>
     eval_ok enc pb b' v"
  by (simp add: eval_ok_def part_ok_def Let_def plain_weight_def)

definition add_part :: "nat \<Rightarrow> nat \<times> int \<Rightarrow> parts \<Rightarrow> parts" where
  "add_part row item b = (\<lambda>w. fst b w + w (Suc (fst item)) (snd item),
     \<lambda>w. (snd b w)(row := snd b w row + w (Suc (fst item)) (snd item)))"

lemma fold_add_part:
  "fold (add_part row) items b =
     (\<lambda>w. fst b w + (\<Sum>item\<leftarrow>items. w (Suc (fst item)) (snd item)),
      \<lambda>w. (snd b w)(row := snd b w row + (\<Sum>item\<leftarrow>items. w (Suc (fst item)) (snd item))))"
  by (induction items arbitrary: b) (auto simp: add_part_def fun_eq_iff)

lemma one_chosen:
  assumes "distinct ms" "k \<in> set ms" "\<And>m. w m 0 = (0 :: int)"
  shows "(\<Sum>m\<leftarrow>ms. w (Suc m) (b2i (Suc k = Suc m) * c m)) = w (Suc k) (c k)"
  using assms(1,2)
proof (induction ms)
  case (Cons m ms)
  show ?case
  proof (cases "m = k")
    case True
    then have "k \<notin> set ms" using Cons.prems by simp
    then have "(\<Sum>m\<leftarrow>ms. w (Suc m) (b2i (Suc k = Suc m) * c m)) = (\<Sum>m\<leftarrow>ms. 0)"
      using assms(3) by (intro arg_cong [of _ _ sum_list] map_cong) auto
    with True show ?thesis by simp
  next
    case False
    with Cons have "k \<in> set ms" by simp
    with Cons False assms(3) show ?thesis by simp
  qed
qed simp

context batched_ops
begin

lemma add_at_ok:
  assumes "length cs = n" "\<forall>j<n. enc (cs ! j) (f j)" "row < n" "enc c a"
  shows "yields cinv E (add_at ops row c cs) (\<lambda>cs'. length cs' = n \<and> (\<forall>j<n. enc (cs' ! j) ((f(row := f row + a)) j)))"
proof -
  have "enc (cs ! row) (f row)" using assms(2,3) by simp
  then show ?thesis
    unfolding add_at_def
    by (rule yields_bnd [OF c_add_ok [OF _ assms(4)]], intro yields_ret) (use assms in \<open>auto simp: nth_list_update\<close>)
qed

lemma evaluate_method_ok:
  assumes pg: "pega_ok enc bound pb pg" and row: "row < length (ga_rows pb)" and m: "m < 3" "enc chosen a"
    and v: "eval_ok enc pb b v \<and> i_genes v = genes \<and> i_feasible v = None \<and> i_fitness v = None"
  shows "yields cinv E (evaluate_method ops pg row (m, chosen) v)
    (\<lambda>v. eval_ok enc pb (add_part row (m, a) b) v \<and> i_genes v = genes \<and> i_feasible v = None \<and> i_fitness v = None)"
proof -
  let ?n = "length (ga_rows pb)" and ?l = "w_linear (ga_scale pb) (ga_threshold pb)"
  have p: "part_ok enc ?n (fst b w_cost) (snd b w_cost) (i_total v) (i_row_cost v)"
    "part_ok enc ?n (fst b ?l) (snd b ?l) (i_linear v) (i_row_linear v)"
    "part_ok enc ?n (fst b w_c12) (snd b w_c12) (i_c12 v) (i_row_c12 v)"
    "part_ok enc ?n (fst b w_c3) (snd b w_c3) (i_c3 v) (i_row_c3 v)"
    using v by (simp_all add: eval_ok_def Let_def)
  note e = p [unfolded part_ok_def, THEN conjunct1] and l = p [unfolded part_ok_def, THEN conjunct2, THEN conjunct1]
    and r = p [unfolded part_ok_def, THEN conjunct2, THEN conjunct2]
  note weight = pega_weight [OF pg, of m a]
  have case12: "w_c12 (Suc m) a = (if m < 2 then a else 0)" "w_c3 (Suc m) a = (if m < 2 then 0 else a)"
    using m by (auto simp: w_c12_def w_c3_def)
  have sel: "i_c12 (v\<lparr>i_total := t, i_row_cost := ts\<rparr>) = i_c12 v" "i_row_c12 (v\<lparr>i_total := t, i_row_cost := ts\<rparr>) = i_row_c12 v"
    "i_c3 (v\<lparr>i_total := t, i_row_cost := ts\<rparr>) = i_c3 v" "i_row_c3 (v\<lparr>i_total := t, i_row_cost := ts\<rparr>) = i_row_c3 v" for t ts
    by simp_all
  have contribution: "yields cinv E (c_scalar ops chosen (g_weight pg m)) (\<lambda>c. enc c (?l (Suc m) a))"
    using c_scalar_ok [OF m(2), of "g_weight pg m"] unfolding weight .
  show ?thesis
    unfolding evaluate_method_def Let_def fst_conv snd_conv
    apply (rule yields_bnd [OF c_add_ok [OF e(1) m(2)]])
    apply (rule yields_bnd [OF add_at_ok [OF l(1) r(1) row m(2)]])
    subgoal premises h for total row_cost
      apply (rule yields_bnd [where Q = "\<lambda>u. part_ok enc ?n (fst b w_c12 + w_c12 (Suc m) a)
          ((snd b w_c12)(row := snd b w_c12 row + w_c12 (Suc m) a)) (i_c12 u) (i_row_c12 u) \<and>
          part_ok enc ?n (fst b w_c3 + w_c3 (Suc m) a)
          ((snd b w_c3)(row := snd b w_c3 row + w_c3 (Suc m) a)) (i_c3 u) (i_row_c3 u) \<and>
          u = v\<lparr>i_total := total, i_row_cost := row_cost, i_c12 := i_c12 u, i_row_c12 := i_row_c12 u,
            i_c3 := i_c3 u, i_row_c3 := i_row_c3 u\<rparr>"])
      subgoal
      proof (cases "m < 2")
        case True
        show ?thesis
          unfolding case12 if_P [OF True] sel
          by (rule yields_bnd [OF c_add_ok [OF e(3) m(2)]], rule yields_bnd [OF add_at_ok [OF l(3) r(3) row m(2)]],
              rule yields_ret) (use e l r in \<open>auto simp: part_ok_def\<close>)
      next
        case False
        show ?thesis
          unfolding case12 if_not_P [OF False] sel
          by (rule yields_bnd [OF c_add_ok [OF e(4) m(2)]], rule yields_bnd [OF add_at_ok [OF l(4) r(4) row m(2)]],
              rule yields_ret) (use e l r in \<open>auto simp: part_ok_def\<close>)
      qed
      subgoal premises u for u
      proof -
        have li: "i_linear u = i_linear v" "i_row_linear u = i_row_linear v"
          by (subst conjunct2 [OF conjunct2 [OF u]], simp)+
        have rest: "i_total u = total" "i_row_cost u = row_cost" "i_genes u = genes" "i_feasible u = None" "i_fitness u = None"
          using v by (subst conjunct2 [OF conjunct2 [OF u]], simp)+
        show ?thesis
          unfolding li
          apply (rule yields_bnd [OF contribution])
          apply (rule yields_bnd [OF c_add_ok [OF e(2)]], assumption)
          apply (rule yields_bnd [OF add_at_ok [OF l(2) r(2) row]], assumption)
          apply (rule yields_ret)
          using h u rest by (simp add: eval_ok_def Let_def part_ok_def add_part_def w_cost_def)
      qed
      done
    done
qed

lemma pega_cost_some:
  assumes pg: "pega_ok enc bound pb pg" and row: "row < length (ga_rows pb)" and m: "m \<in> set (available (ga_rows pb ! row))"
  shows "enc (the (g_costs pg ! row ! m)) (the (ga_rows pb ! row ! m))" "\<bar>the (ga_rows pb ! row ! m)\<bar> < bound" "m < 3"
    "g_costs pg ! row ! m = Some (the (g_costs pg ! row ! m))" "ga_rows pb ! row ! m = Some (the (ga_rows pb ! row ! m))"
proof -
  from m obtain c where c: "m < 3" "ga_rows pb ! row ! m = Some c" by (auto simp: available_set)
  with pega_cost(2) [OF pg row c(1)]
  show "enc (the (g_costs pg ! row ! m)) (the (ga_rows pb ! row ! m))" "m < 3"
    "g_costs pg ! row ! m = Some (the (g_costs pg ! row ! m))" "ga_rows pb ! row ! m = Some (the (ga_rows pb ! row ! m))"
    by (auto simp: option_rel_Some2)
  obtain C where "0 < C" "0 \<le> c \<and> c \<le> C" "2 * C < bound"
    using ga_fits_row [OF pega_okD(1) [OF pg]] row c by metis
  with c show "\<bar>the (ga_rows pb ! row ! m)\<bar> < bound" by simp
qed

lemma evaluate_row_ok:
  assumes pg: "pega_ok enc bound pb pg" and row: "row < length (ga_rows pb)"
    and g: "gene_ok enc (genes ! row) (Suc q)" "q \<in> set (available (ga_rows pb ! row))"
    and v: "eval_ok enc pb b v \<and> i_genes v = genes \<and> i_feasible v = None \<and> i_fitness v = None"
  shows "yields cinv E (evaluate_row ops pg row v)
    (\<lambda>v. eval_ok enc pb (add_part row (q, the (ga_rows pb ! row ! q)) b) v \<and> i_genes v = genes \<and>
       i_feasible v = None \<and> i_fitness v = None)"
proof -
  let ?ms = "available (ga_rows pb ! row)" and ?r = "ga_rows pb ! row"
  let ?bits = "map (\<lambda>m. (b2i (Suc q = Suc m), the (?r ! m))) ?ms"
  let ?items = "map (\<lambda>m. (m, b2i (Suc q = Suc m) * the (?r ! m))) ?ms"
  let ?J = "\<lambda>b v. eval_ok enc pb b v \<and> i_genes v = genes \<and> i_feasible v = None \<and> i_fitness v = None"
  have genes: "i_genes v = genes" using v by simp
  have "list_all2 (operands enc bound) (map (\<lambda>m. (i_genes v ! row ! m, the (g_costs pg ! row ! m))) ?ms) ?bits"
    unfolding genes list_all2_map1 list_all2_map2 list_all2_same
  proof
    fix m assume "m \<in> set ?ms"
    note c = pega_cost_some [OF pg row this]
    show "operands enc bound (genes ! row ! m, the (g_costs pg ! row ! m)) (b2i (Suc q = Suc m), the (?r ! m))"
      using gene_okD [OF g(1) c(3)] c(1,2) small_abs by (simp add: operands_def)
  qed
  note batch = c_mulBatch_ok [OF this]
  have total: "eval_ok enc pb (fold (add_part row) ?items b) u \<Longrightarrow> eval_ok enc pb (add_part row (q, the (?r ! q)) b) u" for u
  proof (erule eval_ok_cong)
    fix w assume w: "plain_weight pb w"
    have "(\<Sum>m\<leftarrow>?ms. w (Suc m) (b2i (Suc q = Suc m) * the (?r ! m))) = w (Suc q) (the (?r ! q))"
      by (rule one_chosen [OF available_distinct g(2)]) (rule plain_weight_zero [OF w])
    then show "fst (fold (add_part row) ?items b) w = fst (add_part row (q, the (?r ! q)) b) w \<and>
        (\<forall>j<length (ga_rows pb). snd (fold (add_part row) ?items b) w j = snd (add_part row (q, the (?r ! q)) b) w j)"
      unfolding fold_add_part by (simp add: add_part_def comp_def)
  qed
  show ?thesis
    unfolding evaluate_row_def Let_def pega_available [OF pg row]
  proof (rule yields_bnd [OF batch])
    fix chosen assume c: "list_all2 (\<lambda>v c. enc c (fst v * snd v)) ?bits chosen"
    then have len: "length chosen = length ?ms" by (auto dest: list_all2_lengthD)
    have "list_all2 (\<lambda>item mc. fst item = fst mc \<and> fst mc < 3 \<and> enc (snd mc) (snd item)) ?items (zip ?ms chosen)"
      unfolding list_all2_conv_all_nth
    proof (intro conjI allI impI)
      show "length ?items = length (zip ?ms chosen)" by (simp add: len)
      fix i assume "i < length ?items"
      then have i: "i < length ?ms" by simp
      show "fst (?items ! i) = fst (zip ?ms chosen ! i)" "fst (zip ?ms chosen ! i) < 3"
        "enc (snd (zip ?ms chosen ! i)) (snd (?items ! i))"
        using i len list_all2_nthD [OF c, of i] available_set [of "?ms ! i" ?r] nth_mem [OF i] by simp_all
    qed
    then have "yields cinv E (foldM (evaluate_method ops pg row) (zip ?ms chosen) v) (?J (fold (add_part row) ?items b))"
    proof (rule yields_foldM_related [where J = ?J])
      show "?J b v" by (rule v)
      fix item :: "nat \<times> int" and mc :: "nat \<times> cipher" and b' v' assume h: "fst item = fst mc \<and> fst mc < 3 \<and> enc (snd mc) (snd item)" "?J b' v'"
      obtain m a c where i: "item = (m, a)" "mc = (m, c)" using h(1) by (cases item; cases mc) auto
      with h show "yields cinv E (evaluate_method ops pg row mc v') (?J (add_part row item b'))"
        using evaluate_method_ok [OF pg row _ _ h(2), of m c a] by simp
    qed
    then show "yields cinv E (foldM (evaluate_method ops pg row) (zip ?ms chosen) v) (?J (add_part row (q, the (?r ! q)) b))"
      by (rule yields_weaken) (use total in blast)
  qed
qed

lemma evaluate_individual_ok:
  assumes pg: "pega_ok enc bound pb pg" and p: "ga_valid pb p" and g: "list_all2 (gene_ok enc) (i_genes v) p"
  shows "yields cinv E (evaluate ops pg v) (\<lambda>v. ind_ok enc pb p v \<and> vectors_ok enc pb p v)"
proof -
  let ?n = "length (ga_rows pb)" and ?rows = "ga_rows pb"
  let ?b = "\<lambda>i. (\<lambda>w. sum_by w ?rows (take i p), \<lambda>w j. if j < i then w (p ! j) (row_cost ?rows p j) else 0)"
  let ?J = "\<lambda>i u. eval_ok enc pb (?b i) u \<and> i_genes u = i_genes v \<and> i_feasible u = None \<and> i_fitness u = None"
  let ?v = "v\<lparr>i_feasible := None, i_fitness := None, i_total := g_zero pg, i_c12 := g_zero pg, i_c3 := g_zero pg,
    i_linear := g_zero pg, i_row_cost := replicate ?n (g_zero pg), i_row_linear := replicate ?n (g_zero pg),
    i_row_c12 := replicate ?n (g_zero pg), i_row_c3 := replicate ?n (g_zero pg)\<rparr>"
  have len: "length p = ?n" by (rule assignments_length [OF p])
  have "yields cinv E (foldM (evaluate_row ops pg) [0..<?n] ?v) (?J (length [0..<?n]))"
  proof (rule yields_foldM_indexed)
    have z: "sum_by w ?rows [] = 0" for w by (cases ?rows) simp_all
    show "?J 0 ?v" using pega_okD(4) [OF pg] by (simp add: eval_ok_def part_ok_def Let_def z)
    fix i u assume i': "i < length [0..<?n]" and u: "?J i u"
    then have i: "i < ?n" by simp
    from p i obtain q c where q: "p ! i = Suc q" "q \<in> set (available (?rows ! i))" by (rule assignments_nth)
    have gene: "gene_ok enc (i_genes v ! i) (Suc q)" using list_all2_nthD2 [OF g, of i] i len q(1) by simp
    have take: "take (Suc i) p = take i p @ [Suc q]" using i len q(1) by (simp add: take_Suc_conv_app_nth)
    have eq: "eval_ok enc pb (add_part i (q, the (?rows ! i ! q)) (?b i)) x \<Longrightarrow> eval_ok enc pb (?b (Suc i)) x" for x
      by (erule eval_ok_cong) (use i len q(1) in \<open>auto simp: add_part_def take sum_by_snoc less_Suc_eq\<close>)
    show "yields cinv E (evaluate_row ops pg ([0..<?n] ! i) u) (?J (Suc i))"
      using i by (simp only: nth_upt add_0) (rule yields_weaken [OF evaluate_row_ok [OF pg i gene q(2) u]], use eq in blast)
  qed
  then show ?thesis
    unfolding evaluate_def Let_def pega_okD(3) [OF pg]
  proof (rule yields_weaken)
    fix u assume u: "?J (length [0..<?n]) u"
    have all: "take (length [0..<?n]) p = p" using len by simp
    from u all g p show "ind_ok enc pb p u \<and> vectors_ok enc pb p u"
      by (auto simp: ind_ok_def sums_ok_def caches_ok_def vectors_ok_def vector_ok_def eval_ok_def part_ok_def Let_def
          ga_cost_def ga_c12_def ga_c3_def ga_slack_def)
  qed
qed

end

section \<open>The constructor and the first individuals\<close>

definition costs_ok :: "(cipher \<Rightarrow> int \<Rightarrow> bool) \<Rightarrow> ga_problem \<Rightarrow> cipher option list list \<Rightarrow> bool" where
  "costs_ok enc pb costs \<longleftrightarrow> list_all2 (enc_row enc) costs (ga_rows pb)"

lemma row_choices:
  assumes "enc_row enc methods r" "row_ok r"
  shows "available methods = available r" "m \<in> set (available r) \<Longrightarrow> enc (the (methods ! m)) (the (r ! m))"
proof -
  have rel: "rel_option enc (methods ! m) (r ! m)" if "m < 3" for m
    using assms that by (auto simp: enc_row_def row_ok_def list_all2_conv_all_nth)
  have "(methods ! m \<noteq> None) = (r ! m \<noteq> None)" if "m \<in> set [0, 1, 2]" for m
    using rel [of m] that by (auto simp: rel_option_iff split: option.splits)
  then show "available methods = available r" unfolding available_def by (intro filter_cong) auto
  show "m \<in> set (available r) \<Longrightarrow> enc (the (methods ! m)) (the (r ! m))"
    using rel [of m] by (auto simp: available_set rel_option_iff split: option.splits)
qed

text \<open>A bound on the costs of a row, with room for a difference.\<close>

definition row_small :: "int \<Rightarrow> row \<Rightarrow> bool" where
  "row_small bound r \<longleftrightarrow> (\<forall>m\<in>set (available r). 0 \<le> the (r ! m) \<and> the (r ! m) < bound)"

lemma ga_fits_small:
  assumes "ga_fits pb bound" "i < length (ga_rows pb)"
  shows "row_small bound (ga_rows pb ! i)"
proof -
  obtain C where C: "0 < C" "\<And>m c. m < 3 \<Longrightarrow> ga_rows pb ! i ! m = Some c \<Longrightarrow> 0 \<le> c \<and> c \<le> C" "2 * C < bound"
    using ga_fits_row [OF assms(1)] assms(2) by metis
  show ?thesis
    unfolding row_small_def
  proof
    fix m assume "m \<in> set (available (ga_rows pb ! i))"
    then obtain c where "m < 3" "ga_rows pb ! i ! m = Some c" by (auto simp: available_set)
    with C show "0 \<le> the (ga_rows pb ! i ! m) \<and> the (ga_rows pb ! i ! m) < bound" by fastforce
  qed
qed

context batched_ops
begin

lemma max_of_row_ok:
  assumes e: "enc_row enc methods r" and ok: "row_ok r" and small: "row_small bound r"
  shows "yields cinv E (max_of_row ops methods) (\<lambda>c. enc c (row_maximum r))"
proof -
  let ?ch = "available r" and ?J = "\<lambda>(x :: int) c. enc c x \<and> 0 \<le> x \<and> x < bound"
  have hd: "hd ?ch \<in> set ?ch" and tl: "set (tl ?ch) \<subseteq> set ?ch"
    using available_ne [OF ok] by (auto dest: list.set_sel(2))
  have "yields cinv E (foldM (\<lambda>m maximum. bnd (c_greater ops (the (methods ! m)) maximum) (\<lambda>larger.
         c_select ops larger (the (methods ! m)) maximum)) (tl ?ch) (the (methods ! hd ?ch)))
      (?J (fold (\<lambda>m x. max (the (r ! m)) x) (tl ?ch) (the (r ! hd ?ch))))"
  proof (rule yields_foldM_related [where P = "\<lambda>m m'. m' = m \<and> m \<in> set ?ch" and J = ?J])
    show "list_all2 (\<lambda>m m'. m' = m \<and> m \<in> set ?ch) (tl ?ch) (tl ?ch)"
      unfolding list_all2_same using tl by blast
    show "?J (the (r ! hd ?ch)) (the (methods ! hd ?ch))"
      using row_choices(2) [OF e ok hd] small hd by (simp add: row_small_def)
    fix m m' x c assume m: "m' = m \<and> m \<in> set ?ch" and c: "?J x c"
    then have v: "enc (the (methods ! m)) (the (r ! m))" "0 \<le> the (r ! m) \<and> the (r ! m) < bound"
      using row_choices(2) [OF e ok, of m] small by (simp_all add: row_small_def)
    have abs: "\<bar>the (r ! m)\<bar> < bound" "\<bar>x\<bar> < bound" "\<bar>the (r ! m) - x\<bar> < bound" using v(2) c by linarith+
    show "yields cinv E (bnd (c_greater ops (the (methods ! m')) c) (\<lambda>larger. c_select ops larger (the (methods ! m')) c))
        (?J (max (the (r ! m)) x))"
      unfolding conjunct1 [OF m]
      by (rule yields_bnd [OF c_greaterI [OF v(1) conjunct1 [OF c] abs(1,2)]],
          rule yields_weaken [OF c_select_ok [OF _ v(1) conjunct1 [OF c] abs(3)]], assumption)
         (use v(2) c in \<open>auto simp: max_def split: if_splits\<close>)
  qed
  then show ?thesis
    unfolding max_of_row_def Let_def row_choices(1) [OF e ok] row_maximum_def by (rule yields_weaken) blast
qed

lemma maximumTotal_ok:
  assumes z: "enc zero 0" and costs: "costs_ok enc pb costs" and fits: "ga_fits pb bound"
  shows "yields cinv E (maximumTotal ops zero costs) (\<lambda>c. enc c (ga_maximum pb))"
proof -
  have P: "list_all2 (\<lambda>r methods. enc_row enc methods r \<and> row_ok r \<and> row_small bound r) (ga_rows pb) costs"
    using costs ga_fits_small [OF fits] fits
    by (auto simp: costs_ok_def list_all2_conv_all_nth ga_fits_def ga_rows_ok_nth)
  have "yields cinv E (maximumTotal ops zero costs) (\<lambda>c. enc c (fold (\<lambda>r x. x + row_maximum r) (ga_rows pb) 0))"
    unfolding maximumTotal_def
  proof (rule yields_foldM_related [where J = "\<lambda>x c. enc c x", OF P z])
    fix r methods x c assume r: "enc_row enc methods r \<and> row_ok r \<and> row_small bound r" and c: "enc c x"
    from r have m: "yields cinv E (max_of_row ops methods) (\<lambda>c. enc c (row_maximum r))" by (blast intro: max_of_row_ok)
    show "yields cinv E (bnd (max_of_row ops methods) (\<lambda>maximum. c_add ops c maximum)) (\<lambda>c. enc c (x + row_maximum r))"
      by (rule yields_bnd [OF m]) (rule c_add_ok [OF c])
  qed
  moreover have "fold (\<lambda>r x. x + row_maximum r) rs b = b + sum_list (map row_maximum rs)" for rs b
    by (induction rs arbitrary: b) simp_all
  ultimately show ?thesis by (simp add: ga_maximum_def)
qed

lemma pega_make_ok:
  assumes fits: "ga_fits pb bound" and costs: "costs_ok enc pb (q_costs request)" and valid: "ga_valid pb p"
    and pb: "ga_scale pb = d_scale (s_domain ops)" "ga_threshold pb = q_threshold request"
      "ga_penalty pb = p_infeasible_penalty config"
  shows "yields cinv E (pega_make ops config request) (\<lambda>pg. pega_ok enc bound pb pg \<and> g_config pg = config \<and> g_request pg = request)"
proof -
  note w = ga_fits_weights [OF fits valid]
  have eq: "p_infeasible_penalty config * (ga_maximum pb + 1) = ga_weight pb" by (simp add: ga_weight_def pb)
  have abs: "\<bar>ga_weight pb\<bar> < bound" "\<bar>d_scale (s_domain ops) * (ga_maximum pb + 1)\<bar> < bound"
    using w by (simp_all add: pb)
  have penalty: "yields cinv E (c_scalar ops c (p_infeasible_penalty config)) (\<lambda>c. enc c (ga_weight pb))"
    if "enc c (ga_maximum pb + 1)" for c
    using c_scalar_ok [OF that, of "p_infeasible_penalty config"] unfolding eq .
  show ?thesis
    unfolding pega_make_def Let_def
    apply (rule yields_bnd [OF c_constant_ok])+
    apply (rule yields_bnd [OF maximumTotal_ok [OF _ costs fits]], assumption)
    apply (rule yields_bnd [OF penalty] c_steps abs | assumption)+
    apply (rule yields_ret)
    using fits costs by (simp add: pega_ok_def costs_ok_def pb)
qed

lemma random_genes_ok:
  assumes pg: "pega_ok enc bound pb pg"
  shows "yields cinv E (random_genes ops pg mt k) (\<lambda>gs. list_all2 (gene_ok enc) gs (ga_random pb mt k))"
proof -
  have "yields cinv E (random_genes ops pg mt k) (list_all2 (\<lambda>row g. gene_ok enc g (ga_random pb mt k ! row)) [0..<length (ga_rows pb)])"
    unfolding random_genes_def pega_okD(3) [OF pg]
  proof (rule yields_mapM)
    fix row assume "row \<in> set [0..<length (ga_rows pb)]"
    then show "yields cinv E (let choices = available (g_costs pg ! row) in
        oneHot ops (choices ! (unat (mt (k + row)) mod length choices))) (\<lambda>g. gene_ok enc g (ga_random pb mt k ! row))"
      by (simp add: ga_random_def Let_def pega_available [OF pg] oneHot_ok)
  qed
  then show ?thesis
    by (rule yields_weaken) (simp add: list_all2_conv_all_nth ga_random_def)
qed

lemma randomIndividual_ok:
  assumes pg: "pega_ok enc bound pb pg"
  shows "yields cinv E (randomIndividual ops pg mt k)
    (\<lambda>r. ind_ok enc pb (ga_random pb mt k) (fst r) \<and> vectors_ok enc pb (ga_random pb mt k) (fst r) \<and>
       snd r = k + length (ga_rows pb))"
  unfolding randomIndividual_def
  apply (rule yields_bnd [OF random_genes_ok [OF pg]])
  apply (rule yields_bnd [OF evaluate_individual_ok [OF pg ga_random_valid [OF pega_okD(2) [OF pg]]]])
   apply (simp add: new_individual_def)
  apply (rule yields_ret)
  apply (simp add: pega_okD(3) [OF pg])
  done

lemma cheapest_gene_ok:
  assumes e: "enc_row enc methods r" and ok: "row_ok r" and small: "row_small bound r"
  shows "yields cinv E (cheapest_gene ops methods) (\<lambda>g. gene_ok enc g (Suc (cheapest_method r)))"
proof -
  let ?ch = "available r"
  let ?J = "\<lambda>(b :: nat \<times> int) a. gene_ok enc (fst a) (Suc (fst b)) \<and> enc (snd a) (snd b) \<and> 0 \<le> snd b \<and> snd b < bound"
  have hd: "hd ?ch \<in> set ?ch" and tl: "set (tl ?ch) \<subseteq> set ?ch"
    using available_ne [OF ok] by (auto dest: list.set_sel(2))
  show ?thesis
    unfolding cheapest_gene_def Let_def row_choices(1) [OF e ok]
  proof (rule yields_bnd [OF oneHot_ok])
    fix g0 assume g0: "gene_ok enc g0 (Suc (hd ?ch))"
    have "yields cinv E (foldM (cheaper_method ops methods) (tl ?ch) (g0, the (methods ! hd ?ch)))
        (?J (fold (\<lambda>m acc. if the (r ! m) < snd acc then (m, the (r ! m)) else acc) (tl ?ch) (hd ?ch, the (r ! hd ?ch))))"
    proof (rule yields_foldM_related [where P = "\<lambda>m m'. m' = m \<and> m \<in> set ?ch" and J = ?J])
      show "list_all2 (\<lambda>m m'. m' = m \<and> m \<in> set ?ch) (tl ?ch) (tl ?ch)"
        unfolding list_all2_same using tl by blast
      show "?J (hd ?ch, the (r ! hd ?ch)) (g0, the (methods ! hd ?ch))"
        using row_choices(2) [OF e ok hd] small hd g0 by (simp add: row_small_def)
      fix m m' :: nat and b a assume m: "m' = m \<and> m \<in> set ?ch" and a: "?J b a"
      then have v: "enc (the (methods ! m)) (the (r ! m))" "0 \<le> the (r ! m) \<and> the (r ! m) < bound"
        using row_choices(2) [OF e ok, of m] small by (simp_all add: row_small_def)
      have abs: "\<bar>the (r ! m)\<bar> < bound" "\<bar>snd b\<bar> < bound" "\<bar>the (r ! m) - snd b\<bar> < bound" using v(2) a by linarith+
      have g: "gene_ok enc (fst a) (Suc (fst b))" "enc (snd a) (snd b)" using a by simp_all
      show "yields cinv E (cheaper_method ops methods m' a)
          (?J (if the (r ! m) < snd b then (m, the (r ! m)) else b))"
        unfolding cheaper_method_def conjunct1 [OF m]
        by (rule yields_bnd [OF c_lessI [OF v(1) g(2) abs(1,2)]], rule yields_bnd [OF c_select_ok [OF _ v(1) g(2) abs(3)]],
            assumption, rule yields_bnd [OF oneHot_ok], rule yields_bnd [OF select_gene_ok [OF _ _ g(1)]], assumption,
            assumption, rule yields_ret) (use v(2) a in auto)
    qed
    then show "yields cinv E (bnd (foldM (cheaper_method ops methods) (tl ?ch) (g0, the (methods ! hd ?ch))) (\<lambda>acc. ret (fst acc)))
        (\<lambda>g. gene_ok enc g (Suc (cheapest_method r)))"
      by (rule yields_bnd) (rule yields_ret, simp add: cheapest_method_def)
  qed
qed

lemma cheapest_ok:
  assumes pg: "pega_ok enc bound pb pg"
  shows "yields cinv E (cheapest ops pg) (\<lambda>v. ind_ok enc pb (ga_cheapest pb) v \<and> vectors_ok enc pb (ga_cheapest pb) v)"
  unfolding cheapest_def
proof (rule yields_bnd)
  have fits: "ga_fits pb bound" by (rule pega_okD(1) [OF pg])
  have "list_all2 (\<lambda>methods r. enc_row enc methods r \<and> row_ok r \<and> row_small bound r) (g_costs pg) (ga_rows pb)"
    using pg ga_fits_small [OF fits] ga_rows_ok_nth [OF pega_okD(2) [OF pg]]
    by (auto simp: pega_ok_def list_all2_conv_all_nth)
  then show "yields cinv E (mapM (cheapest_gene ops) (g_costs pg)) (list_all2 (\<lambda>r g. gene_ok enc g (Suc (cheapest_method r))) (ga_rows pb))"
    by (rule yields_mapM_values) (use cheapest_gene_ok in blast)
  fix genes assume "list_all2 (\<lambda>r g. gene_ok enc g (Suc (cheapest_method r))) (ga_rows pb) genes"
  then have "list_all2 (gene_ok enc) (i_genes (new_individual genes)) (ga_cheapest pb)"
    by (simp add: list_all2_conv_all_nth ga_cheapest_def new_individual_def)
  then show "yields cinv E (evaluate ops pg (new_individual genes))
      (\<lambda>v. ind_ok enc pb (ga_cheapest pb) v \<and> vectors_ok enc pb (ga_cheapest pb) v)"
    by (rule evaluate_individual_ok [OF pg ga_cheapest_valid [OF pega_okD(2) [OF pg]]])
qed

end

end
