(* ===== verification/PegaRepair.thy ===== *)
theory PegaRepair
  imports PegaRefine
begin

text \<open>
  Repair on ciphertexts: the scan keeps encryptions of the best move so far, and the second pass makes
  the selected move through equality masks. One round turns an encryption of an assignment into an encryption of the
  repaired assignment of theory GeneticPlan.
\<close>

section \<open>Ranges of a move\<close>

lemma w_linear_range:
  assumes "0 \<le> T" "T < S" "0 \<le> c" "c \<le> (C :: int)"
  shows "- (T * C) \<le> w_linear S T m c \<and> w_linear S T m c \<le> (S - T) * C"
proof -
  have "T * c \<le> T * C" "(S - T) * c \<le> (S - T) * C" "0 \<le> T * c" "0 \<le> (S - T) * c" "0 \<le> T * C" "0 \<le> (S - T) * C"
    using assms by (simp_all add: mult_left_mono)
  then show ?thesis by (auto simp: w_linear_def)
qed

definition move_ranges :: "ga_problem \<Rightarrow> int \<Rightarrow> int \<Rightarrow> bool" where
  "move_ranges pb C bound \<longleftrightarrow> 0 < C \<and> C < bound \<and> 2 * C < bound \<and> C \<le> ga_scale pb * C \<and> ga_scale pb * C < bound \<and>
     2 * (ga_scale pb * C) < bound \<and> C * (ga_scale pb * C) < bound \<and>
     (\<forall>row<length (ga_rows pb). \<forall>m<3. \<forall>c. ga_rows pb ! row ! m = Some c \<longrightarrow> 0 \<le> c \<and> c \<le> C)"

lemma ga_fits_moves:
  assumes "ga_fits pb bound"
  obtains C where "move_ranges pb C bound"
proof -
  obtain C where C: "0 < C" "\<And>row m c. row < length (ga_rows pb) \<Longrightarrow> m < 3 \<Longrightarrow> ga_rows pb ! row ! m = Some c \<Longrightarrow> 0 \<le> c \<and> c \<le> C"
    "ga_scale pb * C * C < bound" "2 * (ga_scale pb * C) < bound" "2 * C < bound" using assms by (rule ga_fits_row) blast
  have "0 < ga_scale pb" using assms by (simp add: ga_fits_def)
  then have "1 * C \<le> ga_scale pb * C" using C(1) by (intro mult_right_mono) simp_all
  then have "C \<le> ga_scale pb * C" by simp
  moreover from this have "ga_scale pb * C < bound" "C < bound" using C(1,4,5) by linarith+
  moreover have "C * (ga_scale pb * C) < bound" using C(3) by (simp add: mult_ac)
  ultimately have "move_ranges pb C bound" unfolding move_ranges_def using C by blast
  then show thesis by (rule that)
qed

lemma current_cost:
  assumes "move_ranges pb C bound" "ga_valid pb p" "row < length (ga_rows pb)"
  shows "0 \<le> row_cost (ga_rows pb) p row" "row_cost (ga_rows pb) p row \<le> C"
proof -
  from assms(2,3) obtain m c where "m < 3" "p ! row = Suc m" "ga_rows pb ! row ! m = Some c" by (rule assignments_nth)
  with assms(1,3) show "0 \<le> row_cost (ga_rows pb) p row" "row_cost (ga_rows pb) p row \<le> C"
    by (auto simp: move_ranges_def)
qed

text \<open>What a move adds, and the same for the two parts of the cost.\<close>

lemma move_values:
  assumes r: "move_ranges pb C bound" and p: "ga_valid pb p" "row < length (ga_rows pb)" and T: "0 \<le> ga_threshold pb" "ga_threshold pb < ga_scale pb"
    and c: "m < 3" "ga_rows pb ! row ! m = Some c"
  shows "\<bar>ga_delta_cost pb p row c\<bar> \<le> C" "\<bar>ga_delta_slack pb p row m c\<bar> \<le> ga_scale pb * C"
    "\<bar>w_c12 (Suc m) c - w_c12 (p ! row) (row_cost (ga_rows pb) p row)\<bar> \<le> C"
    "\<bar>w_c3 (Suc m) c - w_c3 (p ! row) (row_cost (ga_rows pb) p row)\<bar> \<le> C"
proof -
  note cur = current_cost [OF r p]
  have c': "0 \<le> c" "c \<le> C" using r p(2) c by (auto simp: move_ranges_def)
  show "\<bar>ga_delta_cost pb p row c\<bar> \<le> C" using cur c' by (simp add: ga_delta_cost_def abs_le_iff)
  show "\<bar>w_c12 (Suc m) c - w_c12 (p ! row) (row_cost (ga_rows pb) p row)\<bar> \<le> C"
    "\<bar>w_c3 (Suc m) c - w_c3 (p ! row) (row_cost (ga_rows pb) p row)\<bar> \<le> C"
    using cur c' by (auto simp: w_c12_def w_c3_def)
  have "(ga_scale pb - ga_threshold pb) * C + ga_threshold pb * C = ga_scale pb * C" by (simp add: algebra_simps)
  then show "\<bar>ga_delta_slack pb p row m c\<bar> \<le> ga_scale pb * C"
    unfolding ga_delta_slack_def using w_linear_range [OF T c', of "Suc m"] w_linear_range [OF T cur, of "p ! row"] by linarith
qed

section \<open>The scan\<close>

definition scan_ok :: "(cipher \<Rightarrow> int \<Rightarrow> bool) \<Rightarrow> ga_problem \<Rightarrow> int \<Rightarrow> ga_scan \<Rightarrow> repair_scan \<Rightarrow> bool" where
  "scan_ok enc pb C s r \<longleftrightarrow> enc (r_cost r) (gs_cost s) \<and> enc (r_linear r) (gs_slack s) \<and> enc (r_id r) (gs_id s) \<and>
     enc_bit enc (r_have r) (gs_have s) \<and> enc (r3_cost r) (g3_cost s) \<and> enc (r3_linear r) (g3_slack s) \<and>
     enc (r3_id r) (g3_id s) \<and> enc_bit enc (r3_have r) (g3_have s) \<and>
     \<bar>gs_cost s\<bar> \<le> C \<and> \<bar>g3_cost s\<bar> \<le> C \<and> \<bar>gs_slack s\<bar> \<le> ga_scale pb * C \<and> \<bar>g3_slack s\<bar> \<le> ga_scale pb * C \<and>
     0 \<le> gs_id s \<and> gs_id s < 3 * int (length (ga_rows pb)) \<and> 0 \<le> g3_id s \<and> g3_id s < 3 * int (length (ga_rows pb))"

lemma move_id_range: "row < n \<Longrightarrow> m < 3 \<Longrightarrow> 0 \<le> move_id row m \<and> move_id row m < 3 * int n"
  by (simp add: move_id_def)

lemma count3_range: "0 \<le> count3 p \<and> count3 p \<le> int (length p)"
  by (simp add: count3_def)

context batched_ops
begin

lemma repair_best3_ok:
  assumes r: "move_ranges pb C bound" and n: "3 * int (length (ga_rows pb)) < bound"
    and s: "scan_ok enc pb C s sc" and e: "enc delta_cost dc" "enc delta_linear ds" "\<bar>dc\<bar> \<le> C" "\<bar>ds\<bar> \<le> ga_scale pb * C"
    and move: "0 \<le> move" "move < 3 * int (length (ga_rows pb))"
    and bits: "enc_bit enc need need3" "enc_bit enc valid v"
  shows "yields cinv E (repair_best3 ops need move delta_cost delta_linear valid sc)
    (\<lambda>x. enc_bit enc (fst x) (v \<and> \<not> need3) \<and> scan_ok enc pb C (ga_best3 move dc ds s) (snd x))"
proof -
  have b: "\<bar>dc\<bar> < bound" "\<bar>g3_cost s\<bar> < bound" "\<bar>dc - g3_cost s\<bar> < bound" "\<bar>ds - g3_slack s\<bar> < bound" "\<bar>move - g3_id s\<bar> < bound"
    using r n s e move by (simp_all add: move_ranges_def scan_ok_def) linarith+
  note facts = e b bits s [unfolded scan_ok_def, THEN conjunct2, THEN conjunct2, THEN conjunct2, THEN conjunct2, THEN conjunct1]
    s [unfolded scan_ok_def, THEN conjunct2, THEN conjunct2, THEN conjunct2, THEN conjunct2, THEN conjunct2, THEN conjunct1]
    s [unfolded scan_ok_def, THEN conjunct2, THEN conjunct2, THEN conjunct2, THEN conjunct2, THEN conjunct2, THEN conjunct2, THEN conjunct1]
    s [unfolded scan_ok_def, THEN conjunct2, THEN conjunct2, THEN conjunct2, THEN conjunct2, THEN conjunct2, THEN conjunct2, THEN conjunct2, THEN conjunct1]
  show ?thesis
    unfolding repair_best3_def
    apply (rule c_steps facts | assumption)+
    apply (rule yields_ret)
    using s e move by (auto simp: scan_ok_def ga_best3_def Let_def)
qed

lemma repair_consider_ok:
  assumes pg: "pega_ok enc bound pb pg" and v: "ind_ok enc pb p v" "vectors_ok enc pb p v"
    and r: "move_ranges pb C bound" and row: "row < length (ga_rows pb)" "m < 3"
    and s: "scan_ok enc pb C s sc" and count: "enc method3_count (count3 p)" and need: "enc_bit enc need need3"
  shows "yields cinv E (repair_consider ops pg v method3_count need row m sc) (scan_ok enc pb C (ga_consider pb p need3 row m s))"
proof (cases "ga_rows pb ! row ! m")
  case None
  then have "g_costs pg ! row ! m = None" using pega_cost(2) [OF pg row(1,2)] by simp
  with None s show ?thesis by (simp add: repair_consider_def ga_consider_def yields_ret)
next
  case (Some c)
  then obtain cost where cost: "g_costs pg ! row ! m = Some cost" "enc cost c"
    using pega_cost(2) [OF pg row(1,2)] by (auto simp: option_rel_Some2)
  have fits: "ga_fits pb bound" "0 \<le> ga_threshold pb" "ga_threshold pb < ga_scale pb" "3 * int (length (ga_rows pb)) < bound"
    using pega_okD(1) [OF pg] by (simp_all add: ga_fits_def)
  let ?dc = "ga_delta_cost pb p row c" and ?ds = "ga_delta_slack pb p row m c"
  note val = move_values [OF r ind_okD(1) [OF v(1)] row(1) fits(2,3) row(2) Some]
  have vec: "enc (i_row_cost v ! row) (row_cost (ga_rows pb) p row)"
    "enc (i_row_linear v ! row) (w_linear (ga_scale pb) (ga_threshold pb) (p ! row) (row_cost (ga_rows pb) p row))"
    using v(2) row(1) by (simp_all add: vectors_ok_def vector_ok_def w_cost_def)
  have cost_step: "yields cinv E (c_sub ops cost (i_row_cost v ! row)) (\<lambda>c. enc c ?dc)"
    using c_sub_ok [OF cost(2) vec(1)] by (simp add: ga_delta_cost_def)
  have target: "yields cinv E (c_scalar ops cost (g_weight pg m)) (\<lambda>d. enc d (w_linear (ga_scale pb) (ga_threshold pb) (Suc m) c))"
    using c_scalar_ok [OF cost(2), of "g_weight pg m"] unfolding pega_weight [OF pg, of m c] .
  have slack_step: "yields cinv E (c_sub ops t (i_row_linear v ! row)) (\<lambda>c. enc c ?ds)"
    if "enc t (w_linear (ga_scale pb) (ga_threshold pb) (Suc m) c)" for t
    using c_sub_ok [OF that vec(2)] by (simp add: ga_delta_slack_def)
  have abs: "\<bar>?dc\<bar> < bound" "\<bar>?ds\<bar> < bound" using val r by (auto simp: move_ranges_def)
  have p3: "p ! row = 3 \<Longrightarrow> 0 < count3 p"
    using row(1) ind_okD(3) [OF v(1)] nth_mem [of row p] by (auto simp: count3_def filter_empty_conv)
  have rem: "enc (i_genes v ! row ! 2) (b2i (p ! row = 3))" "\<bar>count3 p - b2i (p ! row = 3)\<bar> < bound"
    using gene_bits(3) [OF ind_okD(4) [OF v(1)], of row] row(1) ind_okD(3) [OF v(1)] count3_range [of p] fits(4) by auto
  let ?valid = "0 < ?ds \<and> (if m \<noteq> 2 then 0 < count3 p - (if p ! row = 3 then 1 else 0) else \<not> need3)"
  let ?s = "if m \<noteq> 2 then s else ga_best3 (move_id row m) ?dc ?ds s"
  note id = move_id_range [OF row]
  have first: "yields cinv E (if m \<noteq> 2 then
         bnd (c_sub ops method3_count (i_genes v ! row ! 2)) (\<lambda>remaining.
         bnd (c_greater ops remaining (g_zero pg)) (\<lambda>others.
         bnd (c_andBit ops positive others) (\<lambda>valid. ret (valid, sc))))
       else repair_best3 ops need (move_id row m) delta_cost delta_linear positive sc)
       (\<lambda>x. enc_bit enc (fst x) ?valid \<and> scan_ok enc pb C ?s (snd x))"
    if "enc_bit enc positive (0 < ?ds)" "enc delta_cost ?dc" "enc delta_linear ?ds" for positive delta_cost delta_linear
  proof (cases "m = 2")
    case True
    with repair_best3_ok [OF r fits(4) s that(2,3) val(1,2) conjunct1 [OF id] conjunct2 [OF id] need that(1)]
    show ?thesis by simp
  next
    case False
    show ?thesis
      unfolding if_P [OF False]
      by (rule yields_bnd [OF c_sub_ok [OF count rem(1)]], rule yields_bnd [OF c_greaterI [OF _ pega_okD(4) [OF pg] rem(2) small_abs(1)]],
          assumption, rule yields_bnd [OF c_andBit_ok [OF that(1)]], assumption, rule yields_ret) (use False s in simp)
  qed
  have second: "yields cinv E (
     bnd (c_mul ops delta_cost (r_linear sc')) (\<lambda>lhs.
     bnd (c_mul ops (r_cost sc') delta_linear) (\<lambda>rhs.
     bnd (c_less ops lhs rhs) (\<lambda>smaller.
     bnd (c_notBit ops (r_have sc')) (\<lambda>first.
     bnd (c_orBit ops first smaller) (\<lambda>improves.
     bnd (c_andBit ops valid improves) (\<lambda>replace.
     bnd (c_select ops replace delta_cost (r_cost sc')) (\<lambda>selected_cost.
     bnd (c_select ops replace delta_linear (r_linear sc')) (\<lambda>selected_linear.
     bnd (c_constant ops (move_id row m)) (\<lambda>this.
     bnd (c_select ops replace this (r_id sc')) (\<lambda>selected_id.
     bnd (c_orBit ops (r_have sc') valid) (\<lambda>have_selected.
     ret (sc'\<lparr>r_cost := selected_cost, r_linear := selected_linear, r_id := selected_id,
       r_have := have_selected\<rparr>)))))))))))))
     (\<lambda>sc. scan_ok enc pb C (let replace = (vb \<and> (\<not> gs_have s' \<or> ?dc * gs_slack s' < gs_cost s' * ?ds))
       in s'\<lparr>gs_cost := (if replace then ?dc else gs_cost s'), gs_slack := (if replace then ?ds else gs_slack s'),
             gs_id := (if replace then move_id row m else gs_id s'), gs_have := gs_have s' \<or> vb\<rparr>) sc)"
    if d: "enc delta_cost ?dc" "enc delta_linear ?ds" and vb: "enc_bit enc valid vb" and s': "scan_ok enc pb C s' sc'"
    for delta_cost delta_linear valid vb s' sc'
  proof -
    have ranges: "\<bar>gs_cost s'\<bar> \<le> C" "\<bar>gs_slack s'\<bar> \<le> ga_scale pb * C" "0 \<le> gs_id s'" "gs_id s' < 3 * int (length (ga_rows pb))"
      and e: "enc (r_cost sc') (gs_cost s')" "enc (r_linear sc') (gs_slack s')" "enc (r_id sc') (gs_id s')" "enc_bit enc (r_have sc') (gs_have s')"
      using s' by (simp_all add: scan_ok_def)
    have "\<bar>?dc * gs_slack s'\<bar> \<le> C * (ga_scale pb * C)" "\<bar>gs_cost s' * ?ds\<bar> \<le> C * (ga_scale pb * C)"
      unfolding abs_mult
      by (rule mult_mono [OF val(1) ranges(2)], use r in \<open>simp_all add: move_ranges_def\<close>)
         (rule mult_mono [OF ranges(1) val(2)], use r in \<open>simp_all add: move_ranges_def\<close>)
    then have prod: "\<bar>?dc * gs_slack s'\<bar> < bound" "\<bar>gs_cost s' * ?ds\<bar> < bound" using r by (auto simp: move_ranges_def)
    have b: "\<bar>gs_cost s'\<bar> < bound" "\<bar>gs_slack s'\<bar> < bound" using ranges r by (auto simp: move_ranges_def)
    have R: "2 * C < bound" "2 * (ga_scale pb * C) < bound" using r by (simp_all add: move_ranges_def)
    have diff: "\<bar>?dc - gs_cost s'\<bar> < bound" using ranges(1) val(1) R(1) by linarith
    have diff2: "\<bar>?ds - gs_slack s'\<bar> < bound" using ranges(2) val(2) R(2) by linarith
    have diff3: "\<bar>move_id row m - gs_id s'\<bar> < bound" using ranges(3,4) id fits(4) by linarith
    note facts = d vb e prod abs b diff diff2 diff3
    show ?thesis
      apply (rule c_steps facts | assumption)+
      apply (rule yields_ret)
      subgoal premises q
      proof (cases "vb \<and> (\<not> gs_have s' \<or> ?dc * gs_slack s' < gs_cost s' * ?ds)")
        case True
        show ?thesis using q s' val id unfolding if_P [OF True] scan_ok_def Let_def by simp
      next
        case False
        show ?thesis using q s' val id unfolding if_not_P [OF False] scan_ok_def Let_def by simp
      qed
      done
  qed
  have eq: "ga_consider pb p need3 row m s = (let replace = (?valid \<and> (\<not> gs_have ?s \<or> ?dc * gs_slack ?s < gs_cost ?s * ?ds))
       in ?s\<lparr>gs_cost := (if replace then ?dc else gs_cost ?s), gs_slack := (if replace then ?ds else gs_slack ?s),
             gs_id := (if replace then move_id row m else gs_id ?s), gs_have := gs_have ?s \<or> ?valid\<rparr>)"
    unfolding ga_consider_def Some option.case Let_def ..
  show ?thesis
    unfolding repair_consider_def cost(1) option.case eq case_prod_beta
    apply (rule yields_bnd [OF cost_step])
    apply (rule yields_bnd [OF target])
    apply (rule yields_bnd [OF slack_step], assumption)
    apply (rule yields_bnd [OF c_greaterI [OF _ pega_okD(4) [OF pg] abs(2) small_abs(1)]], assumption)
    apply (rule yields_bnd [OF first], assumption+)
    apply (rule second)
       apply assumption+
     apply (erule conjunct1)
    apply (erule conjunct2)
    done
qed

end

section \<open>The move\<close>

text \<open>An individual whose caches may be stale, between the two passes.\<close>

definition val_ok :: "(cipher \<Rightarrow> int \<Rightarrow> bool) \<Rightarrow> ga_problem \<Rightarrow> nat list \<Rightarrow> individual \<Rightarrow> bool" where
  "val_ok enc pb p v \<longleftrightarrow> ga_valid pb p \<and> list_all2 (gene_ok enc) (i_genes v) p \<and> sums_ok enc pb p v \<and> vectors_ok enc pb p v"

lemma ga_sums_update:
  assumes "ga_valid pb p" "row < length (ga_rows pb)" "ga_rows pb ! row ! m = Some c"
  shows "sum_by w (ga_rows pb) (p[row := Suc m]) =
    sum_by w (ga_rows pb) p + (w (Suc m) c - w (p ! row) (row_cost (ga_rows pb) p row))"
  using sum_by_update [OF assms(2) assignments_length [OF assms(1)], of w "Suc m"] assms(3) by simp

lemma vector_update:
  assumes "vector_ok enc pb p w cs" "row < length (ga_rows pb)" "ga_rows pb ! row ! m = Some c" "length p = length (ga_rows pb)"
    and "enc d (w (Suc m) c)"
  shows "vector_ok enc pb (p[row := Suc m]) w (cs[row := d])"
  using assms by (auto simp: vector_ok_def nth_list_update)

lemma vector_same:
  assumes "vector_ok enc pb p w cs" "row < length (ga_rows pb)" "enc d (w (p ! row) (row_cost (ga_rows pb) p row))"
  shows "vector_ok enc pb p w (cs[row := d])"
  using assms by (auto simp: vector_ok_def nth_list_update)

context batched_ops
begin

lemma masked_add_ok:
  assumes "enc gate (b2i t)" "enc x a" "enc d e" "\<bar>e\<bar> < bound"
  shows "yields cinv E (masked_add ops gate x d) (\<lambda>c. enc c (if t then a + e else a))"
proof -
  have eq: "a + b2i t * e = (if t then a + e else a)" by simp
  show ?thesis
    unfolding masked_add_def eq [symmetric]
    by (rule yields_bnd [OF c_mulI [OF assms(1,3) small_abs(3) assms(4)]]) (rule c_add_ok [OF assms(2)])
qed

lemma masked_gene_ok:
  assumes t: "enc gate (b2i t)" and g: "gene_ok enc gene q"
  shows "yields cinv E (masked_gene ops gate m gene) (\<lambda>g. gene_ok enc g (if t then Suc m else q))"
  unfolding masked_gene_def
proof (rule yields_weaken)
  show "yields cinv E (mapM (\<lambda>j. bnd (c_constant ops (if j = m then 1 else 0)) (\<lambda>target.
       bnd (c_sub ops target (gene ! j)) (\<lambda>delta. masked_add ops gate (gene ! j) delta))) [0, 1, 2])
      (list_all2 (\<lambda>j c. enc c (b2i ((if t then Suc m else q) = Suc j))) [0, 1, 2])"
  proof (rule yields_mapM)
    fix j :: nat assume "j \<in> set [0, 1, 2]"
    then have gj: "enc (gene ! j) (b2i (q = Suc j))" using gene_okD [OF g, of j] by auto
    have small: "\<bar>(if j = m then 1 else 0) - b2i (q = Suc j)\<bar> < bound" using bound_gt by simp
    have eq: "(if t then b2i (q = Suc j) + ((if j = m then 1 else 0) - b2i (q = Suc j)) else b2i (q = Suc j)) =
        b2i ((if t then Suc m else q) = Suc j)" by auto
    show "yields cinv E (bnd (c_constant ops (if j = m then 1 else 0)) (\<lambda>target.
       bnd (c_sub ops target (gene ! j)) (\<lambda>delta. masked_add ops gate (gene ! j) delta)))
       (\<lambda>c. enc c (b2i ((if t then Suc m else q) = Suc j)))"
      unfolding eq [symmetric]
      by (rule yields_bnd [OF c_constant_ok], rule yields_bnd [OF c_sub_ok [OF _ gj]], assumption)
         (rule masked_add_ok [OF t gj _ small])
  qed
qed (rule gene_okI)

lemma repair_apply_ok:
  assumes pg: "pega_ok enc bound pb pg" and r: "move_ranges pb C bound" and row: "row < length (ga_rows pb)" "m < 3"
    and a: "enc_bit enc apply_move b" and sel: "enc selected_id i" "\<bar>i\<bar> < bound" and v: "val_ok enc pb p v"
  shows "yields cinv E (repair_apply ops pg apply_move selected_id row m v) (val_ok enc pb (ga_apply pb b i (row, m) p))"
proof (cases "ga_rows pb ! row ! m")
  case None
  then have "g_costs pg ! row ! m = None" using pega_cost(2) [OF pg row(1,2)] by simp
  with None v show ?thesis by (simp add: repair_apply_def ga_apply_def yields_ret)
next
  case (Some c)
  then obtain cost where cost: "g_costs pg ! row ! m = Some cost" "enc cost c"
    using pega_cost(2) [OF pg row(1,2)] by (auto simp: option_rel_Some2)
  have fits: "0 \<le> ga_threshold pb" "ga_threshold pb < ga_scale pb" "3 * int (length (ga_rows pb)) < bound"
    using pega_okD(1) [OF pg] by (simp_all add: ga_fits_def)
  have p: "ga_valid pb p" and genes: "list_all2 (gene_ok enc) (i_genes v) p" and sums: "sums_ok enc pb p v"
    and vec: "vector_ok enc pb p w_cost (i_row_cost v)"
      "vector_ok enc pb p (w_linear (ga_scale pb) (ga_threshold pb)) (i_row_linear v)"
      "vector_ok enc pb p w_c12 (i_row_c12 v)" "vector_ok enc pb p w_c3 (i_row_c3 v)"
    using v by (simp_all add: val_ok_def vectors_ok_def)
  have len: "length p = length (ga_rows pb)" by (rule assignments_length [OF p])
  let ?l = "w_linear (ga_scale pb) (ga_threshold pb)" and ?cur = "row_cost (ga_rows pb) p row" and ?q = "p ! row"
  let ?d = "\<lambda>w. w (Suc m) c - w ?q ?cur"
  note val = move_values [OF r p row(1) fits(1,2) row(2) Some]
  have abs: "\<bar>?d w_cost\<bar> < bound" "\<bar>?d ?l\<bar> < bound" "\<bar>?d w_c12\<bar> < bound" "\<bar>?d w_c3\<bar> < bound"
    using val r by (auto simp: move_ranges_def ga_delta_cost_def ga_delta_slack_def w_cost_def)
  have id: "\<bar>move_id row m\<bar> < bound" using move_id_range [OF row] fits(3) by simp
  define t where "t = (b \<and> i = move_id row m)"
  have cur: "enc (i_row_cost v ! row) (w_cost ?q ?cur)" "enc (i_row_linear v ! row) (?l ?q ?cur)"
    "enc (i_row_c12 v ! row) (w_c12 ?q ?cur)" "enc (i_row_c3 v ! row) (w_c3 ?q ?cur)"
    using vec row(1) by (simp_all add: vector_ok_def)
  have gate: "yields cinv E (c_mul ops (ciphertext apply_move) (ciphertext eq)) (\<lambda>g. enc g (b2i t))"
    if "enc_bit enc eq (i = move_id row m)" for eq
  proof -
    have "b2i b * b2i (i = move_id row m) = b2i t" by (simp add: t_def)
    with c_mulI [of "ciphertext apply_move" "b2i b" "ciphertext eq" "b2i (i = move_id row m)"] a that small_abs(3)
    show ?thesis by (simp add: enc_bit_def)
  qed
  have target: "yields cinv E (c_scalar ops cost (g_weight pg m)) (\<lambda>d. enc d (?l (Suc m) c))"
    using c_scalar_ok [OF cost(2), of "g_weight pg m"] unfolding pega_weight [OF pg, of m c] .
  have d: "yields cinv E (c_sub ops cost (i_row_cost v ! row)) (\<lambda>x. enc x (?d w_cost))"
    "yields cinv E (c_sub ops (if m < 2 then cost else g_zero pg) (i_row_c12 v ! row)) (\<lambda>x. enc x (?d w_c12))"
    "yields cinv E (c_sub ops (if m = 2 then cost else g_zero pg) (i_row_c3 v ! row)) (\<lambda>x. enc x (?d w_c3))"
  proof -
    show "yields cinv E (c_sub ops cost (i_row_cost v ! row)) (\<lambda>x. enc x (?d w_cost))"
      using c_sub_ok [OF cost(2) cur(1)] by (simp add: w_cost_def)
    have "enc (if m < 2 then cost else g_zero pg) (w_c12 (Suc m) c)" "enc (if m = 2 then cost else g_zero pg) (w_c3 (Suc m) c)"
      using cost(2) pega_okD(4) [OF pg] row(2) by (auto simp: w_c12_def w_c3_def)
    from c_sub_ok [OF this(1) cur(3)] c_sub_ok [OF this(2) cur(4)]
    show "yields cinv E (c_sub ops (if m < 2 then cost else g_zero pg) (i_row_c12 v ! row)) (\<lambda>x. enc x (?d w_c12))"
      "yields cinv E (c_sub ops (if m = 2 then cost else g_zero pg) (i_row_c3 v ! row)) (\<lambda>x. enc x (?d w_c3))" .
  qed
  have sl: "yields cinv E (c_sub ops x (i_row_linear v ! row)) (\<lambda>x. enc x (?d ?l))" if "enc x (?l (Suc m) c)" for x
    by (rule c_sub_ok [OF that cur(2)])
  have gene: "gene_ok enc (i_genes v ! row) ?q" using list_all2_nthD2 [OF genes, of row] row(1) len by simp
  have e: "enc (i_total v) (ga_cost pb p)" "enc (i_linear v) (ga_slack pb p)" "enc (i_c12 v) (ga_c12 pb p)" "enc (i_c3 v) (ga_c3 pb p)"
    using sums by (simp_all add: sums_ok_def)
  note masked = yields_bnd [OF masked_add_ok]
  have m: "m \<in> set (available (ga_rows pb ! row))" using row(2) Some by (simp add: available_set)
  have final: "val_ok enc pb (ga_apply pb b i (row, m) p) u"
    if u: "u = v\<lparr>i_total := s1, i_linear := s2, i_c12 := s3, i_c3 := s4,
       i_row_cost := (i_row_cost v)[row := v1], i_row_linear := (i_row_linear v)[row := v2],
       i_row_c12 := (i_row_c12 v)[row := v3], i_row_c3 := (i_row_c3 v)[row := v4], i_genes := (i_genes v)[row := g]\<rparr>"
      and s: "enc s1 (if t then ga_cost pb p + ?d w_cost else ga_cost pb p)" "enc s2 (if t then ga_slack pb p + ?d ?l else ga_slack pb p)"
        "enc s3 (if t then ga_c12 pb p + ?d w_c12 else ga_c12 pb p)" "enc s4 (if t then ga_c3 pb p + ?d w_c3 else ga_c3 pb p)"
      and vs: "enc v1 (if t then w_cost ?q ?cur + ?d w_cost else w_cost ?q ?cur)" "enc v2 (if t then ?l ?q ?cur + ?d ?l else ?l ?q ?cur)"
        "enc v3 (if t then w_c12 ?q ?cur + ?d w_c12 else w_c12 ?q ?cur)" "enc v4 (if t then w_c3 ?q ?cur + ?d w_c3 else w_c3 ?q ?cur)"
      and g: "gene_ok enc g (if t then Suc m else ?q)"
    for u s1 s2 s3 s4 v1 v2 v3 v4 g
  proof (cases t)
    case True
    then have ga: "ga_apply pb b i (row, m) p = p[row := Suc m]" using Some by (simp add: ga_apply_def t_def)
    have valid: "ga_valid pb (p[row := Suc m])" by (rule assignments_update [OF p m])
    have genes': "list_all2 (gene_ok enc) ((i_genes v)[row := g]) (p[row := Suc m])"
      by (rule list_all2_update_cong [OF genes]) (use g True in simp)
    have sums': "sums_ok enc pb (p[row := Suc m]) u"
      unfolding sums_ok_def ga_cost_def ga_c12_def ga_c3_def ga_slack_def ga_sums_update [OF p row(1) Some] u
      using s True by (simp add: ga_cost_def ga_c12_def ga_c3_def ga_slack_def)
    have vecs': "vectors_ok enc pb (p[row := Suc m]) u"
      unfolding vectors_ok_def u using vs True
      by (auto intro!: vector_update [OF vec(1) row(1) Some len] vector_update [OF vec(2) row(1) Some len]
          vector_update [OF vec(3) row(1) Some len] vector_update [OF vec(4) row(1) Some len])
    show ?thesis unfolding ga val_ok_def using valid genes' sums' vecs' u by simp
  next
    case False
    then have ga: "ga_apply pb b i (row, m) p = p" by (auto simp: ga_apply_def t_def)
    have genes': "list_all2 (gene_ok enc) ((i_genes v)[row := g]) p"
      using list_all2_update_cong [OF genes, of g ?q row] g False by simp
    have sums': "sums_ok enc pb p u" unfolding sums_ok_def u using s False by simp
    have vecs': "vectors_ok enc pb p u"
      unfolding vectors_ok_def u using vs False
      by (auto intro!: vector_same [OF vec(1) row(1)] vector_same [OF vec(2) row(1)]
          vector_same [OF vec(3) row(1)] vector_same [OF vec(4) row(1)])
    show ?thesis unfolding ga val_ok_def using p genes' sums' vecs' u by simp
  qed
  show ?thesis
    unfolding repair_apply_def cost(1) option.case
    apply (rule yields_bnd [OF c_constant_ok])
    apply (rule yields_bnd [OF c_equal_ok [OF sel(1) _ sel(2) id]], assumption)
    apply (rule yields_bnd [OF gate], assumption)
    apply (rule yields_bnd [OF target])
    apply (rule yields_bnd [OF sl], assumption)
    apply (rule yields_bnd [OF d(1)])
    apply (rule yields_bnd [OF d(2)])
    apply (rule yields_bnd [OF d(3)])
    apply (rule masked, assumption, rule e(1), assumption, rule abs(1))
    apply (rule masked, assumption, rule e(2), assumption, rule abs(2))
    apply (rule masked, assumption, rule cur(1), assumption, rule abs(1))
    apply (rule masked, assumption, rule cur(2), assumption, rule abs(2))
    apply (rule masked, assumption, rule cur(3), assumption, rule abs(3))
    apply (rule masked, assumption, rule cur(4), assumption, rule abs(4))
    apply (rule masked, assumption, rule e(3), assumption, rule abs(3))
    apply (rule masked, assumption, rule e(4), assumption, rule abs(4))
    apply (rule yields_bnd [OF masked_gene_ok [OF _ gene]], assumption)
    apply (rule yields_ret)
    apply (rule final [OF refl], assumption+)
    done
qed

end

section \<open>A round\<close>

lemma moves_related: "list_all2 (\<lambda>x y. y = x \<and> fst x < n \<and> snd x < 3) (moves n) (moves n)"
  unfolding list_all2_same using moves_set by fastforce

definition full_ok :: "(cipher \<Rightarrow> int \<Rightarrow> bool) \<Rightarrow> ga_problem \<Rightarrow> nat list \<Rightarrow> individual \<Rightarrow> bool" where
  "full_ok enc pb p v \<longleftrightarrow> ind_ok enc pb p v \<and> vectors_ok enc pb p v"

lemma full_of_val: "val_ok enc pb p v \<Longrightarrow> full_ok enc pb p (v\<lparr>i_feasible := None, i_fitness := None\<rparr>)"
  by (simp add: val_ok_def full_ok_def ind_ok_def sums_ok_def caches_ok_def vectors_ok_def)

lemma val_of_full: "ind_ok enc pb p v \<Longrightarrow> vectors_ok enc pb p v \<Longrightarrow> val_ok enc pb p v"
  by (simp add: val_ok_def ind_ok_def)

context batched_ops
begin

lemma count3_ok:
  assumes z: "enc zero 0" and g: "list_all2 (gene_ok enc) gs p"
  shows "yields cinv E (foldM (\<lambda>gene count. c_add ops count (gene ! 2)) gs zero) (\<lambda>c. enc c (count3 p))"
proof -
  have "list_all2 (\<lambda>q g. gene_ok enc g q) p gs" using g by (simp add: list_all2_conv_all_nth)
  then have "yields cinv E (foldM (\<lambda>gene count. c_add ops count (gene ! 2)) gs zero)
      (\<lambda>c. enc c (fold (\<lambda>q x. x + b2i (q = 3)) p 0))"
    by (rule yields_foldM_related [where J = "\<lambda>x c. enc c x", OF _ z]) (rule c_add_ok, assumption, erule gene_bits)
  moreover have "fold (\<lambda>q x. x + b2i (q = 3)) p b = b + count3 p" for b
    by (induction p arbitrary: b) (simp_all add: count3_def)
  ultimately show ?thesis by simp
qed

lemma scan_moves_ok:
  assumes pg: "pega_ok enc bound pb pg" and v: "ind_ok enc pb p v" "vectors_ok enc pb p v" and r: "move_ranges pb C bound"
    and s: "scan_ok enc pb C empty_scan sc" and count: "enc method3_count (count3 p)"
    and need: "enc_bit enc need (\<not> 0 < ga_c3 pb p)"
  shows "yields cinv E (foldM (\<lambda>move. repair_consider ops pg v method3_count need (fst move) (snd move)) (moves (length (ga_rows pb))) sc)
    (scan_ok enc pb C (ga_scan_moves pb p))"
  unfolding ga_scan_moves_def
  by (rule yields_foldM_related [where J = "scan_ok enc pb C", OF moves_related s])
     (use repair_consider_ok [OF pg v r _ _ _ count need] in auto)

lemma apply_moves_ok:
  assumes pg: "pega_ok enc bound pb pg" and r: "move_ranges pb C bound" and a: "enc_bit enc apply_move b"
    and sel: "enc selected_id i" "\<bar>i\<bar> < bound" and v: "val_ok enc pb p v"
  shows "yields cinv E (foldM (\<lambda>move. repair_apply ops pg apply_move selected_id (fst move) (snd move)) (moves (length (ga_rows pb))) v)
    (val_ok enc pb (fold (ga_apply pb b i) (moves (length (ga_rows pb))) p))"
  by (rule yields_foldM_related [where J = "val_ok enc pb", OF moves_related v])
     (use repair_apply_ok [OF pg r _ _ a sel] in auto)

lemma repair_round_ok:
  assumes pg: "pega_ok enc bound pb pg" and v: "full_ok enc pb p v"
  shows "yields cinv E (repair_round ops pg v) (full_ok enc pb (ga_repair_round pb p))"
proof -
  have fits: "ga_fits pb bound" "3 * int (length (ga_rows pb)) < bound" "ga_rows pb \<noteq> []"
    using pega_okD(1) [OF pg] by (simp_all add: ga_fits_def)
  obtain C where r: "move_ranges pb C bound" using fits(1) by (rule ga_fits_moves)
  have vi: "ind_ok enc pb p v" "vectors_ok enc pb p v" using v by (simp_all add: full_ok_def)
  have n: "0 < length (ga_rows pb)" using fits(3) by simp
  have C: "0 \<le> C" "0 \<le> ga_scale pb * C" using r by (auto simp: move_ranges_def)
  let ?sc = "ga_scan_moves pb p" and ?need = "\<not> 0 < ga_c3 pb p"
  let ?sel = "if ?need then g3_id ?sc else gs_id ?sc"
  let ?apply = "\<not> ga_feasible pb p \<and> (gs_have ?sc \<or> (?need \<and> g3_have ?sc))"
  have zero: "enc (g_zero pg) 0" by (rule pega_okD(4) [OF pg])
  have never: "yields cinv E (c_greater ops (g_zero pg) (g_zero pg)) (\<lambda>c. enc_bit enc c False)"
    using c_greaterI [OF zero zero small_abs(1) small_abs(1)] by simp
  have eq: "ga_repair_round pb p = fold (ga_apply pb ?apply ?sel) (moves (length (ga_rows pb))) p"
    by (simp add: ga_repair_round_def Let_def)
  show ?thesis
    unfolding repair_round_def Let_def pega_okD(3) [OF pg] case_prod_beta
    apply (rule yields_bnd [OF e_feasible_ok [OF pg vi(1)]])
    subgoal premises h for rf
    proof -
      have w: "ind_ok enc pb p (snd rf)" "vectors_ok enc pb p (snd rf)" using h vi by auto
      have gs: "list_all2 (gene_ok enc) (i_genes (snd rf)) p" using w(1) by (simp add: ind_ok_def)
      note c3 = ind_okD(7) [OF w(1)] and c3b = ga_fits_values(3) [OF fits(1) ind_okD(1) [OF w(1)]]
      note val = val_of_full [OF w]
      show ?thesis
        apply (rule yields_bnd [OF never])
        apply (rule yields_bnd [OF c_greaterI [OF c3 zero c3b small_abs(1)]])
        apply (rule yields_bnd [OF c_notBit_ok], assumption)
        apply (rule yields_bnd [OF never])
        apply (rule yields_bnd [OF count3_ok [OF zero gs]])
        apply (rule yields_bnd [OF scan_moves_ok [OF pg w r]])
           apply (simp add: scan_ok_def empty_scan_def zero C fits(3))
          apply assumption
         apply assumption
        subgoal premises s for have_selected has_method3 need have3 count sc
        proof -
          note so = s(6) [unfolded scan_ok_def]
          have ids: "0 \<le> gs_id ?sc" "gs_id ?sc < 3 * int (length (ga_rows pb))" "0 \<le> g3_id ?sc" "g3_id ?sc < 3 * int (length (ga_rows pb))"
            "\<bar>gs_cost ?sc\<bar> \<le> C" "\<bar>g3_cost ?sc\<bar> \<le> C" "\<bar>gs_slack ?sc\<bar> \<le> ga_scale pb * C" "\<bar>g3_slack ?sc\<bar> \<le> ga_scale pb * C"
            using so by simp_all
          have R: "2 * C < bound" "2 * (ga_scale pb * C) < bound" using r by (simp_all add: move_ranges_def)
          have diffs: "\<bar>g3_id ?sc - gs_id ?sc\<bar> < bound" using ids(1-4) fits(2) by linarith
          have diffs2: "\<bar>g3_cost ?sc - gs_cost ?sc\<bar> < bound" using ids(5,6) R(1) by linarith
          have diffs3: "\<bar>g3_slack ?sc - gs_slack ?sc\<bar> < bound" using ids(7,8) R(2) by linarith
          have e: "enc (r3_id sc) (g3_id ?sc)" "enc (r_id sc) (gs_id ?sc)" "enc (r3_cost sc) (g3_cost ?sc)" "enc (r_cost sc) (gs_cost ?sc)"
            "enc (r3_linear sc) (g3_slack ?sc)" "enc (r_linear sc) (gs_slack ?sc)" "enc_bit enc (r3_have sc) (g3_have ?sc)"
            "enc_bit enc (r_have sc) (gs_have ?sc)" using so by simp_all
          have sel: "\<bar>?sel\<bar> < bound" using ids fits(2) by auto
          show ?thesis
            apply (rule c_steps e diffs diffs2 diffs3 conjunct1 [OF h] s(3) | assumption)+
            apply (rule yields_bnd [OF apply_moves_ok [OF pg r _ _ sel val]], assumption, assumption)
            apply (rule yields_ret)
            apply (simp only: eq)
            by (rule full_of_val)
        qed
        done
    qed
    done
qed

lemma repair_ok:
  assumes pg: "pega_ok enc bound pb pg" and v: "full_ok enc pb p v"
  shows "yields cinv E (repair ops pg v) (full_ok enc pb (ga_repair pb (repair_rounds pg) p))"
proof -
  let ?n = "repair_rounds pg"
  have "yields cinv E (foldM (\<lambda>_. repair_round ops pg) [0..<?n] v) (full_ok enc pb (ga_repair pb (length [0..<?n]) p))"
    by (rule yields_foldM_indexed [where J = "\<lambda>i. full_ok enc pb (ga_repair pb i p)"])
       (use v repair_round_ok [OF pg] in \<open>auto simp: ga_repair_def\<close>)
  then show ?thesis by (simp add: repair_def)
qed

end

end
