(* ===== verification/PegaRun.thy ===== *)
theory PegaRun
  imports PegaRepair EncryptedSearch
begin

text \<open>
  Offspring, generations and the whole run of the confidential genetic optimizer, against the plain
  search; and what the validation of a request guarantees about the ranges of the values.
\<close>

section \<open>Offspring\<close>

context batched_ops
begin

lemma mutate_row_ok:
  assumes pg: "pega_ok enc bound pb pg" and row: "row < length (ga_rows pb)"
    and b: "ga_valid pb (fst b)" "list_all2 (gene_ok enc) (fst c) (fst b)" "snd c = snd b"
  shows "yields cinv E (mutate_row ops pg mt row c)
    (\<lambda>r. list_all2 (gene_ok enc) (fst r) (fst (ga_mutate pb (g_config pg) mt row b)) \<and>
       snd r = snd (ga_mutate pb (g_config pg) mt row b))"
proof -
  let ?ch = "available (ga_rows pb ! row)" and ?k = "snd b"
  let ?sel = "unat (mt (Suc ?k)) mod length ?ch"
  let ?mut = "generate_canonical (mt ?k) < p_mutation_rate (g_config pg) \<and> length ?ch > 1"
  show ?thesis
  proof (cases ?mut)
    case False
    then show ?thesis
      using b(2,3) by (auto simp: mutate_row_def ga_mutate_def Let_def pega_available [OF pg row] intro!: yields_ret)
  next
    case True
    have ok: "row_ok (ga_rows pb ! row)" by (rule ga_rows_ok_nth [OF pega_okD(2) [OF pg] row])
    have sel: "?ch ! ?sel \<in> set ?ch" by (rule available_pick [OF ok])
    then have m: "?ch ! ?sel < 3" by (simp add: available_set)
    have len: "length (fst b) = length (ga_rows pb)" by (rule assignments_length [OF b(1)])
    have g: "gene_ok enc (fst c ! row) (fst b ! row)" using list_all2_nthD2 [OF b(2), of row] row len by simp
    have bit: "enc (fst c ! row ! (?ch ! ?sel)) (b2i (fst b ! row = Suc (?ch ! ?sel)))" by (rule gene_okD [OF g m])
    have same: "(\<not> (1 < b2i q \<or> b2i q < 1)) = q" for q by simp
    show ?thesis
      unfolding mutate_row_def ga_mutate_def Let_def pega_available [OF pg row] b(3) if_P [OF True]
      apply (rule yields_bnd [OF oneHot_ok])
      apply (rule yields_bnd [OF oneHot_ok])
      apply (rule yields_bnd [OF c_greaterI [OF bit pega_okD(5) [OF pg] small_abs(3) small_abs(2)]])
      apply (rule yields_bnd [OF c_greaterI [OF pega_okD(5) [OF pg] bit small_abs(2) small_abs(3)]])
      apply (rule yields_bnd [OF c_orBit_ok], assumption, assumption)
      apply (rule yields_bnd [OF c_notBit_ok], assumption)
      apply (rule yields_bnd [OF select_gene_ok], assumption, assumption, assumption)
      apply (rule yields_ret)
      apply (simp only: same fst_conv snd_conv)
      apply (intro conjI refl)
      apply (rule list_all2_update_cong [OF b(2)])
      by (simp split: if_splits)
  qed
qed

lemma crossover_ok:
  "list_all2 (gene_ok enc) a p \<Longrightarrow> list_all2 (gene_ok enc) b q \<Longrightarrow> length p = length q \<Longrightarrow>
     list_all2 (gene_ok enc) (crossover mt k a b) (crossover mt k p q)"
  by (auto simp: list_all2_conv_all_nth crossover_def)

lemma mutate_all_ok:
  assumes pg: "pega_ok enc bound pb pg" and p: "ga_valid pb p" and g: "list_all2 (gene_ok enc) genes p"
  shows "yields cinv E (foldM (mutate_row ops pg mt) [0..<length p] (genes, k))
    (\<lambda>r. ga_valid pb (fst (fold (ga_mutate pb (g_config pg) mt) [0..<length p] (p, k))) \<and>
       list_all2 (gene_ok enc) (fst r) (fst (fold (ga_mutate pb (g_config pg) mt) [0..<length p] (p, k))) \<and>
       snd r = snd (fold (ga_mutate pb (g_config pg) mt) [0..<length p] (p, k)))"
proof (rule yields_foldM_related [where P = "\<lambda>x y. y = x \<and> x < length (ga_rows pb)"
      and J = "\<lambda>b c. ga_valid pb (fst b) \<and> list_all2 (gene_ok enc) (fst c) (fst b) \<and> snd c = snd b"])
  show "list_all2 (\<lambda>x y. y = x \<and> x < length (ga_rows pb)) [0..<length p] [0..<length p]"
    unfolding list_all2_same using assignments_length [OF p] by simp
  show "ga_valid pb (fst (p, k)) \<and> list_all2 (gene_ok enc) (fst (genes, k)) (fst (p, k)) \<and> snd (genes, k) = snd (p, k)"
    using p g by simp
  fix x y :: nat and b :: "nat list \<times> nat" and c :: "cipher list list \<times> nat"
  assume x: "y = x \<and> x < length (ga_rows pb)"
    and b: "ga_valid pb (fst b) \<and> list_all2 (gene_ok enc) (fst c) (fst b) \<and> snd c = snd b"
  have "ga_valid pb (fst (ga_mutate pb (g_config pg) mt x b))"
    by (rule ga_mutate_valid [OF pega_okD(2) [OF pg]]) (use x b in simp_all)
  with x b show "yields cinv E (mutate_row ops pg mt y c)
      (\<lambda>c. ga_valid pb (fst (ga_mutate pb (g_config pg) mt x b)) \<and>
        list_all2 (gene_ok enc) (fst c) (fst (ga_mutate pb (g_config pg) mt x b)) \<and>
        snd c = snd (ga_mutate pb (g_config pg) mt x b))"
    using yields_weaken [OF mutate_row_ok [OF pg, of x b c mt]] by simp
qed

text \<open>A child is related to its plain counterpart; the population keeps its plain values.\<close>

lemma make_child_ok:
  assumes pg: "pega_ok enc bound pb pg" and pop: "inds_ok enc pb ps vs" "vs \<noteq> []"
  shows "yields cinv E (make_child ops pg mt vs k)
    (\<lambda>r. ind_ok enc pb (fst (ga_child pb (g_config pg) (repair_rounds pg) mt ps k)) (fst r) \<and> inds_ok enc pb ps (fst (snd r)) \<and>
       snd (snd r) = snd (ga_child pb (g_config pg) (repair_rounds pg) mt ps k))"
proof -
  let ?cf = "g_config pg"
  obtain a k1 where a: "ga_tournament pb ?cf mt ps k = (a, k1)" by fastforce
  obtain b k2 where b: "ga_tournament pb ?cf mt ps k1 = (b, k2)" by fastforce
  let ?c = "generate_canonical (mt k2) < p_crossover_rate ?cf"
  let ?p = "if ?c then crossover mt (Suc k2) a b else a" and ?k = "if ?c then Suc k2 + length a else Suc k2"
  let ?m = "fold (ga_mutate pb ?cf mt) [0..<length a] (?p, ?k)"
  have child: "ga_child pb ?cf (repair_rounds pg) mt ps k = (ga_repair pb (repair_rounds pg) (fst ?m), snd ?m)"
    by (simp add: ga_child_def a b Let_def case_prod_beta)
  show ?thesis
    unfolding make_child_def Let_def case_prod_beta child fst_conv snd_conv
    apply (rule yields_bnd [OF tournament_ok [OF pg pop]])
    subgoal premises h1 for r1
    proof -
      note h1 = h1 [unfolded a fst_conv snd_conv]
      have ne: "fst (snd r1) \<noteq> []" using h1 pop by (auto dest: list_all2_lengthD)
      note t2 = tournament_ok [OF pg conjunct1 [OF conjunct2 [OF h1]] ne, of mt k1, unfolded b fst_conv snd_conv]
      show ?thesis
        unfolding conjunct2 [OF conjunct2 [OF h1]]
        apply (rule yields_bnd [OF t2])
        subgoal premises h2 for r2
        proof -
          have ia: "ind_ok enc pb a (fst r1)" and ib: "ind_ok enc pb b (fst r2)" using h1 h2 by simp_all
          have len: "length (i_genes (fst r1)) = length a" "length b = length a"
            using ind_okD(2,3) [OF ia] ind_okD(3) [OF ib] by simp_all
          let ?g = "if ?c then crossover mt (Suc k2) (i_genes (fst r1)) (i_genes (fst r2)) else i_genes (fst r1)"
          have valid: "ga_valid pb ?p" using ind_okD(1) [OF ia] ind_okD(1) [OF ib] crossover_valid by simp
          have genes: "list_all2 (gene_ok enc) ?g ?p"
            using ia ib len by (auto simp: ind_ok_def intro: crossover_ok)
          have lp: "length ?p = length a" by (simp add: crossover_def)
          note mut = mutate_all_ok [OF pg valid genes, unfolded lp]
          show ?thesis
            unfolding conjunct2 [OF conjunct2 [OF h2]] len
            apply (rule yields_bnd [OF mut])
            subgoal premises h3 for r3
              apply (rule yields_bnd [OF evaluate_individual_ok [OF pg conjunct1 [OF h3]]])
               apply (simp add: h3)
              apply (rule yields_bnd [OF repair_ok [OF pg]])
               apply (simp add: full_ok_def)
              apply (rule yields_ret)
              using h2 h3 by (simp add: full_ok_def)
            done
        qed
        done
    qed
    done
qed

lemma children_ok:
  assumes pg: "pega_ok enc bound pb pg"
  shows "inds_ok enc pb ps vs \<Longrightarrow> vs \<noteq> [] \<Longrightarrow>
    yields cinv E (children ops pg mt n vs k)
      (\<lambda>r. inds_ok enc pb (fst (ga_children pb (g_config pg) (repair_rounds pg) mt n ps k)) (fst r) \<and>
         snd r = snd (ga_children pb (g_config pg) (repair_rounds pg) mt n ps k))"
proof (induction n arbitrary: vs k)
  case 0
  then show ?case by (simp add: yields_ret)
next
  case (Suc n)
  obtain p k1 where c: "ga_child pb (g_config pg) (repair_rounds pg) mt ps k = (p, k1)" by fastforce
  show ?case
    unfolding children.simps case_prod_beta
    apply (rule yields_bnd [OF make_child_ok [OF pg Suc.prems]])
    subgoal premises h for r
    proof -
      note h = h [unfolded c fst_conv snd_conv]
      have ne: "fst (snd r) \<noteq> []" using h Suc.prems by (auto dest: list_all2_lengthD)
      show ?thesis
        unfolding conjunct2 [OF conjunct2 [OF h]]
        by (rule yields_bnd [OF Suc.IH [OF conjunct1 [OF conjunct2 [OF h]] ne, of k1]], rule yields_ret)
           (use h in \<open>simp add: c case_prod_beta\<close>)
    qed
    done
qed

lemma random_population_ok:
  assumes pg: "pega_ok enc bound pb pg"
  shows "yields cinv E (random_population ops pg mt n k)
    (\<lambda>r. inds_ok enc pb (fst (ga_population pb (repair_rounds pg) mt n k)) (fst r) \<and>
       snd r = snd (ga_population pb (repair_rounds pg) mt n k))"
proof (induction n arbitrary: k)
  case 0
  show ?case by (simp add: yields_ret)
next
  case (Suc n)
  show ?case
    unfolding random_population.simps case_prod_beta
    apply (rule yields_bnd [OF randomIndividual_ok [OF pg]])
    subgoal premises h for r
      apply (rule yields_bnd [OF repair_ok [OF pg, where p = "ga_random pb mt k"]])
       apply (simp add: full_ok_def h)
      unfolding conjunct2 [OF conjunct2 [OF h]]
      by (rule yields_bnd [OF Suc.IH], rule yields_ret) (simp add: case_prod_beta Let_def full_ok_def)
    done
qed

section \<open>Generations\<close>

definition gen_ok :: "ga_problem \<Rightarrow> nat list list \<times> nat list \<times> nat \<Rightarrow> individual list \<times> individual \<times> nat \<Rightarrow> bool" where
  "gen_ok pb b c \<longleftrightarrow> inds_ok enc pb (fst b) (fst c) \<and> fst b \<noteq> [] \<and> ind_ok enc pb (fst (snd b)) (fst (snd c)) \<and>
     snd (snd c) = snd (snd b)"

lemma generation_ok:
  assumes pg: "pega_ok enc bound pb pg" and b: "gen_ok pb b c" and el: "0 < p_elitism (g_config pg)"
  shows "yields cinv E (generation ops pg mt c) (gen_ok pb (ga_generation pb (g_config pg) (repair_rounds pg) mt b))"
proof -
  obtain ps q k where b': "b = (ps, q, k)" by (cases b)
  obtain vs v k' where c': "c = (vs, v, k')" by (cases c)
  have rel: "inds_ok enc pb ps vs" "ps \<noteq> []" "ind_ok enc pb q v" "k' = k" using b by (simp_all add: gen_ok_def b' c')
  then have ne: "vs \<noteq> []" by auto
  let ?e = "ga_elite pb (p_elitism (g_config pg)) ps"
  let ?n = "p_population (g_config pg) - length ?e"
  obtain cs k1 where ch: "ga_children pb (g_config pg) (repair_rounds pg) mt ?n ps k = (cs, k1)" by fastforce
  have "0 < length ?e" unfolding ga_elite_length using el rel(2) by simp
  then have e: "?e \<noteq> []" by simp
  have gen: "ga_generation pb (g_config pg) (repair_rounds pg) mt b = (?e @ cs, fold (ga_choose pb) (?e @ cs) q, k1)"
    by (simp add: ga_generation_def b' Let_def ch)
  show ?thesis
    unfolding generation_def c' case_prod_beta fst_conv snd_conv rel(4) gen
    apply (rule yields_bnd [OF eliteSet_ok [OF pg rel(1) ne el]])
    subgoal premises h for es
      unfolding list_all2_lengthD [OF h, symmetric]
      apply (rule yields_bnd [OF children_ok [OF pg rel(1) ne]])
      subgoal premises h2 for r
      proof -
        note h2 = h2 [unfolded ch fst_conv snd_conv]
        note all = retain_all_ok [OF pg list_all2_appendI [OF h conjunct1 [OF h2]] _ rel(3), of "[]" "[]"]
        show ?thesis
          by (rule yields_bnd [OF all], simp, rule yields_ret) (use e h2 in \<open>simp add: gen_ok_def\<close>)
      qed
      done
    done
qed

lemma pega_run_ok:
  assumes pg: "pega_ok enc bound pb pg" and el: "0 < p_elitism (g_config pg)"
  shows "yields cinv E (pega_run ops pg mt)
    (\<lambda>z. let best = fst (snd (ga_run pb (g_config pg) (repair_rounds pg) mt)) in
       list_all2 (gene_ok enc) (z_chromosome z) best \<and> enc (z_total_cost z) (ga_cost pb best) \<and> enc (z_c12 z) (ga_c12 pb best) \<and>
       enc (z_c3 z) (ga_c3 pb best) \<and> enc (z_linear z) (ga_slack pb best))"
proof -
  let ?cf = "g_config pg" and ?rr = "repair_rounds pg"
  let ?first = "ga_repair pb ?rr (ga_cheapest pb)"
  obtain os k where o: "ga_population pb ?rr mt (p_population ?cf - 1) 0 = (os, k)" by fastforce
  have start: "ga_start pb ?cf ?rr mt = (?first # os, fold (ga_choose pb) os ?first, k)"
    using o by (simp add: ga_start_def Let_def)
  have gens: "yields cinv E (foldM (\<lambda>_. generation ops pg mt) [0..<p_generations ?cf] c) (gen_ok pb (ga_run pb ?cf ?rr mt))"
    if "gen_ok pb (ga_start pb ?cf ?rr mt) c" for c
  proof -
    have "yields cinv E (foldM (\<lambda>_. generation ops pg mt) [0..<p_generations ?cf] c)
        (gen_ok pb ((ga_generation pb ?cf ?rr mt ^^ length [0..<p_generations ?cf]) (ga_start pb ?cf ?rr mt)))"
      by (rule yields_foldM_indexed [where J = "\<lambda>i. gen_ok pb ((ga_generation pb ?cf ?rr mt ^^ i) (ga_start pb ?cf ?rr mt))"])
         (use that generation_ok [OF pg _ el] in auto)
    then show ?thesis by (simp add: ga_run_def)
  qed
  have get: "yields cinv E get_st (\<lambda>_. True)" by (simp add: yields_def eff_simps)
  show ?thesis
    unfolding pega_run_def Let_def case_prod_beta
    apply (rule yields_bnd [OF cheapest_ok [OF pg]])
    apply (rule yields_bnd [OF repair_ok [OF pg]])
     apply (simp add: full_ok_def)
    subgoal premises h1 for x first
      apply (rule yields_bnd [OF random_population_ok [OF pg]])
      subgoal premises h2 for r
      proof -
        note h2 = h2 [unfolded o fst_conv snd_conv]
        have f: "inds_ok enc pb [?first] [first]" "ind_ok enc pb ?first first" using h1 by (simp_all add: full_ok_def)
        show ?thesis
          apply (rule yields_bnd [OF retain_all_ok [OF pg conjunct1 [OF h2] f]])
          apply (rule yields_bnd [OF get])
          apply (rule yields_bnd [OF gens])
           apply (simp add: gen_ok_def start h2)
          apply (rule yields_bnd [OF get])
          apply (rule yields_ret)
          by (auto simp: gen_ok_def ind_ok_def sums_ok_def)
      qed
      done
    done
qed

end

section \<open>What a validated request guarantees\<close>

definition pega_problem :: "numeric_domain \<Rightarrow> pega_config \<Rightarrow> bb_request \<Rightarrow> row list \<Rightarrow> ga_problem" where
  "pega_problem d config request rows = \<lparr>ga_rows = rows, ga_scale = d_scale d, ga_threshold = q_threshold request,
     ga_penalty = p_infeasible_penalty config\<rparr>"

definition domain_covers :: "numeric_domain \<Rightarrow> bool" where
  "domain_covers d \<longleftrightarrow> int (max_rows d) * 2 ^ max_cost_bits d \<le> 2 ^ max_total_bits d \<and>
     int (max_rows d) * (d_scale d * 2 ^ max_cost_bits d) \<le> 2 ^ max_linear_bits d"

lemma addBits_Some: "addBits a b = Some s \<longleftrightarrow> s = a + b \<and> a + b \<le> 127"
  by (auto simp: addBits_def)

lemma pega_validate_Inr:
  assumes "pega_validate d config request = Inr ()"
  shows "q_costs request \<noteq> []" "0 < d_scale d" "0 < max_rows d" "0 < max_cost_bits d" "0 < max_total_bits d"
    "length (q_costs request) \<le> max_rows d" "0 \<le> q_threshold request" "q_threshold request < d_scale d"
    "2 \<le> p_population config" "0 < p_generations config" "0 < p_elitism config" "p_elitism config < p_population config"
    "0 < p_tournament_size config" "0 < p_infeasible_penalty config"
    "max_cost_bits d + max_linear_bits d \<le> 126"
    "max_total_bits d + 1 + bit_size_nat (nat (p_infeasible_penalty config)) + max_linear_bits d \<le> 126"
    "max_total_bits d + 1 + bit_size_nat (nat (p_infeasible_penalty config)) +
       (max_total_bits d + 1 + bit_size_nat (nat (d_scale d))) \<le> 126"
proof -
  let ?s = "bit_size_nat (nat (d_scale d))" and ?m = "bit_size_nat (nat (p_infeasible_penalty config))"
  have v: "q_costs request \<noteq> []" "0 < d_scale d" "0 < max_rows d" "0 < max_cost_bits d" "0 < max_total_bits d"
    "length (q_costs request) \<le> max_rows d" "0 \<le> q_threshold request" "q_threshold request < d_scale d"
    "2 \<le> p_population config" "0 < p_generations config" "0 < p_elitism config" "p_elitism config < p_population config"
    "0 < p_tournament_size config" "0 < p_infeasible_penalty config"
    and i: "pega_intermediates d ?s" and f: "pega_fitness_bits d ?s ?m"
    using assms by (auto simp: pega_validate_def bb_invalid_def sbind_eq_Inr Let_def split: if_splits)
  show "q_costs request \<noteq> []" "0 < d_scale d" "0 < max_rows d" "0 < max_cost_bits d" "0 < max_total_bits d"
    "length (q_costs request) \<le> max_rows d" "0 \<le> q_threshold request" "q_threshold request < d_scale d"
    "2 \<le> p_population config" "0 < p_generations config" "0 < p_elitism config" "p_elitism config < p_population config"
    "0 < p_tournament_size config" "0 < p_infeasible_penalty config" by (rule v)+
  show "max_cost_bits d + max_linear_bits d \<le> 126"
    using i by (auto simp: pega_intermediates_def addBits_Some split: option.splits)
  have co: "compare_operand_bits d \<le> 126" using i by (auto simp: pega_intermediates_def split: option.splits)
  show "max_total_bits d + 1 + ?m + max_linear_bits d \<le> 126" "max_total_bits d + 1 + ?m + (max_total_bits d + 1 + ?s) \<le> 126"
    using f co by (auto simp: pega_fitness_bits_def addBits_Some split: option.splits)
qed

lemma row_maximum_below:
  assumes "row_ok r" "\<forall>c. Some c \<in> set r \<longrightarrow> c < B"
  shows "row_maximum r \<le> B - 1"
proof -
  have le: "the (r ! m) \<le> B - 1" if "m \<in> set (available r)" for m
  proof -
    from assms(1) that obtain c where c: "r ! m = Some c" by (rule available_cost)
    have "m < 3" using that by (simp add: available_set)
    with c assms(1) have "Some c \<in> set r" by (metis row_ok_def nth_mem)
    with c assms(2) show ?thesis by auto
  qed
  have "fold (\<lambda>m x. max (the (r ! m)) x) ms x \<le> B - 1" if "x \<le> B - 1" "\<forall>m\<in>set ms. the (r ! m) \<le> B - 1" for ms x
    using that by (induction ms arbitrary: x) auto
  then show ?thesis
    unfolding row_maximum_def using le available_ne [OF assms(1)] by (meson list.set_sel)
qed

lemma pega_validate_fits:
  assumes v: "pega_validate d config request = Inr ()" and covers: "domain_covers d"
    and rows: "length rows = length (q_costs request)" "\<forall>r\<in>set rows. row_ok r" "costs_below (2 ^ max_cost_bits d) rows"
    and b: "2 ^ 127 \<le> bound"
  shows "ga_fits (pega_problem d config request rows) bound"
proof -
  note c = pega_validate_Inr [OF v]
  let ?pb = "pega_problem d config request rows"
  let ?S = "d_scale d" and ?K = "p_infeasible_penalty config" and ?B = "(2 :: int) ^ max_cost_bits d"
  let ?t = "max_total_bits d" and ?l = "max_linear_bits d" and ?s = "bit_size_nat (nat (d_scale d))"
    and ?m = "bit_size_nat (nat (p_infeasible_penalty config))"
  have n: "1 \<le> int (length rows)" "int (length rows) \<le> int (max_rows d)" using c(1,6) rows(1) by (cases rows; simp)+
  have B: "2 \<le> ?B" using power_increasing [of 1 "max_cost_bits d" "2 :: int"] c(4) by simp
  have S: "?S \<le> 2 ^ ?s" and K: "?K \<le> 2 ^ ?m"
    using bit_size_nat_bounds(1) [of "nat ?S"] bit_size_nat_bounds(1) [of "nat ?K"] c(2,14)
    by (simp_all add: nat_less_iff)
  have m: "1 \<le> ?m" using bit_size_nat_bounds(1) [of "nat ?K"] c(14) by (cases ?m) simp_all
  have p2: "(2 :: int) ^ a \<le> 2 ^ e" if "a \<le> e" for a e using that by (intro power_increasing) simp_all
  have tot: "int (length rows) * ?B \<le> 2 ^ ?t"
    using covers mult_right_mono [OF n(2), of ?B] B unfolding domain_covers_def by linarith
  have lin: "int (length rows) * (?S * ?B) \<le> 2 ^ ?l"
  proof -
    have "0 \<le> ?S * ?B" using c(2) by simp
    with covers mult_right_mono [OF n(2), of "?S * ?B"] show ?thesis unfolding domain_covers_def by linarith
  qed
  have "sum_list (map row_maximum rs) \<le> int (length rs) * (?B - 1)" if "\<forall>r\<in>set rs. row_maximum r \<le> ?B - 1" for rs
    using that by (induction rs) (simp_all add: algebra_simps)
  moreover have "\<forall>r\<in>set rows. row_maximum r \<le> ?B - 1"
    using rows(2,3) unfolding costs_below_def by (blast intro: row_maximum_below)
  ultimately have M: "ga_maximum ?pb \<le> int (length rows) * ?B - int (length rows)"
    by (simp add: ga_maximum_def pega_problem_def algebra_simps)
  then have M1: "ga_maximum ?pb + 1 \<le> 2 ^ ?t" using tot n(1) by linarith
  have "0 \<le> row_maximum r" if "r \<in> set rows" for r
  proof -
    have ok: "row_ok r" using rows(2) that by blast
    have m: "hd (available r) \<in> set (available r)" by (rule list.set_sel(1) [OF available_ne [OF ok]])
    obtain c where "r ! hd (available r) = Some c" "0 \<le> c" using ok m by (rule available_cost)
    with row_maximum_ge [OF m] show ?thesis by simp
  qed
  then have "\<forall>x\<in>set (map row_maximum rows). 0 \<le> x" by simp
  then have "0 \<le> sum_list (map row_maximum rows)" by (induction rows) simp_all
  then have M0: "0 \<le> ga_maximum ?pb" by (simp add: ga_maximum_def pega_problem_def)
  have SM: "?S * ga_maximum ?pb \<le> 2 ^ ?l"
  proof -
    have "?S * ga_maximum ?pb \<le> ?S * (int (length rows) * ?B)" using M n(1) c(2) by (intro mult_left_mono) linarith+
    with lin show ?thesis by (simp add: mult_ac)
  qed
  have P: "ga_weight ?pb \<le> 2 ^ (?m + ?t)" "0 \<le> ga_weight ?pb"
    using mult_mono [OF K M1] M0 c(14) by (simp_all add: ga_weight_def pega_problem_def power_add)
  have S1: "?S * (ga_maximum ?pb + 1) \<le> 2 ^ (?s + ?t)" using mult_mono [OF S M1] M0 by (simp add: power_add)
  have a1: "?S * ga_maximum ?pb \<le> 2 ^ 124" by (rule order_trans [OF SM]) (use c(5,16) m in \<open>intro p2; simp\<close>)
  have "?S * ga_weight ?pb \<le> 2 ^ ?s * 2 ^ (?m + ?t)" using S P by (intro mult_mono) simp_all
  also have "\<dots> \<le> 2 ^ 124" unfolding power_add [symmetric] by (rule p2) (use c(5,17) in linarith)
  finally have a2: "?S * ga_weight ?pb \<le> 2 ^ 124" .
  have "ga_weight ?pb * (?S * ga_maximum ?pb) \<le> 2 ^ (?m + ?t) * 2 ^ ?l" using P SM c(2) M0 by (intro mult_mono) simp_all
  also have "\<dots> \<le> 2 ^ 125" unfolding power_add [symmetric] by (rule p2) (use c(16) in linarith)
  finally have a3: "ga_weight ?pb * (?S * ga_maximum ?pb) \<le> 2 ^ 125" .
  have "ga_weight ?pb * (?S * (ga_maximum ?pb + 1)) \<le> 2 ^ (?m + ?t) * 2 ^ (?s + ?t)"
    using P S1 c(2) M0 by (intro mult_mono) simp_all
  also have "\<dots> \<le> 2 ^ 124" unfolding power_add [symmetric] by (rule p2) (use c(17) in linarith)
  finally have a4: "ga_weight ?pb * (?S * (ga_maximum ?pb + 1)) \<le> 2 ^ 124" .
  have sum: "?S * ga_maximum ?pb + ?S * ga_weight ?pb + (ga_weight ?pb * (?S * ga_maximum ?pb) +
      ga_weight ?pb * (?S * (ga_maximum ?pb + 1))) < bound" using a1 a2 a3 a4 b by simp
  have "2 * int (length rows) \<le> int (length rows) * ?B" using B n(1) by (simp add: mult.commute mult_left_mono)
  also have "\<dots> \<le> 2 ^ 124" by (rule order_trans [OF tot]) (use c(17) in \<open>intro p2; linarith\<close>)
  finally have ids: "3 * int (length rows) < bound" using b by simp
  have SB: "?S * ?B \<le> 2 ^ ?l" 
  proof -
    have "0 \<le> ?S * ?B" using c(2) by simp
    with lin mult_right_mono [OF n(1), of "?S * ?B"] show ?thesis by linarith
  qed
  have "?S * ?B * ?B \<le> 2 ^ ?l * ?B" using SB B by (intro mult_right_mono) simp_all
  also have "\<dots> \<le> 2 ^ 126" unfolding power_add [symmetric] by (rule p2) (use c(15) in linarith)
  finally have prod: "?S * ?B * ?B < bound" using b by simp
  have "(2 :: int) ^ ?l \<le> 2 ^ 125" by (rule p2) (use c(5,16) in linarith)
  then have twice: "2 * (?S * ?B) < bound" using SB b by simp
  have small: "\<forall>r\<in>set rows. \<forall>c. Some c \<in> set r \<longrightarrow> c \<le> ?B"
    using rows(3) unfolding costs_below_def by (meson less_imp_le)
  have fields: "ga_rows ?pb = rows" "ga_scale ?pb = ?S" "ga_threshold ?pb = q_threshold request" "ga_penalty ?pb = ?K"
    by (simp_all add: pega_problem_def)
  have "\<exists>C>0. (\<forall>r\<in>set rows. \<forall>c. Some c \<in> set r \<longrightarrow> c \<le> C) \<and> ?S * C * C < bound \<and> 2 * (?S * C) < bound"
    using small prod twice by (intro exI [of _ ?B]) simp
  moreover have "rows \<noteq> []" using n(1) by auto
  ultimately show ?thesis
    unfolding ga_fits_def ga_rows_ok_def fields using sum ids rows(2) c(7,8,14) by blast
qed

section \<open>The entry point\<close>

text \<open>What the call answers: encryptions of the one-hot chromosome of the plain search's best assignment, and
  of its sums.\<close>

definition pega_answer :: "(cipher \<Rightarrow> int \<Rightarrow> bool) \<Rightarrow> ga_problem \<Rightarrow> nat list \<Rightarrow> pega_result \<Rightarrow> bool" where
  "pega_answer enc pb best z \<longleftrightarrow> list_all2 (gene_ok enc) (z_chromosome z) best \<and> enc (z_total_cost z) (ga_cost pb best) \<and>
     enc (z_c12 z) (ga_c12 pb best) \<and> enc (z_c3 z) (ga_c3 pb best) \<and> enc (z_linear z) (ga_slack pb best)"

definition pega_best :: "numeric_domain \<Rightarrow> pega_config \<Rightarrow> bb_request \<Rightarrow> row list \<Rightarrow> nat list" where
  "pega_best d config request rows =
     (let rounds = (if p_repair_rounds config = 0 then length rows * 3 else p_repair_rounds config) in
      fst (snd (ga_run (pega_problem d config request rows) config rounds (mt19937_64 (p_seed config)))))"

context batched_ops
begin

lemma confidential_scalable_optimize_ok:
  assumes v: "pega_validate (s_domain ops) config request = Inr ()" and covers: "domain_covers (s_domain ops)"
    and costs: "list_all2 (enc_row enc) (q_costs request) rows" "\<forall>r\<in>set rows. row_ok r"
      "costs_below (2 ^ max_cost_bits (s_domain ops)) rows"
    and b: "2 ^ 127 \<le> bound"
  shows "yields inv E (confidential_scalable_optimize ops config request)
    (pega_answer enc (pega_problem (s_domain ops) config request rows) (pega_best (s_domain ops) config request rows))"
proof -
  let ?pb = "pega_problem (s_domain ops) config request rows"
  have len: "length rows = length (q_costs request)" using list_all2_lengthD [OF costs(1)] by simp
  have fits: "ga_fits ?pb bound" by (rule pega_validate_fits [OF v covers len costs(2,3) b])
  have valid: "ga_valid ?pb (ga_cheapest ?pb)" using fits by (intro ga_cheapest_valid) (simp add: ga_fits_def)
  have costs': "costs_ok enc ?pb (q_costs request)" using costs(1) by (simp add: costs_ok_def pega_problem_def)
  have "yields cinv E (bnd (pega_make ops config request) (\<lambda>pg. pega_run ops pg (mt19937_64 (p_seed config))))
      (pega_answer enc ?pb (pega_best (s_domain ops) config request rows))"
  proof (rule yields_bnd [OF pega_make_ok [OF fits costs' valid]])
    fix pg assume pg: "pega_ok enc bound ?pb pg \<and> g_config pg = config \<and> g_request pg = request"
    then have rounds: "repair_rounds pg = (if p_repair_rounds config = 0 then length rows * 3 else p_repair_rounds config)"
      by (simp add: repair_rounds_def len)
    have el: "0 < p_elitism (g_config pg)" using pega_validate_Inr(11) [OF v] pg by simp
    show "yields cinv E (pega_run ops pg (mt19937_64 (p_seed config)))
        (pega_answer enc ?pb (pega_best (s_domain ops) config request rows))"
      by (rule yields_weaken [OF pega_run_ok [OF conjunct1 [OF pg] el]])
         (use pg in \<open>simp add: pega_answer_def pega_best_def Let_def rounds\<close>)
  qed (simp_all add: pega_problem_def)
  note run = this
  show ?thesis
    unfolding confidential_scalable_optimize_def v
  proof (rule yieldsI)
    fix s assume "inv s"
    then have "cinv (s, no_counts)" by simp
    with run obtain r s' where "bnd (pega_make ops config request) (\<lambda>pg. pega_run ops pg (mt19937_64 (p_seed config))) (s, no_counts) =
      Some (r, s')" "inv (fst s')" "case r of Inl e \<Rightarrow> E e | Inr z \<Rightarrow> pega_answer enc ?pb (pega_best (s_domain ops) config request rows) z"
      by (rule yieldsD)
    then show "\<exists>r s'. bnd (of_sum (Inr ())) (\<lambda>_ s. map_option (apsnd fst)
        (bnd (pega_make ops config request) (\<lambda>pg. pega_run ops pg (mt19937_64 (p_seed config))) (s, no_counts))) s = Some (r, s') \<and>
      inv s' \<and> (case r of Inl e \<Rightarrow> E e | Inr a \<Rightarrow> pega_answer enc ?pb (pega_best (s_domain ops) config request rows) a)"
      by (simp add: bnd_of_sum_Inr)
  qed
qed

end

end
