(* ===== verification/PegaService.thy ===== *)
theory PegaService
  imports PegaRun ThresholdOptimizer
begin

text \<open>
  The confidential genetic optimizer over the backends: both satisfy the contract with batches of 32,
  and over the threshold protocol every validated request is answered with encryptions of what the plain
  search of theory GeneticPlan finds. The plain search returns the best of all individuals it ever holds, in a ranking
  that agrees with the exact solver's order.
\<close>

section \<open>The backends\<close>

interpretation off_counted: batched_ops "runtime_ops k mode nd" "off_ready k" "off_enc k mode" size_changed
  off_bound 32 for k mode nd
  by (rule batched_ops.intro [OF off_secure_ops]) (simp add: batched_ops_axioms_def)

interpretation ts_counted: batched_ops "threshold_ops cl setting nd" "ts_ready cl S R0 K" "ts_enc cl" no_exn
  "2 ^ 127" 32 for cl setting nd S R0 K
  by (rule batched_ops.intro [OF ts_ready_ops]) (simp add: batched_ops_axioms_def)

lemma threshold_covers: "threshold_domain d = Inr () \<Longrightarrow> domain_covers d"
proof -
  assume d: "threshold_domain d = Inr ()"
  note c = threshold_domain_covers [OF d]
  have "0 \<le> int (max_rows d) * (d_scale d * 2 ^ max_cost_bits d)" using c(1) by simp
  with c(3,4) show ?thesis by (simp add: domain_covers_def)
qed

lemma threshold_scalable_run:
  assumes "linked cl mu" "transfer_ready cl" "world_ready cl w"
    and "threshold_domain nd = Inr ()" "pega_validate nd config request = Inr ()"
    and "list_all2 (enc_row (ts_enc cl)) (q_costs request) rows" "\<forall>r\<in>set rows. row_ok r"
    and "costs_below (2 ^ max_cost_bits nd) rows"
  obtains z w' where "confidential_scalable_optimize (threshold_ops cl setting nd) config request w = Some (Inr z, w')"
    "ts_ready cl {} (replays w) {} w'"
    "pega_answer (ts_enc cl) (pega_problem nd config request rows) (pega_best nd config request rows) z"
proof -
  have d: "s_domain (threshold_ops cl setting nd) = nd" by (simp add: threshold_ops_def)
  have ready: "ts_ready cl {} (replays w) {} w" using assms(1-3) by (auto simp: ts_ready_def ts_inv_def)
  note run = ts_counted.confidential_scalable_optimize_ok [of cl setting nd config request rows "{}" "replays w" "{}", unfolded d,
      OF assms(5) threshold_covers [OF assms(4)] assms(6-8) order_refl]
  from yields_no_exnD [OF run ready] show thesis by (metis that)
qed

text \<open>C3: Over the threshold protocol the confidential genetic optimizer carries out the plain genetic search. For
  a request that it validates, on a linked client and server whose numeric domain the runtime accepts, with
  encrypted non-negative costs within the domain, a call ends without an exception, and the chromosome, the cost, its two
  parts and the slack it returns are encryptions of the one-hot coding and the sums of the assignment that the plain
  search finds from the same seed. No server-side operation is consumed, because nothing is revealed.\<close>

theorem confidential_scalable_refines:
  assumes "linked cl mu" "transfer_ready cl" "world_ready cl w"
    and "threshold_domain nd = Inr ()" "pega_validate nd config request = Inr ()"
    and "list_all2 (enc_row (ts_enc cl)) (q_costs request) rows" "\<forall>r\<in>set rows. row_ok r"
    and "costs_below (2 ^ max_cost_bits nd) rows"
  shows "\<exists>z w'. confidential_scalable_optimize (threshold_ops cl setting nd) config request w = Some (Inr z, w') \<and>
    world_ready cl w' \<and> replays w' \<subseteq> replays w \<and>
    pega_answer (ts_enc cl) (pega_problem nd config request rows) (pega_best nd config request rows) z"
proof -
  from assms obtain z w' where "confidential_scalable_optimize (threshold_ops cl setting nd) config request w = Some (Inr z, w')"
    "ts_ready cl {} (replays w) {} w'" "pega_answer (ts_enc cl) (pega_problem nd config request rows) (pega_best nd config request rows) z"
    by (rule threshold_scalable_run)
  then show ?thesis by (auto simp: ts_ready_def ts_inv_def session_keys_def)
qed

section \<open>The best of all\<close>

text \<open>The generations that the search goes through.\<close>

definition ga_stage ::
  "ga_problem \<Rightarrow> pega_config \<Rightarrow> nat \<Rightarrow> (nat \<Rightarrow> 64 word) \<Rightarrow> nat \<Rightarrow> nat list list \<times> nat list \<times> nat" where
  "ga_stage pb config rounds mt i = (ga_generation pb config rounds mt ^^ i) (ga_start pb config rounds mt)"

lemma ga_start_parts:
  "fst (snd (ga_start pb config rounds mt)) =
     fold (ga_choose pb) (tl (fst (ga_start pb config rounds mt))) (hd (fst (ga_start pb config rounds mt))) \<and>
   fst (ga_start pb config rounds mt) \<noteq> []"
  by (simp add: ga_start_def Let_def split: prod.splits)

lemma ga_generation_parts:
  "fst (snd (ga_generation pb config rounds mt acc)) = fold (ga_choose pb) (fst (ga_generation pb config rounds mt acc)) (fst (snd acc))"
  by (simp add: ga_generation_def Let_def case_prod_beta split: prod.splits)

lemma ga_stage_best:
  "i \<le> j \<Longrightarrow> p \<in> set (fst (ga_stage pb config rounds mt i)) \<Longrightarrow>
     ga_key pb (fst (snd (ga_stage pb config rounds mt j))) \<le> ga_key pb p"
proof (induction j arbitrary: p)
  case 0
  let ?s = "ga_start pb config rounds mt"
  from 0 have "p = hd (fst ?s) \<or> p \<in> set (tl (fst ?s))" using ga_start_parts [of pb config rounds mt]
    by (cases "fst ?s") (auto simp: ga_stage_def)
  then show ?case
    using ga_best_le [of pb "tl (fst ?s)" "hd (fst ?s)"] ga_start_parts [of pb config rounds mt]
    by (auto simp: ga_stage_def)
next
  case (Suc j)
  let ?t = "ga_stage pb config rounds mt"
  have s: "?t (Suc j) = ga_generation pb config rounds mt (?t j)" by (simp add: ga_stage_def)
  note best = ga_best_le [of pb "fst (?t (Suc j))" "fst (snd (?t j))"]
  have eq: "fst (snd (?t (Suc j))) = fold (ga_choose pb) (fst (?t (Suc j))) (fst (snd (?t j)))"
    unfolding s by (rule ga_generation_parts)
  show ?case
  proof (cases "i = Suc j")
    case True
    with Suc.prems(2) best show ?thesis unfolding eq by blast
  next
    case False
    with Suc have "ga_key pb (fst (snd (?t j))) \<le> ga_key pb p" by simp
    with best show ?thesis unfolding eq using order_trans by blast
  qed
qed

lemma ga_stage_valid:
  assumes "ga_rows_ok pb" "0 < p_elitism config"
  shows "ga_valid_all pb (fst (ga_stage pb config rounds mt i)) \<and> ga_valid pb (fst (snd (ga_stage pb config rounds mt i)))"
proof (induction i)
  case 0
  have v: "ga_valid_all pb (fst (ga_start pb config rounds mt))"
    using ga_population_valid [OF assms(1), of rounds mt "p_population config - 1" 0]
      ga_repair_valid [OF ga_cheapest_valid [OF assms(1)], of rounds]
    by (auto simp: ga_valid_all_def ga_start_def Let_def split: prod.splits)
  moreover have "fst (snd (ga_start pb config rounds mt)) \<in> set (fst (ga_start pb config rounds mt))"
    using ga_start_parts [of pb config rounds mt] ga_best_mem by (metis list.collapse list.simps(15))
  ultimately show ?case by (simp add: ga_stage_def ga_valid_all_def)
next
  case (Suc i)
  let ?t = "ga_stage pb config rounds mt"
  obtain ps b k where t: "?t i = (ps, b, k)" by (cases "?t i")
  have s: "?t (Suc i) = ga_generation pb config rounds mt (ps, b, k)" using t by (simp add: ga_stage_def)
  have v: "ga_valid_all pb ps" "ga_valid pb b" using Suc t by simp_all
  let ?e = "ga_elite pb (p_elitism config) ps"
  have "0 < length ?e" unfolding ga_elite_length using v(1) assms(2) by (simp add: ga_valid_all_def)
  then have e: "?e \<noteq> []" by simp
  have ev: "\<forall>p\<in>set ?e. ga_valid pb p" using ga_elite_subset [of pb "p_elitism config" ps] v(1) by (auto simp: ga_valid_all_def)
  have pop: "ga_valid_all pb (fst (?t (Suc i)))"
    using e ev ga_children_valid [OF assms(1) v(1), of config rounds mt "p_population config - length ?e" k]
    unfolding s by (auto simp: ga_generation_def Let_def ga_valid_all_def split: prod.splits)
  moreover have "fst (snd (?t (Suc i))) \<in> insert b (set (fst (?t (Suc i))))"
    unfolding s ga_generation_parts snd_conv fst_conv by (rule ga_best_mem)
  ultimately show ?case using v(2) by (auto simp: ga_valid_all_def)
qed

text \<open>Among feasible assignments the keys are in the order of the exact solver.\<close>

lemma ga_key_ckey:
  assumes "0 < ga_scale pb" "ga_feasible pb p" "ga_feasible pb q"
  shows "ga_key pb p \<le> ga_key pb q \<longleftrightarrow> ckey (ga_rows pb) p \<le> ckey (ga_rows pb) q"
proof -
  have s: "ga_slack pb x = ga_scale pb * sum_by w_c12 (ga_rows pb) x - ga_threshold pb * ga_cost pb x" for x
    by (simp add: ga_slack_def ga_cost_def sum_by_linear)
  show ?thesis
    using assms by (auto simp: ga_key_def ckey_def s ga_cost_def)
qed

lemma pega_best_stage:
  "pega_best d config request rows = fst (snd (ga_stage (pega_problem d config request rows) config
     (if p_repair_rounds config = 0 then length rows * 3 else p_repair_rounds config) (mt19937_64 (p_seed config))
     (p_generations config)))"
  by (simp add: pega_best_def ga_run_def ga_stage_def Let_def)

text \<open>C13: What the confidential genetic optimizer returns is never worse than anything it has seen. In the
  situation of the previous property the returned ciphertexts encrypt an assignment of available methods
  that ranks no lower than any individual of any generation, so it is feasible if any of them is; and if the optimum of
  the exact solver is among the individuals, it is what is returned.\<close>

theorem confidential_scalable_best:
  assumes "linked cl mu" "transfer_ready cl" "world_ready cl w"
    and "threshold_domain nd = Inr ()" "pega_validate nd config request = Inr ()"
    and "list_all2 (enc_row (ts_enc cl)) (q_costs request) rows" "\<forall>r\<in>set rows. row_ok r"
    and "costs_below (2 ^ max_cost_bits nd) rows"
    and "rounds = (if p_repair_rounds config = 0 then length rows * 3 else p_repair_rounds config)"
    and "pb = pega_problem nd config request rows"
  shows "\<exists>z w' best. confidential_scalable_optimize (threshold_ops cl setting nd) config request w = Some (Inr z, w') \<and>
    pega_answer (ts_enc cl) pb best z \<and> best \<in> set (assignments rows) \<and>
    (\<forall>i\<le>p_generations config. \<forall>p\<in>set (fst (ga_stage pb config rounds (mt19937_64 (p_seed config)) i)).
       p \<in> set (assignments rows) \<and> ga_key pb best \<le> ga_key pb p \<and>
       (feasible (d_scale nd) (q_threshold request) rows p \<longrightarrow> feasible (d_scale nd) (q_threshold request) rows best) \<and>
       (optimal (d_scale nd) (q_threshold request) rows p \<longrightarrow> best = p))"
proof -
  let ?S = "d_scale nd" and ?T = "q_threshold request"
  have pb: "ga_rows pb = rows" "ga_scale pb = ?S" "ga_threshold pb = ?T" by (simp_all add: assms(10) pega_problem_def)
  have ok: "ga_rows_ok pb" using assms(7) by (simp add: ga_rows_ok_def pb)
  have el: "0 < p_elitism config" "0 < ga_scale pb" using pega_validate_Inr(2,11) [OF assms(5)] pb by simp_all
  let ?best = "pega_best nd config request rows"
  let ?t = "ga_stage pb config rounds (mt19937_64 (p_seed config))"
  have best: "?best = fst (snd (?t (p_generations config)))" unfolding pega_best_stage assms(9,10) ..
  have valid: "ga_valid_all pb (fst (?t i))" "ga_valid pb (fst (snd (?t i)))" for i
    using ga_stage_valid [OF ok el(1), of rounds "mt19937_64 (p_seed config)" i] by simp_all
  have feas: "ga_feasible pb x = feasible ?S ?T rows x" for x by (simp add: ga_feasible_def pb)
  have all: "p \<in> set (assignments rows) \<and> ga_key pb ?best \<le> ga_key pb p \<and> (feasible ?S ?T rows p \<longrightarrow> feasible ?S ?T rows ?best) \<and>
      (optimal ?S ?T rows p \<longrightarrow> ?best = p)"
    if i: "i \<le> p_generations config" and p: "p \<in> set (fst (?t i))" for i p
  proof -
    have pv: "p \<in> set (assignments rows)" using valid(1) [of i] p by (simp add: ga_valid_all_def pb)
    have le: "ga_key pb ?best \<le> ga_key pb p" unfolding best by (rule ga_stage_best [OF i p])
    then have f: "feasible ?S ?T rows p \<longrightarrow> feasible ?S ?T rows ?best"
      by (auto simp: ga_key_def feas split: if_splits)
    have bv: "?best \<in> set (assignments rows)" using valid(2) [of "p_generations config"] by (simp add: best pb)
    have "?best = p" if o: "optimal ?S ?T rows p"
    proof -
      have fp: "feasible ?S ?T rows p" using o by (simp add: optimal_def)
      with f have fb: "feasible ?S ?T rows ?best" by blast
      have "ckey rows ?best \<le> ckey rows p" using ga_key_ckey [OF el(2), of ?best p] le fp fb by (simp add: feas pb)
      moreover have "ckey rows p \<le> ckey rows ?best" using o bv fb by (simp add: optimal_def)
      ultimately show ?thesis by (rule ckey_inj [OF antisym])
    qed
    with pv le f show ?thesis by blast
  qed
  have "?best \<in> set (assignments rows)" using valid(2) [of "p_generations config"] by (simp add: best pb)
  moreover obtain z w' where "confidential_scalable_optimize (threshold_ops cl setting nd) config request w = Some (Inr z, w')"
    "pega_answer (ts_enc cl) pb ?best z"
    unfolding assms(10) using threshold_scalable_run [OF assms(1-8)] by metis
  ultimately show ?thesis using all by blast
qed

section \<open>Instances\<close>

definition sample_pega_domain :: numeric_domain where
  "sample_pega_domain = sample_domain\<lparr>compare_operand_bits := 126\<rparr>"

definition sample_pega_config :: pega_config where
  "sample_pega_config = \<lparr>p_population = 3, p_generations = 2, p_elitism = 1, p_tournament_size = 2, p_repair_rounds = 0,
     p_crossover_rate = 9 / 10, p_mutation_rate = 1 / 2, p_infeasible_penalty = 1, p_seed = 7\<rparr>"

lemma sample_pega_domain: "threshold_domain sample_pega_domain = Inr ()"
  by (simp add: sample_pega_domain_def threshold_domain_def sample_domain_def checkedBitSum_def ceilLog2_def bit_count.simps)

lemma sample_bits: "bit_size_nat 1000000 = 20" "bit_size_nat (Suc 0) = 1"
  by (simp_all add: bit_size_nat.simps)

lemma sample_pega_validate: "pega_validate sample_pega_domain sample_pega_config sample_ts_request = Inr ()"
  by (simp add: pega_validate_def bb_check_row_def sample_pega_domain_def sample_domain_def sample_pega_config_def sample_ts_request_def
      sample_rows_def sample_ts_nonempty validIdentifier_def isalnum_c_def isdigit_c_def sample_bits pega_intermediates_def
      pega_fitness_bits_def addBits_def)

lemma sample_pega_costs:
  "list_all2 (enc_row (ts_enc sample_client)) (q_costs sample_ts_request) sample_rows" "\<forall>r\<in>set sample_rows. row_ok r"
  "costs_below (2 ^ max_cost_bits sample_pega_domain) sample_rows"
  by (auto simp: sample_ts_request_def sample_rows_def enc_row_def sample_ts_object row_ok_def costs_below_def
      sample_pega_domain_def sample_domain_def)

theorem confidential_scalable_refines_witness:
  "\<exists>z w'. confidential_scalable_optimize (threshold_ops sample_client None sample_pega_domain) sample_pega_config
      sample_ts_request sample_world = Some (Inr z, w') \<and>
    world_ready sample_client w' \<and> replays w' \<subseteq> replays sample_world \<and>
    pega_answer (ts_enc sample_client) (pega_problem sample_pega_domain sample_pega_config sample_ts_request sample_rows)
      (pega_best sample_pega_domain sample_pega_config sample_ts_request sample_rows) z"
  by (rule confidential_scalable_refines [OF sample_linked sample_transfer sample_world(2) sample_pega_domain
        sample_pega_validate sample_pega_costs])

theorem confidential_scalable_best_witness:
  "\<exists>z w' best. confidential_scalable_optimize (threshold_ops sample_client None sample_pega_domain) sample_pega_config
      sample_ts_request sample_world = Some (Inr z, w') \<and>
    pega_answer (ts_enc sample_client) (pega_problem sample_pega_domain sample_pega_config sample_ts_request sample_rows) best z \<and>
    best \<in> set (assignments sample_rows) \<and>
    (\<forall>i\<le>p_generations sample_pega_config.
       \<forall>p\<in>set (fst (ga_stage (pega_problem sample_pega_domain sample_pega_config sample_ts_request sample_rows)
          sample_pega_config 6 (mt19937_64 (p_seed sample_pega_config)) i)).
       p \<in> set (assignments sample_rows) \<and>
       ga_key (pega_problem sample_pega_domain sample_pega_config sample_ts_request sample_rows) best \<le>
         ga_key (pega_problem sample_pega_domain sample_pega_config sample_ts_request sample_rows) p \<and>
       (feasible (d_scale sample_pega_domain) (q_threshold sample_ts_request) sample_rows p \<longrightarrow>
          feasible (d_scale sample_pega_domain) (q_threshold sample_ts_request) sample_rows best) \<and>
       (optimal (d_scale sample_pega_domain) (q_threshold sample_ts_request) sample_rows p \<longrightarrow> best = p))"
  by (rule confidential_scalable_best [OF sample_linked sample_transfer sample_world(2) sample_pega_domain
        sample_pega_validate sample_pega_costs])
     (simp_all add: sample_pega_config_def sample_rows_def)

end
