(* ===== verification/ScalableOptimizer.thy ===== *)
theory ScalableOptimizer
  imports ExactSolver GeneticPlan
begin

text \<open>
  The plain genetic optimizer of src/scalable_optimizer.cpp: \<open>encode\<close>, the evaluation of an individual,
  the order of individuals, the greedy repair and the run. Genes are the method numbers 0, 1 and 2 of the code. A
  \<open>long double\<close> and a \<open>double\<close> are rational numbers, rounded where the code rounds;
  \<open>std::sort\<close> is insertion sort with the code's comparison, a strict total order of the individuals that
  occur. The repair is a partial function: that it returns is a theorem. The result holds the integers that the
  code divides into doubles, and the clock is left out.
\<close>

section \<open>The model and its individuals\<close>

record sc_model =
  sc_costs :: "row list"
  sc_available :: "nat list list"
  sc_threshold :: int
  sc_max_total :: int

definition sc_encode :: "string option list list \<Rightarrow> string \<Rightarrow> exn + sc_model" where
  "sc_encode matrix threshold =
     (if matrix = [] then Inl (OptimizationError InvalidArgument ''cost matrix must not be empty'')
      else sbind (parse_fixed_point threshold True) (\<lambda>t.
           sbind (sfold encode_row matrix ([], 0)) (\<lambda>(costs, max_total).
           sbind (validate_aggregate max_total) (\<lambda>_.
           if \<not> list_ex (\<lambda>r. r ! 2 \<noteq> None) costs
           then Inl (OptimizationError NoFeasibleSolution ''ratio requires an available method3'')
           else Inr \<lparr>sc_costs = costs, sc_available = map available costs, sc_threshold = t,
                      sc_max_total = max_total\<rparr>))))"

record sc_individual =
  v_genes :: "nat list"
  v_total :: int
  v_c12 :: int
  v_c3 :: int
  v_linear :: int
  v_fitness :: rat
  v_feasible :: bool

definition sc_new :: "nat list \<Rightarrow> sc_individual" where
  "sc_new genes = \<lparr>v_genes = genes, v_total = 0, v_c12 = 0, v_c3 = 0, v_linear = 0, v_fitness = 0, v_feasible = False\<rparr>"

definition sc_cost :: "sc_model \<Rightarrow> nat \<Rightarrow> nat \<Rightarrow> int" where
  "sc_cost md i m = the (sc_costs md ! i ! m)"

definition sc_linear :: "sc_model \<Rightarrow> nat \<Rightarrow> int \<Rightarrow> int" where
  "sc_linear md m c = (if m < 2 then (kScale - sc_threshold md) * c else - (sc_threshold md * c))"

definition sc_add_gene :: "sc_model \<Rightarrow> nat \<Rightarrow> sc_individual \<Rightarrow> sc_individual" where
  "sc_add_gene md i x = (let m = v_genes x ! i; c = sc_cost md i m; x = x\<lparr>v_total := v_total x + c\<rparr> in
     if m < 2 then x\<lparr>v_c12 := v_c12 x + c, v_linear := v_linear x + sc_linear md m c\<rparr>
     else x\<lparr>v_c3 := v_c3 x + c, v_linear := v_linear x + sc_linear md m c\<rparr>)"

definition sc_evaluate :: "sc_model \<Rightarrow> rat \<Rightarrow> sc_individual \<Rightarrow> sc_individual" where
  "sc_evaluate md penalty x =
     (let x = fold (sc_add_gene md) [0..<length (v_genes x)] (x\<lparr>v_total := 0, v_c12 := 0, v_c3 := 0, v_linear := 0\<rparr>);
          feasible = (v_linear x \<ge> 0 \<and> v_c3 x > 0 \<and> v_total x > 0);
          violation = (if v_linear x < 0 then long_double (long_double (of_int (- v_linear x)) / long_double (of_int kScale)) else 0);
          missing_c3 = (if v_c3 x = 0 then long_double (of_int (sc_max_total md + 1)) else 0);
          surcharge = long_double (penalty * long_double (long_double (1 + violation) + missing_c3))
      in x\<lparr>v_feasible := feasible,
           v_fitness := long_double (long_double (of_int (v_total x)) + (if feasible then 0 else surcharge))\<rparr>)"

definition sc_order :: "sc_individual \<Rightarrow> sc_individual \<Rightarrow> bool" where
  "sc_order a b =
     (if v_feasible a \<noteq> v_feasible b then v_feasible a
      else if v_feasible a \<and> v_total a \<noteq> v_total b then v_total a < v_total b
      else if v_feasible a \<and> v_linear a * v_total b \<noteq> v_linear b * v_total a
      then v_linear a * v_total b < v_linear b * v_total a
      else if \<not> v_feasible a \<and> v_fitness a \<noteq> v_fitness b then v_fitness a < v_fitness b
      else v_genes a < v_genes b)"

section \<open>Repair\<close>

text \<open>The row whose change to method 3 costs least: the first of several.\<close>

definition sc_cheapest3 :: "sc_model \<Rightarrow> sc_individual \<Rightarrow> (nat \<times> int) option" where
  "sc_cheapest3 md x = fold (\<lambda>i found. case sc_costs md ! i ! 2 of None \<Rightarrow> found
     | Some c \<Rightarrow> (let delta = c - sc_cost md i (v_genes x ! i) in
         case found of None \<Rightarrow> Some (i, delta)
         | Some (_, best_delta) \<Rightarrow> if delta < best_delta then Some (i, delta) else found))
     [0..<length (v_genes x)] None"

record sc_move =
  mv_row :: nat
  mv_method :: nat
  mv_ratio :: rat
  mv_cost :: int
  mv_linear :: int

definition sc_try_move :: "sc_model \<Rightarrow> sc_individual \<Rightarrow> nat \<Rightarrow> nat \<Rightarrow> sc_move option \<Rightarrow> sc_move option" where
  "sc_try_move md x i m found =
     (let old = v_genes x ! i; old_cost = sc_cost md i old; cost = sc_cost md i m;
          delta_linear = sc_linear md m cost - sc_linear md old old_cost; delta_cost = cost - old_cost;
          ratio = long_double (long_double (of_int delta_cost) / long_double (of_int delta_linear));
          this = \<lparr>mv_row = i, mv_method = m, mv_ratio = ratio, mv_cost = delta_cost, mv_linear = delta_linear\<rparr>
      in if m = old then found
         else if old = 2 \<and> m \<noteq> 2 \<and> count_list (v_genes x) 2 = 1 then found
         else if delta_linear \<le> 0 then found
         else case found of None \<Rightarrow> Some this
           | Some b \<Rightarrow> if ratio < mv_ratio b \<or> (ratio = mv_ratio b \<and> (i, m) < (mv_row b, mv_method b))
               then Some this else found)"

definition sc_best_move :: "sc_model \<Rightarrow> sc_individual \<Rightarrow> sc_move option" where
  "sc_best_move md x = fold (\<lambda>i. fold (sc_try_move md x i) (sc_available md ! i)) [0..<length (v_genes x)] None"

definition sc_make_move :: "sc_model \<Rightarrow> rat \<Rightarrow> sc_individual \<Rightarrow> sc_move \<Rightarrow> sc_individual" where
  "sc_make_move md penalty x mv = sc_evaluate md penalty
     (x\<lparr>v_genes := (v_genes x)[mv_row mv := mv_method mv], v_total := v_total x + mv_cost mv,
        v_linear := v_linear x + mv_linear mv\<rparr>)"

partial_function (option) sc_repair_loop :: "sc_model \<Rightarrow> rat \<Rightarrow> sc_individual \<Rightarrow> (bool \<times> sc_individual) option" where
  "sc_repair_loop md penalty x =
     (if v_linear x < 0
      then (case sc_best_move md x of None \<Rightarrow> Some (False, x)
            | Some mv \<Rightarrow> sc_repair_loop md penalty (sc_make_move md penalty x mv))
      else Some (v_feasible x, x))"

definition sc_repair :: "sc_model \<Rightarrow> rat \<Rightarrow> sc_individual \<Rightarrow> (bool \<times> sc_individual) option" where
  "sc_repair md penalty x0 =
     (let x = sc_evaluate md penalty x0 in
      if v_c3 x = 0
      then (case sc_cheapest3 md x of None \<Rightarrow> Some (False, x)
            | Some (row, _) \<Rightarrow> sc_repair_loop md penalty (sc_evaluate md penalty (x\<lparr>v_genes := (v_genes x)[row := 2]\<rparr>)))
      else sc_repair_loop md penalty x)"

section \<open>The run\<close>

record sc_config =
  sg_population :: nat
  sg_generations :: nat
  sg_elitism :: nat
  sg_tournament_size :: nat
  sg_crossover_rate :: rat
  sg_mutation_rate :: rat
  sg_penalty_multiplier :: rat
  sg_seed :: "64 word"

definition scalable_optimizer :: "sc_config \<Rightarrow> exn + sc_config" where
  "scalable_optimizer c =
     (if sg_population c < 2 \<or> sg_generations c = 0 \<or> sg_elitism c = 0 \<or> sg_elitism c \<ge> sg_population c \<or>
         sg_tournament_size c = 0 \<or> sg_crossover_rate c < 0 \<or> sg_crossover_rate c > 1 \<or>
         sg_mutation_rate c < 0 \<or> sg_mutation_rate c > 1 \<or> sg_penalty_multiplier c \<le> 0
      then Inl (StdInvalidArgument ''invalid genetic solver configuration'')
      else Inr c)"

text \<open>The variables that the lambda expressions of the run share: the place in the random sequence and the counters.\<close>

record sc_state =
  n_draws :: nat
  n_candidates :: nat
  n_pre_repair_feasible :: nat
  n_repair_attempts :: nat
  n_repair_successes :: nat

type_synonym 'a sc_eff = "(sc_state, 'a) eff"

record sc_run =
  u_config :: sc_config
  u_model :: sc_model
  u_penalty :: rat
  u_random :: "nat \<Rightarrow> 64 word"

definition sc_draw :: "sc_run \<Rightarrow> (64 word) sc_eff" where
  "sc_draw u = bnd get_st (\<lambda>s. bnd (upd_st (n_draws_update Suc)) (\<lambda>_. ret (u_random u (n_draws s))))"

definition sc_index :: "sc_run \<Rightarrow> nat \<Rightarrow> nat sc_eff" where
  "sc_index u n = bnd (sc_draw u) (\<lambda>w. ret (unat w mod n))"

definition sc_unit :: "sc_run \<Rightarrow> rat sc_eff" where
  "sc_unit u = bnd (sc_draw u) (\<lambda>w. ret (generate_canonical w))"

definition returning :: "'a option \<Rightarrow> 'a sc_eff" where
  "returning r = (\<lambda>s. map_option (\<lambda>a. (Inr a, s)) r)"

definition sc_prepare :: "sc_run \<Rightarrow> sc_individual \<Rightarrow> sc_individual sc_eff" where
  "sc_prepare u x0 = (let x = sc_evaluate (u_model u) (u_penalty u) x0 in
     bnd (upd_st (n_candidates_update Suc)) (\<lambda>_.
     if v_feasible x then bnd (upd_st (n_pre_repair_feasible_update Suc)) (\<lambda>_. ret x)
     else bnd (upd_st (n_repair_attempts_update Suc)) (\<lambda>_.
          bnd (returning (sc_repair (u_model u) (u_penalty u) x)) (\<lambda>(ok, x).
          bnd (if ok then upd_st (n_repair_successes_update Suc) else ret ()) (\<lambda>_.
          ret (sc_evaluate (u_model u) (u_penalty u) x))))))"

definition sc_random_individual :: "sc_run \<Rightarrow> sc_individual sc_eff" where
  "sc_random_individual u =
     bnd (mapM (\<lambda>choices. bnd (sc_index u (length choices)) (\<lambda>k. ret (choices ! k))) (sc_available (u_model u)))
       (\<lambda>genes. sc_prepare u (sc_new genes))"

text \<open>\<open>std::min_element\<close>: the first of the smallest.\<close>

definition sc_min_method :: "sc_model \<Rightarrow> nat \<Rightarrow> nat" where
  "sc_min_method md i = (let choices = sc_available md ! i in
     fold (\<lambda>m smallest. if sc_cost md i m < sc_cost md i smallest then m else smallest) (tl choices) (hd choices))"

definition sc_cheapest :: "sc_run \<Rightarrow> sc_individual sc_eff" where
  "sc_cheapest u =
     sc_prepare u (sc_new (map (sc_min_method (u_model u)) [0..<length (sc_costs (u_model u))]))"

record sc_best =
  b_best :: "sc_individual option"
  b_generation :: nat
  b_convergence :: "int option list"

definition sc_retain :: "nat \<Rightarrow> sc_individual \<Rightarrow> sc_best \<Rightarrow> sc_best" where
  "sc_retain g x b =
     (if v_feasible x \<and> (case b_best b of None \<Rightarrow> True | Some y \<Rightarrow> sc_order x y)
      then b\<lparr>b_best := Some x, b_generation := g\<rparr> else b)"

definition sc_retain_best :: "nat \<Rightarrow> sc_individual list \<Rightarrow> sc_best \<Rightarrow> sc_best" where
  "sc_retain_best g population b = (let b = fold (sc_retain g) population b in
     case b_best b of None \<Rightarrow> b
     | Some x \<Rightarrow> b\<lparr>b_convergence := (b_convergence b)[g := Some (v_total x)]\<rparr>)"

primrec sc_insert :: "sc_individual \<Rightarrow> sc_individual list \<Rightarrow> sc_individual list" where
  "sc_insert x [] = [x]"
| "sc_insert x (y # ys) = (if sc_order y x then y # sc_insert x ys else x # y # ys)"

definition sc_sort :: "sc_individual list \<Rightarrow> sc_individual list" where
  "sc_sort population = foldr sc_insert population []"

definition sc_select :: "sc_run \<Rightarrow> sc_individual list \<Rightarrow> sc_individual sc_eff" where
  "sc_select u population =
     bnd (sc_index u (length population)) (\<lambda>first.
     bnd (foldM (\<lambda>_ winner. bnd (sc_index u (length population)) (\<lambda>challenger.
            ret (if sc_order (population ! challenger) (population ! winner) then challenger else winner)))
          [1..<sg_tournament_size (u_config u)] first) (\<lambda>winner.
     ret (population ! winner)))"

definition sc_crossover_gene :: "sc_run \<Rightarrow> sc_individual \<Rightarrow> nat \<Rightarrow> sc_individual \<Rightarrow> sc_individual sc_eff" where
  "sc_crossover_gene u other i child =
     bnd (sc_draw u) (\<lambda>w. ret (if bit w 0 then child\<lparr>v_genes := (v_genes child)[i := v_genes other ! i]\<rparr> else child))"

definition sc_mutate_gene :: "sc_run \<Rightarrow> nat \<Rightarrow> sc_individual \<Rightarrow> sc_individual sc_eff" where
  "sc_mutate_gene u i child = (let choices = sc_available (u_model u) ! i in
     bnd (sc_unit u) (\<lambda>r.
     if r < sg_mutation_rate (u_config u) \<and> length choices > 1
     then bnd (sc_index u (length choices)) (\<lambda>k.
       let method = choices ! k;
           method = (if method = v_genes child ! i
             then choices ! ((length (takeWhile (\<lambda>m. m \<noteq> method) choices) + 1) mod length choices) else method)
       in ret (child\<lparr>v_genes := (v_genes child)[i := method]\<rparr>))
     else ret child))"

definition sc_child :: "sc_run \<Rightarrow> sc_individual list \<Rightarrow> sc_individual sc_eff" where
  "sc_child u population =
     bnd (sc_select u population) (\<lambda>child.
     bnd (sc_select u population) (\<lambda>other.
     bnd (sc_unit u) (\<lambda>r.
     bnd (if r < sg_crossover_rate (u_config u)
          then foldM (sc_crossover_gene u other) [0..<length (v_genes child)] child else ret child) (\<lambda>child.
     bnd (foldM (sc_mutate_gene u) [0..<length (v_genes child)] child) (\<lambda>child.
     sc_prepare u child)))))"

definition sc_generation :: "sc_run \<Rightarrow> nat \<Rightarrow> sc_individual list \<times> sc_best \<Rightarrow> (sc_individual list \<times> sc_best) sc_eff" where
  "sc_generation u g acc =
     (let population = sc_sort (fst acc); elite = take (sg_elitism (u_config u)) population in
      bnd (mapM (\<lambda>_. sc_child u population) [length elite..<sg_population (u_config u)]) (\<lambda>children.
      ret (elite @ children, sc_retain_best g (elite @ children) (snd acc))))"

record sc_result =
  s_solution :: "nat list"
  s_total :: int
  s_c12 :: int
  s_generation :: nat
  s_feasible :: nat
  s_candidates :: nat
  s_pre_repair_feasible :: nat
  s_repair_attempts :: nat
  s_repair_successes :: nat
  s_convergence :: "int option list"

definition sc_report :: "sc_individual list \<Rightarrow> sc_best \<Rightarrow> sc_individual \<Rightarrow> sc_state \<Rightarrow> sc_result" where
  "sc_report population b champion n = \<lparr>s_solution = map Suc (v_genes champion), s_total = v_total champion,
     s_c12 = v_c12 champion, s_generation = b_generation b, s_feasible = length (filter v_feasible population),
     s_candidates = n_candidates n, s_pre_repair_feasible = n_pre_repair_feasible n,
     s_repair_attempts = n_repair_attempts n, s_repair_successes = n_repair_successes n,
     s_convergence = b_convergence b\<rparr>"

definition sc_optimize :: "sc_run \<Rightarrow> sc_result sc_eff" where
  "sc_optimize u = (let config = u_config u in
     bnd (sc_cheapest u) (\<lambda>cheapest.
     bnd (mapM (\<lambda>_. sc_random_individual u) [1..<sg_population config]) (\<lambda>others.
     let population = cheapest # others;
         b = sc_retain_best 0 population
           \<lparr>b_best = None, b_generation = 0, b_convergence = replicate (sg_generations config + 1) None\<rparr> in
     bnd (foldM (sc_generation u) [1..<sg_generations config + 1] (population, b)) (\<lambda>(population, b).
     case b_best b of None \<Rightarrow> throw (OptimizationError NoFeasibleSolution ''GA found no feasible assignment'')
     | Some champion \<Rightarrow> bnd get_st (\<lambda>n. ret (sc_report population b champion n))))))"

definition scalable_optimize ::
  "sc_config \<Rightarrow> string option list list \<Rightarrow> string \<Rightarrow> (exn + sc_result) option" where
  "scalable_optimize config costs threshold = (case sc_encode costs threshold of
     Inl e \<Rightarrow> Some (Inl e)
   | Inr md \<Rightarrow> map_option fst (sc_optimize
       \<lparr>u_config = config, u_model = md,
        u_penalty = long_double (long_double (long_double (of_int (sc_max_total md)) + 1) * sg_penalty_multiplier config),
        u_random = mt19937_64 (sg_seed config)\<rparr>
       \<lparr>n_draws = 0, n_candidates = 0, n_pre_repair_feasible = 0, n_repair_attempts = 0, n_repair_successes = 0\<rparr>))"

end
