(* ===== verification/ScalableRun.thy ===== *)
theory ScalableRun
  imports ScalableOptimizer
begin

text \<open>
  The plain genetic optimizer is correct: an evaluated individual holds the sums of its assignment, the
  repair returns and fails only where no change helps, and a run ends with a feasible assignment that is no better
  than the exact optimum, after a convergence record that never rises.
\<close>

section \<open>Evaluation\<close>

definition sc_ok :: "sc_model \<Rightarrow> bool" where
  "sc_ok md \<longleftrightarrow> (\<forall>r\<in>set (sc_costs md). row_ok r) \<and> sc_available md = map available (sc_costs md)"

abbreviation sc_valid :: "sc_model \<Rightarrow> nat list \<Rightarrow> bool" where
  "sc_valid md g \<equiv> map Suc g \<in> set (assignments (sc_costs md))"

abbreviation sc_sum :: "sc_model \<Rightarrow> (nat \<Rightarrow> int \<Rightarrow> int) \<Rightarrow> nat list \<Rightarrow> int" where
  "sc_sum md w g \<equiv> sum_by w (sc_costs md) (map Suc g)"

abbreviation sc_weight :: "sc_model \<Rightarrow> nat \<Rightarrow> int \<Rightarrow> int" where
  "sc_weight md \<equiv> w_linear kScale (sc_threshold md)"

abbreviation sc_feasible :: "sc_model \<Rightarrow> nat list \<Rightarrow> bool" where
  "sc_feasible md g \<equiv> feasible kScale (sc_threshold md) (sc_costs md) (map Suc g)"

lemma sc_validD:
  assumes "sc_ok md" "sc_valid md g"
  shows "length g = length (sc_costs md)" "i < length g \<Longrightarrow> g ! i \<in> set (sc_available md ! i)"
    "i < length g \<Longrightarrow> g ! i < 3 \<and> sc_costs md ! i ! (g ! i) = Some (sc_cost md i (g ! i))"
proof -
  show len: "length g = length (sc_costs md)" using assignments_length [OF assms(2)] by simp
  assume i: "i < length g"
  with len have "i < length (sc_costs md)" by simp
  from assignments_nth [OF assms(2) this] obtain m c where "m < 3" "map Suc g ! i = Suc m" "sc_costs md ! i ! m = Some c"
    "m \<in> set (available (sc_costs md ! i))" .
  with i len assms(1) show "g ! i \<in> set (sc_available md ! i)"
    "g ! i < 3 \<and> sc_costs md ! i ! (g ! i) = Some (sc_cost md i (g ! i))"
    by (auto simp: sc_ok_def sc_cost_def)
qed

lemma sc_weight_Suc: "sc_weight md (Suc m) c = sc_linear md m c"
  by (simp add: w_linear_def sc_linear_def)

lemma sc_sum_take:
  assumes "length g = length (sc_costs md)" "k < length g"
  shows "sc_sum md w (take (Suc k) g) = sc_sum md w (take k g) + w (Suc (g ! k)) (sc_cost md k (g ! k))"
  using sum_by_snoc [of "map Suc (take k g)" "sc_costs md" w "Suc (g ! k)"] assms
  by (simp add: take_Suc_conv_app_nth sc_cost_def)

lemma sc_add_genes:
  assumes "length (v_genes x) = length (sc_costs md)" "k \<le> length (v_genes x)"
  shows "fold (sc_add_gene md) [0..<k] x = x\<lparr>v_total := v_total x + sc_sum md w_cost (take k (v_genes x)),
    v_c12 := v_c12 x + sc_sum md w_c12 (take k (v_genes x)), v_c3 := v_c3 x + sc_sum md w_c3 (take k (v_genes x)),
    v_linear := v_linear x + sc_sum md (sc_weight md) (take k (v_genes x))\<rparr>"
  using assms(2)
proof (induction k)
  case 0
  then show ?case by (cases "sc_costs md") simp_all
next
  case (Suc k)
  then have "k < length (v_genes x)" by simp
  note s = sc_sum_take [OF assms(1) this]
  show ?case using Suc by (simp add: sc_add_gene_def Let_def s w_cost_def w_c12_def w_c3_def sc_weight_Suc)
qed

text \<open>What an evaluated individual holds.\<close>

definition sc_fitness :: "sc_model \<Rightarrow> rat \<Rightarrow> nat list \<Rightarrow> rat" where
  "sc_fitness md penalty g =
     (let linear = sc_sum md (sc_weight md) g; feasible = sc_feasible md g;
          violation = (if linear < 0 then long_double (long_double (of_int (- linear)) / long_double (of_int kScale)) else 0);
          missing_c3 = (if sc_sum md w_c3 g = 0 then long_double (of_int (sc_max_total md + 1)) else 0)
      in long_double (long_double (of_int (sc_sum md w_cost g)) +
           (if feasible then 0 else long_double (penalty * long_double (long_double (1 + violation) + missing_c3)))))"

definition sc_state_of :: "sc_model \<Rightarrow> rat \<Rightarrow> nat list \<Rightarrow> sc_individual" where
  "sc_state_of md penalty g = \<lparr>v_genes = g, v_total = sc_sum md w_cost g, v_c12 = sc_sum md w_c12 g,
     v_c3 = sc_sum md w_c3 g, v_linear = sc_sum md (sc_weight md) g, v_fitness = sc_fitness md penalty g,
     v_feasible = sc_feasible md g\<rparr>"

lemma sc_c12_nonneg: "sc_ok md \<Longrightarrow> sc_valid md g \<Longrightarrow> 0 \<le> sc_sum md w_c12 g"
  by (rule sum_by_nonneg) (simp_all add: sc_ok_def w_c12_def)

lemma sc_evaluate_valid:
  assumes "sc_ok md" "sc_valid md (v_genes x)"
  shows "sc_evaluate md penalty x = sc_state_of md penalty (v_genes x)"
proof -
  let ?g = "v_genes x"
  have len: "length ?g = length (sc_costs md)" by (rule sc_validD(1) [OF assms])
  have total: "sc_sum md w_c3 ?g > 0 \<longrightarrow> sc_sum md w_cost ?g > 0"
    using sc_c12_nonneg [OF assms] sum_by_c12_c3 [of "sc_costs md" "map Suc ?g"] by linarith
  let ?x = "x\<lparr>v_total := 0, v_c12 := 0, v_c3 := 0, v_linear := 0\<rparr>"
  have f: "fold (sc_add_gene md) [0..<length ?g] ?x = x\<lparr>v_total := sc_sum md w_cost ?g, v_c12 := sc_sum md w_c12 ?g,
    v_c3 := sc_sum md w_c3 ?g, v_linear := sc_sum md (sc_weight md) ?g\<rparr>"
    using sc_add_genes [of ?x md "length ?g"] len by simp
  have feas: "(0 \<le> sc_sum md (sc_weight md) ?g \<and> 0 < sc_sum md w_c3 ?g \<and> 0 < sc_sum md w_cost ?g) = sc_feasible md ?g"
    using total by (auto simp: feasible_def)
  show ?thesis unfolding sc_evaluate_def f Let_def
    using feas by (simp add: sc_state_of_def sc_fitness_def Let_def)
qed

definition sc_fresh :: "sc_model \<Rightarrow> rat \<Rightarrow> sc_individual \<Rightarrow> bool" where
  "sc_fresh md penalty x \<longleftrightarrow> sc_valid md (v_genes x) \<and> x = sc_state_of md penalty (v_genes x)"

lemma sc_freshD:
  assumes "sc_fresh md penalty x"
  shows "sc_valid md (v_genes x)" "v_total x = sc_sum md w_cost (v_genes x)" "v_c12 x = sc_sum md w_c12 (v_genes x)"
    "v_c3 x = sc_sum md w_c3 (v_genes x)" "v_linear x = sc_sum md (sc_weight md) (v_genes x)"
    "v_feasible x = sc_feasible md (v_genes x)" "v_fitness x = sc_fitness md penalty (v_genes x)"
  using assms unfolding sc_fresh_def by (metis sc_individual.simps(1-7) sc_state_of_def)+

lemma sc_fresh_evaluate: "sc_ok md \<Longrightarrow> sc_valid md (v_genes x) \<Longrightarrow> sc_fresh md penalty (sc_evaluate md penalty x)"
  by (simp add: sc_evaluate_valid sc_fresh_def) (simp add: sc_state_of_def)

lemma sc_evaluate_fresh: "sc_ok md \<Longrightarrow> sc_fresh md penalty x \<Longrightarrow> sc_evaluate md penalty x = x"
  by (simp add: sc_evaluate_valid sc_fresh_def)

lemma sc_valid_update:
  assumes "sc_ok md" "sc_valid md g" "i < length g" "m \<in> set (sc_available md ! i)"
  shows "sc_valid md (g[i := m])"
  using assignments_update [OF assms(2), of m i] assms sc_validD(1) [OF assms(1,2)]
  by (simp add: map_update sc_ok_def)

section \<open>Repair\<close>

text \<open>A change of the method of one row that is allowed to a repair: it raises the slack and does not give up the
  only method 3.\<close>

definition sc_helps :: "sc_model \<Rightarrow> nat list \<Rightarrow> nat \<Rightarrow> nat \<Rightarrow> bool" where
  "sc_helps md g i m \<longleftrightarrow> i < length g \<and> m \<in> set (sc_available md ! i) \<and> \<not> (g ! i = 2 \<and> count_list g 2 = 1) \<and>
     sc_sum md (sc_weight md) g < sc_sum md (sc_weight md) (g[i := m])"

lemma sc_sum_update:
  assumes "sc_ok md" "sc_valid md g" "i < length g"
  shows "sc_sum md (sc_weight md) (g[i := m]) =
    sc_sum md (sc_weight md) g - sc_linear md (g ! i) (sc_cost md i (g ! i)) + sc_linear md m (sc_cost md i m)"
  using sum_by_update [of i "sc_costs md" "map Suc g" "sc_weight md" "Suc m"] assms(3) sc_validD(1) [OF assms(1,2)]
  by (simp add: map_update sc_weight_Suc sc_cost_def)

definition sc_moves_ok :: "sc_model \<Rightarrow> nat list \<Rightarrow> sc_move option \<Rightarrow> bool" where
  "sc_moves_ok md g found \<longleftrightarrow> (\<forall>mv. found = Some mv \<longrightarrow> sc_helps md g (mv_row mv) (mv_method mv))"

lemma sc_try_move_ok:
  assumes "sc_ok md" "sc_valid md (v_genes x)" "i < length (v_genes x)" "m \<in> set (sc_available md ! i)"
  shows "sc_moves_ok md (v_genes x) found \<Longrightarrow> sc_moves_ok md (v_genes x) (sc_try_move md x i m found)"
    "sc_try_move md x i m found = None \<longleftrightarrow> found = None \<and> \<not> sc_helps md (v_genes x) i m"
proof -
  let ?g = "v_genes x"
  let ?d = "sc_linear md m (sc_cost md i m) - sc_linear md (?g ! i) (sc_cost md i (?g ! i))"
  have s: "sc_sum md (sc_weight md) (?g[i := m]) = sc_sum md (sc_weight md) ?g + ?d"
    using sc_sum_update [OF assms(1-3), of m] by simp
  have h: "sc_helps md ?g i m \<longleftrightarrow> \<not> (?g ! i = 2 \<and> m \<noteq> 2 \<and> count_list ?g 2 = 1) \<and> m \<noteq> ?g ! i \<and> 0 < ?d"
    using assms(3,4) by (auto simp: sc_helps_def s)
  show "sc_moves_ok md ?g found \<Longrightarrow> sc_moves_ok md ?g (sc_try_move md x i m found)"
    using h by (auto simp: sc_try_move_def sc_moves_ok_def Let_def split: option.splits if_splits)
  show "sc_try_move md x i m found = None \<longleftrightarrow> found = None \<and> \<not> sc_helps md ?g i m"
    unfolding h by (auto simp: sc_try_move_def Let_def split: option.splits)
qed

lemma fold_None_iff:
  assumes "\<And>x b. x \<in> set xs \<Longrightarrow> f x b = None \<longleftrightarrow> b = None \<and> \<not> P x"
  shows "fold f xs b = None \<longleftrightarrow> b = None \<and> (\<forall>x\<in>set xs. \<not> P x)"
  using assms by (induction xs arbitrary: b) auto

lemma sc_best_move_ok:
  assumes "sc_ok md" "sc_valid md (v_genes x)"
  shows "sc_best_move md x = Some mv \<Longrightarrow> sc_helps md (v_genes x) (mv_row mv) (mv_method mv)"
    "sc_best_move md x = None \<Longrightarrow> \<not> sc_helps md (v_genes x) i m"
proof -
  note t = sc_try_move_ok [OF assms]
  have "sc_moves_ok md (v_genes x) (sc_best_move md x)" unfolding sc_best_move_def
    by (rule fold_invariant_on, simp add: sc_moves_ok_def, rule fold_invariant_on, assumption, rule t(1)) simp_all
  then show "sc_best_move md x = Some mv \<Longrightarrow> sc_helps md (v_genes x) (mv_row mv) (mv_method mv)"
    by (simp add: sc_moves_ok_def)
  have i: "fold (sc_try_move md x i) (sc_available md ! i) b = None \<longleftrightarrow>
      b = None \<and> \<not> (\<exists>m\<in>set (sc_available md ! i). sc_helps md (v_genes x) i m)" if "i \<in> set [0..<length (v_genes x)]" for i b
    using fold_None_iff [of "sc_available md ! i" "sc_try_move md x i" "sc_helps md (v_genes x) i" b] t(2) that by auto
  show "sc_best_move md x = None \<Longrightarrow> \<not> sc_helps md (v_genes x) i m"
    unfolding sc_best_move_def using fold_None_iff [of "[0..<length (v_genes x)]", OF i] by (auto simp: sc_helps_def)
qed

text \<open>Such a change keeps a method 3.\<close>

lemma sc_helps_keeps:
  assumes "sc_helps md g i m" "2 \<in> set g"
  shows "2 \<in> set (g[i := m])"
proof (rule ccontr)
  have i: "i < length g" using assms(1) by (simp add: sc_helps_def)
  assume n: "2 \<notin> set (g[i := m])"
  have "g ! j \<noteq> 2" if "j < length g" "j \<noteq> i" for j
    using n that by (metis length_list_update nth_list_update_neq nth_mem)
  moreover obtain j where "j < length g" "g ! j = 2" using assms(2) by (auto simp: in_set_conv_nth)
  ultimately have "{j. j < length g \<and> g ! j = 2} = {i}" by auto
  then have "length (filter (\<lambda>q. q = 2) g) = 1" by (simp add: length_filter_conv_card)
  moreover have "(=) (2 :: nat) = (\<lambda>q. q = 2)" by auto
  then have "count_list g 2 = length (filter (\<lambda>q. q = 2) g)" by (simp add: count_list_eq_length_filter)
  moreover have "g ! i = 2" using \<open>{j. j < length g \<and> g ! j = 2} = {i}\<close> by auto
  ultimately show False using assms(1) by (simp add: sc_helps_def)
qed

definition sc_stuck :: "sc_model \<Rightarrow> nat list \<Rightarrow> bool" where
  "sc_stuck md g \<longleftrightarrow> sc_sum md (sc_weight md) g < 0 \<and> (\<forall>i m. \<not> sc_helps md g i m)"

lemma sc_helps_valid: "sc_ok md \<Longrightarrow> sc_valid md g \<Longrightarrow> sc_helps md g i m \<Longrightarrow> sc_valid md (g[i := m])"
  by (rule sc_valid_update) (simp_all add: sc_helps_def)

lemma sc_repair_loop_ok:
  assumes ok: "sc_ok md" and x: "sc_fresh md penalty x"
  shows "\<exists>y. sc_repair_loop md penalty x = Some (v_feasible y, y) \<and> sc_fresh md penalty y \<and>
    (2 \<in> set (v_genes x) \<longrightarrow> 2 \<in> set (v_genes y)) \<and> (v_linear y < 0 \<longrightarrow> sc_stuck md (v_genes y))"
  using x
proof (induction "nat (- v_linear x)" arbitrary: x rule: less_induct)
  case less
  note v = sc_freshD [OF less.prems] and best = sc_best_move_ok [OF ok sc_freshD(1) [OF less.prems]]
  show ?case
  proof (cases "v_linear x < 0")
    case False
    with less.prems show ?thesis by (subst sc_repair_loop.simps) auto
  next
    case neg: True
    show ?thesis
    proof (cases "sc_best_move md x")
      case None
      have "\<not> v_feasible x" using neg by (simp add: v(5,6) feasible_def)
      with None neg best(2) less.prems show ?thesis
        by (subst sc_repair_loop.simps) (auto simp: sc_stuck_def v(5))
    next
      case (Some mv)
      let ?y = "sc_make_move md penalty x mv" and ?g = "(v_genes x)[mv_row mv := mv_method mv]"
      note h = best(1) [OF Some]
      have g: "sc_valid md ?g" by (rule sc_helps_valid [OF ok v(1) h])
      have y: "sc_fresh md penalty ?y" unfolding sc_make_move_def by (rule sc_fresh_evaluate [OF ok]) (simp add: g)
      have genes: "v_genes ?y = ?g"
        unfolding sc_make_move_def by (subst sc_evaluate_valid [OF ok]) (simp_all add: g sc_state_of_def)
      have "v_linear x < v_linear ?y" using h by (simp add: v(5) sc_freshD(5) [OF y] genes sc_helps_def)
      then have "nat (- v_linear ?y) < nat (- v_linear x)" using neg by simp
      from less.hyps [OF this y] obtain z where "sc_repair_loop md penalty ?y = Some (v_feasible z, z)"
        "sc_fresh md penalty z" "2 \<in> set (v_genes ?y) \<longrightarrow> 2 \<in> set (v_genes z)" "v_linear z < 0 \<longrightarrow> sc_stuck md (v_genes z)"
        by blast
      with Some neg sc_helps_keeps [OF h] show ?thesis by (subst sc_repair_loop.simps) (auto simp: genes)
    qed
  qed
qed

lemma sc_cheapest3_ok:
  assumes "sc_cheapest3 md x = Some (i, d)"
  shows "i < length (v_genes x) \<and> sc_costs md ! i ! 2 \<noteq> None"
proof -
  let ?J = "\<lambda>found. case found of None \<Rightarrow> True | Some (i, d) \<Rightarrow> i < length (v_genes x) \<and> sc_costs md ! i ! 2 \<noteq> None"
  have "?J (sc_cheapest3 md x)" unfolding sc_cheapest3_def
    by (rule fold_invariant_on) (auto simp: Let_def split: option.splits prod.splits if_splits)
  with assms show ?thesis by simp
qed

lemma sc_cheapest3_None:
  assumes "sc_cheapest3 md x = None" "i < length (v_genes x)"
  shows "sc_costs md ! i ! 2 = None"
proof -
  have "fold (\<lambda>i found. case sc_costs md ! i ! 2 of None \<Rightarrow> found
     | Some c \<Rightarrow> (let delta = c - sc_cost md i (v_genes x ! i) in
         case found of None \<Rightarrow> Some (i, delta)
         | Some (_, best_delta) \<Rightarrow> if delta < best_delta then Some (i, delta) else found))
     [0..<length (v_genes x)] None = None \<longleftrightarrow> (None :: (nat \<times> int) option) = None \<and>
       (\<forall>i\<in>set [0..<length (v_genes x)]. \<not> sc_costs md ! i ! 2 \<noteq> None)"
    by (rule fold_None_iff) (auto simp: Let_def split: option.splits)
  with assms show ?thesis by (simp add: sc_cheapest3_def)
qed

text \<open>What the repair answers: it fails on an assignment without cost for method 3, or a stuck one.\<close>

definition sc_repaired :: "sc_model \<Rightarrow> nat list \<Rightarrow> bool \<Rightarrow> nat list \<Rightarrow> bool" where
  "sc_repaired md g0 ok g \<longleftrightarrow> sc_valid md g \<and> ok = sc_feasible md g \<and> (2 \<in> set g0 \<longrightarrow> 2 \<in> set g) \<and>
     (\<not> ok \<longrightarrow> sc_sum md w_c3 g = 0 \<or> sc_stuck md g)"

lemma sc_repair_ok:
  assumes ok: "sc_ok md" and g: "sc_valid md (v_genes x)"
  shows "\<exists>y. sc_repair md penalty x = Some (v_feasible y, y) \<and> sc_fresh md penalty y \<and>
    sc_repaired md (v_genes x) (v_feasible y) (v_genes y)"
proof -
  let ?x = "sc_evaluate md penalty x"
  have fx: "sc_fresh md penalty ?x" by (rule sc_fresh_evaluate [OF ok g])
  have gx: "v_genes ?x = v_genes x" by (simp add: sc_evaluate_valid [OF ok g] sc_state_of_def)
  have rep: "sc_repaired md (v_genes x) (v_feasible y) (v_genes y)"
    if "sc_fresh md penalty y" "2 \<in> set (v_genes x) \<longrightarrow> 2 \<in> set (v_genes y)" "v_linear y < 0 \<longrightarrow> sc_stuck md (v_genes y)" for y
  proof -
    have "0 \<le> sc_sum md w_c3 (v_genes y)"
      by (rule sum_by_nonneg) (use ok sc_freshD(1) [OF that(1)] in \<open>simp_all add: sc_ok_def w_c3_def\<close>)
    with that show ?thesis by (auto simp: sc_repaired_def sc_freshD [OF that(1)] feasible_def)
  qed
  show ?thesis
  proof (cases "v_c3 ?x = 0")
    case False
    from sc_repair_loop_ok [OF ok fx] rep False show ?thesis unfolding sc_repair_def gx by (auto simp: Let_def)
  next
    case c3: True
    show ?thesis
    proof (cases "sc_cheapest3 md ?x")
      case None
      have "\<not> v_feasible ?x" using c3 by (simp add: sc_freshD [OF fx] feasible_def)
      moreover have "sc_repaired md (v_genes x) False (v_genes x)"
        using c3 g by (simp add: sc_repaired_def sc_freshD [OF fx] gx feasible_def)
      ultimately show ?thesis using None c3 fx unfolding sc_repair_def by (auto simp: Let_def gx)
    next
      case (Some best)
      obtain i d where b: "best = (i, d)" by (cases best)
      note i = sc_cheapest3_ok [OF Some [unfolded b]]
      let ?z = "sc_evaluate md penalty (?x\<lparr>v_genes := (v_genes ?x)[i := 2]\<rparr>)"
      have "2 \<in> set (sc_available md ! i)"
        using i ok sc_validD(1) [OF ok g] by (simp add: gx sc_ok_def available_set)
      then have gz: "sc_valid md ((v_genes ?x)[i := 2])" by (intro sc_valid_update [OF ok]) (use i g gx in simp_all)
      then have fz: "sc_fresh md penalty ?z" by (intro sc_fresh_evaluate [OF ok]) simp
      have "2 \<in> set (v_genes ?z)"
        using i gz by (subst sc_evaluate_valid [OF ok]) (simp_all add: sc_state_of_def set_update_memI)
      with sc_repair_loop_ok [OF ok fz] rep Some b c3 show ?thesis unfolding sc_repair_def by (auto simp: Let_def)
    qed
  qed
qed

section \<open>The run\<close>

text \<open>The counters agree with each other between the calls.\<close>

definition tallied :: "sc_state \<Rightarrow> bool" where
  "tallied s \<longleftrightarrow> n_pre_repair_feasible s + n_repair_attempts s = n_candidates s \<and> n_repair_successes s \<le> n_repair_attempts s"

definition sc_run_ok :: "sc_run \<Rightarrow> bool" where
  "sc_run_ok u \<longleftrightarrow> sc_ok (u_model u) \<and> scalable_optimizer (u_config u) = Inr (u_config u)"

abbreviation u_fresh :: "sc_run \<Rightarrow> sc_individual \<Rightarrow> bool" where
  "u_fresh u \<equiv> sc_fresh (u_model u) (u_penalty u)"

abbreviation u_yields :: "'a sc_eff \<Rightarrow> ('a \<Rightarrow> bool) \<Rightarrow> bool" where
  "u_yields \<equiv> yields tallied no_exn"

lemma sc_draw_ok: "u_yields (sc_draw u) (\<lambda>_. True)"
  by (rule yieldsI_ok) (simp add: sc_draw_def eff_simps tallied_def)

lemma sc_index_ok: "0 < n \<Longrightarrow> u_yields (sc_index u n) (\<lambda>k. k < n)"
  unfolding sc_index_def by (rule yields_bnd [OF sc_draw_ok], rule yields_ret) simp

lemma sc_unit_ok: "u_yields (sc_unit u) (\<lambda>_. True)"
  unfolding sc_unit_def by (rule yields_bnd [OF sc_draw_ok], rule yields_ret) simp

lemma sc_prepare_ok:
  assumes u: "sc_run_ok u" and g: "sc_valid (u_model u) (v_genes x)"
  shows "u_yields (sc_prepare u x) (\<lambda>y. u_fresh u y \<and> (sc_feasible (u_model u) (v_genes x) \<longrightarrow> v_genes y = v_genes x))"
proof (rule yieldsI_ok)
  fix s assume s: "tallied s"
  have ok: "sc_ok (u_model u)" using u by (simp add: sc_run_ok_def)
  let ?x = "sc_evaluate (u_model u) (u_penalty u) x"
  have fx: "u_fresh u ?x" by (rule sc_fresh_evaluate [OF ok g])
  have gx: "v_genes ?x = v_genes x" "v_feasible ?x = sc_feasible (u_model u) (v_genes x)"
    by (simp_all add: sc_evaluate_valid [OF ok g] sc_state_of_def)
  from sc_repair_ok [OF ok sc_freshD(1) [OF fx], of "u_penalty u"] obtain y
    where y: "sc_repair (u_model u) (u_penalty u) ?x = Some (v_feasible y, y)" "u_fresh u y" by blast
  show "\<exists>a s'. sc_prepare u x s = Some (Inr a, s') \<and> tallied s' \<and>
      u_fresh u a \<and> (sc_feasible (u_model u) (v_genes x) \<longrightarrow> v_genes a = v_genes x)"
    using s fx gx y by (cases "v_feasible ?x"; cases "v_feasible y")
      (simp_all add: sc_prepare_def eff_simps Let_def returning_def tallied_def sc_evaluate_fresh [OF ok])
qed

lemma sc_prepare_fresh:
  "sc_run_ok u \<Longrightarrow> sc_valid (u_model u) (v_genes x) \<Longrightarrow> u_yields (sc_prepare u x) (u_fresh u)"
  by (rule yields_weaken [OF sc_prepare_ok]) simp_all

lemma sc_random_individual_ok:
  assumes "sc_run_ok u"
  shows "u_yields (sc_random_individual u) (u_fresh u)"
proof -
  let ?md = "u_model u"
  have ok: "sc_ok ?md" using assms by (simp add: sc_run_ok_def)
  have ne: "choices \<noteq> []" if "choices \<in> set (sc_available ?md)" for choices
    using that ok by (auto simp: sc_ok_def available_ne)
  have g: "u_yields (mapM (\<lambda>choices. bnd (sc_index u (length choices)) (\<lambda>k. ret (choices ! k))) (sc_available ?md))
      (list_all2 (\<lambda>choices m. m \<in> set choices) (sc_available ?md))"
    by (rule yields_mapM, rule yields_bnd [OF sc_index_ok]) (use ne in \<open>auto intro!: yields_ret\<close>)
  show ?thesis unfolding sc_random_individual_def
  proof (rule yields_bnd [OF g], rule sc_prepare_fresh [OF assms])
    fix genes assume "list_all2 (\<lambda>choices m. m \<in> set choices) (sc_available ?md) genes"
    then show "sc_valid ?md (v_genes (sc_new genes))"
      using ok by (auto simp: sc_new_def assignments_iff sc_ok_def list_all2_conv_all_nth)
  qed
qed

definition sc_first :: "sc_model \<Rightarrow> nat list" where
  "sc_first md = map (sc_min_method md) [0..<length (sc_costs md)]"

lemma sc_cheapest_ok:
  assumes "sc_run_ok u"
  shows "u_yields (sc_cheapest u)
    (\<lambda>x. u_fresh u x \<and> (sc_feasible (u_model u) (sc_first (u_model u)) \<longrightarrow> v_genes x = sc_first (u_model u)))"
proof -
  let ?md = "u_model u"
  have ok: "sc_ok ?md" using assms by (simp add: sc_run_ok_def)
  have "sc_min_method ?md i \<in> set (available (sc_costs ?md ! i))" if "i < length (sc_costs ?md)" for i
  proof -
    let ?c = "sc_available ?md ! i"
    have c: "?c = available (sc_costs ?md ! i)" "?c \<noteq> []" using that ok by (auto simp: sc_ok_def available_ne)
    have "fold (\<lambda>m s. if sc_cost ?md i m < sc_cost ?md i s then m else s) (tl ?c) (hd ?c) \<in> set ?c"
      by (rule fold_invariant_on) (use c(2) in \<open>auto dest: list.set_sel(2)\<close>)
    then show ?thesis by (simp add: sc_min_method_def Let_def c(1))
  qed
  then have "sc_valid ?md (v_genes (sc_new (sc_first ?md)))" by (simp add: assignments_iff sc_first_def sc_new_def)
  from sc_prepare_ok [OF assms this] show ?thesis by (simp add: sc_cheapest_def sc_first_def sc_new_def)
qed

lemma sc_select_ok:
  assumes "population \<noteq> []"
  shows "u_yields (sc_select u population) (\<lambda>x. x \<in> set population)"
proof -
  note i = sc_index_ok [of "length population" u]
  show ?thesis unfolding sc_select_def
    apply (rule yields_bnd [OF i])
    using assms apply simp
    apply (rule yields_bnd [where Q = "\<lambda>k. k < length population"])
     apply (rule yields_foldM)
      apply (rule yields_bnd [OF i])
    using assms apply simp
      apply (rule yields_ret, simp)
     apply assumption
    by (rule yields_ret) simp
qed

lemma sc_crossover_gene_ok:
  assumes "sc_run_ok u" "sc_valid (u_model u) (v_genes other)" "sc_valid (u_model u) (v_genes child)" "i < length (v_genes child)"
  shows "u_yields (sc_crossover_gene u other i child) (\<lambda>x. sc_valid (u_model u) (v_genes x))"
proof -
  have ok: "sc_ok (u_model u)" using assms(1) by (simp add: sc_run_ok_def)
  have "v_genes other ! i \<in> set (sc_available (u_model u) ! i)"
    using sc_validD(1) [OF ok assms(3)] sc_validD(1,2) [OF ok assms(2)] assms(4) by simp
  then show ?thesis unfolding sc_crossover_gene_def
    by (intro yields_bnd [OF sc_draw_ok] yields_ret) (use assms(3,4) in \<open>simp add: sc_valid_update [OF ok]\<close>)
qed

lemma sc_mutate_gene_ok:
  assumes "sc_run_ok u" "sc_valid (u_model u) (v_genes child)" "i < length (v_genes child)"
  shows "u_yields (sc_mutate_gene u i child) (\<lambda>x. sc_valid (u_model u) (v_genes x))"
proof -
  have ok: "sc_ok (u_model u)" using assms(1) by (simp add: sc_run_ok_def)
  let ?c = "sc_available (u_model u) ! i"
  have "i < length (sc_costs (u_model u))" using assms(3) sc_validD(1) [OF ok assms(2)] by simp
  with ok have ne: "0 < length ?c" by (simp add: sc_ok_def available_ne)
  have upd: "sc_valid (u_model u) ((v_genes child)[i := ?c ! k])" if "k < length ?c" for k
    using that by (intro sc_valid_update [OF ok assms(2,3)]) simp
  show ?thesis unfolding sc_mutate_gene_def Let_def
    apply (rule yields_bnd [OF sc_unit_ok])
    subgoal for r
      apply (cases "r < sg_mutation_rate (u_config u) \<and> length ?c > 1")
       apply (simp only: simp_thms if_True)
       apply (rule yields_bnd [OF sc_index_ok [OF ne]], rule yields_ret)
      using upd ne apply simp
      apply (simp only: simp_thms if_False)
      apply (rule yields_ret)
      by (rule assms(2))
    done
qed

lemma sc_child_ok:
  assumes u: "sc_run_ok u" and p: "population \<noteq> []" "\<forall>x\<in>set population. u_fresh u x"
  shows "u_yields (sc_child u population) (u_fresh u)"
proof -
  let ?V = "\<lambda>x. sc_valid (u_model u) (v_genes x)"
  have ok: "sc_ok (u_model u)" using u by (simp add: sc_run_ok_def)
  have sel: "u_yields (sc_select u population) ?V"
    by (rule yields_weaken [OF sc_select_ok [OF p(1)]]) (use p(2) sc_freshD(1) in blast)
  have len: "length (v_genes x) = length (v_genes y)" if "?V x" "?V y" for x y
    using sc_validD(1) [OF ok that(1)] sc_validD(1) [OF ok that(2)] by simp
  show ?thesis unfolding sc_child_def
    apply (rule yields_bnd [OF sel])
    subgoal premises a for child
      apply (rule yields_bnd [OF sel])
      subgoal premises b for other
        apply (rule yields_bnd [OF sc_unit_ok])
        subgoal for r
          apply (rule yields_bnd [where Q = ?V])
           apply (cases "r < sg_crossover_rate (u_config u)")
            apply (simp only: if_True)
            apply (rule yields_foldM)
             apply (rule sc_crossover_gene_ok [OF u b])
              apply assumption
             apply (simp add: len [OF _ a])
            apply (rule a)
           apply (simp only: if_False)
           apply (rule yields_ret, rule a)
          subgoal premises c for x
            apply (rule yields_bnd [where Q = ?V])
             apply (rule yields_foldM)
              apply (rule sc_mutate_gene_ok [OF u])
               apply assumption
              apply (simp add: len [OF _ c(2)])
             apply (rule c(2))
            by (rule sc_prepare_fresh [OF u])
          done
        done
      done
    done
qed

lemma sc_sort_set: "set (sc_sort xs) = set xs \<and> length (sc_sort xs) = length xs"
proof -
  have i: "set (sc_insert x ys) = insert x (set ys) \<and> length (sc_insert x ys) = Suc (length ys)" for x ys
    by (induction ys) auto
  show ?thesis unfolding sc_sort_def by (induction xs) (simp_all add: i)
qed

section \<open>The champion and the convergence record\<close>

lemma sc_order_total: "sc_order x y \<Longrightarrow> v_feasible x \<Longrightarrow> v_feasible y \<Longrightarrow> v_total x \<le> v_total y"
  by (simp add: sc_order_def split: if_splits)

definition champion_of :: "sc_run \<Rightarrow> sc_individual set \<Rightarrow> sc_individual option \<Rightarrow> bool" where
  "champion_of u seen found \<longleftrightarrow> (\<forall>y. found = Some y \<longrightarrow> u_fresh u y \<and> v_feasible y) \<and>
     (\<forall>x\<in>seen. v_feasible x \<longrightarrow> (\<exists>y. found = Some y \<and> v_total y \<le> v_total x))"

lemma sc_retain_fold:
  assumes "champion_of u seen (b_best b)" "\<forall>x\<in>set population. u_fresh u x"
  shows "champion_of u (seen \<union> set population) (b_best (fold (sc_retain g) population b)) \<and>
    b_convergence (fold (sc_retain g) population b) = b_convergence b \<and>
    (b_best (fold (sc_retain g) population b) = b_best b \<and> b_generation (fold (sc_retain g) population b) = b_generation b \<or>
     b_best (fold (sc_retain g) population b) \<noteq> None \<and> b_generation (fold (sc_retain g) population b) = g)"
  using assms
proof (induction population arbitrary: b seen)
  case (Cons x population)
  let ?b = "sc_retain g x b"
  have total: "v_total x \<le> v_total y" if "sc_order x y" "v_feasible x" "v_feasible y" for y
    using that by (rule sc_order_total)
  have total': "v_total y \<le> v_total x" if "\<not> sc_order x y" "v_feasible x" "v_feasible y" for y
    using that by (auto simp: sc_order_def split: if_splits)
  have "champion_of u (insert x seen) (b_best ?b)"
    using Cons.prems by (cases "b_best b")
      (auto simp: champion_of_def sc_retain_def dest: total total' intro: order_trans)
  note IH = Cons.IH [OF this]
  have step: "b_convergence ?b = b_convergence b"
    "b_best ?b = b_best b \<and> b_generation ?b = b_generation b \<or> b_best ?b \<noteq> None \<and> b_generation ?b = g"
    by (auto simp: sc_retain_def)
  have "fold (sc_retain g) (x # population) b = fold (sc_retain g) population ?b" by simp
  moreover have "seen \<union> set (x # population) = insert x seen \<union> set population" by auto
  ultimately show ?case using IH Cons.prems(2) step by (metis list.set_intros(2))
qed simp

text \<open>The record up to generation \<open>g\<close>.\<close>

definition falls :: "int option list \<Rightarrow> nat \<Rightarrow> bool" where
  "falls conv g \<longleftrightarrow> (\<forall>i<g. \<forall>c. conv ! i = Some c \<longrightarrow> (\<exists>c'. conv ! Suc i = Some c' \<and> c' \<le> c))"

definition best_ok :: "sc_run \<Rightarrow> sc_individual set \<Rightarrow> nat \<Rightarrow> sc_best \<Rightarrow> bool" where
  "best_ok u seen g b \<longleftrightarrow> champion_of u seen (b_best b) \<and> length (b_convergence b) = sg_generations (u_config u) + 1 \<and>
     b_generation b \<le> g \<and> (\<forall>i. g < i \<longrightarrow> i < length (b_convergence b) \<longrightarrow> b_convergence b ! i = None) \<and>
     b_convergence b ! g = map_option v_total (b_best b) \<and>
     (b_best b \<noteq> None \<longrightarrow> b_convergence b ! b_generation b = map_option v_total (b_best b)) \<and> falls (b_convergence b) g"

lemma sc_retain_best_ok:
  assumes "best_ok u seen g b" "\<forall>x\<in>set population. u_fresh u x" "g < sg_generations (u_config u)"
  shows "best_ok u (seen \<union> set population) (Suc g) (sc_retain_best (Suc g) population b)"
proof -
  let ?b = "fold (sc_retain (Suc g)) population b" and ?r = "sc_retain_best (Suc g) population b"
  have c: "champion_of u seen (b_best b)" "length (b_convergence b) = sg_generations (u_config u) + 1" "b_generation b \<le> g"
    "\<forall>i. g < i \<longrightarrow> i < length (b_convergence b) \<longrightarrow> b_convergence b ! i = None"
    "b_convergence b ! g = map_option v_total (b_best b)"
    "b_best b \<noteq> None \<longrightarrow> b_convergence b ! b_generation b = map_option v_total (b_best b)" "falls (b_convergence b) g"
    using assms(1) by (simp_all add: best_ok_def)
  note f = sc_retain_fold [OF c(1) assms(2), of "Suc g"]
  have conv: "b_convergence ?b = b_convergence b" using f by simp
  have None: "b_best b = None" if "b_best ?b = None" using f that by auto
  have better: "v_total y \<le> v_total x" if "b_best b = Some x" "b_best ?b = Some y" for x y
  proof -
    have x: "u_fresh u x" "v_feasible x" using c(1) that(1) by (simp_all add: champion_of_def)
    have "champion_of u (insert x seen) (b_best b)" using c(1) unfolding champion_of_def that(1) by simp
    from sc_retain_fold [OF this assms(2), of "Suc g"]
    have "champion_of u (insert x seen \<union> set population) (b_best ?b)" by simp
    with x(2) that(2) show ?thesis by (simp add: champion_of_def)
  qed
  show ?thesis
  proof (cases "b_best ?b")
    case n: None
    then have r: "?r = ?b" by (simp add: sc_retain_best_def)
    from n f have g: "b_generation ?b = b_generation b" by auto
    have "falls (b_convergence b) (Suc g)" using c(5,7) None [OF n] by (auto simp: falls_def less_Suc_eq)
    with n f c assms(3) g show ?thesis unfolding r best_ok_def conv by auto
  next
    case (Some y)
    then have r: "?r = ?b\<lparr>b_convergence := (b_convergence b)[Suc g := Some (v_total y)]\<rparr>"
      by (simp add: sc_retain_best_def conv)
    have "falls ((b_convergence b)[Suc g := Some (v_total y)]) (Suc g)"
      unfolding falls_def
    proof (intro allI impI)
      fix i v assume i: "i < Suc g" "(b_convergence b)[Suc g := Some (v_total y)] ! i = Some v"
      then have v: "b_convergence b ! i = Some v" by simp
      show "\<exists>c'. (b_convergence b)[Suc g := Some (v_total y)] ! Suc i = Some c' \<and> c' \<le> v"
      proof (cases "i = g")
        case True
        with v c(5) obtain x where "b_best b = Some x" "v = v_total x" by auto
        with better [OF _ Some] True c(2) assms(3) show ?thesis by simp
      next
        case False
        with i(1) c(7) v show ?thesis by (simp add: falls_def)
      qed
    qed
    moreover have "(b_convergence b)[Suc g := Some (v_total y)] ! b_generation ?b = Some (v_total y)"
    proof -
      consider "b_best ?b = b_best b" "b_generation ?b = b_generation b" | "b_generation ?b = Suc g" using f by blast
      then show ?thesis using c(2,3,6) Some assms(3) by cases auto
    qed
    ultimately show ?thesis using f Some c assms(3) unfolding r best_ok_def by auto
  qed
qed

lemma sc_retain_first_ok:
  assumes "\<forall>x\<in>set population. u_fresh u x"
  shows "best_ok u (set population) 0 (sc_retain_best 0 population
    \<lparr>b_best = None, b_generation = 0, b_convergence = replicate (sg_generations (u_config u) + 1) None\<rparr>)"
proof -
  let ?b0 = "\<lparr>b_best = None, b_generation = 0, b_convergence = replicate (sg_generations (u_config u) + 1) None\<rparr>"
  have "champion_of u {} (b_best ?b0)" by (simp add: champion_of_def)
  from sc_retain_fold [OF this assms, of 0]
  show ?thesis by (cases "b_best (fold (sc_retain 0) population ?b0)")
      (auto simp: best_ok_def sc_retain_best_def Let_def falls_def nth_Cons')
qed

section \<open>The whole run\<close>

text \<open>The answer: the solution of a feasible individual, with the record and the counters; \<open>first\<close> is
  the assignment of the cheapest methods.\<close>

definition sc_answer :: "sc_run \<Rightarrow> nat list \<Rightarrow> sc_result \<Rightarrow> bool" where
  "sc_answer u first z \<longleftrightarrow> (\<exists>g. sc_valid (u_model u) g \<and> sc_feasible (u_model u) g \<and> s_solution z = map Suc g \<and>
      s_total z = sc_sum (u_model u) w_cost g \<and> s_c12 z = sc_sum (u_model u) w_c12 g) \<and>
     length (s_convergence z) = sg_generations (u_config u) + 1 \<and> falls (s_convergence z) (sg_generations (u_config u)) \<and>
     last (s_convergence z) = Some (s_total z) \<and> s_generation z \<le> sg_generations (u_config u) \<and>
     s_convergence z ! s_generation z = Some (s_total z) \<and>
     s_pre_repair_feasible z + s_repair_attempts z = s_candidates z \<and> s_repair_successes z \<le> s_repair_attempts z \<and>
     s_feasible z \<le> sg_population (u_config u) \<and>
     (sc_feasible (u_model u) first \<longrightarrow> s_total z \<le> sc_sum (u_model u) w_cost first)"

definition none_found :: exn where
  "none_found = OptimizationError NoFeasibleSolution ''GA found no feasible assignment''"

definition sc_population_ok :: "sc_run \<Rightarrow> sc_individual list \<Rightarrow> bool" where
  "sc_population_ok u population \<longleftrightarrow> length population = sg_population (u_config u) \<and> (\<forall>x\<in>set population. u_fresh u x)"

lemma sc_run_okD:
  assumes "sc_run_ok u"
  shows "sc_ok (u_model u)" "2 \<le> sg_population (u_config u)" "sg_elitism (u_config u) < sg_population (u_config u)"
    "0 < sg_generations (u_config u)"
  using assms by (simp_all add: sc_run_ok_def scalable_optimizer_def split: if_splits)

lemma sc_generation_ok:
  assumes u: "sc_run_ok u" and p: "sc_population_ok u (fst acc)" and b: "best_ok u seen g (snd acc)"
    and g: "g < sg_generations (u_config u)"
  shows "u_yields (sc_generation u (Suc g) acc) (\<lambda>acc. sc_population_ok u (fst acc) \<and> best_ok u seen (Suc g) (snd acc))"
proof -
  let ?p = "sc_sort (fst acc)" and ?n = "sg_population (u_config u)"
  let ?e = "take (sg_elitism (u_config u)) ?p"
  note s = sc_sort_set [of "fst acc"] and n = sc_run_okD [OF u]
  have pn: "length ?p = ?n" "\<forall>x\<in>set ?p. u_fresh u x" using p s by (simp_all add: sc_population_ok_def)
  then have ne: "?p \<noteq> []" using n(2) by auto
  have le: "length ?e < ?n" using n(3) pn(1) by simp
  have e: "\<forall>x\<in>set ?e. u_fresh u x" using pn(2) by (meson in_set_takeD)
  have m: "u_yields (mapM (\<lambda>_. sc_child u ?p) [length ?e..<?n]) (list_all2 (\<lambda>_. u_fresh u) [length ?e..<?n])"
    by (rule yields_mapM) (rule sc_child_ok [OF u ne pn(2)])
  show ?thesis unfolding sc_generation_def Let_def
  proof (rule yields_bnd [OF m], rule yields_ret)
    fix children assume c: "list_all2 (\<lambda>_. u_fresh u) [length ?e..<?n] children"
    then have l: "length children = ?n - length ?e" by (simp add: list_all2_lengthD [symmetric])
    have f: "\<forall>x\<in>set children. u_fresh u x" using c by (auto simp: list_all2_conv_all_nth in_set_conv_nth)
    have pop: "sc_population_ok u (?e @ children)" using e f l le by (auto simp: sc_population_ok_def)
    then have "best_ok u (seen \<union> set (?e @ children)) (Suc g) (sc_retain_best (Suc g) (?e @ children) (snd acc))"
      by (intro sc_retain_best_ok [OF b _ g]) (simp add: sc_population_ok_def)
    with pop show "sc_population_ok u (fst (?e @ children, sc_retain_best (Suc g) (?e @ children) (snd acc))) \<and>
        best_ok u seen (Suc g) (snd (?e @ children, sc_retain_best (Suc g) (?e @ children) (snd acc)))"
      by (auto simp: best_ok_def champion_of_def)
  qed
qed

lemma falls_first:
  assumes "falls conv g" "conv ! 0 = Some c"
  shows "\<exists>c'. conv ! g = Some c' \<and> c' \<le> c"
  using assms(1)
proof (induction g)
  case (Suc g)
  then obtain c' where "conv ! g = Some c'" "c' \<le> c" by (auto simp: falls_def)
  moreover from this(1) Suc.prems obtain c'' where "conv ! Suc g = Some c''" "c'' \<le> c'" by (auto simp: falls_def)
  ultimately show ?case by auto
qed (simp add: assms(2))

lemma sc_population_random:
  assumes "sc_run_ok u" "u_fresh u x" "list_all2 (\<lambda>_. u_fresh u) [1..<sg_population (u_config u)] others"
  shows "sc_population_ok u (x # others)"
proof -
  have "length others = sg_population (u_config u) - 1" using assms(3) by (simp add: list_all2_lengthD [symmetric])
  moreover have "\<forall>y\<in>set others. u_fresh u y" using assms(3) by (auto simp: list_all2_conv_all_nth in_set_conv_nth)
  ultimately show ?thesis using assms(2) sc_run_okD(2) [OF assms(1)] by (simp add: sc_population_ok_def)
qed

lemma yields_get: "yields I E get_st I"
  by (rule yieldsI_ok) (simp add: eff_simps)

lemma sc_report_ok:
  assumes p: "sc_population_ok u population" and b: "best_ok u {first} (sg_generations (u_config u)) b"
    and y: "b_best b = Some y" and n: "tallied n"
    and first: "sc_feasible (u_model u) g0 \<longrightarrow> v_genes first = g0" "u_fresh u first"
  shows "sc_answer u g0 (sc_report population b y n)"
proof -
  let ?G = "sg_generations (u_config u)"
  have c: "champion_of u {first} (Some y)" "length (b_convergence b) = ?G + 1" "b_convergence b ! ?G = Some (v_total y)"
    "b_generation b \<le> ?G" "b_convergence b ! b_generation b = Some (v_total y)" "falls (b_convergence b) ?G"
    using b by (simp_all add: best_ok_def y)
  have fy: "u_fresh u y" "v_feasible y" using c(1) by (simp_all add: champion_of_def)
  note v = sc_freshD [OF fy(1)]
  have "last (b_convergence b) = Some (v_total y)" using c(2,3) by (subst last_conv_nth) auto
  moreover have "length (filter v_feasible population) \<le> sg_population (u_config u)"
    using p length_filter_le [of v_feasible population] by (simp add: sc_population_ok_def)
  moreover have "v_total y \<le> sc_sum (u_model u) w_cost g0" if "sc_feasible (u_model u) g0"
    using c(1) first that sc_freshD(2,6) [OF first(2)] by (auto simp: champion_of_def)
  ultimately show ?thesis using c n v fy(2) by (auto simp: sc_answer_def sc_report_def tallied_def)
qed

lemma sc_may_fail: "u_yields m R \<Longrightarrow> yields tallied E m R"
  by (erule yields_weaken_exn) (simp add: no_exn_def)

lemma sc_optimize_ok:
  assumes u: "sc_run_ok u"
  shows "yields tallied (\<lambda>e. e = none_found \<and> \<not> sc_feasible (u_model u) (sc_first (u_model u)))
    (sc_optimize u) (sc_answer u (sc_first (u_model u)))"
proof -
  let ?E = "\<lambda>e. e = none_found \<and> \<not> sc_feasible (u_model u) (sc_first (u_model u))"
  let ?G = "sg_generations (u_config u)" and ?n = "sg_population (u_config u)" and ?g0 = "sc_first (u_model u)"
  have others: "u_yields (mapM (\<lambda>_. sc_random_individual u) [1..<?n]) (list_all2 (\<lambda>_. u_fresh u) [1..<?n])"
    by (rule yields_mapM) (rule sc_random_individual_ok [OF u])
  show ?thesis unfolding sc_optimize_def Let_def
  proof (rule yields_bnd [OF sc_may_fail [OF sc_cheapest_ok [OF u]]], rule yields_bnd [OF sc_may_fail [OF others]])
    fix first others assume first: "u_fresh u first \<and> (sc_feasible (u_model u) ?g0 \<longrightarrow> v_genes first = ?g0)"
      and "list_all2 (\<lambda>_. u_fresh u) [1..<?n] others"
    then have pop: "sc_population_ok u (first # others)" by (intro sc_population_random [OF u]) simp_all
    let ?b = "sc_retain_best 0 (first # others) \<lparr>b_best = None, b_generation = 0, b_convergence = replicate (?G + 1) None\<rparr>"
    have "best_ok u (set (first # others)) 0 ?b" using pop by (intro sc_retain_first_ok) (simp add: sc_population_ok_def)
    then have b: "best_ok u {first} 0 ?b" by (auto simp: best_ok_def champion_of_def)
    let ?J = "\<lambda>g acc. sc_population_ok u (fst acc) \<and> best_ok u {first} g (snd acc)"
    have "u_yields (foldM (sc_generation u) [1..<?G + 1] (first # others, ?b)) (?J (length [1..<?G + 1]))"
      by (rule yields_foldM_indexed) (use pop b sc_generation_ok [OF u] in \<open>auto simp del: upt_Suc\<close>)
    then have run: "u_yields (foldM (sc_generation u) [1..<?G + 1] (first # others, ?b)) (?J ?G)"
      by (simp only: length_upt diff_add_inverse2)
    show "yields tallied ?E (bnd (foldM (sc_generation u) [1..<?G + 1] (first # others, ?b))
        (\<lambda>(population, b). case b_best b of None \<Rightarrow> throw (OptimizationError NoFeasibleSolution ''GA found no feasible assignment'')
          | Some champion \<Rightarrow> bnd get_st (\<lambda>n. ret (sc_report population b champion n))))
        (sc_answer u ?g0)"
    proof (rule yields_bnd [OF sc_may_fail [OF run]])
      fix acc assume J: "?J ?G acc"
      obtain population b where acc: "acc = (population, b)" by (cases acc)
      have none: "\<not> sc_feasible (u_model u) ?g0" if "b_best b = None"
      proof
        assume f: "sc_feasible (u_model u) ?g0"
        then have "v_feasible first" using first sc_freshD(6) by metis
        with J that show False by (simp add: acc best_ok_def champion_of_def)
      qed
      show "yields tallied ?E (case acc of (population, b) \<Rightarrow> case b_best b of
          None \<Rightarrow> throw (OptimizationError NoFeasibleSolution ''GA found no feasible assignment'')
          | Some champion \<Rightarrow> bnd get_st (\<lambda>n. ret (sc_report population b champion n))) (sc_answer u ?g0)"
        unfolding acc prod.case
        using J first none sc_report_ok [of u population first b _ _ ?g0]
        by (cases "b_best b")
           (auto simp: acc none_found_def intro!: yields_throw yields_bnd [OF yields_get] yields_ret)
    qed
  qed
qed

section \<open>Against the exact optimizer\<close>

definition cheapest_assignment :: "row list \<Rightarrow> nat list" where
  "cheapest_assignment rows = map (\<lambda>r. Suc (cheapest_method r)) rows"

lemma fold_min_pair:
  "fold (\<lambda>m acc. if c m < snd acc then (m, c m) else acc) ms (x, c x) =
     (let y = fold (\<lambda>m s. if c m < c s then m else s) ms x in (y, c y))"
  by (induction ms arbitrary: x) (auto simp: Let_def)

lemma sc_first_cheapest:
  assumes "sc_ok md"
  shows "map Suc (sc_first md) = cheapest_assignment (sc_costs md)"
proof -
  have "sc_min_method md i = cheapest_method (sc_costs md ! i)" if "i < length (sc_costs md)" for i
    using that assms fold_min_pair [of "\<lambda>m. the (sc_costs md ! i ! m)"]
    by (simp add: sc_min_method_def cheapest_method_def sc_ok_def sc_cost_def Let_def)
  then show ?thesis by (auto simp: sc_first_def cheapest_assignment_def intro!: nth_equalityI)
qed

lemma fold_min_le:
  fixes c :: "nat \<Rightarrow> int"
  shows "c (fold (\<lambda>m s. if c m < c s then m else s) ms x) \<le> c x \<and>
    (\<forall>m\<in>set ms. c (fold (\<lambda>m s. if c m < c s then m else s) ms x) \<le> c m)"
proof (induction ms arbitrary: x)
  case (Cons m ms)
  show ?case using Cons [of "if c m < c x then m else x"] by (auto split: if_splits)
qed simp

lemma cheapest_method_le:
  assumes "m \<in> set (available r)"
  shows "the (r ! cheapest_method r) \<le> the (r ! m)"
proof -
  let ?c = "\<lambda>m. the (r ! m)"
  have "cheapest_method r = fold (\<lambda>m s. if ?c m < ?c s then m else s) (tl (available r)) (hd (available r))"
    using fold_min_pair [of ?c "tl (available r)" "hd (available r)"] by (simp add: cheapest_method_def Let_def)
  with fold_min_le [of ?c "tl (available r)" "hd (available r)"] assms show ?thesis by (cases "available r") auto
qed

lemma cheapest_assignment_le:
  "p \<in> set (assignments rows) \<Longrightarrow> sum_by w_cost rows (cheapest_assignment rows) \<le> sum_by w_cost rows p"
proof (induction rows arbitrary: p)
  case (Cons r rs)
  from Cons.prems obtain j ys where j: "j < 3" "r ! j \<noteq> None" "ys \<in> set (assignments rs)" "p = Suc j # ys"
    unfolding assignments_Cons_set by blast
  with Cons.IH cheapest_method_le [of j r] show ?case
    by (simp add: cheapest_assignment_def w_cost_def available_set add_mono)
qed (simp add: cheapest_assignment_def)

lemma no_method3_infeasible:
  assumes "\<not> list_ex (\<lambda>r. r ! 2 \<noteq> None) rows" "p \<in> set (assignments rows)"
  shows "\<not> feasible S T rows p"
proof -
  have "sum_by w_c3 rows p \<le> sum_list (map (\<lambda>_. 0) [0..<length rows])"
  proof (rule sum_by_upper [OF assms(2)])
    fix i j c assume i: "i < length rows" "j < (3 :: nat)" "rows ! i ! j = Some c"
    then have "j \<noteq> 2" using assms(1) by (auto simp: list_ex_iff)
    with i show "w_c3 (Suc j) c \<le> 0" by (simp add: w_c3_def)
  qed
  moreover have "sum_list (map (\<lambda>_. 0) l) = (0::int)" for l :: "nat list" by (induction l) simp_all
  ultimately show ?thesis by (simp add: feasible_def)
qed

text \<open>The two encodings agree, except that this one refuses a matrix without method 3.\<close>

lemma sc_encode_encode:
  "sc_encode matrix threshold = sbind (encode matrix threshold) (\<lambda>m.
     if \<not> list_ex (\<lambda>r. r ! 2 \<noteq> None) (e_costs m)
     then Inl (OptimizationError NoFeasibleSolution ''ratio requires an available method3'')
     else map_sum id (\<lambda>total. \<lparr>sc_costs = e_costs m, sc_available = map available (e_costs m),
            sc_threshold = e_threshold m, sc_max_total = total\<rparr>)
          (map_sum id snd (sfold encode_row matrix ([], 0))))"
  by (auto simp: sc_encode_def encode_def sbind_def split: sum.splits prod.splits if_splits)

lemma sc_encode_Inr:
  assumes "sc_encode matrix threshold = Inr md" "\<forall>es\<in>set matrix. length es = 3"
  obtains m where "encode matrix threshold = Inr m" "sc_costs md = e_costs m" "sc_threshold md = e_threshold m" "sc_ok md"
proof -
  from assms(1) obtain m total where m: "encode matrix threshold = Inr m"
    "md = \<lparr>sc_costs = e_costs m, sc_available = map available (e_costs m), sc_threshold = e_threshold m, sc_max_total = total\<rparr>"
    unfolding sc_encode_encode by (auto simp: sbind_eq_Inr map_sum_def split: if_splits sum.splits)
  moreover have "model_ok m" by (rule encode_model_ok(1) [OF m(1) assms(2)])
  ultimately show thesis using that [of m] by (simp add: sc_ok_def model_ok_def)
qed

definition sc_launch :: "sc_config \<Rightarrow> sc_model \<Rightarrow> sc_run" where
  "sc_launch config md = \<lparr>u_config = config, u_model = md,
     u_penalty = long_double (long_double (long_double (of_int (sc_max_total md)) + 1) * sg_penalty_multiplier config),
     u_random = mt19937_64 (sg_seed config)\<rparr>"

lemma scalable_optimize_run:
  assumes "scalable_optimizer config = Inr config" "sc_encode matrix threshold = Inr md" "sc_ok md"
  shows "\<exists>r. scalable_optimize config matrix threshold = Some r \<and>
    (case r of Inl e \<Rightarrow> e = none_found \<and> \<not> sc_feasible md (sc_first md)
     | Inr z \<Rightarrow> sc_answer (sc_launch config md) (sc_first md) z)"
proof -
  let ?u = "sc_launch config md"
  have u: "sc_run_ok ?u" using assms(1,3) by (simp add: sc_run_ok_def sc_launch_def)
  let ?s = "\<lparr>n_draws = 0, n_candidates = 0, n_pre_repair_feasible = 0, n_repair_attempts = 0, n_repair_successes = 0\<rparr>"
  have "tallied ?s" by (simp add: tallied_def)
  from yieldsD [OF sc_optimize_ok [OF u] this] obtain r s' where r: "sc_optimize ?u ?s = Some (r, s')"
    "case r of Inl e \<Rightarrow> e = none_found \<and> \<not> sc_feasible (u_model ?u) (sc_first (u_model ?u))
     | Inr z \<Rightarrow> sc_answer ?u (sc_first (u_model ?u)) z" by blast
  have md: "u_model ?u = md" by (simp add: sc_launch_def)
  from r(1) assms(2) have "scalable_optimize config matrix threshold = Some r"
    by (simp add: scalable_optimize_def sc_launch_def)
  with r(2) show ?thesis unfolding md by blast
qed

text \<open>C7: The plain genetic optimizer always returns. On a matrix that cannot be encoded it
  reports the error of the exact optimizer. On any other it returns a feasible assignment with its cost, or
  reports that it found none. If it returns an assignment, the exact optimizer has an optimum, which is no
  dearer, and the costs are equal if the assignment of the cheapest methods is feasible. If it found none, that
  assignment is not feasible; this is all that the report says, since the search is heuristic and may miss
  a feasible assignment that the exact optimizer finds.\<close>

theorem scalable_optimize_sound:
  assumes "scalable_optimizer config = Inr config" "\<forall>es\<in>set matrix. length es = 3"
  shows "\<exists>r. scalable_optimize config matrix threshold = Some r \<and>
    (case r of
       Inl e \<Rightarrow> (case encode matrix threshold of Inl e' \<Rightarrow> e = e'
         | Inr m \<Rightarrow> (\<exists>text. e = OptimizationError NoFeasibleSolution text) \<and>
             \<not> feasible kScale (e_threshold m) (e_costs m) (cheapest_assignment (e_costs m)))
     | Inr z \<Rightarrow> \<exists>m opt. encode matrix threshold = Inr m \<and> optimize_plain matrix threshold = Inr opt \<and>
         s_solution z \<in> set (assignments (e_costs m)) \<and> feasible kScale (e_threshold m) (e_costs m) (s_solution z) \<and>
         s_total z = sum_by w_cost (e_costs m) (s_solution z) \<and> s_c12 z = sum_by w_c12 (e_costs m) (s_solution z) \<and>
         r_total_cost opt \<le> s_total z \<and>
         (feasible kScale (e_threshold m) (e_costs m) (cheapest_assignment (e_costs m)) \<longrightarrow> s_total z = r_total_cost opt))"
proof (cases "sc_encode matrix threshold")
  case (Inl e)
  have run: "scalable_optimize config matrix threshold = Some (Inl e)" by (simp add: scalable_optimize_def Inl)
  show ?thesis
  proof (cases "encode matrix threshold")
    case m: (Inr m)
    have rows: "\<forall>r\<in>set (e_costs m). row_ok r" using encode_model_ok(1) [OF m assms(2)] by (simp add: model_ok_def)
    then have c: "cheapest_assignment (e_costs m) \<in> set (assignments (e_costs m))"
      by (simp add: cheapest_assignment_def assignments_iff cheapest_method_available)
    have e: "\<not> list_ex (\<lambda>r. r ! 2 \<noteq> None) (e_costs m)" "\<exists>text. e = OptimizationError NoFeasibleSolution text"
      using Inl m unfolding sc_encode_encode
      by (auto simp: map_sum_def encode_def sbind_def split: if_splits sum.splits prod.splits)
    from no_method3_infeasible [OF e(1) c] e(2) run m show ?thesis by simp
  qed (use run Inl in \<open>simp add: sc_encode_encode\<close>)
next
  case md: (Inr md)
  obtain m where m: "encode matrix threshold = Inr m" "sc_costs md = e_costs m" "sc_threshold md = e_threshold m" "sc_ok md"
    by (rule sc_encode_Inr [OF md assms(2)])
  have first: "map Suc (sc_first md) = cheapest_assignment (e_costs m)" using sc_first_cheapest [OF m(4)] m(2) by simp
  obtain r where r: "scalable_optimize config matrix threshold = Some r"
    "case r of Inl e \<Rightarrow> e = none_found \<and> \<not> sc_feasible md (sc_first md)
     | Inr z \<Rightarrow> sc_answer (sc_launch config md) (sc_first md) z"
    using scalable_optimize_run [OF assms(1) md m(4)] by blast
  show ?thesis
  proof (cases r)
    case (Inl e)
    with r m first show ?thesis by (auto simp: none_found_def)
  next
    case (Inr z)
    let ?f = "feasible kScale (e_threshold m) (e_costs m)"
    have "sc_answer (sc_launch config md) (sc_first md) z" using r(2) Inr by simp
    then have z: "s_solution z \<in> set (assignments (e_costs m))" "?f (s_solution z)"
      "s_total z = sum_by w_cost (e_costs m) (s_solution z)" "s_c12 z = sum_by w_c12 (e_costs m) (s_solution z)"
      "?f (cheapest_assignment (e_costs m)) \<longrightarrow> s_total z \<le> sum_by w_cost (e_costs m) (cheapest_assignment (e_costs m))"
      unfolding sc_answer_def by (auto simp: sc_launch_def m(2,3) first)
    have "optimize_plain matrix threshold = solve m" by (simp add: optimize_plain_def m(1))
    with solve_result [OF encode_model_ok(1) [OF m(1) assms(2)]] z(1,2) obtain opt where opt: "optimize_plain matrix threshold = Inr opt"
      "optimal kScale (e_threshold m) (e_costs m) (r_solution opt)" "r_total_cost opt = sum_by w_cost (e_costs m) (r_solution opt)"
      by (auto split: sum.splits)
    then have "ckey (e_costs m) (r_solution opt) \<le> ckey (e_costs m) (s_solution z)" using z by (simp add: optimal_def)
    then have le: "r_total_cost opt \<le> s_total z" by (auto simp: ckey_def opt(3) z(3))
    have "s_total z \<le> r_total_cost opt" if "?f (cheapest_assignment (e_costs m))"
      using z(5) that cheapest_assignment_le [of "r_solution opt" "e_costs m"] opt(2,3) by (simp add: optimal_def)
    with r Inr m z opt le show ?thesis by (auto intro: antisym)
  qed
qed

text \<open>C21: The convergence record of the plain genetic optimizer never rises. A returned result has one
  entry for the first population and one for each generation; from the first feasible individual on there is a cost, it
  does not grow from one generation to the next, the last one is the cost of the result, and it is the entry of the
  generation that the result names. The counters of the repairs add up, so the reported rates are at most one.\<close>

theorem scalable_convergence:
  assumes "scalable_optimizer config = Inr config" "\<forall>es\<in>set matrix. length es = 3"
    and "scalable_optimize config matrix threshold = Some (Inr z)"
  shows "length (s_convergence z) = sg_generations config + 1 \<and>
    (\<forall>g < sg_generations config. \<forall>c. s_convergence z ! g = Some c \<longrightarrow> (\<exists>c'. s_convergence z ! Suc g = Some c' \<and> c' \<le> c)) \<and>
    last (s_convergence z) = Some (s_total z) \<and>
    s_generation z \<le> sg_generations config \<and> s_convergence z ! s_generation z = Some (s_total z) \<and>
    s_pre_repair_feasible z + s_repair_attempts z = s_candidates z \<and> s_repair_successes z \<le> s_repair_attempts z \<and>
    s_feasible z \<le> sg_population config"
proof -
  obtain md where md: "sc_encode matrix threshold = Inr md"
    using assms(3) by (auto simp: scalable_optimize_def split: sum.splits)
  then have "sc_ok md" by (rule sc_encode_Inr [OF _ assms(2)])
  from scalable_optimize_run [OF assms(1) md this] assms(3)
  have "sc_answer (sc_launch config md) (sc_first md) z" by auto
  then show ?thesis by (simp add: sc_answer_def falls_def sc_launch_def)
qed

text \<open>C24: The greedy repair always returns. On an encoded matrix it turns every assignment into one that is feasible
  exactly if the repair reports success, and that has a row with method 3 if the given one has. It fails only when no
  cost falls to method 3, or when the slack is negative and every change of one row either does not raise it or gives up
  the only method 3.\<close>

theorem repair_outcome:
  assumes "sc_encode matrix threshold = Inr md" "\<forall>es\<in>set matrix. length es = 3"
    and "map Suc (v_genes x) \<in> set (assignments (sc_costs md))"
  shows "\<exists>ok y. sc_repair md penalty x = Some (ok, y) \<and> sc_repaired md (v_genes x) ok (v_genes y)"
proof -
  have "sc_ok md" by (rule sc_encode_Inr [OF assms(1,2)])
  from sc_repair_ok [OF this assms(3)] show ?thesis by blast
qed

section \<open>Instances\<close>

definition sample_ga :: sc_config where
  "sample_ga = \<lparr>sg_population = 4, sg_generations = 3, sg_elitism = 1, sg_tournament_size = 2, sg_crossover_rate = 9 / 10,
     sg_mutation_rate = 1 / 2, sg_penalty_multiplier = 1, sg_seed = 7\<rparr>"

definition sample_ga_model :: sc_model where
  "sample_ga_model = \<lparr>sc_costs = [[Some 1500000, Some 2000000, None], [Some 4000000, None, Some 500000]],
     sc_available = [[0, 1], [0, 2]], sc_threshold = 600000, sc_max_total = 6000000\<rparr>"

lemma sample_ga_config: "scalable_optimizer sample_ga = Inr sample_ga"
  by (simp add: scalable_optimizer_def sample_ga_def)

lemma sample_ga_encode: "sc_encode sample_matrix ''0.6'' = Inr sample_ga_model"
  by code_simp

lemma sample_ga_lengths: "\<forall>es\<in>set sample_matrix. length es = 3"
  by (simp add: sample_matrix_def)

lemma sample_ga_first: "feasible kScale 600000 (e_costs sample_model) (cheapest_assignment (e_costs sample_model))"
  by code_simp

theorem scalable_optimize_sound_witness:
  "\<exists>r. scalable_optimize sample_ga sample_matrix ''0.6'' = Some r \<and>
    (case r of
       Inl e \<Rightarrow> (case encode sample_matrix ''0.6'' of Inl e' \<Rightarrow> e = e'
         | Inr m \<Rightarrow> (\<exists>text. e = OptimizationError NoFeasibleSolution text) \<and>
             \<not> feasible kScale (e_threshold m) (e_costs m) (cheapest_assignment (e_costs m)))
     | Inr z \<Rightarrow> \<exists>opt. optimize_plain sample_matrix ''0.6'' = Inr opt \<and> s_total z = r_total_cost opt)"
proof -
  have "e_threshold sample_model = 600000" by (simp add: sample_model_def)
  with scalable_optimize_sound [OF sample_ga_config sample_ga_lengths, of "''0.6''"] sample_ga_first sample_encode
  show ?thesis by (fastforce split: sum.splits)
qed

theorem scalable_convergence_witness:
  "\<exists>z. scalable_optimize sample_ga sample_matrix ''0.6'' = Some (Inr z) \<and> length (s_convergence z) = 4 \<and>
    last (s_convergence z) = Some (s_total z) \<and> s_pre_repair_feasible z + s_repair_attempts z = s_candidates z"
proof -
  have ok: "sc_ok sample_ga_model" by (rule sc_encode_Inr [OF sample_ga_encode sample_ga_lengths])
  have "sc_feasible sample_ga_model (sc_first sample_ga_model)"
    using sample_ga_first sc_first_cheapest [OF ok] by (simp add: sample_ga_model_def sample_model_def)
  moreover obtain r where "scalable_optimize sample_ga sample_matrix ''0.6'' = Some r"
    "case r of Inl e \<Rightarrow> e = none_found \<and> \<not> sc_feasible sample_ga_model (sc_first sample_ga_model)
     | Inr z \<Rightarrow> sc_answer (sc_launch sample_ga sample_ga_model) (sc_first sample_ga_model) z"
    using scalable_optimize_run [OF sample_ga_config sample_ga_encode ok] by blast
  ultimately obtain z where z: "scalable_optimize sample_ga sample_matrix ''0.6'' = Some (Inr z)" by (cases r) auto
  from scalable_convergence [OF sample_ga_config sample_ga_lengths z] z show ?thesis by (simp add: sample_ga_def)
qed

theorem repair_outcome_witness:
  "\<exists>ok y. sc_repair sample_ga_model 6000001 (sc_new [0, 0]) = Some (ok, y) \<and> sc_repaired sample_ga_model [0, 0] ok (v_genes y)"
proof -
  have "map Suc (v_genes (sc_new [0, 0])) \<in> set (assignments (sc_costs sample_ga_model))"
    by (simp add: sc_new_def sample_ga_model_def)
  from repair_outcome [OF sample_ga_encode sample_ga_lengths this, of 6000001] show ?thesis by (simp add: sc_new_def)
qed

end
