(* ===== verification/LegacyOptimizer.thy ===== *)
theory LegacyOptimizer
  imports ExactSolver EncryptedSearch GeneticPlan
begin

text \<open>
  The two member functions of \<open>Optimizer\<close> (src/optimization.cpp) on top of the OFF runtime.
  \<open>optimize\<close> solves the problem on plain costs and checks the answer on encrypted ones;
  \<open>optimize_encrypted\<close> is the exhaustive search on encrypted costs that came before the branch and bound.
  The experimental protocols are compiled in. \<open>std::stoll\<close> reads a decrypted decimal, which is an integer here.
\<close>

section \<open>Division through the runtime\<close>

text \<open>\<open>soci_secure_div\<close> with buffers of the maximal size, and the wrapper: its first call only
  reports that size.\<close>

definition soci_secure_div :: "key \<Rightarrow> 8 word \<Rightarrow> nat \<Rightarrow> cipher \<Rightarrow> cipher \<Rightarrow> (rng, cipher \<times> cipher) eff" where
  "soci_secure_div k mode maximum a b = bnd (ct mode a) (\<lambda>x. bnd (ct mode b) (\<lambda>y.
     bnd (secure_div_core k x y) (\<lambda>(qc, rc).
     bnd (encct mode qc) (\<lambda>qo. bnd (encct mode rc) (\<lambda>ro.
     if maximum < length qo \<or> maximum < length ro then throw (StdLengthError ''buffer too small'')
     else ret (qo, ro))))))"

definition runtime_secure_div :: "key \<Rightarrow> 8 word \<Rightarrow> nat \<Rightarrow> cipher \<Rightarrow> cipher \<Rightarrow> (rng, cipher \<times> cipher) eff" where
  "runtime_secure_div k mode maximum a b = rt_check (soci_secure_div k mode maximum a b)"

section \<open>The checked optimizer\<close>

definition optimizer_encrypt :: "key \<Rightarrow> 8 word \<Rightarrow> row list \<Rightarrow> (rng, cipher option list list) eff" where
  "optimizer_encrypt k mode costs = mapM (mapM (\<lambda>cost. case cost of
       None \<Rightarrow> ret None
     | Some v \<Rightarrow> bnd (runtime_bytes (soci_encrypt k mode v)) (\<lambda>c. ret (Some c)))) costs"

definition aggregate_row ::
  "key \<Rightarrow> 8 word \<Rightarrow> cipher option list list \<Rightarrow> nat list \<Rightarrow> nat \<Rightarrow> cipher \<times> cipher \<times> cipher \<Rightarrow>
     (rng, cipher \<times> cipher \<times> cipher) eff" where
  "aggregate_row k mode encrypted solution i acc = (case acc of (whole, c12, c3) \<Rightarrow>
     let m = solution ! i - 1; c = the (encrypted ! i ! m) in
     bnd (runtime_bytes (soci_add k mode whole c)) (\<lambda>whole.
     if m < 2 then bnd (runtime_bytes (soci_add k mode c12 c)) (\<lambda>c12. ret (whole, c12, c3))
     else bnd (runtime_bytes (soci_add k mode c3 c)) (\<lambda>c3. ret (whole, c12, c3))))"

text \<open>The handler that lets only the message of a disabled protocol pass.\<close>

fun soci_error :: "exn \<Rightarrow> bool" where
  "soci_error (SociError m) = True"
| "soci_error (OptimizationError s m) = True"
| "soci_error e = False"

definition unless_disabled :: "('s, 'a) eff \<Rightarrow> 'a \<Rightarrow> ('s, 'a) eff" where
  "unless_disabled m a = catch m (\<lambda>e.
     if soci_error e \<and> exn_what e = ''experimental protocol disabled by default'' then ret a else throw e)"

definition decrypt_stoll :: "key \<Rightarrow> 8 word \<Rightarrow> cipher \<Rightarrow> (rng, int) eff" where
  "decrypt_stoll k mode c = bnd (runtime_decrypt k mode c) (\<lambda>v.
     if int64_min \<le> v \<and> v \<le> int64_max then ret v else throw (StdLogicError ''stoll''))"

definition check_ratio_bit :: "key \<Rightarrow> 8 word \<Rightarrow> cipher \<Rightarrow> cipher \<Rightarrow> (rng, bool) eff" where
  "check_ratio_bit k mode lhs rhs = unless_disabled
     (bnd (runtime_bytes (soci_secure_compare k mode rhs lhs)) (\<lambda>invalid.
      bnd (runtime_decrypt k mode invalid) (\<lambda>v.
      if v \<noteq> 0 then throw (SociError ''encrypted ratio constraint failed'') else ret True))) False"

definition check_division :: "key \<Rightarrow> 8 word \<Rightarrow> nat \<Rightarrow> cipher \<Rightarrow> cipher \<Rightarrow> int \<Rightarrow> int \<Rightarrow> (rng, unit) eff" where
  "check_division k mode maximum c12 whole expected expected_c12 = unless_disabled
     (bnd (runtime_bytes (soci_scalar_mul k mode c12 kScale)) (\<lambda>scaled_numerator.
      bnd (runtime_secure_div k mode maximum scaled_numerator whole) (\<lambda>division.
      bnd (decrypt_stoll k mode (fst division)) (\<lambda>ratio_fixed.
      let expected_ratio = kScale * expected_c12 div expected in
      if \<bar>ratio_fixed - expected_ratio\<bar> > 1 then throw (SociError ''encrypted ratio division verification failed'')
      else ret ())))) ()"

definition check_sums :: "key \<Rightarrow> 8 word \<Rightarrow> bool \<Rightarrow> cipher \<Rightarrow> cipher \<Rightarrow> int \<Rightarrow> (rng, bool) eff" where
  "check_sums k mode securely_compared slack whole expected =
     bnd (if securely_compared then ret False else bnd (decrypt_stoll k mode slack) (\<lambda>v. ret (v < 0))) (\<lambda>failed.
     if failed then ret True else bnd (decrypt_stoll k mode whole) (\<lambda>v. ret (v \<noteq> expected)))"

definition optimizer_check ::
  "key \<Rightarrow> 8 word \<Rightarrow> nat \<Rightarrow> encoded \<Rightarrow> cipher option list list \<Rightarrow> nat list \<Rightarrow> (rng, unit) eff" where
  "optimizer_check k mode maximum m encrypted solution =
     (let cost = (\<lambda>i. the (e_costs m ! i ! (solution ! i - 1)));
          expected = sum_list (map cost [0..<length solution]);
          expected_c12 = sum_list (map cost (filter (\<lambda>i. solution ! i < 3) [0..<length solution])) in
      bnd (runtime_bytes (soci_encrypt k mode 0)) (\<lambda>whole.
      bnd (runtime_bytes (soci_encrypt k mode 0)) (\<lambda>c12.
      bnd (runtime_bytes (soci_encrypt k mode 0)) (\<lambda>c3.
      bnd (foldM (aggregate_row k mode encrypted solution) [0..<length solution] (whole, c12, c3)) (\<lambda>(whole, c12, c3).
      bnd (runtime_bytes (soci_scalar_mul k mode c12 (kScale - e_threshold m))) (\<lambda>lhs.
      bnd (runtime_bytes (soci_scalar_mul k mode c3 (e_threshold m))) (\<lambda>rhs.
      bnd (check_ratio_bit k mode lhs rhs) (\<lambda>securely_compared.
      bnd (runtime_bytes (soci_scalar_mul k mode rhs (- 1))) (\<lambda>negative.
      bnd (runtime_bytes (soci_add k mode lhs negative)) (\<lambda>slack.
      bnd (check_sums k mode securely_compared slack whole expected) (\<lambda>failed.
      if failed then throw (SociError ''encrypted optimization verification failed'')
      else check_division k mode maximum c12 whole expected expected_c12)))))))))))"

definition optimizer_optimize ::
  "key \<Rightarrow> 8 word \<Rightarrow> nat \<Rightarrow> string option list list \<Rightarrow> string \<Rightarrow> (rng, optimization_result) eff" where
  "optimizer_optimize k mode maximum matrix threshold =
     bnd (of_sum (encode matrix threshold)) (\<lambda>m.
     bnd (optimizer_encrypt k mode (e_costs m)) (\<lambda>encrypted.
     bnd (of_sum (solve m)) (\<lambda>result.
     bnd (optimizer_check k mode maximum m encrypted (r_solution result)) (\<lambda>_. ret result))))"

section \<open>The exhaustive search on encrypted costs\<close>

text \<open>The incumbent: cost, its two parts and the choice, one ciphertext per row.\<close>

record legacy_best =
  lb_best :: cipher
  lb_best12 :: cipher
  lb_best3 :: cipher
  lb_choice :: "cipher list"

definition legacy_sums ::
  "'s sops \<Rightarrow> cipher \<Rightarrow> cipher option list list \<Rightarrow> nat list \<Rightarrow> ('s, cipher \<times> cipher \<times> cipher) eff" where
  "legacy_sums ops zero costs choice = foldM (\<lambda>i (whole, c12, c3).
     let v = the (costs ! i ! (choice ! i)) in
     bnd (s_add ops whole v) (\<lambda>whole.
     if choice ! i < 2 then bnd (s_add ops c12 v) (\<lambda>c12. ret (whole, c12, c3))
     else bnd (s_add ops c3 v) (\<lambda>c3. ret (whole, c12, c3)))) [0..<length costs] (zero, zero, zero)"

definition legacy_leaf ::
  "'s sops \<Rightarrow> int \<Rightarrow> cipher \<Rightarrow> cipher \<Rightarrow> cipher option list list \<Rightarrow> nat list \<Rightarrow> legacy_best \<Rightarrow> ('s, legacy_best) eff" where
  "legacy_leaf ops threshold zero one costs choice b =
     bnd (legacy_sums ops zero costs choice) (\<lambda>(whole, c12, c3).
     if 2 \<notin> set choice then ret b else
     bnd (scalarMul ops c12 (kScale - threshold)) (\<lambda>lhs.
     bnd (scalarMul ops c3 threshold) (\<lambda>rhs.
     bnd (greaterThan ops rhs lhs) (\<lambda>violated.
     bnd (scalarMul ops (ciphertext violated) (- 1)) (\<lambda>negative.
     bnd (s_add ops one negative) (\<lambda>feasible.
     bnd (encryptConstant ops kFixedSafe) (\<lambda>sentinel.
     bnd (s_select ops (EncryptedBit feasible) whole sentinel) (\<lambda>effective.
     bnd (greaterThan ops (lb_best b) effective) (\<lambda>better.
     bnd (s_select ops better effective (lb_best b)) (\<lambda>best.
     bnd (s_select ops better c12 (lb_best12 b)) (\<lambda>best12.
     bnd (s_select ops better c3 (lb_best3 b)) (\<lambda>best3.
     bnd (mapM (\<lambda>i. bnd (encryptConstant ops (int (choice ! i + 1))) (\<lambda>c.
            s_select ops better c (lb_choice b ! i))) [0..<length choice]) (\<lambda>best_choice.
     ret \<lparr>lb_best = best, lb_best12 = best12, lb_best3 = best3, lb_choice = best_choice\<rparr>)))))))))))))"

text \<open>\<open>visit\<close>; \<open>choice\<close> holds the rows so far.\<close>

primrec legacy_visit ::
  "'s sops \<Rightarrow> int \<Rightarrow> cipher \<Rightarrow> cipher \<Rightarrow> cipher option list list \<Rightarrow> cipher option list list \<Rightarrow> nat list \<Rightarrow> legacy_best \<Rightarrow>
     ('s, legacy_best) eff" where
  "legacy_visit ops threshold zero one costs [] choice b = legacy_leaf ops threshold zero one costs choice b"
| "legacy_visit ops threshold zero one costs (r # rest) choice b =
     foldM (\<lambda>m b. case r ! m of None \<Rightarrow> ret b
       | Some _ \<Rightarrow> legacy_visit ops threshold zero one costs rest (choice @ [m]) b) [0, 1, 2] b"

definition optimize_encrypted ::
  "'s sops \<Rightarrow> bool \<Rightarrow> cipher option list list \<Rightarrow> string \<Rightarrow> ('s, legacy_best) eff" where
  "optimize_encrypted ops off_mode costs threshold_text =
     (if \<not> off_mode
      then throw (SociError ''legacy Optimizer::optimize_encrypted is restricted to OFF mode; use ThresholdConfidentialRuntime for SIM/HW'')
      else if costs = [] then throw (OptimizationError InvalidArgument ''encrypted cost matrix must not be empty'')
      else bnd (of_sum (parse_fixed_point threshold_text True)) (\<lambda>threshold.
      if list_ex (\<lambda>r. r ! 0 = None \<and> r ! 1 = None \<and> r ! 2 = None) costs
      then throw (OptimizationError NoFeasibleSolution ''each material needs an available method'')
      else bnd (encryptConstant ops 0) (\<lambda>zero. bnd (encryptConstant ops 1) (\<lambda>one.
      bnd (encryptConstant ops kFixedSafe) (\<lambda>sentinel.
      legacy_visit ops threshold zero one costs costs []
        \<lparr>lb_best = sentinel, lb_best12 = zero, lb_best3 = zero, lb_choice = replicate (length costs) zero\<rparr>)))))"

section \<open>The checks succeed\<close>

text \<open>The runtime on values far below its bound.\<close>

lemma off_decrypt_law:
  assumes "off_enc k mode c x" "\<bar>x\<bar> < off_bound"
  shows "yields (off_ready k) E (runtime_decrypt k mode c) (\<lambda>v. v = x)"
proof (rule yields_runtime_decrypt, rule yields_off)
  fix g assume g: "off_ready k g"
  then have k: "good_key k" and room: "compare_room (pk_n (k_pub k)) (2 ^ 128)"
    by (simp_all add: off_ready_def fair_off_def)
  have n: "2 * \<bar>x\<bar> + 2 \<le> pk_n (k_pub k)" by (rule compare_room_small [OF room]) (use assms(2) in simp_all)
  show "yields (off_inv k) no_exn (soci_decrypt k mode c) (\<lambda>v. v = x)"
    unfolding soci_decrypt_def
    by (intro yields_bnd [OF yields_ct [OF assms(1)]]) (auto intro: yields_of_sum decrypt_small [OF k _ n])
qed

lemma decrypt_stoll_ok:
  assumes "off_enc k mode c x" "0 \<le> x" "x < int64_max"
  shows "yields (off_ready k) E (decrypt_stoll k mode c) (\<lambda>v. v = x)"
  unfolding decrypt_stoll_def
  by (rule yields_bnd [OF off_decrypt_law [OF assms(1)]])
     (use assms(2,3) in \<open>auto simp: int64_max_def int64_min_def intro: yields_ret\<close>)

lemma unless_disabled_ok:
  assumes "yields I size_changed m R"
  shows "yields I size_changed (unless_disabled m a) R"
proof (rule yieldsI)
  fix s assume "I s"
  from yieldsD [OF assms this] obtain r s' where "m s = Some (r, s')" "I s'"
    "case r of Inl e \<Rightarrow> size_changed e | Inr a \<Rightarrow> R a" by blast
  then show "\<exists>r s'. unless_disabled m a s = Some (r, s') \<and> I s' \<and> (case r of Inl e \<Rightarrow> size_changed e | Inr a \<Rightarrow> R a)"
    by (cases r) (auto simp: unless_disabled_def eff_simps size_changed_def)
qed

lemma encct_length:
  assumes "off_ready k g" "off_cipher k z x"
  shows "yields I E (encct mode z) (\<lambda>c. off_enc k mode c x \<and> length c \<le> 12 + mag_size (pk_nsq (k_pub k)))"
proof -
  have k: "good_key k" using assms(1) by (simp add: off_ready_def fair_off_def)
  have n: "1 < pk_n (k_pub k)" "pk_nsq (k_pub k) = pk_n (k_pub k) * pk_n (k_pub k)" using good_key_n [OF k] by simp_all
  have z: "0 < z" "z < pk_nsq (k_pub k)" using is_cipher_coprime [OF n(1) assms(2)] n(2) by simp_all
  from off_object [OF k assms(2)] assms(1) obtain p where p: "encode_object 1 mode z = Inr p" "decode_object p 1 mode = Inr z"
    by (auto simp: off_ready_def)
  have "length p = 12 + mag_size z"
    using p(1) z(1) by (auto simp: encode_object_def encode_canonical_ok soci_magic_def export_size_eq split: if_splits)
  with mag_size_mono [of z "pk_nsq (k_pub k)"] z p assms(2) show ?thesis
    unfolding encct_def by (intro yields_of_sum) (auto simp: off_enc_def)
qed

lemma runtime_secure_div_ok:
  assumes "off_enc k mode a x" "off_enc k mode b y" "0 \<le> x" "x < 2 ^ 21 * y" "2 ^ 21 * y \<le> 2 ^ 128"
    and "12 + mag_size (pk_nsq (k_pub k)) \<le> maximum"
  shows "yields (off_ready k) E (runtime_secure_div k mode maximum a b)
    (\<lambda>(qo, ro). off_enc k mode qo (x div y) \<and> off_enc k mode ro (x mod y))"
  unfolding runtime_secure_div_def
proof (rule yields_rt_check, rule yields_off)
  fix g assume g: "off_ready k g"
  then have k: "good_key k" by (simp add: off_ready_def fair_off_def)
  have room: "compare_room (pk_n (k_pub k)) (2 ^ 21 * y)"
    by (rule compare_room_mono [OF _ assms(5)]) (use g in \<open>simp add: off_ready_def\<close>)
  let ?L = "12 + mag_size (pk_nsq (k_pub k))"
  show "yields (off_inv k) no_exn (soci_secure_div k mode maximum a b)
      (\<lambda>(qo, ro). off_enc k mode qo (x div y) \<and> off_enc k mode ro (x mod y))"
    unfolding soci_secure_div_def
    apply (rule yields_bnd [OF yields_ct [OF assms(1)]])
    apply (rule yields_bnd [OF yields_ct [OF assms(2)]])
    subgoal for u v
      apply (rule yields_bnd [OF yields_secure_div_core [OF k _ _ assms(3,4) room]], assumption, assumption)
      subgoal for qr
        apply (cases qr)
        apply simp
        apply (elim conjE)
        apply (rule yields_bnd [OF encct_length [OF g]], assumption)
        apply (rule yields_bnd [OF encct_length [OF g]], assumption)
        using assms(6) by (auto intro: yields_ret)
      done
    done
qed

lemma optimizer_encrypt_ok:
  "yields (off_ready k) size_changed (optimizer_encrypt k mode costs) (\<lambda>es. list_all2 (enc_row (off_enc k mode)) es costs)"
proof -
  have "yields (off_ready k) size_changed (mapM (mapM (\<lambda>cost. case cost of None \<Rightarrow> ret None
      | Some v \<Rightarrow> bnd (runtime_bytes (soci_encrypt k mode v)) (\<lambda>c. ret (Some c)))) costs)
      (list_all2 (\<lambda>r e. list_all2 (\<lambda>v c. rel_option (off_enc k mode) c v) r e) costs)"
    by (rule yields_mapM, rule yields_mapM) (auto intro!: yields_ret yields_bnd [OF off_encrypt_law] split: option.splits)
  then show ?thesis unfolding optimizer_encrypt_def
    by (rule yields_weaken) (auto simp: enc_row_def list_all2_conv_all_nth)
qed

text \<open>The aggregates of the first rows of an assignment.\<close>

definition sums_ok :: "(cipher \<Rightarrow> int \<Rightarrow> bool) \<Rightarrow> row list \<Rightarrow> nat list \<Rightarrow> nat \<Rightarrow> cipher \<times> cipher \<times> cipher \<Rightarrow> bool" where
  "sums_ok enc rows p i acc \<longleftrightarrow> (case acc of (whole, c12, c3) \<Rightarrow> enc whole (sum_by w_cost rows (take i p)) \<and>
     enc c12 (sum_by w_c12 rows (take i p)) \<and> enc c3 (sum_by w_c3 rows (take i p)))"

lemma sums_ok_0: "enc a 0 \<Longrightarrow> enc b 0 \<Longrightarrow> enc c 0 \<Longrightarrow> sums_ok enc rows p 0 (a, b, c)"
  by (cases rows) (simp_all add: sums_ok_def)

lemma sum_by_take_Suc:
  assumes "p \<in> set (assignments rows)" "i < length p"
  shows "sum_by w rows (take (Suc i) p) = sum_by w rows (take i p) + w (p ! i) (the (rows ! i ! (p ! i - 1)))"
  using sum_by_snoc [of "take i p" rows w "p ! i"] assms assignments_length [OF assms(1)]
  by (simp add: take_Suc_conv_app_nth)

lemma enc_row_cost:
  assumes "list_all2 (enc_row enc) costs rows" "\<forall>r\<in>set rows. row_ok r" "p \<in> set (assignments rows)" "i < length p"
  shows "enc (the (costs ! i ! (p ! i - 1))) (the (rows ! i ! (p ! i - 1)))" "p ! i - 1 < 2 \<longleftrightarrow> p ! i < 3"
proof -
  have i: "i < length rows" using assms(3,4) assignments_length by metis
  from assignments_nth [OF assms(3) i] obtain m c where m: "m < 3" "p ! i = Suc m" "rows ! i ! m = Some c" .
  have r: "enc_row enc (costs ! i) (rows ! i)" "row_ok (rows ! i)"
    using assms(1,2) i by (auto simp: list_all2_conv_all_nth)
  from enc_row_nth(1) [OF r m(1)] m(3) obtain e where "costs ! i ! m = Some e" by auto
  with enc_row_nth(2) [OF r m(1) this] m show "enc (the (costs ! i ! (p ! i - 1))) (the (rows ! i ! (p ! i - 1)))"
    "p ! i - 1 < 2 \<longleftrightarrow> p ! i < 3" by auto
qed

lemma aggregate_row_ok:
  assumes "list_all2 (enc_row (off_enc k mode)) costs rows" "\<forall>r\<in>set rows. row_ok r" "p \<in> set (assignments rows)" "i < length p"
    and "sums_ok (off_enc k mode) rows p i acc"
  shows "yields (off_ready k) size_changed (aggregate_row k mode costs p i acc) (sums_ok (off_enc k mode) rows p (Suc i))"
proof -
  obtain whole c12 c3 where acc: "acc = (whole, c12, c3)" by (cases acc)
  note c = enc_row_cost [OF assms(1-4)] and s = sum_by_take_Suc [OF assms(3,4)]
  have e: "off_enc k mode whole (sum_by w_cost rows (take i p))" "off_enc k mode c12 (sum_by w_c12 rows (take i p))"
    "off_enc k mode c3 (sum_by w_c3 rows (take i p))" using assms(5) by (simp_all add: acc sums_ok_def)
  note law = off_add_law [OF _ c(1)]
  show ?thesis unfolding aggregate_row_def acc prod.case Let_def
    apply (rule yields_bnd [OF law [OF e(1)]])
    subgoal for t
      apply (cases "p ! i - 1 < 2"; simp only: if_True if_False simp_thms)
       apply (rule yields_bnd [OF law [OF e(2)]])
       apply (rule yields_ret)
      using e(3) c(2) apply (simp add: sums_ok_def s w_cost_def w_c12_def w_c3_def)
      apply (rule yields_bnd [OF law [OF e(3)]])
      apply (rule yields_ret)
      using e(2) c(2) by (simp add: sums_ok_def s w_cost_def w_c12_def w_c3_def)
    done
qed

text \<open>The sums that the plain side computes.\<close>

lemma expected_sums:
  assumes "p \<in> set (assignments rows)"
  shows "sum_list (map (\<lambda>i. the (rows ! i ! (p ! i - 1))) [0..<length p]) = sum_by w_cost rows p"
    "sum_list (map (\<lambda>i. the (rows ! i ! (p ! i - 1))) (filter (\<lambda>i. p ! i < 3) [0..<length p])) = sum_by w_c12 rows p"
proof -
  have "sum_list (map (\<lambda>i. the (rows ! i ! (p ! i - 1))) [0..<n]) = sum_by w_cost rows (take n p) \<and>
      sum_list (map (\<lambda>i. the (rows ! i ! (p ! i - 1))) (filter (\<lambda>i. p ! i < 3) [0..<n])) = sum_by w_c12 rows (take n p)"
    if "n \<le> length p" for n
    using that
  proof (induction n)
    case 0
    then show ?case by (cases rows) simp_all
  next
    case (Suc n)
    then have "n < length p" by simp
    from sum_by_take_Suc [OF assms this] Suc show ?case by (simp add: w_cost_def w_c12_def)
  qed
  from this [of "length p"] show "sum_list (map (\<lambda>i. the (rows ! i ! (p ! i - 1))) [0..<length p]) = sum_by w_cost rows p"
    "sum_list (map (\<lambda>i. the (rows ! i ! (p ! i - 1))) (filter (\<lambda>i. p ! i < 3) [0..<length p])) = sum_by w_c12 rows p"
    by simp_all
qed

lemma check_ratio_bit_ok:
  assumes "off_enc k mode lhs x" "off_enc k mode rhs y" "y \<le> x" "0 \<le> y" "x < off_bound"
  shows "yields (off_ready k) size_changed (check_ratio_bit k mode lhs rhs) (\<lambda>b. b)"
  unfolding check_ratio_bit_def
proof (rule unless_disabled_ok, rule yields_bnd [OF off_compare_law [OF assms(2,1)]])
  fix c assume "off_enc k mode c (if x < y then 1 else 0)"
  then have "off_enc k mode c 0" using assms(3) by simp
  then show "yields (off_ready k) size_changed (bnd (runtime_decrypt k mode c) (\<lambda>v.
      if v \<noteq> 0 then throw (SociError ''encrypted ratio constraint failed'') else ret True)) (\<lambda>b. b)"
    by (rule yields_bnd [OF off_decrypt_law]) (auto intro: yields_ret)
qed (use assms in simp_all)

lemma check_division_ok:
  assumes "off_enc k mode c12 x" "off_enc k mode whole y" "0 \<le> x" "x \<le> y" "0 < y" "y * kScale \<le> kFixedSafe"
    and "12 + mag_size (pk_nsq (k_pub k)) \<le> maximum"
  shows "yields (off_ready k) size_changed (check_division k mode maximum c12 whole y x) (\<lambda>_. True)"
  unfolding check_division_def
proof (rule unless_disabled_ok, rule yields_bnd [OF off_scalar_mul_law [OF assms(1)]])
  fix n assume n: "off_enc k mode n (kScale * x)"
  have "kScale * x < 2 ^ 21 * y" using assms(4,5) by (simp add: kFixedScale_def)
  moreover have "2 ^ 21 * y \<le> 2 ^ 128" using assms(6) by (simp add: kFixedScale_def kFixedSafe_value)
  moreover have "0 \<le> kScale * x" using assms(3) by (simp add: kFixedScale_def)
  ultimately have div: "yields (off_ready k) size_changed (runtime_secure_div k mode maximum n whole)
      (\<lambda>(qo, ro). off_enc k mode qo (kScale * x div y) \<and> off_enc k mode ro (kScale * x mod y))"
    using assms(7) by (intro runtime_secure_div_ok [OF n assms(2)])
  have q: "0 \<le> kScale * x div y" using assms(3,5) by (simp add: pos_imp_zdiv_nonneg_iff kFixedScale_def)
  have "kScale * x div y \<le> kScale * x" using assms(3,5) by (intro div_le_dividend_int) (simp add: kFixedScale_def)
  then have lt: "kScale * x div y < int64_max" using assms(4,6)
    by (simp add: kFixedScale_def kFixedSafe_value int64_max_def)
  show "yields (off_ready k) size_changed (bnd (runtime_secure_div k mode maximum n whole) (\<lambda>division.
      bnd (decrypt_stoll k mode (fst division)) (\<lambda>ratio_fixed. let expected_ratio = kScale * x div y in
      if \<bar>ratio_fixed - expected_ratio\<bar> > 1 then throw (SociError ''encrypted ratio division verification failed'')
      else ret ()))) (\<lambda>_. True)"
  proof (rule yields_bnd [OF div])
    fix d assume "case d of (qo, ro) \<Rightarrow> off_enc k mode qo (kScale * x div y) \<and> off_enc k mode ro (kScale * x mod y)"
    then have "off_enc k mode (fst d) (kScale * x div y)" by (cases d) simp
    from decrypt_stoll_ok [OF this q lt]
    show "yields (off_ready k) size_changed (bnd (decrypt_stoll k mode (fst d)) (\<lambda>ratio_fixed.
        let expected_ratio = kScale * x div y in
        if \<bar>ratio_fixed - expected_ratio\<bar> > 1 then throw (SociError ''encrypted ratio division verification failed'')
        else ret ())) (\<lambda>_. True)"
      by (rule yields_bnd) (simp add: Let_def yields_ret)
  qed
qed

lemma optimizer_check_ok:
  assumes m: "model_ok m" and p: "p \<in> set (assignments (e_costs m))" "feasible kScale (e_threshold m) (e_costs m) p"
    and es: "list_all2 (enc_row (off_enc k mode)) es (e_costs m)" and mx: "12 + mag_size (pk_nsq (k_pub k)) \<le> maximum"
  shows "yields (off_ready k) size_changed (optimizer_check k mode maximum m es p) (\<lambda>_. True)"
proof -
  let ?rows = "e_costs m" and ?T = "e_threshold m"
  let ?c = "sum_by w_cost ?rows p" and ?a = "sum_by w_c12 ?rows p" and ?b = "sum_by w_c3 ?rows p"
  have rows: "\<forall>r\<in>set ?rows. row_ok r" and T: "0 \<le> ?T" "?T < kScale" using m by (simp_all add: model_ok_def)
  have nn: "0 \<le> ?a" by (rule sum_by_nonneg [OF rows p(1)]) (simp add: w_c12_def)
  have b: "0 < ?b" using p(2) by (simp add: feasible_def)
  have c: "?a + ?b = ?c" by (rule sum_by_c12_c3)
  have cs: "?c * kScale \<le> kFixedSafe" "?c < int64_max" using model_cost_bound [OF m p(1)] by simp_all
  have lin: "?T * ?b \<le> (kScale - ?T) * ?a"
    using p(2) by (simp add: feasible_def sum_by_linear c [symmetric] algebra_simps)
  have up: "(kScale - ?T) * ?a \<le> kScale * ?c" using T nn b c by (intro mult_mono) simp_all
  have "kScale * ?c \<le> kFixedSafe" using cs(1) by (simp only: mult.commute)
  then have "(kScale - ?T) * ?a \<le> kFixedSafe" using up by linarith
  then have lt: "(kScale - ?T) * ?a < off_bound" by (simp add: kFixedSafe_value)
  have agg: "yields (off_ready k) size_changed (foldM (aggregate_row k mode es p) [0..<length p] acc)
      (sums_ok (off_enc k mode) ?rows p (length p))" if "sums_ok (off_enc k mode) ?rows p 0 acc" for acc
    using yields_foldM_indexed [of "sums_ok (off_enc k mode) ?rows p" acc "[0..<length p]" "off_ready k" size_changed
        "aggregate_row k mode es p", OF that] aggregate_row_ok [OF es rows p(1)] by simp
  note enc0 = off_encrypt_law [of k mode 0] and exp = expected_sums [OF p(1)]
  show ?thesis unfolding optimizer_check_def Let_def exp
    apply (rule yields_bnd [OF enc0])
    apply (rule yields_bnd [OF enc0])
    apply (rule yields_bnd [OF enc0])
    apply (rule yields_bnd [OF agg], rule sums_ok_0, assumption+)
    subgoal for t12 t1 t3 acc
      apply (cases acc)
      subgoal premises h for whole c12 c3
      proof -
        have e: "off_enc k mode whole ?c" "off_enc k mode c12 ?a" "off_enc k mode c3 ?b"
          using h by (simp_all add: sums_ok_def)
        show ?thesis unfolding h(5) prod.case
          apply (rule yields_bnd [OF off_scalar_mul_law [OF e(2)]])
          apply (rule yields_bnd [OF off_scalar_mul_law [OF e(3)]])
          subgoal premises g for lhs rhs
            apply (rule yields_bnd [OF check_ratio_bit_ok [OF g lin _ lt]])
            using T(1) b apply simp
            apply (rule yields_bnd [OF off_scalar_mul_law [OF g(2)]])
            apply (rule yields_bnd [OF off_add_law [OF g(1)]], assumption)
            apply (rule yields_bnd [where Q = "\<lambda>failed. \<not> failed"])
             apply (simp add: check_sums_def)
             apply (rule yields_bnd [OF decrypt_stoll_ok [OF e(1) _ cs(2)]])
            using nn b c apply simp
             apply (rule yields_ret, simp)
            apply simp
            apply (rule check_division_ok [OF e(2,1) nn _ _ cs(1) mx])
            using nn b c by simp_all
          done
      qed
      done
    done
qed

text \<open>C15: The checked optimizer over the OFF runtime agrees with the plaintext one. With a ready key and room in the
  buffers for its ciphertexts, \<open>Optimizer::optimize\<close> ends, and unless an output grew three times in a row it
  returns exactly the result, or throws exactly the error, of \<open>optimize_plain\<close>: neither the encrypted
  ratio test nor the comparison of the decrypted total nor the encrypted division ever rejects an answer.\<close>

theorem optimizer_agrees:
  assumes "off_ready k g" "\<forall>es\<in>set matrix. length es = 3" "12 + mag_size (pk_nsq (k_pub k)) \<le> maximum"
  shows "\<exists>r g'. optimizer_optimize k mode maximum matrix threshold g = Some (r, g') \<and> off_ready k g' \<and>
    (r = Inl (SociError ''output size changed repeatedly'') \<or> r = optimize_plain matrix threshold)"
proof (cases "encode matrix threshold")
  case (Inl e)
  with assms(1) show ?thesis by (simp add: optimizer_optimize_def eff_simps optimize_plain_def)
next
  case m: (Inr m)
  have ok: "model_ok m" by (rule encode_model_ok(1) [OF m assms(2)])
  have plain: "optimize_plain matrix threshold = solve m" by (simp add: optimize_plain_def m)
  let ?E = "\<lambda>e. size_changed e \<or> solve m = Inl e"
  have "yields (off_ready k) ?E (optimizer_optimize k mode maximum matrix threshold) (\<lambda>z. solve m = Inr z)"
    unfolding optimizer_optimize_def m
  proof (rule yields_bnd [OF yields_of_sum [OF refl, where R = "\<lambda>x. x = m"]], simp, simp,
      rule yields_bnd [OF yields_weaken_exn [OF optimizer_encrypt_ok]], simp)
    fix es assume es: "list_all2 (enc_row (off_enc k mode)) es (e_costs m)"
    show "yields (off_ready k) ?E (bnd (of_sum (solve m)) (\<lambda>result.
        bnd (optimizer_check k mode maximum m es (r_solution result)) (\<lambda>_. ret result))) (\<lambda>z. solve m = Inr z)"
    proof (cases "solve m")
      case (Inl e)
      then show ?thesis by (simp add: yields_def eff_simps)
    next
      case (Inr z)
      with solve_result [OF ok] have "r_solution z \<in> set (assignments (e_costs m))"
        "feasible kScale (e_threshold m) (e_costs m) (r_solution z)" by (simp_all add: optimal_def)
      from optimizer_check_ok [OF ok this es assms(3)]
      have c: "yields (off_ready k) ?E (optimizer_check k mode maximum m es (r_solution z)) (\<lambda>_. True)"
        by (rule yields_weaken_exn) simp
      show ?thesis
        by (rule yields_bnd [OF yields_of_sum [OF Inr, where R = "\<lambda>x. x = z"]], simp, simp, rule yields_bnd [OF c], rule yields_ret)
          (simp add: Inr)
    qed
  qed
  from yieldsD [OF this assms(1)] show ?thesis unfolding plain size_changed_def by (fastforce split: sum.splits)
qed

theorem optimizer_agrees_witness:
  "\<exists>r g'. optimizer_optimize sample_key 0 1000012 sample_matrix ''0.6'' sample_rng = Some (r, g') \<and>
    (r = Inl (SociError ''output size changed repeatedly'') \<or> r = optimize_plain sample_matrix ''0.6'')"
proof -
  have "\<forall>es\<in>set sample_matrix. length es = 3" by (simp add: sample_matrix_def)
  from optimizer_agrees [OF sample_ready this, of "1000012" 0 "''0.6''"] sample_nsq show ?thesis by auto
qed

section \<open>What the exhaustive search finds\<close>

text \<open>The assignments it admits: method 3 is used somewhere, whatever it costs, and the slack is not negative.\<close>

definition admitted :: "int \<Rightarrow> row list \<Rightarrow> nat list \<Rightarrow> bool" where
  "admitted T rows p \<longleftrightarrow> 3 \<in> set p \<and> 0 \<le> sum_by (w_linear kScale T) rows p"

type_synonym legacy_plain = "int \<times> int \<times> int \<times> nat list"

definition legacy_entry :: "row list \<Rightarrow> nat list \<Rightarrow> legacy_plain" where
  "legacy_entry rows p = (sum_by w_cost rows p, sum_by w_c12 rows p, sum_by w_c3 rows p, p)"

definition legacy_start :: "row list \<Rightarrow> legacy_plain" where
  "legacy_start rows = (kFixedSafe, 0, 0, replicate (length rows) 0)"

definition legacy_keep :: "int \<Rightarrow> row list \<Rightarrow> nat list \<Rightarrow> legacy_plain \<Rightarrow> legacy_plain" where
  "legacy_keep T rows p b = (if admitted T rows p \<and> sum_by w_cost rows p < fst b then legacy_entry rows p else b)"

text \<open>The first of the cheapest admitted assignments.\<close>

definition legacy_best_of :: "int \<Rightarrow> row list \<Rightarrow> nat list set \<Rightarrow> legacy_plain \<Rightarrow> bool" where
  "legacy_best_of T rows seen b \<longleftrightarrow> (b = legacy_start rows \<and> (\<forall>q\<in>seen. \<not> admitted T rows q)) \<or>
     (\<exists>p\<in>seen. b = legacy_entry rows p \<and> admitted T rows p \<and>
        (\<forall>q\<in>seen. admitted T rows q \<longrightarrow> (sum_by w_cost rows p, p) \<le> (sum_by w_cost rows q, q)))"

lemma legacy_keep_best:
  assumes "legacy_best_of T rows seen b" "\<forall>q\<in>seen. q < p" "sum_by w_cost rows p < kFixedSafe"
  shows "legacy_best_of T rows (insert p seen) (legacy_keep T rows p b)"
proof (cases "admitted T rows p \<and> sum_by w_cost rows p < fst b")
  case True
  from assms(1) have "(sum_by w_cost rows p, p) \<le> (sum_by w_cost rows q, q)" if "q \<in> seen" "admitted T rows q" for q
    using that True by (auto simp: legacy_best_of_def legacy_entry_def)
  with True show ?thesis by (auto simp: legacy_keep_def legacy_best_of_def)
next
  case False
  then have k: "legacy_keep T rows p b = b" using False by (simp only: legacy_keep_def if_False)
  from assms(1) consider (none) "b = legacy_start rows" "\<forall>q\<in>seen. \<not> admitted T rows q"
    | (some) s where "s \<in> seen" "b = legacy_entry rows s" "admitted T rows s"
      "\<forall>q\<in>seen. admitted T rows q \<longrightarrow> (sum_by w_cost rows s, s) \<le> (sum_by w_cost rows q, q)"
    by (auto simp: legacy_best_of_def)
  then show ?thesis
  proof cases
    case none
    with False assms(3) have "\<not> admitted T rows p" by (simp add: legacy_start_def)
    with none show ?thesis unfolding k by (simp add: legacy_best_of_def)
  next
    case some
    have "(sum_by w_cost rows s, s) \<le> (sum_by w_cost rows p, p)" if "admitted T rows p"
      using that False some(1,2) assms(2) by (auto simp: legacy_entry_def)
    with some show ?thesis unfolding k legacy_best_of_def by blast
  qed
qed

lemma legacy_keep_fold:
  assumes "sorted_wrt (<) ps" "\<forall>q\<in>seen. \<forall>p\<in>set ps. q < p" "\<forall>p\<in>set ps. sum_by w_cost rows p < kFixedSafe"
    and "legacy_best_of T rows seen b"
  shows "legacy_best_of T rows (seen \<union> set ps) (fold (legacy_keep T rows) ps b)"
  using assms
proof (induction ps arbitrary: seen b)
  case (Cons p ps)
  have "legacy_best_of T rows (insert p seen) (legacy_keep T rows p b)"
    using Cons.prems by (intro legacy_keep_best) simp_all
  from Cons.IH [OF _ _ _ this] Cons.prems show ?case by auto
qed simp

lemma legacy_fold_best:
  assumes "\<forall>p\<in>set (assignments rows). sum_by w_cost rows p < kFixedSafe"
  shows "legacy_best_of T rows (set (assignments rows)) (fold (legacy_keep T rows) (assignments rows) (legacy_start rows))"
  using legacy_keep_fold [OF assignments_sorted, of "{}" rows rows T "legacy_start rows"] assms
  by (simp add: legacy_best_of_def)

text \<open>An encrypted incumbent, and the ranges of its values.\<close>

definition legacy_enc :: "(cipher \<Rightarrow> int \<Rightarrow> bool) \<Rightarrow> legacy_best \<Rightarrow> legacy_plain \<Rightarrow> bool" where
  "legacy_enc enc b v \<longleftrightarrow> (case v of (cost, c12, c3, p) \<Rightarrow> enc (lb_best b) cost \<and> enc (lb_best12 b) c12 \<and> enc (lb_best3 b) c3 \<and>
     list_all2 enc (lb_choice b) (map int p))"

definition legacy_range :: "row list \<Rightarrow> legacy_plain \<Rightarrow> bool" where
  "legacy_range rows v \<longleftrightarrow> (case v of (cost, c12, c3, p) \<Rightarrow> {cost, c12, c3} \<subseteq> {0..kFixedSafe} \<and>
     length p = length rows \<and> (\<forall>q\<in>set p. q \<le> 3))"

definition legacy_problem :: "int \<Rightarrow> row list \<Rightarrow> bool" where
  "legacy_problem T rows \<longleftrightarrow> 0 \<le> T \<and> T < kScale \<and> (\<forall>r\<in>set rows. row_ok r) \<and>
     (\<forall>p\<in>set (assignments rows). sum_by w_cost rows p < kFixedSafe)"

lemma legacy_entry_range:
  assumes "legacy_problem T rows" "p \<in> set (assignments rows)"
  shows "legacy_range rows (legacy_entry rows p)"
    "0 \<le> sum_by w_c12 rows p" "0 \<le> sum_by w_c3 rows p" "sum_by w_c12 rows p + sum_by w_c3 rows p = sum_by w_cost rows p"
    "sum_by w_cost rows p < kFixedSafe"
proof -
  have rows: "\<forall>r\<in>set rows. row_ok r" using assms(1) by (simp add: legacy_problem_def)
  show nn: "0 \<le> sum_by w_c12 rows p" "0 \<le> sum_by w_c3 rows p"
    by (rule sum_by_nonneg [OF rows assms(2)], simp add: w_c12_def w_c3_def)+
  show c: "sum_by w_c12 rows p + sum_by w_c3 rows p = sum_by w_cost rows p" by (rule sum_by_c12_c3)
  show lt: "sum_by w_cost rows p < kFixedSafe" using assms by (simp add: legacy_problem_def)
  have "q \<le> 3" if "q \<in> set p" for q
  proof -
    from that obtain i where i: "i < length p" "p ! i = q" by (auto simp: in_set_conv_nth)
    then have "i < length rows" using assignments_length [OF assms(2)] by simp
    from assignments_nth [OF assms(2) this] obtain m where "m < 3" "p ! i = Suc m" by metis
    with i(2) show ?thesis by simp
  qed
  then show "legacy_range rows (legacy_entry rows p)"
    using nn c lt assignments_length [OF assms(2)] by (auto simp: legacy_range_def legacy_entry_def)
qed

lemma legacy_keep_range:
  "legacy_problem T rows \<Longrightarrow> p \<in> set (assignments rows) \<Longrightarrow> legacy_range rows b \<Longrightarrow> legacy_range rows (legacy_keep T rows p b)"
  by (simp add: legacy_keep_def legacy_entry_range(1))

lemma assignment_choice:
  assumes "p \<in> set (assignments rows)"
  shows "map Suc (map (\<lambda>q. q - 1) p) = p" "2 \<in> set (map (\<lambda>q. q - 1) p) \<longleftrightarrow> 3 \<in> set p"
proof -
  have q: "\<exists>m. q = Suc m" if "q \<in> set p" for q
  proof -
    from that obtain i where "i < length p" "p ! i = q" by (auto simp: in_set_conv_nth)
    with assignments_length [OF assms] assignments_nth [OF assms, of i] show ?thesis by metis
  qed
  then show "map Suc (map (\<lambda>q. q - 1) p) = p" by (induction p) force+
  have "2 = q - 1 \<longleftrightarrow> 3 = q" if "q \<in> set p" for q using q [OF that] by auto
  then show "2 \<in> set (map (\<lambda>q. q - 1) p) \<longleftrightarrow> 3 \<in> set p" by (auto simp: image_iff)
qed

context secure_ops
begin

lemma legacy_sums_ok:
  assumes "list_all2 (enc_row enc) costs rows" "\<forall>r\<in>set rows. row_ok r" "p \<in> set (assignments rows)" "enc zero 0"
  shows "yields inv E (legacy_sums ops zero costs (map (\<lambda>q. q - 1) p)) (sums_ok enc rows p (length p))"
proof -
  have len: "length costs = length p"
    using assms(1) assignments_length [OF assms(3)] by (simp add: list_all2_lengthD)
  have step: "yields inv E ((\<lambda>(whole, c12, c3). let v = the (costs ! i ! (map (\<lambda>q. q - 1) p ! i)) in
      bnd (s_add ops whole v) (\<lambda>whole. if map (\<lambda>q. q - 1) p ! i < 2 then bnd (s_add ops c12 v) (\<lambda>c12. ret (whole, c12, c3))
        else bnd (s_add ops c3 v) (\<lambda>c3. ret (whole, c12, c3)))) acc) (sums_ok enc rows p (Suc i))"
    if i: "i < length p" and acc: "sums_ok enc rows p i acc" for i acc
  proof -
    obtain whole c12 c3 where a: "acc = (whole, c12, c3)" by (cases acc)
    note c = enc_row_cost [OF assms(1-3) i] and s = sum_by_take_Suc [OF assms(3) i]
    have e: "enc whole (sum_by w_cost rows (take i p))" "enc c12 (sum_by w_c12 rows (take i p))"
      "enc c3 (sum_by w_c3 rows (take i p))" using acc by (simp_all add: a sums_ok_def)
    note law = add_law [OF _ c(1)]
    show ?thesis unfolding a prod.case Let_def nth_map [OF i]
      apply (rule yields_bnd [OF law [OF e(1)]])
      subgoal for t
        apply (cases "p ! i - 1 < 2"; simp only: if_True if_False simp_thms)
         apply (rule yields_bnd [OF law [OF e(2)]], rule yields_ret)
        using e(3) c(2) apply (simp add: sums_ok_def s w_cost_def w_c12_def w_c3_def)
        apply (rule yields_bnd [OF law [OF e(3)]], rule yields_ret)
        using e(2) c(2) by (simp add: sums_ok_def s w_cost_def w_c12_def w_c3_def)
      done
  qed
  have "yields inv E (legacy_sums ops zero costs (map (\<lambda>q. q - 1) p)) (sums_ok enc rows p (length [0..<length costs]))"
    unfolding legacy_sums_def
    by (rule yields_foldM_indexed, rule sums_ok_0 [of enc zero zero zero, OF assms(4,4,4)]) (use step len in simp)
  then show ?thesis by (simp only: length_upt len diff_zero)
qed

lemma legacy_leaf_ok:
  assumes es: "list_all2 (enc_row enc) costs rows" and pb: "legacy_problem T rows" and bound: "kScale * kFixedSafe < bound"
    and p: "p \<in> set (assignments rows)" and z: "enc zero 0" "enc one 1"
    and b: "legacy_enc enc b v" "legacy_range rows v"
  shows "yields inv E (legacy_leaf ops T zero one costs (map (\<lambda>q. q - 1) p) b)
    (\<lambda>b. legacy_enc enc b (legacy_keep T rows p v))"
proof -
  let ?g = "map (\<lambda>q. q - 1) p"
  let ?c = "sum_by w_cost rows p" and ?a = "sum_by w_c12 rows p" and ?d = "sum_by w_c3 rows p"
  have rows: "\<forall>r\<in>set rows. row_ok r" and T: "0 \<le> T" "T < kScale" using pb by (simp_all add: legacy_problem_def)
  note r = legacy_entry_range [OF pb p]
  obtain bc b12 b3 bp where v: "v = (bc, b12, b3, bp)" by (cases v)
  have vr: "0 \<le> bc" "bc \<le> kFixedSafe" "0 \<le> b12" "b12 \<le> kFixedSafe" "0 \<le> b3" "b3 \<le> kFixedSafe"
    "length bp = length p" "\<forall>q\<in>set bp. q \<le> 3"
    using b(2) assignments_length [OF p] by (simp_all add: v legacy_range_def)
  have ve: "enc (lb_best b) bc" "enc (lb_best12 b) b12" "enc (lb_best3 b) b3" "list_all2 enc (lb_choice b) (map int bp)"
    using b(1) by (simp_all add: v legacy_enc_def)
  have small: "kFixedSafe < bound" using bound by (simp add: kFixedScale_def kFixedSafe_value)
  have lin: "sum_by (w_linear kScale T) rows p = (kScale - T) * ?a - T * ?d"
    by (simp add: sum_by_linear r(4) [symmetric] algebra_simps)
  have lhs: "0 \<le> (kScale - T) * ?a" "(kScale - T) * ?a \<le> kScale * kFixedSafe" using T r(2-5) by (simp, intro mult_mono) auto
  have rhs: "0 \<le> T * ?d" "T * ?d \<le> kScale * kFixedSafe" using T r(2-5) by (simp, intro mult_mono) auto
  let ?bad = "T * ?d > (kScale - T) * ?a"
  let ?e = "if \<not> ?bad then ?c else kFixedSafe"
  let ?new = "bc > ?e"
  have er: "0 \<le> ?e" "?e \<le> kFixedSafe" using r by auto
  have res: "legacy_enc enc \<lparr>lb_best = x, lb_best12 = x12, lb_best3 = x3, lb_choice = xs\<rparr> (legacy_keep T rows p v)"
    if "3 \<in> set p" "enc x (if ?new then ?e else bc)" "enc x12 (if ?new then ?a else b12)" "enc x3 (if ?new then ?d else b3)"
      "list_all2 (\<lambda>i c. enc c (if ?new then int (p ! i) else int (bp ! i))) [0..<length p] xs" for x x12 x3 xs
  proof -
    have adm: "admitted T rows p \<longleftrightarrow> \<not> ?bad" using that(1) by (auto simp: admitted_def lin)
    have k: "legacy_keep T rows p v = (if ?new then legacy_entry rows p else v)"
      using vr(2) by (auto simp: legacy_keep_def adm v)
    have "list_all2 enc xs (map int (if ?new then p else bp))"
      using that(5) vr(7) by (auto simp: list_all2_conv_all_nth)
    with that(2-4) vr(2) show ?thesis unfolding k by (auto simp: legacy_enc_def legacy_entry_def v split: if_splits)
  qed
  show ?thesis unfolding legacy_leaf_def
    apply (rule yields_bnd [OF legacy_sums_ok [OF es rows p z(1)]])
    subgoal for acc
      apply (cases acc)
      subgoal premises h for whole c12 c3
      proof -
        have e: "enc whole ?c" "enc c12 ?a" "enc c3 ?d" using h by (simp_all add: sums_ok_def)
        show ?thesis
        proof (cases "3 \<in> set p")
          case False
          then have "legacy_keep T rows p v = v" by (simp add: legacy_keep_def admitted_def)
          with False b(1) assignment_choice(2) [OF p] show ?thesis
            unfolding h(2) prod.case by (simp add: yields_ret)
        next
          case True
          then have c3: "(2 \<notin> set ?g) = False" using assignment_choice(2) [OF p] by simp
          show ?thesis unfolding h(2) prod.case c3 if_False
            apply (rule yields_bnd [OF scalarMul_law [OF e(2)]])
            apply (rule yields_bnd [OF scalarMul_law [OF e(3)]])
            subgoal for l r
              apply (rule yields_bnd [OF greaterThan_law [of r l "T * ?d" "(kScale - T) * ?a"]])
              using lhs rhs bound apply (simp add: operands_def)
              subgoal premises g for violated
                apply (rule yields_bnd [OF scalarMul_law [OF g(3) [unfolded enc_bit_def]]])
                apply (rule yields_bnd [OF add_law [OF z(2)]], assumption)
                apply (rule yields_bnd [OF encryptConstant_law])
                subgoal premises f for negative feas sentinel
                proof -
                  have bit: "enc_bit enc (EncryptedBit feas) (\<not> ?bad)" using f(2) by (simp add: enc_bit_def split: if_splits)
                  have d: "\<bar>?c - kFixedSafe\<bar> < bound" "\<bar>?e - bc\<bar> < bound" "\<bar>?a - b12\<bar> < bound" "\<bar>?d - b3\<bar> < bound"
                    using r(2-5) vr small er by linarith+
                  have o: "operands enc bound (lb_best b, x) (bc, ?e)" if "enc x ?e" for x
                    using that ve(1) vr(1,2) er small by (simp add: operands_def)
                  have ch: "yields inv E (bnd (encryptConstant ops (int (?g ! i + 1))) (\<lambda>c. s_select ops better c (lb_choice b ! i)))
                      (\<lambda>c. enc c (if ?new then int (p ! i) else int (bp ! i)))"
                    if "i < length p" "enc_bit enc better ?new" for i better
                  proof -
                    have pi: "int (?g ! i + 1) = int (p ! i)" using assignment_choice(1) [OF p] that(1) by (metis Suc_eq_plus1 length_map nth_map)
                    have "p ! i \<le> 3" using r(1) that(1) by (simp add: legacy_range_def legacy_entry_def)
                    moreover have "bp ! i \<le> 3" using vr(7,8) that(1) by simp
                    ultimately have "\<bar>int (p ! i) - int (bp ! i)\<bar> < bound" using small by (simp add: kFixedSafe_value)
                    moreover have "enc (lb_choice b ! i) (int (bp ! i))" using list_all2_nthD2 [OF ve(4), of i] vr(7) that(1) by simp
                    ultimately show ?thesis unfolding pi
                      by (intro yields_bnd [OF encryptConstant_law] select_ok [OF that(2)])
                  qed
                  show ?thesis
                    apply (rule yields_bnd [OF select_ok [OF bit e(1) f(3) d(1)]])
                    apply (rule yields_bnd [OF greaterThan_law [OF o]], assumption)
                    subgoal premises q for effective better
                      apply (rule yields_bnd [OF select_ok [OF q(2) q(1) ve(1) d(2)]])
                      apply (rule yields_bnd [OF select_ok [OF q(2) e(2) ve(2) d(3)]])
                      apply (rule yields_bnd [OF select_ok [OF q(2) e(3) ve(3) d(4)]])
                      apply (rule yields_bnd [OF yields_mapM [where R = "\<lambda>i c. enc c (if ?new then int (p ! i) else int (bp ! i))"]])
                       apply (rule ch [OF _ q(2)], simp)
                      apply (rule yields_ret)
                      by (rule res [OF True]) simp_all
                    done
                qed
                done
              done
            done
        qed
      qed
      done
    done
qed

end

lemma legacy_fold_range:
  assumes "legacy_problem T rows" "set ps \<subseteq> set (assignments rows)" "legacy_range rows v"
  shows "legacy_range rows (fold (legacy_keep T rows) ps v)"
  using assms(2,3) by (induction ps arbitrary: v) (simp_all add: legacy_keep_range [OF assms(1)])

lemma foldM_fun: "foldM f [] = ret" "foldM f (x # xs) = (\<lambda>b. bnd (f x b) (foldM f xs))"
  by (rule ext, simp)+

lemma choice_snoc: "map (\<lambda>q. q - 1) p @ [m] = map (\<lambda>q. q - 1) (p @ [Suc m])"
  by simp

context secure_ops
begin

lemma legacy_visit_ok:
  assumes es: "list_all2 (enc_row enc) costs rows" and pb: "legacy_problem T rows" and bound: "kScale * kFixedSafe < bound"
    and z: "enc zero 0" "enc one 1"
  shows "list_all2 (enc_row enc) rest rs \<Longrightarrow> rows = rows0 @ rs \<Longrightarrow> p \<in> set (assignments rows0) \<Longrightarrow>
    legacy_enc enc b v \<Longrightarrow> legacy_range rows v \<Longrightarrow>
    yields inv E (legacy_visit ops T zero one costs rest (map (\<lambda>q. q - 1) p) b)
      (\<lambda>b. legacy_enc enc b (fold (legacy_keep T rows) (map ((@) p) (assignments rs)) v))"
proof (induction rest arbitrary: rs rows0 p b v)
  case Nil
  then have "rs = []" "p \<in> set (assignments rows)" by simp_all
  with legacy_leaf_ok [OF es pb bound _ z Nil.prems(4,5)] show ?case by simp
next
  case (Cons r rest)
  then obtain s rs' where rs: "rs = s # rs'" "enc_row enc r s" "list_all2 (enc_row enc) rest rs'"
    by (auto simp: list_all2_Cons1)
  have s: "row_ok s" using pb Cons.prems(2) by (simp add: legacy_problem_def rs(1))
  let ?ps = "\<lambda>m. if s ! m = None then [] else map ((@) (p @ [Suc m])) (assignments rs')"
  let ?f = "\<lambda>m b. case r ! m of None \<Rightarrow> ret b
    | Some _ \<Rightarrow> legacy_visit ops T zero one costs rest (map (\<lambda>q. q - 1) p @ [m]) b"
  have sub: "set (?ps m) \<subseteq> set (assignments rows)" if "m < 3" for m
  proof -
    have "p @ [Suc m] \<in> set (assignments (rows0 @ [s]))" if "s ! m \<noteq> None"
      using assignments_append [OF Cons.prems(3), of "[Suc m]" "[s]"] that \<open>m < 3\<close>
      by (auto simp: assignments_Cons_set simp del: assignments.simps(2))
    moreover have "rows = (rows0 @ [s]) @ rs'" using Cons.prems(2) rs(1) by simp
    ultimately show ?thesis using assignments_append [of "p @ [Suc m]" "rows0 @ [s]" _ rs'] by (auto split: if_splits)
  qed
  have one: "yields inv E (?f m b) (\<lambda>b. legacy_enc enc b (fold (legacy_keep T rows) (?ps m) v))"
    if m: "m < 3" and b: "legacy_enc enc b v" "legacy_range rows v" for m b v
  proof (cases "r ! m")
    case None
    with enc_row_nth(1) [OF rs(2) s m] b show ?thesis by (simp add: yields_ret)
  next
    case (Some e)
    have sm: "s ! m \<noteq> None" using enc_row_nth(1) [OF rs(2) s m] Some by simp
    have p: "p @ [Suc m] \<in> set (assignments (rows0 @ [s]))"
      using assignments_append [OF Cons.prems(3), of "[Suc m]" "[s]"] sm m
      by (auto simp: assignments_Cons_set simp del: assignments.simps(2))
    have "rows = (rows0 @ [s]) @ rs'" using Cons.prems(2) rs(1) by simp
    from Cons.IH [OF rs(3) this p b] show ?thesis unfolding Some option.case choice_snoc if_not_P [OF sm] .
  qed
  have range: "legacy_range rows (fold (legacy_keep T rows) (?ps m) v)" if "m < 3" "legacy_range rows v" for m v
    by (rule legacy_fold_range [OF pb sub [OF that(1)] that(2)])
  have all: "map ((@) p) (assignments rs) = ?ps 0 @ ?ps 1 @ ?ps 2"
    unfolding rs(1) by simp
  have v: "legacy_visit ops T zero one costs (r # rest) (map (\<lambda>q. q - 1) p) b =
      bnd (?f 0 b) (\<lambda>b. bnd (?f 1 b) (\<lambda>b. bnd (?f 2 b) ret))" unfolding legacy_visit.simps foldM_fun ..
  have three: "(0::nat) < 3" "(1::nat) < 3" "(2::nat) < 3" by simp_all
  show ?case unfolding v all fold_append o_apply
    apply (rule yields_bnd [OF one [OF three(1) Cons.prems(4,5)]])
    apply (rule yields_bnd [OF one [OF three(2)]], assumption, rule range [OF three(1) Cons.prems(5)])
    apply (rule yields_bnd [OF one [OF three(3)]], assumption, rule range [OF three(2) range [OF three(1) Cons.prems(5)]])
    by (rule yields_ret)
qed

lemma optimize_encrypted_ok:
  assumes es: "list_all2 (enc_row enc) costs rows" and pb: "legacy_problem T rows" and bound: "kScale * kFixedSafe < bound"
    and t: "parse_fixed_point threshold True = Inr T" and ne: "rows \<noteq> []"
  shows "yields inv E (optimize_encrypted ops True costs threshold)
    (\<lambda>b. \<exists>v. legacy_enc enc b v \<and> legacy_best_of T rows (set (assignments rows)) v)"
proof -
  let ?v = "fold (legacy_keep T rows) (assignments rows) (legacy_start rows)"
  have costs: "costs \<noteq> []" "length costs = length rows" using es ne by (auto simp: list_all2_lengthD)
  have "\<not> list_ex (\<lambda>r. r ! 0 = None \<and> r ! 1 = None \<and> r ! 2 = None) costs"
  proof
    assume "list_ex (\<lambda>r. r ! 0 = None \<and> r ! 1 = None \<and> r ! 2 = None) costs"
    then obtain i where i: "i < length rows" "costs ! i ! 0 = None" "costs ! i ! 1 = None" "costs ! i ! 2 = None"
      using costs(2) by (auto simp: list_ex_length)
    then have e: "enc_row enc (costs ! i) (rows ! i)" "row_ok (rows ! i)"
      using es pb by (auto simp: list_all2_conv_all_nth legacy_problem_def)
    then have "available (rows ! i) = []"
      using i enc_row_nth(1) [OF e, of 0] enc_row_nth(1) [OF e, of 1] enc_row_nth(1) [OF e, of 2] by (simp add: available_def)
    with available_ne [OF e(2)] show False by simp
  qed
  then have run: "optimize_encrypted ops True costs threshold = bnd (encryptConstant ops 0) (\<lambda>zero.
      bnd (encryptConstant ops 1) (\<lambda>one. bnd (encryptConstant ops kFixedSafe) (\<lambda>sentinel.
      legacy_visit ops T zero one costs costs []
        \<lparr>lb_best = sentinel, lb_best12 = zero, lb_best3 = zero, lb_choice = replicate (length costs) zero\<rparr>)))"
    using costs(1) by (simp add: optimize_encrypted_def t of_sum_def bnd_def)
  have "legacy_best_of T rows (set (assignments rows)) ?v" using pb by (intro legacy_fold_best) (simp add: legacy_problem_def)
  moreover have start: "legacy_range rows (legacy_start rows)"
    by (auto simp: legacy_range_def legacy_start_def kFixedSafe_value)
  ultimately show ?thesis unfolding run
    apply (intro yields_bnd [OF encryptConstant_law])
    subgoal premises q for zero one sentinel
    proof -
      have b: "legacy_enc enc \<lparr>lb_best = sentinel, lb_best12 = zero, lb_best3 = zero, lb_choice = replicate (length costs) zero\<rparr>
          (legacy_start rows)"
        using q(3-5) costs(2) by (auto simp: legacy_enc_def legacy_start_def list_all2_conv_all_nth)
      have app: "(@) [] = (\<lambda>x. x :: nat list)" by (rule ext) simp
      have "yields inv E (legacy_visit ops T zero one costs costs (map (\<lambda>q. q - 1) []) \<lparr>lb_best = sentinel,
          lb_best12 = zero, lb_best3 = zero, lb_choice = replicate (length costs) zero\<rparr>)
          (\<lambda>b. legacy_enc enc b (fold (legacy_keep T rows) (map ((@) []) (assignments rows)) (legacy_start rows)))"
        using legacy_visit_ok [OF es pb bound q(3,4) es, of "[]" "[]", OF _ _ b start] by simp
      then show ?thesis unfolding list.map app map_ident by (rule yields_weaken) (use q(1) in blast)
    qed
    done
qed

end

text \<open>The cheapest of the admitted assignments, the lexicographically first of several, or the sentinel.\<close>

definition legacy_found :: "int \<Rightarrow> row list \<Rightarrow> legacy_plain \<Rightarrow> bool" where
  "legacy_found T rows v \<longleftrightarrow> (case v of (cost, c12, c3, p) \<Rightarrow>
     if \<exists>q\<in>set (assignments rows). admitted T rows q
     then p \<in> set (assignments rows) \<and> admitted T rows p \<and> cost = sum_by w_cost rows p \<and> c12 = sum_by w_c12 rows p \<and>
       c3 = sum_by w_c3 rows p \<and> (\<forall>q\<in>set (assignments rows). admitted T rows q \<longrightarrow> (cost, p) \<le> (sum_by w_cost rows q, q))
     else cost = kFixedSafe \<and> c12 = 0 \<and> c3 = 0 \<and> p = replicate (length rows) 0)"

text \<open>C14: The exhaustive search on encrypted costs over the OFF runtime. For encrypted non-negative costs such
  that every assignment costs less than the sentinel, the call ends, and unless an output grew three times in a
  row the result encrypts the cheapest assignment among those that use method 3 somewhere and keep the ratio; if there
  is none it encrypts the sentinel, zeros and no choice. Of several cheapest ones it is the lexicographically first:
  unlike the plain optimizers, and unlike what the requirement document asks for, this search does not prefer the ratio
  nearest to the threshold. A method 3 without cost counts, although the plain optimizers then see no feasible solution.\<close>

theorem optimize_encrypted_search:
  assumes "off_ready k g" "list_all2 (enc_row (off_enc k mode)) costs rows" "rows \<noteq> []" "\<forall>r\<in>set rows. row_ok r"
    and "parse_fixed_point threshold True = Inr T" "\<forall>p\<in>set (assignments rows). sum_by w_cost rows p < kFixedSafe"
  shows "\<exists>r g'. optimize_encrypted (runtime_ops k mode nd) True costs threshold g = Some (r, g') \<and> off_ready k g' \<and>
    (case r of Inl e \<Rightarrow> e = SociError ''output size changed repeatedly''
     | Inr b \<Rightarrow> \<exists>cost c12 c3 p. off_enc k mode (lb_best b) cost \<and> off_enc k mode (lb_best12 b) c12 \<and> off_enc k mode (lb_best3 b) c3 \<and>
         list_all2 (off_enc k mode) (lb_choice b) (map int p) \<and>
         legacy_found T rows (cost, c12, c3, p))"
proof -
  have "0 \<le> T" "T < kScale" using parse_range [OF assms(5)] by simp_all
  then have pb: "legacy_problem T rows" using assms(4,6) by (simp add: legacy_problem_def)
  have "kScale * kFixedSafe < off_bound" by (simp add: kFixedScale_def kFixedSafe_value)
  from off.optimize_encrypted_ok [OF assms(2) pb this assms(5,3), of nd] have
    "yields (off_ready k) size_changed (optimize_encrypted (runtime_ops k mode nd) True costs threshold)
      (\<lambda>b. \<exists>v. legacy_enc (off_enc k mode) b v \<and> legacy_best_of T rows (set (assignments rows)) v)" .
  from yieldsD [OF this assms(1)] obtain r g' where r: "optimize_encrypted (runtime_ops k mode nd) True costs threshold g = Some (r, g')"
    "off_ready k g'" "case r of Inl e \<Rightarrow> size_changed e
      | Inr b \<Rightarrow> \<exists>v. legacy_enc (off_enc k mode) b v \<and> legacy_best_of T rows (set (assignments rows)) v" by blast
  show ?thesis
  proof (intro exI [of _ r] exI [of _ g'] conjI r)
    show "case r of Inl e \<Rightarrow> e = SociError ''output size changed repeatedly''
     | Inr b \<Rightarrow> \<exists>cost c12 c3 p. off_enc k mode (lb_best b) cost \<and> off_enc k mode (lb_best12 b) c12 \<and> off_enc k mode (lb_best3 b) c3 \<and>
         list_all2 (off_enc k mode) (lb_choice b) (map int p) \<and>
         legacy_found T rows (cost, c12, c3, p)"
    proof (cases r)
      case (Inr b)
      with r(3) obtain cost c12 c3 p where v: "legacy_enc (off_enc k mode) b (cost, c12, c3, p)"
        "legacy_best_of T rows (set (assignments rows)) (cost, c12, c3, p)" by auto
      from v(2) have "legacy_found T rows (cost, c12, c3, p)"
        unfolding legacy_best_of_def legacy_start_def legacy_entry_def legacy_found_def by auto
      with v(1) show ?thesis unfolding Inr by (auto simp: legacy_enc_def)
    qed (use r(3) in \<open>simp add: size_changed_def\<close>)
  qed
qed

definition sample_legacy_rows :: "row list" where
  "sample_legacy_rows = [[Some 3, None, Some 2], [Some 1, Some 4, None]]"

lemma sample_threshold: "parse_fixed_point ''0.6'' True = Inr 600000"
  by code_simp

lemma sample_legacy_problem:
  "list_all2 (enc_row (off_enc sample_key 0)) (map (map (map_option sample_object)) sample_legacy_rows) sample_legacy_rows"
  "sample_legacy_rows \<noteq> []" "\<forall>r\<in>set sample_legacy_rows. row_ok r"
  "\<forall>p\<in>set (assignments sample_legacy_rows). sum_by w_cost sample_legacy_rows p < kFixedSafe"
  by (auto simp: sample_legacy_rows_def enc_row_def sample_object row_ok_def w_cost_def kFixedSafe_value)

theorem optimize_encrypted_search_witness:
  "\<exists>r g'. optimize_encrypted (runtime_ops sample_key 0 sample_domain) True
      (map (map (map_option sample_object)) sample_legacy_rows) ''0.6'' sample_rng = Some (r, g') \<and> off_ready sample_key g' \<and>
    (case r of Inl e \<Rightarrow> e = SociError ''output size changed repeatedly''
     | Inr b \<Rightarrow> \<exists>cost c12 c3 p. off_enc sample_key 0 (lb_best b) cost \<and> off_enc sample_key 0 (lb_best12 b) c12 \<and>
         off_enc sample_key 0 (lb_best3 b) c3 \<and> list_all2 (off_enc sample_key 0) (lb_choice b) (map int p) \<and>
         legacy_found 600000 sample_legacy_rows (cost, c12, c3, p))"
  by (rule optimize_encrypted_search [OF sample_ready sample_legacy_problem(1-3) sample_threshold sample_legacy_problem(4)])

end
