(* ===== verification/CsvInput.thy ===== *)
theory CsvInput
  imports LegacyOptimizer
begin

text \<open>
  The CSV input of src/optimization.cpp: \<open>read_csv\<close> on the bytes of the file (\<open>None\<close> when it cannot be
  opened), and the two entry points that read their costs with it. The locale is "C".
\<close>

section \<open>Lines and cells\<close>

primrec split_at :: "char \<Rightarrow> string \<Rightarrow> string list" where
  "split_at d [] = [[]]"
| "split_at d (c # cs) = (if c = d then [] # split_at d cs else (c # hd (split_at d cs)) # tl (split_at d cs))"

text \<open>\<open>std::getline\<close> until it fails: nothing follows the last delimiter if that ends the text.\<close>

definition getlines :: "char \<Rightarrow> string \<Rightarrow> string list" where
  "getlines d text = (let parts = split_at d text in if last parts = [] then butlast parts else parts)"

definition csv_trim :: "string \<Rightarrow> string" where
  "csv_trim s = rev (dropWhile isspace_c (rev (dropWhile isspace_c s)))"

definition tolower_c :: "char \<Rightarrow> char" where
  "tolower_c c = (if 65 \<le> (of_char c :: nat) \<and> (of_char c :: nat) \<le> 90 then char_of ((of_char c :: nat) + 32) else c)"

definition csv_cells :: "string \<Rightarrow> string list" where
  "csv_cells line0 = (let line = (if line0 \<noteq> [] \<and> last line0 = CHR 0x0D then butlast line0 else line0) in
     map csv_trim (getlines (CHR '','') line) @ (if line \<noteq> [] \<and> last line = CHR '','' then [[]] else []))"

definition csv_line ::
  "string \<Rightarrow> string option list list \<times> bool \<Rightarrow> exn + string option list list \<times> bool" where
  "csv_line line acc = (case acc of (matrix, first) \<Rightarrow> let cells = csv_cells line in
     if length cells \<noteq> 4
     then Inl (OptimizationError InvalidArgument ''CSV rows must contain material_id and three costs'')
     else if first \<and> map tolower_c (cells ! 0) = ''material_id'' then Inr (matrix, False)
     else Inr (matrix @ [map (\<lambda>c. if c = [] then None else Some c) (tl cells)], False))"

definition read_csv :: "string option \<Rightarrow> exn + string option list list" where
  "read_csv file = (case file of
     None \<Rightarrow> Inl (OptimizationError InvalidArgument ''cannot open CSV file'')
   | Some text \<Rightarrow> map_sum id fst (sfold csv_line (getlines (CHR 0x0A) text) ([], True)))"

definition optimize_csv_plain :: "string option \<Rightarrow> string \<Rightarrow> exn + optimization_result" where
  "optimize_csv_plain file threshold = sbind (read_csv file) (\<lambda>costs. optimize_plain costs threshold)"

definition optimizer_optimize_csv ::
  "key \<Rightarrow> 8 word \<Rightarrow> nat \<Rightarrow> string option \<Rightarrow> string \<Rightarrow> (rng, optimization_result) eff" where
  "optimizer_optimize_csv k mode maximum file threshold =
     bnd (of_sum (read_csv file)) (\<lambda>costs. optimizer_optimize k mode maximum costs threshold)"

section \<open>What is read\<close>

text \<open>Every row that is read has three entries, as the optimizers need it.\<close>

lemma csv_line_lengths:
  "csv_line line (matrix, first) = Inr (matrix', first') \<Longrightarrow> \<forall>es\<in>set matrix. length es = 3 \<Longrightarrow> \<forall>es\<in>set matrix'. length es = 3"
  by (auto simp: csv_line_def Let_def split: if_splits)

lemma csv_lines_lengths:
  "sfold csv_line lines (matrix, first) = Inr (matrix', first') \<Longrightarrow> \<forall>es\<in>set matrix. length es = 3 \<Longrightarrow>
     \<forall>es\<in>set matrix'. length es = 3"
proof (induction lines arbitrary: matrix first)
  case (Cons line lines)
  then obtain m f where "csv_line line (matrix, first) = Inr (m, f)" "sfold csv_line lines (m, f) = Inr (matrix', first')"
    by (auto simp: sbind_eq_Inr)
  with Cons.IH csv_line_lengths Cons.prems(2) show ?case by blast
qed simp

lemma read_csv_lengths: "read_csv file = Inr matrix \<Longrightarrow> \<forall>es\<in>set matrix. length es = 3"
  by (auto simp: read_csv_def map_sum_def split: option.splits sum.splits dest: csv_lines_lengths)

text \<open>A cell that is printed without delimiters and outer white space is read back.\<close>

definition csv_plain :: "string \<Rightarrow> bool" where
  "csv_plain s \<longleftrightarrow> CHR '','' \<notin> set s \<and> CHR 0x0A \<notin> set s \<and> (s \<noteq> [] \<longrightarrow> \<not> isspace_c (hd s) \<and> \<not> isspace_c (last s))"

definition csv_cell :: "string option \<Rightarrow> string" where
  "csv_cell c = (case c of None \<Rightarrow> [] | Some s \<Rightarrow> s)"

definition csv_row :: "string \<times> string option list \<Rightarrow> string" where
  "csv_row r = fst r @ concat (map (\<lambda>c. CHR '','' # csv_cell c) (snd r)) @ [CHR 0x0A]"

definition csv_headline :: string where
  "csv_headline = ''material_id,method1,method2,method3''"

definition csv_text :: "(string \<times> string option list) list \<Rightarrow> string" where
  "csv_text rows = csv_headline @ [CHR 0x0A] @ concat (map csv_row rows)"

definition csv_row_ok :: "string \<times> string option list \<Rightarrow> bool" where
  "csv_row_ok r \<longleftrightarrow> csv_plain (fst r) \<and> length (snd r) = 3 \<and> (\<forall>s. Some s \<in> set (snd r) \<longrightarrow> s \<noteq> [] \<and> csv_plain s)"

lemma split_at_ne: "split_at d s \<noteq> []"
  by (induction s) auto

lemma split_at_plain: "d \<notin> set s \<Longrightarrow> split_at d s = [s]"
  by (induction s) auto

lemma split_at_append: "d \<notin> set s \<Longrightarrow> split_at d (s @ d # t) = s # split_at d t"
  by (induction s) auto

lemma csv_trim_plain: "csv_plain s \<Longrightarrow> csv_trim s = s"
proof -
  assume s: "csv_plain s"
  then have "dropWhile isspace_c s = s" by (cases s) (auto simp: csv_plain_def)
  moreover have "dropWhile isspace_c (rev s) = rev s" using s by (cases s rule: rev_cases) (auto simp: csv_plain_def)
  ultimately show ?thesis by (simp add: csv_trim_def)
qed

lemma getlines_text:
  assumes "\<forall>l\<in>set ls. d \<notin> set l"
  shows "getlines d (concat (map (\<lambda>l. l @ [d]) ls)) = ls"
proof -
  have "split_at d (concat (map (\<lambda>l. l @ [d]) ls)) = ls @ [[]]"
    using assms by (induction ls) (simp_all add: split_at_append)
  then show ?thesis by (simp add: getlines_def)
qed

definition csv_body :: "string \<times> string option list \<Rightarrow> string" where
  "csv_body r = fst r @ concat (map (\<lambda>c. CHR '','' # csv_cell c) (snd r))"

lemma csv_cells_row:
  assumes "csv_row_ok r"
  shows "csv_cells (csv_body r) = fst r # map csv_cell (snd r)" "CHR 0x0A \<notin> set (csv_body r)"
proof -
  obtain n a b c where r: "r = (n, [a, b, c])" using assms
    by (cases r) (auto simp: csv_row_ok_def length_Suc_conv numeral_3_eq_3)
  have p: "csv_plain n" "csv_plain (csv_cell a)" "csv_plain (csv_cell b)" "csv_plain (csv_cell c)"
    using assms by (auto simp: r csv_row_ok_def csv_cell_def csv_plain_def split: option.splits)
  then have no: "CHR '','' \<notin> set n" "CHR '','' \<notin> set (csv_cell a)" "CHR '','' \<notin> set (csv_cell b)" "CHR '','' \<notin> set (csv_cell c)"
    by (simp_all add: csv_plain_def)
  have body: "csv_body r = n @ CHR '','' # csv_cell a @ CHR '','' # csv_cell b @ CHR '','' # csv_cell c"
    by (simp add: csv_body_def r)
  show "CHR 0x0A \<notin> set (csv_body r)" using p by (auto simp: body csv_plain_def)
  have split: "split_at (CHR '','') (csv_body r) = [n, csv_cell a, csv_cell b, csv_cell c]"
    unfolding body by (simp add: split_at_append split_at_plain no)
  note trim = p [THEN csv_trim_plain]
  show "csv_cells (csv_body r) = fst r # map csv_cell (snd r)"
  proof (cases "csv_cell c = []")
    case True
    then have "last (csv_body r) = CHR '',''" "csv_body r \<noteq> []" by (simp_all add: body)
    with True split trim show ?thesis by (simp add: csv_cells_def Let_def getlines_def r)
  next
    case False
    then have l: "last (csv_body r) = last (csv_cell c)" "csv_body r \<noteq> []" by (simp_all add: body)
    have "last (csv_cell c) \<in> set (csv_cell c)" using False by simp
    then have "last (csv_cell c) \<noteq> CHR '',''" using no(4) by metis
    moreover have "\<not> isspace_c (last (csv_cell c))" using p(4) False by (simp add: csv_plain_def)
    ultimately have "last (csv_body r) \<noteq> CHR 0x0D" "last (csv_body r) \<noteq> CHR '',''" by (auto simp: l isspace_c_def)
    with False split trim show ?thesis by (simp add: csv_cells_def Let_def getlines_def r)
  qed
qed

lemma csv_line_row:
  assumes "csv_row_ok r"
  shows "csv_line (csv_body r) (matrix, False) = Inr (matrix @ [snd r], False)"
proof -
  have "map (\<lambda>c. if c = [] then None else Some c) (map csv_cell (snd r)) = snd r"
    unfolding map_map o_def using assms by (intro map_idI) (auto simp: csv_row_ok_def csv_cell_def split: option.splits)
  moreover have "length (snd r) = 3" using assms by (simp add: csv_row_ok_def)
  ultimately show ?thesis by (simp add: csv_line_def csv_cells_row(1) [OF assms])
qed

lemma csv_line_headline: "csv_line csv_headline ([], True) = Inr ([], False)"
proof -
  let ?r = "(''material_id'', [Some ''method1'', Some ''method2'', Some ''method3''])"
  have "csv_row_ok ?r" by (simp add: csv_row_ok_def csv_plain_def isspace_c_def)
  from csv_cells_row(1) [OF this] have "csv_cells csv_headline = [''material_id'', ''method1'', ''method2'', ''method3'']"
    by (simp add: csv_body_def csv_cell_def csv_headline_def)
  moreover have "map tolower_c ''material_id'' = ''material_id''" by (simp add: tolower_c_def)
  ultimately show ?thesis by (simp add: csv_line_def)
qed

text \<open>C39: A printed CSV file is read back. The file with the header line and one line per material, whose cells hold
  no comma or line break and no white space at their ends and whose missing costs are empty, is read by
  \<open>read_csv\<close> as the table it was printed from.\<close>

theorem csv_roundtrip:
  assumes "\<forall>r\<in>set rows. csv_row_ok r"
  shows "read_csv (Some (csv_text rows)) = Inr (map snd rows)"
proof -
  have rows: "map csv_row rows = map (\<lambda>l. l @ [CHR 0x0A]) (map csv_body rows)" by (simp add: csv_row_def csv_body_def)
  have printed: "csv_text rows = concat (map (\<lambda>l. l @ [CHR 0x0A]) (csv_headline # map csv_body rows))"
    unfolding csv_text_def rows by (simp only: list.map(2) concat.simps append_assoc)
  have "CHR 0x0A \<notin> set (csv_body r)" if "r \<in> set rows" for r
    by (rule csv_cells_row(2)) (use assms that in blast)
  moreover have "CHR 0x0A \<notin> set csv_headline" by (simp add: csv_headline_def)
  ultimately have "\<forall>l\<in>set (csv_headline # map csv_body rows). CHR 0x0A \<notin> set l" by simp
  from getlines_text [OF this] have lines: "getlines (CHR 0x0A) (csv_text rows) = csv_headline # map csv_body rows"
    by (simp only: printed)
  note headline = csv_line_headline
  have "sfold csv_line (map csv_body rows) (m, False) = Inr (m @ map snd rows, False)" for m
    using assms by (induction rows arbitrary: m) (simp_all add: csv_line_row)
  then have "sfold csv_line (csv_headline # map csv_body rows) ([], True) = Inr (map snd rows, False)"
    unfolding sfold.simps headline by simp
  then show ?thesis by (simp only: read_csv_def lines option.case) simp
qed

theorem csv_roundtrip_witness:
  "read_csv (Some (csv_text [(''M1'', [Some ''1.5'', Some ''2'', None]), (''M2'', [Some ''4'', None, Some ''0.5''])])) =
     Inr sample_matrix"
  using csv_roundtrip [of "[(''M1'', [Some ''1.5'', Some ''2'', None]), (''M2'', [Some ''4'', None, Some ''0.5''])]"]
  by (simp add: csv_row_ok_def csv_plain_def isspace_c_def sample_matrix_def)

end
