(* ===== verification/KeyStore.thy ===== *)
theory KeyStore
  imports OffRuntime LegacyOptimizer
begin

text \<open>
  The runtime object of the C API (src/c_api.cpp, src/runtime.cpp, src/internal.hpp) with the files of its
  keys (src/serialization.cpp): the lock around every call with the status it returns, the buffers of the
  caller, and the calls that create, open, rotate and delete keys. The directory of the runtime is a map from
  file names to bytes. SHA-256 is a parameter \<open>sha\<close>; \<open>disk\<close> says what of a temporary file reaches the disk,
  or that it cannot be opened. Pointers are not null, except the caller's buffer and length.
\<close>

section \<open>State\<close>

text \<open>\<open>soci_status_t\<close> and \<open>soci_key_info_t\<close> (include/soci/soci.h). Roles are C enumerators, so integers.\<close>

datatype soci_status =
    SOCI_OK
  | SOCI_INVALID_ARGUMENT
  | SOCI_INVALID_STATE
  | SOCI_NOT_FOUND
  | SOCI_IO_ERROR
  | SOCI_CRYPTO_ERROR
  | SOCI_UNSUPPORTED
  | SOCI_BUFFER_TOO_SMALL
  | SOCI_INTERNAL_ERROR

record key_info =
  struct_version :: nat
  modulus_bits :: "32 word"
  key_version :: "64 word"
  ki_role :: int
  ki_mode :: "8 word"
  key_id :: string

record api_key = key +
  k_info :: key_info

text \<open>\<open>soci_runtime\<close>, with the directory that \<open>root\<close> names.\<close>

record soci_runtime =
  rt_files :: "string \<Rightarrow> bytes option"
  rt_mode :: "8 word"
  rt_error :: string
  rt_key :: "api_key option"
  rt_rng :: rng
  cp_running :: bool
  csp_running :: bool
  rt_closed :: bool

definition SOCI_ROLE_FULL :: int where [simp]: "SOCI_ROLE_FULL = 0"

definition SOCI_MODE_OFF :: "8 word" where [simp]: "SOCI_MODE_OFF = 0"

section \<open>Status of a call\<close>

text \<open>The handlers of \<open>run\<close>, in their order; \<open>length_error\<close> is a \<open>logic_error\<close>.\<close>

fun status_of :: "exn \<Rightarrow> soci_status" where
  "status_of (StdInvalidArgument m) = SOCI_INVALID_ARGUMENT"
| "status_of (StdLogicError m) = SOCI_INVALID_STATE"
| "status_of (StdLengthError m) = SOCI_INVALID_STATE"
| "status_of (FilesystemError m) = SOCI_IO_ERROR"
| "status_of (StdRuntimeError m) = SOCI_CRYPTO_ERROR"
| "status_of (SociError m) = SOCI_CRYPTO_ERROR"
| "status_of (PredicateError m) = SOCI_CRYPTO_ERROR"
| "status_of (OptimizationError s m) = SOCI_CRYPTO_ERROR"

text \<open>
  \<open>run\<close>: the body works on the runtime and on the caller's memory \<open>'m\<close>. It gives the status and what the
  body returns.
\<close>

definition api_run ::
  "(soci_runtime \<times> 'm, 'a) eff \<Rightarrow> soci_runtime \<times> 'm \<Rightarrow> ((soci_status \<times> 'a option) \<times> soci_runtime \<times> 'm) option" where
  "api_run f s =
     (case bnd (guard (\<not> rt_closed (fst s)) (StdLogicError ''runtime closed'')) (\<lambda>_. f) s of
        None \<Rightarrow> None
      | Some (Inr a, r, m) \<Rightarrow> Some ((SOCI_OK, Some a), r\<lparr>rt_error := []\<rparr>, m)
      | Some (Inl e, r, m) \<Rightarrow> Some ((status_of e, None), r\<lparr>rt_error := exn_what e\<rparr>, m))"

text \<open>A call without memory of the caller.\<close>

definition api_call :: "(soci_runtime, unit) eff \<Rightarrow> soci_runtime \<Rightarrow> (soci_status \<times> soci_runtime) option" where
  "api_call f r = map_option (\<lambda>((s, _), r', _). (s, r')) (api_run (zoom fst (\<lambda>u (r, m). (u r, m)) f) (r, ()))"

text \<open>\<open>output\<close> and \<open>bout\<close>. The memory is the caller's length, or a null pointer; \<open>out\<close> says whether there is a
  buffer of that length.\<close>

definition api_output :: "bool \<Rightarrow> bytes \<Rightarrow> (soci_runtime \<times> nat option, bytes) eff" where
  "api_output out v = bnd get_st (\<lambda>(_, n). case n of
     None \<Rightarrow> throw (StdInvalidArgument ''null output length'')
   | Some n \<Rightarrow> bnd (upd_st (\<lambda>(r, _). (r, Some (length v)))) (\<lambda>_.
       if \<not> out \<or> n < length v then throw (StdLengthError ''buffer too small'') else ret v))"

definition bout ::
  "(soci_runtime, bytes) eff \<Rightarrow> bool \<Rightarrow> nat option \<Rightarrow> soci_runtime \<Rightarrow>
     ((soci_status \<times> bytes option \<times> nat option) \<times> soci_runtime) option" where
  "bout f out n r = map_option
     (\<lambda>((s, v), r', n'). ((if rt_error r' = ''buffer too small'' then SOCI_BUFFER_TOO_SMALL else s, v, n'), r'))
     (api_run (bnd (zoom fst (\<lambda>u (r, m). (u r, m)) f) (api_output out)) (r, n))"

text \<open>\<open>need\<close>: the open key and the mode, for the calls that compute with them.\<close>

definition need :: "(soci_runtime, api_key) eff" where
  "need = bnd get_st (\<lambda>r. case rt_key r of None \<Rightarrow> throw (StdLogicError ''no key is open'') | Some k \<Rightarrow> ret k)"

definition with_key :: "(key \<Rightarrow> 8 word \<Rightarrow> (rng, 'a) eff) \<Rightarrow> (soci_runtime, 'a) eff" where
  "with_key g = bnd need (\<lambda>k. bnd get_st (\<lambda>r. zoom rt_rng rt_rng_update (g (key.truncate k) (rt_mode r))))"

text \<open>The two unary operations; the others are in theory OffRuntime.\<close>

definition soci_secure_sign_bit :: "key \<Rightarrow> 8 word \<Rightarrow> cipher \<Rightarrow> (rng, cipher) eff" where
  "soci_secure_sign_bit k mode a = bnd (ct mode a) (\<lambda>x. bnd (soci_plus_sign k x) (encct mode))"

definition soci_secure_abs :: "key \<Rightarrow> 8 word \<Rightarrow> cipher \<Rightarrow> (rng, cipher) eff" where
  "soci_secure_abs k mode a = bnd (ct mode a) (\<lambda>x. bnd (soci_plus_abs k x) (encct mode))"

definition soci_export_public_key :: "key \<Rightarrow> 8 word \<Rightarrow> (rng, bytes) eff" where
  "soci_export_public_key k mode = of_sum (encode_object 2 mode (pk_n (k_pub k)))"

text \<open>\<open>disabled\<close>: what the operations on ciphertexts beyond addition are in a build without the experimental
  protocols.\<close>

definition api_disabled :: "soci_runtime \<Rightarrow> (soci_status \<times> soci_runtime) option" where
  "api_disabled = api_call (throw (StdLogicError ''experimental protocol disabled by default''))"

text \<open>
  The last two calls with buffers. \<open>soci_decrypt\<close> writes the decimal text and a zero byte. \<open>soci_secure_div\<close> has
  two buffers: without them it only reports a size; the memory is the pair of lengths, or a null pointer among them.
\<close>

definition decimal_text :: "int \<Rightarrow> string" where
  "decimal_text v = (if v < 0 then ''-'' else []) @ to_string (nat \<bar>v\<bar>)"

definition chars_bytes :: "string \<Rightarrow> bytes" where
  "chars_bytes s = map (\<lambda>c. of_nat (of_char c)) s"

definition decrypt_text :: "bytes \<Rightarrow> key \<Rightarrow> 8 word \<Rightarrow> (rng, bytes) eff" where
  "decrypt_text p k mode = bnd (soci_decrypt k mode p) (\<lambda>v. ret (chars_bytes (decimal_text v) @ [0]))"

definition secure_div_output ::
  "cipher \<Rightarrow> cipher \<Rightarrow> bool \<Rightarrow> (soci_runtime \<times> (nat \<times> nat) option, cipher \<times> cipher) eff" where
  "secure_div_output a b out = bnd (zoom fst (\<lambda>u (r, m). (u r, m)) need) (\<lambda>k. bnd get_st (\<lambda>(r, n). case n of
     None \<Rightarrow> throw (StdInvalidArgument ''null output length'')
   | Some (ql, rl) \<Rightarrow>
       let maximum = 12 + unat ((2 * modulus_bits (k_info k) + 7) div 8);
           small = bnd (upd_st (\<lambda>(r, _). (r, Some (maximum, maximum)))) (\<lambda>_. throw (StdLengthError ''buffer too small''))
       in if \<not> out then small
       else bnd (zoom fst (\<lambda>u (r, m). (u r, m)) (with_key (\<lambda>k mode.
              bnd (ct mode a) (\<lambda>x. bnd (ct mode b) (\<lambda>y. bnd (secure_div_core k x y) (\<lambda>(qc, rc).
              bnd (encct mode qc) (\<lambda>qo. bnd (encct mode rc) (\<lambda>ro. ret (qo, ro))))))))) (\<lambda>(qo, ro).
            if ql < length qo \<or> rl < length ro then small
            else bnd (upd_st (\<lambda>(r, _). (r, Some (length qo, length ro)))) (\<lambda>_. ret (qo, ro)))))"

definition api_secure_div ::
  "cipher \<Rightarrow> cipher \<Rightarrow> bool \<Rightarrow> (nat \<times> nat) option \<Rightarrow> soci_runtime \<Rightarrow>
     ((soci_status \<times> (cipher \<times> cipher) option \<times> (nat \<times> nat) option) \<times> soci_runtime) option" where
  "api_secure_div a b out n r = map_option
     (\<lambda>((s, v), r', n'). ((if rt_error r' = ''buffer too small'' then SOCI_BUFFER_TOO_SMALL else s, v, n'), r'))
     (api_run (secure_div_output a b out) (r, n))"

section \<open>Key files\<close>

definition valid_id :: "string \<Rightarrow> bool" where
  "valid_id s \<longleftrightarrow> s \<noteq> [] \<and> length s \<le> 64 \<and> list_all (\<lambda>c. isalnum_c c \<or> c = CHR ''-'' \<or> c = CHR ''_'') s"

definition key_file :: "string \<Rightarrow> string" where
  "key_file i = i @ ''.skey''"

definition api_path :: "string \<Rightarrow> exn + string" where
  "api_path i = (if valid_id i then Inr (key_file i) else Inl (StdInvalidArgument ''invalid key id''))"

definition sock_magic :: bytes where
  "sock_magic = [0x53, 0x4F, 0x43, 0x4B]"

text \<open>\<open>mag\<close> of src/serialization.cpp: as many bytes as \<open>mpz_sizeinbase\<close> says, zeros where nothing is exported.\<close>

definition put_mag :: "int \<Rightarrow> bytes" where
  "put_mag z = (let m = mag z @ replicate (mag_size z - length (mag z)) 0 in writeU32 (of_nat (length m)) @ m)"

definition key_blob :: "(bytes \<Rightarrow> bytes) \<Rightarrow> api_key \<Rightarrow> bytes" where
  "key_blob sha k =
     (let i = k_info k;
          o' = appendU64 (sock_magic @ [1, ki_mode i, word_of_int (ki_role i), 0] @ writeU32 (modulus_bits i)) (key_version i) @
            writeU32 (of_nat (length (key_id i))) @ chars_bytes (key_id i) @
            put_mag (pk_n (k_pub k)) @ put_mag (sk_lambda (k_sec k)) @ put_mag (sk_mu (k_sec k))
      in o' @ sha o')"

text \<open>
  \<open>save_off_key\<close>: the bytes go to a temporary file, which then takes the name of the key file. The stream is not
  asked whether it wrote them all.
\<close>

definition save_off_key :: "(bytes \<Rightarrow> bytes) \<Rightarrow> (bytes \<Rightarrow> bytes option) \<Rightarrow> string \<Rightarrow> api_key \<Rightarrow> (soci_runtime, unit) eff" where
  "save_off_key sha disk p k = (case disk (key_blob sha k) of
     None \<Rightarrow> throw (FilesystemError ''cannot set permissions'')
   | Some b \<Rightarrow> upd_st (\<lambda>r. r\<lparr>rt_files := (rt_files r)(p \<mapsto> b)\<rparr>))"

text \<open>\<open>take\<close> in \<open>load_off_key\<close>: \<open>finish\<close> is where the hash begins.\<close>

definition take_mag :: "bytes \<Rightarrow> nat \<Rightarrow> nat \<Rightarrow> exn + int \<times> nat" where
  "take_mag b finish x =
     (if x + 4 > finish then Inl (StdRuntimeError ''truncated key'')
      else let n = unat (readU32 (drop x b)); x = x + 4 in
        if x + n > finish then Inl (StdRuntimeError ''truncated key'')
        else Inr (int (be_val (take n (drop x b))), x + n))"

definition load_blob :: "(bytes \<Rightarrow> bytes) \<Rightarrow> bytes \<Rightarrow> 8 word \<Rightarrow> int \<Rightarrow> exn + api_key" where
  "load_blob sha b mode role =
     (let finish = length b - 32 in
      if length b < 56 \<or> length b > kMaxObject then Inl (StdRuntimeError ''missing/truncated key blob'')
      else if sha (take finish b) \<noteq> drop finish b then Inl (StdRuntimeError ''key blob integrity failure'')
      else if take 4 b \<noteq> sock_magic \<or> b ! 4 \<noteq> 1 \<or> b ! 5 \<noteq> mode \<or> uint (b ! 6) \<noteq> role
      then Inl (StdRuntimeError ''key format/mode/role mismatch'')
      else let il = unat (readU32 (drop 20 b)) in
        if il > 64 \<or> 24 + il > finish then Inl (StdRuntimeError ''bad key id'')
        else sbind (take_mag b finish (24 + il)) (\<lambda>(n, x).
          sbind (take_mag b finish x) (\<lambda>(lam, x).
          sbind (take_mag b finish x) (\<lambda>(mu, x).
          if x \<noteq> finish then Inl (StdRuntimeError ''trailing key data'')
          else Inr \<lparr>k_pub = \<lparr>pk_n = n, pk_nsq = n * n\<rparr>, k_sec = \<lparr>sk_lambda = lam, sk_mu = mu\<rparr>,
                 k_info = \<lparr>struct_version = 1, modulus_bits = readU32 (drop 8 b), key_version = readU64 (drop 12 b),
                   ki_role = role, ki_mode = mode,
                   key_id = map (\<lambda>w. char_of (unat w)) (takeWhile (\<lambda>w. w \<noteq> 0) (take il (drop 24 b)))\<rparr>\<rparr>))))"

text \<open>\<open>load_off_key\<close>: a file that is not there reads as empty.\<close>

definition load_off_key :: "(bytes \<Rightarrow> bytes) \<Rightarrow> string \<Rightarrow> 8 word \<Rightarrow> int \<Rightarrow> (soci_runtime, api_key) eff" where
  "load_off_key sha p mode role = bnd get_st (\<lambda>r.
     of_sum (load_blob sha (case rt_files r p of None \<Rightarrow> [] | Some b \<Rightarrow> b) mode role))"

section \<open>The calls on keys\<close>

text \<open>\<open>keygen\<close> may not return; \<open>pq\<close> are the primes its generator delivers.\<close>

definition api_keygen :: "nat \<Rightarrow> int \<times> (nat \<Rightarrow> int) \<Rightarrow> ('s, key) eff" where
  "api_keygen bits pq s = (case keygen bits (fst pq) (snd pq) of None \<Rightarrow> None | Some k \<Rightarrow> Some (k, s))"

definition soci_create_key ::
  "(bytes \<Rightarrow> bytes) \<Rightarrow> (bytes \<Rightarrow> bytes option) \<Rightarrow> int \<times> (nat \<Rightarrow> int) \<Rightarrow> string \<Rightarrow> 32 word \<Rightarrow> int \<Rightarrow>
     soci_runtime \<Rightarrow> (soci_status \<times> soci_runtime) option" where
  "soci_create_key sha disk pq i bits role = api_call (bnd get_st (\<lambda>r.
     if rt_mode r \<noteq> SOCI_MODE_OFF then throw (StdLogicError ''SGX keygen adapter required'')
     else if role \<noteq> SOCI_ROLE_FULL then throw (StdLogicError ''OFF test backend supports FULL role only'')
     else bnd (api_keygen (unat bits) pq) (\<lambda>k0.
       let k = key.extend k0 \<lparr>k_info = \<lparr>struct_version = 1, modulus_bits = bits, key_version = 1, ki_role = role,
                 ki_mode = rt_mode r, key_id = take 64 i\<rparr>\<rparr> in
       bnd (of_sum (api_path i)) (\<lambda>p. bnd (save_off_key sha disk p k) (\<lambda>_.
       upd_st (\<lambda>r. r\<lparr>rt_key := Some k\<rparr>))))))"

definition soci_open_key :: "(bytes \<Rightarrow> bytes) \<Rightarrow> string \<Rightarrow> int \<Rightarrow> soci_runtime \<Rightarrow> (soci_status \<times> soci_runtime) option" where
  "soci_open_key sha i role = api_call (bnd (of_sum (api_path i)) (\<lambda>p. bnd get_st (\<lambda>r.
     bnd (load_off_key sha p (rt_mode r) role) (\<lambda>k. upd_st (\<lambda>r. r\<lparr>rt_key := Some k\<rparr>)))))"

definition soci_rotate_key ::
  "(bytes \<Rightarrow> bytes) \<Rightarrow> (bytes \<Rightarrow> bytes option) \<Rightarrow> int \<times> (nat \<Rightarrow> int) \<Rightarrow> string \<Rightarrow>
     soci_runtime \<Rightarrow> (soci_status \<times> soci_runtime) option" where
  "soci_rotate_key sha disk pq i = api_call (bnd need (\<lambda>k.
     if key_id (k_info k) \<noteq> i then throw (StdInvalidArgument ''key id mismatch'')
     else bnd (api_keygen (unat (modulus_bits (k_info k))) pq) (\<lambda>k0.
       let k' = key.extend k0 \<lparr>k_info = (k_info k)\<lparr>key_version := key_version (k_info k) + 1\<rparr>\<rparr> in
       bnd (of_sum (api_path i)) (\<lambda>p. bnd (save_off_key sha disk p k') (\<lambda>_.
       upd_st (\<lambda>r. r\<lparr>rt_key := Some k'\<rparr>))))))"

text \<open>\<open>soci_delete_key\<close>: the open key is forgotten even if there is no file.\<close>

definition soci_delete_key :: "string \<Rightarrow> soci_runtime \<Rightarrow> (soci_status \<times> soci_runtime) option" where
  "soci_delete_key i = api_call (bnd (of_sum (api_path i)) (\<lambda>p.
     bnd (upd_st (\<lambda>r. case rt_key r of None \<Rightarrow> r
            | Some k \<Rightarrow> if key_id (k_info k) = i then r\<lparr>rt_key := None\<rparr> else r)) (\<lambda>_.
     bnd get_st (\<lambda>r. if rt_files r p = None then throw (StdInvalidArgument ''key not found'')
       else upd_st (\<lambda>r. r\<lparr>rt_files := (rt_files r)(p := None)\<rparr>)))))"

text \<open>\<open>soci_get_key_info\<close> gives the status and what is written to the caller's structure.\<close>

definition soci_get_key_info :: "bool \<Rightarrow> soci_runtime \<Rightarrow> ((soci_status \<times> key_info option) \<times> soci_runtime) option" where
  "soci_get_key_info out r = map_option (\<lambda>(z, r', _). (z, r'))
     (api_run (zoom fst (\<lambda>u (r, m). (u r, m)) (bnd need (\<lambda>k.
        if \<not> out then throw (StdInvalidArgument ''null key info'') else ret (k_info k)))) (r, ()))"

definition soci_start_cp_service :: "soci_runtime \<Rightarrow> (soci_status \<times> soci_runtime) option" where
  "soci_start_cp_service = api_call (upd_st (\<lambda>r. r\<lparr>cp_running := True\<rparr>))"

definition soci_stop_cp_service :: "soci_runtime \<Rightarrow> (soci_status \<times> soci_runtime) option" where
  "soci_stop_cp_service = api_call (upd_st (\<lambda>r. r\<lparr>cp_running := False\<rparr>))"

definition soci_start_csp_service :: "soci_runtime \<Rightarrow> (soci_status \<times> soci_runtime) option" where
  "soci_start_csp_service = api_call (upd_st (\<lambda>r. r\<lparr>csp_running := True\<rparr>))"

definition soci_stop_csp_service :: "soci_runtime \<Rightarrow> (soci_status \<times> soci_runtime) option" where
  "soci_stop_csp_service = api_call (upd_st (\<lambda>r. r\<lparr>csp_running := False\<rparr>))"

definition soci_health_check :: "soci_runtime \<Rightarrow> (soci_status \<times> soci_runtime) option" where
  "soci_health_check = api_call (ret ())"

text \<open>\<open>soci_runtime_create\<close> on a directory with these files, and \<open>soci_runtime_close\<close>.\<close>

definition runtime_create :: "(string \<Rightarrow> bytes option) \<Rightarrow> 8 word \<Rightarrow> rng \<Rightarrow> soci_runtime" where
  "runtime_create files mode g = \<lparr>rt_files = files, rt_mode = mode, rt_error = [], rt_key = None, rt_rng = g,
     cp_running = False, csp_running = False, rt_closed = False\<rparr>"

definition runtime_close :: "soci_runtime \<Rightarrow> soci_runtime" where
  "runtime_close r = r\<lparr>rt_closed := True, rt_key := None\<rparr>"

section \<open>Reading a key file\<close>

lemma readU64_words: "readU64 (writeU32 (ucast (drop_bit 32 x)) @ writeU32 (ucast x) @ rest) = x"
proof -
  have "readU64 (writeU32 h @ writeU32 l @ rest) = readU64 (writeU32 h @ writeU32 l)" for h l :: "32 word"
    by (simp add: readU64_def readU32_writeU32)
  then show ?thesis using readU64_append [of "[]" x] by (simp add: appendU64_def)
qed

lemma length_put_mag: "length (put_mag z) = 4 + mag_size z"
  using mag_size_pos [of z] by (simp add: put_mag_def mag_def export_size_def)

lemma take_put_mag:
  assumes "0 \<le> z" "mag_size z < 2 ^ 32" "length pre + length (put_mag z) \<le> finish"
  shows "take_mag (pre @ put_mag z @ post) finish (length pre) = Inr (z, length pre + length (put_mag z))"
proof -
  let ?m = "mag z @ replicate (mag_size z - length (mag z)) 0"
  have len: "length ?m = mag_size z" using mag_size_pos [of z] by (simp add: mag_def export_size_def)
  have put: "put_mag z = writeU32 (of_nat (mag_size z)) @ ?m" using len by (simp add: put_mag_def Let_def)
  have size: "unat (readU32 (drop (length pre) (pre @ put_mag z @ post))) = mag_size z"
    using assms(2) by (simp add: put readU32_writeU32 unat_of_nat_32)
  have "drop (length pre + 4) (pre @ put_mag z @ post) = ?m @ post" by (simp add: put)
  then have m: "take (mag_size z) (drop (length pre + 4) (pre @ put_mag z @ post)) = ?m" using len by simp
  have fit: "\<not> length pre + 4 > finish" "\<not> length pre + 4 + mag_size z > finish"
    using assms(3) by (simp_all add: length_put_mag)
  show ?thesis unfolding take_mag_def Let_def size m if_not_P [OF fit(1)] if_not_P [OF fit(2)]
    using assms(1) by (simp add: padded_mag length_put_mag)
qed

lemma chars_bytes_back:
  assumes "list_all (\<lambda>c. (of_char c :: nat) \<noteq> 0) s"
  shows "map (\<lambda>w. char_of (unat w)) (takeWhile (\<lambda>w. w \<noteq> 0) (chars_bytes s)) = s"
proof -
  have w: "unat (of_nat (of_char c) :: 8 word) = of_char c" for c :: char
    by (simp add: unat_of_nat)
  have "(of_nat (of_char c) :: 8 word) \<noteq> 0" if "(of_char c :: nat) \<noteq> 0" for c :: char
    using that w [of c] by (metis unsigned_0)
  then have "takeWhile (\<lambda>w. w \<noteq> 0) (chars_bytes s) = chars_bytes s"
    using assms by (intro takeWhile_eq_all_conv [THEN iffD2]) (auto simp: chars_bytes_def list_all_iff)
  then show ?thesis unfolding chars_bytes_def by (simp only: map_map o_def w char_of_char map_ident)
qed

lemma load_blob_short:
  "length b < 56 \<Longrightarrow> load_blob sha b mode role = Inl (StdRuntimeError ''missing/truncated key blob'')"
  by (simp add: load_blob_def Let_def)

text \<open>What a key must have so that its file gives it back.\<close>

definition key_storable :: "api_key \<Rightarrow> bool" where
  "key_storable k \<longleftrightarrow> struct_version (k_info k) = 1 \<and> 0 \<le> ki_role (k_info k) \<and> ki_role (k_info k) < 256 \<and>
     length (key_id (k_info k)) \<le> 64 \<and> list_all (\<lambda>c. (of_char c :: nat) \<noteq> 0) (key_id (k_info k)) \<and>
     pk_nsq (k_pub k) = pk_n (k_pub k) * pk_n (k_pub k) \<and>
     0 \<le> pk_n (k_pub k) \<and> 0 \<le> sk_lambda (k_sec k) \<and> 0 \<le> sk_mu (k_sec k) \<and>
     mag_size (pk_n (k_pub k)) + mag_size (sk_lambda (k_sec k)) + mag_size (sk_mu (k_sec k)) \<le> 2 ^ 19"

text \<open>The bytes before the integers.\<close>

definition key_head :: "key_info \<Rightarrow> bytes" where
  "key_head i = sock_magic @ [1, ki_mode i, word_of_int (ki_role i), 0] @ writeU32 (modulus_bits i) @
     writeU32 (ucast (drop_bit 32 (key_version i))) @ writeU32 (ucast (key_version i)) @
     writeU32 (of_nat (length (key_id i))) @ chars_bytes (key_id i)"

definition key_body :: "api_key \<Rightarrow> bytes" where
  "key_body k = key_head (k_info k) @ put_mag (pk_n (k_pub k)) @ put_mag (sk_lambda (k_sec k)) @ put_mag (sk_mu (k_sec k))"

lemma key_blob_body: "key_blob sha k = key_body k @ sha (key_body k)"
  by (simp add: key_blob_def key_body_def key_head_def appendU64_def Let_def)

lemma length_chars_bytes [simp]: "length (chars_bytes s) = length s"
  by (simp add: chars_bytes_def)

lemma length_key_head: "length (key_head i) = 24 + length (key_id i)"
  by (simp add: key_head_def sock_magic_def)

lemma key_head_fields:
  assumes "length (key_id i) \<le> 64"
  shows "take 4 (key_head i @ rest) = sock_magic" "(key_head i @ rest) ! 4 = 1" "(key_head i @ rest) ! 5 = ki_mode i"
    "(key_head i @ rest) ! 6 = word_of_int (ki_role i)" "readU32 (drop 8 (key_head i @ rest)) = modulus_bits i"
    "readU64 (drop 12 (key_head i @ rest)) = key_version i"
    "unat (readU32 (drop 20 (key_head i @ rest))) = length (key_id i)"
    "take (length (key_id i)) (drop 24 (key_head i @ rest)) = chars_bytes (key_id i)"
  using assms by (simp_all add: key_head_def sock_magic_def readU32_writeU32 readU64_words unat_of_nat_32)

lemma load_key_blob:
  assumes sha: "\<And>b. length (sha b) = 32" and k: "key_storable k"
  shows "load_blob sha (key_blob sha k) mode role =
    (if mode = ki_mode (k_info k) \<and> role = ki_role (k_info k) then Inr k
     else Inl (StdRuntimeError ''key format/mode/role mismatch''))"
proof -
  let ?i = "k_info k" and ?n = "pk_n (k_pub k)" and ?l = "sk_lambda (k_sec k)" and ?m = "sk_mu (k_sec k)"
  let ?b = "key_blob sha k" and ?h = "key_head (k_info k)"
  have id: "length (key_id ?i) \<le> 64" and nn: "0 \<le> ?n" "0 \<le> ?l" "0 \<le> ?m" "pk_nsq (k_pub k) = ?n * ?n"
    and role: "uint (word_of_int (ki_role ?i) :: 8 word) = ki_role ?i"
    and size: "mag_size ?n + mag_size ?l + mag_size ?m \<le> 2 ^ 19" and one: "struct_version ?i = 1"
    using k by (simp_all add: key_storable_def uint_word_of_int)
  have b: "?b = ?h @ put_mag ?n @ put_mag ?l @ put_mag ?m @ sha (key_body k)"
    by (simp add: key_blob_body key_body_def)
  note f = key_head_fields [OF id, of "put_mag ?n @ put_mag ?l @ put_mag ?m @ sha (key_body k)", folded b]
  have fin: "length ?b - 32 = length (key_body k)" by (simp add: key_blob_body sha)
  have body: "length (key_body k) = 24 + length (key_id ?i) + 12 + mag_size ?n + mag_size ?l + mag_size ?m"
    by (simp add: key_body_def length_key_head length_put_mag)
  then have ok: "\<not> (length ?b < 56 \<or> length ?b > kMaxObject)" using size id mag_size_pos [of ?n]
    by (simp add: key_blob_body sha kMaxObject_def)
  have hash: "\<not> sha (take (length (key_body k)) ?b) \<noteq> drop (length (key_body k)) ?b" by (simp add: key_blob_body)
  have il: "\<not> (length (key_id ?i) > 64 \<or> 24 + length (key_id ?i) > length (key_body k))" using id body by simp
  have t1: "take_mag ?b (length (key_body k)) (24 + length (key_id ?i)) = Inr (?n, length (?h @ put_mag ?n))"
    using take_put_mag [of ?n ?h "length (key_body k)" "put_mag ?l @ put_mag ?m @ sha (key_body k)"] nn size
    by (simp add: b body length_key_head length_put_mag)
  have t2: "take_mag ?b (length (key_body k)) (length (?h @ put_mag ?n)) = Inr (?l, length (?h @ put_mag ?n @ put_mag ?l))"
    using take_put_mag [of ?l "?h @ put_mag ?n" "length (key_body k)" "put_mag ?m @ sha (key_body k)"] nn size
    by (simp add: b body length_key_head length_put_mag)
  have t3: "take_mag ?b (length (key_body k)) (length (?h @ put_mag ?n @ put_mag ?l)) = Inr (?m, length (key_body k))"
    using take_put_mag [of ?m "?h @ put_mag ?n @ put_mag ?l" "length (key_body k)" "sha (key_body k)"] nn size
    by (simp add: b key_body_def length_key_head length_put_mag)
  have chars: "map (\<lambda>w. char_of (unat w)) (takeWhile (\<lambda>w. w \<noteq> 0) (chars_bytes (key_id ?i))) = key_id ?i"
    using k by (intro chars_bytes_back) (simp add: key_storable_def)
  show ?thesis
  proof (cases "mode = ki_mode ?i \<and> role = ki_role ?i")
    case True
    then have m: "\<not> (take 4 ?b \<noteq> sock_magic \<or> ?b ! 4 \<noteq> 1 \<or> ?b ! 5 \<noteq> mode \<or> uint (?b ! 6) \<noteq> role)"
      by (simp add: f role)
    show ?thesis
      unfolding load_blob_def Let_def fin if_not_P [OF ok] if_not_P [OF hash] if_not_P [OF m] f(5-8) if_not_P [OF il] t1
        sbind_simps prod.case t2 t3 chars
      using True nn one by simp
  next
    case False
    then have m: "take 4 ?b \<noteq> sock_magic \<or> ?b ! 4 \<noteq> 1 \<or> ?b ! 5 \<noteq> mode \<or> uint (?b ! 6) \<noteq> role"
      by (auto simp: f role)
    show ?thesis unfolding load_blob_def Let_def fin if_not_P [OF ok] if_not_P [OF hash] if_P [OF m] using False by simp
  qed
qed

section \<open>Keys that are generated\<close>

text \<open>What \<open>mpz_nextprime\<close> and the loop around it deliver.\<close>

definition good_primes :: "nat \<Rightarrow> int \<times> (nat \<Rightarrow> int) \<Rightarrow> bool" where
  "good_primes bits pq \<longleftrightarrow> prime_int (fst pq) \<and> fst pq < 2 ^ (bits div 2) \<and>
     (\<forall>i. prime_int (snd pq i) \<and> snd pq i < 2 ^ (bits div 2))"

lemma keygen_fits:
  assumes "keygen bits (fst pq) (snd pq) = Some (Inr k)" "good_primes bits pq"
  shows "good_key k" "pk_n (k_pub k) < 2 ^ 8192" "0 \<le> sk_lambda (k_sec k)" "sk_lambda (k_sec k) < pk_n (k_pub k)"
    "0 \<le> sk_mu (k_sec k)" "sk_mu (k_sec k) < pk_n (k_pub k)" "3072 \<le> bits" "bits \<le> 8192"
proof -
  let ?p = "fst pq"
  obtain q where q: "first_other ?p (snd pq) 0 = Some q" "keygen_primes ?p q = Inr k"
    and bits: "3072 \<le> bits" "bits \<le> 8192" "even bits"
    using assms(1) by (auto simp: keygen_def split: if_splits option.splits)
  then have "q \<noteq> ?p \<and> prime_int q \<and> q < 2 ^ (bits div 2)"
    using first_other_prime [OF q(1)] assms(2) by (auto simp: good_primes_def)
  then have pr: "prime_int ?p" "prime_int q" "?p \<noteq> q" "?p < 2 ^ (bits div 2)" "q < 2 ^ (bits div 2)"
    using assms(2) by (auto simp: good_primes_def)
  have g: "good_key k" "pk_n (k_pub k) = ?p * q" using keygen_primes_good [OF pr(1-3) q(2)] by simp_all
  have gt: "1 < ?p" "1 < q" using pr prime_int_gt_1 by blast+
  have half: "bits div 2 + bits div 2 = bits" using bits(3) by presburger
  have "?p * q < 2 ^ (bits div 2) * 2 ^ (bits div 2)" using pr gt by (intro mult_strict_mono) simp_all
  also have "\<dots> = (2::int) ^ (bits div 2 + bits div 2)" by (simp only: power_add)
  also have "\<dots> = 2 ^ bits" by (simp only: half)
  also have "\<dots> \<le> 2 ^ 8192" using bits by (intro power_increasing) simp_all
  finally show "pk_n (k_pub k) < 2 ^ 8192" by (simp only: g)
  have one: "1 < ?p * q" using gt by (simp add: less_1_mult)
  obtain mu where mu: "minvert ((powm (?p * q + 1) (nat (lcmz (?p - 1) (q - 1))) (?p * q * (?p * q)) - 1) sdiv (?p * q)) (?p * q) = Some mu"
    "k_sec k = \<lparr>sk_lambda = lcmz (?p - 1) (q - 1), sk_mu = mu\<rparr>"
    using q(2) by (auto simp: keygen_primes_def Let_def split: option.splits)
  show "0 \<le> sk_mu (k_sec k)" "sk_mu (k_sec k) < pk_n (k_pub k)"
    using minvert_correct(2,3) [OF mu(1) one] by (simp_all add: mu(2) g)
  have "lcm (?p - 1) (q - 1) dvd (?p - 1) * (q - 1)" by simp
  then have "lcm (?p - 1) (q - 1) \<le> (?p - 1) * (q - 1)" using gt by (intro zdvd_imp_le) simp_all
  also have "\<dots> < ?p * q" using gt by (intro mult_strict_mono) simp_all
  finally show "0 \<le> sk_lambda (k_sec k)" "sk_lambda (k_sec k) < pk_n (k_pub k)"
    by (simp_all add: mu(2) g lcmz_def)
  show "good_key k" "3072 \<le> bits" "bits \<le> 8192" by (fact g(1) bits(1) bits(2))+
qed

section \<open>The key store\<close>

definition key_ok :: "api_key \<Rightarrow> bool" where
  "key_ok k \<longleftrightarrow> key_storable k \<and> good_key (key.truncate k) \<and> valid_id (key_id (k_info k)) \<and>
     ki_role (k_info k) = SOCI_ROLE_FULL \<and> ki_mode (k_info k) = SOCI_MODE_OFF"

definition store_ok :: "(bytes \<Rightarrow> bytes) \<Rightarrow> soci_runtime \<Rightarrow> bool" where
  "store_ok sha r \<longleftrightarrow> \<not> rt_closed r \<and> rt_mode r = SOCI_MODE_OFF \<and> (\<forall>k. rt_key r = Some k \<longrightarrow> key_ok k) \<and>
     (\<forall>f b. rt_files r f = Some b \<longrightarrow> (\<exists>k. key_ok k \<and> f = key_file (key_id (k_info k)) \<and> b = key_blob sha k))"

lemma valid_id_chars: "valid_id i \<Longrightarrow> length i \<le> 64 \<and> list_all (\<lambda>c. (of_char c :: nat) \<noteq> 0) i"
proof -
  assume i: "valid_id i"
  have "(of_char c :: int) \<noteq> 0" if "isalnum_c c \<or> c = CHR ''-'' \<or> c = CHR ''_''" for c
    using that by (auto simp: isalnum_c_def isdigit_c_def)
  moreover have "(of_char c :: nat) = 0 \<Longrightarrow> (of_char c :: int) = 0" for c
    using of_nat_of_char [of c, where 'a = int] by simp
  ultimately show ?thesis using i by (auto simp: valid_id_def list_all_iff)
qed

lemma key_of_extend:
  "k_pub (key.extend k m) = k_pub k" "k_sec (key.extend k m) = k_sec k" "key.truncate (key.extend k m) = k"
  by (simp_all add: key.defs)

lemma keygen_key_ok:
  assumes "keygen bits (fst pq) (snd pq) = Some (Inr k0)" "good_primes bits pq" "valid_id (key_id i)"
    and "struct_version i = 1" "ki_role i = SOCI_ROLE_FULL" "ki_mode i = SOCI_MODE_OFF"
  shows "key_ok (key.extend k0 \<lparr>k_info = i\<rparr>)"
proof -
  note k = keygen_fits [OF assms(1,2)]
  have n: "1 < pk_n (k_pub k0)" "pk_nsq (k_pub k0) = pk_n (k_pub k0) * pk_n (k_pub k0)" by (rule good_key_n [OF k(1)])+
  have "mag_size (pk_n (k_pub k0)) \<le> 1024" using n(1) k(2) by (intro mag_size_bound) simp_all
  moreover have "mag_size (sk_lambda (k_sec k0)) \<le> mag_size (pk_n (k_pub k0))" by (rule mag_size_mono [OF k(3,4)])
  moreover have "mag_size (sk_mu (k_sec k0)) \<le> mag_size (pk_n (k_pub k0))" by (rule mag_size_mono [OF k(5,6)])
  ultimately have "mag_size (pk_n (k_pub k0)) + mag_size (sk_lambda (k_sec k0)) + mag_size (sk_mu (k_sec k0)) \<le> 2 ^ 19"
    by simp
  then show ?thesis
    using assms(3-6) k(1,3,5) n valid_id_chars [OF assms(3)]
    by (simp add: key_ok_def key_storable_def key_of_extend, simp add: key.defs)
qed

section \<open>What the calls do to the runtime\<close>

lemma api_call_open:
  assumes "\<not> rt_closed r"
  shows "api_call f r = (case f r of
     None \<Rightarrow> None
   | Some (Inl e, u) \<Rightarrow> Some (status_of e, u\<lparr>rt_error := exn_what e\<rparr>)
   | Some (Inr _, u) \<Rightarrow> Some (SOCI_OK, u\<lparr>rt_error := []\<rparr>))"
  using assms by (auto simp: api_call_def api_run_def eff_simps split: option.splits sum.splits prod.splits)

lemma with_key_rng: "with_key g r = Some (x, u) \<Longrightarrow> \<exists>h. u = r\<lparr>rt_rng := h\<rparr>"
  by (cases "rt_key r") (auto simp: with_key_def need_def eff_simps split: option.splits prod.splits intro: exI [of _ "rt_rng r"])

text \<open>Calls that only compute leave everything but the generator as it is.\<close>

definition rng_only :: "(soci_runtime \<times> 'm, 'a) eff \<Rightarrow> bool" where
  "rng_only f \<longleftrightarrow> (\<forall>s x u. f s = Some (x, u) \<longrightarrow> (\<exists>h. fst u = (fst s)\<lparr>rt_rng := h\<rparr>))"

lemma rng_onlyI: "(\<And>s x u. f s = Some (x, u) \<Longrightarrow> fst u = fst s) \<Longrightarrow> rng_only f"
  unfolding rng_only_def by (metis soci_runtime.surjective soci_runtime.update_convs(5))

lemma rng_only_basic:
  "rng_only (ret a)" "rng_only (throw e)" "rng_only (upd_st (\<lambda>(r, _). (r, n)))"
  by (auto intro!: rng_onlyI simp: eff_simps)

lemma rng_only_bnd:
  assumes "rng_only f" "\<And>a. rng_only (g a)"
  shows "rng_only (bnd f g)"
  unfolding rng_only_def
proof (intro allI impI)
  fix s x u assume run: "bnd f g s = Some (x, u)"
  then obtain y v where y: "f s = Some (y, v)" by (auto simp: eff_simps split: option.splits)
  with assms(1) obtain h where h: "fst v = (fst s)\<lparr>rt_rng := h\<rparr>" unfolding rng_only_def by blast
  show "\<exists>h. fst u = (fst s)\<lparr>rt_rng := h\<rparr>"
  proof (cases y)
    case (Inl e)
    with run y h show ?thesis by (auto simp: eff_simps)
  next
    case (Inr a)
    with run y have "g a v = Some (x, u)" by (simp add: eff_simps)
    with assms(2) obtain h' where "fst u = (fst v)\<lparr>rt_rng := h'\<rparr>" unfolding rng_only_def by blast
    with h show ?thesis by auto
  qed
qed

lemma rng_only_get: "(\<And>s. rng_only (f s)) \<Longrightarrow> rng_only (bnd get_st f)"
  by (rule rng_only_bnd) (auto intro!: rng_onlyI simp: eff_simps)

lemma rng_only_need: "rng_only (zoom fst (\<lambda>u (r, m). (u r, m)) need)"
  by (rule rng_onlyI) (auto simp: need_def eff_simps split: option.splits)

lemma rng_only_key: "rng_only (zoom fst (\<lambda>u (r, m). (u r, m)) (with_key g))"
  unfolding rng_only_def using with_key_rng [of g] by (fastforce simp: eff_simps split: option.splits)

lemma api_run_rng:
  assumes "rng_only f" "api_run f s = Some (z, s')"
  shows "\<exists>h e. fst s' = (fst s)\<lparr>rt_rng := h, rt_error := e\<rparr>"
proof (cases "rt_closed (fst s)")
  case True
  with assms(2) have "fst s' = (fst s)\<lparr>rt_rng := rt_rng (fst s), rt_error := ''runtime closed''\<rparr>"
    by (auto simp: api_run_def eff_simps split: prod.splits)
  then show ?thesis by blast
next
  case False
  with assms(2) obtain x u where "f s = Some (x, u)" "fst s' = (fst u)\<lparr>rt_error := rt_error (fst s')\<rparr>"
    by (auto simp: api_run_def eff_simps split: option.splits prod.splits sum.splits)
  with assms(1) obtain h where "fst s' = (fst s)\<lparr>rt_rng := h, rt_error := rt_error (fst s')\<rparr>"
    unfolding rng_only_def by fastforce
  then show ?thesis by blast
qed

lemma bout_rng:
  assumes "bout (with_key g) out n r = Some (z, r')"
  shows "\<exists>h e. r' = r\<lparr>rt_rng := h, rt_error := e\<rparr>"
proof -
  let ?f = "bnd (zoom fst (\<lambda>u (r, m). (u r, m)) (with_key g)) (api_output out)"
  from assms obtain z n' where run: "api_run ?f (r, n) = Some (z, r', n')" by (auto simp: bout_def)
  have "rng_only ?f" unfolding api_output_def
    by (intro rng_only_bnd rng_only_key rng_only_get) (auto intro!: rng_only_bnd rng_only_basic split: option.splits prod.splits)
  from api_run_rng [OF this run] show ?thesis by simp
qed

lemma secure_div_rng:
  assumes "api_secure_div a b out n r = Some (z, r')"
  shows "\<exists>h e. r' = r\<lparr>rt_rng := h, rt_error := e\<rparr>"
proof -
  from assms obtain z n' where run: "api_run (secure_div_output a b out) (r, n) = Some (z, r', n')"
    by (auto simp: api_secure_div_def)
  have "rng_only (secure_div_output a b out)" unfolding secure_div_output_def Let_def
    by (intro rng_only_bnd rng_only_need rng_only_get)
      (auto intro!: rng_only_bnd rng_only_basic rng_only_key split: option.splits prod.splits)
  from api_run_rng [OF this run] show ?thesis by simp
qed

section \<open>Runs\<close>

text \<open>One call on the runtime, on a disk that takes what is written to it and with primes from \<open>keygen\<close>.\<close>

inductive api_step :: "(bytes \<Rightarrow> bytes) \<Rightarrow> soci_runtime \<Rightarrow> soci_runtime \<Rightarrow> bool" for sha where
  create: "soci_create_key sha Some pq i bits role r = Some (s, r') \<Longrightarrow> good_primes (unat bits) pq \<Longrightarrow> api_step sha r r'"
| opened: "soci_open_key sha i role r = Some (s, r') \<Longrightarrow> api_step sha r r'"
| rotate: "soci_rotate_key sha Some pq i r = Some (s, r') \<Longrightarrow>
    (\<And>k. rt_key r = Some k \<Longrightarrow> good_primes (unat (modulus_bits (k_info k))) pq) \<Longrightarrow> api_step sha r r'"
| delete: "soci_delete_key i r = Some (s, r') \<Longrightarrow> api_step sha r r'"
| info: "soci_get_key_info out r = Some (z, r') \<Longrightarrow> api_step sha r r'"
| bytes: "bout (with_key g) out n r = Some (z, r') \<Longrightarrow> api_step sha r r'"
| division: "api_secure_div a b out n r = Some (z, r') \<Longrightarrow> api_step sha r r'"
| service: "f \<in> {soci_start_cp_service, soci_stop_cp_service, soci_start_csp_service, soci_stop_csp_service,
    soci_health_check, api_disabled} \<Longrightarrow> f r = Some (s, r') \<Longrightarrow> api_step sha r r'"

lemma store_ok_upd [simp]:
  "store_ok sha (r\<lparr>rt_error := e\<rparr>) = store_ok sha r"
  "store_ok sha (r\<lparr>rt_rng := g\<rparr>) = store_ok sha r"
  "store_ok sha (r\<lparr>cp_running := b\<rparr>) = store_ok sha r"
  "store_ok sha (r\<lparr>csp_running := b\<rparr>) = store_ok sha r"
  by (simp_all add: store_ok_def)

lemma store_ok_file:
  "store_ok sha r \<Longrightarrow> rt_files r f = Some b \<Longrightarrow> \<exists>k. key_ok k \<and> f = key_file (key_id (k_info k)) \<and> b = key_blob sha k"
  by (simp add: store_ok_def)

lemma store_ok_key: "store_ok sha r \<Longrightarrow> (\<And>k. x = Some k \<Longrightarrow> key_ok k) \<Longrightarrow> store_ok sha (r\<lparr>rt_key := x\<rparr>)"
  by (auto simp: store_ok_def)

lemma store_ok_write:
  assumes "store_ok sha r" "key_ok k"
  shows "store_ok sha (r\<lparr>rt_files := (rt_files r)(key_file (key_id (k_info k)) \<mapsto> key_blob sha k), rt_key := Some k\<rparr>)"
  using assms by (auto simp: store_ok_def)

lemma store_ok_remove: "store_ok sha r \<Longrightarrow> store_ok sha (r\<lparr>rt_files := (rt_files r)(p := None)\<rparr>)"
  by (auto simp: store_ok_def)

lemma api_call_store:
  assumes "api_call f r = Some (s, r')" "store_ok sha r" "\<And>x u. f r = Some (x, u) \<Longrightarrow> store_ok sha u"
  shows "store_ok sha r'"
proof -
  have "\<not> rt_closed r" using assms(2) by (simp add: store_ok_def)
  from api_call_open [OF this, of f] assms show ?thesis by (auto split: option.splits prod.splits sum.splits)
qed

lemma key_of_path: "api_path i = Inr p \<Longrightarrow> valid_id i \<and> p = key_file i"
  by (simp add: api_path_def split: if_splits)

lemma create_store:
  assumes "soci_create_key sha Some pq i bits role r = Some (s, r')" "good_primes (unat bits) pq" "store_ok sha r"
  shows "store_ok sha r'"
proof (rule api_call_store [OF assms(1) [unfolded soci_create_key_def] assms(3)], goal_cases)
  case (1 x u)
  show ?case
  proof (cases "role = SOCI_ROLE_FULL \<and> keygen (unat bits) (fst pq) (snd pq) \<noteq> None \<and> valid_id i")
    case False
    with 1 assms(3) show ?thesis
      by (auto simp: eff_simps api_keygen_def api_path_def Let_def split: if_splits option.splits sum.splits)
  next
    case True
    then obtain z where z: "keygen (unat bits) (fst pq) (snd pq) = Some z" by blast
    show ?thesis
    proof (cases z)
      case (Inl e)
      with 1 True z assms(3) show ?thesis by (auto simp: eff_simps api_keygen_def split: if_splits)
    next
      case k0: (Inr k0)
      let ?i = "\<lparr>struct_version = 1, modulus_bits = bits, key_version = 1, ki_role = role, ki_mode = rt_mode r, key_id = i\<rparr>"
      have mode: "rt_mode r = SOCI_MODE_OFF" using assms(3) by (simp add: store_ok_def)
      have "key_ok (key.extend k0 \<lparr>k_info = ?i\<rparr>)"
        using True mode by (intro keygen_key_ok [OF z [unfolded k0] assms(2)]) simp_all
      from store_ok_write [OF assms(3) this] 1 True z k0 mode valid_id_chars [of i] show ?thesis
        by (auto simp: eff_simps api_keygen_def api_path_def save_off_key_def Let_def key.defs)
    qed
  qed
qed

lemma open_store:
  assumes sha: "\<And>b. length (sha b) = 32"
    and run: "soci_open_key sha i role r = Some (s, r')" and ok: "store_ok sha r"
  shows "store_ok sha r'"
proof (rule api_call_store [OF run [unfolded soci_open_key_def] ok], goal_cases)
  case (1 x u)
  show ?case
  proof (cases "valid_id i")
    case False
    with 1 ok show ?thesis by (simp add: eff_simps api_path_def)
  next
    case valid: True
    show ?thesis
    proof (cases "rt_files r (key_file i)")
      case None
      with 1 valid ok show ?thesis by (simp add: eff_simps api_path_def load_off_key_def load_blob_short)
    next
      case (Some b)
      then obtain k where k: "key_ok k" "b = key_blob sha k" using store_ok_file [OF ok] by blast
      then have "load_blob sha b (rt_mode r) role = (if rt_mode r = ki_mode (k_info k) \<and> role = ki_role (k_info k) then Inr k
         else Inl (StdRuntimeError ''key format/mode/role mismatch''))"
        using load_key_blob [OF sha, of k] by (simp add: key_ok_def)
      with 1 valid ok Some k show ?thesis
        by (auto simp: eff_simps api_path_def load_off_key_def split: if_splits intro: store_ok_key)
    qed
  qed
qed

lemma rotate_store:
  assumes "soci_rotate_key sha Some pq i r = Some (s, r')" "store_ok sha r"
    and "\<And>k. rt_key r = Some k \<Longrightarrow> good_primes (unat (modulus_bits (k_info k))) pq"
  shows "store_ok sha r'"
proof (rule api_call_store [OF assms(1) [unfolded soci_rotate_key_def] assms(2)], goal_cases)
  case (1 x u)
  show ?case
  proof (cases "\<exists>k z. rt_key r = Some k \<and> key_id (k_info k) = i \<and> keygen (unat (modulus_bits (k_info k))) (fst pq) (snd pq) = Some z")
    case False
    with 1 assms(2) show ?thesis
      by (auto simp: eff_simps need_def api_keygen_def Let_def split: if_splits option.splits sum.splits)
  next
    case True
    then obtain k z where k: "rt_key r = Some k" "key_id (k_info k) = i"
      and z: "keygen (unat (modulus_bits (k_info k))) (fst pq) (snd pq) = Some z" by blast
    show ?thesis
    proof (cases z)
      case (Inl e)
      with 1 k z assms(2) show ?thesis by (auto simp: eff_simps need_def api_keygen_def split: if_splits)
    next
      case k0: (Inr k0)
      let ?i = "(k_info k)\<lparr>key_version := key_version (k_info k) + 1\<rparr>"
      have old: "key_ok k" using assms(2) k by (simp add: store_ok_def)
      then have i: "valid_id i" using k by (simp add: key_ok_def)
      have "key_ok (key.extend k0 \<lparr>k_info = ?i\<rparr>)"
        using old by (intro keygen_key_ok [OF z [unfolded k0] assms(3) [OF k(1)]]) (simp_all add: key_ok_def key_storable_def)
      from store_ok_write [OF assms(2) this] 1 z k0 k i show ?thesis
        by (auto simp: eff_simps need_def api_keygen_def api_path_def save_off_key_def Let_def key.defs)
    qed
  qed
qed

lemma delete_store:
  assumes "soci_delete_key i r = Some (s, r')" "store_ok sha r"
  shows "store_ok sha r'"
proof (rule api_call_store [OF assms(1) [unfolded soci_delete_key_def] assms(2)], goal_cases)
  case (1 x u)
  let ?r = "case rt_key r of None \<Rightarrow> r | Some k \<Rightarrow> if key_id (k_info k) = i then r\<lparr>rt_key := None\<rparr> else r"
  have "store_ok sha ?r" using assms(2) by (auto split: option.splits intro: store_ok_key)
  with store_ok_remove [OF this, of "key_file i"] 1 assms(2) show ?case
    by (auto simp: eff_simps api_path_def split: if_splits)
qed

lemma api_step_store:
  assumes sha: "\<And>b. length (sha b) = 32" and step: "api_step sha r r'" and ok: "store_ok sha r"
  shows "store_ok sha r'"
  using step
proof cases
  case (info out z)
  have "rng_only (zoom fst (\<lambda>u (r, m::unit). (u r, m)) (bnd need (\<lambda>k.
        if \<not> out then throw (StdInvalidArgument ''null key info'') else ret (k_info k))))"
    by (rule rng_onlyI) (auto simp: need_def eff_simps split: option.splits if_splits)
  from api_run_rng [OF this, of "(r, ())"] info ok show ?thesis by (fastforce simp: soci_get_key_info_def)
next
  case (service f s)
  then have "\<exists>g. f = api_call g \<and> (\<forall>x u. g r = Some (x, u) \<longrightarrow> store_ok sha u)"
    using ok by (auto simp: soci_start_cp_service_def soci_stop_cp_service_def soci_start_csp_service_def
        soci_stop_csp_service_def soci_health_check_def api_disabled_def eff_simps)
  with service api_call_store ok show ?thesis by metis
qed (use ok create_store open_store [OF sha] rotate_store delete_store in \<open>auto dest!: bout_rng secure_div_rng\<close>)

lemma api_steps_store:
  assumes "\<And>b. length (sha b) = 32" "(api_step sha)\<^sup>*\<^sup>* r r'" "store_ok sha r"
  shows "store_ok sha r'"
  using assms(2,3) by (induction rule: rtranclp_induct) (auto intro: api_step_store [OF assms(1)])

text \<open>C22: Every sequence of calls on a runtime over an empty directory, on a disk that takes what is written and
  with primes from key generation, keeps the key store well formed: the open key decrypts what it encrypts, and every
  key file opens, under the full role only, as a working key of its own name. A name without a file does not open
  and leaves the open key alone.\<close>

theorem key_store_typed:
  assumes "\<And>b. length (sha b) = 32" "(api_step sha)\<^sup>*\<^sup>* (runtime_create (\<lambda>_. None) SOCI_MODE_OFF g) r"
  shows "(\<forall>k. rt_key r = Some k \<longrightarrow> good_key (key.truncate k) \<and> valid_id (key_id (k_info k))) \<and>
    (\<forall>i role. valid_id i \<longrightarrow>
       (if role = SOCI_ROLE_FULL \<and> rt_files r (key_file i) \<noteq> None
        then \<exists>k. soci_open_key sha i role r = Some (SOCI_OK, r\<lparr>rt_key := Some k, rt_error := []\<rparr>) \<and>
          good_key (key.truncate k) \<and> key_id (k_info k) = i
        else \<exists>e. soci_open_key sha i role r = Some (SOCI_CRYPTO_ERROR, r\<lparr>rt_error := e\<rparr>)))"
proof -
  have "store_ok sha (runtime_create (\<lambda>_. None) SOCI_MODE_OFF g)" by (simp add: store_ok_def runtime_create_def)
  from api_steps_store [OF assms this] have ok: "store_ok sha r" .
  then have opened: "\<not> rt_closed r" and mode: "rt_mode r = 0" by (simp_all add: store_ok_def)
  have key: "good_key (key.truncate k) \<and> valid_id (key_id (k_info k))" if "rt_key r = Some k" for k
    using that ok by (simp add: store_ok_def key_ok_def)
  have load: "if role = SOCI_ROLE_FULL \<and> rt_files r (key_file i) \<noteq> None
     then \<exists>k. soci_open_key sha i role r = Some (SOCI_OK, r\<lparr>rt_key := Some k, rt_error := []\<rparr>) \<and>
          good_key (key.truncate k) \<and> key_id (k_info k) = i
     else \<exists>e. soci_open_key sha i role r = Some (SOCI_CRYPTO_ERROR, r\<lparr>rt_error := e\<rparr>)" if i: "valid_id i" for i role
  proof (cases "rt_files r (key_file i)")
    case None
    then have "soci_open_key sha i role r = Some (SOCI_CRYPTO_ERROR, r\<lparr>rt_error := ''missing/truncated key blob''\<rparr>)"
      by (simp add: soci_open_key_def api_call_open [OF opened] eff_simps api_path_def i load_off_key_def load_blob_short)
    with None show ?thesis by auto
  next
    case (Some b)
    obtain k where k: "key_ok k" "key_file i = key_file (key_id (k_info k))" "b = key_blob sha k"
      using store_ok_file [OF ok Some] by blast
    then have "load_blob sha b 0 role = (if role = 0 then Inr k else Inl (StdRuntimeError ''key format/mode/role mismatch''))"
      using load_key_blob [OF assms(1), of k] by (simp add: key_ok_def)
    then have run: "soci_open_key sha i role r = Some (if role = 0 then (SOCI_OK, r\<lparr>rt_key := Some k, rt_error := []\<rparr>)
        else (SOCI_CRYPTO_ERROR, r\<lparr>rt_error := ''key format/mode/role mismatch''\<rparr>))"
      by (simp add: soci_open_key_def api_call_open [OF opened] eff_simps api_path_def i load_off_key_def Some mode)
    have "good_key (key.truncate k)" "key_id (k_info k) = i" using k by (simp_all add: key_ok_def key_file_def)
    with run Some show ?thesis by auto
  qed
  show ?thesis using key load by blast
qed

text \<open>The key a rotation makes: the new key with the old key's description and the next version.\<close>

definition rotated_key :: "api_key \<Rightarrow> key \<Rightarrow> api_key" where
  "rotated_key k k0 = key.extend k0 \<lparr>k_info = (k_info k)\<lparr>key_version := key_version (k_info k) + 1\<rparr>\<rparr>"

lemma load_blob_torn:
  assumes "length w < 56 \<or> sha (take (length w - 32) w) \<noteq> drop (length w - 32) w"
  shows "\<exists>e\<in>{''missing/truncated key blob'', ''key blob integrity failure''}.
    load_blob sha w mode role = Inl (StdRuntimeError e)"
  using assms by (auto simp: load_blob_def Let_def)

text \<open>C40: A rotation whose file does not reach the disk as a whole loses the key. For an open key of the
  name, whatever \<open>w\<close> the disk keeps of the new file, if it is shorter than the least key file or its
  checksum does not match, the rotation still reports success; \<open>w\<close> is then in the old file's place,
  and the next call that opens the key, under any role, fails.\<close>

theorem rotate_short_write:
  assumes "\<not> rt_closed r" "rt_key r = Some k" "key_id (k_info k) = i" "valid_id i"
    and "keygen (unat (modulus_bits (k_info k))) (fst pq) (snd pq) = Some (Inr k0)"
    and "disk (key_blob sha (rotated_key k k0)) = Some w"
    and "length w < 56 \<or> sha (take (length w - 32) w) \<noteq> drop (length w - 32) w"
  shows "\<exists>r' r''. soci_rotate_key sha disk pq i r = Some (SOCI_OK, r') \<and>
    rt_files r' (key_file i) = Some w \<and> soci_open_key sha i role r' = Some (SOCI_CRYPTO_ERROR, r'')"
proof -
  let ?r = "r\<lparr>rt_files := (rt_files r)(key_file i \<mapsto> w), rt_key := Some (rotated_key k k0), rt_error := []\<rparr>"
  have rot: "soci_rotate_key sha disk pq i r = Some (SOCI_OK, ?r)"
    using assms(2-6)
    by (simp add: soci_rotate_key_def api_call_open [OF assms(1)] eff_simps need_def api_keygen_def api_path_def
        save_off_key_def Let_def rotated_key_def)
  obtain e where e: "load_blob sha w (rt_mode r) role = Inl (StdRuntimeError e)"
    using load_blob_torn [where sha = sha, OF assms(7)] by blast
  have opened: "\<not> rt_closed ?r" using assms(1) by simp
  have "soci_open_key sha i role ?r = Some (SOCI_CRYPTO_ERROR, ?r\<lparr>rt_error := e\<rparr>)"
    by (simp add: soci_open_key_def api_call_open [OF opened] eff_simps api_path_def assms(4) load_off_key_def e)
  with rot show ?thesis by (intro exI [of _ ?r] exI) auto
qed

section \<open>Instances\<close>

definition sample_info :: key_info where
  "sample_info = \<lparr>struct_version = 1, modulus_bits = 3072, key_version = 1, ki_role = 0, ki_mode = 0, key_id = ''unit''\<rparr>"

definition sample_runtime :: soci_runtime where
  "sample_runtime = (runtime_create (\<lambda>_. None) SOCI_MODE_OFF sample_rng)
     \<lparr>rt_key := Some (key.extend sample_key \<lparr>k_info = sample_info\<rparr>)\<rparr>"

definition file_hash :: "bytes \<Rightarrow> bytes" where
  "file_hash b = replicate 32 (sum_list b)"

text \<open>The primes 5 and 7 stand for what key generation draws.\<close>

lemma sample_keygen_5_7:
  "keygen 3072 5 (\<lambda>_. 7) = Some (Inr \<lparr>k_pub = \<lparr>pk_n = 35, pk_nsq = 1225\<rparr>, k_sec = \<lparr>sk_lambda = 12, sk_mu = 3\<rparr>\<rparr>)"
proof -
  have "keygen_primes 5 7 = Inr \<lparr>k_pub = \<lparr>pk_n = 35, pk_nsq = 1225\<rparr>, k_sec = \<lparr>sk_lambda = 12, sk_mu = 3\<rparr>\<rparr>" by code_simp
  then show ?thesis by (simp add: keygen_def sample_keygen)
qed

lemma sample_create:
  "\<exists>r'. soci_create_key file_hash Some (5, \<lambda>_. 7) ''unit'' 3072 0 (runtime_create (\<lambda>_. None) SOCI_MODE_OFF sample_rng) =
     Some (SOCI_OK, r') \<and> rt_files r' (key_file ''unit'') \<noteq> None \<and> rt_key r' \<noteq> None"
proof -
  have id: "valid_id ''unit''" by (simp add: valid_id_def isalnum_c_def isdigit_c_def)
  show ?thesis
    by (simp add: soci_create_key_def api_call_open runtime_create_def eff_simps api_keygen_def sample_keygen_5_7 api_path_def id
        save_off_key_def Let_def)
qed

lemma sample_good_primes: "good_primes (unat (3072 :: 32 word)) (5, \<lambda>_. 7)"
proof -
  have p: "prime_int 5" "prime_int 7" by (rule prime_below_1024, code_simp)+
  have "(2::int) ^ 3 \<le> 2 ^ 1536" by (rule power_increasing) simp_all
  with p show ?thesis by (simp add: good_primes_def)
qed

theorem key_store_typed_witness:
  "\<exists>r k. (api_step file_hash)\<^sup>*\<^sup>* (runtime_create (\<lambda>_. None) SOCI_MODE_OFF sample_rng) r \<and>
     soci_open_key file_hash ''unit'' SOCI_ROLE_FULL r = Some (SOCI_OK, r\<lparr>rt_key := Some k, rt_error := []\<rparr>) \<and>
     good_key (key.truncate k) \<and> key_id (k_info k) = ''unit''"
proof -
  obtain r where r: "soci_create_key file_hash Some (5, \<lambda>_. 7) ''unit'' 3072 0 (runtime_create (\<lambda>_. None) SOCI_MODE_OFF sample_rng) =
      Some (SOCI_OK, r)" "rt_files r (key_file ''unit'') \<noteq> None" using sample_create by blast
  have steps: "(api_step file_hash)\<^sup>*\<^sup>* (runtime_create (\<lambda>_. None) SOCI_MODE_OFF sample_rng) r"
    using api_step.create [OF r(1) sample_good_primes] by blast
  have id: "valid_id ''unit''" by (simp add: valid_id_def isalnum_c_def isdigit_c_def)
  have "length (file_hash b) = 32" for b by (simp add: file_hash_def)
  from key_store_typed [of file_hash, OF this steps] id r(2) steps show ?thesis by auto
qed

text \<open>A disk that loses the last byte of a file.\<close>

definition sample_rotated :: api_key where
  "sample_rotated = \<lparr>k_pub = \<lparr>pk_n = 35, pk_nsq = 1225\<rparr>, k_sec = \<lparr>sk_lambda = 12, sk_mu = 3\<rparr>,
     k_info = \<lparr>struct_version = 1, modulus_bits = 3072, key_version = 2, ki_role = 0, ki_mode = 0, key_id = ''unit''\<rparr>\<rparr>"

lemma sample_torn:
  "let w = butlast (key_blob file_hash sample_rotated) in
   56 \<le> length w \<and> file_hash (take (length w - 32) w) \<noteq> drop (length w - 32) w"
  by code_simp

theorem rotate_short_write_witness:
  "\<exists>r' r''. soci_rotate_key file_hash (\<lambda>b. Some (butlast b)) (5, \<lambda>_. 7) ''unit'' sample_runtime = Some (SOCI_OK, r') \<and>
     rt_files r' (key_file ''unit'') = Some (butlast (key_blob file_hash sample_rotated)) \<and>
     56 \<le> length (butlast (key_blob file_hash sample_rotated)) \<and>
     soci_open_key file_hash ''unit'' SOCI_ROLE_FULL r' = Some (SOCI_CRYPTO_ERROR, r'')"
proof -
  let ?k = "key.extend sample_key \<lparr>k_info = sample_info\<rparr>"
  have "rt_key sample_runtime = Some ?k" "\<not> rt_closed sample_runtime" "key_id (k_info ?k) = ''unit''"
    "unat (modulus_bits (k_info ?k)) = 3072"
    by (simp_all add: sample_runtime_def runtime_create_def sample_info_def key.defs)
  moreover have "valid_id ''unit''" by (simp add: valid_id_def isalnum_c_def isdigit_c_def)
  moreover have "rotated_key ?k \<lparr>k_pub = \<lparr>pk_n = 35, pk_nsq = 1225\<rparr>, k_sec = \<lparr>sk_lambda = 12, sk_mu = 3\<rparr>\<rparr> = sample_rotated"
    by (simp add: rotated_key_def sample_rotated_def sample_info_def key.defs)
  ultimately show ?thesis
    using rotate_short_write [of sample_runtime ?k "''unit''" "(5, \<lambda>_. 7)" _ "\<lambda>b. Some (butlast b)" file_hash]
      sample_keygen_5_7 sample_torn by (simp add: Let_def)
qed

end
