(* ===== verification/CApi.thy ===== *)
theory CApi
  imports KeyStore
begin

text \<open>
  The wrapper \<open>Runtime\<close> (include/soci/soci.hpp) over the status codes, buffers and messages of the C API.
  Theory OffRuntime describes the wrapper by \<open>runtime_bytes\<close>, on the open key and the generator alone; here the
  two descriptions are shown to agree for every operation on ciphertexts.
\<close>

section \<open>The wrapper over the C API\<close>

text \<open>\<open>bytes\<close>: the size is asked for, then the output is, three times at most.\<close>

primrec api_attempts :: "(soci_runtime, bytes) eff \<Rightarrow> nat \<Rightarrow> nat \<Rightarrow> (soci_runtime, bytes) eff" where
  "api_attempts f 0 n = throw (SociError ''output size changed repeatedly'')"
| "api_attempts f (Suc i) n = (\<lambda>r. case bout f (n \<noteq> 0) (Some n) r of
     None \<Rightarrow> None
   | Some ((s, v, n'), r') \<Rightarrow>
       if s = SOCI_OK then Some (Inr (the v), r')
       else if s \<noteq> SOCI_BUFFER_TOO_SMALL then Some (Inl (SociError (rt_error r')), r')
       else api_attempts f i (the n') r')"

definition api_bytes :: "(soci_runtime, bytes) eff \<Rightarrow> (soci_runtime, bytes) eff" where
  "api_bytes f = (\<lambda>r. case bout f False (Some 0) r of
     None \<Rightarrow> None
   | Some ((s, v, n'), r') \<Rightarrow>
       if s \<noteq> SOCI_BUFFER_TOO_SMALL \<and> s \<noteq> SOCI_OK then Some (Inl (SociError (rt_error r')), r')
       else api_attempts f 3 (the n') r')"

section \<open>Computations that do not mimic the buffer protocol\<close>

text \<open>\<open>quiet R m\<close>: no exception of \<open>m\<close> carries the message that stands for a small buffer, and what it returns
  satisfies \<open>R\<close>.\<close>

definition quiet :: "('a \<Rightarrow> bool) \<Rightarrow> ('s, 'a) eff \<Rightarrow> bool" where
  "quiet R m \<longleftrightarrow> (\<forall>s. case m s of None \<Rightarrow> True
     | Some (r, _) \<Rightarrow> (case r of Inl e \<Rightarrow> exn_what e \<noteq> ''buffer too small'' | Inr a \<Rightarrow> R a))"

abbreviation hushed :: "('s, 'a) eff \<Rightarrow> bool" where
  "hushed \<equiv> quiet (\<lambda>_. True)"

lemma quiet_bnd:
  assumes "hushed m" "\<And>a. quiet R (f a)"
  shows "quiet R (bnd m f)"
  unfolding quiet_def
proof
  fix s
  show "case bnd m f s of None \<Rightarrow> True
     | Some (r, _) \<Rightarrow> (case r of Inl e \<Rightarrow> exn_what e \<noteq> ''buffer too small'' | Inr a \<Rightarrow> R a)"
  proof (cases "m s")
    case (Some y)
    then obtain r u where m: "m s = Some (r, u)" by (cases y) simp
    show ?thesis
    proof (cases r)
      case (Inl e)
      with assms(1) m show ?thesis unfolding quiet_def by (auto simp: eff_simps dest: spec [of _ s])
    next
      case (Inr a)
      with assms(2) [of a] m show ?thesis unfolding quiet_def by (simp add: eff_simps)
    qed
  qed (simp add: eff_simps)
qed

lemma quiet_ret: "R a \<Longrightarrow> quiet R (ret a)"
  by (simp add: quiet_def eff_simps)

lemma quiet_throw: "exn_what e \<noteq> ''buffer too small'' \<Longrightarrow> quiet R (throw e)"
  by (simp add: quiet_def eff_simps)

lemma quiet_of_sum:
  "(\<And>e. r = Inl e \<Longrightarrow> exn_what e \<noteq> ''buffer too small'') \<Longrightarrow> (\<And>a. r = Inr a \<Longrightarrow> R a) \<Longrightarrow> quiet R (of_sum r)"
  by (simp add: quiet_def eff_simps split: sum.splits)

lemma hushed_draw: "hushed (draw t f)"
  by (simp add: quiet_def draw_def)

lemma quietD: "quiet R m \<Longrightarrow> m s = Some (Inl e, u) \<Longrightarrow> exn_what e \<noteq> ''buffer too small''"
  unfolding quiet_def by (auto dest: spec [of _ s])

lemma hushed_repeat:
  assumes "hushed (m :: ('b, 'a) eff)"
  shows "hushed (repeat_until m P)"
proof -
  let ?Q = "\<lambda>m (y :: (exn + 'a) \<times> 'b). hushed m \<longrightarrow> (\<forall>e. fst y = Inl e \<longrightarrow> exn_what e \<noteq> ''buffer too small'')"
  have "?Q m y" if "repeat_until m P s = Some y" for s y
  proof -
    have "case ((m, P), s) of ((m, P), s) \<Rightarrow> ?Q m y"
    proof (rule repeat_until.raw_induct [OF _ that, where Pa = "\<lambda>c y. case c of ((m, P), s) \<Rightarrow> ?Q m y"])
      fix rec m P s y
      assume rec: "\<And>P s b y. rec P s b = Some y \<Longrightarrow> case ((P, s), b) of ((m, P), s) \<Rightarrow> ?Q m y"
        and eq: "(case m s of None \<Rightarrow> None | Some (Inl e, s') \<Rightarrow> Some (Inl e, s')
          | Some (Inr a, s') \<Rightarrow> if P a then Some (Inr a, s') else rec m P s') = Some y"
      show "case ((m, P), s) of ((m, P), s) \<Rightarrow> ?Q m y"
        unfolding prod.case
      proof (intro impI allI)
        fix e assume h: "hushed m" and e: "fst y = Inl e"
        from eq obtain r u where m: "m s = Some (r, u)" by (auto split: option.splits)
        show "exn_what e \<noteq> ''buffer too small''"
        proof (cases r)
          case (Inl e')
          with eq m e h show ?thesis using quietD [of _ m s] by auto
        next
          case (Inr a)
          with eq m e have "rec m P u = Some y" by (auto split: if_splits)
          from rec [OF this] h e show ?thesis by simp
        qed
      qed
    qed
    then show ?thesis by simp
  qed
  with assms have "exn_what e \<noteq> ''buffer too small''" if "repeat_until m P s = Some (Inl e, u)" for s e u
    using that by fastforce
  then show ?thesis unfolding quiet_def by (auto split: option.splits prod.splits sum.splits)
qed

lemma quiet_pure:
  "hushed (of_sum (cinv c n))" "hushed (of_sum (decrypt k c))" "hushed (ct mode p)"
  unfolding ct_def
  by (auto intro!: quiet_of_sum simp: cinv_def decrypt_def decode_object_def decodeCanonicalCiphertext_def Let_def
      split: option.splits if_splits)

lemma quiet_encct: "quiet (\<lambda>v. v \<noteq> []) (encct mode z)"
  unfolding encct_def
  by (rule quiet_of_sum) (auto simp: encode_object_def encodeCanonicalCiphertext_def soci_magic_def Let_def split: if_splits)

lemma hushed_random: "hushed (random128 t)" "hushed (get_z_bits t b)" "hushed (get_z_range t n)"
  by (simp_all add: random128_def get_z_bits_def get_z_range_def hushed_draw)

lemma hushed_encrypt: "hushed (encrypt k m)"
  unfolding encrypt_def Let_def by (intro quiet_bnd hushed_repeat hushed_random quiet_ret) simp

lemma hushed_less: "hushed (soci_plus_less k x y)"
  unfolding soci_plus_less_def Let_def
  by (intro quiet_bnd hushed_random hushed_repeat)
    (auto intro!: quiet_bnd hushed_random hushed_encrypt quiet_pure quiet_ret)

lemma hushed_mul: "hushed (soci_plus_mul k x y)"
  unfolding soci_plus_mul_def Let_def
  by (intro quiet_bnd hushed_random hushed_encrypt quiet_pure quiet_ret) simp

lemma hushed_sign: "hushed (soci_plus_sign k x)"
  unfolding soci_plus_sign_def by (intro quiet_bnd hushed_encrypt hushed_less)

lemma hushed_abs: "hushed (soci_plus_abs k x)"
  unfolding soci_plus_abs_def Let_def by (intro quiet_bnd hushed_encrypt hushed_sign hushed_mul)

text \<open>The operations on ciphertexts.\<close>

lemma quiet_operations:
  "quiet (\<lambda>v. v \<noteq> []) (soci_encrypt k mode m)"
  "quiet (\<lambda>v. v \<noteq> []) (soci_add k mode a b)"
  "quiet (\<lambda>v. v \<noteq> []) (soci_scalar_mul k mode a x)"
  "quiet (\<lambda>v. v \<noteq> []) (soci_secure_mul k mode a b)"
  "quiet (\<lambda>v. v \<noteq> []) (soci_secure_compare k mode a b)"
  "quiet (\<lambda>v. v \<noteq> []) (soci_secure_sign_bit k mode a)"
  "quiet (\<lambda>v. v \<noteq> []) (soci_secure_abs k mode a)"
  unfolding soci_encrypt_def soci_add_def soci_scalar_mul_def soci_secure_mul_def soci_secure_compare_def
    soci_secure_sign_bit_def soci_secure_abs_def Let_def
  by (intro quiet_bnd quiet_pure hushed_encrypt hushed_less hushed_mul hushed_sign hushed_abs quiet_encct;
      auto intro!: quiet_encct quiet_throw split: option.splits)+

section \<open>Agreement\<close>

lemma bout_open:
  assumes "\<not> rt_closed r" "rt_key r = Some k"
  shows "bout (with_key g) out (Some n) r = (case g (key.truncate k) (rt_mode r) (rt_rng r) of
     None \<Rightarrow> None
   | Some (Inl e, h) \<Rightarrow> Some ((if exn_what e = ''buffer too small'' then SOCI_BUFFER_TOO_SMALL else status_of e, None, Some n),
       r\<lparr>rt_rng := h, rt_error := exn_what e\<rparr>)
   | Some (Inr v, h) \<Rightarrow> Some (if out \<and> length v \<le> n
       then ((SOCI_OK, Some v, Some (length v)), r\<lparr>rt_rng := h, rt_error := []\<rparr>)
       else ((SOCI_BUFFER_TOO_SMALL, None, Some (length v)), r\<lparr>rt_rng := h, rt_error := ''buffer too small''\<rparr>)))"
  using assms by (auto simp: bout_def api_run_def with_key_def need_def api_output_def eff_simps not_less
      split: option.splits prod.splits sum.splits)

lemma status_of_error: "status_of e \<noteq> SOCI_OK \<and> status_of e \<noteq> SOCI_BUFFER_TOO_SMALL"
  by (cases e) simp_all

text \<open>The same answer, with the same draws from the generator and nothing else of the runtime changed but the
  recorded message.\<close>

definition same_answer ::
  "soci_runtime \<Rightarrow> ((exn + 'a) \<times> soci_runtime) option \<Rightarrow> ((exn + 'a) \<times> rng) option \<Rightarrow> bool" where
  "same_answer r a b \<longleftrightarrow> (case b of None \<Rightarrow> a = None
     | Some (x, h) \<Rightarrow> \<exists>e. a = Some (x, r\<lparr>rt_rng := h, rt_error := e\<rparr>))"

lemma attempts_agree:
  assumes "\<not> rt_closed r" "rt_key r = Some k" "quiet (\<lambda>v. v \<noteq> []) (g (key.truncate k) (rt_mode r))"
  shows "same_answer r (api_attempts (with_key g) i n (r\<lparr>rt_rng := h, rt_error := e\<rparr>))
    (bytes_attempts (g (key.truncate k) (rt_mode r)) i n h)"
proof (induction i arbitrary: n h e)
  case 0
  show ?case by (auto simp: same_answer_def eff_simps)
next
  case (Suc i)
  let ?g = "g (key.truncate k) (rt_mode r)" and ?r = "r\<lparr>rt_rng := h, rt_error := e\<rparr>"
  have o: "\<not> rt_closed ?r" "rt_key ?r = Some k" using assms by simp_all
  show ?case
  proof (cases "?g h")
    case None
    then show ?thesis by (simp add: same_answer_def bout_open [OF o] eff_simps rt_check_def)
  next
    case (Some y)
    then obtain x u where y: "?g h = Some (x, u)" by (cases y) simp
    show ?thesis
    proof (cases x)
      case (Inl ex)
      with y assms(3) have "exn_what ex \<noteq> ''buffer too small''" by (auto dest: quietD)
      with y Inl show ?thesis
        by (auto simp: same_answer_def bout_open [OF o] eff_simps rt_check_def status_of_error)
    next
      case (Inr v)
      have "v \<noteq> []" using assms(3) y Inr unfolding quiet_def by (auto dest: spec [of _ h])
      then have a: "api_attempts (with_key g) (Suc i) n ?r = (if length v \<le> n then Some (Inr v, r\<lparr>rt_rng := u, rt_error := []\<rparr>)
          else api_attempts (with_key g) i (length v) (r\<lparr>rt_rng := u, rt_error := ''buffer too small''\<rparr>))"
        using y Inr by (auto simp: bout_open [OF o])
      have b: "bytes_attempts ?g (Suc i) n h = (if length v \<le> n then Some (Inr v, u) else bytes_attempts ?g i (length v) u)"
        using y Inr by (simp add: eff_simps rt_check_def)
      show ?thesis unfolding a b using Suc [where n = "length v" and h = u and e = "''buffer too small''"]
        by (auto simp: same_answer_def)
    qed
  qed
qed

lemma bytes_agree:
  assumes "\<not> rt_closed r" "rt_key r = Some k" "quiet (\<lambda>v. v \<noteq> []) (g (key.truncate k) (rt_mode r))"
  shows "same_answer r (api_bytes (with_key g) r) (runtime_bytes (g (key.truncate k) (rt_mode r)) (rt_rng r))"
proof (cases "g (key.truncate k) (rt_mode r) (rt_rng r)")
  case None
  then show ?thesis by (simp add: same_answer_def api_bytes_def runtime_bytes_def bout_open [OF assms(1,2)] eff_simps rt_check_def)
next
  case (Some y)
  then obtain x u where y: "g (key.truncate k) (rt_mode r) (rt_rng r) = Some (x, u)" by (cases y) simp
  show ?thesis
  proof (cases x)
    case (Inl ex)
    with y assms(3) have "exn_what ex \<noteq> ''buffer too small''" by (auto dest: quietD)
    with y Inl show ?thesis
      by (auto simp: same_answer_def api_bytes_def runtime_bytes_def bout_open [OF assms(1,2)] eff_simps rt_check_def status_of_error)
  next
    case (Inr v)
    with y show ?thesis using attempts_agree [where g = g, OF assms, where i = 3 and n = "length v" and h = u and e = "''buffer too small''"]
      by (simp add: api_bytes_def runtime_bytes_def bout_open [OF assms(1,2)] eff_simps rt_check_def)
  qed
qed

text \<open>C23: For every operation on ciphertexts, the wrapper that works with the status codes, the buffers and the
  recorded message of the C API gives, on a runtime with an open key, the answer of the wrapper's plain
  description, with the same draws from the generator.\<close>

theorem wrapper_agrees:
  assumes "\<not> rt_closed r" "rt_key r = Some k"
    and "g \<in> {\<lambda>k mode. soci_encrypt k mode m, \<lambda>k mode. soci_add k mode a b, \<lambda>k mode. soci_scalar_mul k mode a m,
      \<lambda>k mode. soci_secure_mul k mode a b, \<lambda>k mode. soci_secure_compare k mode a b,
      \<lambda>k mode. soci_secure_sign_bit k mode a, \<lambda>k mode. soci_secure_abs k mode a}"
  shows "same_answer r (api_bytes (with_key g) r) (runtime_bytes (g (key.truncate k) (rt_mode r)) (rt_rng r))"
proof (rule bytes_agree [OF assms(1,2)])
  show "quiet (\<lambda>v. v \<noteq> []) (g (key.truncate k) (rt_mode r))"
    using assms(3) quiet_operations by auto
qed

theorem wrapper_agrees_witness:
  "same_answer sample_runtime
     (api_bytes (with_key (\<lambda>k mode. soci_encrypt k mode 7)) sample_runtime)
     (runtime_bytes (soci_encrypt sample_key 0 7) sample_rng)"
  using wrapper_agrees [of sample_runtime "key.extend sample_key \<lparr>k_info = sample_info\<rparr>" "\<lambda>k mode. soci_encrypt k mode 7" 7 "[]" "[]"]
  by (simp add: sample_runtime_def runtime_create_def key_of_extend)

end
