(* ===== verification/Spec2Isabelle.thy ===== *)
theory Spec2Isabelle
  imports SociPlus CheckedSolver Wire OffRuntime LagrangianGrid EncryptedSearch Garbled HostCalls ThresholdOptimizer PegaService ScalableRun CsvInput CApi
begin

text \<open>
  A verification development for the SOCI SGX SDK, a library for optimization on encrypted costs.

  \<^bold>\<open>The program.\<close> A table of costs (one row per material, three methods per row, some missing) and a
  threshold are given; an assignment of methods is feasible when methods 1 and 2 carry at least the
  threshold's share of the cost and method 3 carries some, and the cheapest feasible assignment is sought.
  The same problem is solved on plain costs by branch and bound (src/optimization.cpp) and by a genetic search
  (src/scalable_optimizer.cpp), and on encrypted costs by branch and bound (src/encrypted_branch_bound.cpp)
  and by a genetic search that reveals nothing (src/confidential_scalable_optimizer.cpp). The encrypted
  optimizers compute through the interface \<open>SecureOps\<close> (src/secure_ops.cpp) and ask yes-or-no
  questions about encrypted values through the predicate engine (src/predicate_engine.cpp). Two backends
  provide the interface: the OFF backend holds the key of a Paillier cryptosystem and computes comparisons,
  products and quotients with the SOCI-plus operators (src/crypto.cpp, src/c_api.cpp); the threshold backend
  (src/protocol/) runs a protocol between a client and a server (the CSP) whose enclaves
  (trusted/common/enclave_core.c) hold the two shares of a key. A predicate is evaluated there gate by gate, or
  as one garbled circuit whose labels are handed over by an oblivious transfer.

  \<^bold>\<open>How code is modelled.\<close> A C++ member function is a state transformer \<open>('s, 'a) eff\<close> (theory
  SociPrelude): it may throw (exceptions are the values of \<open>exn\<close>) and it may fail to return (\<open>None\<close>: the
  loops that reject random numbers are \<open>repeat_until\<close>). The judgement \<open>yields I E m R\<close> is total
  correctness: from every state in \<open>I\<close> the function returns, in a state in \<open>I\<close>, an exception in \<open>E\<close>
  or a value in \<open>R\<close>; \<open>runs\<close> is the same with a relation between the states. Fixed-width integers are
  words where they may wrap (labels, frames, counters, random draws) and integers where the development shows
  that they stay in range (\<open>optimize_plain_no_overflow\<close>, \<open>coefficient_bound_range\<close>, \<open>pega_validate_fits\<close>).
  Random sources, the socket's transfer sizes and SHA-256 are parameters. Arguments of one call are
  evaluated from left to right where C++ leaves the order open.

  \<^bold>\<open>Theories and sources.\<close>
  SociPrelude: exceptions, effects, judgements, lists. NumberTheory: powers and inverses modulo n.
  Randomness: \<open>gmp_randclass\<close>, random bytes, rejection loops. RandomEngine: \<open>std::mt19937_64\<close>, rounding to
  \<open>double\<close> and \<open>long double\<close>.
  CostModel: the optimization problem and exhaustive search, the specification of all optimizers.
  FixedPoint: src/fixed_point.hpp. ExactSolver: the plain branch and bound of src/optimization.cpp; LegacyOptimizer:
  its \<open>Optimizer\<close> with the exhaustive search on encrypted costs; CheckedSolver: the branch and bound
  with every 64-bit and 128-bit result checked; CsvInput: its CSV input. ScalableOptimizer and ScalableRun:
  src/scalable_optimizer.cpp. LagrangianGrid: src/lagrangian_relaxation.cpp.
  Paillier, SociPlus: src/crypto.cpp, src/c_api.cpp. SecureOps: the interface with its derived operations
  (locale \<open>secure_ops\<close>). PredicateEngine: src/predicate_engine.cpp (locale \<open>predicate_env\<close>, which extends the
  former). OffRuntime: include/soci/soci.hpp and \<open>RuntimeSecureOps\<close>; it interprets both locales for the OFF backend.
  KeyStore: the runtime object of src/c_api.cpp and src/runtime.cpp with the key files of src/serialization.cpp; CApi: the
  wrapper over its status codes and buffers.
  EncryptedBB and EncryptedSearch: src/encrypted_branch_bound.cpp. CountedOps and Pega:
  src/confidential_scalable_optimizer.cpp (locale \<open>batched_ops\<close>, an extension of \<open>secure_ops\<close> by batches);
  GeneticPlan: its plain specification; PegaRefine, PegaRepair, PegaRun: the refinement; PegaService: both
  backends, and the threshold protocol.
  Wire: src/protocol/threshold_wire.cpp, src/ciphertext_codec.hpp, src/serialization.cpp. Messages: the fields
  of requests and replies. Enclave: trusted/common/enclave_core.c. HostCalls: the host side of the enclave
  calls. Garbled: the garbled circuits. CspService: the server. ThresholdClient, ThresholdSingle and
  ThresholdFused: the client's batches, single items and fused predicate, with the server's side of each.
  ThresholdBackend: \<open>ThresholdSecureOps\<close>; it interprets both locales for the protocol.
  ThresholdService: the properties of the protocol. ThresholdOptimizer: src/protocol/threshold_optimizer.cpp.
  SampleKey, TransferKey and SampleWorld: the keys, the client and the server at which the properties are instantiated.

  \<^bold>\<open>What the lemmas show.\<close>
  Plain optimizers: the branch and bound returns exactly the optimum of exhaustive search
  (\<open>optimize_plain_optimal\<close>), without overflow (\<open>optimize_plain_no_overflow\<close>); the genetic search
  always ends, with a feasible assignment that is no cheaper than the optimum, after a convergence record that never
  rises, or with the report that it found none, which it may give although there is one, but not if the assignment of
  the cheapest methods is feasible; its repair fails only where no single change helps. A CSV text gives back the table it was written from.
  Cryptography: keys decrypt what they encrypt, the homomorphic operations and the SOCI-plus operators compute
  what they should (the quotient only up to 21 bits, as in the code), for plaintexts within the bound
  \<open>off_bound\<close> and every key with more than 260 bits.
  Key files: a file gives back the key it was written from; any sequence of calls on a runtime keeps every key file a
  working key of its name, as long as the disk takes what is written (\<open>rotate_short_write\<close> shows what happens otherwise).
  Encrypted optimizers: over any backend that keeps the contract \<open>secure_ops\<close> the branch and bound ends
  with an encryption of the optimum (\<open>bb_solve_runs\<close>), and the genetic search with encryptions of what the
  plain search of GeneticPlan finds from the same seed. These hold for both backends; for the threshold protocol the
  assumption is only that client and server are linked (the shares, moduli and state of the two sides fit), which is
  shown of a freshly deployed pair, with every setting of the number of threads that the code accepts. The older exhaustive search ends, over the OFF backend that it is written for, with
  the first cheapest assignment of those it admits.
  Predicates: no session and operation is ever answered twice, by the engine or by the server, whatever the peers send;
  the fused and the gate-level evaluation decide alike.
  Protocol: framing, codecs and messages are inverse to each other; multiplication, comparison, division and the
  fused predicate answer encryptions of the right values over the bytes of the frames.

  \<^bold>\<open>Bounds and fuel.\<close> No function of the model carries fuel. Rejection loops end because the random
  source is assumed to accept eventually (it is part of the state invariants); \<open>receiveFrame\<close> and
  \<open>sendFrame\<close> end because each transfer moves at least one byte; the greedy repair ends because
  the slack rises in every round. The one loop that does not end is a property:
  \<open>threshold_keygen_diverges\<close>. Compared values stay below \<open>off_bound = 2 ^ 127\<close>.

  \<^bold>\<open>Not modelled.\<close> The JNI and Python bindings and the demo's JSON glue (conversion around modelled
  calls); argument parsing, sockets' set-up and output of the services (I/O); null pointers other than output
  buffers; clocks, timing fields and allocation failure; the SGX runtime, sealing and the primality test of GMP (parameters); the final division of
  integer results into doubles; rates that are not numbers; src/tests, benchmarks and scripts.
\<close>

end
